(* ===== verification/Prelude.thy ===== *)
theory Prelude
  imports Main "HOL-Library.Word" "HOL-Library.Monad_Syntax"
begin

text \<open>
  Shared vocabulary of the development: the names of the C integer types, checked
  access to byte memory, and the generic lemmas on lists, options and words that the
  component theories use.

  A C object of known size is a list; an access through a pointer and a length is
  \<open>ld\<close> or \<open>st\<close>, which return \<open>None\<close> when the access leaves the object or when the
  length is negative (the code passes a negative \<open>int\<close> to \<open>memcpy\<close>, where it becomes
  a huge \<open>size_t\<close>).  So \<open>None\<close> always means undefined behaviour of the C program, and
  a theorem \<open>f s = Some r\<close> includes memory safety of that call.
\<close>

unbundle bit_operations_syntax

type_synonym u8 = "8 word"
type_synonym u16 = "16 word"
type_synonym u32 = "32 word"
type_synonym u64 = "64 word"
type_synonym bytes = "8 word list"

named_theorems mem_simps \<open>facts about checked loads and stores\<close>
named_theorems word_simps \<open>facts about byte and word composition\<close>

subsection \<open>Checked memory access\<close>

definition ld :: "'a list \<Rightarrow> int \<Rightarrow> int \<Rightarrow> 'a list option" where
  "ld m off n = (if 0 \<le> off \<and> 0 \<le> n \<and> off + n \<le> int (length m)
                 then Some (take (nat n) (drop (nat off) m)) else None)"

definition st :: "'a list \<Rightarrow> int \<Rightarrow> 'a list \<Rightarrow> 'a list option" where
  "st m off xs = (if 0 \<le> off \<and> off + int (length xs) \<le> int (length m)
                  then Some (take (nat off) m @ xs @ drop (nat off + length xs) m) else None)"

definition ld1 :: "'a list \<Rightarrow> int \<Rightarrow> 'a option" where
  "ld1 m i = (if 0 \<le> i \<and> i < int (length m) then Some (m ! nat i) else None)"

definition st1 :: "'a list \<Rightarrow> int \<Rightarrow> 'a \<Rightarrow> 'a list option" where
  "st1 m i v = (if 0 \<le> i \<and> i < int (length m) then Some (m[nat i := v]) else None)"

definition guard :: "bool \<Rightarrow> unit option" where
  "guard b = (if b then Some () else None)"

text \<open>\<open>memcmp (m + off, needle + noff, n) == 0\<close>.\<close>

definition mem_eq :: "'a list \<Rightarrow> int \<Rightarrow> 'a list \<Rightarrow> int \<Rightarrow> int \<Rightarrow> bool option" where
  "mem_eq m off needle noff n =
     do { a \<leftarrow> ld m off n; b \<leftarrow> ld needle noff n; Some (a = b) }"

text \<open>The range of a C \<open>int\<close>; signed overflow is undefined behaviour.\<close>

abbreviation int_max :: int where
  "int_max \<equiv> 2147483647"

lemma guard_simps [simp]:
  "guard True = Some ()" "guard False = None" "guard b = Some u \<longleftrightarrow> b"
  by (simp_all add: guard_def)

lemma ld_Some [mem_simps]:
  "0 \<le> off \<Longrightarrow> 0 \<le> n \<Longrightarrow> off + n \<le> int (length m) \<Longrightarrow>
   ld m off n = Some (take (nat n) (drop (nat off) m))"
  by (simp add: ld_def)

lemma st_Some [mem_simps]:
  "0 \<le> off \<Longrightarrow> off + int (length xs) \<le> int (length m) \<Longrightarrow>
   st m off xs = Some (take (nat off) m @ xs @ drop (nat off + length xs) m)"
  by (simp add: st_def)

lemma ld1_Some [mem_simps]: "0 \<le> i \<Longrightarrow> i < int (length m) \<Longrightarrow> ld1 m i = Some (m ! nat i)"
  by (simp add: ld1_def)

lemma st1_Some [mem_simps]: "0 \<le> i \<Longrightarrow> i < int (length m) \<Longrightarrow> st1 m i v = Some (m[nat i := v])"
  by (simp add: st1_def)

lemma ld_nat: "a + l \<le> length m \<Longrightarrow> ld m (int a) (int l) = Some (take l (drop a m))"
  by (simp add: ld_def)

lemma ld_nat0: "l \<le> length m \<Longrightarrow> ld m 0 (int l) = Some (take l m)"
  by (simp add: ld_def)

lemma ld_uint: "unat n \<le> length m \<Longrightarrow> ld m 0 (uint n) = Some (take (unat n) m)"
  using ld_nat0 [of "unat n" m] by simp

lemma ld1_uint: "ld1 m (uint x) = (if unat x < length m then Some (m ! unat x) else None)"
proof -
  have "uint x = int (unat x)" by simp
  then show ?thesis unfolding ld1_def by (simp only: nat_int of_nat_less_iff of_nat_0_le_iff simp_thms)
qed

lemma ld1_nat: "ld1 m (int i) = (if i < length m then Some (m ! i) else None)"
  by (simp add: ld1_def)

lemma st1_nat: "st1 m (int i) v = (if i < length m then Some (m[i := v]) else None)"
  by (simp add: st1_def)

lemma take_plus3: "n + 3 \<le> length xs \<Longrightarrow> take (n + 3) xs = take n xs @ [xs ! n, xs ! (n + 1), xs ! (n + 2)]"
  using take_Suc_conv_app_nth [of n xs] take_Suc_conv_app_nth [of "Suc n" xs]
    take_Suc_conv_app_nth [of "Suc (Suc n)" xs]
  by (simp add: numeral_3_eq_3)

lemma st_nat: "a + length xs \<le> length m \<Longrightarrow>
   st m (int a) xs = Some (take a m @ xs @ drop (a + length xs) m)"
  by (simp add: st_def)

lemma st_nat0: "length xs \<le> length m \<Longrightarrow> st m 0 xs = Some (xs @ drop (length xs) m)"
  by (simp add: st_def)

lemma ld_eq_Some_iff:
  "ld m off n = Some xs \<longleftrightarrow>
   0 \<le> off \<and> 0 \<le> n \<and> off + n \<le> int (length m) \<and> xs = take (nat n) (drop (nat off) m)"
  by (auto simp: ld_def)

lemma st_eq_Some_iff:
  "st m off xs = Some m' \<longleftrightarrow>
   0 \<le> off \<and> off + int (length xs) \<le> int (length m) \<and>
   m' = take (nat off) m @ xs @ drop (nat off + length xs) m"
  by (auto simp: st_def)

lemma mem_eq_Some [mem_simps]:
  "0 \<le> off \<Longrightarrow> 0 \<le> noff \<Longrightarrow> 0 \<le> n \<Longrightarrow> off + n \<le> int (length m) \<Longrightarrow>
   noff + n \<le> int (length needle) \<Longrightarrow>
   mem_eq m off needle noff n =
     Some (take (nat n) (drop (nat off) m) = take (nat n) (drop (nat noff) needle))"
  by (simp add: mem_eq_def ld_Some)

lemma ld_length: "ld m off n = Some xs \<Longrightarrow> length xs = nat n"
  by (auto simp: ld_eq_Some_iff)

lemma st_length: "st m off xs = Some m' \<Longrightarrow> length m' = length m"
  by (auto simp: st_eq_Some_iff)

lemma st1_length: "st1 m i v = Some m' \<Longrightarrow> length m' = length m"
  by (auto simp: st1_def split: if_splits)

lemma ld_st_same: "st m off xs = Some m' \<Longrightarrow> ld m' off (int (length xs)) = Some xs"
  by (auto simp: st_eq_Some_iff ld_eq_Some_iff)

subsection \<open>Options\<close>

lemma bind_eq_Some_iff: "Option.bind x f = Some y \<longleftrightarrow> (\<exists>a. x = Some a \<and> f a = Some y)"
  by (cases x) auto

lemma bind_Some_eq: "Option.bind (Some x) f = f x"
  by simp

lemma bind_Some_map: "Option.bind x (\<lambda>a. Some (f a)) = map_option f x"
  by (cases x) auto

lemma bind_guard [simp]: "Option.bind (guard b) f = (if b then f () else None)"
  by (cases b) auto

subsection \<open>Lists\<close>

lemma nth_splice:
  assumes "i < length m" "off + length xs \<le> length m"
  shows "(take off m @ xs @ drop (off + length xs) m) ! i =
         (if off \<le> i \<and> i < off + length xs then xs ! (i - off) else m ! i)"
  using assms by (auto simp: nth_append min_def)


subsection \<open>Words\<close>

lemma xor_cancel_right [simp]: "a XOR x = b XOR x \<longleftrightarrow> a = (b :: 'w::len word)"
proof
  assume "a XOR x = b XOR x"
  from arg_cong [OF this, of "\<lambda>z. z XOR x"] show "a = b" by (simp add: xor.assoc)
qed simp

lemma xor_cancel_left [simp]: "x XOR a = x XOR b \<longleftrightarrow> a = (b :: 'w::len word)"
  by (simp add: xor.commute [of x])

lemma xor_xor_same [simp]: "x XOR (x XOR y) = (y :: 'w::len word)" "(y XOR x) XOR x = (y :: 'w::len word)"
  by (simp_all add: xor.assoc flip: xor.assoc [of x x])

lemma unat_and_mask_less: "unat (x AND mask n :: 'w::len word) < 2 ^ n"
  using take_bit_nat_less_exp [of n "unat x"]
  by (simp add: take_bit_eq_mask [symmetric] unsigned_take_bit_eq)

lemma ucast_u8_inj:
  assumes "8 \<le> LENGTH('w::len)"
  shows "(ucast (a :: u8) :: 'w word) = ucast b \<longleftrightarrow> a = b"
proof
  assume eq: "(ucast a :: 'w word) = ucast b"
  show "a = b"
  proof (rule bit_word_eqI)
    fix n assume "n < LENGTH(8)"
    with assms arg_cong [OF eq, of "\<lambda>w. bit w n"] show "bit a n = bit b n"
      by (simp add: bit_simps)
  qed
qed simp

lemma unat_ucast_u8:
  assumes "8 \<le> LENGTH('w::len)"
  shows "unat (ucast (b :: u8) :: 'w word) = unat b"
proof -
  have "unat b < 2 ^ 8" using unsigned_less [of b] by simp
  also have "(2::nat) ^ 8 \<le> 2 ^ LENGTH('w)" using assms by (rule power_increasing) simp
  finally show ?thesis by (simp add: unsigned_ucast_eq take_bit_nat_eq_self)
qed

lemma and_max_u32: "(x :: u32) AND 0xffffffff = x"
proof -
  have "(0xffffffff :: u32) = - 1" by simp
  then show ?thesis by (simp only: and.right_neutral)
qed

lemma shift_or_rotl:
  fixes a :: u32
  assumes "s < 32"
  shows "push_bit s a OR drop_bit (32 - s) a = word_rotl s a"
proof (rule bit_word_eqI)
  fix n assume n: "n < LENGTH(32)"
  show "bit (push_bit s a OR drop_bit (32 - s) a) n = bit (word_rotl s a) n"
  proof (cases "s \<le> n")
    case True
    then have "(n + 32 - s) mod 32 = n - s" using n by (simp add: mod_if)
    moreover have "\<not> bit a (32 - s + n)" using True assms by (auto dest!: bit_imp_le_length)
    ultimately show ?thesis using n True assms by (simp add: bit_simps bit_word_rotl_iff)
  next
    case False
    then have "(n + 32 - s) mod 32 = 32 - s + n" using n assms by simp
    then show ?thesis using n False assms by (simp add: bit_simps bit_word_rotl_iff)
  qed
qed

lemma replicate_num: "replicate (numeral k) x = x # replicate (pred_numeral k) x"
  by (simp add: numeral_eq_Suc)

subsection \<open>Linear tables\<close>

text \<open>
  The table of an XOR-linear function is determined by its values at the powers of two:
  \<open>xor_span\<close> builds it from them, highest power first.
\<close>

fun xor_span :: "'w::len word list \<Rightarrow> 'w word list" where
  "xor_span [] = [0]"
| "xor_span (b # bs) = (let t = xor_span bs in t @ map (\<lambda>x. x XOR b) t)"

lemma length_xor_span: "length (xor_span bs) = 2 ^ length bs"
  by (induction bs) (simp_all add: Let_def)

lemma of_nat_split_xor:
  assumes "2 ^ n \<le> i" "i < 2 ^ Suc n"
  shows "(of_nat i :: 'w::len word) = of_nat (i - 2 ^ n) XOR 2 ^ n"
proof -
  let ?j = "i - 2 ^ n"
  have "?j < 2 ^ n" using assms by simp
  then have "take_bit n ?j = ?j" by (simp add: take_bit_nat_eq_self)
  moreover have "take_bit n ?j AND 2 ^ n = 0"
    by (rule bit_eqI) (auto simp: bit_simps)
  ultimately have "?j AND 2 ^ n = 0" by simp
  then have "?j + 2 ^ n = ?j XOR 2 ^ n" by (rule disjunctive_add_eq_xor)
  with assms(1) have "i = ?j XOR 2 ^ n" by simp
  then have "of_nat i = (of_nat (?j XOR 2 ^ n) :: 'w word)" by simp
  then show ?thesis by (simp add: of_nat_xor_eq)
qed

lemma xor_span_nth:
  fixes f :: "'v::len word \<Rightarrow> 'w::len word"
  assumes lin: "\<And>x y. f (x XOR y) = f x XOR f y"
  shows "i < 2 ^ n \<Longrightarrow> xor_span (map (\<lambda>k. f (2 ^ k)) (rev [0..<n])) ! i = f (of_nat i)"
proof (induction n arbitrary: i)
  case 0
  have "f 0 = 0" using lin [of 0 0] by simp
  with 0 show ?case by simp
next
  case (Suc n)
  let ?t = "xor_span (map (\<lambda>k. f (2 ^ k)) (rev [0..<n]))"
  have len: "length ?t = 2 ^ n" by (simp add: length_xor_span)
  show ?case
  proof (cases "i < 2 ^ n")
    case True
    with len Suc.IH [OF True] show ?thesis by (simp add: Let_def nth_append)
  next
    case False
    then have "(of_nat i :: 'v word) = of_nat (i - 2 ^ n) XOR 2 ^ n"
      using Suc.prems by (intro of_nat_split_xor) auto
    then have "f (of_nat i) = f (of_nat (i - 2 ^ n)) XOR f (2 ^ n)" by (metis lin)
    moreover have "i - 2 ^ n < 2 ^ n" using False Suc.prems by simp
    ultimately show ?thesis
      using len False Suc.IH [of "i - 2 ^ n"] by (simp add: Let_def nth_append)
  qed
qed

text \<open>Two XOR-linear functions that agree on the powers of two are equal.\<close>

lemma linear_word_eq:
  fixes f g :: "'v::len word \<Rightarrow> 'w::len word"
  assumes "\<And>x y. f (x XOR y) = f x XOR f y" "\<And>x y. g (x XOR y) = g x XOR g y"
    and basis: "\<And>k. k < LENGTH('v) \<Longrightarrow> f (2 ^ k) = g (2 ^ k)"
  shows "f x = g x"
proof -
  have "f (of_nat i) = g (of_nat i)" if "i < 2 ^ n" "n \<le> LENGTH('v)" for i n
    using that
  proof (induction n arbitrary: i)
    case 0
    have "f 0 = 0" "g 0 = 0" using assms(1,2) [of 0 0] by simp_all
    with 0 show ?case by simp
  next
    case (Suc n)
    show ?case
    proof (cases "i < 2 ^ n")
      case False
      then have "(of_nat i :: 'v word) = of_nat (i - 2 ^ n) XOR 2 ^ n"
        using Suc.prems by (intro of_nat_split_xor) auto
      moreover have "f (of_nat (i - 2 ^ n)) = g (of_nat (i - 2 ^ n))"
        using Suc.prems False by (intro Suc.IH) auto
      ultimately show ?thesis using basis [of n] Suc.prems(2) assms(1,2) by (metis Suc_le_lessD)
    qed (use Suc in auto)
  qed
  from this [of "unat x" "LENGTH('v)"] show ?thesis by simp
qed

text \<open>A word is determined by its bits in four byte lanes.\<close>

definition byte_of :: "nat \<Rightarrow> u32 \<Rightarrow> u8" where
  "byte_of k w = ucast (drop_bit (8 * k) w)"

definition word_of4 :: "u8 \<Rightarrow> u8 \<Rightarrow> u8 \<Rightarrow> u8 \<Rightarrow> u32" where
  "word_of4 a b c d = ucast a XOR push_bit 8 (ucast b) XOR push_bit 16 (ucast c) XOR push_bit 24 (ucast d)"

lemma bit_word_of4:
  assumes "n < 32"
  shows "bit (word_of4 a b c d) n =
    (if n < 8 then bit a n else if n < 16 then bit b (n - 8)
     else if n < 24 then bit c (n - 16) else bit d (n - 24))"
  using assms by (auto simp: word_of4_def bit_simps dest: bit_imp_le_length)

lemma byte_of_word_of4 [simp]:
  "byte_of 0 (word_of4 a b c d) = a" "byte_of (Suc 0) (word_of4 a b c d) = b"
  "byte_of 2 (word_of4 a b c d) = c" "byte_of 3 (word_of4 a b c d) = d"
  by (rule bit_word_eqI; simp add: byte_of_def bit_simps bit_word_of4)+

lemma word_of4_byte_of [simp]: "word_of4 (byte_of 0 w) (byte_of (Suc 0) w) (byte_of 2 w) (byte_of 3 w) = w"
  by (rule bit_word_eqI) (auto simp: bit_word_of4 byte_of_def bit_simps)

end
