(* ===== verification/ByteStream.thy ===== *)
theory ByteStream
  imports Prelude
begin

text \<open>
  The contract that the byte streams of \<open>core/io\<close> share (\<open>Buffer\<close> and \<open>Ring_Buffer\<close>
  both derive from \<open>Stream\<close> and reimplement \<open>read\<close> and \<open>write\<close>): a stream holds a
  sequence of bytes; what \<open>write\<close> accepts and answers is fixed by a relation \<open>acc\<close> on the
  contents, and \<open>read\<close> delivers exactly the first bytes held, as many as there are up to the
  number asked for.  The locale \<open>byte_stream\<close> states the contract and derives it for any
  interleaving of writes and reads, with every answer of every call; \<open>BufferIO\<close> and
  \<open>RingBuffer\<close> interpret it.
\<close>

text \<open>A write carries the answer of the allocator, for the stream that allocates.\<close>

datatype stream_op = Wr bool bytes | Rd nat

datatype stream_res = Wrote int | Got int bytes

text \<open>A client of a stream: the calls are performed in order, and the answers are recorded.\<close>

fun run_stream ::
  "('s \<Rightarrow> bool \<Rightarrow> bytes \<Rightarrow> (int \<times> 's) option) \<Rightarrow> ('s \<Rightarrow> int \<Rightarrow> (int \<times> bytes \<times> 's) option)
   \<Rightarrow> 's \<Rightarrow> stream_op list \<Rightarrow> (stream_res list \<times> 's) option" where
  "run_stream wr rd s [] = Some ([], s)"
| "run_stream wr rd s (Wr ok xs # ops) =
     do { (n, s1) \<leftarrow> wr s ok xs;
          (log, s2) \<leftarrow> run_stream wr rd s1 ops;
          Some (Wrote n # log, s2) }"
| "run_stream wr rd s (Rd k # ops) =
     do { (n, ys, s1) \<leftarrow> rd s (int k);
          (log, s2) \<leftarrow> run_stream wr rd s1 ops;
          Some (Got n ys # log, s2) }"

text \<open>The calls of a run are admissible: each write fits the state it meets.\<close>

fun ops_fit ::
  "('s \<Rightarrow> bytes \<Rightarrow> bool) \<Rightarrow> ('s \<Rightarrow> bool \<Rightarrow> bytes \<Rightarrow> (int \<times> 's) option) \<Rightarrow>
   ('s \<Rightarrow> int \<Rightarrow> (int \<times> bytes \<times> 's) option) \<Rightarrow> 's \<Rightarrow> stream_op list \<Rightarrow> bool" where
  "ops_fit fits wr rd s [] = True"
| "ops_fit fits wr rd s (Wr ok xs # ops) =
     (fits s xs \<and> (case wr s ok xs of None \<Rightarrow> True | Some (n, s1) \<Rightarrow> ops_fit fits wr rd s1 ops))"
| "ops_fit fits wr rd s (Rd k # ops) =
     (0 < k \<and> int k < 2 ^ 31 \<and>
      (case rd s (int k) of None \<Rightarrow> True | Some (n, ys, s1) \<Rightarrow> ops_fit fits wr rd s1 ops))"

text \<open>
  The first-in first-out queue of bytes: from the contents \<open>q\<close> the calls may give these answers
  and end with these contents.  \<open>acc q ok xs n q'\<close> says that a write of \<open>xs\<close> may answer \<open>n\<close> and
  leave \<open>q'\<close>; a read has one possible answer.
\<close>

fun stream_obeys ::
  "(bytes \<Rightarrow> bool \<Rightarrow> bytes \<Rightarrow> int \<Rightarrow> bytes \<Rightarrow> bool) \<Rightarrow> bytes \<Rightarrow> stream_op list \<Rightarrow> stream_res list \<Rightarrow> bytes \<Rightarrow> bool" where
  "stream_obeys acc q [] [] q' \<longleftrightarrow> q' = q"
| "stream_obeys acc q (Wr ok xs # ops) (Wrote n # log) q' \<longleftrightarrow> (\<exists>q1. acc q ok xs n q1 \<and> stream_obeys acc q1 ops log q')"
| "stream_obeys acc q (Rd k # ops) (Got n ys # log) q' \<longleftrightarrow>
     ys = take k q \<and> n = int (min k (length q)) \<and> stream_obeys acc (drop k q) ops log q'"
| "stream_obeys acc q _ _ q' \<longleftrightarrow> False"

subsection \<open>The first occurrence of a needle\<close>

text \<open>
  The specification of the search operations of both streams: the least offset at which
  the needle occurs in the contents.
\<close>

function first_occ_from :: "nat \<Rightarrow> 'a list \<Rightarrow> 'a list \<Rightarrow> nat option" where
  "first_occ_from c nd hay =
     (if c + length nd \<le> length hay then
        if take (length nd) (drop c hay) = nd then Some c else first_occ_from (Suc c) nd hay
      else None)"
  by auto
termination
  by (relation "measure (\<lambda>(c, nd, hay). Suc (length hay) - c)") auto

declare first_occ_from.simps [simp del]

definition first_occ :: "'a list \<Rightarrow> 'a list \<Rightarrow> nat option" where
  "first_occ nd hay = first_occ_from 0 nd hay"

definition occurs_at :: "'a list \<Rightarrow> 'a list \<Rightarrow> nat \<Rightarrow> bool" where
  "occurs_at nd hay i \<longleftrightarrow> i + length nd \<le> length hay \<and> take (length nd) (drop i hay) = nd"

lemma first_occ_from_Some:
  "first_occ_from c nd hay = Some i \<longleftrightarrow>
   c \<le> i \<and> occurs_at nd hay i \<and> (\<forall>j. c \<le> j \<longrightarrow> j < i \<longrightarrow> \<not> occurs_at nd hay j)"
proof (induction c nd hay rule: first_occ_from.induct)
  case (1 c nd hay)
  show ?case
  proof (cases "occurs_at nd hay c")
    case True
    then have "first_occ_from c nd hay = Some c"
      by (subst first_occ_from.simps) (simp add: occurs_at_def)
    with True show ?thesis by (auto simp: le_less)
  next
    case False
    show ?thesis
    proof (cases "c + length nd \<le> length hay")
      case True
      with False have "first_occ_from c nd hay = first_occ_from (Suc c) nd hay"
        by (subst first_occ_from.simps) (simp add: occurs_at_def)
      moreover from True False have "take (length nd) (drop c hay) \<noteq> nd"
        by (simp add: occurs_at_def)
      note 1 [OF True this]
      ultimately show ?thesis using False by (metis Suc_leD Suc_leI le_neq_implies_less)
    next
      case nl: False
      then have "first_occ_from c nd hay = None" by (subst first_occ_from.simps) simp
      with nl show ?thesis by (auto simp: occurs_at_def)
    qed
  qed
qed

lemma first_occ_Some:
  "first_occ nd hay = Some i \<longleftrightarrow>
   occurs_at nd hay i \<and> (\<forall>j<i. \<not> occurs_at nd hay j)"
  by (auto simp: first_occ_def first_occ_from_Some)

lemma first_occ_None: "first_occ nd hay = None \<longleftrightarrow> (\<forall>i. \<not> occurs_at nd hay i)"
proof
  assume "first_occ nd hay = None"
  show "\<forall>i. \<not> occurs_at nd hay i"
  proof (rule ccontr)
    assume "\<not> ?thesis"
    then have "\<exists>i. occurs_at nd hay i" by simp
    then have "first_occ nd hay = Some (LEAST i. occurs_at nd hay i)"
      unfolding first_occ_Some by (metis LeastI_ex not_less_Least)
    with \<open>first_occ nd hay = None\<close> show False by simp
  qed
qed (metis first_occ_Some not_None_eq)

locale byte_stream =
  fixes inv :: "'s \<Rightarrow> bool"
    and contents :: "'s \<Rightarrow> bytes"
    and fits :: "'s \<Rightarrow> bytes \<Rightarrow> bool"
    and acc :: "bytes \<Rightarrow> bool \<Rightarrow> bytes \<Rightarrow> int \<Rightarrow> bytes \<Rightarrow> bool"
    and wr :: "'s \<Rightarrow> bool \<Rightarrow> bytes \<Rightarrow> (int \<times> 's) option"
    and rd :: "'s \<Rightarrow> int \<Rightarrow> (int \<times> bytes \<times> 's) option"
  assumes wr_law: "inv s \<Longrightarrow> fits s xs \<Longrightarrow>
      \<exists>n s'. wr s ok xs = Some (n, s') \<and> inv s' \<and> acc (contents s) ok xs n (contents s')"
    and rd_law: "inv s \<Longrightarrow> 0 < k \<Longrightarrow> int k < 2 ^ 31 \<Longrightarrow>
      \<exists>s'. rd s (int k) = Some (int (min k (length (contents s))), take k (contents s), s') \<and>
           inv s' \<and> contents s' = drop k (contents s)"
begin

theorem run_fifo:
  "inv s \<Longrightarrow> ops_fit fits wr rd s ops \<Longrightarrow>
   \<exists>log s'. run_stream wr rd s ops = Some (log, s') \<and> inv s' \<and> stream_obeys acc (contents s) ops log (contents s')"
proof (induction ops arbitrary: s)
  case Nil
  then show ?case by simp
next
  case (Cons op ops)
  show ?case
  proof (cases op)
    case (Wr ok xs)
    from Cons.prems Wr have "fits s xs" by simp
    from wr_law [OF Cons.prems(1) this, of ok] obtain n s1 where
      s1: "wr s ok xs = Some (n, s1)" "inv s1" "acc (contents s) ok xs n (contents s1)" by blast
    from Cons.prems(2) Wr s1(1) have "ops_fit fits wr rd s1 ops" by simp
    from Cons.IH [OF s1(2) this] obtain log s' where
      "run_stream wr rd s1 ops = Some (log, s')" "inv s'" "stream_obeys acc (contents s1) ops log (contents s')"
      by blast
    with Wr s1 show ?thesis by auto
  next
    case (Rd k)
    from Cons.prems Rd have k: "0 < k" "int k < 2 ^ 31" by auto
    from rd_law [OF Cons.prems(1) k] obtain s1 where
      s1: "rd s (int k) = Some (int (min k (length (contents s))), take k (contents s), s1)"
          "inv s1" "contents s1 = drop k (contents s)" by blast
    from Cons.prems(2) Rd s1(1) have "ops_fit fits wr rd s1 ops" by simp
    from Cons.IH [OF s1(2) this] obtain log s' where
      r: "run_stream wr rd s1 ops = Some (log, s')" "inv s'" "stream_obeys acc (contents s1) ops log (contents s')"
      by blast
    with Rd s1 show ?thesis by simp
  qed
qed

end

end
