(* ===== verification/BufferIO.thy ===== *)
theory BufferIO
  imports ByteStream
begin

text \<open>
  The growable byte buffer \<open>Buffer\<close> of \<open>core/io/Buffer.c\<close>.  The state is the C
  structure: the block \<open>addr\<close>, the read and write offsets and the capacity.  The
  allocator's answer is an argument (\<open>ok\<close>: the request succeeded; for \<open>set_capacity\<close>,
  which does not clear the block, the block itself).  Signed arithmetic that could
  leave the range of \<open>int\<close> is guarded.  \<open>printf\<close> takes the formatted text as an
  argument and models the truncation and termination of \<open>vsnprintf\<close>.
\<close>

record buffer =
  b_addr :: bytes
  b_r_offset :: int
  b_w_offset :: int
  b_capacity :: int

definition buffer_construct :: "bool \<Rightarrow> buffer \<Rightarrow> int \<times> buffer" where
  "buffer_construct ok b =
     (let b1 = b\<lparr>b_capacity := 1024\<rparr> in
      if \<not> ok then (-1, b1\<lparr>b_addr := []\<rparr>)
      else (0, b1\<lparr>b_addr := replicate 1024 0, b_r_offset := 0, b_w_offset := 0\<rparr>))"

text \<open>The block has been released: no access to it is defined.\<close>

definition buffer_deconstruct :: "buffer \<Rightarrow> buffer" where
  "buffer_deconstruct b = b\<lparr>b_addr := []\<rparr>"

definition buffer_get_len :: "buffer \<Rightarrow> int" where
  "buffer_get_len b = b_w_offset b - b_r_offset b"

definition buffer_get_free_capacity :: "buffer \<Rightarrow> int" where
  "buffer_get_free_capacity b = b_capacity b - b_w_offset b"

definition buffer_set_capacity :: "bytes option \<Rightarrow> int \<Rightarrow> buffer \<Rightarrow> int \<times> buffer" where
  "buffer_set_capacity blk cap b =
     (if cap > b_capacity b then
        (case blk of
           None \<Rightarrow> (-1, b\<lparr>b_capacity := cap, b_addr := []\<rparr>)
         | Some m \<Rightarrow> (0, b\<lparr>b_capacity := cap, b_addr := m\<rparr>))
      else (0, b))"

definition buffer_read :: "buffer \<Rightarrow> int \<Rightarrow> (int \<times> bytes \<times> buffer) option" where
  "buffer_read b len =
     (if b_w_offset b = b_r_offset b then Some (0, [], b)
      else let l0 = b_w_offset b - b_r_offset b;
               l = (if l0 > len then len else l0)
           in do { dst \<leftarrow> ld (b_addr b) (b_r_offset b) l;
                   Some (l, dst, b\<lparr>b_r_offset := b_r_offset b + l\<rparr>) })"

definition buffer_grow :: "int \<Rightarrow> int \<Rightarrow> int" where
  "buffer_grow cap len =
     (let c = (if cap > len then cap else len) in
      if c > 256 * 1024 * 1024
      then c + (if len > 1024 * 1024 then len else 1024 * 1024)
      else c * 2)"

definition buffer_write :: "bool \<Rightarrow> buffer \<Rightarrow> bytes \<Rightarrow> int \<Rightarrow> (int \<times> buffer) option" where
  "buffer_write ok b src len =
     (let l = b_capacity b - b_w_offset b in
      if l > len then
        do { xs \<leftarrow> ld src 0 len;
             m \<leftarrow> st (b_addr b) (b_w_offset b) xs;
             Some (len, b\<lparr>b_addr := m, b_w_offset := b_w_offset b + len\<rparr>) }
      else
        let cap = buffer_grow (b_capacity b) len in
        do { guard (cap \<le> int_max);
             if \<not> ok then Some (-1, b)
             else do { old \<leftarrow> ld (b_addr b) 0 (b_w_offset b);
                       m1 \<leftarrow> st (replicate (nat cap) 0) 0 old;
                       xs \<leftarrow> ld src 0 len;
                       m2 \<leftarrow> st m1 (b_w_offset b) xs;
                       Some (len, b\<lparr>b_capacity := cap, b_addr := m2,
                                     b_w_offset := b_w_offset b + len\<rparr>) } })"

text \<open>
  \<open>vsnprintf (buf, n, ...)\<close> of a text: at most \<open>n - 1\<close> bytes of it and a terminating
  zero, nothing when \<open>n = 0\<close>; it returns the length of the whole text.
\<close>

definition vsnprintf_bytes :: "int \<Rightarrow> bytes \<Rightarrow> bytes" where
  "vsnprintf_bytes n txt = (if n \<le> 0 then [] else take (nat n - 1) txt @ [0])"

definition buffer_printf :: "bool \<Rightarrow> buffer \<Rightarrow> int \<Rightarrow> bytes \<Rightarrow> (int \<times> buffer) option" where
  "buffer_printf ok b len txt =
     (let l = b_capacity b - b_w_offset b;
          c = (if b_capacity b > len then b_capacity b else len) * 2
      in do { b1 \<leftarrow> (if l < len then
                      do { guard (c \<le> int_max);
                           if \<not> ok then Some None
                           else do { old \<leftarrow> ld (b_addr b) 0 (b_w_offset b);
                                     m1 \<leftarrow> st (replicate (nat c) 0) 0 old;
                                     Some (Some (b\<lparr>b_capacity := c, b_addr := m1\<rparr>)) } }
                    else Some (Some b));
              case b1 of
                None \<Rightarrow> Some (-1, b)
              | Some b1 \<Rightarrow>
                  do { guard (0 \<le> len);
                       m \<leftarrow> st (b_addr b1) (b_w_offset b1) (vsnprintf_bytes len txt);
                       let b2 = b1\<lparr>b_addr := m\<rparr>; ret = int (length txt) in
                       if ret < 0 \<or> ret \<ge> len then Some (-1, b2)
                       else Some (ret, b2\<lparr>b_w_offset := b_w_offset b2 + ret\<rparr>) } })"

text \<open>
  The search loops.  A pointer into the block is its offset; the inner \<open>None\<close> is \<open>NULL\<close>.
\<close>

function buffer_find_loop :: "bytes \<Rightarrow> int \<Rightarrow> int \<Rightarrow> bytes \<Rightarrow> int \<Rightarrow> int \<Rightarrow> int option option" where
  "buffer_find_loop m r buf_len needle needle_len cnt =
     (if cnt \<le> buf_len - needle_len then
        do { eq \<leftarrow> mem_eq m (r + cnt) needle 0 needle_len;
             if eq then Some (Some (r + cnt))
             else buffer_find_loop m r buf_len needle needle_len (cnt + 1) }
      else Some None)"
  by auto
termination
  by (relation "measure (\<lambda>(m, r, bl, nd, nl, cnt). nat (bl - nl + 1 - cnt))") auto

declare buffer_find_loop.simps [simp del]

definition buffer_find :: "buffer \<Rightarrow> bytes \<Rightarrow> int \<Rightarrow> int option option" where
  "buffer_find b needle needle_len =
     (let buf_len = buffer_get_len b in
      if buf_len < needle_len then Some None
      else buffer_find_loop (b_addr b) (b_r_offset b) buf_len needle needle_len 0)"

text \<open>
  The reverse search keeps the last pointer it compared in \<open>target\<close> and returns it, also
  when the loop ends without a match.
\<close>

function buffer_rfind_loop ::
  "bytes \<Rightarrow> int \<Rightarrow> int \<Rightarrow> bytes \<Rightarrow> int \<Rightarrow> int option \<Rightarrow> int \<Rightarrow> int option option" where
  "buffer_rfind_loop m r buf_len needle needle_len target cnt =
     (if cnt \<le> buf_len - needle_len then
        let t = r + buf_len - needle_len - cnt in
        do { eq \<leftarrow> mem_eq m t needle 0 needle_len;
             if eq then Some (Some t)
             else buffer_rfind_loop m r buf_len needle needle_len (Some t) (cnt + 1) }
      else Some target)"
  by auto
termination
  by (relation "measure (\<lambda>(m, r, bl, nd, nl, t, cnt). nat (bl - nl + 1 - cnt))") auto

declare buffer_rfind_loop.simps [simp del]

definition buffer_rfind :: "buffer \<Rightarrow> bytes \<Rightarrow> int \<Rightarrow> int option option" where
  "buffer_rfind b needle needle_len =
     (let buf_len = buffer_get_len b in
      if buf_len < needle_len then Some None
      else buffer_rfind_loop (b_addr b) (b_r_offset b) buf_len needle needle_len None 0)"

definition buffer_get_needle_offset :: "buffer \<Rightarrow> bytes \<Rightarrow> int \<Rightarrow> int option" where
  "buffer_get_needle_offset b needle needle_len =
     (let buf_len = buffer_get_len b in
      if buf_len < needle_len then Some (-1)
      else do { t \<leftarrow> buffer_find_loop (b_addr b) (b_r_offset b) buf_len needle needle_len 0;
                Some (case t of None \<Rightarrow> -1 | Some p \<Rightarrow> p - b_r_offset b) })"

definition buffer_reset :: "buffer \<Rightarrow> buffer" where
  "buffer_reset b = b\<lparr>b_r_offset := 0, b_w_offset := 0\<rparr>"

subsection \<open>Invariant and abstraction\<close>

definition buffer_inv :: "buffer \<Rightarrow> bool" where
  "buffer_inv b \<longleftrightarrow> 0 \<le> b_r_offset b \<and> b_r_offset b \<le> b_w_offset b \<and>
     b_w_offset b \<le> b_capacity b \<and> b_capacity b = int (length (b_addr b)) \<and>
     0 < b_capacity b \<and> b_capacity b \<le> int_max"

definition buffer_contents :: "buffer \<Rightarrow> bytes" where
  "buffer_contents b = take (nat (buffer_get_len b)) (drop (nat (b_r_offset b)) (b_addr b))"

lemma buffer_invE:
  assumes "buffer_inv b"
  obtains r w where "b_r_offset b = int r" "b_w_offset b = int w" "r \<le> w" "w \<le> length (b_addr b)"
    "b_capacity b = int (length (b_addr b))" "b_addr b \<noteq> []" "length (b_addr b) \<le> nat int_max"
proof -
  have "b_r_offset b = int (nat (b_r_offset b))" "b_w_offset b = int (nat (b_w_offset b))"
    using assms by (auto simp: buffer_inv_def)
  with assms show ?thesis
    by (intro that [of "nat (b_r_offset b)" "nat (b_w_offset b)"]) (auto simp: buffer_inv_def)
qed

lemma buffer_contents_eq:
  assumes "b_r_offset b = int r" "b_w_offset b = int w" "r \<le> w"
  shows "buffer_contents b = drop r (take w (b_addr b))"
proof -
  have "nat (int w - int r) = w - r" by linarith
  with assms show ?thesis by (simp add: buffer_contents_def buffer_get_len_def drop_take)
qed

lemma length_buffer_contents: "buffer_inv b \<Longrightarrow> int (length (buffer_contents b)) = buffer_get_len b"
  by (erule buffer_invE) (simp add: buffer_contents_eq buffer_get_len_def of_nat_diff)

definition buffer_fits :: "buffer \<Rightarrow> bytes \<Rightarrow> bool" where
  "buffer_fits b xs \<longleftrightarrow> int (length xs) \<le> int_max \<and>
     (b_capacity b - b_w_offset b \<le> int (length xs) \<longrightarrow>
      buffer_grow (b_capacity b) (int (length xs)) \<le> int_max)"

lemma buffer_grow_room: "0 < cap \<Longrightarrow> w \<le> cap \<Longrightarrow> w + len \<le> buffer_grow cap len"
  by (auto simp: buffer_grow_def Let_def)

lemma buffer_grow_ge: "0 < cap \<Longrightarrow> cap \<le> buffer_grow cap len"
  by (auto simp: buffer_grow_def Let_def)

text \<open>
  Writing: with the invariant and a successful allocation the call is memory safe, keeps
  the invariant and appends the source bytes, on the in-place and on the growing branch.
\<close>

lemma buffer_write_inplace:
  assumes "b_w_offset b = int w" "b_capacity b = int (length (b_addr b))"
    and "w + length xs < length (b_addr b)"
  shows "buffer_write ok b xs (int (length xs)) =
    Some (int (length xs), b\<lparr>b_addr := take w (b_addr b) @ xs @ drop (w + length xs) (b_addr b),
                             b_w_offset := int (w + length xs)\<rparr>)"
  using assms by (simp add: buffer_write_def mem_simps)

lemma st_append_exact:
  "length pre = n \<Longrightarrow> st (pre @ mid @ post) (int n) xs =
     (if length xs \<le> length mid + length post then Some (pre @ xs @ drop (length xs) (mid @ post))
      else None)"
  by (auto simp: st_def)

lemma buffer_write_grow:
  fixes b xs
  defines "g \<equiv> buffer_grow (b_capacity b) (int (length xs))"
  assumes w: "b_w_offset b = int w" "w \<le> length (b_addr b)"
    and c: "b_capacity b = int (length (b_addr b))" "b_addr b \<noteq> []"
    and full: "length (b_addr b) \<le> w + length xs" and g: "g \<le> int_max"
  shows "buffer_write True b xs (int (length xs)) =
    Some (int (length xs), b\<lparr>b_capacity := g,
       b_addr := take w (b_addr b) @ xs @ replicate (nat g - w - length xs) 0,
       b_w_offset := int (w + length xs)\<rparr>)"
proof -
  have room: "int w + int (length xs) \<le> g"
    unfolding g_def using w c by (intro buffer_grow_room) auto
  have l: "ld (b_addr b) 0 (int w) = Some (take w (b_addr b))"
    using w by (simp add: ld_Some)
  have m1: "st (replicate (nat g) 0) 0 (take w (b_addr b)) =
      Some (take w (b_addr b) @ replicate (nat g - w) (0::u8))"
    using room w st_append_exact [of "[]" 0 "replicate (nat g) (0::u8)" "[]" "take w (b_addr b)"]
    by (simp add: min_def)
  have m2: "st (take w (b_addr b) @ replicate (nat g - w) (0::u8)) (int w) xs =
      Some (take w (b_addr b) @ xs @ replicate (nat g - w - length xs) 0)"
    using room w st_append_exact [of "take w (b_addr b)" w "replicate (nat g - w) (0::u8)" "[]" xs]
    by (simp add: min_def)
  have nl: "\<not> int (length xs) < b_capacity b - b_w_offset b"
    using full w c by simp
  show ?thesis
    unfolding buffer_write_def Let_def if_not_P [OF nl] g_def [symmetric]
    using g w by (simp add: l m1 m2 ld_Some)
qed

lemma buffer_write_law:
  assumes inv: "buffer_inv b" and fit: "buffer_fits b xs"
  shows "\<exists>b'. buffer_write True b xs (int (length xs)) = Some (int (length xs), b') \<and>
              buffer_inv b' \<and> buffer_contents b' = buffer_contents b @ xs"
  using inv
proof (rule buffer_invE)
  fix r w
  assume i: "b_r_offset b = int r" "b_w_offset b = int w" "r \<le> w" "w \<le> length (b_addr b)"
    "b_capacity b = int (length (b_addr b))" "b_addr b \<noteq> []" "length (b_addr b) \<le> nat int_max"
  show ?thesis
  proof (cases "w + length xs < length (b_addr b)")
    case True
    note wr = buffer_write_inplace [OF i(2,5) True]
    let ?b' = "b\<lparr>b_addr := take w (b_addr b) @ xs @ drop (w + length xs) (b_addr b),
                 b_w_offset := int (w + length xs)\<rparr>"
    have "buffer_inv ?b'" using i True by (auto simp: buffer_inv_def)
    moreover have "buffer_contents ?b' = buffer_contents b @ xs"
      using i buffer_contents_eq [of b r w] buffer_contents_eq [of ?b' r "w + length xs"]
      by (simp add: min_def)
    ultimately show ?thesis using wr by blast
  next
    case False
    let ?g = "buffer_grow (b_capacity b) (int (length xs))"
    from False fit i have g: "?g \<le> int_max" by (auto simp: buffer_fits_def)
    from False have full: "length (b_addr b) \<le> w + length xs" by simp
    note wr = buffer_write_grow [OF i(2,4,5,6) full g]
    have room: "int w + int (length xs) \<le> ?g" using i by (intro buffer_grow_room) auto
    let ?b' = "b\<lparr>b_capacity := ?g,
       b_addr := take w (b_addr b) @ xs @ replicate (nat ?g - w - length xs) 0,
       b_w_offset := int (w + length xs)\<rparr>"
    have "0 < b_capacity b" using i(5,6) by simp
    from less_le_trans [OF this buffer_grow_ge [OF this]] have "0 < ?g" .
    then have "buffer_inv ?b'" using i g room by (auto simp: buffer_inv_def min_def)
    moreover have "buffer_contents ?b' = buffer_contents b @ xs"
      using i buffer_contents_eq [of b r w] buffer_contents_eq [of ?b' r "w + length xs"]
      by (simp add: min_def)
    ultimately show ?thesis using wr by blast
  qed
qed

lemma buffer_read_law:
  assumes inv: "buffer_inv b" and k: "0 < k"
  shows "\<exists>b'. buffer_read b (int k) =
           Some (int (min k (length (buffer_contents b))), take k (buffer_contents b), b') \<and>
         buffer_inv b' \<and> buffer_contents b' = drop k (buffer_contents b)"
  using inv
proof (rule buffer_invE)
  fix r w
  assume i: "b_r_offset b = int r" "b_w_offset b = int w" "r \<le> w" "w \<le> length (b_addr b)"
    "b_capacity b = int (length (b_addr b))" "b_addr b \<noteq> []" "length (b_addr b) \<le> nat int_max"
  note c = buffer_contents_eq [OF i(1-3)]
  let ?l = "min k (w - r)"
  let ?b' = "b\<lparr>b_r_offset := int (r + ?l)\<rparr>"
  have "buffer_read b (int k) = Some (int ?l, take k (buffer_contents b), ?b')"
  proof (cases "w = r")
    case True
    then show ?thesis using i c by (simp add: buffer_read_def)
  next
    case False
    have *: "(if int w - int r > int k then int k else int w - int r) = int ?l"
      using i(3) by (auto simp: min_def)
    have "ld (b_addr b) (int r) (int ?l) = Some (take ?l (drop r (b_addr b)))"
      using i by (subst ld_Some) auto
    then show ?thesis
      using False i by (simp add: buffer_read_def Let_def * c drop_take)
  qed
  moreover have "buffer_inv ?b'" using i by (auto simp: buffer_inv_def)
  moreover have "buffer_contents ?b' = drop k (buffer_contents b)"
    using i by (subst c, subst buffer_contents_eq [of _ "r + ?l" w]) (auto simp: min_def add.commute)
  moreover have "?l = min k (length (buffer_contents b))" using i c by simp
  ultimately show ?thesis by metis
qed

text \<open>
  What a write may do: it appends all of its input; when the allocator refuses, it may instead
  report -1 and leave the contents as they are.
\<close>

definition buffer_accepts :: "bytes \<Rightarrow> bool \<Rightarrow> bytes \<Rightarrow> int \<Rightarrow> bytes \<Rightarrow> bool" where
  "buffer_accepts q ok xs n q' \<longleftrightarrow> (n = int (length xs) \<and> q' = q @ xs) \<or> (\<not> ok \<and> n = -1 \<and> q' = q)"

lemma buffer_write_refused:
  assumes "buffer_inv b" "buffer_fits b xs"
  shows "buffer_write False b xs (int (length xs)) = buffer_write True b xs (int (length xs)) \<or>
    buffer_write False b xs (int (length xs)) = Some (-1, b)"
  using assms by (auto simp: buffer_write_def buffer_fits_def Let_def guard_def)

interpretation buf: byte_stream buffer_inv buffer_contents buffer_fits buffer_accepts
    "\<lambda>b ok xs. buffer_write ok b xs (int (length xs))" buffer_read
proof unfold_locales
  show "\<exists>n s'. buffer_write ok s xs (int (length xs)) = Some (n, s') \<and> buffer_inv s' \<and>
          buffer_accepts (buffer_contents s) ok xs n (buffer_contents s')"
    if "buffer_inv s" "buffer_fits s xs" for s xs ok
    using buffer_write_law [OF that] buffer_write_refused [OF that] that(1)
    by (cases ok) (auto simp: buffer_accepts_def)
qed (use buffer_read_law in auto)

subsection \<open>Searching\<close>

lemma buffer_mem_eq:
  assumes "b_r_offset b = int r" "b_w_offset b = int w" "r \<le> w" "w \<le> length (b_addr b)"
    and "i + length nd \<le> w - r"
  shows "mem_eq (b_addr b) (int (r + i)) nd 0 (int (length nd)) =
     Some (occurs_at nd (buffer_contents b) i)"
proof -
  have "take (length nd) (drop i (buffer_contents b)) = take (length nd) (drop (r + i) (b_addr b))"
    unfolding buffer_contents_eq [OF assms(1-3)] drop_take drop_drop take_take
    using assms by (simp add: add.commute min_absorb1)
  moreover have "i + length nd \<le> length (buffer_contents b)"
    using assms by (simp add: buffer_contents_eq [OF assms(1-3)])
  moreover have "r + i + length nd \<le> length (b_addr b)" using assms by linarith
  ultimately show ?thesis by (simp add: mem_eq_def occurs_at_def ld_nat ld_nat0 flip: of_nat_add)
qed

lemma buffer_find_loop_spec:
  assumes "b_r_offset b = int r" "b_w_offset b = int w" "r \<le> w" "w \<le> length (b_addr b)"
  shows "buffer_find_loop (b_addr b) (int r) (int (w - r)) nd (int (length nd)) (int c) =
     Some (map_option (\<lambda>i. int (r + i)) (first_occ_from c nd (buffer_contents b)))"
proof (induction "w - r + 1 - length nd - c" arbitrary: c)
  case 0
  then show ?case
    using assms by (subst buffer_find_loop.simps, subst first_occ_from.simps)
      (auto simp: buffer_contents_eq)
next
  case (Suc d)
  then have c: "c + length nd \<le> w - r" by simp
  have eq: "mem_eq (b_addr b) (int r + int c) nd 0 (int (length nd)) =
     Some (take (length nd) (drop c (buffer_contents b)) = nd)"
    using buffer_mem_eq [OF assms c] c assms by (simp add: occurs_at_def buffer_contents_eq)
  have ih: "buffer_find_loop (b_addr b) (int r) (int (w - r)) nd (int (length nd)) (int c + 1) =
     Some (map_option (\<lambda>i. int (r + i)) (first_occ_from (Suc c) nd (buffer_contents b)))"
    using Suc.hyps(1) [of "Suc c"] Suc.hyps(2) by (simp add: add.commute)
  have "int c \<le> int (w - r) - int (length nd)" using c by linarith
  moreover have "c + length nd \<le> length (buffer_contents b)"
    using c assms by (simp add: buffer_contents_eq)
  ultimately show ?case
    by (subst buffer_find_loop.simps, subst first_occ_from.simps) (simp add: eq ih)
qed

lemma buffer_find_eq:
  assumes "buffer_inv b"
  shows "buffer_find b nd (int (length nd)) =
     Some (map_option (\<lambda>i. b_r_offset b + int i) (first_occ nd (buffer_contents b)))"
  using assms
proof (rule buffer_invE)
  fix r w
  assume i: "b_r_offset b = int r" "b_w_offset b = int w" "r \<le> w" "w \<le> length (b_addr b)"
  note s = buffer_find_loop_spec [OF i, of nd 0]
  have l: "buffer_get_len b = int (w - r)" using i by (simp add: buffer_get_len_def of_nat_diff)
  show ?thesis
  proof (cases "w - r < length nd")
    case True
    then have "first_occ_from 0 nd (buffer_contents b) = None"
      using i by (subst first_occ_from.simps) (simp add: buffer_contents_eq)
    with True l show ?thesis by (simp add: buffer_find_def first_occ_def)
  next
    case False
    with l s i show ?thesis unfolding buffer_find_def first_occ_def Let_def l by simp linarith
  qed
qed

lemma buffer_get_needle_offset_eq:
  assumes "buffer_inv b"
  shows "buffer_get_needle_offset b nd (int (length nd)) =
     Some (case first_occ nd (buffer_contents b) of None \<Rightarrow> -1 | Some i \<Rightarrow> int i)"
proof (cases "buffer_get_len b < int (length nd)")
  case True
  with assms buffer_find_eq [OF assms, of nd] show ?thesis
    by (simp add: buffer_get_needle_offset_def buffer_find_def)
next
  case False
  with buffer_find_eq [OF assms, of nd]
  have "buffer_find_loop (b_addr b) (b_r_offset b) (buffer_get_len b) nd (int (length nd)) 0 =
    Some (map_option (\<lambda>i. b_r_offset b + int i) (first_occ nd (buffer_contents b)))"
    by (simp add: buffer_find_def)
  with False show ?thesis
    by (simp add: buffer_get_needle_offset_def split: option.splits)
qed

text \<open>
  The reverse search from position \<open>p\<close> downwards: the greatest occurrence at or below \<open>p\<close>,
  or, without one, the last position compared, which is the start of the contents.
\<close>

fun last_from :: "'a list \<Rightarrow> 'a list \<Rightarrow> nat \<Rightarrow> nat" where
  "last_from nd hay 0 = 0"
| "last_from nd hay (Suc p) = (if occurs_at nd hay (Suc p) then Suc p else last_from nd hay p)"

lemma last_from_props:
  "last_from nd hay p \<le> p"
  "last_from nd hay p < j \<Longrightarrow> j \<le> p \<Longrightarrow> \<not> occurs_at nd hay j"
  "i \<le> p \<Longrightarrow> occurs_at nd hay i \<Longrightarrow> occurs_at nd hay (last_from nd hay p)"
  by (induction p) (auto simp: le_Suc_eq split: if_splits)

lemma buffer_rfind_loop_spec:
  assumes b: "b_r_offset b = int r" "b_w_offset b = int w" "r \<le> w" "w \<le> length (b_addr b)"
    and p: "p + c + length nd = w - r"
  shows "buffer_rfind_loop (b_addr b) (int r) (int (w - r)) nd (int (length nd)) t (int c) =
     Some (Some (int r + int (last_from nd (buffer_contents b) p)))"
  using p
proof (induction p arbitrary: c t)
  case 0
  have eq: "mem_eq (b_addr b) (int r) nd 0 (int (length nd)) =
     Some (occurs_at nd (buffer_contents b) 0)"
    using buffer_mem_eq [OF b, of 0 nd] 0 by simp
  have i: "int c \<le> int (w - r) - int (length nd)"
    "int r + int (w - r) - int (length nd) - int c = int r"
    "\<not> int c + 1 \<le> int (w - r) - int (length nd)"
    using 0 by linarith+
  show ?case
    unfolding buffer_rfind_loop.simps [where cnt = "int c"] if_P [OF i(1)] Let_def i(2) eq
    by (simp add: buffer_rfind_loop.simps [where cnt = "int c + 1"] i(3) del: of_nat_diff)
next
  case (Suc p)
  have eq: "mem_eq (b_addr b) (int (r + Suc p)) nd 0 (int (length nd)) =
     Some (occurs_at nd (buffer_contents b) (Suc p))"
    by (rule buffer_mem_eq [OF b]) (use Suc.prems in simp)
  have i: "int c \<le> int (w - r) - int (length nd)"
    "int r + int (w - r) - int (length nd) - int c = int (r + Suc p)"
    "int c + 1 = int (Suc c)"
    using Suc.prems by linarith+
  from Suc.prems have p': "p + Suc c + length nd = w - r" by simp
  show ?case
    unfolding buffer_rfind_loop.simps [where cnt = "int c"] if_P [OF i(1)] Let_def i(2) eq i(3)
    using Suc.IH [OF p'] by simp
qed

lemma buffer_rfind_eq:
  assumes "buffer_inv b" "length nd \<le> length (buffer_contents b)"
  shows "buffer_rfind b nd (int (length nd)) = Some (Some (b_r_offset b +
     int (last_from nd (buffer_contents b) (length (buffer_contents b) - length nd))))"
  using assms(1)
proof (rule buffer_invE)
  fix r w
  assume i: "b_r_offset b = int r" "b_w_offset b = int w" "r \<le> w" "w \<le> length (b_addr b)"
  have l: "length (buffer_contents b) = w - r" using i by (simp add: buffer_contents_eq)
  have g: "buffer_get_len b = int (w - r)" using i by (simp add: buffer_get_len_def of_nat_diff)
  have "\<not> int (w - r) < int (length nd)" using assms(2) l by simp
  then show ?thesis
    using buffer_rfind_loop_spec [OF i, of "w - r - length nd" 0 nd None] assms(2) l
    unfolding buffer_rfind_def g Let_def i by (simp del: of_nat_diff)
qed

subsection \<open>Properties\<close>

text \<open>
  C3.  \<open>Buffer\<close> is an unbounded FIFO with the answers of all its calls: in any sequence of writes
  and of reads of a positive length, in which no write makes the capacity exceed the range of
  \<open>int\<close>, a write appends all of its bytes and returns their number, in place or into a block of
  greater capacity; only when the allocator refuses may it return -1, and then the contents stay;
  a read delivers the oldest bytes, as many as are stored up to the number asked for, and returns
  their number.  No call leaves the block.
\<close>

theorem buffer_fifo:
  assumes "buffer_inv b"
    and "ops_fit buffer_fits (\<lambda>b ok xs. buffer_write ok b xs (int (length xs))) buffer_read b ops"
  shows "\<exists>log b'. run_stream (\<lambda>b ok xs. buffer_write ok b xs (int (length xs))) buffer_read b ops =
           Some (log, b') \<and> buffer_inv b' \<and>
           stream_obeys buffer_accepts (buffer_contents b) ops log (buffer_contents b')"
  using buf.run_fifo [OF assms] .

definition small_buffer :: buffer where
  "small_buffer = \<lparr>b_addr = [1, 2], b_r_offset = 0, b_w_offset = 2, b_capacity = 2\<rparr>"

theorem buffer_fifo_witness:
  "\<exists>log b'. run_stream (\<lambda>b ok xs. buffer_write ok b xs (int (length xs))) buffer_read
       small_buffer [Rd 1, Wr False [9], Wr True [3, 4], Rd 2] = Some (log, b') \<and> buffer_inv b' \<and>
     stream_obeys buffer_accepts (buffer_contents small_buffer) [Rd 1, Wr False [9], Wr True [3, 4], Rd 2] log (buffer_contents b')"
proof (rule buffer_fifo)
  show "buffer_inv small_buffer" by (simp add: small_buffer_def buffer_inv_def)
  show "ops_fit buffer_fits (\<lambda>b ok xs. buffer_write ok b xs (int (length xs))) buffer_read
       small_buffer [Rd 1, Wr False [9], Wr True [3, 4], Rd 2]"
    by (simp add: small_buffer_def buffer_read_def buffer_fits_def buffer_grow_def buffer_write_def
        mem_simps Let_def)
qed

text \<open>
  Searching a \<open>Buffer\<close>: \<open>find\<close> returns the address of the least occurrence of the needle
  in the contents and \<open>NULL\<close> exactly if there is none, \<open>get_needle_offset\<close> the same position
  relative to the read offset or -1.
\<close>

theorem buffer_search:
  assumes "buffer_inv b"
  shows "buffer_find b nd (int (length nd)) =
           Some (map_option (\<lambda>i. b_r_offset b + int i) (first_occ nd (buffer_contents b))) \<and>
         buffer_get_needle_offset b nd (int (length nd)) =
           Some (case first_occ nd (buffer_contents b) of None \<Rightarrow> -1 | Some i \<Rightarrow> int i)"
  using buffer_find_eq [OF assms] buffer_get_needle_offset_eq [OF assms] by blast

theorem buffer_search_witness:
  "buffer_find small_buffer [2] 1 = Some (Some 1) \<and> buffer_find small_buffer [9] 1 = Some None"
proof -
  have i: "buffer_inv small_buffer" by (simp add: small_buffer_def buffer_inv_def)
  have c: "buffer_contents small_buffer = [1, 2]"
    by (simp add: small_buffer_def buffer_contents_def buffer_get_len_def)
  have f: "first_occ [2] [1, 2 :: u8] = Some 1" "first_occ [9] [1, 2 :: u8] = None"
    by (auto simp: first_occ_def first_occ_from.simps)
  show ?thesis
    using buffer_search [OF i, of "[2]"] buffer_search [OF i, of "[9]"] unfolding c f
    by (simp add: small_buffer_def)
qed

text \<open>
  \<open>rfind\<close> returns the last occurrence when there is one, but it never reports a miss:
  when the needle is not longer than the contents and does not occur in them, the call
  returns the address of the first stored byte, the last one compared, instead of \<open>NULL\<close>.
\<close>

theorem buffer_rfind_never_null:
  assumes "buffer_inv b" "length nd \<le> length (buffer_contents b)"
  shows "\<exists>i. buffer_rfind b nd (int (length nd)) = Some (Some (b_r_offset b + int i)) \<and>
           (\<forall>j>i. \<not> occurs_at nd (buffer_contents b) j) \<and>
           (if first_occ nd (buffer_contents b) = None then i = 0
            else occurs_at nd (buffer_contents b) i)"
proof -
  let ?c = "buffer_contents b"
  let ?p = "length ?c - length nd"
  let ?i = "last_from nd ?c ?p"
  have top: "j \<le> ?p" if "occurs_at nd ?c j" for j using that unfolding occurs_at_def by linarith
  have "\<forall>j>?i. \<not> occurs_at nd ?c j" using last_from_props(2) top by blast
  moreover have "if first_occ nd ?c = None then ?i = 0 else occurs_at nd ?c ?i"
  proof (cases "first_occ nd ?c = None")
    case True
    then have "last_from nd ?c p = 0" for p by (induction p) (auto simp: first_occ_None)
    with True show ?thesis by simp
  next
    case False
    then obtain j where j: "occurs_at nd ?c j" by (auto simp: first_occ_None)
    from last_from_props(3) [OF top [OF j] j] False show ?thesis by auto
  qed
  ultimately show ?thesis using buffer_rfind_eq [OF assms] by blast
qed

theorem buffer_rfind_never_null_witness:
  "\<exists>i. buffer_rfind small_buffer [9] 1 = Some (Some (0 + int i)) \<and> i = 0"
proof -
  have i: "buffer_inv small_buffer" by (simp add: small_buffer_def buffer_inv_def)
  have c: "buffer_contents small_buffer = [1, 2]"
    by (simp add: small_buffer_def buffer_contents_def buffer_get_len_def)
  have f: "first_occ [9] [1, 2 :: u8] = None"
    by (auto simp: first_occ_def first_occ_from.simps)
  show ?thesis
    using buffer_rfind_never_null [OF i, of "[9]"] unfolding c f by (simp add: small_buffer_def)
qed

end
