(* ===== verification/RingBuffer.thy ===== *)
theory RingBuffer
  imports BufferIO
begin

text \<open>
  The fixed-size byte ring \<open>Ring_Buffer\<close> of \<open>core/io/Ring_Buffer.c\<close>.  When the read and
  the write offset coincide the ring is full or empty, and \<open>last_operation_flag\<close> tells
  which.  The state is the C structure; the memory an allocation returns is an argument
  (\<open>None\<close> is \<open>NULL\<close>).  The caller's destination buffer is the list of bytes copied to it.
\<close>

datatype operation_flag = BUFFER_NA_OPERATION | BUFFER_WRITE_OPERATION | BUFFER_READ_OPERATION

record ring_buffer =
  rb_addr :: bytes
  rb_r_offset :: int
  rb_w_offset :: int
  rb_size :: int
  rb_flag :: operation_flag

definition rb_construct :: "bytes option \<Rightarrow> ring_buffer \<Rightarrow> int \<times> ring_buffer" where
  "rb_construct blk rb =
     (let rb1 = rb\<lparr>rb_size := 1024\<rparr> in
      case blk of
        None \<Rightarrow> (-1, rb1\<lparr>rb_addr := []\<rparr>)
      | Some m \<Rightarrow> (0, rb1\<lparr>rb_addr := m, rb_r_offset := 0, rb_w_offset := 0,
                          rb_flag := BUFFER_NA_OPERATION\<rparr>))"

definition rb_deconstruct :: "ring_buffer \<Rightarrow> ring_buffer" where
  "rb_deconstruct rb = rb\<lparr>rb_flag := BUFFER_NA_OPERATION, rb_addr := []\<rparr>"

definition rb_get_len :: "ring_buffer \<Rightarrow> int" where
  "rb_get_len rb =
     (if rb_w_offset rb > rb_r_offset rb then rb_w_offset rb - rb_r_offset rb
      else if rb_flag rb = BUFFER_READ_OPERATION \<and> rb_w_offset rb = rb_r_offset rb then 0
      else rb_w_offset rb - rb_r_offset rb + rb_size rb)"

definition rb_set_size :: "bytes option \<Rightarrow> int \<Rightarrow> ring_buffer \<Rightarrow> int \<times> ring_buffer" where
  "rb_set_size blk sz rb =
     (if sz \<noteq> rb_size rb then
        (case blk of
           None \<Rightarrow> (-1, rb\<lparr>rb_size := sz, rb_addr := []\<rparr>)
         | Some m \<Rightarrow> (0, rb\<lparr>rb_size := sz, rb_addr := m\<rparr>))
      else (0, rb))"

text \<open>
  The amount of stored bytes as \<open>read\<close>, \<open>peek\<close> and \<open>read_to_string\<close> compute it (\<open>None\<close>: the
  early exit for an empty ring), and the free space as \<open>write\<close>, \<open>printf\<close> and \<open>memcopy\<close> do.
\<close>

definition rb_readable :: "ring_buffer \<Rightarrow> int option" where
  "rb_readable rb =
     (if rb_flag rb \<noteq> BUFFER_WRITE_OPERATION \<and> rb_w_offset rb = rb_r_offset rb then None
      else if rb_flag rb = BUFFER_WRITE_OPERATION \<and> rb_w_offset rb = rb_r_offset rb
      then Some (rb_size rb)
      else Some ((rb_w_offset rb - rb_r_offset rb + rb_size rb) mod rb_size rb))"

definition rb_writable :: "ring_buffer \<Rightarrow> int option" where
  "rb_writable rb =
     (if rb_flag rb = BUFFER_WRITE_OPERATION \<and> rb_w_offset rb = rb_r_offset rb then None
      else if rb_w_offset rb = rb_r_offset rb then Some (rb_size rb)
      else Some ((rb_r_offset rb - rb_w_offset rb + rb_size rb) mod rb_size rb))"

text \<open>The one or two \<open>memcpy\<close> calls that fetch \<open>l\<close> bytes at the read offset.\<close>

definition rb_fetch :: "ring_buffer \<Rightarrow> int \<Rightarrow> bytes option" where
  "rb_fetch rb l =
     (if rb_w_offset rb > rb_r_offset rb then ld (rb_addr rb) (rb_r_offset rb) l
      else if l < rb_size rb - rb_r_offset rb then ld (rb_addr rb) (rb_r_offset rb) l
      else do { a \<leftarrow> ld (rb_addr rb) (rb_r_offset rb) (rb_size rb - rb_r_offset rb);
                c \<leftarrow> ld (rb_addr rb) 0 (l - rb_size rb + rb_r_offset rb);
                Some (a @ c) })"

definition rb_read :: "bool \<Rightarrow> ring_buffer \<Rightarrow> int \<Rightarrow> (int \<times> bytes \<times> ring_buffer) option" where
  "rb_read dst_nonnull rb len =
     (case rb_readable rb of
        None \<Rightarrow> Some (0, [], rb)
      | Some l0 \<Rightarrow>
          let l = (if l0 > len then len else l0) in
          do { dst \<leftarrow> (if dst_nonnull then rb_fetch rb l else Some []);
               Some (l, dst, rb\<lparr>rb_r_offset := (rb_r_offset rb + l) mod rb_size rb,
                                rb_flag := BUFFER_READ_OPERATION\<rparr>) })"

definition rb_peek :: "ring_buffer \<Rightarrow> int \<Rightarrow> (int \<times> bytes) option" where
  "rb_peek rb len =
     (case rb_readable rb of
        None \<Rightarrow> Some (0, [])
      | Some l0 \<Rightarrow>
          let l = (if l0 > len then len else l0) in
          do { dst \<leftarrow> rb_fetch rb l; Some (l, dst) })"

definition rb_write :: "ring_buffer \<Rightarrow> bytes \<Rightarrow> int \<Rightarrow> (int \<times> ring_buffer) option" where
  "rb_write rb src len =
     (case rb_writable rb of
        None \<Rightarrow> Some (0, rb)
      | Some l0 \<Rightarrow>
          let l = (if l0 > len then len else l0) in
          do { m \<leftarrow> (if rb_w_offset rb + l \<le> rb_size rb then
                       do { xs \<leftarrow> ld src 0 l; st (rb_addr rb) (rb_w_offset rb) xs }
                     else
                       do { xs \<leftarrow> ld src 0 (rb_size rb - rb_w_offset rb);
                            m1 \<leftarrow> st (rb_addr rb) (rb_w_offset rb) xs;
                            ys \<leftarrow> ld src (rb_size rb - rb_w_offset rb)
                                         (l - rb_size rb + rb_w_offset rb);
                            st m1 0 ys });
               Some (l, rb\<lparr>rb_addr := m,
                           rb_w_offset := (rb_w_offset rb + l) mod rb_size rb,
                           rb_flag := BUFFER_WRITE_OPERATION\<rparr>) })"

text \<open>
  \<open>read_to_buffer\<close> copies to a \<open>Buffer\<close>.  Its first test differs from that of \<open>read\<close>, and
  on the wrapping branch it ignores the results of the two writes.
\<close>

definition rb_read_to_buffer ::
  "ring_buffer \<Rightarrow> buffer \<Rightarrow> int \<Rightarrow> (int \<times> ring_buffer \<times> buffer) option" where
  "rb_read_to_buffer rb b len =
     (if rb_flag rb = BUFFER_READ_OPERATION \<and> rb_w_offset rb = rb_r_offset rb
      then Some (0, rb, b)
      else
        let l0 = (if rb_flag rb = BUFFER_WRITE_OPERATION \<and> rb_w_offset rb = rb_r_offset rb
                  then rb_size rb
                  else (rb_w_offset rb - rb_r_offset rb + rb_size rb) mod rb_size rb);
            l = (if l0 > len then len else l0);
            r = rb_r_offset rb
        in do { (l', b') \<leftarrow>
                  (if rb_w_offset rb > r \<or> l < rb_size rb - r then
                     buffer_write True b (drop (nat r) (rb_addr rb)) l
                   else
                     do { (_, b1) \<leftarrow> buffer_write True b (drop (nat r) (rb_addr rb)) (rb_size rb - r);
                          (_, b2) \<leftarrow> buffer_write True b1 (rb_addr rb) (l - rb_size rb + r);
                          Some (l, b2) });
                Some (l', rb\<lparr>rb_r_offset := (r + l') mod rb_size rb,
                             rb_flag := BUFFER_READ_OPERATION\<rparr>, b') })"

text \<open>
  \<open>printf\<close> and \<open>memcopy\<close> write at the write offset without splitting at the end of the
  block and without setting the flag.  \<open>memcopy\<close> returns an uninitialised variable; only
  its effect is modelled.
\<close>

definition rb_printf :: "ring_buffer \<Rightarrow> bytes \<Rightarrow> (int \<times> ring_buffer) option" where
  "rb_printf rb txt =
     (case rb_writable rb of
        None \<Rightarrow> Some (0, rb)
      | Some l \<Rightarrow>
          do { m \<leftarrow> st (rb_addr rb) (rb_w_offset rb) (vsnprintf_bytes l txt);
               let ret = int (length txt) in
               Some (ret, rb\<lparr>rb_addr := m,
                             rb_w_offset := (rb_w_offset rb + ret) mod rb_size rb\<rparr>) })"

definition rb_memcopy :: "ring_buffer \<Rightarrow> bytes \<Rightarrow> int \<Rightarrow> ring_buffer option" where
  "rb_memcopy rb src len =
     (case rb_writable rb of
        None \<Rightarrow> Some rb
      | Some l0 \<Rightarrow>
          let l = (if l0 > len then len else l0) in
          do { xs \<leftarrow> ld src 0 l;
               m \<leftarrow> st (rb_addr rb) (rb_w_offset rb) xs;
               Some (rb\<lparr>rb_addr := m,
                        rb_w_offset := (rb_w_offset rb + l) mod rb_size rb\<rparr>) })"

text \<open>One comparison of the search loop: in one piece, in the wrapped part, or split.\<close>

definition rb_match_at :: "ring_buffer \<Rightarrow> bytes \<Rightarrow> int \<Rightarrow> int \<Rightarrow> int option option" where
  "rb_match_at rb needle n cnt =
     (let r = rb_r_offset rb; sz = rb_size rb; m = rb_addr rb in
      if r + cnt + n \<le> sz then
        do { eq \<leftarrow> mem_eq m (r + cnt) needle 0 n; Some (if eq then Some (r + cnt) else None) }
      else if r + cnt \<ge> sz then
        do { eq \<leftarrow> mem_eq m ((cnt + r) mod sz) needle 0 n;
             Some (if eq then Some ((cnt + r) mod sz) else None) }
      else
        do { eq1 \<leftarrow> mem_eq m (r + cnt) needle 0 (sz - (r + cnt));
             if \<not> eq1 then Some None
             else do { eq2 \<leftarrow> mem_eq m 0 needle (sz - r - cnt) (n - (sz - r - cnt));
                       Some (if eq2 then Some (r + cnt) else None) } })"

function rb_find_loop :: "ring_buffer \<Rightarrow> bytes \<Rightarrow> int \<Rightarrow> int \<Rightarrow> int \<Rightarrow> int option option" where
  "rb_find_loop rb needle n len cnt =
     (if cnt \<le> len - n then
        do { hit \<leftarrow> rb_match_at rb needle n cnt;
             case hit of Some p \<Rightarrow> Some (Some p)
                       | None \<Rightarrow> rb_find_loop rb needle n len (cnt + 1) }
      else Some None)"
  by auto
termination
  by (relation "measure (\<lambda>(rb, nd, n, len, cnt). nat (len - n + 1 - cnt))") auto

declare rb_find_loop.simps [simp del]

definition rb_find :: "ring_buffer \<Rightarrow> bytes \<Rightarrow> int \<Rightarrow> int option option" where
  "rb_find rb needle n =
     (let len = rb_get_len rb in
      if n > len then Some None else rb_find_loop rb needle n len 0)"

definition rb_get_needle_offset :: "ring_buffer \<Rightarrow> bytes \<Rightarrow> int \<Rightarrow> int option" where
  "rb_get_needle_offset rb needle n =
     do { a \<leftarrow> rb_find rb needle n;
          case a of
            None \<Rightarrow> Some (-1)
          | Some p \<Rightarrow> let len = p - rb_r_offset rb in
                       Some (if len > 0 then len else (len + rb_size rb) mod rb_size rb) }"

subsection \<open>Invariant and abstraction\<close>

definition rb_inv :: "ring_buffer \<Rightarrow> bool" where
  "rb_inv rb \<longleftrightarrow> 0 < rb_size rb \<and> rb_size rb \<le> 2 ^ 30 \<and> rb_size rb = int (length (rb_addr rb)) \<and>
     0 \<le> rb_r_offset rb \<and> rb_r_offset rb < rb_size rb \<and>
     0 \<le> rb_w_offset rb \<and> rb_w_offset rb < rb_size rb"

definition rb_count :: "ring_buffer \<Rightarrow> nat" where
  "rb_count rb =
     (if rb_w_offset rb = rb_r_offset rb
      then if rb_flag rb = BUFFER_WRITE_OPERATION then nat (rb_size rb) else 0
      else nat ((rb_w_offset rb - rb_r_offset rb + rb_size rb) mod rb_size rb))"

text \<open>The bytes of a block at \<open>l\<close> consecutive ring positions from \<open>r\<close> on.\<close>

definition cyc :: "'a list \<Rightarrow> nat \<Rightarrow> nat \<Rightarrow> 'a list" where
  "cyc m r l = map (\<lambda>i. m ! ((r + i) mod length m)) [0..<l]"

definition rb_contents :: "ring_buffer \<Rightarrow> bytes" where
  "rb_contents rb = cyc (rb_addr rb) (nat (rb_r_offset rb)) (rb_count rb)"

lemma length_cyc [simp]: "length (cyc m r l) = l"
  by (simp add: cyc_def)

lemma nth_cyc [simp]: "i < l \<Longrightarrow> cyc m r l ! i = m ! ((r + i) mod length m)"
  by (simp add: cyc_def)

lemma take_cyc: "take k (cyc m r l) = cyc m r (min k l)"
  by (simp add: cyc_def take_map min.commute take_upt min_def)

lemma drop_cyc: "drop k (cyc m r l) = cyc m (r + k) (l - k)"
  by (rule nth_equalityI) (simp_all add: add.assoc)

lemma cyc_mod: "cyc m (r mod length m) l = cyc m r l"
  by (rule nth_equalityI) (simp_all add: mod_add_left_eq)

lemma cyc_flat: "r + l \<le> length m \<Longrightarrow> cyc m r l = take l (drop r m)"
  by (rule nth_equalityI) simp_all

lemma cyc_wrap:
  assumes "r \<le> length m" "length m \<le> r + l" "r + l \<le> 2 * length m"
  shows "cyc m r l = drop r m @ take (r + l - length m) m"
proof (rule nth_equalityI)
  show "length (cyc m r l) = length (drop r m @ take (r + l - length m) m)"
    using assms by simp
  fix i assume "i < length (cyc m r l)"
  then have i: "i < l" by simp
  show "cyc m r l ! i = (drop r m @ take (r + l - length m) m) ! i"
  proof (cases "r + i < length m")
    case True
    then show ?thesis using i assms by (simp add: nth_append less_diff_conv add.commute)
  next
    case False
    then have "(r + i) mod length m = r + i - length m"
      using i assms by (simp add: le_mod_geq)
    with False i assms show ?thesis
      by (auto simp: nth_append not_less le_diff_conv add.commute)
  qed
qed

lemma rb_invE:
  assumes "rb_inv rb"
  obtains r w n where "rb_r_offset rb = int r" "rb_w_offset rb = int w" "rb_size rb = int n"
    "length (rb_addr rb) = n" "r < n" "w < n" "n \<le> 2 ^ 30"
proof -
  have "rb_r_offset rb = int (nat (rb_r_offset rb))" "rb_w_offset rb = int (nat (rb_w_offset rb))"
    using assms by (auto simp: rb_inv_def)
  moreover have "nat (rb_r_offset rb) < length (rb_addr rb)" "nat (rb_w_offset rb) < length (rb_addr rb)"
    using assms unfolding rb_inv_def by linarith+
  ultimately show ?thesis
    using assms by (intro that [of "nat (rb_r_offset rb)" "nat (rb_w_offset rb)" "length (rb_addr rb)"])
       (auto simp: rb_inv_def)
qed

lemma ring_mod_cases:
  assumes "r < n" "w < (n::nat)"
  shows "(int w - int r) mod int n = int (if r \<le> w then w - r else w + n - r)"
proof -
  have "(int w - int r) mod int n = (int w - int r + int n) mod int n" by simp
  moreover have "int w - int r + int n = int (w + n - r)" using assms by (simp add: of_nat_diff)
  moreover have "(w + n - r) mod n = (if r \<le> w then w - r else w + n - r)"
    using assms by (auto simp: mod_if)
  ultimately show ?thesis by (simp only: zmod_int [symmetric])
qed

text \<open>A ring state with the offsets as naturals.\<close>

definition rb_at :: "ring_buffer \<Rightarrow> nat \<Rightarrow> nat \<Rightarrow> nat \<Rightarrow> bool" where
  "rb_at rb r w n \<longleftrightarrow> rb_r_offset rb = int r \<and> rb_w_offset rb = int w \<and> rb_size rb = int n \<and>
     length (rb_addr rb) = n \<and> r < n \<and> w < n \<and> n \<le> 2 ^ 30"

lemma rb_at_inv: "rb_inv rb \<longleftrightarrow> (\<exists>r w n. rb_at rb r w n)"
proof
  assume "rb_inv rb"
  then show "\<exists>r w n. rb_at rb r w n" by (rule rb_invE) (auto simp: rb_at_def)
qed (auto simp: rb_at_def rb_inv_def)

lemma rb_count_at:
  assumes "rb_at rb r w n"
  shows "rb_count rb = (if r = w then if rb_flag rb = BUFFER_WRITE_OPERATION then n else 0
                        else if r < w then w - r else w + n - r)"
proof -
  have "rb_count rb = (if w = r then if rb_flag rb = BUFFER_WRITE_OPERATION then n else 0
      else nat ((int w - int r + int n) mod int n))"
    using assms by (simp add: rb_count_def rb_at_def)
  also have "\<dots> = (if r = w then if rb_flag rb = BUFFER_WRITE_OPERATION then n else 0
                        else if r < w then w - r else w + n - r)"
    using assms unfolding rb_at_def by (auto simp: ring_mod_cases)
  finally show ?thesis .
qed

lemma rb_count_le: "rb_at rb r w n \<Longrightarrow> rb_count rb \<le> n"
  using rb_count_at [of rb r w n] by (auto simp: rb_at_def split: if_splits)

lemma rb_w_count: "rb_at rb r w n \<Longrightarrow> w = (r + rb_count rb) mod n"
  using rb_count_at [of rb r w n] by (auto simp: rb_at_def mod_if split: if_splits)

lemma rb_readable_at:
  assumes "rb_at rb r w n"
  shows "rb_readable rb = (if rb_count rb = 0 then None else Some (int (rb_count rb)))"
  using assms rb_count_at [OF assms]
  by (auto simp: rb_readable_def rb_at_def ring_mod_cases split: if_splits)

lemma rb_writable_at:
  assumes "rb_at rb r w n"
  shows "rb_writable rb = (if rb_count rb = n then None else Some (int (n - rb_count rb)))"
  using assms rb_count_at [OF assms]
  by (auto simp: rb_writable_def rb_at_def ring_mod_cases split: if_splits)

lemma rb_get_len_at:
  assumes "rb_at rb r w n"
  shows "rb_get_len rb =
    (if r = w \<and> rb_flag rb = BUFFER_NA_OPERATION then int n else int (rb_count rb))"
  using assms rb_count_at [OF assms]
  by (cases "rb_flag rb") (auto simp: rb_get_len_def rb_at_def split: if_splits)

subsection \<open>Reading\<close>

lemma rb_fetch_at:
  assumes "rb_at rb r w n" "l \<le> rb_count rb"
  shows "rb_fetch rb (int l) = Some (cyc (rb_addr rb) r l)"
proof (cases "r < w \<or> l < n - r")
  case True
  then have fl: "r + l \<le> n"
    using assms rb_count_at [OF assms(1)] by (auto simp: rb_at_def)
  from True assms(1) have "rb_fetch rb (int l) = ld (rb_addr rb) (int r) (int l)"
    by (auto simp: rb_fetch_def rb_at_def)
  with fl assms(1) show ?thesis by (simp add: rb_at_def ld_Some cyc_flat)
next
  case False
  with assms have rl: "n \<le> r + l" "r + l \<le> 2 * n" "r < n" "length (rb_addr rb) = n"
    using rb_count_le [OF assms(1)] by (auto simp: rb_at_def)
  have i: "int l - int n + int r = int (r + l - n)" "int n - int r = int (n - r)"
    using rl by (auto simp: of_nat_diff)
  have "rb_fetch rb (int l) = do { a \<leftarrow> ld (rb_addr rb) (int r) (int (n - r));
                                   c \<leftarrow> ld (rb_addr rb) 0 (int (r + l - n)); Some (a @ c) }"
    unfolding i [symmetric] using False assms(1) by (auto simp: rb_fetch_def rb_at_def)
  also have "\<dots> = Some (drop r (rb_addr rb) @ take (r + l - n) (rb_addr rb))"
    using ld_nat [of r "n - r" "rb_addr rb"] ld_nat0 [of "r + l - n" "rb_addr rb"] rl by simp
  finally show ?thesis using cyc_wrap [of r "rb_addr rb" l] rl by simp
qed

lemma rb_read_at:
  assumes at: "rb_at rb r w n" and c: "0 < rb_count rb" and l: "l = min k (rb_count rb)"
  shows "rb_read nn rb (int k) =
    Some (int l, if nn then cyc (rb_addr rb) r l else [],
          rb\<lparr>rb_r_offset := int ((r + l) mod n), rb_flag := BUFFER_READ_OPERATION\<rparr>)"
proof -
  have l': "(if int (rb_count rb) > int k then int k else int (rb_count rb)) = int l"
    by (simp add: l min_def)
  have f: "rb_fetch rb (int l) = Some (cyc (rb_addr rb) r l)"
    by (rule rb_fetch_at [OF at]) (simp add: l)
  have o: "(rb_r_offset rb + int l) mod rb_size rb = int ((r + l) mod n)"
    using at by (simp add: rb_at_def zmod_int)
  have rd: "rb_readable rb = Some (int (rb_count rb))" using rb_readable_at [OF at] c by simp
  show ?thesis
    unfolding rb_read_def rd option.case Let_def l' o f by simp
qed

lemma ring_distance:
  assumes "r < (n::nat)" "c \<le> n" "0 < l" "l \<le> c"
  defines "r' \<equiv> (r + l) mod n" and "w \<equiv> (r + c) mod n"
  shows "(if r' = w then 0 else if r' < w then w - r' else w + n - r') = c - l"
proof -
  have r': "r' = (if r + l < n then r + l else r + l - n)" using assms by (simp add: mod_if)
  have w: "w = (if r + c < n then r + c else if r + c - n < n then r + c - n else r + c - n - n)"
    using assms by (auto simp: mod_if)
  show ?thesis unfolding r' w using assms(1-4)
    by (cases "r + l < n"; cases "r + c < n"; cases "r + c - n < n"; simp; linarith?)
qed

lemma rb_read_count:
  assumes at: "rb_at rb r w n" and l: "0 < l" "l \<le> rb_count rb"
  defines "rb' \<equiv> rb\<lparr>rb_r_offset := int ((r + l) mod n), rb_flag := BUFFER_READ_OPERATION\<rparr>"
  shows "rb_at rb' ((r + l) mod n) w n" and "rb_count rb' = rb_count rb - l"
proof -
  show at': "rb_at rb' ((r + l) mod n) w n" using at by (simp add: rb_at_def rb'_def)
  from at have r: "r < n" by (simp add: rb_at_def)
  have "rb_flag rb' \<noteq> BUFFER_WRITE_OPERATION" by (simp add: rb'_def)
  then show "rb_count rb' = rb_count rb - l"
    using ring_distance [OF r rb_count_le [OF at] l] rb_w_count [OF at, symmetric]
    unfolding rb_count_at [OF at'] by (simp only: if_False)
qed

lemma rb_contents_at: "rb_at rb r w n \<Longrightarrow> rb_contents rb = cyc (rb_addr rb) r (rb_count rb)"
  by (simp add: rb_contents_def rb_at_def)

lemma rb_read_law:
  assumes inv: "rb_inv rb" and k: "0 < k"
  shows "\<exists>rb'. rb_read True rb (int k) =
            Some (int (min k (length (rb_contents rb))), take k (rb_contents rb), rb') \<and>
         rb_inv rb' \<and> rb_contents rb' = drop k (rb_contents rb)"
proof -
  from inv obtain r w n where at: "rb_at rb r w n" by (auto simp: rb_at_inv)
  show ?thesis
  proof (cases "rb_count rb = 0")
    case True
    then show ?thesis
      using inv rb_readable_at [OF at] by (simp add: rb_read_def rb_contents_def cyc_def)
  next
    case False
    let ?l = "min k (rb_count rb)"
    let ?rb' = "rb\<lparr>rb_r_offset := int ((r + ?l) mod n), rb_flag := BUFFER_READ_OPERATION\<rparr>"
    have l: "0 < ?l" "?l \<le> rb_count rb" using k False by auto
    note at' = rb_read_count [OF at l]
    have n: "length (rb_addr rb) = n" using at by (simp add: rb_at_def)
    have "rb_contents ?rb' = cyc (rb_addr rb) (r + ?l) (rb_count rb - ?l)"
      using rb_contents_at [OF at'(1)] at'(2) cyc_mod [of "rb_addr rb"] n by simp
    also have "\<dots> = drop k (rb_contents rb)"
      unfolding rb_contents_at [OF at] drop_cyc by (cases "k \<le> rb_count rb") (simp_all add: cyc_def)
    finally have "rb_contents ?rb' = drop k (rb_contents rb)" .
    moreover have "rb_inv ?rb'" using at' by (auto simp: rb_at_inv)
    moreover have "take k (rb_contents rb) = cyc (rb_addr rb) r ?l"
      by (simp add: rb_contents_at [OF at] take_cyc)
    ultimately show ?thesis
      using rb_read_at [OF at _ refl, where k = k and nn = True] False by (auto simp: rb_contents_at [OF at])
  qed
qed

lemma rb_peek_eq:
  assumes "rb_inv rb"
  shows "rb_peek rb (int k) =
    Some (int (min k (length (rb_contents rb))), take k (rb_contents rb))"
proof -
  from assms obtain r w n where at: "rb_at rb r w n" by (auto simp: rb_at_inv)
  note c = rb_contents_at [OF at]
  show ?thesis
  proof (cases "rb_count rb = 0")
    case True
    then show ?thesis using rb_readable_at [OF at] by (simp add: rb_peek_def c cyc_def)
  next
    case False
    then have rd: "rb_readable rb = Some (int (rb_count rb))" using rb_readable_at [OF at] by simp
    have l': "(if int (rb_count rb) > int k then int k else int (rb_count rb)) =
        int (min k (rb_count rb))" by (simp add: min_def)
    have f: "rb_fetch rb (int (min k (rb_count rb))) = Some (cyc (rb_addr rb) r (min k (rb_count rb)))"
      by (rule rb_fetch_at [OF at]) simp
    show ?thesis unfolding rb_peek_def rd option.case Let_def l' f by (simp add: c take_cyc)
  qed
qed

subsection \<open>Writing\<close>

text \<open>
  The block after \<open>xs\<close> has been stored at ring position \<open>w\<close>, described position by
  position: the byte at distance \<open>d\<close> from \<open>w\<close> is \<open>xs ! d\<close>, the others are unchanged.
\<close>

definition ring_store :: "'a list \<Rightarrow> nat \<Rightarrow> 'a list \<Rightarrow> 'a list" where
  "ring_store m w xs =
     (if w + length xs \<le> length m
      then take w m @ xs @ drop (w + length xs) m
      else let k = length m - w in
           drop k xs @ take (w - (length xs - k)) (drop (length xs - k) m) @ take k xs)"

lemma length_ring_store:
  "w < length m \<Longrightarrow> length xs \<le> length m \<Longrightarrow> length (ring_store m w xs) = length m"
  by (auto simp: ring_store_def Let_def)

lemma nth_ring_store_new:
  assumes "w < length m" "length xs \<le> length m" "d < length xs"
  shows "ring_store m w xs ! ((w + d) mod length m) = xs ! d"
proof (cases "w + length xs \<le> length m")
  case True
  with assms show ?thesis by (simp add: ring_store_def nth_append)
next
  case False
  let ?k = "length m - w"
  show ?thesis
  proof (cases "w + d < length m")
    case True
    have "\<not> w + d < length xs + w - length m" "\<not> d + length m - length xs < length m - length xs"
      using False True assms by linarith+
    with True False assms show ?thesis
      by (simp add: ring_store_def Let_def nth_append)
  next
    case nw: False
    then have "(w + d) mod length m = w + d - length m" using assms by (simp add: le_mod_geq)
    with False nw assms show ?thesis
      by (simp add: ring_store_def Let_def nth_append) linarith
  qed
qed

lemma nth_ring_store_old:
  assumes "w < length m" "length xs \<le> length m" "length xs \<le> d" "d < length m"
  shows "ring_store m w xs ! ((w + d) mod length m) = m ! ((w + d) mod length m)"
proof (cases "w + d < length m")
  case True
  with assms show ?thesis by (simp add: ring_store_def nth_append)
next
  case nw: False
  then have md: "(w + d) mod length m = w + d - length m" using assms by (simp add: le_mod_geq)
  show ?thesis
  proof (cases "w + length xs \<le> length m")
    case True
    moreover have "w + d - length m < w" using assms(4) nw by linarith
    ultimately show ?thesis using nw assms unfolding md by (simp add: ring_store_def nth_append)
  next
    case False
    moreover have "\<not> w + d - length m < length xs + w - length m"
      "d - length xs < length m - length xs"
      using assms nw False by linarith+
    ultimately show ?thesis
      using nw assms unfolding md by (simp add: ring_store_def Let_def nth_append)
  qed
qed

lemma cyc_ring_store:
  assumes "r < length m" "c + length xs \<le> length m" "w = (r + c) mod length m"
  shows "cyc (ring_store m w xs) r (c + length xs) = cyc m r c @ xs"
proof (rule nth_equalityI)
  fix i assume "i < length (cyc (ring_store m w xs) r (c + length xs))"
  then have i: "i < c + length xs" by simp
  have w: "w < length m" and xs: "length xs \<le> length m" using assms by (auto intro: mod_less_divisor)
  note len = length_ring_store [OF w xs]
  show "cyc (ring_store m w xs) r (c + length xs) ! i = (cyc m r c @ xs) ! i"
  proof (cases "i < c")
    case True
    let ?d = "length m - c + i"
    have "(w + ?d) mod length m = (r + c + ?d) mod length m"
      unfolding assms(3) by (rule mod_add_left_eq)
    also have "r + c + ?d = r + i + length m" using assms(2) by simp
    finally have "(w + ?d) mod length m = (r + i) mod length m" by simp
    then show ?thesis
      using nth_ring_store_old [OF w xs, of ?d] True assms(2) i len by (simp add: nth_append)
  next
    case False
    have "(w + (i - c)) mod length m = (r + c + (i - c)) mod length m"
      unfolding assms(3) by (rule mod_add_left_eq)
    then have "(w + (i - c)) mod length m = (r + i) mod length m" using False by simp
    then show ?thesis
      using nth_ring_store_new [OF w xs, of "i - c"] False i len by (simp add: nth_append)
  qed
qed simp

lemma rb_write_store:
  assumes at: "rb_at rb r w n" and c: "rb_count rb < n" and l: "l = min (length src) (n - rb_count rb)"
  shows "rb_write rb src (int (length src)) =
    Some (int l, rb\<lparr>rb_addr := ring_store (rb_addr rb) w (take l src),
                    rb_w_offset := int ((w + l) mod n), rb_flag := BUFFER_WRITE_OPERATION\<rparr>)"
proof -
  from at have f: "rb_w_offset rb = int w" "rb_size rb = int n" "length (rb_addr rb) = n" "w < n"
    by (auto simp: rb_at_def)
  have wr: "rb_writable rb = Some (int (n - rb_count rb))" using rb_writable_at [OF at] c by simp
  have l': "(if int (n - rb_count rb) > int (length src) then int (length src)
             else int (n - rb_count rb)) = int l" by (simp add: l min_def)
  have o: "(int w + int l) mod int n = int ((w + l) mod n)" by (simp add: zmod_int)
  have ls: "l \<le> length src" "l \<le> n" by (auto simp: l)
  show ?thesis
  proof (cases "w + l \<le> n")
    case True
    then have "int w + int l \<le> int n" by linarith
    with True show ?thesis
      unfolding rb_write_def wr option.case Let_def l' f o
      using ls f ld_nat0 [of l src] st_nat [of w "take l src" "rb_addr rb"]
      by (simp add: ring_store_def min_def)
  next
    case False
    let ?k = "n - w"
    have k: "int n - int w = int ?k" "int l - int n + int w = int (l - ?k)" "?k \<le> l"
      using False f by (auto simp: of_nat_diff)
    have s1: "st (rb_addr rb) (int w) (take ?k src) = Some (take w (rb_addr rb) @ take ?k src)"
      using st_nat [of w "take ?k src" "rb_addr rb"] f k(3) ls
      by (simp add: min_absorb2 order_trans [of "n - w" l])
    have s2: "st (take w (rb_addr rb) @ take ?k src) 0 (take (l - ?k) (drop ?k src)) =
        Some (ring_store (rb_addr rb) w (take l src))"
    proof -
      let ?a = "take w (rb_addr rb)" and ?p = "take ?k src" and ?q = "take (l - ?k) (drop ?k src)"
      have len: "length ?a = w" "length ?p = ?k" "length ?q = l - ?k" "l - ?k \<le> w"
        using f ls k(3) by auto
      have "st (?a @ ?p) 0 ?q = Some (?q @ drop (l - ?k) ?a @ ?p)"
        using st_nat0 [of ?q "?a @ ?p"] len ls f by simp
      moreover have "ring_store (rb_addr rb) w (take l src) = ?q @ drop (l - ?k) ?a @ ?p"
      proof -
        have "length (take l src) = l" "take ?k (take l src) = ?p"
          using ls k(3) by (simp_all add: min_absorb1)
        with False f show ?thesis by (simp add: ring_store_def Let_def drop_take)
      qed
      ultimately show ?thesis by simp
    qed
    have nl: "\<not> int w + int l \<le> int n" using False by linarith
    show ?thesis
      unfolding rb_write_def wr option.case Let_def l' f o k if_not_P [OF nl]
      using ld_nat0 [of ?k src] ld_nat [of ?k "l - ?k" src] k(3) ls s1 s2 by simp
  qed
qed

lemma rb_write_count:
  assumes at: "rb_at rb r w n" and l: "0 < l" "rb_count rb + l \<le> n" "length m = n"
  defines "rb' \<equiv> rb\<lparr>rb_addr := m, rb_w_offset := int ((w + l) mod n),
                     rb_flag := BUFFER_WRITE_OPERATION\<rparr>"
  shows "rb_at rb' r ((w + l) mod n) n" and "rb_count rb' = rb_count rb + l"
proof -
  show at': "rb_at rb' r ((w + l) mod n) n" using at l(3) by (simp add: rb_at_def rb'_def)
  from at have r: "r < n" by (simp add: rb_at_def)
  let ?c = "rb_count rb + l"
  have w': "(w + l) mod n = (r + ?c) mod n"
    using rb_w_count [OF at] by (metis add.assoc mod_add_left_eq)
  have "(r + ?c) mod n = (if r + ?c < n then r + ?c else r + ?c - n)"
    using r l(2) by (simp add: mod_if)
  then show "rb_count rb' = ?c"
    using rb_count_at [OF at'] l r unfolding w' by (simp add: rb'_def split: if_splits)
qed

definition rb_fits :: "ring_buffer \<Rightarrow> bytes \<Rightarrow> bool" where
  "rb_fits rb xs \<longleftrightarrow> xs \<noteq> [] \<and> int (length xs) \<le> int_max"

definition rb_room :: "ring_buffer \<Rightarrow> nat \<Rightarrow> nat" where
  "rb_room rb n = min n (nat (rb_size rb) - rb_count rb)"

lemma rb_write_law:
  assumes inv: "rb_inv rb" and src: "src \<noteq> []"
  shows "\<exists>rb'. rb_write rb src (int (length src)) = Some (int (rb_room rb (length src)), rb') \<and>
           rb_inv rb' \<and> rb_contents rb' = rb_contents rb @ take (rb_room rb (length src)) src"
proof -
  from inv obtain r w n where at: "rb_at rb r w n" by (auto simp: rb_at_inv)
  then have n: "nat (rb_size rb) = n" "length (rb_addr rb) = n" "r < n" "w < n"
    by (auto simp: rb_at_def)
  show ?thesis
  proof (cases "rb_count rb = n")
    case True
    then show ?thesis using inv rb_writable_at [OF at] n by (simp add: rb_write_def rb_room_def)
  next
    case False
    with rb_count_le [OF at] have c: "rb_count rb < n" by simp
    let ?l = "rb_room rb (length src)"
    let ?xs = "take ?l src"
    have l: "?l = min (length src) (n - rb_count rb)" by (simp add: rb_room_def n)
    then have l': "0 < ?l" "rb_count rb + ?l \<le> n" "length ?xs = ?l" using c src by auto
    let ?m = "ring_store (rb_addr rb) w ?xs"
    have m: "length ?m = n" using length_ring_store [of w "rb_addr rb" ?xs] n l' by simp
    note wr = rb_write_store [OF at c l]
    note at' = rb_write_count [OF at l'(1,2) m]
    have "cyc ?m r (rb_count rb + length ?xs) = cyc (rb_addr rb) r (rb_count rb) @ ?xs"
      by (rule cyc_ring_store) (use n l' rb_w_count [OF at] in auto)
    then have "rb_contents (rb\<lparr>rb_addr := ?m, rb_w_offset := int ((w + ?l) mod n),
        rb_flag := BUFFER_WRITE_OPERATION\<rparr>) = rb_contents rb @ ?xs"
      using rb_contents_at [OF at'(1)] at'(2) rb_contents_at [OF at] l'(3) by simp
    with wr at' show ?thesis by (auto simp: rb_at_inv)
  qed
qed

text \<open>A ring of \<open>N\<close> bytes accepts what there is room for and says how much that is.\<close>

definition ring_accepts :: "nat \<Rightarrow> bytes \<Rightarrow> bool \<Rightarrow> bytes \<Rightarrow> int \<Rightarrow> bytes \<Rightarrow> bool" where
  "ring_accepts N q ok xs n q' \<longleftrightarrow>
     n = int (min (length xs) (N - length q)) \<and> q' = q @ take (N - length q) xs"

lemma length_rb_contents: "rb_inv rb \<Longrightarrow> length (rb_contents rb) = rb_count rb"
  by (auto simp: rb_at_inv rb_contents_at)

lemma rb_write_size: "rb_write rb xs l = Some (n, rb') \<Longrightarrow> rb_size rb' = rb_size rb"
  by (auto simp: rb_write_def Let_def bind_eq_Some_conv split: option.splits if_splits)

lemma rb_read_size: "rb_read nn rb l = Some (n, ys, rb') \<Longrightarrow> rb_size rb' = rb_size rb"
  by (auto simp: rb_read_def Let_def bind_eq_Some_conv split: option.splits if_splits)

interpretation ring: byte_stream "\<lambda>rb. rb_inv rb \<and> nat (rb_size rb) = N" rb_contents rb_fits "ring_accepts N"
    "\<lambda>rb ok xs. rb_write rb xs (int (length xs))" "rb_read True" for N
proof unfold_locales
  fix s xs ok assume i: "rb_inv s \<and> nat (rb_size s) = N" and f: "rb_fits s xs"
  obtain s' where s': "rb_write s xs (int (length xs)) = Some (int (rb_room s (length xs)), s')" "rb_inv s'"
      "rb_contents s' = rb_contents s @ take (rb_room s (length xs)) xs"
    using rb_write_law [of s xs] i f by (auto simp: rb_fits_def)
  have "take (rb_room s (length xs)) xs = take (N - rb_count s) xs" using i by (simp add: rb_room_def min_def)
  then show "\<exists>n s'. rb_write s xs (int (length xs)) = Some (n, s') \<and> (rb_inv s' \<and> nat (rb_size s') = N) \<and>
      ring_accepts N (rb_contents s) ok xs n (rb_contents s')"
    using s' i rb_write_size [OF s'(1)] by (simp add: ring_accepts_def length_rb_contents rb_room_def)
next
  fix s k assume i: "rb_inv s \<and> nat (rb_size s) = N" and k: "0 < k" "int k < 2 ^ 31"
  obtain s' where s': "rb_read True s (int k) = Some (int (min k (length (rb_contents s))), take k (rb_contents s), s')"
      "rb_inv s'" "rb_contents s' = drop k (rb_contents s)"
    using rb_read_law i k by blast
  then show "\<exists>s'. rb_read True s (int k) = Some (int (min k (length (rb_contents s))), take k (rb_contents s), s') \<and>
      (rb_inv s' \<and> nat (rb_size s') = N) \<and> rb_contents s' = drop k (rb_contents s)"
    using i rb_read_size [OF s'(1)] by simp
qed

subsection \<open>Searching\<close>

lemma mem_eq_nat:
  "a + l \<le> length m \<Longrightarrow> c + l \<le> length nd \<Longrightarrow>
   mem_eq m (int a) nd (int c) (int l) = Some (take l (drop a m) = take l (drop c nd))"
  by (simp add: mem_eq_def ld_nat)

lemma take_eq_split: "k \<le> length nd \<Longrightarrow>
  xs @ ys = nd \<longleftrightarrow> xs = take k nd \<and> ys = drop k nd" if "length xs = k"
  using that by (metis append_eq_conv_conj append_take_drop_id)

text \<open>
  One comparison of the search finds the needle at \<open>cnt\<close> exactly if the contents have it
  there, and then reports its position in the block.
\<close>

lemma rb_match_at_spec:
  assumes at: "rb_at rb r w n" and c: "cnt + length nd \<le> rb_count rb" and nd: "nd \<noteq> []"
  shows "rb_match_at rb nd (int (length nd)) (int cnt) =
    Some (if occurs_at nd (rb_contents rb) cnt then Some (int ((r + cnt) mod n)) else None)"
proof -
  let ?m = "rb_addr rb" and ?l = "length nd"
  from at have f: "rb_r_offset rb = int r" "rb_size rb = int n" "length ?m = n" "r < n"
    by (auto simp: rb_at_def)
  have cn: "cnt + ?l \<le> n" using c rb_count_le [OF at] by simp
  have "take ?l (drop cnt (rb_contents rb)) = cyc ?m (r + cnt) ?l"
    unfolding rb_contents_at [OF at] drop_cyc take_cyc using c by (simp add: min_absorb1)
  then have occ: "occurs_at nd (rb_contents rb) cnt \<longleftrightarrow> cyc ?m (r + cnt) ?l = nd"
    using c by (simp add: occurs_at_def rb_contents_at [OF at])
  consider (flat) "r + cnt + ?l \<le> n" | (wrapped) "n \<le> r + cnt"
    | (split) "r + cnt < n" "n < r + cnt + ?l" by linarith
  then show ?thesis
  proof cases
    case flat
    then have p: "int r + int cnt + int ?l \<le> int n" by linarith
    have "r + cnt < n" using flat nd by (cases nd) auto
    moreover have "mem_eq ?m (int r + int cnt) nd 0 (int ?l) = Some (cyc ?m (r + cnt) ?l = nd)"
      using mem_eq_nat [of "r + cnt" ?l ?m 0 nd] flat f cyc_flat [of "r + cnt" ?l ?m] by simp
    ultimately show ?thesis unfolding rb_match_at_def Let_def f if_P [OF p] occ by simp
  next
    case wrapped
    then have p: "\<not> int r + int cnt + int ?l \<le> int n" "int r + int cnt \<ge> int n"
      using nd length_greater_0_conv [of nd] by linarith+
    have md: "(r + cnt) mod n = r + cnt - n" using wrapped f cn by (simp add: le_mod_geq)
    have i: "(int cnt + int r) mod int n = int ((r + cnt) mod n)"
      by (simp add: zmod_int add.commute)
    have "cyc ?m (r + cnt) ?l = cyc ?m ((r + cnt) mod n) ?l" using cyc_mod [of ?m] f by simp
    moreover have "(r + cnt) mod n + ?l \<le> n" using md cn f by linarith
    ultimately have "mem_eq ?m (int ((r + cnt) mod n)) nd 0 (int ?l) =
        Some (cyc ?m (r + cnt) ?l = nd)"
      using mem_eq_nat [of "(r + cnt) mod n" ?l ?m 0 nd] f cyc_flat [of "(r + cnt) mod n" ?l ?m]
      by simp
    then show ?thesis
      unfolding rb_match_at_def Let_def f if_not_P [OF p(1)] if_P [OF p(2)] i occ by simp
  next
    case split
    let ?k = "n - (r + cnt)"
    have p: "\<not> int r + int cnt + int ?l \<le> int n" "\<not> int r + int cnt \<ge> int n"
      using split by linarith+
    have i: "int n - int (r + cnt) = int ?k" "int n - int r - int cnt = int ?k"
      "int ?l - int ?k = int (?l - ?k)"
      using split by (auto simp: of_nat_diff)
    have e1: "mem_eq ?m (int (r + cnt)) nd 0 (int ?k) = Some (drop (r + cnt) ?m = take ?k nd)"
      using mem_eq_nat [of "r + cnt" ?k ?m 0 nd] split f by simp
    have e2: "mem_eq ?m 0 nd (int ?k) (int (?l - ?k)) = Some (take (?l - ?k) ?m = drop ?k nd)"
      using mem_eq_nat [of 0 "?l - ?k" ?m ?k nd] split f cn by simp
    have "cyc ?m (r + cnt) ?l = drop (r + cnt) ?m @ take (?l - ?k) ?m"
      using cyc_wrap [of "r + cnt" ?m ?l] split f cn by (simp add: add.commute)
    then have "cyc ?m (r + cnt) ?l = nd \<longleftrightarrow> drop (r + cnt) ?m = take ?k nd \<and> take (?l - ?k) ?m = drop ?k nd"
      using take_eq_split [of "drop (r + cnt) ?m" ?k nd] split f by simp
    then show ?thesis
      unfolding rb_match_at_def Let_def f if_not_P [OF p(1)] if_not_P [OF p(2)]
        of_nat_add [symmetric] i e1 e2 occ
      using split by simp
  qed
qed

lemma rb_find_loop_spec:
  assumes at: "rb_at rb r w n" and nd: "nd \<noteq> []"
  shows "rb_find_loop rb nd (int (length nd)) (int (rb_count rb)) (int c) =
    Some (map_option (\<lambda>i. int ((r + i) mod n)) (first_occ_from c nd (rb_contents rb)))"
proof (induction "rb_count rb + 1 - length nd - c" arbitrary: c)
  case 0
  have len: "length (rb_contents rb) = rb_count rb" by (simp add: rb_contents_at [OF at])
  from 0 have "\<not> int c \<le> int (rb_count rb) - int (length nd)" "\<not> c + length nd \<le> rb_count rb"
    using nd by (cases nd; simp)+
  with len show ?case by (subst rb_find_loop.simps, subst first_occ_from.simps) simp
next
  case (Suc d)
  then have c: "c + length nd \<le> rb_count rb" by simp
  have len: "length (rb_contents rb) = rb_count rb" by (simp add: rb_contents_at [OF at])
  have ih: "rb_find_loop rb nd (int (length nd)) (int (rb_count rb)) (int c + 1) =
     Some (map_option (\<lambda>i. int ((r + i) mod n)) (first_occ_from (Suc c) nd (rb_contents rb)))"
    using Suc.hyps(1) [of "Suc c"] Suc.hyps(2) by (simp add: add.commute)
  have p: "int c \<le> int (rb_count rb) - int (length nd)" using c by linarith
  have o: "occurs_at nd (rb_contents rb) c \<longleftrightarrow> take (length nd) (drop c (rb_contents rb)) = nd"
    using c len by (simp add: occurs_at_def)
  show ?case
    using c len p by (subst rb_find_loop.simps, subst first_occ_from.simps)
      (simp add: rb_match_at_spec [OF at c nd] ih o)
qed

definition rb_used :: "ring_buffer \<Rightarrow> bool" where
  "rb_used rb \<longleftrightarrow> \<not> (rb_w_offset rb = rb_r_offset rb \<and> rb_flag rb = BUFFER_NA_OPERATION)"

lemma rb_get_len_eq:
  "rb_inv rb \<Longrightarrow> rb_used rb \<Longrightarrow> rb_get_len rb = int (length (rb_contents rb))"
  by (auto simp: rb_at_inv rb_get_len_at rb_contents_at rb_used_def) (auto simp: rb_at_def)

lemma rb_find_eq:
  assumes inv: "rb_inv rb" and used: "rb_used rb" and nd: "nd \<noteq> []"
  shows "rb_find rb nd (int (length nd)) =
    Some (map_option (\<lambda>i. (rb_r_offset rb + int i) mod rb_size rb) (first_occ nd (rb_contents rb)))"
proof -
  from inv obtain r w n where at: "rb_at rb r w n" by (auto simp: rb_at_inv)
  have len: "length (rb_contents rb) = rb_count rb" by (simp add: rb_contents_at [OF at])
  have g: "rb_get_len rb = int (rb_count rb)" using rb_get_len_eq [OF inv used] len by simp
  have i: "(\<lambda>i. (rb_r_offset rb + int i) mod rb_size rb) = (\<lambda>i. int ((r + i) mod n))"
    using at by (auto simp: rb_at_def zmod_int)
  show ?thesis
  proof (cases "rb_count rb < length nd")
    case True
    then have "first_occ_from 0 nd (rb_contents rb) = None"
      using len by (subst first_occ_from.simps) simp
    with True g show ?thesis by (simp add: rb_find_def first_occ_def)
  next
    case False
    with rb_find_loop_spec [OF at nd, of 0] g show ?thesis
      unfolding i by (simp add: rb_find_def first_occ_def)
  qed
qed

lemma rb_get_needle_offset_eq:
  assumes inv: "rb_inv rb" and used: "rb_used rb" and nd: "nd \<noteq> []"
  shows "rb_get_needle_offset rb nd (int (length nd)) =
    Some (case first_occ nd (rb_contents rb) of None \<Rightarrow> -1 | Some i \<Rightarrow> int i)"
proof -
  from inv obtain r w n where at: "rb_at rb r w n" by (auto simp: rb_at_inv)
  then have f: "rb_r_offset rb = int r" "rb_size rb = int n" "r < n" by (auto simp: rb_at_def)
  have len: "length (rb_contents rb) = rb_count rb" by (simp add: rb_contents_at [OF at])
  show ?thesis
  proof (cases "first_occ nd (rb_contents rb)")
    case None
    then show ?thesis by (simp add: rb_get_needle_offset_def rb_find_eq [OF assms])
  next
    case (Some i)
    then have "i + length nd \<le> n"
      using len rb_count_le [OF at] by (auto simp: first_occ_Some occurs_at_def)
    with nd have i: "i < n" by (cases nd) auto
    then have md: "(r + i) mod n = (if r + i < n then r + i else r + i - n)"
      using f by (simp add: mod_if)
    let ?d = "(int r + int i) mod int n - int r"
    have "?d = (if r + i < n then int i else int i - int n)"
      using md i f by (simp add: of_nat_diff flip: zmod_int of_nat_add)
    then have "(if ?d > 0 then ?d else (?d + int n) mod int n) = int i"
      using i by (auto simp: mod_if)
    with Some show ?thesis
      unfolding rb_get_needle_offset_def rb_find_eq [OF assms] Let_def f by simp
  qed
qed

subsection \<open>Moving bytes into a Buffer\<close>

lemma buffer_write_prefix:
  "l \<le> length src \<Longrightarrow> buffer_write ok b src (int l) = buffer_write ok b (take l src) (int l)"
  by (simp add: buffer_write_def Let_def ld_nat0)

lemma buffer_write_cap:
  assumes inv: "buffer_inv b" and c: "b_capacity b \<le> 2 ^ 29" and l: "length xs \<le> 2 ^ 28"
  shows "\<exists>b'. buffer_write True b xs (int (length xs)) = Some (int (length xs), b') \<and>
    buffer_inv b' \<and> buffer_contents b' = buffer_contents b @ xs \<and>
    (b_capacity b \<le> 2 ^ 28 \<longrightarrow> b_capacity b' \<le> 2 ^ 29)"
proof -
  have g: "buffer_grow (b_capacity b) (int (length xs)) \<le> int_max"
    and g2: "b_capacity b \<le> 2 ^ 28 \<Longrightarrow> buffer_grow (b_capacity b) (int (length xs)) \<le> 2 ^ 29"
    using c l by (auto simp: buffer_grow_def Let_def)
  then have "buffer_fits b xs" using l by (simp add: buffer_fits_def)
  from buffer_write_law [OF inv this] obtain b' where
    b': "buffer_write True b xs (int (length xs)) = Some (int (length xs), b')"
        "buffer_inv b'" "buffer_contents b' = buffer_contents b @ xs" by blast
  have "b_capacity b' = b_capacity b \<or> b_capacity b' = buffer_grow (b_capacity b) (int (length xs))"
    using b'(1) by (auto simp: buffer_write_def Let_def bind_eq_Some_iff split: if_splits)
  with g2 b' show ?thesis by fastforce
qed

lemma rb_to_buffer_writes:
  assumes at: "rb_at rb r w n" and k: "k \<le> rb_count rb" and n: "n \<le> 2 ^ 28"
    and b: "buffer_inv b" "b_capacity b \<le> 2 ^ 28"
  shows "\<exists>b'. (if int w > int r \<or> int k < int n - int r
               then buffer_write True b (drop r (rb_addr rb)) (int k)
               else do { (_, b1) \<leftarrow> buffer_write True b (drop r (rb_addr rb)) (int n - int r);
                         (_, b2) \<leftarrow> buffer_write True b1 (rb_addr rb) (int k - int n + int r);
                         Some (int k, b2) }) = Some (int k, b') \<and>
         buffer_inv b' \<and> buffer_contents b' = buffer_contents b @ cyc (rb_addr rb) r k"
proof (cases "r < w \<or> k < n - r")
  case True
  let ?m = "rb_addr rb"
  from at have f: "length ?m = n" "r < n" "w < n" by (auto simp: rb_at_def)
  from True have fl: "r + k \<le> n"
    using k rb_count_at [OF at] f by auto
  then have "cyc ?m r k = take k (drop r ?m)" using f by (intro cyc_flat) simp
  moreover have "length (take k (drop r ?m)) = k" using fl f by simp
  moreover have "int w > int r \<or> int k < int n - int r" using True by linarith
  ultimately show ?thesis
    using buffer_write_cap [OF b(1), of "take k (drop r ?m)"] b(2) fl n f
      buffer_write_prefix [of k "drop r ?m" True b] by auto
next
  case False
  let ?m = "rb_addr rb"
  from at have f: "length ?m = n" "r < n" "w < n" by (auto simp: rb_at_def)
  from False have rk: "n \<le> r + k" by auto
  have kn: "k \<le> n" using k rb_count_le [OF at] by simp
  have i: "int n - int r = int (n - r)" "int k - int n + int r = int (r + k - n)"
    using rk f by (auto simp: of_nat_diff)
  have l1: "length (drop r ?m) = n - r" "length (take (r + k - n) ?m) = r + k - n"
    using f kn by auto
  have "n - r \<le> 2 ^ 28" using n by linarith
  with buffer_write_cap [OF b(1), of "drop r ?m"] b(2) l1 n obtain b1 where
    b1: "buffer_write True b (drop r ?m) (int (n - r)) = Some (int (n - r), b1)" "buffer_inv b1"
      "buffer_contents b1 = buffer_contents b @ drop r ?m" "b_capacity b1 \<le> 2 ^ 29" by auto
  have "r + k - n \<le> 2 ^ 28" using n kn f by linarith
  with buffer_write_cap [OF b1(2,4), of "take (r + k - n) ?m"] l1 obtain b2 where
    b2: "buffer_write True b1 (take (r + k - n) ?m) (int (r + k - n)) = Some (int (r + k - n), b2)"
      "buffer_inv b2" "buffer_contents b2 = buffer_contents b1 @ take (r + k - n) ?m" by auto
  have b2': "buffer_write True b1 ?m (int (r + k - n)) = Some (int (r + k - n), b2)"
    using b2(1) buffer_write_prefix [of "r + k - n" ?m True b1] f kn by simp
  have "cyc ?m r k = drop r ?m @ take (r + k - n) ?m"
    using cyc_wrap [of r ?m k] rk f kn by simp
  moreover have "\<not> (int w > int r \<or> int k < int n - int r)" using False by linarith
  ultimately show ?thesis unfolding i using b1 b2' b2 by simp
qed

lemma rb_read_to_buffer_law:
  assumes inv: "rb_inv rb" "rb_size rb \<le> 2 ^ 28" and k: "0 < k"
    and b: "buffer_inv b" "b_capacity b \<le> 2 ^ 28"
  shows "\<exists>rb' b'. rb_read_to_buffer rb b (int k) =
            Some (int (min k (length (rb_contents rb))), rb', b') \<and>
          rb_inv rb' \<and> rb_contents rb' = drop k (rb_contents rb) \<and>
          buffer_inv b' \<and> buffer_contents b' = buffer_contents b @ take k (rb_contents rb)"
proof -
  from inv obtain r w n where at: "rb_at rb r w n" by (auto simp: rb_at_inv)
  then have f: "rb_r_offset rb = int r" "rb_w_offset rb = int w" "rb_size rb = int n"
    "length (rb_addr rb) = n" "r < n" "w < n" by (auto simp: rb_at_def)
  have n: "n \<le> 2 ^ 28" using inv(2) f by simp
  note c = rb_contents_at [OF at]
  let ?l = "min k (rb_count rb)"
  let ?rb' = "rb\<lparr>rb_r_offset := (int r + int ?l) mod int n, rb_flag := BUFFER_READ_OPERATION\<rparr>"
  show ?thesis
  proof (cases "rb_flag rb = BUFFER_READ_OPERATION \<and> rb_w_offset rb = rb_r_offset rb")
    case True
    then have "rb_count rb = 0" by (simp add: rb_count_def)
    with True inv b show ?thesis by (simp add: rb_read_to_buffer_def c cyc_def)
  next
    case False
    have l0: "(if rb_flag rb = BUFFER_WRITE_OPERATION \<and> int w = int r then int n
        else (int w - int r + int n) mod int n) = int (rb_count rb)"
      using rb_count_at [OF at] f by (auto simp: ring_mod_cases)
    have l: "(if int (rb_count rb) > int k then int k else int (rb_count rb)) = int ?l"
      by (simp add: min_def)
    from rb_to_buffer_writes [OF at _ n b, of ?l] obtain b' where
      wr: "(if int w > int r \<or> int ?l < int n - int r
               then buffer_write True b (drop r (rb_addr rb)) (int ?l)
               else do { (_, b1) \<leftarrow> buffer_write True b (drop r (rb_addr rb)) (int n - int r);
                         (_, b2) \<leftarrow> buffer_write True b1 (rb_addr rb) (int ?l - int n + int r);
                         Some (int ?l, b2) }) = Some (int ?l, b')"
      and b': "buffer_inv b'" "buffer_contents b' = buffer_contents b @ cyc (rb_addr rb) r ?l"
      by auto
    have rd: "rb_read_to_buffer rb b (int k) = Some (int ?l, ?rb', b')"
      using False unfolding f
      unfolding rb_read_to_buffer_def Let_def f l0 l nat_int wr by (simp only: if_False) simp
    have "rb_inv ?rb' \<and> rb_contents ?rb' = drop k (rb_contents rb)"
    proof (cases "rb_count rb = 0")
      case True
      then have "r = w" using rb_count_at [OF at] f by (auto split: if_splits)
      with True f at have "rb_at ?rb' r w n" "rb_count ?rb' = 0"
        by (auto simp: rb_at_def rb_count_def)
      with True show ?thesis by (auto simp: rb_at_inv rb_contents_at c cyc_def)
    next
      case nz: False
      then have rr: "rb_read True rb (int k) = Some (int ?l, cyc (rb_addr rb) r ?l, ?rb')"
        using rb_read_at [OF at _ refl, where k = k and nn = True] by (simp add: zmod_int)
      from rb_read_law [OF inv(1) k] rr show ?thesis by auto
    qed
    with rd b' show ?thesis by (auto simp: c take_cyc)
  qed
qed

subsection \<open>Properties\<close>

definition stream_op_ok :: "stream_op \<Rightarrow> bool" where
  "stream_op_ok op = (case op of Wr ok xs \<Rightarrow> xs \<noteq> [] \<and> int (length xs) \<le> int_max
                               | Rd k \<Rightarrow> 0 < k \<and> int k \<le> int_max)"

lemma ring_ops_fit: "list_all stream_op_ok ops \<Longrightarrow>
    ops_fit rb_fits (\<lambda>rb ok xs. rb_write rb xs (int (length xs))) (rb_read True) rb ops"
  by (induction ops arbitrary: rb)
     (auto simp: stream_op_ok_def rb_fits_def split: stream_op.splits option.splits)

text \<open>
  C1.  The ring buffer is a FIFO bounded by its size, with the answers of all its calls: in any
  sequence of writes and reads of at least one byte on a well-formed ring, a write takes as much
  of its input as there is room for and returns how much that is, a read delivers the oldest
  bytes, as many as are stored up to the number asked for, and returns their number; no call
  leaves the block and the ring stays well formed.  (Calls of length zero are excluded: they
  switch an empty ring to a full one and back.)
\<close>

theorem ring_buffer_fifo:
  assumes "rb_inv rb" "list_all stream_op_ok ops"
  shows "\<exists>log rb'. run_stream (\<lambda>rb ok xs. rb_write rb xs (int (length xs))) (rb_read True) rb ops =
           Some (log, rb') \<and> rb_inv rb' \<and> rb_size rb' = rb_size rb \<and>
           stream_obeys (ring_accepts (nat (rb_size rb))) (rb_contents rb) ops log (rb_contents rb')"
proof -
  obtain log rb' where r: "run_stream (\<lambda>rb ok xs. rb_write rb xs (int (length xs))) (rb_read True) rb ops = Some (log, rb')"
      "rb_inv rb' \<and> nat (rb_size rb') = nat (rb_size rb)"
      "stream_obeys (ring_accepts (nat (rb_size rb))) (rb_contents rb) ops log (rb_contents rb')"
    using ring.run_fifo [OF conjI [OF assms(1) refl] ring_ops_fit [OF assms(2)]] by blast
  moreover have "rb_size rb' = rb_size rb" using r(2) assms(1) by (auto simp: rb_inv_def)
  ultimately show ?thesis by blast
qed

definition ring_of_size :: "nat \<Rightarrow> ring_buffer" where
  "ring_of_size n = \<lparr>rb_addr = replicate n 0, rb_r_offset = 0, rb_w_offset = 0, rb_size = int n,
                     rb_flag = BUFFER_NA_OPERATION\<rparr>"

lemma rb_inv_ring_of_size: "0 < n \<Longrightarrow> n \<le> 2 ^ 30 \<Longrightarrow> rb_inv (ring_of_size n)"
  by (simp add: rb_inv_def ring_of_size_def)

theorem ring_buffer_fifo_witness:
  "rb_inv (ring_of_size 4) \<and> list_all stream_op_ok [Wr True [1, 2, 3], Rd 2, Wr True [4, 5], Rd 9] \<and>
   (\<exists>log rb'. run_stream (\<lambda>rb ok xs. rb_write rb xs (int (length xs))) (rb_read True) (ring_of_size 4)
       [Wr True [1, 2, 3], Rd 2, Wr True [4, 5], Rd 9] = Some (log, rb') \<and> rb_inv rb' \<and>
     stream_obeys (ring_accepts 4) (rb_contents (ring_of_size 4)) [Wr True [1, 2, 3], Rd 2, Wr True [4, 5], Rd 9] log (rb_contents rb'))"
proof -
  have i: "rb_inv (ring_of_size 4)" by (rule rb_inv_ring_of_size) auto
  have o: "list_all stream_op_ok [Wr True [1, 2, 3], Rd 2, Wr True [4, 5], Rd 9]"
    by (simp add: stream_op_ok_def)
  have z: "nat (rb_size (ring_of_size 4)) = 4" by (simp add: ring_of_size_def)
  show ?thesis using i o ring_buffer_fifo [OF i o] unfolding z by blast
qed

text \<open>
  C2.  Searching: on a well-formed ring that is in use, i.e. not one whose offsets coincide while no
  read or write has set its flag (there the code takes the whole block for stored), \<open>find\<close> reads only inside the block and returns
  the address of the least occurrence of a non-empty needle in the stored bytes, also when
  the occurrence wraps around the end of the block, and \<open>NULL\<close> exactly if there is none;
  \<open>get_needle_offset\<close> returns the same position relative to the read offset, or -1.
\<close>

theorem ring_buffer_search:
  assumes "rb_inv rb" "rb_used rb" "nd \<noteq> []"
  shows "rb_find rb nd (int (length nd)) =
           Some (map_option (\<lambda>i. (rb_r_offset rb + int i) mod rb_size rb) (first_occ nd (rb_contents rb))) \<and>
         rb_get_needle_offset rb nd (int (length nd)) =
           Some (case first_occ nd (rb_contents rb) of None \<Rightarrow> -1 | Some i \<Rightarrow> int i)"
  using rb_find_eq [OF assms] rb_get_needle_offset_eq [OF assms] by blast

definition ring_wrapped :: ring_buffer where
  "ring_wrapped = \<lparr>rb_addr = [7, 8, 0, 6], rb_r_offset = 3, rb_w_offset = 2, rb_size = 4,
                   rb_flag = BUFFER_WRITE_OPERATION\<rparr>"

theorem ring_buffer_search_witness:
  "rb_inv ring_wrapped \<and> rb_used ring_wrapped \<and> rb_contents ring_wrapped = [6, 7, 8] \<and>
   rb_find ring_wrapped [6, 7] 2 = Some (Some 3) \<and>
   rb_get_needle_offset ring_wrapped [7, 8] 2 = Some 1"
proof -
  have i: "rb_inv ring_wrapped" and u: "rb_used ring_wrapped"
    by (auto simp: ring_wrapped_def rb_inv_def rb_used_def)
  have c: "rb_contents ring_wrapped = [6, 7, 8]"
    by (simp add: rb_contents_def ring_wrapped_def rb_count_def cyc_def upt_rec)
  have f: "first_occ [6, 7] [6, 7, 8 :: u8] = Some 0" "first_occ [7, 8] [6, 7, 8 :: u8] = Some 1"
    by (auto simp: first_occ_def first_occ_from.simps)
  have r: "rb_r_offset ring_wrapped = 3" "rb_size ring_wrapped = 4"
    by (simp_all add: ring_wrapped_def)
  show ?thesis
    using ring_buffer_search [OF i u, of "[6, 7]"] ring_buffer_search [OF i u, of "[7, 8]"]
    unfolding c f by (simp add: i u c r)
qed

text \<open>
  Ring to buffer: \<open>read_to_buffer\<close> moves the first \<open>min len stored\<close> bytes of the ring to
  the end of a \<open>Buffer\<close> (of up to 256 MB), growing it where needed, and removes them from
  the ring; both objects stay well formed.
\<close>

theorem ring_read_to_buffer:
  assumes "rb_inv rb" "rb_size rb \<le> 2 ^ 28" "0 < k" "buffer_inv b" "b_capacity b \<le> 2 ^ 28"
  shows "\<exists>rb' b'. rb_read_to_buffer rb b (int k) =
            Some (int (min k (length (rb_contents rb))), rb', b') \<and>
          rb_inv rb' \<and> rb_contents rb' = drop k (rb_contents rb) \<and>
          buffer_inv b' \<and> buffer_contents b' = buffer_contents b @ take k (rb_contents rb)"
  by (rule rb_read_to_buffer_law [OF assms])

definition fresh_buffer :: buffer where
  "fresh_buffer = snd (buffer_construct True \<lparr>b_addr = [], b_r_offset = 0, b_w_offset = 0, b_capacity = 0\<rparr>)"

theorem ring_read_to_buffer_witness:
  "\<exists>rb' b'. rb_read_to_buffer ring_wrapped fresh_buffer 2 = Some (2, rb', b') \<and>
     rb_contents rb' = [8] \<and> buffer_contents b' = [6, 7]"
proof -
  have i: "rb_inv ring_wrapped" "rb_size ring_wrapped \<le> 2 ^ 28" "buffer_inv fresh_buffer"
    "b_capacity fresh_buffer \<le> 2 ^ 28"
    by (auto simp: ring_wrapped_def rb_inv_def fresh_buffer_def buffer_construct_def buffer_inv_def)
  have c: "rb_contents ring_wrapped = [6, 7, 8]"
    by (simp add: rb_contents_def ring_wrapped_def rb_count_def cyc_def upt_rec)
  have b: "buffer_contents fresh_buffer = []"
    by (simp add: fresh_buffer_def buffer_construct_def buffer_contents_def buffer_get_len_def)
  show ?thesis
    using ring_read_to_buffer [OF i(1,2) _ i(3,4), of 2] unfolding c b by auto
qed

lemma rb_write_nothing:
  assumes "rb_at rb r r n" "rb_flag rb \<noteq> BUFFER_WRITE_OPERATION"
  shows "rb_write rb [] 0 = Some (0, rb\<lparr>rb_flag := BUFFER_WRITE_OPERATION\<rparr>)"
proof -
  from assms(1) have f: "rb_r_offset rb = int r" "rb_w_offset rb = int r" "rb_size rb = int n" "r < n"
    "length (rb_addr rb) = n" by (auto simp: rb_at_def)
  have "rb_writable rb = Some (int n)" using assms(2) f by (simp add: rb_writable_def)
  moreover have "st (rb_addr rb) (int r) [] = Some (rb_addr rb)" using f by (simp add: st_def)
  moreover have "ld [] 0 0 = Some ([] :: bytes)" by (simp add: ld_def)
  moreover have "int r mod int n = int r" using f by simp
  ultimately show ?thesis using f by (simp add: rb_write_def)
qed

lemma rb_read_nothing:
  assumes "rb_at rb r r n" "rb_flag rb = BUFFER_WRITE_OPERATION"
  shows "rb_read True rb 0 = Some (0, [], rb\<lparr>rb_flag := BUFFER_READ_OPERATION\<rparr>)"
proof -
  have "rb_count rb = n" "0 < n" using rb_count_at [OF assms(1)] assms by (auto simp: rb_at_def)
  then show ?thesis
    using rb_read_at [OF assms(1) _ refl, where k = 0 and nn = True] assms(1)
    by (simp add: cyc_def rb_at_def)
qed

text \<open>
  A zero-length write to an empty ring turns it into a full one: the call sets the write
  flag although nothing was stored, so the whole (stale) block becomes readable; a
  zero-length read of a full ring, symmetrically, discards all of it.
\<close>

theorem ring_zero_length_flips:
  assumes "rb_inv rb" "rb_w_offset rb = rb_r_offset rb"
  shows "if rb_flag rb \<noteq> BUFFER_WRITE_OPERATION
         then rb_contents rb = [] \<and>
              (\<exists>rb'. rb_write rb [] 0 = Some (0, rb') \<and> int (length (rb_contents rb')) = rb_size rb)
         else int (length (rb_contents rb)) = rb_size rb \<and>
              (\<exists>rb'. rb_read True rb 0 = Some (0, [], rb') \<and> rb_contents rb' = [])"
proof -
  from assms obtain r n where at: "rb_at rb r r n" by (auto simp: rb_at_inv rb_at_def)
  then have "0 < n" "rb_size rb = int n" by (auto simp: rb_at_def)
  with rb_write_nothing [OF at] rb_read_nothing [OF at] assms(2) show ?thesis
    by (simp add: rb_contents_def rb_count_def cyc_def)
qed

theorem ring_zero_length_flips_witness:
  "rb_contents (ring_of_size 4) = [] \<and>
   (\<exists>rb'. rb_write (ring_of_size 4) [] 0 = Some (0, rb') \<and> int (length (rb_contents rb')) = 4)"
  using ring_zero_length_flips [OF rb_inv_ring_of_size [of 4]] by (simp add: ring_of_size_def)

text \<open>The length of a ring that was only constructed is reported as its capacity.\<close>

lemma rb_fresh_get_len:
  assumes "length m = 1024"
  shows "let rb = snd (rb_construct (Some m) rb0) in
         rb_inv rb \<and> rb_contents rb = [] \<and> rb_get_len rb = 1024"
  using assms
  by (simp add: rb_construct_def rb_inv_def rb_contents_def rb_count_def cyc_def rb_get_len_def)

text \<open>\<open>memcopy\<close> writes past the block where \<open>write\<close> splits the copy.\<close>

lemma rb_memcopy_overruns:
  assumes "rb_at rb r w n" "rb_count rb + k \<le> n" "n < w + k" "k \<le> length src" "rb_count rb < n"
  shows "rb_memcopy rb src (int k) = None"
proof -
  have "rb_writable rb = Some (int (n - rb_count rb))" using rb_writable_at assms by auto
  moreover have "(if int (n - rb_count rb) > int k then int k else int (n - rb_count rb)) = int k"
    using assms by (auto simp: of_nat_diff)
  moreover have "ld src 0 (int k) = Some (take k src)" using assms(4) by (rule ld_nat0)
  moreover have "st (rb_addr rb) (rb_w_offset rb) (take k src) = None"
    using assms by (simp add: st_def rb_at_def)
  ultimately show ?thesis by (simp add: rb_memcopy_def Let_def)
qed

end
