(* ===== verification/Crc.thy ===== *)
theory Crc
  imports Prelude
begin

text \<open>
  The three checksums of \<open>encoding/crc\<close>: CRC-16/XMODEM, the reflected CRC-32 and the
  reflected CRC-64 of Jones.  Each is a loop over the input that looks up one table entry
  per byte; the tables are copied from the sources.  The locales \<open>crc_lsb\<close> and \<open>crc_msb\<close>
  say what such a table has to contain -- eight steps of the bitwise shift register -- and
  derive that the table loop computes the bitwise division.
\<close>

subsection \<open>The tables\<close>

definition crc16tab :: "u16 list" where
  "crc16tab = [
   0x0000, 0x1021, 0x2042, 0x3063, 0x4084, 0x50a5, 0x60c6, 0x70e7, 0x8108, 0x9129,
   0xa14a, 0xb16b, 0xc18c, 0xd1ad, 0xe1ce, 0xf1ef, 0x1231, 0x0210, 0x3273, 0x2252,
   0x52b5, 0x4294, 0x72f7, 0x62d6, 0x9339, 0x8318, 0xb37b, 0xa35a, 0xd3bd, 0xc39c,
   0xf3ff, 0xe3de, 0x2462, 0x3443, 0x0420, 0x1401, 0x64e6, 0x74c7, 0x44a4, 0x5485,
   0xa56a, 0xb54b, 0x8528, 0x9509, 0xe5ee, 0xf5cf, 0xc5ac, 0xd58d, 0x3653, 0x2672,
   0x1611, 0x0630, 0x76d7, 0x66f6, 0x5695, 0x46b4, 0xb75b, 0xa77a, 0x9719, 0x8738,
   0xf7df, 0xe7fe, 0xd79d, 0xc7bc, 0x48c4, 0x58e5, 0x6886, 0x78a7, 0x0840, 0x1861,
   0x2802, 0x3823, 0xc9cc, 0xd9ed, 0xe98e, 0xf9af, 0x8948, 0x9969, 0xa90a, 0xb92b,
   0x5af5, 0x4ad4, 0x7ab7, 0x6a96, 0x1a71, 0x0a50, 0x3a33, 0x2a12, 0xdbfd, 0xcbdc,
   0xfbbf, 0xeb9e, 0x9b79, 0x8b58, 0xbb3b, 0xab1a, 0x6ca6, 0x7c87, 0x4ce4, 0x5cc5,
   0x2c22, 0x3c03, 0x0c60, 0x1c41, 0xedae, 0xfd8f, 0xcdec, 0xddcd, 0xad2a, 0xbd0b,
   0x8d68, 0x9d49, 0x7e97, 0x6eb6, 0x5ed5, 0x4ef4, 0x3e13, 0x2e32, 0x1e51, 0x0e70,
   0xff9f, 0xefbe, 0xdfdd, 0xcffc, 0xbf1b, 0xaf3a, 0x9f59, 0x8f78, 0x9188, 0x81a9,
   0xb1ca, 0xa1eb, 0xd10c, 0xc12d, 0xf14e, 0xe16f, 0x1080, 0x00a1, 0x30c2, 0x20e3,
   0x5004, 0x4025, 0x7046, 0x6067, 0x83b9, 0x9398, 0xa3fb, 0xb3da, 0xc33d, 0xd31c,
   0xe37f, 0xf35e, 0x02b1, 0x1290, 0x22f3, 0x32d2, 0x4235, 0x5214, 0x6277, 0x7256,
   0xb5ea, 0xa5cb, 0x95a8, 0x8589, 0xf56e, 0xe54f, 0xd52c, 0xc50d, 0x34e2, 0x24c3,
   0x14a0, 0x0481, 0x7466, 0x6447, 0x5424, 0x4405, 0xa7db, 0xb7fa, 0x8799, 0x97b8,
   0xe75f, 0xf77e, 0xc71d, 0xd73c, 0x26d3, 0x36f2, 0x0691, 0x16b0, 0x6657, 0x7676,
   0x4615, 0x5634, 0xd94c, 0xc96d, 0xf90e, 0xe92f, 0x99c8, 0x89e9, 0xb98a, 0xa9ab,
   0x5844, 0x4865, 0x7806, 0x6827, 0x18c0, 0x08e1, 0x3882, 0x28a3, 0xcb7d, 0xdb5c,
   0xeb3f, 0xfb1e, 0x8bf9, 0x9bd8, 0xabbb, 0xbb9a, 0x4a75, 0x5a54, 0x6a37, 0x7a16,
   0x0af1, 0x1ad0, 0x2ab3, 0x3a92, 0xfd2e, 0xed0f, 0xdd6c, 0xcd4d, 0xbdaa, 0xad8b,
   0x9de8, 0x8dc9, 0x7c26, 0x6c07, 0x5c64, 0x4c45, 0x3ca2, 0x2c83, 0x1ce0, 0x0cc1,
   0xef1f, 0xff3e, 0xcf5d, 0xdf7c, 0xaf9b, 0xbfba, 0x8fd9, 0x9ff8, 0x6e17, 0x7e36,
   0x4e55, 0x5e74, 0x2e93, 0x3eb2, 0x0ed1, 0x1ef0]"

definition crc32tab :: "u32 list" where
  "crc32tab = [
   0x00000000, 0x77073096, 0xee0e612c, 0x990951ba, 0x076dc419, 0x706af48f, 0xe963a535,
   0x9e6495a3, 0x0edb8832, 0x79dcb8a4, 0xe0d5e91e, 0x97d2d988, 0x09b64c2b, 0x7eb17cbd,
   0xe7b82d07, 0x90bf1d91, 0x1db71064, 0x6ab020f2, 0xf3b97148, 0x84be41de, 0x1adad47d,
   0x6ddde4eb, 0xf4d4b551, 0x83d385c7, 0x136c9856, 0x646ba8c0, 0xfd62f97a, 0x8a65c9ec,
   0x14015c4f, 0x63066cd9, 0xfa0f3d63, 0x8d080df5, 0x3b6e20c8, 0x4c69105e, 0xd56041e4,
   0xa2677172, 0x3c03e4d1, 0x4b04d447, 0xd20d85fd, 0xa50ab56b, 0x35b5a8fa, 0x42b2986c,
   0xdbbbc9d6, 0xacbcf940, 0x32d86ce3, 0x45df5c75, 0xdcd60dcf, 0xabd13d59, 0x26d930ac,
   0x51de003a, 0xc8d75180, 0xbfd06116, 0x21b4f4b5, 0x56b3c423, 0xcfba9599, 0xb8bda50f,
   0x2802b89e, 0x5f058808, 0xc60cd9b2, 0xb10be924, 0x2f6f7c87, 0x58684c11, 0xc1611dab,
   0xb6662d3d, 0x76dc4190, 0x01db7106, 0x98d220bc, 0xefd5102a, 0x71b18589, 0x06b6b51f,
   0x9fbfe4a5, 0xe8b8d433, 0x7807c9a2, 0x0f00f934, 0x9609a88e, 0xe10e9818, 0x7f6a0dbb,
   0x086d3d2d, 0x91646c97, 0xe6635c01, 0x6b6b51f4, 0x1c6c6162, 0x856530d8, 0xf262004e,
   0x6c0695ed, 0x1b01a57b, 0x8208f4c1, 0xf50fc457, 0x65b0d9c6, 0x12b7e950, 0x8bbeb8ea,
   0xfcb9887c, 0x62dd1ddf, 0x15da2d49, 0x8cd37cf3, 0xfbd44c65, 0x4db26158, 0x3ab551ce,
   0xa3bc0074, 0xd4bb30e2, 0x4adfa541, 0x3dd895d7, 0xa4d1c46d, 0xd3d6f4fb, 0x4369e96a,
   0x346ed9fc, 0xad678846, 0xda60b8d0, 0x44042d73, 0x33031de5, 0xaa0a4c5f, 0xdd0d7cc9,
   0x5005713c, 0x270241aa, 0xbe0b1010, 0xc90c2086, 0x5768b525, 0x206f85b3, 0xb966d409,
   0xce61e49f, 0x5edef90e, 0x29d9c998, 0xb0d09822, 0xc7d7a8b4, 0x59b33d17, 0x2eb40d81,
   0xb7bd5c3b, 0xc0ba6cad, 0xedb88320, 0x9abfb3b6, 0x03b6e20c, 0x74b1d29a, 0xead54739,
   0x9dd277af, 0x04db2615, 0x73dc1683, 0xe3630b12, 0x94643b84, 0x0d6d6a3e, 0x7a6a5aa8,
   0xe40ecf0b, 0x9309ff9d, 0x0a00ae27, 0x7d079eb1, 0xf00f9344, 0x8708a3d2, 0x1e01f268,
   0x6906c2fe, 0xf762575d, 0x806567cb, 0x196c3671, 0x6e6b06e7, 0xfed41b76, 0x89d32be0,
   0x10da7a5a, 0x67dd4acc, 0xf9b9df6f, 0x8ebeeff9, 0x17b7be43, 0x60b08ed5, 0xd6d6a3e8,
   0xa1d1937e, 0x38d8c2c4, 0x4fdff252, 0xd1bb67f1, 0xa6bc5767, 0x3fb506dd, 0x48b2364b,
   0xd80d2bda, 0xaf0a1b4c, 0x36034af6, 0x41047a60, 0xdf60efc3, 0xa867df55, 0x316e8eef,
   0x4669be79, 0xcb61b38c, 0xbc66831a, 0x256fd2a0, 0x5268e236, 0xcc0c7795, 0xbb0b4703,
   0x220216b9, 0x5505262f, 0xc5ba3bbe, 0xb2bd0b28, 0x2bb45a92, 0x5cb36a04, 0xc2d7ffa7,
   0xb5d0cf31, 0x2cd99e8b, 0x5bdeae1d, 0x9b64c2b0, 0xec63f226, 0x756aa39c, 0x026d930a,
   0x9c0906a9, 0xeb0e363f, 0x72076785, 0x05005713, 0x95bf4a82, 0xe2b87a14, 0x7bb12bae,
   0x0cb61b38, 0x92d28e9b, 0xe5d5be0d, 0x7cdcefb7, 0x0bdbdf21, 0x86d3d2d4, 0xf1d4e242,
   0x68ddb3f8, 0x1fda836e, 0x81be16cd, 0xf6b9265b, 0x6fb077e1, 0x18b74777, 0x88085ae6,
   0xff0f6a70, 0x66063bca, 0x11010b5c, 0x8f659eff, 0xf862ae69, 0x616bffd3, 0x166ccf45,
   0xa00ae278, 0xd70dd2ee, 0x4e048354, 0x3903b3c2, 0xa7672661, 0xd06016f7, 0x4969474d,
   0x3e6e77db, 0xaed16a4a, 0xd9d65adc, 0x40df0b66, 0x37d83bf0, 0xa9bcae53, 0xdebb9ec5,
   0x47b2cf7f, 0x30b5ffe9, 0xbdbdf21c, 0xcabac28a, 0x53b39330, 0x24b4a3a6, 0xbad03605,
   0xcdd70693, 0x54de5729, 0x23d967bf, 0xb3667a2e, 0xc4614ab8, 0x5d681b02, 0x2a6f2b94,
   0xb40bbe37, 0xc30c8ea1, 0x5a05df1b, 0x2d02ef8d]"

definition crc64_tab :: "u64 list" where
  "crc64_tab = [
   0x0000000000000000, 0x7ad870c830358979, 0xf5b0e190606b12f2, 0x8f689158505e9b8b,
   0xc038e5739841b68f, 0xbae095bba8743ff6, 0x358804e3f82aa47d, 0x4f50742bc81f2d04,
   0xab28ecb46814fe75, 0xd1f09c7c5821770c, 0x5e980d24087fec87, 0x24407dec384a65fe,
   0x6b1009c7f05548fa, 0x11c8790fc060c183, 0x9ea0e857903e5a08, 0xe478989fa00bd371,
   0x7d08ff3b88be6f81, 0x07d08ff3b88be6f8, 0x88b81eabe8d57d73, 0xf2606e63d8e0f40a,
   0xbd301a4810ffd90e, 0xc7e86a8020ca5077, 0x4880fbd87094cbfc, 0x32588b1040a14285,
   0xd620138fe0aa91f4, 0xacf86347d09f188d, 0x2390f21f80c18306, 0x594882d7b0f40a7f,
   0x1618f6fc78eb277b, 0x6cc0863448deae02, 0xe3a8176c18803589, 0x997067a428b5bcf0,
   0xfa11fe77117cdf02, 0x80c98ebf2149567b, 0x0fa11fe77117cdf0, 0x75796f2f41224489,
   0x3a291b04893d698d, 0x40f16bccb908e0f4, 0xcf99fa94e9567b7f, 0xb5418a5cd963f206,
   0x513912c379682177, 0x2be1620b495da80e, 0xa489f35319033385, 0xde51839b2936bafc,
   0x9101f7b0e12997f8, 0xebd98778d11c1e81, 0x64b116208142850a, 0x1e6966e8b1770c73,
   0x8719014c99c2b083, 0xfdc17184a9f739fa, 0x72a9e0dcf9a9a271, 0x08719014c99c2b08,
   0x4721e43f0183060c, 0x3df994f731b68f75, 0xb29105af61e814fe, 0xc849756751dd9d87,
   0x2c31edf8f1d64ef6, 0x56e99d30c1e3c78f, 0xd9810c6891bd5c04, 0xa3597ca0a188d57d,
   0xec09088b6997f879, 0x96d1784359a27100, 0x19b9e91b09fcea8b, 0x636199d339c963f2,
   0xdf7adabd7a6e2d6f, 0xa5a2aa754a5ba416, 0x2aca3b2d1a053f9d, 0x50124be52a30b6e4,
   0x1f423fcee22f9be0, 0x659a4f06d21a1299, 0xeaf2de5e82448912, 0x902aae96b271006b,
   0x74523609127ad31a, 0x0e8a46c1224f5a63, 0x81e2d7997211c1e8, 0xfb3aa75142244891,
   0xb46ad37a8a3b6595, 0xceb2a3b2ba0eecec, 0x41da32eaea507767, 0x3b024222da65fe1e,
   0xa2722586f2d042ee, 0xd8aa554ec2e5cb97, 0x57c2c41692bb501c, 0x2d1ab4dea28ed965,
   0x624ac0f56a91f461, 0x1892b03d5aa47d18, 0x97fa21650afae693, 0xed2251ad3acf6fea,
   0x095ac9329ac4bc9b, 0x7382b9faaaf135e2, 0xfcea28a2faafae69, 0x8632586aca9a2710,
   0xc9622c4102850a14, 0xb3ba5c8932b0836d, 0x3cd2cdd162ee18e6, 0x460abd1952db919f,
   0x256b24ca6b12f26d, 0x5fb354025b277b14, 0xd0dbc55a0b79e09f, 0xaa03b5923b4c69e6,
   0xe553c1b9f35344e2, 0x9f8bb171c366cd9b, 0x10e3202993385610, 0x6a3b50e1a30ddf69,
   0x8e43c87e03060c18, 0xf49bb8b633338561, 0x7bf329ee636d1eea, 0x012b592653589793,
   0x4e7b2d0d9b47ba97, 0x34a35dc5ab7233ee, 0xbbcbcc9dfb2ca865, 0xc113bc55cb19211c,
   0x5863dbf1e3ac9dec, 0x22bbab39d3991495, 0xadd33a6183c78f1e, 0xd70b4aa9b3f20667,
   0x985b3e827bed2b63, 0xe2834e4a4bd8a21a, 0x6debdf121b863991, 0x1733afda2bb3b0e8,
   0xf34b37458bb86399, 0x8993478dbb8deae0, 0x06fbd6d5ebd3716b, 0x7c23a61ddbe6f812,
   0x3373d23613f9d516, 0x49aba2fe23cc5c6f, 0xc6c333a67392c7e4, 0xbc1b436e43a74e9d,
   0x95ac9329ac4bc9b5, 0xef74e3e19c7e40cc, 0x601c72b9cc20db47, 0x1ac40271fc15523e,
   0x5594765a340a7f3a, 0x2f4c0692043ff643, 0xa02497ca54616dc8, 0xdafce7026454e4b1,
   0x3e847f9dc45f37c0, 0x445c0f55f46abeb9, 0xcb349e0da4342532, 0xb1eceec59401ac4b,
   0xfebc9aee5c1e814f, 0x8464ea266c2b0836, 0x0b0c7b7e3c7593bd, 0x71d40bb60c401ac4,
   0xe8a46c1224f5a634, 0x927c1cda14c02f4d, 0x1d148d82449eb4c6, 0x67ccfd4a74ab3dbf,
   0x289c8961bcb410bb, 0x5244f9a98c8199c2, 0xdd2c68f1dcdf0249, 0xa7f41839ecea8b30,
   0x438c80a64ce15841, 0x3954f06e7cd4d138, 0xb63c61362c8a4ab3, 0xcce411fe1cbfc3ca,
   0x83b465d5d4a0eece, 0xf96c151de49567b7, 0x76048445b4cbfc3c, 0x0cdcf48d84fe7545,
   0x6fbd6d5ebd3716b7, 0x15651d968d029fce, 0x9a0d8ccedd5c0445, 0xe0d5fc06ed698d3c,
   0xaf85882d2576a038, 0xd55df8e515432941, 0x5a3569bd451db2ca, 0x20ed197575283bb3,
   0xc49581ead523e8c2, 0xbe4df122e51661bb, 0x3125607ab548fa30, 0x4bfd10b2857d7349,
   0x04ad64994d625e4d, 0x7e7514517d57d734, 0xf11d85092d094cbf, 0x8bc5f5c11d3cc5c6,
   0x12b5926535897936, 0x686de2ad05bcf04f, 0xe70573f555e26bc4, 0x9ddd033d65d7e2bd,
   0xd28d7716adc8cfb9, 0xa85507de9dfd46c0, 0x273d9686cda3dd4b, 0x5de5e64efd965432,
   0xb99d7ed15d9d8743, 0xc3450e196da80e3a, 0x4c2d9f413df695b1, 0x36f5ef890dc31cc8,
   0x79a59ba2c5dc31cc, 0x037deb6af5e9b8b5, 0x8c157a32a5b7233e, 0xf6cd0afa9582aa47,
   0x4ad64994d625e4da, 0x300e395ce6106da3, 0xbf66a804b64ef628, 0xc5bed8cc867b7f51,
   0x8aeeace74e645255, 0xf036dc2f7e51db2c, 0x7f5e4d772e0f40a7, 0x05863dbf1e3ac9de,
   0xe1fea520be311aaf, 0x9b26d5e88e0493d6, 0x144e44b0de5a085d, 0x6e963478ee6f8124,
   0x21c640532670ac20, 0x5b1e309b16452559, 0xd476a1c3461bbed2, 0xaeaed10b762e37ab,
   0x37deb6af5e9b8b5b, 0x4d06c6676eae0222, 0xc26e573f3ef099a9, 0xb8b627f70ec510d0,
   0xf7e653dcc6da3dd4, 0x8d3e2314f6efb4ad, 0x0256b24ca6b12f26, 0x788ec2849684a65f,
   0x9cf65a1b368f752e, 0xe62e2ad306bafc57, 0x6946bb8b56e467dc, 0x139ecb4366d1eea5,
   0x5ccebf68aecec3a1, 0x2616cfa09efb4ad8, 0xa97e5ef8cea5d153, 0xd3a62e30fe90582a,
   0xb0c7b7e3c7593bd8, 0xca1fc72bf76cb2a1, 0x45775673a732292a, 0x3faf26bb9707a053,
   0x70ff52905f188d57, 0x0a2722586f2d042e, 0x854fb3003f739fa5, 0xff97c3c80f4616dc,
   0x1bef5b57af4dc5ad, 0x61372b9f9f784cd4, 0xee5fbac7cf26d75f, 0x9487ca0fff135e26,
   0xdbd7be24370c7322, 0xa10fceec0739fa5b, 0x2e675fb4576761d0, 0x54bf2f7c6752e8a9,
   0xcdcf48d84fe75459, 0xb71738107fd2dd20, 0x387fa9482f8c46ab, 0x42a7d9801fb9cfd2,
   0x0df7adabd7a6e2d6, 0x772fdd63e7936baf, 0xf8474c3bb7cdf024, 0x829f3cf387f8795d,
   0x66e7a46c27f3aa2c, 0x1c3fd4a417c62355, 0x935745fc4798b8de, 0xe98f353477ad31a7,
   0xa6df411fbfb21ca3, 0xdc0731d78f8795da, 0x536fa08fdfd90e51, 0x29b7d047efec8728]"

subsection \<open>The loops\<close>

definition crc16_step :: "u16 \<Rightarrow> u8 \<Rightarrow> u16" where
  "crc16_step crc b = crc16tab ! unat ((drop_bit 8 crc XOR ucast b) AND 0x00FF) XOR push_bit 8 crc"

definition crc16 :: "u16 \<Rightarrow> bytes \<Rightarrow> int \<Rightarrow> u16 option" where
  "crc16 crc buf len = do { xs \<leftarrow> ld buf 0 (max 0 len); Some (foldl crc16_step crc xs) }"

definition crc32_step :: "u32 \<Rightarrow> u8 \<Rightarrow> u32" where
  "crc32_step crc b = crc32tab ! unat ((crc XOR ucast b) AND 0xff) XOR drop_bit 8 crc"

definition crc32 :: "u32 \<Rightarrow> bytes \<Rightarrow> u32 \<Rightarrow> u32 option" where
  "crc32 crc buf sz =
     do { xs \<leftarrow> ld buf 0 (uint sz);
          Some (foldl crc32_step (crc XOR 0xFFFFFFFF) xs XOR 0xFFFFFFFF) }"

definition crc64_step :: "u64 \<Rightarrow> u8 \<Rightarrow> u64" where
  "crc64_step crc b = crc64_tab ! unat ((ucast crc :: u8) XOR b) XOR drop_bit 8 crc"

definition crc64 :: "u64 \<Rightarrow> bytes \<Rightarrow> u64 \<Rightarrow> u64 option" where
  "crc64 crc buf l = do { xs \<leftarrow> ld buf 0 (uint l); Some (foldl crc64_step crc xs) }"

text \<open>
  The loop of \<open>file_compute_crc32\<close>: the file is read in chunks of at most 1024 bytes into a
  local buffer, and the running value is fed back into \<open>crc32\<close>.  A read delivers the next
  bytes of the file (fewer at its end, the rest of the buffer keeps its old contents).
\<close>

definition file_read :: "bytes \<Rightarrow> bytes \<Rightarrow> nat \<Rightarrow> bytes \<times> bytes" where
  "file_read fl buffer n = (take n fl @ drop (length (take n fl)) buffer, drop n fl)"

function file_crc_loop :: "bytes \<Rightarrow> bytes \<Rightarrow> u32 \<Rightarrow> u32 \<Rightarrow> u32 option" where
  "file_crc_loop fl buffer sz v =
     (if sz > 0 then
        let read_len = (if sz > 1024 then 1024 else sz);
            (buffer', fl') = file_read fl buffer (unat read_len)
        in do { v' \<leftarrow> crc32 v buffer' read_len;
                file_crc_loop fl' buffer' (sz - read_len) v' }
      else Some v)"
  by auto
termination
  by (relation "measure (\<lambda>(f, b, sz, v). unat sz)")
     (auto simp: word_less_nat_alt unat_sub word_le_nat_alt split: if_splits)

declare file_crc_loop.simps [simp del]

text \<open>
  The file is \<open>None\<close> when it cannot be opened; the result is the return value with what is stored in \<open>*crc\<close>.  \<open>sz\<close> is the answer of
  \<open>fs_get_size\<close>: it is kept in an unsigned word, so that the test for a negative size never holds, and -1 is taken for a size of nearly
  4 GB.  \<open>File->read\<close> returns the number of bytes read and never fails.
\<close>

definition file_compute_crc32 :: "bytes option \<Rightarrow> bytes \<Rightarrow> int \<Rightarrow> (int \<times> u32 option) option" where
  "file_compute_crc32 fl buffer sz =
     (case fl of None \<Rightarrow> Some (-1, None) | Some xs \<Rightarrow> map_option (\<lambda>v. (1, Some v)) (file_crc_loop xs buffer (of_int sz) 0))"

subsection \<open>The bitwise shift register\<close>

definition lsb_shift :: "'w::len word \<Rightarrow> 'w word \<Rightarrow> 'w word" where
  "lsb_shift poly c = (if bit c 0 then drop_bit 1 c XOR poly else drop_bit 1 c)"

definition lsb_byte :: "'w::len word \<Rightarrow> 'w word \<Rightarrow> u8 \<Rightarrow> 'w word" where
  "lsb_byte poly c b = (lsb_shift poly ^^ 8) (c XOR ucast b)"

definition msb_shift :: "'w::len word \<Rightarrow> 'w word \<Rightarrow> 'w word" where
  "msb_shift poly c = (if bit c (LENGTH('w) - 1) then push_bit 1 c XOR poly else push_bit 1 c)"

definition msb_byte :: "'w::len word \<Rightarrow> 'w word \<Rightarrow> u8 \<Rightarrow> 'w word" where
  "msb_byte poly c b = (msb_shift poly ^^ 8) (c XOR push_bit (LENGTH('w) - 8) (ucast b))"

lemma lsb_shift_xor: "lsb_shift poly (x XOR y) = lsb_shift poly x XOR lsb_shift poly y"
  by (auto simp: lsb_shift_def bit_xor_iff drop_bit_xor xor.assoc xor.left_commute xor.commute)

lemma lsb_shifts_xor:
  "(lsb_shift poly ^^ n) (x XOR y) = (lsb_shift poly ^^ n) x XOR (lsb_shift poly ^^ n) y"
  by (induction n) (simp_all add: lsb_shift_xor)

lemma lsb_shifts_high: "(\<And>i. i < n \<Longrightarrow> \<not> bit x i) \<Longrightarrow> (lsb_shift poly ^^ n) x = drop_bit n x"
proof (induction n arbitrary: x)
  case (Suc n)
  have "\<not> bit x 0" using Suc.prems by simp
  then have "lsb_shift poly x = drop_bit 1 x" by (simp add: lsb_shift_def)
  moreover have "\<not> bit (drop_bit 1 x) i" if "i < n" for i
    using Suc.prems [of "Suc i"] that by (simp add: bit_drop_bit_eq)
  ultimately show ?case
    using Suc.IH [of "drop_bit 1 x"] by (simp add: funpow_swap1 drop_bit_drop_bit)
qed simp

lemma msb_shift_xor: "msb_shift poly (x XOR y) = msb_shift poly x XOR msb_shift poly y"
  by (auto simp: msb_shift_def bit_xor_iff push_bit_xor xor.assoc xor.left_commute xor.commute)

lemma msb_shifts_xor:
  "(msb_shift poly ^^ n) (x XOR y) = (msb_shift poly ^^ n) x XOR (msb_shift poly ^^ n) y"
  by (induction n) (simp_all add: msb_shift_xor)

lemma msb_shifts_low:
  fixes x :: "'w::len word"
  shows "n \<le> LENGTH('w) \<Longrightarrow> (\<And>i. LENGTH('w) - n \<le> i \<Longrightarrow> \<not> bit x i) \<Longrightarrow>
    (msb_shift poly ^^ n) x = push_bit n x"
proof (induction n arbitrary: x)
  case (Suc n)
  have "\<not> bit x (LENGTH('w) - 1)" using Suc.prems by simp
  then have "msb_shift poly x = push_bit 1 x" by (simp add: msb_shift_def)
  moreover have "\<not> bit (push_bit 1 x) i" if "LENGTH('w) - n \<le> i" for i
    using Suc.prems(2) [of "i - 1"] Suc.prems(1) that unfolding bit_push_bit_iff by auto
  ultimately show ?case
    using Suc.IH [of "push_bit 1 x"] Suc.prems(1) by (simp add: funpow_swap1 push_bit_push_bit)
qed simp

subsection \<open>Table-driven registers\<close>

locale crc_lsb =
  fixes poly :: "'w::len word" and tab :: "'w word list"
  assumes wide: "8 \<le> LENGTH('w)"
    and top: "bit poly (LENGTH('w) - 1)"
    and tab_law: "i < 256 \<Longrightarrow> tab ! i = (lsb_shift poly ^^ 8) (of_nat i)"
begin

lemma table_step:
  "tab ! unat ((c XOR ucast b) AND mask 8) XOR drop_bit 8 c = lsb_byte poly c (b :: u8)"
proof -
  let ?x = "c XOR ucast b"
  let ?lo = "?x AND mask 8" and ?hi = "?x AND NOT (mask 8)"
  have split: "?x = ?lo XOR ?hi"
    by (rule bit_word_eqI) (auto simp: bit_simps)
  have "unat ?lo < 256" using unat_and_mask_less [of ?x 8] by simp
  then have lo: "tab ! unat ?lo = (lsb_shift poly ^^ 8) ?lo" using tab_law [of "unat ?lo"] by simp
  have "(lsb_shift poly ^^ 8) ?hi = drop_bit 8 ?hi"
    by (rule lsb_shifts_high) (auto simp: bit_simps)
  also have "\<dots> = drop_bit 8 c"
    by (rule bit_word_eqI) (auto simp: bit_simps dest: bit_imp_le_length)
  finally show ?thesis unfolding lsb_byte_def by (subst split) (simp only: lsb_shifts_xor lo)
qed

text \<open>The register can be run backwards, so no two states and no two bytes are confused.\<close>

lemma shift_inj: "lsb_shift poly x = lsb_shift poly y \<Longrightarrow> x = y"
proof -
  assume eq: "lsb_shift poly x = lsb_shift poly y"
  have msb: "bit (lsb_shift poly z) (LENGTH('w) - 1) = bit z 0" for z
    using top by (simp add: lsb_shift_def bit_xor_iff bit_drop_bit_eq)
  with eq have b0: "bit x 0 = bit y 0" by metis
  with eq have d: "drop_bit 1 x = drop_bit 1 y"
    by (auto simp: lsb_shift_def split: if_splits)
  show "x = y"
  proof (rule bit_word_eqI)
    fix n
    show "bit x n = bit y n"
      using b0 arg_cong [OF d, of "\<lambda>z. bit z (n - 1)"] by (cases n) (simp_all add: bit_drop_bit_eq)
  qed
qed

lemma byte_inj: "lsb_byte poly c b = lsb_byte poly c' b' \<Longrightarrow> c XOR ucast b = c' XOR ucast b'"
proof -
  have "(lsb_shift poly ^^ n) x = (lsb_shift poly ^^ n) y \<Longrightarrow> x = y" for n x y
    by (induction n) (auto dest: shift_inj)
  then show "lsb_byte poly c b = lsb_byte poly c' b' \<Longrightarrow> ?thesis" by (simp add: lsb_byte_def)
qed

lemma fold_inj: "foldl (lsb_byte poly) c xs = foldl (lsb_byte poly) c' xs \<Longrightarrow> c = c'"
proof (induction xs arbitrary: c c')
  case (Cons a xs)
  from Cons.prems have "lsb_byte poly c a = lsb_byte poly c' a" by (auto dest: Cons.IH)
  from byte_inj [OF this] show ?case by simp
qed simp

lemma one_byte_error:
  assumes "b \<noteq> b'"
  shows "foldl (lsb_byte poly) c (xs @ b # ys) \<noteq> foldl (lsb_byte poly) c (xs @ b' # ys)"
proof
  let ?c = "foldl (lsb_byte poly) c xs"
  assume "foldl (lsb_byte poly) c (xs @ b # ys) = foldl (lsb_byte poly) c (xs @ b' # ys)"
  then have "lsb_byte poly ?c b = lsb_byte poly ?c b'" by (auto dest: fold_inj)
  from byte_inj [OF this] have "b = b'" using wide by (simp add: ucast_u8_inj)
  with assms show False by simp
qed

end

locale crc_msb =
  fixes poly :: "'w::len word" and tab :: "'w word list"
  assumes wide: "8 \<le> LENGTH('w)"
    and tab_law: "i < 256 \<Longrightarrow> tab ! i = (msb_shift poly ^^ 8) (push_bit (LENGTH('w) - 8) (of_nat i))"
begin

lemma table_step:
  "tab ! unat ((drop_bit (LENGTH('w) - 8) c XOR ucast b) AND mask 8) XOR push_bit 8 c =
   msb_byte poly c (b :: u8)"
proof -
  let ?k = "LENGTH('w) - 8"
  let ?i = "(drop_bit ?k c XOR ucast b) AND mask 8"
  let ?x = "c XOR push_bit ?k (ucast b)"
  let ?hi = "push_bit ?k ?i" and ?lo = "?x AND mask ?k"
  have split: "?x = ?hi XOR ?lo"
    by (rule bit_word_eqI) (auto simp: bit_simps)
  have "unat ?i < 256" using unat_and_mask_less [of _ 8] by simp
  then have hi: "tab ! unat ?i = (msb_shift poly ^^ 8) ?hi" using tab_law [of "unat ?i"] by simp
  have "(msb_shift poly ^^ 8) ?lo = push_bit 8 ?lo"
    by (rule msb_shifts_low) (use wide in \<open>auto simp: bit_simps\<close>)
  also have "\<dots> = push_bit 8 c"
    by (rule bit_word_eqI) (use wide in \<open>auto simp: bit_simps\<close>)
  finally show ?thesis unfolding msb_byte_def by (subst split) (simp only: msb_shifts_xor hi)
qed

end

subsection \<open>The tables of the sources\<close>

lemma shift8: "(f ^^ 8) x = f (f (f (f (f (f (f (f x)))))))"
  by (simp add: numeral_eq_Suc)

lemma crc32_basis:
  "map (\<lambda>k. (lsb_shift 0xEDB88320 ^^ 8) (2 ^ k :: u32)) (rev [0..<8]) =
   [0xedb88320, 0x76dc4190, 0x3b6e20c8, 0x1db71064, 0x0edb8832, 0x076dc419, 0xee0e612c, 0x77073096]"
  by (simp add: shift8 lsb_shift_def upt_rec)

lemma crc32_span: "crc32tab = xor_span
   [0xedb88320, 0x76dc4190, 0x3b6e20c8, 0x1db71064, 0x0edb8832, 0x076dc419, 0xee0e612c, 0x77073096]"
  by (simp add: crc32tab_def Let_def)

interpretation c32: crc_lsb "0xEDB88320 :: u32" crc32tab
proof unfold_locales
  show "crc32tab ! i = (lsb_shift 0xEDB88320 ^^ 8) (of_nat i)" if "i < 256" for i
    using that xor_span_nth [of "lsb_shift (0xEDB88320 :: u32) ^^ 8", OF lsb_shifts_xor, where n = 8]
    unfolding crc32_span crc32_basis by simp
qed simp_all

lemma crc64_basis:
  "map (\<lambda>k. (lsb_shift 0x95AC9329AC4BC9B5 ^^ 8) (2 ^ k :: u64)) (rev [0..<8]) =
   [0x95ac9329ac4bc9b5, 0xdf7adabd7a6e2d6f, 0xfa11fe77117cdf02, 0x7d08ff3b88be6f81, 0xab28ecb46814fe75, 0xc038e5739841b68f, 0xf5b0e190606b12f2, 0x7ad870c830358979]"
  by (simp add: shift8 lsb_shift_def upt_rec)

lemma crc64_span: "crc64_tab = xor_span
   [0x95ac9329ac4bc9b5, 0xdf7adabd7a6e2d6f, 0xfa11fe77117cdf02, 0x7d08ff3b88be6f81, 0xab28ecb46814fe75, 0xc038e5739841b68f, 0xf5b0e190606b12f2, 0x7ad870c830358979]"
  by (simp add: crc64_tab_def Let_def)

interpretation c64: crc_lsb "0x95AC9329AC4BC9B5 :: u64" crc64_tab
proof unfold_locales
  show "crc64_tab ! i = (lsb_shift 0x95AC9329AC4BC9B5 ^^ 8) (of_nat i)" if "i < 256" for i
    using that xor_span_nth [of "lsb_shift (0x95AC9329AC4BC9B5 :: u64) ^^ 8", OF lsb_shifts_xor,
      where n = 8]
    unfolding crc64_span crc64_basis by simp
qed simp_all

lemma crc16_basis:
  "map (\<lambda>k. (msb_shift 0x1021 ^^ 8) (push_bit 8 (2 ^ k :: u16))) (rev [0..<8]) =
   [0x9188, 0x48c4, 0x2462, 0x1231, 0x8108, 0x4084, 0x2042, 0x1021]"
  by (simp add: shift8 msb_shift_def upt_rec)

lemma crc16_span: "crc16tab = xor_span
   [0x9188, 0x48c4, 0x2462, 0x1231, 0x8108, 0x4084, 0x2042, 0x1021]"
  by (simp add: crc16tab_def Let_def)

interpretation c16: crc_msb "0x1021 :: u16" crc16tab
proof unfold_locales
  show "crc16tab ! i = (msb_shift 0x1021 ^^ 8) (push_bit (LENGTH(16) - 8) (of_nat i))" if "i < 256" for i
    using that xor_span_nth [of "\<lambda>x. (msb_shift (0x1021 :: u16) ^^ 8) (push_bit 8 x)", where n = 8]
    unfolding crc16_span crc16_basis by (simp add: msb_shifts_xor push_bit_xor)
qed simp_all

lemma crc16_step_eq: "crc16_step = msb_byte 0x1021"
proof (intro ext)
  fix c b
  have "(0xFF :: u16) = mask 8" by (simp add: mask_eq_exp_minus_1)
  then show "crc16_step c b = msb_byte 0x1021 c b"
    using c16.table_step [of c b] by (simp add: crc16_step_def)
qed

lemma crc32_step_eq: "crc32_step = lsb_byte 0xEDB88320"
proof (intro ext)
  fix c b
  have "(0xFF :: u32) = mask 8" by (simp add: mask_eq_exp_minus_1)
  then show "crc32_step c b = lsb_byte 0xEDB88320 c b"
    using c32.table_step [of c b] by (simp add: crc32_step_def)
qed

lemma crc64_step_eq: "crc64_step = lsb_byte 0x95AC9329AC4BC9B5"
proof (intro ext)
  fix c :: u64 and b :: u8
  have "(ucast ((ucast c :: u8) XOR b) :: u64) = (c XOR ucast b) AND mask 8"
    by (rule bit_word_eqI) (auto simp: bit_simps dest: bit_imp_le_length)
  then have "unat ((ucast c :: u8) XOR b) = unat ((c XOR ucast b) AND mask 8)"
    using unat_ucast_u8 [of "ucast c XOR b", where 'w = 64] by simp
  then show "crc64_step c b = lsb_byte 0x95AC9329AC4BC9B5 c b"
    using c64.table_step [of c b] by (simp add: crc64_step_def)
qed

subsection \<open>Chunked computation\<close>

lemma crc32_nat:
  assumes "unat sz \<le> length buf"
  shows "crc32 crc buf sz =
    Some (foldl crc32_step (crc XOR 0xFFFFFFFF) (take (unat sz) buf) XOR 0xFFFFFFFF)"
  using assms by (simp add: crc32_def ld_uint)

lemma file_crc_loop_eq:
  assumes "length buffer = 1024" "unat sz = length fl"
  shows "file_crc_loop fl buffer sz v =
    Some (foldl crc32_step (v XOR 0xFFFFFFFF) fl XOR 0xFFFFFFFF)"
  using assms
proof (induction fl buffer sz v rule: file_crc_loop.induct)
  case (1 fl buffer sz v)
  show ?case
  proof (cases "sz > 0")
    case False
    then have "sz = 0" by (simp add: word_gt_0)
    with "1.prems" show ?thesis by (subst file_crc_loop.simps) simp
  next
    case True
    define n where "n = (if sz > 1024 then 1024 else sz)"
    let ?k = "unat n"
    have k: "?k \<le> unat sz" "?k \<le> 1024"
      by (auto simp: n_def word_less_nat_alt word_le_nat_alt)
    let ?buf = "take ?k fl @ drop ?k buffer"
    have len: "length (take ?k fl) = ?k" using k "1.prems"(2) by simp
    then have rd: "file_read fl buffer ?k = (?buf, drop ?k fl)" by (simp add: file_read_def)
    have crc: "crc32 v ?buf n =
        Some (foldl crc32_step (v XOR 0xFFFFFFFF) (take ?k fl) XOR 0xFFFFFFFF)"
      using crc32_nat [of n ?buf v] len k "1.prems" by simp
    have sub: "unat (sz - n) = length (drop ?k fl)"
      using k "1.prems"(2) by (simp add: unat_sub word_le_nat_alt)
    have ih: "file_crc_loop (drop ?k fl) ?buf (sz - n)
        (foldl crc32_step (v XOR 0xFFFFFFFF) (take ?k fl) XOR 0xFFFFFFFF) =
      Some (foldl crc32_step ((foldl crc32_step (v XOR 0xFFFFFFFF) (take ?k fl) XOR 0xFFFFFFFF) XOR 0xFFFFFFFF)
        (drop ?k fl) XOR 0xFFFFFFFF)"
      by (rule "1.IH" [OF True n_def refl rd [symmetric] crc _ sub]) (use len k "1.prems" in simp)
    have "file_crc_loop fl buffer sz v =
        Some (foldl crc32_step (foldl crc32_step (v XOR 0xFFFFFFFF) (take ?k fl)) (drop ?k fl)
              XOR 0xFFFFFFFF)"
      using True ih by (subst file_crc_loop.simps)
        (simp add: rd crc flip: n_def)
    then show ?thesis by (simp flip: foldl_append)
  qed
qed

subsection \<open>Properties\<close>

text \<open>
  C4.  The three table-driven checksums are the bitwise CRC registers of their polynomials:
  XMODEM (0x1021, most significant bit first), CRC-32 (0xEDB88320 reflected, with inverted
  input and output) and CRC-64 Jones (0x95AC9329AC4BC9B5 reflected); a call is defined
  exactly when the input has the given length.
\<close>

theorem crc_bitwise:
  "crc16 c buf len = map_option (foldl (msb_byte 0x1021) c) (ld buf 0 (max 0 len)) \<and>
   crc32 d buf n = map_option (\<lambda>xs. foldl (lsb_byte 0xEDB88320) (d XOR 0xFFFFFFFF) xs XOR 0xFFFFFFFF)
                              (ld buf 0 (uint n)) \<and>
   crc64 e buf m = map_option (foldl (lsb_byte 0x95AC9329AC4BC9B5) e) (ld buf 0 (uint m))"
  by (simp add: crc16_def crc32_def crc64_def crc16_step_eq crc32_step_eq crc64_step_eq
      bind_Some_map)

text \<open>The check values that the sources document for the input \<open>123456789\<close>.\<close>

definition crc_check_input :: bytes where
  "crc_check_input = [0x31, 0x32, 0x33, 0x34, 0x35, 0x36, 0x37, 0x38, 0x39]"

lemma crc_check_values:
  "crc16 0 crc_check_input 9 = Some 0x31C3"
  "crc32 0 crc_check_input 9 = Some 0xCBF43926"
  "crc64 0 crc_check_input 9 = Some 0xe9c6d914c4b8d9ca"
  by (simp_all add: crc16_def crc32_def crc64_def crc16_step_eq crc32_step_eq crc64_step_eq
      crc_check_input_def ld_def msb_byte_def lsb_byte_def shift8 msb_shift_def lsb_shift_def)

text \<open>
  An error confined to one byte of a message is always detected by CRC-32 and CRC-64:
  two messages of the same length that differ in exactly one byte have different checksums,
  whatever the initial value.
\<close>

theorem crc_detects_byte_error:
  assumes "b \<noteq> b'" "unat n = length xs + length ys + 1" "unat m = unat n"
  shows "crc32 c (xs @ b # ys) n \<noteq> crc32 c (xs @ b' # ys) n \<and> crc32 c (xs @ b # ys) n \<noteq> None \<and>
         crc64 d (xs @ b # ys) m \<noteq> crc64 d (xs @ b' # ys) m \<and> crc64 d (xs @ b # ys) m \<noteq> None"
proof -
  have l: "ld (xs @ z # ys) 0 (uint n) = Some (xs @ z # ys)"
    "ld (xs @ z # ys) 0 (uint m) = Some (xs @ z # ys)" for z
    using assms(2,3) by (simp_all add: ld_uint)
  show ?thesis
    using c32.one_byte_error [OF assms(1)] c64.one_byte_error [OF assms(1)]
    by (simp add: crc32_def crc64_def l crc32_step_eq crc64_step_eq)
qed

theorem crc_detects_byte_error_witness:
  "crc32 0 ([1, 2] @ 3 # [4]) 4 \<noteq> crc32 0 ([1, 2] @ 7 # [4]) 4 \<and> crc32 0 ([1, 2] @ 3 # [4]) 4 \<noteq> None \<and>
   crc64 0 ([1, 2] @ 3 # [4]) 4 \<noteq> crc64 0 ([1, 2] @ 7 # [4]) 4 \<and> crc64 0 ([1, 2] @ 3 # [4]) 4 \<noteq> None"
  by (rule crc_detects_byte_error) simp_all

text \<open>
  The checksum of a file: reading a file of less than 4 GB in chunks of 1024 bytes and
  feeding the running value back into \<open>crc32\<close> terminates and gives the CRC-32 of the whole
  file, although every call inverts its input and output.  A file that cannot be opened is -1, and \<open>*crc\<close> is left alone.
\<close>

theorem file_crc_whole:
  assumes "length buffer = 1024" "length fl < 2 ^ 32"
  shows "file_compute_crc32 (Some fl) buffer (int (length fl)) = map_option (\<lambda>v. (1, Some v)) (crc32 0 fl (of_nat (length fl)))"
    "file_compute_crc32 None buffer sz = Some (-1, None)"
proof -
  have sz: "unat (of_nat (length fl) :: u32) = length fl"
    using assms(2) by (simp add: unsigned_of_nat take_bit_nat_eq_self)
  show "file_compute_crc32 (Some fl) buffer (int (length fl)) = map_option (\<lambda>v. (1, Some v)) (crc32 0 fl (of_nat (length fl)))"
    using file_crc_loop_eq [OF assms(1) sz] crc32_nat [of "of_nat (length fl)" fl 0] sz
    by (simp add: file_compute_crc32_def)
qed (simp add: file_compute_crc32_def)

theorem file_crc_whole_witness:
  "file_compute_crc32 (Some crc_check_input) (replicate 1024 0) (int (length crc_check_input)) = Some (1, Some 0xCBF43926)"
  using file_crc_whole(1) [of "replicate 1024 0" crc_check_input] crc_check_values(2)
  by (simp add: crc_check_input_def)

end
