(* ===== verification/MdStream.thy ===== *)
theory MdStream
  imports Prelude
begin

text \<open>
  The streaming half of the digests of \<open>encoding/digest\<close>.  \<open>md5.c\<close> and \<open>sha1.c\<close> share one
  scheme: a context holds a byte counter, a chaining value and a 64-byte buffer; \<open>update\<close>
  completes the buffer, hands whole blocks to the body and keeps the rest; \<open>final\<close> pads.
  The scheme is written once, over the block function \<open>blk\<close>, and instantiated by \<open>Md5\<close> and
  \<open>Sha1\<close>.  The locale \<open>md_scheme\<close> relates it to the Merkle-Damgard specification: whatever
  way a message is cut into updates, the digest is the fold of \<open>blk\<close> over the padded message.
\<close>

record 'h md_ctx =
  md_bytes :: u64
  md_chain :: 'h
  md_buffer :: bytes

text \<open>
  The body's \<open>do ... while (size -= 64)\<close>: it reads 64 bytes at \<open>p\<close> first and stops when the
  unsigned size reaches exactly zero; running past the data is \<open>None\<close>.  The result is the new
  chaining value and the pointer after the last block, as the bytes that remain.
\<close>

function md_body :: "('h \<Rightarrow> bytes \<Rightarrow> 'h) \<Rightarrow> 'h \<Rightarrow> bytes \<Rightarrow> u32 \<Rightarrow> ('h \<times> bytes) option" where
  "md_body blk h p sz =
     (if length p < 64 then None
      else let h' = blk h (take 64 p); sz' = sz - 64 in
           if sz' = 0 then Some (h', drop 64 p) else md_body blk h' (drop 64 p) sz')"
  by auto
termination
  by (relation "measure (\<lambda>(blk, h, p, sz). length p)") auto

declare md_body.simps [simp del]

definition md_init :: "'h \<Rightarrow> bytes \<Rightarrow> 'h md_ctx" where
  "md_init h buffer = \<lparr>md_bytes = 0, md_chain = h, md_buffer = buffer\<rparr>"

text \<open>The tail of \<open>update\<close>: whole blocks straight from the data, the rest into the buffer.\<close>

definition md_rest :: "('h \<Rightarrow> bytes \<Rightarrow> 'h) \<Rightarrow> 'h md_ctx \<Rightarrow> bytes \<Rightarrow> u32 \<Rightarrow> 'h md_ctx option" where
  "md_rest blk ctx data sz =
     do { (h, data', sz') \<leftarrow>
            (if sz \<ge> 64 then
               do { (h, d) \<leftarrow> md_body blk (md_chain ctx) data (sz AND NOT 0x3f);
                    Some (h, d, sz AND 0x3f) }
             else Some (md_chain ctx, data, sz));
          xs \<leftarrow> ld data' 0 (uint sz');
          buf \<leftarrow> st (md_buffer ctx) 0 xs;
          Some (ctx\<lparr>md_chain := h, md_buffer := buf\<rparr>) }"

definition md_update :: "('h \<Rightarrow> bytes \<Rightarrow> 'h) \<Rightarrow> 'h md_ctx \<Rightarrow> bytes \<Rightarrow> u32 \<Rightarrow> 'h md_ctx option" where
  "md_update blk ctx data sz =
     (let used = (ucast (md_bytes ctx AND 0x3f) :: u32);
          ctx1 = ctx\<lparr>md_bytes := md_bytes ctx + ucast sz\<rparr>
      in if used \<noteq> 0 then
           let free = 64 - used in
           if sz < free then
             do { xs \<leftarrow> ld data 0 (uint sz);
                  buf \<leftarrow> st (md_buffer ctx1) (uint used) xs;
                  Some (ctx1\<lparr>md_buffer := buf\<rparr>) }
           else
             do { xs \<leftarrow> ld data 0 (uint free);
                  buf \<leftarrow> st (md_buffer ctx1) (uint used) xs;
                  (h, _) \<leftarrow> md_body blk (md_chain ctx1) buf 64;
                  md_rest blk (ctx1\<lparr>md_chain := h, md_buffer := buf\<rparr>)
                    (drop (unat free) data) (sz - free) }
         else md_rest blk ctx1 data sz)"

text \<open>
  \<open>final\<close>: a byte 0x80, zeros, the bit length in the last eight bytes (\<open>enc\<close> writes it in the
  byte order of the algorithm), one or two more blocks; \<open>out\<close> serialises the chaining value.
  The context is wiped at the end (\<open>zero\<close> is the chaining value of zero registers).
\<close>

definition md_wiped :: "'h \<Rightarrow> 'h md_ctx" where
  "md_wiped zero = \<lparr>md_bytes = 0, md_chain = zero, md_buffer = replicate 64 0\<rparr>"

definition md_final :: "('h \<Rightarrow> bytes \<Rightarrow> 'h) \<Rightarrow> (u64 \<Rightarrow> bytes) \<Rightarrow> ('h \<Rightarrow> bytes) \<Rightarrow> 'h \<Rightarrow>
    'h md_ctx \<Rightarrow> (bytes \<times> 'h md_ctx) option" where
  "md_final blk enc out zero ctx =
     (let used0 = (ucast (md_bytes ctx AND 0x3f) :: u32) in
      do { buf0 \<leftarrow> st1 (md_buffer ctx) (uint used0) 0x80;
           let used = used0 + 1; free = 64 - used in
           do { (h, buf, used', free') \<leftarrow>
                  (if free < 8 then
                     do { b1 \<leftarrow> st buf0 (uint used) (replicate (unat free) 0);
                          (h, _) \<leftarrow> md_body blk (md_chain ctx) b1 64;
                          Some (h, b1, 0, 64) }
                   else Some (md_chain ctx, buf0, used, free));
                b2 \<leftarrow> st buf (uint used') (replicate (unat (free' - 8)) 0);
                b3 \<leftarrow> st b2 56 (enc (push_bit 3 (md_bytes ctx)));
                (h', _) \<leftarrow> md_body blk h b3 64;
                Some (out h', md_wiped zero) } })"

subsection \<open>The specification\<close>

function md_blocks :: "bytes \<Rightarrow> bytes list" where
  "md_blocks xs = (if length xs < 64 then [] else take 64 xs # md_blocks (drop 64 xs))"
  by auto
termination
  by (relation "measure length") auto

declare md_blocks.simps [simp del]

definition md_fold :: "('h \<Rightarrow> bytes \<Rightarrow> 'h) \<Rightarrow> 'h \<Rightarrow> bytes \<Rightarrow> 'h" where
  "md_fold blk h xs = foldl blk h (md_blocks xs)"

definition md_pad :: "(u64 \<Rightarrow> bytes) \<Rightarrow> bytes \<Rightarrow> bytes" where
  "md_pad enc m = m @ 0x80 # replicate (nat ((55 - int (length m)) mod 64)) 0 @
                  enc (of_nat (8 * length m))"

definition md_spec :: "('h \<Rightarrow> bytes \<Rightarrow> 'h) \<Rightarrow> 'h \<Rightarrow> (u64 \<Rightarrow> bytes) \<Rightarrow> ('h \<Rightarrow> bytes) \<Rightarrow> bytes \<Rightarrow> bytes" where
  "md_spec blk h0 enc out m = out (md_fold blk h0 (md_pad enc m))"

text \<open>The arithmetic of byte strings, in which the standards state their byte orders.\<close>

definition le_bytes :: "nat \<Rightarrow> nat \<Rightarrow> bytes" where
  "le_bytes k n = map (\<lambda>i. of_nat (n div 256 ^ i)) [0..<k]"

definition be_bytes :: "nat \<Rightarrow> nat \<Rightarrow> bytes" where
  "be_bytes k n = rev (le_bytes k n)"

fun le_value :: "bytes \<Rightarrow> nat" where
  "le_value [] = 0"
| "le_value (b # bs) = unat b + 256 * le_value bs"

definition be_value :: "bytes \<Rightarrow> nat" where
  "be_value bs = le_value (rev bs)"

lemma take4_drop:
  assumes "n + 4 \<le> length xs"
  shows "take 4 (drop n xs) = [xs ! n, xs ! (n + 1), xs ! (n + 2), xs ! (n + 3)]"
proof -
  have "drop n xs = xs ! n # xs ! (n + 1) # xs ! (n + 2) # xs ! (n + 3) # drop (n + 4) xs"
    using assms by (simp add: Cons_nth_drop_Suc numeral_eq_Suc)
  then show ?thesis by simp
qed

lemma ucast_drop_bit_byte: "(ucast (drop_bit (8 * i) n) :: u8) = of_nat (unat (n :: 'w::len word) div 256 ^ i)"
proof -
  have "unat n div 256 ^ i = unat (drop_bit (8 * i) n)" 
    unfolding unat_drop_bit_eq by (simp add: drop_bit_eq_div power_mult)
  then show ?thesis by (simp only: of_nat_unat)
qed

lemma word_of4_value: "word_of4 a b c d = of_nat (le_value [a, b, c, d])"
proof -
  have add: "x XOR y = x + y" if "x AND y = 0" for x y :: u32
    using disjunctive_add_eq_xor [OF that] by simp
  have "word_of4 a b c d = ucast a XOR (push_bit 8 (ucast b) XOR (push_bit 16 (ucast c) XOR push_bit 24 (ucast d)))"
    by (simp only: word_of4_def xor.assoc)
  also have "push_bit 16 (ucast c) XOR push_bit 24 (ucast d) = push_bit 16 (ucast c) + (push_bit 24 (ucast d) :: u32)"
    by (rule add, rule bit_word_eqI) (auto simp: bit_simps dest: bit_imp_le_length)
  also have "push_bit 16 (ucast c) + (push_bit 24 (ucast d) :: u32) = push_bit 16 (ucast c + push_bit 8 (ucast d))"
    by (simp add: push_bit_eq_mult algebra_simps)
  also have "push_bit 8 (ucast b) XOR push_bit 16 (ucast c + push_bit 8 (ucast d) :: u32) =
      push_bit 8 (ucast b) + push_bit 16 (ucast c + push_bit 8 (ucast d))"
    by (rule add, rule bit_word_eqI) (auto simp: bit_simps dest: bit_imp_le_length)
  also have "\<dots> = push_bit 8 (ucast b + push_bit 8 (ucast c + push_bit 8 (ucast d)) :: u32)"
    by (simp add: push_bit_eq_mult algebra_simps)
  also have "ucast a XOR \<dots> = ucast a + \<dots>"
    by (rule add, rule bit_word_eqI) (auto simp: bit_simps dest: bit_imp_le_length)
  finally show ?thesis by (simp add: push_bit_eq_mult algebra_simps)
qed

text \<open>A sequence of updates.\<close>

fun md_updates :: "('h \<Rightarrow> bytes \<Rightarrow> 'h) \<Rightarrow> 'h md_ctx \<Rightarrow> bytes list \<Rightarrow> 'h md_ctx option" where
  "md_updates blk ctx [] = Some ctx"
| "md_updates blk ctx (x # xs) =
     do { ctx' \<leftarrow> md_update blk ctx x (of_nat (length x)); md_updates blk ctx' xs }"

lemma md_blocks_Nil [simp]: "length xs < 64 \<Longrightarrow> md_blocks xs = []"
  by (subst md_blocks.simps) simp

lemma md_blocks_block: "length b = 64 \<Longrightarrow> md_blocks (b @ xs) = b # md_blocks xs"
  by (subst md_blocks.simps) simp

lemma md_blocks_append:
  assumes "length xs = 64 * k"
  shows "md_blocks (xs @ ys) = md_blocks xs @ md_blocks ys"
  using assms
proof (induction k arbitrary: xs)
  case (Suc k)
  have "xs = take 64 xs @ drop 64 xs" by simp
  moreover have l: "length (take 64 xs) = 64" "length (drop 64 xs) = 64 * k" using Suc.prems by auto
  ultimately show ?case
    using md_blocks_block [OF l(1), of "drop 64 xs"] md_blocks_block [OF l(1), of "drop 64 xs @ ys"]
      Suc.IH [OF l(2)] by (metis append_Cons append_assoc)
qed simp

lemma md_fold_append:
  "length xs = 64 * k \<Longrightarrow> md_fold blk h (xs @ ys) = md_fold blk (md_fold blk h xs) ys"
  by (simp add: md_fold_def md_blocks_append)

lemma md_fold_block: "length b = 64 \<Longrightarrow> md_fold blk h b = blk h b"
  using md_blocks_block [of b "[]"] by (simp add: md_fold_def)

lemma md_fold_short [simp]: "length xs < 64 \<Longrightarrow> md_fold blk h xs = h"
  by (simp add: md_fold_def)

lemma length_md_blocks: "b \<in> set (md_blocks xs) \<Longrightarrow> length b = 64"
proof (induction xs rule: md_blocks.induct)
  case (1 xs)
  then show ?case by (cases "length xs < 64") (auto simp: md_blocks.simps [of xs])
qed

lemma md_spec_cong:
  assumes "\<And>h b. length b = 64 \<Longrightarrow> blk h b = blk' h b"
  shows "md_spec blk h0 enc out = md_spec blk' h0 enc out"
  unfolding md_spec_def md_fold_def fun_eq_iff
  by (intro allI arg_cong [where f = out] foldl_cong refl assms length_md_blocks)

subsection \<open>Counters and block sizes\<close>

lemma mask6: "(0x3f :: 'w::len word) = mask 6"
  by (simp add: mask_eq_exp_minus_1)

lemma unat_and_3f: "unat (x AND 0x3f :: 'w::len word) = unat x mod 64"
  by (simp only: mask6 take_bit_eq_mask [symmetric] unsigned_take_bit_eq) (simp add: take_bit_eq_mod)

lemma unat_and_not_3f: "unat (x AND NOT 0x3f :: 'w::len word) = 64 * (unat x div 64)"
proof -
  have "(x AND NOT 0x3f) AND (x AND 0x3f) = 0" by (rule bit_word_eqI) (auto simp: bit_simps)
  then have "(x AND NOT 0x3f) + (x AND 0x3f) = (x AND NOT 0x3f) XOR (x AND 0x3f)"
    by (rule disjunctive_add_eq_xor)
  also have "\<dots> = x" by (rule bit_word_eqI) (auto simp: bit_simps)
  finally have "x AND NOT 0x3f = x - (x AND 0x3f)" by (metis add_diff_cancel_right')
  moreover have "x AND 0x3f \<le> x" by (simp add: word_le_nat_alt unat_and_3f)
  ultimately have "unat (x AND NOT 0x3f) = unat x - unat x mod 64" by (simp add: unat_sub unat_and_3f)
  then show ?thesis by (simp add: minus_mod_eq_mult_div)
qed

lemma unat_used: "unat (ucast ((of_nat n :: u64) AND 0x3f) :: u32) = n mod 64"
proof -
  have "unat ((of_nat n :: u64) AND 0x3f) = n mod 64"
    by (simp add: unat_and_3f unsigned_of_nat take_bit_eq_mod mod_mod_cancel)
  moreover have "n mod 64 < 2 ^ 32" by (rule less_trans [of _ 64]) auto
  ultimately show ?thesis by (simp add: unsigned_ucast_eq take_bit_nat_eq_self)
qed

lemma md_body_eq:
  "64 * Suc k \<le> length p \<Longrightarrow> unat sz = 64 * Suc k \<Longrightarrow>
   md_body blk h p sz = Some (md_fold blk h (take (64 * Suc k) p), drop (64 * Suc k) p)"
proof (induction k arbitrary: h p sz)
  case 0
  then have "sz = 64" by (simp add: word_eq_iff_unsigned [where 'a = nat])
  with 0 show ?case by (subst md_body.simps) (simp add: md_fold_block)
next
  case (Suc k)
  have le: "(64 :: u32) \<le> sz" using Suc.prems(2) by (simp add: word_le_nat_alt)
  have sz': "unat (sz - 64) = 64 * Suc k" using Suc.prems(2) le by (simp add: unat_sub)
  then have nz: "sz - 64 \<noteq> 0" by auto
  have len: "\<not> length p < 64" "64 * Suc k \<le> length (drop 64 p)" using Suc.prems(1) by auto
  have tk: "take (64 * Suc (Suc k)) p = take 64 p @ take (64 * Suc k) (drop 64 p)"
    by (simp add: take_add [symmetric])
  have "md_fold blk (blk h (take 64 p)) (take (64 * Suc k) (drop 64 p)) =
        md_fold blk h (take (64 * Suc (Suc k)) p)"
    unfolding tk using len md_fold_append [of "take 64 p" 1 blk h] md_fold_block [of "take 64 p" blk h]
    by simp
  then show ?case
    using Suc.IH [OF len(2) sz', of "blk h (take 64 p)"] nz len
    by (subst md_body.simps) (simp add: Let_def add.commute)
qed

lemma md_body_one: "length b = 64 \<Longrightarrow> md_body blk h b 64 = Some (blk h b, [])"
  using md_body_eq [of 0 b 64 blk h] by (simp add: md_fold_block)

subsection \<open>The streaming scheme implements the specification\<close>

text \<open>A context that has absorbed the message \<open>m\<close>.\<close>

definition md_rep :: "('h \<Rightarrow> bytes \<Rightarrow> 'h) \<Rightarrow> 'h \<Rightarrow> 'h md_ctx \<Rightarrow> bytes \<Rightarrow> bool" where
  "md_rep blk h0 ctx m \<longleftrightarrow>
     md_bytes ctx = of_nat (length m) \<and> length (md_buffer ctx) = 64 \<and>
     md_chain ctx = md_fold blk h0 m \<and>
     take (length m mod 64) (md_buffer ctx) = drop (64 * (length m div 64)) m"

locale md_scheme =
  fixes blk :: "'h \<Rightarrow> bytes \<Rightarrow> 'h" and h0 :: 'h and enc :: "u64 \<Rightarrow> bytes"
  assumes enc_length: "length (enc n) = 8"
begin

lemma fold_whole: "md_fold blk h0 (take (64 * (length m div 64)) m) = md_fold blk h0 m"
proof -
  let ?k = "length m div 64"
  have "length (take (64 * ?k) m) = 64 * ?k" by simp
  from md_fold_append [OF this, of blk h0 "drop (64 * ?k) m"] show ?thesis
    by (simp add: minus_mult_div_eq_mod)
qed

lemma init_rep: "length b = 64 \<Longrightarrow> md_rep blk h0 (md_init h0 b) []"
  by (simp add: md_rep_def md_init_def)

lemma rest_rep:
  assumes buf: "length (md_buffer ctx) = 64" and ch: "md_chain ctx = md_fold blk h0 pre"
    and pre: "length pre = 64 * j" and data: "unat sz = length data"
    and cnt: "md_bytes ctx = of_nat (length (pre @ data))"
  shows "\<exists>ctx'. md_rest blk ctx data sz = Some ctx' \<and> md_rep blk h0 ctx' (pre @ data)"
proof -
  let ?k = "length data div 64" and ?r = "length data mod 64"
  let ?buf = "drop (64 * ?k) data @ drop ?r (md_buffer ctx)"
  let ?ctx = "ctx\<lparr>md_chain := md_fold blk h0 (pre @ data), md_buffer := ?buf\<rparr>"
  have r: "length (drop (64 * ?k) data) = ?r" by (simp add: minus_mult_div_eq_mod)
  have st: "st (md_buffer ctx) 0 (drop (64 * ?k) data) = Some ?buf"
    using st_nat0 [of "drop (64 * ?k) data" "md_buffer ctx"] r buf
    by (simp add: less_imp_le [OF mod_less_divisor])
  have fold: "md_fold blk h0 (pre @ data) = md_fold blk (md_fold blk h0 pre) (take (64 * ?k) data)"
    using md_fold_append [OF pre, of blk h0 data] md_fold_append [of "take (64 * ?k) data" ?k blk
      "md_fold blk h0 pre" "drop (64 * ?k) data"] r by simp
  have "md_rest blk ctx data sz = Some ?ctx"
  proof (cases "sz \<ge> 64")
    case True
    then have "64 \<le> length data" using data by (simp add: word_le_nat_alt)
    then obtain k' where k': "?k = Suc k'" by (cases "?k") (auto simp: div_eq_0_iff)
    have b: "md_body blk (md_chain ctx) data (sz AND NOT 0x3f) =
        Some (md_fold blk (md_chain ctx) (take (64 * ?k) data), drop (64 * ?k) data)"
      unfolding k'
    proof (rule md_body_eq)
      show "64 * Suc k' \<le> length data" unfolding k' [symmetric] by simp
      show "unat (sz AND NOT 0x3f) = 64 * Suc k'" by (simp only: unat_and_not_3f data k')
    qed
    have "ld (drop (64 * ?k) data) 0 (uint (sz AND 0x3f)) = Some (drop (64 * ?k) data)"
      using ld_uint [of "sz AND 0x3f" "drop (64 * ?k) data"] r data by (simp add: unat_and_3f)
    with True b st show ?thesis by (simp add: md_rest_def fold ch)
  next
    case False
    then have "length data < 64" using data by (simp add: word_le_nat_alt)
    with False st data ld_uint [of sz data] show ?thesis by (simp add: md_rest_def fold ch)
  qed
  moreover have "md_rep blk h0 ?ctx (pre @ data)"
  proof -
    have "length (pre @ data) mod 64 = ?r" "64 * (length (pre @ data) div 64) = length pre + 64 * ?k"
      using pre by simp_all
    then show ?thesis using cnt r buf by (simp add: md_rep_def)
  qed
  ultimately show ?thesis by blast
qed

lemma div_mod_64: "x < 64 \<Longrightarrow> (64 * k + x) mod 64 = x \<and> (64 * k + x) div 64 = (k :: nat)"
  by simp

lemma fill_block:
  assumes "64 * k + u = (n :: nat)" "u < 64"
  shows "n + (64 - u) = 64 * (k + 1)"
  using assms by simp

lemma used_free:
  assumes "md_bytes ctx = of_nat (length m)"
  defines "used \<equiv> (ucast (md_bytes ctx AND 0x3f) :: u32)"
  shows "unat used = length m mod 64" and "uint used = int (length m mod 64)"
    and "unat (64 - used) = 64 - length m mod 64" and "uint (64 - used) = int (64 - length m mod 64)"
    and "used \<noteq> 0 \<longleftrightarrow> length m mod 64 \<noteq> 0"
proof -
  show u: "unat used = length m mod 64" unfolding used_def assms(1) by (rule unat_used)
  then show ui: "uint used = int (length m mod 64)" by (metis of_nat_unat)
  have "used \<le> 64" using u by (simp add: word_le_nat_alt less_imp_le [OF mod_less_divisor])
  then show f: "unat (64 - used) = 64 - length m mod 64" using u by (simp add: unat_sub)
  then show "uint (64 - used) = int (64 - length m mod 64)" by (metis of_nat_unat)
  show "used \<noteq> 0 \<longleftrightarrow> length m mod 64 \<noteq> 0" using u by (metis unat_eq_zero)
qed

lemma update_rep:
  assumes rep: "md_rep blk h0 ctx m" and data: "unat sz = length data"
  shows "\<exists>ctx'. md_update blk ctx data sz = Some ctx' \<and> md_rep blk h0 ctx' (m @ data)"
proof -
  let ?u = "length m mod 64" and ?q = "64 * (length m div 64)"
  let ?used = "ucast (md_bytes ctx AND 0x3f) :: u32"
  let ?ctx1 = "ctx\<lparr>md_bytes := md_bytes ctx + ucast sz\<rparr>"
  from rep have r: "md_bytes ctx = of_nat (length m)" "length (md_buffer ctx) = 64"
    "md_chain ctx = md_fold blk h0 m" "take ?u (md_buffer ctx) = drop ?q m"
    by (auto simp: md_rep_def)
  note uf = used_free [OF r(1)]
  have cnt: "md_bytes ctx + ucast sz = of_nat (length (m @ data))"
    using r(1) data by (simp add: unsigned_ucast_eq flip: data)
  have q: "length (take ?q m) = ?q" "?q + ?u = length m" by simp_all
  show ?thesis
  proof (cases "?u = 0")
    case True
    then have "length m = 64 * (length m div 64)" using q(2) by simp
    from rest_rep [of ?ctx1 m "length m div 64" sz data, OF _ _ this data] r cnt True
    show ?thesis using uf(5) by (simp add: md_update_def)
  next
    case nz: False
    show ?thesis
    proof (cases "sz < 64 - ?used")
      case True
      have u: "?u < 64" by simp
      from True have l: "length data < 64 - ?u" using uf(3) data by (simp add: word_less_nat_alt)
      let ?buf = "take ?u (md_buffer ctx) @ data @ drop (?u + length data) (md_buffer ctx)"
      have st: "st (md_buffer ctx) (uint ?used) data = Some ?buf"
        unfolding uf(2) using st_nat [of ?u data "md_buffer ctx"] l r(2) by simp
      have "md_update blk ctx data sz = Some (?ctx1\<lparr>md_buffer := ?buf\<rparr>)"
        using nz True uf(5) st data ld_uint [of sz data] by (simp add: md_update_def)
      moreover have "md_rep blk h0 (?ctx1\<lparr>md_buffer := ?buf\<rparr>) (m @ data)"
      proof -
        have sum: "length m + length data = ?q + (?u + length data)" using q(2) by simp
        have "?u + length data < 64" using l by linarith
        note div_mod_64 [OF this, of "length m div 64"]
        then have "(length m + length data) mod 64 = ?u + length data"
          "(length m + length data) div 64 = length m div 64"
          unfolding sum by blast+
        moreover have "md_fold blk h0 (m @ data) = md_fold blk h0 m"
        proof -
          have eq: "take ?q m @ drop ?q m @ data = m @ data" by (metis append_assoc append_take_drop_id)
          have "length (drop ?q m @ data) < 64" using l by (simp add: minus_mult_div_eq_mod)
          then show ?thesis
            using md_fold_append [OF q(1), of blk h0 "drop ?q m @ data", unfolded eq] fold_whole [of m]
            by simp
        qed
        moreover have "length ?buf = 64" using l r(2) u by simp
        moreover have "take (?u + length data) ?buf = drop ?q m @ data"
          using l r(2,4) u by (simp add: minus_mult_div_eq_mod)
        moreover have "drop ?q (m @ data) = drop ?q m @ data" by simp
        ultimately show ?thesis using r cnt unfolding md_rep_def by simp
      qed
      ultimately show ?thesis by blast
    next
      case False
      let ?f = "64 - ?u"
      have l: "?f \<le> length data" using False uf(3) data by (simp add: word_less_nat_alt)
      let ?buf = "drop ?q m @ take ?f data"
      have u: "?u < 64" by simp
      have st: "st (md_buffer ctx) (uint ?used) (take ?f data) = Some ?buf"
        unfolding uf(2) using st_nat [of ?u "take ?f data" "md_buffer ctx"] l r(2,4) u by simp
      have blen: "length ?buf = 64" using l u q(2) by (simp add: minus_mult_div_eq_mod)
      let ?ctx2 = "?ctx1\<lparr>md_chain := blk (md_fold blk h0 m) ?buf, md_buffer := ?buf\<rparr>"
      let ?pre = "m @ take ?f data"
      have m: "?pre = take ?q m @ ?buf" by simp
      have pre: "length ?pre = 64 * (length m div 64 + 1)"
      proof -
        have "length ?pre = length m + ?f" using l by simp
        then show ?thesis using fill_block [OF q(2) u] by simp
      qed
      have ch: "blk (md_fold blk h0 m) ?buf = md_fold blk h0 ?pre"
        unfolding m using md_fold_append [OF q(1), of blk h0 ?buf] md_fold_block [OF blen, of blk]
          fold_whole [of m] by simp
      have sz: "unat (sz - (64 - ?used)) = length (drop ?f data)"
        using False uf(3) data l by (simp add: unat_sub not_less)
      have "\<exists>ctx'. md_rest blk ?ctx2 (drop ?f data) (sz - (64 - ?used)) = Some ctx' \<and>
              md_rep blk h0 ctx' (?pre @ drop ?f data)"
        by (rule rest_rep [OF _ _ pre sz]) (use blen ch cnt l in simp_all)
      moreover have "md_update blk ctx data sz = md_rest blk ?ctx2 (drop ?f data) (sz - (64 - ?used))"
        using nz False uf(3,5) st l ld_uint [of "64 - ?used" data] md_body_one [OF blen, of blk] r(3)
        by (simp add: md_update_def)
      ultimately show ?thesis by simp
    qed
  qed
qed

lemma updates_rep:
  assumes "md_rep blk h0 ctx m" "\<forall>x\<in>set xs. length x < 2 ^ 32"
  shows "\<exists>ctx'. md_updates blk ctx xs = Some ctx' \<and> md_rep blk h0 ctx' (m @ concat xs)"
  using assms
proof (induction xs arbitrary: ctx m)
  case (Cons x xs)
  have "unat (of_nat (length x) :: u32) = length x"
    using Cons.prems(2) by (simp add: unsigned_of_nat take_bit_nat_eq_self)
  from update_rep [OF Cons.prems(1) this] obtain ctx1 where
    "md_update blk ctx x (of_nat (length x)) = Some ctx1" "md_rep blk h0 ctx1 (m @ x)" by blast
  with Cons.IH [of ctx1 "m @ x"] Cons.prems(2) show ?case by auto
qed simp

lemma pad_zeros:
  "nat ((55 - int n) mod 64) = (if n mod 64 \<le> 55 then 55 - n mod 64 else 119 - n mod 64)"
proof -
  let ?u = "n mod 64"
  have "int n = int (64 * (n div 64) + ?u)" by (simp only: mult_div_mod_eq)
  then have "int n = 64 * int (n div 64) + int ?u" by (simp only: of_nat_add of_nat_mult of_nat_numeral)
  then have "55 - int n = 55 - int ?u - 64 * int (n div 64)" by linarith
  then have "(55 - int n) mod 64 = (55 - int ?u - 64 * int (n div 64)) mod 64" by (rule arg_cong)
  also have "\<dots> = (55 - int ?u) mod 64"
    using mod_mult_self2 [of "55 - int ?u" "64" "- int (n div 64)"] by simp
  also have "\<dots> = (if ?u \<le> 55 then 55 - int ?u else 119 - int ?u)"
  proof (cases "?u \<le> 55")
    case False
    have "(55 - int ?u) mod 64 = (55 - int ?u + 64) mod 64" by (simp only: mod_add_self2)
    also have "55 - int ?u + 64 = 119 - int ?u" by simp
    also have "(119 - int ?u) mod 64 = 119 - int ?u"
      using False by (intro mod_pos_pos_trivial) linarith+
    finally show ?thesis using False by simp
  qed simp
  finally show ?thesis by auto
qed

lemma md_final_last:
  assumes "length b = 64"
  shows "do { b3 \<leftarrow> st b 56 (enc n); (h', _) \<leftarrow> md_body blk h b3 64; Some (out h', w) } =
         Some (out (blk h (take 56 b @ enc n)), w)"
proof -
  have "st b 56 (enc n) = Some (take 56 b @ enc n)"
    using st_nat [of 56 "enc n" b] assms enc_length by simp
  then show ?thesis using md_body_one [of "take 56 b @ enc n" blk h] assms enc_length by simp
qed

lemma final_short:
  assumes buf: "length buf = 64" "take (Suc u) buf = pre" "u \<le> 55"
  shows "st buf (int (Suc u)) (replicate (55 - u) 0) =
           Some (pre @ replicate (55 - u) 0 @ drop 56 buf)"
  using st_nat [of "Suc u" "replicate (55 - u) 0" buf] assms by simp

lemma final_blocks:
  fixes used :: u32
  assumes used: "unat used = u" "u < 64" and buf: "length buf = 64" "take u buf = d"
  shows "do { buf0 \<leftarrow> st1 buf (uint used) 0x80;
           let used' = used + 1; free = 64 - used' in
           do { (h', buf', used'', free') \<leftarrow>
                  (if free < 8 then
                     do { b1 \<leftarrow> st buf0 (uint used') (replicate (unat free) 0);
                          (h', _) \<leftarrow> md_body blk h b1 64;
                          Some (h', b1, 0, 64) }
                   else Some (h, buf0, used', free));
                b2 \<leftarrow> st buf' (uint used'') (replicate (unat (free' - 8)) 0);
                b3 \<leftarrow> st b2 56 (enc n);
                (h'', _) \<leftarrow> md_body blk h' b3 64;
                Some (out h'', w) } } =
     Some (out (md_fold blk h (d @ 0x80 # replicate (if u \<le> 55 then 55 - u else 119 - u) 0 @ enc n)), w)"
proof -
  let ?b0 = "buf[u := 0x80]" and ?pre = "d @ [0x80]"
  have d: "length d = u" using buf used(2) by auto
  have i0: "uint used = int u" using used(1) by (metis of_nat_unat)
  have b0: "st1 buf (uint used) 0x80 = Some ?b0"
    unfolding i0 using st1_Some [of "int u" buf "0x80"] buf(1) used(2) by simp
  have pre: "take (Suc u) ?b0 = ?pre" "length ?b0 = 64"
    using buf used(2) by (simp_all add: take_Suc_conv_app_nth)
  have u1: "unat (used + 1) = Suc u" using used by (simp add: unat_word_ariths)
  have f1: "unat (64 - (used + 1)) = 63 - u"
    using u1 used(2) by (subst unat_sub) (simp_all add: word_le_nat_alt)
  have i1: "uint (used + 1) = int (Suc u)" using u1 by (metis of_nat_unat)
  show ?thesis
  proof (cases "64 - (used + 1) < 8")
    case True
    then have big: "55 < u" using f1 by (simp add: word_less_nat_alt)
    define b1 where "b1 = ?pre @ replicate (63 - u) (0 :: u8)"
    have s1: "st ?b0 (int (Suc u)) (replicate (63 - u) 0) = Some b1"
      using st_nat [of "Suc u" "replicate (63 - u) 0" ?b0] pre used(2) by (simp add: b1_def)
    have len1: "length b1 = 64" using used(2) d by (simp add: b1_def)
    define b2 where "b2 = replicate 56 (0 :: u8) @ drop 56 b1"
    have s2: "st b1 0 (replicate 56 0) = Some b2"
      using st_nat0 [of "replicate 56 0" b1] len1 by (simp add: b2_def)
    have len2: "length b2 = 64" "take 56 b2 = replicate 56 0" using len1 by (simp_all add: b2_def)
    have "119 - u = (63 - u) + 56" using used(2) by simp
    then have "replicate (119 - u) (0 :: u8) = replicate (63 - u) 0 @ replicate 56 0"
      by (simp only: replicate_add)
    then have e: "d @ 0x80 # replicate (119 - u) 0 @ enc n = b1 @ replicate 56 0 @ enc n"
      by (simp add: b1_def)
    have "md_fold blk h (d @ 0x80 # replicate (119 - u) 0 @ enc n) =
        blk (blk h b1) (replicate 56 0 @ enc n)"
      unfolding e using md_fold_append [of b1 1 blk h] len1 md_fold_block [OF len1, of blk h] enc_length
        md_fold_block [of "replicate 56 0 @ enc n" blk] by simp
    then show ?thesis
      unfolding b0 Let_def i1 f1 using True big s1 s2 md_body_one [OF len1, of blk h]
        md_final_last [OF len2(1)] len2
      by simp
  next
    case False
    then have small: "u \<le> 55" using f1 used(2) by (simp add: word_less_nat_alt)
    have f2: "unat (64 - (used + 1) - 8) = 55 - u"
    proof -
      have "8 \<le> 64 - (used + 1)" using False by (simp only: not_less)
      from unat_sub [OF this] f1 show ?thesis by simp
    qed
    define b2 where "b2 = ?pre @ replicate (55 - u) 0 @ drop 56 ?b0"
    have s2: "st ?b0 (int (Suc u)) (replicate (55 - u) 0) = Some b2"
      unfolding b2_def by (rule final_short [OF pre(2,1) small])
    have len2: "length b2 = 64" "take 56 b2 = ?pre @ replicate (55 - u) 0"
      using small pre(2) d by (simp_all add: b2_def Suc_diff_le flip: Suc_diff_Suc)
    have "md_fold blk h (d @ 0x80 # replicate (55 - u) 0 @ enc n) = blk h (take 56 b2 @ enc n)"
      using md_fold_block [of "take 56 b2 @ enc n" blk h] len2 enc_length d small by simp
    with False small s2 f2 show ?thesis
      unfolding b0 Let_def i1 using md_final_last [OF len2(1)] by (simp add: i1)
  qed
qed

lemma final_rep:
  assumes rep: "md_rep blk h0 ctx m"
  shows "md_final blk enc out zero ctx = Some (md_spec blk h0 enc out m, md_wiped zero)"
proof -
  let ?u = "length m mod 64" and ?q = "64 * (length m div 64)"
  from rep have r: "md_bytes ctx = of_nat (length m)" "length (md_buffer ctx) = 64"
    "md_chain ctx = md_fold blk h0 m" "take ?u (md_buffer ctx) = drop ?q m"
    by (auto simp: md_rep_def)
  have n: "push_bit 3 (md_bytes ctx) = of_nat (8 * length m)"
    by (simp add: r(1) push_bit_eq_mult)
  let ?t = "drop ?q m @ 0x80 # replicate (if ?u \<le> 55 then 55 - ?u else 119 - ?u) 0 @
            enc (of_nat (8 * length m))"
  have "md_pad enc m = take ?q m @ ?t"
    unfolding md_pad_def pad_zeros by (metis append.assoc append_take_drop_id)
  moreover have "length (take ?q m) = 64 * (length m div 64)" by simp
  ultimately have "md_fold blk h0 (md_pad enc m) = md_fold blk (md_fold blk h0 m) ?t"
    using md_fold_append [of "take ?q m" _ blk h0 ?t] fold_whole [of m] by simp
  moreover have "?u < 64" by simp
  ultimately show ?thesis
    unfolding md_final_def n r(3) md_spec_def Let_def [of "ucast (md_bytes ctx AND 0x3f) :: u32"]
    by (subst final_blocks [OF used_free(1) [OF r(1)] _ r(2,4)]) simp_all
qed

theorem stream_digest:
  assumes "length b = 64" "\<forall>x\<in>set xs. length x < 2 ^ 32"
  shows "do { ctx \<leftarrow> md_updates blk (md_init h0 b) xs; md_final blk enc out zero ctx } =
         Some (md_spec blk h0 enc out (concat xs), md_wiped zero)"
  using updates_rep [OF init_rep [OF assms(1)] assms(2)] final_rep by auto

end

end
