(* ===== verification/Md5.thy ===== *)
theory Md5
  imports MdStream
begin

text \<open>
  The MD5 digest of \<open>encoding/digest/md5.c\<close>.  The 64 invocations of the macro \<open>STEP\<close> are a
  table in source order (round function, message word, constant, rotation); the source
  renames the registers from step to step, the model rotates the tuple \<open>(a, b, c, d)\<close>.  The
  streaming operations are those of \<open>MdStream\<close>.
\<close>

type_synonym md5_regs = "u32 \<times> u32 \<times> u32 \<times> u32"

datatype md5_round = RF | RG | RH | RI

definition md5_F :: "u32 \<Rightarrow> u32 \<Rightarrow> u32 \<Rightarrow> u32" where
  "md5_F x y z = z XOR (x AND (y XOR z))"

definition md5_G :: "u32 \<Rightarrow> u32 \<Rightarrow> u32 \<Rightarrow> u32" where
  "md5_G x y z = y XOR (z AND (x XOR y))"

definition md5_H :: "u32 \<Rightarrow> u32 \<Rightarrow> u32 \<Rightarrow> u32" where
  "md5_H x y z = x XOR y XOR z"

definition md5_I :: "u32 \<Rightarrow> u32 \<Rightarrow> u32 \<Rightarrow> u32" where
  "md5_I x y z = y XOR (x OR NOT z)"

fun md5_fun :: "md5_round \<Rightarrow> u32 \<Rightarrow> u32 \<Rightarrow> u32 \<Rightarrow> u32" where
  "md5_fun RF = md5_F"
| "md5_fun RG = md5_G"
| "md5_fun RH = md5_H"
| "md5_fun RI = md5_I"

definition md5_rol :: "u32 \<Rightarrow> nat \<Rightarrow> u32" where
  "md5_rol a s = push_bit s a OR drop_bit (32 - s) (a AND 0xffffffff)"

definition md5_step :: "md5_round \<Rightarrow> u32 \<Rightarrow> u32 \<Rightarrow> u32 \<Rightarrow> u32 \<Rightarrow> u32 \<Rightarrow> u32 \<Rightarrow> nat \<Rightarrow> u32" where
  "md5_step f a b c d x t s = md5_rol (a + (md5_fun f b c d + x + t)) s + b"

definition md5_table :: "(md5_round \<times> nat \<times> u32 \<times> nat) list" where
  "md5_table = [
   (RF, 0, 0xd76aa478, 7), (RF, 1, 0xe8c7b756, 12), (RF, 2, 0x242070db, 17), (RF, 3, 0xc1bdceee, 22),
   (RF, 4, 0xf57c0faf, 7), (RF, 5, 0x4787c62a, 12), (RF, 6, 0xa8304613, 17), (RF, 7, 0xfd469501, 22),
   (RF, 8, 0x698098d8, 7), (RF, 9, 0x8b44f7af, 12), (RF, 10, 0xffff5bb1, 17), (RF, 11, 0x895cd7be, 22),
   (RF, 12, 0x6b901122, 7), (RF, 13, 0xfd987193, 12), (RF, 14, 0xa679438e, 17), (RF, 15, 0x49b40821, 22),
   (RG, 1, 0xf61e2562, 5), (RG, 6, 0xc040b340, 9), (RG, 11, 0x265e5a51, 14), (RG, 0, 0xe9b6c7aa, 20),
   (RG, 5, 0xd62f105d, 5), (RG, 10, 0x02441453, 9), (RG, 15, 0xd8a1e681, 14), (RG, 4, 0xe7d3fbc8, 20),
   (RG, 9, 0x21e1cde6, 5), (RG, 14, 0xc33707d6, 9), (RG, 3, 0xf4d50d87, 14), (RG, 8, 0x455a14ed, 20),
   (RG, 13, 0xa9e3e905, 5), (RG, 2, 0xfcefa3f8, 9), (RG, 7, 0x676f02d9, 14), (RG, 12, 0x8d2a4c8a, 20),
   (RH, 5, 0xfffa3942, 4), (RH, 8, 0x8771f681, 11), (RH, 11, 0x6d9d6122, 16), (RH, 14, 0xfde5380c, 23),
   (RH, 1, 0xa4beea44, 4), (RH, 4, 0x4bdecfa9, 11), (RH, 7, 0xf6bb4b60, 16), (RH, 10, 0xbebfbc70, 23),
   (RH, 13, 0x289b7ec6, 4), (RH, 0, 0xeaa127fa, 11), (RH, 3, 0xd4ef3085, 16), (RH, 6, 0x04881d05, 23),
   (RH, 9, 0xd9d4d039, 4), (RH, 12, 0xe6db99e5, 11), (RH, 15, 0x1fa27cf8, 16), (RH, 2, 0xc4ac5665, 23),
   (RI, 0, 0xf4292244, 6), (RI, 7, 0x432aff97, 10), (RI, 14, 0xab9423a7, 15), (RI, 5, 0xfc93a039, 21),
   (RI, 12, 0x655b59c3, 6), (RI, 3, 0x8f0ccc92, 10), (RI, 10, 0xffeff47d, 15), (RI, 1, 0x85845dd1, 21),
   (RI, 8, 0x6fa87e4f, 6), (RI, 15, 0xfe2ce6e0, 10), (RI, 6, 0xa3014314, 15), (RI, 13, 0x4e0811a1, 21),
   (RI, 4, 0xf7537e82, 6), (RI, 11, 0xbd3af235, 10), (RI, 2, 0x2ad7d2bb, 15), (RI, 9, 0xeb86d391, 21)]"

text \<open>\<open>SET\<close> and \<open>GET\<close>: the little-endian words of a block.\<close>

definition md5_word :: "bytes \<Rightarrow> nat \<Rightarrow> u32" where
  "md5_word p n = ucast (p ! (4 * n)) OR push_bit 8 (ucast (p ! (4 * n + 1))) OR
     push_bit 16 (ucast (p ! (4 * n + 2))) OR push_bit 24 (ucast (p ! (4 * n + 3)))"

fun md5_apply :: "bytes \<Rightarrow> md5_regs \<Rightarrow> md5_round \<times> nat \<times> u32 \<times> nat \<Rightarrow> md5_regs" where
  "md5_apply p (a, b, c, d) (f, n, t, s) = (d, md5_step f a b c d (md5_word p n) t s, b, c)"

text \<open>One pass of the loop of \<open>digest_md5_body\<close>.\<close>

definition md5_block :: "md5_regs \<Rightarrow> bytes \<Rightarrow> md5_regs" where
  "md5_block h p =
     (case (h, foldl (md5_apply p) h md5_table) of
        ((sa, sb, sc, sd), (a, b, c, d)) \<Rightarrow> (a + sa, b + sb, c + sc, d + sd))"

definition digest_md5_body :: "md5_regs \<Rightarrow> bytes \<Rightarrow> u32 \<Rightarrow> (md5_regs \<times> bytes) option" where
  "digest_md5_body = md_body md5_block"

definition digest_md5_init :: "bytes \<Rightarrow> md5_regs md_ctx" where
  "digest_md5_init = md_init (0x67452301, 0xefcdab89, 0x98badcfe, 0x10325476)"

definition digest_md5_update :: "md5_regs md_ctx \<Rightarrow> bytes \<Rightarrow> u32 \<Rightarrow> md5_regs md_ctx option" where
  "digest_md5_update = md_update md5_block"

definition md5_enc_len :: "u64 \<Rightarrow> bytes" where
  "md5_enc_len n = map (\<lambda>k. ucast (drop_bit (8 * k) n)) [0, 1, 2, 3, 4, 5, 6, 7]"

definition md5_le :: "u32 \<Rightarrow> bytes" where
  "md5_le w = [ucast w, ucast (drop_bit 8 w), ucast (drop_bit 16 w), ucast (drop_bit 24 w)]"

fun md5_result :: "md5_regs \<Rightarrow> bytes" where
  "md5_result (a, b, c, d) = md5_le a @ md5_le b @ md5_le c @ md5_le d"

definition digest_md5_final :: "md5_regs md_ctx \<Rightarrow> (bytes \<times> md5_regs md_ctx) option" where
  "digest_md5_final = md_final md5_block md5_enc_len md5_result (0, 0, 0, 0)"

subsection \<open>The digest of RFC 1321\<close>

text \<open>
  The standard's own terms, independent of the code: auxiliary functions with and-not, word
  indices and rotation amounts by formula, little-endian words and lengths by arithmetic, the
  initial registers as the bytes 01 23 45 67 89 ab cd ef fe dc ba 98 76 54 32 10.
\<close>

definition rfc1321_fun :: "nat \<Rightarrow> u32 \<Rightarrow> u32 \<Rightarrow> u32 \<Rightarrow> u32" where
  "rfc1321_fun t x y z =
     (if t < 16 then (x AND y) OR (NOT x AND z)
      else if t < 32 then (x AND z) OR (y AND NOT z)
      else if t < 48 then x XOR y XOR z
      else y XOR (x OR NOT z))"

definition rfc1321_index :: "nat \<Rightarrow> nat" where
  "rfc1321_index t =
     (if t < 16 then t else if t < 32 then (5 * t + 1) mod 16
      else if t < 48 then (3 * t + 5) mod 16 else 7 * t mod 16)"

definition rfc1321_shift :: "nat \<Rightarrow> nat" where
  "rfc1321_shift t = [[7, 12, 17, 22], [5, 9, 14, 20], [4, 11, 16, 23], [6, 10, 15, 21]] ! (t div 16) ! (t mod 4)"

text \<open>The integer part of 4294967296 times \<open>abs (sin (t + 1))\<close>, as the RFC lists it.\<close>

definition rfc1321_T :: "u32 list" where
  "rfc1321_T = [
   0xd76aa478, 0xe8c7b756, 0x242070db, 0xc1bdceee, 0xf57c0faf, 0x4787c62a, 0xa8304613, 0xfd469501,
   0x698098d8, 0x8b44f7af, 0xffff5bb1, 0x895cd7be, 0x6b901122, 0xfd987193, 0xa679438e, 0x49b40821,
   0xf61e2562, 0xc040b340, 0x265e5a51, 0xe9b6c7aa, 0xd62f105d, 0x02441453, 0xd8a1e681, 0xe7d3fbc8,
   0x21e1cde6, 0xc33707d6, 0xf4d50d87, 0x455a14ed, 0xa9e3e905, 0xfcefa3f8, 0x676f02d9, 0x8d2a4c8a,
   0xfffa3942, 0x8771f681, 0x6d9d6122, 0xfde5380c, 0xa4beea44, 0x4bdecfa9, 0xf6bb4b60, 0xbebfbc70,
   0x289b7ec6, 0xeaa127fa, 0xd4ef3085, 0x04881d05, 0xd9d4d039, 0xe6db99e5, 0x1fa27cf8, 0xc4ac5665,
   0xf4292244, 0x432aff97, 0xab9423a7, 0xfc93a039, 0x655b59c3, 0x8f0ccc92, 0xffeff47d, 0x85845dd1,
   0x6fa87e4f, 0xfe2ce6e0, 0xa3014314, 0x4e0811a1, 0xf7537e82, 0xbd3af235, 0x2ad7d2bb, 0xeb86d391]"

definition rfc1321_word :: "bytes \<Rightarrow> nat \<Rightarrow> u32" where
  "rfc1321_word p k = of_nat (le_value (take 4 (drop (4 * k) p)))"

fun rfc1321_step :: "bytes \<Rightarrow> md5_regs \<Rightarrow> nat \<Rightarrow> md5_regs" where
  "rfc1321_step p (a, b, c, d) t =
     (d, b + word_rotl (rfc1321_shift t)
           (a + rfc1321_fun t b c d + rfc1321_word p (rfc1321_index t) + rfc1321_T ! t), b, c)"

definition rfc1321_block :: "md5_regs \<Rightarrow> bytes \<Rightarrow> md5_regs" where
  "rfc1321_block h p =
     (case (h, foldl (rfc1321_step p) h [0..<64]) of
        ((sa, sb, sc, sd), (a, b, c, d)) \<Rightarrow> (sa + a, sb + b, sc + c, sd + d))"

definition rfc1321_init :: md5_regs where
  "rfc1321_init =
     (of_nat (le_value [0x01, 0x23, 0x45, 0x67]), of_nat (le_value [0x89, 0xab, 0xcd, 0xef]),
      of_nat (le_value [0xfe, 0xdc, 0xba, 0x98]), of_nat (le_value [0x76, 0x54, 0x32, 0x10]))"

fun rfc1321_out :: "md5_regs \<Rightarrow> bytes" where
  "rfc1321_out (a, b, c, d) = concat (map (\<lambda>w. le_bytes 4 (unat w)) [a, b, c, d])"

definition rfc1321 :: "bytes \<Rightarrow> bytes" where
  "rfc1321 = md_spec rfc1321_block rfc1321_init (\<lambda>n. le_bytes 8 (unat n)) rfc1321_out"

interpretation md5: md_scheme md5_block "(0x67452301, 0xefcdab89, 0x98badcfe, 0x10325476)" md5_enc_len
  by unfold_locales (simp add: md5_enc_len_def)

subsection \<open>Properties\<close>

lemma md5_rol_rotl: "s < 32 \<Longrightarrow> md5_rol a s = word_rotl s a"
  unfolding md5_rol_def and_max_u32 by (rule shift_or_rotl)

text \<open>
  The MD5 step is the one of RFC 1321: the and-not free forms of \<open>F\<close> and \<open>G\<close> agree
  with the standard's definitions, the shift-and-or is a left rotation, and every rotation
  amount and word index of the table is in range.
\<close>

theorem md5_step_rfc1321:
  "md5_F x y z = (x AND y) OR (NOT x AND z) \<and> md5_G x y z = (x AND z) OR (y AND NOT z) \<and>
   list_all (\<lambda>(f, n, t, s). 0 < s \<and> s < 32 \<and> n < 16 \<and>
     md5_step f a b c d w t s = b + word_rotl s (a + md5_fun f b c d + w + t)) md5_table"
proof (intro conjI)
  show "md5_F x y z = (x AND y) OR (NOT x AND z)" unfolding md5_F_def
    by (rule bit_word_eqI) (auto simp: bit_simps)
  show "md5_G x y z = (x AND z) OR (y AND NOT z)" unfolding md5_G_def
    by (rule bit_word_eqI) (auto simp: bit_simps)
  have "list_all (\<lambda>(f, n, t, s). 0 < s \<and> s < 32 \<and> n < 16) md5_table"
    by (simp add: md5_table_def)
  then show "list_all (\<lambda>(f, n, t, s). 0 < s \<and> s < 32 \<and> n < 16 \<and>
     md5_step f a b c d w t s = b + word_rotl s (a + md5_fun f b c d + w + t)) md5_table"
    by (fastforce simp: list_all_iff md5_step_def md5_rol_rotl ac_simps)
qed

subsection \<open>The code computes the digest of the RFC\<close>

lemma md5_word_rfc1321: "length p = 64 \<Longrightarrow> k < 16 \<Longrightarrow> md5_word p k = rfc1321_word p k"
proof -
  assume l: "length p = 64" "k < 16"
  have "take 4 (drop (4 * k) p) = [p ! (4 * k), p ! (4 * k + 1), p ! (4 * k + 2), p ! (4 * k + 3)]"
    using l by (intro take4_drop) simp
  then have "rfc1321_word p k = word_of4 (p ! (4 * k)) (p ! (4 * k + 1)) (p ! (4 * k + 2)) (p ! (4 * k + 3))"
    by (simp only: rfc1321_word_def word_of4_value)
  also have "\<dots> = md5_word p k" unfolding md5_word_def word_of4_def
    by (rule bit_word_eqI) (auto simp: bit_simps dest: bit_imp_le_length)
  finally show ?thesis by simp
qed

definition rfc1321_round :: "nat \<Rightarrow> md5_round" where
  "rfc1321_round t = (if t < 16 then RF else if t < 32 then RG else if t < 48 then RH else RI)"

lemma md5_table_rfc1321:
  "md5_table = map (\<lambda>t. (rfc1321_round t, rfc1321_index t, rfc1321_T ! t, rfc1321_shift t)) [0..<64]"
  by (simp add: md5_table_def rfc1321_round_def rfc1321_index_def rfc1321_T_def rfc1321_shift_def upt_rec)

lemma md5_fun_rfc1321: "md5_fun (rfc1321_round t) = rfc1321_fun t"
proof -
  have "md5_F x y z = (x AND y) OR (NOT x AND z)" "md5_G x y z = (x AND z) OR (y AND NOT z)" for x y z
    using md5_step_rfc1321 [of x y z] by blast+
  then show ?thesis by (auto simp: fun_eq_iff rfc1321_round_def rfc1321_fun_def md5_H_def md5_I_def)
qed

lemma md5_apply_rfc1321:
  assumes "length p = 64" "t < 64"
  shows "md5_apply p r (rfc1321_round t, rfc1321_index t, rfc1321_T ! t, rfc1321_shift t) = rfc1321_step p r t"
proof (cases r)
  case (fields a b c d)
  have "rfc1321_index t < 16" by (simp add: rfc1321_index_def)
  moreover have "rfc1321_shift t < 32"
  proof -
    have "list_all (\<lambda>(f, n, t, s). s < 32) md5_table" by (simp add: md5_table_def)
    then show ?thesis using assms(2) by (simp add: md5_table_rfc1321 list_all_iff)
  qed
  ultimately show ?thesis using assms(1)
    by (simp add: fields md5_step_def md5_rol_rotl md5_word_rfc1321 md5_fun_rfc1321 ac_simps)
qed

lemma md5_block_rfc1321: "length p = 64 \<Longrightarrow> md5_block h p = rfc1321_block h p"
proof -
  assume l: "length p = 64"
  have "foldl (md5_apply p) h md5_table = foldl (rfc1321_step p) h [0..<64]"
    unfolding md5_table_rfc1321 foldl_map
    by (rule foldl_cong) (auto simp: md5_apply_rfc1321 [OF l])
  then show ?thesis by (simp add: md5_block_def rfc1321_block_def add.commute split: prod.splits)
qed

lemma md5_enc_len_rfc1321: "md5_enc_len n = le_bytes 8 (unat n)"
proof -
  have "[0..<8] = [0, 1, 2, 3, 4, 5, 6, 7 :: nat]" by (simp add: upt_rec)
  then show ?thesis by (simp only: md5_enc_len_def le_bytes_def ucast_drop_bit_byte)
qed

lemma md5_le_rfc1321: "md5_le w = le_bytes 4 (unat w)"
proof -
  have "[0..<4] = [0, 1, 2, 3 :: nat]" by (simp add: upt_rec)
  then show ?thesis
    using ucast_drop_bit_byte [of 0 w] ucast_drop_bit_byte [of 1 w] ucast_drop_bit_byte [of 2 w]
      ucast_drop_bit_byte [of 3 w] by (simp add: md5_le_def le_bytes_def)
qed

lemma md5_spec_rfc1321:
  "md_spec md5_block (0x67452301, 0xefcdab89, 0x98badcfe, 0x10325476) md5_enc_len md5_result = rfc1321"
proof -
  have enc: "md5_enc_len = (\<lambda>n. le_bytes 8 (unat n))" by (rule ext) (rule md5_enc_len_rfc1321)
  have out: "md5_result = rfc1321_out" by (rule ext) (auto simp: md5_le_rfc1321)
  have init: "(0x67452301, 0xefcdab89, 0x98badcfe, 0x10325476) = rfc1321_init"
    by (simp add: rfc1321_init_def)
  show ?thesis unfolding rfc1321_def enc out init by (rule md_spec_cong) (rule md5_block_rfc1321)
qed

text \<open>
  C5.  MD5: initialising a context, feeding a message in any sequence of pieces (each shorter
  than 4 GB) and finalising never leaves the buffers, yields the digest that RFC 1321 defines
  for the concatenation, and wipes the context.
\<close>

theorem md5_stream:
  assumes "length buffer = 64" "\<forall>x\<in>set xs. length x < 2 ^ 32"
  shows "do { ctx \<leftarrow> md_updates md5_block (digest_md5_init buffer) xs; digest_md5_final ctx } =
         Some (rfc1321 (concat xs), md_wiped (0, 0, 0, 0))"
  unfolding digest_md5_init_def digest_md5_final_def md5_spec_rfc1321 [symmetric]
  by (rule md5.stream_digest [OF assms])

theorem md5_stream_witness:
  "do { ctx \<leftarrow> md_updates md5_block (digest_md5_init (replicate 64 0)) [[0x61], [], [0x62, 0x63]];
        digest_md5_final ctx } = Some (rfc1321 [0x61, 0x62, 0x63], md_wiped (0, 0, 0, 0))"
  using md5_stream [of "replicate 64 0" "[[0x61], [], [0x62, 0x63]]"] by simp

text \<open>The test vector of the sources.\<close>

definition md5_check_block :: bytes where
  "md5_check_block = [0x31, 0x32, 0x33, 0x34, 0x35, 0x36, 0x37, 0x38, 0x39, 0x80, 0, 0, 0, 0, 0, 0,
     0, 0, 0, 0, 0, 0, 0, 0, 0, 0, 0, 0, 0, 0, 0, 0, 0, 0, 0, 0, 0, 0, 0, 0, 0, 0, 0, 0, 0, 0, 0, 0,
     0, 0, 0, 0, 0, 0, 0, 0, 72, 0, 0, 0, 0, 0, 0, 0]"

lemma md5_check_pad:
  "md_blocks (md_pad md5_enc_len [0x31, 0x32, 0x33, 0x34, 0x35, 0x36, 0x37, 0x38, 0x39]) = [md5_check_block]"
proof -
  have "md_pad md5_enc_len [0x31, 0x32, 0x33, 0x34, 0x35, 0x36, 0x37, 0x38, 0x39] = md5_check_block"
    by (simp add: md_pad_def md5_enc_len_def replicate_num md5_check_block_def)
  moreover have "length md5_check_block = 64" by (simp add: md5_check_block_def)
  ultimately show ?thesis using md_blocks_block [of md5_check_block "[]"] by simp
qed

lemma md5_step_eval:
  "md5_step f a b c d x t s =
     (md5_rol ((a + (md5_fun f b c d + x + t)) AND 0xffffffff) s + b) AND 0xffffffff"
  by (simp only: md5_step_def and_max_u32)

lemma md5_check: "rfc1321 [0x31, 0x32, 0x33, 0x34, 0x35, 0x36, 0x37, 0x38, 0x39] =
   [0x25, 0xf9, 0xe7, 0x94, 0x32, 0x3b, 0x45, 0x38, 0x85, 0xf5, 0x18, 0x1f, 0x1b, 0x62, 0x4d, 0x0b]"
  unfolding md5_spec_rfc1321 [symmetric] md_spec_def md_fold_def md5_check_pad
  by (simp add: md5_step_eval md5_F_def md5_G_def md5_H_def md5_I_def md5_rol_def
    md5_word_def md5_le_def md5_table_def md5_block_def md5_check_block_def)

end
