(* ===== verification/Sha1.thy ===== *)
theory Sha1
  imports MdStream
begin

text \<open>
  The SHA-1 digest of \<open>encoding/digest/sha1.c\<close> and its object wrapper \<open>Digest_Sha1.c\<close>.  The
  80 invocations of the macro \<open>STEP\<close> use the round function and constant of their group of
  twenty; the streaming operations are those of \<open>MdStream\<close>.
\<close>

type_synonym sha1_regs = "u32 \<times> u32 \<times> u32 \<times> u32 \<times> u32"

definition sha1_rotate :: "nat \<Rightarrow> u32 \<Rightarrow> u32" where
  "sha1_rotate bits w = push_bit bits w OR drop_bit (32 - bits) w"

definition sha1_F1 :: "u32 \<Rightarrow> u32 \<Rightarrow> u32 \<Rightarrow> u32" where
  "sha1_F1 b c d = (b AND c) OR (NOT b AND d)"

definition sha1_F2 :: "u32 \<Rightarrow> u32 \<Rightarrow> u32 \<Rightarrow> u32" where
  "sha1_F2 b c d = b XOR c XOR d"

definition sha1_F3 :: "u32 \<Rightarrow> u32 \<Rightarrow> u32 \<Rightarrow> u32" where
  "sha1_F3 b c d = (b AND c) OR (b AND d) OR (c AND d)"

definition sha1_fun :: "nat \<Rightarrow> u32 \<Rightarrow> u32 \<Rightarrow> u32 \<Rightarrow> u32" where
  "sha1_fun i = (if i < 20 then sha1_F1 else if i < 40 then sha1_F2 else if i < 60 then sha1_F3 else sha1_F2)"

definition sha1_const :: "nat \<Rightarrow> u32" where
  "sha1_const i = (if i < 20 then 0x5a827999 else if i < 40 then 0x6ed9eba1
                   else if i < 60 then 0x8f1bbcdc else 0xca62c1d6)"

text \<open>\<open>GET\<close>: the big-endian words of a block, and the 80 words of the message schedule.\<close>

definition sha1_get :: "bytes \<Rightarrow> nat \<Rightarrow> u32" where
  "sha1_get p n = ucast (p ! (n * 4 + 3)) OR push_bit 8 (ucast (p ! (n * 4 + 2))) OR
     push_bit 16 (ucast (p ! (n * 4 + 1))) OR push_bit 24 (ucast (p ! (n * 4)))"

definition sha1_extend :: "u32 list \<Rightarrow> nat \<Rightarrow> u32 list" where
  "sha1_extend ws i =
     ws @ [sha1_rotate 1 (ws ! (i - 3) XOR ws ! (i - 8) XOR ws ! (i - 14) XOR ws ! (i - 16))]"

definition sha1_words :: "bytes \<Rightarrow> u32 list" where
  "sha1_words p = foldl sha1_extend (map (sha1_get p) [0..<16]) [16..<80]"

fun sha1_step :: "nat \<Rightarrow> u32 \<Rightarrow> sha1_regs \<Rightarrow> sha1_regs" where
  "sha1_step i w (a, b, c, d, e) =
     (sha1_rotate 5 a + sha1_fun i b c d + e + w + sha1_const i, a, sha1_rotate 30 b, c, d)"

definition sha1_block :: "sha1_regs \<Rightarrow> bytes \<Rightarrow> sha1_regs" where
  "sha1_block h p =
     (let ws = sha1_words p in
      case (h, foldl (\<lambda>r i. sha1_step i (ws ! i) r) h [0..<80]) of
        ((sa, sb, sc, sd, se), (a, b, c, d, e)) \<Rightarrow> (a + sa, b + sb, c + sc, d + sd, e + se))"

definition digest_sha1_body :: "sha1_regs \<Rightarrow> bytes \<Rightarrow> u32 \<Rightarrow> (sha1_regs \<times> bytes) option" where
  "digest_sha1_body = md_body sha1_block"

definition digest_sha1_init :: "bytes \<Rightarrow> sha1_regs md_ctx" where
  "digest_sha1_init = md_init (0x67452301, 0xefcdab89, 0x98badcfe, 0x10325476, 0xc3d2e1f0)"

definition digest_sha1_update :: "sha1_regs md_ctx \<Rightarrow> bytes \<Rightarrow> u32 \<Rightarrow> sha1_regs md_ctx option" where
  "digest_sha1_update = md_update sha1_block"

definition sha1_enc_len :: "u64 \<Rightarrow> bytes" where
  "sha1_enc_len n = map (\<lambda>k. ucast (drop_bit (8 * k) n)) [7, 6, 5, 4, 3, 2, 1, 0]"

definition sha1_be :: "u32 \<Rightarrow> bytes" where
  "sha1_be w = [ucast (drop_bit 24 w), ucast (drop_bit 16 w), ucast (drop_bit 8 w), ucast w]"

fun sha1_result :: "sha1_regs \<Rightarrow> bytes" where
  "sha1_result (a, b, c, d, e) = sha1_be a @ sha1_be b @ sha1_be c @ sha1_be d @ sha1_be e"

definition digest_sha1_final :: "sha1_regs md_ctx \<Rightarrow> (bytes \<times> sha1_regs md_ctx) option" where
  "digest_sha1_final = md_final sha1_block sha1_enc_len sha1_result (0, 0, 0, 0, 0)"

text \<open>The wrapper's \<open>final\<close>: it refuses a result buffer of less than 20 bytes.\<close>

definition digest_Sha1_final :: "sha1_regs md_ctx \<Rightarrow> bytes \<Rightarrow> u32 \<Rightarrow>
    (int \<times> bytes \<times> sha1_regs md_ctx) option" where
  "digest_Sha1_final ctx result sz =
     (if sz < 20 then Some (-1, result, ctx)
      else do { (tmp, ctx') \<leftarrow> digest_sha1_final ctx;
                r \<leftarrow> st result 0 tmp;
                Some (1, r, ctx') })"

subsection \<open>The digest of FIPS 180\<close>

text \<open>
  The standard's own terms, independent of the code: the message schedule as a recursion, the
  choice, parity and majority functions with exclusive or, big-endian words and lengths by
  arithmetic.
\<close>

fun fips180_W :: "bytes \<Rightarrow> nat \<Rightarrow> u32" where
  "fips180_W p t =
     (if t < 16 then of_nat (be_value (take 4 (drop (4 * t) p)))
      else word_rotl 1 (fips180_W p (t - 3) XOR fips180_W p (t - 8) XOR fips180_W p (t - 14) XOR
                        fips180_W p (t - 16)))"

declare fips180_W.simps [simp del]

definition fips180_f :: "nat \<Rightarrow> u32 \<Rightarrow> u32 \<Rightarrow> u32 \<Rightarrow> u32" where
  "fips180_f t x y z =
     (if t < 20 then (x AND y) XOR (NOT x AND z)
      else if 40 \<le> t \<and> t < 60 then (x AND y) XOR (x AND z) XOR (y AND z)
      else x XOR y XOR z)"

definition fips180_K :: "nat \<Rightarrow> u32" where
  "fips180_K t = [0x5a827999, 0x6ed9eba1, 0x8f1bbcdc, 0xca62c1d6] ! (t div 20)"

fun fips180_step :: "bytes \<Rightarrow> sha1_regs \<Rightarrow> nat \<Rightarrow> sha1_regs" where
  "fips180_step p (a, b, c, d, e) t =
     (word_rotl 5 a + fips180_f t b c d + e + fips180_K t + fips180_W p t, a, word_rotl 30 b, c, d)"

definition fips180_block :: "sha1_regs \<Rightarrow> bytes \<Rightarrow> sha1_regs" where
  "fips180_block h p =
     (case (h, foldl (fips180_step p) h [0..<80]) of
        ((h0, h1, h2, h3, h4), (a, b, c, d, e)) \<Rightarrow> (a + h0, b + h1, c + h2, d + h3, e + h4))"

definition fips180_init :: sha1_regs where
  "fips180_init = (0x67452301, 0xefcdab89, 0x98badcfe, 0x10325476, 0xc3d2e1f0)"

fun fips180_out :: "sha1_regs \<Rightarrow> bytes" where
  "fips180_out (a, b, c, d, e) = concat (map (\<lambda>w. be_bytes 4 (unat w)) [a, b, c, d, e])"

definition fips180 :: "bytes \<Rightarrow> bytes" where
  "fips180 = md_spec fips180_block fips180_init (\<lambda>n. be_bytes 8 (unat n)) fips180_out"

interpretation sha1: md_scheme sha1_block "(0x67452301, 0xefcdab89, 0x98badcfe, 0x10325476, 0xc3d2e1f0)"
    sha1_enc_len
  by unfold_locales (simp add: sha1_enc_len_def)

subsection \<open>The code computes the digest of the standard\<close>

lemma sha1_rotate_rotl: "n < 32 \<Longrightarrow> sha1_rotate n w = word_rotl n w"
  unfolding sha1_rotate_def by (rule shift_or_rotl)

lemma sha1_get_fips180: "length p = 64 \<Longrightarrow> t < 16 \<Longrightarrow> sha1_get p t = fips180_W p t"
proof -
  assume l: "length p = 64" "t < 16"
  have "take 4 (drop (4 * t) p) = [p ! (4 * t), p ! (4 * t + 1), p ! (4 * t + 2), p ! (4 * t + 3)]"
    using l by (intro take4_drop) simp
  then have "be_value (take 4 (drop (4 * t) p)) =
      le_value [p ! (4 * t + 3), p ! (4 * t + 2), p ! (4 * t + 1), p ! (4 * t)]"
    by (simp only: be_value_def) simp
  then have "fips180_W p t = word_of4 (p ! (4 * t + 3)) (p ! (4 * t + 2)) (p ! (4 * t + 1)) (p ! (4 * t))"
    using l by (subst fips180_W.simps) (simp only: word_of4_value if_True)
  also have "\<dots> = sha1_get p t" unfolding sha1_get_def word_of4_def mult.commute [of t]
    by (rule bit_word_eqI) (auto simp: bit_simps dest: bit_imp_le_length)
  finally show ?thesis by simp
qed

lemma sha1_words_fips180_upto:
  assumes "length p = 64"
  shows "foldl sha1_extend (map (sha1_get p) [0..<16]) [16..<16 + k] = map (fips180_W p) [0..<16 + k]"
proof (induction k)
  case 0
  have "map (sha1_get p) [0..<16] = map (fips180_W p) [0..<16]"
    by (rule map_cong [OF refl]) (simp add: sha1_get_fips180 [OF assms])
  then show ?case by simp
next
  case (Suc k)
  let ?ws = "map (fips180_W p) [0..<16 + k]"
  have nth: "?ws ! (16 + k - j) = fips180_W p (16 + k - j)" if "0 < j" "j \<le> 16" for j
    using that by (subst nth_map) auto
  have fw: "fips180_W p (16 + k) = sha1_rotate 1 (?ws ! (16 + k - 3) XOR ?ws ! (16 + k - 8) XOR
      ?ws ! (16 + k - 14) XOR ?ws ! (16 + k - 16))"
    by (subst fips180_W.simps, subst (1 2 3 4) nth) (simp_all add: sha1_rotate_rotl)
  have "foldl sha1_extend (map (sha1_get p) [0..<16]) [16..<16 + Suc k] = sha1_extend ?ws (16 + k)"
    using Suc.IH upt_Suc_append [of 16 "16 + k"] by simp
  also have "\<dots> = ?ws @ [fips180_W p (16 + k)]" by (simp only: sha1_extend_def fw)
  also have "\<dots> = map (fips180_W p) [0..<16 + Suc k]"
    using upt_Suc_append [of 0 "16 + k"] by simp
  finally show ?case .
qed

lemma sha1_words_fips180: "length p = 64 \<Longrightarrow> sha1_words p = map (fips180_W p) [0..<80]"
  using sha1_words_fips180_upto [of p 64]
  by (simp only: sha1_words_def numeral_plus_numeral Num.add_num_simps)

lemma sha1_fun_fips180: "sha1_fun t x y z = fips180_f t x y z"
proof -
  have "sha1_F1 x y z = (x AND y) XOR (NOT x AND z)" unfolding sha1_F1_def
    by (rule bit_word_eqI) (auto simp: bit_simps)
  moreover have "sha1_F3 x y z = (x AND y) XOR (x AND z) XOR (y AND z)" unfolding sha1_F3_def
    by (rule bit_word_eqI) (auto simp: bit_simps)
  ultimately show ?thesis by (simp add: sha1_fun_def fips180_f_def sha1_F2_def)
qed

lemma sha1_const_fips180: "t < 80 \<Longrightarrow> sha1_const t = fips180_K t"
proof -
  assume "t < 80"
  moreover have "t div 20 = (if t < 20 then 0 else if t < 40 then 1 else if t < 60 then 2 else 3)" if "t < 80"
    using that by (auto intro: div_nat_eqI)
  ultimately show ?thesis by (simp add: sha1_const_def fips180_K_def)
qed

lemma sha1_step_fips180:
  "t < 80 \<Longrightarrow> sha1_step t (fips180_W p t) r = fips180_step p r t"
  by (cases r) (simp add: sha1_rotate_rotl sha1_fun_fips180 sha1_const_fips180 ac_simps)

text \<open>The block function, feed-forward included, is the one of the standard.\<close>

lemma sha1_block_fips180: "length p = 64 \<Longrightarrow> sha1_block h p = fips180_block h p"
proof -
  assume l: "length p = 64"
  have "foldl (\<lambda>r i. sha1_step i (map (fips180_W p) [0..<80] ! i) r) h [0..<80] =
      foldl (fips180_step p) h [0..<80]"
    by (rule foldl_cong) (simp_all add: sha1_step_fips180 del: sha1_step.simps)
  then show ?thesis by (simp add: sha1_block_def fips180_block_def sha1_words_fips180 [OF l] Let_def)
qed

lemma sha1_enc_len_fips180: "sha1_enc_len n = be_bytes 8 (unat n)"
proof -
  have "rev [0..<8] = [7, 6, 5, 4, 3, 2, 1, 0 :: nat]" by (simp add: upt_rec)
  then show ?thesis by (simp only: sha1_enc_len_def be_bytes_def le_bytes_def rev_map ucast_drop_bit_byte)
qed

lemma sha1_be_fips180: "sha1_be w = be_bytes 4 (unat w)"
proof -
  have "[0..<4] = [0, 1, 2, 3 :: nat]" by (simp add: upt_rec)
  then show ?thesis
    using ucast_drop_bit_byte [of 0 w] ucast_drop_bit_byte [of 1 w] ucast_drop_bit_byte [of 2 w]
      ucast_drop_bit_byte [of 3 w] by (simp add: sha1_be_def be_bytes_def le_bytes_def)
qed

lemma sha1_spec_fips180:
  "md_spec sha1_block (0x67452301, 0xefcdab89, 0x98badcfe, 0x10325476, 0xc3d2e1f0) sha1_enc_len sha1_result =
   fips180"
proof -
  have enc: "sha1_enc_len = (\<lambda>n. be_bytes 8 (unat n))" by (rule ext) (rule sha1_enc_len_fips180)
  have out: "sha1_result = fips180_out" by (rule ext) (auto simp: sha1_be_fips180)
  show ?thesis unfolding fips180_def enc out fips180_init_def
    by (rule md_spec_cong) (rule sha1_block_fips180)
qed

lemma length_fips180: "length (fips180 m) = 20"
proof -
  have "length (fips180_out r) = 20" for r by (cases r) (simp add: be_bytes_def le_bytes_def)
  then show ?thesis by (simp add: fips180_def md_spec_def)
qed

text \<open>
  C6.  SHA-1 through the object interface: initialising, feeding a message in any sequence of
  pieces (each shorter than 4 GB) and finalising into a buffer of at least 20 bytes returns 1,
  writes the digest that FIPS 180 defines for the concatenation over the first 20 bytes and
  wipes the context; a declared size below 20 is refused with -1 and nothing changes.
\<close>

theorem sha1_stream:
  assumes "length buffer = 64" "\<forall>x\<in>set xs. length x < 2 ^ 32" "length res = unat sz"
  shows "\<exists>ctx. md_updates sha1_block (digest_sha1_init buffer) xs = Some ctx \<and>
    digest_Sha1_final ctx res sz =
      Some (if sz < 20 then (-1, res, ctx)
            else (1, fips180 (concat xs) @ drop 20 res, md_wiped (0, 0, 0, 0, 0)))"
proof -
  from sha1.updates_rep [OF sha1.init_rep [OF assms(1)] assms(2)] obtain ctx where
    ctx: "md_updates sha1_block (digest_sha1_init buffer) xs = Some ctx"
    "md_rep sha1_block (0x67452301, 0xefcdab89, 0x98badcfe, 0x10325476, 0xc3d2e1f0) ctx (concat xs)"
    by (auto simp: digest_sha1_init_def)
  have fin: "digest_sha1_final ctx = Some (fips180 (concat xs), md_wiped (0, 0, 0, 0, 0))"
    unfolding digest_sha1_final_def sha1_spec_fips180 [symmetric] by (rule sha1.final_rep [OF ctx(2)])
  have "20 \<le> length res" if "\<not> sz < 20" using that assms(3) by (simp add: word_less_nat_alt)
  then have "digest_Sha1_final ctx res sz = Some (if sz < 20 then (-1, res, ctx)
      else (1, fips180 (concat xs) @ drop 20 res, md_wiped (0, 0, 0, 0, 0)))"
    using fin st_nat0 [of "fips180 (concat xs)" res] length_fips180 [of "concat xs"]
    by (simp add: digest_Sha1_final_def)
  with ctx(1) show ?thesis by blast
qed

theorem sha1_stream_witness:
  "\<exists>ctx. md_updates sha1_block (digest_sha1_init (replicate 64 0)) [[0x61], [0x62, 0x63]] = Some ctx \<and>
     digest_Sha1_final ctx (replicate 20 0) 20 =
       Some (1, fips180 [0x61, 0x62, 0x63], md_wiped (0, 0, 0, 0, 0))"
  using sha1_stream [of "replicate 64 0" "[[0x61], [0x62, 0x63]]" "replicate 20 0" 20] by simp

text \<open>The test vector of the sources.\<close>

definition sha1_check_block :: bytes where
  "sha1_check_block = [0x31, 0x32, 0x33, 0x34, 0x35, 0x36, 0x37, 0x38, 0x39, 0x80, 0, 0, 0, 0, 0, 0,
     0, 0, 0, 0, 0, 0, 0, 0, 0, 0, 0, 0, 0, 0, 0, 0, 0, 0, 0, 0, 0, 0, 0, 0, 0, 0, 0, 0, 0, 0, 0, 0,
     0, 0, 0, 0, 0, 0, 0, 0, 0, 0, 0, 0, 0, 0, 0, 72]"

lemma sha1_check_pad:
  "md_blocks (md_pad sha1_enc_len [0x31, 0x32, 0x33, 0x34, 0x35, 0x36, 0x37, 0x38, 0x39]) = [sha1_check_block]"
proof -
  have "md_pad sha1_enc_len [0x31, 0x32, 0x33, 0x34, 0x35, 0x36, 0x37, 0x38, 0x39] = sha1_check_block"
    by (simp add: md_pad_def sha1_enc_len_def replicate_num sha1_check_block_def)
  moreover have "length sha1_check_block = 64" by (simp add: sha1_check_block_def)
  ultimately show ?thesis using md_blocks_block [of sha1_check_block "[]"] by simp
qed

definition sha1_check_words :: "u32 list" where
  "sha1_check_words = [
     0x31323334, 0x35363738, 0x39800000, 0x00000000, 0x00000000, 0x00000000, 0x00000000, 0x00000000,
     0x00000000, 0x00000000, 0x00000000, 0x00000000, 0x00000000, 0x00000000, 0x00000000, 0x00000048,
     0x11646668, 0x6a6c6e70, 0x73000090, 0x22c8ccd0, 0xd4d8dce0, 0xe6000120, 0x459199a0, 0xa9b1b951,
     0xeec8ce91, 0x5ffbefa0, 0xb5637383, 0x98000483, 0x16466681, 0xa6c6e5d6, 0x99ebf697, 0xab3763d1,
     0x54d49b7e, 0x1d69772f, 0x73199845, 0x1038a41a, 0x34cca9dd, 0x34dd8bc5, 0x45140b78, 0xd36339fa,
     0x77455b52, 0x3f0d2ee9, 0x06bf697a, 0xb3763c3a, 0x08d82e45, 0x7f26c970, 0x76bab556, 0xdbca0682,
     0x5f5d2232, 0x89cc9114, 0x3540bcc1, 0x919c63af, 0xe1983be9, 0x5bb18f1d, 0xaaef0da7, 0xac7854f1,
     0xea2d3e0e, 0x5eb11cc1, 0x2ebf5e1f, 0x6fc351d7, 0x82977877, 0xa3c43de1, 0xd9979629, 0xf9d37620,
     0x47e93a38, 0x3eecf0a7, 0x07695e2e, 0xc40f0ebb, 0xee197d3d, 0xa6c97046, 0xbab55676, 0xca06865b,
     0x4b6454de, 0x6a57d78f, 0xc28ffc3a, 0x86d86ca6, 0xbe9c89d9, 0x7ca38f7a, 0x44272d83, 0x674b120b]"

lemma sha1_rotate_eval: "sha1_rotate n w = (push_bit n w OR drop_bit (32 - n) w) AND 0xffffffff"
  by (simp only: sha1_rotate_def and_max_u32)

lemma sha1_check_schedule: "sha1_words sha1_check_block = sha1_check_words"
  by (simp add: sha1_words_def sha1_check_words_def sha1_extend_def sha1_get_def sha1_check_block_def
      sha1_rotate_eval upt_rec)

lemma sha1_step_eval:
  "sha1_step i w (a, b, c, d, e) =
     ((sha1_rotate 5 a + sha1_fun i b c d + e + w + sha1_const i) AND 0xffffffff, a, sha1_rotate 30 b, c, d)"
  by (simp only: sha1_step.simps and_max_u32)

lemma foldl_nth_enumerate:
  "foldl (\<lambda>r i. f i (ws ! i) r) h [0..<length ws] = foldl (\<lambda>r (i, w). f i w r) h (enumerate 0 ws)"
proof -
  have "enumerate 0 ws = map (\<lambda>i. (i, ws ! i)) [0..<length ws]"
    by (rule nth_equalityI) (simp_all add: nth_enumerate_eq)
  then show ?thesis by (simp add: foldl_map)
qed

lemma sha1_check_block_value:
  "sha1_block (0x67452301, 0xefcdab89, 0x98badcfe, 0x10325476, 0xc3d2e1f0) sha1_check_block =
   (0xf7c3bc1d, 0x808e0473, 0x2adf6799, 0x65ccc34c, 0xa7ae3441)"
proof -
  have "length sha1_check_words = 80" by (simp add: sha1_check_words_def)
  then have e: "foldl (\<lambda>r i. sha1_step i (sha1_check_words ! i) r) h [0..<80] =
      foldl (\<lambda>r (i, w). sha1_step i w r) h (enumerate 0 sha1_check_words)" for h
    using foldl_nth_enumerate [of sha1_step sha1_check_words h] by simp
  show ?thesis
    unfolding sha1_block_def sha1_check_schedule Let_def
    unfolding e
    unfolding sha1_check_words_def
    by (simp add: sha1_step_eval sha1_rotate_eval sha1_fun_def
      sha1_const_def sha1_F1_def sha1_F2_def sha1_F3_def del: sha1_step.simps)
qed

lemma sha1_check: "fips180 [0x31, 0x32, 0x33, 0x34, 0x35, 0x36, 0x37, 0x38, 0x39] =
  [0xf7, 0xc3, 0xbc, 0x1d, 0x80, 0x8e, 0x04, 0x73, 0x2a, 0xdf, 0x67, 0x99, 0x65, 0xcc, 0xc3, 0x4c,
   0xa7, 0xae, 0x34, 0x41]"
  unfolding sha1_spec_fips180 [symmetric] md_spec_def md_fold_def sha1_check_pad
  by (simp add: sha1_check_block_value sha1_be_def)

end
