(* ===== verification/Base64.thy ===== *)
theory Base64
  imports Prelude
begin

text \<open>
  The Base64 codec of \<open>encoding/base64/base64.c\<close>.  Source and destination are memory objects
  that may be larger than the lengths passed; every byte access is checked, so the reads
  past the end of the input and the writes past the end of the output show up as \<open>None\<close>.
  The result of a call is the returned status, the destination and the length stored back.
\<close>

definition base64_table :: bytes where
  "base64_table = map of_char ''ABCDEFGHIJKLMNOPQRSTUVWXYZabcdefghijklmnopqrstuvwxyz0123456789+/''"

definition b64_char :: "u8 \<Rightarrow> u8 option" where
  "b64_char x = ld1 base64_table (uint x)"

text \<open>One group of the encoding loop at source index \<open>j\<close>: the four output characters.\<close>

definition b64_group :: "bytes \<Rightarrow> int \<Rightarrow> int \<Rightarrow> bytes option" where
  "b64_group src src_len j =
     do { t \<leftarrow> (if j + 2 > src_len then Some 0 else map_option (drop_bit 4) (ld1 src (j + 1)));
          s0 \<leftarrow> ld1 src j;
          c0 \<leftarrow> b64_char (drop_bit 2 s0);
          c1 \<leftarrow> b64_char (push_bit 4 (s0 AND 0x3) OR t);
          s1 \<leftarrow> ld1 src (j + 1);
          s2 \<leftarrow> ld1 src (j + 2);
          c2 \<leftarrow> b64_char (push_bit 2 (s1 AND 0xf) OR drop_bit 6 s2);
          c3 \<leftarrow> b64_char (s2 AND 0x3f);
          Some [c0, c1, c2, c3] }"

function b64_enc_loop :: "bytes \<Rightarrow> int \<Rightarrow> int \<Rightarrow> bytes \<Rightarrow> int \<Rightarrow> int \<Rightarrow> (int \<times> bytes) option" where
  "b64_enc_loop src src_len len dst i j =
     (if i < len - 2 then
        do { g \<leftarrow> b64_group src src_len j;
             dst' \<leftarrow> st dst i g;
             b64_enc_loop src src_len len dst' (i + 4) (j + 3) }
      else Some (i, dst))"
  by auto
termination
  by (relation "measure (\<lambda>(src, sl, len, dst, i, j). nat (len - i))") auto

declare b64_enc_loop.simps [simp del]

definition b64_enc_len :: "int \<Rightarrow> int" where
  "b64_enc_len src_len = (if src_len mod 3 = 0 then src_len div 3 * 4 else (src_len div 3 + 1) * 4)"

definition base64_encode :: "bytes \<Rightarrow> int \<Rightarrow> bytes \<Rightarrow> int \<Rightarrow> (int \<times> bytes \<times> int) option" where
  "base64_encode src src_len dst dst_len =
     (let len = b64_enc_len src_len in
      if len > dst_len then Some (-1, dst, dst_len)
      else do { (i, d) \<leftarrow> b64_enc_loop src src_len len dst 0 0;
                d' \<leftarrow> (if src_len mod 3 = 1 then
                         do { d1 \<leftarrow> st1 d (i - 2) 0x3d; st1 d1 (i - 1) 0x3d }
                       else if src_len mod 3 = 2 then st1 d (i - 1) 0x3d
                       else Some d);
                Some (0, d', len) })"

definition b64_dtable :: "int list" where
  "b64_dtable = [
     0, 0, 0, 0, 0, 0, 0, 0, 0, 0, 0, 0, 0, 0, 0, 0, 0, 0, 0, 0,
     0, 0, 0, 0, 0, 0, 0, 0, 0, 0, 0, 0, 0, 0, 0, 0, 0, 0, 0, 0,
     0, 0, 0, 62, 0, 0, 0, 63, 52, 53, 54, 55, 56, 57, 58, 59, 60, 61, 0, 0,
     0, 0, 0, 0, 0, 0, 1, 2, 3, 4, 5, 6, 7, 8, 9, 10, 11, 12, 13, 14,
     15, 16, 17, 18, 19, 20, 21, 22, 23, 24, 25, 0, 0, 0, 0, 0, 0, 26, 27, 28,
     29, 30, 31, 32, 33, 34, 35, 36, 37, 38, 39, 40, 41, 42, 43, 44, 45, 46, 47, 48,
     49, 50, 51]"

definition b64_val :: "u8 \<Rightarrow> u8 option" where
  "b64_val c = map_option of_int (ld1 b64_dtable (uint c))"

text \<open>\<open>strstr\<close> on the C string at \<open>src\<close>; without a terminating zero the scan leaves the object.\<close>

fun has_infix :: "'a list \<Rightarrow> 'a list \<Rightarrow> bool" where
  "has_infix nd [] = (nd = [])"
| "has_infix nd (x # xs) = (take (length nd) (x # xs) = nd \<or> has_infix nd xs)"

definition c_strstr :: "bytes \<Rightarrow> bytes \<Rightarrow> bool option" where
  "c_strstr src nd = (if 0 \<in> set src then Some (has_infix nd (takeWhile (\<lambda>c. c \<noteq> 0) src)) else None)"

definition b64_ungroup :: "bytes \<Rightarrow> int \<Rightarrow> bytes option" where
  "b64_ungroup src i =
     do { a \<leftarrow> ld1 src i \<bind> b64_val;
          b \<leftarrow> ld1 src (i + 1) \<bind> b64_val;
          c \<leftarrow> ld1 src (i + 2) \<bind> b64_val;
          d \<leftarrow> ld1 src (i + 3) \<bind> b64_val;
          Some [push_bit 2 a OR drop_bit 4 b, push_bit 4 b OR drop_bit 2 c, push_bit 6 c OR d] }"

function b64_dec_loop :: "bytes \<Rightarrow> int \<Rightarrow> bytes \<Rightarrow> int \<Rightarrow> int \<Rightarrow> bytes option" where
  "b64_dec_loop src src_len dst i j =
     (if i < src_len - 2 then
        do { g \<leftarrow> b64_ungroup src i;
             dst' \<leftarrow> st dst j g;
             b64_dec_loop src src_len dst' (i + 4) (j + 3) }
      else Some dst)"
  by auto
termination
  by (relation "measure (\<lambda>(src, sl, dst, i, j). nat (sl - i))") auto

declare b64_dec_loop.simps [simp del]

definition base64_decode :: "bytes \<Rightarrow> int \<Rightarrow> bytes \<Rightarrow> int \<Rightarrow> (int \<times> bytes \<times> int) option" where
  "base64_decode src src_len dst dst_len =
     do { two \<leftarrow> c_strstr src [0x3d, 0x3d];
          one \<leftarrow> c_strstr src [0x3d];
          let len = (if two then src_len div 4 * 3 - 2
                     else if one then src_len div 4 * 3 - 1 else src_len div 4 * 3) in
          if len > dst_len then Some (-1, dst, dst_len)
          else do { d \<leftarrow> b64_dec_loop src src_len dst 0 0; Some (0, d, len) } }"

subsection \<open>The specification\<close>

text \<open>The encoding of RFC 4648, by recursion on groups of three bytes.\<close>

definition b64_chr :: "u8 \<Rightarrow> u8" where
  "b64_chr x = base64_table ! unat x"

definition enc3 :: "u8 \<Rightarrow> u8 \<Rightarrow> u8 \<Rightarrow> bytes" where
  "enc3 a b c = [b64_chr (drop_bit 2 a), b64_chr (push_bit 4 (a AND 0x3) OR drop_bit 4 b),
                 b64_chr (push_bit 2 (b AND 0xf) OR drop_bit 6 c), b64_chr (c AND 0x3f)]"

fun b64_spec :: "bytes \<Rightarrow> bytes" where
  "b64_spec [] = []"
| "b64_spec [a] = [b64_chr (drop_bit 2 a), b64_chr (push_bit 4 (a AND 0x3)), 0x3d, 0x3d]"
| "b64_spec [a, b] = [b64_chr (drop_bit 2 a), b64_chr (push_bit 4 (a AND 0x3) OR drop_bit 4 b),
                      b64_chr (push_bit 2 (b AND 0xf)), 0x3d]"
| "b64_spec (a # b # c # xs) = enc3 a b c @ b64_spec xs"

lemma length_base64_table: "length base64_table = 64"
  by (simp add: base64_table_def)

lemma b64_char_eq: "unat x < 64 \<Longrightarrow> b64_char x = Some (b64_chr x)"
  by (simp add: b64_char_def b64_chr_def ld1_uint length_base64_table)

lemma b64_spec_append: "length xs = 3 * k \<Longrightarrow> b64_spec (xs @ ys) = b64_spec xs @ b64_spec ys"
proof (induction xs arbitrary: k rule: b64_spec.induct)
  case (2 a)
  then have False by simp
  then show ?case ..
next
  case (3 a b)
  then have False by simp presburger
  then show ?case ..
next
  case (4 a b c xs)
  then show ?case by (cases k) auto
qed simp

lemma length_enc3 [simp]: "length (enc3 a b c) = 4"
  by (simp add: enc3_def)

text \<open>Sextets are below 64.\<close>

lemma sextet_less:
  fixes a b :: u8
  shows "unat (drop_bit 2 a) < 64" "unat (push_bit 4 (a AND 0x3) OR drop_bit 4 b) < 64"
    "unat (push_bit 4 (a AND 0x3)) < 64" "unat (push_bit 2 (a AND 0xf)) < 64"
    "unat (push_bit 2 (a AND 0xf) OR drop_bit 6 b) < 64" "unat (a AND 0x3f) < 64"
proof -
  have sx: "unat x < 64" if "\<not> bit x 6" "\<not> bit x 7" for x :: u8
  proof -
    have "x AND mask 6 = x"
    proof (rule bit_word_eqI)
      fix n assume "n < LENGTH(8)"
      then have "n < 6 \<or> n = 6 \<or> n = 7" by auto
      with that show "bit (x AND mask 6) n = bit x n" by (auto simp: bit_simps)
    qed
    then show ?thesis using unat_and_mask_less [of x 6] by simp
  qed
  show "unat (drop_bit 2 a) < 64" "unat (push_bit 4 (a AND 0x3) OR drop_bit 4 b) < 64"
    "unat (push_bit 4 (a AND 0x3)) < 64" "unat (push_bit 2 (a AND 0xf)) < 64"
    "unat (push_bit 2 (a AND 0xf) OR drop_bit 6 b) < 64" "unat (a AND 0x3f) < 64"
    by (rule sx; simp add: bit_simps; auto dest!: bit_imp_le_length)+
qed

lemmas b64_char_sextets = sextet_less [THEN b64_char_eq] sextet_less [THEN b64_char_eq, simplified]

subsection \<open>The encoder\<close>

lemma b64_enc_loop_eq:
  assumes g: "\<And>m. k \<le> m \<Longrightarrow> m < n \<Longrightarrow> b64_group src sl (int (3 * m)) = Some (g m) \<and> length (g m) = 4"
    and "k \<le> n" "4 * n \<le> length dst"
  shows "b64_enc_loop src sl (int (4 * n)) dst (int (4 * k)) (int (3 * k)) =
    Some (int (4 * n), take (4 * k) dst @ concat (map g [k..<n]) @ drop (4 * n) dst)"
  using assms
proof (induction "n - k" arbitrary: k dst)
  case 0
  then have "k = n" by simp
  then show ?case by (subst b64_enc_loop.simps) simp
next
  case (Suc d)
  then have kn: "k < n" by simp
  let ?dst = "take (4 * k) dst @ g k @ drop (4 * k + 4) dst"
  have gk: "b64_group src sl (int (3 * k)) = Some (g k)" "length (g k) = 4"
    using Suc.prems(1) [of k] kn by auto
  have st: "st dst (int (4 * k)) (g k) = Some ?dst"
    using st_nat [of "4 * k" "g k" dst] gk(2) kn Suc.prems(3) by simp
  have i: "int (4 * k) < int (4 * n) - 2" "int (4 * k) + 4 = int (4 * Suc k)"
    "int (3 * k) + 3 = int (3 * Suc k)" using kn by auto
  have len: "length ?dst = length dst" using gk(2) kn Suc.prems(3) by simp
  have "b64_enc_loop src sl (int (4 * n)) ?dst (int (4 * Suc k)) (int (3 * Suc k)) =
    Some (int (4 * n), take (4 * Suc k) ?dst @ concat (map g [Suc k..<n]) @ drop (4 * n) ?dst)"
    using Suc.hyps(1) [of "Suc k" ?dst] Suc.hyps(2) Suc.prems kn len by simp
  moreover have "take (4 * Suc k) ?dst = take (4 * k) dst @ g k"
    using gk(2) kn Suc.prems(3) by (simp add: min_def)
  moreover have "drop (4 * n) ?dst = drop (4 * n) dst"
    using gk(2) kn Suc.prems(3) by (simp add: min_def)
  moreover have "[k..<n] = k # [Suc k..<n]" using kn by (rule upt_conv_Cons)
  ultimately have "b64_enc_loop src sl (int (4 * n)) ?dst (int (4 * Suc k)) (int (3 * Suc k)) =
    Some (int (4 * n), take (4 * k) dst @ concat (map g [k..<n]) @ drop (4 * n) dst)"
    by (simp only: append_assoc list.map concat.simps)
  then show ?case
    by (subst b64_enc_loop.simps, unfold if_P [OF i(1)] i(2,3) gk(1) bind_Some_eq st)
qed

lemma b64_group_full:
  assumes "3 * m + 3 \<le> length src" "int (3 * m + 3) \<le> sl"
  shows "b64_group src sl (int (3 * m)) =
     Some (enc3 (src ! (3 * m)) (src ! (3 * m + 1)) (src ! (3 * m + 2)))"
proof -
  have i: "int (3 * m) + 1 = int (3 * m + 1)" "int (3 * m) + 2 = int (3 * m + 2)" by simp_all
  show ?thesis
    unfolding b64_group_def i enc3_def using assms
    by (simp only: ld1_nat) (simp add: b64_char_sextets del: of_nat_add of_nat_mult of_nat_Suc)
qed

lemma b64_spec_concat:
  "3 * m \<le> length src \<Longrightarrow> b64_spec (take (3 * m) src) =
   concat (map (\<lambda>k. enc3 (src ! (3 * k)) (src ! (3 * k + 1)) (src ! (3 * k + 2))) [0..<m])"
proof (induction m)
  case (Suc m)
  have "take (3 * Suc m) src = take (3 * m) src @ [src ! (3 * m), src ! (3 * m + 1), src ! (3 * m + 2)]"
    using Suc.prems take_plus3 [of "3 * m" src] by (simp add: add.commute)
  moreover have "length (take (3 * m) src) = 3 * m" using Suc.prems by simp
  ultimately show ?case using Suc by (simp add: b64_spec_append)
qed simp

text \<open>The last, incomplete group: what lies behind the input is read, and for two remaining
  bytes its two top bits enter the output.\<close>

lemma b64_group_tail:
  assumes "3 * m + 3 \<le> length src" "sl = int (3 * m + r)" "r = 1 \<or> r = 2"
  shows "b64_group src sl (int (3 * m)) =
    Some [b64_chr (drop_bit 2 (src ! (3 * m))),
          b64_chr (push_bit 4 (src ! (3 * m) AND 0x3) OR (if r = 1 then 0 else drop_bit 4 (src ! (3 * m + 1)))),
          b64_chr (push_bit 2 (src ! (3 * m + 1) AND 0xf) OR drop_bit 6 (src ! (3 * m + 2))),
          b64_chr (src ! (3 * m + 2) AND 0x3f)]"
proof -
  have i: "int (3 * m) + 1 = int (3 * m + 1)" "int (3 * m) + 2 = int (3 * m + 2)" by simp_all
  have c: "int (3 * m + 2) > sl \<longleftrightarrow> r = 1" using assms(2,3) by auto
  show ?thesis
    unfolding b64_group_def i c using assms
    by (simp only: ld1_nat) (auto simp add: b64_char_sextets simp del: of_nat_add of_nat_mult of_nat_Suc)
qed

lemma b64_enc_len_nat: "b64_enc_len (int n) = int (4 * ((n + 2) div 3))"
proof -
  have "int n mod 3 = int (n mod 3)" "int n div 3 = int (n div 3)" by (simp_all add: zmod_int zdiv_int)
  moreover have "(n + 2) div 3 = (if n mod 3 = 0 then n div 3 else n div 3 + 1)" by presburger
  ultimately show ?thesis by (simp add: b64_enc_len_def)
qed

lemma list_update_last:
  "length xs = n + 4 \<Longrightarrow> drop n xs = [a, b, c, d] \<Longrightarrow>
   xs = take n xs @ [a, b, c, d]"
  by (metis append_take_drop_id)

definition b64_groups :: "bytes \<Rightarrow> nat \<Rightarrow> bytes" where
  "b64_groups src m =
     concat (map (\<lambda>k. enc3 (src ! (3 * k)) (src ! (3 * k + 1)) (src ! (3 * k + 2))) [0..<m])"

lemma length_b64_groups [simp]: "length (b64_groups src m) = 4 * m"
  by (induction m) (simp_all add: b64_groups_def)

lemma b64_enc_loop_tail:
  assumes "3 * m + 3 \<le> length src" "sl = int (3 * m + r)" "r = 1 \<or> r = 2" "4 * Suc m \<le> length dst"
    and g: "b64_group src sl (int (3 * m)) = Some g" "length g = 4"
  shows "b64_enc_loop src sl (int (4 * Suc m)) dst 0 0 =
    Some (int (4 * Suc m), b64_groups src m @ g @ drop (4 * Suc m) dst)"
proof -
  let ?g = "\<lambda>k. if k < m then enc3 (src ! (3 * k)) (src ! (3 * k + 1)) (src ! (3 * k + 2)) else g"
  have "b64_group src sl (int (3 * k)) = Some (?g k) \<and> length (?g k) = 4" if "k < Suc m" for k
  proof (cases "k < m")
    case True
    then have "3 * k + 3 \<le> length src" "int (3 * k + 3) \<le> sl" using assms(1,2) by simp_all
    from b64_group_full [OF this] True show ?thesis by (simp only: if_True length_enc3 simp_thms)
  next
    case False
    then have "k = m" using that by simp
    with g show ?thesis by simp
  qed
  then have "b64_enc_loop src sl (int (4 * Suc m)) dst (int (4 * 0)) (int (3 * 0)) =
    Some (int (4 * Suc m), take (4 * 0) dst @ concat (map ?g [0..<Suc m]) @ drop (4 * Suc m) dst)"
    by (intro b64_enc_loop_eq) (use assms(4) in auto)
  moreover have "concat (map ?g [0..<Suc m]) = b64_groups src m @ g"
  proof -
    have e: "map ?g [0..<m] = map (\<lambda>k. enc3 (src ! (3 * k)) (src ! (3 * k + 1)) (src ! (3 * k + 2))) [0..<m]"
      by (rule map_cong) auto
    show ?thesis unfolding upt_Suc_append [OF le0] map_append concat_append e b64_groups_def by simp
  qed
  ultimately show ?thesis by simp
qed

lemma st1_end:
  assumes "length pre + length g = n" "k < length g" "int i = int n - int (length g) + int k"
  shows "st1 (pre @ g @ post) (int i) v = Some (pre @ g[k := v] @ post)"
proof -
  have "i = length pre + k" using assms by linarith
  then show ?thesis using assms(2) by (simp only: st1_nat) (simp add: list_update_append)
qed

lemma encode_by_loop:
  assumes "int L \<le> dl" "b64_enc_len sl = int L"
    and "b64_enc_loop src sl (int L) dst 0 0 = Some (int L, d)"
    and "(if sl mod 3 = 1 then do { d1 \<leftarrow> st1 d (int L - 2) 0x3d; st1 d1 (int L - 1) 0x3d }
          else if sl mod 3 = 2 then st1 d (int L - 1) 0x3d else Some d) = Some d'"
  shows "base64_encode src sl dst dl = Some (0, d', int L)"
  using assms by (simp add: base64_encode_def)

text \<open>
  The encoder equals the specification when the object holds the bytes that the last group
  reads behind the input and, for a remainder of two, the byte behind the input is below 64.
\<close>

lemma base64_encode_eq:
  assumes len: "n \<le> length src"
    and slack: "n mod 3 \<noteq> 0 \<longrightarrow> n div 3 * 3 + 3 \<le> length src"
    and clean: "n mod 3 = 2 \<longrightarrow> drop_bit 6 (src ! n) = 0"
    and room: "4 * ((n + 2) div 3) \<le> length dst" "int (4 * ((n + 2) div 3)) \<le> dl"
  shows "base64_encode src (int n) dst dl =
    Some (0, b64_spec (take n src) @ drop (4 * ((n + 2) div 3)) dst, int (4 * ((n + 2) div 3)))"
proof -
  define m r where "m = n div 3" and "r = n mod 3"
  have n: "n = 3 * m + r" by (simp add: m_def r_def)
  have sp: "b64_spec (take (3 * m) src) = b64_groups src m"
    using len n by (simp add: b64_spec_concat b64_groups_def)
  have rm: "int n mod 3 = int r" by (simp add: r_def zmod_int)
  have l3: "length (take (3 * m) src) = 3 * m" using len n by simp
  have "r = 0 \<or> r = 1 \<or> r = 2" by (auto simp: r_def)
  then consider "r = 0" | "r = 1" | "r = 2" by blast
  then show ?thesis
  proof cases
    case 1
    then have k: "(n + 2) div 3 = m" using n by simp
    have "b64_enc_loop src (int n) (int (4 * m)) dst (int (4 * 0)) (int (3 * 0)) =
      Some (int (4 * m), take (4 * 0) dst @
        concat (map (\<lambda>k. enc3 (src ! (3 * k)) (src ! (3 * k + 1)) (src ! (3 * k + 2))) [0..<m]) @
        drop (4 * m) dst)"
    proof (rule b64_enc_loop_eq)
      fix q assume "q < m"
      then have "3 * q + 3 \<le> length src" "int (3 * q + 3) \<le> int n" using len n 1 by simp_all
      from b64_group_full [OF this] show "b64_group src (int n) (int (3 * q)) =
          Some (enc3 (src ! (3 * q)) (src ! (3 * q + 1)) (src ! (3 * q + 2))) \<and>
        length (enc3 (src ! (3 * q)) (src ! (3 * q + 1)) (src ! (3 * q + 2))) = 4"
        by (simp only: length_enc3 simp_thms)
    qed (use room k in auto)
    then have loop: "b64_enc_loop src (int n) (int (4 * m)) dst 0 0 =
        Some (int (4 * m), b64_groups src m @ drop (4 * m) dst)" by (simp add: b64_groups_def)
    have "b64_spec (take n src) = b64_groups src m" using sp n 1 by simp
    with room k 1 loop show ?thesis
      unfolding k by (intro encode_by_loop) (simp_all only: b64_enc_len_nat k rm, simp_all)
  next
    case 2
    then have k: "(n + 2) div 3 = Suc m" using n by simp
    let ?a = "src ! (3 * m)"
    let ?g = "[b64_chr (drop_bit 2 ?a), b64_chr (push_bit 4 (?a AND 0x3)),
       b64_chr (push_bit 2 (src ! (3 * m + 1) AND 0xf) OR drop_bit 6 (src ! (3 * m + 2))),
       b64_chr (src ! (3 * m + 2) AND 0x3f)]"
    have sl: "3 * m + 3 \<le> length src" using slack 2 by (simp add: m_def r_def mult.commute)
    have g: "b64_group src (int n) (int (3 * m)) = Some ?g"
      using b64_group_tail [OF sl _ _, of "int n" r] n 2 by simp
    have loop: "b64_enc_loop src (int n) (int (4 * Suc m)) dst 0 0 =
        Some (int (4 * Suc m), b64_groups src m @ ?g @ drop (4 * Suc m) dst)"
      by (rule b64_enc_loop_tail [OF sl _ _ _ g, of r]) (use n 2 room k in auto)
    have s1: "st1 (b64_groups src m @ ?g @ drop (4 * Suc m) dst) (int (4 * m + 2)) 0x3d =
        Some (b64_groups src m @ ?g[2 := 0x3d] @ drop (4 * Suc m) dst)"
      by (rule st1_end [of _ _ "4 * Suc m"]) auto
    have s2: "st1 (b64_groups src m @ ?g[2 := 0x3d] @ drop (4 * Suc m) dst) (int (4 * m + 3)) 0x3d =
        Some (b64_groups src m @ ?g[2 := 0x3d, 3 := 0x3d] @ drop (4 * Suc m) dst)"
      by (rule st1_end [of _ _ "4 * Suc m"]) auto
    have i: "int (4 * Suc m) - 2 = int (4 * m + 2)" "int (4 * Suc m) - 1 = int (4 * m + 3)" by auto
    have tk: "take n src = take (3 * m) src @ [?a]" using n 2 sl by (simp add: take_Suc_conv_app_nth)
    have "b64_spec (take n src) = b64_groups src m @ ?g[2 := 0x3d, 3 := 0x3d]"
      unfolding tk using b64_spec_append [OF l3] sp by simp
    then have sp': "b64_spec (take n src) @ drop (4 * Suc m) dst =
        b64_groups src m @ ?g[2 := 0x3d, 3 := 0x3d] @ drop (4 * Suc m) dst" by simp
    have r1: "int n mod 3 = 1" using rm 2 by simp
    show ?thesis
      unfolding k
    proof (rule encode_by_loop)
      show "b64_enc_loop src (int n) (int (4 * Suc m)) dst 0 0 =
        Some (int (4 * Suc m), b64_groups src m @ ?g @ drop (4 * Suc m) dst)" by (rule loop)
    qed (use room k in \<open>simp_all only: b64_enc_len_nat r1 i s1 s2 bind_Some_eq sp' simp_thms if_True\<close>)
  next
    case 3
    then have k: "(n + 2) div 3 = Suc m" using n by simp
    let ?a = "src ! (3 * m)" and ?b = "src ! (3 * m + 1)"
    let ?g = "[b64_chr (drop_bit 2 ?a), b64_chr (push_bit 4 (?a AND 0x3) OR drop_bit 4 ?b),
       b64_chr (push_bit 2 (?b AND 0xf)), b64_chr (src ! (3 * m + 2) AND 0x3f)]"
    have sl: "3 * m + 3 \<le> length src" using slack 3 by (simp add: m_def r_def mult.commute)
    have "n mod 3 = 2" using 3 r_def by simp
    moreover have "n = 3 * m + 2" using n 3 by simp
    ultimately have "n mod 3 = 2" "n = 3 * m + 2" by blast+
    then have "drop_bit 6 (src ! (3 * m + 2)) = 0" using clean by metis
    then have g: "b64_group src (int n) (int (3 * m)) = Some ?g"
      using b64_group_tail [OF sl _ _, of "int n" r] n 3 by simp
    have loop: "b64_enc_loop src (int n) (int (4 * Suc m)) dst 0 0 =
        Some (int (4 * Suc m), b64_groups src m @ ?g @ drop (4 * Suc m) dst)"
      by (rule b64_enc_loop_tail [OF sl _ _ _ g, of r]) (use n 3 room k in auto)
    have s2: "st1 (b64_groups src m @ ?g @ drop (4 * Suc m) dst) (int (4 * m + 3)) 0x3d =
        Some (b64_groups src m @ ?g[3 := 0x3d] @ drop (4 * Suc m) dst)"
      by (rule st1_end [of _ _ "4 * Suc m"]) auto
    have i: "int (4 * Suc m) - 1 = int (4 * m + 3)" by auto
    have tk: "take n src = take (3 * m) src @ [?a, ?b]" using n 3 sl by (simp add: take_Suc_conv_app_nth)
    have "b64_spec (take n src) = b64_groups src m @ ?g[3 := 0x3d]"
      unfolding tk using b64_spec_append [OF l3] sp by simp
    then have sp': "b64_spec (take n src) @ drop (4 * Suc m) dst =
        b64_groups src m @ ?g[3 := 0x3d] @ drop (4 * Suc m) dst" by simp
    have r1: "(int n mod 3 = 1) = False" "(int n mod 3 = 2) = True" using rm 3 by simp_all
    show ?thesis
      unfolding k
    proof (rule encode_by_loop)
      show "b64_enc_loop src (int n) (int (4 * Suc m)) dst 0 0 =
        Some (int (4 * Suc m), b64_groups src m @ ?g @ drop (4 * Suc m) dst)" by (rule loop)
    qed (use room k in \<open>simp_all only: b64_enc_len_nat r1 i s2 sp' simp_thms if_True if_False\<close>)
  qed
qed

subsection \<open>The decoder\<close>

lemma b64_dtable_inverse:
  "list_all (\<lambda>i. unat (base64_table ! i) < 123 \<and> b64_dtable ! unat (base64_table ! i) = int i \<and>
                 base64_table ! i \<noteq> 0x3d \<and> base64_table ! i \<noteq> 0) [0..<64]"
  by (simp add: base64_table_def b64_dtable_def upt_rec)

lemma length_b64_dtable: "length b64_dtable = 123"
  by (simp add: b64_dtable_def)

lemma b64_chr_props:
  assumes "unat x < 64"
  shows "b64_val (b64_chr x) = Some x" "b64_chr x \<noteq> 0x3d" "b64_chr x \<noteq> 0"
proof -
  have i: "unat (base64_table ! unat x) < 123" "b64_dtable ! unat (base64_table ! unat x) = int (unat x)"
    "base64_table ! unat x \<noteq> 0x3d" "base64_table ! unat x \<noteq> 0"
    using b64_dtable_inverse assms by (auto simp: list_all_iff simp del: of_nat_unat)
  then show "b64_val (b64_chr x) = Some x"
    by (simp add: b64_val_def b64_chr_def ld1_uint length_b64_dtable)
  show "b64_chr x \<noteq> 0x3d" "b64_chr x \<noteq> 0" using i(3,4) by (auto simp: b64_chr_def)
qed

lemma b64_val_pad: "b64_val 0x3d = Some 0"
  by (simp add: b64_val_def ld1_def b64_dtable_def)

lemmas b64_sextet_props = sextet_less [THEN b64_chr_props(1)] sextet_less [THEN b64_chr_props(1), simplified]
lemmas b64_sextet_neq = sextet_less [THEN b64_chr_props(2)] sextet_less [THEN b64_chr_props(3)]
  sextet_less [THEN b64_chr_props(2), simplified] sextet_less [THEN b64_chr_props(3), simplified]

text \<open>Recombining the sextets.\<close>

lemma dec3_enc3:
  fixes a b c :: u8
  shows "push_bit 2 (drop_bit 2 a) OR drop_bit 4 (push_bit 4 (a AND 0x3) OR drop_bit 4 b) = a"
    "push_bit 4 (push_bit 4 (a AND 0x3) OR drop_bit 4 b) OR
     drop_bit 2 (push_bit 2 (b AND 0xf) OR drop_bit 6 c) = b"
    "push_bit 6 (push_bit 2 (b AND 0xf) OR drop_bit 6 c) OR (c AND 0x3f) = c"
proof -
  have lt8: "n < 8 \<longleftrightarrow> n = 0 \<or> n = 1 \<or> n = 2 \<or> n = 3 \<or> n = 4 \<or> n = 5 \<or> n = 6 \<or> n = 7" for n :: nat
    by auto
  have m: "(0x3 :: u8) = mask 2" "(0xf :: u8) = mask 4" "(0x3f :: u8) = mask 6"
    by (simp_all add: mask_eq_exp_minus_1)
  show "push_bit 2 (drop_bit 2 a) OR drop_bit 4 (push_bit 4 (a AND 0x3) OR drop_bit 4 b) = a"
    "push_bit 4 (push_bit 4 (a AND 0x3) OR drop_bit 4 b) OR
     drop_bit 2 (push_bit 2 (b AND 0xf) OR drop_bit 6 c) = b"
    "push_bit 6 (push_bit 2 (b AND 0xf) OR drop_bit 6 c) OR (c AND 0x3f) = c"
    unfolding m
    by (rule bit_word_eqI; auto simp: bit_simps lt8 dest: bit_imp_le_length; simp add: numeral_2_eq_2 numeral_3_eq_3)+
qed

fun b64_unspec :: "bytes \<Rightarrow> bytes option" where
  "b64_unspec (w # x # y # z # t) =
     do { a \<leftarrow> b64_val w; b \<leftarrow> b64_val x; c \<leftarrow> b64_val y; d \<leftarrow> b64_val z;
          r \<leftarrow> b64_unspec t;
          Some ([push_bit 2 a OR drop_bit 4 b, push_bit 4 b OR drop_bit 2 c, push_bit 6 c OR d] @ r) }"
| "b64_unspec t = (if t = [] then Some [] else None)"

lemma b64_dec_loop_eq:
  assumes "b64_unspec t = Some ys" "length pre = 4 * k" "3 * k + length ys \<le> length dst"
  shows "b64_dec_loop (pre @ t @ post) (int (4 * k + length t)) dst (int (4 * k)) (int (3 * k)) =
     Some (take (3 * k) dst @ ys @ drop (3 * k + length ys) dst)"
  using assms
proof (induction t arbitrary: ys pre k dst rule: b64_unspec.induct)
  case (1 w x y z t)
  from "1.prems"(1) obtain a b c d r where v: "b64_val w = Some a" "b64_val x = Some b"
    "b64_val y = Some c" "b64_val z = Some d" "b64_unspec t = Some r"
    and ys: "ys = [push_bit 2 a OR drop_bit 4 b, push_bit 4 b OR drop_bit 2 c, push_bit 6 c OR d] @ r"
    by (auto simp: bind_eq_Some_iff)
  let ?g = "[push_bit 2 a OR drop_bit 4 b, push_bit 4 b OR drop_bit 2 c, push_bit 6 c OR d]"
  let ?src = "pre @ (w # x # y # z # t) @ post"
  let ?dst = "take (3 * k) dst @ ?g @ drop (3 * k + 3) dst"
  have nth: "ld1 ?src (int (4 * k)) = Some w" "ld1 ?src (int (4 * k) + 1) = Some x"
    "ld1 ?src (int (4 * k) + 2) = Some y" "ld1 ?src (int (4 * k) + 3) = Some z"
    using "1.prems"(2) ld1_nat [of ?src "4 * k"] ld1_nat [of ?src "4 * k + 1"]
      ld1_nat [of ?src "4 * k + 2"] ld1_nat [of ?src "4 * k + 3"]
    by (simp_all add: nth_append add.commute)
  have g: "b64_ungroup ?src (int (4 * k)) = Some ?g"
    unfolding b64_ungroup_def nth by (simp add: v)
  have room: "3 * k + 3 \<le> length dst" using "1.prems"(3) ys by simp
  have st: "st dst (int (3 * k)) ?g = Some ?dst"
    using st_nat [of "3 * k" ?g dst] room by (simp add: numeral_3_eq_3)
  have i: "int (4 * k) < int (4 * k + length (w # x # y # z # t)) - 2"
    "int (4 * k) + 4 = int (4 * Suc k)" "int (3 * k) + 3 = int (3 * Suc k)"
    "4 * k + length (w # x # y # z # t) = 4 * Suc k + length t" by simp_all
  have src: "?src = (pre @ [w, x, y, z]) @ t @ post" by simp
  have "b64_dec_loop ?src (int (4 * Suc k + length t)) ?dst (int (4 * Suc k)) (int (3 * Suc k)) =
      Some (take (3 * Suc k) ?dst @ r @ drop (3 * Suc k + length r) ?dst)"
    unfolding src by (rule "1.IH" [OF v]) (use "1.prems"(2,3) room ys in auto)
  moreover have "take (3 * Suc k) ?dst = take (3 * k) dst @ ?g" using room by (simp add: min_def)
  moreover have "drop (3 * Suc k + length r) ?dst = drop (3 * k + length ys) dst"
    using room ys by (simp add: min_def numeral_3_eq_3 add.commute add.left_commute)
  ultimately have "b64_dec_loop ?src (int (4 * Suc k + length t)) ?dst (int (4 * Suc k)) (int (3 * Suc k)) =
      Some (take (3 * k) dst @ ys @ drop (3 * k + length ys) dst)"
    by (simp only: ys append_assoc)
  then show ?case
    by (subst b64_dec_loop.simps, unfold g bind_Some_eq st i(2,3,4), unfold if_P [OF i(1) [unfolded i(4)]])
qed (simp_all add: b64_dec_loop.simps)

lemma b64_unspec_spec: "\<exists>pad. b64_unspec (b64_spec xs) = Some (xs @ pad) \<and>
   length (xs @ pad) = 3 * ((length xs + 2) div 3)"
proof (induction xs rule: b64_spec.induct)
  case (2 a)
  then show ?case using dec3_enc3(1) [of a 0] by (simp add: b64_sextet_props b64_val_pad)
next
  case (3 a b)
  then show ?case using dec3_enc3(1,2) [of a b] dec3_enc3(2) [of a b 0]
    by (simp add: b64_sextet_props b64_val_pad)
next
  case (4 a b c xs)
  then obtain pad where pad: "b64_unspec (b64_spec xs) = Some (xs @ pad)"
    "length (xs @ pad) = 3 * ((length xs + 2) div 3)" by blast
  have "(length (a # b # c # xs) + 2) div 3 = Suc ((length xs + 2) div 3)" by simp
  then have "b64_unspec (b64_spec (a # b # c # xs)) = Some ((a # b # c # xs) @ pad) \<and>
      length ((a # b # c # xs) @ pad) = 3 * ((length (a # b # c # xs) + 2) div 3)"
    using pad dec3_enc3(1) [of a b] dec3_enc3(2) [of a b c] dec3_enc3(3) [of b c]
    by (simp add: enc3_def b64_sextet_props)
  then show ?case by blast
qed simp

lemma b64_spec_strstr:
  "has_infix [0x3d] (b64_spec xs) = (length xs mod 3 \<noteq> 0) \<and>
   has_infix [0x3d, 0x3d] (b64_spec xs) = (length xs mod 3 = 1) \<and> 0 \<notin> set (b64_spec xs)"
proof (induction xs rule: b64_spec.induct)
  case (4 a b c xs)
  have "length (a # b # c # xs) = length xs + 3" by simp
  then have "length (a # b # c # xs) mod 3 = length xs mod 3" by (simp only: mod_add_self2)
  then show ?case using 4 by (simp add: enc3_def b64_sextet_neq)
qed (simp_all add: b64_sextet_neq)

lemma length_b64_spec: "length (b64_spec xs) = 4 * ((length xs + 2) div 3)"
proof (induction xs rule: b64_spec.induct)
  case (4 a b c xs)
  have "length (a # b # c # xs) + 2 = length xs + 2 + 3" by simp
  then have "(length (a # b # c # xs) + 2) div 3 = Suc ((length xs + 2) div 3)" by simp
  with 4 show ?case by simp
qed simp_all

lemma base64_decode_spec:
  assumes "3 * ((length xs + 2) div 3) \<le> length dst" "int (length xs) \<le> dl"
  shows "\<exists>d. base64_decode (b64_spec xs @ 0 # post) (int (length (b64_spec xs))) dst dl =
              Some (0, d, int (length xs)) \<and> take (length xs) d = xs"
proof -
  let ?t = "b64_spec xs" and ?q = "(length xs + 2) div 3"
  obtain pad where pad: "b64_unspec ?t = Some (xs @ pad)" "length (xs @ pad) = 3 * ?q"
    using b64_unspec_spec by blast
  note ss = b64_spec_strstr [of xs]
  have tw: "takeWhile (\<lambda>c. c \<noteq> 0) (?t @ 0 # post) = ?t"
    using ss by (subst takeWhile_append2) auto
  have two: "c_strstr (?t @ 0 # post) [0x3d, 0x3d] = Some (length xs mod 3 = 1)"
    and one: "c_strstr (?t @ 0 # post) [0x3d] = Some (length xs mod 3 \<noteq> 0)"
    using ss by (simp_all add: c_strstr_def tw)
  have loop: "b64_dec_loop (?t @ 0 # post) (int (length ?t)) dst 0 0 =
      Some ((xs @ pad) @ drop (3 * ?q) dst)"
    using b64_dec_loop_eq [OF pad(1), of "[]" 0 dst "0 # post"] pad(2) assms(1) by simp
  have len: "(if length xs mod 3 = 1 then int (length ?t) div 4 * 3 - 2
      else if length xs mod 3 \<noteq> 0 then int (length ?t) div 4 * 3 - 1
      else int (length ?t) div 4 * 3) = int (length xs)"
  proof -
    have "int (length ?t) div 4 = int ?q" unfolding length_b64_spec by simp
    moreover have "3 * ?q = length xs + (if length xs mod 3 = 1 then 2 else if length xs mod 3 \<noteq> 0 then 1 else 0)"
      by presburger
    ultimately show ?thesis by (auto split: if_splits)
  qed
  have "\<not> int (length xs) > dl" using assms(2) by simp
  then show ?thesis
    unfolding base64_decode_def two one bind_Some_eq Let_def len loop by simp
qed

subsection \<open>Properties\<close>



text \<open>
  C27.  Base64 round trip: a byte string that is followed by two zero bytes is encoded into a zero-initialised
  buffer that is longer than the text, and the text written there is decoded into a buffer with room for
  whole groups of three: that gives the byte string back, with its length.  The decoder writes whole
  groups, so that a buffer of just the length of the string would be overrun.
\<close>

theorem base64_roundtrip:
  assumes "4 * ((length xs + 2) div 3) < length dst" "int (length dst) \<le> dl" "set dst \<subseteq> {0}"
    and "3 * ((length xs + 2) div 3) \<le> length out" "int (length xs) \<le> ol"
  shows "\<exists>t d. base64_encode (xs @ [0, 0]) (int (length xs)) dst dl =
             Some (0, t, int (4 * ((length xs + 2) div 3))) \<and>
           base64_decode t (int (4 * ((length xs + 2) div 3))) out ol = Some (0, d, int (length xs)) \<and>
           take (length xs) d = xs"
proof -
  let ?l = "4 * ((length xs + 2) div 3)" and ?src = "xs @ [0, 0]"
  let ?t = "b64_spec xs @ drop ?l dst"
  have enc: "base64_encode ?src (int (length xs)) dst dl = Some (0, ?t, int ?l)"
  proof -
    have "length xs mod 3 \<noteq> 0 \<longrightarrow> length xs div 3 * 3 + 3 \<le> length ?src"
      using div_mult_mod_eq [of "length xs" 3] by (simp; presburger)
    moreover have "length xs mod 3 = 2 \<longrightarrow> drop_bit 6 (?src ! length xs) = 0" by (simp add: nth_append)
    ultimately show ?thesis
      using base64_encode_eq [of "length xs" ?src dst dl] assms(1,2) by simp
  qed
  obtain z post where z: "drop ?l dst = z # post" using assms(1) by (cases "drop ?l dst") auto
  then have "z = 0" using assms(3) by (metis in_set_dropD list.set_intros(1) singletonD subsetD)
  with z have "?t = b64_spec xs @ 0 # post" by simp
  with base64_decode_spec [OF assms(4,5), of post] enc show ?thesis by (simp only: length_b64_spec) blast
qed

theorem base64_roundtrip_witness:
  "\<exists>t d. base64_encode ([1, 2, 3, 4] @ [0, 0]) (int (length [1, 2, 3, 4 :: u8])) (replicate 9 0) 9 =
             Some (0, t, int (4 * ((length [1, 2, 3, 4 :: u8] + 2) div 3))) \<and>
           base64_decode t (int (4 * ((length [1, 2, 3, 4 :: u8] + 2) div 3))) (replicate 6 0) 6 =
             Some (0, d, int (length [1, 2, 3, 4 :: u8])) \<and>
           take (length [1, 2, 3, 4 :: u8]) d = [1, 2, 3, 4]"
  by (rule base64_roundtrip) simp_all

text \<open>
  The encoder reads behind its input: for a remainder of two the top bits of the byte
  after the input are merged into the last character, so the output differs from RFC 4648
  whenever that byte is 64 or more and the merged bits are not already set; in an object of exactly
  the input's size the access is out of bounds.
\<close>

theorem base64_encode_reads_behind:
  "base64_encode [a, b, c] 2 [0, 0, 0, 0] 4 =
     Some (0, [b64_chr (drop_bit 2 a), b64_chr (push_bit 4 (a AND 0x3) OR drop_bit 4 b),
               b64_chr (push_bit 2 (b AND 0xf) OR drop_bit 6 c), 0x3d], 4) \<and>
   base64_encode [a, b] 2 [0, 0, 0, 0] 4 = None \<and> base64_encode [a] 1 [0, 0, 0, 0] 4 = None"
  by (simp add: base64_encode_def b64_enc_len_def b64_enc_loop.simps b64_group_def ld1_def
      b64_char_sextets st_def st1_def)

text \<open>The decoder writes whole groups of three, past a destination of exactly the decoded length.\<close>

lemma base64_decode_overruns:
  "base64_decode [0x51, 0x51, 0x3d, 0x3d, 0] 4 [0] 1 = None"
  by (simp add: base64_decode_def c_strstr_def b64_dec_loop.simps b64_ungroup_def ld1_def b64_val_def
      b64_dtable_def st_def)

end
