(* ===== verification/Aes.thy ===== *)
theory Aes
  imports Prelude
begin

text \<open>
  The block cipher AES of \<open>crypto/skcipher/Aes.c\<close>.  A column of the state is a little-endian
  32-bit word, the state a list of four columns.  The tables are the sources', the round
  loops are unrolled by two as in the code and check that the key array is not overrun; the
  "data independent" XOR of S-box entries is kept and proved to vanish.
\<close>

subsection \<open>Tables and column operations\<close>

definition aes_sbox_rows :: "u8 list list" where
  "aes_sbox_rows = [
   [0x63, 0x7c, 0x77, 0x7b, 0xf2, 0x6b, 0x6f, 0xc5, 0x30, 0x01, 0x67, 0x2b, 0xfe, 0xd7, 0xab, 0x76],
   [0xca, 0x82, 0xc9, 0x7d, 0xfa, 0x59, 0x47, 0xf0, 0xad, 0xd4, 0xa2, 0xaf, 0x9c, 0xa4, 0x72, 0xc0],
   [0xb7, 0xfd, 0x93, 0x26, 0x36, 0x3f, 0xf7, 0xcc, 0x34, 0xa5, 0xe5, 0xf1, 0x71, 0xd8, 0x31, 0x15],
   [0x04, 0xc7, 0x23, 0xc3, 0x18, 0x96, 0x05, 0x9a, 0x07, 0x12, 0x80, 0xe2, 0xeb, 0x27, 0xb2, 0x75],
   [0x09, 0x83, 0x2c, 0x1a, 0x1b, 0x6e, 0x5a, 0xa0, 0x52, 0x3b, 0xd6, 0xb3, 0x29, 0xe3, 0x2f, 0x84],
   [0x53, 0xd1, 0x00, 0xed, 0x20, 0xfc, 0xb1, 0x5b, 0x6a, 0xcb, 0xbe, 0x39, 0x4a, 0x4c, 0x58, 0xcf],
   [0xd0, 0xef, 0xaa, 0xfb, 0x43, 0x4d, 0x33, 0x85, 0x45, 0xf9, 0x02, 0x7f, 0x50, 0x3c, 0x9f, 0xa8],
   [0x51, 0xa3, 0x40, 0x8f, 0x92, 0x9d, 0x38, 0xf5, 0xbc, 0xb6, 0xda, 0x21, 0x10, 0xff, 0xf3, 0xd2],
   [0xcd, 0x0c, 0x13, 0xec, 0x5f, 0x97, 0x44, 0x17, 0xc4, 0xa7, 0x7e, 0x3d, 0x64, 0x5d, 0x19, 0x73],
   [0x60, 0x81, 0x4f, 0xdc, 0x22, 0x2a, 0x90, 0x88, 0x46, 0xee, 0xb8, 0x14, 0xde, 0x5e, 0x0b, 0xdb],
   [0xe0, 0x32, 0x3a, 0x0a, 0x49, 0x06, 0x24, 0x5c, 0xc2, 0xd3, 0xac, 0x62, 0x91, 0x95, 0xe4, 0x79],
   [0xe7, 0xc8, 0x37, 0x6d, 0x8d, 0xd5, 0x4e, 0xa9, 0x6c, 0x56, 0xf4, 0xea, 0x65, 0x7a, 0xae, 0x08],
   [0xba, 0x78, 0x25, 0x2e, 0x1c, 0xa6, 0xb4, 0xc6, 0xe8, 0xdd, 0x74, 0x1f, 0x4b, 0xbd, 0x8b, 0x8a],
   [0x70, 0x3e, 0xb5, 0x66, 0x48, 0x03, 0xf6, 0x0e, 0x61, 0x35, 0x57, 0xb9, 0x86, 0xc1, 0x1d, 0x9e],
   [0xe1, 0xf8, 0x98, 0x11, 0x69, 0xd9, 0x8e, 0x94, 0x9b, 0x1e, 0x87, 0xe9, 0xce, 0x55, 0x28, 0xdf],
   [0x8c, 0xa1, 0x89, 0x0d, 0xbf, 0xe6, 0x42, 0x68, 0x41, 0x99, 0x2d, 0x0f, 0xb0, 0x54, 0xbb, 0x16]]"

definition aes_inv_sbox_rows :: "u8 list list" where
  "aes_inv_sbox_rows = [
   [0x52, 0x09, 0x6a, 0xd5, 0x30, 0x36, 0xa5, 0x38, 0xbf, 0x40, 0xa3, 0x9e, 0x81, 0xf3, 0xd7, 0xfb],
   [0x7c, 0xe3, 0x39, 0x82, 0x9b, 0x2f, 0xff, 0x87, 0x34, 0x8e, 0x43, 0x44, 0xc4, 0xde, 0xe9, 0xcb],
   [0x54, 0x7b, 0x94, 0x32, 0xa6, 0xc2, 0x23, 0x3d, 0xee, 0x4c, 0x95, 0x0b, 0x42, 0xfa, 0xc3, 0x4e],
   [0x08, 0x2e, 0xa1, 0x66, 0x28, 0xd9, 0x24, 0xb2, 0x76, 0x5b, 0xa2, 0x49, 0x6d, 0x8b, 0xd1, 0x25],
   [0x72, 0xf8, 0xf6, 0x64, 0x86, 0x68, 0x98, 0x16, 0xd4, 0xa4, 0x5c, 0xcc, 0x5d, 0x65, 0xb6, 0x92],
   [0x6c, 0x70, 0x48, 0x50, 0xfd, 0xed, 0xb9, 0xda, 0x5e, 0x15, 0x46, 0x57, 0xa7, 0x8d, 0x9d, 0x84],
   [0x90, 0xd8, 0xab, 0x00, 0x8c, 0xbc, 0xd3, 0x0a, 0xf7, 0xe4, 0x58, 0x05, 0xb8, 0xb3, 0x45, 0x06],
   [0xd0, 0x2c, 0x1e, 0x8f, 0xca, 0x3f, 0x0f, 0x02, 0xc1, 0xaf, 0xbd, 0x03, 0x01, 0x13, 0x8a, 0x6b],
   [0x3a, 0x91, 0x11, 0x41, 0x4f, 0x67, 0xdc, 0xea, 0x97, 0xf2, 0xcf, 0xce, 0xf0, 0xb4, 0xe6, 0x73],
   [0x96, 0xac, 0x74, 0x22, 0xe7, 0xad, 0x35, 0x85, 0xe2, 0xf9, 0x37, 0xe8, 0x1c, 0x75, 0xdf, 0x6e],
   [0x47, 0xf1, 0x1a, 0x71, 0x1d, 0x29, 0xc5, 0x89, 0x6f, 0xb7, 0x62, 0x0e, 0xaa, 0x18, 0xbe, 0x1b],
   [0xfc, 0x56, 0x3e, 0x4b, 0xc6, 0xd2, 0x79, 0x20, 0x9a, 0xdb, 0xc0, 0xfe, 0x78, 0xcd, 0x5a, 0xf4],
   [0x1f, 0xdd, 0xa8, 0x33, 0x88, 0x07, 0xc7, 0x31, 0xb1, 0x12, 0x10, 0x59, 0x27, 0x80, 0xec, 0x5f],
   [0x60, 0x51, 0x7f, 0xa9, 0x19, 0xb5, 0x4a, 0x0d, 0x2d, 0xe5, 0x7a, 0x9f, 0x93, 0xc9, 0x9c, 0xef],
   [0xa0, 0xe0, 0x3b, 0x4d, 0xae, 0x2a, 0xf5, 0xb0, 0xc8, 0xeb, 0xbb, 0x3c, 0x83, 0x53, 0x99, 0x61],
   [0x17, 0x2b, 0x04, 0x7e, 0xba, 0x77, 0xd6, 0x26, 0xe1, 0x69, 0x14, 0x63, 0x55, 0x21, 0x0c, 0x7d]]"

definition aes_sbox :: "u8 list" where
  "aes_sbox = concat aes_sbox_rows"

definition aes_inv_sbox :: "u8 list" where
  "aes_inv_sbox = concat aes_inv_sbox_rows"

definition mul_by_x :: "u32 \<Rightarrow> u32" where
  "mul_by_x w = (let x = w AND 0x7f7f7f7f; y = w AND 0x80808080 in
     push_bit 1 x XOR drop_bit 7 y * 0x1b)"

definition mul_by_x2 :: "u32 \<Rightarrow> u32" where
  "mul_by_x2 w = (let x = w AND 0x3f3f3f3f; y = w AND 0x80808080; z = w AND 0x40404040 in
     push_bit 2 x XOR drop_bit 7 y * 0x36 XOR drop_bit 6 z * 0x1b)"

definition ror32 :: "u32 \<Rightarrow> nat \<Rightarrow> u32" where
  "ror32 w shift = drop_bit (shift mod 32) w OR push_bit ((32 - shift mod 32) mod 32) w"

definition mix_columns :: "u32 \<Rightarrow> u32" where
  "mix_columns x = (let y = mul_by_x x XOR ror32 x 16 in y XOR ror32 (x XOR y) 8)"

definition inv_mix_columns :: "u32 \<Rightarrow> u32" where
  "inv_mix_columns x = (let y = mul_by_x2 x in mix_columns (x XOR y XOR ror32 y 16))"

definition sbox_at :: "u8 list \<Rightarrow> u32 \<Rightarrow> u32" where
  "sbox_at tab i = ucast (tab ! unat i)"

definition subshift :: "u32 list \<Rightarrow> nat \<Rightarrow> u32" where
  "subshift inp pos =
     sbox_at aes_sbox (inp ! pos AND 0xff) XOR
     push_bit 8 (sbox_at aes_sbox (drop_bit 8 (inp ! ((pos + 1) mod 4)) AND 0xff)) XOR
     push_bit 16 (sbox_at aes_sbox (drop_bit 16 (inp ! ((pos + 2) mod 4)) AND 0xff)) XOR
     push_bit 24 (sbox_at aes_sbox (drop_bit 24 (inp ! ((pos + 3) mod 4)) AND 0xff))"

definition inv_subshift :: "u32 list \<Rightarrow> nat \<Rightarrow> u32" where
  "inv_subshift inp pos =
     sbox_at aes_inv_sbox (inp ! pos AND 0xff) XOR
     push_bit 8 (sbox_at aes_inv_sbox (drop_bit 8 (inp ! ((pos + 3) mod 4)) AND 0xff)) XOR
     push_bit 16 (sbox_at aes_inv_sbox (drop_bit 16 (inp ! ((pos + 2) mod 4)) AND 0xff)) XOR
     push_bit 24 (sbox_at aes_inv_sbox (drop_bit 24 (inp ! ((pos + 1) mod 4)) AND 0xff))"

definition subw :: "u32 \<Rightarrow> u32" where
  "subw w =
     sbox_at aes_sbox (w AND 0xff) XOR
     push_bit 8 (sbox_at aes_sbox (drop_bit 8 w AND 0xff)) XOR
     push_bit 16 (sbox_at aes_sbox (drop_bit 16 w AND 0xff)) XOR
     push_bit 24 (sbox_at aes_sbox (drop_bit 24 w AND 0xff))"

text \<open>\<open>get_unaligned_u32\<close> and \<open>put_unaligned_u32\<close> on a little-endian machine.\<close>

definition get_unaligned_u32 :: "bytes \<Rightarrow> nat \<Rightarrow> u32" where
  "get_unaligned_u32 p i = ucast (p ! i) XOR push_bit 8 (ucast (p ! (i + 1))) XOR
     push_bit 16 (ucast (p ! (i + 2))) XOR push_bit 24 (ucast (p ! (i + 3)))"

definition put_unaligned_u32 :: "u32 \<Rightarrow> bytes" where
  "put_unaligned_u32 w = [ucast w, ucast (drop_bit 8 w), ucast (drop_bit 16 w), ucast (drop_bit 24 w)]"

subsection \<open>Key schedule\<close>

record aes_ctx =
  key_enc :: "u32 list"
  key_dec :: "u32 list"
  key_length :: nat

definition aes_check_keylen :: "nat \<Rightarrow> int" where
  "aes_check_keylen keylen = (if keylen = 16 \<or> keylen = 24 \<or> keylen = 32 then 0 else -1)"

text \<open>
  Every access to the arrays of the context is checked against their ends.  \<open>next_key\<close> computes \<open>rko[k]\<close> from the key before it and
  \<open>rki[k]\<close>.
\<close>

definition next_key :: "(u32 \<Rightarrow> u32) \<Rightarrow> u32 list \<Rightarrow> nat \<Rightarrow> nat \<Rightarrow> nat \<Rightarrow> u32 list option" where
  "next_key f ks rko rki k =
     do { a \<leftarrow> ld1 ks (int rko + int k - 1); b \<leftarrow> ld1 ks (int (rki + k)); st1 ks (int (rko + k)) (f a XOR b) }"

text \<open>One pass of the expansion loop: \<open>rki\<close> is the array index of the current key, \<open>rko\<close> of the
  next one.  The flag tells whether the loop ends with \<open>break\<close>.\<close>

definition aes_expand_step :: "nat \<Rightarrow> nat \<Rightarrow> u32 \<Rightarrow> u32 list \<Rightarrow> (u32 list \<times> bool) option" where
  "aes_expand_step key_len i rc ks =
     (let kwords = key_len div 4; rki = i * kwords; rko = rki + kwords in
      do { a \<leftarrow> ld1 ks (int (rki + kwords) - 1);
           b \<leftarrow> ld1 ks (int rki);
           ks \<leftarrow> st1 ks (int rko) (ror32 (subw a) 8 XOR rc XOR b);
           ks \<leftarrow> next_key (\<lambda>w. w) ks rko rki 1;
           ks \<leftarrow> next_key (\<lambda>w. w) ks rko rki 2;
           ks \<leftarrow> next_key (\<lambda>w. w) ks rko rki 3;
           if key_len = 24 then
             if i \<ge> 7 then Some (ks, True)
             else
               do { ks \<leftarrow> next_key (\<lambda>w. w) ks rko rki 4;
                    ks \<leftarrow> next_key (\<lambda>w. w) ks rko rki 5;
                    Some (ks, False) }
           else if key_len = 32 then
             if i \<ge> 6 then Some (ks, True)
             else
               do { ks \<leftarrow> next_key subw ks rko rki 4;
                    ks \<leftarrow> next_key (\<lambda>w. w) ks rko rki 5;
                    ks \<leftarrow> next_key (\<lambda>w. w) ks rko rki 6;
                    ks \<leftarrow> next_key (\<lambda>w. w) ks rko rki 7;
                    Some (ks, False) }
           else Some (ks, False) })"

function aes_expand_loop :: "nat \<Rightarrow> nat \<Rightarrow> u32 \<Rightarrow> u32 list \<Rightarrow> u32 list option" where
  "aes_expand_loop key_len i rc ks =
     (if i < 10 then
        do { (ks', stop) \<leftarrow> aes_expand_step key_len i rc ks;
             if stop then Some ks' else aes_expand_loop key_len (i + 1) (mul_by_x rc) ks' }
      else Some ks)"
  by auto
termination
  by (relation "measure (\<lambda>(l, i, rc, ks). 10 - i)") auto

declare aes_expand_loop.simps [simp del]

text \<open>Four keys of \<open>enc\<close> from index \<open>j\<close> go to \<open>dec\<close> from index \<open>i\<close>.\<close>

fun copy_keys :: "(u32 \<Rightarrow> u32) \<Rightarrow> u32 list \<Rightarrow> nat \<Rightarrow> nat list \<Rightarrow> nat \<Rightarrow> u32 list \<Rightarrow> u32 list option" where
  "copy_keys f enc j [] i dec = Some dec"
| "copy_keys f enc j (e # es) i dec =
     do { w \<leftarrow> ld1 enc (int (j + e)); dec' \<leftarrow> st1 dec (int (i + e)) (f w); copy_keys f enc j es i dec' }"

text \<open>The decryption keys: the round keys in reverse order, \<open>inv_mix_columns\<close> on the inner ones.\<close>

function aes_dec_keys_loop :: "u32 list \<Rightarrow> nat \<Rightarrow> nat \<Rightarrow> u32 list \<Rightarrow> (nat \<times> u32 list) option" where
  "aes_dec_keys_loop enc i j dec =
     (if j > 0 then do { dec' \<leftarrow> copy_keys inv_mix_columns enc j [0, 1, 2, 3] i dec; aes_dec_keys_loop enc (i + 4) (j - 4) dec' }
      else Some (i, dec))"
  by auto
termination
  by (relation "measure (\<lambda>(enc, i, j, dec). j)") auto

declare aes_dec_keys_loop.simps [simp del]

definition aes_dec_keys :: "nat \<Rightarrow> u32 list \<Rightarrow> u32 list \<Rightarrow> u32 list option" where
  "aes_dec_keys key_len enc dec =
     do { dec1 \<leftarrow> copy_keys (\<lambda>w. w) enc (key_len + 24) [0, 1, 2, 3] 0 dec;
          (i, dec2) \<leftarrow> aes_dec_keys_loop enc 4 (key_len + 20) dec1;
          copy_keys (\<lambda>w. w) enc 0 [0, 1, 2, 3] i dec2 }"

definition aes_pad_key :: "bytes \<Rightarrow> nat \<Rightarrow> (bytes \<times> nat) option" where
  "aes_pad_key in_key key_len =
     (if key_len mod 8 \<noteq> 0 then
        do { xs \<leftarrow> ld in_key 0 (int key_len);
             new_key \<leftarrow> st (replicate 32 0) 0 xs;
             let l = (key_len div 8 + 1) * 8 in
             Some (new_key, if l = 8 then 16 else l) }
      else Some (in_key, key_len))"

text \<open>The words of the key are the first round keys.\<close>

fun aes_load_key :: "bytes \<Rightarrow> nat \<Rightarrow> nat \<Rightarrow> u32 list \<Rightarrow> u32 list option" where
  "aes_load_key xs i 0 ks = Some ks"
| "aes_load_key xs i (Suc n) ks = do { ks' \<leftarrow> st1 ks (int i) (get_unaligned_u32 xs (4 * i)); aes_load_key xs (Suc i) n ks' }"

definition aes_set_key :: "aes_ctx \<Rightarrow> bytes \<Rightarrow> nat \<Rightarrow> (int \<times> aes_ctx) option" where
  "aes_set_key ctx in_key0 key_len0 =
     do { (in_key, key_len) \<leftarrow> aes_pad_key in_key0 key_len0;
          if aes_check_keylen key_len \<noteq> 0 then Some (aes_check_keylen key_len, ctx)
          else
            do { xs \<leftarrow> ld in_key 0 (int key_len);
                 enc0 \<leftarrow> aes_load_key xs 0 (key_len div 4) (key_enc ctx);
                 enc \<leftarrow> aes_expand_loop key_len 0 1 enc0;
                 dec \<leftarrow> aes_dec_keys key_len enc (key_dec ctx);
                 Some (0, ctx\<lparr>key_length := key_len, key_enc := enc, key_dec := dec\<rparr>) } }"

subsection \<open>Encryption and decryption of a block\<close>

function aes_enc_loop :: "u32 list \<Rightarrow> int \<Rightarrow> int \<Rightarrow> nat \<Rightarrow> u32 list \<Rightarrow> (u32 list \<times> nat) option" where
  "aes_enc_loop ks rounds round rkp st0 =
     (if rkp + 7 < length ks then
        let st1 = map (\<lambda>i. mix_columns (subshift st0 i) XOR ks ! (rkp + i)) [0..<4] in
        if round = rounds - 2 then Some (st1, rkp)
        else let st0' = map (\<lambda>i. mix_columns (subshift st1 i) XOR ks ! (rkp + 4 + i)) [0..<4] in
             aes_enc_loop ks rounds (round + 2) (rkp + 8) st0'
      else None)"
  by auto
termination
  by (relation "measure (\<lambda>(ks, r, rd, rkp, s). length ks - rkp)") auto

declare aes_enc_loop.simps [simp del]

function aes_dec_loop :: "u32 list \<Rightarrow> int \<Rightarrow> int \<Rightarrow> nat \<Rightarrow> u32 list \<Rightarrow> (u32 list \<times> nat) option" where
  "aes_dec_loop ks rounds round rkp st0 =
     (if rkp + 7 < length ks then
        let st1 = map (\<lambda>i. inv_mix_columns (inv_subshift st0 i) XOR ks ! (rkp + i)) [0..<4] in
        if round = rounds - 2 then Some (st1, rkp)
        else let st0' = map (\<lambda>i. inv_mix_columns (inv_subshift st1 i) XOR ks ! (rkp + 4 + i)) [0..<4] in
             aes_dec_loop ks rounds (round + 2) (rkp + 8) st0'
      else None)"
  by auto
termination
  by (relation "measure (\<lambda>(ks, r, rd, rkp, s). length ks - rkp)") auto

declare aes_dec_loop.simps [simp del]

definition aes_prefetch :: "u8 list \<Rightarrow> nat list \<Rightarrow> u32" where
  "aes_prefetch tab is = foldr (\<lambda>i w. sbox_at tab (of_nat i) XOR w) is 0"

definition aes_encrypt :: "aes_ctx \<Rightarrow> bytes \<Rightarrow> bytes option" where
  "aes_encrypt ctx inp =
     (let ks = key_enc ctx; rounds = 6 + int (key_length ctx div 4) in
      do { xs \<leftarrow> ld inp 0 16;
           let st = map (\<lambda>i. ks ! i XOR get_unaligned_u32 xs (4 * i)) [0..<4];
               st0 = [st ! 0 XOR aes_prefetch aes_sbox [0, 64, 134, 195],
                      st ! 1 XOR aes_prefetch aes_sbox [16, 82, 158, 221],
                      st ! 2 XOR aes_prefetch aes_sbox [32, 96, 160, 234],
                      st ! 3 XOR aes_prefetch aes_sbox [48, 112, 186, 241]] in
           do { (st1, rkp) \<leftarrow> aes_enc_loop ks rounds 0 4 st0;
                Some (concat (map (\<lambda>i. put_unaligned_u32 (subshift st1 i XOR ks ! (rkp + 4 + i))) [0..<4])) } })"

definition aes_decrypt :: "aes_ctx \<Rightarrow> bytes \<Rightarrow> bytes option" where
  "aes_decrypt ctx inp =
     (let ks = key_dec ctx; rounds = 6 + int (key_length ctx div 4) in
      do { xs \<leftarrow> ld inp 0 16;
           let st = map (\<lambda>i. ks ! i XOR get_unaligned_u32 xs (4 * i)) [0..<4];
               st0 = [st ! 0 XOR aes_prefetch aes_inv_sbox [0, 64, 129, 200],
                      st ! 1 XOR aes_prefetch aes_inv_sbox [16, 83, 150, 212],
                      st ! 2 XOR aes_prefetch aes_inv_sbox [32, 96, 160, 236],
                      st ! 3 XOR aes_prefetch aes_inv_sbox [48, 112, 187, 247]] in
           do { (st1, rkp) \<leftarrow> aes_dec_loop ks rounds 0 4 st0;
                Some (concat (map (\<lambda>i. put_unaligned_u32 (inv_subshift st1 i XOR ks ! (rkp + 4 + i))) [0..<4])) } })"

definition aes_get_block_size :: nat where
  "aes_get_block_size = 16"

subsection \<open>The S-boxes are inverse to each other\<close>

lemma aes_inv_rows_nth:
  "aes_inv_sbox_rows ! 0 = [0x52, 0x09, 0x6a, 0xd5, 0x30, 0x36, 0xa5, 0x38, 0xbf, 0x40, 0xa3, 0x9e, 0x81, 0xf3, 0xd7, 0xfb]"
  "aes_inv_sbox_rows ! Suc 0 = [0x7c, 0xe3, 0x39, 0x82, 0x9b, 0x2f, 0xff, 0x87, 0x34, 0x8e, 0x43, 0x44, 0xc4, 0xde, 0xe9, 0xcb]"
  "aes_inv_sbox_rows ! 2 = [0x54, 0x7b, 0x94, 0x32, 0xa6, 0xc2, 0x23, 0x3d, 0xee, 0x4c, 0x95, 0x0b, 0x42, 0xfa, 0xc3, 0x4e]"
  "aes_inv_sbox_rows ! 3 = [0x08, 0x2e, 0xa1, 0x66, 0x28, 0xd9, 0x24, 0xb2, 0x76, 0x5b, 0xa2, 0x49, 0x6d, 0x8b, 0xd1, 0x25]"
  "aes_inv_sbox_rows ! 4 = [0x72, 0xf8, 0xf6, 0x64, 0x86, 0x68, 0x98, 0x16, 0xd4, 0xa4, 0x5c, 0xcc, 0x5d, 0x65, 0xb6, 0x92]"
  "aes_inv_sbox_rows ! 5 = [0x6c, 0x70, 0x48, 0x50, 0xfd, 0xed, 0xb9, 0xda, 0x5e, 0x15, 0x46, 0x57, 0xa7, 0x8d, 0x9d, 0x84]"
  "aes_inv_sbox_rows ! 6 = [0x90, 0xd8, 0xab, 0x00, 0x8c, 0xbc, 0xd3, 0x0a, 0xf7, 0xe4, 0x58, 0x05, 0xb8, 0xb3, 0x45, 0x06]"
  "aes_inv_sbox_rows ! 7 = [0xd0, 0x2c, 0x1e, 0x8f, 0xca, 0x3f, 0x0f, 0x02, 0xc1, 0xaf, 0xbd, 0x03, 0x01, 0x13, 0x8a, 0x6b]"
  "aes_inv_sbox_rows ! 8 = [0x3a, 0x91, 0x11, 0x41, 0x4f, 0x67, 0xdc, 0xea, 0x97, 0xf2, 0xcf, 0xce, 0xf0, 0xb4, 0xe6, 0x73]"
  "aes_inv_sbox_rows ! 9 = [0x96, 0xac, 0x74, 0x22, 0xe7, 0xad, 0x35, 0x85, 0xe2, 0xf9, 0x37, 0xe8, 0x1c, 0x75, 0xdf, 0x6e]"
  "aes_inv_sbox_rows ! 10 = [0x47, 0xf1, 0x1a, 0x71, 0x1d, 0x29, 0xc5, 0x89, 0x6f, 0xb7, 0x62, 0x0e, 0xaa, 0x18, 0xbe, 0x1b]"
  "aes_inv_sbox_rows ! 11 = [0xfc, 0x56, 0x3e, 0x4b, 0xc6, 0xd2, 0x79, 0x20, 0x9a, 0xdb, 0xc0, 0xfe, 0x78, 0xcd, 0x5a, 0xf4]"
  "aes_inv_sbox_rows ! 12 = [0x1f, 0xdd, 0xa8, 0x33, 0x88, 0x07, 0xc7, 0x31, 0xb1, 0x12, 0x10, 0x59, 0x27, 0x80, 0xec, 0x5f]"
  "aes_inv_sbox_rows ! 13 = [0x60, 0x51, 0x7f, 0xa9, 0x19, 0xb5, 0x4a, 0x0d, 0x2d, 0xe5, 0x7a, 0x9f, 0x93, 0xc9, 0x9c, 0xef]"
  "aes_inv_sbox_rows ! 14 = [0xa0, 0xe0, 0x3b, 0x4d, 0xae, 0x2a, 0xf5, 0xb0, 0xc8, 0xeb, 0xbb, 0x3c, 0x83, 0x53, 0x99, 0x61]"
  "aes_inv_sbox_rows ! 15 = [0x17, 0x2b, 0x04, 0x7e, 0xba, 0x77, 0xd6, 0x26, 0xe1, 0x69, 0x14, 0x63, 0x55, 0x21, 0x0c, 0x7d]"
  by (simp_all add: aes_inv_sbox_rows_def)

lemma aes_rows_lengths:
  "length aes_sbox_rows = 16" "list_all (\<lambda>r. length r = 16) aes_sbox_rows"
  "length aes_inv_sbox_rows = 16" "list_all (\<lambda>r. length r = 16) aes_inv_sbox_rows"
  by (simp_all add: aes_sbox_rows_def aes_inv_sbox_rows_def)

lemma aes_rows_inverse:
  "list_all (\<lambda>(h, row). list_all (\<lambda>(l, v). aes_inv_sbox_rows ! (unat v div 16) ! (unat v mod 16) = of_nat (16 * h + l))
     (enumerate 0 row)) (enumerate 0 aes_sbox_rows)"
  unfolding aes_sbox_rows_def by (simp add: aes_inv_rows_nth)

lemma nth_concat_rows:
  "list_all (\<lambda>r. length r = k) rs \<Longrightarrow> h < length rs \<Longrightarrow> l < k \<Longrightarrow> concat rs ! (k * h + l) = rs ! h ! l"
proof (induction rs arbitrary: h)
  case (Cons r rs)
  show ?case
  proof (cases h)
    case 0
    with Cons.prems show ?thesis by (simp add: nth_append)
  next
    case (Suc h')
    with Cons show ?thesis by (simp add: nth_append add.assoc)
  qed
qed simp

lemma nth_sbox_rows:
  assumes "list_all (\<lambda>r. length r = 16) rs" "length rs = 16" "i < 256"
  shows "concat rs ! i = rs ! (i div 16) ! (i mod 16)"
  using nth_concat_rows [OF assms(1), of "i div 16" "i mod 16"] assms(2,3) by simp

lemma aes_inv_sbox_sbox: "aes_inv_sbox ! unat (aes_sbox ! unat x) = (x :: u8)"
proof -
  have x: "unat x < 256" using unsigned_less [of x] by simp
  let ?h = "unat x div 16" and ?l = "unat x mod 16"
  let ?v = "aes_sbox_rows ! ?h ! ?l"
  have h: "?h < 16" "?l < 16" using x by auto
  have v: "aes_sbox ! unat x = ?v"
    unfolding aes_sbox_def by (rule nth_sbox_rows) (use aes_rows_lengths x in auto)
  have row: "length (aes_sbox_rows ! ?h) = 16"
    using aes_rows_lengths(1,2) h(1) by (simp add: list_all_length)
  have "(?h, aes_sbox_rows ! ?h) \<in> set (enumerate 0 aes_sbox_rows)"
    using h(1) aes_rows_lengths(1) by (auto simp: in_set_enumerate_eq)
  moreover have "(?l, ?v) \<in> set (enumerate 0 (aes_sbox_rows ! ?h))"
    using h(2) row by (auto simp: in_set_enumerate_eq)
  moreover have "\<And>h row l v. (h, row) \<in> set (enumerate 0 aes_sbox_rows) \<Longrightarrow> (l, v) \<in> set (enumerate 0 row) \<Longrightarrow>
      aes_inv_sbox_rows ! (unat v div 16) ! (unat v mod 16) = of_nat (16 * h + l)"
    using aes_rows_inverse by (auto simp: list_all_iff)
  ultimately have "aes_inv_sbox_rows ! (unat ?v div 16) ! (unat ?v mod 16) = of_nat (16 * ?h + ?l)"
    by blast
  moreover have "16 * ?h + ?l = unat x" by simp
  moreover have "aes_inv_sbox ! unat ?v = aes_inv_sbox_rows ! (unat ?v div 16) ! (unat ?v mod 16)"
    unfolding aes_inv_sbox_def
    by (rule nth_sbox_rows) (use aes_rows_lengths unsigned_less [of ?v] in auto)
  ultimately show ?thesis using v by simp
qed

subsection \<open>Column mixing is linear and invertible\<close>

lemma rotate_xor:
  fixes x y :: u32
  assumes "0 < a" "a < 32"
  shows "drop_bit a (x XOR y) OR push_bit (32 - a) (x XOR y) =
    (drop_bit a x OR push_bit (32 - a) x) XOR (drop_bit a y OR push_bit (32 - a) y)"
proof (rule bit_word_eqI)
  fix n assume n: "n < LENGTH(32)"
  show "bit (drop_bit a (x XOR y) OR push_bit (32 - a) (x XOR y)) n =
    bit ((drop_bit a x OR push_bit (32 - a) x) XOR (drop_bit a y OR push_bit (32 - a) y)) n"
  proof (cases "32 - a \<le> n")
    case True
    then have "\<not> bit x (a + n)" "\<not> bit y (a + n)" using assms by (auto dest!: bit_imp_le_length)
    with True n show ?thesis by (simp add: bit_simps)
  next
    case False
    then show ?thesis using n by (simp add: bit_simps)
  qed
qed

lemma ror32_xor:
  "ror32 (x XOR y) 8 = ror32 x 8 XOR ror32 y 8" "ror32 (x XOR y) 16 = ror32 x 16 XOR ror32 y 16"
  using rotate_xor [of 8 x y] rotate_xor [of 16 x y] by (simp_all add: ror32_def)

text \<open>
  Multiplying a word whose only bits are the lowest ones of its bytes by a constant below 256
  is a sum of shifts: the partial products do not overlap.
\<close>

definition low_lanes :: "u32 \<Rightarrow> bool" where
  "low_lanes v \<longleftrightarrow> (\<forall>n. bit v n \<longrightarrow> n mod 8 = 0)"

lemma low_lanes_disjoint:
  assumes "low_lanes v" "i < j" "j < 8"
  shows "push_bit j v AND push_bit i v = 0"
proof (rule bit_word_eqI)
  fix n assume "n < LENGTH(32)"
  show "bit (push_bit j v AND push_bit i v) n = bit (0 :: u32) n"
  proof -
    have "\<not> (j \<le> n \<and> bit v (n - j) \<and> i \<le> n \<and> bit v (n - i))"
    proof
      assume a: "j \<le> n \<and> bit v (n - j) \<and> i \<le> n \<and> bit v (n - i)"
      with assms(1) have "(n - j) mod 8 = 0" "(n - i) mod 8 = 0" by (auto simp: low_lanes_def)
      then have "((n - i) - (n - j)) mod 8 = 0" by (metis dvd_diff_nat mod_eq_0_iff_dvd)
      moreover have "(n - i) - (n - j) = j - i" using a assms(2) by simp
      ultimately show False using assms(2,3) by simp
    qed
    then show ?thesis by (auto simp: bit_simps)
  qed
qed

lemma xor_and_right: "(x XOR y) AND m = (x AND m) XOR (y AND (m :: u32))"
  by (rule bit_word_eqI) (auto simp: bit_simps)

lemma and_xor_zero: "x AND y = 0 \<Longrightarrow> x AND z = 0 \<Longrightarrow> x AND (y XOR z) = (0 :: u32)"
  using xor_and_right [of y z x] by (simp add: and.commute)

lemma low_lanes_mul:
  assumes "low_lanes v"
  shows "v * 0x1b = push_bit 4 v XOR push_bit 3 v XOR push_bit 1 v XOR push_bit 0 v"
    and "v * 0x36 = push_bit 5 v XOR push_bit 4 v XOR push_bit 2 v XOR push_bit 1 v"
proof -
  note dj = low_lanes_disjoint [OF assms]
  have sum: "push_bit a v + (push_bit b v + (push_bit c v + push_bit d v)) =
      push_bit a v XOR push_bit b v XOR push_bit c v XOR push_bit d v"
    if "d < c" "c < b" "b < a" "a < 8" for a b c d
  proof -
    have 1: "push_bit c v + push_bit d v = push_bit c v XOR push_bit d v"
      by (rule disjunctive_add_eq_xor, rule dj) (use that in auto)
    have 2: "push_bit b v + (push_bit c v XOR push_bit d v) = push_bit b v XOR push_bit c v XOR push_bit d v"
      by (rule disjunctive_add_eq_xor, intro and_xor_zero dj) (use that in auto)
    have 3: "push_bit a v + (push_bit b v XOR push_bit c v XOR push_bit d v) =
        push_bit a v XOR push_bit b v XOR push_bit c v XOR push_bit d v"
      by (rule disjunctive_add_eq_xor, intro and_xor_zero dj) (use that in auto)
    show ?thesis unfolding 1 2 3 ..
  qed
  have "v * 0x1b = push_bit 4 v + (push_bit 3 v + (push_bit 1 v + push_bit 0 v))"
    by (simp add: push_bit_eq_mult)
  then show "v * 0x1b = push_bit 4 v XOR push_bit 3 v XOR push_bit 1 v XOR push_bit 0 v"
    by (simp only: sum)
  have "v * 0x36 = push_bit 5 v + (push_bit 4 v + (push_bit 2 v + push_bit 1 v))"
    by (simp add: push_bit_eq_mult)
  then show "v * 0x36 = push_bit 5 v XOR push_bit 4 v XOR push_bit 2 v XOR push_bit 1 v"
    by (simp only: sum)
qed

lemma mask_lanes:
  "bit (0x80808080 :: u32) n \<Longrightarrow> n mod 8 = 7" "bit (0x40404040 :: u32) n \<Longrightarrow> n mod 8 = 6"
proof -
  have l: "list_all (\<lambda>m. (bit (0x80808080 :: u32) m \<longrightarrow> m mod 8 = 7) \<and>
                        (bit (0x40404040 :: u32) m \<longrightarrow> m mod 8 = 6)) [0..<32]"
    by (simp add: upt_rec)
  have "n \<in> set [0..<32]" if "bit w n" for w :: u32 using bit_imp_le_length [OF that] by simp
  with l show "bit (0x80808080 :: u32) n \<Longrightarrow> n mod 8 = 7" "bit (0x40404040 :: u32) n \<Longrightarrow> n mod 8 = 6"
    unfolding list_all_iff by blast+
qed

lemma low_lanes_drop:
  assumes "\<And>n. bit m n \<Longrightarrow> n mod 8 = k" "k < 8"
  shows "low_lanes (drop_bit k (w AND m))"
  unfolding low_lanes_def bit_drop_bit_eq o_def bit_and_iff
proof (intro allI impI)
  fix n assume "bit w (k + n) \<and> bit m (k + n)"
  then have "(k + n) mod 8 = k" by (simp add: assms(1))
  with assms(2) show "n mod 8 = 0" by presburger
qed

lemma low_lanes_masked: "low_lanes (drop_bit 7 (w AND 0x80808080))" "low_lanes (drop_bit 6 (w AND 0x40404040))"
  by (rule low_lanes_drop, erule mask_lanes, simp)+

lemma mul_by_x_eq:
  "mul_by_x w = (let v = drop_bit 7 (w AND 0x80808080) in push_bit 1 (w AND 0x7f7f7f7f) XOR
     push_bit 4 v XOR push_bit 3 v XOR push_bit 1 v XOR push_bit 0 v)"
  by (simp only: mul_by_x_def Let_def low_lanes_mul [OF low_lanes_masked(1)])

lemma mul_by_x2_eq:
  "mul_by_x2 w = (let v = drop_bit 7 (w AND 0x80808080); u = drop_bit 6 (w AND 0x40404040) in
     push_bit 2 (w AND 0x3f3f3f3f) XOR (push_bit 5 v XOR push_bit 4 v XOR push_bit 2 v XOR push_bit 1 v) XOR
     (push_bit 4 u XOR push_bit 3 u XOR push_bit 1 u XOR push_bit 0 u))"
  by (simp only: mul_by_x2_def Let_def low_lanes_mul [OF low_lanes_masked(1)]
      low_lanes_mul [OF low_lanes_masked(2)])

lemmas xor_ac = xor.assoc xor.commute xor.left_commute

lemma mul_by_x_xor: "mul_by_x (x XOR y) = mul_by_x x XOR mul_by_x y"
  by (simp only: mul_by_x_eq Let_def xor_and_right drop_bit_xor push_bit_xor xor_ac)

lemma mul_by_x2_xor: "mul_by_x2 (x XOR y) = mul_by_x2 x XOR mul_by_x2 y"
  by (simp only: mul_by_x2_eq Let_def xor_and_right drop_bit_xor push_bit_xor xor_ac)

lemma mix_columns_xor: "mix_columns (x XOR y) = mix_columns x XOR mix_columns y"
  by (simp only: mix_columns_def Let_def mul_by_x_xor ror32_xor xor_ac)

lemma inv_mix_columns_xor: "inv_mix_columns (x XOR y) = inv_mix_columns x XOR inv_mix_columns y"
  by (simp only: inv_mix_columns_def Let_def mul_by_x2_xor ror32_xor mix_columns_xor xor_ac)

lemma ror32_eval:
  "ror32 w 8 = drop_bit 8 w OR push_bit 24 (w AND 0xff)" "ror32 w 16 = drop_bit 16 w OR push_bit 16 (w AND 0xffff)"
proof -
  have t: "w AND 0xff = take_bit 8 w" "w AND 0xffff = take_bit 16 w"
    by (simp_all add: take_bit_eq_mask mask_eq_exp_minus_1)
  have p: "push_bit 24 (take_bit 8 w) = push_bit 24 w" "push_bit 16 (take_bit 16 w) = push_bit 16 w"
    by (rule bit_word_eqI, auto simp: bit_simps)+
  show "ror32 w 8 = drop_bit 8 w OR push_bit 24 (w AND 0xff)" "ror32 w 16 = drop_bit 16 w OR push_bit 16 (w AND 0xffff)"
    unfolding t p by (simp_all add: ror32_def)
qed

lemmas mix_eval = mix_columns_def inv_mix_columns_def mul_by_x_def mul_by_x2_def ror32_eval

text \<open>The images of the unit vectors; by linearity they determine \<open>mix_columns\<close>.\<close>

lemma mix_columns_basis:
  "mix_columns 0x1 = 0x3010102"
  "mix_columns 0x2 = 0x6020204"
  "mix_columns 0x4 = 0xc040408"
  "mix_columns 0x8 = 0x18080810"
  "mix_columns 0x10 = 0x30101020"
  "mix_columns 0x20 = 0x60202040"
  "mix_columns 0x40 = 0xc0404080"
  "mix_columns 0x80 = 0x9b80801b"
  "mix_columns 0x100 = 0x1010203"
  "mix_columns 0x200 = 0x2020406"
  "mix_columns 0x400 = 0x404080c"
  "mix_columns 0x800 = 0x8081018"
  "mix_columns 0x1000 = 0x10102030"
  "mix_columns 0x2000 = 0x20204060"
  "mix_columns 0x4000 = 0x404080c0"
  "mix_columns 0x8000 = 0x80801b9b"
  "mix_columns 0x10000 = 0x1020301"
  "mix_columns 0x20000 = 0x2040602"
  "mix_columns 0x40000 = 0x4080c04"
  "mix_columns 0x80000 = 0x8101808"
  "mix_columns 0x100000 = 0x10203010"
  "mix_columns 0x200000 = 0x20406020"
  "mix_columns 0x400000 = 0x4080c040"
  "mix_columns 0x800000 = 0x801b9b80"
  "mix_columns 0x1000000 = 0x2030101"
  "mix_columns 0x2000000 = 0x4060202"
  "mix_columns 0x4000000 = 0x80c0404"
  "mix_columns 0x8000000 = 0x10180808"
  "mix_columns 0x10000000 = 0x20301010"
  "mix_columns 0x20000000 = 0x40602020"
  "mix_columns 0x40000000 = 0x80c04040"
  "mix_columns 0x80000000 = 0x1b9b8080"
  by (simp_all add: mix_eval)

lemma inv_mix_columns_basis:
  "inv_mix_columns 0x3010102 = 0x1"
  "inv_mix_columns 0x6020204 = 0x2"
  "inv_mix_columns 0xc040408 = 0x4"
  "inv_mix_columns 0x18080810 = 0x8"
  "inv_mix_columns 0x30101020 = 0x10"
  "inv_mix_columns 0x60202040 = 0x20"
  "inv_mix_columns 0xc0404080 = 0x40"
  "inv_mix_columns 0x9b80801b = 0x80"
  "inv_mix_columns 0x1010203 = 0x100"
  "inv_mix_columns 0x2020406 = 0x200"
  "inv_mix_columns 0x404080c = 0x400"
  "inv_mix_columns 0x8081018 = 0x800"
  "inv_mix_columns 0x10102030 = 0x1000"
  "inv_mix_columns 0x20204060 = 0x2000"
  "inv_mix_columns 0x404080c0 = 0x4000"
  "inv_mix_columns 0x80801b9b = 0x8000"
  "inv_mix_columns 0x1020301 = 0x10000"
  "inv_mix_columns 0x2040602 = 0x20000"
  "inv_mix_columns 0x4080c04 = 0x40000"
  "inv_mix_columns 0x8101808 = 0x80000"
  "inv_mix_columns 0x10203010 = 0x100000"
  "inv_mix_columns 0x20406020 = 0x200000"
  "inv_mix_columns 0x4080c040 = 0x400000"
  "inv_mix_columns 0x801b9b80 = 0x800000"
  "inv_mix_columns 0x2030101 = 0x1000000"
  "inv_mix_columns 0x4060202 = 0x2000000"
  "inv_mix_columns 0x80c0404 = 0x4000000"
  "inv_mix_columns 0x10180808 = 0x8000000"
  "inv_mix_columns 0x20301010 = 0x10000000"
  "inv_mix_columns 0x40602020 = 0x20000000"
  "inv_mix_columns 0x80c04040 = 0x40000000"
  "inv_mix_columns 0x1b9b8080 = 0x80000000"
  by (simp_all add: mix_eval)

lemma inv_mix_mix: "inv_mix_columns (mix_columns x) = x"
proof (rule linear_word_eq [of "\<lambda>x. inv_mix_columns (mix_columns x)" "\<lambda>x. x"])
  have "list_all (\<lambda>k. inv_mix_columns (mix_columns (2 ^ k)) = 2 ^ k) [0..<32]"
    by (simp add: upt_rec mix_columns_basis inv_mix_columns_basis)
  then show "inv_mix_columns (mix_columns (2 ^ k)) = 2 ^ k" if "k < LENGTH(32)" for k
    using that by (simp add: list_all_iff)
qed (simp_all only: mix_columns_xor inv_mix_columns_xor)

subsection \<open>The substitution layers\<close>

lemma ucast_u8_lane: "unat (w AND 0xff) = unat (ucast w :: u8)" for w :: u32
proof -
  have "w AND 0xff = take_bit 8 w" by (simp add: take_bit_eq_mask mask_eq_exp_minus_1)
  then show ?thesis by (simp add: unsigned_ucast_eq unsigned_take_bit_eq)
qed

lemma sbox_at_byte: "sbox_at tab (drop_bit (8 * k) w AND 0xff) = ucast (tab ! unat (byte_of k w))"
  by (simp only: sbox_at_def ucast_u8_lane byte_of_def)

lemma subshift_word_of4:
  "subshift inp pos = word_of4 (aes_sbox ! unat (byte_of 0 (inp ! pos)))
     (aes_sbox ! unat (byte_of 1 (inp ! ((pos + 1) mod 4))))
     (aes_sbox ! unat (byte_of 2 (inp ! ((pos + 2) mod 4))))
     (aes_sbox ! unat (byte_of 3 (inp ! ((pos + 3) mod 4))))"
  using sbox_at_byte [of aes_sbox 0 "inp ! pos"] sbox_at_byte [of aes_sbox 1] sbox_at_byte [of aes_sbox 2]
    sbox_at_byte [of aes_sbox 3]
  by (simp add: subshift_def word_of4_def)

lemma inv_subshift_word_of4:
  "inv_subshift inp pos = word_of4 (aes_inv_sbox ! unat (byte_of 0 (inp ! pos)))
     (aes_inv_sbox ! unat (byte_of 1 (inp ! ((pos + 3) mod 4))))
     (aes_inv_sbox ! unat (byte_of 2 (inp ! ((pos + 2) mod 4))))
     (aes_inv_sbox ! unat (byte_of 3 (inp ! ((pos + 1) mod 4))))"
  using sbox_at_byte [of aes_inv_sbox 0 "inp ! pos"] sbox_at_byte [of aes_inv_sbox 1]
    sbox_at_byte [of aes_inv_sbox 2] sbox_at_byte [of aes_inv_sbox 3]
  by (simp add: inv_subshift_def word_of4_def)

lemma subw_word_of4:
  "subw w = word_of4 (aes_sbox ! unat (byte_of 0 w)) (aes_sbox ! unat (byte_of 1 w))
     (aes_sbox ! unat (byte_of 2 w)) (aes_sbox ! unat (byte_of 3 w))"
  using sbox_at_byte [of aes_sbox 0 w] sbox_at_byte [of aes_sbox 1 w] sbox_at_byte [of aes_sbox 2 w]
    sbox_at_byte [of aes_sbox 3 w]
  by (simp add: subw_def word_of4_def)

text \<open>The layers of a round on the state of four words.\<close>

definition sub_layer :: "u32 list \<Rightarrow> u32 list" where
  "sub_layer s = map (subshift s) [0..<4]"

definition inv_sub_layer :: "u32 list \<Rightarrow> u32 list" where
  "inv_sub_layer s = map (inv_subshift s) [0..<4]"

definition add_key :: "u32 list \<Rightarrow> nat \<Rightarrow> u32 list \<Rightarrow> u32 list" where
  "add_key ks j s = map (\<lambda>i. s ! i XOR ks ! (4 * j + i)) [0..<4]"

lemma length_layers [simp]:
  "length (sub_layer s) = 4" "length (inv_sub_layer s) = 4" "length (add_key ks j s) = 4"
  by (simp_all add: sub_layer_def inv_sub_layer_def add_key_def)

lemma upt4: "[0..<4] = [0, 1, 2, 3 :: nat]"
  by (simp add: upt_rec)

lemma length4_cases:
  assumes "length xs = 4"
  obtains a b c d where "xs = [a, b, c, d]"
  using assms by (auto simp: numeral_eq_Suc length_Suc_conv)

lemma inv_sub_layer_sub_layer:
  assumes "length s = 4"
  shows "inv_sub_layer (sub_layer s) = s"
proof -
  obtain a b c d where s: "s = [a, b, c, d]" using assms by (rule length4_cases)
  show ?thesis
    by (simp add: s inv_sub_layer_def sub_layer_def upt4 inv_subshift_word_of4 subshift_word_of4 aes_inv_sbox_sbox)
qed

lemma add_key_cancel:
  assumes "length s = 4" "\<And>i. i < 4 \<Longrightarrow> ks ! (4 * j + i) = ks' ! (4 * j' + i)"
  shows "add_key ks j (add_key ks' j' s) = s"
  using assms by (auto simp: add_key_def intro!: nth_equalityI)

lemma add_key_inv_mix:
  assumes "length s = 4" "\<And>i. i < 4 \<Longrightarrow> dks ! (4 * j' + i) = inv_mix_columns (ks ! (4 * j + i))"
  shows "add_key dks j' (map inv_mix_columns (add_key ks j (map mix_columns s))) = s"
  using assms by (auto simp: add_key_def inv_mix_columns_xor inv_mix_mix intro!: nth_equalityI)

subsection \<open>The round loops\<close>

definition enc_round :: "u32 list \<Rightarrow> nat \<Rightarrow> u32 list \<Rightarrow> u32 list" where
  "enc_round ks j s = add_key ks j (map mix_columns (sub_layer s))"

definition dec_round :: "u32 list \<Rightarrow> nat \<Rightarrow> u32 list \<Rightarrow> u32 list" where
  "dec_round ks j s = add_key ks j (map inv_mix_columns (inv_sub_layer s))"

lemma enc_round_map: "map (\<lambda>i. mix_columns (subshift s i) XOR ks ! (4 * j + i)) [0..<4] = enc_round ks j s"
  by (simp add: enc_round_def add_key_def sub_layer_def cong: map_cong)

lemma dec_round_map: "map (\<lambda>i. inv_mix_columns (inv_subshift s i) XOR ks ! (4 * j + i)) [0..<4] = dec_round ks j s"
  by (simp add: dec_round_def add_key_def inv_sub_layer_def cong: map_cong)

lemma enc_last_map: "map (\<lambda>i. f (subshift s i XOR ks ! (4 * j + i))) [0..<4] = map f (add_key ks j (sub_layer s))"
  by (simp add: add_key_def sub_layer_def cong: map_cong)

lemma dec_last_map: "map (\<lambda>i. f (inv_subshift s i XOR ks ! (4 * j + i))) [0..<4] = map f (add_key ks j (inv_sub_layer s))"
  by (simp add: add_key_def inv_sub_layer_def cong: map_cong)

lemma upt_two: "[j..<Suc (j + 2 * Suc m)] = j # Suc j # [j + 2..<Suc (j + 2 + 2 * m)]"
  by (simp add: upt_rec)

lemma aes_enc_loop_fold:
  assumes "rounds = round + 2 * int m + 2" "4 * (j + 2 * m) + 7 < length ks"
  shows "aes_enc_loop ks rounds round (4 * j) s =
    Some (fold (enc_round ks) [j..<Suc (j + 2 * m)] s, 4 * (j + 2 * m))"
  using assms
proof (induction m arbitrary: round j s)
  case 0
  then show ?case by (subst aes_enc_loop.simps) (simp add: enc_round_map)
next
  case (Suc m)
  have 4: "4 * j + 4 = 4 * Suc j" "4 * j + 8 = 4 * (j + 2)" by simp_all
  have "aes_enc_loop ks rounds round (4 * j) s =
    aes_enc_loop ks rounds (round + 2) (4 * (j + 2)) (enc_round ks (Suc j) (enc_round ks j s))"
    using Suc.prems by (subst aes_enc_loop.simps) (simp add: Let_def 4(2) add_ac flip: enc_round_map)
  also have "\<dots> = Some (fold (enc_round ks) [j + 2..<Suc (j + 2 + 2 * m)] (enc_round ks (Suc j) (enc_round ks j s)),
      4 * (j + 2 + 2 * m))"
    using Suc.prems by (intro Suc.IH) simp_all
  finally show ?case unfolding upt_two by simp
qed

lemma aes_dec_loop_fold:
  assumes "rounds = round + 2 * int m + 2" "4 * (j + 2 * m) + 7 < length ks"
  shows "aes_dec_loop ks rounds round (4 * j) s =
    Some (fold (dec_round ks) [j..<Suc (j + 2 * m)] s, 4 * (j + 2 * m))"
  using assms
proof (induction m arbitrary: round j s)
  case 0
  then show ?case by (subst aes_dec_loop.simps) (simp add: dec_round_map)
next
  case (Suc m)
  have 4: "4 * j + 4 = 4 * Suc j" "4 * j + 8 = 4 * (j + 2)" by simp_all
  have "aes_dec_loop ks rounds round (4 * j) s =
    aes_dec_loop ks rounds (round + 2) (4 * (j + 2)) (dec_round ks (Suc j) (dec_round ks j s))"
    using Suc.prems by (subst aes_dec_loop.simps) (simp add: Let_def 4(2) add_ac flip: dec_round_map)
  also have "\<dots> = Some (fold (dec_round ks) [j + 2..<Suc (j + 2 + 2 * m)] (dec_round ks (Suc j) (dec_round ks j s)),
      4 * (j + 2 + 2 * m))"
    using Suc.prems by (intro Suc.IH) simp_all
  finally show ?case unfolding upt_two by simp
qed

text \<open>The table entries that the code reads to warm the cache add up to zero.\<close>

lemma aes_sbox_nth:
  "i < 256 \<Longrightarrow> aes_sbox ! i = aes_sbox_rows ! (i div 16) ! (i mod 16)"
  "i < 256 \<Longrightarrow> aes_inv_sbox ! i = aes_inv_sbox_rows ! (i div 16) ! (i mod 16)"
  unfolding aes_sbox_def aes_inv_sbox_def using aes_rows_lengths nth_sbox_rows by blast+

lemma aes_prefetch_zero:
  "aes_prefetch aes_sbox [0, 64, 134, 195] = 0" "aes_prefetch aes_sbox [16, 82, 158, 221] = 0"
  "aes_prefetch aes_sbox [32, 96, 160, 234] = 0" "aes_prefetch aes_sbox [48, 112, 186, 241] = 0"
  "aes_prefetch aes_inv_sbox [0, 64, 129, 200] = 0" "aes_prefetch aes_inv_sbox [16, 83, 150, 212] = 0"
  "aes_prefetch aes_inv_sbox [32, 96, 160, 236] = 0" "aes_prefetch aes_inv_sbox [48, 112, 187, 247] = 0"
  by (simp_all add: aes_prefetch_def sbox_at_def aes_sbox_nth aes_sbox_rows_def aes_inv_sbox_rows_def)

definition words_of :: "bytes \<Rightarrow> u32 list" where
  "words_of xs = map (\<lambda>i. get_unaligned_u32 xs (4 * i)) [0..<4]"

definition bytes_of :: "u32 list \<Rightarrow> bytes" where
  "bytes_of s = concat (map put_unaligned_u32 s)"

lemma length_words_of: "length (words_of xs) = 4"
  by (simp add: words_of_def)

lemma put_unaligned_bytes: "put_unaligned_u32 w = [byte_of 0 w, byte_of 1 w, byte_of 2 w, byte_of 3 w]"
  by (simp add: put_unaligned_u32_def byte_of_def)

lemma get_unaligned_word_of4:
  "get_unaligned_u32 xs i = word_of4 (xs ! i) (xs ! (i + 1)) (xs ! (i + 2)) (xs ! (i + 3))"
  by (simp add: get_unaligned_u32_def word_of4_def)

lemma upt16: "[0..<16] = [0, 1, 2, 3, 4, 5, 6, 7, 8, 9, 10, 11, 12, 13, 14, 15 :: nat]"
  by (simp add: upt_rec)

lemma length16_cases:
  assumes "length (xs :: bytes) = 16"
  shows "xs = map (\<lambda>i. xs ! i) [0, 1, 2, 3, 4, 5, 6, 7, 8, 9, 10, 11, 12, 13, 14, 15]"
proof -
  have "xs = map ((!) xs) [0..<16]" by (metis assms map_nth)
  then show ?thesis unfolding upt16 .
qed

lemma bytes_of_words_of:
  assumes "length xs = 16"
  shows "bytes_of (words_of xs) = xs"
proof -
  have "bytes_of (words_of xs) = map (\<lambda>i. xs ! i) [0, 1, 2, 3, 4, 5, 6, 7, 8, 9, 10, 11, 12, 13, 14, 15]"
    by (simp add: bytes_of_def words_of_def upt4 put_unaligned_bytes get_unaligned_word_of4 flip: numeral_2_eq_2)
  with length16_cases [OF assms] show ?thesis by simp
qed

lemma words_of_bytes_of:
  assumes "length s = 4"
  shows "words_of (bytes_of s) = s"
proof -
  obtain a b c d where s: "s = [a, b, c, d]" using assms by (rule length4_cases)
  show ?thesis by (simp add: s bytes_of_def words_of_def upt4 put_unaligned_bytes get_unaligned_word_of4)
qed

lemma length_bytes_of [simp]: "length (bytes_of s) = 4 * length s"
  by (induction s) (simp_all add: bytes_of_def put_unaligned_u32_def)

text \<open>Both functions in terms of the layers: \<open>R\<close> rounds, the last one without column mixing.\<close>

definition aes_rounds :: "nat \<Rightarrow> nat" where
  "aes_rounds key_len = 6 + key_len div 4"

definition aes_keylen_ok :: "nat \<Rightarrow> bool" where
  "aes_keylen_ok n \<longleftrightarrow> n = 16 \<or> n = 24 \<or> n = 32"

lemma aes_initial:
  "map (\<lambda>i. ks ! i XOR get_unaligned_u32 xs (4 * i)) [0..<4] = add_key ks 0 (words_of xs)"
  by (simp add: add_key_def words_of_def xor.commute cong: map_cong)

lemma list4_id: "length xs = 4 \<Longrightarrow> [xs ! 0, xs ! 1, xs ! 2, xs ! 3] = xs"
  by (auto elim!: length4_cases)

lemma ld_block: "length xs = 16 \<Longrightarrow> ld xs 0 16 = Some xs"
  using ld_nat0 [of 16 xs] by simp

lemma aes_encrypt_rounds:
  assumes "aes_keylen_ok (key_length ctx)" "length (key_enc ctx) = 60" "length xs = 16"
  shows "aes_encrypt ctx xs = Some (bytes_of (add_key (key_enc ctx) (aes_rounds (key_length ctx))
    (sub_layer (fold (enc_round (key_enc ctx)) [1..<aes_rounds (key_length ctx)]
      (add_key (key_enc ctx) 0 (words_of xs))))))"
proof -
  obtain m where m: "aes_rounds (key_length ctx) = 2 * m + 2" "m \<le> 6"
    using assms(1) that [of 4] that [of 5] that [of 6] by (auto simp: aes_keylen_ok_def aes_rounds_def)
  let ?ks = "key_enc ctx" and ?s = "add_key (key_enc ctx) 0 (words_of xs)"
  have r: "6 + int (key_length ctx div 4) = 0 + 2 * int m + 2" using m(1) by (simp add: aes_rounds_def)
  have loop: "aes_enc_loop ?ks (6 + int (key_length ctx div 4)) 0 4 ?s =
      Some (fold (enc_round ?ks) [1..<Suc (1 + 2 * m)] ?s, 4 * (1 + 2 * m))"
    using aes_enc_loop_fold [OF r, of 1 ?ks ?s] assms(2) m(2) by simp
  have R: "aes_rounds (key_length ctx) = Suc (1 + 2 * m)" "4 * (1 + 2 * m) + 4 = 4 * Suc (1 + 2 * m)"
    using m(1) by simp_all
  show ?thesis
    unfolding aes_encrypt_def Let_def aes_initial aes_prefetch_zero R(1) bytes_of_def
    by (simp only: ld_block [OF assms(3)] bind.simps xor.right_neutral list4_id length_layers
        loop split enc_last_map R(2))
qed

lemma aes_decrypt_rounds:
  assumes "aes_keylen_ok (key_length ctx)" "length (key_dec ctx) = 60" "length xs = 16"
  shows "aes_decrypt ctx xs = Some (bytes_of (add_key (key_dec ctx) (aes_rounds (key_length ctx))
    (inv_sub_layer (fold (dec_round (key_dec ctx)) [1..<aes_rounds (key_length ctx)]
      (add_key (key_dec ctx) 0 (words_of xs))))))"
proof -
  obtain m where m: "aes_rounds (key_length ctx) = 2 * m + 2" "m \<le> 6"
    using assms(1) that [of 4] that [of 5] that [of 6] by (auto simp: aes_keylen_ok_def aes_rounds_def)
  let ?ks = "key_dec ctx" and ?s = "add_key (key_dec ctx) 0 (words_of xs)"
  have r: "6 + int (key_length ctx div 4) = 0 + 2 * int m + 2" using m(1) by (simp add: aes_rounds_def)
  have loop: "aes_dec_loop ?ks (6 + int (key_length ctx div 4)) 0 4 ?s =
      Some (fold (dec_round ?ks) [1..<Suc (1 + 2 * m)] ?s, 4 * (1 + 2 * m))"
    using aes_dec_loop_fold [OF r, of 1 ?ks ?s] assms(2) m(2) by simp
  have R: "aes_rounds (key_length ctx) = Suc (1 + 2 * m)" "4 * (1 + 2 * m) + 4 = 4 * Suc (1 + 2 * m)"
    using m(1) by simp_all
  show ?thesis
    unfolding aes_decrypt_def Let_def aes_initial aes_prefetch_zero R(1) bytes_of_def
    by (simp only: ld_block [OF assms(3)] bind.simps xor.right_neutral list4_id length_layers
        loop split dec_last_map R(2))
qed

subsection \<open>Decryption inverts encryption\<close>

text \<open>What \<open>aes_set_key\<close> has to leave in \<open>key_dec\<close> for the equivalent inverse cipher.\<close>

definition dec_keys_match :: "nat \<Rightarrow> u32 list \<Rightarrow> u32 list \<Rightarrow> bool" where
  "dec_keys_match R ks dks \<longleftrightarrow>
     (\<forall>i<4. dks ! i = ks ! (4 * R + i) \<and> dks ! (4 * R + i) = ks ! i) \<and>
     (\<forall>j. 0 < j \<and> j < R \<longrightarrow> (\<forall>i<4. dks ! (4 * j + i) = inv_mix_columns (ks ! (4 * (R - j) + i))))"

lemma length_enc_fold: "length s = 4 \<Longrightarrow> length (fold (enc_round ks) js s) = 4"
  by (induction js arbitrary: s) (simp_all add: enc_round_def)

lemma dec_fold_enc_fold:
  assumes "dec_keys_match R ks dks" "length s = 4" "n < R"
  shows "fold (dec_round dks) [1..<Suc n] (sub_layer (fold (enc_round ks) [1..<R] s)) =
    sub_layer (fold (enc_round ks) [1..<R - n] s)"
  using assms(3)
proof (induction n)
  case (Suc n)
  let ?s = "fold (enc_round ks) [1..<R - Suc n] s"
  have "[1..<R - n] = [1..<R - Suc n] @ [R - Suc n]"
    using Suc.prems upt_Suc_append [of 1 "R - Suc n"] by (simp add: Suc_diff_Suc)
  then have "fold (enc_round ks) [1..<R - n] s = add_key ks (R - Suc n) (map mix_columns (sub_layer ?s))"
    by (simp add: enc_round_def)
  moreover have "dks ! (4 * Suc n + i) = inv_mix_columns (ks ! (4 * (R - Suc n) + i))" if "i < 4" for i
    using assms(1) Suc.prems that unfolding dec_keys_match_def by blast
  ultimately have "dec_round dks (Suc n) (sub_layer (fold (enc_round ks) [1..<R - n] s)) = sub_layer ?s"
    by (simp only: dec_round_def inv_sub_layer_sub_layer length_layers add_key_inv_mix)
  then show ?case using Suc by simp
qed simp

lemma aes_layers_inverse:
  assumes "dec_keys_match R ks dks" "length s = 4" "0 < R"
  shows "add_key dks R (inv_sub_layer (fold (dec_round dks) [1..<R] (add_key dks 0
    (add_key ks R (sub_layer (fold (enc_round ks) [1..<R] (add_key ks 0 s))))))) = s"
proof -
  let ?u = "fold (enc_round ks) [1..<R] (add_key ks 0 s)"
  have "add_key dks 0 (add_key ks R (sub_layer ?u)) = sub_layer ?u"
    using assms(1) by (intro add_key_cancel) (simp_all add: dec_keys_match_def)
  moreover have "fold (dec_round dks) [1..<R] (sub_layer ?u) = sub_layer (add_key ks 0 s)"
    using dec_fold_enc_fold [OF assms(1), of "add_key ks 0 s" "R - 1"] assms(3) by simp
  moreover have "add_key dks R (add_key ks 0 s) = s"
    using assms(1,2) by (intro add_key_cancel) (simp_all add: dec_keys_match_def)
  ultimately show ?thesis by (simp add: inv_sub_layer_sub_layer)
qed

lemma aes_decrypt_encrypt_ctx:
  assumes "aes_keylen_ok (key_length ctx)" "length (key_enc ctx) = 60" "length (key_dec ctx) = 60"
    "dec_keys_match (aes_rounds (key_length ctx)) (key_enc ctx) (key_dec ctx)" "length xs = 16"
  shows "\<exists>c. aes_encrypt ctx xs = Some c \<and> length c = 16 \<and> aes_decrypt ctx c = Some xs"
proof -
  have "length (words_of xs) = 4" "0 < aes_rounds (key_length ctx)"
    by (simp_all add: words_of_def aes_rounds_def)
  note inv = aes_layers_inverse [OF assms(4) this]
  show ?thesis
    by (simp add: aes_encrypt_rounds [OF assms(1,2,5)] aes_decrypt_rounds [OF assms(1,3)]
        words_of_bytes_of inv [simplified] bytes_of_words_of assms(5))
qed

subsection \<open>The key schedule without its bounds\<close>

text \<open>The accesses of the key schedule stay within the arrays of 60 words; these are its steps without the checks.\<close>

definition plain_expand_step :: "nat \<Rightarrow> nat \<Rightarrow> u32 \<Rightarrow> u32 list \<Rightarrow> u32 list \<times> bool" where
  "plain_expand_step key_len i rc ks =
     (let kwords = key_len div 4; rki = i * kwords; rko = rki + kwords;
          ks = ks[rko := ror32 (subw (ks ! (rki + kwords - 1))) 8 XOR rc XOR ks ! rki];
          ks = ks[rko + 1 := ks ! rko XOR ks ! (rki + 1)];
          ks = ks[rko + 2 := ks ! (rko + 1) XOR ks ! (rki + 2)];
          ks = ks[rko + 3 := ks ! (rko + 2) XOR ks ! (rki + 3)]
      in if key_len = 24 then
           if i \<ge> 7 then (ks, True)
           else let ks = ks[rko + 4 := ks ! (rko + 3) XOR ks ! (rki + 4)];
                    ks = ks[rko + 5 := ks ! (rko + 4) XOR ks ! (rki + 5)]
                in (ks, False)
         else if key_len = 32 then
           if i \<ge> 6 then (ks, True)
           else let ks = ks[rko + 4 := subw (ks ! (rko + 3)) XOR ks ! (rki + 4)];
                    ks = ks[rko + 5 := ks ! (rko + 4) XOR ks ! (rki + 5)];
                    ks = ks[rko + 6 := ks ! (rko + 5) XOR ks ! (rki + 6)];
                    ks = ks[rko + 7 := ks ! (rko + 6) XOR ks ! (rki + 7)]
                in (ks, False)
         else (ks, False))"

function plain_expand_loop :: "nat \<Rightarrow> nat \<Rightarrow> u32 \<Rightarrow> u32 list \<Rightarrow> u32 list" where
  "plain_expand_loop key_len i rc ks =
     (if i < 10 then
        let (ks', stop) = plain_expand_step key_len i rc ks in
        if stop then ks' else plain_expand_loop key_len (i + 1) (mul_by_x rc) ks'
      else ks)"
  by auto
termination
  by (relation "measure (\<lambda>(l, i, rc, ks). 10 - i)") auto

declare plain_expand_loop.simps [simp del]

function plain_dec_keys_loop :: "u32 list \<Rightarrow> nat \<Rightarrow> nat \<Rightarrow> u32 list \<Rightarrow> nat \<times> u32 list" where
  "plain_dec_keys_loop enc i j dec =
     (if j > 0 then
        plain_dec_keys_loop enc (i + 4) (j - 4)
          (dec[i := inv_mix_columns (enc ! j), i + 1 := inv_mix_columns (enc ! (j + 1)),
               i + 2 := inv_mix_columns (enc ! (j + 2)), i + 3 := inv_mix_columns (enc ! (j + 3))])
      else (i, dec))"
  by auto
termination
  by (relation "measure (\<lambda>(enc, i, j, dec). j)") auto

declare plain_dec_keys_loop.simps [simp del]

definition plain_dec_keys :: "nat \<Rightarrow> u32 list \<Rightarrow> u32 list \<Rightarrow> u32 list" where
  "plain_dec_keys key_len enc dec =
     (let dec1 = dec[0 := enc ! (key_len + 24), 1 := enc ! (key_len + 25),
                     2 := enc ! (key_len + 26), 3 := enc ! (key_len + 27)];
          (i, dec2) = plain_dec_keys_loop enc 4 (key_len + 20) dec1
      in dec2[i := enc ! 0, i + 1 := enc ! 1, i + 2 := enc ! 2, i + 3 := enc ! 3])"

subsection \<open>The decryption keys\<close>

lemma aes_dec_keys_loop_nth:
  assumes "4 * (a + m) \<le> length dec"
  shows "\<exists>dec'. plain_dec_keys_loop enc (4 * a) (4 * m) dec = (4 * (a + m), dec') \<and> length dec' = length dec \<and>
    (\<forall>p<4 * a. dec' ! p = dec ! p) \<and>
    (\<forall>t<m. \<forall>e<4. dec' ! (4 * (a + t) + e) = inv_mix_columns (enc ! (4 * (m - t) + e)))"
  using assms
proof (induction m arbitrary: a dec)
  case 0
  then show ?case by (simp add: plain_dec_keys_loop.simps)
next
  case (Suc m)
  let ?j = "4 * Suc m" and ?i = "4 * a"
  let ?d = "dec[?i := inv_mix_columns (enc ! ?j), ?i + 1 := inv_mix_columns (enc ! (?j + 1)),
               ?i + 2 := inv_mix_columns (enc ! (?j + 2)), ?i + 3 := inv_mix_columns (enc ! (?j + 3))]"
  have new: "?d ! (4 * a + e) = inv_mix_columns (enc ! (4 * Suc m + e))" if "e < 4" for e
  proof -
    from that have "e \<in> {0, 1, 2, 3}" by auto
    then show ?thesis using Suc.prems by (auto simp: nth_list_update)
  qed
  have old: "?d ! p = dec ! p" if "p < 4 * a" for p
    using that by simp
  have step: "plain_dec_keys_loop enc ?i ?j dec = plain_dec_keys_loop enc (4 * Suc a) (4 * m) ?d"
    by (subst plain_dec_keys_loop.simps) (simp add: add.commute)
  have "4 * (Suc a + m) \<le> length ?d" using Suc.prems by simp
  from Suc.IH [OF this] obtain dec' where ih:
    "plain_dec_keys_loop enc (4 * Suc a) (4 * m) ?d = (4 * (Suc a + m), dec')" "length dec' = length ?d"
    "\<forall>p<4 * Suc a. dec' ! p = ?d ! p"
    "\<forall>t<m. \<forall>e<4. dec' ! (4 * (Suc a + t) + e) = inv_mix_columns (enc ! (4 * (m - t) + e))" by blast
  have "dec' ! (4 * (a + t) + e) = inv_mix_columns (enc ! (4 * (Suc m - t) + e))" if "t < Suc m" "e < 4" for t e
  proof (cases t)
    case 0
    with that ih(3) new [of e] show ?thesis by simp
  next
    case (Suc t')
    have "dec' ! (4 * (Suc a + t') + e) = inv_mix_columns (enc ! (4 * (m - t') + e))"
      using ih(4) that Suc by simp
    then show ?thesis using Suc by simp
  qed
  then show ?case using ih old unfolding step by (intro exI [of _ dec']) simp
qed

lemma aes_dec_keys_match:
  assumes "aes_keylen_ok n" "length dec = 60"
  shows "length (plain_dec_keys n enc dec) = 60 \<and> dec_keys_match (aes_rounds n) enc (plain_dec_keys n enc dec)"
proof -
  obtain R where R: "aes_rounds n = Suc R" "n + 24 = 4 * Suc R" "n + 20 = 4 * R" "R < 14"
    using assms(1) that [of 9] that [of 11] that [of 13] by (auto simp: aes_keylen_ok_def aes_rounds_def)
  let ?d = "dec[0 := enc ! (n + 24), 1 := enc ! (n + 25), 2 := enc ! (n + 26), 3 := enc ! (n + 27)]"
  have "4 * (1 + R) \<le> length ?d" using R assms(2) by simp
  from aes_dec_keys_loop_nth [OF this, of enc] obtain d where d:
    "plain_dec_keys_loop enc 4 (4 * R) ?d = (4 * (1 + R), d)" "length d = 60"
    "\<forall>p<4. d ! p = ?d ! p"
    "\<forall>t<R. \<forall>e<4. d ! (4 * (1 + t) + e) = inv_mix_columns (enc ! (4 * (R - t) + e))"
    using assms(2) by auto
  let ?i = "4 * (1 + R)"
  let ?f = "d[?i := enc ! 0, ?i + 1 := enc ! 1, ?i + 2 := enc ! 2, ?i + 3 := enc ! 3]"
  have f: "plain_dec_keys n enc dec = ?f"
    by (simp only: plain_dec_keys_def Let_def R(3) d(1) split)
  have low: "?f ! p = d ! p" if "p < ?i" for p using that by simp
  have four: "e \<in> {0, 1, 2, 3}" if "e < 4" for e :: nat using that by auto
  have nn: "n + 24 = 4 + 4 * R" "n + 25 = 5 + 4 * R" "n + 26 = 6 + 4 * R" "n + 27 = 7 + 4 * R"
    using R(3) by simp_all
  have first: "?d ! e = enc ! (4 * Suc R + e)" if "e < 4" for e
    using four [OF that] assms(2) by (auto simp: nth_list_update nn)
  have last: "?f ! (4 * Suc R + e) = enc ! e" if "e < 4" for e
    using four [OF that] d(2) R(4) by (auto simp: nth_list_update)
  have mid: "?f ! (4 * j + e) = inv_mix_columns (enc ! (4 * (Suc R - j) + e))" if "0 < j" "j < Suc R" "e < 4" for j e
    using d(4) [rule_format, of "j - 1" e] low [of "4 * j + e"] that by (simp add: Suc_diff_Suc)
  show ?thesis
    unfolding f dec_keys_match_def R(1)
    using first last mid low d(2,3) by simp
qed

subsection \<open>FIPS-197\<close>

text \<open>
  The cipher and the key expansion of the standard, on bytes: a word is the list of its four
  bytes, the state the list of its sixteen bytes in input order.
\<close>

definition xtime :: "u8 \<Rightarrow> u8" where
  "xtime b = push_bit 1 b XOR (if bit b 7 then 0x1b else 0)"

definition sub_bytes :: "bytes \<Rightarrow> bytes" where
  "sub_bytes s = map (\<lambda>b. aes_sbox ! unat b) s"

definition shift_rows :: "bytes \<Rightarrow> bytes" where
  "shift_rows s = map (\<lambda>p. s ! ((p + 4 * (p mod 4)) mod 16)) [0..<16]"

definition mix_column :: "u8 \<Rightarrow> u8 \<Rightarrow> u8 \<Rightarrow> u8 \<Rightarrow> bytes" where
  "mix_column a b c d =
     [xtime a XOR (xtime b XOR b) XOR c XOR d, a XOR xtime b XOR (xtime c XOR c) XOR d,
      a XOR b XOR xtime c XOR (xtime d XOR d), (xtime a XOR a) XOR b XOR c XOR xtime d]"

definition mix_state :: "bytes \<Rightarrow> bytes" where
  "mix_state s = concat (map (\<lambda>c. mix_column (s ! (4 * c)) (s ! (4 * c + 1)) (s ! (4 * c + 2)) (s ! (4 * c + 3))) [0..<4])"

definition xor_bytes :: "bytes \<Rightarrow> bytes \<Rightarrow> bytes" where
  "xor_bytes xs ys = map2 (XOR) xs ys"

fun rcon :: "nat \<Rightarrow> u8" where
  "rcon 0 = 1"
| "rcon (Suc n) = xtime (rcon n)"

function fips_word :: "bytes \<Rightarrow> nat \<Rightarrow> nat \<Rightarrow> bytes" where
  "fips_word key nk i =
     (if i < nk \<or> nk = 0 then take 4 (drop (4 * i) key)
      else xor_bytes (fips_word key nk (i - nk))
        (if i mod nk = 0 then xor_bytes (sub_bytes (rotate1 (fips_word key nk (i - 1)))) [rcon (i div nk - 1), 0, 0, 0]
         else if 6 < nk \<and> i mod nk = 4 then sub_bytes (fips_word key nk (i - 1))
         else fips_word key nk (i - 1)))"
  by auto
termination
  by (relation "measure (\<lambda>(key, nk, i). i)") auto

declare fips_word.simps [simp del]

definition round_key :: "bytes \<Rightarrow> nat \<Rightarrow> nat \<Rightarrow> bytes" where
  "round_key key nk j = concat (map (\<lambda>i. fips_word key nk (4 * j + i)) [0..<4])"

definition fips_cipher :: "bytes \<Rightarrow> bytes \<Rightarrow> bytes" where
  "fips_cipher key inp =
     (let nk = length key div 4; nr = nk + 6;
          s = fold (\<lambda>j s. xor_bytes (mix_state (shift_rows (sub_bytes s))) (round_key key nk j)) [1..<nr]
                (xor_bytes inp (round_key key nk 0))
      in xor_bytes (shift_rows (sub_bytes s)) (round_key key nk nr))"

text \<open>Words as four bytes: the word operations act lane by lane.\<close>

lemma word_of4_xor:
  "word_of4 a b c d XOR word_of4 a' b' c' d' = word_of4 (a XOR a') (b XOR b') (c XOR c') (d XOR d')"
  by (rule bit_word_eqI) (auto simp: bit_word_of4 bit_xor_iff)

lemma byte_of_xor: "byte_of k (v XOR w) = byte_of k v XOR byte_of k w"
  unfolding byte_of_def by (rule bit_word_eqI) (auto simp: bit_simps)

lemma word4_cases:
  obtains a b c d where "w = word_of4 a b c d"
  using word_of4_byte_of [of w, symmetric] by blast

lemma ror32_word_of4:
  "ror32 (word_of4 a b c d) 8 = word_of4 b c d a" "ror32 (word_of4 a b c d) 16 = word_of4 c d a b"
  by (rule bit_word_eqI, auto simp: ror32_def bit_simps bit_word_of4 dest: bit_imp_le_length)+

lemma xtime_xor: "xtime (a XOR b) = xtime a XOR xtime b"
  unfolding xtime_def by (rule bit_word_eqI) (auto simp: bit_simps)

lemma mul_by_x_basis:
  "list_all (\<lambda>k. mul_by_x (2 ^ k) = word_of4 (xtime (byte_of 0 (2 ^ k))) (xtime (byte_of (Suc 0) (2 ^ k)))
     (xtime (byte_of 2 (2 ^ k))) (xtime (byte_of 3 (2 ^ k)))) [0..<32]"
  by (simp add: upt_rec mul_by_x_def xtime_def byte_of_def word_of4_def)

lemma mul_by_x_word_of4: "mul_by_x (word_of4 a b c d) = word_of4 (xtime a) (xtime b) (xtime c) (xtime d)"
proof -
  let ?f = "\<lambda>w. word_of4 (xtime (byte_of 0 w)) (xtime (byte_of (Suc 0) w)) (xtime (byte_of 2 w)) (xtime (byte_of 3 w))"
  have "mul_by_x w = ?f w" for w
  proof (rule linear_word_eq [of mul_by_x ?f])
    show "mul_by_x (2 ^ k) = ?f (2 ^ k)" if "k < LENGTH(32)" for k
      using mul_by_x_basis that by (simp add: list_all_iff)
  qed (simp_all only: mul_by_x_xor byte_of_xor xtime_xor word_of4_xor)
  from this [of "word_of4 a b c d"] show ?thesis by simp
qed

lemma mix_columns_word_of4: "put_unaligned_u32 (mix_columns (word_of4 a b c d)) = mix_column a b c d"
  by (simp add: put_unaligned_bytes mix_columns_def Let_def mul_by_x_word_of4 ror32_word_of4 word_of4_xor
      mix_column_def xor_ac)

text \<open>The layers of the code are those of the standard.\<close>

lemma upd_layer_bytes:
  assumes "length s = 4"
  shows "bytes_of (sub_layer s) = shift_rows (sub_bytes (bytes_of s))"
    and "bytes_of (map mix_columns s) = mix_state (bytes_of s)"
proof -
  obtain a b c d where s: "s = [a, b, c, d]" using assms by (rule length4_cases)
  show "bytes_of (sub_layer s) = shift_rows (sub_bytes (bytes_of s))"
    by (simp add: s bytes_of_def sub_layer_def upt4 upt16 shift_rows_def sub_bytes_def put_unaligned_bytes
        subshift_word_of4)
  have m: "put_unaligned_u32 (mix_columns w) = mix_column (byte_of 0 w) (byte_of 1 w) (byte_of 2 w) (byte_of 3 w)" for w
    using mix_columns_word_of4 [of "byte_of 0 w" "byte_of 1 w" "byte_of 2 w" "byte_of 3 w"] by simp
  show "bytes_of (map mix_columns s) = mix_state (bytes_of s)"
    by (simp add: s bytes_of_def mix_state_def upt4 m) (simp add: put_unaligned_bytes)
qed

lemma length_xor_bytes [simp]: "length (xor_bytes xs ys) = min (length xs) (length ys)"
  by (simp add: xor_bytes_def)

lemma put_unaligned_xor: "put_unaligned_u32 (v XOR w) = xor_bytes (put_unaligned_u32 v) (put_unaligned_u32 w)"
  by (simp add: put_unaligned_bytes byte_of_xor xor_bytes_def)

lemma xor_bytes_append:
  "length xs = length ys \<Longrightarrow> xor_bytes (xs @ xs') (ys @ ys') = xor_bytes xs ys @ xor_bytes xs' ys'"
  by (simp add: xor_bytes_def)

lemma add_key_bytes:
  assumes "length s = 4" "\<And>i. i < 4 \<Longrightarrow> put_unaligned_u32 (ks ! (4 * j + i)) = fips_word key nk (4 * j + i)"
  shows "bytes_of (add_key ks j s) = xor_bytes (bytes_of s) (round_key key nk j)"
proof -
  obtain a b c d where s: "s = [a, b, c, d]" using assms(1) by (rule length4_cases)
  have l: "length (put_unaligned_u32 w) = 4" for w by (simp add: put_unaligned_u32_def)
  have "fips_word key nk (4 * j) = put_unaligned_u32 (ks ! (4 * j))"
    "fips_word key nk (4 * j + 1) = put_unaligned_u32 (ks ! (4 * j + 1))"
    "fips_word key nk (4 * j + 2) = put_unaligned_u32 (ks ! (4 * j + 2))"
    "fips_word key nk (4 * j + 3) = put_unaligned_u32 (ks ! (4 * j + 3))"
    using assms(2) [of 0] assms(2) [of 1] assms(2) [of 2] assms(2) [of 3] by simp_all
  then show ?thesis
    by (simp add: s bytes_of_def add_key_def round_key_def upt4 put_unaligned_xor xor_bytes_append l)
qed

lemma enc_fold_bytes:
  assumes "length s = 4" "\<And>j i. j \<in> set js \<Longrightarrow> i < 4 \<Longrightarrow> put_unaligned_u32 (ks ! (4 * j + i)) = fips_word key nk (4 * j + i)"
  shows "bytes_of (fold (enc_round ks) js s) =
    fold (\<lambda>j s. xor_bytes (mix_state (shift_rows (sub_bytes s))) (round_key key nk j)) js (bytes_of s)"
  using assms
proof (induction js arbitrary: s)
  case (Cons j js)
  have "bytes_of (enc_round ks j s) = xor_bytes (mix_state (shift_rows (sub_bytes (bytes_of s)))) (round_key key nk j)"
    unfolding enc_round_def using Cons.prems by (simp add: add_key_bytes upd_layer_bytes)
  moreover have "length (enc_round ks j s) = 4" by (simp add: enc_round_def)
  ultimately show ?case using Cons by simp
qed simp

lemma aes_encrypt_fips_ctx:
  assumes "aes_keylen_ok (length key)" "key_length ctx = length key" "length (key_enc ctx) = 60" "length xs = 16"
    and keys: "\<And>i. i < length key + 28 \<Longrightarrow> put_unaligned_u32 (key_enc ctx ! i) = fips_word key (length key div 4) i"
  shows "aes_encrypt ctx xs = Some (fips_cipher key xs)"
proof -
  let ?ks = "key_enc ctx" and ?nk = "length key div 4" and ?R = "aes_rounds (length key)"
  have R: "?R = ?nk + 6" "length key = 4 * ?nk"
    using assms(1) by (auto simp: aes_rounds_def aes_keylen_ok_def)
  have k: "put_unaligned_u32 (?ks ! (4 * j + i)) = fips_word key ?nk (4 * j + i)" if "j \<le> ?R" "i < 4" for i j
    by (rule keys) (use that R in linarith)
  let ?s = "add_key ?ks 0 (words_of xs)"
  have s0: "bytes_of ?s = xor_bytes xs (round_key key ?nk 0)"
    using add_key_bytes [of "words_of xs" ?ks 0 key ?nk] k [of 0] assms(4)
    by (simp add: bytes_of_words_of length_words_of)
  let ?f = "fold (enc_round ?ks) [1..<?R] ?s"
  have f: "bytes_of ?f = fold (\<lambda>j s. xor_bytes (mix_state (shift_rows (sub_bytes s))) (round_key key ?nk j)) [1..<?R] (bytes_of ?s)"
    by (rule enc_fold_bytes) (simp_all add: k)
  have l: "bytes_of (add_key ?ks ?R (sub_layer ?f)) = xor_bytes (shift_rows (sub_bytes (bytes_of ?f))) (round_key key ?nk ?R)"
    by (subst add_key_bytes [OF length_layers(1)]) (simp_all add: k upd_layer_bytes length_enc_fold)
  have "aes_encrypt ctx xs = Some (bytes_of (add_key ?ks ?R (sub_layer ?f)))"
    using aes_encrypt_rounds [of ctx xs] assms(1-4) by simp
  then show ?thesis by (simp only: fips_cipher_def Let_def l f s0 flip: R(1))
qed

subsection \<open>The key expansion\<close>

definition fips_w32 :: "bytes \<Rightarrow> nat \<Rightarrow> u32" where
  "fips_w32 key i = get_unaligned_u32 (fips_word key (length key div 4) i) 0"

lemma length_fips_word:
  assumes "length key = 4 * nk" "0 < nk"
  shows "length (fips_word key nk i) = 4"
proof (induction i rule: less_induct)
  case (less i)
  show ?case
  proof (cases "i < nk")
    case True
    with assms show ?thesis by (subst fips_word.simps) simp
  next
    case False
    with assms have "i - nk < i" "i - 1 < i" by auto
    with less False assms show ?thesis by (subst fips_word.simps) (simp add: sub_bytes_def)
  qed
qed

lemma get_unaligned_list4: "length xs = 4 \<Longrightarrow> put_unaligned_u32 (get_unaligned_u32 xs 0) = xs"
  by (auto elim!: length4_cases simp: put_unaligned_bytes get_unaligned_word_of4)

lemma get_unaligned_xor:
  "length xs = 4 \<Longrightarrow> length ys = 4 \<Longrightarrow>
   get_unaligned_u32 (xor_bytes xs ys) 0 = get_unaligned_u32 xs 0 XOR get_unaligned_u32 ys 0"
  by (auto elim!: length4_cases simp: get_unaligned_word_of4 xor_bytes_def word_of4_xor)

lemma get_unaligned_sub: "length xs = 4 \<Longrightarrow> get_unaligned_u32 (sub_bytes xs) 0 = subw (get_unaligned_u32 xs 0)"
  by (auto elim!: length4_cases simp: get_unaligned_word_of4 sub_bytes_def subw_word_of4)

lemma get_unaligned_rot: "length xs = 4 \<Longrightarrow> get_unaligned_u32 (rotate1 xs) 0 = ror32 (get_unaligned_u32 xs 0) 8"
  by (auto elim!: length4_cases simp: get_unaligned_word_of4 ror32_word_of4)

lemma subw_ror32: "subw (ror32 w 8) = ror32 (subw w) 8"
  by (cases w rule: word4_cases) (simp add: subw_word_of4 ror32_word_of4)

lemma fips_w32_rec:
  assumes "length key = 4 * nk" "0 < nk" "nk \<le> i"
  shows "fips_w32 key i = fips_w32 key (i - nk) XOR
    (if i mod nk = 0 then ror32 (subw (fips_w32 key (i - 1))) 8 XOR word_of4 (rcon (i div nk - 1)) 0 0 0
     else if 6 < nk \<and> i mod nk = 4 then subw (fips_w32 key (i - 1)) else fips_w32 key (i - 1))"
proof -
  have nk: "length key div 4 = nk" using assms(1) by simp
  have r: "get_unaligned_u32 [x, 0, 0, 0] 0 = word_of4 x 0 0 0" for x
    by (simp add: get_unaligned_word_of4)
  have l: "length (fips_word key nk j) = 4" for j by (rule length_fips_word [OF assms(1,2)])
  have s: "length (sub_bytes xs) = length xs" for xs by (simp add: sub_bytes_def)
  show ?thesis
    unfolding fips_w32_def nk using assms(2,3)
    by (subst fips_word.simps)
      (simp add: get_unaligned_xor get_unaligned_sub get_unaligned_rot subw_ror32 l s r)
qed

text \<open>The expanded key is right up to word \<open>m\<close>.\<close>

definition expanded :: "bytes \<Rightarrow> nat \<Rightarrow> u32 list \<Rightarrow> bool" where
  "expanded key m ks \<longleftrightarrow> length ks = 60 \<and> (\<forall>p<m. ks ! p = fips_w32 key p)"

lemma expanded_Suc:
  assumes "expanded key m ks" "m < 60" "v = fips_w32 key m" "m' = m"
  shows "expanded key (Suc m) (ks[m' := v])"
  using assms by (auto simp: expanded_def nth_list_update less_Suc_eq)

lemma expanded_nth: "expanded key m ks \<Longrightarrow> p < m \<Longrightarrow> ks ! p = fips_w32 key p"
  by (simp add: expanded_def)

lemma let_rule: "Q e \<Longrightarrow> (\<And>x. Q x \<Longrightarrow> P (f x)) \<Longrightarrow> P (let x = e in f x)"
  by simp

lemma expanded_plain:
  assumes "expanded key (Suc i * nk + e) ks" "length key = 4 * nk" "Suc i * nk + e < 60"
    "0 < e" "e < nk" "\<not> (6 < nk \<and> e = 4)" "p = Suc i * nk + e - 1" "q = i * nk + e" "m = Suc i * nk + e"
  shows "expanded key (Suc i * nk + Suc e) (ks[m := ks ! p XOR ks ! q])"
proof -
  have "(Suc i * nk + e) mod nk = e" using assms(5) by (metis mod_mult_self3 mod_less)
  moreover have "Suc i * nk + e - nk = i * nk + e" by simp
  ultimately have "fips_w32 key (Suc i * nk + e) = fips_w32 key q XOR fips_w32 key p"
    using fips_w32_rec [OF assms(2), of "Suc i * nk + e"] assms(4-8) by simp
  moreover have "ks ! p = fips_w32 key p" "ks ! q = fips_w32 key q"
    using assms(4,5,7,8) by (auto intro!: expanded_nth [OF assms(1)])
  ultimately have "ks ! p XOR ks ! q = fips_w32 key (Suc i * nk + e)" by (simp add: xor.commute)
  from expanded_Suc [OF assms(1,3) this assms(9)] show ?thesis by simp
qed

lemma expanded_first:
  assumes "expanded key (Suc i * nk) ks" "length key = 4 * nk" "Suc i * nk < 60" "0 < nk"
    "rc = word_of4 (rcon i) 0 0 0"
  shows "expanded key (Suc i * nk + 1) (ks[i * nk + nk := ror32 (subw (ks ! (i * nk + nk - 1))) 8 XOR rc XOR ks ! (i * nk)])"
proof -
  have "Suc i * nk mod nk = 0" "Suc i * nk div nk - 1 = i" "Suc i * nk - nk = i * nk" "nk \<le> Suc i * nk"
    using assms(4) by simp_all
  then have "fips_w32 key (Suc i * nk) = fips_w32 key (i * nk) XOR
      (ror32 (subw (fips_w32 key (Suc i * nk - 1))) 8 XOR rc)"
    using fips_w32_rec [OF assms(2,4), of "Suc i * nk"] assms(5) by (simp only: simp_thms if_True)
  moreover have "ks ! (i * nk + nk - 1) = fips_w32 key (Suc i * nk - 1)" "ks ! (i * nk) = fips_w32 key (i * nk)"
    using assms(4) expanded_nth [OF assms(1), of "i * nk + nk - 1"] expanded_nth [OF assms(1), of "i * nk"]
    by (simp_all add: add.commute)
  ultimately have "ror32 (subw (ks ! (i * nk + nk - 1))) 8 XOR rc XOR ks ! (i * nk) = fips_w32 key (Suc i * nk)"
    by (simp only: xor_ac)
  from expanded_Suc [OF assms(1,3) this, of "i * nk + nk"] show ?thesis by (simp add: add.commute)
qed

lemma expanded_sub4:
  assumes "expanded key (Suc i * 8 + 4) ks" "length key = 32" "Suc i * 8 + 4 < 60"
  shows "expanded key (Suc i * 8 + 5) (ks[i * 8 + 8 + 4 := subw (ks ! (i * 8 + 8 + 3)) XOR ks ! (i * 8 + 4)])"
proof -
  have "(Suc i * 8 + 4) mod 8 = (4 :: nat)" by presburger
  then have "fips_w32 key (Suc i * 8 + 4) = fips_w32 key (i * 8 + 4) XOR subw (fips_w32 key (i * 8 + 8 + 3))"
    using fips_w32_rec [of key 8 "Suc i * 8 + 4"] assms(2) by (simp add: add.commute)
  moreover have "ks ! (i * 8 + 8 + 3) = fips_w32 key (i * 8 + 8 + 3)" "ks ! (i * 8 + 4) = fips_w32 key (i * 8 + 4)"
    by (rule expanded_nth [OF assms(1)], simp)+
  ultimately have "subw (ks ! (i * 8 + 8 + 3)) XOR ks ! (i * 8 + 4) = fips_w32 key (Suc i * 8 + 4)"
    by (simp only: xor_ac)
  from expanded_Suc [OF assms(1,3) this, of "i * 8 + 8 + 4"] show ?thesis by (simp add: add.commute)
qed

text \<open>The number of passes of the loop: all ten for 16 byte keys, \<open>break\<close> ends the others.\<close>

definition expand_passes :: "nat \<Rightarrow> nat" where
  "expand_passes n = (if n = 24 then 8 else if n = 32 then 7 else 10)"

definition step_post :: "bytes \<Rightarrow> nat \<Rightarrow> nat \<Rightarrow> u32 list \<times> bool \<Rightarrow> bool" where
  "step_post key nk i r \<longleftrightarrow>
     (if snd r then Suc i = expand_passes (length key) \<and> nk \<noteq> 4 \<and> expanded key (Suc i * nk + 4) (fst r)
      else (Suc i < expand_passes (length key) \<or> nk = 4) \<and> expanded key (Suc i * nk + nk) (fst r))"

lemma aes_expand_tail_24:
  assumes "length key = 24" "i < 8" "expanded key (Suc i * 6 + 4) ks"
  shows "step_post key 6 i (if 7 \<le> i then (ks, True)
    else let ks = ks[i * 6 + 6 + 4 := ks ! (i * 6 + 6 + 3) XOR ks ! (i * 6 + 4)];
             ks = ks[i * 6 + 6 + 5 := ks ! (i * 6 + 6 + 4) XOR ks ! (i * 6 + 5)] in (ks, False))"
proof (cases "7 \<le> i")
  case True
  with assms have "i = 7" by simp
  with assms show ?thesis by (simp add: step_post_def expand_passes_def)
next
  case False
  note rule = let_rule [where P = "step_post key 6 i"] and plain = expanded_plain [where nk = 6]
  have "step_post key 6 i (let ks = ks[i * 6 + 6 + 4 := ks ! (i * 6 + 6 + 3) XOR ks ! (i * 6 + 4)];
             ks = ks[i * 6 + 6 + 5 := ks ! (i * 6 + 6 + 4) XOR ks ! (i * 6 + 5)] in (ks, False))"
    apply (rule rule [where Q = "expanded key (Suc i * 6 + Suc 4)"])
     apply (rule plain [OF assms(3)], (use assms False in auto)[8])
    apply (rule rule [where Q = "expanded key (Suc i * 6 + Suc 5)"])
     apply (rule plain, simp, (use assms False in auto)[8])
    using False assms(1) by (simp add: step_post_def expand_passes_def add.commute)
  with False show ?thesis by simp
qed

lemma aes_expand_tail_32:
  assumes "length key = 32" "i < 7" "expanded key (Suc i * 8 + 4) ks"
  shows "step_post key 8 i (if 6 \<le> i then (ks, True)
    else let ks = ks[i * 8 + 8 + 4 := subw (ks ! (i * 8 + 8 + 3)) XOR ks ! (i * 8 + 4)];
             ks = ks[i * 8 + 8 + 5 := ks ! (i * 8 + 8 + 4) XOR ks ! (i * 8 + 5)];
             ks = ks[i * 8 + 8 + 6 := ks ! (i * 8 + 8 + 5) XOR ks ! (i * 8 + 6)];
             ks = ks[i * 8 + 8 + 7 := ks ! (i * 8 + 8 + 6) XOR ks ! (i * 8 + 7)] in (ks, False))"
proof (cases "6 \<le> i")
  case True
  with assms have "i = 6" by simp
  with assms show ?thesis by (simp add: step_post_def expand_passes_def)
next
  case False
  note rule = let_rule [where P = "step_post key 8 i"] and plain = expanded_plain [where nk = 8]
  have "step_post key 8 i (let ks = ks[i * 8 + 8 + 4 := subw (ks ! (i * 8 + 8 + 3)) XOR ks ! (i * 8 + 4)];
             ks = ks[i * 8 + 8 + 5 := ks ! (i * 8 + 8 + 4) XOR ks ! (i * 8 + 5)];
             ks = ks[i * 8 + 8 + 6 := ks ! (i * 8 + 8 + 5) XOR ks ! (i * 8 + 6)];
             ks = ks[i * 8 + 8 + 7 := ks ! (i * 8 + 8 + 6) XOR ks ! (i * 8 + 7)] in (ks, False))"
    apply (rule rule [where Q = "expanded key (Suc i * 8 + 5)"])
     apply (rule expanded_sub4 [OF assms(3,1)], use False in simp)
    apply (rule rule [where Q = "expanded key (Suc i * 8 + Suc 5)"])
     apply (rule plain, assumption, (use assms False in auto)[8])
    apply (rule rule [where Q = "expanded key (Suc i * 8 + Suc 6)"])
     apply (rule plain, simp, (use assms False in auto)[8])
    apply (rule rule [where Q = "expanded key (Suc i * 8 + Suc 7)"])
     apply (rule plain, simp, (use assms False in auto)[8])
    using False assms(1) by (simp add: step_post_def expand_passes_def add.commute)
  with False show ?thesis by simp
qed

lemma aes_expand_step_post:
  assumes key: "length key = 4 * nk" "nk = 4 \<or> nk = 6 \<or> nk = 8" and i: "i < expand_passes (length key)"
    and rc: "rc = word_of4 (rcon i) 0 0 0" and ks: "expanded key (Suc i * nk) ks"
  shows "step_post key nk i (plain_expand_step (length key) i rc ks)"
proof -
  define P where "P = step_post key nk i"
  have b: "Suc i * nk + 3 < 60"
    using key i by (auto simp: expand_passes_def)
  have ne: "((32 :: nat) = 24) = False" by simp
  note plain = expanded_plain [OF _ key(1)] and rule = let_rule [where P = P]
  have "P (plain_expand_step (length key) i rc ks)"
    unfolding plain_expand_step_def
    apply (rule rule [where Q = "\<lambda>x. x = nk"], simp add: key)
    apply (rule rule [where Q = "\<lambda>x. x = i * nk"], simp)
    apply (rule rule [where Q = "\<lambda>x. x = i * nk + nk"], simp, hypsubst)
    apply (rule rule [where Q = "expanded key (Suc i * nk + 1)"])
     apply (rule expanded_first [OF ks key(1) _ _ rc], use b key in simp, (use key in auto)[1])
    apply (rule rule [where Q = "expanded key (Suc i * nk + Suc 1)"])
     apply (rule plain, assumption, (use b key in auto)[7])
    apply (rule rule [where Q = "expanded key (Suc i * nk + Suc 2)"])
     apply (rule plain, simp, (use b key in auto)[7])
    apply (rule rule [where Q = "expanded key (Suc i * nk + Suc 3)"])
     apply (rule plain, simp, (use b key in auto)[7])
    subgoal premises p for _ _ _ _ _ _ ks'
      using key(2)
    proof (elim disjE)
      assume "nk = 4" then show ?thesis
        using p key(1) by (simp add: P_def step_post_def)
    next
      assume n: "nk = 6"
      with key(1) have l: "length key = 24" by simp
      have "expanded key (Suc i * 6 + 4) ks'" using p n by simp
      from aes_expand_tail_24 [OF l _ this] i show ?thesis
        unfolding P_def n l expand_passes_def by (simp only: refl if_True)
    next
      assume n: "nk = 8"
      with key(1) have l: "length key = 32" by simp
      have "expanded key (Suc i * 8 + 4) ks'" using p n by simp
      from aes_expand_tail_32 [OF l _ this] i show ?thesis
        unfolding P_def n l expand_passes_def by (simp only: ne refl if_True if_False)
    qed
    done
  then show ?thesis by (simp add: P_def)
qed

lemma rcon_word: "mul_by_x (word_of4 (rcon i) 0 0 0) = word_of4 (rcon (Suc i)) 0 0 0"
  by (simp add: mul_by_x_word_of4 xtime_def)

lemma aes_expand_loop_expanded:
  assumes key: "length key = 4 * nk" "nk = 4 \<or> nk = 6 \<or> nk = 8"
    and i: "i < expand_passes (length key) \<or> nk = 4 \<and> i = 10" and ks: "expanded key (Suc i * nk) ks"
  shows "expanded key (length key + 28) (plain_expand_loop (length key) i (word_of4 (rcon i) 0 0 0) ks)"
  using i ks
proof (induction "10 - i" arbitrary: i ks)
  case 0
  then have "nk = 4 \<and> i = 10" by (auto simp: expand_passes_def split: if_splits)
  with 0 key show ?case by (simp add: plain_expand_loop.simps)
next
  case (Suc d)
  let ?r = "plain_expand_step (length key) i (word_of4 (rcon i) 0 0 0) ks"
  have i: "i < 10" "i < expand_passes (length key)"
    using Suc.hyps(2) Suc.prems(1) by (auto simp: expand_passes_def)
  then have post: "step_post key nk i ?r"
    using aes_expand_step_post [OF key _ refl] Suc.prems(2) by blast
  have eq: "plain_expand_loop (length key) i (word_of4 (rcon i) 0 0 0) ks =
      (if snd ?r then fst ?r else plain_expand_loop (length key) (Suc i) (word_of4 (rcon (Suc i)) 0 0 0) (fst ?r))"
    using i by (subst plain_expand_loop.simps) (simp add: rcon_word split: prod.split)
  show ?case
  proof (cases "snd ?r")
    case True
    with post key have "Suc i * nk + 4 = length key + 28" by (auto simp: step_post_def expand_passes_def)
    moreover have "expanded key (Suc i * nk + 4) (fst ?r)"
      using post unfolding step_post_def if_P [OF True] by blast
    ultimately show ?thesis by (simp only: eq True if_True)
  next
    case False
    have n: "Suc i < expand_passes (length key) \<or> nk = 4 \<and> Suc i = 10"
      using False post i key by (auto simp: step_post_def expand_passes_def)
    have "expanded key (Suc (Suc i) * nk) (fst ?r)"
      using False post by (simp add: step_post_def add.commute)
    with Suc.hyps(1) [of "Suc i" "fst ?r"] Suc.hyps(2) n eq False show ?thesis by simp
  qed
qed

lemma fold_update_nth:
  assumes "n \<le> length ks"
  shows "length (fold (\<lambda>i ks. ks[i := f i]) [0..<n] ks) = length ks \<and>
    (\<forall>p<n. fold (\<lambda>i ks. ks[i := f i]) [0..<n] ks ! p = f p)"
  using assms by (induction n) (auto simp: nth_list_update less_Suc_eq)

lemma fips_w32_key:
  assumes "i < length key div 4"
  shows "fips_w32 key i = get_unaligned_u32 key (4 * i)"
proof -
  have "fips_word key (length key div 4) i = take 4 (drop (4 * i) key)"
    using assms by (subst fips_word.simps) simp
  then show ?thesis using assms by (simp add: fips_w32_def get_unaligned_u32_def)
qed

lemma aes_expand_key:
  assumes "aes_keylen_ok (length key)" "length ks = 60"
  shows "expanded key (length key + 28) (plain_expand_loop (length key) 0 1
    (fold (\<lambda>i ks. ks[i := get_unaligned_u32 key (4 * i)]) [0..<length key div 4] ks))"
proof -
  define nk where "nk = length key div 4"
  have key: "length key = 4 * nk" "nk = 4 \<or> nk = 6 \<or> nk = 8"
    using assms(1) by (auto simp: nk_def aes_keylen_ok_def)
  have "expanded key (Suc 0 * nk) (fold (\<lambda>i ks. ks[i := get_unaligned_u32 key (4 * i)]) [0..<nk] ks)"
    using fold_update_nth [of nk ks "\<lambda>i. get_unaligned_u32 key (4 * i)"] key assms(2)
    by (auto simp: expanded_def fips_w32_key)
  moreover have "word_of4 (rcon 0) 0 0 0 = 1" by (simp add: word_of4_def)
  moreover have "0 < expand_passes (length key)" by (simp add: expand_passes_def)
  ultimately show ?thesis
    using aes_expand_loop_expanded [OF key, of 0] by (simp add: nk_def)
qed

subsection \<open>The accesses of the key schedule are in bounds\<close>

lemma next_key_ok:
  "rko + k < length ks \<Longrightarrow> rki < rko \<Longrightarrow> 0 < k \<Longrightarrow> next_key f ks rko rki k = Some (ks[rko + k := f (ks ! (rko + (k - 1))) XOR ks ! (rki + k)])"
  using ld1_nat [of ks "rko + (k - 1)"] ld1_nat [of ks "rki + k"] st1_nat [of ks "rko + k"]
  by (simp add: next_key_def of_nat_diff add_diff_eq)

lemma length_plain_step: "length (fst (plain_expand_step n i rc ks)) = length ks"
  by (simp add: plain_expand_step_def Let_def)

lemma aes_expand_step_eq:
  assumes n: "aes_keylen_ok n" and ks: "length ks = 60" and i: "i < expand_passes n"
  shows "aes_expand_step n i rc ks = Some (plain_expand_step n i rc ks)"
proof -
  define k r where "k = n div 4" and "r = i * k"
  have k: "0 < k" "r < r + k" "r + k + 3 < 60" using n i by (auto simp: k_def r_def aes_keylen_ok_def expand_passes_def)
  have k5: "r + k + 5 < 60" if "n = 24" "i < 7" using that by (simp add: k_def r_def)
  have k7: "r + k + 7 < 60" if "n = 32" "i < 6" using that by (simp add: k_def r_def)
  have l: "ld1 ks (int (r + k) - 1) = Some (ks ! (r + k - 1))" "ld1 ks (int r) = Some (ks ! r)"
    using ld1_nat [of ks "r + k - 1"] ld1_nat [of ks r] k ks by (simp_all add: of_nat_diff)
  have s: "st1 ks (int (r + k)) v = Some (ks[r + k := v])" for v using st1_nat [of ks "r + k" v] k ks by simp
  note steps = aes_expand_step_def plain_expand_step_def Let_def k_def [symmetric] r_def [symmetric] l s bind.simps
  consider "n = 24" "7 \<le> i" | "n = 24" "i < 7" | "n = 32" "6 \<le> i" | "n = 32" "i < 6" | "n = 16"
    using n unfolding aes_keylen_ok_def by linarith
  then show ?thesis
  proof cases
    case 2
    then show ?thesis unfolding steps using k k5 [OF 2] ks by (simp add: next_key_ok)
  next
    case 4
    then show ?thesis unfolding steps using k k7 [OF 4] ks by (simp add: next_key_ok)
  qed (unfold steps, use k ks in \<open>simp_all add: next_key_ok\<close>)
qed

lemma aes_expand_loop_eq:
  "aes_keylen_ok n \<Longrightarrow> length ks = 60 \<Longrightarrow> i < expand_passes n \<or> n = 16 \<and> i = 10 \<Longrightarrow> aes_expand_loop n i rc ks = Some (plain_expand_loop n i rc ks)"
proof (induction n i rc ks rule: plain_expand_loop.induct)
  case (1 n i rc ks)
  show ?case
  proof (cases "i < 10")
    case False
    then show ?thesis by (subst aes_expand_loop.simps, subst plain_expand_loop.simps) simp
  next
    case True
    then have i: "i < expand_passes n" using "1.prems"(3) by auto
    obtain ks' stop where r: "plain_expand_step n i rc ks = (ks', stop)" by (cases "plain_expand_step n i rc ks")
    have l: "length ks' = 60" using length_plain_step [of n i rc ks] r "1.prems"(2) by simp
    have s: "stop \<longleftrightarrow> (n = 24 \<and> 7 \<le> i) \<or> (n = 32 \<and> 6 \<le> i)"
      using r by (auto simp: plain_expand_step_def Let_def split: if_splits)
    have "Suc i < expand_passes n \<or> n = 16 \<and> Suc i = 10" if "\<not> stop"
      using that s i "1.prems"(1) by (auto simp: expand_passes_def aes_keylen_ok_def split: if_splits)
    then show ?thesis
      using True aes_expand_step_eq [OF "1.prems"(1,2) i, of rc] "1.IH" [OF True r [symmetric]] l "1.prems"(1)
      by (subst aes_expand_loop.simps, subst plain_expand_loop.simps) (simp add: r)
  qed
qed

lemma copy_keys_ok:
  "j + 3 < length enc \<Longrightarrow> i + 3 < length dec \<Longrightarrow> copy_keys f enc j [0, 1, 2, 3] i dec =
     Some (dec[i := f (enc ! j), i + 1 := f (enc ! (j + 1)), i + 2 := f (enc ! (j + 2)), i + 3 := f (enc ! (j + 3))])"
  by (simp del: of_nat_add of_nat_Suc add: ld1_nat st1_nat)

lemma aes_dec_keys_loop_eq:
  "4 * (a + m) \<le> length dec \<Longrightarrow> 4 * Suc m \<le> length enc \<Longrightarrow>
   aes_dec_keys_loop enc (4 * a) (4 * m) dec = Some (plain_dec_keys_loop enc (4 * a) (4 * m) dec) \<and>
   fst (plain_dec_keys_loop enc (4 * a) (4 * m) dec) = 4 * (a + m) \<and> length (snd (plain_dec_keys_loop enc (4 * a) (4 * m) dec)) = length dec"
proof (induction m arbitrary: a dec)
  case 0
  then show ?case by (simp add: aes_dec_keys_loop.simps plain_dec_keys_loop.simps)
next
  case (Suc m)
  let ?j = "4 * Suc m" and ?i = "4 * a"
  let ?d = "dec[?i := inv_mix_columns (enc ! ?j), ?i + 1 := inv_mix_columns (enc ! (?j + 1)),
               ?i + 2 := inv_mix_columns (enc ! (?j + 2)), ?i + 3 := inv_mix_columns (enc ! (?j + 3))]"
  have c: "copy_keys inv_mix_columns enc ?j [0, 1, 2, 3] ?i dec = Some ?d" by (rule copy_keys_ok) (use Suc.prems in simp_all)
  have s: "4 * Suc a = ?i + 4" "?j - 4 = 4 * m" "0 < ?j" by simp_all
  have "aes_dec_keys_loop enc ?i ?j dec = aes_dec_keys_loop enc (4 * Suc a) (4 * m) ?d"
    using c s by (subst aes_dec_keys_loop.simps) (simp only: if_True bind.simps)
  moreover have "plain_dec_keys_loop enc ?i ?j dec = plain_dec_keys_loop enc (4 * Suc a) (4 * m) ?d"
    using s by (subst plain_dec_keys_loop.simps) (simp only: if_True)
  moreover have "4 * (Suc a + m) \<le> length ?d" "4 * Suc m \<le> length enc" using Suc.prems by simp_all
  note Suc.IH [OF this]
  ultimately show ?case by simp
qed

lemma aes_dec_keys_eq:
  assumes n: "aes_keylen_ok n" and l: "length enc = 60" "length dec = 60"
  shows "aes_dec_keys n enc dec = Some (plain_dec_keys n enc dec)"
proof -
  obtain R where R: "n + 20 = 4 * R" "n + 24 = 4 * Suc R" "R < 14" using n that [of 9] that [of 11] that [of 13] by (auto simp: aes_keylen_ok_def)
  let ?d = "dec[0 := enc ! (n + 24), 1 := enc ! (n + 25), 2 := enc ! (n + 26), 3 := enc ! (n + 27)]"
  have c: "copy_keys (\<lambda>w. w) enc (n + 24) [0, 1, 2, 3] 0 dec = Some ?d"
  proof -
    have e: "n + 24 + 1 = n + 25" "n + 24 + 2 = n + 26" "n + 24 + 3 = n + 27" by simp_all
    have "n + 24 + 3 < length enc" "0 + 3 < length dec" using R l by simp_all
    from copy_keys_ok [OF this, of "\<lambda>w. w"] show ?thesis unfolding e add_0 .
  qed
  have "4 * (1 + R) \<le> length ?d" "4 * Suc R \<le> length enc" using R l by simp_all
  note d = aes_dec_keys_loop_eq [OF this]
  obtain d' where d': "plain_dec_keys_loop enc 4 (n + 20) ?d = (4 * (1 + R), d')" "length d' = 60"
    using d l(2) by (cases "plain_dec_keys_loop enc 4 (n + 20) ?d") (simp add: R(1))
  have e: "aes_dec_keys_loop enc 4 (n + 20) ?d = Some (4 * (1 + R), d')" using d d' by (simp add: R(1))
  have "copy_keys (\<lambda>w. w) enc 0 [0, 1, 2, 3] (4 * (1 + R)) d' =
      Some (d'[4 * (1 + R) := enc ! 0, 4 * (1 + R) + 1 := enc ! 1, 4 * (1 + R) + 2 := enc ! 2, 4 * (1 + R) + 3 := enc ! 3])"
  proof -
    have "0 + 3 < length enc" "4 * (1 + R) + 3 < length d'" using R(3) l d'(2) by simp_all
    from copy_keys_ok [OF this, of "\<lambda>w. w"] show ?thesis unfolding add_0 .
  qed
  then show ?thesis using c e d' by (simp add: aes_dec_keys_def plain_dec_keys_def Let_def)
qed

lemma aes_load_key_eq:
  "i + n \<le> length ks \<Longrightarrow> aes_load_key xs i n ks = Some (fold (\<lambda>i ks. ks[i := get_unaligned_u32 xs (4 * i)]) [i..<i + n] ks)"
proof (induction n arbitrary: i ks)
  case (Suc n)
  have "[i..<i + Suc n] = i # [Suc i..<Suc i + n]" by (simp add: upt_rec)
  then show ?case using Suc.IH [of "Suc i" "ks[i := get_unaligned_u32 xs (4 * i)]"] Suc.prems by (simp add: st1_nat)
qed simp

lemma aes_keys_eq:
  fixes xs :: bytes
  assumes n: "aes_keylen_ok n" and l: "length ks = 60" "length dec = 60"
  defines "enc \<equiv> plain_expand_loop n 0 1 (fold (\<lambda>i ks. ks[i := get_unaligned_u32 xs (4 * i)]) [0..<n div 4] ks)"
  assumes e: "length enc = 60"
  shows "do { enc0 \<leftarrow> aes_load_key xs 0 (n div 4) ks; enc \<leftarrow> aes_expand_loop n 0 1 enc0; dec \<leftarrow> aes_dec_keys n enc dec; Some (c enc dec) } =
    Some (c enc (plain_dec_keys n enc dec))"
proof -
  have k: "n div 4 \<le> length ks" "0 < expand_passes n" using n l(1) by (auto simp: aes_keylen_ok_def expand_passes_def)
  then have "aes_load_key xs 0 (n div 4) ks = Some (fold (\<lambda>i ks. ks[i := get_unaligned_u32 xs (4 * i)]) [0..<n div 4] ks)"
    using aes_load_key_eq [of 0 "n div 4" ks xs] by simp
  moreover have "length (fold (\<lambda>i ks. ks[i := get_unaligned_u32 xs (4 * i)]) [0..<n div 4] ks) = 60"
    using fold_update_nth [OF k(1), of "\<lambda>i. get_unaligned_u32 xs (4 * i)"] l(1) by simp
  ultimately show ?thesis
    using aes_expand_loop_eq [OF n, of "fold (\<lambda>i ks. ks[i := get_unaligned_u32 xs (4 * i)]) [0..<n div 4] ks" 0 1] k(2)
      aes_dec_keys_eq [OF n e l(2)] by (simp add: enc_def)
qed

subsection \<open>Setting the key\<close>

text \<open>The key that is used: a key whose length is not a multiple of eight is padded with zeros.\<close>

definition aes_key_used :: "bytes \<Rightarrow> nat \<Rightarrow> bytes" where
  "aes_key_used key n =
     (if n mod 8 = 0 then take n key
      else let l = (if n < 8 then 16 else (n div 8 + 1) * 8) in take n key @ replicate (l - n) 0)"

lemma aes_set_key_ok:
  assumes "n \<le> length key" "n \<le> 32" "n \<noteq> 0" "n \<noteq> 8" "length (key_enc ctx) = 60" "length (key_dec ctx) = 60"
  shows "\<exists>ctx'. aes_set_key ctx key n = Some (0, ctx') \<and> aes_keylen_ok (length (aes_key_used key n)) \<and>
    key_length ctx' = length (aes_key_used key n) \<and> length (key_enc ctx') = 60 \<and> length (key_dec ctx') = 60 \<and>
    (\<forall>i<length (aes_key_used key n) + 28. key_enc ctx' ! i = fips_w32 (aes_key_used key n) i) \<and>
    dec_keys_match (aes_rounds (key_length ctx')) (key_enc ctx') (key_dec ctx')"
proof -
  let ?k = "aes_key_used key n"
  have kl: "length ?k = (if n mod 8 = 0 then n else if n < 8 then 16 else (n div 8 + 1) * 8)"
    using assms(1) by (auto simp: aes_key_used_def Let_def; presburger)
  have ok: "aes_keylen_ok (length ?k)"
    using assms(2-4) unfolding kl aes_keylen_ok_def by presburger
  obtain rest where pad: "aes_pad_key key n = Some (?k @ rest, length ?k)"
  proof (cases "n mod 8 = 0")
    case True
    then have "aes_pad_key key n = Some (?k @ drop n key, length ?k)"
      using kl by (simp add: aes_pad_key_def aes_key_used_def)
    then show thesis by (rule that)
  next
    case False
    then have l: "length ?k \<le> 32" using ok by (auto simp: aes_keylen_ok_def)
    have "n < 32" using assms(2) False by presburger
    then have "aes_pad_key key n = Some (take n key @ replicate (32 - n) 0, length ?k)"
      using False assms(1) kl ld_nat0 [of n key] st_nat0 [of "take n key" "replicate 32 (0 :: u8)"]
      by (simp add: aes_pad_key_def Let_def div_eq_0_iff)
    moreover have "take n key @ replicate (32 - n) 0 = ?k @ replicate (32 - length ?k) 0"
    proof -
      have "n \<le> length ?k" using kl False by (auto; presburger)
      with l have "32 - n = (length ?k - n) + (32 - length ?k)" by simp
      then have "replicate (32 - n) 0 = replicate (length ?k - n) 0 @ replicate (32 - length ?k) (0 :: u8)"
        by (metis replicate_add)
      moreover have "?k = take n key @ replicate (length ?k - n) 0"
        using False kl by (simp add: aes_key_used_def Let_def)
      ultimately show ?thesis by (metis append.assoc)
    qed
    ultimately show thesis using that by simp
  qed
  let ?e = "plain_expand_loop (length ?k) 0 1
    (fold (\<lambda>i ks. ks[i := get_unaligned_u32 ?k (4 * i)]) [0..<length ?k div 4] (key_enc ctx))"
  have e: "expanded ?k (length ?k + 28) ?e" by (rule aes_expand_key [OF ok assms(5)])
  have "aes_set_key ctx key n = Some (0, ctx\<lparr>key_length := length ?k, key_enc := ?e,
          key_dec := plain_dec_keys (length ?k) ?e (key_dec ctx)\<rparr>)"
    using ok ld_nat0 [of "length ?k" "?k @ rest"] e
    by (simp add: aes_set_key_def pad aes_check_keylen_def aes_keys_eq [OF ok assms(5,6)] expanded_def)
      (simp add: aes_keylen_ok_def)
  then show ?thesis
    using ok e aes_dec_keys_match [OF ok assms(6), of ?e] by (simp add: expanded_def)
qed

lemma fips_w32_bytes:
  assumes "aes_keylen_ok (length key)"
  shows "put_unaligned_u32 (fips_w32 key i) = fips_word key (length key div 4) i"
proof -
  have "length key = 4 * (length key div 4)" "0 < length key div 4"
    using assms by (auto simp: aes_keylen_ok_def)
  from length_fips_word [OF this] show ?thesis by (simp add: fips_w32_def get_unaligned_list4)
qed

lemma aes_set_key_fips:
  assumes "n \<le> length key" "n \<le> 32" "n \<noteq> 0" "n \<noteq> 8" "length (key_enc ctx) = 60" "length (key_dec ctx) = 60"
  shows "\<exists>ctx'. aes_set_key ctx key n = Some (0, ctx') \<and> aes_keylen_ok (key_length ctx') \<and>
    length (key_enc ctx') = 60 \<and> length (key_dec ctx') = 60 \<and>
    dec_keys_match (aes_rounds (key_length ctx')) (key_enc ctx') (key_dec ctx') \<and>
    (\<forall>xs. length xs = 16 \<longrightarrow> aes_encrypt ctx' xs = Some (fips_cipher (aes_key_used key n) xs))"
proof -
  let ?k = "aes_key_used key n"
  obtain ctx' where c: "aes_set_key ctx key n = Some (0, ctx')" "aes_keylen_ok (length ?k)"
    "key_length ctx' = length ?k" "length (key_enc ctx') = 60" "\<forall>i<length ?k + 28. key_enc ctx' ! i = fips_w32 ?k i"
    and d: "length (key_dec ctx') = 60" "dec_keys_match (aes_rounds (key_length ctx')) (key_enc ctx') (key_dec ctx')"
    using aes_set_key_ok [OF assms] by blast
  have "aes_encrypt ctx' xs = Some (fips_cipher ?k xs)" if "length xs = 16" for xs
    by (rule aes_encrypt_fips_ctx [OF c(2-4) that]) (simp add: c(5) fips_w32_bytes [OF c(2)])
  with c d show ?thesis by auto
qed



text \<open>
  C29. After \<open>aes_set_key\<close> returned 0, \<open>aes_decrypt\<close> undoes \<open>aes_encrypt\<close> on every block of 16 bytes:
  the decryption keys are the reversed round keys with the inner ones passed through
  \<open>inv_mix_columns\<close>, the inverse tables invert the S-box, \<open>inv_mix_columns\<close> inverts \<open>mix_columns\<close>
  and is linear, and the loops of the two functions use the keys in opposite order.
\<close>
theorem aes_roundtrip:
  assumes "n \<le> length key" "n \<le> 32" "n \<noteq> 0" "n \<noteq> 8" "length (key_enc ctx) = 60" "length (key_dec ctx) = 60"
    "length xs = 16"
  shows "\<exists>ctx' c. aes_set_key ctx key n = Some (0, ctx') \<and> aes_encrypt ctx' xs = Some c \<and> length c = 16 \<and>
    aes_decrypt ctx' c = Some xs"
  using aes_set_key_fips [OF assms(1-6)] aes_decrypt_encrypt_ctx [OF _ _ _ _ assms(7)] by meson

theorem aes_roundtrip_witness:
  "\<exists>ctx' c. aes_set_key \<lparr>key_enc = replicate 60 0, key_dec = replicate 60 0, key_length = 0\<rparr> (replicate 5 7) 5 =
      Some (0, ctx') \<and>
    aes_encrypt ctx' (replicate 16 1) = Some c \<and> length c = 16 \<and> aes_decrypt ctx' c = Some (replicate 16 1)"
  by (rule aes_roundtrip) simp_all

text \<open>
  The key lengths that fail.  A length that is a multiple of eight other than 16, 24 and 32 is
  refused with -1 and the context is left as it was (8 is among them, although shorter keys are
  padded); a longer length that is not a multiple of eight is copied into \<open>new_key[32]\<close> before it
  is checked and overruns it.
\<close>
theorem aes_set_key_errors:
  assumes "n \<le> length key" "n = 0 \<or> n = 8 \<or> 32 < n"
  shows "aes_set_key ctx key n = (if n mod 8 = 0 then Some (- 1, ctx) else None)"
proof (cases "n mod 8 = 0")
  case True
  with assms(2) have "n \<noteq> 16" "n \<noteq> 24" "n \<noteq> 32" by auto
  with True show ?thesis by (simp add: aes_set_key_def aes_pad_key_def aes_check_keylen_def)
next
  case False
  with assms have "32 < n" by auto
  with False assms(1) show ?thesis
    using ld_nat0 [of n key] by (simp add: aes_set_key_def aes_pad_key_def st_def)
qed

theorem aes_set_key_errors_witness:
  "aes_set_key \<lparr>key_enc = [], key_dec = [], key_length = 0\<rparr> (replicate 8 1) 8 =
     Some (- 1, \<lparr>key_enc = [], key_dec = [], key_length = 0\<rparr>) \<and>
   aes_set_key \<lparr>key_enc = [], key_dec = [], key_length = 0\<rparr> (replicate 33 1) 33 = None"
  using aes_set_key_errors [of 8 "replicate 8 1" "\<lparr>key_enc = [], key_dec = [], key_length = 0\<rparr>"]
    aes_set_key_errors [of 33 "replicate 33 1" "\<lparr>key_enc = [], key_dec = [], key_length = 0\<rparr>"]
  by simp

end
