(* ===== verification/Skcipher.thy ===== *)
theory Skcipher
  imports Aes
begin

text \<open>
  Symmetric encryption of messages: the padding policies of \<open>crypto/skcipher/SkcipherAlgo.c\<close> and
  the ECB and CBC modes of \<open>SkcipherModeEcb.c\<close> and \<open>SkcipherModeCbc.c\<close> over the block cipher that the
  mode object holds in \<open>sub_algo\<close>.  The virtual calls \<open>sub_algo->encrypt\<close> and \<open>sub_algo->decrypt\<close> are the
  arguments \<open>enc\<close> and \<open>dec\<close>; \<open>Aes\<close>, the only cipher of the library, is plugged in at the end.  Source and
  destination are separate objects (\<open>decrypt\<close> in CBC mode refuses equal pointers).  The block size
  is 16, as \<open>aes_get_block_size\<close> reports it.
\<close>

subsection \<open>State and padding\<close>

datatype padding = SKCIPHER_PADDING_NO | SKCIPHER_PADDING_ZERO | SKCIPHER_PADDING_PKCS7 | SKCIPHER_PADDING_MAX

record 'c skcipher_algo =
  sk_padding :: padding
  sk_last_block :: bytes
  sk_iv :: bytes
  sk_ctx :: 'c

definition pad_null_policy :: "'c skcipher_algo \<Rightarrow> nat \<Rightarrow> (int \<times> 'c skcipher_algo) option" where
  "pad_null_policy algo off = Some (0, algo)"

definition pad_zero_policy :: "'c skcipher_algo \<Rightarrow> nat \<Rightarrow> (int \<times> 'c skcipher_algo) option" where
  "pad_zero_policy algo off =
     do { lb \<leftarrow> st (sk_last_block algo) (int off) (replicate (16 - off) 0);
          Some (1, algo\<lparr>sk_last_block := lb\<rparr>) }"

definition pad_pkcs7_policy :: "'c skcipher_algo \<Rightarrow> nat \<Rightarrow> (int \<times> 'c skcipher_algo) option" where
  "pad_pkcs7_policy algo off =
     do { lb \<leftarrow> st (sk_last_block algo) (int off) (replicate (16 - off) (of_nat (16 - off)));
          Some (1, algo\<lparr>sk_last_block := lb\<rparr>) }"

text \<open>The call through the table \<open>g_cipher_algo_pad_policy\<close>, whose entry for \<open>SKCIPHER_PADDING_MAX\<close> is \<open>NULL\<close>.\<close>

definition sk_pad :: "'c skcipher_algo \<Rightarrow> bytes \<Rightarrow> nat \<Rightarrow> (int \<times> 'c skcipher_algo) option" where
  "sk_pad algo inp in_len =
     (if in_len > 16 then Some (-1, algo)
      else do { xs \<leftarrow> ld inp 0 (int in_len);
                lb \<leftarrow> (if in_len \<noteq> 0 then st (sk_last_block algo) 0 xs else Some (sk_last_block algo));
                let algo1 = algo\<lparr>sk_last_block := lb\<rparr> in
                (case sk_padding algo of
                   SKCIPHER_PADDING_NO \<Rightarrow> do { (r, a) \<leftarrow> pad_null_policy algo1 in_len; Some (if r < 0 then -1 else 1, a) }
                 | SKCIPHER_PADDING_ZERO \<Rightarrow> do { (r, a) \<leftarrow> pad_zero_policy algo1 in_len; Some (if r < 0 then -1 else 1, a) }
                 | SKCIPHER_PADDING_PKCS7 \<Rightarrow> do { (r, a) \<leftarrow> pad_pkcs7_policy algo1 in_len; Some (if r < 0 then -1 else 1, a) }
                 | SKCIPHER_PADDING_MAX \<Rightarrow> Some (-1, algo1)) })"

definition unpad_null_policy :: "bytes \<Rightarrow> nat \<Rightarrow> (int \<times> bytes \<times> nat) option" where
  "unpad_null_policy out out_len = Some (0, out, out_len)"

text \<open>
  The loop of the zero policy.  The comparison \<open>i >= *out_len - block_size\<close> is unsigned, so it holds
  for \<open>i = -1\<close>; an access outside \<open>out\<close> is \<open>None\<close>.
\<close>

function unpad_zero_loop :: "bytes \<Rightarrow> int \<Rightarrow> int \<Rightarrow> int option" where
  "unpad_zero_loop out lim i =
     (if i mod 2 ^ 32 < lim then Some i
      else if 0 \<le> i \<and> i < int (length out)
      then (if out ! nat i = 0 then unpad_zero_loop out lim (i - 1) else Some i)
      else None)"
  by auto
termination
  by (relation "measure (\<lambda>(out, lim, i). nat (i + 1))") auto

declare unpad_zero_loop.simps [simp del]

definition unpad_zero_policy :: "bytes \<Rightarrow> nat \<Rightarrow> (int \<times> bytes \<times> nat) option" where
  "unpad_zero_policy out out_len =
     do { z \<leftarrow> ld1 out (int out_len);
          if z \<noteq> 0 then Some (-1, out, out_len)
          else do { i \<leftarrow> unpad_zero_loop out ((int out_len - 16) mod 2 ^ 32) (int out_len);
                    Some (1, out, nat (i + 1)) } }"

definition unpad_pkcs7_policy :: "bytes \<Rightarrow> nat \<Rightarrow> (int \<times> bytes \<times> nat) option" where
  "unpad_pkcs7_policy out out_len =
     do { c \<leftarrow> ld1 out (int out_len - 1);
          let count = unat c in
          if count > 16 \<or> count = 0 then Some (-1, out, out_len)
          else if count \<le> out_len
          then do { out' \<leftarrow> st out (int out_len - int count + 1) (replicate count 0);
                    Some (1, out', out_len - count) }
          else Some (1, out, nat ((int out_len - int count) mod 2 ^ 32)) }"

definition sk_unpad :: "padding \<Rightarrow> bytes \<Rightarrow> nat \<Rightarrow> (int \<times> bytes \<times> nat) option" where
  "sk_unpad p out out_len =
     (case p of
        SKCIPHER_PADDING_NO \<Rightarrow> do { (r, x) \<leftarrow> unpad_null_policy out out_len; Some (if r < 0 then -1 else 1, x) }
      | SKCIPHER_PADDING_ZERO \<Rightarrow> do { (r, x) \<leftarrow> unpad_zero_policy out out_len; Some (if r < 0 then -1 else 1, x) }
      | SKCIPHER_PADDING_PKCS7 \<Rightarrow> do { (r, x) \<leftarrow> unpad_pkcs7_policy out out_len; Some (if r < 0 then -1 else 1, x) }
      | SKCIPHER_PADDING_MAX \<Rightarrow> Some (-1, out, out_len))"

definition sk_set_iv :: "'c skcipher_algo \<Rightarrow> bytes \<Rightarrow> (int \<times> 'c skcipher_algo) option" where
  "sk_set_iv algo iv =
     do { xs \<leftarrow> ld iv 0 16; m \<leftarrow> st (sk_iv algo) 0 xs; Some (1, algo\<lparr>sk_iv := m\<rparr>) }"

definition sk_set_padding :: "'c skcipher_algo \<Rightarrow> padding \<Rightarrow> 'c skcipher_algo" where
  "sk_set_padding algo p = algo\<lparr>sk_padding := p\<rparr>"

subsection \<open>CBC mode\<close>

type_synonym 'c block_fun = "'c \<Rightarrow> bytes \<Rightarrow> bytes option"

text \<open>\<open>iv\<close> is the block the pointer \<open>iv\<close> points to: the initial one or the last ciphertext block.\<close>

function cbc_enc_loop :: "'c block_fun \<Rightarrow> 'c \<Rightarrow> bytes \<Rightarrow> nat \<Rightarrow> nat \<Rightarrow> bytes \<Rightarrow> bytes \<Rightarrow> (nat \<times> bytes \<times> bytes) option" where
  "cbc_enc_loop enc ctx inp in_len i out iv =
     (if i < in_len \<and> in_len - i \<ge> 16 then
        do { x \<leftarrow> ld inp (int i) 16;
             c \<leftarrow> enc ctx (xor_bytes x iv);
             out' \<leftarrow> st out (int i) c;
             cbc_enc_loop enc ctx inp in_len (i + 16) out' c }
      else Some (i, out, iv))"
  by auto
termination
  by (relation "measure (\<lambda>(enc, ctx, inp, in_len, i, out, iv). in_len - i)") auto

declare cbc_enc_loop.simps [simp del]

definition cbc_encrypt :: "'c block_fun \<Rightarrow> 'c skcipher_algo \<Rightarrow> bytes \<Rightarrow> nat \<Rightarrow> bytes \<Rightarrow> nat \<Rightarrow>
    (int \<times> 'c skcipher_algo \<times> bytes \<times> nat) option" where
  "cbc_encrypt enc algo inp in_len out out_len =
     do { iv0 \<leftarrow> ld (sk_iv algo) 0 16;
          (i, out1, iv) \<leftarrow> cbc_enc_loop enc (sk_ctx algo) inp in_len 0 out iv0;
          (r, algo1) \<leftarrow> sk_pad algo (drop i inp) (in_len - i);
          if r < 0 then Some (-1, algo1, out1, out_len)
          else if sk_padding algo \<noteq> SKCIPHER_PADDING_NO then
            do { lb \<leftarrow> ld (sk_last_block algo1) 0 16;
                 c \<leftarrow> enc (sk_ctx algo) (xor_bytes lb iv);
                 out2 \<leftarrow> st out1 (int i) c;
                 Some (1, algo1, out2, i + 16) }
          else Some (1, algo1, out1, i + 16) }"

text \<open>The result flag of the loop is False when it throws because \<open>i > *out_len\<close>.\<close>

function cbc_dec_loop :: "'c block_fun \<Rightarrow> 'c \<Rightarrow> bytes \<Rightarrow> nat \<Rightarrow> nat \<Rightarrow> nat \<Rightarrow> bytes \<Rightarrow> bytes \<Rightarrow> (bool \<times> bytes) option" where
  "cbc_dec_loop dec ctx inp in_len out_len i out iv =
     (if i < in_len then
        if i > out_len then Some (False, out)
        else do { x \<leftarrow> ld inp (int i) 16;
                  p \<leftarrow> dec ctx x;
                  out' \<leftarrow> st out (int i) (xor_bytes p iv);
                  cbc_dec_loop dec ctx inp in_len out_len (i + 16) out' x }
      else Some (True, out))"
  by auto
termination
  by (relation "measure (\<lambda>(dec, ctx, inp, in_len, out_len, i, out, iv). in_len - i)") auto

declare cbc_dec_loop.simps [simp del]

definition cbc_decrypt :: "'c block_fun \<Rightarrow> 'c skcipher_algo \<Rightarrow> bytes \<Rightarrow> nat \<Rightarrow> bytes \<Rightarrow> nat \<Rightarrow>
    (int \<times> bytes \<times> nat) option" where
  "cbc_decrypt dec algo inp in_len out out_len =
     do { iv0 \<leftarrow> ld (sk_iv algo) 0 16;
          (ok, out1) \<leftarrow> cbc_dec_loop dec (sk_ctx algo) inp in_len out_len 0 out iv0;
          if \<not> ok then Some (-1, out1, out_len)
          else if sk_padding algo \<noteq> SKCIPHER_PADDING_NO then
            do { (r, out2, n) \<leftarrow> sk_unpad (sk_padding algo) out1 in_len;
                 Some (if r < 0 then -1 else 1, out2, n) }
          else Some (1, out1, in_len) }"

subsection \<open>ECB mode\<close>

function ecb_enc_loop :: "'c block_fun \<Rightarrow> 'c \<Rightarrow> bytes \<Rightarrow> nat \<Rightarrow> nat \<Rightarrow> bytes \<Rightarrow> (nat \<times> bytes) option" where
  "ecb_enc_loop enc ctx inp in_len i out =
     (if i < in_len \<and> in_len - i \<ge> 16 then
        do { x \<leftarrow> ld inp (int i) 16;
             c \<leftarrow> enc ctx x;
             out' \<leftarrow> st out (int i) c;
             ecb_enc_loop enc ctx inp in_len (i + 16) out' }
      else Some (i, out))"
  by auto
termination
  by (relation "measure (\<lambda>(enc, ctx, inp, in_len, i, out). in_len - i)") auto

declare ecb_enc_loop.simps [simp del]

definition ecb_encrypt :: "'c block_fun \<Rightarrow> 'c skcipher_algo \<Rightarrow> bytes \<Rightarrow> nat \<Rightarrow> bytes \<Rightarrow> nat \<Rightarrow>
    (int \<times> 'c skcipher_algo \<times> bytes \<times> nat) option" where
  "ecb_encrypt enc algo inp in_len out out_len =
     do { (i, out1) \<leftarrow> ecb_enc_loop enc (sk_ctx algo) inp in_len 0 out;
          (r, algo1) \<leftarrow> sk_pad algo (drop i inp) (in_len - i);
          if r < 0 then Some (-1, algo1, out1, out_len)
          else if sk_padding algo \<noteq> SKCIPHER_PADDING_NO then
            do { lb \<leftarrow> ld (sk_last_block algo1) 0 16;
                 c \<leftarrow> enc (sk_ctx algo) lb;
                 out2 \<leftarrow> st out1 (int i) c;
                 Some (1, algo1, out2, i + 16) }
          else Some (1, algo1, out1, i + 16) }"

function ecb_dec_loop :: "'c block_fun \<Rightarrow> 'c \<Rightarrow> bytes \<Rightarrow> nat \<Rightarrow> nat \<Rightarrow> nat \<Rightarrow> bytes \<Rightarrow> (bool \<times> bytes) option" where
  "ecb_dec_loop dec ctx inp in_len out_len i out =
     (if i < in_len then
        if i > out_len then Some (False, out)
        else do { x \<leftarrow> ld inp (int i) 16;
                  p \<leftarrow> dec ctx x;
                  out' \<leftarrow> st out (int i) p;
                  ecb_dec_loop dec ctx inp in_len out_len (i + 16) out' }
      else Some (True, out))"
  by auto
termination
  by (relation "measure (\<lambda>(dec, ctx, inp, in_len, out_len, i, out). in_len - i)") auto

declare ecb_dec_loop.simps [simp del]

definition ecb_decrypt :: "'c block_fun \<Rightarrow> 'c skcipher_algo \<Rightarrow> bytes \<Rightarrow> nat \<Rightarrow> bytes \<Rightarrow> nat \<Rightarrow>
    (int \<times> bytes \<times> nat) option" where
  "ecb_decrypt dec algo inp in_len out out_len =
     do { (ok, out1) \<leftarrow> ecb_dec_loop dec (sk_ctx algo) inp in_len out_len 0 out;
          if \<not> ok then Some (-1, out1, out_len)
          else if sk_padding algo \<noteq> SKCIPHER_PADDING_NO then
            do { (r, out2, n) \<leftarrow> sk_unpad (sk_padding algo) out1 in_len;
                 Some (if r < 0 then -1 else 1, out2, n) }
          else Some (1, out1, in_len) }"

subsection \<open>Setting the key through the mode object\<close>

definition sk_set_key :: "aes_ctx skcipher_algo \<Rightarrow> bytes \<Rightarrow> nat \<Rightarrow> (int \<times> aes_ctx skcipher_algo) option" where
  "sk_set_key algo key key_len =
     do { (r, ctx) \<leftarrow> aes_set_key (sk_ctx algo) key key_len; Some (r, algo\<lparr>sk_ctx := ctx\<rparr>) }"

subsection \<open>Padding\<close>

text \<open>The padded message: one to sixteen bytes are added.\<close>

definition pad_byte :: "padding \<Rightarrow> nat \<Rightarrow> u8" where
  "pad_byte p n = (if p = SKCIPHER_PADDING_PKCS7 then of_nat (16 - n mod 16) else 0)"

definition pad_text :: "padding \<Rightarrow> bytes \<Rightarrow> bytes" where
  "pad_text p xs = xs @ replicate (16 - length xs mod 16) (pad_byte p (length xs))"

definition blk :: "nat \<Rightarrow> bytes \<Rightarrow> bytes" where
  "blk k xs = take 16 (drop (16 * k) xs)"

lemma length_pad_text: "length (pad_text p xs) = 16 * (length xs div 16 + 1)"
  by (simp add: pad_text_def) presburger

lemma length_blk: "16 * k + 16 \<le> length xs \<Longrightarrow> length (blk k xs) = 16"
  by (simp add: blk_def)

lemma div16:
  assumes "k < n div 16"
  shows "16 * k + 16 \<le> (n :: nat)"
  using mult_le_mono2 [OF Suc_leI [OF assms], of 16] times_div_less_eq_dividend [of 16 n] by simp

lemma blk_pad_text: "k < n div 16 \<Longrightarrow> n \<le> length xs \<Longrightarrow> blk k (pad_text p (take n xs)) = blk k xs"
proof -
  assume a: "k < n div 16" "n \<le> length xs"
  from div16 [OF a(1)] a show ?thesis by (simp add: blk_def pad_text_def drop_take)
qed

lemma blk_pad_last:
  assumes "n \<le> length xs"
  shows "blk (n div 16) (pad_text p (take n xs)) =
    take (n mod 16) (drop (16 * (n div 16)) xs) @ replicate (16 - n mod 16) (pad_byte p n)"
proof -
  have "n - 16 * (n div 16) = n mod 16" "16 * (n div 16) \<le> n" "n mod 16 < 16"
    by (simp_all add: minus_mult_div_eq_mod)
  with assms show ?thesis by (simp add: blk_def pad_text_def drop_take)
qed

definition sk_pads :: "padding \<Rightarrow> bool" where
  "sk_pads p \<longleftrightarrow> p = SKCIPHER_PADDING_ZERO \<or> p = SKCIPHER_PADDING_PKCS7"

definition pad_fill :: "padding \<Rightarrow> nat \<Rightarrow> u8" where
  "pad_fill p k = (if p = SKCIPHER_PADDING_PKCS7 then of_nat k else 0)"

lemma sk_pad_ok:
  assumes "r < 16" "r \<le> length ys" "length (sk_last_block algo) = 128" "sk_pads (sk_padding algo)"
  shows "sk_pad algo ys r = Some (1, algo\<lparr>sk_last_block :=
    take r ys @ replicate (16 - r) (pad_fill (sk_padding algo) (16 - r)) @ drop 16 (sk_last_block algo)\<rparr>)"
proof -
  let ?lb = "sk_last_block algo"
  have ldy: "ld ys 0 (int r) = Some (take r ys)" using assms(2) by (rule ld_nat0)
  have mid: "(if r \<noteq> 0 then st ?lb 0 (take r ys) else Some ?lb) = Some (take r ys @ drop r ?lb)"
    using st_nat0 [of "take r ys" ?lb] assms by simp
  have fin: "st (take r ys @ drop r ?lb) (int r) (replicate (16 - r) b) =
      Some (take r ys @ replicate (16 - r) b @ drop 16 ?lb)" for b
    using st_nat [of r "replicate (16 - r) b" "take r ys @ drop r ?lb"] assms by simp
  have g: "\<not> 16 < r" using assms(1) by simp
  show ?thesis
    using assms(4) unfolding sk_pad_def if_not_P [OF g] ldy bind_Some_eq mid Let_def sk_pads_def
    by (elim disjE) (simp_all add: pad_zero_policy_def pad_pkcs7_policy_def pad_fill_def fin del: of_nat_diff)
qed

lemma sk_pad_last:
  assumes "n \<le> length xs" "length (sk_last_block algo) = 128" "sk_pads (sk_padding algo)"
  shows "\<exists>algo'. sk_pad algo (drop (16 * (n div 16)) xs) (n - 16 * (n div 16)) = Some (1, algo') \<and>
    sk_padding algo' = sk_padding algo \<and> sk_iv algo' = sk_iv algo \<and> sk_ctx algo' = sk_ctx algo \<and>
    length (sk_last_block algo') = 128 \<and>
    ld (sk_last_block algo') 0 16 = Some (blk (n div 16) (pad_text (sk_padding algo) (take n xs)))"
proof -
  define r where "r = n mod 16"
  define ys where "ys = drop (16 * (n div 16)) xs"
  have r: "r < 16" "n - 16 * (n div 16) = r" by (simp_all add: r_def minus_mult_div_eq_mod)
  have y: "r \<le> length ys" using assms(1) by (simp add: ys_def diff_le_mono flip: r(2))
  have b: "pad_byte (sk_padding algo) n = pad_fill (sk_padding algo) (16 - r)"
    by (simp add: pad_byte_def pad_fill_def r_def)
  have "ld (take r ys @ replicate (16 - r) f @ drop 16 (sk_last_block algo)) 0 16 = Some (take r ys @ replicate (16 - r) f)" for f
    using ld_nat0 [of 16 "take r ys @ replicate (16 - r) f @ drop 16 (sk_last_block algo)"] y r(1) assms(2) by simp
  with sk_pad_ok [OF r(1) y assms(2,3)] y r(1) assms(2) show ?thesis
    unfolding blk_pad_last [OF assms(1)] r(2) b r_def [symmetric] ys_def [symmetric] by simp
qed

lemma pad_text_cases:
  obtains m where "pad_text p ys = ys @ replicate m (pad_fill p m)" "0 < m" "m \<le> 16" "(length ys + m) mod 16 = 0"
proof
  show "pad_text p ys = ys @ replicate (16 - length ys mod 16) (pad_fill p (16 - length ys mod 16))"
    by (simp add: pad_text_def pad_byte_def pad_fill_def)
  show "(length ys + (16 - length ys mod 16)) mod 16 = 0" by presburger
qed simp_all

lemma unpad_pkcs7_ok:
  assumes "length xs < length out" "xs = pad_text SKCIPHER_PADDING_PKCS7 ys" "take (length xs) out = xs"
  shows "\<exists>out'. unpad_pkcs7_policy out (length xs) = Some (1, out', length ys) \<and> take (length ys) out' = ys"
proof -
  obtain m where xs: "xs = ys @ replicate m (of_nat m)" and m: "0 < m" "m \<le> 16"
    using pad_text_cases [of SKCIPHER_PADDING_PKCS7 ys] assms(2) by (auto simp: pad_fill_def)
  have "out ! (length ys + m - 1) = xs ! (length ys + m - 1)"
    using assms(1,3) m xs by (metis One_nat_def Suc_pred add_gr_0 length_append length_replicate lessI nth_take)
  also have "\<dots> = of_nat m" using m(1) by (auto simp: xs nth_append)
  finally have "ld1 out (int (length ys + m - 1)) = Some (of_nat m)"
    using assms(1) xs by (simp add: ld1_nat)
  moreover have "int (length ys + m - 1) = int (length xs) - 1" using m(1) by (simp add: xs)
  ultimately have c: "ld1 out (int (length xs) - 1) = Some (of_nat m)" by simp
  have u: "unat (of_nat m :: u8) = m" using m(2) by (simp add: unat_of_nat)
  have s: "st out (int (length xs) - int m + 1) (replicate m 0) =
      Some (take (length ys + 1) out @ replicate m 0 @ drop (length ys + 1 + m) out)"
    using st_nat [of "length ys + 1" "replicate m 0" out] assms(1) by (simp add: xs add.commute)
  have "take (length ys) out = ys"
    using assms(3) by (metis append_eq_conv_conj length_append le_add1 min.absorb1 take_take xs)
  then show ?thesis
    using m assms(1) unfolding unpad_pkcs7_policy_def c Let_def u bind_Some_eq s by (simp add: xs)
qed

lemma unpad_zero_loop_down:
  assumes "0 \<le> lim" "lim \<le> int a" "a + k < length out" "\<forall>j. a \<le> j \<and> j \<le> a + k \<longrightarrow> out ! j = 0"
    "a + k < 2 ^ 32"
  shows "unpad_zero_loop out lim (int (a + k)) = unpad_zero_loop out lim (int a - 1)"
  using assms(3,4,5)
proof (induction k)
  case 0
  then show ?case
    using assms(1,2) by (subst unpad_zero_loop.simps) (simp add: mod_pos_pos_trivial)
next
  case (Suc k)
  have "int (a + Suc k) mod 2 ^ 32 = int (a + Suc k)" using Suc.prems(3) by (intro mod_pos_pos_trivial) simp_all
  moreover have "\<not> int (a + Suc k) < lim" using assms(2) by simp
  moreover have "0 \<le> int (a + Suc k) \<and> int (a + Suc k) < int (length out)" "out ! (a + Suc k) = 0"
    using Suc.prems(1,2) by simp_all
  moreover have "int (a + Suc k) - 1 = int (a + k)" by simp
  ultimately have "unpad_zero_loop out lim (int (a + Suc k)) = unpad_zero_loop out lim (int (a + k))"
    by (subst unpad_zero_loop.simps) (simp only: nat_int if_True if_False simp_thms)
  with Suc show ?case by simp
qed

lemma unpad_zero_ok:
  assumes "length xs < length out" "xs = pad_text SKCIPHER_PADDING_ZERO ys" "take (length xs) out = xs"
    and "out ! length xs = 0" "ys \<noteq> []" "last ys \<noteq> 0" "length xs < 2 ^ 32"
  shows "unpad_zero_policy out (length xs) = Some (1, out, length ys)"
proof -
  let ?n = "length xs"
  obtain m where xs: "xs = ys @ replicate m 0" and m: "0 < m" "m \<le> 16"
    using pad_text_cases [of SKCIPHER_PADDING_ZERO ys] assms(2) by (auto simp: pad_fill_def)
  have n: "?n = length ys + m" by (simp add: xs)
  have z: "out ! j = 0" if "length ys \<le> j \<and> j \<le> length ys + m" for j
  proof (cases "j = ?n")
    case False
    then have "j < ?n" using that n by simp
    then have "out ! j = xs ! j" using assms(3) by (metis nth_take)
    with \<open>j < ?n\<close> that n show ?thesis by (simp add: xs nth_append)
  qed (use assms(4) in simp)
  have lim: "(int ?n - 16) mod 2 ^ 32 = int (16 * (length ys div 16))"
    using assms(7) length_pad_text [of SKCIPHER_PADDING_ZERO ys] assms(2) by (simp add: mod_pos_pos_trivial)
  have "out ! (length ys - 1) = xs ! (length ys - 1)"
    using assms(3,5) n m(1) by (metis diff_less length_greater_0_conv nth_take trans_less_add1 zero_less_one)
  then have l: "out ! (length ys - 1) \<noteq> 0"
    using assms(5,6) by (simp add: xs nth_append last_conv_nth)
  have "unpad_zero_loop out (int (16 * (length ys div 16))) (int ?n) =
      unpad_zero_loop out (int (16 * (length ys div 16))) (int (length ys) - 1)"
    unfolding n by (rule unpad_zero_loop_down) (use assms(1,7) n z in auto)
  also have "\<dots> = Some (int (length ys) - 1)"
  proof -
    have "nat (int (length ys) - 1) = length ys - 1" "length ys - 1 < length out" "0 < length ys"
      using assms(1,5) n by (simp_all add: less_imp_diff_less)
    with l show ?thesis by (subst unpad_zero_loop.simps) auto
  qed
  finally show ?thesis
    using assms(1,4,5) unfolding unpad_zero_policy_def lim ld1_nat by (cases ys) simp_all
qed

text \<open>When removing the padding gives the message back: \<open>b\<close> is the byte behind the padded text.\<close>

definition unpad_safe :: "padding \<Rightarrow> bytes \<Rightarrow> u8 \<Rightarrow> bool" where
  "unpad_safe p ys b \<longleftrightarrow> p = SKCIPHER_PADDING_PKCS7 \<or> p = SKCIPHER_PADDING_ZERO \<and> ys \<noteq> [] \<and> last ys \<noteq> 0 \<and> b = 0"

lemma unpad_safe_pads: "unpad_safe p ys b \<Longrightarrow> sk_pads p"
  by (auto simp: unpad_safe_def sk_pads_def)

lemma sk_unpad_ok:
  assumes "length (pad_text p ys) < length out" "take (length (pad_text p ys)) out = pad_text p ys"
    "length (pad_text p ys) < 2 ^ 32" "unpad_safe p ys (out ! length (pad_text p ys))"
  shows "\<exists>out'. sk_unpad p out (length (pad_text p ys)) = Some (1, out', length ys) \<and> take (length ys) out' = ys"
proof (cases "p = SKCIPHER_PADDING_PKCS7")
  case True
  with unpad_pkcs7_ok [OF assms(1) _ assms(2), of ys] show ?thesis by (auto simp: sk_unpad_def)
next
  case False
  with assms(4) have p: "p = SKCIPHER_PADDING_ZERO" and z: "out ! length (pad_text p ys) = 0" "ys \<noteq> []" "last ys \<noteq> 0"
    by (auto simp: unpad_safe_def)
  have "take (length ys) out = take (length ys) (pad_text p ys)"
    using assms(2) by (metis length_append le_add1 min.absorb1 pad_text_def take_take)
  then have "take (length ys) out = ys" by (simp add: pad_text_def)
  with unpad_zero_ok [OF assms(1) _ assms(2) z assms(3), of] p show ?thesis by (simp add: sk_unpad_def)
qed

subsection \<open>The modes over a block cipher\<close>

text \<open>
  What the modes rely on: under a context that is ready the cipher maps every block to a block
  and the inverse maps it back.
\<close>

definition total :: "'c block_fun \<Rightarrow> 'c \<Rightarrow> bytes \<Rightarrow> bytes" where
  "total f c x = the (f c x)"

locale block_cipher =
  fixes enc dec :: "'c block_fun" and ready :: "'c \<Rightarrow> bool"
  assumes enc_dec: "ready c \<Longrightarrow> length x = 16 \<Longrightarrow> \<exists>y. enc c x = Some y \<and> length y = 16 \<and> dec c y = Some x"

text \<open>The text book definition of the chained blocks; the chain starts with the initial vector.\<close>

primrec cbc_chain :: "(bytes \<Rightarrow> bytes) \<Rightarrow> bytes \<Rightarrow> bytes \<Rightarrow> nat \<Rightarrow> bytes" where
  "cbc_chain E p iv 0 = iv"
| "cbc_chain E p iv (Suc k) = E (xor_bytes (blk k p) (cbc_chain E p iv k))"

definition cbc_text :: "(bytes \<Rightarrow> bytes) \<Rightarrow> bytes \<Rightarrow> bytes \<Rightarrow> nat \<Rightarrow> bytes" where
  "cbc_text E p iv m = concat (map (\<lambda>k. cbc_chain E p iv (Suc k)) [0..<m])"

definition ecb_text :: "(bytes \<Rightarrow> bytes) \<Rightarrow> bytes \<Rightarrow> nat \<Rightarrow> bytes" where
  "ecb_text E p m = concat (map (\<lambda>k. E (blk k p)) [0..<m])"

lemma xor_bytes_cancel: "length x = length y \<Longrightarrow> xor_bytes (xor_bytes x y) y = x"
  by (simp add: xor_bytes_def map2_map_map[symmetric] list_eq_iff_nth_eq)

lemma ld_blk: "16 * k + 16 \<le> length xs \<Longrightarrow> ld xs (int (16 * k)) 16 = Some (blk k xs)"
  using ld_nat [of "16 * k" 16 xs] by (simp add: blk_def)

lemma st_blk:
  assumes "length t = 16 * k" "length c = 16" "16 * k + 16 \<le> length out"
  shows "st (t @ drop (16 * k) out) (int (16 * k)) c = Some (t @ c @ drop (16 * Suc k) out)"
  using st_nat [of "16 * k" c "t @ drop (16 * k) out"] assms by (simp add: add.commute)

lemma blk_concat:
  assumes "\<And>k. k < m \<Longrightarrow> length (f k) = 16" "k < m"
  shows "blk k (concat (map f [0..<m]) @ r) = f k"
  using assms
proof (induction m arbitrary: r)
  case (Suc m)
  have l: "length (concat (map f [0..<m])) = 16 * m"
    using Suc.prems(1) by (induction m) simp_all
  show ?case
  proof (cases "k = m")
    case True
    with l Suc.prems(1) show ?thesis by (simp add: blk_def)
  next
    case False
    with Suc.IH [of "f m @ r"] Suc.prems show ?thesis by simp
  qed
qed simp

context block_cipher
begin

lemma enc_total: "ready c \<Longrightarrow> length x = 16 \<Longrightarrow> enc c x = Some (total enc c x) \<and> length (total enc c x) = 16 \<and> dec c (total enc c x) = Some x"
  using enc_dec [of c x] by (auto simp: total_def)

lemma length_chain:
  assumes "ready c" "length iv = 16" "16 * k \<le> length p"
  shows "length (cbc_chain (total enc c) p iv k) = 16"
  using assms(3)
proof (induction k)
  case (Suc k)
  then have "length (xor_bytes (blk k p) (cbc_chain (total enc c) p iv k)) = 16" by (simp add: length_blk)
  with enc_total [OF assms(1)] show ?case by simp
qed (simp add: assms(2))

lemma length_cbc_text:
  assumes "ready c" "length iv = 16" "16 * m \<le> length p"
  shows "length (cbc_text (total enc c) p iv m) = 16 * m"
  using assms(3)
proof (induction m)
  case (Suc m)
  with length_chain [OF assms(1,2), of "Suc m" p] show ?case by (simp add: cbc_text_def)
qed (simp add: cbc_text_def)

lemma cbc_text_Suc: "cbc_text (total enc c) p iv (Suc m) = cbc_text (total enc c) p iv m @ cbc_chain (total enc c) p iv (Suc m)"
  by (simp add: cbc_text_def)

lemma enc_chain:
  assumes "ready c" "length iv = 16" "16 * k + 16 \<le> length p"
  shows "enc c (xor_bytes (blk k p) (cbc_chain (total enc c) p iv k)) = Some (cbc_chain (total enc c) p iv (Suc k))"
    "dec c (cbc_chain (total enc c) p iv (Suc k)) = Some (xor_bytes (blk k p) (cbc_chain (total enc c) p iv k))"
  using enc_total [OF assms(1), of "xor_bytes (blk k p) (cbc_chain (total enc c) p iv k)"]
    length_chain [OF assms(1,2), of k p] assms(3) by (simp_all add: length_blk)

lemma cbc_enc_loop_text:
  assumes "ready c" "length iv = 16" "n \<le> length inp" "16 * (n div 16) \<le> length out"
    "16 * (n div 16) \<le> length p" "\<And>j. j < n div 16 \<Longrightarrow> blk j p = blk j inp" "k \<le> n div 16"
  shows "cbc_enc_loop enc c inp n (16 * k) (cbc_text (total enc c) p iv k @ drop (16 * k) out) (cbc_chain (total enc c) p iv k) =
    Some (16 * (n div 16), cbc_text (total enc c) p iv (n div 16) @ drop (16 * (n div 16)) out, cbc_chain (total enc c) p iv (n div 16))"
  using assms(7)
proof (induction rule: inc_induct)
  case base
  have "n - 16 * (n div 16) < 16" by (simp add: minus_mult_div_eq_mod)
  then have "\<not> (16 * (n div 16) < n \<and> 16 \<le> n - 16 * (n div 16))" by linarith
  then show ?case by (subst cbc_enc_loop.simps) (simp only: if_False)
next
  case (step k)
  have kn: "16 * k + 16 \<le> n" "16 * k + 16 \<le> 16 * (n div 16)" using div16 [OF step(2)] step(2) by auto
  then have "ld inp (int (16 * k)) 16 = Some (blk k p)"
    using ld_blk [of k inp] assms(3) assms(6) [OF step(2)] by simp
  moreover have "16 * k + 16 \<le> length p" using kn(2) assms(5) by simp
  note ec = enc_chain(1) [OF assms(1,2) this] and lt = length_cbc_text [OF assms(1,2)] and lc = length_chain [OF assms(1,2)]
  moreover have "st (cbc_text (total enc c) p iv k @ drop (16 * k) out) (int (16 * k)) (cbc_chain (total enc c) p iv (Suc k)) =
      Some (cbc_text (total enc c) p iv (Suc k) @ drop (16 * Suc k) out)"
    using st_blk [OF lt lc, of k p "Suc k" p out] kn(2) assms(4,5) by (simp add: cbc_text_Suc)
  moreover have "16 * k < n \<and> 16 \<le> n - 16 * k" using kn(1) by simp
  moreover have "16 * k + 16 = 16 * Suc k" by simp
  ultimately show ?case
    by (subst cbc_enc_loop.simps) (simp only: if_True bind_Some_eq step.IH simp_thms)
qed

lemma cbc_dec_loop_text:
  assumes "ready c" "length iv = 16" "length p = 16 * m" "16 * m \<le> length out" "16 * m \<le> ol + 16" "k \<le> m"
  shows "cbc_dec_loop dec c (cbc_text (total enc c) p iv m @ r) (16 * m) ol (16 * k) (take (16 * k) p @ drop (16 * k) out)
      (cbc_chain (total enc c) p iv k) = Some (True, p @ drop (16 * m) out)"
  using assms(6)
proof (induction rule: inc_induct)
  case base
  then show ?case using assms(3) by (subst cbc_dec_loop.simps) simp
next
  case (step k)
  have k: "16 * k + 16 \<le> length p" using step(2) assms(3) by simp
  note ch = enc_chain(2) [OF assms(1,2) k] and lc = length_chain [OF assms(1,2)]
  have "blk k (cbc_text (total enc c) p iv m @ r) = cbc_chain (total enc c) p iv (Suc k)"
    unfolding cbc_text_def by (rule blk_concat [OF lc step(2)]) (use assms(3) in simp)
  moreover have "16 * k + 16 \<le> length (cbc_text (total enc c) p iv m @ r)"
    using length_cbc_text [OF assms(1,2), of m p] assms(3) step(2) by simp
  ultimately have "ld (cbc_text (total enc c) p iv m @ r) (int (16 * k)) 16 = Some (cbc_chain (total enc c) p iv (Suc k))"
    using ld_blk by metis
  moreover have "xor_bytes (xor_bytes (blk k p) (cbc_chain (total enc c) p iv k)) (cbc_chain (total enc c) p iv k) = blk k p"
    using length_blk [OF k] lc [of k p] k by (simp add: xor_bytes_cancel)
  moreover have "st (take (16 * k) p @ drop (16 * k) out) (int (16 * k)) (blk k p) =
      Some (take (16 * Suc k) p @ drop (16 * Suc k) out)"
    using st_blk [of "take (16 * k) p" k "blk k p" out] k assms(3,4) step(2)
    by (simp add: length_blk blk_def flip: take_add) (simp add: add.commute)
  moreover have "16 * k < 16 * m" "\<not> ol < 16 * k" "16 * k + 16 = 16 * Suc k" using step(2) assms(5) by simp_all
  ultimately show ?case
    by (subst cbc_dec_loop.simps) (simp only: if_True if_False bind_Some_eq ch step.IH)
qed

text \<open>Both calls on a message: what the encryption writes, and that decryption recovers the message.\<close>

lemma cbc_encrypt_eq:
  assumes "ready (sk_ctx algo)" "length (sk_iv algo) = 128" "length (sk_last_block algo) = 128"
    "sk_pads (sk_padding algo)" "n \<le> length inp" "16 * (n div 16 + 1) \<le> length out"
  shows "\<exists>algo'. cbc_encrypt enc algo inp n out ol = Some (1, algo',
      cbc_text (total enc (sk_ctx algo)) (pad_text (sk_padding algo) (take n inp)) (take 16 (sk_iv algo)) (n div 16 + 1) @
        drop (16 * (n div 16 + 1)) out, 16 * (n div 16 + 1)) \<and>
    sk_padding algo' = sk_padding algo \<and> sk_iv algo' = sk_iv algo \<and> sk_ctx algo' = sk_ctx algo \<and>
    length (sk_last_block algo') = 128"
proof -
  let ?c = "sk_ctx algo" and ?iv = "take 16 (sk_iv algo)" and ?q = "n div 16"
  define p where "p = pad_text (sk_padding algo) (take n inp)"
  let ?text = "cbc_text (total enc ?c) p ?iv" and ?chain = "cbc_chain (total enc ?c) p ?iv"
  have iv: "length ?iv = 16" "ld (sk_iv algo) 0 16 = Some ?iv"
    using assms(2) ld_nat0 [of 16 "sk_iv algo"] by simp_all
  have lp: "length p = 16 * (?q + 1)" using assms(5) by (simp add: p_def length_pad_text)
  have bp: "blk j p = blk j inp" if "j < ?q" for j
    unfolding p_def using that assms(5) by (rule blk_pad_text)
  have loop: "cbc_enc_loop enc ?c inp n 0 out ?iv = Some (16 * ?q, ?text ?q @ drop (16 * ?q) out, ?chain ?q)"
    using cbc_enc_loop_text [OF assms(1) iv(1) assms(5), of out p 0] assms(6) lp bp by (simp add: cbc_text_def)
  obtain algo' where pad: "sk_pad algo (drop (16 * ?q) inp) (n - 16 * ?q) = Some (1, algo')"
      "ld (sk_last_block algo') 0 16 = Some (blk ?q p)"
    and keep: "sk_padding algo' = sk_padding algo" "sk_iv algo' = sk_iv algo" "sk_ctx algo' = sk_ctx algo"
      "length (sk_last_block algo') = 128"
    using sk_pad_last [OF assms(5,3,4)] unfolding p_def [symmetric] by blast
  have q: "16 * ?q + 16 \<le> length p" "16 * Suc ?q \<le> length p" using lp by simp_all
  have st: "st (?text ?q @ drop (16 * ?q) out) (int (16 * ?q)) (?chain (Suc ?q)) =
      Some (?text (Suc ?q) @ drop (16 * Suc ?q) out)"
    using st_blk [OF length_cbc_text length_chain, OF assms(1) iv(1) _ assms(1) iv(1) q(2), of ?q p out] q(1) assms(6)
    by (simp only: cbc_text_Suc append_assoc) simp
  have no: "sk_padding algo \<noteq> SKCIPHER_PADDING_NO" using assms(4) by (auto simp: sk_pads_def)
  have "cbc_encrypt enc algo inp n out ol = Some (1, algo', ?text (Suc ?q) @ drop (16 * Suc ?q) out, 16 * ?q + 16)"
    unfolding cbc_encrypt_def iv(2) bind_Some_eq loop split pad(1)
    using no by (simp only: pad(2) bind_Some_eq enc_chain(1) [OF assms(1) iv(1) q(1)] st) simp
  with keep show ?thesis by (auto simp: p_def)
qed

lemma cbc_decrypt_text:
  assumes "ready (sk_ctx algo)" "length (sk_iv algo) = 128" "length (pad_text (sk_padding algo) ys) < length out"
    "length (pad_text (sk_padding algo) ys) \<le> ol + 16" "length (pad_text (sk_padding algo) ys) < 2 ^ 32"
    "unpad_safe (sk_padding algo) ys (out ! length (pad_text (sk_padding algo) ys))"
  shows "\<exists>out'. cbc_decrypt dec algo
      (cbc_text (total enc (sk_ctx algo)) (pad_text (sk_padding algo) ys) (take 16 (sk_iv algo)) (length ys div 16 + 1) @ r)
      (16 * (length ys div 16 + 1)) out ol = Some (1, out', length ys) \<and> take (length ys) out' = ys"
proof -
  let ?p = "pad_text (sk_padding algo) ys" and ?m = "length ys div 16 + 1" and ?iv = "take 16 (sk_iv algo)"
  let ?t = "cbc_text (total enc (sk_ctx algo)) ?p ?iv ?m @ r"
  have iv: "length ?iv = 16" "ld (sk_iv algo) 0 16 = Some ?iv"
    using assms(2) ld_nat0 [of 16 "sk_iv algo"] by simp_all
  have lp: "length ?p = 16 * ?m" by (rule length_pad_text)
  have loop: "cbc_dec_loop dec (sk_ctx algo) ?t (16 * ?m) ol 0 out ?iv = Some (True, ?p @ drop (16 * ?m) out)"
    using cbc_dec_loop_text [OF assms(1) iv(1) lp, of out ol 0 r] assms(3,4) lp by simp
  let ?out = "?p @ drop (16 * ?m) out"
  have "?out ! length ?p = out ! length ?p" using lp assms(3) by (simp add: nth_append)
  with assms(6) have safe: "unpad_safe (sk_padding algo) ys (?out ! length ?p)" by simp
  have len: "length ?p < length ?out" "take (length ?p) ?out = ?p" using lp assms(3) by simp_all
  from sk_unpad_ok [OF len assms(5) safe] obtain out'
    where u: "sk_unpad (sk_padding algo) ?out (16 * ?m) = Some (1, out', length ys)" "take (length ys) out' = ys"
    by (auto simp only: lp)
  have "sk_padding algo \<noteq> SKCIPHER_PADDING_NO" using assms(6) by (auto simp: unpad_safe_def)
  then have "cbc_decrypt dec algo ?t (16 * ?m) out ol = Some (1, out', length ys)"
    unfolding cbc_decrypt_def iv(2) bind_Some_eq loop split by (simp only: u(1) bind_Some_eq split) simp
  with u(2) show ?thesis by blast
qed

lemma cbc_roundtrip:
  assumes "ready (sk_ctx algo)" "length (sk_iv algo) = 128" "length (sk_last_block algo) = 128"
    "16 * (length xs div 16 + 1) \<le> length out" "16 * (length xs div 16 + 1) < length out2"
    "16 * (length xs div 16 + 1) \<le> ol + 16" "16 * (length xs div 16 + 1) < 2 ^ 32"
    "unpad_safe (sk_padding algo) xs (out2 ! (16 * (length xs div 16 + 1)))"
  shows "\<exists>algo' c n out'. cbc_encrypt enc algo xs (length xs) out ol = Some (1, algo', c, n) \<and>
    cbc_decrypt dec algo' c n out2 ol = Some (1, out', length xs) \<and> take (length xs) out' = xs"
proof -
  let ?p = "pad_text (sk_padding algo) xs"
  have lp: "length ?p = 16 * (length xs div 16 + 1)" by (rule length_pad_text)
  from cbc_encrypt_eq [OF assms(1-3) unpad_safe_pads [OF assms(8)] order_refl assms(4), of ol]
  obtain algo' where e: "cbc_encrypt enc algo xs (length xs) out ol = Some (1, algo',
      cbc_text (total enc (sk_ctx algo)) ?p (take 16 (sk_iv algo)) (length xs div 16 + 1) @
        drop (16 * (length xs div 16 + 1)) out, 16 * (length xs div 16 + 1))"
    and k: "sk_padding algo' = sk_padding algo" "sk_iv algo' = sk_iv algo" "sk_ctx algo' = sk_ctx algo"
    by auto
  from cbc_decrypt_text [of algo' xs out2 ol "drop (16 * (length xs div 16 + 1)) out"] assms(1,2,5-8) e
  show ?thesis unfolding k lp by blast
qed

lemma length_ecb_text:
  assumes "ready c" "16 * m \<le> length p"
  shows "length (ecb_text (total enc c) p m) = 16 * m"
  using assms(2)
proof (induction m)
  case (Suc m)
  then show ?case using enc_total [OF assms(1) length_blk, of m p] by (simp add: ecb_text_def)
qed (simp add: ecb_text_def)

lemma ecb_enc_loop_text:
  assumes "ready c" "n \<le> length inp" "16 * (n div 16) \<le> length out"
    "16 * (n div 16) \<le> length p" "\<And>j. j < n div 16 \<Longrightarrow> blk j p = blk j inp" "k \<le> n div 16"
  shows "ecb_enc_loop enc c inp n (16 * k) (ecb_text (total enc c) p k @ drop (16 * k) out) =
    Some (16 * (n div 16), ecb_text (total enc c) p (n div 16) @ drop (16 * (n div 16)) out)"
  using assms(6)
proof (induction rule: inc_induct)
  case base
  have "n - 16 * (n div 16) < 16" by (simp add: minus_mult_div_eq_mod)
  then have "\<not> (16 * (n div 16) < n \<and> 16 \<le> n - 16 * (n div 16))" by linarith
  then show ?case by (subst ecb_enc_loop.simps) (simp only: if_False)
next
  case (step k)
  have kn: "16 * k + 16 \<le> n" "16 * k + 16 \<le> 16 * (n div 16)" using div16 [OF step(2)] step(2) by auto
  then have "ld inp (int (16 * k)) 16 = Some (blk k p)"
    using ld_blk [of k inp] assms(2) assms(5) [OF step(2)] by simp
  moreover have lp: "16 * k + 16 \<le> length p" using kn(2) assms(4) by simp
  note e = enc_total [OF assms(1) length_blk [OF lp]]
  moreover have "st (ecb_text (total enc c) p k @ drop (16 * k) out) (int (16 * k)) (total enc c (blk k p)) =
      Some (ecb_text (total enc c) p (Suc k) @ drop (16 * Suc k) out)"
    using st_blk [OF length_ecb_text, OF assms(1), of k p "total enc c (blk k p)" out] e lp kn(2) assms(3)
    by (simp add: ecb_text_def)
  moreover have "16 * k < n \<and> 16 \<le> n - 16 * k" using kn(1) by simp
  moreover have "16 * k + 16 = 16 * Suc k" by simp
  ultimately show ?case
    by (subst ecb_enc_loop.simps) (simp only: if_True bind_Some_eq step.IH simp_thms)
qed

lemma ecb_dec_loop_text:
  assumes "ready c" "length p = 16 * m" "16 * m \<le> length out" "16 * m \<le> ol + 16" "k \<le> m"
  shows "ecb_dec_loop dec c (ecb_text (total enc c) p m @ r) (16 * m) ol (16 * k) (take (16 * k) p @ drop (16 * k) out) =
    Some (True, p @ drop (16 * m) out)"
  using assms(5)
proof (induction rule: inc_induct)
  case base
  then show ?case using assms(2) by (subst ecb_dec_loop.simps) simp
next
  case (step k)
  have k: "16 * k + 16 \<le> length p" using step(2) assms(2) by simp
  note e = enc_total [OF assms(1) length_blk [OF k]]
  have l: "length (total enc c (blk j p)) = 16" if "j < m" for j
    using enc_total [OF assms(1) length_blk] that assms(2) by simp
  have "blk k (ecb_text (total enc c) p m @ r) = total enc c (blk k p)"
    unfolding ecb_text_def by (rule blk_concat [OF l step(2)])
  moreover have "16 * k + 16 \<le> length (ecb_text (total enc c) p m @ r)"
    using length_ecb_text [OF assms(1), of m p] assms(2) step(2) by simp
  ultimately have "ld (ecb_text (total enc c) p m @ r) (int (16 * k)) 16 = Some (total enc c (blk k p))"
    using ld_blk by metis
  moreover have "st (take (16 * k) p @ drop (16 * k) out) (int (16 * k)) (blk k p) =
      Some (take (16 * Suc k) p @ drop (16 * Suc k) out)"
    using st_blk [of "take (16 * k) p" k "blk k p" out] k assms(2,3) step(2)
    by (simp add: length_blk blk_def flip: take_add) (simp add: add.commute)
  moreover have "16 * k < 16 * m" "\<not> ol < 16 * k" "16 * k + 16 = 16 * Suc k" using step(2) assms(4) by simp_all
  ultimately show ?case
    by (subst ecb_dec_loop.simps) (simp only: if_True if_False bind_Some_eq e step.IH)
qed

lemma ecb_encrypt_eq:
  assumes "ready (sk_ctx algo)" "length (sk_last_block algo) = 128"
    "sk_pads (sk_padding algo)" "n \<le> length inp" "16 * (n div 16 + 1) \<le> length out"
  shows "\<exists>algo'. ecb_encrypt enc algo inp n out ol = Some (1, algo',
      ecb_text (total enc (sk_ctx algo)) (pad_text (sk_padding algo) (take n inp)) (n div 16 + 1) @
        drop (16 * (n div 16 + 1)) out, 16 * (n div 16 + 1)) \<and>
    sk_padding algo' = sk_padding algo \<and> sk_ctx algo' = sk_ctx algo"
proof -
  let ?c = "sk_ctx algo" and ?q = "n div 16"
  define p where "p = pad_text (sk_padding algo) (take n inp)"
  let ?text = "ecb_text (total enc ?c) p"
  have lp: "length p = 16 * (?q + 1)" using assms(4) by (simp add: p_def length_pad_text)
  have bp: "blk j p = blk j inp" if "j < ?q" for j
    unfolding p_def using that assms(4) by (rule blk_pad_text)
  have loop: "ecb_enc_loop enc ?c inp n 0 out = Some (16 * ?q, ?text ?q @ drop (16 * ?q) out)"
    using ecb_enc_loop_text [OF assms(1,4), of out p 0] assms(5) lp bp by (simp add: ecb_text_def)
  obtain algo' where pad: "sk_pad algo (drop (16 * ?q) inp) (n - 16 * ?q) = Some (1, algo')"
      "ld (sk_last_block algo') 0 16 = Some (blk ?q p)"
    and keep: "sk_padding algo' = sk_padding algo" "sk_ctx algo' = sk_ctx algo"
    using sk_pad_last [OF assms(4,2,3)] unfolding p_def [symmetric] by blast
  have q: "16 * ?q + 16 \<le> length p" using lp by simp
  note e = enc_total [OF assms(1) length_blk [OF q]]
  have st: "st (?text ?q @ drop (16 * ?q) out) (int (16 * ?q)) (total enc ?c (blk ?q p)) =
      Some (?text (Suc ?q) @ drop (16 * Suc ?q) out)"
    using st_blk [OF length_ecb_text, OF assms(1), of ?q p "total enc ?c (blk ?q p)" out] e q assms(5)
    by (simp add: ecb_text_def)
  have no: "sk_padding algo \<noteq> SKCIPHER_PADDING_NO" using assms(3) by (auto simp: sk_pads_def)
  have "ecb_encrypt enc algo inp n out ol = Some (1, algo', ?text (Suc ?q) @ drop (16 * Suc ?q) out, 16 * ?q + 16)"
    unfolding ecb_encrypt_def bind_Some_eq loop split pad(1)
    using no by (simp only: pad(2) bind_Some_eq e st) simp
  with keep show ?thesis by (auto simp: p_def)
qed

lemma ecb_decrypt_text:
  assumes "ready (sk_ctx algo)" "length (pad_text (sk_padding algo) ys) < length out"
    "length (pad_text (sk_padding algo) ys) \<le> ol + 16" "length (pad_text (sk_padding algo) ys) < 2 ^ 32"
    "unpad_safe (sk_padding algo) ys (out ! length (pad_text (sk_padding algo) ys))"
  shows "\<exists>out'. ecb_decrypt dec algo
      (ecb_text (total enc (sk_ctx algo)) (pad_text (sk_padding algo) ys) (length ys div 16 + 1) @ r)
      (16 * (length ys div 16 + 1)) out ol = Some (1, out', length ys) \<and> take (length ys) out' = ys"
proof -
  let ?p = "pad_text (sk_padding algo) ys" and ?m = "length ys div 16 + 1"
  let ?t = "ecb_text (total enc (sk_ctx algo)) ?p ?m @ r" and ?out = "?p @ drop (16 * ?m) out"
  have lp: "length ?p = 16 * ?m" by (rule length_pad_text)
  have loop: "ecb_dec_loop dec (sk_ctx algo) ?t (16 * ?m) ol 0 out = Some (True, ?out)"
    using ecb_dec_loop_text [OF assms(1) lp, of out ol 0 r] assms(2,3) lp by simp
  have "?out ! length ?p = out ! length ?p" using lp assms(2) by (simp add: nth_append)
  with assms(5) have safe: "unpad_safe (sk_padding algo) ys (?out ! length ?p)" by simp
  have len: "length ?p < length ?out" "take (length ?p) ?out = ?p" using lp assms(2) by simp_all
  from sk_unpad_ok [OF len assms(4) safe] obtain out'
    where u: "sk_unpad (sk_padding algo) ?out (16 * ?m) = Some (1, out', length ys)" "take (length ys) out' = ys"
    by (auto simp only: lp)
  have "sk_padding algo \<noteq> SKCIPHER_PADDING_NO" using assms(5) by (auto simp: unpad_safe_def)
  then have "ecb_decrypt dec algo ?t (16 * ?m) out ol = Some (1, out', length ys)"
    unfolding ecb_decrypt_def bind_Some_eq loop split by (simp only: u(1) bind_Some_eq split) simp
  with u(2) show ?thesis by blast
qed

lemma ecb_roundtrip:
  assumes "ready (sk_ctx algo)" "length (sk_last_block algo) = 128"
    "16 * (length xs div 16 + 1) \<le> length out" "16 * (length xs div 16 + 1) < length out2"
    "16 * (length xs div 16 + 1) \<le> ol + 16" "16 * (length xs div 16 + 1) < 2 ^ 32"
    "unpad_safe (sk_padding algo) xs (out2 ! (16 * (length xs div 16 + 1)))"
  shows "\<exists>algo' c n out'. ecb_encrypt enc algo xs (length xs) out ol = Some (1, algo', c, n) \<and>
    ecb_decrypt dec algo' c n out2 ol = Some (1, out', length xs) \<and> take (length xs) out' = xs"
proof -
  let ?p = "pad_text (sk_padding algo) xs"
  have lp: "length ?p = 16 * (length xs div 16 + 1)" by (rule length_pad_text)
  from ecb_encrypt_eq [OF assms(1,2) unpad_safe_pads [OF assms(7)] order_refl assms(3), of ol]
  obtain algo' where e: "ecb_encrypt enc algo xs (length xs) out ol = Some (1, algo',
      ecb_text (total enc (sk_ctx algo)) ?p (length xs div 16 + 1) @
        drop (16 * (length xs div 16 + 1)) out, 16 * (length xs div 16 + 1))"
    and k: "sk_padding algo' = sk_padding algo" "sk_ctx algo' = sk_ctx algo"
    by auto
  from ecb_decrypt_text [of algo' xs out2 ol "drop (16 * (length xs div 16 + 1)) out"] assms(1,4-7) e
  show ?thesis unfolding k lp by blast
qed

end

subsection \<open>The modes over AES\<close>

definition aes_ready :: "aes_ctx \<Rightarrow> bool" where
  "aes_ready ctx \<longleftrightarrow> aes_keylen_ok (key_length ctx) \<and> length (key_enc ctx) = 60 \<and> length (key_dec ctx) = 60 \<and>
     dec_keys_match (aes_rounds (key_length ctx)) (key_enc ctx) (key_dec ctx)"

interpretation aes_modes: block_cipher aes_encrypt aes_decrypt aes_ready
  by unfold_locales (simp add: aes_ready_def aes_decrypt_encrypt_ctx)

lemma sk_set_key_ready:
  assumes "length key \<le> 32" "length key \<noteq> 0" "length key \<noteq> 8"
    "length (key_enc (sk_ctx algo)) = 60" "length (key_dec (sk_ctx algo)) = 60"
  shows "\<exists>ctx. sk_set_key algo key (length key) = Some (0, algo\<lparr>sk_ctx := ctx\<rparr>) \<and> aes_ready ctx \<and>
    (\<forall>x. length x = 16 \<longrightarrow> total aes_encrypt ctx x = fips_cipher (aes_key_used key (length key)) x)"
  using aes_set_key_fips [OF order_refl assms] by (auto simp: sk_set_key_def aes_ready_def total_def)

text \<open>Chaining looks at the cipher on blocks of sixteen bytes only.\<close>

lemma cbc_chain_cong:
  assumes "\<And>x. length x = 16 \<Longrightarrow> f x = g x" "\<And>x. length x = 16 \<Longrightarrow> length (g x) = 16" "length iv = 16"
    "16 * k \<le> length p"
  shows "cbc_chain f p iv k = cbc_chain g p iv k \<and> length (cbc_chain g p iv k) = 16"
  using assms(4)
proof (induction k)
  case (Suc k)
  then have "length (xor_bytes (blk k p) (cbc_chain g p iv k)) = 16" by (simp add: length_blk)
  with Suc assms(1,2) show ?case by simp
qed (simp add: assms(3))

lemma cbc_text_cong:
  assumes "\<And>x. length x = 16 \<Longrightarrow> f x = g x" "\<And>x. length x = 16 \<Longrightarrow> length (g x) = 16" "length iv = 16"
    "16 * m \<le> length p"
  shows "cbc_text f p iv m = cbc_text g p iv m"
proof -
  have "cbc_chain f p iv (Suc k) = cbc_chain g p iv (Suc k)" if "k \<in> set [0..<m]" for k
    using cbc_chain_cong [of f g iv "Suc k" p] assms(1-3) that assms(4) by (simp del: cbc_chain.simps)
  then show ?thesis unfolding cbc_text_def by (metis (no_types, lifting) map_cong)
qed

definition sk_fresh :: "aes_ctx skcipher_algo \<Rightarrow> bool" where
  "sk_fresh algo \<longleftrightarrow> length (sk_iv algo) = 128 \<and> length (sk_last_block algo) = 128 \<and>
     length (key_enc (sk_ctx algo)) = 60 \<and> length (key_dec (sk_ctx algo)) = 60"

definition sk_sample :: "padding \<Rightarrow> aes_ctx skcipher_algo" where
  "sk_sample p = \<lparr>sk_padding = p, sk_last_block = replicate 128 0, sk_iv = replicate 128 3,
     sk_ctx = \<lparr>key_enc = replicate 60 0, key_dec = replicate 60 0, key_length = 0\<rparr>\<rparr>"

subsection \<open>Properties\<close>

text \<open>
  C30. After setting a key of 1 to 32 bytes (8 excepted), with zero or PKCS#7 padding (without padding the code misreports
  the length) and room for the padded message, CBC encryption writes the chained ciphertext of the text book over the
  cipher of FIPS-197 under that key: with the padded message \<open>p\<close> and \<open>c\<^sub>0\<close> the initial vector, block \<open>k + 1\<close> is the cipher of \<open>p\<^sub>k\<close> xor \<open>c\<^sub>k\<close>.  The bytes behind
  the ciphertext are untouched and the reported length is that of the padded message.
\<close>
theorem cbc_encrypt_chain:
  assumes "sk_fresh algo" "length key \<le> 32" "length key \<noteq> 0" "length key \<noteq> 8"
    "sk_pads (sk_padding algo)" "n \<le> length inp" "16 * (n div 16 + 1) \<le> length out"
  shows "\<exists>algo1 algo2. sk_set_key algo key (length key) = Some (0, algo1) \<and>
    cbc_encrypt aes_encrypt algo1 inp n out ol = Some (1, algo2,
      cbc_text (fips_cipher (aes_key_used key (length key))) (pad_text (sk_padding algo) (take n inp))
        (take 16 (sk_iv algo)) (n div 16 + 1) @ drop (16 * (n div 16 + 1)) out, 16 * (n div 16 + 1))"
proof -
  let ?p = "pad_text (sk_padding algo) (take n inp)" and ?iv = "take 16 (sk_iv algo)"
  obtain ctx where k: "sk_set_key algo key (length key) = Some (0, algo\<lparr>sk_ctx := ctx\<rparr>)" "aes_ready ctx"
    and f: "\<And>x. length x = 16 \<Longrightarrow> total aes_encrypt ctx x = fips_cipher (aes_key_used key (length key)) x"
    using sk_set_key_ready assms(1-4) unfolding sk_fresh_def by blast
  have "cbc_text (total aes_encrypt ctx) ?p ?iv (n div 16 + 1) =
      cbc_text (fips_cipher (aes_key_used key (length key))) ?p ?iv (n div 16 + 1)"
    using aes_modes.enc_total [OF k(2)] assms(1,6)
    by (intro cbc_text_cong f) (simp_all add: length_pad_text sk_fresh_def flip: f)
  then show ?thesis
    using k aes_modes.cbc_encrypt_eq [of "algo\<lparr>sk_ctx := ctx\<rparr>" n inp out ol] assms
    unfolding sk_fresh_def by auto
qed

theorem cbc_encrypt_chain_witness:
  "\<exists>algo1 algo2. sk_set_key (sk_sample SKCIPHER_PADDING_ZERO) [1, 2, 3] (length [1, 2, 3 :: u8]) = Some (0, algo1) \<and>
    cbc_encrypt aes_encrypt algo1 [4, 5, 6] 2 (replicate 20 0) 64 = Some (1, algo2,
      cbc_text (fips_cipher (aes_key_used [1, 2, 3] (length [1, 2, 3 :: u8])))
        (pad_text (sk_padding (sk_sample SKCIPHER_PADDING_ZERO)) (take 2 [4, 5, 6]))
        (take 16 (sk_iv (sk_sample SKCIPHER_PADDING_ZERO))) (2 div 16 + 1) @ drop (16 * (2 div 16 + 1)) (replicate 20 0),
        16 * (2 div 16 + 1))"
  by (rule cbc_encrypt_chain) (simp_all add: sk_sample_def sk_fresh_def sk_pads_def)

text \<open>
  C31. Setting a key, encrypting a message in CBC mode and decrypting the result gives the message
  and its length back, for PKCS#7 padding and every message, and for zero padding when the message is
  not empty, does not end in a zero byte and the byte behind the decrypted text is zero; without
  padding there is no such statement.  The key has 1 to 32 bytes (8 excepted), the ciphertext buffer holds
  the padded message, the destination of the decryption has one byte more than that, and its declared
  length is at most 16 below the padded length, which is below \<open>2 ^ 32\<close>.
\<close>
theorem cbc_aes_roundtrip:
  assumes "sk_fresh algo" "length key \<le> 32" "length key \<noteq> 0" "length key \<noteq> 8"
    "16 * (length xs div 16 + 1) \<le> length out" "16 * (length xs div 16 + 1) < length out2"
    "16 * (length xs div 16 + 1) \<le> ol + 16" "16 * (length xs div 16 + 1) < 2 ^ 32"
    "unpad_safe (sk_padding algo) xs (out2 ! (16 * (length xs div 16 + 1)))"
  shows "\<exists>algo1 algo2 c n out'. sk_set_key algo key (length key) = Some (0, algo1) \<and>
    cbc_encrypt aes_encrypt algo1 xs (length xs) out ol = Some (1, algo2, c, n) \<and>
    cbc_decrypt aes_decrypt algo2 c n out2 ol = Some (1, out', length xs) \<and> take (length xs) out' = xs"
proof -
  obtain ctx where k: "sk_set_key algo key (length key) = Some (0, algo\<lparr>sk_ctx := ctx\<rparr>)" "aes_ready ctx"
    using sk_set_key_ready assms(1-4) unfolding sk_fresh_def by blast
  then show ?thesis
    using aes_modes.cbc_roundtrip [of "algo\<lparr>sk_ctx := ctx\<rparr>" xs out out2 ol] assms
    unfolding sk_fresh_def by simp
qed

theorem cbc_aes_roundtrip_witness:
  "\<exists>algo1 algo2 c n out'. sk_set_key (sk_sample SKCIPHER_PADDING_PKCS7) [1, 2, 3] (length [1, 2, 3 :: u8]) = Some (0, algo1) \<and>
    cbc_encrypt aes_encrypt algo1 (replicate 17 9) (length (replicate 17 (9 :: u8))) (replicate 32 0) 64 = Some (1, algo2, c, n) \<and>
    cbc_decrypt aes_decrypt algo2 c n (replicate 33 0) 64 = Some (1, out', length (replicate 17 (9 :: u8))) \<and>
    take (length (replicate 17 (9 :: u8))) out' = replicate 17 9"
  by (rule cbc_aes_roundtrip) (simp_all add: sk_sample_def sk_fresh_def unpad_safe_def)

text \<open>
  The same round trip in ECB mode, where block \<open>k\<close> of the ciphertext is the cipher of block \<open>k\<close> of the
  padded message.
\<close>
theorem ecb_aes_roundtrip:
  assumes "sk_fresh algo" "length key \<le> 32" "length key \<noteq> 0" "length key \<noteq> 8"
    "16 * (length xs div 16 + 1) \<le> length out" "16 * (length xs div 16 + 1) < length out2"
    "16 * (length xs div 16 + 1) \<le> ol + 16" "16 * (length xs div 16 + 1) < 2 ^ 32"
    "unpad_safe (sk_padding algo) xs (out2 ! (16 * (length xs div 16 + 1)))"
  shows "\<exists>algo1 algo2 c n out'. sk_set_key algo key (length key) = Some (0, algo1) \<and>
    ecb_encrypt aes_encrypt algo1 xs (length xs) out ol = Some (1, algo2, c, n) \<and>
    ecb_decrypt aes_decrypt algo2 c n out2 ol = Some (1, out', length xs) \<and> take (length xs) out' = xs"
proof -
  obtain ctx where k: "sk_set_key algo key (length key) = Some (0, algo\<lparr>sk_ctx := ctx\<rparr>)" "aes_ready ctx"
    using sk_set_key_ready assms(1-4) unfolding sk_fresh_def by blast
  then show ?thesis
    using aes_modes.ecb_roundtrip [of "algo\<lparr>sk_ctx := ctx\<rparr>" xs out out2 ol] assms
    unfolding sk_fresh_def by simp
qed

theorem ecb_aes_roundtrip_witness:
  "\<exists>algo1 algo2 c n out'. sk_set_key (sk_sample SKCIPHER_PADDING_ZERO) [1, 2, 3] (length [1, 2, 3 :: u8]) = Some (0, algo1) \<and>
    ecb_encrypt aes_encrypt algo1 [4, 5] (length [4, 5 :: u8]) (replicate 16 0) 64 = Some (1, algo2, c, n) \<and>
    ecb_decrypt aes_decrypt algo2 c n (replicate 17 0) 64 = Some (1, out', length [4, 5 :: u8]) \<and>
    take (length [4, 5 :: u8]) out' = [4, 5]"
  by (rule ecb_aes_roundtrip) (simp_all add: sk_sample_def sk_fresh_def unpad_safe_def)

text \<open>
  Removing the padding touches memory outside the decrypted text.  PKCS#7: the loop clears
  \<open>out[*out_len]\<close>, one byte behind the text, which is out of bounds when \<open>out\<close> has exactly the size of
  the ciphertext.  Zero padding: for a single block of zeros the unsigned comparison lets the loop
  go on to \<open>out[-1]\<close>.
\<close>
theorem unpad_out_of_bounds:
  assumes "0 < k" "k \<le> 16" "k \<le> length ys"
  shows "unpad_pkcs7_policy (take (length ys - k) ys @ replicate k (of_nat k)) (length ys) = None \<and>
    unpad_zero_policy (replicate 17 0) 16 = None"
proof
  let ?out = "take (length ys - k) ys @ replicate k (of_nat k :: u8)"
  have l: "length ?out = length ys" using assms(3) by simp
  have "?out ! (length ys - 1) = of_nat k" using assms by (auto simp: nth_append)
  moreover have "int (length ys) - 1 = int (length ys - 1)" "length ys - 1 < length ?out"
    using assms l by simp_all
  ultimately have c: "ld1 ?out (int (length ys) - 1) = Some (of_nat k)" by (simp only: ld1_nat if_True)
  have u: "unat (of_nat k :: u8) = k" using assms(2) by (simp add: unat_of_nat)
  have s: "st ?out (int (length ys) - int k + 1) (replicate k 0) = None" using l assms by (simp add: st_def)
  show "unpad_pkcs7_policy ?out (length ys) = None"
    using assms unfolding unpad_pkcs7_policy_def c bind_Some_eq Let_def u s by simp
  have "unpad_zero_loop (replicate 17 0) 0 (int (0 + 16)) = unpad_zero_loop (replicate 17 0) 0 (int 0 - 1)"
    by (rule unpad_zero_loop_down) simp_all
  then have "unpad_zero_loop (replicate 17 0) 0 16 = None"
    by (simp add: unpad_zero_loop.simps [of _ _ "- 1"])
  then show "unpad_zero_policy (replicate 17 0) 16 = None"
    by (simp add: unpad_zero_policy_def ld1_def)
qed

theorem unpad_out_of_bounds_witness:
  "unpad_pkcs7_policy (take (length (replicate 16 (7 :: u8)) - 4) (replicate 16 7) @ replicate 4 (of_nat 4))
     (length (replicate 16 (7 :: u8))) = None \<and> unpad_zero_policy (replicate 17 0) 16 = None"
  by (rule unpad_out_of_bounds) simp_all

end
