(* ===== verification/Bitmap.thy ===== *)
theory Bitmap
  imports Prelude
begin

text \<open>
  The bit set of \<open>core/utils/data_structure/bitmap.c\<close>: an array of 32 bit words and the number of
  bits.  The block the allocator returns is zeroed; \<open>ok\<close> tells whether the request succeeded.  A
  \<open>NULL\<close> bitmap is \<open>None\<close>.
\<close>

record bitmap =
  bm_bits :: "u32 list"
  bm_size :: u32

definition bitmap_alloc :: "bool \<Rightarrow> bitmap option" where
  "bitmap_alloc ok = (if ok then Some \<lparr>bm_bits = [], bm_size = 0\<rparr> else None)"

definition bitmap_init :: "bool \<Rightarrow> bitmap \<Rightarrow> u32 \<Rightarrow> int \<times> bitmap" where
  "bitmap_init ok bm sz =
     (if ok then (1, bm\<lparr>bm_bits := replicate (unat (sz div 32 + 1)) 0, bm_size := sz\<rparr>)
      else (-1, bm\<lparr>bm_bits := []\<rparr>))"

definition bitmap_get :: "bitmap option \<Rightarrow> u32 \<Rightarrow> int option" where
  "bitmap_get bm pos =
     (case bm of None \<Rightarrow> Some (-1)
      | Some b \<Rightarrow>
          if pos \<ge> bm_size b then Some (-1)
          else do { w \<leftarrow> ld1 (bm_bits b) (uint (pos div 32));
                    Some (if w AND push_bit (unat (pos mod 32)) 1 \<noteq> 0 then 1 else 0) })"

definition bitmap_set :: "bitmap option \<Rightarrow> u32 \<Rightarrow> (int \<times> bitmap option) option" where
  "bitmap_set bm pos =
     (case bm of None \<Rightarrow> Some (-1, None)
      | Some b \<Rightarrow>
          if pos \<ge> bm_size b then Some (-1, bm)
          else do { w \<leftarrow> ld1 (bm_bits b) (uint (pos div 32));
                    bits \<leftarrow> st1 (bm_bits b) (uint (pos div 32)) (w OR push_bit (unat (pos mod 32)) 1);
                    let b' = b\<lparr>bm_bits := bits\<rparr> in
                    do { r \<leftarrow> bitmap_get (Some b') pos; Some (if r = 1 then 1 else 0, Some b') } })"

definition bitmap_clear :: "bitmap option \<Rightarrow> u32 \<Rightarrow> (int \<times> bitmap option) option" where
  "bitmap_clear bm pos =
     (case bm of None \<Rightarrow> Some (-1, None)
      | Some b \<Rightarrow>
          if pos \<ge> bm_size b then Some (-1, bm)
          else do { w \<leftarrow> ld1 (bm_bits b) (uint (pos div 32));
                    bits \<leftarrow> st1 (bm_bits b) (uint (pos div 32)) (w AND NOT (push_bit (unat (pos mod 32)) 1));
                    Some (1, Some (b\<lparr>bm_bits := bits\<rparr>)) })"

definition bitmap_reset :: "bitmap option \<Rightarrow> int \<times> bitmap option" where
  "bitmap_reset bm = (case bm of None \<Rightarrow> (-1, None) | Some b \<Rightarrow> (1, Some b))"

definition bitmap_destroy :: "bitmap option \<Rightarrow> int" where
  "bitmap_destroy bm = (case bm of None \<Rightarrow> -1 | Some b \<Rightarrow> 1)"

subsection \<open>The set of positions\<close>

definition bitmap_inv :: "bitmap \<Rightarrow> bool" where
  "bitmap_inv b \<longleftrightarrow> unat (bm_size b) div 32 < length (bm_bits b)"

definition bitmap_abs :: "bitmap \<Rightarrow> u32 set" where
  "bitmap_abs b = {p. p < bm_size b \<and> bit (bm_bits b ! (unat p div 32)) (unat p mod 32)}"

lemma unat_div_mod_32: "unat (p div 32) = unat p div 32" "unat (p mod 32) = unat p mod 32" for p :: u32
  by (simp_all add: unat_div unat_mod)

lemma bitmap_index:
  assumes "bitmap_inv b" "p < bm_size b"
  shows "unat p div 32 < length (bm_bits b)"
  using assms div_le_mono [of "unat p" "unat (bm_size b)" 32]
  by (simp add: bitmap_inv_def word_less_nat_alt)

lemma and_bit_mask: "(w AND push_bit k 1 \<noteq> 0) = bit w k" if "k < 32" for w :: u32
proof
  assume "bit w k"
  then have "bit (w AND push_bit k 1) k" by (simp add: bit_simps that)
  then show "w AND push_bit k 1 \<noteq> 0" by (metis bit_0_eq bot_apply bot_bool_def)
next
  assume "w AND push_bit k 1 \<noteq> 0"
  then obtain n where "bit (w AND push_bit k 1) n" by (metis bit_eqI bit_0_eq bot_apply bot_bool_def)
  then show "bit w k" by (auto simp: bit_simps bit_1_iff split: if_splits)
qed

lemma bitmap_get_abs:
  assumes "bitmap_inv b"
  shows "bitmap_get (Some b) p = Some (if p \<ge> bm_size b then -1 else if p \<in> bitmap_abs b then 1 else 0)"
proof (cases "p \<ge> bm_size b")
  case False
  then have "p < bm_size b" by simp
  note i = bitmap_index [OF assms this]
  show ?thesis
    using False i and_bit_mask [of "unat p mod 32", simplified] by (simp add: bitmap_get_def ld1_uint unat_div_mod_32 bitmap_abs_def)
qed (simp add: bitmap_get_def)

lemma st1_uint: "st1 m (uint x) v = (if unat x < length m then Some (m[unat x := v]) else None)"
proof -
  have "uint x = int (unat x)" by simp
  then show ?thesis unfolding st1_def by (simp only: nat_int of_nat_less_iff of_nat_0_le_iff simp_thms)
qed

lemma same_position: "unat p div 32 = unat q div 32 \<Longrightarrow> unat p mod 32 = unat q mod 32 \<longleftrightarrow> p = q" for p q :: u32
  by (metis div_mult_mod_eq word_eq_iff_unsigned)

lemma bitmap_set_abs:
  assumes "bitmap_inv b" "p < bm_size b"
  shows "\<exists>b'. bitmap_set (Some b) p = Some (1, Some b') \<and> bitmap_inv b' \<and> bm_size b' = bm_size b \<and>
    bitmap_abs b' = insert p (bitmap_abs b)"
proof -
  note i = bitmap_index [OF assms]
  let ?w = "bm_bits b ! (unat p div 32) OR push_bit (unat p mod 32) 1"
  let ?b = "b\<lparr>bm_bits := (bm_bits b)[unat p div 32 := ?w]\<rparr>"
  have inv: "bitmap_inv ?b" using assms(1) by (simp add: bitmap_inv_def)
  have abs: "bitmap_abs ?b = insert p (bitmap_abs b)"
  proof (rule set_eqI)
    fix q show "q \<in> bitmap_abs ?b \<longleftrightarrow> q \<in> insert p (bitmap_abs b)"
    proof (cases "unat q div 32 = unat p div 32")
      case True
      have k: "unat q mod 32 < 32" "unat p mod 32 < 32" by simp_all
      have "bit (push_bit (unat p mod 32) (1 :: u32)) (unat q mod 32) = (unat p mod 32 = unat q mod 32)"
        using k by (auto simp: bit_simps bit_1_iff)
      then show ?thesis
        using True i assms(2) same_position [OF True] by (auto simp: bitmap_abs_def bit_or_iff)
    next
      case False
      then show ?thesis by (auto simp: bitmap_abs_def)
    qed
  qed
  have "bitmap_set (Some b) p = Some (1, Some ?b)"
    using i assms(2) bitmap_get_abs [OF inv, of p] abs
    by (simp add: bitmap_set_def ld1_uint st1_uint unat_div_mod_32)
  with inv abs show ?thesis by auto
qed

lemma bitmap_clear_abs:
  assumes "bitmap_inv b" "p < bm_size b"
  shows "\<exists>b'. bitmap_clear (Some b) p = Some (1, Some b') \<and> bitmap_inv b' \<and> bm_size b' = bm_size b \<and>
    bitmap_abs b' = bitmap_abs b - {p}"
proof -
  note i = bitmap_index [OF assms]
  let ?w = "bm_bits b ! (unat p div 32) AND NOT (push_bit (unat p mod 32) 1)"
  let ?b = "b\<lparr>bm_bits := (bm_bits b)[unat p div 32 := ?w]\<rparr>"
  have inv: "bitmap_inv ?b" using assms(1) by (simp add: bitmap_inv_def)
  have abs: "bitmap_abs ?b = bitmap_abs b - {p}"
  proof (rule set_eqI)
    fix q show "q \<in> bitmap_abs ?b \<longleftrightarrow> q \<in> bitmap_abs b - {p}"
    proof (cases "unat q div 32 = unat p div 32")
      case True
      have k: "unat q mod 32 < 32" "unat p mod 32 < 32" by simp_all
      have "bit (push_bit (unat p mod 32) (1 :: u32)) (unat q mod 32) = (unat p mod 32 = unat q mod 32)"
        using k by (auto simp: bit_simps bit_1_iff)
      then show ?thesis
        using True i assms(2) same_position [OF True] by (auto simp: bitmap_abs_def bit_and_iff bit_not_iff)
    next
      case False
      then show ?thesis by (auto simp: bitmap_abs_def)
    qed
  qed
  have "bitmap_clear (Some b) p = Some (1, Some ?b)"
    using i assms(2) by (simp add: bitmap_clear_def ld1_uint st1_uint unat_div_mod_32)
  with inv abs show ?thesis by auto
qed

subsection \<open>The interface\<close>

text \<open>
  What a client of a bit set of a fixed universe relies on; \<open>upd True\<close> sets a position and
  \<open>upd False\<close> clears it.  A history of updates determines every later query.
\<close>

locale bit_set =
  fixes get :: "'s \<Rightarrow> 'p \<Rightarrow> int option" and upd :: "bool \<Rightarrow> 's \<Rightarrow> 'p \<Rightarrow> (int \<times> 's) option"
    and inv :: "'s \<Rightarrow> bool" and abs :: "'s \<Rightarrow> 'p set" and univ :: "'s \<Rightarrow> 'p set"
  assumes get_in: "inv s \<Longrightarrow> p \<in> univ s \<Longrightarrow> get s p = Some (if p \<in> abs s then 1 else 0)"
    and get_out: "inv s \<Longrightarrow> p \<notin> univ s \<Longrightarrow> get s p = Some (- 1)"
    and upd_in: "inv s \<Longrightarrow> p \<in> univ s \<Longrightarrow> \<exists>s'. upd b s p = Some (1, s') \<and> inv s' \<and> univ s' = univ s \<and>
      abs s' = (if b then insert p (abs s) else abs s - {p})"
    and upd_out: "inv s \<Longrightarrow> p \<notin> univ s \<Longrightarrow> upd b s p = Some (- 1, s)"

text \<open>The updates of a history in order, and the last one of a position.\<close>

fun run_updates :: "(bool \<Rightarrow> 's \<Rightarrow> 'p \<Rightarrow> (int \<times> 's) option) \<Rightarrow> 's \<Rightarrow> (bool \<times> 'p) list \<Rightarrow> 's option" where
  "run_updates upd s [] = Some s"
| "run_updates upd s ((b, p) # h) = do { (_, s') \<leftarrow> upd b s p; run_updates upd s' h }"

definition last_update :: "bool \<Rightarrow> (bool \<times> 'p) list \<Rightarrow> 'p \<Rightarrow> bool" where
  "last_update b0 h p = foldl (\<lambda>b (c, q). if q = p then c else b) b0 h"

context bit_set
begin

lemma run_history:
  assumes "inv s"
  shows "\<exists>s'. run_updates upd s h = Some s' \<and> inv s' \<and> univ s' = univ s \<and>
    (\<forall>p. get s' p = Some (if p \<notin> univ s then -1 else if last_update (p \<in> abs s) h p then 1 else 0))"
  using assms
proof (induction h arbitrary: s)
  case Nil
  then show ?case using get_in get_out by (auto simp: last_update_def)
next
  case (Cons u h)
  obtain b q where u: "u = (b, q)" by (cases u)
  obtain s1 r where s1: "upd b s q = Some (r, s1)" "inv s1" "univ s1 = univ s"
    and a: "\<And>p. p \<in> univ s \<Longrightarrow> (p \<in> abs s1) = (if q = p then b else p \<in> abs s)"
  proof (cases "q \<in> univ s")
    case True
    then obtain s' where "upd b s q = Some (1, s')" "inv s'" "univ s' = univ s"
        "abs s' = (if b then insert q (abs s) else abs s - {q})"
      using upd_in [OF Cons.prems] by blast
    then show ?thesis by (intro that [of 1 s']) auto
  next
    case False
    then show ?thesis using upd_out [OF Cons.prems False] Cons.prems by (intro that [of "- 1" s]) auto
  qed
  obtain s' where s': "run_updates upd s1 h = Some s'" "inv s'" "univ s' = univ s1"
      "\<forall>p. get s' p = Some (if p \<notin> univ s1 then -1 else if last_update (p \<in> abs s1) h p then 1 else 0)"
    using Cons.IH [OF s1(2)] by blast
  have "last_update (p \<in> abs s) (u # h) p = last_update (p \<in> abs s1) h p" if "p \<in> univ s" for p
    using a [OF that] by (simp add: last_update_def u)
  with s' s1 show ?case by (auto simp: u)
qed

end

definition bitmap_upd :: "bool \<Rightarrow> bitmap \<Rightarrow> u32 \<Rightarrow> (int \<times> bitmap) option" where
  "bitmap_upd b bm p =
     do { (r, bm') \<leftarrow> (if b then bitmap_set (Some bm) p else bitmap_clear (Some bm) p);
          case bm' of None \<Rightarrow> None | Some x \<Rightarrow> Some (r, x) }"

interpretation bits: bit_set "\<lambda>b. bitmap_get (Some b)" bitmap_upd bitmap_inv bitmap_abs "\<lambda>b. {p. p < bm_size b}"
proof unfold_locales
  fix s p b assume inv: "bitmap_inv s"
  show "bitmap_get (Some s) p = Some (if p \<in> bitmap_abs s then 1 else 0)" if "p \<in> {p. p < bm_size s}"
    using that bitmap_get_abs [OF inv, of p] by simp
  show "bitmap_get (Some s) p = Some (- 1)" if "p \<notin> {p. p < bm_size s}"
    using that bitmap_get_abs [OF inv, of p] by simp
  show "\<exists>s'. bitmap_upd b s p = Some (1, s') \<and> bitmap_inv s' \<and> {p. p < bm_size s'} = {p. p < bm_size s} \<and>
      bitmap_abs s' = (if b then insert p (bitmap_abs s) else bitmap_abs s - {p})" if "p \<in> {p. p < bm_size s}"
    using that bitmap_set_abs [OF inv, of p] bitmap_clear_abs [OF inv, of p]
    by (cases b) (auto simp: bitmap_upd_def)
  show "bitmap_upd b s p = Some (- 1, s)" if "p \<notin> {p. p < bm_size s}"
    using that by (cases b) (simp_all add: bitmap_upd_def bitmap_set_def bitmap_clear_def not_less)
qed

text \<open>
  C32. A bitmap created by \<open>bitmap_init\<close> is a set of positions: after any
  sequence of \<open>bitmap_set\<close> and \<open>bitmap_clear\<close> calls, with positions in and out of range, no access
  leaves the array and \<open>bitmap_get\<close> reports for every position whether its last update was a set
  (0 when there was none), and -1 for a position out of range.
\<close>
theorem bitmap_history:
  "\<exists>bm'. run_updates bitmap_upd (snd (bitmap_init True bm sz)) h = Some bm' \<and>
    (\<forall>p. bitmap_get (Some bm') p = Some (if p \<ge> sz then -1 else if last_update False h p then 1 else 0))"
proof -
  have "unat (sz div 32 + 1) = unat sz div 32 + 1"
  proof -
    have "unat sz < 2 ^ 32" using unsigned_less [of sz] by simp
    then have "unat sz div 32 + 1 < 2 ^ 32" by (simp add: less_mult_imp_div_less)
    then show ?thesis by (simp add: unat_word_ariths unat_div_mod_32)
  qed
  then have "bitmap_inv (snd (bitmap_init True bm sz))" "bitmap_abs (snd (bitmap_init True bm sz)) = {}"
    "bm_size (snd (bitmap_init True bm sz)) = sz"
    by (auto simp: bitmap_init_def bitmap_inv_def bitmap_abs_def word_less_nat_alt div_le_mono less_Suc_eq_le
        simp del: replicate_Suc)
  from bits.run_history [OF this(1), of h] this(2,3) show ?thesis by auto
qed

end
