(* ===== verification/HeapQueue.thy ===== *)
theory HeapQueue
  imports Prelude "HOL-Library.Multiset"
begin

text \<open>
  The array heap of \<open>core/utils/data_structure/heap/heap.c\<close>.  The element pointers are integers
  (\<open>greater_than\<close> compares them as \<open>long long\<close>), \<open>NULL\<close> is 0; the function pointer \<open>comparator\<close> is the
  argument \<open>cmp\<close>.  The queue has no growth: writing behind the block is \<open>None\<close>.
\<close>

record heap =
  h_queue :: "int list"
  h_size :: nat
  h_capacity :: nat

definition greater_than :: "int \<Rightarrow> int \<Rightarrow> bool" where
  "greater_than e1 e2 \<longleftrightarrow> e1 > e2"

function shiftup :: "(int \<Rightarrow> int \<Rightarrow> bool) \<Rightarrow> int list \<Rightarrow> nat \<Rightarrow> int \<Rightarrow> int list option" where
  "shiftup cmp q i e =
     (if i > 0 then
        do { x \<leftarrow> ld1 q (int ((i - 1) div 2));
             if cmp e x then st1 q (int i) e
             else do { q' \<leftarrow> st1 q (int i) x; shiftup cmp q' ((i - 1) div 2) e } }
      else st1 q (int i) e)"
  by auto
termination
  by (relation "measure (\<lambda>(cmp, q, i, e). i)") auto

declare shiftup.simps [simp del]

function shiftdown :: "(int \<Rightarrow> int \<Rightarrow> bool) \<Rightarrow> int list \<Rightarrow> nat \<Rightarrow> nat \<Rightarrow> int \<Rightarrow> int list option" where
  "shiftdown cmp q sz i e =
     (if i < sz div 2 then
        do { l \<leftarrow> ld1 q (int (2 * i + 1));
             child \<leftarrow> (if 2 * i + 2 < sz
                      then do { r \<leftarrow> ld1 q (int (2 * i + 2)); Some (if cmp l r then 2 * i + 2 else 2 * i + 1) }
                      else Some (2 * i + 1));
             c \<leftarrow> ld1 q (int child);
             if cmp c e then st1 q (int i) e
             else do { q' \<leftarrow> st1 q (int i) c; shiftdown cmp q' sz child e } }
      else st1 q (int i) e)"
  by auto
termination
  by (relation "measure (\<lambda>(cmp, q, sz, i, e). sz - i)") (auto simp: bind_eq_Some_conv split: if_splits)

declare shiftdown.simps [simp del]

text \<open>\<open>fill\<close> is what the fresh block contains.\<close>

definition heap_init :: "(nat \<Rightarrow> int) \<Rightarrow> heap \<Rightarrow> heap" where
  "heap_init fill h = h\<lparr>h_queue := map fill [0..<if h_capacity h = 0 then 64 else h_capacity h]\<rparr>"

definition heap_add :: "(int \<Rightarrow> int \<Rightarrow> bool) \<Rightarrow> heap \<Rightarrow> int \<Rightarrow> heap option" where
  "heap_add cmp h e =
     do { q \<leftarrow> shiftup cmp (h_queue h) (h_size h) e; Some (h\<lparr>h_queue := q, h_size := h_size h + 1\<rparr>) }"

definition heap_remove :: "(int \<Rightarrow> int \<Rightarrow> bool) \<Rightarrow> heap \<Rightarrow> (int \<times> int \<times> heap) option" where
  "heap_remove cmp h =
     (if h_size h = 0 then Some (-1, 0, h)
      else do { e \<leftarrow> ld1 (h_queue h) 0;
                x \<leftarrow> ld1 (h_queue h) (int (h_size h - 1));
                q \<leftarrow> shiftdown cmp (h_queue h) (h_size h) 0 x;
                q' \<leftarrow> st1 q (int (h_size h - 1)) 0;
                Some (1, e, h\<lparr>h_queue := q', h_size := h_size h - 1\<rparr>) })"

definition heap_size :: "heap \<Rightarrow> nat" where
  "heap_size h = h_size h"

definition heap_set_at :: "heap \<Rightarrow> nat \<Rightarrow> int \<Rightarrow> heap option" where
  "heap_set_at h i e = do { q \<leftarrow> st1 (h_queue h) (int i) e; Some (h\<lparr>h_queue := q\<rparr>) }"

text \<open>The loop of \<open>heap_sort\<close>: the size shrinks by one in each pass until it is at most 1.\<close>

function heap_sort :: "(int \<Rightarrow> int \<Rightarrow> bool) \<Rightarrow> heap \<Rightarrow> heap option" where
  "heap_sort cmp h =
     (if h_size h > 1 then
        case heap_remove cmp h of
          None \<Rightarrow> None
        | Some (r, e, h1) \<Rightarrow>
            (case heap_set_at h1 (h_size h - 1) e of
               None \<Rightarrow> None
             | Some h2 \<Rightarrow> heap_sort cmp h2)
      else Some h)"
  by auto
termination
proof (relation "measure (\<lambda>(cmp, h). h_size h)")
  fix cmp h x r x1 e h1 h2
  assume "1 < h_size h" "heap_remove cmp h = Some x" "(r, x1) = x" "(e, h1) = x1" "heap_set_at h1 (h_size h - 1) e = Some h2"
  then show "((cmp, h2), (cmp, h)) \<in> measure (\<lambda>(cmp, h). h_size h)"
    by (auto simp: heap_remove_def heap_set_at_def bind_eq_Some_conv split: if_splits)
qed simp

declare heap_sort.simps [simp del]

subsection \<open>Heap order\<close>

definition hle :: "(int \<Rightarrow> int \<Rightarrow> bool) \<Rightarrow> int \<Rightarrow> int \<Rightarrow> bool" where
  "hle cmp a b \<longleftrightarrow> \<not> cmp a b"

definition is_heap :: "(int \<Rightarrow> int \<Rightarrow> bool) \<Rightarrow> int list \<Rightarrow> nat \<Rightarrow> bool" where
  "is_heap cmp q n \<longleftrightarrow> (\<forall>j. 0 < j \<and> j < n \<longrightarrow> hle cmp (q ! ((j - 1) div 2)) (q ! j))"

text \<open>The order holds except between \<open>i\<close> and its parent, or between \<open>i\<close> and its children.\<close>

definition grand_ok :: "(int \<Rightarrow> int \<Rightarrow> bool) \<Rightarrow> int list \<Rightarrow> nat \<Rightarrow> nat \<Rightarrow> bool" where
  "grand_ok cmp q n i \<longleftrightarrow>
     (\<forall>j. 0 < j \<and> j < n \<and> (j - 1) div 2 = i \<and> 0 < i \<longrightarrow> hle cmp (q ! ((i - 1) div 2)) (q ! j))"

definition heap_but_up :: "(int \<Rightarrow> int \<Rightarrow> bool) \<Rightarrow> int list \<Rightarrow> nat \<Rightarrow> nat \<Rightarrow> bool" where
  "heap_but_up cmp q n i \<longleftrightarrow>
     (\<forall>j. 0 < j \<and> j < n \<and> j \<noteq> i \<longrightarrow> hle cmp (q ! ((j - 1) div 2)) (q ! j)) \<and> grand_ok cmp q n i"

definition heap_but_down :: "(int \<Rightarrow> int \<Rightarrow> bool) \<Rightarrow> int list \<Rightarrow> nat \<Rightarrow> nat \<Rightarrow> bool" where
  "heap_but_down cmp q n i \<longleftrightarrow>
     (\<forall>j. 0 < j \<and> j < n \<and> (j - 1) div 2 \<noteq> i \<longrightarrow> hle cmp (q ! ((j - 1) div 2)) (q ! j)) \<and> grand_ok cmp q n i"

text \<open>Exchanging two entries of the first \<open>n\<close>.\<close>

lemma mset_take_swap:
  assumes "i < n" "p < n" "n \<le> length q"
  shows "mset (take n (q[i := q ! p, p := e])) = mset (take n (q[i := e]))"
proof (cases "i = p")
  case False
  let ?t = "take n (q[i := e])"
  have "mset (take n (q[i := q ! p, p := e])) = mset (?t[i := ?t ! p, p := ?t ! i])"
    using assms False by (simp add: take_update_swap)
  also have "\<dots> = mset ?t" using mset_swap [of p ?t i] assms by simp
  finally show ?thesis .
qed simp

lemma mset_take_upd:
  assumes "i < n" "n \<le> length q"
  shows "mset (take n (q[i := e])) = add_mset e (mset (take n q) - {#q ! i#})"
  using assms by (simp add: take_update_swap mset_update)

lemma parent_less: "0 < j \<Longrightarrow> (j - 1) div 2 < (j :: nat)"
  by (metis Suc_pred' div_le_dividend less_Suc_eq_le One_nat_def)

text \<open>
  The laws of a comparator: \<open>cmp\<close> is the strict part of a total preorder, so that its negation
  is reflexive, total and transitive.
\<close>

locale heap_order =
  fixes cmp :: "int \<Rightarrow> int \<Rightarrow> bool"
  assumes asym: "cmp a b \<Longrightarrow> \<not> cmp b a"
    and trans: "\<not> cmp a b \<Longrightarrow> \<not> cmp b c \<Longrightarrow> \<not> cmp a c"
begin

lemma hle_trans: "hle cmp a b \<Longrightarrow> hle cmp b c \<Longrightarrow> hle cmp a c"
  using trans by (simp add: hle_def)

lemma hle_refl: "hle cmp a a"
  using asym by (auto simp: hle_def)

lemma hle_total: "cmp a b \<Longrightarrow> hle cmp b a"
  using asym by (simp add: hle_def)

lemma is_heap_min:
  assumes "is_heap cmp q n" "j < n"
  shows "hle cmp (q ! 0) (q ! j)"
  using assms(2)
proof (induction j rule: less_induct)
  case (less j)
  show ?case
  proof (cases "j = 0")
    case False
    then have "(j - 1) div 2 < j" by (simp add: parent_less)
    with less False have "hle cmp (q ! 0) (q ! ((j - 1) div 2))" by simp
    moreover have "hle cmp (q ! ((j - 1) div 2)) (q ! j)" using assms(1) less.prems False by (simp add: is_heap_def)
    ultimately show ?thesis by (rule hle_trans)
  qed (simp add: hle_refl)
qed

lemma shiftup_step:
  assumes "heap_but_up cmp (q[i := e]) n i" "0 < i" "i < n" "n \<le> length q" "hle cmp e (q ! p)" "(i - 1) div 2 = p"
  shows "heap_but_up cmp (q[i := q ! p, p := e]) n p"
proof -
  let ?q = "q[i := e]"
  have p: "p < i" using parent_less [OF assms(2)] assms(6) by simp
  let ?r = "q[i := q ! p, p := e]"
  have r: "?r ! j = (if j = p then e else if j = i then q ! p else q ! j)" if "j < n" for j
    using that p assms(3,4) by (auto simp: nth_list_update)
  have qq: "?q ! j = (if j = i then e else q ! j)" if "j < n" for j
    using that assms(3,4) by (auto simp: nth_list_update)
  have ok: "hle cmp (?q ! ((j - 1) div 2)) (?q ! j)" if "0 < j" "j < n" "j \<noteq> i" for j
    using assms(1) that by (simp add: heap_but_up_def)
  have g: "hle cmp (?q ! p) (?q ! j)" if "0 < j" "j < n" "(j - 1) div 2 = i" for j
    using assms(1,2,6) that unfolding heap_but_up_def grand_ok_def by blast
  have pj: "(j - 1) div 2 < n" if "0 < j" "j < n" for j :: nat using parent_less [OF that(1)] that(2) by simp
  have main: "hle cmp (?r ! ((j - 1) div 2)) (?r ! j)" if j: "0 < j" "j < n" "j \<noteq> p" for j
  proof (cases "j = i")
    case True
    then show ?thesis using r [of i] r [of p] p assms(3,5,6) by simp
  next
    case False
    note o = ok [OF j(1,2) False] and pjn = pj [OF j(1,2)]
    consider (c) "(j - 1) div 2 = i" | (s) "(j - 1) div 2 = p" "(j - 1) div 2 \<noteq> i" | (n) "(j - 1) div 2 \<noteq> i" "(j - 1) div 2 \<noteq> p"
      by blast
    then show ?thesis
    proof cases
      case c
      have "?r ! i = q ! p" "?r ! j = q ! j" "?q ! p = q ! p" "?q ! j = q ! j"
        using r [OF assms(3)] r [OF j(2)] qq [OF j(2)] qq [of p] p assms(3) False j(3) by auto
      with g [OF j(1,2) c] show ?thesis unfolding c by simp
    next
      case s
      then have "hle cmp (q ! p) (q ! j)" using o qq [OF j(2)] qq [OF pjn] False by simp
      with assms(5) have "hle cmp e (q ! j)" by (rule hle_trans)
      with s False j r [OF j(2)] r [OF pjn] show ?thesis by simp
    next
      case n
      then show ?thesis using o qq [OF j(2)] qq [OF pjn] r [OF j(2)] r [OF pjn] False j(3) by simp
    qed
  qed
  have "hle cmp (?r ! ((p - 1) div 2)) (?r ! j)" if j: "0 < j" "j < n" "(j - 1) div 2 = p" "0 < p" for j
  proof -
    define g where "g = (p - 1) div 2"
    have pp: "g < p" unfolding g_def by (rule parent_less [OF j(4)])
    have pn: "p < n" "g < n" using p pp assms(3) by simp_all
    have "hle cmp (?q ! g) (?q ! p)" using ok [OF j(4) pn(1)] p by (simp add: g_def)
    then have a: "hle cmp (q ! g) (q ! p)" using qq [OF pn(1)] qq [OF pn(2)] p pp by simp
    have e: "?r ! ((p - 1) div 2) = q ! g" unfolding g_def [symmetric] using r [OF pn(2)] p pp by simp
    have "j \<noteq> p" using parent_less [OF j(1)] j(3) by simp
    show ?thesis
    proof (cases "j = i")
      case True
      then have "?r ! j = q ! p" using r [OF j(2)] \<open>j \<noteq> p\<close> by simp
      then show ?thesis unfolding e by (simp only: a)
    next
      case False
      then have "hle cmp (?q ! p) (?q ! j)" using ok [OF j(1,2)] unfolding j(3) by blast
      then have "hle cmp (q ! p) (q ! j)" using qq [OF j(2)] qq [OF pn(1)] False p by simp
      moreover have "?r ! j = q ! j" using r [OF j(2)] \<open>j \<noteq> p\<close> False by simp
      ultimately show ?thesis unfolding e using hle_trans [OF a] by simp
    qed
  qed
  with main show ?thesis unfolding heap_but_up_def grand_ok_def by blast
qed

lemma shiftup_ok:
  assumes "heap_but_up cmp (q[i := e]) n i" "i < n" "n \<le> length q"
  shows "\<exists>q'. shiftup cmp q i e = Some q' \<and> length q' = length q \<and> is_heap cmp q' n \<and>
    mset (take n q') = mset (take n (q[i := e])) \<and> drop n q' = drop n q"
  using assms
proof (induction i arbitrary: q rule: less_induct)
  case (less i)
  let ?p = "(i - 1) div 2"
  have stop: "st1 q (int i) e = Some (q[i := e])" using less.prems by (simp add: st1_nat)
  show ?case
  proof (cases "0 < i")
    case False
    then have "is_heap cmp (q[i := e]) n" using less.prems(1) by (simp add: heap_but_up_def is_heap_def)
    then show ?thesis
      using False stop less.prems by (subst shiftup.simps) (simp add: drop_update_cancel)
  next
    case True
    have p: "?p < i" by (rule parent_less [OF True])
    have x: "ld1 q (int ?p) = Some (q ! ?p)" using p less.prems by (simp add: ld1_nat)
    show ?thesis
    proof (cases "cmp e (q ! ?p)")
      case c: True
      then have "hle cmp (q ! ?p) e" by (rule hle_total)
      then have "hle cmp (q[i := e] ! ?p) (q[i := e] ! i)" using p less.prems by simp
      then have "is_heap cmp (q[i := e]) n" using less.prems(1) unfolding heap_but_up_def is_heap_def by metis
      with c x stop True less.prems show ?thesis
        by (subst shiftup.simps) (simp add: drop_update_cancel)
    next
      case c: False
      let ?q = "q[i := q ! ?p]"
      have "heap_but_up cmp (?q[?p := e]) n ?p"
        using shiftup_step [OF less.prems(1) True less.prems(2,3) _ refl] c by (simp add: hle_def)
      from less.IH [OF p this] p less.prems obtain q' where
        q': "shiftup cmp ?q ?p e = Some q'" "length q' = length q" "is_heap cmp q' n"
          "mset (take n q') = mset (take n (?q[?p := e]))" "drop n q' = drop n ?q" by auto
      moreover have "mset (take n (?q[?p := e])) = mset (take n (q[i := e]))"
        by (rule mset_take_swap) (use p less.prems in auto)
      moreover have "shiftup cmp q i e = shiftup cmp ?q ?p e"
        using True x c less.prems by (subst shiftup.simps) (simp add: st1_nat)
      ultimately show ?thesis using less.prems by (simp add: drop_update_cancel)
    qed
  qed
qed

lemma shiftdown_step:
  assumes "heap_but_down cmp (q[i := e]) n i" "i < n" "n \<le> length q" "k < n" "0 < k" "(k - 1) div 2 = i"
    "\<And>j. 0 < j \<Longrightarrow> j < n \<Longrightarrow> (j - 1) div 2 = i \<Longrightarrow> hle cmp (q ! k) (q ! j)" "hle cmp (q ! k) e"
  shows "heap_but_down cmp (q[i := q ! k, k := e]) n k"
proof -
  let ?q = "q[i := e]" and ?r = "q[i := q ! k, k := e]"
  have ik: "i < k" using parent_less [OF assms(5)] assms(6) by simp
  have r: "?r ! j = (if j = k then e else if j = i then q ! k else q ! j)" if "j < n" for j
    using that ik assms(2,3,4) by (auto simp: nth_list_update)
  have qq: "?q ! j = (if j = i then e else q ! j)" if "j < n" for j
    using that assms(2,3) by (auto simp: nth_list_update)
  have ok: "hle cmp (?q ! ((j - 1) div 2)) (?q ! j)" if "0 < j" "j < n" "(j - 1) div 2 \<noteq> i" for j
    using assms(1) that unfolding heap_but_down_def by blast
  have pj: "(j - 1) div 2 < n" "(j - 1) div 2 \<noteq> j" if "0 < j" "j < n" for j :: nat
    using parent_less [OF that(1)] that(2) by auto
  have main: "hle cmp (?r ! ((j - 1) div 2)) (?r ! j)" if j: "0 < j" "j < n" "(j - 1) div 2 \<noteq> k" for j
  proof (cases "(j - 1) div 2 = i")
    case True
    then show ?thesis using assms(7) [OF j(1,2) True] assms(8) r [OF j(2)] r [of i] ik assms(2) pj(2) [OF j(1,2)] by auto
  next
    case False
    note o = ok [OF j(1,2) False]
    have jk: "j \<noteq> k" using False assms(6) by auto
    show ?thesis
    proof (cases "j = i")
      case True
      then have "hle cmp (?q ! ((i - 1) div 2)) (?q ! k)"
        using assms(1,4,5,6) j unfolding heap_but_down_def grand_ok_def by blast
      then show ?thesis using True r [OF j(2)] r [OF pj(1), OF j(1,2)] qq [OF assms(4)] qq [OF pj(1), OF j(1,2)] ik False j
        by simp
    next
      case ji: False
      then show ?thesis using o jk r [OF j(2)] r [OF pj(1), OF j(1,2)] qq [OF j(2)] qq [OF pj(1), OF j(1,2)] False j(3) by simp
    qed
  qed
  have "hle cmp (?r ! ((k - 1) div 2)) (?r ! j)" if j: "0 < j" "j < n" "(j - 1) div 2 = k" for j
  proof -
    have "k < j" using parent_less [OF j(1)] j(3) by simp
    moreover have "hle cmp (q ! k) (q ! j)"
      using ok [OF j(1,2)] j(3) ik qq [OF j(2)] qq [OF assms(4)] \<open>k < j\<close> by simp
    ultimately show ?thesis using r [OF j(2)] r [OF assms(2)] ik assms(6) by simp
  qed
  with main show ?thesis unfolding heap_but_down_def grand_ok_def by blast
qed

text \<open>The child that \<open>shiftdown\<close> picks is not above its sibling.\<close>

lemma child_of: "(j - 1) div 2 = i \<Longrightarrow> 0 < j \<Longrightarrow> j = 2 * i + 1 \<or> j = 2 * i + (2 :: nat)"
  by presburger

lemma shiftdown_ok:
  assumes "heap_but_down cmp (q[i := e]) n i" "i < n" "n \<le> length q" "i = n - 1 \<or> q ! (n - 1) = e"
  shows "\<exists>q'. shiftdown cmp q n i e = Some q' \<and> length q' = length q \<and> is_heap cmp q' n \<and>
    mset (take n q') = mset (take n (q[i := e])) \<and> drop n q' = drop n q \<and> q' ! (n - 1) = e"
  using assms
proof (induction "n - i" arbitrary: i q rule: less_induct)
  case less
  have stop: "st1 q (int i) e = Some (q[i := e])" using less.prems by (simp add: st1_nat)
  have last: "q[i := e] ! (n - 1) = e" using less.prems(2-4) by (cases "i = n - 1") auto
  have fin: "?case" if "shiftdown cmp q n i e = st1 q (int i) e"
    "\<And>j. 0 < j \<Longrightarrow> j < n \<Longrightarrow> (j - 1) div 2 = i \<Longrightarrow> hle cmp (q[i := e] ! i) (q[i := e] ! j)"
  proof -
    have "is_heap cmp (q[i := e]) n"
      using less.prems(1) that(2) unfolding heap_but_down_def is_heap_def by metis
    with that(1) stop last less.prems show ?thesis by (simp add: drop_update_cancel)
  qed
  show ?case
  proof (cases "i < n div 2")
    case False
    show ?thesis
    proof (rule fin)
      show "shiftdown cmp q n i e = st1 q (int i) e" using False by (subst shiftdown.simps) simp
    qed (use False in \<open>auto dest!: child_of\<close>)
  next
    case True
    let ?l = "2 * i + 1" and ?r = "2 * i + 2"
    define k where "k = (if ?r < n \<and> cmp (q ! ?l) (q ! ?r) then ?r else ?l)"
    have l: "?l < n" using True by linarith
    have k: "k < n" "0 < k" "(k - 1) div 2 = i" "i < k" using l by (auto simp: k_def)
    have small: "hle cmp (q ! k) (q ! j)" if "0 < j" "j < n" "(j - 1) div 2 = i" for j
      using child_of [OF that(3,1)] that(2) hle_refl hle_total by (auto simp: k_def hle_def)
    have ld: "ld1 q (int ?l) = Some (q ! ?l)" "?r < n \<Longrightarrow> ld1 q (int ?r) = Some (q ! ?r)"
      "ld1 q (int k) = Some (q ! k)"
      using l k(1) less.prems(3) by (simp_all only: ld1_nat) auto
    have step: "shiftdown cmp q n i e = (if cmp (q ! k) e then st1 q (int i) e
        else do { q' \<leftarrow> st1 q (int i) (q ! k); shiftdown cmp q' n k e })"
      using True ld by (subst shiftdown.simps) (auto simp: k_def)
    show ?thesis
    proof (cases "cmp (q ! k) e")
      case c: True
      show ?thesis
      proof (rule fin)
        show "shiftdown cmp q n i e = st1 q (int i) e" using step c by simp
        show "hle cmp (q[i := e] ! i) (q[i := e] ! j)" if "0 < j" "j < n" "(j - 1) div 2 = i" for j
          using hle_trans [OF hle_total [OF c] small [OF that]] parent_less [OF that(1)] that less.prems(2,3) by auto
      qed
    next
      case c: False
      let ?q = "q[i := q ! k]"
      have "heap_but_down cmp (?q[k := e]) n k"
        using less.prems(1,2,3) k(1,2,3) small by (rule shiftdown_step) (use c in \<open>simp_all add: hle_def\<close>)
      moreover have "n - k < n - i" "k < n" "n \<le> length ?q" "k = n - 1 \<or> ?q ! (n - 1) = e"
        using k less.prems by (auto simp: nth_list_update)
      ultimately obtain q' where q': "shiftdown cmp ?q n k e = Some q'" "length q' = length ?q" "is_heap cmp q' n"
          "mset (take n q') = mset (take n (?q[k := e]))" "drop n q' = drop n ?q" "q' ! (n - 1) = e"
        using less.hyps by blast
      moreover have "mset (take n (?q[k := e])) = mset (take n (q[i := e]))"
        by (rule mset_take_swap) (use k less.prems in auto)
      moreover have "shiftdown cmp q n i e = shiftdown cmp ?q n k e"
        using step c less.prems by (simp add: st1_nat)
      ultimately show ?thesis using less.prems by (simp add: drop_update_cancel)
    qed
  qed
qed

end

subsection \<open>The priority queue\<close>

definition heap_inv :: "(int \<Rightarrow> int \<Rightarrow> bool) \<Rightarrow> heap \<Rightarrow> bool" where
  "heap_inv cmp h \<longleftrightarrow> h_size h \<le> length (h_queue h) \<and> is_heap cmp (h_queue h) (h_size h)"

definition heap_elems :: "heap \<Rightarrow> int multiset" where
  "heap_elems h = mset (take (h_size h) (h_queue h))"

definition heap_room :: "heap \<Rightarrow> nat" where
  "heap_room h = length (h_queue h) - h_size h"

text \<open>
  The requests of a client, in any order, and the answers to the removals: the return value and the element.
\<close>

datatype pq_request = Push int | Pop

fun pq_run :: "('q \<Rightarrow> int \<Rightarrow> 'q option) \<Rightarrow> ('q \<Rightarrow> (int \<times> int \<times> 'q) option) \<Rightarrow> 'q \<Rightarrow> pq_request list \<Rightarrow> ((int \<times> int) list \<times> 'q) option" where
  "pq_run add del q [] = Some ([], q)"
| "pq_run add del q (Push e # rs) = do { q' \<leftarrow> add q e; pq_run add del q' rs }"
| "pq_run add del q (Pop # rs) = do { (r, e, q') \<leftarrow> del q; (as, q'') \<leftarrow> pq_run add del q' rs; Some ((r, e) # as, q'') }"

text \<open>
  What a priority queue answers that holds the elements \<open>M\<close>, and what it holds at the end: -1 when it is empty, else an element
  that no element precedes, which it then no longer holds.
\<close>

fun pq_answers :: "(int \<Rightarrow> int \<Rightarrow> bool) \<Rightarrow> int multiset \<Rightarrow> pq_request list \<Rightarrow> (int \<times> int) list \<Rightarrow> int multiset \<Rightarrow> bool" where
  "pq_answers le M [] as M' \<longleftrightarrow> as = [] \<and> M' = M"
| "pq_answers le M (Push e # rs) as M' \<longleftrightarrow> pq_answers le (add_mset e M) rs as M'"
| "pq_answers le M (Pop # rs) as M' \<longleftrightarrow>
     (case as of [] \<Rightarrow> False
      | (r, e) # as' \<Rightarrow>
          if M = {#} then r = -1 \<and> pq_answers le M rs as' M'
          else r = 1 \<and> e \<in># M \<and> (\<forall>x \<in># M. le e x) \<and> pq_answers le (M - {#e#}) rs as' M')"

lemma pq_pop: "pq_answers le M (Pop # rs) as M' \<Longrightarrow> m \<in># M \<Longrightarrow> \<forall>x \<in># M. x \<noteq> m \<longrightarrow> \<not> le x m \<Longrightarrow>
    \<exists>as'. as = (1, m) # as' \<and> pq_answers le (M - {#m#}) rs as' M'"
  by (auto split: list.splits if_splits)

lemma pq_pop_empty: "pq_answers le {#} (Pop # rs) as M' \<Longrightarrow> \<exists>e as'. as = (-1, e) # as' \<and> pq_answers le {#} rs as' M'"
  by (auto split: list.splits)

text \<open>With \<open>n\<close> elements in it the queue never has to hold more than \<open>cap\<close>.\<close>

fun pq_fits :: "nat \<Rightarrow> nat \<Rightarrow> pq_request list \<Rightarrow> bool" where
  "pq_fits cap n [] \<longleftrightarrow> True"
| "pq_fits cap n (Push e # rs) \<longleftrightarrow> n < cap \<and> pq_fits cap (n + 1) rs"
| "pq_fits cap n (Pop # rs) \<longleftrightarrow> pq_fits cap (n - 1) rs"

text \<open>The contract of a priority queue of limited room whose \<open>del\<close> returns -1 when it is empty.\<close>

locale priority_queue =
  fixes le :: "int \<Rightarrow> int \<Rightarrow> bool" and add :: "'q \<Rightarrow> int \<Rightarrow> 'q option" and del :: "'q \<Rightarrow> (int \<times> int \<times> 'q) option"
    and invar :: "'q \<Rightarrow> bool" and elems :: "'q \<Rightarrow> int multiset" and room :: "'q \<Rightarrow> nat"
  assumes add_law: "invar q \<Longrightarrow> 0 < room q \<Longrightarrow>
      \<exists>q'. add q e = Some q' \<and> invar q' \<and> elems q' = add_mset e (elems q) \<and> Suc (room q') = room q"
    and del_empty: "invar q \<Longrightarrow> elems q = {#} \<Longrightarrow> \<exists>x. del q = Some (- 1, x, q)"
    and del_law: "invar q \<Longrightarrow> elems q \<noteq> {#} \<Longrightarrow>
      \<exists>e q'. del q = Some (1, e, q') \<and> invar q' \<and> e \<in># elems q \<and> elems q' = elems q - {#e#} \<and>
        (\<forall>x. x \<in># elems q \<longrightarrow> le e x) \<and> room q' = Suc (room q)"
begin

lemma history:
  "invar q \<Longrightarrow> pq_fits (size (elems q) + room q) (size (elems q)) rs \<Longrightarrow>
   \<exists>as q'. pq_run add del q rs = Some (as, q') \<and> invar q' \<and> pq_answers le (elems q) rs as (elems q')"
proof (induction rs arbitrary: q)
  case (Cons r rs)
  show ?case
  proof (cases r)
    case (Push e)
    obtain q1 where q1: "add q e = Some q1" "invar q1" "elems q1 = add_mset e (elems q)" "Suc (room q1) = room q"
      using add_law [OF Cons.prems(1), of e] Cons.prems(2) Push by auto
    have e: "size (elems q1) + room q1 = size (elems q) + room q" "size (elems q1) = size (elems q) + 1" using q1(3,4) by simp_all
    have "pq_fits (size (elems q) + room q) (size (elems q) + 1) rs" using Cons.prems(2) Push by simp
    then have "pq_fits (size (elems q1) + room q1) (size (elems q1)) rs" unfolding e(1) unfolding e(2) .
    from Cons.IH [OF q1(2) this] show ?thesis using q1(1,3) Push by simp
  next
    case Pop
    show ?thesis
    proof (cases "elems q = {#}")
      case True
      obtain x where "del q = Some (- 1, x, q)" using del_empty [OF Cons.prems(1) True] by blast
      then show ?thesis using Cons.IH [OF Cons.prems(1)] Cons.prems(2) True Pop by auto
    next
      case False
      obtain e q1 where q1: "del q = Some (1, e, q1)" "invar q1" "e \<in># elems q" "elems q1 = elems q - {#e#}"
          "\<forall>x. x \<in># elems q \<longrightarrow> le e x" "room q1 = Suc (room q)"
        using del_law [OF Cons.prems(1) False] by blast
      have s: "0 < size (elems q)" using False by (simp add: nonempty_has_size)
      have "size (elems q1) = size (elems q) - 1" using q1(3,4) by (simp add: size_Diff_singleton)
      then have "pq_fits (size (elems q1) + room q1) (size (elems q1)) rs" using Cons.prems(2) Pop s q1(6) by simp
      from Cons.IH [OF q1(2) this] show ?thesis using q1 False Pop by auto
    qed
  qed
qed auto

end

context heap_order
begin

lemma heap_add_ok:
  assumes "heap_inv cmp h" "0 < heap_room h"
  shows "\<exists>h'. heap_add cmp h e = Some h' \<and> heap_inv cmp h' \<and> heap_elems h' = add_mset e (heap_elems h) \<and>
    Suc (heap_room h') = heap_room h"
proof -
  let ?n = "h_size h" and ?q = "h_queue h"
  have n: "?n < length ?q" using assms(2) by (simp add: heap_room_def)
  have nc: "(j - 1) div 2 \<noteq> ?n" if "0 < j" "j < Suc ?n" for j using parent_less [OF that(1)] that(2) by simp
  have "heap_but_up cmp (?q[?n := e]) (Suc ?n) ?n"
    using assms(1) nc parent_less unfolding heap_but_up_def grand_ok_def heap_inv_def is_heap_def
    by (metis less_antisym nth_list_update_neq)
  from shiftup_ok [OF this] n obtain q' where q': "shiftup cmp ?q ?n e = Some q'" "length q' = length ?q"
    "is_heap cmp q' (Suc ?n)" "mset (take (Suc ?n) q') = mset (take (Suc ?n) (?q[?n := e]))" by auto
  moreover have "mset (take (Suc ?n) (?q[?n := e])) = add_mset e (mset (take ?n ?q))"
    using n by (simp add: take_Suc_conv_app_nth)
  ultimately show ?thesis
    using n by (simp add: heap_add_def heap_inv_def heap_elems_def heap_room_def)
qed

lemma heap_remove_ok:
  assumes "heap_inv cmp h" "0 < h_size h"
  shows "\<exists>h'. heap_remove cmp h = Some (1, h_queue h ! 0, h') \<and> heap_inv cmp h' \<and> h_size h' = h_size h - 1 \<and>
    heap_elems h' = heap_elems h - {#h_queue h ! 0#} \<and> (\<forall>x. x \<in># heap_elems h \<longrightarrow> hle cmp (h_queue h ! 0) x) \<and>
    length (h_queue h') = length (h_queue h) \<and> drop (h_size h) (h_queue h') = drop (h_size h) (h_queue h)"
proof -
  let ?n = "h_size h" and ?q = "h_queue h"
  let ?e = "?q ! (?n - 1)"
  have n: "?n \<le> length ?q" "is_heap cmp ?q ?n" using assms(1) by (simp_all add: heap_inv_def)
  have "heap_but_down cmp (?q[0 := ?e]) ?n 0"
    using n(2) unfolding heap_but_down_def grand_ok_def is_heap_def
    by (metis less_numeral_extra(3) nth_list_update_neq)
  from shiftdown_ok [OF this] n assms(2) obtain q' where q': "shiftdown cmp ?q ?n 0 ?e = Some q'" "length q' = length ?q"
    "is_heap cmp q' ?n" "mset (take ?n q') = mset (take ?n (?q[0 := ?e]))" "drop ?n q' = drop ?n ?q" "q' ! (?n - 1) = ?e"
    by auto
  let ?r = "q'[?n - 1 := 0]"
  have heap: "is_heap cmp ?r (?n - 1)"
    unfolding is_heap_def
  proof (intro allI impI)
    fix j assume j: "0 < j \<and> j < ?n - 1"
    then have "(j - 1) div 2 < ?n - 1" using parent_less [of j] by linarith
    moreover have "hle cmp (q' ! ((j - 1) div 2)) (q' ! j)" using q'(3) j unfolding is_heap_def by auto
    ultimately show "hle cmp (?r ! ((j - 1) div 2)) (?r ! j)" using j by (metis less_not_refl nth_list_update_neq)
  qed
  have "take ?n q' = take (?n - 1) q' @ [?e]"
    using q'(2,6) assms(2) n(1) take_Suc_conv_app_nth [of "?n - 1" q'] by simp
  then have "add_mset ?e (mset (take (?n - 1) q')) = add_mset ?e (mset (take ?n ?q) - {#?q ! 0#})"
    using q'(4) mset_take_upd [of 0 ?n ?q ?e] assms(2) n(1) by simp
  then have elems: "mset (take (?n - 1) ?r) = mset (take ?n ?q) - {#?q ! 0#}" by simp
  have "hle cmp (?q ! 0) x" if "x \<in># mset (take ?n ?q)" for x
    using that is_heap_min [OF n(2)] n(1) by (auto simp: in_set_conv_nth)
  moreover have "heap_remove cmp h = Some (1, ?q ! 0, h\<lparr>h_queue := ?r, h_size := ?n - 1\<rparr>)"
  proof -
    have "?n - 1 < length ?q" "0 < length ?q" using assms(2) n(1) by linarith+
    then have "ld1 ?q 0 = Some (?q ! 0)" "ld1 ?q (int (?n - 1)) = Some ?e" "st1 q' (int (?n - 1)) 0 = Some ?r"
      using ld1_nat [of ?q 0] ld1_nat [of ?q "?n - 1"] st1_nat [of q' "?n - 1" 0] q'(2) by simp_all
    then show ?thesis using assms(2) q'(1) by (simp add: heap_remove_def)
  qed
  moreover have "drop ?n ?r = drop ?n ?q" using q'(5) assms(2) by (simp add: drop_update_cancel)
  ultimately show ?thesis
    using heap elems q'(2) n(1) by (simp add: heap_inv_def heap_elems_def)
qed

lemma heap_remove_room:
  assumes i: "heap_inv cmp h" and n: "0 < h_size h"
  shows "\<exists>h'. heap_remove cmp h = Some (1, h_queue h ! 0, h') \<and> heap_inv cmp h' \<and> heap_elems h' = heap_elems h - {#h_queue h ! 0#} \<and>
    (\<forall>x. x \<in># heap_elems h \<longrightarrow> hle cmp (h_queue h ! 0) x) \<and> heap_room h' = Suc (heap_room h)"
proof -
  obtain h' where h': "heap_remove cmp h = Some (1, h_queue h ! 0, h')" "heap_inv cmp h'" "h_size h' = h_size h - 1"
      "heap_elems h' = heap_elems h - {#h_queue h ! 0#}" "\<forall>x. x \<in># heap_elems h \<longrightarrow> hle cmp (h_queue h ! 0) x"
      "length (h_queue h') = length (h_queue h)"
    using heap_remove_ok [OF i n] by blast
  have "heap_room h' = Suc (heap_room h)" using h'(3,6) n i by (auto simp: heap_room_def heap_inv_def)
  then show ?thesis using h' by blast
qed

lemma heap_remove_empty: "h_size h = 0 \<Longrightarrow> heap_remove cmp h = Some (- 1, 0, h)"
  by (simp add: heap_remove_def)

lemma heap_sort_ok:
  assumes "heap_inv cmp h" "h_size h = n"
  shows "\<exists>h'. heap_sort cmp h = Some h' \<and> h_size h' = min n 1 \<and> length (h_queue h') = length (h_queue h) \<and>
    mset (take n (h_queue h')) = mset (take n (h_queue h)) \<and> drop n (h_queue h') = drop n (h_queue h) \<and>
    sorted_wrt (\<lambda>a b. hle cmp b a) (take n (h_queue h'))"
  using assms
proof (induction n arbitrary: h)
  case 0
  then show ?case by (subst heap_sort.simps) simp
next
  case (Suc n)
  have len: "Suc n \<le> length (h_queue h)" using Suc.prems by (simp add: heap_inv_def)
  show ?case
  proof (cases "n = 0")
    case True
    with Suc.prems len show ?thesis by (subst heap_sort.simps) (cases "h_queue h"; simp)
  next
    case False
    let ?e = "h_queue h ! 0"
    obtain h1 where h1: "heap_remove cmp h = Some (1, ?e, h1)" "heap_inv cmp h1" "h_size h1 = n"
        "heap_elems h1 = heap_elems h - {#?e#}" "\<forall>x. x \<in># heap_elems h \<longrightarrow> hle cmp ?e x"
        "length (h_queue h1) = length (h_queue h)" "drop (Suc n) (h_queue h1) = drop (Suc n) (h_queue h)"
      using heap_remove_ok [OF Suc.prems(1)] Suc.prems(2) by auto
    let ?h2 = "h1\<lparr>h_queue := (h_queue h1)[n := ?e]\<rparr>"
    have h2: "heap_set_at h1 n ?e = Some ?h2" using len h1(6) by (simp add: heap_set_at_def st1_nat)
    have "is_heap cmp ((h_queue h1)[n := ?e]) n"
      unfolding is_heap_def
    proof (intro allI impI)
      fix j assume j: "0 < j \<and> j < n"
      then have "(j - 1) div 2 \<noteq> n" "j \<noteq> n" using parent_less [of j] by linarith+
      then show "hle cmp ((h_queue h1)[n := ?e] ! ((j - 1) div 2)) ((h_queue h1)[n := ?e] ! j)"
        using h1(2,3) j by (simp add: heap_inv_def is_heap_def)
    qed
    then have inv: "heap_inv cmp ?h2" "h_size ?h2 = n" using h1(2,3) len by (simp_all add: heap_inv_def)
    from Suc.IH [OF this] obtain h' where h': "heap_sort cmp ?h2 = Some h'" "h_size h' = min n 1"
      "length (h_queue h') = length (h_queue h)" "mset (take n (h_queue h')) = mset (take n (h_queue h1))"
      "drop n (h_queue h') = drop n ((h_queue h1)[n := ?e])" "sorted_wrt (\<lambda>a b. hle cmp b a) (take n (h_queue h'))"
      using h1(6) by auto
    have sort: "heap_sort cmp h = Some h'"
      using False Suc.prems(2) h1(1) h2 h'(1) by (subst heap_sort.simps) simp
    have at: "h_queue h' ! n = ?e"
      using h'(3,5) len h1(6) by (metis Suc_le_lessD hd_drop_conv_nth length_list_update nth_list_update_eq)
    have tk: "take (Suc n) (h_queue h') = take n (h_queue h') @ [?e]"
      using len h'(3) at by (simp add: take_Suc_conv_app_nth)
    have m: "mset (take n (h_queue h')) = mset (take (Suc n) (h_queue h)) - {#?e#}"
      using h'(4) h1(3,4) Suc.prems(2) by (simp add: heap_elems_def)
    have "?e \<in># mset (take (Suc n) (h_queue h))" using len by (cases "h_queue h") auto
    then have ms: "mset (take (Suc n) (h_queue h')) = mset (take (Suc n) (h_queue h))" unfolding tk using m by simp
    have "hle cmp ?e x" if "x \<in> set (take n (h_queue h'))" for x
    proof -
      have "x \<in># mset (take (Suc n) (h_queue h))" using that m by (metis in_diffD set_mset_mset)
      then show ?thesis using h1(5) Suc.prems(2) by (simp add: heap_elems_def)
    qed
    then have so: "sorted_wrt (\<lambda>a b. hle cmp b a) (take (Suc n) (h_queue h'))"
      unfolding tk using h'(6) by (auto simp: sorted_wrt_append)
    have "drop (Suc n) (h_queue h') = drop 1 (drop n (h_queue h'))" by simp
    then have dr: "drop (Suc n) (h_queue h') = drop (Suc n) (h_queue h)"
      using h'(5) h1(7) by (simp add: drop_update_cancel)
    show ?thesis using sort h'(2,3) ms dr so False by auto
  qed
qed

end

sublocale heap_order \<subseteq> pq: priority_queue "hle cmp" "heap_add cmp" "heap_remove cmp" "heap_inv cmp" heap_elems heap_room
proof unfold_locales
  fix h e assume inv: "heap_inv cmp h"
  show "\<exists>h'. heap_add cmp h e = Some h' \<and> heap_inv cmp h' \<and> heap_elems h' = add_mset e (heap_elems h) \<and>
      Suc (heap_room h') = heap_room h" if "0 < heap_room h"
    using heap_add_ok [OF inv that] .
  show "\<exists>x. heap_remove cmp h = Some (- 1, x, h)" if "heap_elems h = {#}"
    using inv that heap_remove_empty by (auto simp: heap_elems_def heap_inv_def)
  assume "heap_elems h \<noteq> {#}"
  then have "0 < h_size h" by (auto simp: heap_elems_def)
  moreover have "h_queue h ! 0 \<in># heap_elems h"
    using inv \<open>0 < h_size h\<close> by (cases "h_queue h"; cases "h_size h") (auto simp: heap_inv_def heap_elems_def)
  ultimately show "\<exists>e h'. heap_remove cmp h = Some (1, e, h') \<and> heap_inv cmp h' \<and> e \<in># heap_elems h \<and>
      heap_elems h' = heap_elems h - {#e#} \<and> (\<forall>x. x \<in># heap_elems h \<longrightarrow> hle cmp e x) \<and> heap_room h' = Suc (heap_room h)"
    using heap_remove_room [OF inv] by metis
qed

context heap_order
begin

lemma fresh_history:
  assumes h: "h_size h = 0" and f: "pq_fits (if h_capacity h = 0 then 64 else h_capacity h) 0 rs"
  shows "\<exists>as h'. pq_run (heap_add cmp) (heap_remove cmp) (heap_init fill h) rs = Some (as, h') \<and>
    pq_answers (\<lambda>a b. \<not> cmp a b) {#} rs as (heap_elems h')"
proof -
  let ?h = "heap_init fill h"
  have i: "heap_inv cmp ?h" "heap_elems ?h = {#}" "heap_room ?h = (if h_capacity h = 0 then 64 else h_capacity h)"
    using h by (auto simp: heap_inv_def heap_init_def is_heap_def heap_elems_def heap_room_def)
  have "hle cmp = (\<lambda>a b. \<not> cmp a b)" by (simp add: hle_def fun_eq_iff)
  then show ?thesis using pq.history [OF i(1), of rs] f i(2,3) by auto
qed

end

interpretation gt: heap_order greater_than
  by unfold_locales (auto simp: greater_than_def)

lemma hle_greater_than: "hle greater_than = (\<le>)"
  by (auto simp: hle_def greater_than_def fun_eq_iff)

subsection \<open>Properties\<close>

text \<open>
  C33. The heap is a priority queue for every comparator that is the strict part of a total preorder (\<open>greater_than\<close> is one, and so is
  its converse): after \<open>heap_init\<close> every sequence of additions and removals, in any order, that never has more elements in the heap than the
  capacity is served; a removal from the empty heap returns -1, and any other returns 1 and an element \<open>e\<close> of the heap for which
  \<open>comparator(e, x)\<close> holds for no element \<open>x\<close> of the heap, and takes one occurrence of it out.
\<close>
theorem heap_priority_queue:
  assumes "\<forall>a b. cmp a b \<longrightarrow> \<not> cmp b a" "\<forall>a b c. \<not> cmp a b \<longrightarrow> \<not> cmp b c \<longrightarrow> \<not> cmp a c"
    and "h_size h = 0" "pq_fits (if h_capacity h = 0 then 64 else h_capacity h) 0 rs"
  shows "\<exists>as h'. pq_run (heap_add cmp) (heap_remove cmp) (heap_init fill h) rs = Some (as, h') \<and>
    pq_answers (\<lambda>a b. \<not> cmp a b) {#} rs as (heap_elems h')"
proof -
  have "heap_order cmp" by (rule heap_order.intro) (use assms(1,2) in blast)+
  from heap_order.fresh_history [OF this assms(3,4)] show ?thesis .
qed

definition fresh_heap :: heap where
  "fresh_heap = \<lparr>h_queue = [], h_size = 0, h_capacity = 3\<rparr>"

theorem heap_priority_queue_witness:
  "(\<exists>r as h'. pq_run (heap_add greater_than) (heap_remove greater_than) (heap_init (\<lambda>i. 7) fresh_heap)
      [Push 3, Push 1, Pop, Push 2, Pop, Pop, Pop] = Some (as, h') \<and> as = [(1, 1), (1, 2), (1, 3), (-1, r)] \<and> heap_elems h' = {#}) \<and>
   (\<exists>as h'. pq_run (heap_add (<)) (heap_remove (<)) (heap_init (\<lambda>i. 7) fresh_heap) [Push 3, Push 5, Pop] = Some (as, h') \<and>
     as = [(1, 5)] \<and> heap_elems h' = {#3#})"
proof
  let ?rs = "[Push 3, Push 1, Pop, Push 2, Pop, Pop, Pop]" and ?le = "\<lambda>a b. \<not> greater_than a b"
  have "\<forall>a b. greater_than a b \<longrightarrow> \<not> greater_than b a" "\<forall>a b c. \<not> greater_than a b \<longrightarrow> \<not> greater_than b c \<longrightarrow> \<not> greater_than a c"
    "h_size fresh_heap = 0" "pq_fits (if h_capacity fresh_heap = 0 then 64 else h_capacity fresh_heap) 0 ?rs"
    by (auto simp: greater_than_def fresh_heap_def)
  from heap_priority_queue [OF this, of "\<lambda>i. 7"] obtain as h' where
    r: "pq_run (heap_add greater_than) (heap_remove greater_than) (heap_init (\<lambda>i. 7) fresh_heap) ?rs = Some (as, h')"
      "pq_answers ?le {#} ?rs as (heap_elems h')" by blast
  from r(2) have "pq_answers ?le {#1, 3#} [Pop, Push 2, Pop, Pop, Pop] as (heap_elems h')" by simp
  from pq_pop [OF this, of 1] obtain as1 where a1: "as = (1, 1) # as1" "pq_answers ?le {#2, 3#} [Pop, Pop, Pop] as1 (heap_elems h')"
    by (auto simp: greater_than_def)
  from pq_pop [OF a1(2), of 2] obtain as2 where a2: "as1 = (1, 2) # as2" "pq_answers ?le {#3#} [Pop, Pop] as2 (heap_elems h')"
    by (auto simp: greater_than_def)
  from pq_pop [OF a2(2), of 3] obtain as3 where a3: "as2 = (1, 3) # as3" "pq_answers ?le {#} [Pop] as3 (heap_elems h')"
    by (auto simp: greater_than_def)
  from pq_pop_empty [OF a3(2)] obtain e where "as3 = [(-1, e)]" "heap_elems h' = {#}" by auto
  then show "\<exists>r as h'. pq_run (heap_add greater_than) (heap_remove greater_than) (heap_init (\<lambda>i. 7) fresh_heap) ?rs = Some (as, h') \<and>
      as = [(1, 1), (1, 2), (1, 3), (-1, r)] \<and> heap_elems h' = {#}" using r(1) a1(1) a2(1) a3(1) by simp
next
  let ?rs = "[Push 3, Push 5, Pop]" and ?le = "\<lambda>a b :: int. \<not> a < b"
  have "\<forall>a b :: int. a < b \<longrightarrow> \<not> b < a" "\<forall>a b c :: int. \<not> a < b \<longrightarrow> \<not> b < c \<longrightarrow> \<not> a < c"
    "h_size fresh_heap = 0" "pq_fits (if h_capacity fresh_heap = 0 then 64 else h_capacity fresh_heap) 0 ?rs" by (auto simp: fresh_heap_def)
  from heap_priority_queue [OF this, of "\<lambda>i. 7"] obtain as h' where
    r: "pq_run (heap_add (<)) (heap_remove (<)) (heap_init (\<lambda>i. 7) fresh_heap) ?rs = Some (as, h')"
      "pq_answers ?le {#} ?rs as (heap_elems h')" by blast
  from r(2) have "pq_answers ?le {#5, 3#} [Pop] as (heap_elems h')" by simp
  from pq_pop [OF this, of 5] have "as = [(1, 5)]" "heap_elems h' = {#3#}" by auto
  then show "\<exists>as h'. pq_run (heap_add (<)) (heap_remove (<)) (heap_init (\<lambda>i. 7) fresh_heap) ?rs = Some (as, h') \<and>
      as = [(1, 5)] \<and> heap_elems h' = {#3#}" using r(1) by simp
qed

text \<open>
  C34. \<open>heap_sort\<close> terminates on every heap and leaves the elements of the heap in the array in
  descending order; the rest of the block is untouched, and the size of the heap drops to 1, so
  the sorted elements are no longer elements of the heap.
\<close>
theorem heap_sort_descending:
  assumes "heap_inv greater_than h"
  shows "\<exists>h'. heap_sort greater_than h = Some h' \<and> h_size h' = min (h_size h) 1 \<and>
    mset (take (h_size h) (h_queue h')) = heap_elems h \<and>
    sorted (rev (take (h_size h) (h_queue h'))) \<and> drop (h_size h) (h_queue h') = drop (h_size h) (h_queue h)"
  using gt.heap_sort_ok [OF assms refl] unfolding hle_greater_than
  by (auto simp: sorted_wrt_rev heap_elems_def)

definition small_heap :: heap where
  "small_heap = \<lparr>h_queue = [1, 3, 2, 9], h_size = 3, h_capacity = 4\<rparr>"

theorem heap_sort_descending_witness:
  "\<exists>h'. heap_sort greater_than small_heap = Some h' \<and> h_size h' = min (h_size small_heap) 1 \<and>
    mset (take (h_size small_heap) (h_queue h')) = heap_elems small_heap \<and>
    sorted (rev (take (h_size small_heap) (h_queue h'))) \<and>
    drop (h_size small_heap) (h_queue h') = drop (h_size small_heap) (h_queue small_heap)"
proof (rule heap_sort_descending)
  have "is_heap greater_than [1, 3, 2, 9] 3"
    unfolding is_heap_def hle_greater_than
  proof (intro allI impI)
    fix j :: nat assume "0 < j \<and> j < 3"
    then have "j = 1 \<or> j = 2" by auto
    then show "[1, 3, 2, 9 :: int] ! ((j - 1) div 2) \<le> [1, 3, 2, 9] ! j" by auto
  qed
  then show "heap_inv greater_than small_heap" by (simp add: heap_inv_def small_heap_def)
qed

end
