(* ===== verification/BigNumber.thy ===== *)
theory BigNumber
  imports Prelude
begin

text \<open>
  The unsigned big numbers of \<open>core/utils/bn/big_number.c\<close>: little-endian byte strings in buffers of
  the caller.  A buffer is a list of bytes, sizes and lengths are natural numbers, every access is
  checked.  The loop counters of \<open>bn_add\<close> and \<open>bn_sub\<close> are \<open>uint8_t\<close>, so they are reduced modulo 256.
\<close>

subsection \<open>Comparison and size\<close>

fun bn_cmp_loop :: "bytes \<Rightarrow> bytes \<Rightarrow> nat \<Rightarrow> int option" where
  "bn_cmp_loop n1 n2 0 = Some 0"
| "bn_cmp_loop n1 n2 (Suc i) =
     do { x \<leftarrow> ld1 n1 (int i); y \<leftarrow> ld1 n2 (int i);
          if x > y then Some 1 else if x < y then Some (-1) else bn_cmp_loop n1 n2 i }"

definition bn_cmp :: "bytes \<Rightarrow> nat \<Rightarrow> bytes \<Rightarrow> nat \<Rightarrow> int option" where
  "bn_cmp n1 n1_len n2 n2_len =
     (if n1_len > n2_len then Some 1 else if n1_len < n2_len then Some (-1) else bn_cmp_loop n1 n2 n1_len)"

fun bn_size :: "bytes \<Rightarrow> nat \<Rightarrow> nat option" where
  "bn_size dest 0 = Some 0"
| "bn_size dest (Suc i) = do { x \<leftarrow> ld1 dest (int i); if x \<noteq> 0 then Some (Suc i) else bn_size dest i }"

subsection \<open>Addition\<close>

definition b2u :: "bool \<Rightarrow> u8" where
  "b2u b = (if b then 1 else 0)"

text \<open>\<open>n1\<close> is \<open>dest\<close> when \<open>first\<close> holds and \<open>add\<close> otherwise; \<open>k\<close> is the position of the three pointers.\<close>

function bn_add_common :: "bool \<Rightarrow> bytes \<Rightarrow> bytes \<Rightarrow> nat \<Rightarrow> nat \<Rightarrow> u8 \<Rightarrow> (bytes \<times> u8) option" where
  "bn_add_common first dest add k l carry =
     (if k < l then
        do { x \<leftarrow> ld1 dest (int k); y \<leftarrow> ld1 add (int k);
             let n1 = (if first then x else y); n2 = (if first then y else x);
                 t1 = n1 + carry; carry1 = b2u (t1 < carry);
                 t2 = t1 + n2; carry2 = carry1 + b2u (t2 < t1) in
             do { dest' \<leftarrow> st1 dest (int k) t2; bn_add_common first dest' add (k + 1) l carry2 } }
      else Some (dest, carry))"
  by auto
termination
  by (relation "measure (\<lambda>(f, d, a, k, l, c). l - k)") auto

declare bn_add_common.simps [simp del]

fun bn_add_rest :: "bool \<Rightarrow> bytes \<Rightarrow> bytes \<Rightarrow> nat \<Rightarrow> nat \<Rightarrow> u8 \<Rightarrow> (bytes \<times> nat \<times> u8) option" where
  "bn_add_rest first dest add k 0 carry = Some (dest, k, carry)"
| "bn_add_rest first dest add k (Suc diff) carry =
     do { t1 \<leftarrow> ld1 (if first then dest else add) (int k);
          let t2 = t1 + carry in
          do { dest' \<leftarrow> st1 dest (int k) t2;
               bn_add_rest first dest' add (k + 1) diff (carry AND b2u (t2 = 0)) } }"

definition bn_add :: "bytes \<Rightarrow> nat \<Rightarrow> nat \<Rightarrow> bytes \<Rightarrow> nat \<Rightarrow> (int \<times> bytes \<times> nat) option" where
  "bn_add dest dest_len dest_size add add_size =
     (if dest_len < (if dest_size > add_size then dest_size else add_size) + 1 then Some (-1, dest, dest_size)
      else
        let first = (dest_size \<ge> add_size);
            diff = (if first then dest_size - add_size else add_size - dest_size) mod 256;
            l = (if dest_size > add_size then add_size else dest_size) mod 256 in
        do { (d1, c1) \<leftarrow> bn_add_common first dest add 0 l 0;
             (d2, k, c2) \<leftarrow> bn_add_rest first d1 add l diff c1;
             d3 \<leftarrow> st1 d2 (int k) c2;
             Some (1, d3, dest_size + unat c2) })"

subsection \<open>Subtraction\<close>

function bn_sub_common :: "bool \<Rightarrow> bytes \<Rightarrow> bytes \<Rightarrow> nat \<Rightarrow> nat \<Rightarrow> u8 \<Rightarrow> (bytes \<times> u8) option" where
  "bn_sub_common first dest sub k l carry =
     (if k < l then
        do { x \<leftarrow> ld1 dest (int k); y \<leftarrow> ld1 sub (int k);
             let t1 = (if first then x else y); t2 = (if first then y else x) in
             do { dest' \<leftarrow> st1 dest (int k) (t1 - t2 - carry);
                  bn_sub_common first dest' sub (k + 1) l (if t1 \<noteq> t2 then b2u (t1 < t2) else carry) } }
      else Some (dest, carry))"
  by auto
termination
  by (relation "measure (\<lambda>(f, d, a, k, l, c). l - k)") auto

declare bn_sub_common.simps [simp del]

fun bn_sub_rest :: "bool \<Rightarrow> bytes \<Rightarrow> bytes \<Rightarrow> nat \<Rightarrow> nat \<Rightarrow> u8 \<Rightarrow> (bytes \<times> nat) option" where
  "bn_sub_rest first dest sub k 0 carry = Some (dest, k)"
| "bn_sub_rest first dest sub k (Suc diff) carry =
     do { t1 \<leftarrow> ld1 (if first then dest else sub) (int k);
          let t2 = t1 - carry in
          do { dest' \<leftarrow> st1 dest (int k) t2;
               bn_sub_rest first dest' sub (k + 1) diff (carry AND b2u (t2 = 0)) } }"

text \<open>\<open>while (max_size && *(--dest) == 0) max_size--\<close>, with the pointer at \<open>k\<close>.\<close>

fun bn_strip :: "bytes \<Rightarrow> nat \<Rightarrow> int \<Rightarrow> nat option" where
  "bn_strip dest 0 k = Some 0"
| "bn_strip dest (Suc m) k =
     do { x \<leftarrow> ld1 dest (k - 1); if x = 0 then bn_strip dest m (k - 1) else Some (Suc m) }"

text \<open>The result is the return value, the buffer, the size and \<open>*neg_flag\<close>, which is set to 1 or left as it was.\<close>

definition bn_sub :: "bytes \<Rightarrow> nat \<Rightarrow> nat \<Rightarrow> int \<Rightarrow> bytes \<Rightarrow> nat \<Rightarrow> (int \<times> bytes \<times> nat \<times> int) option" where
  "bn_sub dest dest_len dest_size neg_flag sub sub_size =
     (let max_size = (if dest_size > sub_size then dest_size else sub_size) in
      if dest_len < max_size then Some (-1, dest, dest_size, neg_flag)
      else
        do { r \<leftarrow> bn_cmp dest dest_size sub sub_size;
             let first = (r \<ge> 0);
                 diff = nat ((if first then int dest_size - int sub_size else int sub_size - int dest_size) mod 256);
                 l = (if dest_size > sub_size then sub_size else dest_size) mod 256 in
             do { (d1, c1) \<leftarrow> bn_sub_common first dest sub 0 l 0;
                  (d2, k) \<leftarrow> bn_sub_rest first d1 sub l diff c1;
                  m \<leftarrow> bn_strip d2 max_size (int k);
                  Some (1, d2, m, if first then neg_flag else 1) } })"

subsection \<open>Multiplication\<close>

text \<open>The macro \<open>BN_MUL_U32\<close>: the new digit and the new carry.\<close>

definition BN_MUL_U32 :: "u32 \<Rightarrow> u32 \<Rightarrow> u32 \<Rightarrow> u32 \<Rightarrow> u32 \<times> u32" where
  "BN_MUL_U32 r a w c =
     (let p = (ucast w :: u64) * ucast a; high = ucast (drop_bit 32 p); low = ucast p;
          ret = r + c; c1 = (if ret < c then 1 else 0); c2 = c1 + high;
          ret2 = ret + low; c3 = c2 + (if ret2 < low then 1 else 0)
      in (ret2, c3))"

text \<open>The digit of four bytes at \<open>off\<close>, and a digit from the last one to three bytes of \<open>a\<close>.\<close>

definition bn_dword :: "bytes \<Rightarrow> nat \<Rightarrow> u32 option" where
  "bn_dword m off =
     do { xs \<leftarrow> ld m (int off) 4;
          Some (push_bit 24 (ucast (xs ! 3)) OR push_bit 16 (ucast (xs ! 2)) OR push_bit 8 (ucast (xs ! 1)) OR ucast (xs ! 0)) }"

definition bn_digit :: "bytes \<Rightarrow> nat \<Rightarrow> nat \<Rightarrow> u32 option" where
  "bn_digit a off a_size =
     (if a_size \<ge> 4 then bn_dword a off
      else if a_size = 3 then
        do { xs \<leftarrow> ld a (int off) 3; Some (push_bit 16 (ucast (xs ! 2)) OR push_bit 8 (ucast (xs ! 1)) OR ucast (xs ! 0)) }
      else if a_size = 2 then
        do { xs \<leftarrow> ld a (int off) 2; Some (push_bit 8 (ucast (xs ! 1)) OR ucast (xs ! 0)) }
      else do { x \<leftarrow> ld1 a (int off); Some (ucast x) })"

text \<open>The bounded store of a digit: byte \<open>j\<close> is written while \<open>off + j < dest_len\<close>.\<close>

definition bn_put :: "bytes \<Rightarrow> nat \<Rightarrow> nat \<Rightarrow> nat \<Rightarrow> u32 \<Rightarrow> bytes option" where
  "bn_put dest base off dest_len w =
     st dest (int (base + off)) (take (dest_len - off) (map (\<lambda>j. ucast (drop_bit (8 * j) w)) [0, 1, 2, 3]))"

text \<open>\<open>base\<close> is where \<open>dest\<close> points to, \<open>off\<close> the distance the pointers have moved.\<close>

fun bn_mul_u32_loop :: "bytes \<Rightarrow> nat \<Rightarrow> nat \<Rightarrow> nat \<Rightarrow> bytes \<Rightarrow> nat \<Rightarrow> u32 \<Rightarrow> nat \<Rightarrow> u32 \<Rightarrow> (bytes \<times> nat \<times> u32) option" where
  "bn_mul_u32_loop dest base off dest_len a a_size word 0 carry = Some (dest, off, carry)"
| "bn_mul_u32_loop dest base off dest_len a a_size word (Suc count) carry =
     do { t1 \<leftarrow> bn_dword dest (base + off);
          t2 \<leftarrow> bn_digit a off a_size;
          let (r, c) = BN_MUL_U32 t1 t2 word carry in
          do { dest' \<leftarrow> bn_put dest base off dest_len r;
               bn_mul_u32_loop dest' base (off + 4) dest_len a (a_size - 4) word count c } }"

definition bn_mul_u32 :: "bytes \<Rightarrow> nat \<Rightarrow> nat \<Rightarrow> bytes \<Rightarrow> nat \<Rightarrow> u32 \<Rightarrow> bytes option" where
  "bn_mul_u32 dest base dest_len a a_size word =
     do { (d, off, carry) \<leftarrow> bn_mul_u32_loop dest base 0 dest_len a a_size word ((a_size + 3) div 4) 0;
          if carry > 0 then bn_put d base off dest_len carry else Some d }"

function bn_mul_loop :: "bytes \<Rightarrow> nat \<Rightarrow> bytes \<Rightarrow> nat \<Rightarrow> bytes \<Rightarrow> nat \<Rightarrow> nat \<Rightarrow> bytes option" where
  "bn_mul_loop dest dest_len a a_size b b_size i =
     (if b_size > 0 then
        do { v \<leftarrow> bn_digit b i b_size;
             dest' \<leftarrow> bn_mul_u32 dest i (dest_len - i) a a_size v;
             bn_mul_loop dest' dest_len a a_size b (b_size - 4) (i + 4) }
      else Some dest)"
  by auto
termination
  by (relation "measure (\<lambda>(d, dl, a, as, b, bs, i). bs)") auto

declare bn_mul_loop.simps [simp del]

text \<open>The size is \<open>None\<close> when \<open>*dest_size\<close> is not written.\<close>

definition bn_mul :: "bytes \<Rightarrow> nat \<Rightarrow> bytes \<Rightarrow> nat \<Rightarrow> bytes \<Rightarrow> nat \<Rightarrow> (int \<times> bytes \<times> nat option) option" where
  "bn_mul dest dest_len a0 a_size0 b0 b_size0 =
     do { a_size1 \<leftarrow> bn_size a0 a_size0;
          b_size1 \<leftarrow> bn_size b0 b_size0;
          if dest_len < a_size1 + b_size1 then Some (-1, dest, None)
          else
            let (a, a_size, b, b_size) =
                  (if a_size1 < b_size1 then (b0, b_size1, a0, a_size1) else (a0, a_size1, b0, b_size1)) in
            if b_size = 0 then Some (0, dest, None)
            else do { d \<leftarrow> bn_mul_loop dest dest_len a a_size b b_size 0;
                      s \<leftarrow> bn_size d dest_len;
                      Some (1, d, Some s) } }"

subsection \<open>Values\<close>

fun bn_val :: "bytes \<Rightarrow> nat" where
  "bn_val [] = 0"
| "bn_val (x # xs) = unat x + 256 * bn_val xs"

definition seg :: "'a list \<Rightarrow> nat \<Rightarrow> nat \<Rightarrow> 'a list" where
  "seg xs k l = take (l - k) (drop k xs)"

lemma unat_u8: "unat (x :: u8) < 256"
  using unsigned_less [of x] by simp

lemma unat_inj: "unat x = unat y \<Longrightarrow> x = (y :: 'a::len word)"
  by (metis word_eq_iff_unsigned)

lemma bn_val_append: "bn_val (xs @ ys) = bn_val xs + 256 ^ length xs * bn_val ys"
  by (induction xs) (simp_all add: algebra_simps)

lemma bn_val_less: "bn_val xs < 256 ^ length xs"
proof (induction xs)
  case (Cons x xs)
  then have "bn_val xs + 1 \<le> 256 ^ length xs" by simp
  then have "256 * (bn_val xs + 1) \<le> 256 * 256 ^ length xs" by (rule mult_le_mono2)
  with unat_u8 [of x] show ?case by simp
qed simp

lemma bn_val_zeros: "\<forall>x\<in>set xs. x = 0 \<Longrightarrow> bn_val xs = 0"
  by (induction xs) simp_all

lemma bn_val_inject: "length xs = length ys \<Longrightarrow> bn_val xs = bn_val ys \<Longrightarrow> xs = ys"
proof (induction xs ys rule: list_induct2)
  case (Cons x xs y ys)
  have "unat x = (unat x + 256 * bn_val xs) mod 256" using unat_u8 [of x] by simp
  also have "\<dots> = unat y" using Cons.prems unat_u8 [of y] by simp
  finally have "x = y" by (rule unat_inj)
  with Cons show ?case by simp
qed simp

lemma length_seg [simp]: "l \<le> length xs \<Longrightarrow> length (seg xs k l) = l - k"
  by (simp add: seg_def)

lemma nth_seg: "l \<le> length xs \<Longrightarrow> q < l - k \<Longrightarrow> seg xs k l ! q = xs ! (k + q)"
  by (simp add: seg_def)

lemma seg_empty [simp]: "l \<le> k \<Longrightarrow> seg xs k l = []"
  by (simp add: seg_def)

lemma seg_0 [simp]: "seg xs 0 l = take l xs"
  by (simp add: seg_def)

lemma seg_Cons: "k < l \<Longrightarrow> l \<le> length xs \<Longrightarrow> seg xs k l = xs ! k # seg xs (Suc k) l"
  by (auto intro!: nth_equalityI simp: nth_seg nth_Cons split: nat.split)

lemma seg_split: "k \<le> m \<Longrightarrow> m \<le> l \<Longrightarrow> l \<le> length xs \<Longrightarrow> seg xs k l = seg xs k m @ seg xs m l"
  by (auto intro!: nth_equalityI simp: nth_seg nth_append add.commute)

lemma seg_cong:
  "l \<le> length xs \<Longrightarrow> l \<le> length ys \<Longrightarrow> (\<And>p. k \<le> p \<Longrightarrow> p < l \<Longrightarrow> xs ! p = ys ! p) \<Longrightarrow> seg xs k l = seg ys k l"
  by (auto intro!: nth_equalityI simp: nth_seg)

subsection \<open>Size and comparison\<close>

lemma bn_size_ok:
  assumes "n \<le> length xs"
  shows "\<exists>m. bn_size xs n = Some m \<and> m \<le> n \<and> bn_val (take m xs) = bn_val (take n xs) \<and> (0 < m \<longrightarrow> xs ! (m - 1) \<noteq> 0)"
  using assms
proof (induction n)
  case (Suc n)
  have "bn_val (take (Suc n) xs) = bn_val (take n xs)" if "xs ! n = 0"
    using Suc.prems that by (simp add: take_Suc_conv_app_nth bn_val_append)
  with Suc show ?case by (cases "xs ! n = 0") (auto simp: ld1_nat)
qed simp

lemma bn_cmp_loop_ok:
  assumes "n \<le> length xs" "n \<le> length ys"
  shows "bn_cmp_loop xs ys n = Some (sgn (int (bn_val (take n xs)) - int (bn_val (take n ys))))"
  using assms
proof (induction n)
  case (Suc n)
  let ?x = "unat (xs ! n)" and ?y = "unat (ys ! n)" and ?B = "256 ^ n :: nat"
  have v: "bn_val (take (Suc n) xs) = bn_val (take n xs) + ?B * ?x" "bn_val (take (Suc n) ys) = bn_val (take n ys) + ?B * ?y"
    using Suc.prems by (simp_all add: take_Suc_conv_app_nth bn_val_append)
  have b: "bn_val (take n xs) < ?B" "bn_val (take n ys) < ?B"
    using bn_val_less [of "take n xs"] bn_val_less [of "take n ys"] Suc.prems by simp_all
  have lt: "u + ?B * i < w + ?B * j" if "i < j" "u < ?B" for u w i j :: nat
  proof -
    have "u + ?B * i < ?B * Suc i" using that by simp
    also have "\<dots> \<le> ?B * j" using that(1) by (intro mult_le_mono2) simp
    finally show ?thesis by simp
  qed
  show ?case
  proof (cases "?x = ?y")
    case True
    then have "xs ! n = ys ! n" by (rule unat_inj)
    then show ?thesis using Suc v True by (simp add: ld1_nat)
  next
    case False
    then consider "?y < ?x" | "?x < ?y" by linarith
    then show ?thesis
    proof cases
      case 1
      then have "bn_val (take (Suc n) ys) < bn_val (take (Suc n) xs)" unfolding v using b(2) by (rule lt)
      then show ?thesis using 1 Suc.prems by (simp add: ld1_nat word_less_nat_alt)
    next
      case 2
      then have "bn_val (take (Suc n) xs) < bn_val (take (Suc n) ys)" unfolding v using b(1) by (rule lt)
      then show ?thesis using 2 Suc.prems by (simp add: ld1_nat word_less_nat_alt)
    qed
  qed
qed simp

definition bn_norm :: "bytes \<Rightarrow> nat \<Rightarrow> bool" where
  "bn_norm xs n \<longleftrightarrow> n \<le> length xs \<and> (0 < n \<longrightarrow> xs ! (n - 1) \<noteq> 0)"

lemma bn_norm_bound:
  assumes "bn_norm xs n" "0 < n"
  shows "256 ^ (n - 1) \<le> bn_val (take n xs)"
proof -
  have "take n xs = take (n - 1) xs @ [xs ! (n - 1)]"
    using assms by (cases n) (auto simp: bn_norm_def take_Suc_conv_app_nth)
  moreover have "1 \<le> unat (xs ! (n - 1))" using assms by (simp add: bn_norm_def unat_gt_0 Suc_le_eq)
  moreover have "min (length xs) (n - 1) = n - 1" using assms by (auto simp: bn_norm_def)
  ultimately show ?thesis by (simp add: bn_val_append trans_le_add2)
qed

lemma bn_norm_less:
  assumes "j < i" "bn_norm us i" "bn_norm vs j"
  shows "bn_val (take j vs) < bn_val (take i us)"
proof -
  have "bn_val (take j vs) < 256 ^ j" using bn_val_less [of "take j vs"] assms(3) by (simp add: bn_norm_def)
  also have "(256::nat) ^ j \<le> 256 ^ (i - 1)" using assms(1) by (intro power_increasing) auto
  also have "\<dots> \<le> bn_val (take i us)" using bn_norm_bound [OF assms(2)] assms(1) by simp
  finally show ?thesis .
qed

lemma bn_cmp_ok:
  assumes "bn_norm xs n" "bn_norm ys m"
  shows "bn_cmp xs n ys m = Some (sgn (int (bn_val (take n xs)) - int (bn_val (take m ys))))"
  using bn_cmp_loop_ok [of n xs ys] bn_norm_less [of m n xs ys] bn_norm_less [of n m ys xs] assms
  by (auto simp: bn_cmp_def bn_norm_def)

subsection \<open>Addition and subtraction of bytes\<close>

lemma unat_b2u: "unat (b2u b) = of_bool b"
  by (simp add: b2u_def)

lemma b2u_le_1: "c \<le> 1 \<Longrightarrow> \<exists>b. c = b2u b" for c :: u8
proof -
  assume "c \<le> 1"
  then have "unat c = 0 \<or> unat c = 1" by (auto simp: word_le_nat_alt)
  then have "c = 0 \<or> c = 1" by (metis unat_inj unsigned_0 unsigned_1)
  then show ?thesis by (auto simp: b2u_def)
qed

lemma unat_add_u8: "unat (x + y) = (unat x + unat y) mod 256" for x y :: u8
  by (simp add: unat_word_ariths)

lemma byte_add:
  fixes x y c :: u8
  assumes "unat c \<le> 1"
  defines "t1 \<equiv> x + c"
  defines "t2 \<equiv> t1 + y"
  defines "c2 \<equiv> b2u (t1 < c) + b2u (t2 < t1)"
  shows "unat t2 + 256 * unat c2 = unat x + unat y + unat c" "unat c2 \<le> 1"
proof -
  have t1: "unat t1 = (unat x + unat c) mod 256" and t2: "unat t2 = (unat t1 + unat y) mod 256"
    and c2: "unat c2 = (of_bool (unat t1 < unat c) + of_bool (unat t2 < unat t1)) mod 256"
    by (simp_all add: t1_def t2_def c2_def unat_add_u8 unat_b2u word_less_nat_alt)
  note b = unat_u8 [of x] unat_u8 [of y]
  show "unat t2 + 256 * unat c2 = unat x + unat y + unat c"
  proof (cases "unat x + unat c < 256")
    case True
    then have "unat t1 = unat x + unat c" using t1 by simp
    then show ?thesis using t2 c2 b True by (cases "unat t1 + unat y < 256") (auto simp: mod_if)
  next
    case False
    then have "unat x = 255" "unat c = 1" using b assms(1) by auto
    then show ?thesis using t1 t2 c2 b by simp
  qed
  then show "unat c2 \<le> 1" using b assms(1) by linarith
qed

lemma byte_add_carry:
  fixes x c :: u8
  assumes "unat c \<le> 1"
  shows "unat (x + c) + 256 * unat (c AND b2u (x + c = 0)) = unat x + unat c" "unat (c AND b2u (x + c = 0)) \<le> 1"
proof -
  obtain b where c: "c = b2u b" using b2u_le_1 [of c] assms by (auto simp: word_le_nat_alt)
  have "x + 1 = 0 \<longleftrightarrow> unat x = 255"
  proof
    assume "x + 1 = 0"
    then have "(unat x + 1) mod 256 = 0" using unat_add_u8 [of x 1] by simp
    then show "unat x = 255" using unat_u8 [of x] by (simp add: mod_if split: if_splits)
  next
    assume "unat x = 255"
    then have "unat (x + 1) = unat (0 :: u8)" by (simp add: unat_add_u8)
    then show "x + 1 = 0" by (rule unat_inj)
  qed
  then show "unat (x + c) + 256 * unat (c AND b2u (x + c = 0)) = unat x + unat c"
    using unat_u8 [of x] by (cases b) (auto simp: c b2u_def unat_add_u8)
  show "unat (c AND b2u (x + c = 0)) \<le> 1" by (cases b) (simp_all add: c b2u_def)
qed

lemma byte_sub:
  fixes t1 t2 c :: u8
  assumes "unat c \<le> 1"
  defines "c' \<equiv> (if t1 \<noteq> t2 then b2u (t1 < t2) else c)"
  shows "unat (t1 - t2 - c) + unat t2 + unat c = unat t1 + 256 * unat c'" "unat c' \<le> 1"
proof -
  have diff: "unat (x - y) = (if unat y \<le> unat x then unat x - unat y else unat x + 256 - unat y)" for x y :: u8
    by (simp add: unat_sub_if_size word_le_nat_alt size_word_def)
  have "unat (t1 - t2 - c) = (if unat t2 + unat c \<le> unat t1 then unat t1 - unat t2 - unat c else unat t1 + 256 - unat t2 - unat c)"
    using unat_u8 [of t1] unat_u8 [of t2] assms(1) diff [of t1 t2] diff [of "t1 - t2" c] by (auto split: if_splits)
  moreover have "t1 \<noteq> t2 \<longleftrightarrow> unat t1 \<noteq> unat t2" by (auto dest: unat_inj)
  ultimately show "unat (t1 - t2 - c) + unat t2 + unat c = unat t1 + 256 * unat c'"
    using unat_u8 [of t1] unat_u8 [of t2] assms(1) by (auto simp: c'_def unat_b2u word_less_nat_alt)
  show "unat c' \<le> 1" using assms(1) by (simp add: c'_def unat_b2u)
qed

subsection \<open>The loops\<close>

text \<open>The buffer is changed between \<open>k\<close> and \<open>l\<close> only.\<close>

definition upd_within :: "bytes \<Rightarrow> bytes \<Rightarrow> nat \<Rightarrow> nat \<Rightarrow> bool" where
  "upd_within d d' k l \<longleftrightarrow> length d' = length d \<and> (\<forall>p < length d. p < k \<or> l \<le> p \<longrightarrow> d' ! p = d ! p)"

lemma upd_within_seg:
  "upd_within d d' k l \<Longrightarrow> j \<le> length d \<Longrightarrow> l \<le> i \<or> j \<le> k \<Longrightarrow> seg d' i j = seg d i j"
  by (rule seg_cong) (auto simp: upd_within_def)

lemma upd_within_step:
  "upd_within (d[k := v]) d' (Suc k) l \<Longrightarrow> k < l \<Longrightarrow> upd_within d d' k l"
  by (auto simp: upd_within_def)

lemma upd_within_head: "upd_within (d[k := v]) d' (Suc k) l \<Longrightarrow> k < length d \<Longrightarrow> d' ! k = v"
  by (auto simp: upd_within_def)

lemma seg_update: "j \<le> length d \<Longrightarrow> k < i \<Longrightarrow> seg (d[k := v]) i j = seg d i j"
  by (rule seg_cong) auto

text \<open>The value of a segment whose first byte was written and whose rest was treated by the loop.\<close>

lemma seg_val_step:
  assumes "upd_within (d[k := v]) d' (Suc k) l" "k < l" "l \<le> length d"
  shows "bn_val (seg d' k l) = unat v + 256 * bn_val (seg d' (Suc k) l)"
proof -
  have "l \<le> length d'" using assms by (simp add: upd_within_def)
  then have "seg d' k l = d' ! k # seg d' (Suc k) l" by (rule seg_Cons [OF assms(2)])
  then show ?thesis using upd_within_head [OF assms(1)] assms(2,3) by simp
qed

lemma bn_add_common_ok:
  assumes "unat c \<le> 1" "k \<le> l" "l \<le> length d" "l \<le> length a"
  shows "\<exists>d' c'. bn_add_common first d a k l c = Some (d', c') \<and> upd_within d d' k l \<and> unat c' \<le> 1 \<and>
    bn_val (seg d' k l) + 256 ^ (l - k) * unat c' = bn_val (seg d k l) + bn_val (seg a k l) + unat c"
  using assms
proof (induction "l - k" arbitrary: d k c)
  case 0
  then show ?case by (subst bn_add_common.simps) (auto simp: upd_within_def)
next
  case (Suc j)
  then have kl: "k < l" and j: "j = l - (k + 1)" by simp_all
  define n1 n2 where "n1 = (if first then d ! k else a ! k)" and "n2 = (if first then a ! k else d ! k)"
  define t1 where "t1 = n1 + c"
  define t2 where "t2 = t1 + n2"
  define c2 where "c2 = b2u (t1 < c) + b2u (t2 < t1)"
  have s: "unat t2 + 256 * unat c2 = unat n1 + unat n2 + unat c" "unat c2 \<le> 1"
    using byte_add [OF Suc.prems(1), of n1 n2] by (simp_all add: t1_def t2_def c2_def)
  have n: "unat n1 + unat n2 = unat (d ! k) + unat (a ! k)" by (simp add: n1_def n2_def)
  obtain d' c' where d': "bn_add_common first (d[k := t2]) a (k + 1) l c2 = Some (d', c')"
    and u: "upd_within (d[k := t2]) d' (Suc k) l" and c': "unat c' \<le> 1"
    and v: "bn_val (seg d' (Suc k) l) + 256 ^ (l - Suc k) * unat c' = bn_val (seg (d[k := t2]) (Suc k) l) + bn_val (seg a (Suc k) l) + unat c2"
    using Suc.hyps(1) [OF j, of c2 "d[k := t2]"] Suc.prems s(2) kl by auto
  have "bn_add_common first d a k l c = Some (d', c')"
    using kl Suc.prems d' by (subst bn_add_common.simps) (simp add: ld1_nat st1_nat n1_def n2_def t1_def t2_def c2_def Let_def)
  moreover have "(256 :: nat) ^ (l - k) = 256 * 256 ^ (l - Suc k)" using kl by (metis Suc_diff_Suc power_Suc)
  then have "bn_val (seg d' k l) + 256 ^ (l - k) * unat c' = unat t2 + 256 * (bn_val (seg d' (Suc k) l) + 256 ^ (l - Suc k) * unat c')"
    using seg_val_step [OF u kl] Suc.prems(3) by simp
  then have "bn_val (seg d' k l) + 256 ^ (l - k) * unat c' = bn_val (seg d k l) + bn_val (seg a k l) + unat c"
    unfolding v using kl Suc.prems(3,4) s n by (simp add: seg_update seg_Cons)
  ultimately show ?case using upd_within_step [OF u kl] c' by blast
qed

lemma bn_add_rest_ok:
  assumes "unat c \<le> 1" "k + n \<le> length d" "\<not> first \<Longrightarrow> k + n \<le> length a"
  shows "\<exists>d' c'. bn_add_rest first d a k n c = Some (d', k + n, c') \<and> upd_within d d' k (k + n) \<and> unat c' \<le> 1 \<and>
    bn_val (seg d' k (k + n)) + 256 ^ n * unat c' = bn_val (seg (if first then d else a) k (k + n)) + unat c"
  using assms
proof (induction n arbitrary: d k c)
  case 0
  then show ?case by (simp add: upd_within_def)
next
  case (Suc n)
  let ?s = "if first then d else a"
  let ?x = "?s ! k"
  define t2 where "t2 = ?x + c"
  have s: "unat t2 + 256 * unat (c AND b2u (t2 = 0)) = unat ?x + unat c" "unat (c AND b2u (t2 = 0)) \<le> 1"
    using byte_add_carry [OF Suc.prems(1), of ?x] by (simp_all add: t2_def)
  obtain d' c' where d': "bn_add_rest first (d[k := t2]) a (k + 1) n (c AND b2u (t2 = 0)) = Some (d', k + 1 + n, c')"
    and u: "upd_within (d[k := t2]) d' (Suc k) (k + Suc n)" and c': "unat c' \<le> 1"
    and v: "bn_val (seg d' (Suc k) (k + Suc n)) + 256 ^ n * unat c' =
            bn_val (seg (if first then d[k := t2] else a) (Suc k) (k + Suc n)) + unat (c AND b2u (t2 = 0))"
    using Suc.IH [of "c AND b2u (t2 = 0)" "k + 1" "d[k := t2]"] s(2) Suc.prems(2,3) by auto
  have "bn_add_rest first d a k (Suc n) c = Some (d', k + Suc n, c')"
    using d' Suc.prems by (cases first) (auto simp: ld1_nat st1_nat t2_def Let_def)
  moreover have "bn_val (seg d' k (k + Suc n)) + 256 ^ Suc n * unat c' = unat t2 + 256 * (bn_val (seg d' (Suc k) (k + Suc n)) + 256 ^ n * unat c')"
    using seg_val_step [OF u _] Suc.prems(2) by simp
  then have "bn_val (seg d' k (k + Suc n)) + 256 ^ Suc n * unat c' = bn_val (seg ?s k (k + Suc n)) + unat c"
    unfolding v using Suc.prems(2,3) s by (cases first) (auto simp: seg_update seg_Cons)
  ultimately show ?case using upd_within_step [OF u] c' by auto
qed

lemma bn_sub_common_ok:
  assumes "unat c \<le> 1" "k \<le> l" "l \<le> length d" "l \<le> length a"
  shows "\<exists>d' c'. bn_sub_common first d a k l c = Some (d', c') \<and> upd_within d d' k l \<and> unat c' \<le> 1 \<and>
    bn_val (seg d' k l) + bn_val (seg (if first then a else d) k l) + unat c =
    bn_val (seg (if first then d else a) k l) + 256 ^ (l - k) * unat c'"
  using assms
proof (induction "l - k" arbitrary: d k c)
  case 0
  then show ?case by (subst bn_sub_common.simps) (auto simp: upd_within_def)
next
  case (Suc j)
  then have kl: "k < l" and j: "j = l - (k + 1)" by simp_all
  define t1 t2 where "t1 = (if first then d ! k else a ! k)" and "t2 = (if first then a ! k else d ! k)"
  define r where "r = t1 - t2 - c"
  define c2 where "c2 = (if t1 \<noteq> t2 then b2u (t1 < t2) else c)"
  have s: "unat r + unat t2 + unat c = unat t1 + 256 * unat c2" "unat c2 \<le> 1"
    using byte_sub [OF Suc.prems(1), of t1 t2] unfolding r_def c2_def by blast+
  obtain d' c' where d': "bn_sub_common first (d[k := r]) a (k + 1) l c2 = Some (d', c')"
    and u: "upd_within (d[k := r]) d' (Suc k) l" and c': "unat c' \<le> 1"
    and v: "bn_val (seg d' (Suc k) l) + bn_val (seg (if first then a else d[k := r]) (Suc k) l) + unat c2 =
            bn_val (seg (if first then d[k := r] else a) (Suc k) l) + 256 ^ (l - Suc k) * unat c'"
    using Suc.hyps(1) [OF j, of c2 "d[k := r]"] Suc.prems s(2) kl by auto
  have "bn_sub_common first d a k l c = Some (d', c')"
    using kl Suc.prems d' unfolding r_def c2_def t1_def t2_def
    by (subst bn_sub_common.simps, cases first) (simp_all add: ld1_nat st1_nat split: if_splits)
  moreover have p: "(256 :: nat) ^ (l - k) = 256 * 256 ^ (l - Suc k)" using kl by (metis Suc_diff_Suc power_Suc)
  have "bn_val (seg d' k l) + bn_val (seg (if first then a else d) k l) + unat c =
        bn_val (seg (if first then d else a) k l) + 256 ^ (l - k) * unat c'"
    using seg_val_step [OF u kl] kl Suc.prems(3,4) s(1) v unfolding p
    by (cases first) (simp_all add: t1_def t2_def seg_update seg_Cons)
  ultimately show ?case using upd_within_step [OF u kl] c' by blast
qed

text \<open>Without a borrow the rest is copied.\<close>

lemma bn_sub_rest_copy:
  assumes "k + n \<le> length d" "\<not> first \<Longrightarrow> k + n \<le> length a"
  shows "\<exists>d'. bn_sub_rest first d a k n 0 = Some (d', k + n) \<and> upd_within d d' k (k + n) \<and>
    bn_val (seg d' k (k + n)) = bn_val (seg (if first then d else a) k (k + n))"
  using assms
proof (induction n arbitrary: d k)
  case 0
  then show ?case by (simp add: upd_within_def)
next
  case (Suc n)
  let ?x = "(if first then d else a) ! k"
  obtain d' where d': "bn_sub_rest first (d[k := ?x]) a (k + 1) n 0 = Some (d', k + 1 + n)"
    and u: "upd_within (d[k := ?x]) d' (Suc k) (k + Suc n)"
    and v: "bn_val (seg d' (Suc k) (k + Suc n)) = bn_val (seg (if first then d[k := ?x] else a) (Suc k) (k + Suc n))"
    using Suc.IH [of "k + 1" "d[k := ?x]"] Suc.prems by auto
  have "bn_sub_rest first d a k (Suc n) 0 = Some (d', k + Suc n)"
    using d' Suc.prems by (cases first) (auto simp: ld1_nat st1_nat Let_def)
  moreover have "bn_val (seg d' k (k + Suc n)) = bn_val (seg (if first then d else a) k (k + Suc n))"
    using seg_val_step [OF u] Suc.prems v by (cases first) (auto simp: seg_update seg_Cons)
  ultimately show ?case using upd_within_step [OF u] by auto
qed

text \<open>
  With a borrow the next byte decides: the borrow is taken from a byte above 1, and is lost in a
  byte 0, whose place then keeps 255 without a borrow from the next one.
\<close>

lemma bn_sub_rest_borrow:
  assumes "k + Suc n \<le> length d" "\<not> first \<Longrightarrow> k + Suc n \<le> length a" "(if first then d else a) ! k \<noteq> 1"
  shows "\<exists>d'. bn_sub_rest first d a k (Suc n) 1 = Some (d', k + Suc n) \<and> upd_within d d' k (k + Suc n) \<and>
    bn_val (seg d' k (k + Suc n)) + 1 =
    bn_val (seg (if first then d else a) k (k + Suc n)) + (if (if first then d else a) ! k = 0 then 256 else 0)"
proof -
  let ?x = "(if first then d else a) ! k"
  define t2 where "t2 = ?x - 1"
  have "t2 \<noteq> 0" using assms(3) by (simp add: t2_def)
  have v1: "unat t2 + 1 = unat ?x + (if ?x = 0 then 256 else 0)"
  proof (cases "?x = 0")
    case True
    then show ?thesis using byte_sub(1) [of 1 0 0] by (simp add: t2_def)
  next
    case False
    then have "1 \<le> ?x" by (simp add: word_le_nat_alt unat_gt_0 Suc_le_eq)
    then show ?thesis using False by (simp add: t2_def unat_sub word_le_nat_alt)
  qed
  obtain d' where d': "bn_sub_rest first (d[k := t2]) a (k + 1) n 0 = Some (d', k + 1 + n)"
    and u: "upd_within (d[k := t2]) d' (Suc k) (k + Suc n)"
    and v: "bn_val (seg d' (Suc k) (k + Suc n)) = bn_val (seg (if first then d[k := t2] else a) (Suc k) (k + Suc n))"
    using bn_sub_rest_copy [of "k + 1" n "d[k := t2]" first a] assms(1,2) by auto
  have "bn_sub_rest first d a k (Suc n) 1 = Some (d', k + Suc n)"
    using d' assms(1,2) \<open>t2 \<noteq> 0\<close> by (cases first) (auto simp: ld1_nat st1_nat Let_def t2_def b2u_def)
  moreover have "bn_val (seg d' k (k + Suc n)) = unat t2 + 256 * bn_val (seg d' (Suc k) (k + Suc n))"
    using seg_val_step [OF u] assms(1) by simp
  then have "bn_val (seg d' k (k + Suc n)) + 1 =
    bn_val (seg (if first then d else a) k (k + Suc n)) + (if ?x = 0 then 256 else 0)"
    using assms(1,2) v v1 by (cases first) (auto simp: seg_update seg_Cons)
  ultimately show ?thesis using upd_within_step [OF u] by auto
qed

lemma bn_strip_ok: "m \<le> length d \<Longrightarrow> bn_strip d m (int m) = bn_size d m"
  by (induction m) (auto simp: ld1_nat)

subsection \<open>Addition\<close>

lemma take_seg_val:
  assumes "k \<le> l" "l \<le> length xs"
  shows "bn_val (take l xs) = bn_val (take k xs) + 256 ^ k * bn_val (seg xs k l)"
  using seg_split [of 0 k l xs] assms by (simp add: bn_val_append)

text \<open>The carry out of the top byte is the comparison of the sum with the power.\<close>

lemma carry_out:
  fixes v w B c :: nat
  assumes "v + B * c = w" "v < B" "c \<le> 1"
  shows "c = of_bool (B \<le> w)"
  using assms by (cases c) auto

text \<open>
  The sum of numbers of at most 255 bytes is in the first \<open>M + 1\<close> bytes, where \<open>M\<close> is the larger size; the
  bytes above are kept.  The size grows by the carry.
\<close>

lemma bn_add_ok:
  fixes ds as :: nat
  defines "M \<equiv> max ds as"
  assumes "M < dest_len" "dest_len \<le> length dest" "as \<le> length add" "M \<le> 255"
  defines "S \<equiv> bn_val (take ds dest) + bn_val (take as add)"
  shows "\<exists>d. bn_add dest dest_len ds add as = Some (1, d, ds + of_bool (256 ^ M \<le> S)) \<and>
    upd_within dest d 0 (M + 1) \<and> bn_val (take (M + 1) d) = S \<and> unat (d ! M) = of_bool (256 ^ M \<le> S)"
proof -
  define first where "first = (ds \<ge> as)"
  define l where "l = min ds as"
  define diff where "diff = M - l"
  have M: "l + diff = M" by (simp add: diff_def l_def M_def)
  have l: "l \<le> length dest" "l \<le> length add" using assms(2-4) by (auto simp: l_def M_def)
  obtain d1 c1 where d1: "bn_add_common first dest add 0 l 0 = Some (d1, c1)" "upd_within dest d1 0 l" "unat c1 \<le> 1"
    and v1: "bn_val (take l d1) + 256 ^ l * unat c1 = bn_val (take l dest) + bn_val (take l add)"
    using bn_add_common_ok [of 0 0 l dest add first] l by auto
  have len1: "length d1 = length dest" using d1 by (simp add: upd_within_def)
  obtain d2 c2 where d2: "bn_add_rest first d1 add l diff c1 = Some (d2, M, c2)" "upd_within d1 d2 l M" "unat c2 \<le> 1"
    and v2: "bn_val (seg d2 l M) + 256 ^ diff * unat c2 = bn_val (seg (if first then d1 else add) l M) + unat c1"
    using bn_add_rest_ok [of c1 l diff d1 first add] assms(2-4) d1 len1 unfolding M by (auto simp: M_def first_def)
  have seg1: "seg d1 l M = seg dest l M" using upd_within_seg [OF d1(2)] assms(2,3) by simp
  have len2: "length d2 = length dest" using d2 len1 by (simp add: upd_within_def)
  have t2: "take l d2 = take l d1"
    using upd_within_seg [OF d2(2), of l 0] assms(2,3) len1 M by simp
  have top: "bn_val (take l dest) + bn_val (take l add) + 256 ^ l * bn_val (seg (if first then dest else add) l M) = S"
    using take_seg_val [of l M dest] take_seg_val [of l M add] assms(2-4) M
    by (auto simp: S_def first_def l_def M_def max_def min_def)
  have sum: "bn_val (take M d2) + 256 ^ M * unat c2 = S"
  proof -
    have "bn_val (take M d2) + 256 ^ M * unat c2 = bn_val (take l d1) + 256 ^ l * (bn_val (seg d2 l M) + 256 ^ diff * unat c2)"
      using take_seg_val [of l M d2] M assms(2,3) len2 t2 by (simp add: algebra_simps flip: M power_add)
    also have "\<dots> = S" unfolding v2 using v1 top seg1 by (simp add: algebra_simps split: if_splits)
    finally show ?thesis .
  qed
  have c2: "unat c2 = of_bool (256 ^ M \<le> S)"
    using bn_val_less [of "take M d2"] len2 assms(2,3) d2(3) sum by (intro carry_out [OF sum]) simp_all
  have "bn_add dest dest_len ds add as = Some (1, d2[M := c2], ds + unat c2)"
    using assms(2-5) d1 d2 len2 M
    by (auto simp: bn_add_def first_def l_def diff_def M_def st1_nat max_def min_def Let_def split: if_splits)
  moreover have "bn_val (take (M + 1) (d2[M := c2])) = S"
    using sum len2 assms(2,3) by (simp add: take_Suc_conv_app_nth bn_val_append)
  moreover have "upd_within dest (d2[M := c2]) 0 (M + 1)"
    using d1(2) d2(2) M by (auto simp: upd_within_def)
  ultimately show ?thesis using c2 len2 assms(2,3) by auto
qed

text \<open>C35.
  \<open>bn_add\<close> on numbers of at most 255 bytes with room for the carry: the bytes up to the larger size plus one hold
  the sum, the bytes above are kept, and when the addend is not longer than the destination the returned size
  covers the sum exactly.\<close>
theorem bn_add_correct:
  assumes "max ds as < dest_len" "dest_len \<le> length dest" "as \<le> length add" "max ds as \<le> 255"
  shows "\<exists>d n. bn_add dest dest_len ds add as = Some (1, d, n) \<and>
    bn_val (take (max ds as + 1) d) = bn_val (take ds dest) + bn_val (take as add) \<and>
    length d = length dest \<and> (\<forall>p < length dest. max ds as < p \<longrightarrow> d ! p = dest ! p) \<and>
    (as \<le> ds \<longrightarrow> n \<le> ds + 1 \<and> bn_val (take n d) = bn_val (take ds dest) + bn_val (take as add))"
proof -
  let ?S = "bn_val (take ds dest) + bn_val (take as add)" and ?M = "max ds as"
  obtain d where d: "bn_add dest dest_len ds add as = Some (1, d, ds + of_bool (256 ^ ?M \<le> ?S))"
    "upd_within dest d 0 (?M + 1)" "bn_val (take (?M + 1) d) = ?S" "unat (d ! ?M) = of_bool (256 ^ ?M \<le> ?S)"
    using bn_add_ok [OF assms] by blast
  have "bn_val (take (ds + of_bool (256 ^ ?M \<le> ?S)) d) = ?S" if "as \<le> ds"
  proof -
    have "length d = length dest" "?M = ds" using d(2) that by (simp_all add: upd_within_def max_def)
    moreover have "bn_val (take (Suc ds) d) = bn_val (take ds d) + 256 ^ ds * unat (d ! ds)"
      using assms calculation by (simp add: take_Suc_conv_app_nth bn_val_append)
    ultimately show ?thesis using d(3,4) by (cases "256 ^ ?M \<le> ?S") simp_all
  qed
  then show ?thesis using d by (auto simp: upd_within_def)
qed

theorem bn_add_correct_witness:
  "\<exists>d n. bn_add [255, 255, 7, 9] 4 2 [1] 1 = Some (1, d, n) \<and> bn_val (take 3 d) = 65536 \<and> n \<le> 3 \<and> bn_val (take n d) = 65536"
  using bn_add_correct [of 2 1 4 "[255, 255, 7, 9]" "[1]"] by (auto simp: numeral_3_eq_3)

text \<open>
  When the addend is the longer number and its top byte is not zero, the returned size does not cover the sum:
  the code adds the carry to the old size of the destination.\<close>
theorem bn_add_short_size:
  assumes "ds < as" "as < dest_len" "dest_len \<le> length dest" "as \<le> 255" "bn_norm add as"
  shows "\<exists>d n. bn_add dest dest_len ds add as = Some (1, d, n) \<and> n \<le> as \<and>
    bn_val (take n d) < bn_val (take ds dest) + bn_val (take as add)"
proof -
  let ?S = "bn_val (take ds dest) + bn_val (take as add)"
  have a: "max ds as < dest_len" "as \<le> length add" "max ds as \<le> 255" "max ds as = as"
    using assms by (auto simp: bn_norm_def)
  obtain d where d: "bn_add dest dest_len ds add as = Some (1, d, ds + of_bool (256 ^ as \<le> ?S))"
    "length d = length dest"
    using bn_add_ok [OF a(1) assms(3) a(2,3)] a(4) by (auto simp: upd_within_def)
  have less: "bn_val (take n d) < 256 ^ n" if "n \<le> as" for n
    using bn_val_less [of "take n d"] assms that d(2) by simp
  have "256 ^ (as - 1) \<le> ?S" using bn_norm_bound [OF assms(5)] assms(1) by simp
  moreover have "(256 :: nat) ^ ds \<le> 256 ^ (as - 1)" "(256 :: nat) ^ Suc ds \<le> 256 ^ as"
    using assms(1) by (auto intro!: power_increasing simp del: power_Suc)
  ultimately have "bn_val (take ds d) < ?S" "256 ^ as \<le> ?S \<Longrightarrow> bn_val (take (Suc ds) d) < ?S"
    using less [of ds] less [of "Suc ds"] assms(1) by linarith+
  then have "bn_val (take (ds + of_bool (256 ^ as \<le> ?S)) d) < ?S" by (cases "256 ^ as \<le> ?S") simp_all
  then show ?thesis using d(1) assms(1) by auto
qed

theorem bn_add_short_size_witness:
  "\<exists>d n. bn_add [5, 0, 0, 0] 4 1 [1, 2] 2 = Some (1, d, n) \<and> n \<le> 2 \<and> bn_val (take n d) < 518"
  using bn_add_short_size [of 1 2 4 "[5, 0, 0, 0]" "[1, 2]"] by (simp add: bn_norm_def)

subsection \<open>Subtraction\<close>

text \<open>
  The two loops on the number \<open>n1\<close>, which is \<open>dest\<close> when \<open>first\<close> holds, and the not longer number \<open>n2\<close>: the
  difference, unless the borrow out of the common part meets a byte 0 or 1.
\<close>

lemma bn_sub_loops:
  fixes first :: bool and l M :: nat and dest sub :: bytes
  assumes "l \<le> M" "M \<le> length dest" "l \<le> length sub" "\<not> first \<Longrightarrow> M \<le> length sub"
  defines "n1 \<equiv> (if first then dest else sub)" and "n2 \<equiv> (if first then sub else dest)"
  defines "borrow \<equiv> bn_val (take l n1) < bn_val (take l n2)"
  assumes "borrow \<Longrightarrow> l < M \<and> n1 ! l \<noteq> 1"
  shows "\<exists>d1 c1 d. bn_sub_common first dest sub 0 l 0 = Some (d1, c1) \<and> bn_sub_rest first d1 sub l (M - l) c1 = Some (d, M) \<and>
    upd_within dest d 0 M \<and>
    bn_val (take M d) + bn_val (take l n2) = bn_val (take M n1) + (if borrow \<and> n1 ! l = 0 then 256 ^ (l + 1) else 0)"
proof -
  obtain d1 c1 where d1: "bn_sub_common first dest sub 0 l 0 = Some (d1, c1)" "upd_within dest d1 0 l" "unat c1 \<le> 1"
    and v1: "bn_val (take l d1) + bn_val (take l n2) = bn_val (take l n1) + 256 ^ l * unat c1"
    using bn_sub_common_ok [of 0 0 l dest sub first] assms(1-3) unfolding n1_def n2_def by auto
  have len1: "length d1 = length dest" using d1 by (simp add: upd_within_def)
  have n1: "M \<le> length n1" using assms(2,4) by (simp add: n1_def)
  have b: "bn_val (take l d1) < 256 ^ l" "bn_val (take l n2) < 256 ^ l"
    using bn_val_less [of "take l d1"] bn_val_less [of "take l n2"] len1 assms(1-3) by (simp_all add: n2_def)
  have c1: "c1 = b2u borrow"
  proof (rule unat_inj)
    show "unat c1 = unat (b2u borrow)" using v1 b d1(3) by (cases "unat c1") (auto simp: unat_b2u borrow_def)
  qed
  have seg1: "seg (if first then d1 else sub) l M = seg n1 l M"
    using upd_within_seg [OF d1(2), of M l] assms(2) by (simp add: n1_def)
  have "\<exists>d. bn_sub_rest first d1 sub l (M - l) c1 = Some (d, M) \<and> upd_within d1 d l M \<and>
    bn_val (seg d l M) + of_bool borrow = bn_val (seg n1 l M) + (if borrow \<and> n1 ! l = 0 then 256 else 0)"
  proof (cases borrow)
    case True
    then have "M - l = Suc (M - l - 1)" "n1 ! l \<noteq> 1" "l < length dest" using assms(2,8) by auto
    moreover have nth1: "(if first then d1 else sub) ! l = n1 ! l"
      using d1(2) calculation(3) by (simp add: n1_def upd_within_def)
    ultimately show ?thesis
      using bn_sub_rest_borrow [of l "M - l - 1" d1 first sub] True assms(1,2,4) len1 c1
      unfolding nth1 by (auto simp: b2u_def seg1)
  next
    case False
    then show ?thesis
      using bn_sub_rest_copy [of l "M - l" d1 first sub] assms(1,2,4) len1 c1 by (auto simp: b2u_def seg1)
  qed
  then obtain d where d: "bn_sub_rest first d1 sub l (M - l) c1 = Some (d, M)" "upd_within d1 d l M"
    and v: "bn_val (seg d l M) + of_bool borrow = bn_val (seg n1 l M) + (if borrow \<and> n1 ! l = 0 then 256 else 0)" by blast
  have lend: "length d = length dest" using d len1 by (simp add: upd_within_def)
  have "take l d = take l d1" using upd_within_seg [OF d(2), of l 0] assms(1,2) len1 by simp
  then have "bn_val (take M d) = bn_val (take l d1) + 256 ^ l * bn_val (seg d l M)"
    using take_seg_val [of l M d] assms(1,2) lend by simp
  moreover have "bn_val (take M n1) = bn_val (take l n1) + 256 ^ l * bn_val (seg n1 l M)"
    by (rule take_seg_val) (use assms(1) n1 in simp_all)
  moreover have "256 ^ l * (bn_val (seg d l M) + of_bool borrow) = 256 ^ l * bn_val (seg n1 l M) + (if borrow \<and> n1 ! l = 0 then 256 ^ (l + 1) else 0)"
    unfolding v by (simp add: algebra_simps)
  moreover have "unat c1 = of_bool borrow" by (simp add: c1 unat_b2u)
  ultimately have "bn_val (take M d) + bn_val (take l n2) = bn_val (take M n1) + (if borrow \<and> n1 ! l = 0 then 256 ^ (l + 1) else 0)"
    using v1 by (simp add: algebra_simps)
  moreover have "upd_within dest d 0 M" using d1(2) d(2) assms(1) by (auto simp: upd_within_def)
  ultimately show ?thesis using d1(1) d(1) by blast
qed

lemma bn_sub_ok:
  fixes ds ss :: nat and dest sub :: bytes
  defines "l \<equiv> min ds ss" and "M \<equiv> max ds ss"
  defines "A \<equiv> bn_val (take ds dest)" and "B \<equiv> bn_val (take ss sub)"
  defines "n1 \<equiv> (if A \<ge> B then dest else sub)" and "n2 \<equiv> (if A \<ge> B then sub else dest)"
  defines "borrow \<equiv> bn_val (take l n1) < bn_val (take l n2)"
  assumes "bn_norm dest ds" "bn_norm sub ss" "M \<le> dest_len" "dest_len \<le> length dest" "M \<le> 255"
    and "borrow \<Longrightarrow> n1 ! l \<noteq> 1"
  shows "\<exists>d n. bn_sub dest dest_len ds neg sub ss = Some (1, d, n, if A < B then 1 else neg) \<and> bn_norm d n \<and> n \<le> M \<and>
    int (bn_val (take n d)) = \<bar>int A - int B\<bar> + (if borrow \<and> n1 ! l = 0 then 256 ^ (l + 1) else 0)"
proof -
  have norm: "ss \<le> ds" if "A \<ge> B" using bn_norm_less [of ds ss sub dest] that assms(8,9) by (force simp: A_def B_def)
  have norm': "ds \<le> ss" if "\<not> A \<ge> B" using bn_norm_less [of ss ds dest sub] that assms(8,9) by (force simp: A_def B_def)
  have lens: "l \<le> M" "M \<le> length dest" "l \<le> length sub" "\<not> A \<ge> B \<Longrightarrow> M \<le> length sub"
    using assms(8-11) norm' by (auto simp: l_def M_def bn_norm_def)
  have v: "bn_val (take M n1) = max A B" "bn_val (take l n2) = min A B"
    using norm norm' by (auto simp: n1_def n2_def A_def B_def l_def M_def)
  have "borrow \<Longrightarrow> l < M"
  proof (rule ccontr)
    assume "borrow" "\<not> l < M"
    then have "M = l" using lens by simp
    with \<open>borrow\<close> v show False by (simp add: borrow_def)
  qed
  then obtain d1 c1 d where loops: "bn_sub_common (A \<ge> B) dest sub 0 l 0 = Some (d1, c1)"
    "bn_sub_rest (A \<ge> B) d1 sub l (M - l) c1 = Some (d, M)" "upd_within dest d 0 M"
    and val: "bn_val (take M d) + min A B = max A B + (if borrow \<and> n1 ! l = 0 then 256 ^ (l + 1) else 0)"
    using bn_sub_loops [of l M dest sub "A \<ge> B"] lens assms(13) unfolding borrow_def n1_def n2_def v [unfolded n1_def n2_def] by blast
  have len: "length d = length dest" using loops(3) by (simp add: upd_within_def)
  obtain n where n: "bn_size d M = Some n" "n \<le> M" "bn_val (take n d) = bn_val (take M d)" "0 < n \<longrightarrow> d ! (n - 1) \<noteq> 0"
    using bn_size_ok [of M d] len lens(2) by auto
  have cmp: "bn_cmp dest ds sub ss = Some (sgn (int A - int B))" using bn_cmp_ok [OF assms(8,9)] by (simp add: A_def B_def)
  have r: "sgn (int A - int B) \<ge> 0 \<longleftrightarrow> A \<ge> B" by (simp add: sgn_if)
  have diff: "nat ((if A \<ge> B then int ds - int ss else int ss - int ds) mod 256) = M - l"
    using norm norm' assms(12) by (auto simp: M_def l_def nat_diff_distrib)
  have "l mod 256 = l" "(if ds > ss then ss else ds) = l" "(if ds > ss then ds else ss) = M"
    using assms(12) by (auto simp: l_def M_def)
  then have "bn_sub dest dest_len ds neg sub ss = Some (1, d, n, if A < B then 1 else neg)"
    using loops(1,2) n(1) assms(10) bn_strip_ok [of M d] len lens(2)
    unfolding bn_sub_def Let_def cmp bind_Some_eq r diff by (auto simp: not_le)
  moreover define e :: nat where "e = (if borrow \<and> n1 ! l = 0 then 256 ^ (l + 1) else 0)"
  have "int (bn_val (take n d)) + int (min A B) = int (max A B) + int e"
    using val n(3) by (simp only: e_def flip: of_nat_add)
  then have "int (bn_val (take n d)) = \<bar>int A - int B\<bar> + int e" by linarith
  then have "int (bn_val (take n d)) = \<bar>int A - int B\<bar> + (if borrow \<and> n1 ! l = 0 then 256 ^ (l + 1) else 0)"
    by (simp add: e_def)
  ultimately show ?thesis using n len lens(2) by (auto simp: bn_norm_def)
qed

text \<open>C36.
  \<open>bn_sub\<close> on normalised numbers of at most 255 bytes: the destination receives the absolute difference with its
  exact size and \<open>neg_flag\<close> is set to 1 when it is negative and left as it was otherwise (so that it tells the sign
  of the difference when the caller cleared it), provided that the borrow out of the bytes both numbers have, if
  there is one, meets a byte above 1 of the longer number.\<close>
theorem bn_sub_correct:
  fixes dest sub :: bytes and ds ss :: nat
  defines "A \<equiv> bn_val (take ds dest)" and "B \<equiv> bn_val (take ss sub)"
  defines "n1 \<equiv> (if A \<ge> B then dest else sub)" and "n2 \<equiv> (if A \<ge> B then sub else dest)"
  assumes "bn_norm dest ds" "bn_norm sub ss" "max ds ss \<le> dest_len" "dest_len \<le> length dest" "max ds ss \<le> 255"
    and "bn_val (take (min ds ss) n2) \<le> bn_val (take (min ds ss) n1) \<or> 1 < n1 ! min ds ss"
  shows "\<exists>d n. bn_sub dest dest_len ds neg sub ss = Some (1, d, n, if A < B then 1 else neg) \<and> bn_norm d n \<and>
    int (bn_val (take n d)) = \<bar>int A - int B\<bar>"
proof -
  have "n1 ! min ds ss \<noteq> 0 \<and> n1 ! min ds ss \<noteq> 1" if "bn_val (take (min ds ss) n1) < bn_val (take (min ds ss) n2)"
    using assms(10) that by auto
  then show ?thesis
    using bn_sub_ok [OF assms(5-9), where neg = neg]
    unfolding A_def [symmetric] B_def [symmetric] n1_def [symmetric] n2_def [symmetric] by auto
qed

theorem bn_sub_correct_witness:
  "(\<exists>d n. bn_sub [5, 0, 3, 0] 4 3 0 [6, 1] 2 = Some (1, d, n, 0) \<and> bn_norm d n \<and> int (bn_val (take n d)) = 196351) \<and>
   (\<exists>d n. bn_sub [5, 0] 2 1 0 [6] 1 = Some (1, d, n, 1) \<and> bn_norm d n \<and> int (bn_val (take n d)) = 1)"
  using bn_sub_correct [of "[5, 0, 3, 0]" 3 "[6, 1]" 2 4 0] bn_sub_correct [of "[5, 0]" 1 "[6]" 1 2 0] by (simp add: bn_norm_def)

text \<open>
  A borrow that meets a zero byte of the longer number is lost: the loop over the longer part tests the byte after
  the subtraction instead of the byte before it, and the result is too large by 256 to the power of the
  position of the next byte.\<close>
theorem bn_sub_lost_borrow:
  assumes "bn_norm dest ds" "bn_norm sub ss" "ss < ds" "ds \<le> dest_len" "dest_len \<le> length dest" "ds \<le> 255"
    and "bn_val (take ss dest) < bn_val (take ss sub)" "dest ! ss = 0"
  shows "\<exists>d n. bn_sub dest dest_len ds neg sub ss = Some (1, d, n, neg) \<and>
    bn_val (take n d) + bn_val (take ss sub) = bn_val (take ds dest) + 256 ^ (ss + 1)"
proof -
  have AB: "bn_val (take ss sub) < bn_val (take ds dest)" by (rule bn_norm_less) (use assms in auto)
  have mm: "max ds ss = ds" "min ds ss = ss" using assms(3) by auto
  obtain d n where "bn_sub dest dest_len ds neg sub ss = Some (1, d, n, neg)"
    and v: "int (bn_val (take n d)) = int (bn_val (take ds dest)) - int (bn_val (take ss sub)) + 256 ^ (ss + 1)"
    using bn_sub_ok [OF assms(1,2), of dest_len neg] assms(4-8) AB unfolding mm by auto
  moreover have "int (bn_val (take n d) + bn_val (take ss sub)) = int (bn_val (take ds dest) + 256 ^ (ss + 1))"
    using v by simp
  ultimately show ?thesis by (auto simp only: of_nat_eq_iff)
qed

theorem bn_sub_lost_borrow_witness:
  "\<exists>d n. bn_sub [0, 0, 1] 3 3 0 [1] 1 = Some (1, d, n, 0) \<and> bn_val (take n d) + 1 = 131072"
  using bn_sub_lost_borrow [of "[0, 0, 1]" 3 "[1]" 1 3 0] by (simp add: bn_norm_def numeral_3_eq_3)

text \<open>
  The loop counters of \<open>bn_add\<close> and \<open>bn_sub\<close> are bytes: with two numbers of 256 bytes neither loop runs, so that
  \<open>bn_add\<close> clears the lowest byte of the destination and reports the old size, and \<open>bn_sub\<close> reads before
  the buffer when it looks for the size.\<close>
theorem bn_size_limit:
  assumes "257 \<le> dest_len" "dest_len \<le> length dest" "256 \<le> length add" "bn_norm dest 256" "bn_norm add 256"
  shows "bn_add dest dest_len 256 add 256 = Some (1, dest[0 := 0], 256) \<and> bn_sub dest dest_len 256 neg add 256 = None"
proof -
  have common: "bn_add_common f d a 0 0 0 = Some (d, 0)" "bn_sub_common f d a 0 0 0 = Some (d, 0)" for f d a
    by (simp_all add: bn_add_common.simps bn_sub_common.simps)
  have "bn_strip dest 256 0 = None" by (simp add: numeral_eq_Suc ld1_def)
  moreover have "st1 dest 0 0 = Some (dest[0 := 0])" using assms(1,2) by (intro st1_nat [of dest 0 0, simplified, THEN trans]) auto
  ultimately show ?thesis
    using assms(1,2) bn_cmp_ok [OF assms(4,5)] by (simp add: bn_add_def bn_sub_def common Let_def)
qed

theorem bn_size_limit_witness:
  "bn_add (replicate 256 1 @ [0]) 257 256 (replicate 256 2) 256 = Some (1, (replicate 256 1 @ [0])[0 := 0], 256)"
proof -
  have "bn_norm (replicate 256 1 @ [0]) 256" "bn_norm (replicate 256 2) 256" by (simp_all add: bn_norm_def nth_append)
  then show ?thesis using bn_size_limit [of 257 "replicate 256 1 @ [0]" "replicate 256 2"] by simp
qed

subsection \<open>Digits of four bytes\<close>

lemma unat_u32: "unat (x :: u32) < 2 ^ 32"
  using unsigned_less [of x] by simp

text \<open>The macro loses nothing: the new digit and the new carry are the digits of \<open>r + a * w + c\<close>.\<close>

lemma add_digit:
  fixes x y :: u32
  shows "unat (x + y) + 2 ^ 32 * of_bool (x + y < y) = unat x + unat y"
proof -
  have "unat (x + y) = (unat x + unat y) mod 2 ^ 32" by (simp add: unat_word_ariths)
  then show ?thesis
    using unat_u32 [of x] unat_u32 [of y] by (cases "unat x + unat y < 2 ^ 32") (auto simp: word_less_nat_alt mod_if)
qed

lemma BN_MUL_U32_exact:
  assumes "BN_MUL_U32 r a w c = (r', c')"
  shows "unat r' + 2 ^ 32 * unat c' = unat r + unat a * unat w + unat c"
proof -
  define p where "p = (ucast w :: u64) * ucast a"
  define high low where "high = (ucast (drop_bit 32 p) :: u32)" and "low = (ucast p :: u32)"
  define ret where "ret = r + c"
  define c2 where "c2 = (if ret < c then 1 else 0) + high"
  have aw: "unat a * unat w \<le> (2 ^ 32 - 1) * (2 ^ 32 - 1)"
    using unat_u32 [of a] unat_u32 [of w] by (intro mult_le_mono) simp_all
  moreover have "unat (ucast x :: u64) = unat x" for x :: u32
    using unat_u32 [of x] take_bit_nat_eq_self [of "unat x" 64] by (simp add: unsigned_ucast_eq)
  ultimately have p: "unat p = unat a * unat w" by (simp add: p_def unat_word_ariths mult.commute)
  have "unat (drop_bit 32 p) = unat p div 2 ^ 32"
    unfolding unsigned_drop_bit_eq using unsigned_less [where ?w = p and ?'a = nat] take_bit_nat_eq_self [of "unat p" 64] by (simp add: drop_bit_eq_div)
  moreover have "unat p div 2 ^ 32 < 2 ^ 32" using aw p by (simp add: less_mult_imp_div_less)
  ultimately have "unat high = unat p div 2 ^ 32"
    unfolding high_def unsigned_ucast_eq by (simp add: take_bit_nat_eq_self)
  moreover have "unat low = unat p mod 2 ^ 32" by (simp add: low_def unsigned_ucast_eq take_bit_eq_mod)
  ultimately have hl: "unat low + 2 ^ 32 * unat high = unat a * unat w" using p by simp
  have r': "r' = ret + low" and c': "c' = c2 + (if ret + low < low then 1 else 0)"
    using assms unfolding BN_MUL_U32_def Let_def p_def [symmetric] high_def [symmetric] low_def [symmetric]
      ret_def [symmetric] c2_def [symmetric] by auto
  note d = add_digit [of r c, folded ret_def] add_digit [of ret low, folded r']
  have tot: "unat r' + 2 ^ 32 * (of_bool (ret < c) + unat high + of_bool (r' < low)) = unat r + unat a * unat w + unat c"
    using d hl by (simp only: distrib_left)
  have "of_bool (ret < c) + unat high + of_bool (r' < low) < 2 ^ 32"
    using tot aw unat_u32 [of r] unat_u32 [of c] by (cases "ret < c"; cases "r' < low") simp_all
  then have "unat c' = of_bool (ret < c) + unat high + of_bool (r' < low)"
    by (cases "ret < c"; cases "r' < low") (simp_all add: c' c2_def r' unat_word_ariths)
  then show ?thesis using tot by simp
qed

lemma or_shift_add:
  fixes x y :: u32
  assumes "unat x < 2 ^ n" "n < 32" "unat y * 2 ^ n < 2 ^ 32"
  shows "unat (push_bit n y OR x) = unat x + 2 ^ n * unat y"
proof -
  have "x = take_bit n x"
    using assms(1,2) by (intro unat_inj) (simp add: unsigned_take_bit_eq take_bit_nat_eq_self)
  then have "push_bit n y AND x = 0" by (intro bit_word_eqI) (metis bit_and_iff bit_push_bit_iff bit_take_bit_iff bit_0_eq leD bot_apply bot_bool_def)
  then have "push_bit n y OR x = push_bit n y + x" by (rule disjunctive_add_eq_or [symmetric])
  moreover have "unat (push_bit n y) = 2 ^ n * unat y"
    unfolding unsigned_push_bit_eq using assms(3) by (simp add: push_bit_eq_mult take_bit_nat_eq_self mult.commute)
  moreover have "2 ^ n * unat y + unat x < 2 ^ 32"
  proof -
    have "2 ^ n * unat y < 2 ^ n * 2 ^ (32 - n)" using assms(2,3) by (simp add: mult.commute flip: power_add)
    then have "unat y < 2 ^ (32 - n)" by simp
    then have "2 ^ n * (unat y + 1) \<le> 2 ^ n * 2 ^ (32 - n)" by (intro mult_le_mono2) simp
    then show ?thesis using assms(1,2) by (simp flip: power_add)
  qed
  ultimately show ?thesis by (simp add: unat_word_ariths)
qed

lemma unat_ucast_u32 [simp]: "unat (ucast (x :: u8) :: u32) = unat x"
  by (rule unat_ucast_u8) simp

lemma unat_pack2: "unat (push_bit 8 (ucast b) OR ucast a :: u32) = bn_val [a, b]"
  using or_shift_add [of "ucast a" 8 "ucast b"] unat_u8 [of a] unat_u8 [of b] by simp

lemma unat_pack3: "unat (push_bit 16 (ucast c) OR push_bit 8 (ucast b) OR ucast a :: u32) = bn_val [a, b, c]"
  using or_shift_add [of "push_bit 8 (ucast b) OR ucast a" 16 "ucast c"] unat_pack2 [of b a]
    unat_u8 [of a] unat_u8 [of b] unat_u8 [of c] by (simp add: or.assoc)

lemma unat_pack4:
  "unat (push_bit 24 (ucast d) OR push_bit 16 (ucast c) OR push_bit 8 (ucast b) OR ucast a :: u32) = bn_val [a, b, c, d]"
  using or_shift_add [of "push_bit 16 (ucast c) OR push_bit 8 (ucast b) OR ucast a" 24 "ucast d"] unat_pack3 [of c b a]
    unat_u8 [of a] unat_u8 [of b] unat_u8 [of c] unat_u8 [of d] by (simp add: or.assoc)

lemma length_4_ex: "length xs = 4 \<Longrightarrow> \<exists>a b c d. xs = [a, b, c, d]"
  by (auto simp: numeral_eq_Suc length_Suc_conv)

lemma bn_dword_ok:
  assumes "off + 4 \<le> length m"
  shows "\<exists>w. bn_dword m off = Some w \<and> unat w = bn_val (seg m off (off + 4))"
proof -
  have "ld m (int off) 4 = Some (seg m off (off + 4))"
    using ld_nat [of off 4 m] assms by (simp add: seg_def)
  moreover obtain a b c d where "seg m off (off + 4) = [a, b, c, d]"
    using length_4_ex [of "seg m off (off + 4)"] assms by auto
  ultimately show ?thesis by (simp add: bn_dword_def unat_pack4 del: bn_val.simps)
qed

lemma bn_digit_ok:
  assumes "off + n \<le> length a" "0 < n"
  shows "\<exists>w. bn_digit a off n = Some w \<and> unat w = bn_val (seg a off (off + min 4 n))"
proof -
  have ld: "ld a (int off) (int k) = Some (seg a off (off + k))" if "k \<le> n" for k
    using ld_nat [of off k a] assms that by (simp add: seg_def)
  consider "n \<ge> 4" | "n = 3" | "n = 2" | "n = 1" using assms(2) by linarith
  then show ?thesis
  proof cases
    case 1
    then show ?thesis using bn_dword_ok [of off a] assms by (simp add: bn_digit_def min_def)
  next
    case 2
    then have "seg a off (off + 3) = [a ! off, a ! (off + 1), a ! (off + 2)]"
      using assms(1) by (simp add: seg_Cons)
    then show ?thesis using ld [of 3] 2 by (simp add: bn_digit_def unat_pack3 del: bn_val.simps)
  next
    case 3
    then have "seg a off (off + 2) = [a ! off, a ! (off + 1)]"
      using assms(1) by (simp add: seg_Cons)
    then show ?thesis using ld [of 2] 3 by (simp add: bn_digit_def unat_pack2 del: bn_val.simps)
  next
    case 4
    then show ?thesis using assms by (simp add: bn_digit_def ld1_nat seg_Cons)
  qed
qed

lemma word_of4_or:
  "word_of4 a b c d = push_bit 24 (ucast d) OR push_bit 16 (ucast c) OR push_bit 8 (ucast b) OR ucast a"
proof (rule bit_word_eqI)
  fix n assume "n < LENGTH(32)"
  then show "bit (word_of4 a b c d) n = bit (push_bit 24 (ucast d) OR push_bit 16 (ucast c) OR push_bit 8 (ucast b) OR ucast a :: u32) n"
    by (auto simp: word_of4_def bit_simps dest: bit_imp_le_length)
qed

lemma bytes_of_digit: "bn_val (map (\<lambda>j. ucast (drop_bit (8 * j) w)) [0, 1, 2, 3]) = unat (w :: u32)"
proof -
  have "unat w = bn_val [byte_of 0 w, byte_of (Suc 0) w, byte_of 2 w, byte_of 3 w]"
    by (metis unat_pack4 word_of4_or word_of4_byte_of)
  then show ?thesis by (simp add: byte_of_def)
qed

subsection \<open>The product with one digit\<close>

lemma bn_val_take_mod: "bn_val (take n xs) mod 256 ^ n = bn_val xs mod 256 ^ n"
proof (cases "n \<le> length xs")
  case True
  have "bn_val xs = bn_val (take n xs) + 256 ^ n * bn_val (drop n xs)"
    using bn_val_append [of "take n xs" "drop n xs"] True by simp
  then show ?thesis by simp
qed simp

text \<open>The bytes from \<open>p\<close> to \<open>L\<close>, of which the first four (or fewer at the end) are those of \<open>xs\<close>.\<close>

lemma seg4_mod:
  assumes "length xs = 4" "take (L - p) xs = take 4 (seg d p L)" "L \<le> length d"
  shows "bn_val (seg d p L) mod 256 ^ (L - p) = (bn_val xs + 256 ^ 4 * bn_val (seg d (p + 4) L)) mod 256 ^ (L - p)"
proof (cases "p + 4 \<le> L")
  case True
  then have "seg d p L = seg d p (p + 4) @ seg d (p + 4) L" using seg_split [of p "p + 4" L d] assms(3) by simp
  moreover have "xs = seg d p (p + 4)" using assms True calculation by simp
  ultimately show ?thesis using assms(1) by (simp add: bn_val_append)
next
  case False
  then have "seg d p L = take (L - p) xs" using assms by (simp add: take_all)
  then show ?thesis using False bn_val_take_mod [of "L - p" xs] by simp
qed

lemma take_seg: "take n (seg d p L) = seg d p (min L (p + n))"
proof -
  have "min n (L - p) = min L (p + n) - p" by (auto simp: min_def)
  then show ?thesis by (simp add: seg_def)
qed

lemma shift4_mod:
  fixes x y :: nat
  assumes "x mod 256 ^ (n - 4) = y mod 256 ^ (n - 4)"
  shows "(256 ^ 4 * x) mod 256 ^ n = (256 ^ 4 * y) mod (256 ^ n)"
proof (cases "4 \<le> n")
  case True
  then have "(256 :: nat) ^ n = 256 ^ 4 * 256 ^ (n - 4)" by (simp only: le_add_diff_inverse flip: power_add)
  then show ?thesis using assms by (simp only: mult_mod_right [symmetric])
next
  case False
  then have "(256 :: nat) ^ n dvd 256 ^ 4" by (intro le_imp_power_dvd) simp
  then have "(256 ^ 4 * z) mod 256 ^ n = 0" for z :: nat by (meson dvd_mult2 mod_eq_0_iff_dvd)
  then show ?thesis by metis
qed

lemma bn_put_ok:
  assumes "base \<le> L" "L \<le> length d" "base + off \<le> length d"
  shows "\<exists>d'. bn_put d base off (L - base) w = Some d' \<and> upd_within d d' (base + off) (min L (base + off + 4)) \<and>
    take (L - (base + off)) (map (\<lambda>j. ucast (drop_bit (8 * j) w)) [0, 1, 2, 3]) = take 4 (seg d' (base + off) L)"
proof -
  define ws :: bytes where "ws = map (\<lambda>j. ucast (drop_bit (8 * j) w)) [0, 1, 2, 3]"
  define p where "p = base + off"
  define d' where "d' = take p d @ take (L - p) ws @ drop (p + length (take (L - p) ws)) d"
  have len: "length ws = 4" by (simp add: ws_def)
  have fit: "p + length (take (L - p) ws) \<le> length d" using assms by (auto simp: len p_def min_def)
  have "bn_put d base off (L - base) w = Some d'"
    using st_nat [of p "take (L - p) ws" d] fit unfolding bn_put_def d'_def ws_def p_def by (simp add: diff_diff_left)
  moreover have "upd_within d d' p (min L (p + 4))"
    using fit nth_splice [of _ d p "take (L - p) ws"] len
    by (auto simp: upd_within_def d'_def min_def nth_append)
  moreover have "take (L - p) ws = take 4 (seg d' p L)"
    using fit assms(2) len by (auto simp: d'_def seg_def p_def min_def)
  ultimately show ?thesis unfolding ws_def p_def by blast
qed

lemma bn_mul_u32_loop_ok:
  assumes "base \<le> L" "L \<le> length d" "base + off + 4 * count \<le> length d" "count = (n + 3) div 4"
    and "0 < n \<Longrightarrow> off + n \<le> length a"
  shows "\<exists>d' c'. bn_mul_u32_loop d base off (L - base) a n w count c = Some (d', off + 4 * count, c') \<and>
    upd_within d d' (base + off) (min L (base + off + 4 * count)) \<and>
    (bn_val (seg d' (base + off) L) + 256 ^ (4 * count) * unat c') mod 256 ^ (L - (base + off)) =
    (bn_val (seg d (base + off) L) + unat c + bn_val (seg a off (off + n)) * unat w) mod 256 ^ (L - (base + off))"
  using assms
proof (induction count arbitrary: d off n c)
  case 0
  then show ?case by (simp add: upd_within_def)
next
  case (Suc count)
  let ?p = "base + off"
  let ?m = "256 ^ (L - ?p) :: nat"
  obtain t1 where t1: "bn_dword d ?p = Some t1" "unat t1 = bn_val (seg d ?p (?p + 4))"
    using bn_dword_ok [of ?p d] Suc.prems by auto
  have "0 < n" using Suc.prems(4) by (cases n) auto
  have count: "count = (n - 4 + 3) div 4"
  proof (cases "4 \<le> n")
    case True
    then have "n + 3 = (n - 4 + 3) + 4" by simp
    then show ?thesis using Suc.prems(4) by (metis div_add_self2 nat.inject Suc_eq_plus1 zero_neq_numeral)
  next
    case False
    then show ?thesis using Suc.prems(4) by (simp add: div_eq_0_iff)
  qed
  from \<open>0 < n\<close> obtain t2 where t2: "bn_digit a off n = Some t2" "unat t2 = bn_val (seg a off (off + min 4 n))"
    using bn_digit_ok [of off n a] Suc.prems by auto
  obtain r c1 where rc: "BN_MUL_U32 t1 t2 w c = (r, c1)" by (cases "BN_MUL_U32 t1 t2 w c")
  have ex: "unat r + 256 ^ 4 * unat c1 = unat t1 + unat t2 * unat w + unat c" using BN_MUL_U32_exact [OF rc] by simp
  let ?ws = "map (\<lambda>j. ucast (drop_bit (8 * j) r)) [0, 1, 2, 3] :: bytes"
  obtain d1 where d1: "bn_put d base off (L - base) r = Some d1" "upd_within d d1 ?p (min L (?p + 4))"
    "take (L - ?p) ?ws = take 4 (seg d1 ?p L)"
    using bn_put_ok [of base L d off r] Suc.prems by auto
  have len1: "length d1 = length d" using d1(2) by (simp add: upd_within_def)
  obtain d' c' where d': "bn_mul_u32_loop d1 base (off + 4) (L - base) a (n - 4) w count c1 = Some (d', off + 4 + 4 * count, c')"
    "upd_within d1 d' (?p + 4) (min L (?p + 4 + 4 * count))"
    and v: "(bn_val (seg d' (?p + 4) L) + 256 ^ (4 * count) * unat c') mod 256 ^ (L - ?p - 4) =
      (bn_val (seg d1 (?p + 4) L) + unat c1 + bn_val (seg a (off + 4) (off + 4 + (n - 4))) * unat w) mod 256 ^ (L - ?p - 4)"
    using Suc.IH [of d1 "off + 4" "n - 4" c1, OF _ _ _ count] Suc.prems(1-3,5) len1 by (auto simp: ac_simps diff_diff_left)
  have len': "length d' = length d" using d'(2) len1 by (simp add: upd_within_def)
  have a: "bn_val (seg a off (off + n)) = unat t2 + 256 ^ 4 * bn_val (seg a (off + 4) (off + 4 + (n - 4)))"
  proof (cases "4 \<le> n")
    case True
    then show ?thesis using seg_split [of off "off + 4" "off + n" a] Suc.prems(5) t2(2) by (simp add: bn_val_append)
  qed (use t2(2) in simp)
  have e1: "bn_val (seg d ?p L) mod ?m = (unat t1 + 256 ^ 4 * bn_val (seg d1 (?p + 4) L)) mod ?m"
  proof -
    have "seg d1 (?p + 4) L = seg d (?p + 4) L" using upd_within_seg [OF d1(2), of L "?p + 4"] Suc.prems by simp
    moreover have "take (L - ?p) (seg d ?p (?p + 4)) = take 4 (seg d ?p L)" by (simp add: seg_def min.commute)
    ultimately show ?thesis using seg4_mod [of "seg d ?p (?p + 4)" L ?p d] Suc.prems t1(2) by simp
  qed
  have e2: "bn_val (seg d' ?p L) mod ?m = (unat r + 256 ^ 4 * bn_val (seg d' (?p + 4) L)) mod ?m"
  proof -
    have "seg d' ?p (min L (?p + 4)) = seg d1 ?p (min L (?p + 4))"
      using upd_within_seg [OF d'(2), of "min L (?p + 4)" ?p] Suc.prems len1 by simp
    then have "take 4 (seg d' ?p L) = take 4 (seg d1 ?p L)" by (simp add: take_seg)
    then show ?thesis using seg4_mod [of ?ws L ?p d'] Suc.prems len' d1(3) bytes_of_digit [of r] by simp
  qed
  have "(bn_val (seg d' ?p L) + 256 ^ (4 * Suc count) * unat c') mod ?m =
        (unat r + 256 ^ 4 * (bn_val (seg d' (?p + 4) L) + 256 ^ (4 * count) * unat c')) mod ?m"
    using mod_add_cong [OF e2 refl, of "256 ^ (4 * Suc count) * unat c'"] by (simp add: algebra_simps power_add)
  also have "\<dots> = (unat r + 256 ^ 4 * (bn_val (seg d1 (?p + 4) L) + unat c1 + bn_val (seg a (off + 4) (off + 4 + (n - 4))) * unat w)) mod ?m"
    by (rule mod_add_cong [OF refl shift4_mod [OF v]])
  also have "unat r + 256 ^ 4 * (bn_val (seg d1 (?p + 4) L) + unat c1 + bn_val (seg a (off + 4) (off + 4 + (n - 4))) * unat w) =
    unat t1 + 256 ^ 4 * bn_val (seg d1 (?p + 4) L) + (unat c + bn_val (seg a off (off + n)) * unat w)"
    using ex unfolding a by (simp add: algebra_simps)
  also have "\<dots> mod ?m = (bn_val (seg d ?p L) + (unat c + bn_val (seg a off (off + n)) * unat w)) mod ?m"
    by (rule mod_add_cong [OF e1 [symmetric] refl])
  finally have "(bn_val (seg d' ?p L) + 256 ^ (4 * Suc count) * unat c') mod ?m =
    (bn_val (seg d ?p L) + unat c + bn_val (seg a off (off + n)) * unat w) mod ?m" by (simp add: add.assoc)
  moreover have "bn_mul_u32_loop d base off (L - base) a n w (Suc count) c = Some (d', off + 4 * Suc count, c')"
    using t1 t2 rc d1(1) d'(1) by simp
  moreover have "upd_within d d' ?p (min L (?p + 4 * Suc count))"
    using d1(2) d'(2) by (auto simp: upd_within_def)
  ultimately show ?case by blast
qed

lemma seg_zeros: "\<forall>q<length d. p \<le> q \<longrightarrow> q < L \<longrightarrow> d ! q = 0 \<Longrightarrow> L \<le> length d \<Longrightarrow> bn_val (seg d p L) = 0"
  by (rule bn_val_zeros) (auto simp: in_set_conv_nth nth_seg)

lemma mult_power_mod_0: "n \<le> k \<Longrightarrow> (x + 256 ^ k * y) mod 256 ^ n = x mod (256 ^ n :: nat)"
  by (metis add_0_right dvd_mult2 le_imp_power_dvd mod_add_right_eq mod_eq_0_iff_dvd)

text \<open>A shift of a congruence by any number of bytes.\<close>

lemma shift_mod:
  fixes x y :: nat
  assumes "x mod 256 ^ n = y mod 256 ^ n"
  shows "(256 ^ k * x) mod 256 ^ (k + n) = (256 ^ k * y) mod (256 ^ (k + n))"
  using assms by (simp only: power_add mult_mod_right [symmetric])

lemma bn_mul_u32_ok:
  fixes n :: nat
  defines "E \<equiv> 4 * ((n + 3) div 4)"
  assumes "base \<le> L" "L \<le> length d" "base + E \<le> length d" "n \<le> length a"
    and zero: "\<forall>q<length d. base + E \<le> q \<longrightarrow> q < L \<longrightarrow> d ! q = 0"
  shows "\<exists>d'. bn_mul_u32 d base (L - base) a n w = Some d' \<and> upd_within d d' base (min L (base + E + 4)) \<and>
    bn_val (seg d' base L) mod 256 ^ (L - base) = (bn_val (seg d base L) + bn_val (take n a) * unat w) mod 256 ^ (L - base)"
proof -
  let ?p = "base + E" and ?m = "256 ^ (L - base) :: nat"
  obtain d1 c where d1: "bn_mul_u32_loop d base 0 (L - base) a n w ((n + 3) div 4) 0 = Some (d1, E, c)"
    "upd_within d d1 base (min L ?p)"
    and v: "(bn_val (seg d1 base L) + 256 ^ E * unat c) mod ?m = (bn_val (seg d base L) + bn_val (take n a) * unat w) mod ?m"
    using bn_mul_u32_loop_ok [of base L d 0 "(n + 3) div 4" n a w 0] assms(2-5) by (auto simp: E_def)
  have len1: "length d1 = length d" using d1(2) by (simp add: upd_within_def)
  have z1: "\<forall>q<length d1. ?p \<le> q \<longrightarrow> q < L \<longrightarrow> d1 ! q = 0" using zero d1(2) by (auto simp: upd_within_def)
  show ?thesis
  proof (cases "c > 0")
    case False
    then have "bn_mul_u32 d base (L - base) a n w = Some d1" "c = 0"
      using d1(1) word_neq_0_conv [of c] by (auto simp: bn_mul_u32_def)
    moreover have "upd_within d d1 base (min L (?p + 4))" using d1(2) by (auto simp: upd_within_def)
    ultimately show ?thesis using v by simp
  next
    case True
    obtain d2 where d2: "bn_put d1 base E (L - base) c = Some d2" "upd_within d1 d2 ?p (min L (?p + 4))"
      "take (L - ?p) (map (\<lambda>j. ucast (drop_bit (8 * j) c)) [0, 1, 2, 3]) = take 4 (seg d2 ?p L)"
      using bn_put_ok [of base L d1 E c] assms(2-4) len1 by auto
    have len2: "length d2 = length d" using d2(2) len1 by (simp add: upd_within_def)
    have "bn_val (seg d2 base L) mod ?m = (bn_val (seg d1 base L) + 256 ^ E * unat c) mod ?m"
    proof (cases "?p \<le> L")
      case True
      have "bn_val (seg d2 (?p + 4) L) = 0"
        by (rule seg_zeros) (use d2(2) z1 assms(3) len1 in \<open>auto simp: upd_within_def\<close>)
      then have "bn_val (seg d2 ?p L) mod 256 ^ (L - ?p) = unat c mod 256 ^ (L - ?p)"
        using seg4_mod [OF _ d2(3)] assms(3) len2 bytes_of_digit [of c] by simp
      from shift_mod [OF this, of E]
      have "(256 ^ E * bn_val (seg d2 ?p L)) mod ?m = (256 ^ E * unat c) mod ?m" using True by simp
      from mod_add_cong [OF refl this, of "bn_val (seg d1 base ?p)"]
      have "(bn_val (seg d1 base ?p) + 256 ^ E * bn_val (seg d2 ?p L)) mod ?m = (bn_val (seg d1 base ?p) + 256 ^ E * unat c) mod ?m" .
      moreover have "seg d2 base ?p = seg d1 base ?p" using upd_within_seg [OF d2(2), of ?p base] True assms(3) len1 by simp
      moreover have "bn_val (seg d2 base L) = bn_val (seg d2 base ?p) + 256 ^ E * bn_val (seg d2 ?p L)"
        using seg_split [of base ?p L d2] True assms(3,4) len2 by (simp add: bn_val_append)
      moreover have "bn_val (seg d1 base L) = bn_val (seg d1 base ?p)"
        using seg_split [of base ?p L d1] seg_zeros [OF z1] True assms(3,4) len1 by (simp add: bn_val_append)
      ultimately show ?thesis by simp
    next
      case False
      then have "seg d2 base L = seg d1 base L" using upd_within_seg [OF d2(2), of L base] assms(3) len1 by simp
      then show ?thesis using False mult_power_mod_0 [of "L - base" E "bn_val (seg d1 base L)" "unat c"] by simp
    qed
    moreover have "bn_mul_u32 d base (L - base) a n w = Some d2" using d1(1) d2(1) True by (simp add: bn_mul_u32_def)
    moreover have "upd_within d d2 base (min L (?p + 4))" using d1(2) d2(2) by (auto simp: upd_within_def)
    ultimately show ?thesis using v by auto
  qed
qed

subsection \<open>The product\<close>

lemma bn_mul_loop_ok:
  fixes n :: nat
  defines "E \<equiv> 4 * ((n + 3) div 4)"
  assumes "i + nb \<le> L" "L \<le> length d" "0 < nb \<Longrightarrow> i + 4 * ((nb + 3) div 4) + E \<le> length d + 4"
    "n \<le> length a" "0 < nb \<Longrightarrow> i + nb \<le> length b"
    "\<forall>q<length d. i + E \<le> q \<longrightarrow> q < L \<longrightarrow> d ! q = 0"
  shows "\<exists>d'. bn_mul_loop d L a n b nb i = Some d' \<and> length d' = length d \<and>
    bn_val (take L d') mod 256 ^ L = (bn_val (take L d) + 256 ^ i * bn_val (take n a) * bn_val (seg b i (i + nb))) mod 256 ^ L"
  using assms(2-7)
proof (induction nb arbitrary: d i rule: less_induct)
  case (less nb)
  show ?case
  proof (cases "nb = 0")
    case True
    then show ?thesis by (subst bn_mul_loop.simps) simp
  next
    case False
    then have nb: "0 < nb" by simp
    let ?A = "bn_val (take n a)"
    obtain w where w: "bn_digit b i nb = Some w" "unat w = bn_val (seg b i (i + min 4 nb))"
      using bn_digit_ok [of i nb b] nb less.prems(5) by auto
    have "1 \<le> (nb + 3) div 4" using nb div_le_mono [of 4 "nb + 3" 4] by simp
    then obtain d1 where d1: "bn_mul_u32 d i (L - i) a n w = Some d1" "upd_within d d1 i (min L (i + E + 4))"
      and v1: "bn_val (seg d1 i L) mod 256 ^ (L - i) = (bn_val (seg d i L) + ?A * unat w) mod 256 ^ (L - i)"
      using bn_mul_u32_ok [of i L d n a w] less.prems(1-4,6) nb unfolding E_def by fastforce
    have len1: "length d1 = length d" using d1(2) by (simp add: upd_within_def)
    have s1: "bn_val (take L d1) mod 256 ^ L = (bn_val (take L d) + 256 ^ i * (?A * unat w)) mod 256 ^ L"
    proof -
      have sh: "(256 ^ i * bn_val (seg d1 i L)) mod 256 ^ L = (256 ^ i * (bn_val (seg d i L) + ?A * unat w)) mod 256 ^ L"
        using shift_mod [OF v1, of i] less.prems(1) by simp
      have "take i d1 = take i d" using upd_within_seg [OF d1(2), of i 0] less.prems(1,2) by simp
      then have "bn_val (take L d1) = bn_val (take i d) + 256 ^ i * bn_val (seg d1 i L)"
        using take_seg_val [of i L d1] less.prems(1,2) len1 by simp
      moreover have "bn_val (take L d) = bn_val (take i d) + 256 ^ i * bn_val (seg d i L)"
        using take_seg_val [of i L d] less.prems(1,2) by simp
      ultimately show ?thesis using mod_add_cong [OF refl sh, of "bn_val (take i d)"] by (simp add: algebra_simps)
    qed
    have z1: "\<forall>q<length d1. i + 4 + E \<le> q \<longrightarrow> q < L \<longrightarrow> d1 ! q = 0"
      using less.prems(6) d1(2) by (auto simp: upd_within_def)
    have "\<exists>d'. bn_mul_loop d1 L a n b (nb - 4) (i + 4) = Some d' \<and> length d' = length d1 \<and>
      bn_val (take L d') mod 256 ^ L = (bn_val (take L d1) + 256 ^ (i + 4) * ?A * bn_val (seg b (i + 4) (i + 4 + (nb - 4)))) mod 256 ^ L"
    proof (cases "4 < nb")
      case True
      then have "(nb - 4 + 3) div 4 + 1 = (nb + 3) div 4" using div_add_self2 [of 4 "nb - 4 + 3"] by simp
      then have r: "i + 4 + 4 * ((nb - 4 + 3) div 4) + E \<le> length d1 + 4" using less.prems(3) nb len1 by simp
      show ?thesis by (rule less.IH [OF _ _ _ r less.prems(4) _ z1]) (use True less.prems(1,2,5) nb len1 in simp_all)
    qed (subst bn_mul_loop.simps, simp)
    then obtain d' where d': "bn_mul_loop d1 L a n b (nb - 4) (i + 4) = Some d'" "length d' = length d"
      and v': "bn_val (take L d') mod 256 ^ L = (bn_val (take L d1) + 256 ^ (i + 4) * ?A * bn_val (seg b (i + 4) (i + 4 + (nb - 4)))) mod 256 ^ L"
      using len1 by auto
    have "bn_mul_loop d L a n b nb i = Some d'" using nb w(1) d1(1) d'(1) by (subst bn_mul_loop.simps) simp
    moreover have "bn_val (seg b i (i + nb)) = unat w + 256 ^ 4 * bn_val (seg b (i + 4) (i + 4 + (nb - 4)))"
    proof (cases "4 \<le> nb")
      case True
      then show ?thesis using seg_split [of i "i + 4" "i + nb" b] less.prems(5) w(2) by (simp add: bn_val_append)
    qed (use w(2) in simp)
    moreover have "bn_val (take L d') mod 256 ^ L =
      (bn_val (take L d) + 256 ^ i * ?A * (unat w + 256 ^ 4 * bn_val (seg b (i + 4) (i + 4 + (nb - 4))))) mod 256 ^ L"
      unfolding v' using mod_add_cong [OF s1 refl, of "256 ^ (i + 4) * ?A * bn_val (seg b (i + 4) (i + 4 + (nb - 4)))"]
      by (simp add: algebra_simps power_add)
    ultimately show ?thesis using d'(2) by metis
  qed
qed

text \<open>The loop into a cleared destination, over its whole length.\<close>

lemma bn_mul_loop_product:
  assumes "dest_len \<le> length dest" "\<forall>q<dest_len. dest ! q = 0"
    and "xs \<le> length x" "ys \<le> length y" "xs + ys \<le> dest_len" "xs + ys + 2 \<le> length dest" "0 < ys"
  shows "\<exists>d. bn_mul_loop dest dest_len x xs y ys 0 = Some d \<and> length d = length dest \<and>
    bn_val (take dest_len d) = bn_val (take xs x) * bn_val (take ys y)"
proof -
  have "4 * ((ys + 3) div 4) \<le> ys + 3" "4 * ((xs + 3) div 4) \<le> xs + 3" by (rule times_div_less_eq_dividend)+
  then have "4 * ((ys + 3) div 4) + 4 * ((xs + 3) div 4) \<le> length dest + 4" using assms(6) by linarith
  then obtain d where d: "bn_mul_loop dest dest_len x xs y ys 0 = Some d" "length d = length dest"
    "bn_val (take dest_len d) mod 256 ^ dest_len = (bn_val (take dest_len dest) + bn_val (take xs x) * bn_val (take ys y)) mod 256 ^ dest_len"
    using bn_mul_loop_ok [of 0 ys dest_len dest xs x y] assms by auto
  have "bn_val (take dest_len dest) = 0" by (rule bn_val_zeros) (use assms(1,2) in \<open>auto simp: in_set_conv_nth\<close>)
  moreover have "bn_val (take dest_len d) < 256 ^ dest_len" using bn_val_less [of "take dest_len d"] d(2) assms(1) by simp
  moreover have "bn_val (take xs x) * bn_val (take ys y) < 256 ^ dest_len"
  proof -
    have "bn_val (take xs x) * bn_val (take ys y) < 256 ^ xs * 256 ^ ys"
      using bn_val_less [of "take xs x"] bn_val_less [of "take ys y"] assms(3,4) by (intro mult_strict_mono) auto
    also have "\<dots> \<le> 256 ^ dest_len" using assms(5) by (simp flip: power_add)
    finally show ?thesis .
  qed
  ultimately show ?thesis using d by simp
qed

text \<open>C37.
  \<open>bn_mul\<close> into a cleared destination that lies in a buffer of at least two bytes more than the sum of the sizes of the operands (the
  code reads whole words of it, and so behind a destination of just that sum): the destination holds the product and the size is that of the product.  A zero operand leaves the
  destination and the size alone and returns 0, and a destination that is too short is refused.\<close>
theorem bn_mul_correct:
  assumes "dest_len \<le> length dest" "as + bs + 2 \<le> length dest" "as \<le> length a" "bs \<le> length b"
    and "\<forall>q<dest_len. dest ! q = 0"
  defines "A \<equiv> bn_val (take as a)" and "B \<equiv> bn_val (take bs b)"
  shows "\<exists>as' bs'. bn_size a as = Some as' \<and> bn_size b bs = Some bs' \<and>
    (if dest_len < as' + bs' then bn_mul dest dest_len a as b bs = Some (-1, dest, None)
     else if A * B = 0 then bn_mul dest dest_len a as b bs = Some (0, dest, None)
     else \<exists>d n. bn_mul dest dest_len a as b bs = Some (1, d, Some n) \<and> bn_val (take dest_len d) = A * B \<and>
       bn_val (take n d) = A * B \<and> bn_norm d n)"
proof -
  obtain as' where a': "bn_size a as = Some as'" "as' \<le> as" "bn_val (take as' a) = A" "bn_norm a as'"
    using bn_size_ok [OF assms(3)] assms(3) by (auto simp: A_def bn_norm_def)
  obtain bs' where b': "bn_size b bs = Some bs'" "bs' \<le> bs" "bn_val (take bs' b) = B" "bn_norm b bs'"
    using bn_size_ok [OF assms(4)] assms(4) by (auto simp: B_def bn_norm_def)
  have zero: "A = 0 \<longleftrightarrow> as' = 0" "B = 0 \<longleftrightarrow> bs' = 0"
    using bn_norm_bound [OF a'(4)] bn_norm_bound [OF b'(4)] a'(3) b'(3) by fastforce+
  have "\<exists>d n. bn_mul dest dest_len a as b bs = Some (1, d, Some n) \<and> bn_val (take dest_len d) = A * B \<and>
       bn_val (take n d) = A * B \<and> bn_norm d n" if "as' + bs' \<le> dest_len" "as' \<noteq> 0" "bs' \<noteq> 0"
  proof -
    note h = that
    let ?x = "if as' < bs' then b else a" and ?xs = "if as' < bs' then bs' else as'"
    let ?y = "if as' < bs' then a else b" and ?ys = "if as' < bs' then as' else bs'"
    obtain d where d: "bn_mul_loop dest dest_len ?x ?xs ?y ?ys 0 = Some d" "length d = length dest" "bn_val (take dest_len d) = A * B"
      using bn_mul_loop_product [OF assms(1,5), of ?xs ?x ?ys ?y] h a' b' assms(2,3,4) by (cases "as' < bs'") auto
    obtain n where "bn_size d dest_len = Some n" "bn_val (take n d) = A * B" "bn_norm d n"
      using bn_size_ok [of dest_len d] assms(1) d(2,3) by (auto simp: bn_norm_def)
    then show ?thesis using d a'(1) b'(1) that by (auto simp: bn_mul_def split: if_splits)
  qed
  moreover have "bn_mul dest dest_len a as b bs = Some (0, dest, None)" if "as' + bs' \<le> dest_len" "as' = 0 \<or> bs' = 0"
    using that a'(1) b'(1) by (auto simp: bn_mul_def)
  ultimately show ?thesis using a'(1) b'(1) zero by (auto simp: bn_mul_def)
qed

theorem bn_mul_correct_witness:
  "\<exists>d n. bn_mul [0, 0, 0, 0, 9, 9] 4 [255, 255] 2 [255, 255] 2 = Some (1, d, Some n) \<and> bn_val (take 4 d) = 4294836225 \<and>
     bn_val (take n d) = 4294836225 \<and> bn_norm d n"
proof -
  have "bn_size [255, 255] (Suc 1) = Some 2" by (simp add: ld1_def)
  then have "bn_size [255, 255] 2 = Some 2" by (simp only: Suc_1)
  moreover have "\<forall>q<4. [0, 0, 0, 0, 9, 9 :: u8] ! q = 0" by (auto simp: nth_Cons')
  ultimately show ?thesis
    using bn_mul_correct [of 4 "[0, 0, 0, 0, 9, 9]" 2 2 "[255, 255]" "[255, 255]"] by simp
qed

end
