(* ===== verification/Vector.thy ===== *)
theory Vector
  imports Prelude
begin

text \<open>
  The dynamic array of \<open>core/utils/data_structure/vector/vector.c\<close>.  An element pointer is an option
  (\<open>None\<close> is \<open>NULL\<close>), the block \<open>vector_head\<close> is the list of its slots.  The fields are \<open>uint32_t\<close>: sums and
  products are reduced modulo $2^{32}$ where the code computes them.  Whether an allocation succeeds is the
  argument \<open>ok\<close>; the locks are not modelled.
\<close>

record 'a vector =
  v_head :: "'a option list"
  v_step :: nat
  v_data_size :: nat
  v_capacity :: nat
  v_count :: nat
  v_end :: nat

subsection \<open>Copying inside the block\<close>

text \<open>
  The loops of the two copies: \<open>num_per\<close> slots at a time, with unsigned arithmetic.  A copy that leaves
  the block is undefined, and so is a loop that never ends.
\<close>

partial_function (option) copy_backward_loop ::
  "'a option list \<Rightarrow> u32 \<Rightarrow> u32 \<Rightarrow> u32 \<Rightarrow> u32 \<Rightarrow> 'a option list option" where
  "copy_backward_loop m to_pos from_pos count num_per =
     (if count > 0 then
        let to_pos' = to_pos - num_per; from_pos' = from_pos - num_per; count' = count - num_per;
            num_per' = (if count' - num_per > 0 then num_per else count') in
        do { xs \<leftarrow> ld m (uint from_pos') (uint num_per');
             m' \<leftarrow> st m (uint to_pos') xs;
             copy_backward_loop m' to_pos' from_pos' count' num_per' }
      else Some m)"

definition vector_copy_backward :: "'a vector \<Rightarrow> u32 \<Rightarrow> u32 \<Rightarrow> u32 \<Rightarrow> 'a vector option" where
  "vector_copy_backward v to from count =
     (let from_pos = from + count; to_pos = to + count in
      do { m \<leftarrow> copy_backward_loop (v_head v) to_pos from_pos count (to_pos - from_pos); Some (v\<lparr>v_head := m\<rparr>) })"

partial_function (option) copy_forward_loop ::
  "'a option list \<Rightarrow> u32 \<Rightarrow> u32 \<Rightarrow> u32 \<Rightarrow> u32 \<Rightarrow> 'a option list option" where
  "copy_forward_loop m to_pos from_pos count num_per =
     (if count > 0 then
        let num_per' = (if count - num_per > 0 then num_per else count) in
        do { xs \<leftarrow> ld m (uint from_pos) (uint num_per');
             m' \<leftarrow> st m (uint to_pos) xs;
             copy_forward_loop m' (to_pos + num_per') (from_pos + num_per') (count - num_per') num_per' }
      else Some m)"

definition vector_copy_forward :: "'a vector \<Rightarrow> u32 \<Rightarrow> u32 \<Rightarrow> u32 \<Rightarrow> 'a vector option" where
  "vector_copy_forward v to from count =
     do { m \<leftarrow> copy_forward_loop (v_head v) to from count (from - to); Some (v\<lparr>v_head := m\<rparr>) }"

definition vector_copy :: "'a vector \<Rightarrow> u32 \<Rightarrow> u32 \<Rightarrow> u32 \<Rightarrow> 'a vector option" where
  "vector_copy v to from count =
     (if from > to then vector_copy_forward v to from count else vector_copy_backward v to from count)"

subsection \<open>Operations\<close>

text \<open>A block of \<open>n\<close> bytes, computed in \<open>uint32_t\<close>, has \<open>n div 8\<close> slots.\<close>

definition slots :: "nat \<Rightarrow> nat \<Rightarrow> nat" where
  "slots n stp = n * stp mod 2 ^ 32 div 8"

definition vector_init :: "bool \<Rightarrow> 'a vector \<Rightarrow> nat \<Rightarrow> nat \<Rightarrow> (int \<times> 'a vector) option" where
  "vector_init ok v data_size capacity =
     (if ok then Some (1, v\<lparr>v_step := 8, v_data_size := data_size, v_capacity := capacity, v_count := 0,
                            v_head := replicate (slots capacity 8) None, v_end := 0\<rparr>)
      else None)"

text \<open>
  The growth of \<open>vector_add_at\<close> and \<open>vector_add_back\<close>.  When the allocation fails, \<open>vector_head\<close> has already been
  overwritten with \<open>NULL\<close>.
\<close>

definition vector_grow :: "bool \<Rightarrow> 'a vector \<Rightarrow> (int \<times> 'a vector) option" where
  "vector_grow ok v =
     (if ok then
        do { xs \<leftarrow> ld (v_head v) 0 (int (slots (v_capacity v) (v_step v)));
             m \<leftarrow> st (replicate (slots (2 * v_capacity v) (v_step v)) None) 0 xs;
             Some (1, v\<lparr>v_head := m, v_capacity := 2 * v_capacity v mod 2 ^ 32\<rparr>) }
      else Some (-1, v\<lparr>v_head := []\<rparr>))"

definition vector_add_at :: "bool \<Rightarrow> 'a vector \<Rightarrow> int \<Rightarrow> 'a option \<Rightarrow> (int \<times> 'a vector) option" where
  "vector_add_at ok v index data =
     (let offset = nat (index mod 2 ^ 32) in
      do { (r, v1) \<leftarrow> (if offset \<ge> v_capacity v then vector_grow ok v else Some (1, v));
           if r < 0 then Some (-1, v1)
           else do { x \<leftarrow> ld1 (v_head v1) (int offset);
                     m \<leftarrow> st1 (v_head v1) (int offset) data;
                     Some (1, v1\<lparr>v_head := m,
                                 v_count := (if x = None then (v_count v1 + 1) mod 2 ^ 32 else v_count v1),
                                 v_end := (if (offset + 1) mod 2 ^ 32 > v_end v then (offset + 1) mod 2 ^ 32 else v_end v)\<rparr>) } })"

definition vector_add_front :: "'a vector \<Rightarrow> 'a option \<Rightarrow> int \<times> 'a vector" where
  "vector_add_front v data = (-1, v)"

definition vector_add_back :: "bool \<Rightarrow> 'a vector \<Rightarrow> 'a option \<Rightarrow> (int \<times> 'a vector) option" where
  "vector_add_back ok v data =
     (let offset = v_end v in
      do { (r, v1) \<leftarrow> (if offset \<ge> v_capacity v then vector_grow ok v else Some (1, v));
           if r < 0 then Some (-1, v1)
           else do { m \<leftarrow> st1 (v_head v1) (int offset) data;
                     Some (1, v1\<lparr>v_head := m, v_end := (offset + 1) mod 2 ^ 32, v_count := (v_count v1 + 1) mod 2 ^ 32\<rparr>) } })"

text \<open>The middle component is what was stored in \<open>*element\<close>, \<open>None\<close> when nothing was.\<close>

definition vector_remove :: "'a vector \<Rightarrow> int \<Rightarrow> (int \<times> 'a option option \<times> 'a vector) option" where
  "vector_remove v index =
     (let offset = nat (index mod 2 ^ 32) in
      if offset > v_end v then Some (-1, None, v)
      else do { x \<leftarrow> ld1 (v_head v) (int offset);
                m \<leftarrow> st1 (v_head v) (int offset) None;
                Some (1, Some x, v\<lparr>v_head := m,
                  v_count := (if x \<noteq> None then nat ((int (v_count v) - 1) mod 2 ^ 32) else v_count v)\<rparr>) })"

text \<open>The test \<open>offset < 0\<close> on an unsigned number never holds.\<close>

definition vector_remove_back :: "'a vector \<Rightarrow> (int \<times> 'a option option \<times> 'a vector) option" where
  "vector_remove_back v =
     (let offset = nat ((int (v_end v) - 1) mod 2 ^ 32) in
      do { x \<leftarrow> ld1 (v_head v) (int offset);
           m \<leftarrow> st1 (v_head v) (int offset) None;
           Some (1, Some x, v\<lparr>v_head := m,
             v_count := (if x \<noteq> None then nat ((int (v_count v) - 1) mod 2 ^ 32) else v_count v), v_end := offset\<rparr>) })"

definition vector_peek_at :: "'a vector \<Rightarrow> int \<Rightarrow> (int \<times> 'a option) option" where
  "vector_peek_at v index = do { x \<leftarrow> ld1 (v_head v) index; Some (1, x) }"

definition vector_pos_next :: "nat \<Rightarrow> nat" where
  "vector_pos_next p = (p + 1) mod 2 ^ 32"

definition vector_pos_prev :: "nat \<Rightarrow> nat" where
  "vector_pos_prev p = (if p > 1 then p - 1 else 0)"

text \<open>The elements that \<open>vector_for_each\<close> passes to its callback; a block has fewer than $2^{32}$ slots.\<close>

function for_each_from :: "'a vector \<Rightarrow> nat \<Rightarrow> 'a option list option" where
  "for_each_from v p =
     (if p = v_end v then Some []
      else if p < length (v_head v) \<and> p < 2 ^ 32 - 1
      then do { xs \<leftarrow> for_each_from v (vector_pos_next p); Some (v_head v ! p # xs) }
      else None)"
  by auto
termination
  by (relation "measure (\<lambda>(v, p). length (v_head v) - p)") (auto simp: vector_pos_next_def)

declare for_each_from.simps [simp del]

definition vector_for_each :: "'a vector \<Rightarrow> 'a option list option" where
  "vector_for_each v = for_each_from v 0"

subsection \<open>The vector as a list of slots\<close>

definition nonnull :: "'a option \<Rightarrow> bool" where
  "nonnull x \<longleftrightarrow> x \<noteq> None"

lemma nonnull_simps [simp]: "\<not> nonnull None" "nonnull (Some x)"
  by (simp_all add: nonnull_def)

definition vec_inv :: "'a vector \<Rightarrow> bool" where
  "vec_inv v \<longleftrightarrow> length (v_head v) = v_capacity v \<and> v_step v = 8 \<and> 0 < v_capacity v \<and> v_capacity v < 2 ^ 29 \<and>
     v_end v \<le> v_capacity v \<and> (\<forall>i < v_capacity v. v_end v \<le> i \<longrightarrow> v_head v ! i = None) \<and>
     v_count v = length (filter nonnull (v_head v))"

definition vec_abs :: "'a vector \<Rightarrow> 'a option list" where
  "vec_abs v = take (v_end v) (v_head v)"

lemma vec_invD:
  assumes "vec_inv v"
  shows "length (v_head v) = v_capacity v" "v_step v = 8" "0 < v_capacity v" "v_capacity v < 2 ^ 29" "v_end v \<le> v_capacity v"
    "\<And>i. v_end v \<le> i \<Longrightarrow> i < v_capacity v \<Longrightarrow> v_head v ! i = None"
    "v_count v = length (filter nonnull (v_head v))"
  using assms by (auto simp: vec_inv_def)

lemma slots_8: "n < 2 ^ 29 \<Longrightarrow> slots n 8 = n"
  by (simp add: slots_def)

lemma vec_head_split: "vec_inv v \<Longrightarrow> v_head v = vec_abs v @ replicate (v_capacity v - v_end v) None"
  by (rule nth_equalityI) (auto simp: vec_abs_def nth_append vec_inv_def)

lemma filter_replicate_None: "filter nonnull (replicate n None) = []"
  by (induction n) simp_all

lemma vec_count: "vec_inv v \<Longrightarrow> v_count v = length (filter nonnull (vec_abs v))"
  using vec_head_split [of v] vec_invD(7) [of v] by (simp add: filter_replicate_None)

lemma length_vec_abs: "vec_inv v \<Longrightarrow> length (vec_abs v) = v_end v"
  by (simp add: vec_abs_def vec_invD)

text \<open>A vector given by its list, its capacity and the unchanged fields.\<close>

lemma vec_invI:
  assumes "v_head v = xs @ replicate (n - length xs) None" "v_capacity v = n" "v_end v = length xs" "length xs \<le> n"
    "0 < n" "n < 2 ^ 29" "v_step v = 8" "v_count v = length (filter nonnull xs)"
  shows "vec_inv v" "vec_abs v = xs"
  using assms by (auto simp: vec_inv_def vec_abs_def nth_append filter_replicate_None)

lemma vector_grow_ok:
  assumes "vec_inv v" "v_capacity v < 2 ^ 28"
  shows "\<exists>v'. vector_grow True v = Some (1, v') \<and> vec_inv v' \<and> vec_abs v' = vec_abs v \<and> v_capacity v' = 2 * v_capacity v \<and>
    v_end v' = v_end v \<and> v_count v' = v_count v"
proof -
  note i = vec_invD [OF assms(1)]
  let ?c = "v_capacity v"
  have s: "slots ?c (v_step v) = ?c" "slots (2 * ?c) (v_step v) = 2 * ?c"
    using assms(2) by (simp_all add: i(2) slots_8)
  let ?v = "v\<lparr>v_head := v_head v @ replicate ?c None, v_capacity := 2 * ?c\<rparr>"
  have "vector_grow True v = Some (1, ?v)"
    using assms(2) i(1) unfolding vector_grow_def s by (simp add: ld_nat0 st_nat0)
  moreover have "v_head ?v = vec_abs v @ replicate (2 * ?c - length (vec_abs v)) None"
  proof -
    have "2 * ?c - v_end v = (?c - v_end v) + ?c" using i(5) by simp
    then show ?thesis
      using vec_head_split [OF assms(1)] by (simp add: length_vec_abs [OF assms(1)] replicate_add)
  qed
  then have "vec_inv ?v" "vec_abs ?v = vec_abs v"
    using vec_invI [of ?v "vec_abs v" "2 * ?c"] i(2,3,5) assms(2) by (simp_all add: length_vec_abs [OF assms(1)] vec_count [OF assms(1)])
  ultimately show ?thesis by auto
qed

text \<open>Growth happens when the offset is at the capacity and makes room for it.\<close>

lemma vector_room:
  assumes "vec_inv v" "v_capacity v < 2 ^ 28" "offset < 2 * v_capacity v"
  shows "\<exists>v1. (if offset \<ge> v_capacity v then vector_grow True v else Some (1, v)) = Some (1, v1) \<and> vec_inv v1 \<and>
    vec_abs v1 = vec_abs v \<and> v_end v1 = v_end v \<and> offset < v_capacity v1 \<and>
    v_capacity v1 = (if offset \<ge> v_capacity v then 2 * v_capacity v else v_capacity v)"
  using vector_grow_ok [OF assms(1,2)] assms by auto

lemma list_put_split:
  "i < length xs \<Longrightarrow> (xs @ replicate n None)[i := y] = xs[i := y] @ replicate n None"
  by (simp add: list_update_append1)

lemma filter_update_length:
  assumes "i < length xs"
  shows "length (filter P (xs[i := y])) + (if P (xs ! i) then 1 else 0) = length (filter P xs) + (if P y then 1 else 0)"
proof -
  have "xs = take i xs @ xs ! i # drop (Suc i) xs" using assms by (simp add: id_take_nth_drop)
  then have "length (filter P xs) = length (filter P (take i xs @ xs ! i # drop (Suc i) xs))" by metis
  moreover have "xs[i := y] = take i xs @ y # drop (Suc i) xs" using assms by (simp add: upd_conv_take_nth_drop)
  ultimately show ?thesis by simp
qed

text \<open>Storing an element at \<open>i\<close>, with empty slots in between when \<open>i\<close> is behind the end.\<close>

definition slot_put :: "'a option list \<Rightarrow> nat \<Rightarrow> 'a option \<Rightarrow> 'a option list" where
  "slot_put xs i y = (if i < length xs then xs[i := y] else xs @ replicate (i - length xs) None @ [y])"

lemma slot_put_pad:
  assumes "length xs \<le> n" "i < n"
  shows "(xs @ replicate (n - length xs) None)[i := y] = slot_put xs i y @ replicate (n - length (slot_put xs i y)) None"
proof (cases "i < length xs")
  case True
  then show ?thesis by (simp add: slot_put_def list_put_split)
next
  case False
  then have "n - length xs = (i - length xs) + Suc (n - Suc i)" using assms by simp
  then have "xs @ replicate (n - length xs) None = (xs @ replicate (i - length xs) None) @ None # replicate (n - Suc i) None"
    by (simp only: replicate_add replicate_Suc append_assoc)
  moreover have "length (xs @ replicate (i - length xs) None) = i" using False by simp
  ultimately show ?thesis using False by (simp add: slot_put_def list_update_append)
qed

lemma vec_upd:
  assumes "vec_inv v" "i < v_capacity v"
  shows "(v_head v)[i := y] = slot_put (vec_abs v) i y @ replicate (v_capacity v - length (slot_put (vec_abs v) i y)) None"
  using slot_put_pad [of "vec_abs v" "v_capacity v" i y] assms vec_head_split [OF assms(1)] vec_invD(5) [OF assms(1)]
  by (simp add: length_vec_abs)

lemma length_slot_put: "length (slot_put xs i y) = max (length xs) (Suc i)"
  by (auto simp: slot_put_def)

lemma count_slot_put:
  "length (filter nonnull (slot_put xs i (Some y))) =
   length (filter nonnull xs) + (if i < length xs \<and> nonnull (xs ! i) then 0 else 1)"
  using filter_update_length [of i xs nonnull "Some y"] by (auto simp: slot_put_def filter_replicate_None)

lemma vec_count_less: "vec_inv v \<Longrightarrow> v_count v < 2 ^ 29"
  using vec_count [of v] vec_invD(4,5) [of v] length_filter_le [of nonnull "vec_abs v"]
  by (simp add: length_vec_abs)

lemma vec_nth: "vec_inv v \<Longrightarrow> i < v_capacity v \<Longrightarrow> v_head v ! i = (if i < v_end v then vec_abs v ! i else None)"
  by (simp add: vec_abs_def vec_inv_def)

lemma vector_add_at_ok:
  assumes "vec_inv v" "v_capacity v < 2 ^ 28" "i < 2 * v_capacity v"
  shows "\<exists>v'. vector_add_at True v (int i) (Some x) = Some (1, v') \<and> vec_inv v' \<and> vec_abs v' = slot_put (vec_abs v) i (Some x) \<and>
    v_capacity v' = (if i \<ge> v_capacity v then 2 * v_capacity v else v_capacity v)"
proof -
  obtain v1 where v1: "(if i \<ge> v_capacity v then vector_grow True v else Some (1, v)) = Some (1, v1)" "vec_inv v1"
    "vec_abs v1 = vec_abs v" "v_end v1 = v_end v" "i < v_capacity v1"
    "v_capacity v1 = (if i \<ge> v_capacity v then 2 * v_capacity v else v_capacity v)"
    using vector_room [OF assms] by blast
  note I = vec_invD [OF v1(2)]
  have i: "nat (int i mod 2 ^ 32) = i" "(i + 1) mod 2 ^ 32 = i + 1" using assms(2,3) by simp_all
  define v' where "v' = v1\<lparr>v_head := (v_head v1)[i := Some x],
    v_count := (if v_head v1 ! i = None then v_count v1 + 1 else v_count v1), v_end := max (v_end v) (i + 1)\<rparr>"
  have "vector_add_at True v (int i) (Some x) = Some (1, v')"
    using v1(1,4,5) I(1) vec_count_less [OF v1(2)] unfolding vector_add_at_def i Let_def
    by (auto simp: v'_def ld1_nat st1_nat i(2) max_def)
  moreover have "vec_inv v' \<and> vec_abs v' = slot_put (vec_abs v) i (Some x)"
  proof -
    have c: "v_count v' = length (filter nonnull (slot_put (vec_abs v) i (Some x)))"
      using vec_count [OF v1(2)] vec_nth [OF v1(2,5)] v1(3,4) length_vec_abs [OF v1(2)]
      by (auto simp: v'_def count_slot_put nonnull_def)
    show ?thesis
      using vec_invI [of v' "slot_put (vec_abs v) i (Some x)" "v_capacity v1"] c vec_upd [OF v1(2,5)] I(2-5) v1(3-5)
        length_vec_abs [OF assms(1)]
      by (simp add: v'_def length_slot_put)
  qed
  ultimately show ?thesis using v1(6) by (auto simp: v'_def)
qed

lemma vector_add_back_ok:
  assumes "vec_inv v" "v_capacity v < 2 ^ 28"
  shows "\<exists>v'. vector_add_back True v (Some x) = Some (1, v') \<and> vec_inv v' \<and> vec_abs v' = vec_abs v @ [Some x] \<and>
    v_capacity v' = (if v_end v \<ge> v_capacity v then 2 * v_capacity v else v_capacity v)"
proof -
  note I = vec_invD [OF assms(1)]
  let ?i = "v_end v"
  obtain v1 where v1: "(if ?i \<ge> v_capacity v then vector_grow True v else Some (1, v)) = Some (1, v1)" "vec_inv v1"
    "v_end v1 = v_end v" "?i < v_capacity v1"
    using vector_room [OF assms, of ?i] I(3,5) by auto
  have "v_head v1 ! ?i = None" using vec_nth [OF v1(2,4)] v1(3) by simp
  moreover have "v_end v + 1 < 2 ^ 32" "v_count v1 + 1 < 2 ^ 32" using I(4,5) vec_count_less [OF v1(2)] by simp_all
  ultimately have "vector_add_back True v (Some x) = vector_add_at True v (int ?i) (Some x)"
    using v1 vec_invD(1) [OF v1(2)] by (simp add: vector_add_back_def vector_add_at_def ld1_nat st1_nat Let_def)
  moreover have "slot_put (vec_abs v) ?i (Some x) = vec_abs v @ [Some x]"
    by (simp add: slot_put_def length_vec_abs [OF assms(1)])
  ultimately show ?thesis using vector_add_at_ok [OF assms, of ?i x] I(3,5) by auto
qed

lemma vector_remove_ok:
  assumes "vec_inv v" "i < v_end v"
  shows "\<exists>v'. vector_remove v (int i) = Some (1, Some (vec_abs v ! i), v') \<and> vec_inv v' \<and> vec_abs v' = (vec_abs v)[i := None] \<and>
    v_capacity v' = v_capacity v"
proof -
  note I = vec_invD [OF assms(1)]
  have i: "i < v_capacity v" "nat (int i mod 2 ^ 32) = i" using assms(2) I(4,5) by simp_all
  have x: "v_head v ! i = vec_abs v ! i" using vec_nth [OF assms(1) i(1)] assms(2) by simp
  let ?xs = "(vec_abs v)[i := None]"
  have fl: "length (filter nonnull ?xs) + (if vec_abs v ! i \<noteq> None then 1 else 0) = v_count v"
    unfolding nonnull_def [symmetric] using filter_update_length [of i "vec_abs v" nonnull None] assms(2) vec_count [OF assms(1)] length_vec_abs [OF assms(1)] by simp
  define v' where "v' = v\<lparr>v_head := (v_head v)[i := None], v_count := length (filter nonnull ?xs)\<rparr>"
  have "nat ((int (v_count v) - 1) mod 2 ^ 32) = length (filter nonnull ?xs)" if "vec_abs v ! i \<noteq> None"
    using fl that vec_count_less [OF assms(1)] by auto
  then have "vector_remove v (int i) = Some (1, Some (vec_abs v ! i), v')"
    using i assms(2) x fl I(1) unfolding vector_remove_def i(2) Let_def by (auto simp: v'_def ld1_nat st1_nat)
  moreover have "vec_inv v'" "vec_abs v' = ?xs"
    using vec_invI [of v' ?xs "v_capacity v"] vec_upd [OF assms(1) i(1), of None] I(2-5) assms(2) length_vec_abs [OF assms(1)]
    by (simp_all add: v'_def slot_put_def)
  ultimately show ?thesis by (auto simp: v'_def)
qed

lemma vector_remove_back_ok:
  assumes "vec_inv v" "0 < v_end v"
  shows "\<exists>v'. vector_remove_back v = Some (1, Some (last (vec_abs v)), v') \<and> vec_inv v' \<and> vec_abs v' = butlast (vec_abs v) \<and>
    v_capacity v' = v_capacity v"
proof -
  note I = vec_invD [OF assms(1)]
  let ?i = "v_end v - 1"
  have len: "length (vec_abs v) = v_end v" by (rule length_vec_abs [OF assms(1)])
  have ne: "vec_abs v \<noteq> []" using len assms(2) by auto
  have off: "nat ((int (v_end v) - 1) mod 2 ^ 32) = ?i" "nat (int ?i mod 2 ^ 32) = ?i" using I(4,5) assms(2) by simp_all
  obtain v1 where v1: "vector_remove v (int ?i) = Some (1, Some (vec_abs v ! ?i), v1)" "vec_inv v1" "vec_abs v1 = (vec_abs v)[?i := None]"
    "v_capacity v1 = v_capacity v"
    using vector_remove_ok [OF assms(1), of ?i] assms(2) by auto
  have end1: "v_end v1 = v_end v" using length_vec_abs [OF v1(2)] v1(3) len by simp
  have last: "last (vec_abs v) = vec_abs v ! ?i" using last_conv_nth [OF ne] len by simp
  have xs: "(vec_abs v)[?i := None] = butlast (vec_abs v) @ [None]"
    using append_butlast_last_id [OF ne] list_update_length [of "butlast (vec_abs v)" "last (vec_abs v)" "[]" None] len by simp
  define v' where "v' = v1\<lparr>v_end := ?i\<rparr>"
  have "vector_remove_back v = Some (1, Some (last (vec_abs v)), v')"
    using v1(1) I(1) assms(2) unfolding vector_remove_back_def vector_remove_def off Let_def last v'_def
    by (auto simp: bind_eq_Some_conv split: if_splits)
  moreover have "v_head v1 = butlast (vec_abs v) @ replicate (v_capacity v - ?i) None"
  proof -
    have "v_capacity v - ?i = Suc (v_capacity v - v_end v)" using assms(2) I(5) by simp
    then show ?thesis using vec_head_split [OF v1(2)] v1(3,4) end1 xs by simp
  qed
  then have "vec_inv v'" "vec_abs v' = butlast (vec_abs v)"
    using vec_invI [of v' "butlast (vec_abs v)" "v_capacity v"] vec_invD(2-4) [OF v1(2)] v1(3,4) len xs vec_count [OF v1(2)] I(5)
    by (simp_all add: v'_def)
  ultimately show ?thesis using v1(4) by (auto simp: v'_def)
qed

subsection \<open>Growing arrays as an interface\<close>

datatype 'a vec_op = Push 'a | Put nat 'a | Take nat | Pop

fun spec_step :: "'a option list \<Rightarrow> 'a vec_op \<Rightarrow> 'a option list \<times> 'a option" where
  "spec_step xs (Push x) = (xs @ [Some x], None)"
| "spec_step xs (Put i x) = (slot_put xs i (Some x), None)"
| "spec_step xs (Take i) = (xs[i := None], xs ! i)"
| "spec_step xs Pop = (butlast xs, last xs)"

fun legal :: "'a option list \<Rightarrow> 'a vec_op \<Rightarrow> bool" where
  "legal xs (Push x) = True"
| "legal xs (Put i x) = (i \<le> length xs)"
| "legal xs (Take i) = (i < length xs)"
| "legal xs Pop = (xs \<noteq> [])"

fun spec_run :: "'a option list \<Rightarrow> 'a vec_op list \<Rightarrow> ('a option list \<times> 'a option list) option" where
  "spec_run xs [] = Some (xs, [])"
| "spec_run xs (p # ps) =
     (if legal xs p
      then do { (ys, outs) \<leftarrow> spec_run (fst (spec_step xs p)) ps; Some (ys, snd (spec_step xs p) # outs) }
      else None)"

fun run_ops :: "('s \<Rightarrow> 'a vec_op \<Rightarrow> ('s \<times> 'a option) option) \<Rightarrow> 's \<Rightarrow> 'a vec_op list \<Rightarrow> ('s \<times> 'a option list) option" where
  "run_ops step s [] = Some (s, [])"
| "run_ops step s (p # ps) = do { (s', x) \<leftarrow> step s p; (s'', xs) \<leftarrow> run_ops step s' ps; Some (s'', x # xs) }"

lemma length_spec_step: "legal xs p \<Longrightarrow> length (fst (spec_step xs p)) \<le> Suc (length xs)"
  by (cases p) (auto simp: length_slot_put)

locale growing_array =
  fixes step :: "'s \<Rightarrow> 'a vec_op \<Rightarrow> ('s \<times> 'a option) option" and inv :: "'s \<Rightarrow> bool" and abs :: "'s \<Rightarrow> 'a option list"
    and cap :: "'s \<Rightarrow> nat" and limit :: nat
  assumes step_law: "inv s \<Longrightarrow> cap s \<le> limit \<Longrightarrow> legal (abs s) p \<Longrightarrow>
    \<exists>s'. step s p = Some (s', snd (spec_step (abs s) p)) \<and> inv s' \<and> abs s' = fst (spec_step (abs s) p) \<and>
      cap s' \<le> max (cap s) (2 * length (abs s))"
begin

lemma run_law:
  assumes "inv s" "cap s \<le> limit" "2 * (length (abs s) + length ps) \<le> limit" "spec_run (abs s) ps = Some (ys, outs)"
  shows "\<exists>s'. run_ops step s ps = Some (s', outs) \<and> inv s' \<and> abs s' = ys"
  using assms
proof (induction ps arbitrary: s outs)
  case (Cons p ps)
  then have legal: "legal (abs s) p" by (auto split: if_splits)
  then obtain outs' where o: "spec_run (fst (spec_step (abs s) p)) ps = Some (ys, outs')" "outs = snd (spec_step (abs s) p) # outs'"
    using Cons.prems(4) by (auto simp: bind_eq_Some_conv)
  obtain s' where s': "step s p = Some (s', snd (spec_step (abs s) p))" "inv s'" "abs s' = fst (spec_step (abs s) p)"
    "cap s' \<le> max (cap s) (2 * length (abs s))"
    using step_law [OF Cons.prems(1,2) legal] by blast
  have "\<exists>s''. run_ops step s' ps = Some (s'', outs') \<and> inv s'' \<and> abs s'' = ys"
    using Cons.IH [of s' outs'] s' o(1) length_spec_step [OF legal] Cons.prems(2,3) by simp
  then show ?case using s'(1) o(2) by auto
qed simp

end

text \<open>One operation of the vector; the allocations succeed.\<close>

fun vec_step :: "'a vector \<Rightarrow> 'a vec_op \<Rightarrow> ('a vector \<times> 'a option) option" where
  "vec_step v (Push x) = do { (r, v') \<leftarrow> vector_add_back True v (Some x); Some (v', None) }"
| "vec_step v (Put i x) = do { (r, v') \<leftarrow> vector_add_at True v (int i) (Some x); Some (v', None) }"
| "vec_step v (Take i) = do { (r, e, v') \<leftarrow> vector_remove v (int i); x \<leftarrow> e; Some (v', x) }"
| "vec_step v Pop = do { (r, e, v') \<leftarrow> vector_remove_back v; x \<leftarrow> e; Some (v', x) }"

lemma vec_step_law:
  assumes "vec_inv v" "v_capacity v \<le> 2 ^ 28 - 1" "legal (vec_abs v) p"
  shows "\<exists>v'. vec_step v p = Some (v', snd (spec_step (vec_abs v) p)) \<and> vec_inv v' \<and> vec_abs v' = fst (spec_step (vec_abs v) p) \<and>
    v_capacity v' \<le> max (v_capacity v) (2 * length (vec_abs v))"
proof -
  have cap: "v_capacity v < 2 ^ 28" and len: "length (vec_abs v) = v_end v" "v_end v \<le> v_capacity v" "0 < v_capacity v"
    using assms vec_invD [OF assms(1)] length_vec_abs [OF assms(1)] by simp_all
  show ?thesis
  proof (cases p)
    case (Push x)
    then show ?thesis using vector_add_back_ok [OF assms(1) cap, of x] len by fastforce
  next
    case (Put i x)
    then show ?thesis using vector_add_at_ok [OF assms(1) cap, of i x] assms(3) len by fastforce
  next
    case (Take i)
    then show ?thesis using vector_remove_ok [OF assms(1), of i] assms(3) len by fastforce
  next
    case Pop
    then have "0 < v_end v" using assms(3) len(1) by (cases "vec_abs v") auto
    then show ?thesis using Pop vector_remove_back_ok [OF assms(1)] by fastforce
  qed
qed

interpretation vec: growing_array vec_step vec_inv vec_abs v_capacity "2 ^ 28 - 1"
  by unfold_locales (rule vec_step_law)

lemma for_each_from_ok: "vec_inv v \<Longrightarrow> p \<le> v_end v \<Longrightarrow> for_each_from v p = Some (drop p (vec_abs v))"
proof (induction "v_end v - p" arbitrary: p)
  case 0
  then show ?case by (subst for_each_from.simps) (simp add: length_vec_abs)
next
  case (Suc n)
  note I = vec_invD [OF Suc.prems(1)]
  have p: "p < v_end v" "vector_pos_next p = Suc p" "p < length (v_head v)" "p < 2 ^ 32 - 1"
    using Suc.hyps(2) Suc.prems(2) I(1,4,5) by (simp_all add: vector_pos_next_def)
  moreover have "drop p (vec_abs v) = v_head v ! p # drop (Suc p) (vec_abs v)"
    using p(1) length_vec_abs [OF Suc.prems(1)] by (simp add: Cons_nth_drop_Suc [symmetric] vec_abs_def)
  ultimately show ?case using Suc.hyps by (subst for_each_from.simps) (simp add: Suc.prems(1))
qed

subsection \<open>Copies are memmove\<close>

lemma uint_of_nat_u32: "n < 2 ^ 32 \<Longrightarrow> uint (of_nat n :: u32) = int n"
  by (simp add: unsigned_of_nat take_bit_nat_eq_self)

lemma of_nat_pos_u32: "n < 2 ^ 32 \<Longrightarrow> (0 < (of_nat n :: u32)) = (0 < n)"
  by (simp add: word_less_nat_alt unsigned_of_nat take_bit_nat_eq_self)

text \<open>Which number of slots one pass of the loop copies when \<open>k + 1\<close> groups of \<open>d\<close> are left.\<close>

lemma copy_group:
  assumes "0 < d" "(k + 1) * d < 2 ^ 32"
  shows "(if of_nat ((k + 1) * d) - of_nat d > (0 :: u32) then of_nat d else of_nat ((k + 1) * d)) = (of_nat d :: u32)"
proof -
  have "of_nat ((k + 1) * d) - of_nat d = (of_nat (k * d) :: u32)" by simp
  moreover have "k * d < 2 ^ 32" using assms(2) by simp
  ultimately show ?thesis using of_nat_pos_u32 [of "k * d"] by (cases k) (use assms(1) in auto)
qed

lemma splice_nth:
  assumes "t + n \<le> length m" "f + n \<le> length m"
  shows "\<exists>m'. do { xs \<leftarrow> ld m (int f) (int n); st m (int t) xs } = Some m' \<and> length m' = length m \<and>
    (\<forall>p < length m. m' ! p = (if t \<le> p \<and> p < t + n then m ! (f + (p - t)) else m ! p))"
proof -
  have "ld m (int f) (int n) = Some (take n (drop f m))" using assms(2) by (rule ld_nat)
  moreover have "st m (int t) (take n (drop f m)) = Some (take t m @ take n (drop f m) @ drop (t + n) m)"
    using st_nat [of t "take n (drop f m)" m] assms by simp
  moreover have "(take t m @ take n (drop f m) @ drop (t + n) m) ! p = (if t \<le> p \<and> p < t + n then m ! (f + (p - t)) else m ! p)" if "p < length m" for p
    using nth_splice [of p m t "take n (drop f m)"] that assms by auto
  ultimately show ?thesis using assms by simp
qed

lemma copy_forward_loop_ok:
  assumes "0 < d" "t + d + k * d \<le> length m" "length m < 2 ^ 32"
  shows "\<exists>m'. copy_forward_loop m (of_nat t) (of_nat (t + d)) (of_nat (k * d)) (of_nat d) = Some m' \<and> length m' = length m \<and>
    (\<forall>p < length m. m' ! p = (if t \<le> p \<and> p < t + k * d then m ! (p + d) else m ! p))"
  using assms(2,3)
proof (induction k arbitrary: m t)
  case 0
  then show ?case by (subst copy_forward_loop.simps) auto
next
  case (Suc k)
  have lim: "(k + 1) * d < 2 ^ 32" "t + d < 2 ^ 32" "d < 2 ^ 32" "t < 2 ^ 32" using Suc.prems assms(1) by auto
  obtain m1 where m1: "do { xs \<leftarrow> ld m (int (t + d)) (int d); st m (int t) xs } = Some m1" "length m1 = length m"
    "\<forall>p < length m. m1 ! p = (if t \<le> p \<and> p < t + d then m ! (t + d + (p - t)) else m ! p)"
    using splice_nth [of t d m "t + d"] Suc.prems by auto
  obtain m2 where m2: "copy_forward_loop m1 (of_nat (t + d)) (of_nat (t + d + d)) (of_nat (k * d)) (of_nat d) = Some m2" "length m2 = length m"
    "\<forall>p < length m. m2 ! p = (if t + d \<le> p \<and> p < t + d + k * d then m1 ! (p + d) else m1 ! p)"
    using Suc.IH [of "t + d" m1] Suc.prems m1(2) by auto
  have pos: "(0 :: u32) < of_nat (Suc k * d)" using of_nat_pos_u32 [of "Suc k * d"] lim(1) assms(1) by simp
  have sub: "of_nat t + of_nat d = (of_nat (t + d) :: u32)" "of_nat (t + d) + of_nat d = (of_nat (t + d + d) :: u32)"
    "of_nat (Suc k * d) - of_nat d = (of_nat (k * d) :: u32)" by simp_all
  have np: "(if of_nat (k * d) > (0 :: u32) then of_nat d else of_nat (Suc k * d)) = (of_nat d :: u32)"
    using copy_group [OF assms(1) lim(1)] unfolding Suc_eq_plus1 [symmetric] sub .
  have "copy_forward_loop m (of_nat t) (of_nat (t + d)) (of_nat (Suc k * d)) (of_nat d) = Some m2"
    using m1(1) m2(1) pos lim(2-4)
    by (subst copy_forward_loop.simps, unfold Let_def np sub) (auto simp: uint_of_nat_u32 bind_eq_Some_conv simp del: of_nat_add of_nat_mult)
  moreover have "m2 ! p = (if t \<le> p \<and> p < t + Suc k * d then m ! (p + d) else m ! p)" if "p < length m" for p
    using m2(3) m1(3) that Suc.prems(1) by (auto simp: algebra_simps)
  ultimately show ?case using m2(2) by blast
qed

lemma copy_backward_loop_ok:
  assumes "0 < d" "f + d + k * d \<le> length m" "length m < 2 ^ 32"
  shows "\<exists>m'. copy_backward_loop m (of_nat (f + d + k * d)) (of_nat (f + k * d)) (of_nat (k * d)) (of_nat d) = Some m' \<and> length m' = length m \<and>
    (\<forall>p < length m. m' ! p = (if f + d \<le> p \<and> p < f + d + k * d then m ! (p - d) else m ! p))"
  using assms(2,3)
proof (induction k arbitrary: m)
  case 0
  then show ?case by (subst copy_backward_loop.simps) auto
next
  case (Suc k)
  let ?f = "f + k * d" and ?t = "f + d + k * d"
  have lim: "(k + 1) * d < 2 ^ 32" "?t < 2 ^ 32" "d < 2 ^ 32" "?f < 2 ^ 32" "k * d < 2 ^ 32" using Suc.prems assms(1) by auto
  obtain m1 where m1: "do { xs \<leftarrow> ld m (int ?f) (int d); st m (int ?t) xs } = Some m1" "length m1 = length m"
    "\<forall>p < length m. m1 ! p = (if ?t \<le> p \<and> p < ?t + d then m ! (?f + (p - ?t)) else m ! p)"
    using splice_nth [of ?t d m ?f] Suc.prems by auto
  obtain m2 where m2: "copy_backward_loop m1 (of_nat ?t) (of_nat ?f) (of_nat (k * d)) (of_nat d) = Some m2" "length m2 = length m"
    "\<forall>p < length m. m2 ! p = (if f + d \<le> p \<and> p < ?t then m1 ! (p - d) else m1 ! p)"
    using Suc.IH [of m1] Suc.prems m1(2) by auto
  have pos: "(0 :: u32) < of_nat (Suc k * d)" using of_nat_pos_u32 [of "Suc k * d"] lim(1) assms(1) by simp
  have np: "(if of_nat (k * d) - of_nat d > (0 :: u32) then of_nat d else of_nat (k * d)) = (of_nat d :: u32)"
  proof (cases k)
    case 0
    have "of_nat d \<noteq> (0 :: u32)" using of_nat_pos_u32 [OF lim(3)] assms(1) by simp
    then show ?thesis using 0 by (simp add: word_gt_0)
  next
    case (Suc j)
    then show ?thesis using copy_group [OF assms(1), of j] lim(5) by (simp only: Suc_eq_plus1)
  qed
  have sub: "of_nat (f + d + Suc k * d) - of_nat d = (of_nat ?t :: u32)" "of_nat (f + Suc k * d) - of_nat d = (of_nat ?f :: u32)"
    "of_nat (Suc k * d) - of_nat d = (of_nat (k * d) :: u32)" by simp_all
  have "copy_backward_loop m (of_nat (f + d + Suc k * d)) (of_nat (f + Suc k * d)) (of_nat (Suc k * d)) (of_nat d) = Some m2"
    using m1(1) m2(1) pos lim(2-4)
    by (subst copy_backward_loop.simps, unfold Let_def sub np) (auto simp: uint_of_nat_u32 bind_eq_Some_conv simp del: of_nat_add of_nat_mult)
  moreover have "m2 ! p = (if f + d \<le> p \<and> p < f + d + Suc k * d then m ! (p - d) else m ! p)" if "p < length m" for p
    using m2(3) m1(3) that Suc.prems(1) by (auto simp: algebra_simps)
  ultimately show ?case using m2(2) by blast
qed

subsection \<open>Properties\<close>

lemma vector_init_inv:
  assumes "0 < c" "c < 2 ^ 29" "vector_init True v0 ds c = Some (r, v)"
  shows "vec_inv v" "vec_abs v = []" "v_capacity v = c"
  using assms vec_invI [of v "[]" c] by (auto simp: vector_init_def slots_8)

text \<open>C38.
  A vector of positive capacity on which any sequence of additions at the end, additions at an index up to the end, removals
  by index and removals at the end is run is the list of slots that the sequence describes: every call
  stays in the block also when it grows, the removed elements are returned, the traversal visits
  the slots in order, and \<open>count\<close> is the number of slots that are not \<open>NULL\<close>.\<close>
theorem vector_history:
  assumes "0 < c" "c < 2 ^ 28" "2 * length ps < 2 ^ 28" "spec_run [] ps = Some (xs, outs)"
    and "vector_init True v0 ds c = Some (r, v)"
  shows "\<exists>v'. run_ops vec_step v ps = Some (v', outs) \<and> vector_for_each v' = Some xs \<and>
    (\<forall>i < length xs. vector_peek_at v' (int i) = Some (1, xs ! i)) \<and> v_count v' = length (filter nonnull xs)"
proof -
  have v: "vec_inv v" "vec_abs v = []" "v_capacity v = c" using vector_init_inv [OF assms(1) _ assms(5)] assms(2) by simp_all
  obtain v' where v': "run_ops vec_step v ps = Some (v', outs)" "vec_inv v'" "vec_abs v' = xs"
    using vec.run_law [of v ps xs outs] v assms(2-4) by auto
  have "vector_peek_at v' (int i) = Some (1, xs ! i)" if "i < length xs" for i
    using that v'(2,3) length_vec_abs [OF v'(2)] vec_invD(1,5) [OF v'(2)] vec_nth [OF v'(2), of i]
    by (auto simp: vector_peek_at_def ld1_nat)
  then show ?thesis
    using v' for_each_from_ok [OF v'(2), of 0] vec_count [OF v'(2)] by (auto simp: vector_for_each_def)
qed

definition empty_vector :: "int vector" where
  "empty_vector = \<lparr>v_head = [], v_step = 0, v_data_size = 0, v_capacity = 0, v_count = 0, v_end = 0\<rparr>"

theorem vector_history_witness:
  "\<exists>v r v'. vector_init True empty_vector 8 1 = Some (r, v) \<and>
     run_ops vec_step v [Push 5, Push 6, Put 2 7, Take 0, Pop] = Some (v', [None, None, None, Some 5, Some 7]) \<and>
     vector_for_each v' = Some [None, Some 6] \<and> v_count v' = 1"
proof -
  obtain r v where v: "vector_init True empty_vector 8 1 = Some (r, v)" by (simp add: vector_init_def)
  have "spec_run [] [Push 5, Push 6, Put 2 7, Take 0, Pop] = Some ([None, Some 6], [None, None, None, Some 5, Some (7 :: int)])"
    by (simp add: slot_put_def)
  from vector_history [OF _ _ _ this v] v show ?thesis by fastforce
qed

text \<open>
  \<open>vector_copy\<close> moves \<open>count\<close> slots as \<open>memmove\<close> does, forward and backward and over the overlap, when the
  distance of the two positions divides \<open>count\<close>.\<close>
theorem vector_copy_moves:
  fixes v :: "'a vector"
  assumes "t \<noteq> f" "nat \<bar>int t - int f\<bar> dvd count" "t + count \<le> length (v_head v)" "f + count \<le> length (v_head v)"
    and "length (v_head v) < 2 ^ 32"
  shows "\<exists>m. vector_copy v (of_nat t) (of_nat f) (of_nat count) = Some (v\<lparr>v_head := m\<rparr>) \<and> length m = length (v_head v) \<and>
    (\<forall>p < length m. m ! p = (if t \<le> p \<and> p < t + count then v_head v ! (f + (p - t)) else v_head v ! p))"
proof -
  have lim: "t < 2 ^ 32" "f < 2 ^ 32" using assms(3-5) by auto
  have lt: "(of_nat t < (of_nat f :: u32)) = (t < f)"
    using lim by (simp add: word_less_nat_alt unsigned_of_nat take_bit_nat_eq_self)
  show ?thesis
  proof (cases "t < f")
    case True
    then obtain d where d: "0 < d" "f = t + d" by (metis less_imp_add_positive)
    then obtain k where k: "count = k * d" using assms(2) by (auto elim!: dvdE simp: mult.commute)
    obtain m where "copy_forward_loop (v_head v) (of_nat t) (of_nat (t + d)) (of_nat (k * d)) (of_nat d) = Some m"
      "length m = length (v_head v)" "\<forall>p < length (v_head v). m ! p = (if t \<le> p \<and> p < t + k * d then v_head v ! (p + d) else v_head v ! p)"
      using copy_forward_loop_ok [of d t k "v_head v"] d assms(4,5) k by auto
    moreover have "of_nat f - of_nat t = (of_nat d :: u32)" using d by simp
    ultimately show ?thesis using True lt unfolding vector_copy_def vector_copy_forward_def k d(2)
      by (auto simp: d(2) algebra_simps)
  next
    case False
    then obtain d where d: "0 < d" "t = f + d" using assms(1) by (metis less_imp_add_positive linorder_neqE_nat)
    then obtain k where k: "count = k * d" using assms(2) by (auto elim!: dvdE simp: mult.commute)
    obtain m where "copy_backward_loop (v_head v) (of_nat (f + d + k * d)) (of_nat (f + k * d)) (of_nat (k * d)) (of_nat d) = Some m"
      "length m = length (v_head v)" "\<forall>p < length (v_head v). m ! p = (if f + d \<le> p \<and> p < f + d + k * d then v_head v ! (p - d) else v_head v ! p)"
      using copy_backward_loop_ok [of d f k "v_head v"] d assms(3,5) k by auto
    moreover have "of_nat t + of_nat count - (of_nat f + of_nat count) = (of_nat d :: u32)" using d by simp
    ultimately show ?thesis using False lt unfolding vector_copy_def vector_copy_backward_def k d(2)
      by (auto simp: d(2) algebra_simps)
  qed
qed

definition three_slots :: "int vector" where
  "three_slots = empty_vector\<lparr>v_head := [Some 1, Some 2, Some 3], v_capacity := 3, v_count := 3, v_end := 3\<rparr>"

theorem vector_copy_moves_witness:
  "\<exists>m. vector_copy three_slots (of_nat 0) (of_nat 1) (of_nat 2) = Some (three_slots\<lparr>v_head := m\<rparr>) \<and> m ! 0 = Some 2"
proof -
  have h: "v_head three_slots = [Some 1, Some 2, Some 3]" by (simp add: three_slots_def)
  show ?thesis using vector_copy_moves [of 0 1 2 three_slots] unfolding h by auto
qed

text \<open>Calls that leave the block: \<open>vector_remove_back\<close> on an empty vector (its test for a negative offset is on an
  unsigned number), \<open>vector_remove\<close> at the end of a full vector (the index may equal the end), and \<open>vector_add_at\<close> at twice
  the capacity or behind it (the block is doubled once only).\<close>
theorem vector_out_of_bounds:
  assumes "vec_inv v"
  shows "(v_end v = 0 \<longrightarrow> vector_remove_back v = None) \<and>
    (v_end v = v_capacity v \<longrightarrow> vector_remove v (int (v_end v)) = None) \<and>
    (v_capacity v < 2 ^ 28 \<longrightarrow> 2 * v_capacity v \<le> i \<longrightarrow> i < 2 ^ 31 \<longrightarrow> vector_add_at True v (int i) x = None)"
proof (intro conjI impI)
  note I = vec_invD [OF assms]
  show "vector_remove_back v = None" if "v_end v = 0"
    using that I(1,4) by (simp add: vector_remove_back_def ld1_nat Let_def)
  show "vector_remove v (int (v_end v)) = None" if "v_end v = v_capacity v"
    using that I(1,4) by (simp add: vector_remove_def ld1_nat Let_def)
  show "vector_add_at True v (int i) x = None" if h: "v_capacity v < 2 ^ 28" "2 * v_capacity v \<le> i" "i < 2 ^ 31"
  proof -
    obtain v1 where "vector_grow True v = Some (1, v1)" "vec_inv v1" "v_capacity v1 = 2 * v_capacity v"
      using vector_grow_ok [OF assms h(1)] by blast
    then show ?thesis
      using h I(3) vec_invD(1) [of v1] by (simp add: vector_add_at_def ld1_nat Let_def)
  qed
qed

theorem vector_out_of_bounds_witness:
  "vector_remove_back \<lparr>v_head = [None], v_step = 8, v_data_size = 0, v_capacity = 1, v_count = 0, v_end = 0\<rparr> = None"
  using vector_out_of_bounds [of "\<lparr>v_head = [None], v_step = 8, v_data_size = 0, v_capacity = 1, v_count = 0, v_end = 0\<rparr>" 0 None]
  by (simp add: vec_inv_def)

end
