(* ===== verification/ArrayStack.thy ===== *)
theory ArrayStack
  imports Prelude
begin

text \<open>
  The stack of \<open>core/utils/data_structure/array_stack/array_stack.c\<close>: a block of \<open>size\<close> bytes at \<open>top\<close> in which entries of
  \<open>step\<close> bytes hold a pointer each.  The pointer \<open>cur\<close> is its offset from \<open>top\<close>, a pointer value is a 64-bit word
  stored in eight bytes, and \<open>fill\<close> is what a fresh block contains.
\<close>

record array_stack =
  as_step :: u8
  as_cur :: nat
  as_size :: nat
  as_top :: bytes
  as_count :: int

subsection \<open>Pointers in memory\<close>

definition ptr_bytes :: "u64 \<Rightarrow> bytes" where
  "ptr_bytes w = map (\<lambda>k. ucast (drop_bit (8 * k) w)) [0..<8]"

definition bytes_ptr :: "bytes \<Rightarrow> u64" where
  "bytes_ptr bs = foldr (\<lambda>b acc. push_bit 8 acc OR ucast b) bs 0"

subsection \<open>Operations\<close>

definition array_stack_alloc :: "bool \<Rightarrow> array_stack option" where
  "array_stack_alloc ok = (if ok then Some \<lparr>as_step = 0, as_cur = 0, as_size = 0, as_top = [], as_count = 0\<rparr> else None)"

definition array_stack_init :: "bool \<Rightarrow> (nat \<Rightarrow> u8) \<Rightarrow> array_stack \<Rightarrow> int \<times> array_stack" where
  "array_stack_init ok fill as =
     (let sz = (if as_size as = 0 then 100 else as_size as);
          stp = (if as_step as = 0 then 8 else as_step as);
          as1 = as\<lparr>as_size := sz, as_step := stp\<rparr> in
      if ok then (0, as1\<lparr>as_top := map fill [0..<sz], as_cur := 0, as_count := 0\<rparr>)
      else (-1, as1\<lparr>as_top := []\<rparr>))"

definition array_stack_push :: "array_stack \<Rightarrow> u64 \<Rightarrow> (int \<times> array_stack) option" where
  "array_stack_push as data =
     (let stp = unat (as_step as) in
      if as_cur as + stp < as_size as then
        do { m1 \<leftarrow> st (as_top as) (int (as_cur as)) (replicate stp 0);
             m2 \<leftarrow> st m1 (int (as_cur as)) (ptr_bytes data);
             Some (0, as\<lparr>as_top := m2, as_cur := as_cur as + stp, as_count := as_count as + 1\<rparr>) }
      else Some (-1, as))"

text \<open>The result \<open>None\<close> in the middle means that \<open>*out\<close> is not written.\<close>

definition array_stack_pop :: "array_stack \<Rightarrow> (int \<times> u64 option \<times> array_stack) option" where
  "array_stack_pop as =
     (if as_cur as > 0 then
        do { bs \<leftarrow> ld (as_top as) (int (as_cur as) - uint (as_step as)) 8;
             Some (0, Some (bytes_ptr bs), as\<lparr>as_cur := as_cur as - unat (as_step as), as_count := as_count as - 1\<rparr>) }
      else Some (-1, None, as))"

definition array_stack_destroy :: "array_stack \<Rightarrow> int" where
  "array_stack_destroy as = 0"

subsection \<open>The stack of pointers\<close>

lemma bytes_ptr_upt:
  "bytes_ptr (map (\<lambda>k. ucast (drop_bit (8 * k) w)) [i..<i + n]) = take_bit (8 * n) (drop_bit (8 * i) w)"
proof (induction n arbitrary: i)
  case 0
  then show ?case by (simp add: bytes_ptr_def)
next
  case (Suc n)
  have "[i..<i + Suc n] = i # [Suc i..<Suc i + n]" by (simp add: upt_rec)
  then have "bytes_ptr (map (\<lambda>k. ucast (drop_bit (8 * k) w)) [i..<i + Suc n]) =
    push_bit 8 (take_bit (8 * n) (drop_bit (8 * Suc i) w)) OR ucast (ucast (drop_bit (8 * i) w) :: u8)"
    using Suc.IH [of "Suc i"] by (simp add: bytes_ptr_def)
  also have "\<dots> = take_bit (8 * Suc n) (drop_bit (8 * i) w)"
  proof (rule bit_word_eqI)
    fix m assume "m < LENGTH(64)"
    moreover have "8 * Suc i + (m - 8) = 8 * i + m" "m - 8 < 8 * n \<longleftrightarrow> m < 8 * Suc n" if "8 \<le> m" using that by auto
    ultimately show "bit (push_bit 8 (take_bit (8 * n) (drop_bit (8 * Suc i) w)) OR ucast (ucast (drop_bit (8 * i) w) :: u8)) m =
      bit (take_bit (8 * Suc n) (drop_bit (8 * i) w)) m"
      by (cases "8 \<le> m") (auto simp: bit_simps)
  qed
  finally show ?case .
qed

lemma bytes_ptr_bytes: "bytes_ptr (ptr_bytes w) = w"
proof -
  have "bytes_ptr (ptr_bytes w) = take_bit LENGTH(64) w"
    using bytes_ptr_upt [of w 0 8] by (simp add: ptr_bytes_def)
  then show ?thesis by (simp only: take_bit_length_eq)
qed

lemma length_ptr_bytes [simp]: "length (ptr_bytes w) = 8"
  by (simp add: ptr_bytes_def)

text \<open>The entries, the last one pushed first, and how many of them fit.\<close>

definition as_rep :: "array_stack \<Rightarrow> u64 list \<Rightarrow> bool" where
  "as_rep as xs \<longleftrightarrow> length (as_top as) = as_size as \<and> 0 < as_size as \<and> 8 \<le> unat (as_step as) \<and>
     as_cur as = length xs * unat (as_step as) \<and> as_cur as < as_size as \<and> as_count as = int (length xs) \<and>
     (\<forall>k < length xs. take 8 (drop (k * unat (as_step as)) (as_top as)) = ptr_bytes (rev xs ! k))"

definition as_room :: "array_stack \<Rightarrow> nat" where
  "as_room as = (as_size as - 1) div unat (as_step as)"

lemma as_room_iff:
  assumes "as_rep as xs"
  shows "length xs < as_room as \<longleftrightarrow> as_cur as + unat (as_step as) < as_size as"
proof -
  have "Suc (length xs) \<le> (as_size as - 1) div unat (as_step as) \<longleftrightarrow> Suc (length xs) * unat (as_step as) \<le> as_size as - 1"
    using assms by (intro less_eq_div_iff_mult_less_eq) (auto simp: as_rep_def)
  then show ?thesis using assms by (auto simp: as_rep_def as_room_def Suc_le_eq)
qed

lemma take_drop_splice:
  assumes "a + n \<le> p" "p + length ys \<le> length m"
  shows "take n (drop a (take p m @ ys @ drop (p + length ys) m)) = take n (drop a m)"
  by (rule nth_equalityI) (use assms in \<open>auto simp: nth_append\<close>)

lemma array_stack_push_ok:
  assumes "as_rep as xs" "length xs < as_room as"
  shows "\<exists>as'. array_stack_push as x = Some (0, as') \<and> as_rep as' (x # xs) \<and> as_room as' = as_room as"
proof -
  let ?s = "unat (as_step as)" and ?c = "as_cur as"
  have fit: "?c + ?s < as_size as" using as_room_iff [OF assms(1)] assms(2) by simp
  note r = assms(1) [unfolded as_rep_def]
  define m1 where "m1 = take ?c (as_top as) @ replicate ?s 0 @ drop (?c + ?s) (as_top as)"
  define m2 where "m2 = take ?c m1 @ ptr_bytes x @ drop (?c + 8) m1"
  have len: "length m1 = as_size as" "length m2 = as_size as" using r fit by (auto simp: m1_def m2_def)
  have s1: "st (as_top as) (int ?c) (replicate ?s 0) = Some m1"
    using st_nat [of ?c "replicate ?s 0" "as_top as"] r fit by (simp add: m1_def)
  have s2: "st m1 (int ?c) (ptr_bytes x) = Some m2"
    using st_nat [of ?c "ptr_bytes x" m1] r fit len by (simp add: m2_def)
  define as' where "as' = as\<lparr>as_top := m2, as_cur := ?c + ?s, as_count := as_count as + 1\<rparr>"
  have "array_stack_push as x = Some (0, as')"
    using fit s1 s2 by (simp add: array_stack_push_def as'_def)
  moreover have "take 8 (drop (k * ?s) m2) = ptr_bytes (rev (x # xs) ! k)" if "k < Suc (length xs)" for k
  proof (cases "k = length xs")
    case True
    then have "k * ?s = ?c" using r by simp
    then show ?thesis using True r fit len by (simp add: m2_def nth_append)
  next
    case False
    then have k: "k < length xs" using that by simp
    have "(k + 1) * ?s \<le> length xs * ?s" using k by (intro mult_le_mono1) simp
    then have "k * ?s + 8 \<le> ?c" using r by simp
    then have "take 8 (drop (k * ?s) m2) = take 8 (drop (k * ?s) m1)" "take 8 (drop (k * ?s) m1) = take 8 (drop (k * ?s) (as_top as))"
      using take_drop_splice [of "k * ?s" 8 ?c "ptr_bytes x" m1] take_drop_splice [of "k * ?s" 8 ?c "replicate ?s 0" "as_top as"] r fit len
      unfolding m2_def by (simp, simp add: m1_def)
    then show ?thesis using r k by (simp add: nth_append)
  qed
  then have "as_rep as' (x # xs)" using r fit len by (simp add: as_rep_def as'_def)
  ultimately show ?thesis by (auto simp: as'_def as_room_def)
qed

lemma array_stack_pop_ok:
  assumes "as_rep as (x # xs)"
  shows "\<exists>as'. array_stack_pop as = Some (0, Some x, as') \<and> as_rep as' xs \<and> as_room as' = as_room as"
proof -
  let ?s = "unat (as_step as)"
  note r = assms [unfolded as_rep_def]
  have c: "as_cur as = length xs * ?s + ?s" "0 < as_cur as" using r by (auto simp: algebra_simps)
  have "int (as_cur as) - uint (as_step as) = int (length xs * ?s)" using c(1) by simp
  moreover have "ld (as_top as) (int (length xs * ?s)) (int 8) = Some (take 8 (drop (length xs * ?s) (as_top as)))"
    by (rule ld_nat) (use r c in simp)
  moreover have "take 8 (drop (length xs * ?s) (as_top as)) = ptr_bytes x" using r by (auto simp: nth_append)
  ultimately have "array_stack_pop as = Some (0, Some x, as\<lparr>as_cur := length xs * ?s, as_count := as_count as - 1\<rparr>)"
    using c by (simp add: array_stack_pop_def bytes_ptr_bytes)
  moreover have "as_rep (as\<lparr>as_cur := length xs * ?s, as_count := as_count as - 1\<rparr>) xs"
    using r c by (auto simp: as_rep_def nth_append less_SucI)
  ultimately show ?thesis by (auto simp: as_room_def)
qed

subsection \<open>Bounded stacks\<close>

datatype 'a stack_op = Push 'a | Pop

text \<open>The return code of an operation on a stack with room for \<open>n\<close> entries, the value it delivers, and the new entries.\<close>

fun stack_spec :: "nat \<Rightarrow> 'a list \<Rightarrow> 'a stack_op \<Rightarrow> int \<times> 'a option \<times> 'a list" where
  "stack_spec n xs (Push x) = (if length xs < n then (0, None, x # xs) else (-1, None, xs))"
| "stack_spec n [] Pop = (-1, None, [])"
| "stack_spec n (x # xs) Pop = (0, Some x, xs)"

fun stack_spec_run :: "nat \<Rightarrow> 'a list \<Rightarrow> 'a stack_op list \<Rightarrow> (int \<times> 'a option) list \<times> 'a list" where
  "stack_spec_run n xs [] = ([], xs)"
| "stack_spec_run n xs (p # ps) =
     (let (r, v, ys) = stack_spec n xs p; (outs, zs) = stack_spec_run n ys ps in ((r, v) # outs, zs))"

fun stack_run :: "('s \<Rightarrow> 'a stack_op \<Rightarrow> (int \<times> 'a option \<times> 's) option) \<Rightarrow> 's \<Rightarrow> 'a stack_op list \<Rightarrow> ((int \<times> 'a option) list \<times> 's) option" where
  "stack_run step s [] = Some ([], s)"
| "stack_run step s (p # ps) =
     do { (r, v, s') \<leftarrow> step s p; (outs, s'') \<leftarrow> stack_run step s' ps; Some ((r, v) # outs, s'') }"

locale bounded_stack =
  fixes step :: "'s \<Rightarrow> 'a stack_op \<Rightarrow> (int \<times> 'a option \<times> 's) option" and rep :: "'s \<Rightarrow> 'a list \<Rightarrow> bool" and room :: "'s \<Rightarrow> nat"
  assumes step_law: "rep s xs \<Longrightarrow> \<exists>s'. step s p = Some (fst (stack_spec (room s) xs p), fst (snd (stack_spec (room s) xs p)), s') \<and>
    rep s' (snd (snd (stack_spec (room s) xs p))) \<and> room s' = room s"
begin

lemma run_law:
  "rep s xs \<Longrightarrow> \<exists>s'. stack_run step s ps = Some (fst (stack_spec_run (room s) xs ps), s') \<and> rep s' (snd (stack_spec_run (room s) xs ps))"
proof (induction ps arbitrary: s xs)
  case (Cons p ps)
  obtain r v ys where spec: "stack_spec (room s) xs p = (r, v, ys)" by (cases "stack_spec (room s) xs p")
  obtain s' where s': "step s p = Some (r, v, s')" "rep s' ys" "room s' = room s"
    using step_law [OF Cons.prems, of p] spec by auto
  show ?case using Cons.IH [OF s'(2)] s' spec by (auto simp: Let_def split: prod.split)
qed simp

end

fun array_stack_step :: "array_stack \<Rightarrow> u64 stack_op \<Rightarrow> (int \<times> u64 option \<times> array_stack) option" where
  "array_stack_step as (Push x) = do { (r, as') \<leftarrow> array_stack_push as x; Some (r, None, as') }"
| "array_stack_step as Pop = array_stack_pop as"

lemma array_stack_step_law:
  assumes "as_rep as xs"
  shows "\<exists>as'. array_stack_step as p = Some (fst (stack_spec (as_room as) xs p), fst (snd (stack_spec (as_room as) xs p)), as') \<and>
    as_rep as' (snd (snd (stack_spec (as_room as) xs p))) \<and> as_room as' = as_room as"
proof (cases p)
  case (Push x)
  show ?thesis
  proof (cases "length xs < as_room as")
    case True
    then show ?thesis using array_stack_push_ok [OF assms True, of x] Push by auto
  next
    case False
    then have "array_stack_push as x = Some (-1, as)" using as_room_iff [OF assms] by (simp add: array_stack_push_def)
    then show ?thesis using Push False assms by simp
  qed
next
  case Pop
  show ?thesis
  proof (cases xs)
    case Nil
    then have "array_stack_pop as = Some (-1, None, as)" using assms by (simp add: array_stack_pop_def as_rep_def)
    then show ?thesis using Pop Nil assms by simp
  next
    case (Cons x ys)
    then show ?thesis using array_stack_pop_ok [of as x ys] assms Pop by auto
  qed
qed

interpretation array_stack_impl: bounded_stack array_stack_step as_rep as_room
  by unfold_locales (rule array_stack_step_law)

text \<open>C39.
  A stack set up by \<open>array_stack_init\<close> with entries of at least eight bytes (or the default of eight) is a last-in first-out stack
  bounded by \<open>(size - 1) div step\<close> entries, one fewer than fit when \<open>step\<close> divides \<open>size\<close>: for every sequence of
  pushes and pops the return codes and the delivered pointers are those of that stack.\<close>
theorem array_stack_lifo:
  assumes "array_stack_init True fill as0 = (r, as)" "as_step as0 = 0 \<or> 8 \<le> unat (as_step as0)"
  shows "\<exists>as'. stack_run array_stack_step as ps = Some (fst (stack_spec_run ((as_size as - 1) div unat (as_step as)) [] ps), as')"
proof -
  have "as_rep as []" using assms by (auto simp: as_rep_def array_stack_init_def Let_def split: if_splits)
  then show ?thesis using array_stack_impl.run_law [of as "[]" ps] by (auto simp: as_room_def)
qed

theorem array_stack_lifo_witness:
  "\<exists>as'. stack_run array_stack_step
      (snd (array_stack_init True (\<lambda>i. 7) \<lparr>as_step = 0, as_cur = 0, as_size = 24, as_top = [], as_count = 0\<rparr>)) [Push 5, Push 6, Push 7, Pop, Pop, Pop] =
    Some ([(0, None), (0, None), (-1, None), (0, Some 6), (0, Some 5), (-1, None)], as')"
proof -
  let ?i = "array_stack_init True (\<lambda>i. 7) \<lparr>as_step = 0, as_cur = 0, as_size = 24, as_top = [], as_count = 0\<rparr>"
  have "as_size (snd ?i) = 24" "as_step (snd ?i) = 8" by (simp_all add: array_stack_init_def Let_def)
  then show ?thesis
    using array_stack_lifo [of "\<lambda>i. 7" "\<lparr>as_step = 0, as_cur = 0, as_size = 24, as_top = [], as_count = 0\<rparr>" "fst ?i" "snd ?i" "[Push 5, Push 6, Push 7, Pop, Pop, Pop]"]
    by (simp add: Let_def)
qed

end
