(* ===== verification/Service.thy ===== *)
theory Service
  imports Prelude
begin

text \<open>
  The contract of an object with operations, stated once: an operation that is legal in the abstract state returns what the
  specification says and leads to a state that represents the specified one.  Then every legal sequence of operations does.
\<close>

fun service_run :: "('s \<Rightarrow> 'q \<Rightarrow> ('r \<times> 's) option) \<Rightarrow> 's \<Rightarrow> 'q list \<Rightarrow> ('r list \<times> 's) option" where
  "service_run step s [] = Some ([], s)"
| "service_run step s (q # qs) = do { (r, s1) \<leftarrow> step s q; (rs, s2) \<leftarrow> service_run step s1 qs; Some (r # rs, s2) }"

fun service_spec :: "('a \<Rightarrow> 'q \<Rightarrow> 'r \<times> 'a) \<Rightarrow> 'a \<Rightarrow> 'q list \<Rightarrow> 'r list \<times> 'a" where
  "service_spec spec a [] = ([], a)"
| "service_spec spec a (q # qs) = (let (r, a1) = spec a q; (rs, a2) = service_spec spec a1 qs in (r # rs, a2))"

fun service_legal :: "('a \<Rightarrow> 'q \<Rightarrow> 'r \<times> 'a) \<Rightarrow> ('a \<Rightarrow> 'q \<Rightarrow> bool) \<Rightarrow> 'a \<Rightarrow> 'q list \<Rightarrow> bool" where
  "service_legal spec legal a [] \<longleftrightarrow> True"
| "service_legal spec legal a (q # qs) \<longleftrightarrow> legal a q \<and> service_legal spec legal (snd (spec a q)) qs"

locale service =
  fixes step :: "'s \<Rightarrow> 'q \<Rightarrow> ('r \<times> 's) option" and rep :: "'s \<Rightarrow> 'a \<Rightarrow> bool"
    and spec :: "'a \<Rightarrow> 'q \<Rightarrow> 'r \<times> 'a" and legal :: "'a \<Rightarrow> 'q \<Rightarrow> bool"
  assumes step_law: "rep s a \<Longrightarrow> legal a q \<Longrightarrow> \<exists>s'. step s q = Some (fst (spec a q), s') \<and> rep s' (snd (spec a q))"
begin

lemma run_law:
  "rep s a \<Longrightarrow> service_legal spec legal a qs \<Longrightarrow>
   \<exists>s'. service_run step s qs = Some (fst (service_spec spec a qs), s') \<and> rep s' (snd (service_spec spec a qs))"
proof (induction qs arbitrary: s a)
  case (Cons q qs)
  obtain s1 where s1: "step s q = Some (fst (spec a q), s1)" "rep s1 (snd (spec a q))"
    using step_law [of s a q] Cons.prems by auto
  moreover obtain s2 where "service_run step s1 qs = Some (fst (service_spec spec (snd (spec a q)) qs), s2)" "rep s2 (snd (service_spec spec (snd (spec a q)) qs))"
    using Cons.IH [OF s1(2)] Cons.prems(2) by auto
  ultimately show ?case by (auto simp: Let_def split_def)
qed simp

end

text \<open>
  Addresses from an allocator: in each call that allocates (\<open>node\<close> names the address it gets, if it gets one) the address is
  suitable and not in use in the state of that call.  An address that was freed may be handed out again.
\<close>

fun granted_run :: "('q \<Rightarrow> 'n option) \<Rightarrow> ('n \<Rightarrow> bool) \<Rightarrow> ('s \<Rightarrow> 'n set) \<Rightarrow> ('s \<Rightarrow> 'q \<Rightarrow> ('r \<times> 's) option) \<Rightarrow> 's \<Rightarrow> 'q list \<Rightarrow> bool" where
  "granted_run node good used step s [] \<longleftrightarrow> True"
| "granted_run node good used step s (q # qs) \<longleftrightarrow>
     (case node q of None \<Rightarrow> True | Some n \<Rightarrow> good n \<and> n \<notin> used s) \<and>
     (case step s q of None \<Rightarrow> True | Some (r, s') \<Rightarrow> granted_run node good used step s' qs)"

lemma granted_now: "granted_run node good used step s (q # qs) \<Longrightarrow> node q = Some n \<Longrightarrow> good n \<and> n \<notin> used s"
  by simp

lemma granted_next: "granted_run node good used step s (q # qs) \<Longrightarrow> step s q = Some (r, s') \<Longrightarrow> granted_run node good used step s' qs"
  by simp

declare granted_run.simps [simp del]

lemma granted_Nil [simp]: "granted_run node good used step s []"
  by (simp add: granted_run.simps)

lemma granted_Cons:
  "(\<And>n. node q = Some n \<Longrightarrow> good n \<and> n \<notin> used s) \<Longrightarrow> (\<And>r s'. step s q = Some (r, s') \<Longrightarrow> granted_run node good used step s' qs) \<Longrightarrow>
   granted_run node good used step s (q # qs)"
  by (auto simp: granted_run.simps split: option.splits)

end
