(* ===== verification/LinkList.thy ===== *)
theory LinkList
  imports Service
begin

text \<open>
  The doubly linked list of \<open>core/utils/data_structure/link_list\<close> over the list primitives of \<open>list.h\<close>, and the class
  \<open>Linked_List\<close> on top of it.  The heap is split by field: \<open>l_next\<close> and \<open>l_prev\<close> hold the two pointers of every live
  \<open>struct list_head\<close>, \<open>l_data\<close> the payload of every live \<open>list_t\<close>; an access to an address that is not live is
  undefined, and freeing removes the address.  The address that the allocator returns is an argument (\<open>p\<close>) of
  the operations that allocate; the null address, which the code does not test for, is undefined.  The locks are not modelled: \<open>llist_delete\<close> is its locked version.
\<close>

record 'a llist =
  l_next :: "nat \<rightharpoonup> nat"
  l_prev :: "nat \<rightharpoonup> nat"
  l_data :: "nat \<rightharpoonup> 'a"
  l_head :: nat
  l_begin :: nat
  l_count :: u32

abbreviation LIST_POISON1 :: nat where
  "LIST_POISON1 \<equiv> 0x00100100"

abbreviation LIST_POISON2 :: nat where
  "LIST_POISON2 \<equiv> 0x00200200"

subsection \<open>List heads\<close>

definition set_next :: "'a llist \<Rightarrow> nat \<Rightarrow> nat \<Rightarrow> 'a llist option" where
  "set_next l a v = (if a \<in> dom (l_next l) then Some (l\<lparr>l_next := (l_next l)(a \<mapsto> v)\<rparr>) else None)"

definition set_prev :: "'a llist \<Rightarrow> nat \<Rightarrow> nat \<Rightarrow> 'a llist option" where
  "set_prev l a v = (if a \<in> dom (l_prev l) then Some (l\<lparr>l_prev := (l_prev l)(a \<mapsto> v)\<rparr>) else None)"

definition INIT_LIST_HEAD :: "'a llist \<Rightarrow> nat \<Rightarrow> 'a llist option" where
  "INIT_LIST_HEAD l a = do { l1 \<leftarrow> set_next l a a; set_prev l1 a a }"

definition list_add :: "'a llist \<Rightarrow> nat \<Rightarrow> nat \<Rightarrow> nat \<Rightarrow> 'a llist option" where
  "list_add l n prev nxt =
     do { l1 \<leftarrow> set_prev l nxt n; l2 \<leftarrow> set_next l1 n nxt; l3 \<leftarrow> set_prev l2 n prev; set_next l3 prev n }"

definition list_add_after :: "'a llist \<Rightarrow> nat \<Rightarrow> nat \<Rightarrow> 'a llist option" where
  "list_add_after l n head = do { nxt \<leftarrow> l_next l head; list_add l n head nxt }"

definition list_add_before :: "'a llist \<Rightarrow> nat \<Rightarrow> nat \<Rightarrow> 'a llist option" where
  "list_add_before l n head = do { prv \<leftarrow> l_prev l head; list_add l n prv head }"

definition list_del :: "'a llist \<Rightarrow> nat \<Rightarrow> 'a llist option" where
  "list_del l entry =
     do { prv \<leftarrow> l_prev l entry; nxt \<leftarrow> l_next l entry;
          l1 \<leftarrow> set_prev l nxt prv; l2 \<leftarrow> set_next l1 prv nxt;
          l3 \<leftarrow> set_next l2 entry LIST_POISON1; set_prev l3 entry LIST_POISON2 }"

text \<open>A block of a \<open>list_t\<close> with its payload, and its release; the pointers of a fresh block are not read before they are set.\<close>

definition new_node :: "'a llist \<Rightarrow> nat \<Rightarrow> 'a \<Rightarrow> 'a llist" where
  "new_node l p d = l\<lparr>l_next := (l_next l)(p \<mapsto> 0), l_prev := (l_prev l)(p \<mapsto> 0), l_data := (l_data l)(p \<mapsto> d)\<rparr>"

definition free_node :: "'a llist \<Rightarrow> nat \<Rightarrow> 'a llist" where
  "free_node l p = l\<lparr>l_next := (l_next l)(p := None), l_prev := (l_prev l)(p := None), l_data := (l_data l)(p := None)\<rparr>"

subsection \<open>Operations\<close>

text \<open>
  A position argument is a pointer to a \<open>list_pos_t\<close>: to one of the caller, with a fixed address in it, or to the field \<open>begin\<close>
  of the list itself, whose value changes when the operation changes \<open>begin\<close>.
\<close>

datatype lpos = At nat | At_begin

fun pos_addr :: "'a llist \<Rightarrow> lpos \<Rightarrow> nat" where
  "pos_addr l (At a) = a"
| "pos_addr l At_begin = l_begin l"

definition llist_init :: "nat \<Rightarrow> 'a llist option" where
  "llist_init p =
     do { guard (p \<noteq> 0);
          l \<leftarrow> INIT_LIST_HEAD \<lparr>l_next = [p \<mapsto> 0], l_prev = [p \<mapsto> 0], l_data = Map.empty, l_head = 0, l_begin = 0, l_count = 0\<rparr> p;
          Some (l\<lparr>l_begin := p, l_head := p\<rparr>) }"

definition llist_add :: "'a llist \<Rightarrow> lpos \<Rightarrow> nat \<Rightarrow> 'a \<Rightarrow> (int \<times> 'a llist) option" where
  "llist_add l pos p d =
     do { guard (p \<noteq> 0);
          l1 \<leftarrow> list_add_after (new_node l p d) p (pos_addr l pos);
          Some (1, l1\<lparr>l_begin := (if pos_addr l pos = l_head l then p else l_begin l), l_count := l_count l + 1\<rparr>) }"

definition llist_add_front :: "'a llist \<Rightarrow> nat \<Rightarrow> 'a \<Rightarrow> (int \<times> 'a llist) option" where
  "llist_add_front l p d = llist_add l (At (l_head l)) p d"

definition llist_add_back :: "'a llist \<Rightarrow> nat \<Rightarrow> 'a \<Rightarrow> (int \<times> 'a llist) option" where
  "llist_add_back l p d =
     do { guard (p \<noteq> 0);
          l1 \<leftarrow> list_add_before (new_node l p d) p (l_head l);
          b \<leftarrow> (if l_head l = l_begin l then l_next l1 (l_head l) else Some (l_begin l));
          Some (1, l1\<lparr>l_begin := b, l_count := l_count l + 1\<rparr>) }"

text \<open>The entry \<open>p\<close> that is freed is computed before \<open>begin\<close> is advanced, the entry that is unlinked after it.\<close>

definition llist_delete :: "'a llist \<Rightarrow> lpos \<Rightarrow> (int \<times> 'a llist) option" where
  "llist_delete l pos =
     (if l_begin l = l_head l then Some (-1, l)
      else
        let p = pos_addr l pos in
        do { l1 \<leftarrow> (if p = l_begin l then do { n \<leftarrow> l_next l p; Some (l\<lparr>l_begin := n\<rparr>) } else Some l);
             l2 \<leftarrow> list_del l1 (pos_addr l1 pos);
             Some (1, free_node (l2\<lparr>l_count := l_count l2 - 1\<rparr>) p) })"

definition llist_delete_front :: "'a llist \<Rightarrow> (int \<times> 'a llist) option" where
  "llist_delete_front l = llist_delete l At_begin"

definition llist_delete_back :: "'a llist \<Rightarrow> (int \<times> 'a llist) option" where
  "llist_delete_back l =
     (if l_begin l = l_head l then Some (-1, l)
      else
        do { p \<leftarrow> l_prev l (l_head l);
             l1 \<leftarrow> list_del l p;
             let l2 = l1\<lparr>l_count := l_count l1 - 1\<rparr>;
                 l3 = (if l_count l2 = 0 then l2\<lparr>l_begin := l_head l2\<rparr> else l2) in
             Some (1, free_node l3 p) })"

text \<open>The middle component is what is stored in \<open>*data\<close>, \<open>None\<close> when nothing is.\<close>

definition llist_remove :: "'a llist \<Rightarrow> lpos \<Rightarrow> (int \<times> 'a option \<times> 'a llist) option" where
  "llist_remove l pos =
     (if l_begin l = l_head l then Some (-1, None, l)
      else
        let p = pos_addr l pos in
        do { l1 \<leftarrow> (if p = l_begin l then do { n \<leftarrow> l_next l p; Some (l\<lparr>l_begin := n\<rparr>) } else Some l);
             l2 \<leftarrow> list_del l1 (pos_addr l1 pos);
             d \<leftarrow> l_data l2 p;
             Some (1, Some d, free_node (l2\<lparr>l_count := l_count l2 - 1\<rparr>) p) })"

definition llist_remove_front :: "'a llist \<Rightarrow> (int \<times> 'a option \<times> 'a llist) option" where
  "llist_remove_front l =
     (if l_begin l = l_head l then Some (-1, None, l)
      else
        do { p \<leftarrow> l_next l (l_head l);
             l1 \<leftarrow> list_del l p;
             b \<leftarrow> l_next l1 (l_head l);
             d \<leftarrow> l_data l1 p;
             Some (1, Some d, free_node (l1\<lparr>l_count := l_count l1 - 1, l_begin := b\<rparr>) p) })"

definition llist_remove_back :: "'a llist \<Rightarrow> (int \<times> 'a option \<times> 'a llist) option" where
  "llist_remove_back l =
     (if l_begin l = l_head l then Some (-1, None, l)
      else
        do { p \<leftarrow> l_prev l (l_head l);
             l1 \<leftarrow> list_del l p;
             b \<leftarrow> (if l_count l1 - 1 = 0 then l_next l1 (l_head l) else Some (l_begin l1));
             d \<leftarrow> l_data l1 p;
             Some (1, Some d, free_node (l1\<lparr>l_count := l_count l1 - 1, l_begin := b\<rparr>) p) })"

text \<open>The search of \<open>llist_remove_element\<close> from a position: the address of the first entry with the payload, if there is one.\<close>

partial_function (option) find_from :: "'a llist \<Rightarrow> 'a \<Rightarrow> nat \<Rightarrow> nat option option" where
  "find_from l d pos =
     do { nxt \<leftarrow> l_next l pos;
          if pos = l_head l then Some None
          else do { e \<leftarrow> l_data l pos; if e = d then Some (Some pos) else find_from l d nxt } }"

definition llist_remove_element :: "'a llist \<Rightarrow> 'a \<Rightarrow> (int \<times> 'a llist) option" where
  "llist_remove_element l d =
     do { r \<leftarrow> find_from l d (l_begin l);
          (case r of None \<Rightarrow> Some (0, l) | Some a \<Rightarrow> llist_delete l (At a)) }"

text \<open>The detached entry stays allocated; \<open>None\<close> is \<open>NULL\<close>.\<close>

definition llist_detach :: "'a llist \<Rightarrow> lpos \<Rightarrow> (nat option \<times> 'a llist) option" where
  "llist_detach l pos =
     (if l_begin l = l_head l then Some (None, l)
      else
        let p = pos_addr l pos in
        do { l1 \<leftarrow> list_del l p;
             l2 \<leftarrow> (if pos_addr l1 pos = l_begin l1
                   then do { n \<leftarrow> l_next l1 (l_head l1); Some (l1\<lparr>l_begin := n\<rparr>) } else Some l1);
             Some (Some p, l2\<lparr>l_count := l_count l2 - 1\<rparr>) })"

definition llist_detach_front :: "'a llist \<Rightarrow> (nat option \<times> 'a llist) option" where
  "llist_detach_front l = llist_detach l At_begin"

definition llist_detach_back :: "'a llist \<Rightarrow> (nat option \<times> 'a llist) option" where
  "llist_detach_back l =
     (if l_begin l = l_head l then Some (None, l)
      else
        do { p \<leftarrow> l_prev l (l_head l);
             l1 \<leftarrow> list_del l p;
             let l2 = l1\<lparr>l_count := l_count l1 - 1\<rparr> in
             Some (Some p, if l_count l2 = 0 then l2\<lparr>l_begin := l_head l2\<rparr> else l2) })"

text \<open>The payloads that \<open>llist_for_each\<close> passes to its callback, from a position.\<close>

partial_function (option) each_from :: "'a llist \<Rightarrow> nat \<Rightarrow> 'a list option" where
  "each_from l pos =
     do { nxt \<leftarrow> l_next l pos;
          if pos = l_head l then Some []
          else do { d \<leftarrow> l_data l pos; ds \<leftarrow> each_from l nxt; Some (d # ds) } }"

definition llist_for_each :: "'a llist \<Rightarrow> 'a list option" where
  "llist_for_each l = each_from l (l_begin l)"

text \<open>\<open>next\<close> is read before the entry at \<open>pos\<close> is deleted.\<close>

partial_function (option) destroy_from :: "'a llist \<Rightarrow> nat \<Rightarrow> nat \<Rightarrow> 'a llist option" where
  "destroy_from l pos nxt =
     (if pos = l_head l then Some l
      else do { (r, l1) \<leftarrow> llist_delete l (At pos); n \<leftarrow> l_next l1 nxt; destroy_from l1 nxt n })"

definition llist_destroy :: "'a llist \<Rightarrow> (int \<times> 'a llist) option" where
  "llist_destroy l =
     do { nxt \<leftarrow> l_next l (l_begin l);
          l1 \<leftarrow> destroy_from l (l_begin l) nxt;
          Some (1, if l_head l1 = l_begin l1 then free_node l1 (l_head l1) else l1) }"

definition llist_get_count :: "'a llist \<Rightarrow> u32" where
  "llist_get_count l = l_count l"

subsection \<open>The class Linked_List\<close>

definition linked_list_add :: "'a llist \<Rightarrow> nat \<Rightarrow> 'a \<Rightarrow> (int \<times> 'a llist) option" where
  "linked_list_add l p d = llist_add_back l p d"

definition linked_list_add_back :: "'a llist \<Rightarrow> nat \<Rightarrow> 'a \<Rightarrow> (int \<times> 'a llist) option" where
  "linked_list_add_back l p d = llist_add_back l p d"

definition linked_list_add_front :: "'a llist \<Rightarrow> nat \<Rightarrow> 'a \<Rightarrow> (int \<times> 'a llist) option" where
  "linked_list_add_front l p d = llist_add_front l p d"

definition linked_list_delete :: "'a llist \<Rightarrow> (int \<times> 'a llist) option" where
  "linked_list_delete l = llist_delete l At_begin"

definition linked_list_remove :: "'a llist \<Rightarrow> (int \<times> 'a option \<times> 'a llist) option" where
  "linked_list_remove l = llist_remove_front l"

definition linked_list_remove_front :: "'a llist \<Rightarrow> (int \<times> 'a option \<times> 'a llist) option" where
  "linked_list_remove_front l = llist_remove_front l"

definition linked_list_remove_back :: "'a llist \<Rightarrow> (int \<times> 'a option \<times> 'a llist) option" where
  "linked_list_remove_back l = llist_remove_back l"

definition linked_list_remove_element :: "'a llist \<Rightarrow> 'a \<Rightarrow> (int \<times> 'a llist) option" where
  "linked_list_remove_element l d = llist_remove_element l d"

definition linked_list_count :: "'a llist \<Rightarrow> u32" where
  "linked_list_count l = llist_get_count l"

definition linked_list_detach_front :: "'a llist \<Rightarrow> (int \<times> 'a option \<times> 'a llist) option" where
  "linked_list_detach_front l =
     do { (e, l1) \<leftarrow> llist_detach_front l;
          (case e of
             None \<Rightarrow> Some (-1, None, l1)
           | Some p \<Rightarrow> do { d \<leftarrow> l_data l1 p; Some (1, Some d, free_node l1 p) }) }"

subsection \<open>Linked segments\<close>

text \<open>The entries \<open>xs\<close> are linked in both directions between \<open>a\<close> and \<open>b\<close>.\<close>

primrec path :: "(nat \<rightharpoonup> nat) \<Rightarrow> (nat \<rightharpoonup> nat) \<Rightarrow> nat \<Rightarrow> nat list \<Rightarrow> nat \<Rightarrow> bool" where
  "path nx pv a [] b \<longleftrightarrow> nx a = Some b \<and> pv b = Some a"
| "path nx pv a (x # xs) b \<longleftrightarrow> nx a = Some x \<and> pv x = Some a \<and> path nx pv x xs b"

lemma path_append: "path nx pv a (xs @ y # ys) b \<longleftrightarrow> path nx pv a xs y \<and> path nx pv y ys b"
  by (induction xs arbitrary: a) auto

lemma path_next_other: "x \<notin> set (a # xs) \<Longrightarrow> path (nx(x := v)) pv a xs b = path nx pv a xs b"
  by (induction xs arbitrary: a) auto

lemma path_prev_other: "x \<notin> set (xs @ [b]) \<Longrightarrow> path nx (pv(x := v)) a xs b = path nx pv a xs b"
  by (induction xs arbitrary: a) auto

lemma path_last_prev: "path nx pv a xs b \<Longrightarrow> pv b = Some (last (a # xs))"
  by (induction xs arbitrary: a) auto

lemma path_first_next: "path nx pv a xs b \<Longrightarrow> nx a = Some (hd (xs @ [b]))"
  by (cases xs) auto

text \<open>The end of a segment is moved from \<open>b\<close> to \<open>c\<close>.\<close>

lemma path_retarget:
  assumes "path nx pv a xs b" "distinct (a # xs)" "c \<notin> set xs"
  shows "path (nx(last (a # xs) \<mapsto> c)) (pv(c \<mapsto> last (a # xs))) a xs c"
  using assms
proof (induction xs arbitrary: a)
  case (Cons x xs)
  have "path (nx(last (x # xs) \<mapsto> c)) (pv(c \<mapsto> last (x # xs))) x xs c"
    by (rule Cons.IH) (use Cons.prems in auto)
  moreover have "last (x # xs) \<noteq> a" using Cons.prems(2) by (metis distinct.simps(2) last_in_set list.distinct(1))
  moreover have "c \<noteq> x" "last (a # x # xs) = last (x # xs)" using Cons.prems(3) by simp_all
  ultimately show ?case using Cons.prems(1) by (simp del: last.simps fun_upd_apply) (simp del: last.simps)
qed simp

text \<open>An entry \<open>p\<close> is linked in between \<open>xs\<close> and \<open>ys\<close>.\<close>

lemma path_insert:
  assumes "path nx pv a (xs @ ys) a" "distinct (a # xs @ ys)" "p \<notin> set (a # xs @ ys)"
  defines "u \<equiv> last (a # xs)" and "w \<equiv> hd (ys @ [a])"
  shows "path (nx(p \<mapsto> w, u \<mapsto> p)) (pv(w \<mapsto> p, p \<mapsto> u)) a (xs @ p # ys) a"
proof -
  have u: "u \<in> set (a # xs)" unfolding u_def by (rule last_in_set) simp
  have w: "w \<in> set (ys @ [a])" unfolding w_def by (rule hd_in_set) simp
  have pu: "u \<noteq> p" "w \<noteq> p" "w \<notin> set xs" using u w assms(2,3) by auto
  have "path nx pv a xs w" using assms(1) by (cases ys) (auto simp: w_def path_append)
  from path_retarget [OF this, of p]
  have "path (nx(u \<mapsto> p)) (pv(p \<mapsto> u)) a xs p" using assms(2,3) by (auto simp: u_def)
  then have "path (nx(u \<mapsto> p, p \<mapsto> w)) (pv(p \<mapsto> u, w \<mapsto> p)) a xs p"
    using assms(3) pu by (simp add: path_next_other path_prev_other)
  then have 1: "path (nx(p \<mapsto> w, u \<mapsto> p)) (pv(w \<mapsto> p, p \<mapsto> u)) a xs p"
    using pu by (simp add: fun_upd_twist)
  have 2: "path (nx(p \<mapsto> w, u \<mapsto> p)) (pv(w \<mapsto> p, p \<mapsto> u)) p ys a"
  proof (cases ys)
    case Nil
    then show ?thesis using pu by (auto simp: w_def)
  next
    case (Cons y zs)
    then have "path nx pv y zs a" "w = y" using assms(1) by (auto simp: path_append w_def)
    moreover have "u \<notin> set (y # zs)" "p \<notin> set (y # zs)" "p \<noteq> a" "y \<notin> set (zs @ [a])" using u Cons assms(2,3) by auto
    ultimately show ?thesis using Cons pu by (auto simp: path_next_other path_prev_other)
  qed
  show ?thesis using 1 2 by (simp add: path_append)
qed

text \<open>An entry is taken out.\<close>

lemma path_remove:
  assumes "path nx pv a (xs @ e # ys) a" "distinct (a # xs @ e # ys)"
  defines "u \<equiv> last (a # xs)" and "w \<equiv> hd (ys @ [a])"
  shows "path (nx(u \<mapsto> w)) (pv(w \<mapsto> u)) a (xs @ ys) a"
proof -
  have u: "u \<in> set (a # xs)" unfolding u_def by (rule last_in_set) simp
  have p: "path nx pv a xs e" "path nx pv e ys a" using assms(1) by (simp_all add: path_append)
  have 1: "path (nx(u \<mapsto> w)) (pv(w \<mapsto> u)) a xs w"
  proof -
    have "w \<in> set (ys @ [a])" unfolding w_def by (rule hd_in_set) simp
    then have "w \<notin> set xs" using assms(2) by auto
    then show ?thesis unfolding u_def using path_retarget [OF p(1)] assms(2) by simp
  qed
  show ?thesis
  proof (cases ys)
    case Nil
    then show ?thesis using 1 by (simp add: w_def)
  next
    case (Cons y zs)
    then have "path nx pv y zs a" "w = y" using p(2) by (auto simp: w_def)
    moreover have "u \<notin> set (y # zs)" "y \<notin> set (zs @ [a])" using u Cons assms(2) by auto
    ultimately show ?thesis using 1 Cons by (simp add: path_append path_next_other path_prev_other)
  qed
qed

subsection \<open>The representation of a list\<close>

text \<open>The live entries and their payloads in order; nothing else is allocated but the head.\<close>

definition llist_rep :: "'a llist \<Rightarrow> (nat \<times> 'a) list \<Rightarrow> bool" where
  "llist_rep l xs \<longleftrightarrow>
     path (l_next l) (l_prev l) (l_head l) (map fst xs) (l_head l) \<and> distinct (l_head l # map fst xs) \<and>
     dom (l_next l) = insert (l_head l) (fst ` set xs) \<and> dom (l_prev l) = insert (l_head l) (fst ` set xs) \<and>
     l_data l = map_of xs \<and> l_begin l = hd (map fst xs @ [l_head l]) \<and>
     l_count l = of_nat (length xs) \<and> length xs < 2 ^ 32"

lemma llist_repD:
  assumes "llist_rep l xs"
  shows "path (l_next l) (l_prev l) (l_head l) (map fst xs) (l_head l)" "distinct (l_head l # map fst xs)"
    "dom (l_next l) = insert (l_head l) (fst ` set xs)" "dom (l_prev l) = insert (l_head l) (fst ` set xs)"
    "l_data l = map_of xs" "l_begin l = hd (map fst xs @ [l_head l])" "l_count l = of_nat (length xs)" "length xs < 2 ^ 32"
  using assms by (auto simp: llist_rep_def)

lemma llist_rep_cong:
  assumes "llist_rep l xs" "l_next l' = l_next l" "l_prev l' = l_prev l" "l_data l' = l_data l" "l_head l' = l_head l"
    "l_begin l' = l_begin l" "l_count l' = l_count l"
  shows "llist_rep l' xs"
  using assms by (simp add: llist_rep_def)

lemma begin_eq_head: "llist_rep l xs \<Longrightarrow> l_begin l = l_head l \<longleftrightarrow> xs = []"
  by (cases xs) (auto simp: llist_rep_def)

lemma begin_next: "llist_rep l xs \<Longrightarrow> l_next l (l_head l) = Some (l_begin l)"
  using path_first_next [of "l_next l" "l_prev l" "l_head l" "map fst xs" "l_head l"] by (simp add: llist_rep_def)

text \<open>Linking in after an entry \<open>u\<close> before \<open>w\<close>, written as one update of the heap.\<close>

lemma list_add_eq:
  assumes "w \<in> dom (l_prev l)" "n \<in> dom (l_next l)" "n \<in> dom (l_prev l)" "u \<in> dom (l_next l)"
  shows "list_add l n u w = Some (l\<lparr>l_next := (l_next l)(n \<mapsto> w, u \<mapsto> n), l_prev := (l_prev l)(w \<mapsto> n, n \<mapsto> u)\<rparr>)"
  using assms by (simp add: list_add_def set_next_def set_prev_def)

lemma list_del_eq:
  assumes "l_prev l e = Some u" "l_next l e = Some w" "w \<in> dom (l_prev l)" "u \<in> dom (l_next l)"
  shows "list_del l e = Some (l\<lparr>l_next := (l_next l)(u \<mapsto> w, e \<mapsto> LIST_POISON1), l_prev := (l_prev l)(w \<mapsto> u, e \<mapsto> LIST_POISON2)\<rparr>)"
  using assms by (auto simp: list_del_def set_next_def set_prev_def)

text \<open>A fresh entry \<open>p\<close> behind \<open>xs\<close>.\<close>

lemma rep_insert:
  fixes l :: "'a llist" and d :: 'a
  assumes rep: "llist_rep l (xs @ ys)" and p: "p \<notin> dom (l_next l)" and len: "Suc (length (xs @ ys)) < 2 ^ 32"
  defines "u \<equiv> last (l_head l # map fst xs)" and "w \<equiv> hd (map fst ys @ [l_head l])"
  defines "l1 \<equiv> new_node l p d"
  defines "l2 \<equiv> l1\<lparr>l_next := (l_next l1)(p \<mapsto> w, u \<mapsto> p), l_prev := (l_prev l1)(w \<mapsto> p, p \<mapsto> u)\<rparr>"
  shows "list_add l1 p u w = Some l2" "l_next l1 u = Some w" "l_prev l1 w = Some u"
    "llist_rep (l2\<lparr>l_begin := hd (map fst (xs @ (p, d) # ys) @ [l_head l]), l_count := l_count l + 1\<rparr>) (xs @ (p, d) # ys)"
proof -
  note r = llist_repD [OF rep]
  have u: "u \<in> insert (l_head l) (fst ` set xs)" using last_in_set [of "l_head l # map fst xs"] by (auto simp: u_def)
  have w: "w \<in> insert (l_head l) (fst ` set ys)" using hd_in_set [of "map fst ys @ [l_head l]"] by (auto simp: w_def)
  have pn: "p \<noteq> l_head l" "p \<notin> fst ` set xs" "p \<notin> fst ` set ys" "u \<noteq> p" "w \<noteq> p" using p r(3) u w by auto
  have seg: "path (l_next l) (l_prev l) (l_head l) (map fst xs) w"
    using r(1) by (cases ys) (auto simp: w_def path_append)
  have nxu: "l_next l u = Some w"
  proof (cases "map fst xs" rule: rev_cases)
    case Nil
    then show ?thesis using seg by (simp add: u_def)
  next
    case (snoc zs z)
    then have "path (l_next l) (l_prev l) z [] w" using seg by (simp add: path_append)
    then show ?thesis using snoc by (simp add: u_def)
  qed
  have pvw: "l_prev l w = Some u" using path_last_prev [OF seg] by (simp add: u_def)
  show "l_next l1 u = Some w" "l_prev l1 w = Some u" using nxu pvw pn by (simp_all add: l1_def new_node_def)
  show "list_add l1 p u w = Some l2"
    unfolding l2_def by (rule list_add_eq) (use u w r(3,4) in \<open>auto simp: l1_def new_node_def\<close>)
  have "path ((l_next l)(p \<mapsto> w, u \<mapsto> p)) ((l_prev l)(w \<mapsto> p, p \<mapsto> u)) (l_head l) (map fst xs @ p # map fst ys) (l_head l)"
    using path_insert [of "l_next l" "l_prev l" "l_head l" "map fst xs" "map fst ys" p] r(1,2) pn by (auto simp: u_def w_def)
  moreover have "map_of (xs @ (p, d) # ys) = (map_of (xs @ ys))(p \<mapsto> d)"
  proof -
    have "map_of xs p = None" using pn(2) by (simp add: map_of_eq_None_iff)
    then show ?thesis by (auto simp: map_add_def fun_eq_iff split: option.splits)
  qed
  ultimately show "llist_rep (l2\<lparr>l_begin := hd (map fst (xs @ (p, d) # ys) @ [l_head l]), l_count := l_count l + 1\<rparr>) (xs @ (p, d) # ys)"
    using r(2-5,7) len pn u w by (auto simp: llist_rep_def l2_def l1_def new_node_def)
qed

text \<open>The entry \<open>e\<close> is unlinked; freeing it leaves the list without it.\<close>

lemma rep_delete:
  fixes l :: "'a llist"
  assumes rep: "llist_rep l (xs @ (e, d) # ys)"
  defines "u \<equiv> last (l_head l # map fst xs)" and "w \<equiv> hd (map fst ys @ [l_head l])"
  defines "l1 \<equiv> l\<lparr>l_next := (l_next l)(u \<mapsto> w, e \<mapsto> LIST_POISON1), l_prev := (l_prev l)(w \<mapsto> u, e \<mapsto> LIST_POISON2)\<rparr>"
  shows "list_del l e = Some l1" "l_next l e = Some w" "l_prev l e = Some u" "l_data l e = Some d" "e \<noteq> l_head l"
    "l_next l1 u = Some w" "l_prev l1 w = Some u"
    "llist_rep (free_node (l1\<lparr>l_begin := hd (map fst (xs @ ys) @ [l_head l]), l_count := l_count l - 1\<rparr>) e) (xs @ ys)"
proof -
  note r = llist_repD [OF rep]
  have u: "u \<in> insert (l_head l) (fst ` set xs)" using last_in_set [of "l_head l # map fst xs"] by (auto simp: u_def)
  have w: "w \<in> insert (l_head l) (fst ` set ys)" using hd_in_set [of "map fst ys @ [l_head l]"] by (auto simp: w_def)
  have e: "e \<noteq> l_head l" "e \<notin> fst ` set xs" "e \<notin> fst ` set ys" using r(2) by auto
  then have uw: "u \<noteq> e" "w \<noteq> e" using u w by auto
  have seg: "path (l_next l) (l_prev l) (l_head l) (map fst xs) e" "path (l_next l) (l_prev l) e (map fst ys) (l_head l)"
    using r(1) by (auto simp: path_append)
  show n: "l_next l e = Some w" using path_first_next [OF seg(2)] by (simp add: w_def)
  show p: "l_prev l e = Some u" using path_last_prev [OF seg(1)] by (simp add: u_def)
  show "l_data l e = Some d" using r(5) e by (simp add: map_add_def map_of_eq_None_iff [THEN iffD2] split: option.split)
  show "e \<noteq> l_head l" by (rule e(1))
  show "list_del l e = Some l1"
    unfolding l1_def by (rule list_del_eq [OF p n]) (use u w r(3,4) in auto)
  show "l_next l1 u = Some w" "l_prev l1 w = Some u" using uw by (simp_all add: l1_def)
  have "path ((l_next l)(u \<mapsto> w)) ((l_prev l)(w \<mapsto> u)) (l_head l) (map fst xs @ map fst ys) (l_head l)"
    unfolding u_def w_def by (rule path_remove [of _ _ _ _ e]) (use r(1,2) in auto)
  then have path: "path ((l_next l)(u \<mapsto> w, e := None)) ((l_prev l)(w \<mapsto> u, e := None)) (l_head l) (map fst xs @ map fst ys) (l_head l)"
    using e by (simp add: path_next_other path_prev_other)
  have data: "(map_of (xs @ (e, d) # ys))(e := None) = map_of (xs @ ys)"
  proof -
    have "map_of xs e = None" "map_of ys e = None" using e by (simp_all add: map_of_eq_None_iff)
    then show ?thesis by (auto simp: map_add_def fun_eq_iff split: option.splits)
  qed
  have count: "of_nat (length (xs @ (e, d) # ys)) - 1 = (of_nat (length (xs @ ys)) :: u32)" by simp
  show "llist_rep (free_node (l1\<lparr>l_begin := hd (map fst (xs @ ys) @ [l_head l]), l_count := l_count l - 1\<rparr>) e) (xs @ ys)"
    using path data count r(2-5,7,8) e u w uw by (auto simp: llist_rep_def free_node_def l1_def)
qed

lemma rep_memE:
  assumes "(a, d) \<in> set xs"
  obtains us vs where "xs = us @ (a, d) # vs"
  using assms by (auto dest: split_list)

lemma list_del_begin: "list_del (l\<lparr>l_begin := b\<rparr>) e = map_option (\<lambda>l'. l'\<lparr>l_begin := b\<rparr>) (list_del l e)"
  by (simp add: list_del_def set_next_def set_prev_def bind_eq_Some_conv split: bind_splits)

subsection \<open>The laws of the operations\<close>

lemma llist_init_rep: "p \<noteq> 0 \<Longrightarrow> \<exists>l. llist_init p = Some l \<and> llist_rep l [] \<and> l_head l = p"
  by (simp add: llist_init_def INIT_LIST_HEAD_def set_next_def set_prev_def llist_rep_def)

lemma llist_add_front_law:
  assumes "llist_rep l xs" "p \<notin> dom (l_next l)" "Suc (length xs) < 2 ^ 32" "p \<noteq> 0"
  shows "\<exists>l'. llist_add_front l p d = Some (1, l') \<and> llist_rep l' ((p, d) # xs) \<and> l_head l' = l_head l"
proof -
  have u: "last (l_head l # map fst []) = l_head l" by simp
  note r = rep_insert [of l "[]" xs p d, unfolded append_Nil u, OF assms(1-3)]
  show ?thesis
    using r assms(4) by (auto simp: llist_add_front_def llist_add_def list_add_after_def new_node_def)
qed

lemma llist_add_back_law:
  assumes "llist_rep l xs" "p \<notin> dom (l_next l)" "Suc (length xs) < 2 ^ 32" "p \<noteq> 0"
  shows "\<exists>l'. llist_add_back l p d = Some (1, l') \<and> llist_rep l' (xs @ [(p, d)]) \<and> l_head l' = l_head l"
proof -
  have w: "hd (map fst [] @ [l_head l]) = l_head l" by simp
  note r = rep_insert [of l xs "[]" p d, unfolded append_Nil2 w, OF assms(1-3)]
  let ?l1 = "new_node l p d"
  have b: "l_begin l = hd (map fst xs @ [l_head l])" using assms(1) by (simp add: llist_rep_def)
  show ?thesis
  proof (cases xs)
    case Nil
    then show ?thesis using r b assms(4) by (auto simp: llist_add_back_def list_add_before_def new_node_def)
  next
    case (Cons x ys)
    then have "l_begin l \<noteq> l_head l" using begin_eq_head [OF assms(1)] by simp
    then show ?thesis using r b Cons assms(4) by (auto simp: llist_add_back_def list_add_before_def new_node_def)
  qed
qed

text \<open>Deleting through a position of the caller.\<close>

lemma llist_delete_at_law:
  assumes "llist_rep l (xs @ (a, d) # ys)"
  shows "\<exists>l'. llist_delete l (At a) = Some (1, l') \<and> llist_rep l' (xs @ ys) \<and> l_head l' = l_head l"
proof -
  note r = rep_delete [OF assms]
  have ne: "l_begin l \<noteq> l_head l" using begin_eq_head [OF assms] by simp
  have b: "l_begin l = hd (map fst xs @ [a])" using assms by (cases xs) (simp_all add: llist_rep_def)
  show ?thesis
  proof (cases xs)
    case Nil
    then show ?thesis using r ne b by (auto simp: llist_delete_def list_del_begin Let_def free_node_def)
  next
    case (Cons x zs)
    then have "a \<noteq> l_begin l" using assms b by (auto simp: llist_rep_def)
    define l' where "l' = free_node (the (list_del l a)\<lparr>l_count := l_count l - 1\<rparr>) a"
    have "llist_delete l (At a) = Some (1, l')"
      using r(1,4) ne \<open>a \<noteq> l_begin l\<close> by (simp add: llist_delete_def l'_def)
    moreover have "llist_rep l' (xs @ ys)" "l_head l' = l_head l"
      using llist_rep_cong [OF r(8), of l'] b Cons r(1) by (simp_all add: l'_def free_node_def)
    ultimately show ?thesis by blast
  qed
qed

lemma llist_remove_at_law:
  assumes "llist_rep l (xs @ (a, d) # ys)"
  shows "\<exists>l'. llist_remove l (At a) = Some (1, Some d, l') \<and> llist_rep l' (xs @ ys) \<and> l_head l' = l_head l"
proof -
  note r = rep_delete [OF assms]
  have ne: "l_begin l \<noteq> l_head l" using begin_eq_head [OF assms] by simp
  have b: "l_begin l = hd (map fst xs @ [a])" using assms by (cases xs) (simp_all add: llist_rep_def)
  show ?thesis
  proof (cases xs)
    case Nil
    then show ?thesis using r ne b by (auto simp: llist_remove_def list_del_begin Let_def free_node_def)
  next
    case (Cons x zs)
    then have "a \<noteq> l_begin l" using assms b by (auto simp: llist_rep_def)
    define l' where "l' = free_node (the (list_del l a)\<lparr>l_count := l_count l - 1\<rparr>) a"
    have "llist_remove l (At a) = Some (1, Some d, l')"
      using r(1,4) ne \<open>a \<noteq> l_begin l\<close> by (simp add: llist_remove_def l'_def)
    moreover have "llist_rep l' (xs @ ys)" "l_head l' = l_head l"
      using llist_rep_cong [OF r(8), of l'] b Cons r(1) by (simp_all add: l'_def free_node_def)
    ultimately show ?thesis by blast
  qed
qed

lemma llist_remove_front_law:
  assumes "llist_rep l ((a, d) # xs)"
  shows "\<exists>l'. llist_remove_front l = Some (1, Some d, l') \<and> llist_rep l' xs \<and> l_head l' = l_head l"
proof -
  have ne: "l_begin l \<noteq> l_head l" using begin_eq_head [OF assms] by simp
  have n: "l_next l (l_head l) = Some a" using begin_next [OF assms] assms by (simp add: llist_rep_def)
  have u: "last (l_head l # map fst []) = l_head l" by simp
  note r = rep_delete [of l "[]" a d xs, unfolded append_Nil u, OF assms]
  show ?thesis
    using r(1,4,6) ne n llist_rep_cong [OF r(8)] by (auto simp: llist_remove_front_def free_node_def)
qed

lemma rep_count_zero:
  assumes "llist_rep l (xs @ [x])"
  shows "l_count l - 1 = 0 \<longleftrightarrow> xs = []"
proof -
  have "l_count l - 1 = of_nat (length xs)" "length xs < 2 ^ 32" using assms by (simp_all add: llist_rep_def)
  moreover have "unat (of_nat (length xs) :: u32) = length xs"
    using calculation(2) by (simp add: unsigned_of_nat take_bit_nat_eq_self)
  then have "xs = []" if "of_nat (length xs) = (0 :: u32)" using that by simp
  ultimately show ?thesis by auto
qed

lemma rep_delete_last:
  assumes "llist_rep l (xs @ [(a, d)])"
  shows "l_begin l \<noteq> l_head l" "l_prev l (l_head l) = Some a"
    "\<exists>l1. list_del l a = Some l1 \<and> l_data l1 a = Some d \<and> l_count l1 = l_count l \<and> l_head l1 = l_head l \<and> l_begin l1 = l_begin l \<and>
       l_next l1 (l_head l) = Some (hd (map fst xs @ [l_head l])) \<and>
       llist_rep (free_node (l1\<lparr>l_begin := hd (map fst xs @ [l_head l]), l_count := l_count l - 1\<rparr>) a) xs"
    "xs \<noteq> [] \<Longrightarrow> l_begin l = hd (map fst xs @ [l_head l])"
proof -
  have w: "hd (map fst [] @ [l_head l]) = l_head l" by simp
  note r = rep_delete [of l xs a d "[]", unfolded append_Nil2 w, OF assms]
  show "l_begin l \<noteq> l_head l" using begin_eq_head [OF assms] by simp
  show "l_prev l (l_head l) = Some a"
    using path_last_prev [OF llist_repD(1) [OF assms]] by simp
  have nx: "l_next (the (list_del l a)) (l_head l) = Some (hd (map fst xs @ [l_head l]))"
  proof (cases xs)
    case Nil
    then show ?thesis using r(1,5) by simp
  next
    case (Cons x ys)
    then have "last (l_head l # map fst xs) \<in> set (map fst xs)" using last_in_set [of "map fst xs"] by simp
    moreover have "l_head l \<notin> set (map fst xs)" using assms by (simp add: llist_rep_def)
    ultimately have "last (l_head l # map fst xs) \<noteq> l_head l" by metis
    moreover have "l_next l (l_head l) = Some (hd (map fst xs @ [l_head l]))"
      using begin_next [OF assms] assms Cons by (simp add: llist_rep_def)
    ultimately show ?thesis using r(1,5) by (simp del: last.simps)
  qed
  show "\<exists>l1. list_del l a = Some l1 \<and> l_data l1 a = Some d \<and> l_count l1 = l_count l \<and> l_head l1 = l_head l \<and> l_begin l1 = l_begin l \<and>
       l_next l1 (l_head l) = Some (hd (map fst xs @ [l_head l])) \<and>
       llist_rep (free_node (l1\<lparr>l_begin := hd (map fst xs @ [l_head l]), l_count := l_count l - 1\<rparr>) a) xs"
    using r(1,4,8) nx by simp
  show "xs \<noteq> [] \<Longrightarrow> l_begin l = hd (map fst xs @ [l_head l])" using assms by (cases xs) (auto simp: llist_rep_def)
qed

lemma llist_remove_back_law:
  assumes "llist_rep l (xs @ [(a, d)])"
  shows "\<exists>l'. llist_remove_back l = Some (1, Some d, l') \<and> llist_rep l' xs \<and> l_head l' = l_head l"
proof -
  note z = rep_count_zero [OF assms]
  obtain l1 where l1: "list_del l a = Some l1" "l_data l1 a = Some d" "l_count l1 = l_count l" "l_head l1 = l_head l" "l_begin l1 = l_begin l"
    "l_next l1 (l_head l) = Some (hd (map fst xs @ [l_head l]))"
    "llist_rep (free_node (l1\<lparr>l_begin := hd (map fst xs @ [l_head l]), l_count := l_count l - 1\<rparr>) a) xs"
    using rep_delete_last(3) [OF assms] by blast
  define b where "b = hd (map fst xs @ [l_head l])"
  have "(if l_count l1 - 1 = 0 then l_next l1 (l_head l) else Some (l_begin l1)) = Some b"
    using z l1(3,5,6) rep_delete_last(4) [OF assms] by (simp add: b_def)
  then have "llist_remove_back l = Some (1, Some d, free_node (l1\<lparr>l_count := l_count l1 - 1, l_begin := b\<rparr>) a)"
    using rep_delete_last(1,2) [OF assms] l1(1,2) by (simp add: llist_remove_back_def)
  moreover have "llist_rep (free_node (l1\<lparr>l_count := l_count l1 - 1, l_begin := b\<rparr>) a) xs"
    by (rule llist_rep_cong [OF l1(7)]) (simp_all add: free_node_def b_def l1(3))
  ultimately show ?thesis using l1(4) by (auto simp: free_node_def)
qed

lemma llist_delete_back_law:
  assumes "llist_rep l (xs @ [(a, d)])"
  shows "\<exists>l'. llist_delete_back l = Some (1, l') \<and> llist_rep l' xs \<and> l_head l' = l_head l"
proof -
  note z = rep_count_zero [OF assms]
  obtain l1 where l1: "list_del l a = Some l1" "l_count l1 = l_count l" "l_head l1 = l_head l" "l_begin l1 = l_begin l"
    "llist_rep (free_node (l1\<lparr>l_begin := hd (map fst xs @ [l_head l]), l_count := l_count l - 1\<rparr>) a) xs"
    using rep_delete_last(3) [OF assms] by blast
  define l3 where "l3 = (if l_count l - 1 = 0 then l1\<lparr>l_count := l_count l - 1, l_begin := l_head l\<rparr> else l1\<lparr>l_count := l_count l - 1\<rparr>)"
  have "llist_delete_back l = Some (1, free_node l3 a)"
    using rep_delete_last(1,2) [OF assms] l1(1-4) by (simp add: llist_delete_back_def l3_def Let_def)
  moreover have "llist_rep (free_node l3 a) xs"
    by (rule llist_rep_cong [OF l1(5)])
       (use z l1(2-4) rep_delete_last(4) [OF assms] in \<open>auto simp: free_node_def l3_def\<close>)
  ultimately show ?thesis using l1(3) by (auto simp: free_node_def l3_def)
qed

lemma rep_head_fixed: "llist_rep l xs \<Longrightarrow> (l_head l, d) \<notin> set xs"
  by (auto simp: llist_rep_def image_iff)

text \<open>Traversals from an entry visit the rest of the list and end.\<close>

lemma rep_suffix:
  assumes "llist_rep l (us @ vs)"
  shows "l_next l (hd (map fst vs @ [l_head l])) \<noteq> None"
    "vs = (a, d) # ws \<Longrightarrow> l_next l a = Some (hd (map fst ws @ [l_head l])) \<and> a \<noteq> l_head l \<and> l_data l a = Some d"
proof -
  have "hd (map fst vs @ [l_head l]) \<in> dom (l_next l)"
    using hd_in_set [of "map fst vs @ [l_head l]"] assms by (auto simp: llist_rep_def)
  then show "l_next l (hd (map fst vs @ [l_head l])) \<noteq> None" by blast
  show "l_next l a = Some (hd (map fst ws @ [l_head l])) \<and> a \<noteq> l_head l \<and> l_data l a = Some d" if "vs = (a, d) # ws"
    using rep_delete(2,4,5) [of l us a d ws] assms that by simp
qed

lemma each_from_ok: "llist_rep l (us @ vs) \<Longrightarrow> each_from l (hd (map fst vs @ [l_head l])) = Some (map snd vs)"
proof (induction vs arbitrary: us)
  case Nil
  then show ?case using rep_suffix(1) [OF Nil] by (subst each_from.simps) auto
next
  case (Cons v ws)
  obtain a d where v: "v = (a, d)" by (cases v)
  then have "each_from l (hd (map fst ws @ [l_head l])) = Some (map snd ws)" using Cons.IH [of "us @ [(a, d)]"] Cons.prems by simp
  then show ?case using rep_suffix(2) [OF Cons.prems] v by (subst each_from.simps) simp
qed

lemma find_from_ok:
  "llist_rep l (us @ vs) \<Longrightarrow> find_from l d (hd (map fst vs @ [l_head l])) = Some (map_option fst (find (\<lambda>v. snd v = d) vs))"
proof (induction vs arbitrary: us)
  case Nil
  then show ?case using rep_suffix(1) [OF Nil] by (subst find_from.simps) auto
next
  case (Cons v ws)
  obtain a e where v: "v = (a, e)" by (cases v)
  then have "find_from l d (hd (map fst ws @ [l_head l])) = Some (map_option fst (find (\<lambda>v. snd v = d) ws))"
    using Cons.IH [of "us @ [(a, e)]"] Cons.prems by simp
  then show ?case using rep_suffix(2) [OF Cons.prems] v by (subst find_from.simps) simp
qed

lemma llist_detach_front_law:
  assumes "llist_rep l ((a, d) # xs)"
  shows "\<exists>l'. linked_list_detach_front l = Some (1, Some d, l') \<and> llist_rep l' xs \<and> l_head l' = l_head l"
proof -
  have ne: "l_begin l \<noteq> l_head l" "l_begin l = a" using begin_eq_head [OF assms] assms by (simp_all add: llist_rep_def)
  have u: "last (l_head l # map fst []) = l_head l" by simp
  note r = rep_delete [of l "[]" a d xs, unfolded append_Nil u, OF assms]
  show ?thesis
    using r(1,4,6) ne llist_rep_cong [OF r(8)]
    by (auto simp: linked_list_detach_front_def llist_detach_front_def llist_detach_def Let_def free_node_def)
qed

lemma find_remove1:
  "(find (\<lambda>v. snd v = d) xs = None \<and> d \<notin> snd ` set xs) \<or>
   (\<exists>us a vs. find (\<lambda>v. snd v = d) xs = Some (a, d) \<and> xs = us @ (a, d) # vs \<and> remove1 d (map snd xs) = map snd (us @ vs) \<and> d \<in> snd ` set xs)"
proof (induction xs)
  case (Cons x xs)
  show ?case
  proof (cases "snd x = d")
    case True
    then have "x = (fst x, d)" by (cases x) simp
    then show ?thesis using True by (intro disjI2 exI [of _ "[]"]) auto
  next
    case False
    from Cons.IH show ?thesis
    proof
      assume "find (\<lambda>v. snd v = d) xs = None \<and> d \<notin> snd ` set xs"
      then show ?thesis using False by auto
    next
      assume "\<exists>us a vs. find (\<lambda>v. snd v = d) xs = Some (a, d) \<and> xs = us @ (a, d) # vs \<and> remove1 d (map snd xs) = map snd (us @ vs) \<and> d \<in> snd ` set xs"
      then obtain us a vs where "find (\<lambda>v. snd v = d) xs = Some (a, d)" "xs = us @ (a, d) # vs" "remove1 d (map snd xs) = map snd (us @ vs)" "d \<in> snd ` set xs"
        by blast
      then show ?thesis using False by (intro disjI2 exI [of _ "x # us"] exI [of _ a] exI [of _ vs]) auto
    qed
  qed
qed simp

lemma llist_remove_element_law:
  assumes "llist_rep l xs"
  shows "\<exists>l' ys. llist_remove_element l d = Some (if d \<in> snd ` set xs then 1 else 0, l') \<and> llist_rep l' ys \<and>
    map snd ys = remove1 d (map snd xs) \<and> fst ` set ys \<subseteq> fst ` set xs \<and> l_head l' = l_head l"
proof -
  have b: "l_begin l = hd (map fst xs @ [l_head l])" using assms by (simp add: llist_rep_def)
  have f: "find_from l d (l_begin l) = Some (map_option fst (find (\<lambda>v. snd v = d) xs))"
    using find_from_ok [of l "[]" xs d] assms b by simp
  from find_remove1 [of d xs] show ?thesis
  proof
    assume "find (\<lambda>v. snd v = d) xs = None \<and> d \<notin> snd ` set xs"
    then show ?thesis using f assms by (auto simp: llist_remove_element_def remove1_idem)
  next
    assume "\<exists>us a vs. find (\<lambda>v. snd v = d) xs = Some (a, d) \<and> xs = us @ (a, d) # vs \<and> remove1 d (map snd xs) = map snd (us @ vs) \<and> d \<in> snd ` set xs"
    then obtain us a vs where h: "find (\<lambda>v. snd v = d) xs = Some (a, d)" "xs = us @ (a, d) # vs" "remove1 d (map snd xs) = map snd (us @ vs)" "d \<in> snd ` set xs"
      by blast
    then obtain l' where "llist_delete l (At a) = Some (1, l')" "llist_rep l' (us @ vs)" "l_head l' = l_head l"
      using llist_delete_at_law [of l us a d vs] assms by blast
    then show ?thesis using f h by (intro exI [of _ l'] exI [of _ "us @ vs"]) (auto simp: llist_remove_element_def)
  qed
qed

text \<open>Destroying deletes the entries from the front; each is freed and the head remains.\<close>

lemma destroy_from_ok:
  "llist_rep l xs \<Longrightarrow> l_next l (hd (map fst xs @ [l_head l])) = Some nxt \<Longrightarrow>
   \<exists>l'. destroy_from l (hd (map fst xs @ [l_head l])) nxt = Some l' \<and> llist_rep l' [] \<and> l_head l' = l_head l"
proof (induction xs arbitrary: l nxt)
  case Nil
  then show ?case by (subst destroy_from.simps) simp
next
  case (Cons x ys)
  obtain a d where x: "x = (a, d)" by (cases x)
  have s: "l_next l a = Some (hd (map fst ys @ [l_head l]))" "a \<noteq> l_head l" using rep_suffix(2) [of l "[]" "x # ys" a d ys] Cons.prems(1) x by simp_all
  obtain l1 where l1: "llist_delete l (At a) = Some (1, l1)" "llist_rep l1 ys" "l_head l1 = l_head l"
    using llist_delete_at_law [of l "[]" a d ys] Cons.prems(1) x by auto
  obtain n where n: "l_next l1 (hd (map fst ys @ [l_head l])) = Some n" using rep_suffix(1) [of l1 "[]" ys] l1(2,3) by auto
  obtain l' where "destroy_from l1 (hd (map fst ys @ [l_head l])) n = Some l'" "llist_rep l' []" "l_head l' = l_head l"
    using Cons.IH [OF l1(2), of n] l1(3) n by auto
  then show ?case using l1(1) n s x Cons.prems(2) by (subst destroy_from.simps) auto
qed

subsection \<open>Lists with access at both ends\<close>

datatype 'a list_op =
  Add_any nat 'a | Add_front nat 'a | Add_back nat 'a | Remove_any | Remove_front | Remove_back | Remove_element 'a | Detach_front

text \<open>The return code, the delivered payload and the new payloads of an operation.\<close>

fun list_spec :: "'a list \<Rightarrow> 'a list_op \<Rightarrow> (int \<times> 'a option) \<times> 'a list" where
  "list_spec xs (Add_any p d) = ((1, None), xs @ [d])"
| "list_spec xs (Add_front p d) = ((1, None), d # xs)"
| "list_spec xs (Add_back p d) = ((1, None), xs @ [d])"
| "list_spec xs Remove_any = (if xs = [] then ((-1, None), []) else ((1, Some (hd xs)), tl xs))"
| "list_spec xs Remove_front = (if xs = [] then ((-1, None), []) else ((1, Some (hd xs)), tl xs))"
| "list_spec xs Remove_back = (if xs = [] then ((-1, None), []) else ((1, Some (last xs)), butlast xs))"
| "list_spec xs (Remove_element d) = ((if d \<in> set xs then 1 else 0, None), remove1 d xs)"
| "list_spec xs Detach_front = (if xs = [] then ((-1, None), []) else ((1, Some (hd xs)), tl xs))"

fun list_spec_run :: "'a list \<Rightarrow> 'a list_op list \<Rightarrow> (int \<times> 'a option) list \<times> 'a list" where
  "list_spec_run xs [] = ([], xs)"
| "list_spec_run xs (q # qs) =
     (let (r, ys) = list_spec xs q; (rs, zs) = list_spec_run ys qs in (r # rs, zs))"

fun op_addr :: "'a list_op \<Rightarrow> nat option" where
  "op_addr (Add_any p d) = Some p"
| "op_addr (Add_front p d) = Some p"
| "op_addr (Add_back p d) = Some p"
| "op_addr q = None"

fun list_run :: "('s \<Rightarrow> 'a list_op \<Rightarrow> ((int \<times> 'a option) \<times> 's) option) \<Rightarrow> 's \<Rightarrow> 'a list_op list \<Rightarrow> ((int \<times> 'a option) list \<times> 's) option" where
  "list_run step s [] = Some ([], s)"
| "list_run step s (q # qs) = do { (r, s') \<leftarrow> step s q; (rs, s'') \<leftarrow> list_run step s' qs; Some (r # rs, s'') }"

text \<open>
  Every address that the list frees is one of those it was given: an empty list uses the addresses \<open>base\<close> of its own and no
  others.  \<open>may_grant\<close> is a condition on the operations alone that suffices: an address may come back when the list has become empty.
\<close>

fun may_grant :: "nat set \<Rightarrow> nat set \<Rightarrow> 'a list \<Rightarrow> 'a list_op list \<Rightarrow> bool" where
  "may_grant base U xs [] \<longleftrightarrow> True"
| "may_grant base U xs (q # qs) \<longleftrightarrow>
     (case op_addr q of None \<Rightarrow> True | Some p \<Rightarrow> p \<noteq> 0 \<and> p \<notin> U) \<and>
     (let ys = snd (list_spec xs q) in may_grant base (if ys = [] then base else U \<union> set_option (op_addr q)) ys qs)"

locale two_ended_list =
  fixes step :: "'s \<Rightarrow> 'a list_op \<Rightarrow> ((int \<times> 'a option) \<times> 's) option" and rep :: "'s \<Rightarrow> 'a list \<Rightarrow> bool" and used :: "'s \<Rightarrow> nat set"
    and base :: "nat set" and limit :: nat
  assumes step_law: "rep s xs \<Longrightarrow> Suc (length xs) < limit \<Longrightarrow> (\<And>p. op_addr q = Some p \<Longrightarrow> p \<noteq> 0 \<and> p \<notin> used s) \<Longrightarrow>
    \<exists>s'. step s q = Some (fst (list_spec xs q), s') \<and> rep s' (snd (list_spec xs q)) \<and>
      used s' \<subseteq> used s \<union> set_option (op_addr q)"
    and empty_law: "rep s [] \<Longrightarrow> used s = base"
begin

lemma list_spec_length: "length (snd (list_spec xs q)) \<le> Suc (length xs)"
  by (cases q) (auto simp: length_remove1)

lemma run_law:
  "rep s xs \<Longrightarrow> length xs + length qs < limit \<Longrightarrow> granted_run op_addr (\<lambda>p. p \<noteq> 0) used step s qs \<Longrightarrow>
   \<exists>s'. list_run step s qs = Some (fst (list_spec_run xs qs), s') \<and> rep s' (snd (list_spec_run xs qs))"
proof (induction qs arbitrary: s xs)
  case (Cons q qs)
  obtain r ys where spec: "list_spec xs q = (r, ys)" by (cases "list_spec xs q")
  obtain s' where s': "step s q = Some (r, s')" "rep s' ys"
    using step_law [OF Cons.prems(1) _ granted_now [OF Cons.prems(3)]] Cons.prems(2) spec by fastforce
  have "length ys + length qs < limit" using list_spec_length [of xs q] Cons.prems(2) spec by simp
  then obtain s'' where "list_run step s' qs = Some (fst (list_spec_run ys qs), s'')" "rep s'' (snd (list_spec_run ys qs))"
    using Cons.IH [OF s'(2) _ granted_next [OF Cons.prems(3) s'(1)]] by blast
  then show ?case using s'(1) spec by (auto simp: Let_def split: prod.split)
qed simp

lemma may_grant_run:
  "rep s xs \<Longrightarrow> used s \<subseteq> U \<Longrightarrow> length xs + length qs < limit \<Longrightarrow> may_grant base U xs qs \<Longrightarrow>
   granted_run op_addr (\<lambda>p. p \<noteq> 0) used step s qs"
proof (induction qs arbitrary: s xs U)
  case (Cons q qs)
  obtain r ys where spec: "list_spec xs q = (r, ys)" by (cases "list_spec xs q")
  have now: "p \<noteq> 0 \<and> p \<notin> used s" if "op_addr q = Some p" for p using Cons.prems(2,4) that by auto
  obtain s' where s': "step s q = Some (r, s')" "rep s' ys" "used s' \<subseteq> used s \<union> set_option (op_addr q)"
    using step_law [OF Cons.prems(1) _ now] Cons.prems(3) spec by fastforce
  have "used s' \<subseteq> (if ys = [] then base else U \<union> set_option (op_addr q))" using empty_law s'(2,3) Cons.prems(2) by auto
  moreover have "length ys + length qs < limit" using list_spec_length [of xs q] Cons.prems(3) spec by simp
  ultimately have "granted_run op_addr (\<lambda>p. p \<noteq> 0) used step s' qs"
    using Cons.IH [OF s'(2)] Cons.prems(4) spec by (simp add: Let_def)
  then show ?case using now s'(1) by (intro granted_Cons) auto
qed simp

end

fun linked_list_step :: "'a llist \<Rightarrow> 'a list_op \<Rightarrow> ((int \<times> 'a option) \<times> 'a llist) option" where
  "linked_list_step l (Add_any p d) = do { (r, l') \<leftarrow> linked_list_add l p d; Some ((r, None), l') }"
| "linked_list_step l (Add_front p d) = do { (r, l') \<leftarrow> linked_list_add_front l p d; Some ((r, None), l') }"
| "linked_list_step l (Add_back p d) = do { (r, l') \<leftarrow> linked_list_add_back l p d; Some ((r, None), l') }"
| "linked_list_step l Remove_any = do { (r, e, l') \<leftarrow> linked_list_remove l; Some ((r, e), l') }"
| "linked_list_step l Remove_front = do { (r, e, l') \<leftarrow> linked_list_remove_front l; Some ((r, e), l') }"
| "linked_list_step l Remove_back = do { (r, e, l') \<leftarrow> linked_list_remove_back l; Some ((r, e), l') }"
| "linked_list_step l (Remove_element d) = do { (r, l') \<leftarrow> linked_list_remove_element l d; Some ((r, None), l') }"
| "linked_list_step l Detach_front = do { (r, e, l') \<leftarrow> linked_list_detach_front l; Some ((r, e), l') }"

text \<open>A list with the head \<open>h\<close> and its payloads.\<close>

definition payloads :: "nat \<Rightarrow> 'a llist \<Rightarrow> 'a list \<Rightarrow> bool" where
  "payloads h l ds \<longleftrightarrow> l_head l = h \<and> (\<exists>xs. llist_rep l xs \<and> ds = map snd xs)"

lemma rep_used: "llist_rep l xs \<Longrightarrow> dom (l_next l) = insert (l_head l) (fst ` set xs)"
  by (simp add: llist_rep_def)

lemma rep_shrunk:
  assumes "llist_rep l' ys" "llist_rep l xs" "fst ` set ys \<subseteq> fst ` set xs" "l_head l' = l_head l"
  shows "payloads (l_head l) l' (map snd ys)" "dom (l_next l') \<subseteq> dom (l_next l)"
proof -
  show "payloads (l_head l) l' (map snd ys)" using assms(1,4) by (auto simp: payloads_def)
  show "dom (l_next l') \<subseteq> dom (l_next l)"
    unfolding rep_used [OF assms(1)] rep_used [OF assms(2)] using assms(3,4) by auto
qed

lemma linked_list_step_basic:
  assumes "payloads (l_head l) l ds" "Suc (length ds) < 2 ^ 32" "\<And>p. op_addr q = Some p \<Longrightarrow> p \<noteq> 0 \<and> p \<notin> dom (l_next l)"
    "\<And>p d. q \<noteq> Add_any p d" "q \<noteq> Remove_any"
  shows "\<exists>l'. linked_list_step l q = Some (fst (list_spec ds q), l') \<and> payloads (l_head l) l' (snd (list_spec ds q)) \<and>
      dom (l_next l') \<subseteq> dom (l_next l) \<union> set_option (op_addr q)"
proof -
  obtain xs where xs: "llist_rep l xs" "ds = map snd xs" using assms(1) by (auto simp: payloads_def)
  have len: "Suc (length xs) < 2 ^ 32" using assms(2) xs(2) by simp
  have empty: "l_begin l = l_head l" if "xs = []" using begin_eq_head [OF xs(1)] that by simp
  show ?thesis
  proof (cases q)
    case (Add_front p d)
    then obtain l' where h: "llist_add_front l p d = Some (1, l')" "llist_rep l' ((p, d) # xs)" "l_head l' = l_head l"
      using llist_add_front_law [OF xs(1) _ len, of p d] assms(3) by auto
    have "payloads (l_head l) l' (d # ds)" unfolding payloads_def using h(2,3) xs(2) by (intro conjI exI [of _ "(p, d) # xs"]) simp_all
    moreover have "dom (l_next l') \<subseteq> dom (l_next l) \<union> {p}" unfolding rep_used [OF h(2)] rep_used [OF xs(1)] using h(3) by auto
    ultimately show ?thesis using Add_front h(1) by (simp add: linked_list_add_front_def)
  next
    case (Add_back p d)
    then obtain l' where h: "llist_add_back l p d = Some (1, l')" "llist_rep l' (xs @ [(p, d)])" "l_head l' = l_head l"
      using llist_add_back_law [OF xs(1) _ len, of p d] assms(3) by auto
    have "payloads (l_head l) l' (ds @ [d])" unfolding payloads_def using h(2,3) xs(2) by (intro conjI exI [of _ "xs @ [(p, d)]"]) simp_all
    moreover have "dom (l_next l') \<subseteq> dom (l_next l) \<union> {p}" unfolding rep_used [OF h(2)] rep_used [OF xs(1)] using h(3) by auto
    ultimately show ?thesis using Add_back h(1) by (simp add: linked_list_add_back_def)
  next
    case Remove_front
    show ?thesis
    proof (cases xs)
      case Nil
      then show ?thesis using Remove_front assms(1) xs(2) empty by (simp add: linked_list_remove_front_def llist_remove_front_def)
    next
      case (Cons x ys)
      then obtain l' where h: "llist_remove_front l = Some (1, Some (snd x), l')" "llist_rep l' ys" "l_head l' = l_head l"
        using llist_remove_front_law [of l "fst x" "snd x" ys] xs(1) by auto
      show ?thesis
        using Remove_front Cons xs(2) h(1) rep_shrunk [OF h(2) xs(1) _ h(3)] by (auto simp: linked_list_remove_front_def)
    qed
  next
    case Remove_back
    show ?thesis
    proof (cases xs rule: rev_cases)
      case Nil
      then show ?thesis using Remove_back assms(1) xs(2) empty by (simp add: linked_list_remove_back_def llist_remove_back_def)
    next
      case (snoc ys x)
      then obtain l' where h: "llist_remove_back l = Some (1, Some (snd x), l')" "llist_rep l' ys" "l_head l' = l_head l"
        using llist_remove_back_law [of l ys "fst x" "snd x"] xs(1) by auto
      show ?thesis
        using Remove_back snoc xs(2) h(1) rep_shrunk [OF h(2) xs(1) _ h(3)] by (auto simp: linked_list_remove_back_def)
    qed
  next
    case (Remove_element d)
    obtain l' ys where h: "llist_remove_element l d = Some (if d \<in> snd ` set xs then 1 else 0, l')" "llist_rep l' ys"
      "map snd ys = remove1 d (map snd xs)" "fst ` set ys \<subseteq> fst ` set xs" "l_head l' = l_head l"
      using llist_remove_element_law [OF xs(1), of d] by blast
    show ?thesis
      using Remove_element xs(2) h(1,3) rep_shrunk [OF h(2) xs(1) h(4,5)] by (simp add: linked_list_remove_element_def)
  next
    case Detach_front
    show ?thesis
    proof (cases xs)
      case Nil
      then show ?thesis using Detach_front assms(1) xs(2) empty
        by (simp add: linked_list_detach_front_def llist_detach_front_def llist_detach_def)
    next
      case (Cons x ys)
      then obtain l' where h: "linked_list_detach_front l = Some (1, Some (snd x), l')" "llist_rep l' ys" "l_head l' = l_head l"
        using llist_detach_front_law [of l "fst x" "snd x" ys] xs(1) by auto
      show ?thesis using Detach_front Cons xs(2) h(1) rep_shrunk [OF h(2) xs(1) _ h(3)] by auto
    qed
  qed (use assms(4,5) in blast)+
qed

text \<open>The methods \<open>add\<close> and \<open>remove\<close> are \<open>add_back\<close> and \<open>remove_front\<close>.\<close>

lemma linked_list_step_any:
  "linked_list_step l (Add_any p d) = linked_list_step l (Add_back p d)" "linked_list_step l Remove_any = linked_list_step l Remove_front"
  by (simp_all add: linked_list_add_def linked_list_add_back_def linked_list_remove_def linked_list_remove_front_def)

lemma linked_list_step_law:
  assumes "payloads h l ds" "Suc (length ds) < 2 ^ 32" "\<And>p. op_addr q = Some p \<Longrightarrow> p \<noteq> 0 \<and> p \<notin> dom (l_next l)"
  shows "\<exists>l'. linked_list_step l q = Some (fst (list_spec ds q), l') \<and> payloads h l' (snd (list_spec ds q)) \<and>
      dom (l_next l') \<subseteq> dom (l_next l) \<union> set_option (op_addr q)"
proof -
  have h: "h = l_head l" using assms(1) by (simp add: payloads_def)
  note law = linked_list_step_basic [OF assms(1) [unfolded h] assms(2), folded h]
  show ?thesis
  proof (cases q)
    case (Add_any p d)
    show ?thesis unfolding Add_any linked_list_step_any using law [of "Add_back p d"] assms(3) [unfolded Add_any] by simp
  next
    case Remove_any
    show ?thesis unfolding Remove_any linked_list_step_any using law [of Remove_front] by simp
  qed (use law [of q] assms(3) in \<open>simp del: linked_list_step.simps\<close>)+
qed

lemma payloads_empty: "payloads h l [] \<Longrightarrow> dom (l_next l) = {h}"
  using rep_used [of l "[]"] by (auto simp: payloads_def simp del: dom_eq_singleton_conv)

interpretation linked: two_ended_list linked_list_step "payloads h" "\<lambda>l. dom (l_next l)" "{h}" "2 ^ 32" for h
  by unfold_locales (rule linked_list_step_law, assumption+, rule payloads_empty)

lemma llist_init_payloads: "llist_init h = Some (l :: 'a llist) \<Longrightarrow> payloads h l []"
  using llist_init_rep [of h, where ?'a = 'a] by (cases "h = 0") (simp add: llist_init_def, auto simp: payloads_def)

text \<open>The two cases of the deletion through the field \<open>begin\<close> of the list itself.\<close>

lemma delete_only_entry:
  assumes "llist_rep l [(a, x)]" "LIST_POISON1 \<notin> dom (l_next l)"
  shows "\<exists>l'. linked_list_delete l = Some (1, l') \<and>
    (\<forall>p y. p \<notin> dom (l_next l') \<longrightarrow> p \<noteq> LIST_POISON1 \<longrightarrow> linked_list_add_front l' p y = None)"
proof -
  note r = llist_repD [OF assms(1)]
  have b: "l_begin l = a" "a \<noteq> l_head l" using r(2,6) by simp_all
  have n: "l_next l a = Some (l_head l)" "l_prev l (l_head l) = Some a" "l_next l (l_head l) = Some a" "l_prev l a = Some (l_head l)"
    using r(1) by simp_all
  define l1 where "l1 = l\<lparr>l_begin := l_head l, l_next := (l_next l)(a \<mapsto> a, l_head l \<mapsto> LIST_POISON1),
    l_prev := (l_prev l)(a \<mapsto> a, l_head l \<mapsto> LIST_POISON2)\<rparr>"
  have "list_del (l\<lparr>l_begin := l_head l\<rparr>) (l_head l) = Some l1"
    using list_del_eq [of l "l_head l" a a] n by (simp add: list_del_begin l1_def domI)
  then have "linked_list_delete l = Some (1, free_node (l1\<lparr>l_count := l_count l1 - 1\<rparr>) a)"
    using b n by (simp add: linked_list_delete_def llist_delete_def Let_def)
  moreover have "linked_list_add_front (free_node (l1\<lparr>l_count := l_count l1 - 1\<rparr>) a) p y = None"
    if "p \<notin> dom (l_next (free_node (l1\<lparr>l_count := l_count l1 - 1\<rparr>) a))" "p \<noteq> LIST_POISON1" for p y
  proof -
    let ?l = "free_node (l1\<lparr>l_count := l_count l1 - 1\<rparr>) a"
    have "p \<noteq> l_head l" using that(1) b(2) by (auto simp: free_node_def l1_def)
    then have "l_next (new_node ?l p y) (l_head l) = Some LIST_POISON1" "l_head ?l = l_head l"
      using b(2) by (simp_all add: new_node_def free_node_def l1_def)
    moreover have "LIST_POISON1 \<notin> dom (l_prev (new_node ?l p y))"
      using assms(2) r(3,4) that(2) by (auto simp: new_node_def free_node_def l1_def)
    ultimately show ?thesis
      by (simp add: linked_list_add_front_def llist_add_front_def llist_add_def list_add_after_def list_add_def set_prev_def)
  qed
  ultimately show ?thesis by blast
qed

lemma delete_first_entry:
  assumes "llist_rep l ((a, x) # (c, z) # ys)" "LIST_POISON1 \<notin> dom (l_next l)"
  shows "\<exists>l'. linked_list_delete l = Some (1, l') \<and> llist_for_each l' = None"
proof -
  note r = llist_repD [OF assms(1)]
  have b: "l_begin l = a" "a \<noteq> l_head l" using r(2,6) by simp_all
  define w where "w = hd (map fst ys @ [l_head l])"
  have n: "l_next l a = Some c" "l_prev l c = Some a" "l_next l c = Some w" "c \<noteq> a" "c \<noteq> l_head l"
    using rep_delete(2,3) [of l "[(a, x)]" c z ys] assms(1) r(1,2) by (auto simp: w_def)
  have wd: "w \<in> dom (l_prev l)" using hd_in_set [of "map fst ys @ [l_head l]"] r(4) by (auto simp: w_def)
  define l1 where "l1 = l\<lparr>l_begin := c, l_next := (l_next l)(a \<mapsto> w, c \<mapsto> LIST_POISON1),
    l_prev := (l_prev l)(w \<mapsto> a, c \<mapsto> LIST_POISON2)\<rparr>"
  have "list_del (l\<lparr>l_begin := c\<rparr>) c = Some l1"
    using list_del_eq [of l c a w] n wd by (simp add: list_del_begin l1_def domI)
  then have "linked_list_delete l = Some (1, free_node (l1\<lparr>l_count := l_count l1 - 1\<rparr>) a)"
    using b n by (simp add: linked_list_delete_def llist_delete_def Let_def)
  moreover have "llist_for_each (free_node (l1\<lparr>l_count := l_count l1 - 1\<rparr>) a) = None"
  proof -
    let ?l = "free_node (l1\<lparr>l_count := l_count l1 - 1\<rparr>) a"
    have f: "l_next ?l c = Some LIST_POISON1" "l_begin ?l = c" "l_head ?l = l_head l" "l_next ?l LIST_POISON1 = None"
      using n assms(2) by (auto simp: free_node_def l1_def domIff)
    have "each_from ?l LIST_POISON1 = None" using f(4) by (subst each_from.simps) simp
    then have "each_from ?l c = None" using f n(5) by (subst each_from.simps) (auto split: bind_splits)
    then show ?thesis using f(2) by (simp add: llist_for_each_def)
  qed
  ultimately show ?thesis by blast
qed

subsection \<open>Properties\<close>

text \<open>C40.
  For every sequence of \<open>add\<close>, \<open>add_front\<close>, \<open>add_back\<close>, \<open>remove\<close>, \<open>remove_front\<close>, \<open>remove_back\<close>, \<open>remove_element\<close> and
  \<open>detach_front\<close> on a fresh \<open>Linked_List\<close>, fewer than \<open>2 ^ 32\<close>, where each node gets an address that is not null and not in use at that
  moment (a freed one may come back): every access is to a live node, the return codes and delivered payloads are those of the abstract
  list, the traversal yields it, the count is its length, and the nodes that are still allocated are those of the list and the head.
  The method \<open>delete\<close> is not among the operations: it damages the list (theorem \<open>linked_list_delete_corrupts\<close>).\<close>
theorem linked_list_history:
  fixes l :: "'a llist"
  assumes "llist_init h = Some l" "granted_run op_addr (\<lambda>p. p \<noteq> 0) (\<lambda>l. dom (l_next l)) linked_list_step l qs" "length qs < 2 ^ 32"
  defines "ds \<equiv> snd (list_spec_run [] qs)"
  shows "\<exists>l'. list_run linked_list_step l qs = Some (fst (list_spec_run [] qs), l') \<and> llist_for_each l' = Some ds \<and>
    linked_list_count l' = of_nat (length ds) \<and> card (dom (l_next l')) = Suc (length ds)"
proof -
  have "payloads h l []" by (rule llist_init_payloads [OF assms(1)])
  then obtain l' where l': "list_run linked_list_step l qs = Some (fst (list_spec_run [] qs), l')" "payloads h l' ds"
    using linked.run_law [of h l "[]" qs] assms(2,3) by (auto simp: ds_def)
  then obtain xs where xs: "llist_rep l' xs" "ds = map snd xs" by (auto simp: payloads_def)
  then have "llist_for_each l' = Some ds"
    using each_from_ok [of l' "[]" xs] by (simp add: llist_for_each_def llist_rep_def)
  moreover have "card (dom (l_next l')) = Suc (length ds)"
  proof -
    have "card (fst ` set xs) = length xs" "l_head l' \<notin> fst ` set xs"
      using xs(1) distinct_card [of "map fst xs"] by (auto simp: llist_rep_def)
    then show ?thesis using rep_used [OF xs(1)] xs(2) by simp
  qed
  ultimately show ?thesis using l'(1) xs by (simp add: linked_list_count_def llist_get_count_def llist_rep_def)
qed

theorem linked_list_history_witness:
  "\<exists>l l'. llist_init 100 = Some l \<and>
     list_run linked_list_step l [Add_back 1 (5 :: int), Add_front 2 6, Add_any 3 7, Remove_element 5, Remove_back, Detach_front, Remove_any, Add_front 2 8] =
       Some ([(1, None), (1, None), (1, None), (1, None), (1, Some 7), (1, Some 6), (-1, None), (1, None)], l') \<and> llist_for_each l' = Some [8]"
proof -
  obtain l :: "int llist" where l: "llist_init 100 = Some l" using llist_init_rep [of 100] by auto
  let ?qs = "[Add_back 1 (5 :: int), Add_front 2 6, Add_any 3 7, Remove_element 5, Remove_back, Detach_front, Remove_any, Add_front 2 8]"
  have p: "payloads 100 l []" by (rule llist_init_payloads [OF l])
  have "may_grant {100} {100} [] ?qs" by simp
  then have "granted_run op_addr (\<lambda>p. p \<noteq> 0) (\<lambda>l. dom (l_next l)) linked_list_step l ?qs"
    using linked.may_grant_run [OF p, of "{100}" ?qs] payloads_empty [OF p] by simp
  then show ?thesis using linked_list_history [OF l, of ?qs] l by auto
qed

text \<open>\<open>llist_destroy\<close> of a well-formed list ends, returns 1 and leaves nothing of it allocated.\<close>
theorem llist_destroy_frees:
  assumes "llist_rep l xs"
  shows "\<exists>l'. llist_destroy l = Some (1, l') \<and> l_next l' = Map.empty \<and> l_prev l' = Map.empty \<and> l_data l' = Map.empty"
proof -
  have b: "l_begin l = hd (map fst xs @ [l_head l])" using assms by (simp add: llist_rep_def)
  obtain nxt where n: "l_next l (l_begin l) = Some nxt" using rep_suffix(1) [of l "[]" xs] assms b by auto
  then obtain l1 where l1: "destroy_from l (l_begin l) nxt = Some l1" "llist_rep l1 []" "l_head l1 = l_head l"
    using destroy_from_ok [OF assms, of nxt] b by auto
  have "dom (l_next (free_node l1 (l_head l1))) = {}" "dom (l_prev (free_node l1 (l_head l1))) = {}" "l_data (free_node l1 (l_head l1)) = Map.empty"
    using l1(2) by (auto simp: llist_rep_def free_node_def)
  moreover have "l_begin l1 = l_head l1" using begin_eq_head [OF l1(2)] by simp
  ultimately show ?thesis using n l1(1) by (simp add: llist_destroy_def)
qed

theorem llist_destroy_frees_witness:
  "\<exists>l l'. llist_init 100 = Some (l :: int llist) \<and> llist_destroy l = Some (1, l') \<and> l_next l' = Map.empty"
proof -
  obtain l :: "int llist" where "llist_init 100 = Some l" "llist_rep l []" using llist_init_rep [of 100] by auto
  then show ?thesis using llist_destroy_frees [of l "[]"] by blast
qed

text \<open>The method \<open>delete\<close> passes the address of the field \<open>begin\<close> itself as the position: \<open>llist_delete\<close> advances \<open>begin\<close>
  first, so that it unlinks the entry behind the first one and frees the first one.  On a list of at least two entries the
  next traversal follows the poisoned link of the unlinked entry; on a list of one entry the head itself is
  unlinked and the next addition at the front writes through its poisoned link.\<close>
theorem linked_list_delete_corrupts:
  assumes "llist_rep l ((a, x) # xs)" "LIST_POISON1 \<notin> dom (l_next l)"
  shows "\<exists>l'. linked_list_delete l = Some (1, l') \<and>
    (if xs = [] then (\<forall>p y. p \<notin> dom (l_next l') \<longrightarrow> p \<noteq> LIST_POISON1 \<longrightarrow> linked_list_add_front l' p y = None) else llist_for_each l' = None)"
proof (cases xs)
  case Nil
  then show ?thesis using delete_only_entry [of l a x] assms by auto
next
  case (Cons y ys)
  then show ?thesis using delete_first_entry [of l a x "fst y" "snd y" ys] assms by auto
qed

theorem linked_list_delete_corrupts_witness:
  "\<exists>l l'. linked_list_delete (l :: int llist) = Some (1, l') \<and> (\<forall>p y. p \<notin> dom (l_next l') \<longrightarrow> p \<noteq> LIST_POISON1 \<longrightarrow> linked_list_add_front l' p y = None)"
proof -
  obtain l0 :: "int llist" where l0: "llist_rep l0 []" "l_head l0 = 100" using llist_init_rep [of 100] by auto
  obtain l :: "int llist" where l: "llist_rep l [(1, 5)]" "l_head l = 100"
    using llist_add_front_law [OF l0(1), of 1 "5 :: int"] rep_used [OF l0(1)] l0(2) by auto
  then have "LIST_POISON1 \<notin> dom (l_next l)" using rep_used [OF l(1)] by simp
  then show ?thesis using linked_list_delete_corrupts [OF l(1)] by auto
qed

end
