(* ===== verification/HashList.thy ===== *)
theory HashList
  imports Service "HOL-Library.Multiset"
begin

text \<open>
  The chained hash table of \<open>core/utils/data_structure/hash_map/hash_list.c\<close> over the \<open>hlist\<close> primitives of \<open>list.h\<close>,
  the class \<open>Hash_Map\<close> with its iterator, and the loops of the class \<open>Map\<close> that run on them.  Keys and values are the
  pointers that the code stores, addresses of nodes are numbers with 0 for \<open>NULL\<close>.  The heap is split by field; an access to
  a node that is not live, or to a bucket outside the array, is undefined.  A field \<open>pprev\<close> holds the address of a
  pointer: of the head of a bucket or of the field \<open>next\<close> of a node.  The address that the allocator returns is an argument
  of the insertion.  The fields \<open>hlist\<close> and \<open>hmap\<close> of a position are those of the one map and are not represented; the locks are
  not modelled.
\<close>

type_synonym ptr = "64 word"

datatype slot = No_slot | First nat | Next nat | Poison

record hash_map_pos =
  hlist_node_p :: nat
  bucket_pos :: u32

record hash_map =
  hlist :: "nat list"
  h_next :: "nat \<rightharpoonup> nat"
  h_pprev :: "nat \<rightharpoonup> slot"
  h_key :: "nat \<rightharpoonup> ptr"
  h_value :: "nat \<rightharpoonup> ptr"
  bucket_size :: u32
  hash_func :: "ptr \<Rightarrow> u32 \<Rightarrow> u32"
  key_cmp_func :: "(ptr \<Rightarrow> ptr \<Rightarrow> int) option"
  h_begin :: hash_map_pos
  h_end :: hash_map_pos
  node_count :: u32

definition default_key_cmp_func :: "ptr \<Rightarrow> ptr \<Rightarrow> int" where
  "default_key_cmp_func key1 key2 = (if key1 > key2 then 1 else if key1 < key2 then -1 else 0)"

definition default_hash_func :: "ptr \<Rightarrow> u32 \<Rightarrow> u32" where
  "default_hash_func key bsize = ucast key mod bsize"

subsection \<open>Hash chains\<close>

definition set_hnext :: "hash_map \<Rightarrow> nat \<Rightarrow> nat \<Rightarrow> hash_map option" where
  "set_hnext m a v = (if a \<in> dom (h_next m) then Some (m\<lparr>h_next := (h_next m)(a \<mapsto> v)\<rparr>) else None)"

definition set_pprev :: "hash_map \<Rightarrow> nat \<Rightarrow> slot \<Rightarrow> hash_map option" where
  "set_pprev m a s = (if a \<in> dom (h_pprev m) then Some (m\<lparr>h_pprev := (h_pprev m)(a \<mapsto> s)\<rparr>) else None)"

definition set_first :: "hash_map \<Rightarrow> nat \<Rightarrow> nat \<Rightarrow> hash_map option" where
  "set_first m i v = (if i < length (hlist m) then Some (m\<lparr>hlist := (hlist m)[i := v]\<rparr>) else None)"

definition get_first :: "hash_map \<Rightarrow> nat \<Rightarrow> nat option" where
  "get_first m i = (if i < length (hlist m) then Some (hlist m ! i) else None)"

text \<open>The store \<open>*pprev = v\<close>.\<close>

fun set_slot :: "hash_map \<Rightarrow> slot \<Rightarrow> nat \<Rightarrow> hash_map option" where
  "set_slot m (First i) v = set_first m i v"
| "set_slot m (Next a) v = set_hnext m a v"
| "set_slot m No_slot v = None"
| "set_slot m Poison v = None"

definition INIT_HLIST_NODE :: "hash_map \<Rightarrow> nat \<Rightarrow> hash_map option" where
  "INIT_HLIST_NODE m n = do { m1 \<leftarrow> set_hnext m n 0; set_pprev m1 n No_slot }"

definition hlist_add_head :: "hash_map \<Rightarrow> nat \<Rightarrow> nat \<Rightarrow> hash_map option" where
  "hlist_add_head m n i =
     do { first \<leftarrow> get_first m i;
          m1 \<leftarrow> set_hnext m n first;
          m2 \<leftarrow> (if first \<noteq> 0 then set_pprev m1 first (Next n) else Some m1);
          m3 \<leftarrow> set_first m2 i n;
          set_pprev m3 n (First i) }"

definition hlist_unlink :: "hash_map \<Rightarrow> nat \<Rightarrow> hash_map option" where
  "hlist_unlink m n =
     do { nxt \<leftarrow> h_next m n;
          pprev \<leftarrow> h_pprev m n;
          m1 \<leftarrow> set_slot m pprev nxt;
          if nxt \<noteq> 0 then set_pprev m1 nxt pprev else Some m1 }"

definition hlist_del :: "hash_map \<Rightarrow> nat \<Rightarrow> hash_map option" where
  "hlist_del m n = do { m1 \<leftarrow> hlist_unlink m n; m2 \<leftarrow> set_hnext m1 n 0x00100100; set_pprev m2 n Poison }"

subsection \<open>Positions\<close>

definition hash_map_begin :: "hash_map \<Rightarrow> hash_map_pos" where
  "hash_map_begin m = \<lparr>hlist_node_p = hlist_node_p (h_begin m), bucket_pos = bucket_pos (h_begin m)\<rparr>"

definition hash_map_end :: "hash_map \<Rightarrow> hash_map_pos" where
  "hash_map_end m = \<lparr>hlist_node_p = hlist_node_p (h_end m), bucket_pos = bucket_pos (h_end m)\<rparr>"

definition hash_map_pos_equal :: "hash_map_pos \<Rightarrow> hash_map_pos \<Rightarrow> bool" where
  "hash_map_pos_equal pos1 pos2 \<longleftrightarrow> hlist_node_p pos1 = hlist_node_p pos2"

definition hash_map_pos_get_pointer :: "hash_map \<Rightarrow> hash_map_pos \<Rightarrow> ptr option" where
  "hash_map_pos_get_pointer m pos = h_value m (hlist_node_p pos)"

definition hash_map_pos_get_kpointer :: "hash_map \<Rightarrow> hash_map_pos \<Rightarrow> ptr option" where
  "hash_map_pos_get_kpointer m pos = h_key m (hlist_node_p pos)"

text \<open>The loop over the later buckets: the first one from \<open>b\<close> on with a node in it.\<close>

lemma unat_step: "(b :: u32) < c \<Longrightarrow> unat (b + 1) = Suc (unat b)"
proof -
  assume "b < c"
  then have "unat b < unat c" by (simp add: word_less_nat_alt)
  moreover have "unat c < 2 ^ LENGTH(32)" by (rule unsigned_less)
  ultimately have "unat b + 1 < 2 ^ LENGTH(32)" by linarith
  then show ?thesis by (simp add: unat_word_ariths)
qed

lemma unat_sub_one: "0 < unat (c :: u32) \<Longrightarrow> unat (c - 1) = unat c - 1"
  by (simp add: unat_sub word_le_nat_alt)

function next_bucket :: "nat list \<Rightarrow> u32 \<Rightarrow> u32 \<Rightarrow> (nat \<times> u32) option option" where
  "next_bucket fs bsize b =
     (if b < bsize then
        (if unat b < length fs then
           (if fs ! unat b \<noteq> 0 then Some (Some (fs ! unat b, b)) else next_bucket fs bsize (b + 1))
         else None)
      else Some None)"
  by auto
termination
  by (relation "measure (\<lambda>(fs, bsize, b). unat bsize - unat b)") (auto simp: unat_step word_less_nat_alt)

declare next_bucket.simps [simp del]

text \<open>The return code and \<open>*next\<close>, which the first and the last branch leave as it is; \<open>None\<close> is a position that is not initialised.\<close>

definition hash_map_pos_next :: "hash_map \<Rightarrow> hash_map_pos \<Rightarrow> hash_map_pos option \<Rightarrow> (int \<times> hash_map_pos option) option" where
  "hash_map_pos_next m pos nx =
     (if hlist_node_p pos = 0 then Some (-1, nx)
      else
        do { n \<leftarrow> h_next m (hlist_node_p pos);
             if n \<noteq> 0 then Some (0, Some \<lparr>hlist_node_p = n, bucket_pos = bucket_pos pos\<rparr>)
             else if bucket_pos pos < bucket_size m - 1 then
               do { r \<leftarrow> next_bucket (hlist m) (bucket_size m) (bucket_pos pos + 1);
                    (case r of
                       Some (f, b) \<Rightarrow> Some (0, Some \<lparr>hlist_node_p = f, bucket_pos = b\<rparr>)
                     | None \<Rightarrow> Some (0, Some \<lparr>hlist_node_p = 0, bucket_pos = bucket_size m - 1\<rparr>)) }
             else if bucket_pos pos = bucket_size m - 1 then Some (0, Some \<lparr>hlist_node_p = 0, bucket_pos = bucket_pos pos\<rparr>)
             else Some (0, nx) })"

subsection \<open>Operations\<close>

text \<open>
  \<open>hash_map_init\<close> on the settings that \<open>hash_map_set\<close> left: a size and two functions, 0 and \<open>None\<close> when not set.  \<open>granted\<close> says whether the
  allocator grants the array of buckets; a null array is the empty list, and the positions then stay as \<open>hash_map_alloc\<close> cleared them.
\<close>

definition hash_map_init :: "bool \<Rightarrow> u32 \<Rightarrow> (ptr \<Rightarrow> u32 \<Rightarrow> u32) option \<Rightarrow> (ptr \<Rightarrow> ptr \<Rightarrow> int) option \<Rightarrow> int \<times> hash_map" where
  "hash_map_init granted bsize hf cmp =
     (let bsize' = (if bsize = 0 then 20 else bsize);
          m = \<lparr>hlist = [], h_next = Map.empty, h_pprev = Map.empty, h_key = Map.empty, h_value = Map.empty,
               bucket_size = bsize',
               hash_func = (case hf of None \<Rightarrow> default_hash_func | Some f \<Rightarrow> f),
               key_cmp_func = (case cmp of None \<Rightarrow> Some default_key_cmp_func | Some f \<Rightarrow> Some f),
               h_begin = \<lparr>hlist_node_p = 0, bucket_pos = 0\<rparr>, h_end = \<lparr>hlist_node_p = 0, bucket_pos = 0\<rparr>, node_count = 0\<rparr>
      in if \<not> granted then (-1, m)
         else (1, m\<lparr>hlist := replicate (unat bsize') 0, h_begin := \<lparr>hlist_node_p = 0, bucket_pos = 0\<rparr>,
                    h_end := \<lparr>hlist_node_p = 0, bucket_pos = bsize' - 1\<rparr>\<rparr>))"

definition new_hnode :: "hash_map \<Rightarrow> nat \<Rightarrow> ptr \<Rightarrow> ptr \<Rightarrow> hash_map" where
  "new_hnode m p key val =
     m\<lparr>h_next := (h_next m)(p \<mapsto> 0), h_pprev := (h_pprev m)(p \<mapsto> No_slot), h_key := (h_key m)(p \<mapsto> key), h_value := (h_value m)(p \<mapsto> val)\<rparr>"

definition free_hnode :: "hash_map \<Rightarrow> nat \<Rightarrow> hash_map" where
  "free_hnode m p =
     m\<lparr>h_next := (h_next m)(p := None), h_pprev := (h_pprev m)(p := None), h_key := (h_key m)(p := None), h_value := (h_value m)(p := None)\<rparr>"

text \<open>The address 0 is a refusal of the allocator.  The assertion allows the bucket number \<open>bucket_size\<close>, one past the array.\<close>

definition hash_map_insert :: "hash_map \<Rightarrow> nat \<Rightarrow> ptr \<Rightarrow> ptr \<Rightarrow> (int \<times> hash_map) option" where
  "hash_map_insert m p key val =
     (if p = 0 then Some (-1, m)
      else
        do { m1 \<leftarrow> INIT_HLIST_NODE (new_hnode m p key val) p;
             let bpos = hash_func m key (bucket_size m);
             guard (bpos \<le> bucket_size m);
             m2 \<leftarrow> hlist_add_head m1 p (unat bpos);
             m3 \<leftarrow> (if hlist_node_p (h_begin m2) = 0 \<or> bpos \<le> bucket_pos (h_begin m2) then
                     do { f \<leftarrow> get_first m2 (unat bpos); Some (m2\<lparr>h_begin := \<lparr>hlist_node_p = f, bucket_pos = bpos\<rparr>\<rparr>) }
                   else Some m2);
             Some (sint (node_count m3), m3\<lparr>node_count := node_count m3 + 1\<rparr>) })"

partial_function (option) search_chain :: "hash_map \<Rightarrow> (ptr \<Rightarrow> ptr \<Rightarrow> int) \<Rightarrow> ptr \<Rightarrow> nat \<Rightarrow> nat option option" where
  "search_chain m cmp key pos =
     (if pos = 0 then Some None
      else do { nxt \<leftarrow> h_next m pos;
                k \<leftarrow> h_key m pos;
                if cmp k key = 0 then Some (Some pos) else search_chain m cmp key nxt })"

definition hash_map_search :: "hash_map \<Rightarrow> ptr \<Rightarrow> (int \<times> hash_map_pos option) option" where
  "hash_map_search m key =
     (let bpos = hash_func m key (bucket_size m) in
      do { guard (bpos \<le> bucket_size m);
           (case key_cmp_func m of
              None \<Rightarrow> Some (-1, None)
            | Some cmp \<Rightarrow>
                do { f \<leftarrow> get_first m (unat bpos);
                     r \<leftarrow> search_chain m cmp key f;
                     (case r of
                        Some a \<Rightarrow> Some (1, Some \<lparr>hlist_node_p = a, bucket_pos = bpos\<rparr>)
                      | None \<Rightarrow> Some (-1, None)) }) })"

text \<open>What \<open>hash_map_delete\<close> and \<open>hash_map_remove\<close> share: the begin is moved on, the node is unlinked and counted off.\<close>

definition hash_map_unlink :: "hash_map \<Rightarrow> hash_map_pos \<Rightarrow> hash_map option" where
  "hash_map_unlink m pos =
     do { m1 \<leftarrow> (if hash_map_pos_equal pos (h_begin m) then
                  do { (r, next) \<leftarrow> hash_map_pos_next m pos None; nx \<leftarrow> next; Some (m\<lparr>h_begin := nx\<rparr>) }
                else Some m);
          m2 \<leftarrow> hlist_del m1 (hlist_node_p pos);
          Some (m2\<lparr>node_count := node_count m2 - 1\<rparr>) }"

definition hash_map_delete :: "hash_map \<Rightarrow> hash_map_pos \<Rightarrow> (int \<times> hash_map) option" where
  "hash_map_delete m pos = do { m1 \<leftarrow> hash_map_unlink m pos; Some (1, free_hnode m1 (hlist_node_p pos)) }"

definition hash_map_remove :: "hash_map \<Rightarrow> hash_map_pos \<Rightarrow> (int \<times> ptr \<times> hash_map) option" where
  "hash_map_remove m pos =
     do { m1 \<leftarrow> hash_map_unlink m pos; v \<leftarrow> h_value m1 (hlist_node_p pos); Some (1, v, free_hnode m1 (hlist_node_p pos)) }"

partial_function (option) destroy_nodes :: "hash_map \<Rightarrow> hash_map option" where
  "destroy_nodes m =
     (if hash_map_pos_equal (hash_map_begin m) (h_end m) then Some m
      else do { (r, m1) \<leftarrow> hash_map_delete m (hash_map_begin m); destroy_nodes m1 })"

definition hash_map_destroy :: "hash_map \<Rightarrow> (int \<times> hash_map) option" where
  "hash_map_destroy m =
     do { m1 \<leftarrow> destroy_nodes m;
          Some (1, if hash_map_pos_equal (h_end m1) (hash_map_begin m1) then m1\<lparr>hlist := []\<rparr> else m1) }"

definition hash_map_get_count :: "hash_map \<Rightarrow> int" where
  "hash_map_get_count m = sint (node_count m)"

text \<open>The positions that \<open>hash_map_for_each\<close> passes to its callback.\<close>

partial_function (option) each_pos :: "hash_map \<Rightarrow> hash_map_pos \<Rightarrow> hash_map_pos option \<Rightarrow> hash_map_pos list option" where
  "each_pos m pos next =
     (if hash_map_pos_equal pos (h_end m) then Some []
      else do { nx \<leftarrow> next; (r, next') \<leftarrow> hash_map_pos_next m nx next; ps \<leftarrow> each_pos m nx next'; Some (pos # ps) })"

definition hash_map_for_each :: "hash_map \<Rightarrow> hash_map_pos list option" where
  "hash_map_for_each m =
     do { (r, next) \<leftarrow> hash_map_pos_next m (hash_map_begin m) None; each_pos m (hash_map_begin m) next }"

subsection \<open>The class Hash_Map and the loops of the class Map\<close>

text \<open>
  The constructor does not pass the attribute \<open>bucket_size\<close> of the object on, so that the table gets the default size, and does not look at
  the return code of the initialisation.
\<close>

definition Hash_Map_construct :: "bool \<Rightarrow> u16 \<Rightarrow> int \<times> hash_map" where
  "Hash_Map_construct granted attr = (1, snd (hash_map_init granted 0 None None))"

definition Hash_Map_add :: "hash_map \<Rightarrow> nat \<Rightarrow> ptr \<Rightarrow> ptr \<Rightarrow> (int \<times> hash_map) option" where
  "Hash_Map_add m p key val = hash_map_insert m p key val"

text \<open>The stored element is \<open>None\<close> when the code stores none.\<close>

definition Hash_Map_search :: "hash_map \<Rightarrow> ptr \<Rightarrow> (int \<times> ptr option) option" where
  "Hash_Map_search m key =
     do { (ret, pos) \<leftarrow> hash_map_search m key;
          if ret = 1 then do { q \<leftarrow> pos; v \<leftarrow> hash_map_pos_get_pointer m q; Some (ret, Some v) } else Some (ret, None) }"

definition Hash_Map_remove :: "hash_map \<Rightarrow> ptr \<Rightarrow> (int \<times> ptr option \<times> hash_map) option" where
  "Hash_Map_remove m key =
     do { (ret, pos) \<leftarrow> hash_map_search m key;
          if ret = 1 then
            do { q \<leftarrow> pos; v \<leftarrow> hash_map_pos_get_pointer m q; (ret', m') \<leftarrow> hash_map_delete m q; Some (ret', Some v, m') }
          else Some (ret, None, m) }"

definition Hash_Map_del :: "hash_map \<Rightarrow> ptr \<Rightarrow> (int \<times> hash_map) option" where
  "Hash_Map_del m key =
     do { (ret, pos) \<leftarrow> hash_map_search m key;
          if ret \<noteq> 1 then Some (ret, m) else do { q \<leftarrow> pos; hash_map_delete m q } }"

definition Hash_Map_set_cmp_func :: "hash_map \<Rightarrow> (ptr \<Rightarrow> ptr \<Rightarrow> int) option \<Rightarrow> int \<times> hash_map" where
  "Hash_Map_set_cmp_func m f = (1, m\<lparr>key_cmp_func := f\<rparr>)"

text \<open>The reconstruction makes a fresh table with the default functions.\<close>

definition Hash_Map_reconstruct :: "hash_map \<Rightarrow> bool \<Rightarrow> u16 \<Rightarrow> (int \<times> hash_map) option" where
  "Hash_Map_reconstruct m granted attr = do { (r, m1) \<leftarrow> hash_map_destroy m; Some (1, snd (hash_map_init granted 0 None None)) }"

definition Map_contain_key :: "hash_map \<Rightarrow> ptr \<Rightarrow> int option" where
  "Map_contain_key m key = map_option fst (hash_map_search m key)"

definition Hmap_Iterator_next :: "hash_map \<Rightarrow> hash_map_pos \<Rightarrow> hash_map_pos option" where
  "Hmap_Iterator_next m it = do { (r, next) \<leftarrow> hash_map_pos_next m it (Some it); next }"

text \<open>The keys and values that \<open>Map.for_each\<close> passes to its callback, from an iterator.\<close>

partial_function (option) map_each :: "hash_map \<Rightarrow> hash_map_pos \<Rightarrow> (ptr \<times> ptr) list option" where
  "map_each m cur =
     (if hash_map_pos_equal (hash_map_end m) cur then Some []
      else do { key \<leftarrow> hash_map_pos_get_kpointer m cur;
                val \<leftarrow> hash_map_pos_get_pointer m cur;
                cur' \<leftarrow> Hmap_Iterator_next m cur;
                rest \<leftarrow> map_each m cur';
                Some ((key, val) # rest) })"

definition Map_for_each :: "hash_map \<Rightarrow> (ptr \<times> ptr) list option" where
  "Map_for_each m = map_each m (hash_map_begin m)"

text \<open>
  \<open>Map.reset\<close>: the elements are removed one by one through the key of the first position and released by their type.  The
  release is recorded; the class that frees a struct is an attribute of the map (\<open>None\<close>: no class name is set; \<open>Some b\<close>: one is,
  and \<open>b\<close> says whether it has a method \<open>free\<close>).
\<close>

record map_config =
  trustee_flag :: u8
  value_type :: u8
  class_free :: "bool option"
  value_free_callback :: bool

abbreviation VALUE_TYPE_ALLOC_POINTER :: u8 where "VALUE_TYPE_ALLOC_POINTER \<equiv> 10"
abbreviation VALUE_TYPE_STRUCT_POINTER :: u8 where "VALUE_TYPE_STRUCT_POINTER \<equiv> 11"
abbreviation VALUE_TYPE_OBJ_POINTER :: u8 where "VALUE_TYPE_OBJ_POINTER \<equiv> 13"
abbreviation VALUE_TYPE_STRING_POINTER :: u8 where "VALUE_TYPE_STRING_POINTER \<equiv> 14"

datatype release = Object_destroy ptr | Mem_free ptr | Free_method ptr | Free_callback ptr

text \<open>\<open>None\<close> is the early return of -1.\<close>

definition release_element :: "map_config \<Rightarrow> ptr \<Rightarrow> release list option" where
  "release_element cfg e =
     (if trustee_flag cfg \<noteq> 1 \<or> e = 0 then Some []
      else if value_type cfg = VALUE_TYPE_OBJ_POINTER then Some [Object_destroy e]
      else if value_type cfg = VALUE_TYPE_STRING_POINTER then Some [Object_destroy e]
      else if value_type cfg = VALUE_TYPE_ALLOC_POINTER then Some [Mem_free e]
      else if value_type cfg = VALUE_TYPE_STRUCT_POINTER then
        (case class_free cfg of
           Some found \<Rightarrow> (if found then Some [Free_method e] else None)
         | None \<Rightarrow> Some [if value_free_callback cfg then Free_callback e else Mem_free e])
      else Some [])"

text \<open>The element after an iteration: the two \<open>continue\<close> statements skip the final \<open>element = NULL\<close>.\<close>

definition keeps_element :: "map_config \<Rightarrow> ptr \<Rightarrow> bool" where
  "keeps_element cfg e \<longleftrightarrow>
     trustee_flag cfg \<noteq> 1 \<or> e = 0 \<or> (value_type cfg = VALUE_TYPE_STRUCT_POINTER \<and> class_free cfg \<noteq> None)"

partial_function (option) Map_reset :: "map_config \<Rightarrow> hash_map \<Rightarrow> ptr option \<Rightarrow> (int \<times> release list \<times> hash_map) option" where
  "Map_reset cfg m element =
     (if hash_map_pos_equal (hash_map_end m) (hash_map_begin m) then Some (1, [], m)
      else
        do { key \<leftarrow> hash_map_pos_get_kpointer m (hash_map_begin m);
             (r, found, m1) \<leftarrow> Hash_Map_remove m key;
             e \<leftarrow> (case found of Some v \<Rightarrow> Some v | None \<Rightarrow> element);
             (case release_element cfg e of
                None \<Rightarrow> Some (-1, [], m1)
              | Some rel \<Rightarrow>
                  do { (ret, rels, m2) \<leftarrow> Map_reset cfg m1 (Some (if keeps_element cfg e then e else 0));
                       Some (ret, rel @ rels, m2) }) })"

definition Hash_Map_deconstruct :: "map_config \<Rightarrow> hash_map \<Rightarrow> (int \<times> release list \<times> hash_map) option" where
  "Hash_Map_deconstruct cfg m =
     do { (r, rels, m1) \<leftarrow> Map_reset cfg m None; (r', m2) \<leftarrow> hash_map_destroy m1; Some (1, rels, m2) }"

subsection \<open>Chains in the heap\<close>

text \<open>
  The nodes \<open>xs\<close> are linked from the pointer value \<open>v\<close>, stored at \<open>s\<close>, to the value \<open>w\<close>; each \<open>pprev\<close> names the place that
  points to its node.
\<close>

primrec seg :: "(nat \<rightharpoonup> nat) \<Rightarrow> (nat \<rightharpoonup> slot) \<Rightarrow> slot \<Rightarrow> nat \<Rightarrow> nat list \<Rightarrow> nat \<Rightarrow> bool" where
  "seg nx pv s v [] w \<longleftrightarrow> v = w"
| "seg nx pv s v (x # xs) w \<longleftrightarrow> v = x \<and> x \<noteq> 0 \<and> pv x = Some s \<and> (\<exists>u. nx x = Some u \<and> seg nx pv (Next x) u xs w)"

definition slot_after :: "slot \<Rightarrow> nat list \<Rightarrow> slot" where
  "slot_after s us = (if us = [] then s else Next (last us))"

lemma slot_after_simps [simp]: "slot_after s [] = s" "slot_after s (x # us) = slot_after (Next x) us"
  by (simp_all add: slot_after_def)

lemma chain_cong: "(\<And>x. x \<in> set xs \<Longrightarrow> nx x = nx' x \<and> pv x = pv' x) \<Longrightarrow> seg nx pv s v xs w = seg nx' pv' s v xs w"
  by (induction xs arbitrary: s v) auto

lemma seg_other: "a \<notin> set xs \<Longrightarrow> seg (nx(a := u)) (pv(a := t)) s v xs w = seg nx pv s v xs w"
  by (rule chain_cong) auto

lemma seg_next_other: "a \<notin> set xs \<Longrightarrow> seg (nx(a := u)) pv s v xs w = seg nx pv s v xs w"
  by (rule chain_cong) auto

lemma seg_prev_other: "a \<notin> set xs \<Longrightarrow> seg nx (pv(a := t)) s v xs w = seg nx pv s v xs w"
  by (rule chain_cong) auto

lemma seg_append: "seg nx pv s v (us @ vs) w \<longleftrightarrow> (\<exists>u. seg nx pv s v us u \<and> seg nx pv (slot_after s us) u vs w)"
  by (induction us arbitrary: s v) auto

lemma seg_start: "seg nx pv s v xs 0 \<Longrightarrow> v = hd (xs @ [0])"
  by (cases xs) auto

lemma seg_nonnull: "seg nx pv s v xs w \<Longrightarrow> 0 \<notin> set xs"
  by (induction xs arbitrary: s v) auto

lemma seg_reslot:
  assumes "seg nx pv s v xs 0" "distinct xs"
  shows "seg nx (if v = 0 then pv else pv(v \<mapsto> t)) t v xs 0"
proof (cases xs)
  case (Cons x ys)
  then obtain u where u: "v = x" "x \<noteq> 0" "nx x = Some u" "seg nx pv (Next x) u ys 0" using assms(1) by auto
  then have "seg nx (pv(x \<mapsto> t)) (Next x) u ys 0" using assms(2) Cons by (subst chain_cong [where nx' = nx and pv' = pv]) auto
  then show ?thesis using u Cons by auto
qed (use assms in auto)

lemma seg_retarget: "seg nx pv s v us u \<Longrightarrow> us \<noteq> [] \<Longrightarrow> distinct us \<Longrightarrow> seg (nx(last us \<mapsto> w)) pv s v us w"
proof (induction us arbitrary: s v)
  case (Cons x us)
  show ?case
  proof (cases "us = []")
    case False
    then have "last us \<noteq> x" using Cons.prems(3) by auto
    then show ?thesis using Cons False by auto
  qed (use Cons.prems in auto)
qed simp

text \<open>A node is taken out of a chain.\<close>

lemma seg_remove:
  assumes "seg nx pv s v (us @ e # vs) 0" "distinct (us @ e # vs)"
  defines "w \<equiv> hd (vs @ [0])" and "t \<equiv> slot_after s us"
  shows "pv e = Some t" "nx e = Some w" "e \<noteq> 0"
    "seg (if us = [] then nx else nx(last us \<mapsto> w)) (if w = 0 then pv else pv(w \<mapsto> t)) s (if us = [] then w else v) (us @ vs) 0"
proof -
  obtain u where u: "seg nx pv s v us e" "pv e = Some t" "e \<noteq> 0" "nx e = Some u" "seg nx pv (Next e) u vs 0"
    using assms(1) by (auto simp: seg_append t_def)
  then have uw: "u = w" using seg_start w_def by metis
  show "pv e = Some t" "nx e = Some w" "e \<noteq> 0" using u uw by auto
  let ?nx = "if us = [] then nx else nx(last us \<mapsto> w)" and ?pv = "if w = 0 then pv else pv(w \<mapsto> t)"
  have lu: "us \<noteq> [] \<Longrightarrow> last us \<notin> set vs" using last_in_set [of us] assms(2) by (auto simp: disjoint_iff)
  have wmem: "w \<in> insert 0 (set vs)" using hd_in_set [of "vs @ [0]"] by (auto simp: w_def)
  have "seg ?nx ?pv s (if us = [] then w else v) us w"
  proof (cases "us = []")
    case False
    then have "seg (nx(last us \<mapsto> w)) pv s v us w" using seg_retarget [OF u(1)] assms(2) by simp
    moreover have "seg (nx(last us \<mapsto> w)) pv s v us w = seg ?nx ?pv s v us w"
      by (rule chain_cong) (use False wmem assms(2) seg_nonnull [OF u(1)] in auto)
    ultimately show ?thesis using False by simp
  qed simp
  moreover have "seg ?nx ?pv t w vs 0"
  proof -
    have "seg nx ?pv t w vs 0" using seg_reslot [of nx pv "Next e" w vs t] u(5) uw assms(2) by simp
    moreover have "seg nx ?pv t w vs 0 = seg ?nx ?pv t w vs 0"
      by (rule chain_cong) (use lu in auto)
    ultimately show ?thesis by simp
  qed
  ultimately show "seg ?nx ?pv s (if us = [] then w else v) (us @ vs) 0" by (auto simp: seg_append t_def)
qed

subsection \<open>Buckets\<close>

type_synonym entry = "nat \<times> ptr \<times> ptr"

text \<open>The entries of a bucket, and all entries in the order of the buckets.\<close>

definition bucket :: "(ptr \<Rightarrow> nat) \<Rightarrow> entry list \<Rightarrow> nat \<Rightarrow> entry list" where
  "bucket hb es i = filter (\<lambda>e. hb (fst (snd e)) = i) es"

definition bucket_order :: "(ptr \<Rightarrow> nat) \<Rightarrow> nat \<Rightarrow> entry list \<Rightarrow> entry list" where
  "bucket_order hb n es = concat (map (bucket hb es) [0..<n])"

definition without :: "nat \<Rightarrow> entry list \<Rightarrow> entry list" where
  "without a es = filter (\<lambda>e. fst e \<noteq> a) es"

lemma bucket_Cons: "bucket hb (e # es) i = (if hb (fst (snd e)) = i then e # bucket hb es i else bucket hb es i)"
  by (simp add: bucket_def)

lemma set_bucket: "set (bucket hb es i) = {e \<in> set es. hb (fst (snd e)) = i}"
  by (auto simp: bucket_def)

lemma distinct_bucket: "distinct (map fst es) \<Longrightarrow> distinct (map fst (bucket hb es i))"
  by (simp add: bucket_def distinct_map_filter)

lemma bucket_without: "bucket hb (without a es) i = without a (bucket hb es i)"
  by (simp add: bucket_def without_def conj_commute)

lemma order_without: "bucket_order hb n (without a es) = without a (bucket_order hb n es)"
  unfolding bucket_order_def bucket_without by (simp add: without_def filter_concat comp_def)

lemma without_absent: "a \<notin> fst ` set es \<Longrightarrow> without a es = es"
  by (force simp: without_def filter_id_conv)

lemma without_split: "distinct (map fst (us @ e # vs)) \<Longrightarrow> without (fst e) (us @ e # vs) = us @ vs"
  using without_absent [of "fst e" us] without_absent [of "fst e" vs] by (simp add: without_def)

lemma order_split: "i < n \<Longrightarrow>
   bucket_order hb n es = concat (map (bucket hb es) [0..<i]) @ bucket hb es i @ concat (map (bucket hb es) [Suc i..<n])"
  using upt_add_eq_append [of 0 i "n - i"] by (simp add: bucket_order_def upt_conv_Cons)

lemma mset_order: "\<forall>e \<in> set es. hb (fst (snd e)) < n \<Longrightarrow> mset (bucket_order hb n es) = mset es"
proof (induction es)
  case (Cons e es)
  let ?i = "hb (fst (snd e))"
  have i: "?i < n" using Cons.prems by simp
  have "map (bucket hb (e # es)) [0..<?i] = map (bucket hb es) [0..<?i]"
    "map (bucket hb (e # es)) [Suc ?i..<n] = map (bucket hb es) [Suc ?i..<n]" by (auto simp: bucket_Cons)
  then show ?case using Cons order_split [OF i, of hb "e # es"] order_split [OF i, of hb es] by (simp add: bucket_Cons del: map_eq_conv)
qed (simp add: bucket_order_def bucket_def)

lemma set_order: "\<forall>e \<in> set es. hb (fst (snd e)) < n \<Longrightarrow> set (bucket_order hb n es) = set es"
  using mset_order [of es hb n] by (rule mset_eq_setD)

lemma distinct_order:
  assumes "\<forall>e \<in> set es. hb (fst (snd e)) < n" "distinct (map fst es)"
  shows "distinct (map fst (bucket_order hb n es))"
proof -
  have "mset (map fst (bucket_order hb n es)) = mset (map fst es)" using mset_order [OF assms(1)] by simp
  then show ?thesis using assms(2) mset_eq_imp_distinct_iff by blast
qed

lemma concat_empty: "\<forall>i \<in> set is. bucket hb es i = [] \<Longrightarrow> concat (map (bucket hb es) is) = []"
  by simp

lemma bucket_Nil [simp]: "bucket hb [] i = []" "bucket_order hb n [] = []"
  by (simp_all add: bucket_order_def bucket_def)

lemma sorted_order: "sorted (map (\<lambda>e. hb (fst (snd e))) (bucket_order hb n es))"
proof (induction n)
  case (Suc n)
  have "map (\<lambda>e. hb (fst (snd e))) (bucket hb es n) = replicate (length (bucket hb es n)) n"
    by (rule replicate_eqI) (auto simp: set_bucket)
  moreover have "\<forall>e \<in> set (bucket_order hb n es). hb (fst (snd e)) \<le> n" by (auto simp: bucket_order_def set_bucket)
  ultimately show ?case using Suc by (auto simp: bucket_order_def sorted_append)
qed (simp add: bucket_order_def)

text \<open>The first entry of the order is the head of the first bucket that is not empty.\<close>

lemma order_hdI:
  "i < n \<Longrightarrow> \<forall>j < i. bucket hb es j = [] \<Longrightarrow> bucket hb es i = e # vs \<Longrightarrow> \<exists>ws. bucket_order hb n es = e # ws"
  using order_split [of i n hb es] by (auto simp: concat_empty)

lemma order_hdD:
  assumes "bucket_order hb n es = e # ws"
  shows "hb (fst (snd e)) < n" "\<forall>j < hb (fst (snd e)). bucket hb es j = []" "\<exists>vs. bucket hb es (hb (fst (snd e))) = e # vs"
proof -
  have ne: "\<exists>i < n. bucket hb es i \<noteq> []" 
    using assms concat_empty [of "[0..<n]" hb es] by (force simp: bucket_order_def)
  define i where "i = (LEAST i. bucket hb es i \<noteq> [])"
  have i: "bucket hb es i \<noteq> []" "i < n" "\<forall>j < i. bucket hb es j = []"
    using ne LeastI_ex [of "\<lambda>i. bucket hb es i \<noteq> []"] Least_le [of "\<lambda>i. bucket hb es i \<noteq> []"] not_less_Least
    by (auto simp: i_def intro: le_less_trans)
  then obtain f vs where f: "bucket hb es i = f # vs" by (cases "bucket hb es i") auto
  then have "f = e" using order_hdI [OF i(2,3) f] assms by auto
  moreover have "hb (fst (snd f)) = i" using set_bucket [of hb es i] f by auto
  ultimately show "hb (fst (snd e)) < n" "\<forall>j < hb (fst (snd e)). bucket hb es j = []" "\<exists>vs. bucket hb es (hb (fst (snd e))) = e # vs"
    using i f by auto
qed

subsection \<open>The representation of a table\<close>

abbreviation hb :: "hash_map \<Rightarrow> ptr \<Rightarrow> nat" where
  "hb m k \<equiv> unat (hash_func m k (bucket_size m))"

abbreviation entry_order :: "hash_map \<Rightarrow> entry list \<Rightarrow> entry list" where
  "entry_order m es \<equiv> bucket_order (hb m) (length (hlist m)) es"

text \<open>A position that stands at an entry.\<close>

definition stands_at :: "hash_map \<Rightarrow> hash_map_pos \<Rightarrow> entry \<Rightarrow> bool" where
  "stands_at m q e \<longleftrightarrow> hlist_node_p q = fst e \<and> unat (bucket_pos q) = hb m (fst (snd e))"

text \<open>A position at the first of the entries \<open>es\<close>, or at the end.\<close>

definition at_hd :: "hash_map \<Rightarrow> hash_map_pos \<Rightarrow> entry list \<Rightarrow> bool" where
  "at_hd m q es \<longleftrightarrow> (case es of [] \<Rightarrow> hlist_node_p q = 0 | e # _ \<Rightarrow> stands_at m q e)"

lemma at_hd_simps [simp]: "at_hd m q [] \<longleftrightarrow> hlist_node_p q = 0" "at_hd m q (e # es) \<longleftrightarrow> stands_at m q e"
  by (simp_all add: at_hd_def)

text \<open>The entries of a table, the latest first, with the addresses of their nodes.\<close>

definition hm_rep :: "hash_map \<Rightarrow> entry list \<Rightarrow> bool" where
  "hm_rep m es \<longleftrightarrow>
     0 < length (hlist m) \<and> length (hlist m) = unat (bucket_size m) \<and>
     (\<forall>i < length (hlist m). seg (h_next m) (h_pprev m) (First i) (hlist m ! i) (map fst (bucket (hb m) es i)) 0) \<and>
     distinct (map fst es) \<and> dom (h_next m) = fst ` set es \<and> dom (h_pprev m) = fst ` set es \<and>
     h_key m = map_of (map (\<lambda>e. (fst e, fst (snd e))) es) \<and> h_value m = map_of (map (\<lambda>e. (fst e, snd (snd e))) es) \<and>
     (\<forall>e \<in> set es. hb m (fst (snd e)) < length (hlist m)) \<and>
     node_count m = of_nat (length es) \<and> at_hd m (h_begin m) (entry_order m es) \<and> hlist_node_p (h_end m) = 0"

lemma hm_repD:
  assumes "hm_rep m es"
  shows "0 < length (hlist m)" "length (hlist m) = unat (bucket_size m)"
    "\<And>i. i < length (hlist m) \<Longrightarrow> seg (h_next m) (h_pprev m) (First i) (hlist m ! i) (map fst (bucket (hb m) es i)) 0"
    "distinct (map fst es)" "dom (h_next m) = fst ` set es" "dom (h_pprev m) = fst ` set es"
    "h_key m = map_of (map (\<lambda>e. (fst e, fst (snd e))) es)" "h_value m = map_of (map (\<lambda>e. (fst e, snd (snd e))) es)"
    "\<forall>e \<in> set es. hb m (fst (snd e)) < length (hlist m)" "node_count m = of_nat (length es)"
    "at_hd m (h_begin m) (entry_order m es)" "hlist_node_p (h_end m) = 0"
  using assms unfolding hm_rep_def by blast+

text \<open>The settings that no operation on entries changes.\<close>

definition same_config :: "hash_map \<Rightarrow> hash_map \<Rightarrow> bool" where
  "same_config m m' \<longleftrightarrow> bucket_size m' = bucket_size m \<and> hash_func m' = hash_func m \<and> key_cmp_func m' = key_cmp_func m \<and>
     length (hlist m') = length (hlist m)"

lemma same_config_refl: "same_config m m"
  by (simp add: same_config_def)

lemma same_config_trans: "same_config m1 m2 \<Longrightarrow> same_config m2 m3 \<Longrightarrow> same_config m1 m3"
  by (simp add: same_config_def)

lemma stands_at_config: "same_config m m' \<Longrightarrow> stands_at m' q e = stands_at m q e"
  by (simp add: same_config_def stands_at_def)

lemma at_hd_config: "same_config m m' \<Longrightarrow> at_hd m' q es = at_hd m q es"
  by (cases es) (simp_all add: stands_at_config)

lemma rep_entry:
  assumes "hm_rep m es" "e \<in> set es"
  shows "h_key m (fst e) = Some (fst (snd e))" "h_value m (fst e) = Some (snd (snd e))" "fst e \<noteq> 0"
proof -
  note r = hm_repD [OF assms(1)]
  have d: "distinct (map fst (map (\<lambda>e. (fst e, fst (snd e))) es))" "distinct (map fst (map (\<lambda>e. (fst e, snd (snd e))) es))"
    using r(4) by (simp_all add: comp_def)
  show "h_key m (fst e) = Some (fst (snd e))" unfolding r(7) by (rule map_of_is_SomeI [OF d(1)]) (use assms(2) in auto)
  show "h_value m (fst e) = Some (snd (snd e))" unfolding r(8) by (rule map_of_is_SomeI [OF d(2)]) (use assms(2) in auto)
  have "hb m (fst (snd e)) < length (hlist m)" using r(9) assms(2) by blast
  from seg_nonnull [OF r(3) [OF this]] show "fst e \<noteq> 0" using assms(2) by (force simp: set_bucket)
qed

lemma hash_map_init_rep:
  "hm_rep (snd (hash_map_init True bsize hf cmp)) []"
proof -
  have "0 < unat (if bsize = 0 then 20 else bsize)" by (simp add: unat_gt_0)
  then show ?thesis by (simp add: hash_map_init_def Let_def hm_rep_def)
qed

text \<open>Search is the search in the bucket.\<close>

lemma search_chain_ok:
  assumes "hm_rep m es" "set cs \<subseteq> set es" "seg (h_next m) (h_pprev m) s v (map fst cs) 0"
  shows "search_chain m cmp key v = Some (map_option fst (find (\<lambda>e. cmp (fst (snd e)) key = 0) cs))"
  using assms(2,3)
proof (induction cs arbitrary: s v)
  case Nil
  then show ?case by (subst search_chain.simps) simp
next
  case (Cons c cs)
  then obtain u where u: "v = fst c" "fst c \<noteq> 0" "h_next m (fst c) = Some u" "seg (h_next m) (h_pprev m) (Next (fst c)) u (map fst cs) 0"
    by auto
  have "search_chain m cmp key u = Some (map_option fst (find (\<lambda>e. cmp (fst (snd e)) key = 0) cs))"
    by (rule Cons.IH) (use Cons.prems u in auto)
  then show ?case using u rep_entry(1) [OF assms(1), of c] Cons.prems(1) by (subst search_chain.simps) simp
qed

text \<open>Keys that compare equal have to be in one bucket for the search in the bucket to be a search in the table.\<close>

lemma find_bucket:
  assumes "\<And>k. cmp k key = 0 \<Longrightarrow> h k = h key"
  shows "find (\<lambda>e. cmp (fst (snd e)) key = 0) (bucket h es (h key)) = find (\<lambda>e. cmp (fst (snd e)) key = 0) es"
  using assms by (induction es) (auto simp: bucket_def)

lemma hash_map_search_law:
  assumes "hm_rep m es" "key_cmp_func m = Some cmp" "hb m key < length (hlist m)" "\<And>k. cmp k key = 0 \<Longrightarrow> hb m k = hb m key"
  shows "case find (\<lambda>e. cmp (fst (snd e)) key = 0) es of
      None \<Rightarrow> hash_map_search m key = Some (-1, None)
    | Some e \<Rightarrow> \<exists>q. hash_map_search m key = Some (1, Some q) \<and> stands_at m q e \<and> e \<in> set es"
proof -
  note r = hm_repD [OF assms(1)]
  have le: "hash_func m key (bucket_size m) \<le> bucket_size m" using assms(3) r(2) by (simp add: word_le_nat_alt)
  have s: "search_chain m cmp key (hlist m ! hb m key) = Some (map_option fst (find (\<lambda>e. cmp (fst (snd e)) key = 0) es))"
    using search_chain_ok [OF assms(1) _ r(3) [OF assms(3)], of cmp key] find_bucket [of cmp key "hb m" es] assms(4) by (auto simp: set_bucket)
  show ?thesis
  proof (cases "find (\<lambda>e. cmp (fst (snd e)) key = 0) es")
    case None
    then show ?thesis using s assms(2,3) le by (simp add: hash_map_search_def Let_def get_first_def)
  next
    case (Some e)
    then have "e \<in> set es" "cmp (fst (snd e)) key = 0" by (auto simp: find_Some_iff)
    then show ?thesis using s Some assms(2-4) le by (simp add: hash_map_search_def Let_def get_first_def stands_at_def)
  qed
qed

text \<open>The insertion at the head of a bucket, written as one update.\<close>

lemma hlist_add_head_eq:
  assumes "i < length (hlist m)" "p \<in> dom (h_next m)" "p \<in> dom (h_pprev m)" "f = hlist m ! i" "f = 0 \<or> f \<in> dom (h_pprev m)"
  shows "hlist_add_head m p i = Some (m\<lparr>h_next := (h_next m)(p \<mapsto> f), hlist := (hlist m)[i := p],
     h_pprev := (if f = 0 then h_pprev m else (h_pprev m)(f \<mapsto> Next p))(p \<mapsto> First i)\<rparr>)"
  using assms by (auto simp: hlist_add_head_def get_first_def set_hnext_def set_pprev_def set_first_def)

lemma begin_after_insert:
  assumes rep: "hm_rep m es" and i: "hb m k < length (hlist m)" and b: "hash_func m k (bucket_size m) = bpos"
  shows "at_hd m (if hlist_node_p (h_begin m) = 0 \<or> bpos \<le> bucket_pos (h_begin m) then \<lparr>hlist_node_p = p, bucket_pos = bpos\<rparr> else h_begin m)
    (entry_order m ((p, k, v) # es))"
proof -
  note r = hm_repD [OF rep]
  have bk: "bucket (hb m) ((p, k, v) # es) (hb m k) = (p, k, v) # bucket (hb m) es (hb m k)" by (simp add: bucket_Cons)
  have new: ?thesis if c: "hlist_node_p (h_begin m) = 0 \<or> bpos \<le> bucket_pos (h_begin m)" and low: "\<forall>j < hb m k. bucket (hb m) es j = []"
  proof -
    have "\<forall>j < hb m k. bucket (hb m) ((p, k, v) # es) j = []" using low by (simp add: bucket_Cons)
    then obtain ws where "entry_order m ((p, k, v) # es) = (p, k, v) # ws" using order_hdI [OF i _ bk] by blast
    then show ?thesis using c b by (simp add: stands_at_def)
  qed
  show ?thesis
  proof (cases "entry_order m es")
    case Nil
    then have "es = []" using set_order [OF r(9)] by simp
    then show ?thesis using new r(11) Nil by simp
  next
    case (Cons e ws)
    then have st: "stands_at m (h_begin m) e" using r(11) by simp
    then have nz: "hlist_node_p (h_begin m) \<noteq> 0" using rep_entry(3) [OF rep, of e] set_order [OF r(9)] Cons by (auto simp: stands_at_def)
    note h = order_hdD [OF Cons]
    have cmp: "bpos \<le> bucket_pos (h_begin m) \<longleftrightarrow> hb m k \<le> hb m (fst (snd e))" using st b by (auto simp: word_le_nat_alt stands_at_def)
    show ?thesis
    proof (cases "hb m k \<le> hb m (fst (snd e))")
      case True
      then show ?thesis using new cmp h(2) by auto
    next
      case False
      then have "\<forall>j < hb m (fst (snd e)). bucket (hb m) ((p, k, v) # es) j = []"
        "\<exists>vs. bucket (hb m) ((p, k, v) # es) (hb m (fst (snd e))) = e # vs" using h(2,3) by (auto simp: bucket_Cons)
      then obtain ws' where "entry_order m ((p, k, v) # es) = e # ws'" using order_hdI [OF h(1)] by blast
      then show ?thesis using False cmp nz st by simp
    qed
  qed
qed

text \<open>The chains after the insertion.\<close>

lemma chains_after_insert:
  assumes rep: "hm_rep m es" and i: "hb m k < length (hlist m)" and p: "p \<noteq> 0" "p \<notin> fst ` set es" and j: "j < length (hlist m)"
  defines "f \<equiv> hlist m ! hb m k"
  shows "seg ((h_next m)(p \<mapsto> f)) ((if f = 0 then h_pprev m else (h_pprev m)(f \<mapsto> Next p))(p \<mapsto> First (hb m k))) (First j)
    ((hlist m)[hb m k := p] ! j) (map fst (bucket (hb m) ((p, k, v) # es) j)) 0"
    (is "seg ?nx ?pv _ _ _ _")
proof -
  note r = hm_repD [OF rep]
  have d: "distinct (map fst (bucket (hb m) es i))" for i using r(4) by (rule distinct_bucket)
  have pb: "p \<notin> set (map fst (bucket (hb m) es i))" for i using p(2) by (auto simp: set_bucket)
  have f: "f = hd (map fst (bucket (hb m) es (hb m k)) @ [0])" using seg_start [OF r(3) [OF i]] by (simp add: f_def)
  show ?thesis
  proof (cases "j = hb m k")
    case True
    have "seg (h_next m) (if f = 0 then h_pprev m else (h_pprev m)(f \<mapsto> Next p)) (Next p) f (map fst (bucket (hb m) es j)) 0"
      unfolding True f_def by (rule seg_reslot [OF r(3) [OF i] d])
    moreover have "seg (h_next m) (if f = 0 then h_pprev m else (h_pprev m)(f \<mapsto> Next p)) (Next p) f (map fst (bucket (hb m) es j)) 0 =
        seg ?nx ?pv (Next p) f (map fst (bucket (hb m) es j)) 0"
      by (rule chain_cong) (use pb p(1) in auto)
    ultimately show ?thesis using True i p(1) by (simp add: bucket_Cons)
  next
    case False
    have "f \<notin> set (map fst (bucket (hb m) es j))" if "f \<noteq> 0"
    proof -
      have "f \<in> set (map fst (bucket (hb m) es (hb m k)))" using f that by (cases "bucket (hb m) es (hb m k)") auto
      then obtain e where e: "e \<in> set es" "hb m (fst (snd e)) = hb m k" "f = fst e" by (auto simp: set_bucket)
      then have "e' = e" if "e' \<in> set es" "fst e' = f" for e' using r(4) that by (auto simp: distinct_map inj_on_def)
      then show ?thesis using e False by (auto simp: set_bucket)
    qed
    then have "seg (h_next m) (h_pprev m) (First j) (hlist m ! j) (map fst (bucket (hb m) es j)) 0 =
        seg ?nx ?pv (First j) (hlist m ! j) (map fst (bucket (hb m) es j)) 0"
      by (intro chain_cong) (use pb p(1) in auto)
    then show ?thesis using r(3) [OF j] False by (simp add: bucket_Cons)
  qed
qed

lemma hash_map_insert_law:
  assumes rep: "hm_rep m es" and i: "hb m k < length (hlist m)" and p: "p \<noteq> 0" "p \<notin> dom (h_next m)"
  shows "\<exists>m'. hash_map_insert m p k v = Some (sint (node_count m), m') \<and> hm_rep m' ((p, k, v) # es) \<and> same_config m m'"
proof -
  note r = hm_repD [OF rep]
  have pe: "p \<notin> fst ` set es" using p(2) r(5) by simp
  let ?f = "hlist m ! hb m k" and ?b = "hash_func m k (bucket_size m)"
  let ?m1 = "new_hnode m p k v"
  let ?bg = "if hlist_node_p (h_begin m) = 0 \<or> ?b \<le> bucket_pos (h_begin m) then \<lparr>hlist_node_p = p, bucket_pos = ?b\<rparr> else h_begin m"
  define m2 where "m2 = ?m1\<lparr>h_next := (h_next m)(p \<mapsto> ?f), hlist := (hlist m)[hb m k := p],
     h_pprev := (if ?f = 0 then h_pprev m else (h_pprev m)(?f \<mapsto> Next p))(p \<mapsto> First (hb m k))\<rparr>"
  define m' where "m' = m2\<lparr>h_begin := ?bg, node_count := node_count m + 1\<rparr>"
  have f: "?f = 0 \<or> ?f \<in> dom (h_pprev m)"
    using seg_start [OF r(3) [OF i]] r(6) by (cases "bucket (hb m) es (hb m k)") (auto simp: bucket_def filter_eq_Cons_iff)
  have "INIT_HLIST_NODE ?m1 p = Some ?m1" by (simp add: INIT_HLIST_NODE_def new_hnode_def set_hnext_def set_pprev_def)
  moreover have "hlist_add_head ?m1 p (hb m k) = Some m2"
  proof -
    have "?f = 0 \<or> ?f \<in> dom (h_pprev ?m1)" using f by (auto simp: new_hnode_def)
    moreover have "?f \<noteq> p" using f r(6) pe p(1) by auto
    ultimately show ?thesis
      using hlist_add_head_eq [of "hb m k" ?m1 p ?f] i by (simp add: m2_def new_hnode_def fun_upd_twist del: One_nat_def)
  qed
  moreover have "?b \<le> bucket_size m" using i r(2) by (simp add: word_le_nat_alt)
  ultimately have "hash_map_insert m p k v = Some (sint (node_count m), m')"
    using i p(1) by (simp add: hash_map_insert_def Let_def get_first_def m'_def m2_def new_hnode_def)
  moreover have cfg: "same_config m m'" by (simp add: same_config_def m'_def m2_def new_hnode_def)
  moreover have "hm_rep m' ((p, k, v) # es)"
  proof -
    have hm: "hb m' = hb m" "length (hlist m') = length (hlist m)" using cfg by (auto simp: same_config_def)
    have "at_hd m' (h_begin m') (bucket_order (hb m) (length (hlist m)) ((p, k, v) # es))"
      unfolding at_hd_config [OF cfg] using begin_after_insert [OF rep i refl, of p v] by (simp add: m'_def)
    moreover have "\<forall>j < length (hlist m). seg (h_next m') (h_pprev m') (First j) (hlist m' ! j) (map fst (bucket (hb m) ((p, k, v) # es) j)) 0"
      using chains_after_insert [OF rep i p(1) pe] by (simp add: m'_def m2_def)
    moreover have "dom (h_next m') = fst ` set ((p, k, v) # es)" "dom (h_pprev m') = fst ` set ((p, k, v) # es)"
      using r(5,6) f by (auto simp: m'_def m2_def)
    moreover have "h_key m' = map_of (map (\<lambda>e. (fst e, fst (snd e))) ((p, k, v) # es))" "h_value m' = map_of (map (\<lambda>e. (fst e, snd (snd e))) ((p, k, v) # es))"
      using r(7,8) by (simp_all add: m'_def m2_def new_hnode_def)
    ultimately show ?thesis
      unfolding hm_rep_def hm using r(1,2,4,9,10,12) i pe by (simp add: m'_def m2_def new_hnode_def)
  qed
  ultimately show ?thesis by blast
qed

text \<open>The next position is at the next entry in the order of the buckets.\<close>

lemma next_bucket_ok:
  assumes "hm_rep m es"
  shows "\<exists>res. next_bucket (hlist m) (bucket_size m) b = Some res \<and>
    (case res of
       None \<Rightarrow> concat (map (bucket (hb m) es) [unat b..<length (hlist m)]) = []
     | Some (f, c) \<Rightarrow> \<exists>e ws. concat (map (bucket (hb m) es) [unat b..<length (hlist m)]) = e # ws \<and> f = fst e \<and> f \<noteq> 0 \<and> unat c = hb m (fst (snd e)))"
proof (induction "unat (bucket_size m) - unat b" arbitrary: b)
  case 0
  then have "\<not> b < bucket_size m" by (simp add: word_less_nat_alt)
  then show ?case using 0 hm_repD(2) [OF assms] by (subst next_bucket.simps) simp
next
  case (Suc d)
  note r = hm_repD [OF assms]
  have lt: "b < bucket_size m" "unat b < length (hlist m)" using Suc.hyps(2) r(2) by (simp_all add: word_less_nat_alt)
  have s: "hlist m ! unat b = hd (map fst (bucket (hb m) es (unat b)) @ [0])" using seg_start [OF r(3) [OF lt(2)]] .
  show ?case
  proof (cases "bucket (hb m) es (unat b)")
    case Nil
    have d: "d = unat (bucket_size m) - unat (b + 1)" using Suc.hyps(2) unat_step [OF lt(1)] by simp
    have skip: "next_bucket (hlist m) (bucket_size m) b = next_bucket (hlist m) (bucket_size m) (b + 1)"
      using Nil s lt by (subst next_bucket.simps) simp
    have rest: "concat (map (bucket (hb m) es) [unat b..<length (hlist m)]) = concat (map (bucket (hb m) es) [unat (b + 1)..<length (hlist m)])"
      using Nil lt(2) unat_step [OF lt(1)] by (simp add: upt_conv_Cons)
    show ?thesis unfolding skip rest by (rule Suc.hyps(1) [OF d])
  next
    case (Cons e vs)
    then have e: "e \<in> set es" "hb m (fst (snd e)) = unat b" using set_bucket [of "hb m" es "unat b"] by auto
    then have "fst e \<noteq> 0" using rep_entry(3) [OF assms] by blast
    then show ?thesis using Cons s lt e by (subst next_bucket.simps) (simp add: upt_conv_Cons)
  qed
qed

lemma entry_split:
  assumes "hm_rep m es" "entry_order m es = us @ e # vs"
  defines "j \<equiv> hb m (fst (snd e))"
  obtains us' vs' where "bucket (hb m) es j = us' @ e # vs'" "j < length (hlist m)" "vs = vs' @ concat (map (bucket (hb m) es) [Suc j..<length (hlist m)])"
proof -
  note r = hm_repD [OF assms(1)]
  have e: "e \<in> set es" using set_order [OF r(9)] assms(2) by (metis in_set_conv_decomp)
  then have j: "j < length (hlist m)" using r(9) by (auto simp: j_def)
  have "e \<in> set (bucket (hb m) es j)" using e by (simp add: set_bucket j_def)
  then obtain us' vs' where b: "bucket (hb m) es j = us' @ e # vs'" by (meson split_list)
  let ?pre = "concat (map (bucket (hb m) es) [0..<j])" and ?post = "concat (map (bucket (hb m) es) [Suc j..<length (hlist m)])"
  have o: "entry_order m es = (?pre @ us') @ e # (vs' @ ?post)" using order_split [OF j, of "hb m" es] b by simp
  have d: "distinct (entry_order m es)" using distinct_order [OF r(9,4)] by (simp add: distinct_map)
  then have "e \<notin> set us" "e \<notin> set vs" unfolding assms(2) by simp_all
  moreover have "us @ e # vs = (?pre @ us') @ e # (vs' @ ?post)" by (rule trans [OF assms(2) [symmetric] o])
  ultimately have "us = ?pre @ us' \<and> vs = vs' @ ?post" by (simp only: append_Cons_eq_iff simp_thms)
  then show ?thesis using that b j by blast
qed

lemma hash_map_pos_next_law:
  assumes "hm_rep m es" "entry_order m es = us @ e # vs" "stands_at m q e"
  shows "\<exists>q'. hash_map_pos_next m q nx = Some (0, Some q') \<and> at_hd m q' vs"
proof -
  note r = hm_repD [OF assms(1)]
  obtain us' vs' where b: "bucket (hb m) es (hb m (fst (snd e))) = us' @ e # vs'" "hb m (fst (snd e)) < length (hlist m)"
      "vs = vs' @ concat (map (bucket (hb m) es) [Suc (hb m (fst (snd e)))..<length (hlist m)])"
    using entry_split [OF assms(1,2)] .
  have "distinct (map fst (us' @ e # vs'))" using distinct_bucket [OF r(4), of "hb m"] b(1) by metis
  then have n: "h_next m (fst e) = Some (hd (map fst vs' @ [0]))" "fst e \<noteq> 0"
    using seg_remove(2,3) [of "h_next m" "h_pprev m" _ _ "map fst us'" "fst e" "map fst vs'"] r(3) [OF b(2)] b(1) by auto
  have q: "hlist_node_p q = fst e" "unat (bucket_pos q) = hb m (fst (snd e))" using assms(3) by (simp_all add: stands_at_def)
  show ?thesis
  proof (cases vs')
    case (Cons f ws)
    then have "f \<in> set es" "hb m (fst (snd f)) = hb m (fst (snd e))" using set_bucket [of "hb m" es "hb m (fst (snd e))"] b(1) by auto
    then show ?thesis using n q Cons b(3) rep_entry(3) [OF assms(1)] by (auto simp: hash_map_pos_next_def stands_at_def)
  next
    case Nil
    show ?thesis
    proof (cases "bucket_pos q < bucket_size m - 1")
      case True
      have step: "unat (bucket_pos q + 1) = Suc (unat (bucket_pos q))" using unat_step [OF True] .
      have vs: "vs = concat (map (bucket (hb m) es) [unat (bucket_pos q + 1)..<length (hlist m)])" using b(3) Nil step q(2) by simp
      from next_bucket_ok [OF assms(1), of "bucket_pos q + 1", folded vs]
      show ?thesis using n q Nil True by (auto simp: hash_map_pos_next_def stands_at_def split: option.splits)
    next
      case False
      have u: "unat (bucket_size m - 1) = unat (bucket_size m) - 1" using r(1,2) by (intro unat_sub_one) simp
      have "bucket_pos q = bucket_size m - 1"
        using False q(2) b(2) r(1,2) u by (intro word_unat_eq_iff [THEN iffD2]) (simp add: word_less_nat_alt)
      then show ?thesis using n q Nil False b(3) u r(1,2) by (auto simp: hash_map_pos_next_def)
    qed
  qed
qed

text \<open>Unlinking, written as one update.\<close>

lemma hlist_del_eq:
  assumes "h_pprev m e = Some (slot_after (First j) us)" "h_next m e = Some w" "w = 0 \<or> w \<in> dom (h_pprev m)"
    "j < length (hlist m)" "us = [] \<or> last us \<in> dom (h_next m)"
  shows "hlist_del m e = Some (m\<lparr>hlist := (if us = [] then (hlist m)[j := w] else hlist m),
     h_next := (if us = [] then h_next m else (h_next m)(last us \<mapsto> w))(e \<mapsto> 0x00100100),
     h_pprev := (if w = 0 then h_pprev m else (h_pprev m)(w \<mapsto> slot_after (First j) us))(e \<mapsto> Poison)\<rparr>)"
  using assms by (auto simp: hlist_del_def hlist_unlink_def slot_after_def set_first_def set_hnext_def set_pprev_def domI)

lemma map_of_without: "map_of (map (\<lambda>e. (fst e, g e)) (without a es)) = (map_of (map (\<lambda>e. (fst e, g e)) es))(a := None)"
  by (induction es) (auto simp: without_def)

text \<open>The chains after the node of an entry is unlinked and freed.\<close>

lemma chains_after_delete:
  assumes rep: "hm_rep m es" and b: "bucket (hb m) es j = us @ e # vs" and j: "j < length (hlist m)" and i: "i < length (hlist m)"
  defines "w \<equiv> hd (map fst vs @ [0])"
  shows "seg ((if us = [] then h_next m else (h_next m)(last (map fst us) \<mapsto> w))(fst e := None))
    ((if w = 0 then h_pprev m else (h_pprev m)(w \<mapsto> slot_after (First j) (map fst us)))(fst e := None)) (First i)
    ((if us = [] then (hlist m)[j := w] else hlist m) ! i) (map fst (bucket (hb m) (without (fst e) es) i)) 0"
    (is "seg (?nx(fst e := None)) (?pv(fst e := None)) _ _ _ _")
proof -
  note r = hm_repD [OF rep]
  have db: "distinct (map fst us @ fst e # map fst vs)" using distinct_bucket [OF r(4), of "hb m" j] b by simp
  note s = seg_remove [of "h_next m" "h_pprev m" "First j" "hlist m ! j" "map fst us" "fst e" "map fst vs"]
  have sj: "seg (h_next m) (h_pprev m) (First j) (hlist m ! j) (map fst us @ fst e # map fst vs) 0" using r(3) [OF j] b by simp
  show ?thesis
  proof (cases "i = j")
    case True
    have wo: "bucket (hb m) (without (fst e) es) i = us @ vs"
      unfolding bucket_without True b using db by (intro without_split) simp
    have "seg ?nx ?pv (First j) (if us = [] then w else hlist m ! j) (map fst us @ map fst vs) 0"
      unfolding w_def using s(4) [OF sj db] by (simp only: map_is_Nil_conv)
    moreover have "seg ?nx ?pv (First j) (if us = [] then w else hlist m ! j) (map fst us @ map fst vs) 0 =
        seg (?nx(fst e := None)) (?pv(fst e := None)) (First j) (if us = [] then w else hlist m ! j) (map fst us @ map fst vs) 0"
      using db by (intro seg_other [symmetric]) auto
    moreover have h: "(if us = [] then (hlist m)[j := w] else hlist m) ! i = (if us = [] then w else hlist m ! j)" using True j by simp
    ultimately show ?thesis unfolding wo h map_append unfolding True by simp
  next
    case False
    have other: "x \<notin> set (map fst (bucket (hb m) es i))" if x: "x \<in> set (map fst (bucket (hb m) es j))" for x
    proof -
      obtain e1 where e1: "e1 \<in> set es" "hb m (fst (snd e1)) = j" "x = fst e1" using x by (auto simp: set_bucket)
      then have "e2 = e1" if "e2 \<in> set es" "fst e2 = x" for e2 using r(4) that by (auto simp: distinct_map inj_on_def)
      then show ?thesis using e1 False by (auto simp: set_bucket)
    qed
    have z: "0 \<notin> set (map fst (bucket (hb m) es i))" by (rule seg_nonnull [OF r(3) [OF i]])
    have "w \<notin> set (map fst (bucket (hb m) es i))" using z other b by (cases vs) (auto simp: w_def)
    moreover have "us \<noteq> [] \<Longrightarrow> last (map fst us) \<notin> set (map fst (bucket (hb m) es i))" using other b last_in_set [of "map fst us"] by simp
    moreover have ni: "fst e \<notin> set (map fst (bucket (hb m) es i))" using other b by simp
    ultimately have "seg (h_next m) (h_pprev m) (First i) (hlist m ! i) (map fst (bucket (hb m) es i)) 0 =
        seg (?nx(fst e := None)) (?pv(fst e := None)) (First i) (hlist m ! i) (map fst (bucket (hb m) es i)) 0"
      by (simp add: seg_other seg_next_other seg_prev_other)
    moreover have "without (fst e) (bucket (hb m) es i) = bucket (hb m) es i" using ni by (intro without_absent) simp
    moreover have "(if us = [] then (hlist m)[j := w] else hlist m) ! i = hlist m ! i" using False by simp
    ultimately show ?thesis using r(3) [OF i] by (simp only: bucket_without)
  qed
qed

lemma begin_after_delete:
  assumes rep: "hm_rep m es" and e: "e \<in> set es" and q: "stands_at m q e"
  shows "\<exists>q'. (if hash_map_pos_equal q (h_begin m) then
      do { (r, next) \<leftarrow> hash_map_pos_next m q None; nx \<leftarrow> next; Some (m\<lparr>h_begin := nx\<rparr>) } else Some m) = Some (m\<lparr>h_begin := q'\<rparr>) \<and>
    at_hd m q' (entry_order m (without (fst e) es))"
proof -
  note r = hm_repD [OF rep]
  obtain f ws where o: "entry_order m es = f # ws" using set_order [OF r(9)] e by (cases "entry_order m es") auto
  have d: "distinct (map fst (f # ws))" using distinct_order [OF r(9,4)] o by simp
  have f: "stands_at m (h_begin m) f" using r(11) o by simp
  show ?thesis
  proof (cases "hash_map_pos_equal q (h_begin m)")
    case True
    then have "fst e = fst f" using f q by (simp add: hash_map_pos_equal_def stands_at_def)
    moreover have "f \<in> set es" using set_order [OF r(9)] o by auto
    ultimately have "e = f" using r(4) e by (auto simp: distinct_map inj_on_def)
    then obtain q' where q': "hash_map_pos_next m q None = Some (0, Some q')" "at_hd m q' ws"
      using hash_map_pos_next_law [OF rep, of "[]" f ws q None] o q by auto
    have "entry_order m (without (fst e) es) = ws"
      unfolding order_without o using without_split [of "[]" f ws] d \<open>e = f\<close> by simp
    then show ?thesis using q' True by auto
  next
    case False
    then have "fst e \<noteq> fst f" using f q by (simp add: hash_map_pos_equal_def stands_at_def)
    then have "entry_order m (without (fst e) es) = f # without (fst e) ws" unfolding order_without o by (simp add: without_def)
    then show ?thesis using False f by (intro exI [of _ "h_begin m"]) simp
  qed
qed

lemma hash_map_unlink_law:
  assumes rep: "hm_rep m es" and e: "e \<in> set es" and q: "stands_at m q e"
  shows "\<exists>m1. hash_map_unlink m q = Some m1 \<and> h_value m1 = h_value m \<and> hm_rep (free_hnode m1 (fst e)) (without (fst e) es) \<and>
    same_config m (free_hnode m1 (fst e))"
proof -
  note r = hm_repD [OF rep]
  obtain xs ys where "entry_order m es = xs @ e # ys" using set_order [OF r(9)] e by (metis split_list)
  then obtain us vs where b: "bucket (hb m) es (hb m (fst (snd e))) = us @ e # vs" and j: "hb m (fst (snd e)) < length (hlist m)"
    using entry_split [OF rep] by blast
  let ?j = "hb m (fst (snd e))" and ?w = "hd (map fst vs @ [0])"
  obtain q' where q': "(if hash_map_pos_equal q (h_begin m) then
      do { (r, next) \<leftarrow> hash_map_pos_next m q None; nx \<leftarrow> next; Some (m\<lparr>h_begin := nx\<rparr>) } else Some m) = Some (m\<lparr>h_begin := q'\<rparr>)"
    "at_hd m q' (entry_order m (without (fst e) es))"
    using begin_after_delete [OF assms] by blast
  have db: "distinct (map fst us @ fst e # map fst vs)" using distinct_bucket [OF r(4), of "hb m" ?j] b by simp
  have sub: "set us \<subseteq> set es" "set vs \<subseteq> set es" using set_bucket [of "hb m" es ?j] b by auto
  have s: "h_pprev m (fst e) = Some (slot_after (First ?j) (map fst us))" "h_next m (fst e) = Some ?w"
    using seg_remove(1,2) [OF _ db, of "h_next m" "h_pprev m" "First ?j" "hlist m ! ?j"] r(3) [OF j] b by simp_all
  have w: "?w = 0 \<or> ?w \<in> dom (h_pprev m)" using sub(2) r(6) by (cases vs) auto
  have l: "map fst us = [] \<or> last (map fst us) \<in> dom (h_next m)" 
  proof (cases "us = []")
    case False
    then have "last us \<in> set es" using sub(1) last_in_set [of us] by blast
    then show ?thesis using False r(5) by (simp add: last_map)
  qed simp
  define m2 where "m2 = m\<lparr>h_begin := q', hlist := (if us = [] then (hlist m)[?j := ?w] else hlist m),
     h_next := (if us = [] then h_next m else (h_next m)(last (map fst us) \<mapsto> ?w))(fst e \<mapsto> 0x00100100),
     h_pprev := (if ?w = 0 then h_pprev m else (h_pprev m)(?w \<mapsto> slot_after (First ?j) (map fst us)))(fst e \<mapsto> Poison)\<rparr>"
  define m' where "m' = free_hnode (m2\<lparr>node_count := node_count m - 1\<rparr>) (fst e)"
  have "hlist_del (m\<lparr>h_begin := q'\<rparr>) (fst e) = Some m2"
    using hlist_del_eq [of "m\<lparr>h_begin := q'\<rparr>" "fst e" ?j "map fst us" ?w, simplified, OF s w j] l by (simp add: m2_def)
  then have "hash_map_unlink m q = Some (m2\<lparr>node_count := node_count m - 1\<rparr>)"
    using q'(1) q by (simp add: hash_map_unlink_def stands_at_def m2_def)
  moreover have cfg: "same_config m m'" by (simp add: same_config_def m'_def m2_def free_hnode_def)
  moreover have "hm_rep m' (without (fst e) es)"
  proof -
    have hm: "hb m' = hb m" "length (hlist m') = length (hlist m)" using cfg by (auto simp: same_config_def)
    have set: "fst ` set (without (fst e) es) = fst ` set es - {fst e}" by (auto simp: without_def)
    have len: "Suc (length (without (fst e) es)) = length es"
    proof -
      obtain as bs where es: "es = as @ e # bs" using e by (meson split_list)
      then show ?thesis using without_split [of as e bs] r(4) by simp
    qed
    have 1: "\<forall>i < length (hlist m). seg (h_next m') (h_pprev m') (First i) (hlist m' ! i) (map fst (bucket (hb m) (without (fst e) es) i)) 0"
      using chains_after_delete [OF rep b j] by (simp add: m'_def m2_def free_hnode_def)
    have 2: "distinct (map fst (without (fst e) es))" using r(4) by (simp add: without_def distinct_map_filter)
    have 3: "dom (h_next m') = fst ` set (without (fst e) es)" "dom (h_pprev m') = fst ` set (without (fst e) es)"
      unfolding set using r(5,6) w l by (auto simp: m'_def m2_def free_hnode_def)
    have 4: "h_key m' = map_of (map (\<lambda>e. (fst e, fst (snd e))) (without (fst e) es))" "h_value m' = map_of (map (\<lambda>e. (fst e, snd (snd e))) (without (fst e) es))"
      unfolding map_of_without using r(7,8) by (simp_all add: m'_def m2_def free_hnode_def)
    have 5: "\<forall>x \<in> set (without (fst e) es). hb m (fst (snd x)) < length (hlist m)" using r(9) by (simp add: without_def)
    have 6: "node_count m' = of_nat (length (without (fst e) es))"
      using r(10) unfolding len [symmetric] by (simp add: m'_def m2_def free_hnode_def)
    have 7: "at_hd m' (h_begin m') (entry_order m (without (fst e) es))"
      unfolding at_hd_config [OF cfg] using q'(2) by (simp add: m'_def m2_def free_hnode_def)
    show ?thesis
      unfolding hm_rep_def hm using 1 2 3 4 5 6 7 r(1,2,12) cfg by (auto simp: same_config_def m'_def m2_def free_hnode_def)
  qed
  ultimately show ?thesis by (auto simp: m'_def m2_def)
qed

lemma hash_map_delete_law:
  assumes "hm_rep m es" "e \<in> set es" "stands_at m q e"
  shows "\<exists>m'. hash_map_delete m q = Some (1, m') \<and> hm_rep m' (without (fst e) es) \<and> same_config m m'"
proof -
  have "hlist_node_p q = fst e" using assms(3) by (simp add: stands_at_def)
  then show ?thesis using hash_map_unlink_law [OF assms] by (auto simp: hash_map_delete_def)
qed

lemma hash_map_remove_law:
  assumes "hm_rep m es" "e \<in> set es" "stands_at m q e"
  shows "\<exists>m'. hash_map_remove m q = Some (1, snd (snd e), m') \<and> hm_rep m' (without (fst e) es) \<and> same_config m m'"
proof -
  have "hlist_node_p q = fst e" using assms(3) by (simp add: stands_at_def)
  then show ?thesis using hash_map_unlink_law [OF assms] rep_entry(2) [OF assms(1,2)] by (auto simp: hash_map_remove_def)
qed

lemma at_end_iff:
  assumes "hm_rep m es" "at_hd m q vs" "set vs \<subseteq> set es"
  shows "hlist_node_p q = 0 \<longleftrightarrow> vs = []"
  using assms rep_entry(3) [OF assms(1)] by (cases vs) (auto simp: stands_at_def)

lemma begin_at: "hm_rep m es \<Longrightarrow> at_hd m (hash_map_begin m) (entry_order m es)"
  by (cases "entry_order m es") (auto simp: hm_rep_def hash_map_begin_def stands_at_def)

lemma begin_is_end:
  assumes "hm_rep m es"
  shows "hlist_node_p (hash_map_begin m) = 0 \<longleftrightarrow> es = []"
  using at_end_iff [OF assms begin_at [OF assms]] set_order [OF hm_repD(9) [OF assms]] by auto

lemma begin_entry:
  assumes "hm_rep m es" "es \<noteq> []"
  obtains e where "e \<in> set es" "stands_at m (hash_map_begin m) e"
proof -
  have "entry_order m es \<noteq> []" "set (entry_order m es) = set es" using set_order [OF hm_repD(9) [OF assms(1)]] assms(2) by auto
  then show ?thesis using begin_at [OF assms(1)] that by (cases "entry_order m es") auto
qed

lemma without_shorter: "e \<in> set es \<Longrightarrow> length (without (fst e) es) < length es"
  unfolding without_def by (rule length_filter_less) auto

text \<open>The two traversals.\<close>

lemma each_pos_ok:
  assumes "hm_rep m es"
  shows "entry_order m es = us @ vs \<Longrightarrow> at_hd m q vs \<Longrightarrow> (vs \<noteq> [] \<Longrightarrow> next = Some nx \<and> at_hd m nx (tl vs)) \<Longrightarrow>
    \<exists>ps. each_pos m q next = Some ps \<and> list_all2 (stands_at m) ps vs"
proof (induction vs arbitrary: us q "next" nx)
  case Nil
  then show ?case using hm_repD(12) [OF assms] by (subst each_pos.simps) (simp add: hash_map_pos_equal_def)
next
  case (Cons e vs)
  note r = hm_repD [OF assms]
  have nz: "hlist_node_p q \<noteq> 0"
    using at_end_iff [OF assms Cons.prems(2)] set_order [OF r(9)] Cons.prems(1) by auto
  have nx: "next = Some nx" "at_hd m nx vs" using Cons.prems(3) by auto
  have "\<exists>next'. (\<exists>c. hash_map_pos_next m nx next = Some (c, next')) \<and> (vs \<noteq> [] \<longrightarrow> (\<exists>n. next' = Some n \<and> at_hd m n (tl vs)))"
  proof (cases vs)
    case Nil
    then show ?thesis using nx by (simp add: hash_map_pos_next_def)
  next
    case (Cons f ws)
    then show ?thesis using hash_map_pos_next_law [OF assms, of "us @ [e]" f ws nx "next"] Cons.prems(1) nx by auto
  qed
  then obtain c next' n where n: "hash_map_pos_next m nx next = Some (c, next')" "vs \<noteq> [] \<Longrightarrow> next' = Some n \<and> at_hd m n (tl vs)"
    by blast
  obtain ps where "each_pos m nx next' = Some ps" "list_all2 (stands_at m) ps vs"
    using Cons.IH [of "us @ [e]" nx next' n] Cons.prems(1) nx(2) n(2) by auto
  then show ?case using n(1) nx(1) nz r(12) Cons.prems(2) by (subst each_pos.simps) (simp add: hash_map_pos_equal_def)
qed

lemma for_each_start:
  assumes "hm_rep m es"
  shows "\<exists>c nx ps. hash_map_pos_next m (hash_map_begin m) None = Some (c, nx) \<and> each_pos m (hash_map_begin m) nx = Some ps \<and>
    list_all2 (stands_at m) ps (entry_order m es)"
proof (cases "entry_order m es")
  case Nil
  then show ?thesis using begin_at [OF assms] each_pos_ok [OF assms, of "[]" "[]" "hash_map_begin m" None] by (auto simp: hash_map_pos_next_def)
next
  case (Cons e vs)
  then have b: "stands_at m (hash_map_begin m) e" using begin_at [OF assms] by simp
  obtain q where q: "hash_map_pos_next m (hash_map_begin m) None = Some (0, Some q)" "at_hd m q vs"
    using hash_map_pos_next_law [OF assms, of "[]" e vs] Cons b by auto
  then show ?thesis using each_pos_ok [OF assms, of "[]" "e # vs" "hash_map_begin m" "Some q" q] Cons b by auto
qed

lemma map_each_ok:
  assumes "hm_rep m es"
  shows "entry_order m es = us @ vs \<Longrightarrow> at_hd m q vs \<Longrightarrow> map_each m q = Some (map snd vs)"
proof (induction vs arbitrary: us q)
  case Nil
  then show ?case using hm_repD(12) [OF assms] by (subst map_each.simps) (simp add: hash_map_pos_equal_def hash_map_end_def)
next
  case (Cons e vs)
  note r = hm_repD [OF assms]
  have e: "e \<in> set es" using set_order [OF r(9)] Cons.prems(1) by auto
  have q: "hlist_node_p q = fst e" using Cons.prems(2) by (simp add: stands_at_def)
  obtain q' where q': "hash_map_pos_next m q (Some q) = Some (0, Some q')" "at_hd m q' vs"
    using hash_map_pos_next_law [OF assms Cons.prems(1), of q "Some q"] Cons.prems(2) by auto
  have "map_each m q' = Some (map snd vs)" using Cons.IH [of "us @ [e]" q'] Cons.prems(1) q'(2) by simp
  then show ?case using q q'(1) rep_entry [OF assms e] r(12)
    by (subst map_each.simps) (simp add: hash_map_pos_equal_def hash_map_end_def hash_map_pos_get_kpointer_def hash_map_pos_get_pointer_def Hmap_Iterator_next_def)
qed

text \<open>The loop of \<open>hash_map_destroy\<close> deletes every node.\<close>

lemma destroy_nodes_ok: "hm_rep m es \<Longrightarrow> \<exists>m'. destroy_nodes m = Some m' \<and> hm_rep m' [] \<and> same_config m m'"
proof (induction "length es" arbitrary: m es rule: less_induct)
  case less
  have eq: "hash_map_pos_equal (hash_map_begin m) (h_end m) \<longleftrightarrow> es = []"
    using begin_is_end [OF less.prems] hm_repD(12) [OF less.prems] by (simp add: hash_map_pos_equal_def)
  show ?case
  proof (cases "es = []")
    case True
    then show ?thesis using less.prems eq same_config_refl by (subst destroy_nodes.simps) simp
  next
    case False
    obtain e where e: "e \<in> set es" "stands_at m (hash_map_begin m) e" using begin_entry [OF less.prems False] .
    obtain m1 where m1: "hash_map_delete m (hash_map_begin m) = Some (1, m1)" "hm_rep m1 (without (fst e) es)" "same_config m m1"
      using hash_map_delete_law [OF less.prems e] by blast
    obtain m' where "destroy_nodes m1 = Some m'" "hm_rep m' []" "same_config m1 m'"
      using less.hyps [OF without_shorter [OF e(1)] m1(2)] by blast
    then show ?thesis using m1 eq False same_config_trans by (subst destroy_nodes.simps) auto
  qed
qed

subsection \<open>Maps as a service\<close>

datatype map_op = Add nat ptr ptr | Search ptr | Remove ptr | Del ptr

fun drop_first :: "('a \<Rightarrow> bool) \<Rightarrow> 'a list \<Rightarrow> 'a list" where
  "drop_first P [] = []"
| "drop_first P (x # xs) = (if P x then xs else x # drop_first P xs)"

text \<open>
  What a map promises, on the list of its bindings with the latest first: the return code, the delivered element and the
  new bindings.  A binding is not overwritten by a later one with an equal key but hidden until that is removed.
\<close>

fun map_spec :: "(ptr \<Rightarrow> ptr \<Rightarrow> int) \<Rightarrow> (ptr \<times> ptr) list \<Rightarrow> map_op \<Rightarrow> (int \<times> ptr option) \<times> (ptr \<times> ptr) list" where
  "map_spec cmp ds (Add p k v) = (if p = 0 then ((-1, None), ds) else ((int (length ds), None), (k, v) # ds))"
| "map_spec cmp ds (Search k) = ((case find (\<lambda>d. cmp (fst d) k = 0) ds of None \<Rightarrow> (-1, None) | Some d \<Rightarrow> (1, Some (snd d))), ds)"
| "map_spec cmp ds (Remove k) =
     ((case find (\<lambda>d. cmp (fst d) k = 0) ds of None \<Rightarrow> (-1, None) | Some d \<Rightarrow> (1, Some (snd d))), drop_first (\<lambda>d. cmp (fst d) k = 0) ds)"
| "map_spec cmp ds (Del k) =
     ((case find (\<lambda>d. cmp (fst d) k = 0) ds of None \<Rightarrow> (-1, None) | Some d \<Rightarrow> (1, None)), drop_first (\<lambda>d. cmp (fst d) k = 0) ds)"

fun map_spec_run :: "(ptr \<Rightarrow> ptr \<Rightarrow> int) \<Rightarrow> (ptr \<times> ptr) list \<Rightarrow> map_op list \<Rightarrow> (int \<times> ptr option) list \<times> (ptr \<times> ptr) list" where
  "map_spec_run cmp ds [] = ([], ds)"
| "map_spec_run cmp ds (q # qs) = (let (r, ds1) = map_spec cmp ds q; (rs, ds2) = map_spec_run cmp ds1 qs in (r # rs, ds2))"

fun map_run :: "('s \<Rightarrow> map_op \<Rightarrow> ((int \<times> ptr option) \<times> 's) option) \<Rightarrow> 's \<Rightarrow> map_op list \<Rightarrow> ((int \<times> ptr option) list \<times> 's) option" where
  "map_run step s [] = Some ([], s)"
| "map_run step s (q # qs) = do { (r, s1) \<leftarrow> step s q; (rs, s2) \<leftarrow> map_run step s1 qs; Some (r # rs, s2) }"

text \<open>The address that the allocator hands out; 0 is a refusal.\<close>

fun op_node :: "map_op \<Rightarrow> nat option" where
  "op_node (Add p k v) = (if p = 0 then None else Some p)"
| "op_node q = None"

text \<open>A condition on the operations that suffices for addresses to be free when they are handed out: one may come back when the map has become empty.\<close>

fun may_grant :: "(ptr \<Rightarrow> ptr \<Rightarrow> int) \<Rightarrow> nat set \<Rightarrow> (ptr \<times> ptr) list \<Rightarrow> map_op list \<Rightarrow> bool" where
  "may_grant cmp U ds [] \<longleftrightarrow> True"
| "may_grant cmp U ds (q # qs) \<longleftrightarrow>
     (case op_node q of None \<Rightarrow> True | Some p \<Rightarrow> p \<notin> U) \<and>
     (let ds' = snd (map_spec cmp ds q) in may_grant cmp (if ds' = [] then {} else U \<union> set_option (op_node q)) ds' qs)"

lemma drop_first_length: "length (drop_first P xs) \<le> length xs"
  by (induction xs) auto

lemma map_spec_length: "length (snd (map_spec cmp ds q)) \<le> Suc (length ds)"
  by (cases q) (auto intro: le_SucI drop_first_length)

locale map_service =
  fixes step :: "'s \<Rightarrow> map_op \<Rightarrow> ((int \<times> ptr option) \<times> 's) option" and rep :: "'s \<Rightarrow> (ptr \<times> ptr) list \<Rightarrow> bool"
    and used :: "'s \<Rightarrow> nat set" and cmp :: "ptr \<Rightarrow> ptr \<Rightarrow> int" and limit :: nat
  assumes step_law: "rep s ds \<Longrightarrow> length ds < limit \<Longrightarrow> (\<And>p. op_node q = Some p \<Longrightarrow> p \<notin> used s) \<Longrightarrow>
    \<exists>s'. step s q = Some (fst (map_spec cmp ds q), s') \<and> rep s' (snd (map_spec cmp ds q)) \<and> used s' \<subseteq> used s \<union> set_option (op_node q)"
    and used_law: "rep s ds \<Longrightarrow> finite (used s) \<and> card (used s) = length ds"
begin

lemma run_law:
  "rep s ds \<Longrightarrow> length ds + length qs \<le> limit \<Longrightarrow> granted_run op_node (\<lambda>p. True) used step s qs \<Longrightarrow>
   \<exists>s'. map_run step s qs = Some (fst (map_spec_run cmp ds qs), s') \<and> rep s' (snd (map_spec_run cmp ds qs))"
proof (induction qs arbitrary: s ds)
  case (Cons q qs)
  obtain r ds1 where spec: "map_spec cmp ds q = (r, ds1)" by (cases "map_spec cmp ds q")
  obtain s1 where s1: "step s q = Some (r, s1)" "rep s1 ds1"
    using step_law [OF Cons.prems(1) _ granted_now [OF Cons.prems(3), THEN conjunct2]] Cons.prems(2) spec by fastforce
  have "length ds1 + length qs \<le> limit" using map_spec_length [of cmp ds q] Cons.prems(2) spec by simp
  then obtain s2 where "map_run step s1 qs = Some (fst (map_spec_run cmp ds1 qs), s2)" "rep s2 (snd (map_spec_run cmp ds1 qs))"
    using Cons.IH [OF s1(2) _ granted_next [OF Cons.prems(3) s1(1)]] by blast
  then show ?case using s1(1) spec by (auto simp: Let_def split: prod.split)
qed simp

lemma may_grant_run:
  "rep s ds \<Longrightarrow> used s \<subseteq> U \<Longrightarrow> length ds + length qs \<le> limit \<Longrightarrow> may_grant cmp U ds qs \<Longrightarrow> granted_run op_node (\<lambda>p. True) used step s qs"
proof (induction qs arbitrary: s ds U)
  case (Cons q qs)
  obtain r ds1 where spec: "map_spec cmp ds q = (r, ds1)" by (cases "map_spec cmp ds q")
  have now: "p \<notin> used s" if "op_node q = Some p" for p using Cons.prems(2,4) that by auto
  obtain s1 where s1: "step s q = Some (r, s1)" "rep s1 ds1" "used s1 \<subseteq> used s \<union> set_option (op_node q)"
    using step_law [OF Cons.prems(1) _ now] Cons.prems(3) spec by fastforce
  have "used s1 \<subseteq> (if ds1 = [] then {} else U \<union> set_option (op_node q))" using used_law [OF s1(2)] s1(3) Cons.prems(2) by auto
  moreover have "length ds1 + length qs \<le> limit" using map_spec_length [of cmp ds q] Cons.prems(3) spec by simp
  ultimately have "granted_run op_node (\<lambda>p. True) used step s1 qs"
    using Cons.IH [OF s1(2)] Cons.prems(4) spec by (simp add: Let_def)
  then show ?case using now s1(1) by (intro granted_Cons) auto
qed simp

lemma may_grant_start:
  assumes "rep s []" "may_grant cmp {} [] qs" "length qs \<le> limit"
  shows "granted_run op_node (\<lambda>p. True) used step s qs"
  by (rule may_grant_run [OF assms(1) _ _ assms(2)]) (use used_law [OF assms(1)] assms(3) in auto)

end

fun Hash_Map_step :: "hash_map \<Rightarrow> map_op \<Rightarrow> ((int \<times> ptr option) \<times> hash_map) option" where
  "Hash_Map_step m (Add p k v) = do { (r, m') \<leftarrow> Hash_Map_add m p k v; Some ((r, None), m') }"
| "Hash_Map_step m (Search k) = do { (r, e) \<leftarrow> Hash_Map_search m k; Some ((r, e), m) }"
| "Hash_Map_step m (Remove k) = do { (r, e, m') \<leftarrow> Hash_Map_remove m k; Some ((r, e), m') }"
| "Hash_Map_step m (Del k) = do { (r, m') \<leftarrow> Hash_Map_del m k; Some ((r, None), m') }"

text \<open>Bucket numbers are in range and agree on keys that compare equal.\<close>

definition hash_ok :: "(ptr \<Rightarrow> u32 \<Rightarrow> u32) \<Rightarrow> (ptr \<Rightarrow> ptr \<Rightarrow> int) \<Rightarrow> u32 \<Rightarrow> bool" where
  "hash_ok hf cmp bsize \<longleftrightarrow> (\<forall>k. hf k bsize < bsize) \<and> (\<forall>k k'. cmp k k' = 0 \<longrightarrow> hf k bsize = hf k' bsize)"

definition bindings :: "(ptr \<Rightarrow> ptr \<Rightarrow> int) \<Rightarrow> hash_map \<Rightarrow> (ptr \<times> ptr) list \<Rightarrow> bool" where
  "bindings cmp m ds \<longleftrightarrow> key_cmp_func m = Some cmp \<and> hash_ok (hash_func m) cmp (bucket_size m) \<and> (\<exists>es. hm_rep m es \<and> ds = map snd es)"

lemma bindings_config:
  "hash_ok (hash_func m) cmp (bucket_size m) \<Longrightarrow> key_cmp_func m = Some cmp \<Longrightarrow> same_config m m' \<Longrightarrow> hm_rep m' es \<Longrightarrow> bindings cmp m' (map snd es)"
  by (auto simp: bindings_def same_config_def)

lemma without_drop_first:
  assumes "find (\<lambda>e. P (snd e)) es = Some e" "distinct (map fst es)"
  shows "map snd (without (fst e) es) = drop_first P (map snd es)"
  using assms
proof (induction es)
  case (Cons x es)
  show ?case
  proof (cases "P (snd x)")
    case True
    then have "e = x" using Cons.prems(1) by simp
    then show ?thesis using True without_split [of "[]" x es] Cons.prems(2) by simp
  next
    case False
    then have f: "find (\<lambda>e. P (snd e)) es = Some e" using Cons.prems(1) by simp
    then have "e \<in> set es" by (auto simp: find_Some_iff)
    then have "fst x \<noteq> fst e" using Cons.prems(2) by auto
    then show ?thesis using Cons.IH [OF f] Cons.prems(2) False by (simp add: without_def)
  qed
qed simp

lemma find_map_snd: "find (\<lambda>d. P d) (map snd es) = map_option snd (find (\<lambda>e. P (snd e)) es)"
  by (induction es) auto

lemma drop_first_absent: "find P xs = None \<Longrightarrow> drop_first P xs = xs"
  by (induction xs) (auto split: if_splits)

lemma map_spec_run_length: "length (snd (map_spec_run cmp ds qs)) \<le> length ds + length qs"
proof (induction qs arbitrary: ds)
  case (Cons q qs)
  show ?case using Cons.IH [of "snd (map_spec cmp ds q)"] map_spec_length [of cmp ds q] by (auto simp: Let_def split: prod.split)
qed simp

lemma hash_okD:
  assumes "hash_ok (hash_func m) cmp (bucket_size m)" "hm_rep m es"
  shows "hb m k < length (hlist m)" "cmp k k' = 0 \<Longrightarrow> hb m k = hb m k'"
  using assms hm_repD(2) [OF assms(2)] by (auto simp: hash_ok_def word_less_nat_alt)

text \<open>The search, and the deletion of what it finds, on the bindings.\<close>

lemma lookup_law:
  assumes "hm_rep m es" "key_cmp_func m = Some cmp" "hash_ok (hash_func m) cmp (bucket_size m)"
  obtains (absent) "find (\<lambda>d. cmp (fst d) k = 0) (map snd es) = None" "hash_map_search m k = Some (-1, None)"
  | (present) e q m' where "find (\<lambda>d. cmp (fst d) k = 0) (map snd es) = Some (snd e)" "hash_map_search m k = Some (1, Some q)"
      "hash_map_pos_get_pointer m q = Some (snd (snd e))" "hash_map_delete m q = Some (1, m')" "e \<in> set es"
      "hm_rep m' (without (fst e) es)" "same_config m m'" "map snd (without (fst e) es) = drop_first (\<lambda>d. cmp (fst d) k = 0) (map snd es)"
proof -
  note h = hash_okD [OF assms(3,1)]
  note s = hash_map_search_law [OF assms(1,2) h(1) h(2), of k]
  note f = find_map_snd [of "\<lambda>d. cmp (fst d) k = 0" es]
  show ?thesis
  proof (cases "find (\<lambda>e. cmp (fst (snd e)) k = 0) es")
    case None
    then show ?thesis using absent s f by simp
  next
    case (Some e)
    then obtain q where q: "hash_map_search m k = Some (1, Some q)" "stands_at m q e" "e \<in> set es" using s by auto
    obtain m' where m': "hash_map_delete m q = Some (1, m')" "hm_rep m' (without (fst e) es)" "same_config m m'"
      using hash_map_delete_law [OF assms(1) q(3,2)] by blast
    have "hash_map_pos_get_pointer m q = Some (snd (snd e))"
      using rep_entry(2) [OF assms(1) q(3)] q(2) by (simp add: hash_map_pos_get_pointer_def stands_at_def)
    moreover have "map snd (without (fst e) es) = drop_first (\<lambda>d. cmp (fst d) k = 0) (map snd es)"
      using without_drop_first [of "\<lambda>d. cmp (fst d) k = 0" es e] Some hm_repD(4) [OF assms(1)] by simp
    ultimately show ?thesis using present [of e q m'] q m' Some f by simp
  qed
qed

lemma rep_nodes: "hm_rep m es \<Longrightarrow> dom (h_next m) = fst ` set es"
  by (simp add: hm_rep_def)

lemma without_subset: "fst ` set (without a es) \<subseteq> fst ` set es"
  by (auto simp: without_def)

lemma Hash_Map_step_law:
  assumes "bindings cmp m ds" "length ds < 2 ^ 31" "\<And>p. op_node q = Some p \<Longrightarrow> p \<notin> dom (h_next m)"
  shows "\<exists>m'. Hash_Map_step m q = Some (fst (map_spec cmp ds q), m') \<and> bindings cmp m' (snd (map_spec cmp ds q)) \<and>
    dom (h_next m') \<subseteq> dom (h_next m) \<union> set_option (op_node q)"
proof -
  obtain es where es: "hm_rep m es" "ds = map snd es" and c: "key_cmp_func m = Some cmp" "hash_ok (hash_func m) cmp (bucket_size m)"
    using assms(1) by (auto simp: bindings_def)
  have gone: "bindings cmp m' ds'" "dom (h_next m') \<subseteq> dom (h_next m)"
    if "hm_rep m' (without a es)" "same_config m m'" "map snd (without a es) = ds'" for m' a ds'
    using bindings_config [OF c(2,1) that(2,1)] that(3) rep_nodes [OF that(1)] rep_nodes [OF es(1)] without_subset [of a es] by auto
  show ?thesis
  proof (cases q)
    case (Add p k v)
    show ?thesis
    proof (cases "p = 0")
      case True
      then show ?thesis using Add assms(1) by (simp add: Hash_Map_add_def hash_map_insert_def)
    next
      case False
      obtain m' where m': "hash_map_insert m p k v = Some (sint (node_count m), m')" "hm_rep m' ((p, k, v) # es)" "same_config m m'"
        using hash_map_insert_law [OF es(1) hash_okD(1) [OF c(2) es(1)], of p k v] assms(3) Add False by auto
      have "node_count m = of_nat (length ds)" using hm_repD(10) [OF es(1)] es(2) by simp
      then have "sint (node_count m) = int (length ds)" using assms(2) by (simp add: signed_of_nat signed_take_bit_int_eq_self)
      moreover have "bindings cmp m' ((k, v) # ds)" using bindings_config [OF c(2,1) m'(3,2)] es(2) by simp
      moreover have "dom (h_next m') \<subseteq> dom (h_next m) \<union> {p}" unfolding rep_nodes [OF m'(2)] rep_nodes [OF es(1)] by auto
      ultimately show ?thesis using Add False m'(1) by (simp add: Hash_Map_add_def)
    qed
  next
    case (Search k)
    show ?thesis
      by (rule lookup_law [OF es(1) c, of k]) (use Search es(2) assms(1) in \<open>auto simp: Hash_Map_search_def\<close>)
  next
    case (Remove k)
    show ?thesis
    proof (rule lookup_law [OF es(1) c, of k], goal_cases absent present)
      case absent
      then show ?thesis using Remove es(2) assms(1) drop_first_absent [of _ "map snd es"] by (auto simp: Hash_Map_remove_def)
    next
      case (present e p m')
      then show ?thesis using Remove es(2) gone [of m' "fst e"] by (auto simp: Hash_Map_remove_def)
    qed
  next
    case (Del k)
    show ?thesis
    proof (rule lookup_law [OF es(1) c, of k], goal_cases absent present)
      case absent
      then show ?thesis using Del es(2) assms(1) drop_first_absent [of _ "map snd es"] by (auto simp: Hash_Map_del_def)
    next
      case (present e p m')
      then show ?thesis using Del es(2) gone [of m' "fst e"] by (auto simp: Hash_Map_del_def)
    qed
  qed
qed

lemma bindings_used: "bindings cmp m ds \<Longrightarrow> finite (dom (h_next m)) \<and> card (dom (h_next m)) = length ds"
proof -
  assume "bindings cmp m ds"
  then obtain es where es: "hm_rep m es" "ds = map snd es" by (auto simp: bindings_def)
  have "card (fst ` set es) = length es" using hm_repD(4) [OF es(1)] distinct_card [of "map fst es"] by simp
  then show ?thesis using rep_nodes [OF es(1)] es(2) by simp
qed

interpretation hmap: map_service Hash_Map_step "bindings cmp" "\<lambda>m. dom (h_next m)" cmp "2 ^ 31" for cmp
  by unfold_locales (rule Hash_Map_step_law, assumption+, rule bindings_used)

text \<open>The loop of \<open>reset\<close> ends because every key compares equal to itself: each round takes an entry out.\<close>

lemma Map_reset_ok:
  assumes refl: "\<And>k. cmp k k = 0" and rel: "\<And>e. release_element cfg e \<noteq> None"
  shows "bindings cmp m ds \<Longrightarrow> \<exists>vs m'. Map_reset cfg m el = Some (1, concat (map (\<lambda>e. the (release_element cfg e)) vs), m') \<and>
    mset vs = mset (map snd ds) \<and> bindings cmp m' []"
proof (induction "length ds" arbitrary: m ds el rule: less_induct)
  case less
  obtain es where es: "hm_rep m es" "ds = map snd es" and c: "key_cmp_func m = Some cmp" "hash_ok (hash_func m) cmp (bucket_size m)"
    using less.prems by (auto simp: bindings_def)
  have stop: "hash_map_pos_equal (hash_map_end m) (hash_map_begin m) \<longleftrightarrow> ds = []"
    using begin_is_end [OF es(1)] hm_repD(12) [OF es(1)] es(2) by (auto simp: hash_map_pos_equal_def hash_map_end_def)
  show ?case
  proof (cases "ds = []")
    case True
    then show ?thesis using stop less.prems by (subst Map_reset.simps) simp
  next
    case False
    obtain b where b: "b \<in> set es" "stands_at m (hash_map_begin m) b" using begin_entry [OF es(1)] False es(2) by auto
    then have key: "hash_map_pos_get_kpointer m (hash_map_begin m) = Some (fst (snd b))"
      using rep_entry(1) [OF es(1) b(1)] by (simp add: hash_map_pos_get_kpointer_def stands_at_def)
    show ?thesis
    proof (rule lookup_law [OF es(1) c, of "fst (snd b)"], goal_cases absent present)
      case absent
      then show ?thesis using b(1) refl by (auto simp: find_None_iff)
    next
      case (present e q m1)
      have len: "length (map snd (without (fst e) es)) < length ds" using without_shorter [OF present(5)] es(2) by simp
      have b1: "bindings cmp m1 (map snd (without (fst e) es))" using bindings_config [OF c(2,1) present(7,6)] .
      let ?el = "Some (if keeps_element cfg (snd (snd e)) then snd (snd e) else 0)"
      obtain vs m' where r: "Map_reset cfg m1 ?el = Some (1, concat (map (\<lambda>e. the (release_element cfg e)) vs), m')"
          "mset vs = mset (map snd (map snd (without (fst e) es)))" "bindings cmp m' []"
        using less.hyps [OF len b1] by blast
      obtain rl where rl: "release_element cfg (snd (snd e)) = Some rl" using rel by blast
      have "Map_reset cfg m el = Some (1, concat (map (\<lambda>e. the (release_element cfg e)) (snd (snd e) # vs)), m')"
        using stop False key present(2,3,4) r(1) rl by (subst Map_reset.simps) (simp add: Hash_Map_remove_def)
      moreover have "mset (snd (snd e) # vs) = mset (map snd ds)"
      proof -
        obtain xs ys where x: "es = xs @ e # ys" using present(5) by (meson split_list)
        then have "without (fst e) es = xs @ ys" using without_split [of xs e ys] hm_repD(4) [OF es(1)] by simp
        then show ?thesis using r(2) x es(2) by simp
      qed
      ultimately show ?thesis using r(3) by blast
    qed
  qed
qed

lemma Hash_Map_reconstruct_ok:
  "hm_rep m es \<Longrightarrow> \<exists>m'. Hash_Map_reconstruct m True attr = Some (1, m') \<and> hm_rep m' [] \<and> key_cmp_func m' = Some default_key_cmp_func"
  using destroy_nodes_ok [of m es] hash_map_init_rep [of 0 None None]
  by (auto simp: Hash_Map_reconstruct_def hash_map_destroy_def) (simp add: hash_map_init_def Let_def)

text \<open>A missing key gives -1, not 0; callers compare with 1.\<close>

lemma Map_contain_key_ok:
  assumes "bindings cmp m ds"
  shows "Map_contain_key m k = Some (if \<exists>d \<in> set ds. cmp (fst d) k = 0 then 1 else -1)"
proof -
  obtain es where es: "hm_rep m es" "ds = map snd es" and c: "key_cmp_func m = Some cmp" "hash_ok (hash_func m) cmp (bucket_size m)"
    using assms by (auto simp: bindings_def)
  show ?thesis
    by (rule lookup_law [OF es(1) c, of k]) (use es(2) in \<open>auto simp: Map_contain_key_def find_None_iff find_Some_iff\<close>)
qed

subsection \<open>What the owner of the values has to release\<close>

text \<open>How a value of the map is given back, by the type of the values: nothing is released for a map that does not own its values.\<close>

definition release_duty :: "map_config \<Rightarrow> (ptr \<Rightarrow> release) option" where
  "release_duty cfg =
     (if trustee_flag cfg \<noteq> 1 then None
      else if value_type cfg \<in> {VALUE_TYPE_OBJ_POINTER, VALUE_TYPE_STRING_POINTER} then Some Object_destroy
      else if value_type cfg = VALUE_TYPE_ALLOC_POINTER then Some Mem_free
      else if value_type cfg = VALUE_TYPE_STRUCT_POINTER then
        Some (if class_free cfg \<noteq> None then Free_method else if value_free_callback cfg then Free_callback else Mem_free)
      else None)"

text \<open>The releases that the values \<open>vs\<close> call for: one for each value that is not null.\<close>

definition releases_due :: "map_config \<Rightarrow> ptr list \<Rightarrow> release multiset" where
  "releases_due cfg vs = (case release_duty cfg of None \<Rightarrow> {#} | Some f \<Rightarrow> image_mset f (mset (filter (\<lambda>v. v \<noteq> 0) vs)))"

text \<open>A class that frees the structs has to have a method \<open>free\<close>.\<close>

definition releasable :: "map_config \<Rightarrow> bool" where
  "releasable cfg \<longleftrightarrow> trustee_flag cfg = 1 \<and> value_type cfg = VALUE_TYPE_STRUCT_POINTER \<longrightarrow> class_free cfg \<noteq> Some False"

lemma release_element_duty:
  "releasable cfg \<Longrightarrow> release_element cfg e = Some (case release_duty cfg of None \<Rightarrow> [] | Some f \<Rightarrow> if e = 0 then [] else [f e])"
  by (auto simp: release_element_def release_duty_def releasable_def split: option.split)

lemma releasable_element: "releasable cfg \<Longrightarrow> release_element cfg e \<noteq> None"
  by (simp add: release_element_duty)

lemma mset_releases:
  assumes "releasable cfg" "mset vs = mset ws"
  shows "mset (concat (map (\<lambda>e. the (release_element cfg e)) vs)) = releases_due cfg ws"
proof -
  have "mset (concat (map (\<lambda>e. the (release_element cfg e)) vs)) = releases_due cfg vs"
    by (induction vs) (auto simp: release_element_duty [OF assms(1)] releases_due_def split: option.split)
  also have "\<dots> = releases_due cfg ws" using assms(2) by (auto simp: releases_due_def split: option.split)
  finally show ?thesis .
qed

subsection \<open>Properties\<close>

lemma default_key_cmp_eq: "default_key_cmp_func k k' = 0 \<longleftrightarrow> k = k'"
  by (auto simp: default_key_cmp_func_def)

lemma default_hash_ok: "hash_ok default_hash_func default_key_cmp_func 20"
  by (simp add: hash_ok_def default_key_cmp_eq default_hash_func_def word_less_nat_alt unat_mod)

lemma Hash_Map_construct_bindings: "bindings default_key_cmp_func (snd (Hash_Map_construct True attr)) []"
  using hash_map_init_rep [of 0 None None] default_hash_ok
  by (simp add: bindings_def Hash_Map_construct_def) (simp add: hash_map_init_def Let_def)

text \<open>C24.
  For every sequence of fewer than \<open>2 ^ 31\<close> additions, searches, removals and deletions on an initialised hash map whose hash function
  stays below the number of buckets and agrees on keys that compare equal: when each new node gets an address that is not in use at that
  moment (a freed one may come back) or is refused, every access is to a live node and to a bucket of the array, and the return codes and
  delivered elements are those of the list of bindings with the latest first, where a refused addition returns -1 and changes
  nothing; the traversal of \<open>Map\<close> visits every binding once, the count is their number and so is the number of allocated nodes.\<close>
theorem hash_map_history:
  fixes bsize :: u32 and hf cmp
  defines "m \<equiv> snd (hash_map_init True bsize (Some hf) (Some cmp))"
  assumes "hash_ok hf cmp (if bsize = 0 then 20 else bsize)" "length qs < 2 ^ 31"
    "granted_run op_node (\<lambda>p. True) (\<lambda>m. dom (h_next m)) Hash_Map_step m qs"
  defines "ds \<equiv> snd (map_spec_run cmp [] qs)"
  shows "\<exists>m' ks. map_run Hash_Map_step m qs = Some (fst (map_spec_run cmp [] qs), m') \<and>
    Map_for_each m' = Some ks \<and> mset ks = mset ds \<and> hash_map_get_count m' = int (length ds) \<and> card (dom (h_next m')) = length ds"
proof -
  have "bindings cmp m []"
    using hash_map_init_rep [of bsize "Some hf" "Some cmp"] assms(2) by (simp add: bindings_def m_def) (simp add: hash_map_init_def Let_def)
  then obtain m' where m': "map_run Hash_Map_step m qs = Some (fst (map_spec_run cmp [] qs), m')" "bindings cmp m' ds"
    using hmap.run_law [of cmp m "[]" qs] assms(3,4) by (auto simp: ds_def)
  then obtain es where es: "hm_rep m' es" "ds = map snd es" by (auto simp: bindings_def)
  have "Map_for_each m' = Some (map snd (entry_order m' es))"
    using map_each_ok [OF es(1), of "[]"] begin_at [OF es(1)] by (simp add: Map_for_each_def)
  moreover have "mset (map snd (entry_order m' es)) = mset ds" using mset_order [OF hm_repD(9) [OF es(1)]] es(2) by simp
  moreover have "hash_map_get_count m' = int (length ds)"
  proof -
    have "length ds \<le> length qs" using map_spec_run_length [of cmp "[]" qs] by (simp add: ds_def)
    then show ?thesis
      using hm_repD(10) [OF es(1)] es(2) assms(3) by (simp add: hash_map_get_count_def signed_of_nat signed_take_bit_int_eq_self)
  qed
  ultimately show ?thesis using m'(1) bindings_used [OF m'(2)] by blast
qed

theorem hash_map_history_witness:
  "\<exists>m' ks. map_run Hash_Map_step (snd (hash_map_init True 0 (Some default_hash_func) (Some default_key_cmp_func)))
      [Add 1 7 70, Add 2 27 71, Add 3 7 72, Search 7, Remove 7, Search 7, Del 27, Search 27, Del 7, Add 2 9 90, Add 0 8 80] =
    Some ([(0, None), (1, None), (2, None), (1, Some 72), (1, Some 72), (1, Some 70), (1, None), (-1, None), (1, None), (0, None), (-1, None)], m') \<and>
    Map_for_each m' = Some ks \<and> mset ks = mset [(9, 90)] \<and> hash_map_get_count m' = 1 \<and> card (dom (h_next m')) = 1"
proof -
  let ?qs = "[Add 1 7 70, Add 2 27 71, Add 3 7 72, Search 7, Remove 7, Search 7, Del 27, Search 27, Del 7, Add 2 9 90, Add 0 8 80]"
  have b: "bindings default_key_cmp_func (snd (hash_map_init True 0 (Some default_hash_func) (Some default_key_cmp_func))) []"
    using hash_map_init_rep [of 0 "Some default_hash_func" "Some default_key_cmp_func"] default_hash_ok
    by (simp add: bindings_def) (simp add: hash_map_init_def Let_def)
  have g: "granted_run op_node (\<lambda>p. True) (\<lambda>m. dom (h_next m)) Hash_Map_step
      (snd (hash_map_init True 0 (Some default_hash_func) (Some default_key_cmp_func))) ?qs"
    by (rule hmap.may_grant_start [OF b]) (simp_all add: default_key_cmp_func_def)
  show ?thesis
    using hash_map_history [of default_hash_func default_key_cmp_func 0 ?qs] g default_hash_ok by (simp add: default_key_cmp_func_def)
qed

text \<open>
  \<open>hash_map_for_each\<close> on a well-formed table ends and passes the position of every node to its callback exactly once, in the
  order of the buckets.\<close>
theorem hash_map_for_each_visits:
  assumes "hm_rep m es"
  shows "\<exists>ps. hash_map_for_each m = Some ps \<and> mset (map hlist_node_p ps) = mset (map fst es) \<and> sorted (map (unat \<circ> bucket_pos) ps)"
proof -
  note r = hm_repD [OF assms]
  obtain c nx ps where ps: "hash_map_pos_next m (hash_map_begin m) None = Some (c, nx)" "each_pos m (hash_map_begin m) nx = Some ps"
      "list_all2 (stands_at m) ps (entry_order m es)"
    using for_each_start [OF assms] by blast
  have "map hlist_node_p ps = map fst (entry_order m es)" "map (unat \<circ> bucket_pos) ps = map (\<lambda>e. hb m (fst (snd e))) (entry_order m es)"
    using ps(3) by (auto simp: list_all2_conv_all_nth stands_at_def intro!: nth_equalityI)
  moreover have "mset (map fst (entry_order m es)) = mset (map fst es)" using mset_order [OF r(9)] by simp
  ultimately show ?thesis
    using ps(1,2) sorted_order [of "hb m" "length (hlist m)" es] by (simp add: hash_map_for_each_def del: mset_map)
qed

theorem hash_map_for_each_visits_witness:
  "\<exists>m ps. hash_map_insert (snd (hash_map_init True 4 None None)) 9 6 60 = Some (0, m) \<and> hash_map_for_each m = Some ps \<and> mset (map hlist_node_p ps) = {#9#}"
proof -
  let ?m = "snd (hash_map_init True 4 None None)"
  have "hb ?m 6 < length (hlist ?m)" "9 \<notin> dom (h_next ?m)" "node_count ?m = 0"
    by (simp_all add: hash_map_init_def Let_def default_hash_func_def unat_mod)
  then obtain m where "hash_map_insert ?m 9 6 60 = Some (0, m)" "hm_rep m [(9, 6, 60)]"
    using hash_map_insert_law [OF hash_map_init_rep, of 4 None None 6 9 60] by auto
  then show ?thesis using hash_map_for_each_visits [of m "[(9, 6, 60)]"] by auto
qed

text \<open>C25.
  The destructor of \<open>Hash_Map\<close> ends when every key compares equal to itself and a class that is to free structs has a method for
  it: it returns 1, the releases are exactly those that the values call for (an object or string is destroyed, an allocated block
  is freed, a struct goes to the method, the callback or the allocator; each value that is not null once, and none when the map
  does not own its values), no node stays allocated and the array of buckets is freed.\<close>
theorem hash_map_deconstruct_releases:
  assumes "bindings cmp m ds" "\<And>k. cmp k k = 0" "releasable cfg"
  shows "\<exists>rels m'. Hash_Map_deconstruct cfg m = Some (1, rels, m') \<and> mset rels = releases_due cfg (map snd ds) \<and>
    h_next m' = Map.empty \<and> h_value m' = Map.empty \<and> hlist m' = []"
proof -
  obtain vs m1 where r: "Map_reset cfg m None = Some (1, concat (map (\<lambda>e. the (release_element cfg e)) vs), m1)"
      "mset vs = mset (map snd ds)" "bindings cmp m1 []"
    using Map_reset_ok [OF assms(2) releasable_element [OF assms(3)] assms(1)] by blast
  then have "hm_rep m1 []" by (auto simp: bindings_def)
  then obtain m2 where m2: "destroy_nodes m1 = Some m2" "hm_rep m2 []" using destroy_nodes_ok by blast
  have "hash_map_pos_equal (h_end m2) (hash_map_begin m2)"
    using begin_is_end [OF m2(2)] hm_repD(12) [OF m2(2)] by (simp add: hash_map_pos_equal_def)
  then have "Hash_Map_deconstruct cfg m = Some (1, concat (map (\<lambda>e. the (release_element cfg e)) vs), m2\<lparr>hlist := []\<rparr>)"
    using r(1) m2(1) by (simp add: Hash_Map_deconstruct_def hash_map_destroy_def)
  then show ?thesis using mset_releases [OF assms(3) r(2)] hm_repD(5,8) [OF m2(2)] by auto
qed

theorem hash_map_deconstruct_releases_witness:
  "\<exists>m m' rels. map_run Hash_Map_step (snd (Hash_Map_construct True 0)) [Add 1 5 50, Add 2 5 0, Add 3 6 60] = Some ([(0, None), (1, None), (2, None)], m) \<and>
    Hash_Map_deconstruct \<lparr>trustee_flag = 1, value_type = VALUE_TYPE_ALLOC_POINTER, class_free = None, value_free_callback = False\<rparr> m =
      Some (1, rels, m') \<and> mset rels = {#Mem_free 50, Mem_free 60#} \<and> h_next m' = Map.empty"
proof -
  let ?cfg = "\<lparr>trustee_flag = 1, value_type = VALUE_TYPE_ALLOC_POINTER, class_free = None, value_free_callback = False\<rparr>"
  let ?qs = "[Add 1 5 50, Add 2 5 0, Add 3 6 60]"
  note b = Hash_Map_construct_bindings [of 0]
  have "granted_run op_node (\<lambda>p. True) (\<lambda>m. dom (h_next m)) Hash_Map_step (snd (Hash_Map_construct True 0)) ?qs"
    by (rule hmap.may_grant_start [OF b]) simp_all
  then obtain m where m: "map_run Hash_Map_step (snd (Hash_Map_construct True 0)) ?qs = Some ([(0, None), (1, None), (2, None)], m)"
      "bindings default_key_cmp_func m [(6, 60), (5, 0), (5, 50)]"
    using hmap.run_law [OF b, of ?qs] by auto
  have "releasable ?cfg" "releases_due ?cfg (map snd [(6, 60), (5, 0), (5, 50)]) = {#Mem_free 50, Mem_free 60#}"
    by (simp_all add: releasable_def releases_due_def release_duty_def add_mset_commute)
  then show ?thesis using hash_map_deconstruct_releases [OF m(2), of ?cfg] m(1) by (auto simp: default_key_cmp_eq)
qed

text \<open>The constructor ignores a refused array of buckets; the next addition writes through the null pointer.\<close>

lemma refused_buckets: "p \<noteq> 0 \<Longrightarrow> Hash_Map_add (snd (Hash_Map_construct False attr)) p k v = None"
  by (simp add: Hash_Map_construct_def Hash_Map_add_def hash_map_insert_def hash_map_init_def INIT_HLIST_NODE_def new_hnode_def
      set_hnext_def set_pprev_def hlist_add_head_def get_first_def Let_def)

end
