(* ===== verification/RBTree.thy ===== *)
theory RBTree
  imports Prelude
begin

text \<open>
  The red-black tree of \<open>core/utils/data_structure/rbtree_map/rbtree.c\<close> and \<open>rbtree.h\<close>: nodes in a heap that is split by field, with the
  parent pointer and the colour packed in one word.  An access to an address that is not live is undefined; 0 is \<open>NULL\<close>.
  The insertion is treated here, the deletion in theory \<open>RBErase\<close>.
\<close>

subsection \<open>Nodes\<close>

record rbheap =
  rb_root :: u64
  rb_parent_color :: "u64 \<rightharpoonup> u64"
  rb_right :: "u64 \<rightharpoonup> u64"
  rb_left :: "u64 \<rightharpoonup> u64"

definition rb_parent :: "rbheap \<Rightarrow> u64 \<Rightarrow> u64 option" where
  "rb_parent h r = map_option (\<lambda>pc. pc AND NOT 3) (rb_parent_color h r)"

definition rb_color :: "rbheap \<Rightarrow> u64 \<Rightarrow> u64 option" where
  "rb_color h r = map_option (\<lambda>pc. pc AND 1) (rb_parent_color h r)"

definition rb_is_red :: "rbheap \<Rightarrow> u64 \<Rightarrow> bool option" where
  "rb_is_red h r = map_option (\<lambda>c. c = 0) (rb_color h r)"

definition rb_is_black :: "rbheap \<Rightarrow> u64 \<Rightarrow> bool option" where
  "rb_is_black h r = map_option (\<lambda>c. c \<noteq> 0) (rb_color h r)"

definition upd_pc :: "rbheap \<Rightarrow> u64 \<Rightarrow> (u64 \<Rightarrow> u64) \<Rightarrow> rbheap option" where
  "upd_pc h r f = map_option (\<lambda>pc. h\<lparr>rb_parent_color := (rb_parent_color h)(r \<mapsto> f pc)\<rparr>) (rb_parent_color h r)"

definition rb_set_red :: "rbheap \<Rightarrow> u64 \<Rightarrow> rbheap option" where
  "rb_set_red h r = upd_pc h r (\<lambda>pc. pc AND NOT 1)"

definition rb_set_black :: "rbheap \<Rightarrow> u64 \<Rightarrow> rbheap option" where
  "rb_set_black h r = upd_pc h r (\<lambda>pc. pc OR 1)"

definition rb_set_parent :: "rbheap \<Rightarrow> u64 \<Rightarrow> u64 \<Rightarrow> rbheap option" where
  "rb_set_parent h rb p = upd_pc h rb (\<lambda>pc. (pc AND 3) OR p)"

definition rb_set_color :: "rbheap \<Rightarrow> u64 \<Rightarrow> u64 \<Rightarrow> rbheap option" where
  "rb_set_color h rb color = upd_pc h rb (\<lambda>pc. (pc AND NOT 1) OR color)"

definition set_left :: "rbheap \<Rightarrow> u64 \<Rightarrow> u64 \<Rightarrow> rbheap option" where
  "set_left h a v = (if a \<in> dom (rb_left h) then Some (h\<lparr>rb_left := (rb_left h)(a \<mapsto> v)\<rparr>) else None)"

definition set_right :: "rbheap \<Rightarrow> u64 \<Rightarrow> u64 \<Rightarrow> rbheap option" where
  "set_right h a v = (if a \<in> dom (rb_right h) then Some (h\<lparr>rb_right := (rb_right h)(a \<mapsto> v)\<rparr>) else None)"

text \<open>A node outside every tree is its own parent.\<close>

definition RB_EMPTY_NODE :: "rbheap \<Rightarrow> u64 \<Rightarrow> bool option" where
  "RB_EMPTY_NODE h n = map_option (\<lambda>p. p = n) (rb_parent h n)"

definition rb_init_node :: "rbheap \<Rightarrow> u64 \<Rightarrow> rbheap option" where
  "rb_init_node h n =
     rb_set_parent (h\<lparr>rb_parent_color := (rb_parent_color h)(n \<mapsto> 0), rb_right := (rb_right h)(n \<mapsto> 0), rb_left := (rb_left h)(n \<mapsto> 0)\<rparr>) n n"

text \<open>The pointer that leads to \<open>node\<close>, in its parent or at the root, is set to \<open>new\<close>; the two forms differ in the child they test.\<close>

definition change_child :: "rbheap \<Rightarrow> u64 \<Rightarrow> u64 \<Rightarrow> u64 \<Rightarrow> rbheap option" where
  "change_child h parent node new =
     (if parent \<noteq> 0 then do { l \<leftarrow> rb_left h parent; if node = l then set_left h parent new else set_right h parent new }
      else Some (h\<lparr>rb_root := new\<rparr>))"

definition change_child_r :: "rbheap \<Rightarrow> u64 \<Rightarrow> u64 \<Rightarrow> u64 \<Rightarrow> rbheap option" where
  "change_child_r h parent node new =
     (if parent \<noteq> 0 then do { r \<leftarrow> rb_right h parent; if node = r then set_right h parent new else set_left h parent new }
      else Some (h\<lparr>rb_root := new\<rparr>))"

definition rb_rotate_left :: "rbheap \<Rightarrow> u64 \<Rightarrow> rbheap option" where
  "rb_rotate_left h node =
     do { right \<leftarrow> rb_right h node;
          parent \<leftarrow> rb_parent h node;
          rl \<leftarrow> rb_left h right;
          h1 \<leftarrow> set_right h node rl;
          h2 \<leftarrow> (if rl \<noteq> 0 then rb_set_parent h1 rl node else Some h1);
          h3 \<leftarrow> set_left h2 right node;
          h4 \<leftarrow> rb_set_parent h3 right parent;
          h5 \<leftarrow> change_child h4 parent node right;
          rb_set_parent h5 node right }"

definition rb_rotate_right :: "rbheap \<Rightarrow> u64 \<Rightarrow> rbheap option" where
  "rb_rotate_right h node =
     do { left \<leftarrow> rb_left h node;
          parent \<leftarrow> rb_parent h node;
          lr \<leftarrow> rb_right h left;
          h1 \<leftarrow> set_left h node lr;
          h2 \<leftarrow> (if lr \<noteq> 0 then rb_set_parent h1 lr node else Some h1);
          h3 \<leftarrow> set_right h2 left node;
          h4 \<leftarrow> rb_set_parent h3 left parent;
          h5 \<leftarrow> change_child_r h4 parent node left;
          rb_set_parent h5 node left }"

subsection \<open>Insertion\<close>

datatype link = Root | LeftOf u64 | RightOf u64

fun set_link :: "rbheap \<Rightarrow> link \<Rightarrow> u64 \<Rightarrow> rbheap option" where
  "set_link h Root v = Some (h\<lparr>rb_root := v\<rparr>)"
| "set_link h (LeftOf a) v = set_left h a v"
| "set_link h (RightOf a) v = set_right h a v"

fun get_link :: "rbheap \<Rightarrow> link \<Rightarrow> u64 option" where
  "get_link h Root = Some (rb_root h)"
| "get_link h (LeftOf a) = rb_left h a"
| "get_link h (RightOf a) = rb_right h a"

definition rb_link_node :: "rbheap \<Rightarrow> u64 \<Rightarrow> u64 \<Rightarrow> link \<Rightarrow> rbheap option" where
  "rb_link_node h node parent lk =
     set_link (h\<lparr>rb_parent_color := (rb_parent_color h)(node \<mapsto> parent), rb_left := (rb_left h)(node \<mapsto> 0), rb_right := (rb_right h)(node \<mapsto> 0)\<rparr>) lk node"

text \<open>
  One round of the loop of \<open>rb_insert_color\<close>, for a parent that is a left child and one that is not: the heap and the next \<open>node\<close>.  The
  first rotation, with the exchange of node and parent, and the final colours and rotation are named.
\<close>

definition red_node :: "rbheap \<Rightarrow> u64 \<Rightarrow> bool option" where
  "red_node h n = (if n \<noteq> 0 then rb_is_red h n else Some False)"

definition insert_turn_l :: "rbheap \<Rightarrow> u64 \<Rightarrow> u64 \<Rightarrow> (rbheap \<times> u64 \<times> u64) option" where
  "insert_turn_l h node parent =
     do { child \<leftarrow> rb_right h parent;
          if child = node then do { h1 \<leftarrow> rb_rotate_left h parent; Some (h1, parent, node) } else Some (h, node, parent) }"

definition insert_end_l :: "rbheap \<Rightarrow> u64 \<Rightarrow> u64 \<Rightarrow> u64 \<Rightarrow> (rbheap \<times> u64) option" where
  "insert_end_l h node parent gparent =
     do { h1 \<leftarrow> rb_set_black h parent; h2 \<leftarrow> rb_set_red h1 gparent; h3 \<leftarrow> rb_rotate_right h2 gparent; Some (h3, node) }"

definition insert_round_l :: "rbheap \<Rightarrow> u64 \<Rightarrow> u64 \<Rightarrow> u64 \<Rightarrow> (rbheap \<times> u64) option" where
  "insert_round_l h node parent gparent =
     do { uncle \<leftarrow> rb_right h gparent;
          red \<leftarrow> red_node h uncle;
          if red then
            do { h1 \<leftarrow> rb_set_black h uncle; h2 \<leftarrow> rb_set_black h1 parent; h3 \<leftarrow> rb_set_red h2 gparent; Some (h3, gparent) }
          else do { (h', node', parent') \<leftarrow> insert_turn_l h node parent; insert_end_l h' node' parent' gparent } }"

definition insert_turn_r :: "rbheap \<Rightarrow> u64 \<Rightarrow> u64 \<Rightarrow> (rbheap \<times> u64 \<times> u64) option" where
  "insert_turn_r h node parent =
     do { child \<leftarrow> rb_left h parent;
          if child = node then do { h1 \<leftarrow> rb_rotate_right h parent; Some (h1, parent, node) } else Some (h, node, parent) }"

definition insert_end_r :: "rbheap \<Rightarrow> u64 \<Rightarrow> u64 \<Rightarrow> u64 \<Rightarrow> (rbheap \<times> u64) option" where
  "insert_end_r h node parent gparent =
     do { h1 \<leftarrow> rb_set_black h parent; h2 \<leftarrow> rb_set_red h1 gparent; h3 \<leftarrow> rb_rotate_left h2 gparent; Some (h3, node) }"

definition insert_round_r :: "rbheap \<Rightarrow> u64 \<Rightarrow> u64 \<Rightarrow> u64 \<Rightarrow> (rbheap \<times> u64) option" where
  "insert_round_r h node parent gparent =
     do { uncle \<leftarrow> rb_left h gparent;
          red \<leftarrow> red_node h uncle;
          if red then
            do { h1 \<leftarrow> rb_set_black h uncle; h2 \<leftarrow> rb_set_black h1 parent; h3 \<leftarrow> rb_set_red h2 gparent; Some (h3, gparent) }
          else do { (h', node', parent') \<leftarrow> insert_turn_r h node parent; insert_end_r h' node' parent' gparent } }"

partial_function (option) insert_loop :: "rbheap \<Rightarrow> u64 \<Rightarrow> rbheap option" where
  "insert_loop h node =
     do { parent \<leftarrow> rb_parent h node;
          if parent = 0 then Some h
          else
            do { red \<leftarrow> rb_is_red h parent;
                 if \<not> red then Some h
                 else
                   do { gparent \<leftarrow> rb_parent h parent;
                        gl \<leftarrow> rb_left h gparent;
                        (h', node') \<leftarrow> (if parent = gl then insert_round_l h node parent gparent
                                      else insert_round_r h node parent gparent);
                        insert_loop h' node' } } }"

definition rb_insert_color :: "rbheap \<Rightarrow> u64 \<Rightarrow> rbheap option" where
  "rb_insert_color h node = do { h1 \<leftarrow> insert_loop h node; rb_set_black h1 (rb_root h1) }"

subsection \<open>Order\<close>

partial_function (option) leftmost :: "rbheap \<Rightarrow> u64 \<Rightarrow> u64 option" where
  "leftmost h n = do { l \<leftarrow> rb_left h n; if l \<noteq> 0 then leftmost h l else Some n }"

partial_function (option) rightmost :: "rbheap \<Rightarrow> u64 \<Rightarrow> u64 option" where
  "rightmost h n = do { r \<leftarrow> rb_right h n; if r \<noteq> 0 then rightmost h r else Some n }"

definition rb_first :: "rbheap \<Rightarrow> u64 option" where
  "rb_first h = (if rb_root h = 0 then Some 0 else leftmost h (rb_root h))"

definition rb_last :: "rbheap \<Rightarrow> u64 option" where
  "rb_last h = (if rb_root h = 0 then Some 0 else rightmost h (rb_root h))"

partial_function (option) climb_right :: "rbheap \<Rightarrow> u64 \<Rightarrow> u64 option" where
  "climb_right h n =
     do { parent \<leftarrow> rb_parent h n;
          if parent = 0 then Some 0
          else do { pr \<leftarrow> rb_right h parent; if n = pr then climb_right h parent else Some parent } }"

partial_function (option) climb_left :: "rbheap \<Rightarrow> u64 \<Rightarrow> u64 option" where
  "climb_left h n =
     do { parent \<leftarrow> rb_parent h n;
          if parent = 0 then Some 0
          else do { pl \<leftarrow> rb_left h parent; if n = pl then climb_left h parent else Some parent } }"

definition rb_next :: "rbheap \<Rightarrow> u64 \<Rightarrow> u64 option" where
  "rb_next h n =
     do { p \<leftarrow> rb_parent h n;
          if p = n then Some 0
          else do { r \<leftarrow> rb_right h n; if r \<noteq> 0 then leftmost h r else climb_right h n } }"

definition rb_prev :: "rbheap \<Rightarrow> u64 \<Rightarrow> u64 option" where
  "rb_prev h n =
     do { p \<leftarrow> rb_parent h n;
          if p = n then Some 0
          else do { l \<leftarrow> rb_left h n; if l \<noteq> 0 then rightmost h l else climb_left h n } }"

subsection \<open>The packed word\<close>

datatype color = Red | Black

fun col_bit :: "color \<Rightarrow> u64" where
  "col_bit Red = 0"
| "col_bit Black = 1"

definition pack :: "u64 \<Rightarrow> color \<Rightarrow> u64" where
  "pack p c = p OR col_bit c"

definition aligned :: "u64 \<Rightarrow> bool" where
  "aligned p \<longleftrightarrow> p AND 3 = 0"

lemma aligned_0 [simp]: "aligned 0"
  by (simp add: aligned_def)

lemma bit_3: "bit (3 :: int) n \<longleftrightarrow> n = 0 \<or> n = Suc 0"
proof -
  have "(3 :: int) = mask 2" by (simp add: mask_eq_exp_minus_1)
  then show ?thesis by (simp only: bit_mask_iff) auto
qed

lemma bit_col: "bit (col_bit c) n \<longleftrightarrow> c = Black \<and> n = 0"
  by (cases c) (simp_all add: bit_1_iff)

lemma aligned_bit: "aligned p \<Longrightarrow> bit p n \<Longrightarrow> n \<noteq> 0 \<and> n \<noteq> Suc 0"
proof -
  assume "aligned p" "bit p n"
  moreover have "bit (p AND 3) n \<longleftrightarrow> bit p n \<and> (n = 0 \<or> n = Suc 0)" by (auto simp: bit_and_iff bit_3)
  ultimately show ?thesis by (simp add: aligned_def)
qed

lemmas pack_bits = bit_simps bit_3 bit_1_iff bit_col pack_def

lemma pack_parent: "aligned p \<Longrightarrow> pack p c AND NOT 3 = p"
  by (rule bit_word_eqI) (auto simp: pack_bits dest: aligned_bit)

lemma pack_color: "aligned p \<Longrightarrow> pack p c AND 1 = col_bit c"
  by (rule bit_word_eqI) (auto simp: pack_bits dest: aligned_bit)

lemma pack_black: "aligned p \<Longrightarrow> pack p c OR 1 = pack p Black"
  by (rule bit_word_eqI) (auto simp: pack_bits dest: aligned_bit)

lemma pack_red: "aligned p \<Longrightarrow> pack p c AND NOT 1 = pack p Red"
  by (rule bit_word_eqI) (auto simp: pack_bits dest: aligned_bit)

lemma pack_set_parent: "aligned p \<Longrightarrow> aligned q \<Longrightarrow> (pack p c AND 3) OR q = pack q c"
  by (rule bit_word_eqI) (auto simp: pack_bits dest: aligned_bit)

lemma pack_set_color: "aligned p \<Longrightarrow> (pack p c AND NOT 1) OR col_bit d = pack p d"
  by (rule bit_word_eqI) (auto simp: pack_bits dest: aligned_bit)

subsection \<open>Trees and contexts\<close>

datatype rbtree = Lf | Nd color rbtree u64 rbtree

fun addr :: "rbtree \<Rightarrow> u64" where
  "addr Lf = 0"
| "addr (Nd c l a r) = a"

fun inorder :: "rbtree \<Rightarrow> u64 list" where
  "inorder Lf = []"
| "inorder (Nd c l a r) = inorder l @ a # inorder r"

fun col :: "rbtree \<Rightarrow> color" where
  "col Lf = Black"
| "col (Nd c l a r) = c"

text \<open>A context is the path from a subtree to the root: on each step the subtree is the left or the right child.\<close>

datatype frame = LF color u64 rbtree | RF color rbtree u64

type_synonym ctx = "frame list"

fun plug :: "ctx \<Rightarrow> rbtree \<Rightarrow> rbtree" where
  "plug [] t = t"
| "plug (LF c a r # k) t = plug k (Nd c t a r)"
| "plug (RF c l a # k) t = plug k (Nd c l a t)"

fun up :: "ctx \<Rightarrow> u64" where
  "up [] = 0"
| "up (LF c a r # k) = a"
| "up (RF c l a # k) = a"

fun before :: "ctx \<Rightarrow> u64 list" where
  "before [] = []"
| "before (LF c a r # k) = before k"
| "before (RF c l a # k) = before k @ inorder l @ [a]"

fun behind :: "ctx \<Rightarrow> u64 list" where
  "behind [] = []"
| "behind (LF c a r # k) = a # inorder r @ behind k"
| "behind (RF c l a # k) = behind k"

lemma inorder_plug [simp]: "inorder (plug k t) = before k @ inorder t @ behind k"
  by (induction k t rule: plug.induct) auto

lemma plug_append: "plug (k1 @ k2) t = plug k2 (plug k1 t)"
  by (induction k1 t rule: plug.induct) auto

fun tree_at :: "rbheap \<Rightarrow> u64 \<Rightarrow> rbtree \<Rightarrow> bool" where
  "tree_at h p Lf \<longleftrightarrow> True"
| "tree_at h p (Nd c l a r) \<longleftrightarrow>
     a \<noteq> 0 \<and> aligned a \<and> rb_left h a = Some (addr l) \<and> rb_right h a = Some (addr r) \<and> rb_parent_color h a = Some (pack p c) \<and>
     tree_at h a l \<and> tree_at h a r"

text \<open>The context holds \<open>v\<close> in its hole.\<close>

fun ctx_at :: "rbheap \<Rightarrow> u64 \<Rightarrow> ctx \<Rightarrow> bool" where
  "ctx_at h v [] \<longleftrightarrow> rb_root h = v"
| "ctx_at h v (LF c a r # k) \<longleftrightarrow>
     a \<noteq> 0 \<and> aligned a \<and> rb_left h a = Some v \<and> rb_right h a = Some (addr r) \<and> rb_parent_color h a = Some (pack (up k) c) \<and>
     tree_at h a r \<and> ctx_at h a k"
| "ctx_at h v (RF c l a # k) \<longleftrightarrow>
     a \<noteq> 0 \<and> aligned a \<and> rb_left h a = Some (addr l) \<and> rb_right h a = Some v \<and> rb_parent_color h a = Some (pack (up k) c) \<and>
     tree_at h a l \<and> ctx_at h a k"

text \<open>The heap holds the tree.\<close>

definition rb_rep :: "rbheap \<Rightarrow> rbtree \<Rightarrow> bool" where
  "rb_rep h t \<longleftrightarrow> tree_at h 0 t \<and> rb_root h = addr t \<and> distinct (inorder t)"

lemma tree_at_plug:
  "tree_at h 0 (plug k t) \<and> rb_root h = addr (plug k t) \<longleftrightarrow> tree_at h (up k) t \<and> ctx_at h (addr t) k"
  by (induction k t rule: plug.induct) auto

lemma rb_rep_plug: "rb_rep h (plug k t) \<longleftrightarrow> tree_at h (up k) t \<and> ctx_at h (addr t) k \<and> distinct (before k @ inorder t @ behind k)"
  using tree_at_plug [of h k t] by (auto simp: rb_rep_def)

lemma aligned_up: "ctx_at h v k \<Longrightarrow> aligned (up k)"
  by (cases "(h, v, k)" rule: ctx_at.cases) auto

lemma up_mem: "ctx_at h v k \<Longrightarrow> k \<noteq> [] \<Longrightarrow> up k \<in> set (before k @ behind k)"
  by (cases "(h, v, k)" rule: ctx_at.cases) auto

lemma addr_mem: "t \<noteq> Lf \<Longrightarrow> addr t \<in> set (inorder t)"
  by (cases t) auto

lemma addr_0: "tree_at h p t \<Longrightarrow> addr t = 0 \<longleftrightarrow> t = Lf"
  by (cases t) auto

lemma tree_nonnull: "tree_at h p t \<Longrightarrow> 0 \<notin> set (inorder t)"
  by (induction t arbitrary: p) auto

lemma ctx_nonnull: "ctx_at h v k \<Longrightarrow> 0 \<notin> set (before k) \<and> 0 \<notin> set (behind k)"
  by (induction h v k rule: ctx_at.induct) (auto dest: tree_nonnull)

subsection \<open>Frame rules\<close>

text \<open>Two heaps that agree on some addresses.\<close>

definition agree :: "u64 set \<Rightarrow> rbheap \<Rightarrow> rbheap \<Rightarrow> bool" where
  "agree A h h' \<longleftrightarrow> (\<forall>x \<in> A. rb_left h' x = rb_left h x \<and> rb_right h' x = rb_right h x \<and> rb_parent_color h' x = rb_parent_color h x)"

lemma agree_trans: "agree A h1 h2 \<Longrightarrow> agree A h2 h3 \<Longrightarrow> agree A h1 h3"
  by (simp add: agree_def)

lemma agree_mono: "agree A h h' \<Longrightarrow> B \<subseteq> A \<Longrightarrow> agree B h h'"
  by (auto simp: agree_def)

lemma tree_frame: "tree_at h p t \<Longrightarrow> agree (set (inorder t)) h h' \<Longrightarrow> tree_at h' p t"
  by (induction t arbitrary: p) (auto simp: agree_def)

lemma ctx_frame: "ctx_at h v k \<Longrightarrow> agree (set (before k @ behind k)) h h' \<Longrightarrow> rb_root h' = rb_root h \<Longrightarrow> ctx_at h' v k"
  by (induction h v k rule: ctx_at.induct) (auto simp: agree_def intro: tree_frame)

text \<open>The hole of a context is given another value.\<close>

fun refill :: "rbheap \<Rightarrow> ctx \<Rightarrow> u64 \<Rightarrow> rbheap" where
  "refill h [] v = h\<lparr>rb_root := v\<rparr>"
| "refill h (LF c a r # k) v = h\<lparr>rb_left := (rb_left h)(a \<mapsto> v)\<rparr>"
| "refill h (RF c l a # k) v = h\<lparr>rb_right := (rb_right h)(a \<mapsto> v)\<rparr>"

lemma refill_pc [simp]: "rb_parent_color (refill h k v) = rb_parent_color h"
  by (cases "(h, k, v)" rule: refill.cases) auto

lemma refill_fields:
  "k = [] \<or> up k \<noteq> x \<Longrightarrow> rb_left (refill h k v) x = rb_left h x"
  "k = [] \<or> up k \<noteq> x \<Longrightarrow> rb_right (refill h k v) x = rb_right h x"
  by (cases "(h, k, v)" rule: refill.cases; auto)+

lemma agree_refill: "k = [] \<or> up k \<notin> A \<Longrightarrow> agree A h (refill h k v)"
  by (cases "(h, k, v)" rule: refill.cases) (auto simp: agree_def)

lemma refill_agree: "agree A h h' \<Longrightarrow> agree A (refill h k v) (refill h' k v)"
  by (cases "(h, k, v)" rule: refill.cases) (auto simp: agree_def)

lemma refill_root: "rb_root h' = rb_root h \<Longrightarrow> rb_root (refill h' k v) = rb_root (refill h k v)"
  by (cases "(h, k, v)" rule: refill.cases) auto

lemma ctx_at_refill:
  assumes "ctx_at h v k" "distinct (before k @ behind k)"
  shows "ctx_at (refill h k w) w k"
proof (cases k)
  case (Cons f k')
  show ?thesis
  proof (cases f)
    case (LF c a r)
    have "agree (set (inorder r @ before k' @ behind k')) h (refill h k w)" using assms(2) Cons LF by (auto simp: agree_def)
    then show ?thesis using assms(1) Cons LF by (auto intro!: tree_frame [of h] ctx_frame [of h] elim: agree_mono)
  next
    case (RF c l a)
    have "agree (set (inorder l @ before k' @ behind k')) h (refill h k w)" using assms(2) Cons RF by (auto simp: agree_def)
    then show ?thesis using assms(1) Cons RF by (auto intro!: tree_frame [of h] ctx_frame [of h] elim: agree_mono)
  qed
qed (use assms in auto)

lemma ctx_refilled:
  assumes "ctx_at h v k" "distinct (before k @ behind k)" "agree (set (before k @ behind k)) (refill h k w) h'" "rb_root h' = rb_root (refill h k w)"
  shows "ctx_at h' w k"
  by (rule ctx_frame [OF ctx_at_refill [OF assms(1,2)] assms(3,4)])

lemma change_child_refill:
  assumes "ctx_at h v k" "v \<noteq> 0" "v \<notin> set (before k @ behind k)"
  shows "change_child h (up k) v w = Some (refill h k w)" "change_child_r h (up k) v w = Some (refill h k w)"
proof -
  have "addr t \<noteq> v" if "set (inorder t) \<subseteq> set (before k @ behind k)" for t
    using assms(2,3) addr_mem [of t] that by (cases t) auto
  then show "change_child h (up k) v w = Some (refill h k w)" "change_child_r h (up k) v w = Some (refill h k w)"
    using assms(1) by (cases "(h, v, k)" rule: ctx_at.cases; force simp: change_child_def change_child_r_def set_left_def set_right_def)+
qed

text \<open>The live addresses of a heap.\<close>

definition doms :: "rbheap \<Rightarrow> u64 set \<times> u64 set \<times> u64 set" where
  "doms h = (dom (rb_left h), dom (rb_right h), dom (rb_parent_color h))"

lemma doms_refill: "ctx_at h v k \<Longrightarrow> doms (refill h k w) = doms h"
  by (cases "(h, v, k)" rule: ctx_at.cases) (auto simp: doms_def)

text \<open>A subtree is given another parent.\<close>

definition repar :: "rbheap \<Rightarrow> rbtree \<Rightarrow> u64 \<Rightarrow> rbheap" where
  "repar h t q = (if t = Lf then h else h\<lparr>rb_parent_color := (rb_parent_color h)(addr t \<mapsto> pack q (col t))\<rparr>)"

lemma repar_simps [simp]:
  "rb_left (repar h t q) = rb_left h" "rb_right (repar h t q) = rb_right h" "rb_root (repar h t q) = rb_root h"
  by (simp_all add: repar_def)

lemma repar_pc: "x \<notin> set (inorder t) \<Longrightarrow> rb_parent_color (repar h t q) x = rb_parent_color h x"
  using addr_mem [of t] by (auto simp: repar_def)

lemma tree_at_repar: "tree_at h p t \<Longrightarrow> distinct (inorder t) \<Longrightarrow> tree_at (repar h t q) q t"
proof (cases t)
  case (Nd c l a r)
  moreover have "agree (set (inorder l @ inorder r)) h (repar h t q)" if "distinct (inorder t)"
    using that Nd by (auto simp: agree_def repar_def)
  ultimately show "tree_at h p t \<Longrightarrow> distinct (inorder t) \<Longrightarrow> ?thesis"
    by (auto simp: repar_def intro!: tree_frame [of h] elim: agree_mono)
qed auto

lemma set_parent_repar:
  assumes "tree_at h p t" "aligned p" "aligned q"
  shows "(if addr t \<noteq> 0 then rb_set_parent h (addr t) q else Some h) = Some (repar h t q)"
  using assms by (cases t) (auto simp: repar_def rb_set_parent_def upd_pc_def pack_set_parent)

lemma doms_repar: "tree_at h p t \<Longrightarrow> doms (repar h t q) = doms h"
  by (cases t) (auto simp: repar_def doms_def)

lemma rb_set_parent_eq:
  "rb_parent_color h a = Some (pack p c) \<Longrightarrow> aligned p \<Longrightarrow> aligned q \<Longrightarrow>
   rb_set_parent h a q = Some (h\<lparr>rb_parent_color := (rb_parent_color h)(a \<mapsto> pack q c)\<rparr>)"
  by (simp add: rb_set_parent_def upd_pc_def pack_set_parent)

lemma rb_parent_eq: "rb_parent_color h a = Some (pack p c) \<Longrightarrow> aligned p \<Longrightarrow> rb_parent h a = Some p"
  using pack_parent [of p c] by (simp add: rb_parent_def)

lemma rb_color_eq: "rb_parent_color h a = Some (pack p c) \<Longrightarrow> aligned p \<Longrightarrow> rb_color h a = Some (col_bit c)"
  by (simp add: rb_color_def pack_color)

lemma col_bit_0 [simp]: "col_bit c = 0 \<longleftrightarrow> c = Red"
  by (cases c) auto

lemma rb_is_red_eq: "rb_parent_color h a = Some (pack p c) \<Longrightarrow> aligned p \<Longrightarrow> rb_is_red h a = Some (c = Red)"
  by (simp add: rb_is_red_def rb_color_eq)

lemma rb_is_black_eq: "rb_parent_color h a = Some (pack p c) \<Longrightarrow> aligned p \<Longrightarrow> rb_is_black h a = Some (c = Black)"
  by (cases c) (simp_all add: rb_is_black_def rb_color_eq)

subsection \<open>Rotations\<close>

lemma rotate_left_rep:
  assumes rep: "rb_rep h (plug k (Nd c x a (Nd d y b z)))"
  shows "\<exists>h'. rb_rotate_left h a = Some h' \<and> rb_rep h' (plug k (Nd d (Nd c x a y) b z)) \<and> doms h' = doms h"
proof -
  have t: "a \<noteq> 0" "aligned a" "rb_left h a = Some (addr x)" "rb_right h a = Some b" "rb_parent_color h a = Some (pack (up k) c)"
      "tree_at h a x" "b \<noteq> 0" "aligned b" "rb_left h b = Some (addr y)" "rb_right h b = Some (addr z)" "rb_parent_color h b = Some (pack a d)"
      "tree_at h b y" "tree_at h b z" "ctx_at h a k"
    and d: "distinct (before k @ (inorder x @ a # inorder y @ b # inorder z) @ behind k)"
    using rep by (auto simp: rb_rep_plug)
  have al: "aligned (up k)" using t(14) by (rule aligned_up)
  have tk: "k = [] \<or> up k \<notin> set (inorder x @ a # inorder y @ b # inorder z)" using up_mem [OF t(14)] d by auto
  define h1 where "h1 = h\<lparr>rb_right := (rb_right h)(a \<mapsto> addr y)\<rparr>"
  define h2 where "h2 = repar h1 y a"
  define h3 where "h3 = h2\<lparr>rb_left := (rb_left h2)(b \<mapsto> a)\<rparr>"
  define h4 where "h4 = h3\<lparr>rb_parent_color := (rb_parent_color h3)(b \<mapsto> pack (up k) d)\<rparr>"
  define h6 where "h6 = (refill h4 k b)\<lparr>rb_parent_color := (rb_parent_color h4)(a \<mapsto> pack b c)\<rparr>"
  have y1: "tree_at h1 b y" by (rule tree_frame [OF t(12)]) (use d in \<open>auto simp: agree_def h1_def\<close>)
  have pc2: "rb_parent_color h2 a = Some (pack (up k) c)" "rb_parent_color h2 b = Some (pack a d)"
    using t d by (simp_all add: h2_def repar_pc) (simp_all add: h1_def)
  have ag: "agree (- ({a, b} \<union> set (inorder y))) h h4" by (auto simp: agree_def h4_def h3_def h2_def repar_pc) (auto simp: h1_def)
  have ag6: "agree (- {a}) (refill h4 k b) h6" "rb_root h6 = rb_root (refill h4 k b)" by (simp_all add: agree_def h6_def)
  have c4: "ctx_at h4 a k"
    by (rule ctx_frame [OF t(14) agree_mono [OF ag]]) (use d in \<open>auto simp: h4_def h3_def h2_def h1_def\<close>)
  have "(if addr y \<noteq> 0 then rb_set_parent h1 (addr y) a else Some h1) = Some h2"
    unfolding h2_def by (rule set_parent_repar [OF y1]) (use t in auto)
  moreover have "change_child h4 (up k) a b = Some (refill h4 k b)"
    by (rule change_child_refill [OF c4]) (use t d in auto)
  moreover have "set_right h a (addr y) = Some h1" "set_left h2 b a = Some h3"
    using t by (auto simp: set_right_def h1_def set_left_def h2_def h3_def)
  moreover have "rb_set_parent h3 b (up k) = Some h4"
    using rb_set_parent_eq [of h3 b a d "up k"] pc2 t al by (simp add: h3_def h4_def)
  moreover have "rb_set_parent (refill h4 k b) a b = Some h6"
    using rb_set_parent_eq [of "refill h4 k b" a "up k" c b] pc2 t al d by (simp add: h3_def h4_def h6_def)
  ultimately have "rb_rotate_left h a = Some h6"
    unfolding rb_rotate_left_def by (simp only: t(4,9) rb_parent_eq [OF t(5) al] bind_Some_eq)
  moreover have "rb_rep h6 (plug k (Nd d (Nd c x a y) b z))"
  proof -
    have far: "tree_at h6 p t" if "tree_at h p t" "set (inorder t) \<subseteq> set (inorder x) \<union> set (inorder z)" for p t
    proof (rule tree_frame [OF that(1)])
      have "agree (set (inorder t)) h (refill h4 k b)"
        by (rule agree_trans [OF agree_mono [OF ag] agree_refill]) (use that(2) d tk in auto)
      then show "agree (set (inorder t)) h h6"
        by (rule agree_trans [OF _ agree_mono [OF ag6(1)]]) (use that(2) d in auto)
    qed
    have "tree_at h6 a y"
    proof (rule tree_frame [OF tree_at_repar [OF y1, of a, folded h2_def]])
      have "agree (set (inorder y)) h2 h4" using d by (auto simp: agree_def h4_def h3_def)
      then have "agree (set (inorder y)) h2 (refill h4 k b)" by (rule agree_trans [OF _ agree_refill]) (use tk in auto)
      then show "agree (set (inorder y)) h2 h6" by (rule agree_trans [OF _ agree_mono [OF ag6(1)]]) (use d in auto)
    qed (use d in auto)
    moreover have "rb_left h6 a = Some (addr x)" "rb_right h6 a = Some (addr y)" "rb_left h6 b = Some a" "rb_right h6 b = Some (addr z)"
        "rb_parent_color h6 a = Some (pack b c)" "rb_parent_color h6 b = Some (pack (up k) d)"
      using t d tk by (auto simp: h6_def refill_fields h4_def h3_def h2_def h1_def)
    ultimately have "tree_at h6 (up k) (Nd d (Nd c x a y) b z)" using t far by simp
    moreover have "ctx_at h6 b k"
      by (rule ctx_refilled [OF c4 _ agree_mono [OF ag6(1)] ag6(2)]) (use d in auto)
    ultimately show ?thesis using d by (auto simp: rb_rep_plug)
  qed
  moreover have "doms h6 = doms h"
    using doms_refill [OF c4, of b] doms_repar [OF y1, of a] t pc2 by (auto simp: doms_def h6_def h4_def h3_def h2_def h1_def)
  ultimately show ?thesis by blast
qed

subsection \<open>Mirror images\<close>

text \<open>The code has every case twice, with left and right exchanged; the second follows from the first on the mirrored heap.\<close>

definition swap :: "rbheap \<Rightarrow> rbheap" where
  "swap h = h\<lparr>rb_left := rb_right h, rb_right := rb_left h\<rparr>"

fun mirror :: "rbtree \<Rightarrow> rbtree" where
  "mirror Lf = Lf"
| "mirror (Nd c l a r) = Nd c (mirror r) a (mirror l)"

fun mirror_frame :: "frame \<Rightarrow> frame" where
  "mirror_frame (LF c a r) = RF c (mirror r) a"
| "mirror_frame (RF c l a) = LF c a (mirror l)"

abbreviation mirror_ctx :: "ctx \<Rightarrow> ctx" where
  "mirror_ctx k \<equiv> map mirror_frame k"

lemma swap_simps [simp]:
  "rb_left (swap h) = rb_right h" "rb_right (swap h) = rb_left h" "rb_parent_color (swap h) = rb_parent_color h" "rb_root (swap h) = rb_root h"
  "swap (swap h) = h"
  by (simp_all add: swap_def)

lemma mirror_mirror [simp]: "mirror (mirror t) = t"
  by (induction t) auto

lemma mirror_frame_frame [simp]: "mirror_frame (mirror_frame f) = f"
  by (cases f) auto

lemma mirror_frame_comp [simp]: "mirror_frame \<circ> mirror_frame = id"
  by (rule ext) simp

lemma addr_mirror [simp]: "addr (mirror t) = addr t" "col (mirror t) = col t"
  by (cases t; simp)+

lemma inorder_mirror [simp]: "inorder (mirror t) = rev (inorder t)"
  by (induction t) auto

lemma mirror_plug [simp]: "mirror (plug k t) = plug (mirror_ctx k) (mirror t)"
  by (induction k t rule: plug.induct) auto

lemma up_mirror [simp]: "up (mirror_ctx k) = up k"
  by (cases k rule: up.cases) auto

lemma tree_at_swap: "tree_at (swap h) p (mirror t) = tree_at h p t"
  by (induction t arbitrary: p) auto

lemma rb_rep_swap: "rb_rep (swap h) (mirror t) = rb_rep h t"
  by (auto simp: rb_rep_def tree_at_swap)

lemma doms_swap: "doms (swap h) = doms (swap h') \<longleftrightarrow> doms h = doms h'"
  by (auto simp: doms_def)

lemma bind_map_option: "Option.bind (map_option g x) f = Option.bind x (\<lambda>y. f (g y))"
  by (cases x) auto

lemma map_option_bind: "map_option g (Option.bind x f) = Option.bind x (\<lambda>y. map_option g (f y))"
  by (cases x) auto

lemma swap_upd_pc: "upd_pc (swap h) a f = map_option swap (upd_pc h a f)"
  by (cases "rb_parent_color h a") (simp_all add: upd_pc_def swap_def)

lemma swap_ops:
  "rb_parent (swap h) a = rb_parent h a" "rb_color (swap h) a = rb_color h a" "rb_is_red (swap h) a = rb_is_red h a" "rb_is_black (swap h) a = rb_is_black h a"
  "rb_set_red (swap h) a = map_option swap (rb_set_red h a)" "rb_set_black (swap h) a = map_option swap (rb_set_black h a)"
  "rb_set_parent (swap h) a p = map_option swap (rb_set_parent h a p)" "rb_set_color (swap h) a c = map_option swap (rb_set_color h a c)"
  "set_left (swap h) a v = map_option swap (set_right h a v)" "set_right (swap h) a v = map_option swap (set_left h a v)"
  by (auto simp: rb_parent_def rb_color_def rb_is_red_def rb_is_black_def swap_upd_pc rb_set_red_def rb_set_black_def rb_set_parent_def
    rb_set_color_def set_left_def set_right_def)

lemma swap_change_child:
  "change_child (swap h) p n v = map_option swap (change_child_r h p n v)" "change_child_r (swap h) p n v = map_option swap (change_child h p n v)"
  by (simp_all add: change_child_def change_child_r_def swap_ops map_option_bind if_distrib [of "map_option swap"] cong: if_cong)

lemmas swap_rules = swap_ops swap_change_child bind_map_option map_option_bind

lemma swap_rotate:
  "rb_rotate_left (swap h) n = map_option swap (rb_rotate_right h n)" "rb_rotate_right (swap h) n = map_option swap (rb_rotate_left h n)"
proof -
  have if_some: "(if b then map_option swap x else Some (swap y)) = map_option swap (if b then x else Some y)" for b x y by simp
  show "rb_rotate_left (swap h) n = map_option swap (rb_rotate_right h n)" "rb_rotate_right (swap h) n = map_option swap (rb_rotate_left h n)"
    unfolding rb_rotate_left_def rb_rotate_right_def by (simp_all only: swap_rules swap_simps if_some)
qed

lemma rotate_right_rep:
  assumes "rb_rep h (plug k (Nd c (Nd d x b y) a z))"
  shows "\<exists>h'. rb_rotate_right h a = Some h' \<and> rb_rep h' (plug k (Nd d x b (Nd c y a z))) \<and> doms h' = doms h"
proof -
  have "rb_rep (swap h) (plug (mirror_ctx k) (Nd c (mirror z) a (Nd d (mirror y) b (mirror x))))"
    using rb_rep_swap [of h "plug k (Nd c (Nd d x b y) a z)"] assms by simp
  from rotate_left_rep [OF this] obtain h' where h': "rb_rotate_left (swap h) a = Some h'"
      "rb_rep h' (plug (mirror_ctx k) (Nd d (Nd c (mirror z) a (mirror y)) b (mirror x)))" "doms h' = doms (swap h)" by blast
  have "rb_rotate_right h a = Some (swap h')" using swap_rotate(2) [of "swap h" a] h'(1) by simp
  moreover have "rb_rep (swap h') (plug k (Nd d x b (Nd c y a z)))"
    using h'(2) rb_rep_swap [of h' "plug (mirror_ctx k) (Nd d (Nd c (mirror z) a (mirror y)) b (mirror x))"] by simp
  ultimately show ?thesis using h'(3) doms_swap [of h' "swap h"] by auto
qed

subsection \<open>Reads and colours\<close>

lemma rb_read:
  assumes "rb_rep h (plug k (Nd c l a r))"
  shows "a \<noteq> 0" "rb_left h a = Some (addr l)" "rb_right h a = Some (addr r)" "rb_parent h a = Some (up k)"
    "rb_color h a = Some (col_bit c)" "rb_is_red h a = Some (c = Red)" "rb_is_black h a = Some (c = Black)"
  using assms aligned_up [of h a k] by (auto simp: rb_rep_plug rb_parent_eq rb_color_eq rb_is_red_eq rb_is_black_eq)

lemma set_pc_rep:
  assumes rep: "rb_rep h (plug k (Nd c l a r))" and f: "f (pack (up k) c) = pack (up k) d"
  shows "\<exists>h'. upd_pc h a f = Some h' \<and> rb_rep h' (plug k (Nd d l a r)) \<and> doms h' = doms h"
proof -
  have t: "tree_at h (up k) (Nd c l a r)" "ctx_at h a k" "distinct (before k @ (inorder l @ a # inorder r) @ behind k)"
    using rep by (auto simp: rb_rep_plug)
  define h' where "h' = h\<lparr>rb_parent_color := (rb_parent_color h)(a \<mapsto> pack (up k) d)\<rparr>"
  have ag: "agree (- {a}) h h'" "rb_root h' = rb_root h" by (simp_all add: agree_def h'_def)
  have "tree_at h' a l" "tree_at h' a r" "ctx_at h' a k"
    using t by (auto intro!: tree_frame [of h] ctx_frame [of h] agree_mono [OF ag(1)] simp: ag(2))
  then have "rb_rep h' (plug k (Nd d l a r))" using t by (auto simp: rb_rep_plug h'_def)
  moreover have "upd_pc h a f = Some h'" using t f by (simp add: upd_pc_def h'_def)
  moreover have "doms h' = doms h" using t by (auto simp: doms_def h'_def)
  ultimately show ?thesis by blast
qed

lemma set_color_rep:
  assumes "rb_rep h (plug k (Nd c l a r))"
  shows "\<exists>h'. rb_set_black h a = Some h' \<and> rb_rep h' (plug k (Nd Black l a r)) \<and> doms h' = doms h"
    "\<exists>h'. rb_set_red h a = Some h' \<and> rb_rep h' (plug k (Nd Red l a r)) \<and> doms h' = doms h"
    "\<exists>h'. rb_set_color h a (col_bit d) = Some h' \<and> rb_rep h' (plug k (Nd d l a r)) \<and> doms h' = doms h"
proof -
  have al: "aligned (up k)" using assms aligned_up by (auto simp: rb_rep_plug)
  show "\<exists>h'. rb_set_black h a = Some h' \<and> rb_rep h' (plug k (Nd Black l a r)) \<and> doms h' = doms h"
    unfolding rb_set_black_def by (rule set_pc_rep [OF assms]) (rule pack_black [OF al])
  show "\<exists>h'. rb_set_red h a = Some h' \<and> rb_rep h' (plug k (Nd Red l a r)) \<and> doms h' = doms h"
    unfolding rb_set_red_def by (rule set_pc_rep [OF assms]) (rule pack_red [OF al])
  show "\<exists>h'. rb_set_color h a (col_bit d) = Some h' \<and> rb_rep h' (plug k (Nd d l a r)) \<and> doms h' = doms h"
    unfolding rb_set_color_def by (rule set_pc_rep [OF assms]) (rule pack_set_color [OF al])
qed

subsection \<open>The rounds of the insertion\<close>

lemma red_node_eq: "rb_rep h (plug k t) \<Longrightarrow> red_node h (addr t) = Some (col t = Red)"
  using rb_read(1,6) [of h k] by (cases t) (auto simp: red_node_def)

lemma round_l_recolor:
  assumes "rb_rep h (plug k (Nd Black (Nd Red x p y) g (Nd Red u b v)))"
  shows "\<exists>h'. insert_round_l h n p g = Some (h', g) \<and> rb_rep h' (plug k (Nd Red (Nd Black x p y) g (Nd Black u b v))) \<and> doms h' = doms h"
proof -
  obtain h1 where h1: "rb_set_black h b = Some h1" "rb_rep h1 (plug k (Nd Black (Nd Red x p y) g (Nd Black u b v)))" "doms h1 = doms h"
    using set_color_rep(1) [of h "RF Black (Nd Red x p y) g # k" Red u b v] assms by auto
  obtain h2 where h2: "rb_set_black h1 p = Some h2" "rb_rep h2 (plug k (Nd Black (Nd Black x p y) g (Nd Black u b v)))" "doms h2 = doms h1"
    using set_color_rep(1) [of h1 "LF Black g (Nd Black u b v) # k" Red x p y] h1(2) by auto
  obtain h3 where h3: "rb_set_red h2 g = Some h3" "rb_rep h3 (plug k (Nd Red (Nd Black x p y) g (Nd Black u b v)))" "doms h3 = doms h2"
    using set_color_rep(2) [OF h2(2)] by auto
  have "red_node h b = Some True" using red_node_eq [of h "RF Black (Nd Red x p y) g # k" "Nd Red u b v"] assms by simp
  then have "insert_round_l h n p g = Some (h3, g)"
    unfolding insert_round_l_def using rb_read(3) [OF assms] h1(1) h2(1) h3(1) by simp
  then show ?thesis using h1(3) h2(3) h3(2,3) by auto
qed

lemma distinct_plug: "rb_rep h (plug k t) \<Longrightarrow> distinct (before k @ inorder t @ behind k)"
  by (simp add: rb_rep_plug)

lemma not_child: "x \<noteq> 0 \<Longrightarrow> x \<notin> set (inorder t) \<Longrightarrow> addr t \<noteq> x"
  using addr_mem [of t] by (cases t) auto

text \<open>The last two colours and the rotation, for a node \<open>n\<close> that is the left child of its parent \<open>p\<close>.\<close>

lemma insert_end_rep:
  assumes "rb_rep h (plug k (Nd Black (Nd Red (Nd Red x n y) p z) g u))"
  shows "\<exists>h'. insert_end_l h m p g = Some (h', m) \<and> rb_rep h' (plug k (Nd Black (Nd Red x n y) p (Nd Red z g u))) \<and> doms h' = doms h"
proof -
  obtain h1 where h1: "rb_set_black h p = Some h1" "rb_rep h1 (plug k (Nd Black (Nd Black (Nd Red x n y) p z) g u))" "doms h1 = doms h"
    using set_color_rep(1) [of h "LF Black g u # k" Red "Nd Red x n y" p z] assms by auto
  obtain h2 where h2: "rb_set_red h1 g = Some h2" "rb_rep h2 (plug k (Nd Red (Nd Black (Nd Red x n y) p z) g u))" "doms h2 = doms h1"
    using set_color_rep(2) [OF h1(2)] by auto
  show ?thesis using rotate_right_rep [OF h2(2)] h1(1,3) h2(1,3) by (auto simp: insert_end_l_def)
qed

lemma round_l_black:
  assumes "rb_rep h (plug k (Nd c l g u))" "col u = Black"
  shows "insert_round_l h n p g = do { (h', n', p') \<leftarrow> insert_turn_l h n p; insert_end_l h' n' p' g }"
  using assms rb_read(3) [OF assms(1)] red_node_eq [of h "RF c l g # k" u] by (simp add: insert_round_l_def)

lemma round_l_outer:
  assumes rep: "rb_rep h (plug k (Nd Black (Nd Red (Nd Red x n y) p z) g u))" and u: "col u = Black"
  shows "\<exists>h'. insert_round_l h n p g = Some (h', n) \<and> rb_rep h' (plug k (Nd Black (Nd Red x n y) p (Nd Red z g u))) \<and> doms h' = doms h"
proof -
  have p: "rb_right h p = Some (addr z)" using rb_read(3) [of h "LF Black g u # k" Red "Nd Red x n y" p z] rep by simp
  have "n \<noteq> 0" using rb_read(1) [of h "LF Red p z # LF Black g u # k" Red x n y] rep by simp
  then have "addr z \<noteq> n" using distinct_plug [OF rep] not_child [of n z] by auto
  then have "insert_turn_l h n p = Some (h, n, p)" using p by (simp add: insert_turn_l_def)
  then show ?thesis using round_l_black [OF assms, of n p] insert_end_rep [OF rep, of n] by simp
qed

lemma round_l_inner:
  assumes rep: "rb_rep h (plug k (Nd Black (Nd Red x p (Nd Red y n z)) g u))" and u: "col u = Black"
  shows "\<exists>h'. insert_round_l h n p g = Some (h', p) \<and> rb_rep h' (plug k (Nd Black (Nd Red x p y) n (Nd Red z g u))) \<and> doms h' = doms h"
proof -
  have p: "rb_right h p = Some n" using rb_read(3) [of h "LF Black g u # k" Red x p "Nd Red y n z"] rep by simp
  obtain h0 where h0: "rb_rotate_left h p = Some h0" "rb_rep h0 (plug k (Nd Black (Nd Red (Nd Red x p y) n z) g u))" "doms h0 = doms h"
    using rotate_left_rep [of h "LF Black g u # k" Red x p Red y n z] rep by auto
  have "insert_turn_l h n p = Some (h0, p, n)" using p h0(1) by (simp add: insert_turn_l_def)
  then show ?thesis using round_l_black [OF assms, of n p] insert_end_rep [OF h0(2), of p] h0(3) by simp
qed

lemma swap_turn: "insert_turn_l (swap h) n p = map_option (apfst swap) (insert_turn_r h n p)"
  by (cases "rb_left h p"; cases "rb_rotate_right h p") (simp_all add: insert_turn_l_def insert_turn_r_def swap_rules swap_rotate)

lemma swap_end: "insert_end_l (swap h) n p g = map_option (apfst swap) (insert_end_r h n p g)"
  by (simp add: insert_end_l_def insert_end_r_def swap_rules swap_rotate)

lemma swap_round: "insert_round_l (swap h) n p g = map_option (apfst swap) (insert_round_r h n p g)"
proof (cases "rb_left h g")
  case (Some u)
  have "red_node (swap h) u = red_node h u" by (simp add: red_node_def swap_ops)
  then show ?thesis
    using Some by (cases "red_node h u") (auto simp: insert_round_l_def insert_round_r_def swap_rules swap_turn swap_end split_def)
qed (simp add: insert_round_l_def insert_round_r_def)

subsection \<open>Invariants\<close>

fun bheight :: "rbtree \<Rightarrow> nat" where
  "bheight Lf = 0"
| "bheight (Nd c l a r) = bheight l + (if c = Black then 1 else 0)"

fun invc :: "rbtree \<Rightarrow> bool" where
  "invc Lf \<longleftrightarrow> True"
| "invc (Nd c l a r) \<longleftrightarrow> (c = Red \<longrightarrow> col l = Black \<and> col r = Black) \<and> invc l \<and> invc r"

fun invh :: "rbtree \<Rightarrow> bool" where
  "invh Lf \<longleftrightarrow> True"
| "invh (Nd c l a r) \<longleftrightarrow> bheight l = bheight r \<and> invh l \<and> invh r"

definition red_black :: "rbtree \<Rightarrow> bool" where
  "red_black t \<longleftrightarrow> invc t \<and> invh t \<and> col t = Black"

text \<open>A context that expects a tree of black height \<open>n\<close>; its innermost node has the colour \<open>ccol\<close>, its outermost one is black.\<close>

fun ccol :: "ctx \<Rightarrow> color" where
  "ccol [] = Black"
| "ccol (LF c a r # k) = c"
| "ccol (RF c l a # k) = c"

fun ctx_inv :: "ctx \<Rightarrow> nat \<Rightarrow> bool" where
  "ctx_inv [] n \<longleftrightarrow> True"
| "ctx_inv (LF c a r # k) n \<longleftrightarrow>
     invc r \<and> invh r \<and> bheight r = n \<and> (c = Red \<longrightarrow> col r = Black \<and> k \<noteq> [] \<and> ccol k = Black) \<and> ctx_inv k (n + (if c = Black then 1 else 0))"
| "ctx_inv (RF c l a # k) n \<longleftrightarrow>
     invc l \<and> invh l \<and> bheight l = n \<and> (c = Red \<longrightarrow> col l = Black \<and> k \<noteq> [] \<and> ccol k = Black) \<and> ctx_inv k (n + (if c = Black then 1 else 0))"

lemma color_neq [simp]: "c \<noteq> Black \<longleftrightarrow> c = Red" "c \<noteq> Red \<longleftrightarrow> c = Black"
  by (cases c; simp)+

lemma plug_inv:
  "ctx_inv k (bheight t) \<Longrightarrow> invc t \<Longrightarrow> invh t \<Longrightarrow> ccol k = Red \<longrightarrow> col t = Black \<Longrightarrow> invc (plug k t) \<and> invh (plug k t)"
proof (induction k t rule: plug.induct)
  case (2 c a r k t)
  show ?case unfolding plug.simps by (rule 2(1)) (use 2(2-) in \<open>cases c; simp\<close>)+
next
  case (3 c l a k t)
  show ?case unfolding plug.simps by (rule 3(1)) (use 3(2-) in \<open>cases c; simp\<close>)+
qed simp

lemma plug_Lf: "plug k t = Lf \<longleftrightarrow> k = [] \<and> t = Lf"
  by (induction k t rule: plug.induct) auto

lemma ctx_inv_root: "ctx_inv k n \<Longrightarrow> k \<noteq> [] \<Longrightarrow> col (plug k t) = Black"
proof (induction k arbitrary: t n)
  case (Cons f k)
  then show ?case
  proof (cases "k = []")
    case True
    then show ?thesis using Cons.prems by (cases f) auto
  next
    case False
    then show ?thesis using Cons.prems Cons.IH by (cases f) auto
  qed
qed simp

lemma plug_invD:
  "invc (plug k t) \<Longrightarrow> invh (plug k t) \<Longrightarrow> col (plug k t) = Black \<Longrightarrow>
   ctx_inv k (bheight t) \<and> invc t \<and> invh t \<and> (ccol k = Red \<longrightarrow> col t = Black)"
proof (induction k t rule: plug.induct)
  case (2 c a r k t)
  have h: "ctx_inv k (bheight (Nd c t a r)) \<and> invc (Nd c t a r) \<and> invh (Nd c t a r) \<and> (ccol k = Red \<longrightarrow> col (Nd c t a r) = Black)"
    by (rule 2(1)) (use 2(2-) in simp_all)
  have "c = Red \<Longrightarrow> k \<noteq> []" using 2 by auto
  then show ?case using h by (cases c) auto
next
  case (3 c l a k t)
  have h: "ctx_inv k (bheight (Nd c l a t)) \<and> invc (Nd c l a t) \<and> invh (Nd c l a t) \<and> (ccol k = Red \<longrightarrow> col (Nd c l a t) = Black)"
    by (rule 3(1)) (use 3(2-) in simp_all)
  have "c = Red \<Longrightarrow> k \<noteq> []" using 3 by auto
  then show ?case using h by (cases c) auto
qed simp

lemma inv_mirror: "invc (mirror t) = invc t" "invh t \<Longrightarrow> invh (mirror t) \<and> bheight (mirror t) = bheight t"
  by (induction t) auto

text \<open>The parent of \<open>m\<close> is black: the loop ends.\<close>

definition settled :: "rbheap \<Rightarrow> u64 \<Rightarrow> bool" where
  "settled h m \<longleftrightarrow> (\<exists>q. rb_parent h m = Some q \<and> q \<noteq> 0 \<and> rb_is_red h q = Some False)"

lemma settled_loop: "settled h m \<Longrightarrow> insert_loop h m = Some h"
  by (subst insert_loop.simps) (auto simp: settled_def)

lemma settledI: "rb_rep h (plug k (Nd Black (Nd c x m y) q z)) \<Longrightarrow> settled h m"
  using rb_read(4) [of h "LF Black q z # k" c x m y] rb_read(1,6) [of h k Black "Nd c x m y" q z] by (auto simp: settled_def)

text \<open>A round moves the red node up or ends the loop.\<close>

definition round_ok :: "rbheap \<Rightarrow> (rbheap \<times> u64) option \<Rightarrow> ctx \<Rightarrow> rbtree \<Rightarrow> bool" where
  "round_ok h res k t \<longleftrightarrow> (\<exists>h' m t'. res = Some (h', m) \<and> rb_rep h' (plug k t') \<and> inorder t' = inorder t \<and> invc t' \<and> invh t' \<and>
     bheight t' = bheight t \<and> doms h' = doms h \<and> (if col t' = Red then m = addr t' else settled h' m))"

lemma round_l_ok:
  assumes rep: "rb_rep h (plug k (Nd Black (Nd Red x p y) g u))"
    and n: "(col x = Red \<and> addr x = n \<and> col y = Black) \<or> (col y = Red \<and> addr y = n \<and> col x = Black)"
    and inv: "invc x" "invc y" "invc u" "invh (Nd Black (Nd Red x p y) g u)"
  shows "round_ok h (insert_round_l h n p g) k (Nd Black (Nd Red x p y) g u)"
proof (cases "col u = Red")
  case True
  then obtain u1 b u2 where u: "u = Nd Red u1 b u2" by (cases u) auto
  then obtain h' where h': "insert_round_l h n p g = Some (h', g)" "rb_rep h' (plug k (Nd Red (Nd Black x p y) g (Nd Black u1 b u2)))" "doms h' = doms h"
    using round_l_recolor [of h k x p y g u1 b u2 n] rep by auto
  show ?thesis unfolding round_ok_def
    by (rule exI [of _ h'], rule exI [of _ g], rule exI [of _ "Nd Red (Nd Black x p y) g (Nd Black u1 b u2)"]) (use h' inv u in auto)
next
  case False
  then have cu: "col u = Black" by simp
  from n show ?thesis
  proof (elim disjE conjE)
    assume x: "col x = Red" "addr x = n" and y: "col y = Black"
    then obtain x1 x2 where x: "x = Nd Red x1 n x2" by (cases x) auto
    obtain h' where h': "insert_round_l h n p g = Some (h', n)" "rb_rep h' (plug k (Nd Black (Nd Red x1 n x2) p (Nd Red y g u)))" "doms h' = doms h"
      using round_l_outer [of h k x1 n x2 p y g u] rep cu x by auto
    show ?thesis unfolding round_ok_def
      by (rule exI [of _ h'], rule exI [of _ n], rule exI [of _ "Nd Black (Nd Red x1 n x2) p (Nd Red y g u)"])
        (use h' inv x y cu settledI [OF h'(2)] in auto)
  next
    assume y: "col y = Red" "addr y = n" and x: "col x = Black"
    then obtain y1 y2 where y: "y = Nd Red y1 n y2" by (cases y) auto
    obtain h' where h': "insert_round_l h n p g = Some (h', p)" "rb_rep h' (plug k (Nd Black (Nd Red x p y1) n (Nd Red y2 g u)))" "doms h' = doms h"
      using round_l_inner [of h k x p y1 n y2 g u] rep cu y by auto
    show ?thesis unfolding round_ok_def
      by (rule exI [of _ h'], rule exI [of _ p], rule exI [of _ "Nd Black (Nd Red x p y1) n (Nd Red y2 g u)"])
        (use h' inv x y cu settledI [OF h'(2)] in auto)
  qed
qed

lemma round_r_ok:
  assumes rep: "rb_rep h (plug k (Nd Black u g (Nd Red x p y)))"
    and n: "(col x = Red \<and> addr x = n \<and> col y = Black) \<or> (col y = Red \<and> addr y = n \<and> col x = Black)"
    and inv: "invc x" "invc y" "invc u" "invh (Nd Black u g (Nd Red x p y))"
  shows "round_ok h (insert_round_r h n p g) k (Nd Black u g (Nd Red x p y))"
proof -
  have "rb_rep (swap h) (plug (mirror_ctx k) (Nd Black (Nd Red (mirror y) p (mirror x)) g (mirror u)))"
    using rb_rep_swap [of h "plug k (Nd Black u g (Nd Red x p y))"] rep by simp
  then have "round_ok (swap h) (insert_round_l (swap h) n p g) (mirror_ctx k) (Nd Black (Nd Red (mirror y) p (mirror x)) g (mirror u))"
    by (rule round_l_ok) (use n inv inv_mirror in auto)
  then obtain h' m t' where r: "insert_round_l (swap h) n p g = Some (h', m)" "rb_rep h' (plug (mirror_ctx k) t')"
      "inorder t' = inorder (Nd Black (Nd Red (mirror y) p (mirror x)) g (mirror u))" "invc t'" "invh t'"
      "bheight t' = Suc (bheight (mirror y))" "doms h' = doms (swap h)" "if col t' = Red then m = addr t' else settled h' m"
    by (auto simp: round_ok_def)
  have "insert_round_r h n p g = Some (swap h', m)" using r(1) swap_round [of h n p g] by (cases "insert_round_r h n p g") auto
  moreover have "rb_rep (swap h') (plug k (mirror t'))" using rb_rep_swap [of h' "plug (mirror_ctx k) t'"] r(2) by simp
  moreover have "inorder (mirror t') = inorder (Nd Black u g (Nd Red x p y))" using r(3) by simp
  moreover have "settled (swap h') m = settled h' m" by (simp add: settled_def swap_ops)
  ultimately show ?thesis unfolding round_ok_def
    by (intro exI [of _ "swap h'"] exI [of _ m] exI [of _ "mirror t'"]) (use r inv inv_mirror doms_swap [of h' "swap h"] in auto)
qed

subsection \<open>The loop of the insertion\<close>

lemma insert_loop_round:
  assumes "rb_rep h (plug (f # g # k) t)" "t \<noteq> Lf" "ccol [f] = Red"
  shows "insert_loop h (addr t) = Option.bind (case g of LF _ _ _ \<Rightarrow> insert_round_l h (addr t) (up [f]) (up [g])
      | RF _ _ _ \<Rightarrow> insert_round_r h (addr t) (up [f]) (up [g])) (\<lambda>(h', m). insert_loop h' m)"
proof -
  obtain c l a r where t: "t = Nd c l a r" using assms(2) by (cases t) auto
  define p where "p = plug [f] t"
  obtain x y where p: "p = Nd Red x (up [f]) y" using assms(3) by (cases f) (auto simp: p_def)
  have rp: "rb_rep h (plug (g # k) p)" using assms(1) by (cases f) (auto simp: p_def)
  have par: "rb_parent h a = Some (up [f])" using rb_read(4) [of h "f # g # k" c l a r] assms(1) t by (cases f) auto
  have red: "up [f] \<noteq> 0" "rb_is_red h (up [f]) = Some True" "rb_parent h (up [f]) = Some (up (g # k))"
    using rb_read(1,4,6) [of h "g # k" Red x "up [f]" y] rp p by simp_all
  show ?thesis
  proof (cases g)
    case (LF d b u)
    then have "rb_left h b = Some (up [f])" using rb_read(2) [of h k d p b u] rp p by simp
    then show ?thesis using LF t par red by (subst insert_loop.simps) simp
  next
    case (RF d u b)
    then have "rb_left h b = Some (addr u)" using rb_read(2) [of h k d u b p] rp by simp
    moreover have "addr u \<noteq> up [f]" using distinct_plug [OF rp] RF p red(1) not_child [of "up [f]" u] by auto
    ultimately show ?thesis using RF t par red by (subst insert_loop.simps) simp
  qed
qed

lemma insert_loop_frames:
  assumes rep: "rb_rep h (plug (f # g # k) t)" and t: "col t = Red" "invc t" "invh t"
    and k: "ctx_inv (f # g # k) (bheight t)" "ccol [f] = Red"
  shows "\<exists>res T. insert_loop h (addr t) = Option.bind res (\<lambda>(h', m). insert_loop h' m) \<and> round_ok h res k T \<and>
    inorder (plug k T) = inorder (plug (f # g # k) t) \<and> ctx_inv k (bheight T)"
proof -
  have nl: "t \<noteq> Lf" using t(1) by auto
  note loop = insert_loop_round [OF rep nl k(2)]
  have g: "ccol [g] = Black" using k by (cases f; cases g) auto
  define T where "T = plug [f, g] t"
  have pT: "plug (f # g # k) t = plug k T" by (cases f; cases g) (simp_all add: T_def)
  have cT: "ctx_inv k (bheight T)" using k g t by (cases f; cases g) (auto simp: T_def)
  let ?res = "case g of LF _ _ _ \<Rightarrow> insert_round_l h (addr t) (up [f]) (up [g]) | RF _ _ _ \<Rightarrow> insert_round_r h (addr t) (up [f]) (up [g])"
  have "round_ok h ?res k T"
  proof (cases g)
    case (LF d b u)
    then show ?thesis
      using round_l_ok [of h k _ "up [f]" _ b u "addr t"] rep t k g by (cases f) (auto simp: T_def)
  next
    case (RF d u b)
    then show ?thesis
      using round_r_ok [of h k u b _ "up [f]" _ "addr t"] rep t k g by (cases f) (auto simp: T_def)
  qed
  then show ?thesis using loop cT pT by (intro exI [of _ ?res] exI [of _ T]) simp
qed

lemma insert_loop_ok:
  "rb_rep h (plug k t) \<Longrightarrow> col t = Red \<Longrightarrow> invc t \<Longrightarrow> invh t \<Longrightarrow> ctx_inv k (bheight t) \<Longrightarrow>
   \<exists>h' t'. insert_loop h (addr t) = Some h' \<and> rb_rep h' t' \<and> inorder t' = inorder (plug k t) \<and> invc t' \<and> invh t' \<and> t' \<noteq> Lf \<and> doms h' = doms h"
proof (induction "length k" arbitrary: h k t rule: less_induct)
  case less
  obtain l a r where t: "t = Nd Red l a r" using less.prems(2) by (cases t) auto
  have par: "rb_parent h a = Some (up k)" using rb_read(4) less.prems(1) t by blast
  consider (root) "k = []" | (black) "k \<noteq> []" "ccol k = Black" | (red) f g k' where "k = f # g # k'" "ccol [f] = Red"
    using less.prems(5) by (cases k rule: ccol.cases; cases "tl k") (auto split: if_splits)
  then show ?case
  proof cases
    case root
    then have "insert_loop h a = Some h" using par by (subst insert_loop.simps) simp
    then show ?thesis using less.prems root t by auto
  next
    case black
    then have "settled h a"
      using par less.prems(1) rb_read(1,6) [of h "tl k"] by (cases k rule: ccol.cases) (auto simp: settled_def)
    then have "insert_loop h a = Some h" by (rule settled_loop)
    then show ?thesis using less.prems black t plug_inv [OF less.prems(5,3,4)] plug_Lf [of k t] by auto
  next
    case red
    obtain res T where r: "insert_loop h (addr t) = Option.bind res (\<lambda>(h', m). insert_loop h' m)" "round_ok h res k' T"
        "inorder (plug k' T) = inorder (plug k t)" "ctx_inv k' (bheight T)"
      using insert_loop_frames [of h f g k' t] less.prems red by auto
    then obtain h1 m t1 where h1: "res = Some (h1, m)" "rb_rep h1 (plug k' t1)" "inorder t1 = inorder T" "invc t1" "invh t1"
        "bheight t1 = bheight T" "doms h1 = doms h" "if col t1 = Red then m = addr t1 else settled h1 m"
      by (auto simp: round_ok_def)
    show ?thesis
    proof (cases "col t1 = Red")
      case True
      obtain h' t' where "insert_loop h1 (addr t1) = Some h'" "rb_rep h' t'" "inorder t' = inorder (plug k' t1)" "invc t'" "invh t'" "t' \<noteq> Lf" "doms h' = doms h1"
        using less.hyps [of k' h1 t1] red h1 r(4) True by auto
      then show ?thesis using r h1 True by auto
    next
      case False
      then have "insert_loop h1 m = Some h1" using h1(8) settled_loop by simp
      moreover have "invc (plug k' t1)" "invh (plug k' t1)" using h1 r(4) False plug_inv [of k' t1] by auto
      moreover have i: "inorder (plug k' t1) = inorder (plug k t)" using h1(3) r(3) by simp
      moreover have "plug k' t1 \<noteq> Lf"
      proof
        assume "plug k' t1 = Lf"
        then show False using i t by simp
      qed
      ultimately show ?thesis using r(1) h1(1,2,7) by (intro exI [of _ h1] exI [of _ "plug k' t1"]) simp
    qed
  qed
qed

lemma insert_color_ok:
  assumes "rb_rep h (plug k t)" "col t = Red" "invc t" "invh t" "ctx_inv k (bheight t)"
  shows "\<exists>h' t'. rb_insert_color h (addr t) = Some h' \<and> rb_rep h' t' \<and> inorder t' = inorder (plug k t) \<and> red_black t' \<and> doms h' = doms h"
proof -
  obtain h1 t1 where h1: "insert_loop h (addr t) = Some h1" "rb_rep h1 t1" "inorder t1 = inorder (plug k t)" "invc t1" "invh t1" "t1 \<noteq> Lf" "doms h1 = doms h"
    using insert_loop_ok [OF assms] by blast
  then obtain c l a r where t1: "t1 = Nd c l a r" by (cases t1) auto
  obtain h2 where h2: "rb_set_black h1 a = Some h2" "rb_rep h2 (Nd Black l a r)" "doms h2 = doms h1"
    using set_color_rep(1) [of h1 "[]" c l a r] h1(2) t1 by auto
  have "rb_root h1 = a" using h1(2) t1 by (simp add: rb_rep_def)
  then show ?thesis
    using h1 h2 t1 by (intro exI [of _ h2] exI [of _ "Nd Black l a r"]) (auto simp: rb_insert_color_def red_black_def)
qed

text \<open>A new leaf: the link is the hole of a context.\<close>

fun ctx_link :: "ctx \<Rightarrow> link" where
  "ctx_link [] = Root"
| "ctx_link (LF c a r # k) = LeftOf a"
| "ctx_link (RF c l a # k) = RightOf a"

lemma link_node_rep:
  assumes rep: "rb_rep h (plug k Lf)" and n: "n \<noteq> 0" "aligned n" "n \<notin> set (inorder (plug k Lf))"
  shows "\<exists>h'. rb_link_node h n (up k) (ctx_link k) = Some h' \<and> rb_rep h' (plug k (Nd Red Lf n Lf)) \<and>
    doms h' = (insert n (dom (rb_left h)), insert n (dom (rb_right h)), insert n (dom (rb_parent_color h)))"
proof -
  have t: "ctx_at h 0 k" "distinct (before k @ behind k)" using rep by (auto simp: rb_rep_plug)
  define h1 where "h1 = h\<lparr>rb_parent_color := (rb_parent_color h)(n \<mapsto> up k), rb_left := (rb_left h)(n \<mapsto> 0), rb_right := (rb_right h)(n \<mapsto> 0)\<rparr>"
  have c1: "ctx_at h1 0 k" by (rule ctx_frame [OF t(1)]) (use n(3) in \<open>auto simp: agree_def h1_def\<close>)
  have un: "k = [] \<or> up k \<noteq> n" using up_mem [OF t(1)] n(3) by auto
  have "set_link h1 (ctx_link k) n = Some (refill h1 k n)"
    using c1 by (cases k rule: ctx_link.cases) (auto simp: set_left_def set_right_def)
  then have "rb_link_node h n (up k) (ctx_link k) = Some (refill h1 k n)" by (simp add: rb_link_node_def h1_def)
  moreover have "rb_rep (refill h1 k n) (plug k (Nd Red Lf n Lf))"
    using ctx_at_refill [OF c1 t(2), of n] t(2) n un by (auto simp: rb_rep_plug refill_fields) (auto simp: h1_def pack_def)
  moreover have "doms (refill h1 k n) = doms h1" by (rule doms_refill [OF c1])
  ultimately show ?thesis by (auto simp: doms_def h1_def)
qed

lemma insert_leaf_ok:
  assumes "rb_rep h (plug k Lf)" "red_black (plug k Lf)" "n \<noteq> 0" "aligned n" "n \<notin> set (inorder (plug k Lf))"
  shows "\<exists>h1 h' t'. rb_link_node h n (up k) (ctx_link k) = Some h1 \<and> rb_insert_color h1 n = Some h' \<and> rb_rep h' t' \<and>
    inorder t' = before k @ n # behind k \<and> red_black t' \<and>
    doms h' = (insert n (dom (rb_left h)), insert n (dom (rb_right h)), insert n (dom (rb_parent_color h)))"
proof -
  obtain h1 where h1: "rb_link_node h n (up k) (ctx_link k) = Some h1" "rb_rep h1 (plug k (Nd Red Lf n Lf))"
      "doms h1 = (insert n (dom (rb_left h)), insert n (dom (rb_right h)), insert n (dom (rb_parent_color h)))"
    using link_node_rep [OF assms(1,3,4,5)] by blast
  have "ctx_inv k 0" using plug_invD [of k Lf] assms(2) by (simp add: red_black_def)
  then show ?thesis using insert_color_ok [OF h1(2)] h1 by auto
qed

subsection \<open>First, last, next and previous\<close>

lemma leftmost_ok: "rb_rep h (plug k t) \<Longrightarrow> t \<noteq> Lf \<Longrightarrow> leftmost h (addr t) = Some (hd (inorder t))"
proof (induction t arbitrary: k)
  case (Nd c l a r)
  note rd = rb_read [OF Nd.prems(1)]
  show ?case
  proof (cases "l = Lf")
    case False
    have "leftmost h (addr l) = Some (hd (inorder l))" using Nd.IH(1) [of "LF c a r # k"] Nd.prems(1) False by simp
    moreover have "addr l \<noteq> 0" "inorder l \<noteq> []" using False Nd.prems(1) addr_0 [of h a l] by (auto simp: rb_rep_plug) (cases l; simp)
    ultimately show ?thesis using rd(2) by (subst leftmost.simps) (simp add: hd_append)
  qed (use rd(2) in \<open>subst leftmost.simps; simp\<close>)
qed simp

lemma climb_right_ok: "rb_rep h (plug k t) \<Longrightarrow> t \<noteq> Lf \<Longrightarrow> climb_right h (addr t) = Some (hd (behind k @ [0]))"
proof (induction k arbitrary: t)
  case Nil
  then show ?case using rb_read(4) [of h "[]"] by (cases t) (subst climb_right.simps; simp)+
next
  case (Cons f k)
  obtain c l a r where t: "t = Nd c l a r" using Cons.prems(2) by (cases t) auto
  have par: "rb_parent h a = Some (up (f # k))" "a \<noteq> 0" using rb_read(1,4) Cons.prems(1) t by blast+
  show ?case
  proof (cases f)
    case (LF d b s)
    have rp: "rb_rep h (plug k (Nd d t b s))" using Cons.prems(1) LF by simp
    note rd = rb_read [OF rp]
    have "addr s \<noteq> a" using distinct_plug [OF rp] t not_child [of a s] par(2) by auto
    then show ?thesis using par rd(1,3) t LF by (subst climb_right.simps) simp
  next
    case (RF d s b)
    have rp: "rb_rep h (plug k (Nd d s b t))" using Cons.prems(1) RF by simp
    then have "climb_right h b = Some (hd (behind k @ [0]))" using Cons.IH [OF rp] by simp
    then show ?thesis using par rb_read(1,3) [OF rp] t RF by (subst climb_right.simps) simp
  qed
qed

lemma plug_member: "a \<in> set (inorder t) \<Longrightarrow> \<exists>k c l r. t = plug k (Nd c l a r)"
proof (induction t)
  case (Nd c l b r)
  then consider "a = b" | "a \<in> set (inorder l)" | "a \<in> set (inorder r)" by auto
  then show ?case
  proof cases
    case 1
    then show ?thesis by (metis plug.simps(1))
  next
    case 2
    then obtain k c' l' r' where "l = plug k (Nd c' l' a r')" using Nd.IH(1) by blast
    then have "Nd c l b r = plug (k @ [LF c b r]) (Nd c' l' a r')" by (simp add: plug_append)
    then show ?thesis by blast
  next
    case 3
    then obtain k c' l' r' where "r = plug k (Nd c' l' a r')" using Nd.IH(2) by blast
    then have "Nd c l b r = plug (k @ [RF c l b]) (Nd c' l' a r')" by (simp add: plug_append)
    then show ?thesis by blast
  qed
qed simp

lemma rb_next_plug:
  assumes "rb_rep h (plug k (Nd c l a r))"
  shows "rb_next h a = Some (hd (inorder r @ behind k @ [0]))"
proof -
  note rd = rb_read [OF assms]
  have "up k \<noteq> a" using assms up_mem [of h a k] rd(1) by (cases "k = []") (auto simp: rb_rep_plug)
  moreover have "addr r = 0 \<longleftrightarrow> r = Lf" using assms addr_0 by (auto simp: rb_rep_plug)
  moreover have "climb_right h a = Some (hd (behind k @ [0]))" using climb_right_ok [OF assms] by simp
  moreover have "r \<noteq> Lf \<Longrightarrow> leftmost h (addr r) = Some (hd (inorder r))" using leftmost_ok [of h "RF c l a # k" r] assms by simp
  moreover have "r \<noteq> Lf \<Longrightarrow> inorder r \<noteq> []" by (cases r) auto
  ultimately show ?thesis using rd(3,4) by (cases "r = Lf") (simp_all add: rb_next_def hd_append)
qed

lemma init_node_empty:
  assumes "aligned n"
  shows "\<exists>h'. rb_init_node h n = Some h' \<and> RB_EMPTY_NODE h' n = Some True \<and> rb_next h' n = Some 0 \<and> rb_prev h' n = Some 0"
  using pack_parent [OF assms, of Red]
  by (simp add: rb_init_node_def rb_set_parent_def upd_pc_def RB_EMPTY_NODE_def rb_parent_def rb_next_def rb_prev_def pack_def)

lemma rb_first_ok: "rb_rep h t \<Longrightarrow> rb_first h = Some (hd (inorder t @ [0]))"
  using leftmost_ok [of h "[]" t] addr_0 [of h 0 t] addr_mem [of t] by (cases "t = Lf") (auto simp: rb_first_def rb_rep_def hd_append)

lemma rb_next_ok:
  assumes "rb_rep h t" "inorder t = us @ a # vs"
  shows "rb_next h a = Some (hd (vs @ [0]))"
proof -
  obtain k c l r where t: "t = plug k (Nd c l a r)" using plug_member [of a t] assms(2) by auto
  have "distinct (us @ a # vs)" using assms by (simp add: rb_rep_def)
  then have "a \<notin> set us" "a \<notin> set vs" by simp_all
  moreover have "us @ a # vs = (before k @ inorder l) @ a # (inorder r @ behind k)" using assms(2) t by simp
  ultimately have "us = before k @ inorder l \<and> vs = inorder r @ behind k" by (simp only: append_Cons_eq_iff simp_thms)
  then show ?thesis using rb_next_plug [of h k c l a r] assms(1) t by simp
qed

lemma swap_leftmost:
  assumes "leftmost h n = Some y"
  shows "rightmost (swap h) n = Some y"
proof (rule leftmost.raw_induct [where P = "\<lambda>h n y. rightmost (swap h) n = Some y"])
  fix f h n y
  assume "\<And>h n y. f h n = Some y \<Longrightarrow> rightmost (swap h) n = Some y" "(rb_left h n \<bind> (\<lambda>l. if l \<noteq> 0 then f h l else Some n)) = Some y"
  then show "rightmost (swap h) n = Some y" by (subst rightmost.simps) (auto split: bind_splits if_splits)
qed (rule assms)

lemma swap_climb:
  assumes "climb_right h n = Some y"
  shows "climb_left (swap h) n = Some y"
proof (rule climb_right.raw_induct [where P = "\<lambda>h n y. climb_left (swap h) n = Some y"])
  fix f h n y
  assume "\<And>h n y. f h n = Some y \<Longrightarrow> climb_left (swap h) n = Some y"
    "(rb_parent h n \<bind> (\<lambda>parent. if parent = 0 then Some 0 else rb_right h parent \<bind> (\<lambda>pr. if n = pr then f h parent else Some parent))) = Some y"
  then show "climb_left (swap h) n = Some y" by (subst climb_left.simps) (auto simp: swap_ops split: bind_splits if_splits)
qed (rule assms)

lemma swap_next: "rb_next (swap h) n = Some y \<Longrightarrow> rb_prev h n = Some y"
  using swap_leftmost [of "swap h"] swap_climb [of "swap h" n y]
  by (auto simp: rb_next_def rb_prev_def swap_ops split: bind_splits if_splits)

lemma rb_prev_ok:
  assumes "rb_rep h t" "inorder t = us @ a # vs"
  shows "rb_prev h a = Some (last (0 # us))"
proof -
  have "rb_next (swap h) a = Some (hd (rev us @ [0]))"
    by (rule rb_next_ok [of "swap h" "mirror t" "rev vs" a "rev us"]) (use assms in \<open>simp_all add: rb_rep_swap\<close>)
  moreover have "hd (rev us @ [0]) = last (0 # us)" by (simp add: hd_append hd_rev)
  ultimately show ?thesis using swap_next by simp
qed

lemma rb_last_ok:
  assumes "rb_rep h t"
  shows "rb_last h = Some (last (0 # inorder t))"
proof (cases "t = Lf")
  case False
  then have "mirror t \<noteq> Lf" by (cases t) auto
  then have "rightmost h (addr t) = Some (hd (rev (inorder t)))"
    using swap_leftmost [of "swap h"] leftmost_ok [of "swap h" "[]" "mirror t"] assms by (simp add: rb_rep_swap)
  moreover have "inorder t \<noteq> []" using False by (cases t) auto
  ultimately show ?thesis using False addr_0 [of h 0 t] assms by (simp add: rb_last_def rb_rep_def hd_rev)
qed (use assms in \<open>simp add: rb_last_def rb_rep_def\<close>)

subsection \<open>Balance\<close>

fun height :: "rbtree \<Rightarrow> nat" where
  "height Lf = 0"
| "height (Nd c l a r) = Suc (max (height l) (height r))"

lemma height_bheight: "invc t \<Longrightarrow> invh t \<Longrightarrow> height t \<le> 2 * bheight t + (if col t = Black then 0 else 1)"
proof (induction t)
  case (Nd c l a r)
  then show ?case by (cases c) (auto split: if_splits)
qed simp

lemma bheight_size: "invh t \<Longrightarrow> 2 ^ bheight t \<le> Suc (length (inorder t))"
proof (induction t)
  case (Nd c l a r)
  then show ?case by (cases c) auto
qed simp

lemma height_bound: "red_black t \<Longrightarrow> 2 ^ (height t div 2) \<le> Suc (length (inorder t))"
proof -
  assume i: "red_black t"
  then have "height t div 2 \<le> bheight t" using height_bheight [of t] by (auto simp: red_black_def)
  then have "(2 :: nat) ^ (height t div 2) \<le> 2 ^ bheight t" by (rule power_increasing) simp
  also have "\<dots> \<le> Suc (length (inorder t))" using i bheight_size by (simp add: red_black_def)
  finally show ?thesis .
qed

subsection \<open>Properties\<close>

text \<open>C7.
  A new node that is linked at a free place of a red-black tree, followed by the rebalancing: every access is to a live node, the loop
  ends, and the heap holds a tree with a black root, no red node below a red one and the same number of black nodes on all paths,
  whose order is the old one with the new node at its place.\<close>

theorem rb_insert_tree:
  assumes "rb_rep h (plug k Lf)" "red_black (plug k Lf)" "n \<noteq> 0" "aligned n" "n \<notin> set (inorder (plug k Lf))"
  shows "\<exists>h1 h' t'. rb_link_node h n (up k) (ctx_link k) = Some h1 \<and> rb_insert_color h1 n = Some h' \<and> rb_rep h' t' \<and> red_black t' \<and>
    inorder t' = before k @ n # behind k"
  using insert_leaf_ok [OF assms] by blast

theorem rb_insert_tree_witness:
  "\<exists>h1 h' t'. rb_link_node \<lparr>rb_root = 8, rb_parent_color = [8 \<mapsto> 1], rb_right = [8 \<mapsto> 0], rb_left = [8 \<mapsto> 0]\<rparr> 16 (up [LF Black 8 Lf]) (ctx_link [LF Black 8 Lf]) = Some h1 \<and>
     rb_insert_color h1 16 = Some h' \<and> rb_rep h' t' \<and> red_black t' \<and> inorder t' = before [LF Black 8 Lf] @ 16 # behind [LF Black 8 Lf]"
  by (rule rb_insert_tree) (simp_all add: rb_rep_def red_black_def aligned_def pack_def)

end
