(* ===== verification/RBErase.thy ===== *)
theory RBErase
  imports RBTree "HOL-Library.Sublist"
begin

text \<open>
  The deletion of \<open>core/utils/data_structure/rbtree_map/rbtree.c\<close>: \<open>__rb_erase_color\<close>, \<open>rb_erase\<close> and \<open>rb_replace_node\<close>, on the heap of theory
  \<open>RBTree\<close>.  Unlinking keeps the sequence of the other nodes and the red-black invariants; the unlinked node stays allocated.
\<close>

subsection \<open>The loop of the deletion\<close>

definition black_node :: "rbheap \<Rightarrow> u64 \<Rightarrow> bool option" where
  "black_node h n = (if n = 0 then Some True else rb_is_black h n)"

definition black_children :: "rbheap \<Rightarrow> u64 \<Rightarrow> bool option" where
  "black_children h n =
     do { l \<leftarrow> rb_left h n; bl \<leftarrow> black_node h l; if bl then do { r \<leftarrow> rb_right h n; black_node h r } else Some False }"

text \<open>
  One round of the loop of \<open>__rb_erase_color\<close>, for a node that is a left child and one that is not: a red sibling is rotated away, then
  either the loop goes on with the pair \<open>node\<close>, \<open>parent\<close> that is returned or it is left by \<open>break\<close> (\<open>None\<close>).
\<close>

definition erase_sibling_l :: "rbheap \<Rightarrow> u64 \<Rightarrow> (rbheap \<times> u64) option" where
  "erase_sibling_l h parent =
     do { other \<leftarrow> rb_right h parent;
          red \<leftarrow> rb_is_red h other;
          if red then
            do { h1 \<leftarrow> rb_set_black h other; h2 \<leftarrow> rb_set_red h1 parent; h3 \<leftarrow> rb_rotate_left h2 parent;
                 other' \<leftarrow> rb_right h3 parent; Some (h3, other') }
          else Some (h, other) }"

definition erase_turn_l :: "rbheap \<Rightarrow> u64 \<Rightarrow> u64 \<Rightarrow> (rbheap \<times> u64) option" where
  "erase_turn_l h parent other =
     do { far \<leftarrow> rb_right h other;
          black \<leftarrow> black_node h far;
          if black then
            do { near \<leftarrow> rb_left h other; h1 \<leftarrow> rb_set_black h near; h2 \<leftarrow> rb_set_red h1 other; h3 \<leftarrow> rb_rotate_right h2 other;
                 other' \<leftarrow> rb_right h3 parent; Some (h3, other') }
          else Some (h, other) }"

definition erase_end_l :: "rbheap \<Rightarrow> u64 \<Rightarrow> u64 \<Rightarrow> rbheap option" where
  "erase_end_l h parent other =
     do { c \<leftarrow> rb_color h parent; h1 \<leftarrow> rb_set_color h other c; h2 \<leftarrow> rb_set_black h1 parent;
          far \<leftarrow> rb_right h2 other; h3 \<leftarrow> rb_set_black h2 far; rb_rotate_left h3 parent }"

definition erase_rest_l :: "rbheap \<Rightarrow> u64 \<Rightarrow> u64 \<Rightarrow> (rbheap \<times> (u64 \<times> u64) option) option" where
  "erase_rest_l h parent other =
     do { both \<leftarrow> black_children h other;
          if both then do { h1 \<leftarrow> rb_set_red h other; p \<leftarrow> rb_parent h1 parent; Some (h1, Some (parent, p)) }
          else do { (h1, other') \<leftarrow> erase_turn_l h parent other; h2 \<leftarrow> erase_end_l h1 parent other'; Some (h2, None) } }"

definition erase_round_l :: "rbheap \<Rightarrow> u64 \<Rightarrow> (rbheap \<times> (u64 \<times> u64) option) option" where
  "erase_round_l h parent = do { (h1, other) \<leftarrow> erase_sibling_l h parent; erase_rest_l h1 parent other }"

definition erase_sibling_r :: "rbheap \<Rightarrow> u64 \<Rightarrow> (rbheap \<times> u64) option" where
  "erase_sibling_r h parent =
     do { other \<leftarrow> rb_left h parent;
          red \<leftarrow> rb_is_red h other;
          if red then
            do { h1 \<leftarrow> rb_set_black h other; h2 \<leftarrow> rb_set_red h1 parent; h3 \<leftarrow> rb_rotate_right h2 parent;
                 other' \<leftarrow> rb_left h3 parent; Some (h3, other') }
          else Some (h, other) }"

definition erase_turn_r :: "rbheap \<Rightarrow> u64 \<Rightarrow> u64 \<Rightarrow> (rbheap \<times> u64) option" where
  "erase_turn_r h parent other =
     do { far \<leftarrow> rb_left h other;
          black \<leftarrow> black_node h far;
          if black then
            do { near \<leftarrow> rb_right h other; h1 \<leftarrow> rb_set_black h near; h2 \<leftarrow> rb_set_red h1 other; h3 \<leftarrow> rb_rotate_left h2 other;
                 other' \<leftarrow> rb_left h3 parent; Some (h3, other') }
          else Some (h, other) }"

definition erase_end_r :: "rbheap \<Rightarrow> u64 \<Rightarrow> u64 \<Rightarrow> rbheap option" where
  "erase_end_r h parent other =
     do { c \<leftarrow> rb_color h parent; h1 \<leftarrow> rb_set_color h other c; h2 \<leftarrow> rb_set_black h1 parent;
          far \<leftarrow> rb_left h2 other; h3 \<leftarrow> rb_set_black h2 far; rb_rotate_right h3 parent }"

definition erase_rest_r :: "rbheap \<Rightarrow> u64 \<Rightarrow> u64 \<Rightarrow> (rbheap \<times> (u64 \<times> u64) option) option" where
  "erase_rest_r h parent other =
     do { both \<leftarrow> black_children h other;
          if both then do { h1 \<leftarrow> rb_set_red h other; p \<leftarrow> rb_parent h1 parent; Some (h1, Some (parent, p)) }
          else do { (h1, other') \<leftarrow> erase_turn_r h parent other; h2 \<leftarrow> erase_end_r h1 parent other'; Some (h2, None) } }"

definition erase_round_r :: "rbheap \<Rightarrow> u64 \<Rightarrow> (rbheap \<times> (u64 \<times> u64) option) option" where
  "erase_round_r h parent = do { (h1, other) \<leftarrow> erase_sibling_r h parent; erase_rest_r h1 parent other }"

partial_function (option) erase_loop :: "rbheap \<Rightarrow> u64 \<Rightarrow> u64 \<Rightarrow> (rbheap \<times> u64) option" where
  "erase_loop h node parent =
     do { black \<leftarrow> black_node h node;
          if black \<and> node \<noteq> rb_root h then
            do { l \<leftarrow> rb_left h parent;
                 (h', next) \<leftarrow> (if l = node then erase_round_l h parent else erase_round_r h parent);
                 (case next of Some (n, p) \<Rightarrow> erase_loop h' n p | None \<Rightarrow> Some (h', rb_root h')) }
          else Some (h, node) }"

definition rb_erase_color :: "rbheap \<Rightarrow> u64 \<Rightarrow> u64 \<Rightarrow> rbheap option" where
  "rb_erase_color h node parent = do { (h1, n) \<leftarrow> erase_loop h node parent; if n \<noteq> 0 then rb_set_black h1 n else Some h1 }"

subsection \<open>Unlinking\<close>

abbreviation RB_BLACK :: u64 where
  "RB_BLACK \<equiv> 1"

text \<open>A node with at most one child is replaced by it.\<close>

definition erase_splice :: "rbheap \<Rightarrow> u64 \<Rightarrow> u64 \<Rightarrow> rbheap option" where
  "erase_splice h node child =
     do { parent \<leftarrow> rb_parent h node;
          color \<leftarrow> rb_color h node;
          h1 \<leftarrow> (if child \<noteq> 0 then rb_set_parent h child parent else Some h);
          h2 \<leftarrow> change_child h1 parent node child;
          if color = RB_BLACK then rb_erase_color h2 child parent else Some h2 }"

text \<open>A node with two children is replaced by its successor, which keeps the colour of the node.\<close>

definition erase_two :: "rbheap \<Rightarrow> u64 \<Rightarrow> u64 \<Rightarrow> rbheap option" where
  "erase_two h old right =
     do { node \<leftarrow> leftmost h right;
          po \<leftarrow> rb_parent h old;
          h1 \<leftarrow> change_child h po old node;
          child \<leftarrow> rb_right h1 node;
          parent \<leftarrow> rb_parent h1 node;
          color \<leftarrow> rb_color h1 node;
          (h2, parent') \<leftarrow>
            (if parent = old then Some (h1, node)
             else
               do { ha \<leftarrow> (if child \<noteq> 0 then rb_set_parent h1 child parent else Some h1);
                    hb \<leftarrow> set_left ha parent child;
                    r \<leftarrow> rb_right hb old;
                    hc \<leftarrow> set_right hb node r;
                    hd \<leftarrow> rb_set_parent hc r node;
                    Some (hd, parent) });
          pc \<leftarrow> rb_parent_color h2 old;
          h3 \<leftarrow> upd_pc h2 node (\<lambda>_. pc);
          l \<leftarrow> rb_left h3 old;
          h4 \<leftarrow> set_left h3 node l;
          h5 \<leftarrow> rb_set_parent h4 l node;
          if color = RB_BLACK then rb_erase_color h5 child parent' else Some h5 }"

definition rb_erase :: "rbheap \<Rightarrow> u64 \<Rightarrow> rbheap option" where
  "rb_erase h node =
     do { l \<leftarrow> rb_left h node;
          r \<leftarrow> rb_right h node;
          if l = 0 then erase_splice h node r
          else if r = 0 then erase_splice h node l
          else erase_two h node r }"

definition rb_replace_node :: "rbheap \<Rightarrow> u64 \<Rightarrow> u64 \<Rightarrow> rbheap option" where
  "rb_replace_node h victim new =
     do { parent \<leftarrow> rb_parent h victim;
          h1 \<leftarrow> change_child h parent victim new;
          l \<leftarrow> rb_left h1 victim;
          h2 \<leftarrow> (if l \<noteq> 0 then rb_set_parent h1 l new else Some h1);
          r \<leftarrow> rb_right h2 victim;
          h3 \<leftarrow> (if r \<noteq> 0 then rb_set_parent h2 r new else Some h2);
          pc \<leftarrow> rb_parent_color h3 victim;
          h4 \<leftarrow> upd_pc h3 new (\<lambda>_. pc);
          r' \<leftarrow> rb_right h4 victim;
          h5 \<leftarrow> set_right h4 new r';
          l' \<leftarrow> rb_left h5 victim;
          set_left h5 new l' }"

subsection \<open>Paths for augmented trees\<close>

text \<open>
  The nodes that \<open>rb_augment_path\<close> passes to its callback, which recomputes data of a node from its children and leaves the links alone.
  A left child without a sibling is passed twice.
\<close>

partial_function (option) rb_augment_path :: "rbheap \<Rightarrow> u64 \<Rightarrow> u64 list option" where
  "rb_augment_path h node =
     do { parent \<leftarrow> rb_parent h node;
          if parent = 0 then Some [node]
          else do { l \<leftarrow> rb_left h parent;
                    r \<leftarrow> rb_right h parent;
                    rest \<leftarrow> rb_augment_path h parent;
                    Some (node # (if node = l \<and> r \<noteq> 0 then [r] else if l \<noteq> 0 then [l] else []) @ rest) } }"

definition rb_augment_insert :: "rbheap \<Rightarrow> u64 \<Rightarrow> u64 list option" where
  "rb_augment_insert h node =
     do { l \<leftarrow> rb_left h node; r \<leftarrow> rb_right h node; rb_augment_path h (if l \<noteq> 0 then l else if r \<noteq> 0 then r else node) }"

definition rb_augment_erase_begin :: "rbheap \<Rightarrow> u64 \<Rightarrow> u64 option" where
  "rb_augment_erase_begin h node =
     do { l \<leftarrow> rb_left h node;
          r \<leftarrow> rb_right h node;
          if r = 0 \<and> l = 0 then rb_parent h node
          else if r = 0 then Some l
          else if l = 0 then Some r
          else do { deepest \<leftarrow> rb_next h node;
                    dr \<leftarrow> rb_right h deepest;
                    dp \<leftarrow> rb_parent h deepest;
                    Some (if dr \<noteq> 0 then dr else if dp \<noteq> node then dp else deepest) } }"

definition rb_augment_erase_end :: "rbheap \<Rightarrow> u64 \<Rightarrow> u64 list option" where
  "rb_augment_erase_end h node = (if node \<noteq> 0 then rb_augment_path h node else Some [])"

subsection \<open>The rounds\<close>

fun paint :: "color \<Rightarrow> rbtree \<Rightarrow> rbtree" where
  "paint c Lf = Lf"
| "paint c (Nd d l a r) = Nd c l a r"

lemma paint_simps [simp]: "inorder (paint c t) = inorder t" "addr (paint c t) = addr t" "invh (paint c t) = invh t" "col (paint Black t) = Black"
  by (cases t; simp)+

lemma red_Nd: "col t = Red \<Longrightarrow> \<exists>l a r. t = Nd Red l a r"
  by (cases t) auto

lemma paint_id: "col t = Black \<Longrightarrow> paint Black t = t"
  by (cases t) auto

lemma black_node_eq: "rb_rep h (plug k t) \<Longrightarrow> black_node h (addr t) = Some (col t = Black)"
  using rb_read(1,7) [of h k] by (cases t) (auto simp: black_node_def)

lemma black_children_eq:
  assumes "rb_rep h (plug k (Nd c l a r))"
  shows "black_children h a = Some (col l = Black \<and> col r = Black)"
  using rb_read(2,3) [OF assms] black_node_eq [of h "LF c a r # k" l] black_node_eq [of h "RF c l a # k" r] assms
  by (simp add: black_children_def)

text \<open>What a round leaves: a finished tree, or a subtree \<open>t\<close> that is one black node short.\<close>

definition short_ok :: "rbheap \<Rightarrow> ctx \<Rightarrow> rbtree \<Rightarrow> bool" where
  "short_ok h k t \<longleftrightarrow> rb_rep h (plug k t) \<and> invc (paint Black t) \<and> invh t \<and> ctx_inv k (Suc (bheight t))"

definition erase_ok :: "rbheap \<Rightarrow> (rbheap \<times> (u64 \<times> u64) option) option \<Rightarrow> nat \<Rightarrow> u64 list \<Rightarrow> bool" where
  "erase_ok h res n xs \<longleftrightarrow> (\<exists>h' next. res = Some (h', next) \<and> doms h' = doms h \<and>
     (case next of
        None \<Rightarrow> \<exists>t'. rb_rep h' t' \<and> inorder t' = xs \<and> red_black t'
      | Some (a, p) \<Rightarrow> \<exists>k t. short_ok h' k t \<and> a = addr t \<and> p = up k \<and> inorder (plug k t) = xs \<and> (col t = Black \<longrightarrow> length k \<le> n)))"

lemma erase_end_rep:
  assumes "rb_rep h (plug k (Nd c t a (Nd d x s (Nd Red y b z))))"
  shows "\<exists>h'. erase_end_l h a s = Some h' \<and> rb_rep h' (plug k (Nd c (Nd Black t a x) s (Nd Black y b z))) \<and> doms h' = doms h"
proof -
  have c: "rb_color h a = Some (col_bit c)" by (rule rb_read(5) [OF assms])
  obtain h1 where h1: "rb_set_color h s (col_bit c) = Some h1" "rb_rep h1 (plug k (Nd c t a (Nd c x s (Nd Red y b z))))" "doms h1 = doms h"
    using set_color_rep(3) [of h "RF c t a # k" d x s "Nd Red y b z" c] assms by auto
  obtain h2 where h2: "rb_set_black h1 a = Some h2" "rb_rep h2 (plug k (Nd Black t a (Nd c x s (Nd Red y b z))))" "doms h2 = doms h1"
    using set_color_rep(1) [OF h1(2)] by auto
  have f: "rb_right h2 s = Some b" using rb_read(3) [of h2 "RF Black t a # k" c x s "Nd Red y b z"] h2(2) by simp
  obtain h3 where h3: "rb_set_black h2 b = Some h3" "rb_rep h3 (plug k (Nd Black t a (Nd c x s (Nd Black y b z))))" "doms h3 = doms h2"
    using set_color_rep(1) [of h2 "RF c x s # RF Black t a # k" Red y b z] h2(2) by auto
  show ?thesis using rotate_left_rep [OF h3(2)] c h1(1,3) h2(1,3) h3(1,3) f by (auto simp: erase_end_l_def)
qed

lemma erase_turn_far:
  assumes "rb_rep h (plug k (Nd c t a (Nd d x s (Nd Red y b z))))"
  shows "erase_turn_l h a s = Some (h, s)"
  using rb_read(3) [of h "RF c t a # k" d x s "Nd Red y b z"] black_node_eq [of h "RF d x s # RF c t a # k" "Nd Red y b z"] assms
  by (simp add: erase_turn_l_def)

lemma erase_turn_near:
  assumes rep: "rb_rep h (plug k (Nd c t a (Nd d (Nd Red x b y) s z)))" and z: "col z = Black"
  shows "\<exists>h'. erase_turn_l h a s = Some (h', b) \<and> rb_rep h' (plug k (Nd c t a (Nd Black x b (Nd Red y s z)))) \<and> doms h' = doms h"
proof -
  have f: "rb_right h s = Some (addr z)" "rb_left h s = Some b" "black_node h (addr z) = Some True"
    using rb_read(2,3) [of h "RF c t a # k" d "Nd Red x b y" s z] black_node_eq [of h "RF d (Nd Red x b y) s # RF c t a # k" z] rep z by simp_all
  obtain h1 where h1: "rb_set_black h b = Some h1" "rb_rep h1 (plug k (Nd c t a (Nd d (Nd Black x b y) s z)))" "doms h1 = doms h"
    using set_color_rep(1) [of h "LF d s z # RF c t a # k" Red x b y] rep by auto
  obtain h2 where h2: "rb_set_red h1 s = Some h2" "rb_rep h2 (plug k (Nd c t a (Nd Red (Nd Black x b y) s z)))" "doms h2 = doms h1"
    using set_color_rep(2) [of h1 "RF c t a # k" d "Nd Black x b y" s z] h1(2) by auto
  obtain h3 where h3: "rb_rotate_right h2 s = Some h3" "rb_rep h3 (plug k (Nd c t a (Nd Black x b (Nd Red y s z))))" "doms h3 = doms h2"
    using rotate_right_rep [of h2 "RF c t a # k" Red Black x b y s z] h2(2) by auto
  have "rb_right h3 a = Some b" using rb_read(3) [OF h3(2)] by simp
  then show ?thesis using f h1(1,3) h2(1,3) h3 by (auto simp: erase_turn_l_def)
qed

lemma finishI:
  assumes "rb_rep h' (plug k t')" "ctx_inv k (bheight t')" "invc t'" "invh t'" "ccol k = Red \<longrightarrow> col t' = Black" "k \<noteq> [] \<or> col t' = Black"
  shows "red_black (plug k t')"
  using plug_inv [OF assms(2-5)] ctx_inv_root [OF assms(2), of t'] assms(6) by (cases "k = []") (auto simp: red_black_def)

text \<open>A black sibling \<open>s\<close> of the short subtree \<open>t\<close>.\<close>

lemma erase_rest_ok:
  assumes rep: "rb_rep h (plug k (Nd c t a s))" and s: "col s = Black" "bheight s = Suc (bheight t)" "invc s" "invh s"
    and t: "invc t" "invh t" "col t = Black"
    and k: "ctx_inv k (bheight (Nd c s a s))" "c = Red \<longrightarrow> k \<noteq> [] \<and> ccol k = Black" "c = Black \<longrightarrow> length k \<le> n"
  shows "erase_ok h (erase_rest_l h a (addr s)) n (inorder (plug k (Nd c t a s)))"
proof -
  obtain x b y where sb: "s = Nd Black x b y" using s(1,2) by (cases s) auto
  have bc: "black_children h b = Some (col x = Black \<and> col y = Black)"
    using black_children_eq [of h "RF c t a # k" Black x b y] rep sb by simp
  have xy: "invc x" "invc y" "invh x" "invh y" "bheight x = bheight t" "bheight y = bheight t" using s sb by auto
  have stop: ?thesis if "erase_rest_l h a b = Some (h', None)" "rb_rep h' (plug k t')" "inorder t' = inorder (Nd c t a s)"
      "invc t'" "invh t'" "bheight t' = bheight (Nd c s a s)" "col t' = c" "doms h' = doms h" for h' t'
  proof -
    have "red_black (plug k t')" by (rule finishI [OF that(2)]) (use that k in \<open>cases c; auto\<close>)+
    then show ?thesis using that sb unfolding erase_ok_def by auto
  qed
  consider (both) "col x = Black" "col y = Black" | (far) y1 d y2 where "y = Nd Red y1 d y2" | (near) x1 d x2 where "x = Nd Red x1 d x2" "col y = Black"
    by (cases "col x"; cases "col y") (auto dest: red_Nd)
  then show ?thesis
  proof cases
    case both
    obtain h1 where h1: "rb_set_red h b = Some h1" "rb_rep h1 (plug k (Nd c t a (Nd Red x b y)))" "doms h1 = doms h"
      using set_color_rep(2) [of h "RF c t a # k" Black x b y] rep sb by auto
    have r: "erase_rest_l h a b = Some (h1, Some (a, up k))"
      using bc both h1(1) rb_read(4) [OF h1(2)] by (simp add: erase_rest_l_def)
    have "short_ok h1 k (Nd c t a (Nd Red x b y))"
      unfolding short_ok_def using h1(2) both xy t k sb s by auto
    then show ?thesis using r h1(3) sb k(3) unfolding erase_ok_def
      by (intro exI [of _ h1] exI [of _ "Some (a, up k)"]) (auto intro!: exI [of _ k] exI [of _ "Nd c t a (Nd Red x b y)"])
  next
    case far
    have rp: "rb_rep h (plug k (Nd c t a (Nd Black x b (Nd Red y1 d y2))))" using rep sb far by simp
    obtain h' where h': "erase_end_l h a b = Some h'" "rb_rep h' (plug k (Nd c (Nd Black t a x) b (Nd Black y1 d y2)))" "doms h' = doms h"
      using erase_end_rep [OF rp] by blast
    show ?thesis
      by (rule stop [of h' "Nd c (Nd Black t a x) b (Nd Black y1 d y2)"])
        (use bc h' erase_turn_far [OF rp] far xy t sb s in \<open>auto simp: erase_rest_l_def\<close>)
  next
    case near
    have rp: "rb_rep h (plug k (Nd c t a (Nd Black (Nd Red x1 d x2) b y)))" using rep sb near by simp
    obtain h1 where h1: "erase_turn_l h a b = Some (h1, d)" "rb_rep h1 (plug k (Nd c t a (Nd Black x1 d (Nd Red x2 b y))))" "doms h1 = doms h"
      using erase_turn_near [OF rp near(2)] by blast
    obtain h' where h': "erase_end_l h1 a d = Some h'" "rb_rep h' (plug k (Nd c (Nd Black t a x1) d (Nd Black x2 b y)))" "doms h' = doms h1"
      using erase_end_rep [OF h1(2)] by blast
    show ?thesis
      by (rule stop [of h' "Nd c (Nd Black t a x1) d (Nd Black x2 b y)"])
        (use bc h' h1 near xy t sb s in \<open>auto simp: erase_rest_l_def\<close>)
  qed
qed

text \<open>A red sibling is rotated away; its black child is the new sibling.\<close>

lemma erase_sibling_ok:
  assumes rep: "rb_rep h (plug (LF c a s # k) t)" and k: "ctx_inv (LF c a s # k) (Suc (bheight t))"
  obtains h1 k1 d s1 where "erase_sibling_l h a = Some (h1, addr s1)" "rb_rep h1 (plug k1 (Nd d t a s1))" "doms h1 = doms h"
    "inorder (plug k1 (Nd d t a s1)) = inorder (plug (LF c a s # k) t)" "col s1 = Black" "bheight s1 = Suc (bheight t)" "invc s1" "invh s1"
    "ctx_inv k1 (bheight (Nd d s1 a s1))" "d = Red \<longrightarrow> k1 \<noteq> [] \<and> ccol k1 = Black" "d = Black \<longrightarrow> length k1 \<le> length k"
proof (cases "col s = Red")
  case False
  have "rb_right h a = Some (addr s)" using rb_read(3) [of h k c t a s] rep by simp
  moreover have "rb_is_red h (addr s) = Some False" using False k rb_read(6) [of h "RF c t a # k"] rep by (cases s) auto
  ultimately have "erase_sibling_l h a = Some (h, addr s)" by (simp add: erase_sibling_l_def)
  then show ?thesis using that [of h s k c] rep k False by auto
next
  case True
  then obtain x b y where s: "s = Nd Red x b y" using red_Nd by blast
  have c: "c = Black" using k True by auto
  have rp: "rb_rep h (plug k (Nd Black t a (Nd Red x b y)))" using rep s c by simp
  obtain h1 where h1: "rb_set_black h b = Some h1" "rb_rep h1 (plug k (Nd Black t a (Nd Black x b y)))" "doms h1 = doms h"
    using set_color_rep(1) [of h "RF Black t a # k" Red x b y] rp by auto
  obtain h2 where h2: "rb_set_red h1 a = Some h2" "rb_rep h2 (plug k (Nd Red t a (Nd Black x b y)))" "doms h2 = doms h1"
    using set_color_rep(2) [OF h1(2)] by auto
  obtain h3 where h3: "rb_rotate_left h2 a = Some h3" "rb_rep h3 (plug k (Nd Black (Nd Red t a x) b y))" "doms h3 = doms h2"
    using rotate_left_rep [OF h2(2)] by auto
  have rp3: "rb_rep h3 (plug (LF Black b y # k) (Nd Red t a x))" using h3(2) by simp
  have "rb_right h a = Some b" "rb_is_red h b = Some True" "rb_right h3 a = Some (addr x)"
    using rb_read(3) [OF rp] rb_read(6) [of h "RF Black t a # k" Red x b y] rb_read(3) [OF rp3] rp by simp_all
  then have "erase_sibling_l h a = Some (h3, addr x)" using h1(1) h2(1) h3(1) by (simp add: erase_sibling_l_def)
  then show ?thesis using that [of h3 x "LF Black b y # k" Red] rp3 h1(3) h2(3) h3(3) k s c by auto
qed

lemma erase_round_l_ok:
  assumes rep: "rb_rep h (plug (LF c a s # k) t)" and t: "invc t" "invh t" "col t = Black" and k: "ctx_inv (LF c a s # k) (Suc (bheight t))"
  shows "erase_ok h (erase_round_l h a) (length k) (inorder (plug (LF c a s # k) t))"
proof -
  obtain h1 k1 d s1 where r: "erase_sibling_l h a = Some (h1, addr s1)" "rb_rep h1 (plug k1 (Nd d t a s1))" "doms h1 = doms h"
      "inorder (plug k1 (Nd d t a s1)) = inorder (plug (LF c a s # k) t)" "col s1 = Black" "bheight s1 = Suc (bheight t)" "invc s1" "invh s1"
      "ctx_inv k1 (bheight (Nd d s1 a s1))" "d = Red \<longrightarrow> k1 \<noteq> [] \<and> ccol k1 = Black" "d = Black \<longrightarrow> length k1 \<le> length k"
    using erase_sibling_ok [OF rep k] .
  have "erase_ok h1 (erase_rest_l h1 a (addr s1)) (length k) (inorder (plug k1 (Nd d t a s1)))"
    by (rule erase_rest_ok [OF r(2,5,6,7,8) t r(9,10,11)])
  then have "erase_ok h1 (erase_rest_l h1 a (addr s1)) (length k) (inorder (plug (LF c a s # k) t))" by (simp only: r(4))
  moreover have "erase_round_l h a = erase_rest_l h1 a (addr s1)" using r(1) by (simp add: erase_round_l_def)
  ultimately show ?thesis using r(3) by (simp only: erase_ok_def)
qed

lemma swap_black: "black_node (swap h) n = black_node h n"
  by (simp add: black_node_def swap_ops)

lemma black_children_swap:
  assumes "rb_rep h (plug k (Nd c l a r))"
  shows "black_children (swap h) a = black_children h a"
  using black_children_eq [OF assms] black_children_eq [of "swap h" "mirror_ctx k" c "mirror r" a "mirror l"] rb_rep_swap [of h "plug k (Nd c l a r)"] assms
  by auto

lemma swap_sibling: "erase_sibling_l (swap h) p = map_option (apfst swap) (erase_sibling_r h p)"
  by (cases "rb_left h p"; cases "rb_is_red h (the (rb_left h p))")
    (auto simp: erase_sibling_l_def erase_sibling_r_def swap_rules swap_rotate)

lemma swap_eturn: "erase_turn_l (swap h) p s = map_option (apfst swap) (erase_turn_r h p s)"
  by (cases "rb_left h s"; cases "black_node h (the (rb_left h s))")
    (auto simp: erase_turn_l_def erase_turn_r_def swap_rules swap_rotate swap_black)

lemma swap_eend: "erase_end_l (swap h) p s = map_option swap (erase_end_r h p s)"
  by (simp add: erase_end_l_def erase_end_r_def swap_rules swap_rotate)

text \<open>The order in which the colours of the nephews are read is not mirrored; it does not matter on a tree.\<close>

lemma swap_rest:
  assumes "black_children (swap h) s = black_children h s"
  shows "erase_rest_l (swap h) p s = map_option (apfst swap) (erase_rest_r h p s)"
  using assms by (cases "black_children h s") (auto simp: erase_rest_l_def erase_rest_r_def swap_rules swap_eturn swap_eend split_def)

lemma ctx_inv_mirror: "ctx_inv k n \<Longrightarrow> ctx_inv (mirror_ctx k) n"
proof (induction k n rule: ctx_inv.induct)
  case (2 c a r k n)
  then show ?case using inv_mirror [of r] by (cases "k" rule: ccol.cases) auto
next
  case (3 c l a k n)
  then show ?case using inv_mirror [of l] by (cases "k" rule: ccol.cases) auto
qed simp

lemma paint_mirror: "paint c (mirror t) = mirror (paint c t)"
  by (cases t) auto

lemma short_mirror: "short_ok h k t \<Longrightarrow> short_ok (swap h) (mirror_ctx k) (mirror t)"
  using rb_rep_swap [of h "plug k t"] inv_mirror [of t] inv_mirror(1) [of "paint Black t"] ctx_inv_mirror [of k "Suc (bheight t)"]
  by (auto simp: short_ok_def paint_mirror)

lemma erase_ok_swap:
  assumes "erase_ok (swap h) res n (rev xs)"
  shows "erase_ok h (map_option (apfst swap) res) n xs"
proof -
  obtain h' nx where r: "res = Some (h', nx)" "doms h' = doms (swap h)"
    "case nx of None \<Rightarrow> \<exists>t'. rb_rep h' t' \<and> inorder t' = rev xs \<and> red_black t'
      | Some (a, p) \<Rightarrow> \<exists>k t. short_ok h' k t \<and> a = addr t \<and> p = up k \<and> inorder (plug k t) = rev xs \<and> (col t = Black \<longrightarrow> length k \<le> n)"
    using assms by (auto simp: erase_ok_def)
  have d: "doms (swap h') = doms h" using r(2) doms_swap [of h' "swap h"] by simp
  show ?thesis
  proof (cases nx)
    case None
    then obtain t' where t': "rb_rep h' t'" "inorder t' = rev xs" "red_black t'" using r(3) by auto
    then have "rb_rep (swap h') (mirror t')" "inorder (mirror t') = xs" "red_black (mirror t')"
      using inv_mirror [of t'] by (auto simp: rb_rep_swap red_black_def)
    then show ?thesis using r(1) None d by (auto simp: erase_ok_def)
  next
    case (Some q)
    then obtain k t where t: "short_ok h' k t" "q = (addr t, up k)" "inorder (plug k t) = rev xs" "col t = Black \<longrightarrow> length k \<le> n"
      using r(3) by (cases q) auto
    have "inorder (plug (mirror_ctx k) (mirror t)) = rev (inorder (plug k t))" by (metis inorder_mirror mirror_plug)
    then have "inorder (plug (mirror_ctx k) (mirror t)) = xs" by (simp only: t(3) rev_rev_ident)
    then show ?thesis using r(1) Some d t(2,4) short_mirror [OF t(1)] unfolding erase_ok_def
      by (intro exI [of _ "swap h'"] exI [of _ nx]) (auto intro!: exI [of _ "mirror_ctx k"] exI [of _ "mirror t"])
  qed
qed

lemma erase_round_r_ok:
  assumes rep: "rb_rep h (plug (RF c s a # k) t)" and t: "invc t" "invh t" "col t = Black" and k: "ctx_inv (RF c s a # k) (Suc (bheight t))"
  shows "erase_ok h (erase_round_r h a) (length k) (inorder (plug (RF c s a # k) t))"
proof -
  have rp: "rb_rep (swap h) (plug (LF c a (mirror s) # mirror_ctx k) (mirror t))"
    using rb_rep_swap [of h "plug (RF c s a # k) t"] rep by simp
  have km: "ctx_inv (LF c a (mirror s) # mirror_ctx k) (Suc (bheight (mirror t)))"
    using ctx_inv_mirror [OF k] inv_mirror(2) [OF t(2)] by simp
  have tm: "invc (mirror t)" "invh (mirror t)" "col (mirror t) = Black" using t inv_mirror by auto
  obtain h1 k1 d s1 where r: "erase_sibling_l (swap h) a = Some (h1, addr s1)" "rb_rep h1 (plug k1 (Nd d (mirror t) a s1))"
      "col s1 = Black" "bheight s1 = Suc (bheight (mirror t))"
    using erase_sibling_ok [OF rp km] by metis
  obtain c1 x b y where s1: "s1 = Nd c1 x b y" using r(4) by (cases s1) auto
  have sib: "erase_sibling_r h a = Some (swap h1, b)" using swap_sibling [of h a] r(1) s1 by (cases "erase_sibling_r h a") auto
  have "black_children (swap h1) b = black_children h1 b"
    using black_children_swap [of h1 "RF d (mirror t) a # k1" c1 x b y] r(2) s1 by simp
  then have "erase_round_r h a = map_option (apfst swap) (erase_round_l (swap h) a)"
    using swap_rest [of "swap h1" b a] sib r(1) s1
    by (cases "erase_rest_r (swap h1) a b") (auto simp: erase_round_l_def erase_round_r_def)
  moreover have "erase_ok (swap h) (erase_round_l (swap h) a) (length (mirror_ctx k)) (inorder (plug (LF c a (mirror s) # mirror_ctx k) (mirror t)))"
    by (rule erase_round_l_ok [OF rp tm km])
  moreover have "inorder (plug (LF c a (mirror s) # mirror_ctx k) (mirror t)) = rev (inorder (plug (RF c s a # k) t))"
    by (metis inorder_mirror mirror_plug list.simps(9) mirror_frame.simps(2))
  ultimately show ?thesis using erase_ok_swap [of h "erase_round_l (swap h) a" "length k"] by simp
qed

subsection \<open>The whole loop\<close>

lemma root_mem: "k \<noteq> [] \<Longrightarrow> addr (plug k t) \<in> set (before k @ behind k)"
proof (induction k t rule: plug.induct)
  case (2 c a r k t)
  then show ?case by (cases "k = []") auto
next
  case (3 c l a k t)
  then show ?case by (cases "k = []") auto
qed simp

lemma root_not_in:
  assumes "rb_rep h (plug k t)" "k \<noteq> []"
  shows "addr (plug k t) \<notin> set (inorder t)" "addr (plug k t) \<noteq> 0"
proof -
  have "plug k t \<noteq> Lf" using assms(2) plug_Lf by simp
  then show "addr (plug k t) \<noteq> 0" using assms(1) addr_0 by (auto simp: rb_rep_def)
  show "addr (plug k t) \<notin> set (inorder t)" using root_mem [OF assms(2), of t] distinct_plug [OF assms(1)] by auto
qed

text \<open>What the loop leaves: the node it returns is still to be painted black.\<close>

definition loop_ok :: "rbheap \<Rightarrow> (rbheap \<times> u64) option \<Rightarrow> u64 list \<Rightarrow> bool" where
  "loop_ok h res xs \<longleftrightarrow> (\<exists>h' k t. res = Some (h', addr t) \<and> rb_rep h' (plug k t) \<and> inorder (plug k t) = xs \<and>
     red_black (plug k (paint Black t)) \<and> doms h' = doms h)"

lemma erase_loop_stop:
  assumes "short_ok h k t" "k = [] \<or> col t = Red"
  shows "loop_ok h (erase_loop h (addr t) (up k)) (inorder (plug k t))"
proof -
  note s = assms(1) [unfolded short_ok_def]
  have "black_node h (addr t) = Some (col t = Black)" using black_node_eq s by blast
  then have "erase_loop h (addr t) (up k) = Some (h, addr t)"
    using s assms(2) by (subst erase_loop.simps) (auto simp: rb_rep_def)
  moreover have "red_black (plug k (paint Black t))"
  proof (cases "k = []")
    case False
    then obtain l a r where t: "t = Nd Red l a r" using assms(2) red_Nd by blast
    have "invc (plug k (paint Black t)) \<and> invh (plug k (paint Black t))" by (rule plug_inv) (use s t in auto)
    then show ?thesis using ctx_inv_root [of k _ "paint Black t"] s False by (auto simp: red_black_def)
  qed (use s in \<open>simp add: red_black_def\<close>)
  ultimately show ?thesis using s unfolding loop_ok_def by blast
qed

abbreviation erase_next :: "rbheap \<times> (u64 \<times> u64) option \<Rightarrow> (rbheap \<times> u64) option" where
  "erase_next \<equiv> \<lambda>(h', next). case next of Some (n, p) \<Rightarrow> erase_loop h' n p | None \<Rightarrow> Some (h', rb_root h')"

lemma erase_loop_step:
  assumes "short_ok h (f # k) t" "col t = Black"
  obtains res where "erase_loop h (addr t) (up (f # k)) = Option.bind res erase_next" "erase_ok h res (length k) (inorder (plug (f # k) t))"
proof -
  note s = assms(1) [unfolded short_ok_def]
  have ti: "invc t" "invh t" using s assms(2) by (auto simp: paint_id)
  have bn: "black_node h (addr t) = Some True" using black_node_eq [of h "f # k" t] s assms(2) by simp
  have "rb_root h = addr (plug (f # k) t)" using s by (simp add: rb_rep_def)
  moreover have "addr (plug (f # k) t) \<notin> set (inorder t)" "addr (plug (f # k) t) \<noteq> 0" using root_not_in s by blast+
  ultimately have root: "addr t \<noteq> rb_root h" using not_child [of "addr (plug (f # k) t)" t] by simp
  show ?thesis
  proof (cases f)
    case (LF c a r)
    then have "rb_left h a = Some (addr t)" using rb_read(2) [of h k c t a r] s by simp
    then have "erase_loop h (addr t) (up (f # k)) = Option.bind (erase_round_l h a) erase_next"
      using bn root LF by (subst erase_loop.simps) simp
    moreover have "erase_ok h (erase_round_l h a) (length k) (inorder (plug (f # k) t))"
      unfolding LF by (rule erase_round_l_ok) (use s ti assms(2) LF in auto)
    ultimately show ?thesis by (rule that)
  next
    case (RF c l a)
    have rp: "rb_rep h (plug k (Nd c l a t))" using s RF by simp
    have "l \<noteq> Lf" using s RF by auto
    then have "addr l \<noteq> addr t"
      using addr_mem [of l] addr_mem [of t] distinct_plug [OF rp] rp addr_0 [of h a l] by (cases "t = Lf") (auto simp: rb_rep_plug)
    then have "erase_loop h (addr t) (up (f # k)) = Option.bind (erase_round_r h a) erase_next"
      using bn root RF rb_read(2) [OF rp] by (subst erase_loop.simps) simp
    moreover have "erase_ok h (erase_round_r h a) (length k) (inorder (plug (f # k) t))"
      unfolding RF by (rule erase_round_r_ok) (use s ti assms(2) RF in auto)
    ultimately show ?thesis by (rule that)
  qed
qed

lemma erase_loop_ok: "short_ok h k t \<Longrightarrow> loop_ok h (erase_loop h (addr t) (up k)) (inorder (plug k t))"
proof (induction "length k" arbitrary: h k t rule: less_induct)
  case less
  show ?case
  proof (cases "k = [] \<or> col t = Red")
    case True
    then show ?thesis by (rule erase_loop_stop [OF less.prems])
  next
    case False
    then obtain f k0 where k: "k = f # k0" "col t = Black" by (cases k) auto
    obtain res where res: "erase_loop h (addr t) (up k) = Option.bind res erase_next" "erase_ok h res (length k0) (inorder (plug k t))"
      using erase_loop_step [of h f k0 t] less.prems k by blast
    from res(2) obtain h1 nx where r: "res = Some (h1, nx)" "doms h1 = doms h" and nx:
        "case nx of None \<Rightarrow> \<exists>t'. rb_rep h1 t' \<and> inorder t' = inorder (plug k t) \<and> red_black t'
          | Some (a, p) \<Rightarrow> \<exists>k1 t1. short_ok h1 k1 t1 \<and> a = addr t1 \<and> p = up k1 \<and> inorder (plug k1 t1) = inorder (plug k t) \<and> (col t1 = Black \<longrightarrow> length k1 \<le> length k0)"
      unfolding erase_ok_def by blast
    show ?thesis
    proof (cases nx)
      case None
      then obtain t' where t': "rb_rep h1 t'" "inorder t' = inorder (plug k t)" "red_black t'" using nx by auto
      have "erase_loop h (addr t) (up k) = Some (h1, addr t')" using res(1) r(1) None t'(1) by (simp add: rb_rep_def)
      then show ?thesis using t' r(2) unfolding loop_ok_def
        by (intro exI [of _ h1] exI [of _ "[]"] exI [of _ t']) (simp add: red_black_def paint_id)
    next
      case (Some q)
      then obtain k1 t1 where k1: "short_ok h1 k1 t1" "q = (addr t1, up k1)" "inorder (plug k1 t1) = inorder (plug k t)"
          "col t1 = Black \<longrightarrow> length k1 \<le> length k0"
        using nx by (cases q) (simp, blast)
      have "erase_loop h (addr t) (up k) = erase_loop h1 (addr t1) (up k1)" using res(1) r(1) Some k1(2) by simp
      moreover have "loop_ok h1 (erase_loop h1 (addr t1) (up k1)) (inorder (plug k1 t1))"
      proof (cases "col t1 = Black")
        case True
        then show ?thesis using less.hyps [of k1 h1 t1] k1(1,4) k(1) by simp
      next
        case False
        then show ?thesis using erase_loop_stop [OF k1(1)] by simp
      qed
      ultimately show ?thesis using k1(3) r(2) by (simp only: loop_ok_def)
    qed
  qed
qed

lemma erase_color_ok:
  assumes "short_ok h k t"
  shows "\<exists>h' t'. rb_erase_color h (addr t) (up k) = Some h' \<and> rb_rep h' t' \<and> inorder t' = inorder (plug k t) \<and> red_black t' \<and> doms h' = doms h"
proof -
  obtain h1 k1 t1 where l: "erase_loop h (addr t) (up k) = Some (h1, addr t1)" "rb_rep h1 (plug k1 t1)" "inorder (plug k1 t1) = inorder (plug k t)"
      "red_black (plug k1 (paint Black t1))" "doms h1 = doms h"
    using erase_loop_ok [OF assms] unfolding loop_ok_def by blast
  show ?thesis
  proof (cases t1)
    case Lf
    then show ?thesis using l by (auto simp: rb_erase_color_def)
  next
    case (Nd c x a y)
    then obtain h2 where "rb_set_black h1 a = Some h2" "rb_rep h2 (plug k1 (Nd Black x a y))" "doms h2 = doms h1"
      using set_color_rep(1) [of h1 k1 c x a y] l(2) by auto
    then show ?thesis using l Nd rb_read(1) [of h1 k1 c x a y]
      by (intro exI [of _ h2] exI [of _ "plug k1 (Nd Black x a y)"]) (simp add: rb_erase_color_def)
  qed
qed

subsection \<open>Unlinking a node\<close>

definition erased :: "rbheap \<Rightarrow> rbheap option \<Rightarrow> u64 list \<Rightarrow> bool" where
  "erased h res xs \<longleftrightarrow> (\<exists>h' t'. res = Some h' \<and> rb_rep h' t' \<and> inorder t' = xs \<and> red_black t' \<and> doms h' = doms h)"

lemma invc_paint: "invc t \<Longrightarrow> invc (paint Black t)"
  by (cases t) auto

text \<open>The context of a removed node of colour \<open>c\<close> holds the only child \<open>t\<close> of that node.\<close>

lemma erase_finish:
  assumes rep: "rb_rep h (plug k t)" and t: "invc t" "invh t" and k: "ctx_inv k (bheight t + (if c = Black then 1 else 0))"
    and red: "c = Red \<longrightarrow> col t = Black"
  shows "erased h (if col_bit c = RB_BLACK then rb_erase_color h (addr t) (up k) else Some h) (inorder (plug k t))"
proof (cases c)
  case Red
  then have "invc (plug k t) \<and> invh (plug k t)" using plug_inv [of k t] k t red by simp
  moreover have "col (plug k t) = Black" using ctx_inv_root [OF k] red Red by (cases "k = []") auto
  ultimately show ?thesis using rep Red unfolding erased_def red_black_def by auto
next
  case Black
  then have "short_ok h k t" using rep t k invc_paint by (simp add: short_ok_def)
  then show ?thesis using erase_color_ok Black unfolding erased_def by simp
qed

lemma agree_repar: "set (inorder t) \<inter> A = {} \<Longrightarrow> agree A h (repar h t q)"
  using repar_pc by (fastforce simp: agree_def)

lemma splice_rep:
  assumes rep: "rb_rep h (plug k (Nd c l a r))" and t: "l = Lf \<and> t = r \<or> r = Lf \<and> t = l"
  defines "h1 \<equiv> repar h t (up k)"
  shows "(if addr t \<noteq> 0 then rb_set_parent h (addr t) (up k) else Some h) = Some h1" "change_child h1 (up k) a (addr t) = Some (refill h1 k (addr t))"
    "rb_rep (refill h1 k (addr t)) (plug k t)" "doms (refill h1 k (addr t)) = doms h"
proof -
  have at: "tree_at h a t" "aligned a" "a \<noteq> 0" "ctx_at h a k" and d: "distinct (before k @ (inorder l @ a # inorder r) @ behind k)"
    using rep t by (auto simp: rb_rep_plug)
  have dt: "distinct (inorder t)" "set (inorder t) \<subseteq> set (inorder l @ inorder r)" using d t by auto
  have dk: "distinct (before k @ behind k)" "set (inorder t) \<inter> set (before k @ behind k) = {}" "a \<notin> set (before k @ behind k)" using d dt by auto
  have tk: "k = [] \<or> up k \<notin> set (inorder t)" using up_mem [OF at(4)] dk by auto
  have c1: "ctx_at h1 a k" by (rule ctx_frame [OF at(4)]) (use dk in \<open>auto simp: h1_def intro!: agree_repar\<close>)
  show "(if addr t \<noteq> 0 then rb_set_parent h (addr t) (up k) else Some h) = Some h1"
    unfolding h1_def by (rule set_parent_repar [OF at(1,2) aligned_up [OF at(4)]])
  show "change_child h1 (up k) a (addr t) = Some (refill h1 k (addr t))" by (rule change_child_refill [OF c1 at(3) dk(3)])
  have "tree_at h1 (up k) t" unfolding h1_def by (rule tree_at_repar [OF at(1) dt(1)])
  then have "tree_at (refill h1 k (addr t)) (up k) t" by (rule tree_frame) (rule agree_refill [OF tk])
  moreover have "ctx_at (refill h1 k (addr t)) (addr t) k" by (rule ctx_at_refill [OF c1 dk(1)])
  ultimately show "rb_rep (refill h1 k (addr t)) (plug k t)" using d dt(1) dk by (auto simp: rb_rep_plug)
  show "doms (refill h1 k (addr t)) = doms h" using doms_refill [OF c1] doms_repar [OF at(1)] by (simp add: h1_def)
qed

lemma erase_splice_ok:
  assumes rep: "rb_rep h (plug k (Nd c l a r))" and inv: "red_black (plug k (Nd c l a r))" and t: "l = Lf \<and> t = r \<or> r = Lf \<and> t = l"
  shows "erased h (erase_splice h a (addr t)) (before k @ inorder l @ inorder r @ behind k)"
proof -
  note sp = splice_rep [OF rep t]
  have i: "ctx_inv k (bheight (Nd c l a r)) \<and> invc (Nd c l a r) \<and> invh (Nd c l a r)"
    using plug_invD [of k "Nd c l a r"] inv by (simp only: red_black_def simp_thms)
  let ?h = "refill (repar h t (up k)) k (addr t)"
  have "erased ?h (if col_bit c = RB_BLACK then rb_erase_color ?h (addr t) (up k) else Some ?h) (inorder (plug k t))"
    by (rule erase_finish [OF sp(3)]) (use t i in auto)
  moreover have "erase_splice h a (addr t) = (if col_bit c = RB_BLACK then rb_erase_color ?h (addr t) (up k) else Some ?h)"
    unfolding erase_splice_def by (simp only: rb_read(4,5) [OF rep] sp(1,2) bind_Some_eq)
  moreover have "inorder (plug k t) = before k @ inorder l @ inorder r @ behind k" using t by auto
  ultimately show ?thesis using sp(4) by (simp only: erased_def)
qed

text \<open>A node \<open>s\<close> takes the place of the node \<open>a\<close>.\<close>

lemma rep_frame: "rb_rep h t \<Longrightarrow> agree (set (inorder t)) h h' \<Longrightarrow> rb_root h' = rb_root h \<Longrightarrow> rb_rep h' t"
  by (auto simp: rb_rep_def intro: tree_frame)

definition instead :: "rbheap \<Rightarrow> ctx \<Rightarrow> color \<Rightarrow> rbtree \<Rightarrow> u64 \<Rightarrow> rbtree \<Rightarrow> rbheap" where
  "instead h k c l s r = (let h' = refill (repar (repar h l s) r s) k s in
     h'\<lparr>rb_left := (rb_left h')(s \<mapsto> addr l), rb_right := (rb_right h')(s \<mapsto> addr r), rb_parent_color := (rb_parent_color h')(s \<mapsto> pack (up k) c)\<rparr>)"

lemma instead_rep:
  assumes rep: "rb_rep h (plug k (Nd c l a r))" and s: "s \<noteq> 0" "aligned s" "s \<notin> set (inorder (plug k (Nd c l a r)))"
  shows "rb_rep (instead h k c l s r) (plug k (Nd c l s r))"
proof -
  have at: "tree_at h a l" "tree_at h a r" "ctx_at h a k" and d: "distinct (before k @ (inorder l @ a # inorder r) @ behind k)"
    using rep by (auto simp: rb_rep_plug)
  define h1 where "h1 = repar (repar h l s) r s"
  have lr: "k = [] \<or> up k \<notin> set (inorder l) \<union> set (inorder r) \<union> {s}" using up_mem [OF at(3)] d s(3) by auto
  have "tree_at (repar h l s) s l" by (rule tree_at_repar [OF at(1)]) (use d in auto)
  then have l: "tree_at h1 s l" by (rule tree_frame) (use d in \<open>auto simp: h1_def intro!: agree_repar\<close>)
  have "tree_at (repar h l s) a r" by (rule tree_frame [OF at(2)]) (use d in \<open>auto intro!: agree_repar\<close>)
  then have r: "tree_at h1 s r" unfolding h1_def by (rule tree_at_repar) (use d in auto)
  have "ctx_at h1 a k" unfolding h1_def
    by (rule ctx_frame [OF at(3) agree_trans [OF agree_repar agree_repar]]) (use d in auto)
  then have ck: "ctx_at (refill h1 k s) s k" by (rule ctx_at_refill) (use d in auto)
  have ag: "agree (- {s}) (refill h1 k s) (instead h k c l s r)" "rb_root (instead h k c l s r) = rb_root (refill h1 k s)"
    by (simp_all add: agree_def instead_def h1_def Let_def)
  have "ctx_at (instead h k c l s r) s k" by (rule ctx_frame [OF ck agree_mono [OF ag(1)] ag(2)]) (use s in auto)
  moreover have "tree_at (instead h k c l s r) s l"
    by (rule tree_frame [OF l]) (rule agree_trans [OF agree_refill agree_mono [OF ag(1)]], use s lr in auto)
  moreover have "tree_at (instead h k c l s r) s r"
    by (rule tree_frame [OF r]) (rule agree_trans [OF agree_refill agree_mono [OF ag(1)]], use s lr in auto)
  ultimately show ?thesis using d s by (auto simp: rb_rep_plug) (auto simp: instead_def Let_def)
qed

lemma refill_at:
  "rb_left h' y = rb_left h y \<Longrightarrow> rb_left (refill h' k v) y = rb_left (refill h k v) y"
  "rb_right h' y = rb_right h y \<Longrightarrow> rb_right (refill h' k v) y = rb_right (refill h k v) y"
  by (cases k rule: up.cases; auto)+

lemma instead_fields:
  "rb_left (instead h k c l s r) y = (if y = s then Some (addr l) else rb_left (refill h k s) y)"
  "rb_right (instead h k c l s r) y = (if y = s then Some (addr r) else rb_right (refill h k s) y)"
  "rb_parent_color (instead h k c l s r) y = (if y = s then Some (pack (up k) c) else rb_parent_color (repar (repar h l s) r s) y)"
  "rb_root (instead h k c l s r) = rb_root (refill h k s)"
  by (auto simp: instead_def Let_def intro!: refill_at refill_root)

lemma repar_at: "rb_parent_color (repar h t q) y = (if t \<noteq> Lf \<and> y = addr t then Some (pack q (col t)) else rb_parent_color h y)"
  by (simp add: repar_def)

lemma root_of_ctx: "k \<noteq> [] \<Longrightarrow> addr (plug k t) = addr (plug k u) \<and> col (plug k t) = col (plug k u) \<and> plug k t \<noteq> Lf"
  by (cases k rule: rev_cases) (auto simp: plug_append, (case_tac y, simp, simp)+)

lemma left_spine: "t \<noteq> Lf \<Longrightarrow> \<exists>m c s r. t = plug m (Nd c Lf s r) \<and> before m = []"
proof (induction t)
  case (Nd c l a r)
  show ?case
  proof (cases "l = Lf")
    case False
    then obtain m d s x where "l = plug m (Nd d Lf s x)" "before m = []" using Nd.IH(1) by blast
    moreover have "before (m @ [LF c a r]) = before m" by (induction m rule: before.induct) auto
    ultimately show ?thesis by (intro exI [of _ "m @ [LF c a r]"] exI [of _ d] exI [of _ s] exI [of _ x]) (simp add: plug_append)
  qed (auto intro: exI [of _ "[]"])
qed simp

text \<open>The successor \<open>s\<close> of \<open>a\<close> is its right child.\<close>

lemma two_near:
  assumes rep: "rb_rep h (plug k (Nd c l a (Nd d Lf s x)))" and l: "l \<noteq> Lf"
  shows "\<exists>h5. erase_two h a s = (if col_bit d = RB_BLACK then rb_erase_color h5 (addr x) s else Some h5) \<and>
    rb_rep h5 (plug k (Nd c l s x)) \<and> doms h5 = doms h"
proof -
  let ?r = "Nd d Lf s x"
  have rs: "rb_rep h (plug (RF c l a # k) ?r)" using rep by simp
  have t: "ctx_at h a k" "tree_at h a l" "tree_at h s x" "aligned a" "aligned s" "a \<noteq> 0" "s \<noteq> 0" "rb_left h a = Some (addr l)" "rb_right h s = Some (addr x)"
      "rb_parent_color h a = Some (pack (up k) c)" "rb_parent_color h s = Some (pack a d)" "rb_left h s = Some 0"
    and dd: "distinct (before k @ (inorder l @ a # s # inorder x) @ behind k)"
    using rep by (auto simp: rb_rep_plug)
  have tk: "k = [] \<or> up k \<notin> set (inorder l @ a # s # inorder x)" using up_mem [OF t(1)] dd by auto
  have al: "aligned (up k)" using aligned_up [OF t(1)] .
  have la: "addr l \<noteq> 0" "addr l \<in> set (inorder l)" using l addr_0 [OF t(2)] addr_mem by auto
  define h1 where "h1 = refill h k s"
  define h4 where "h4 = h1\<lparr>rb_parent_color := (rb_parent_color h)(s \<mapsto> pack (up k) c), rb_left := (rb_left h1)(s \<mapsto> addr l)\<rparr>"
  have "agree (set (inorder l)) h h1" unfolding h1_def by (rule agree_refill) (use tk in auto)
  then have l4: "tree_at h4 a l" by (intro tree_frame [OF t(2)]) (use dd in \<open>auto simp: agree_def h4_def h1_def\<close>)
  have steps: "leftmost h s = Some s" "rb_parent h a = Some (up k)" "change_child h (up k) a s = Some h1" "rb_right h1 s = Some (addr x)"
      "rb_parent h1 s = Some a" "rb_color h1 s = Some (col_bit d)" "rb_parent_color h1 a = Some (pack (up k) c)"
      "upd_pc h1 s (\<lambda>_. pack (up k) c) = Some (h1\<lparr>rb_parent_color := (rb_parent_color h)(s \<mapsto> pack (up k) c)\<rparr>)"
      "rb_left (h1\<lparr>rb_parent_color := (rb_parent_color h)(s \<mapsto> pack (up k) c)\<rparr>) a = Some (addr l)"
      "set_left (h1\<lparr>rb_parent_color := (rb_parent_color h)(s \<mapsto> pack (up k) c)\<rparr>) s (addr l) = Some h4"
      "rb_set_parent h4 (addr l) s = Some (repar h4 l s)"
    using leftmost_ok [OF rs] t change_child_refill(1) [OF t(1), of s] tk dd al set_parent_repar [OF l4 t(4,5)] la
    by (auto simp: rb_parent_eq rb_color_eq h1_def h4_def refill_fields upd_pc_def set_left_def)
  have "erase_two h a s = (if col_bit d = RB_BLACK then rb_erase_color (repar h4 l s) (addr x) s else Some (repar h4 l s))"
    unfolding erase_two_def by (simp only: steps bind_Some_eq simp_thms if_True case_prod_conv)
  moreover have "rb_rep (repar h4 l s) (plug k (Nd c l s x))"
  proof -
    let ?h = "refill (repar h x a) (RF c l a # k) (addr x)"
    have "rb_rep ?h (plug (RF c l a # k) x)" using splice_rep(3) [OF rs, of x] by simp
    then have i: "rb_rep (instead ?h k c l s x) (plug k (Nd c l s x))"
      using instead_rep [of ?h k c l a x s] t dd by auto
    have "rb_parent_color h (addr x) = Some (pack s (col x))" if "x \<noteq> Lf" using that t(3) by (cases x) auto
    then have pc: "rb_parent_color (repar h4 l s) z = rb_parent_color (instead ?h k c l s x) z" for z
      using l dd addr_mem [of x] la by (auto simp: instead_fields repar_at h4_def h1_def)
    moreover have "rb_left (repar h4 l s) z = rb_left (instead ?h k c l s x) z" for z
      using refill_at(1) [of h z ?h k s] by (simp add: instead_fields h4_def h1_def)
    moreover have "rb_right (repar h4 l s) z = rb_right (instead ?h k c l s x) z" if "z \<noteq> a" for z
      using that refill_at(2) [of h z ?h k s] t(9) tk by (auto simp: instead_fields h4_def h1_def refill_fields)
    moreover have "rb_root (repar h4 l s) = rb_root (instead ?h k c l s x)"
      using refill_root [of h ?h k s] by (simp add: instead_fields h4_def h1_def)
    ultimately have ag: "agree (- {a}) (instead ?h k c l s x) (repar h4 l s)" "rb_root (repar h4 l s) = rb_root (instead ?h k c l s x)"
      by (simp_all add: agree_def)
    show ?thesis by (rule rep_frame [OF i agree_mono [OF ag(1)] ag(2)]) (use dd in auto)
  qed
  moreover have "doms (repar h4 l s) = doms h"
    using doms_repar [OF l4, of s] doms_refill [OF t(1), of s] t by (auto simp: doms_def h4_def h1_def)
  ultimately show ?thesis by blast
qed

text \<open>The successor \<open>s\<close> of \<open>a\<close> is further down, below \<open>p\<close>.\<close>

lemma two_far:
  assumes rep: "rb_rep h (plug k (Nd c l a r))" and r: "r = plug m (Nd d Lf s x)" "m = LF e p y # m'" "before m' = []" and l: "l \<noteq> Lf"
  shows "\<exists>h5. erase_two h a (addr r) = (if col_bit d = RB_BLACK then rb_erase_color h5 (addr x) p else Some h5) \<and>
    rb_rep h5 (plug k (Nd c l s (plug m x))) \<and> doms h5 = doms h"
proof -
  let ?K = "m @ RF c l a # k" and ?q = "addr r"
  have rs: "rb_rep h (plug ?K (Nd d Lf s x))" using rep r(1) by (simp add: plug_append)
  have rr: "rb_rep h (plug (RF c l a # k) r)" using rep by simp
  have io: "inorder r = s # inorder x @ p # inorder y @ behind m'" using r by simp
  have t: "ctx_at h a k" "tree_at h a l" "tree_at h a r" "aligned a" "a \<noteq> 0" "rb_left h a = Some (addr l)" "rb_right h a = Some ?q"
      "rb_parent_color h a = Some (pack (up k) c)"
    and dd: "distinct (before k @ (inorder l @ a # inorder r) @ behind k)" using rep by (auto simp: rb_rep_plug)
  have u: "tree_at h s x" "aligned s" "s \<noteq> 0" "rb_right h s = Some (addr x)" "rb_parent_color h s = Some (pack p d)" "rb_left h s = Some 0"
      "aligned p" "p \<noteq> 0" "rb_left h p = Some s"
    using rs r(2) by (auto simp: rb_rep_plug)
  have tk: "k = [] \<or> up k \<notin> set (inorder l @ a # inorder r)" using up_mem [OF t(1)] dd by auto
  have al: "aligned (up k)" using aligned_up [OF t(1)] .
  have la: "addr l \<noteq> 0" "addr l \<in> set (inorder l)" using l addr_0 [OF t(2)] addr_mem by auto
  have qr: "?q \<in> set (inorder r)" "?q \<noteq> 0" "?q \<noteq> s" "?q \<notin> set (inorder x)" "rb_parent_color h ?q = Some (pack a (col r))"
  proof -
    have "r \<noteq> Lf" using io by auto
    then show "?q \<in> set (inorder r)" "?q \<noteq> 0" "rb_parent_color h ?q = Some (pack a (col r))"
      using addr_mem [of r] addr_0 [OF t(3)] t(3) by (cases r; auto)+
    have "?q \<in> set (before m @ behind m)" unfolding r(1) by (rule root_mem) (simp add: r(2))
    then have "?q \<in> set (p # inorder y @ behind m')" using r(2,3) by simp
    then show "?q \<noteq> s" "?q \<notin> set (inorder x)" using dd unfolding io by auto
  qed
  have mx: "addr (plug m x) = ?q" "col (plug m x) = col r" "plug m x \<noteq> Lf" using root_of_ctx [of m x "Nd d Lf s x"] r by auto
  define h1 where "h1 = refill h k s"
  define h2 where "h2 = repar h1 x p"
  define hb where "hb = h2\<lparr>rb_left := (rb_left h2)(p \<mapsto> addr x)\<rparr>"
  define hc where "hc = hb\<lparr>rb_right := (rb_right hb)(s \<mapsto> ?q)\<rparr>"
  define hd where "hd = hc\<lparr>rb_parent_color := (rb_parent_color hc)(?q \<mapsto> pack s (col r))\<rparr>"
  define h3 where "h3 = hd\<lparr>rb_parent_color := (rb_parent_color hd)(s \<mapsto> pack (up k) c)\<rparr>"
  define h4 where "h4 = h3\<lparr>rb_left := (rb_left h3)(s \<mapsto> addr l)\<rparr>"
  note defs = h4_def h3_def hd_def hc_def hb_def h2_def h1_def
  have ne: "a \<noteq> s" "a \<noteq> p" "a \<noteq> ?q" "s \<noteq> p" "a \<notin> set (inorder x)" "s \<notin> set (inorder x)" "p \<notin> set (inorder x)" "addr l \<noteq> s" "addr l \<noteq> ?q" "addr l \<noteq> p"
      "addr l \<notin> set (inorder x)" "addr l \<noteq> a" "k = [] \<or> up k \<noteq> a" "k = [] \<or> up k \<noteq> s" "k = [] \<or> up k \<noteq> p"
    using dd io qr la tk by auto
  have x1: "tree_at h1 s x" unfolding h1_def by (rule tree_frame [OF u(1) agree_refill]) (use tk io in auto)
  have "agree (set (inorder l)) h h1" unfolding h1_def by (rule agree_refill) (use tk in auto)
  moreover have "agree (set (inorder l)) h1 h2" unfolding h2_def by (rule agree_repar) (use dd io in auto)
  moreover have "agree (set (inorder l)) h2 h4" using dd io qr(1) by (auto simp: agree_def h4_def h3_def hd_def hc_def hb_def)
  ultimately have l4: "tree_at h4 a l" by (intro tree_frame [OF t(2)]) (blast intro: agree_trans)
  have steps: "leftmost h ?q = Some s" "rb_parent h a = Some (up k)" "change_child h (up k) a s = Some h1" "rb_right h1 s = Some (addr x)"
      "rb_parent h1 s = Some p" "rb_color h1 s = Some (col_bit d)" "(p = a) = False"
      "(if addr x \<noteq> 0 then rb_set_parent h1 (addr x) p else Some h1) = Some h2"
  proof -
    show "leftmost h ?q = Some s" using leftmost_ok [OF rr] io by (cases "r = Lf") simp_all
    show "change_child h (up k) a s = Some h1" unfolding h1_def by (rule change_child_refill(1) [OF t(1,5)]) (use dd in auto)
    show "(if addr x \<noteq> 0 then rb_set_parent h1 (addr x) p else Some h1) = Some h2" unfolding h2_def by (rule set_parent_repar [OF x1 u(2,7)])
  qed (use t u ne al in \<open>auto simp: rb_parent_eq rb_color_eq h1_def refill_fields\<close>)
  have steps2: "set_left h2 p (addr x) = Some hb" "rb_right hb a = Some ?q" "set_right hb s ?q = Some hc" "rb_set_parent hc ?q s = Some hd"
  proof -
    show "rb_set_parent hc ?q s = Some hd" unfolding hd_def
      by (rule rb_set_parent_eq [OF _ t(4) u(2)]) (use qr in \<open>simp add: hc_def hb_def h2_def repar_pc h1_def\<close>)
  qed (use t u ne in \<open>auto simp: set_left_def set_right_def hc_def hb_def h2_def h1_def refill_fields\<close>)
  have steps3: "rb_parent_color hd a = Some (pack (up k) c)" "upd_pc hd s (\<lambda>_. pack (up k) c) = Some h3"
      "rb_left h3 a = Some (addr l)" "set_left h3 s (addr l) = Some h4" "rb_set_parent h4 (addr l) s = Some (repar h4 l s)"
  proof -
    show "rb_parent_color hd a = Some (pack (up k) c)" using t(8) ne by (simp add: hd_def hc_def hb_def h2_def repar_pc h1_def)
    show "upd_pc hd s (\<lambda>_. pack (up k) c) = Some h3" using u(5) ne qr(3) by (simp add: upd_pc_def h3_def hd_def hc_def hb_def h2_def repar_pc h1_def)
    show "rb_set_parent h4 (addr l) s = Some (repar h4 l s)" using set_parent_repar [OF l4 t(4) u(2)] la by simp
  qed (use t u ne in \<open>auto simp: set_left_def defs refill_fields\<close>)
  have "erase_two h a ?q = (if col_bit d = RB_BLACK then rb_erase_color (repar h4 l s) (addr x) p else Some (repar h4 l s))"
    unfolding erase_two_def by (simp only: steps steps2 steps3 bind_Some_eq if_False case_prod_conv)
  moreover have "rb_rep (repar h4 l s) (plug k (Nd c l s (plug m x)))"
  proof -
    let ?h = "refill (repar h x p) ?K (addr x)"
    have "rb_rep ?h (plug k (Nd c l a (plug m x)))" using splice_rep(3) [OF rs, of x] r(2) by (simp add: plug_append)
    then have i: "rb_rep (instead ?h k c l s (plug m x)) (plug k (Nd c l s (plug m x)))"
      by (rule instead_rep) (use u dd io r in auto)
    have pc: "rb_parent_color (repar h4 l s) z = rb_parent_color (instead ?h k c l s (plug m x)) z" for z
      using l ne mx addr_mem [of x] by (auto simp: instead_fields repar_at defs r(2))
    moreover have "rb_left (repar h4 l s) z = rb_left (instead ?h k c l s (plug m x)) z" for z
      using refill_at(1) [of h z ?h k s] ne by (auto simp: instead_fields defs r(2) refill_fields)
    moreover have "rb_right (repar h4 l s) z = rb_right (instead ?h k c l s (plug m x)) z" for z
      using refill_at(2) [of h z ?h k s] mx by (auto simp: instead_fields defs r(2))
    moreover have "rb_root (repar h4 l s) = rb_root (instead ?h k c l s (plug m x))"
      using refill_root [of h ?h k s] by (simp add: instead_fields defs r(2))
    ultimately show ?thesis by (intro rep_frame [OF i]) (auto simp: agree_def)
  qed
  moreover have "doms (repar h4 l s) = doms h"
    using doms_repar [OF l4, of s] doms_repar [OF x1, of p] doms_refill [OF t(1), of s] t u qr by (auto simp: doms_def defs)
  ultimately show ?thesis by blast
qed

lemma ctx_inv_rename: "ctx_inv (m @ RF c l a # k) n = ctx_inv (m @ RF c l b # k) n"
proof (induction m arbitrary: n)
  case (Cons f m)
  have "ccol (m @ RF c l a # k) = ccol (m @ RF c l b # k)" by (cases m rule: ccol.cases) auto
  then show ?case using Cons.IH by (cases f) auto
qed simp

lemma up_append: "up (m @ RF c l s # k) = (if m = [] then s else up m)"
  by (cases m rule: up.cases) auto

lemma erase_two_ok:
  assumes rep: "rb_rep h (plug k (Nd c l a r))" and inv: "red_black (plug k (Nd c l a r))" and lr: "l \<noteq> Lf" "r \<noteq> Lf"
  shows "erased h (erase_two h a (addr r)) (before k @ inorder l @ inorder r @ behind k)"
proof -
  obtain m d s x where r: "r = plug m (Nd d Lf s x)" "before m = []" using left_spine [OF lr(2)] by blast
  let ?K = "\<lambda>b. m @ RF c l b # k"
  have i: "ctx_inv (?K s) (bheight (Nd d Lf s x)) \<and> invc (Nd d Lf s x) \<and> invh (Nd d Lf s x)"
    using plug_invD [of "?K a" "Nd d Lf s x"] inv unfolding red_black_def r(1) plug_append plug.simps ctx_inv_rename [of m c l a k _ s] by blast
  have "\<exists>h5. erase_two h a (addr r) = (if col_bit d = RB_BLACK then rb_erase_color h5 (addr x) (up (?K s)) else Some h5) \<and>
      rb_rep h5 (plug (?K s) x) \<and> doms h5 = doms h"
  proof (cases m rule: before.cases)
    case 1
    then show ?thesis using two_near [of h k c l a d s x] rep r(1) lr(1) by (simp split del: if_split cong: if_cong)
  next
    case (2 e p y m')
    then show ?thesis using two_far [OF rep r(1) 2 _ lr(1)] r(2) by (simp add: plug_append split del: if_split cong: if_cong)
  next
    case (3 e y p m')
    then show ?thesis using r(2) by simp
  qed
  then obtain h5 where h5: "erase_two h a (addr r) = (if col_bit d = RB_BLACK then rb_erase_color h5 (addr x) (up (?K s)) else Some h5)"
      "rb_rep h5 (plug (?K s) x)" "doms h5 = doms h" by blast
  have "erased h5 (if col_bit d = RB_BLACK then rb_erase_color h5 (addr x) (up (?K s)) else Some h5) (inorder (plug (?K s) x))"
    by (rule erase_finish [OF h5(2)]) (use i in auto)
  moreover have "inorder (plug (?K s) x) = before k @ inorder l @ inorder r @ behind k"
    using r by (simp add: plug_append)
  ultimately show ?thesis using h5(1,3) by (simp only: erased_def)
qed

lemma rb_erase_ok:
  assumes rep: "rb_rep h t" and inv: "red_black t" and io: "inorder t = us @ a # vs"
  shows "\<exists>h' t'. rb_erase h a = Some h' \<and> rb_rep h' t' \<and> inorder t' = us @ vs \<and> red_black t' \<and> doms h' = doms h"
proof -
  obtain k c l r where t: "t = plug k (Nd c l a r)" using plug_member [of a t] io by auto
  have "distinct (us @ a # vs)" using rep io by (simp add: rb_rep_def)
  then have "a \<notin> set us" "a \<notin> set vs" by simp_all
  moreover have "us @ a # vs = (before k @ inorder l) @ a # (inorder r @ behind k)" using io t by simp
  ultimately have uv: "us = before k @ inorder l \<and> vs = inorder r @ behind k" by (simp only: append_Cons_eq_iff simp_thms)
  note rp = rep [unfolded t] and iv = inv [unfolded t]
  have z: "addr l = 0 \<longleftrightarrow> l = Lf" "addr r = 0 \<longleftrightarrow> r = Lf" using rp addr_0 by (auto simp: rb_rep_plug)
  have "erased h (rb_erase h a) (before k @ inorder l @ inorder r @ behind k)"
    using erase_splice_ok [OF rp iv, of r] erase_splice_ok [OF rp iv, of l] erase_two_ok [OF rp iv] rb_read(2,3) [OF rp] z
    by (cases "l = Lf"; cases "r = Lf") (simp_all add: rb_erase_def)
  then show ?thesis using uv by (simp add: erased_def)
qed

text \<open>\<open>rb_replace_node\<close> exchanges one node, without touching the shape or the colours.\<close>

lemma replace_node_ok:
  assumes rep: "rb_rep h (plug k (Nd c l a r))" and s: "s \<noteq> 0" "aligned s" "s \<notin> set (inorder (plug k (Nd c l a r)))"
    and live: "s \<in> dom (rb_left h)" "s \<in> dom (rb_right h)" "s \<in> dom (rb_parent_color h)"
  shows "\<exists>h'. rb_replace_node h a s = Some h' \<and> rb_rep h' (plug k (Nd c l s r))"
proof -
  have t: "ctx_at h a k" "tree_at h a l" "tree_at h a r" "aligned a" "a \<noteq> 0" "rb_left h a = Some (addr l)" "rb_right h a = Some (addr r)"
      "rb_parent_color h a = Some (pack (up k) c)"
    and dd: "distinct (before k @ (inorder l @ a # inorder r) @ behind k)" using rep by (auto simp: rb_rep_plug)
  have tk: "k = [] \<or> up k \<notin> set (inorder l @ a # s # inorder r)" using up_mem [OF t(1)] dd s(3) by auto
  have al: "aligned (up k)" using aligned_up [OF t(1)] .
  have ne: "a \<noteq> s" "k = [] \<or> up k \<noteq> a" "k = [] \<or> up k \<noteq> s" "a \<notin> set (inorder l)" "a \<notin> set (inorder r)" "s \<notin> set (inorder l)" "s \<notin> set (inorder r)"
    using dd s(3) tk by auto
  define h1 where "h1 = refill h k s"
  define h3 where "h3 = repar (repar h1 l s) r s"
  define h4 where "h4 = h3\<lparr>rb_parent_color := (rb_parent_color h3)(s \<mapsto> pack (up k) c)\<rparr>"
  define h5 where "h5 = h4\<lparr>rb_right := (rb_right h4)(s \<mapsto> addr r)\<rparr>"
  define h6 where "h6 = h5\<lparr>rb_left := (rb_left h5)(s \<mapsto> addr l)\<rparr>"
  have l1: "tree_at h1 a l" unfolding h1_def by (rule tree_frame [OF t(2) agree_refill]) (use tk in auto)
  have r1: "tree_at h1 a r" unfolding h1_def by (rule tree_frame [OF t(3) agree_refill]) (use tk in auto)
  have r2: "tree_at (repar h1 l s) a r" by (rule tree_frame [OF r1 agree_repar]) (use dd in auto)
  have steps: "rb_parent h a = Some (up k)" "change_child h (up k) a s = Some h1" "rb_left h1 a = Some (addr l)"
      "(if addr l \<noteq> 0 then rb_set_parent h1 (addr l) s else Some h1) = Some (repar h1 l s)" "rb_right (repar h1 l s) a = Some (addr r)"
      "(if addr r \<noteq> 0 then rb_set_parent (repar h1 l s) (addr r) s else Some (repar h1 l s)) = Some h3"
  proof -
    show "change_child h (up k) a s = Some h1" unfolding h1_def by (rule change_child_refill(1) [OF t(1,5)]) (use dd in auto)
    show "(if addr l \<noteq> 0 then rb_set_parent h1 (addr l) s else Some h1) = Some (repar h1 l s)" by (rule set_parent_repar [OF l1 t(4) s(2)])
    show "(if addr r \<noteq> 0 then rb_set_parent (repar h1 l s) (addr r) s else Some (repar h1 l s)) = Some h3"
      unfolding h3_def by (rule set_parent_repar [OF r2 t(4) s(2)])
  qed (use t ne al in \<open>auto simp: rb_parent_eq h1_def refill_fields\<close>)
  have steps2: "rb_parent_color h3 a = Some (pack (up k) c)" "upd_pc h3 s (\<lambda>_. pack (up k) c) = Some h4" "rb_right h4 a = Some (addr r)"
      "set_right h4 s (addr r) = Some h5" "rb_left h5 a = Some (addr l)" "set_left h5 s (addr l) = Some h6"
    using t ne live by (auto simp: upd_pc_def set_right_def set_left_def h6_def h5_def h4_def h3_def h1_def repar_pc refill_fields)
  have "rb_replace_node h a s = Some h6"
    unfolding rb_replace_node_def by (simp only: steps steps2 bind_Some_eq)
  moreover have "rb_rep h6 (plug k (Nd c l s r))"
    by (rule rep_frame [OF instead_rep [OF rep s]])
      (auto simp: agree_def instead_fields h6_def h5_def h4_def h3_def h1_def repar_at)
  ultimately show ?thesis by blast
qed

subsection \<open>Augmented trees\<close>

text \<open>The nodes on the way from the hole of a context to the root.\<close>

fun ancestors :: "ctx \<Rightarrow> u64 list" where
  "ancestors [] = []"
| "ancestors (LF c a r # k) = a # ancestors k"
| "ancestors (RF c l a # k) = a # ancestors k"

text \<open>The path ends at the root, with every ancestor after its descendants and nothing outside the tree.\<close>

lemma augment_path_ok:
  "rb_rep h (plug k t) \<Longrightarrow> t \<noteq> Lf \<Longrightarrow> \<exists>xs. rb_augment_path h (addr t) = Some xs \<and> subseq (addr t # ancestors k) xs \<and> set xs \<subseteq> set (inorder (plug k t))"
proof (induction k arbitrary: t)
  case Nil
  then have "rb_augment_path h (addr t) = Some [addr t]" using rb_read(4) [of h "[]"] by (cases t) (subst rb_augment_path.simps; simp)+
  then show ?case using addr_mem [OF Nil(2)] by simp
next
  case (Cons f k)
  obtain c l a r where t: "t = Nd c l a r" using Cons.prems(2) by (cases t) auto
  have par: "rb_parent h a = Some (up (f # k))" using rb_read(4) Cons.prems(1) t by blast
  obtain d x b y where p: "plug (f # k) t = plug k (Nd d x b y)" "up (f # k) = b" "ancestors (f # k) = b # ancestors k"
      "a = addr x \<and> t = x \<or> a = addr y \<and> t = y" using t by (cases f) auto
  have rp: "rb_rep h (plug k (Nd d x b y))" using Cons.prems(1) p(1) by simp
  note rd = rb_read [OF rp]
  obtain xs where xs: "rb_augment_path h b = Some xs" "subseq (b # ancestors k) xs" "set xs \<subseteq> set (inorder (plug k (Nd d x b y)))"
    using Cons.IH [OF rp] by auto
  let ?s = "if a = addr x \<and> addr y \<noteq> 0 then [addr y] else if addr x \<noteq> 0 then [addr x] else []"
  have "rb_augment_path h a = Some (a # ?s @ xs)" using par p(2) rd(1,2,3) xs(1) by (subst rb_augment_path.simps) simp
  moreover have "subseq (a # b # ancestors k) (a # ?s @ xs)" using xs(2) by (simp add: list_emb_append2)
  moreover have "x \<noteq> Lf \<Longrightarrow> addr x \<in> set (inorder x)" "y \<noteq> Lf \<Longrightarrow> addr y \<in> set (inorder y)" using addr_mem by auto
  moreover have "addr x = 0 \<longleftrightarrow> x = Lf" "addr y = 0 \<longleftrightarrow> y = Lf" using rp addr_0 by (auto simp: rb_rep_plug)
  ultimately show ?case using xs(3) p t unfolding p(1) by (intro exI [of _ "a # ?s @ xs"]) auto
qed

subsection \<open>Properties\<close>

text \<open>C8.
  The deletion of a node from a red-black tree: every access is to a live node, the loop of the rebalancing ends, and the heap holds
  again a red-black tree, with the other nodes in their old order.\<close>

theorem rb_erase_tree:
  assumes "rb_rep h t" "red_black t" "inorder t = us @ a # vs"
  shows "\<exists>h' t'. rb_erase h a = Some h' \<and> rb_rep h' t' \<and> red_black t' \<and> inorder t' = us @ vs"
  using rb_erase_ok [OF assms] by blast

theorem rb_erase_tree_witness:
  "\<exists>h' t'. rb_erase \<lparr>rb_root = 8, rb_parent_color = [8 \<mapsto> 1, 16 \<mapsto> 9, 24 \<mapsto> 9], rb_right = [8 \<mapsto> 24, 16 \<mapsto> 0, 24 \<mapsto> 0], rb_left = [8 \<mapsto> 16, 16 \<mapsto> 0, 24 \<mapsto> 0]\<rparr> 8 = Some h' \<and>
     rb_rep h' t' \<and> red_black t' \<and> inorder t' = [16] @ [24]"
  by (rule rb_erase_tree [of _ "Nd Black (Nd Black Lf 16 Lf) 8 (Nd Black Lf 24 Lf)"]) (simp_all add: rb_rep_def red_black_def aligned_def pack_def)

end
