(* ===== verification/RBTreeMap.thy ===== *)
theory RBTreeMap
  imports RBErase HashList
begin

text \<open>
  The ordered map of \<open>core/utils/data_structure/rbtree_map/rbtree_map.c\<close> on the red-black trees of theory \<open>RBTree\<close>, the classes
  \<open>RBTree_Map\<close> and \<open>RBTree_Iterator\<close>, and the loops of the class \<open>Map\<close> that run on them.  The tree node is the first field of a
  map node, so that both have one address.  A position is the address of its node; its fields \<open>tree_root\<close> and \<open>map\<close> are those of the
  one map and are not represented.  The address that the allocator returns is an argument of the insertion, 0 when it fails.
  The locks are not modelled.
\<close>

record rbtree_map =
  rb_cmp :: "(ptr \<Rightarrow> ptr \<Rightarrow> int) option"
  lock_type :: u8
  enable_same_key :: u8
  rb_key_type :: u8
  rb_count :: u32
  rb_heap :: rbheap
  rb_begin :: u64
  rb_end :: u64
  node_key_type :: "u64 \<rightharpoonup> u8"
  rb_key :: "u64 \<rightharpoonup> ptr"
  rb_value :: "u64 \<rightharpoonup> ptr"

definition rb_default_key_cmp_func :: "ptr \<Rightarrow> ptr \<Rightarrow> int" where
  "rb_default_key_cmp_func key1 key2 = (if key1 > key2 then 1 else if key1 < key2 then -1 else 0)"

subsection \<open>Search and insertion\<close>

text \<open>The node that is found, or 0.\<close>

partial_function (option) search_node :: "rbtree_map \<Rightarrow> (ptr \<Rightarrow> ptr \<Rightarrow> int) \<Rightarrow> ptr \<Rightarrow> u64 \<Rightarrow> u64 option" where
  "search_node m cmp key node =
     (if node = 0 then Some 0
      else do { k \<leftarrow> rb_key m node;
                if cmp key k < 0 then do { l \<leftarrow> rb_left (rb_heap m) node; search_node m cmp key l }
                else if cmp key k > 0 then do { r \<leftarrow> rb_right (rb_heap m) node; search_node m cmp key r }
                else Some node })"

definition rbtree_map_search_node :: "rbtree_map \<Rightarrow> ptr \<Rightarrow> u64 option" where
  "rbtree_map_search_node m key = do { cmp \<leftarrow> rb_cmp m; search_node m cmp key (rb_root (rb_heap m)) }"

text \<open>The place of a new node and its parent; \<open>None\<close> when the key is there and equal keys are not allowed.\<close>

partial_function (option) find_place :: "rbtree_map \<Rightarrow> (ptr \<Rightarrow> ptr \<Rightarrow> int) \<Rightarrow> ptr \<Rightarrow> link \<Rightarrow> u64 \<Rightarrow> (link \<times> u64) option option" where
  "find_place m cmp key new parent =
     do { this \<leftarrow> get_link (rb_heap m) new;
          if this = 0 then Some (Some (new, parent))
          else do { k \<leftarrow> rb_key m this;
                    if cmp key k < 0 then find_place m cmp key (LeftOf this) this
                    else if cmp key k > 0 then find_place m cmp key (RightOf this) this
                    else if enable_same_key m \<noteq> 0 then find_place m cmp key (LeftOf this) this
                    else Some None } }"

definition rbtree_map_insert_node :: "rbtree_map \<Rightarrow> u64 \<Rightarrow> (int \<times> rbtree_map) option" where
  "rbtree_map_insert_node m n =
     do { cmp \<leftarrow> rb_cmp m;
          key \<leftarrow> rb_key m n;
          place \<leftarrow> find_place m cmp key Root 0;
          (case place of
             None \<Rightarrow> Some (0, m)
           | Some (new, parent) \<Rightarrow>
               do { h1 \<leftarrow> rb_link_node (rb_heap m) n parent new; h2 \<leftarrow> rb_insert_color h1 n; Some (1, m\<lparr>rb_heap := h2\<rparr>) }) }"

subsection \<open>Positions\<close>

definition rbtree_map_pos_next :: "rbtree_map \<Rightarrow> u64 \<Rightarrow> u64 option" where
  "rbtree_map_pos_next m it = (if it = 0 then Some 0 else rb_next (rb_heap m) it)"

definition rbtree_map_pos_prev :: "rbtree_map \<Rightarrow> u64 \<Rightarrow> u64 option" where
  "rbtree_map_pos_prev m it = (if it = 0 then Some 0 else rb_prev (rb_heap m) it)"

definition rbtree_map_pos_equal :: "u64 \<Rightarrow> u64 \<Rightarrow> bool" where
  "rbtree_map_pos_equal it1 it2 \<longleftrightarrow> it1 = it2"

definition rbtree_map_pos_get_pointer :: "rbtree_map \<Rightarrow> u64 \<Rightarrow> ptr option" where
  "rbtree_map_pos_get_pointer m it = (if it = 0 then Some 0 else rb_value m it)"

definition rbtree_map_pos_get_kpointer :: "rbtree_map \<Rightarrow> u64 \<Rightarrow> ptr option" where
  "rbtree_map_pos_get_kpointer m it = (if it = 0 then Some 0 else rb_key m it)"

subsection \<open>Operations\<close>

text \<open>\<open>memset\<close> clears the map; the other fields are set.\<close>

definition rbtree_map_alloc :: rbtree_map where
  "rbtree_map_alloc =
     \<lparr>rb_cmp = None, lock_type = 0, enable_same_key = 1, rb_key_type = 0, rb_count = 0,
      rb_heap = \<lparr>rb_root = 0, rb_parent_color = Map.empty, rb_right = Map.empty, rb_left = Map.empty\<rparr>, rb_begin = 0, rb_end = 0,
      node_key_type = Map.empty, rb_key = Map.empty, rb_value = Map.empty\<rparr>"

datatype attribute = Byte_at u8 | Function (func: "(ptr \<Rightarrow> ptr \<Rightarrow> int) option")

text \<open>The return value is \<open>None\<close> where the function ends without a \<open>return\<close>; an attribute of the wrong kind is undefined.\<close>

definition rbtree_map_set :: "rbtree_map \<Rightarrow> string \<Rightarrow> attribute \<Rightarrow> (int option \<times> rbtree_map) option" where
  "rbtree_map_set m attrib val =
     (if attrib = ''lock_type'' then (case val of Byte_at b \<Rightarrow> Some (None, m\<lparr>lock_type := b\<rparr>) | _ \<Rightarrow> None)
      else if attrib = ''key_type'' then (case val of Byte_at b \<Rightarrow> Some (None, m\<lparr>rb_key_type := b\<rparr>) | _ \<Rightarrow> None)
      else if attrib = ''key_cmp_func'' then (case val of Function f \<Rightarrow> Some (None, m\<lparr>rb_cmp := f\<rparr>) | _ \<Rightarrow> None)
      else Some (Some (-1), m))"

definition rbtree_map_init :: "rbtree_map \<Rightarrow> int \<times> rbtree_map" where
  "rbtree_map_init m =
     (0, m\<lparr>rb_cmp := (case rb_cmp m of None \<Rightarrow> Some rb_default_key_cmp_func | Some f \<Rightarrow> Some f),
           rb_heap := (rb_heap m)\<lparr>rb_root := 0\<rparr>, rb_begin := 0, rb_end := 0\<rparr>)"

definition rbtree_map_begin :: "rbtree_map \<Rightarrow> u64" where
  "rbtree_map_begin m = rb_begin m"

definition rbtree_map_end :: "rbtree_map \<Rightarrow> u64" where
  "rbtree_map_end m = rb_end m"

definition rbtree_map_insert :: "rbtree_map \<Rightarrow> u64 \<Rightarrow> ptr \<Rightarrow> ptr \<Rightarrow> (int \<times> rbtree_map) option" where
  "rbtree_map_insert m n key val =
     (if n = 0 then Some (-1, m)
      else
        do { let m1 = m\<lparr>rb_key := (rb_key m)(n \<mapsto> key), rb_value := (rb_value m)(n \<mapsto> val), node_key_type := (node_key_type m)(n \<mapsto> rb_key_type m)\<rparr>;
             (ret, m2) \<leftarrow> rbtree_map_insert_node m1 n;
             if ret \<le> 0 then Some (ret, m2)
             else do { first \<leftarrow> rb_first (rb_heap m2); Some (1, m2\<lparr>rb_begin := first, rb_count := rb_count m2 + 1\<rparr>) } })"

text \<open>What \<open>rbtree_map_delete\<close> and \<open>rbtree_map_remove\<close> share.\<close>

definition rbtree_map_unlink :: "rbtree_map \<Rightarrow> u64 \<Rightarrow> rbtree_map option" where
  "rbtree_map_unlink m it =
     do { m1 \<leftarrow> (if rbtree_map_pos_equal it (rb_begin m) then do { nx \<leftarrow> rb_next (rb_heap m) it; Some (m\<lparr>rb_begin := nx\<rparr>) } else Some m);
          h \<leftarrow> rb_erase (rb_heap m1) it;
          Some (m1\<lparr>rb_heap := h, rb_count := rb_count m1 - 1\<rparr>) }"

definition free_mnode :: "rbtree_map \<Rightarrow> u64 \<Rightarrow> rbtree_map" where
  "free_mnode m n =
     m\<lparr>rb_key := (rb_key m)(n := None), rb_value := (rb_value m)(n := None), node_key_type := (node_key_type m)(n := None),
       rb_heap := (rb_heap m)\<lparr>rb_parent_color := (rb_parent_color (rb_heap m))(n := None), rb_right := (rb_right (rb_heap m))(n := None),
                             rb_left := (rb_left (rb_heap m))(n := None)\<rparr>\<rparr>"

definition rbtree_map_delete :: "rbtree_map \<Rightarrow> u64 \<Rightarrow> (int \<times> rbtree_map) option" where
  "rbtree_map_delete m it = do { m1 \<leftarrow> rbtree_map_unlink m it; Some (1, free_mnode m1 it) }"

text \<open>The value that is stored to \<open>*element\<close>.\<close>

definition rbtree_map_remove :: "rbtree_map \<Rightarrow> u64 \<Rightarrow> (int \<times> ptr \<times> rbtree_map) option" where
  "rbtree_map_remove m it = do { m1 \<leftarrow> rbtree_map_unlink m it; v \<leftarrow> rb_value m1 it; Some (1, v, free_mnode m1 it) }"

definition rbtree_map_search :: "rbtree_map \<Rightarrow> ptr \<Rightarrow> (int \<times> u64 option) option" where
  "rbtree_map_search m key = do { a \<leftarrow> rbtree_map_search_node m key; Some (if a = 0 then (0, None) else (1, Some a)) }"

definition rbtree_map_count :: "rbtree_map \<Rightarrow> int" where
  "rbtree_map_count m = sint (rb_count m)"

partial_function (option) delete_all :: "rbtree_map \<Rightarrow> rbtree_map option" where
  "delete_all m =
     (if rbtree_map_pos_equal (rbtree_map_begin m) (rbtree_map_end m) then Some m
      else do { (r, m1) \<leftarrow> rbtree_map_delete m (rbtree_map_begin m); delete_all m1 })"

text \<open>The map that \<open>rbtree_map_destroy\<close> frees, and whether the root is freed with it.\<close>

definition rbtree_map_destroy :: "rbtree_map \<Rightarrow> (int \<times> bool \<times> rbtree_map) option" where
  "rbtree_map_destroy m = do { m1 \<leftarrow> delete_all m; Some (1, rbtree_map_pos_equal (rb_end m1) (rb_begin m1), m1) }"

subsection \<open>The class RBTree_Map and the loops of the class Map\<close>

definition RBTree_Map_construct :: "int \<times> rbtree_map" where
  "RBTree_Map_construct = (0, snd (rbtree_map_init rbtree_map_alloc))"

definition RBTree_Map_set_cmp_func :: "rbtree_map \<Rightarrow> (ptr \<Rightarrow> ptr \<Rightarrow> int) option \<Rightarrow> (int \<times> rbtree_map) option" where
  "RBTree_Map_set_cmp_func m f = do { (r, m') \<leftarrow> rbtree_map_set m ''key_cmp_func'' (Function f); Some (1, m') }"

definition RBTree_Map_add :: "rbtree_map \<Rightarrow> u64 \<Rightarrow> ptr \<Rightarrow> ptr \<Rightarrow> (int \<times> rbtree_map) option" where
  "RBTree_Map_add m n key val = rbtree_map_insert m n key val"

text \<open>The stored element is \<open>None\<close> when the code stores none.\<close>

definition RBTree_Map_search :: "rbtree_map \<Rightarrow> ptr \<Rightarrow> (int \<times> ptr option) option" where
  "RBTree_Map_search m key =
     do { (ret, pos) \<leftarrow> rbtree_map_search m key;
          if ret = 1 then do { q \<leftarrow> pos; v \<leftarrow> rbtree_map_pos_get_pointer m q; Some (ret, Some v) } else Some (ret, None) }"

definition RBTree_Map_remove :: "rbtree_map \<Rightarrow> ptr \<Rightarrow> (int \<times> ptr option \<times> rbtree_map) option" where
  "RBTree_Map_remove m key =
     do { (ret, pos) \<leftarrow> rbtree_map_search m key;
          if ret \<noteq> 1 then Some (ret, None, m)
          else do { q \<leftarrow> pos; (ret', v, m') \<leftarrow> rbtree_map_remove m q; Some (ret', Some v, m') } }"

definition RBTree_Map_del :: "rbtree_map \<Rightarrow> ptr \<Rightarrow> (int \<times> rbtree_map) option" where
  "RBTree_Map_del m key =
     do { (ret, pos) \<leftarrow> rbtree_map_search m key;
          if ret \<noteq> 1 then Some (ret, m) else do { q \<leftarrow> pos; rbtree_map_delete m q } }"

definition RBTree_Map_count :: "rbtree_map \<Rightarrow> int" where
  "RBTree_Map_count m = rbtree_map_count m"

text \<open>\<open>Map.contain_key\<close> asks for no element.\<close>

definition RBTree_Map_contain_key :: "rbtree_map \<Rightarrow> ptr \<Rightarrow> int option" where
  "RBTree_Map_contain_key m key = map_option fst (rbtree_map_search m key)"

text \<open>The values that are added to the list, in the order in which the tree is walked.\<close>

partial_function (option) find_same_key_node :: "rbtree_map \<Rightarrow> u64 \<Rightarrow> (ptr \<Rightarrow> ptr \<Rightarrow> int) \<Rightarrow> ptr \<Rightarrow> ptr list option" where
  "find_same_key_node m node cmp key =
     (if node = 0 then Some []
      else do { k \<leftarrow> rb_key m node;
                if cmp key k < 0 then do { l \<leftarrow> rb_left (rb_heap m) node; find_same_key_node m l cmp key }
                else if cmp key k > 0 then do { r \<leftarrow> rb_right (rb_heap m) node; find_same_key_node m r cmp key }
                else do { v \<leftarrow> rb_value m node;
                          l \<leftarrow> rb_left (rb_heap m) node; vs \<leftarrow> find_same_key_node m l cmp key;
                          r \<leftarrow> rb_right (rb_heap m) node; ws \<leftarrow> find_same_key_node m r cmp key;
                          Some (v # vs @ ws) } })"

text \<open>The loop of \<open>search_all_same_key\<close> is that of \<open>__find_same_key_node\<close>, from the root; the return code is always 0.\<close>

definition RBTree_Map_search_all_same_key :: "rbtree_map \<Rightarrow> ptr \<Rightarrow> (int \<times> ptr list) option" where
  "RBTree_Map_search_all_same_key m key =
     do { cmp \<leftarrow> rb_cmp m; vs \<leftarrow> find_same_key_node m (rb_root (rb_heap m)) cmp key; Some (0, vs) }"

definition RBTree_Iterator_next :: "rbtree_map \<Rightarrow> u64 \<Rightarrow> u64 option" where
  "RBTree_Iterator_next m it = rbtree_map_pos_next m it"

partial_function (option) rb_each :: "rbtree_map \<Rightarrow> u64 \<Rightarrow> (ptr \<times> ptr) list option" where
  "rb_each m cur =
     (if rbtree_map_pos_equal (rbtree_map_end m) cur then Some []
      else do { key \<leftarrow> rbtree_map_pos_get_kpointer m cur;
                val \<leftarrow> rbtree_map_pos_get_pointer m cur;
                cur' \<leftarrow> RBTree_Iterator_next m cur;
                rest \<leftarrow> rb_each m cur';
                Some ((key, val) # rest) })"

text \<open>The keys and values that \<open>Map.for_each\<close> passes to its callback.\<close>

definition RBTree_Map_for_each :: "rbtree_map \<Rightarrow> (ptr \<times> ptr) list option" where
  "RBTree_Map_for_each m = rb_each m (rbtree_map_begin m)"

partial_function (option) RBTree_Map_reset :: "map_config \<Rightarrow> rbtree_map \<Rightarrow> ptr option \<Rightarrow> (int \<times> release list \<times> rbtree_map) option" where
  "RBTree_Map_reset cfg m element =
     (if rbtree_map_pos_equal (rbtree_map_end m) (rbtree_map_begin m) then Some (1, [], m)
      else
        do { key \<leftarrow> rbtree_map_pos_get_kpointer m (rbtree_map_begin m);
             (r, found, m1) \<leftarrow> RBTree_Map_remove m key;
             e \<leftarrow> (case found of Some v \<Rightarrow> Some v | None \<Rightarrow> element);
             (case release_element cfg e of
                None \<Rightarrow> Some (-1, [], m1)
              | Some rel \<Rightarrow>
                  do { (ret, rels, m2) \<leftarrow> RBTree_Map_reset cfg m1 (Some (if keeps_element cfg e then e else 0));
                       Some (ret, rel @ rels, m2) }) })"

definition RBTree_Map_deconstruct :: "map_config \<Rightarrow> rbtree_map \<Rightarrow> (int \<times> release list \<times> rbtree_map) option" where
  "RBTree_Map_deconstruct cfg m =
     do { (r, rels, m1) \<leftarrow> RBTree_Map_reset cfg m None; (r', freed, m2) \<leftarrow> rbtree_map_destroy m1; Some (1, rels, m2) }"

subsection \<open>Comparison functions\<close>

text \<open>A comparison function orders the keys: its sign is that of a total preorder.\<close>

definition cmp_ok :: "(ptr \<Rightarrow> ptr \<Rightarrow> int) \<Rightarrow> bool" where
  "cmp_ok cmp \<longleftrightarrow> (\<forall>a b. cmp a b < 0 \<longleftrightarrow> cmp b a > 0) \<and> (\<forall>a b c. cmp a b \<le> 0 \<longrightarrow> cmp b c \<le> 0 \<longrightarrow> cmp a c \<le> 0)"

lemma cmp_refl: "cmp_ok cmp \<Longrightarrow> cmp a a = 0"
  unfolding cmp_ok_def by (metis linorder_neqE_linordered_idom order.asym)

lemma cmp_trans: "cmp_ok cmp \<Longrightarrow> cmp a b \<le> 0 \<Longrightarrow> cmp b c \<le> 0 \<Longrightarrow> cmp a c \<le> 0"
  unfolding cmp_ok_def by blast

lemma cmp_flip: "cmp_ok cmp \<Longrightarrow> cmp a b < 0 \<longleftrightarrow> cmp b a > 0"
  unfolding cmp_ok_def by blast

lemma cmp_pos_trans: "cmp_ok cmp \<Longrightarrow> cmp k b > 0 \<Longrightarrow> cmp a b \<le> 0 \<Longrightarrow> cmp k a > 0"
  using cmp_trans [of cmp k a b] by force

lemma cmp_neg_trans: "cmp_ok cmp \<Longrightarrow> cmp k a < 0 \<Longrightarrow> cmp a b \<le> 0 \<Longrightarrow> cmp k b < 0"
  using cmp_trans [of cmp a b k] cmp_flip [of cmp k a] cmp_flip [of cmp k b] by force

lemma cmp_zero: "cmp_ok cmp \<Longrightarrow> cmp a b = 0 \<longleftrightarrow> cmp a b \<le> 0 \<and> cmp b a \<le> 0"
  using cmp_flip [of cmp a b] cmp_flip [of cmp b a] by linarith

lemma cmp_equal: "cmp_ok cmp \<Longrightarrow> cmp a b = 0 \<Longrightarrow> cmp a c = 0 \<longleftrightarrow> cmp b c = 0"
  using cmp_zero [of cmp a b] cmp_zero [of cmp a c] cmp_zero [of cmp b c] cmp_trans by blast

lemma cmp_default: "cmp_ok rb_default_key_cmp_func"
  by (auto simp: cmp_ok_def rb_default_key_cmp_func_def split: if_splits)

subsection \<open>The abstract map\<close>

text \<open>A map is the list of its bindings, sorted by key; a new binding stands before those with an equal key.\<close>

definition ordered :: "(ptr \<Rightarrow> ptr \<Rightarrow> int) \<Rightarrow> (ptr \<times> 'v) list \<Rightarrow> bool" where
  "ordered cmp ds \<longleftrightarrow> sorted_wrt (\<lambda>d e. cmp (fst d) (fst e) \<le> 0) ds"

fun insert_binding :: "(ptr \<Rightarrow> ptr \<Rightarrow> int) \<Rightarrow> ptr \<times> 'v \<Rightarrow> (ptr \<times> 'v) list \<Rightarrow> (ptr \<times> 'v) list" where
  "insert_binding cmp d [] = [d]"
| "insert_binding cmp d (e # es) = (if cmp (fst d) (fst e) \<le> 0 then d # e # es else e # insert_binding cmp d es)"

lemma insert_binding_split:
  "\<forall>e \<in> set us. cmp (fst d) (fst e) > 0 \<Longrightarrow> \<forall>e \<in> set vs. cmp (fst d) (fst e) \<le> 0 \<Longrightarrow> insert_binding cmp d (us @ vs) = us @ d # vs"
  by (induction us) (auto simp: neq_Nil_conv, (cases vs; auto))

lemma set_insert_binding: "set (insert_binding cmp d es) = insert d (set es)"
  by (induction es) auto

lemma ordered_insert: "cmp_ok cmp \<Longrightarrow> ordered cmp ds \<Longrightarrow> ordered cmp (insert_binding cmp d ds)"
proof (induction ds)
  case (Cons e es)
  then show ?case using cmp_trans [of cmp "fst d" "fst e"] cmp_flip [of cmp "fst e" "fst d"] by (auto simp: ordered_def set_insert_binding)
qed (simp add: ordered_def)

datatype rb_op = Add_node u64 ptr ptr | Search_key ptr | Remove_key ptr | Del_key ptr

text \<open>The return code, the delivered element and the new bindings; with equal keys, any of their bindings may be found.\<close>

inductive rb_spec :: "(ptr \<Rightarrow> ptr \<Rightarrow> int) \<Rightarrow> (ptr \<times> ptr) list \<Rightarrow> rb_op \<Rightarrow> int \<times> ptr option \<Rightarrow> (ptr \<times> ptr) list \<Rightarrow> bool" for cmp where
  add: "n \<noteq> 0 \<Longrightarrow> rb_spec cmp ds (Add_node n k v) (1, None) (insert_binding cmp (k, v) ds)"
| add_fail: "rb_spec cmp ds (Add_node 0 k v) (-1, None) ds"
| found: "(k', v) \<in> set ds \<Longrightarrow> cmp k k' = 0 \<Longrightarrow> rb_spec cmp ds (Search_key k) (1, Some v) ds"
| absent: "\<forall>d \<in> set ds. cmp k (fst d) \<noteq> 0 \<Longrightarrow> rb_spec cmp ds (Search_key k) (0, None) ds"
| remove: "cmp k k' = 0 \<Longrightarrow> rb_spec cmp (us @ (k', v) # vs) (Remove_key k) (1, Some v) (us @ vs)"
| remove_absent: "\<forall>d \<in> set ds. cmp k (fst d) \<noteq> 0 \<Longrightarrow> rb_spec cmp ds (Remove_key k) (0, None) ds"
| del: "cmp k k' = 0 \<Longrightarrow> rb_spec cmp (us @ (k', v) # vs) (Del_key k) (1, None) (us @ vs)"
| del_absent: "\<forall>d \<in> set ds. cmp k (fst d) \<noteq> 0 \<Longrightarrow> rb_spec cmp ds (Del_key k) (0, None) ds"

inductive_cases rb_spec_searchE: "rb_spec cmp ds (Search_key k) r ds'"
inductive_cases rb_spec_removeE: "rb_spec cmp ds (Remove_key k) r ds'"

subsection \<open>Maps in the heap\<close>

definition entry_of :: "rbtree_map \<Rightarrow> u64 \<Rightarrow> ptr \<times> ptr" where
  "entry_of m a = (the (rb_key m a), the (rb_value m a))"

definition live :: "rbtree_map \<Rightarrow> u64 set \<Rightarrow> bool" where
  "live m A \<longleftrightarrow> dom (rb_key m) = A \<and> dom (rb_value m) = A \<and> doms (rb_heap m) = (A, A, A)"

definition rbm_tree :: "(ptr \<Rightarrow> ptr \<Rightarrow> int) \<Rightarrow> rbtree_map \<Rightarrow> rbtree \<Rightarrow> bool" where
  "rbm_tree cmp m t \<longleftrightarrow> rb_rep (rb_heap m) t \<and> red_black t \<and> live m (set (inorder t)) \<and> rb_begin m = hd (inorder t @ [0]) \<and> rb_end m = 0 \<and>
     enable_same_key m \<noteq> 0 \<and> rb_cmp m = Some cmp \<and> rb_count m = of_nat (length (inorder t)) \<and> ordered cmp (map (entry_of m) (inorder t))"

definition rbm_rep :: "(ptr \<Rightarrow> ptr \<Rightarrow> int) \<Rightarrow> rbtree_map \<Rightarrow> (ptr \<times> ptr) list \<Rightarrow> bool" where
  "rbm_rep cmp m ds \<longleftrightarrow> (\<exists>t. rbm_tree cmp m t \<and> ds = map (entry_of m) (inorder t))"

lemma ordered_append: "ordered cmp (us @ vs) \<longleftrightarrow> ordered cmp us \<and> ordered cmp vs \<and> (\<forall>d \<in> set us. \<forall>e \<in> set vs. cmp (fst d) (fst e) \<le> 0)"
  by (auto simp: ordered_def sorted_wrt_append)

lemma ordered_Cons: "ordered cmp (d # vs) \<longleftrightarrow> (\<forall>e \<in> set vs. cmp (fst d) (fst e) \<le> 0) \<and> ordered cmp vs"
  by (auto simp: ordered_def)

lemma key_of: "a \<in> dom (rb_key m) \<Longrightarrow> rb_key m a = Some (fst (entry_of m a))"
  by (auto simp: entry_of_def)

lemma value_of: "a \<in> dom (rb_value m) \<Longrightarrow> rb_value m a = Some (snd (entry_of m a))"
  by (auto simp: entry_of_def)

text \<open>Below a node, keys that compare less stand left and those that compare greater stand right.\<close>

lemma tree_order:
  assumes c: "cmp_ok cmp" and o: "ordered cmp (map e (inorder (Nd c l a r)))"
  shows "cmp key (fst (e a)) < 0 \<Longrightarrow> b \<in> set (inorder r) \<Longrightarrow> cmp key (fst (e b)) < 0"
    "cmp key (fst (e a)) > 0 \<Longrightarrow> b \<in> set (inorder l) \<Longrightarrow> cmp key (fst (e b)) > 0"
    "cmp key (fst (e a)) \<le> 0 \<Longrightarrow> b \<in> set (inorder r) \<Longrightarrow> cmp key (fst (e b)) \<le> 0"
    "ordered cmp (map e (inorder l))" "ordered cmp (map e (inorder r))"
  using o cmp_neg_trans [OF c, of key "fst (e a)" "fst (e b)"] cmp_pos_trans [OF c, of key "fst (e a)" "fst (e b)"] cmp_trans [OF c, of key "fst (e a)" "fst (e b)"]
  by (auto simp: ordered_append ordered_Cons)

lemma search_node_ok:
  assumes c: "cmp_ok cmp"
  shows "tree_at (rb_heap m) p t \<Longrightarrow> set (inorder t) \<subseteq> dom (rb_key m) \<Longrightarrow> ordered cmp (map (entry_of m) (inorder t)) \<Longrightarrow>
    \<exists>a. search_node m cmp key (addr t) = Some a \<and>
      (if a = 0 then \<forall>b \<in> set (inorder t). cmp key (fst (entry_of m b)) \<noteq> 0
       else a \<in> set (inorder t) \<and> cmp key (fst (entry_of m a)) = 0)"
proof (induction t arbitrary: p)
  case Lf
  then show ?case by (subst search_node.simps) simp
next
  case (Nd d l a r)
  note o = tree_order [OF c Nd.prems(3)]
  have k: "rb_key m a = Some (fst (entry_of m a))" using Nd.prems(2) key_of by auto
  consider "cmp key (fst (entry_of m a)) < 0" | "cmp key (fst (entry_of m a)) > 0" | "cmp key (fst (entry_of m a)) = 0" by linarith
  then show ?case
  proof cases
    case 1
    then have "search_node m cmp key (addr (Nd d l a r)) = search_node m cmp key (addr l)"
      using Nd.prems(1) k by (subst search_node.simps) simp
    moreover obtain b where b: "search_node m cmp key (addr l) = Some b"
        "if b = 0 then \<forall>b \<in> set (inorder l). cmp key (fst (entry_of m b)) \<noteq> 0 else b \<in> set (inorder l) \<and> cmp key (fst (entry_of m b)) = 0"
      using Nd.IH(1) [of a] Nd.prems o(4) by auto
    ultimately show ?thesis using 1 o(1) by (intro exI [of _ b]) (force split: if_splits)
  next
    case 2
    then have "search_node m cmp key (addr (Nd d l a r)) = search_node m cmp key (addr r)"
      using Nd.prems(1) k by (subst search_node.simps) simp
    moreover obtain b where b: "search_node m cmp key (addr r) = Some b"
        "if b = 0 then \<forall>b \<in> set (inorder r). cmp key (fst (entry_of m b)) \<noteq> 0 else b \<in> set (inorder r) \<and> cmp key (fst (entry_of m b)) = 0"
      using Nd.IH(2) [of a] Nd.prems o(5) by auto
    ultimately show ?thesis using 2 o(2) by (intro exI [of _ b]) (force split: if_splits)
  next
    case 3
    then show ?thesis using Nd.prems(1) k by (intro exI [of _ a]) (subst search_node.simps, simp)
  qed
qed

lemma same_key_ok:
  assumes c: "cmp_ok cmp"
  shows "tree_at (rb_heap m) p t \<Longrightarrow> set (inorder t) \<subseteq> dom (rb_key m) \<inter> dom (rb_value m) \<Longrightarrow> ordered cmp (map (entry_of m) (inorder t)) \<Longrightarrow>
    \<exists>vs. find_same_key_node m (addr t) cmp key = Some vs \<and>
      mset vs = mset (map snd (filter (\<lambda>d. cmp key (fst d) = 0) (map (entry_of m) (inorder t))))"
proof (induction t arbitrary: p)
  case Lf
  then show ?case by (subst find_same_key_node.simps) simp
next
  case (Nd d l a r)
  let ?f = "\<lambda>t. filter (\<lambda>d. cmp key (fst d) = 0) (map (entry_of m) (inorder t))"
  note o = tree_order [OF c Nd.prems(3)]
  have k: "rb_key m a = Some (fst (entry_of m a))" "rb_value m a = Some (snd (entry_of m a))" using Nd.prems(2) key_of value_of by auto
  obtain vs ws where v: "find_same_key_node m (addr l) cmp key = Some vs" "mset vs = mset (map snd (?f l))"
      "find_same_key_node m (addr r) cmp key = Some ws" "mset ws = mset (map snd (?f r))"
    using Nd.IH(1) [of a] Nd.IH(2) [of a] Nd.prems o(4,5) by auto
  consider "cmp key (fst (entry_of m a)) < 0" | "cmp key (fst (entry_of m a)) > 0" | "cmp key (fst (entry_of m a)) = 0" by linarith
  then show ?case
  proof cases
    case 1
    then have "?f r = []" using o(1) by (force simp: filter_empty_conv)
    moreover have "find_same_key_node m (addr (Nd d l a r)) cmp key = Some vs" using Nd.prems(1) k 1 v by (subst find_same_key_node.simps) simp
    ultimately show ?thesis using 1 v by simp
  next
    case 2
    then have "?f l = []" using o(2) by (force simp: filter_empty_conv)
    moreover have "find_same_key_node m (addr (Nd d l a r)) cmp key = Some ws" using Nd.prems(1) k 2 v by (subst find_same_key_node.simps) simp
    ultimately show ?thesis using 2 v by simp
  next
    case 3
    have "find_same_key_node m (addr (Nd d l a r)) cmp key = Some (snd (entry_of m a) # vs @ ws)"
      using Nd.prems(1) k 3 v by (subst find_same_key_node.simps) simp
    then show ?thesis using 3 v by simp
  qed
qed

subsection \<open>The laws of the operations\<close>

lemma get_ctx_link: "ctx_at h v k \<Longrightarrow> get_link h (ctx_link k) = Some v"
  by (cases k rule: ctx_link.cases) auto

lemma find_place_ok:
  assumes c: "cmp_ok cmp" and same: "enable_same_key m \<noteq> 0"
  shows "tree_at (rb_heap m) (up k) t \<Longrightarrow> ctx_at (rb_heap m) (addr t) k \<Longrightarrow> set (inorder t) \<subseteq> dom (rb_key m) \<Longrightarrow>
    ordered cmp (map (entry_of m) (inorder t)) \<Longrightarrow>
    \<forall>b \<in> set (before k). cmp key (fst (entry_of m b)) > 0 \<Longrightarrow> \<forall>b \<in> set (behind k). cmp key (fst (entry_of m b)) \<le> 0 \<Longrightarrow>
    \<exists>k'. find_place m cmp key (ctx_link k) (up k) = Some (Some (ctx_link k', up k')) \<and> plug k' Lf = plug k t \<and>
      (\<forall>b \<in> set (before k'). cmp key (fst (entry_of m b)) > 0) \<and> (\<forall>b \<in> set (behind k'). cmp key (fst (entry_of m b)) \<le> 0)"
proof (induction t arbitrary: k)
  case Lf
  then show ?case using get_ctx_link by (intro exI [of _ k]) (subst find_place.simps, simp)
next
  case (Nd d l a r)
  note o = tree_order [OF c Nd.prems(4)]
  have g: "get_link (rb_heap m) (ctx_link k) = Some a" "a \<noteq> 0" using get_ctx_link Nd.prems(1,2) by auto
  have key: "rb_key m a = Some (fst (entry_of m a))" using Nd.prems(3) key_of by auto
  show ?case
  proof (cases "cmp key (fst (entry_of m a)) \<le> 0")
    case True
    have "find_place m cmp key (ctx_link k) (up k) = find_place m cmp key (ctx_link (LF d a r # k)) (up (LF d a r # k))"
      using g key True same by (subst find_place.simps) simp
    moreover have "\<forall>b \<in> set (behind (LF d a r # k)). cmp key (fst (entry_of m b)) \<le> 0" using Nd.prems(6) True o(3) [OF True] by auto
    ultimately show ?thesis using Nd.IH(1) [of "LF d a r # k"] Nd.prems o(4) by auto
  next
    case False
    have "find_place m cmp key (ctx_link k) (up k) = find_place m cmp key (ctx_link (RF d l a # k)) (up (RF d l a # k))"
      using g key False by (subst find_place.simps) simp
    moreover have "\<forall>b \<in> set (before (RF d l a # k)). cmp key (fst (entry_of m b)) > 0" using Nd.prems(5) False o(2) [of key] by auto
    ultimately show ?thesis using Nd.IH(2) [of "RF d l a # k"] Nd.prems o(5) by auto
  qed
qed

lemma insert_law:
  assumes rep: "rbm_tree cmp m t" and c: "cmp_ok cmp" and n: "n \<noteq> 0" "aligned n" "n \<notin> set (inorder t)"
  shows "\<exists>m' t'. rbtree_map_insert m n key val = Some (1, m') \<and> rbm_tree cmp m' t' \<and> set (inorder t') = insert n (set (inorder t)) \<and>
    map (entry_of m') (inorder t') = insert_binding cmp (key, val) (map (entry_of m) (inorder t))"
proof -
  note r = rep [unfolded rbm_tree_def live_def]
  define m1 where "m1 = m\<lparr>rb_key := (rb_key m)(n \<mapsto> key), rb_value := (rb_value m)(n \<mapsto> val), node_key_type := (node_key_type m)(n \<mapsto> rb_key_type m)\<rparr>"
  have e1: "entry_of m1 a = entry_of m a" if "a \<in> set (inorder t)" for a using that n(3) by (auto simp: m1_def entry_of_def)
  have me: "map (entry_of m1) (inorder t) = map (entry_of m) (inorder t)" using e1 by simp
  have h1: "rb_heap m1 = rb_heap m" "enable_same_key m1 \<noteq> 0" "rb_cmp m1 = Some cmp" "rb_key m1 n = Some key" "entry_of m1 n = (key, val)"
    using r by (simp_all add: m1_def entry_of_def)
  obtain k where k: "find_place m1 cmp key Root 0 = Some (Some (ctx_link k, up k))" "plug k Lf = t"
      "\<forall>b \<in> set (before k). cmp key (fst (entry_of m1 b)) > 0" "\<forall>b \<in> set (behind k). cmp key (fst (entry_of m1 b)) \<le> 0"
  proof -
    have "set (inorder t) \<subseteq> dom (rb_key m1)" using r by (auto simp: m1_def)
    moreover have "ordered cmp (map (entry_of m1) (inorder t))" unfolding me using r by blast
    ultimately show ?thesis using find_place_ok [OF c h1(2), of "[]" t key] r h1(1) that by (auto simp: rb_rep_def)
  qed
  have io: "inorder t = before k @ behind k" using k(2) by auto
  obtain ha h' t' where l: "rb_link_node (rb_heap m) n (up k) (ctx_link k) = Some ha" "rb_insert_color ha n = Some h'" "rb_rep h' t'"
      "inorder t' = before k @ n # behind k" "red_black t'"
      "doms h' = (insert n (dom (rb_left (rb_heap m))), insert n (dom (rb_right (rb_heap m))), insert n (dom (rb_parent_color (rb_heap m))))"
    using insert_leaf_ok [of "rb_heap m" k n] r n k(2) by metis
  define m' where "m' = m1\<lparr>rb_heap := h', rb_begin := hd (inorder t' @ [0]), rb_count := rb_count m1 + 1\<rparr>"
  have "rbtree_map_insert_node m1 n = Some (1, m1\<lparr>rb_heap := h'\<rparr>)"
    using h1 k(1) l(1,2) by (simp add: rbtree_map_insert_node_def)
  then have "rbtree_map_insert m n key val = Some (1, m')"
    using n(1) rb_first_ok [OF l(3)] by (simp add: rbtree_map_insert_def m1_def [symmetric] m'_def)
  moreover have em: "entry_of m' = entry_of m1" by (rule ext) (simp add: entry_of_def m'_def)
  have mb: "map (entry_of m') (inorder t') = insert_binding cmp (key, val) (map (entry_of m) (inorder t))"
  proof -
    have "insert_binding cmp (key, val) (map (entry_of m1) (before k) @ map (entry_of m1) (behind k)) =
        map (entry_of m1) (before k) @ (key, val) # map (entry_of m1) (behind k)"
      by (rule insert_binding_split) (use k(3,4) in auto)
    then show ?thesis using l(4) em h1(5) unfolding me [symmetric] by (simp add: io)
  qed
  moreover have "rbm_tree cmp m' t'"
    unfolding rbm_tree_def live_def mb
    using r l(3-6) io ordered_insert [OF c] by (auto simp: m'_def m1_def doms_def)
  moreover have "set (inorder t') = insert n (set (inorder t))" using l(4) io by auto
  ultimately show ?thesis by blast
qed

lemma unlink_law:
  assumes rep: "rbm_tree cmp m t" and io: "inorder t = us @ a # vs"
  obtains m1 m' t' where "rbtree_map_unlink m a = Some m1" "rb_value m1 = rb_value m" "m' = free_mnode m1 a" "rbm_tree cmp m' t'" "inorder t' = us @ vs"
    "map (entry_of m') (inorder t') = map (entry_of m) us @ map (entry_of m) vs"
proof -
  note r = rep [unfolded rbm_tree_def live_def]
  have d: "distinct (us @ a # vs)" using r io by (auto simp: rb_rep_def)
  obtain h' t' where h: "rb_erase (rb_heap m) a = Some h'" "rb_rep h' t'" "inorder t' = us @ vs" "red_black t'" "doms h' = doms (rb_heap m)"
    using rb_erase_ok [of "rb_heap m" t us a vs] r io by blast
  have nx: "rb_next (rb_heap m) a = Some (hd (vs @ [0]))" using rb_next_ok [of "rb_heap m" t us a vs] r io by blast
  define m1 where "m1 = m\<lparr>rb_begin := hd (us @ vs @ [0]), rb_heap := h', rb_count := rb_count m - 1\<rparr>"
  have "rb_begin m = a \<longleftrightarrow> us = []" using r io d by (cases us) auto
  then have un: "rbtree_map_unlink m a = Some m1"
    using h(1) nx r io by (cases us) (auto simp: rbtree_map_unlink_def rbtree_map_pos_equal_def m1_def)
  have en: "entry_of (free_mnode m1 a) b = entry_of m b" if "b \<noteq> a" for b using that by (simp add: entry_of_def free_mnode_def m1_def)
  have me: "map (entry_of (free_mnode m1 a)) (us @ vs) = map (entry_of m) us @ map (entry_of m) vs"
    using d by (auto intro!: en)
  have rp: "rb_rep (rb_heap (free_mnode m1 a)) t'"
    by (rule rep_frame [OF h(2)]) (use d h(3) in \<open>auto simp: agree_def free_mnode_def m1_def\<close>)
  have "rbm_tree cmp (free_mnode m1 a) t'"
    unfolding rbm_tree_def live_def h(3) me
    using r rp h(4,5) io d by (auto simp: free_mnode_def m1_def doms_def ordered_append ordered_Cons)
  then show ?thesis using that [of m1 "free_mnode m1 a" t'] un me h(3) by (simp add: m1_def)
qed

lemma rb_lookup_law:
  assumes rep: "rbm_tree cmp m t" and c: "cmp_ok cmp"
  obtains (absent) "rbtree_map_search m key = Some (0, None)" "\<forall>d \<in> set (map (entry_of m) (inorder t)). cmp key (fst d) \<noteq> 0"
    | (present) us a vs where "rbtree_map_search m key = Some (1, Some a)" "inorder t = us @ a # vs" "cmp key (fst (entry_of m a)) = 0" "a \<noteq> 0"
        "rb_value m a = Some (snd (entry_of m a))"
proof -
  note r = rep [unfolded rbm_tree_def live_def]
  obtain a where a: "search_node m cmp key (addr t) = Some a"
      "if a = 0 then \<forall>b \<in> set (inorder t). cmp key (fst (entry_of m b)) \<noteq> 0 else a \<in> set (inorder t) \<and> cmp key (fst (entry_of m a)) = 0"
    using search_node_ok [OF c, of m 0 t key] r by (auto simp: rb_rep_def)
  have s: "rbtree_map_search m key = Some (if a = 0 then (0, None) else (1, Some a))"
    using a(1) r by (simp add: rbtree_map_search_def rbtree_map_search_node_def rb_rep_def)
  show ?thesis
  proof (cases "a = 0")
    case True
    then show ?thesis using absent s a(2) by auto
  next
    case False
    then obtain us vs where "inorder t = us @ a # vs" using a(2) by (meson split_list)
    moreover have "rb_value m a = Some (snd (entry_of m a))" using value_of [of a m] a(2) r False by auto
    ultimately show ?thesis using present [of a us vs] s a(2) False by auto
  qed
qed

subsection \<open>Traversal and the end of a map\<close>

lemma rb_each_ok:
  assumes rep: "rbm_tree cmp m t"
  shows "inorder t = us @ vs \<Longrightarrow> rb_each m (hd (vs @ [0])) = Some (map (entry_of m) vs)"
proof (induction vs arbitrary: us)
  case Nil
  then show ?case using rep by (subst rb_each.simps) (simp add: rbtree_map_pos_equal_def rbtree_map_end_def rbm_tree_def)
next
  case (Cons a vs)
  note r = rep [unfolded rbm_tree_def live_def]
  have a: "a \<noteq> 0" "rb_key m a = Some (fst (entry_of m a))" "rb_value m a = Some (snd (entry_of m a))"
    using r Cons.prems tree_nonnull [of "rb_heap m" 0 t] key_of [of a m] value_of [of a m] by (auto simp: rb_rep_def)
  have nx: "rb_next (rb_heap m) a = Some (hd (vs @ [0]))" using rb_next_ok [of "rb_heap m" t us a vs] r Cons.prems by blast
  have "rb_each m (hd (vs @ [0])) = Some (map (entry_of m) vs)" using Cons.IH [of "us @ [a]"] Cons.prems by simp
  then show ?case using r a nx
    by (subst rb_each.simps) (simp add: rbtree_map_pos_equal_def rbtree_map_end_def rbtree_map_pos_get_kpointer_def
        rbtree_map_pos_get_pointer_def RBTree_Iterator_next_def rbtree_map_pos_next_def)
qed

lemma rb_begin_end: "rbm_tree cmp m t \<Longrightarrow> rb_begin m = rb_end m \<longleftrightarrow> inorder t = []"
  using tree_nonnull [of "rb_heap m" 0 t] by (cases "inorder t") (auto simp: rbm_tree_def rb_rep_def)

lemma delete_all_ok: "rbm_tree cmp m t \<Longrightarrow> \<exists>m' t'. delete_all m = Some m' \<and> rbm_tree cmp m' t' \<and> inorder t' = []"
proof (induction "length (inorder t)" arbitrary: m t rule: less_induct)
  case less
  note stop = rb_begin_end [OF less.prems]
  show ?case
  proof (cases "inorder t")
    case Nil
    then show ?thesis using less.prems stop
      by (subst delete_all.simps) (auto simp: rbtree_map_pos_equal_def rbtree_map_begin_def rbtree_map_end_def)
  next
    case (Cons a vs)
    then have "inorder t = [] @ a # vs" by simp
    then obtain m1 m2 t2 where u: "rbtree_map_unlink m a = Some m1" "m2 = free_mnode m1 a" "rbm_tree cmp m2 t2" "inorder t2 = [] @ vs"
      using unlink_law [OF less.prems] by metis
    have b: "rb_begin m = a" using less.prems Cons by (simp add: rbm_tree_def)
    have "delete_all m = delete_all m2" using stop Cons u(1,2) b
      by (subst delete_all.simps) (simp add: rbtree_map_pos_equal_def rbtree_map_begin_def rbtree_map_end_def rbtree_map_delete_def)
    then show ?thesis using less.hyps [OF _ u(3)] u(4) Cons by simp
  qed
qed

subsection \<open>Ordered maps as a service\<close>

fun rb_op_node :: "rb_op \<Rightarrow> u64 option" where
  "rb_op_node (Add_node n k v) = (if n = 0 then None else Some n)"
| "rb_op_node q = None"

fun rb_run :: "('s \<Rightarrow> rb_op \<Rightarrow> ((int \<times> ptr option) \<times> 's) option) \<Rightarrow> 's \<Rightarrow> rb_op list \<Rightarrow> ((int \<times> ptr option) list \<times> 's) option" where
  "rb_run step s [] = Some ([], s)"
| "rb_run step s (q # qs) = do { (r, s1) \<leftarrow> step s q; (rs, s2) \<leftarrow> rb_run step s1 qs; Some (r # rs, s2) }"

text \<open>The results and the final bindings that a sequence of operations may have.\<close>

inductive rb_history :: "(ptr \<Rightarrow> ptr \<Rightarrow> int) \<Rightarrow> (ptr \<times> ptr) list \<Rightarrow> rb_op list \<Rightarrow> (int \<times> ptr option) list \<Rightarrow> (ptr \<times> ptr) list \<Rightarrow> bool" for cmp where
  stay: "rb_history cmp ds [] [] ds"
| step: "rb_spec cmp ds q r ds1 \<Longrightarrow> rb_history cmp ds1 qs rs ds2 \<Longrightarrow> rb_history cmp ds (q # qs) (r # rs) ds2"

inductive_simps rb_history_Nil: "rb_history cmp ds [] rs ds'"
inductive_simps rb_history_Cons: "rb_history cmp ds (q # qs) rs ds'"

locale ordered_map =
  fixes step :: "'s \<Rightarrow> rb_op \<Rightarrow> ((int \<times> ptr option) \<times> 's) option" and rep :: "'s \<Rightarrow> (ptr \<times> ptr) list \<Rightarrow> bool"
    and used :: "'s \<Rightarrow> u64 set" and cmp :: "ptr \<Rightarrow> ptr \<Rightarrow> int"
  assumes step_law: "rep s ds \<Longrightarrow> (\<And>n. rb_op_node q = Some n \<Longrightarrow> aligned n \<and> n \<notin> used s) \<Longrightarrow>
    \<exists>s' r ds'. step s q = Some (r, s') \<and> rb_spec cmp ds q r ds' \<and> rep s' ds' \<and> used s' \<subseteq> used s \<union> set_option (rb_op_node q)"
    and used_law: "rep s ds \<Longrightarrow> finite (used s) \<and> card (used s) = length ds"
    and rep_order: "rep s ds \<Longrightarrow> cmp_ok cmp"
begin

lemma run_law:
  "rep s ds \<Longrightarrow> granted_run rb_op_node aligned used step s qs \<Longrightarrow>
   \<exists>s' rs ds'. rb_run step s qs = Some (rs, s') \<and> rb_history cmp ds qs rs ds' \<and> rep s' ds'"
proof (induction qs arbitrary: s ds)
  case (Cons q qs)
  obtain s1 r ds1 where s1: "step s q = Some (r, s1)" "rb_spec cmp ds q r ds1" "rep s1 ds1"
    using step_law [OF Cons.prems(1) granted_now [OF Cons.prems(2)]] by blast
  obtain s' rs ds' where "rb_run step s1 qs = Some (rs, s')" "rb_history cmp ds1 qs rs ds'" "rep s' ds'"
    using Cons.IH [OF s1(3) granted_next [OF Cons.prems(2) s1(1)]] by blast
  then show ?case using s1(1,2) by (auto intro: rb_history.step)
qed (auto intro: rb_history.stay)

text \<open>One more address: the rest of the run starts in a state that represents what the specification allows.\<close>

lemma granted_step:
  assumes "rep s ds" "\<And>n. rb_op_node q = Some n \<Longrightarrow> aligned n \<and> n \<notin> used s"
    "\<And>s' r ds'. rb_spec cmp ds q r ds' \<Longrightarrow> rep s' ds' \<Longrightarrow> used s' \<subseteq> used s \<union> set_option (rb_op_node q) \<Longrightarrow>
       granted_run rb_op_node aligned used step s' qs"
  shows "granted_run rb_op_node aligned used step s (q # qs)"
proof (rule granted_Cons)
  fix r s' assume s: "step s q = Some (r, s')"
  obtain s1 r1 ds1 where "step s q = Some (r1, s1)" "rb_spec cmp ds q r1 ds1" "rep s1 ds1" "used s1 \<subseteq> used s \<union> set_option (rb_op_node q)"
    using step_law [OF assms(1,2)] by blast
  then show "granted_run rb_op_node aligned used step s' qs" using s assms(3) by auto
qed (rule assms(2))

lemma empty_used: "rep s [] \<Longrightarrow> used s = {}"
  using used_law [of s "[]"] by simp

text \<open>A binding with a new key is found under that key.\<close>

lemma read_back:
  assumes rep: "rep s ds" and n: "n \<noteq> 0" "aligned n" "n \<notin> used s" and new: "\<forall>d \<in> set ds. cmp k (fst d) \<noteq> 0" and eq: "cmp k' k = 0"
  shows "\<exists>s'. rb_run step s [Add_node n k v, Search_key k'] = Some ([(1, None), (1, Some v)], s')"
proof -
  have c: "cmp_ok cmp" by (rule rep_order [OF rep])
  have g: "granted_run rb_op_node aligned used step s [Add_node n k v, Search_key k']"
    using n by (intro granted_Cons) auto
  obtain s' rs ds' where r: "rb_run step s [Add_node n k v, Search_key k'] = Some (rs, s')" "rb_history cmp ds [Add_node n k v, Search_key k'] rs ds'"
    using run_law [OF rep g] by blast
  have ins: "set (insert_binding cmp (k, v) ds) = insert (k, v) (set ds)" by (rule set_insert_binding)
  have "cmp k' (fst d) \<noteq> 0" if "d \<in> set ds" for d using cmp_equal [OF c eq] new that by auto
  then have "rs = [(1, None), (1, Some v)]"
    using r(2) n(1) ins eq by (force simp: rb_history_Cons rb_history_Nil elim!: rb_spec.cases)
  then show ?thesis using r(1) by blast
qed

end

fun RBTree_Map_step :: "rbtree_map \<Rightarrow> rb_op \<Rightarrow> ((int \<times> ptr option) \<times> rbtree_map) option" where
  "RBTree_Map_step m (Add_node n k v) = do { (r, m') \<leftarrow> RBTree_Map_add m n k v; Some ((r, None), m') }"
| "RBTree_Map_step m (Search_key k) = do { (r, e) \<leftarrow> RBTree_Map_search m k; Some ((r, e), m) }"
| "RBTree_Map_step m (Remove_key k) = do { (r, e, m') \<leftarrow> RBTree_Map_remove m k; Some ((r, e), m') }"
| "RBTree_Map_step m (Del_key k) = do { (r, m') \<leftarrow> RBTree_Map_del m k; Some ((r, None), m') }"

lemma rb_live: "rbm_tree cmp m t \<Longrightarrow> dom (rb_key m) = set (inorder t)"
  by (simp add: rbm_tree_def live_def)

lemma rbm_repI: "rbm_tree cmp m t \<Longrightarrow> rbm_rep cmp m (map (entry_of m) (inorder t))"
  by (auto simp: rbm_rep_def)

lemma remove_law:
  assumes t: "rbm_tree cmp m t" and io: "inorder t = us @ a # vs"
  shows "\<exists>m'. rbtree_map_remove m a = Some (1, snd (entry_of m a), m') \<and> rbtree_map_delete m a = Some (1, m') \<and>
    rbm_rep cmp m' (map (entry_of m) us @ map (entry_of m) vs) \<and> dom (rb_key m') \<subseteq> dom (rb_key m)"
proof -
  obtain m1 m' t' where u: "rbtree_map_unlink m a = Some m1" "rb_value m1 = rb_value m" "m' = free_mnode m1 a" "rbm_tree cmp m' t'" "inorder t' = us @ vs"
      "map (entry_of m') (inorder t') = map (entry_of m) us @ map (entry_of m) vs" by (rule unlink_law [OF t io])
  have "rb_value m a = Some (snd (entry_of m a))" using value_of [of a m] t io by (simp add: rbm_tree_def live_def)
  moreover have "rbm_rep cmp m' (map (entry_of m) us @ map (entry_of m) vs)" using rbm_repI [OF u(4)] by (simp only: u(6))
  ultimately show ?thesis using u(1,2,3) rb_live [OF u(4)] rb_live [OF t] io u(5)
    by (auto simp: rbtree_map_remove_def rbtree_map_delete_def)
qed

lemma RBTree_Map_step_law:
  assumes c: "cmp_ok cmp" and rep: "rbm_rep cmp m ds" and fresh: "\<And>n. rb_op_node q = Some n \<Longrightarrow> aligned n \<and> n \<notin> dom (rb_key m)"
  shows "\<exists>m' r ds'. RBTree_Map_step m q = Some (r, m') \<and> rb_spec cmp ds q r ds' \<and> rbm_rep cmp m' ds' \<and> dom (rb_key m') \<subseteq> dom (rb_key m) \<union> set_option (rb_op_node q)"
proof -
  obtain t where t: "rbm_tree cmp m t" and ds: "ds = map (entry_of m) (inorder t)" using rep by (auto simp: rbm_rep_def)
  show ?thesis
  proof (cases q)
    case (Add_node n k v)
    show ?thesis
    proof (cases "n = 0")
      case True
      then show ?thesis using Add_node rep rb_spec.add_fail [of cmp ds k v]
        by (auto simp: RBTree_Map_add_def rbtree_map_insert_def)
    next
      case False
      then obtain m' t' where i: "rbtree_map_insert m n k v = Some (1, m')" "rbm_tree cmp m' t'" "set (inorder t') = insert n (set (inorder t))"
          "map (entry_of m') (inorder t') = insert_binding cmp (k, v) (map (entry_of m) (inorder t))"
        using insert_law [OF t c, of n k v] fresh [of n] Add_node rb_live [OF t] by auto
      then show ?thesis using Add_node False rbm_repI [OF i(2)] rb_live [OF i(2)] rb_live [OF t] ds rb_spec.add [OF False, of cmp ds k v]
        by (auto simp: RBTree_Map_add_def)
    qed
  next
    case (Search_key k)
    show ?thesis
      by (rule rb_lookup_law [OF t c, of k]; use Search_key rep ds rb_spec.absent [of ds cmp k] rb_spec.found [of _ _ ds cmp k] in
          \<open>force simp: RBTree_Map_search_def rbtree_map_pos_get_pointer_def\<close>)
  next
    case (Remove_key k)
    show ?thesis
    proof (rule rb_lookup_law [OF t c, of k], goal_cases absent present)
      case absent
      then show ?thesis using Remove_key rep ds rb_spec.remove_absent [of ds cmp k] by (auto simp: RBTree_Map_remove_def)
    next
      case (present us a vs)
      show ?thesis using remove_law [OF t present(2)] Remove_key present ds
        rb_spec.remove [of cmp k "fst (entry_of m a)" "map (entry_of m) us" "snd (entry_of m a)" "map (entry_of m) vs"]
        by (auto simp: RBTree_Map_remove_def)
    qed
  next
    case (Del_key k)
    show ?thesis
    proof (rule rb_lookup_law [OF t c, of k], goal_cases absent present)
      case absent
      then show ?thesis using Del_key rep ds rb_spec.del_absent [of ds cmp k] by (auto simp: RBTree_Map_del_def)
    next
      case (present us a vs)
      show ?thesis using remove_law [OF t present(2)] Del_key present ds
        rb_spec.del [of cmp k "fst (entry_of m a)" "map (entry_of m) us" "snd (entry_of m a)" "map (entry_of m) vs"]
        by (auto simp: RBTree_Map_del_def)
    qed
  qed
qed

definition rbm_bindings :: "(ptr \<Rightarrow> ptr \<Rightarrow> int) \<Rightarrow> rbtree_map \<Rightarrow> (ptr \<times> ptr) list \<Rightarrow> bool" where
  "rbm_bindings cmp m ds \<longleftrightarrow> cmp_ok cmp \<and> rbm_rep cmp m ds"

lemma bindings_step:
  assumes "rbm_bindings cmp m ds" "\<And>n. rb_op_node q = Some n \<Longrightarrow> aligned n \<and> n \<notin> dom (rb_key m)"
  shows "\<exists>m' r ds'. RBTree_Map_step m q = Some (r, m') \<and> rb_spec cmp ds q r ds' \<and> rbm_bindings cmp m' ds' \<and> dom (rb_key m') \<subseteq> dom (rb_key m) \<union> set_option (rb_op_node q)"
  using RBTree_Map_step_law [of cmp m ds q] assms unfolding rbm_bindings_def by blast

text \<open>The nodes in use are as many as the bindings.\<close>

lemma bindings_nodes: "rbm_bindings cmp m ds \<Longrightarrow> finite (dom (rb_key m)) \<and> card (dom (rb_key m)) = length ds"
proof -
  assume "rbm_bindings cmp m ds"
  then obtain t where t: "rbm_tree cmp m t" "ds = map (entry_of m) (inorder t)" by (auto simp: rbm_bindings_def rbm_rep_def)
  then have "distinct (inorder t)" by (simp add: rbm_tree_def rb_rep_def)
  then show ?thesis using rb_live [OF t(1)] t(2) by (simp add: distinct_card)
qed

interpretation rbmap: ordered_map RBTree_Map_step "rbm_bindings cmp" "\<lambda>m. dom (rb_key m)" cmp for cmp
  by unfold_locales (rule bindings_step, assumption+, rule bindings_nodes, assumption, simp add: rbm_bindings_def)

lemma RBTree_Map_construct_bindings: "rbm_bindings rb_default_key_cmp_func (snd RBTree_Map_construct) []"
  by (auto simp: rbm_bindings_def rbm_rep_def rbm_tree_def live_def doms_def rb_rep_def red_black_def ordered_def cmp_default
      RBTree_Map_construct_def rbtree_map_init_def rbtree_map_alloc_def intro!: exI [of _ Lf])

lemma set_cmp_func_bindings:
  assumes "rbm_bindings cmp m []" "cmp_ok f"
  shows "\<exists>m'. RBTree_Map_set_cmp_func m (Some f) = Some (1, m') \<and> rbm_bindings f m' []"
  using assms
  by (auto simp: rbm_bindings_def rbm_rep_def rbm_tree_def live_def ordered_def RBTree_Map_set_cmp_func_def rbtree_map_set_def)

lemma for_each_law: "rbm_rep cmp m ds \<Longrightarrow> RBTree_Map_for_each m = Some ds \<and> ordered cmp ds"
  using rb_each_ok [of cmp m _ "[]"] by (auto simp: rbm_rep_def RBTree_Map_for_each_def rbtree_map_begin_def rbm_tree_def)

lemma count_law: "rbm_rep cmp m ds \<Longrightarrow> length ds < 2 ^ 31 \<Longrightarrow> RBTree_Map_count m = int (length ds)"
  by (auto simp: rbm_rep_def rbm_tree_def RBTree_Map_count_def rbtree_map_count_def signed_of_nat signed_take_bit_int_eq_self)

lemma contain_key_law:
  assumes "rbm_bindings cmp m ds"
  shows "RBTree_Map_contain_key m k = Some (if \<exists>d \<in> set ds. cmp k (fst d) = 0 then 1 else 0)"
proof -
  obtain t where t: "rbm_tree cmp m t" and ds: "ds = map (entry_of m) (inorder t)" and c: "cmp_ok cmp"
    using assms by (auto simp: rbm_bindings_def rbm_rep_def)
  show ?thesis by (rule rb_lookup_law [OF t c, of k]) (use ds in \<open>auto simp: RBTree_Map_contain_key_def\<close>)
qed

text \<open>The removal of the key of the first binding takes out one of the bindings with that key.\<close>

lemma first_key_removed:
  assumes "rbm_bindings cmp m ds" "ds \<noteq> []"
  obtains key us k' v vs m1 where "rbtree_map_pos_get_kpointer m (rbtree_map_begin m) = Some key" "RBTree_Map_remove m key = Some (1, Some v, m1)"
    "ds = us @ (k', v) # vs" "rbm_bindings cmp m1 (us @ vs)"
proof -
  obtain t where t: "rbm_tree cmp m t" and ds: "ds = map (entry_of m) (inorder t)" and c: "cmp_ok cmp"
    using assms(1) by (auto simp: rbm_bindings_def rbm_rep_def)
  obtain a xs where a: "inorder t = a # xs" using assms(2) ds by (cases "inorder t") auto
  have b: "rb_begin m = a" "a \<noteq> 0" "rb_key m a = Some (fst (entry_of m a))"
    using t a tree_nonnull [of "rb_heap m" 0 t] key_of [of a m] by (auto simp: rbm_tree_def rb_rep_def live_def)
  let ?k = "fst (entry_of m a)"
  obtain m1 r ds' where s: "RBTree_Map_step m (Remove_key ?k) = Some (r, m1)" "rb_spec cmp ds (Remove_key ?k) r ds'" "rbm_rep cmp m1 ds'"
    using RBTree_Map_step_law [OF c, of m ds "Remove_key ?k"] assms(1) by (auto simp: rbm_bindings_def)
  have "\<not> (\<forall>d \<in> set ds. cmp ?k (fst d) \<noteq> 0)" using ds a cmp_refl [OF c] by auto
  then obtain us k' v vs where d: "r = (1, Some v)" "ds = us @ (k', v) # vs" "ds' = us @ vs" using s(2) by (auto elim: rb_spec_removeE)
  show ?thesis
    by (rule that [of ?k v m1 us k' vs])
      (use b s d c in \<open>auto simp: rbtree_map_pos_get_kpointer_def rbtree_map_begin_def rbm_bindings_def split: bind_splits\<close>)
qed

lemma RBTree_Map_reset_ok:
  assumes rel: "\<And>e. release_element cfg e \<noteq> None"
  shows "rbm_bindings cmp m ds \<Longrightarrow> \<exists>vs m'. RBTree_Map_reset cfg m el = Some (1, concat (map (\<lambda>e. the (release_element cfg e)) vs), m') \<and>
    mset vs = mset (map snd ds) \<and> rbm_bindings cmp m' []"
proof (induction "length ds" arbitrary: m ds el rule: less_induct)
  case less
  have stop: "rbtree_map_pos_equal (rbtree_map_end m) (rbtree_map_begin m) \<longleftrightarrow> ds = []"
    using less.prems rb_begin_end [of cmp m] by (force simp: rbm_bindings_def rbm_rep_def rbtree_map_pos_equal_def rbtree_map_end_def rbtree_map_begin_def)
  show ?case
  proof (cases "ds = []")
    case True
    then show ?thesis using stop less.prems by (subst RBTree_Map_reset.simps) simp
  next
    case False
    obtain key us k' v vs m1 where r: "rbtree_map_pos_get_kpointer m (rbtree_map_begin m) = Some key" "RBTree_Map_remove m key = Some (1, Some v, m1)"
        "ds = us @ (k', v) # vs" "rbm_bindings cmp m1 (us @ vs)" by (rule first_key_removed [OF less.prems False])
    let ?el = "Some (if keeps_element cfg v then v else 0)"
    obtain ws m' where w: "RBTree_Map_reset cfg m1 ?el = Some (1, concat (map (\<lambda>e. the (release_element cfg e)) ws), m')"
        "mset ws = mset (map snd (us @ vs))" "rbm_bindings cmp m' []"
      using less.hyps [OF _ r(4), of ?el] r(3) by auto
    obtain rl where rl: "release_element cfg v = Some rl" using rel by blast
    have "RBTree_Map_reset cfg m el = Some (1, concat (map (\<lambda>e. the (release_element cfg e)) (v # ws)), m')"
      using stop False r(1,2) w(1) rl by (subst RBTree_Map_reset.simps) simp
    then show ?thesis using w(2,3) r(3) by (intro exI [of _ "v # ws"]) simp
  qed
qed

subsection \<open>Well-formed links and short paths\<close>

text \<open>The children and the parent of every live node are null or live nodes, and a child names its parent.\<close>

definition links_ok :: "rbheap \<Rightarrow> bool" where
  "links_ok h \<longleftrightarrow> (\<forall>a \<in> dom (rb_parent_color h). \<exists>l r p. rb_left h a = Some l \<and> rb_right h a = Some r \<and> rb_parent h a = Some p \<and>
     (l \<noteq> 0 \<longrightarrow> rb_parent h l = Some a) \<and> (r \<noteq> 0 \<longrightarrow> rb_parent h r = Some a) \<and>
     (if p = 0 then rb_root h = a else rb_left h p = Some a \<or> rb_right h p = Some a))"

lemma links_of_rep:
  assumes rep: "rb_rep h t" and dom: "dom (rb_parent_color h) = set (inorder t)"
  shows "links_ok h"
  unfolding links_ok_def
proof
  fix a assume "a \<in> dom (rb_parent_color h)"
  then obtain k c l r where t: "t = plug k (Nd c l a r)" using plug_member dom by blast
  note rp = rep [unfolded t]
  have l: "addr l \<noteq> 0 \<longrightarrow> rb_parent h (addr l) = Some a" using rb_read(4) [of h "LF c a r # k"] rp by (cases l) auto
  have r: "addr r \<noteq> 0 \<longrightarrow> rb_parent h (addr r) = Some a" using rb_read(4) [of h "RF c l a # k"] rp by (cases r) auto
  have "ctx_at h a k" using rp by (simp add: rb_rep_plug)
  then have u: "if up k = 0 then rb_root h = a else rb_left h (up k) = Some a \<or> rb_right h (up k) = Some a" by (cases k rule: up.cases) auto
  show "\<exists>l r p. rb_left h a = Some l \<and> rb_right h a = Some r \<and> rb_parent h a = Some p \<and> (l \<noteq> 0 \<longrightarrow> rb_parent h l = Some a) \<and>
      (r \<noteq> 0 \<longrightarrow> rb_parent h r = Some a) \<and> (if p = 0 then rb_root h = a else rb_left h p = Some a \<or> rb_right h p = Some a)"
    by (rule exI [of _ "addr l"], rule exI [of _ "addr r"], rule exI [of _ "up k"]) (use rb_read(2,3,4) [OF rp] l r u in blast)
qed

text \<open>The loop of the search, cut off after \<open>n\<close> rounds.\<close>

fun search_within :: "nat \<Rightarrow> rbtree_map \<Rightarrow> (ptr \<Rightarrow> ptr \<Rightarrow> int) \<Rightarrow> ptr \<Rightarrow> u64 \<Rightarrow> u64 option" where
  "search_within n m cmp key node =
     (if node = 0 then Some 0
      else case n of 0 \<Rightarrow> None
        | Suc n' \<Rightarrow> do { k \<leftarrow> rb_key m node;
                if cmp key k < 0 then do { l \<leftarrow> rb_left (rb_heap m) node; search_within n' m cmp key l }
                else if cmp key k > 0 then do { r \<leftarrow> rb_right (rb_heap m) node; search_within n' m cmp key r }
                else Some node })"

declare search_within.simps [simp del]

lemma search_within_height:
  "tree_at (rb_heap m) p t \<Longrightarrow> height t \<le> n \<Longrightarrow> search_within n m cmp key (addr t) = search_node m cmp key (addr t)"
proof (induction t arbitrary: n p)
  case Lf
  then show ?case by (subst search_within.simps, subst search_node.simps) simp
next
  case (Nd c l a r)
  then obtain n' where n: "n = Suc n'" "height l \<le> n'" "height r \<le> n'" by (cases n) auto
  then show ?case using Nd.prems(1) Nd.IH(1) [of a n'] Nd.IH(2) [of a n']
    by (cases "rb_key m a") (subst search_within.simps, subst search_node.simps, simp)+
qed

subsection \<open>Properties\<close>

text \<open>C9.
  For every sequence of additions, searches, removals and deletions on a map whose comparison function orders the keys, when each new
  node gets an aligned address that is not in use at that moment (a freed one may come back) or is refused: every access is to a live
  node, every loop ends, the return codes and the delivered elements are those of a list of bindings that is sorted by key, where a new
  binding comes before the bindings with an equal key and a search or removal takes one of those with an equal key; afterwards the
  traversal delivers that sorted list, the allocated nodes are as many as its bindings, and the count is its length while that stays
  below \<open>2 ^ 31\<close>.\<close>

theorem rbtree_map_history:
  assumes "rbm_bindings cmp m ds" "granted_run rb_op_node aligned (\<lambda>m. dom (rb_key m)) RBTree_Map_step m qs"
  shows "\<exists>m' rs ds'. rb_run RBTree_Map_step m qs = Some (rs, m') \<and> rb_history cmp ds qs rs ds' \<and>
    RBTree_Map_for_each m' = Some ds' \<and> ordered cmp ds' \<and> card (dom (rb_key m')) = length ds' \<and>
    (length ds' < 2 ^ 31 \<longrightarrow> RBTree_Map_count m' = int (length ds'))"
proof -
  obtain m' rs ds' where r: "rb_run RBTree_Map_step m qs = Some (rs, m')" "rb_history cmp ds qs rs ds'" "rbm_bindings cmp m' ds'"
    using rbmap.run_law [OF assms] by blast
  then show ?thesis using for_each_law [of cmp m' ds'] count_law [of cmp m' ds'] bindings_nodes [OF r(3)] by (auto simp: rbm_bindings_def)
qed

lemma sample_nodes: "aligned 8" "aligned 16" "dom (rb_key (snd RBTree_Map_construct)) = {}"
  by (simp_all add: aligned_def RBTree_Map_construct_def rbtree_map_init_def rbtree_map_alloc_def)

text \<open>A map with two equal keys.\<close>

lemma sample_map:
  "\<exists>m'. rb_run RBTree_Map_step (snd RBTree_Map_construct) [Add_node 8 5 50, Add_node 16 5 60] = Some ([(1, None), (1, None)], m') \<and>
     rbm_bindings rb_default_key_cmp_func m' [(5, 60), (5, 50)]"
proof -
  let ?qs = "[Add_node 8 5 50, Add_node 16 5 60]"
  have "granted_run rb_op_node aligned (\<lambda>m. dom (rb_key m)) RBTree_Map_step (snd RBTree_Map_construct) ?qs"
    by (rule rbmap.granted_step [OF RBTree_Map_construct_bindings], simp add: sample_nodes,
        rule rbmap.granted_step, assumption, force simp: sample_nodes, simp)
  then obtain m' rs ds' where r: "rb_run RBTree_Map_step (snd RBTree_Map_construct) ?qs = Some (rs, m')" "rb_history rb_default_key_cmp_func [] ?qs rs ds'"
      "rbm_bindings rb_default_key_cmp_func m' ds'"
    using rbmap.run_law [OF RBTree_Map_construct_bindings, of ?qs] by blast
  have "rs = [(1, None), (1, None)] \<and> ds' = [(5, 60), (5, 50)]"
    using r(2) by (auto simp: rb_history_Cons rb_history_Nil rb_default_key_cmp_func_def elim!: rb_spec.cases)
  then show ?thesis using r by blast
qed

text \<open>A sequence that hands the same address out again after the removal of its node.\<close>

lemma sample_reuse:
  "granted_run rb_op_node aligned (\<lambda>m. dom (rb_key m)) RBTree_Map_step (snd RBTree_Map_construct)
     [Add_node 8 5 50, Remove_key 5, Add_node 8 3 30, Add_node 0 4 40, Search_key 3]"
proof (rule rbmap.granted_step [OF RBTree_Map_construct_bindings])
  fix m1 r1 ds1
  assume 1: "rb_spec rb_default_key_cmp_func [] (Add_node 8 5 50) r1 ds1" "rbm_bindings rb_default_key_cmp_func m1 ds1"
  then have "ds1 = [(5, 50)]" by (auto elim!: rb_spec.cases)
  with 1(2) show "granted_run rb_op_node aligned (\<lambda>m. dom (rb_key m)) RBTree_Map_step m1
      [Remove_key 5, Add_node 8 3 30, Add_node 0 4 40, Search_key 3]"
  proof (intro rbmap.granted_step [of rb_default_key_cmp_func m1 "[(5, 50)]"])
    fix m2 r2 ds2
    assume 2: "rb_spec rb_default_key_cmp_func [(5, 50)] (Remove_key 5) r2 ds2" "rbm_bindings rb_default_key_cmp_func m2 ds2"
    then have "ds2 = []" by (auto simp: rb_default_key_cmp_func_def Cons_eq_append_conv elim!: rb_spec.cases)
    then have "dom (rb_key m2) = {}" using rbmap.empty_used 2(2) by blast
    then show "granted_run rb_op_node aligned (\<lambda>m. dom (rb_key m)) RBTree_Map_step m2 [Add_node 8 3 30, Add_node 0 4 40, Search_key 3]"
      by (intro granted_Cons) (simp_all add: sample_nodes)
  qed simp_all
qed (simp_all add: sample_nodes)

theorem rbtree_map_history_witness:
  "\<exists>m' rs ds'. rb_run RBTree_Map_step (snd RBTree_Map_construct) [Add_node 8 5 50, Remove_key 5, Add_node 8 3 30, Add_node 0 4 40, Search_key 3] = Some (rs, m') \<and>
     rb_history rb_default_key_cmp_func [] [Add_node 8 5 50, Remove_key 5, Add_node 8 3 30, Add_node 0 4 40, Search_key 3] rs ds' \<and>
     RBTree_Map_for_each m' = Some ds' \<and> ordered rb_default_key_cmp_func ds' \<and> card (dom (rb_key m')) = length ds' \<and>
     (length ds' < 2 ^ 31 \<longrightarrow> RBTree_Map_count m' = int (length ds'))"
  by (rule rbtree_map_history [OF RBTree_Map_construct_bindings sample_reuse])

text \<open>C10.
  After every such sequence of operations, with additions on addresses that were freed before, the links of the tree are well formed:
  the children and the parent of each live node are null or live nodes, a child names its parent in its packed word, and the node
  without a parent is the root.\<close>

theorem rbtree_map_links:
  assumes "rbm_bindings cmp m ds" "granted_run rb_op_node aligned (\<lambda>m. dom (rb_key m)) RBTree_Map_step m qs"
  shows "\<exists>m' rs. rb_run RBTree_Map_step m qs = Some (rs, m') \<and> links_ok (rb_heap m')"
proof -
  obtain m' rs ds' where r: "rb_run RBTree_Map_step m qs = Some (rs, m')" "rbm_bindings cmp m' ds'"
    using rbmap.run_law [OF assms] by blast
  then obtain t where "rbm_tree cmp m' t" by (auto simp: rbm_bindings_def rbm_rep_def)
  then have "links_ok (rb_heap m')" by (intro links_of_rep [of _ t]) (auto simp: rbm_tree_def live_def doms_def)
  then show ?thesis using r(1) by blast
qed

theorem rbtree_map_links_witness:
  "\<exists>m' rs. rb_run RBTree_Map_step (snd RBTree_Map_construct) [Add_node 8 5 50, Remove_key 5, Add_node 8 3 30, Add_node 0 4 40, Search_key 3] = Some (rs, m') \<and>
     links_ok (rb_heap m')"
  by (rule rbtree_map_links [OF RBTree_Map_construct_bindings sample_reuse])

text \<open>A key that compares different from all keys of the map is found right after it was added, under every key that compares equal, with
  the value that was added.\<close>

theorem rbtree_map_read_back:
  assumes "rbm_bindings cmp m ds" "n \<noteq> 0" "aligned n" "n \<notin> dom (rb_key m)" "\<forall>d \<in> set ds. cmp k (fst d) \<noteq> 0" "cmp k' k = 0"
  shows "\<exists>m'. rb_run RBTree_Map_step m [Add_node n k v, Search_key k'] = Some ([(1, None), (1, Some v)], m')"
  by (rule rbmap.read_back [OF assms])

theorem rbtree_map_read_back_witness:
  "\<exists>m'. rb_run RBTree_Map_step (snd RBTree_Map_construct) [Add_node 8 5 50, Search_key 5] = Some ([(1, None), (1, Some 50)], m')"
  by (rule rbtree_map_read_back [OF RBTree_Map_construct_bindings]) (simp_all add: sample_nodes rb_default_key_cmp_func_def)

text \<open>C11.
  A search in a map of \<open>n\<close> bindings ends after at most \<open>2 * log 2 (n + 1) + 1\<close> rounds of its loop.\<close>

theorem rbtree_search_rounds:
  assumes "rbm_bindings cmp m ds"
  shows "\<exists>rounds a. 2 ^ (rounds div 2) \<le> Suc (length ds) \<and> search_within rounds m cmp key (rb_root (rb_heap m)) = Some a \<and> rbtree_map_search_node m key = Some a"
proof -
  obtain t where t: "rbm_tree cmp m t" and ds: "ds = map (entry_of m) (inorder t)" and c: "cmp_ok cmp"
    using assms by (auto simp: rbm_bindings_def rbm_rep_def)
  note r = t [unfolded rbm_tree_def live_def]
  obtain a where "search_node m cmp key (addr t) = Some a" using search_node_ok [OF c, of m 0 t key] r by (auto simp: rb_rep_def)
  then show ?thesis using search_within_height [of m 0 t "height t" cmp key] height_bound [of t] r ds
    by (intro exI [of _ "height t"] exI [of _ a]) (auto simp: rb_rep_def rbtree_map_search_node_def)
qed

theorem rbtree_search_rounds_witness:
  "\<exists>m' rounds a. rb_run RBTree_Map_step (snd RBTree_Map_construct) [Add_node 8 5 50, Add_node 16 5 60] = Some ([(1, None), (1, None)], m') \<and>
     2 ^ (rounds div 2) \<le> (3 :: nat) \<and> search_within rounds m' rb_default_key_cmp_func 7 (rb_root (rb_heap m')) = Some a \<and> rbtree_map_search_node m' 7 = Some a"
proof -
  obtain m' where m: "rb_run RBTree_Map_step (snd RBTree_Map_construct) [Add_node 8 5 50, Add_node 16 5 60] = Some ([(1, None), (1, None)], m')"
    "rbm_bindings rb_default_key_cmp_func m' [(5, 60), (5, 50)]" using sample_map by blast
  show ?thesis using rbtree_search_rounds [OF m(2), of 7] m(1) by (auto simp: numeral_3_eq_3)
qed

text \<open>C12.
  The search for all elements of a key delivers the values of exactly the bindings whose keys compare equal, each once, and returns 0.\<close>

theorem rbtree_map_search_all:
  assumes "rbm_bindings cmp m ds"
  shows "\<exists>vs. RBTree_Map_search_all_same_key m key = Some (0, vs) \<and> mset vs = mset (map snd (filter (\<lambda>d. cmp key (fst d) = 0) ds))"
proof -
  obtain t where t: "rbm_tree cmp m t" and ds: "ds = map (entry_of m) (inorder t)" and c: "cmp_ok cmp"
    using assms by (auto simp: rbm_bindings_def rbm_rep_def)
  then show ?thesis using same_key_ok [OF c, of m 0 t key]
    by (auto simp: rbm_tree_def live_def rb_rep_def RBTree_Map_search_all_same_key_def)
qed

theorem rbtree_map_search_all_witness:
  "\<exists>m' vs. rb_run RBTree_Map_step (snd RBTree_Map_construct) [Add_node 8 5 50, Add_node 16 5 60] = Some ([(1, None), (1, None)], m') \<and>
     RBTree_Map_search_all_same_key m' 5 = Some (0, vs) \<and> mset vs = {#50, 60#}"
proof -
  obtain m' where m: "rb_run RBTree_Map_step (snd RBTree_Map_construct) [Add_node 8 5 50, Add_node 16 5 60] = Some ([(1, None), (1, None)], m')"
    "rbm_bindings rb_default_key_cmp_func m' [(5, 60), (5, 50)]" using sample_map by blast
  show ?thesis using rbtree_map_search_all [OF m(2), of 5] m(1) by (auto simp: rb_default_key_cmp_func_def)
qed

text \<open>C13.
  The destruction of a map ends, when a class that is to free structs has a method for it: it returns 1, the releases are exactly
  those that the values call for (an object or string is destroyed, an allocated block is freed, a struct goes to the method, the
  callback or the allocator; each value that is not null once, and none when the map does not own its values), and no node is left.\<close>

theorem rbtree_map_deconstruct:
  assumes "rbm_bindings cmp m ds" "releasable cfg"
  shows "\<exists>rels m'. RBTree_Map_deconstruct cfg m = Some (1, rels, m') \<and> mset rels = releases_due cfg (map snd ds) \<and>
    dom (rb_key m') = {} \<and> doms (rb_heap m') = ({}, {}, {})"
proof -
  obtain vs m1 where r: "RBTree_Map_reset cfg m None = Some (1, concat (map (\<lambda>e. the (release_element cfg e)) vs), m1)"
      "mset vs = mset (map snd ds)" "rbm_bindings cmp m1 []"
    using RBTree_Map_reset_ok [OF releasable_element [OF assms(2)] assms(1), of None] by blast
  then obtain t1 where "rbm_tree cmp m1 t1" by (auto simp: rbm_bindings_def rbm_rep_def)
  then obtain m2 t2 where d: "delete_all m1 = Some m2" "rbm_tree cmp m2 t2" "inorder t2 = []" using delete_all_ok by blast
  then show ?thesis using r(1) mset_releases [OF assms(2) r(2)]
    by (auto simp: RBTree_Map_deconstruct_def rbtree_map_destroy_def rbm_tree_def live_def)
qed

theorem rbtree_map_deconstruct_witness:
  "\<exists>m1 rels m'. rb_run RBTree_Map_step (snd RBTree_Map_construct) [Add_node 8 5 50, Add_node 16 5 60] = Some ([(1, None), (1, None)], m1) \<and>
     RBTree_Map_deconstruct \<lparr>trustee_flag = 1, value_type = 10, class_free = None, value_free_callback = False\<rparr> m1 = Some (1, rels, m') \<and>
     mset rels = {#Mem_free 50, Mem_free 60#} \<and> dom (rb_key m') = {} \<and> doms (rb_heap m') = ({}, {}, {})"
proof -
  let ?cfg = "\<lparr>trustee_flag = 1, value_type = 10, class_free = None, value_free_callback = False\<rparr>"
  obtain m1 where m: "rb_run RBTree_Map_step (snd RBTree_Map_construct) [Add_node 8 5 50, Add_node 16 5 60] = Some ([(1, None), (1, None)], m1)"
    "rbm_bindings rb_default_key_cmp_func m1 [(5, 60), (5, 50)]" using sample_map by blast
  have "releasable ?cfg" "releases_due ?cfg (map snd [(5, 60), (5, 50)]) = {#Mem_free 50, Mem_free 60#}"
    by (simp_all add: releasable_def releases_due_def release_duty_def add_mset_commute)
  then show ?thesis using rbtree_map_deconstruct [OF m(2), of ?cfg] m(1) by auto
qed

text \<open>Where equal keys are not allowed, an insertion that meets one returns 0 and leaves the new node allocated, outside the tree.\<close>

lemma insert_same_key_leaks:
  assumes "rb_heap m = \<lparr>rb_root = 8, rb_parent_color = [8 \<mapsto> 1], rb_right = [8 \<mapsto> 0], rb_left = [8 \<mapsto> 0]\<rparr>" "rb_key m 8 = Some k" "enable_same_key m = 0"
    "rb_cmp m = Some rb_default_key_cmp_func"
  shows "\<exists>m'. rbtree_map_insert m 16 k v = Some (0, m') \<and> rb_heap m' = rb_heap m \<and> rb_key m' 16 = Some k"
  using assms by (auto simp: rbtree_map_insert_def rbtree_map_insert_node_def rb_default_key_cmp_func_def find_place.simps)

end
