(* ===== verification/StringObj.thy ===== *)
theory StringObj
  imports Service
begin

text \<open>
  The class \<open>String\<close> of \<open>core/String.c\<close>: a growing block of bytes with a length, whose text ends at a zero byte.  A block is a list of
  bytes with checked access; pointers into it are pairs of the number of the block (a new one for every allocation) and an offset.
  The object of class \<open>Vector\<close> that holds the pieces of the last search or split is the list of its elements.  The regular
  expressions of the C library are an argument: for a pattern, \<open>None\<close> when it does not compile, else the first match in a text
  with its begin and end.  The class never tests the result of an allocation, which is taken to succeed; the overflow of an \<open>int\<close> is
  undefined where the capacity is computed.
\<close>

type_synonym piece = "(nat \<times> int) \<times> int"
type_synonym matcher = "bytes \<Rightarrow> (nat \<times> nat) option"
type_synonym group_matcher = "bytes \<Rightarrow> ((nat \<times> nat) \<times> (nat \<times> nat) option) option"

record string_s =
  s_value :: bytes
  block :: nat
  value_max_len :: int
  value_len :: int
  pieces :: "piece list option"

subsection \<open>The string functions of the C library\<close>

text \<open>The text at an offset, up to the first zero byte.\<close>

definition cstr :: "bytes \<Rightarrow> int \<Rightarrow> bytes option" where
  "cstr m off = (if 0 \<le> off \<and> 0 \<in> set (drop (nat off) m) then Some (takeWhile (\<lambda>b. b \<noteq> 0) (drop (nat off) m)) else None)"

definition strlen :: "bytes \<Rightarrow> int \<Rightarrow> int option" where
  "strlen m off = map_option (\<lambda>t. int (length t)) (cstr m off)"

text \<open>The bytes that \<open>strncpy\<close> stores: the text, cut off or filled with zeros.\<close>

definition strncpy_src :: "bytes \<Rightarrow> int \<Rightarrow> int \<Rightarrow> bytes option" where
  "strncpy_src m off n =
     (if 0 \<le> off \<and> 0 \<le> n \<and> (off + n \<le> int (length m) \<or> 0 \<in> set (drop (nat off) m)) then
        (let t = takeWhile (\<lambda>b. b \<noteq> 0) (take (nat n) (drop (nat off) m)) in Some (t @ replicate (nat n - length t) 0))
      else None)"

definition islower :: "u8 \<Rightarrow> bool" where
  "islower c \<longleftrightarrow> 97 \<le> c \<and> c \<le> 122"

definition isupper :: "u8 \<Rightarrow> bool" where
  "isupper c \<longleftrightarrow> 65 \<le> c \<and> c \<le> 90"

definition isspace :: "u8 \<Rightarrow> bool" where
  "isspace c \<longleftrightarrow> c = 32 \<or> 9 \<le> c \<and> c \<le> 13"

subsection \<open>Capacity\<close>

definition modulate_capacity :: "string_s \<Rightarrow> int \<Rightarrow> string_s option" where
  "modulate_capacity s write_len =
     do { guard (value_len s + write_len + 1 \<le> int_max);
          if value_max_len s > value_len s + 1 \<and> value_max_len s < value_len s + write_len + 1 then
            do { let mx = 2 * (value_len s + write_len + 1);
                 guard (mx \<le> int_max);
                 src \<leftarrow> strncpy_src (s_value s) 0 (value_len s);
                 buf \<leftarrow> st (replicate (nat mx) 0) 0 src;
                 Some (s\<lparr>s_value := buf, block := Suc (block s), value_max_len := mx\<rparr>) }
          else Some s }"

definition string_construct :: string_s where
  "string_construct = \<lparr>s_value = replicate 256 0, block = 0, value_max_len = 256, value_len = 0, pieces = None\<rparr>"

text \<open>A block that has been released is the empty list.\<close>

definition string_deconstruct :: "string_s \<Rightarrow> string_s" where
  "string_deconstruct s = s\<lparr>s_value := [], pieces := None\<rparr>"

text \<open>\<open>alloc\<close> drops the text but not its length.\<close>

definition string_alloc :: "string_s \<Rightarrow> nat \<Rightarrow> string_s" where
  "string_alloc s sz =
     (if int sz < value_max_len s then s
      else s\<lparr>s_value := replicate sz 0, block := Suc (block s), value_max_len := int sz\<rparr>)"

subsection \<open>Text\<close>

definition string_get_len :: "string_s \<Rightarrow> int" where
  "string_get_len s = value_len s"

definition string_is_empty :: "string_s \<Rightarrow> bool" where
  "string_is_empty s \<longleftrightarrow> string_get_len s = 0"

definition string_reset :: "string_s \<Rightarrow> string_s option" where
  "string_reset s =
     do { m1 \<leftarrow> st1 (s_value s) 0 0;
          m2 \<leftarrow> st m1 0 (replicate (nat (value_max_len s)) 0);
          Some (s\<lparr>s_value := m2, value_len := 0, pieces := map_option (\<lambda>_. []) (pieces s)\<rparr>) }"

definition string_at :: "string_s \<Rightarrow> int \<Rightarrow> u8 option" where
  "string_at s index = ld1 (s_value s) index"

text \<open>The argument is a text in other memory, without its terminating zero.\<close>

definition string_assign :: "string_s \<Rightarrow> bytes \<Rightarrow> string_s option" where
  "string_assign s t =
     do { let l = int (length t);
          s1 \<leftarrow> modulate_capacity s l;
          m0 \<leftarrow> st (s_value s1) 0 (replicate (nat (value_max_len s1)) 0);
          m1 \<leftarrow> st m0 0 t;
          m2 \<leftarrow> st1 m1 l 0;
          Some (s1\<lparr>s_value := m2, value_len := l\<rparr>) }"

definition string_equal :: "string_s \<Rightarrow> bytes \<Rightarrow> bool option" where
  "string_equal s t = map_option (\<lambda>u. u = t) (cstr (s_value s) 0)"

definition string_append_char :: "string_s \<Rightarrow> u8 \<Rightarrow> string_s option" where
  "string_append_char s c =
     do { s1 \<leftarrow> modulate_capacity s 1;
          m1 \<leftarrow> st1 (s_value s1) (value_len s1) c;
          m2 \<leftarrow> st1 m1 (value_len s1 + 1) 0;
          Some (s1\<lparr>s_value := m2, value_len := value_len s1 + 1\<rparr>) }"

text \<open>The bytes at an offset of a block; a length that is not positive stands for that of the text there.\<close>

definition string_append :: "string_s \<Rightarrow> bytes \<Rightarrow> int \<Rightarrow> int \<Rightarrow> string_s option" where
  "string_append s sub off len =
     do { l \<leftarrow> (if len \<le> 0 then strlen sub off else Some len);
          s1 \<leftarrow> modulate_capacity s (l + value_len s);
          src \<leftarrow> strncpy_src sub off l;
          m1 \<leftarrow> st (s_value s1) (value_len s1) src;
          m2 \<leftarrow> st1 m1 (value_len s1 + l) 0;
          Some (s1\<lparr>s_value := m2, value_len := value_len s1 + l\<rparr>) }"

text \<open>The pointer may be \<open>NULL\<close>, which leaves the string as it is.\<close>

definition string_append_ptr :: "string_s \<Rightarrow> (bytes \<times> int) option \<Rightarrow> int \<Rightarrow> string_s option" where
  "string_append_ptr s sub len = (case sub of None \<Rightarrow> Some s | Some (m, off) \<Rightarrow> string_append s m off len)"

text \<open>The formatted text, which \<open>vsnprintf\<close> cuts off, is an argument; the return value is its full length.\<close>

definition string_format :: "string_s \<Rightarrow> int \<Rightarrow> bytes \<Rightarrow> (int \<times> string_s) option" where
  "string_format s max_len out =
     do { guard (0 < max_len);
          s1 \<leftarrow> string_append s (take (nat max_len - 1) out @ [0]) 0 (-1);
          Some (int (length out), s1) }"

definition string_insert :: "string_s \<Rightarrow> int \<Rightarrow> bytes \<Rightarrow> string_s option" where
  "string_insert s off t =
     do { let dest_len = string_get_len s;
          let l = int (length t);
          s1 \<leftarrow> modulate_capacity s (dest_len + l);
          mid \<leftarrow> ld (s_value s1) off (dest_len - off);
          m1 \<leftarrow> st (s_value s1) (off + l) mid;
          m2 \<leftarrow> st m1 off t;
          m3 \<leftarrow> st1 m2 (value_len s1 + l) 0;
          Some (s1\<lparr>s_value := m3, value_len := value_len s1 + l\<rparr>) }"

definition string_replace_char :: "string_s \<Rightarrow> int \<Rightarrow> u8 \<Rightarrow> string_s option" where
  "string_replace_char s index c = do { m \<leftarrow> st1 (s_value s) index c; Some (s\<lparr>s_value := m\<rparr>) }"

subsection \<open>Case and white space\<close>

function convert_loop :: "(u8 \<Rightarrow> u8) \<Rightarrow> int \<Rightarrow> bytes \<Rightarrow> int \<Rightarrow> bytes option" where
  "convert_loop f sz m i =
     (if i < sz then do { c \<leftarrow> ld1 m i; m' \<leftarrow> st1 m i (f c); convert_loop f sz m' (i + 1) } else Some m)"
  by auto
termination
  by (relation "measure (\<lambda>(f, sz, m, i). nat (sz - i))") auto

declare convert_loop.simps [simp del]

definition string_to_upper :: "string_s \<Rightarrow> string_s option" where
  "string_to_upper s =
     do { m \<leftarrow> convert_loop (\<lambda>c. if islower c then c + (65 - 97) else c) (value_len s) (s_value s) 0; Some (s\<lparr>s_value := m\<rparr>) }"

definition string_to_lower :: "string_s \<Rightarrow> string_s option" where
  "string_to_lower s =
     do { m \<leftarrow> convert_loop (\<lambda>c. if isupper c then c + (97 - 65) else c) (value_len s) (s_value s) 0; Some (s\<lparr>s_value := m\<rparr>) }"

function count_space :: "int \<Rightarrow> bytes \<Rightarrow> int \<Rightarrow> int option" where
  "count_space sz m i =
     (if i < sz then do { c \<leftarrow> ld1 m i; if isspace c then count_space sz m (i + 1) else Some i } else Some i)"
  by auto
termination
  by (relation "measure (\<lambda>(sz, m, i). nat (sz - i))") auto

declare count_space.simps [simp del]

definition string_ltrim :: "string_s \<Rightarrow> string_s option" where
  "string_ltrim s =
     do { cnt \<leftarrow> count_space (value_len s) (s_value s) 0;
          if cnt \<noteq> 0 then
            do { let l = value_len s - cnt;
                 mid \<leftarrow> ld (s_value s) cnt l;
                 m1 \<leftarrow> st (s_value s) 0 mid;
                 m2 \<leftarrow> st1 m1 l 0;
                 Some (s\<lparr>s_value := m2, value_len := l\<rparr>) }
          else Some s }"

function rtrim_loop :: "bytes \<Rightarrow> int \<Rightarrow> bytes option" where
  "rtrim_loop m i =
     (if 0 \<le> i then do { c \<leftarrow> ld1 m i; if isspace c then do { m' \<leftarrow> st1 m i 0; rtrim_loop m' (i - 1) } else Some m } else Some m)"
  by auto
termination
  by (relation "measure (\<lambda>(m, i). nat (i + 1))") auto

declare rtrim_loop.simps [simp del]

text \<open>\<open>rtrim\<close> leaves the length as it was.\<close>

definition string_rtrim :: "string_s \<Rightarrow> string_s option" where
  "string_rtrim s = do { m \<leftarrow> rtrim_loop (s_value s) (value_len s - 1); Some (s\<lparr>s_value := m\<rparr>) }"

definition string_trim :: "string_s \<Rightarrow> string_s option" where
  "string_trim s = do { s1 \<leftarrow> string_ltrim s; string_rtrim s1 }"

subsection \<open>Search, split and replacement\<close>

partial_function (option) find_loop :: "matcher \<Rightarrow> bytes \<Rightarrow> nat \<Rightarrow> int \<Rightarrow> int \<Rightarrow> int \<Rightarrow> piece list \<Rightarrow> (int \<times> piece list) option" where
  "find_loop rx m b num pos cnt ps =
     do { t \<leftarrow> cstr m pos;
          (case rx t of
             None \<Rightarrow> Some (cnt, ps)
           | Some (so, eo) \<Rightarrow>
               (let ps' = ps @ [((b, pos + int so), int eo - int so)] in
                if cnt + 1 < num \<or> num \<le> 0 then find_loop rx m b num (pos + int eo) (cnt + 1) ps' else Some (cnt + 1, ps'))) }"

definition string_find :: "(bytes \<Rightarrow> matcher option) \<Rightarrow> string_s \<Rightarrow> bytes \<Rightarrow> int \<Rightarrow> int \<Rightarrow> (int \<times> string_s) option" where
  "string_find regex s pattern off num =
     (let s0 = s\<lparr>pieces := Some []\<rparr> in
      case regex pattern of
        None \<Rightarrow> Some (-1, s0)
      | Some rx \<Rightarrow>
          do { t \<leftarrow> cstr (s_value s) 0;
               if t = [] then Some (0, s0)
               else do { (cnt, ps) \<leftarrow> find_loop rx (s_value s) (block s) num off 0 []; Some (cnt, s0\<lparr>pieces := Some ps\<rparr>) } })"

partial_function (option) split_loop :: "matcher \<Rightarrow> bytes \<Rightarrow> nat \<Rightarrow> int \<Rightarrow> int \<Rightarrow> int \<Rightarrow> piece list \<Rightarrow> (bytes \<times> int \<times> piece list) option" where
  "split_loop rx m b num pos count ps =
     (if count < num \<or> num \<le> 0 then
        do { t \<leftarrow> cstr m pos;
             (case rx t of
                None \<Rightarrow> Some (m, pos, ps)
              | Some (so, eo) \<Rightarrow>
                  do { let ps' = (if so \<noteq> 0 then ps @ [((b, pos), int so)] else ps);
                       m1 \<leftarrow> st1 m (pos + int eo - 1) 0;
                       m2 \<leftarrow> st1 m1 (pos + int so) 0;
                       split_loop rx m2 b num (pos + int eo) (count + 1) ps' }) }
      else Some (m, pos, ps))"

definition string_split :: "(bytes \<Rightarrow> matcher option) \<Rightarrow> string_s \<Rightarrow> bytes \<Rightarrow> int \<Rightarrow> (int \<times> string_s) option" where
  "string_split regex s delims num =
     (let s0 = s\<lparr>pieces := Some []\<rparr> in
      case regex delims of
        None \<Rightarrow> Some (-1, s0)
      | Some rx \<Rightarrow>
          do { t \<leftarrow> cstr (s_value s) 0;
               if t = [] then Some (0, s0)
               else
                 do { (m, pos, ps) \<leftarrow> split_loop rx (s_value s) (block s) num 0 0 [];
                      rest \<leftarrow> cstr m pos;
                      let ps' = (if rest \<noteq> [] then ps @ [((block s, pos), int (length rest))] else ps);
                      Some (int (length ps'), s0\<lparr>s_value := m, pieces := Some ps'\<rparr>) } })"

text \<open>The pointer to a piece, for both \<open>get_splited_cstr\<close> and \<open>get_found_cstr\<close>; \<open>None\<close> is \<open>NULL\<close>.\<close>

definition string_get_splited_cstr :: "string_s \<Rightarrow> nat \<Rightarrow> (nat \<times> int) option" where
  "string_get_splited_cstr s index =
     (case pieces s of None \<Rightarrow> None | Some ps \<Rightarrow> if index < length ps then Some (fst (ps ! index)) else None)"

partial_function (option) replace_loop ::
    "(bytes \<Rightarrow> matcher option) \<Rightarrow> bytes \<Rightarrow> bytes \<Rightarrow> int \<Rightarrow> int \<Rightarrow> string_s \<Rightarrow> int \<Rightarrow> int \<Rightarrow> (int \<times> string_s) option" where
  "replace_loop regex pattern newstr mx str_len s start_offset count =
     do { (ret, s1) \<leftarrow> string_find regex s pattern start_offset 1;
          if ret \<le> 0 \<or> ret > 1 then Some (count, s1)
          else
            do { ps \<leftarrow> pieces s1;
                 ((b, start), old_len) \<leftarrow> (case ps of p # _ \<Rightarrow> Some p | [] \<Rightarrow> None);
                 guard (b = block s1);
                 let old_offset = start;
                 let new_len = int (length newstr);
                 s2 \<leftarrow> (if str_len \<le> str_len + new_len - old_len then modulate_capacity s1 (str_len + new_len - old_len) else Some s1);
                 tail \<leftarrow> cstr (s_value s2) (old_offset + old_len);
                 m1 \<leftarrow> st (s_value s2) (old_offset + new_len) tail;
                 m2 \<leftarrow> st m1 old_offset newstr;
                 let l = value_len s2 + (new_len - old_len);
                 m3 \<leftarrow> st1 m2 l 0;
                 let s3 = s2\<lparr>s_value := m3, value_len := l\<rparr>;
                 if count + 1 < mx \<or> mx \<le> 0 then replace_loop regex pattern newstr mx str_len s3 (old_offset + new_len) (count + 1)
                 else Some (count + 1, s3) } }"

definition string_replace :: "(bytes \<Rightarrow> matcher option) \<Rightarrow> string_s \<Rightarrow> bytes \<Rightarrow> bytes \<Rightarrow> int \<Rightarrow> (int \<times> string_s) option" where
  "string_replace regex s pattern newstr mx = replace_loop regex pattern newstr mx (string_get_len s) s 0 0"

definition string_replace_ptr :: "(bytes \<Rightarrow> matcher option) \<Rightarrow> string_s \<Rightarrow> bytes option \<Rightarrow> bytes option \<Rightarrow> int \<Rightarrow> (int \<times> string_s) option" where
  "string_replace_ptr regex s pattern newstr mx =
     (case (pattern, newstr) of (Some p, Some n) \<Rightarrow> string_replace regex s p n mx | _ \<Rightarrow> Some (-1, s))"

text \<open>The first group of a match: the return value is the end of the match, the out parameters \<open>start\<close> and \<open>len\<close> come last.\<close>

definition string_get_substring :: "(bytes \<Rightarrow> group_matcher option) \<Rightarrow> string_s \<Rightarrow> bytes \<Rightarrow> int \<Rightarrow> int \<Rightarrow> int \<Rightarrow> (int \<times> int \<times> int) option" where
  "string_get_substring regex s pattern off start len =
     (case regex pattern of
        None \<Rightarrow> Some (-1, -1, len)
      | Some rx \<Rightarrow>
          do { t \<leftarrow> cstr (s_value s) 0;
               if t = [] then Some (0, start, len)
               else
                 do { u \<leftarrow> cstr (s_value s) off;
                      Some (case rx u of
                              Some ((so, eo), Some (so1, eo1)) \<Rightarrow> (int eo + off, int so1 + off, int eo1 - int so1)
                            | _ \<Rightarrow> (-1, -1, len)) } })"

subsection \<open>Access to parts of a block\<close>

lemma st_at: "off = int (length us) \<Longrightarrow> length ys = length vs \<Longrightarrow> st (us @ vs @ ws) off ys = Some (us @ ys @ ws)"
  by (simp add: st_def)

lemma ld_at: "off = int (length us) \<Longrightarrow> n = int (length vs) \<Longrightarrow> ld (us @ vs @ ws) off n = Some vs"
  by (simp add: ld_def)

lemma st1_at: "off = int (length us) \<Longrightarrow> st1 (us @ v # ws) off y = Some (us @ y # ws)"
  by (simp add: st1_def)

lemma ld1_at: "off = int (length us) \<Longrightarrow> ld1 (us @ v # ws) off = Some v"
  by (simp add: ld1_def nth_append)

lemma takeWhile_text: "0 \<notin> set t \<Longrightarrow> takeWhile (\<lambda>b. b \<noteq> 0) (t @ ws) = t @ takeWhile (\<lambda>b. b \<noteq> (0 :: u8)) ws"
  by (rule takeWhile_append2) auto

lemma takeWhile_all: "0 \<notin> set t \<Longrightarrow> takeWhile (\<lambda>b. b \<noteq> (0 :: u8)) t = t"
  by (auto simp: takeWhile_eq_all_conv)

lemma cstr_at: "off = int (length us) \<Longrightarrow> 0 \<notin> set t \<Longrightarrow> cstr (us @ t @ 0 # ws) off = Some t"
  by (simp add: cstr_def takeWhile_text)

lemma strncpy_at: "off = int (length us) \<Longrightarrow> n = int (length t) \<Longrightarrow> 0 \<notin> set t \<Longrightarrow> strncpy_src (us @ t @ ws) off n = Some t"
  by (simp add: strncpy_src_def takeWhile_all)

subsection \<open>The representation of a text\<close>

text \<open>The block holds the text \<open>xs\<close>, its terminating zero and the spare bytes \<open>rest\<close>.\<close>

definition str_rep :: "string_s \<Rightarrow> bytes \<Rightarrow> bytes \<Rightarrow> bool" where
  "str_rep s xs rest \<longleftrightarrow> s_value s = xs @ 0 # rest \<and> value_max_len s = int (Suc (length xs + length rest)) \<and> value_len s = int (length xs) \<and> 0 \<notin> set xs"

abbreviation capacity :: "bytes \<Rightarrow> bytes \<Rightarrow> nat" where
  "capacity xs rest \<equiv> Suc (length xs + length rest)"

text \<open>The capacity after a request for \<open>w\<close> bytes: a full block is never enlarged.\<close>

definition grow :: "nat \<Rightarrow> nat \<Rightarrow> nat \<Rightarrow> nat" where
  "grow n cap w = (if n + 1 < cap \<and> cap < n + w + 1 then 2 * (n + w + 1) else cap)"

definition fits :: "nat \<Rightarrow> nat \<Rightarrow> bool" where
  "fits n w \<longleftrightarrow> 2 * (int n + int w + 1) \<le> int_max"

lemma modulate_ok:
  assumes rep: "str_rep s xs rest" and r: "rest \<noteq> []" and f: "fits (length xs) w"
  obtains s1 rest1 where "modulate_capacity s (int w) = Some s1" "str_rep s1 xs rest1" "w \<le> length rest1" "rest1 \<noteq> []"
    "capacity xs rest1 = grow (length xs) (capacity xs rest) w" "pieces s1 = pieces s" "block s \<le> block s1"
proof (cases "length rest < w")
  case False
  then have "modulate_capacity s (int w) = Some s" using rep f by (simp add: modulate_capacity_def str_rep_def fits_def)
  then show ?thesis using that [of s rest] rep False r by (simp add: grow_def)
next
  case True
  let ?mx = "2 * (length xs + w + 1)"
  let ?rest = "replicate (length xs + 2 * w + 1) 0"
  have sp: "replicate ?mx (0 :: u8) = [] @ replicate (length xs) 0 @ 0 # ?rest"
    by (simp flip: replicate_Suc replicate_add) 
  have "strncpy_src (s_value s) 0 (value_len s) = Some xs"
    using strncpy_at [of 0 "[]" "int (length xs)" xs "0 # rest"] rep by (simp add: str_rep_def)
  moreover have "st (replicate ?mx 0) 0 xs = Some (xs @ 0 # ?rest)"
    unfolding sp by (subst st_at) simp_all
  moreover have "nat (2 * (value_len s + int w + 1)) = ?mx" using rep by (simp add: str_rep_def)
  ultimately have "modulate_capacity s (int w) = Some (s\<lparr>s_value := xs @ 0 # ?rest, block := Suc (block s), value_max_len := 2 * (value_len s + int w + 1)\<rparr>)"
    using rep True f r by (simp add: modulate_capacity_def str_rep_def fits_def Let_def)
  then show ?thesis
    by (rule that [of _ ?rest]) (use rep True r in \<open>auto simp: str_rep_def grow_def\<close>)
qed

lemma modulate_full: "str_rep s xs [] \<Longrightarrow> fits (length xs) w \<Longrightarrow> modulate_capacity s (int w) = Some s"
  by (simp add: modulate_capacity_def str_rep_def fits_def)

lemma split_rest: "w \<le> length (rest :: bytes) \<Longrightarrow> \<exists>us vs. rest = us @ vs \<and> length us = w"
  by (rule exI [of _ "take w rest"], rule exI [of _ "drop w rest"]) simp

text \<open>A block whose text is followed by at least \<open>w\<close> spare bytes, cut after the zero that a text longer by \<open>w\<close> has.\<close>

lemma spare_cut:
  assumes "w \<le> length (rest :: bytes)"
  obtains z us vs where "0 # rest = us @ z # vs" "length us = w" "length vs = length rest - w"
proof -
  have "w < length (0 # rest)" using assms by simp
  then have "0 # rest = take w (0 # rest) @ (0 # rest) ! w # drop (Suc w) (0 # rest)" by (rule id_take_nth_drop)
  then show ?thesis by (rule that) (use assms in auto)
qed

subsection \<open>The laws of the operations\<close>

lemma construct_rep: "str_rep string_construct [] (replicate 255 0)"
  by (simp add: str_rep_def string_construct_def replicate_num)

lemma append_law:
  assumes rep: "str_rep s xs rest" and r: "rest \<noteq> []" and t: "0 \<notin> set t" and f: "fits (length xs) (length t + length xs)"
    and src: "(len = int (length t) \<and> t \<noteq> [] \<and> sub = us @ t @ vs) \<or> (len \<le> 0 \<and> sub = us @ t @ 0 # vs)"
  shows "\<exists>s' rest'. string_append s sub (int (length us)) len = Some s' \<and> str_rep s' (xs @ t) rest' \<and>
    capacity (xs @ t) rest' = grow (length xs) (capacity xs rest) (length t + length xs)"
proof -
  obtain s1 rest1 where m: "modulate_capacity s (int (length t + length xs)) = Some s1" "str_rep s1 xs rest1" "length t + length xs \<le> length rest1"
      "capacity xs rest1 = grow (length xs) (capacity xs rest) (length t + length xs)"
    by (rule modulate_ok [OF rep r f]) blast
  have len: "(if len \<le> 0 then strlen sub (int (length us)) else Some len) = Some (int (length t))"
    using src cstr_at [OF refl t, of us vs] by (auto simp: strlen_def)
  have sc: "strncpy_src sub (int (length us)) (int (length t)) = Some t" using src strncpy_at [OF refl refl t, of us] by auto
  obtain z ys ws where c: "0 # rest1 = ys @ z # ws" "length ys = length t" "length ws = length rest1 - length t"
    by (rule spare_cut [of "length t" rest1]) (use m(3) in auto)
  have v: "s_value s1 = xs @ ys @ z # ws" "value_len s1 = int (length xs)" "value_len s = int (length xs)" using m(2) rep c(1) by (simp_all add: str_rep_def)
  have "st (s_value s1) (int (length xs)) t = Some (xs @ t @ z # ws)" unfolding v by (rule st_at) (use c in auto)
  moreover have "st1 (xs @ t @ z # ws) (int (length xs) + int (length t)) 0 = Some (xs @ t @ 0 # ws)"
    using st1_at [of "int (length xs) + int (length t)" "xs @ t" z ws 0] by simp
  ultimately have "string_append s sub (int (length us)) len = Some (s1\<lparr>s_value := xs @ t @ 0 # ws, value_len := int (length xs) + int (length t)\<rparr>)"
    using m(1) len sc v by (simp add: string_append_def)
  moreover have "str_rep (s1\<lparr>s_value := xs @ t @ 0 # ws, value_len := int (length xs) + int (length t)\<rparr>) (xs @ t) ws"
    using m(2,3) t rep c(3) by (auto simp: str_rep_def)
  moreover have "capacity (xs @ t) ws = capacity xs rest1" using m(3) c(3) by simp
  ultimately show ?thesis using m(4) by metis
qed

lemma append_char_law:
  assumes rep: "str_rep s xs rest" and f: "fits (length xs) 1" and c: "c \<noteq> 0"
  shows "case rest of [] \<Rightarrow> string_append_char s c = None
    | r # rs \<Rightarrow> \<exists>s'. string_append_char s c = Some s' \<and> str_rep s' (xs @ [c]) rs"
proof (cases rest)
  case Nil
  then have "modulate_capacity s 1 = Some s" using modulate_full [of s xs 1] rep f by simp
  moreover have "st1 (s_value s) (value_len s) c = Some (xs @ [c])" using st1_at [OF refl, of xs 0 "[]" c] rep Nil by (simp add: str_rep_def)
  moreover have "st1 (xs @ [c]) (value_len s + 1) 0 = None" using rep by (simp add: str_rep_def st1_def)
  ultimately show ?thesis using Nil by (simp add: string_append_char_def)
next
  case (Cons r rs)
  have "modulate_capacity s 1 = Some s" using rep f Cons by (simp add: modulate_capacity_def str_rep_def fits_def)
  moreover have "st1 (s_value s) (value_len s) c = Some (xs @ c # r # rs)" using st1_at [OF refl, of xs 0 "r # rs" c] rep Cons by (simp add: str_rep_def)
  moreover have "st1 (xs @ c # r # rs) (value_len s + 1) 0 = Some (xs @ c # 0 # rs)"
    using st1_at [of "value_len s + 1" "xs @ [c]" r rs 0] rep by (simp add: str_rep_def)
  ultimately show ?thesis using Cons rep c by (simp add: string_append_char_def str_rep_def)
qed

lemma assign_law:
  assumes rep: "str_rep s xs rest" and r: "rest \<noteq> []" and t: "0 \<notin> set t" and f: "fits (length xs) (length t)"
  shows "\<exists>s' rest'. string_assign s t = Some s' \<and> str_rep s' t rest' \<and> capacity t rest' = grow (length xs) (capacity xs rest) (length t)"
proof -
  obtain s1 rest1 where m: "modulate_capacity s (int (length t)) = Some s1" "str_rep s1 xs rest1" "length t \<le> length rest1"
      "capacity xs rest1 = grow (length xs) (capacity xs rest) (length t)"
    by (rule modulate_ok [OF rep r f]) blast
  let ?z = "replicate (length xs + length rest1 - length t) (0 :: u8)"
  have z: "replicate (capacity xs rest1) 0 = [] @ replicate (length t) (0 :: u8) @ 0 # ?z" using m(3)
    by (simp flip: replicate_Suc replicate_add)
  have "st (s_value s1) 0 (replicate (nat (value_max_len s1)) 0) = Some (replicate (capacity xs rest1) 0)"
    using st_at [of 0 "[]" "replicate (capacity xs rest1) 0" "s_value s1" "[]"] m(2) by (simp add: str_rep_def nat_add_distrib)
  moreover have "st (replicate (capacity xs rest1) 0) 0 t = Some (t @ 0 # ?z)" unfolding z by (subst st_at) simp_all
  moreover have "st1 (t @ 0 # ?z) (int (length t)) 0 = Some (t @ 0 # ?z)" by (rule st1_at) simp
  ultimately have "string_assign s t = Some (s1\<lparr>s_value := t @ 0 # ?z, value_len := int (length t)\<rparr>)"
    using m(1) by (simp add: string_assign_def Let_def)
  moreover have "str_rep (s1\<lparr>s_value := t @ 0 # ?z, value_len := int (length t)\<rparr>) t ?z" using m(2,3) t by (auto simp: str_rep_def)
  moreover have "capacity t ?z = capacity xs rest1" using m(3) by simp
  ultimately show ?thesis using m(4) by metis
qed

lemma string_insert_law:
  assumes rep: "str_rep s (xs @ ys) rest" and r: "rest \<noteq> []" and t: "0 \<notin> set t" and f: "fits (length (xs @ ys)) (length (xs @ ys) + length t)"
  shows "\<exists>s' rest'. string_insert s (int (length xs)) t = Some s' \<and> str_rep s' (xs @ t @ ys) rest' \<and>
    capacity (xs @ t @ ys) rest' = grow (length (xs @ ys)) (capacity (xs @ ys) rest) (length (xs @ ys) + length t)"
proof -
  let ?n = "length (xs @ ys)"
  obtain s1 rest1 where m: "modulate_capacity s (int (?n + length t)) = Some s1" "str_rep s1 (xs @ ys) rest1" "?n + length t \<le> length rest1"
      "capacity (xs @ ys) rest1 = grow ?n (capacity (xs @ ys) rest) (?n + length t)"
    by (rule modulate_ok [OF rep r f]) blast
  obtain z us ws where c: "0 # rest1 = us @ z # ws" "length us = length t" "length ws = length rest1 - length t"
    by (rule spare_cut [of "length t" rest1]) (use m(3) in auto)
  have v: "s_value s1 = xs @ ys @ us @ z # ws" "value_len s1 = int ?n" "value_len s = int ?n" using m(2) rep c(1) by (simp_all add: str_rep_def)
  have "ld (s_value s1) (int (length xs)) (int ?n - int (length xs)) = Some ys"
    unfolding v by (rule ld_at) simp_all
  moreover obtain p q where pq: "xs @ ys @ us @ z # ws = (xs @ p) @ q @ z # ws" "length p = length t" "length q = length ys"
    using split_rest [of "length t" "ys @ us"] c(2) by auto (metis append.assoc length_append add_left_cancel add.commute)
  have "st (s_value s1) (int (length xs) + int (length t)) ys = Some ((xs @ p) @ ys @ z # ws)"
    unfolding v pq(1) by (rule st_at) (use pq in auto)
  moreover have "st ((xs @ p) @ ys @ z # ws) (int (length xs)) t = Some (xs @ t @ ys @ z # ws)"
    using st_at [of "int (length xs)" xs t p "ys @ z # ws"] pq(2) by simp
  moreover have "st1 (xs @ t @ ys @ z # ws) (int ?n + int (length t)) 0 = Some (xs @ t @ ys @ 0 # ws)"
    using st1_at [of "int ?n + int (length t)" "xs @ t @ ys" z ws 0] by simp
  ultimately have "string_insert s (int (length xs)) t = Some (s1\<lparr>s_value := xs @ t @ ys @ 0 # ws, value_len := int ?n + int (length t)\<rparr>)"
    using m(1) v by (simp add: string_insert_def string_get_len_def Let_def)
  moreover have "str_rep (s1\<lparr>s_value := xs @ t @ ys @ 0 # ws, value_len := int ?n + int (length t)\<rparr>) (xs @ t @ ys) ws"
    using m(2,3) t c(3) by (auto simp: str_rep_def)
  moreover have "capacity (xs @ t @ ys) ws = capacity (xs @ ys) rest1" using m(3) c(3) by simp
  ultimately show ?thesis using m(4) by metis
qed

lemma reset_law: "str_rep s xs rest \<Longrightarrow> \<exists>s' rest'. string_reset s = Some s' \<and> str_rep s' [] rest' \<and> capacity [] rest' = capacity xs rest"
proof -
  assume rep: "str_rep s xs rest"
  let ?z = "replicate (capacity xs rest) (0 :: u8)"
  obtain v ws where v: "s_value s = v # ws" using rep by (cases "s_value s") (auto simp: str_rep_def)
  have "length (v # ws) = capacity xs rest" using rep unfolding v [symmetric] by (simp add: str_rep_def)
  then have len: "length (0 # ws) = capacity xs rest" by simp
  have "st1 (s_value s) 0 0 = Some (0 # ws)" using st1_at [of 0 "[]" v ws 0] v by simp
  moreover have "st (0 # ws) 0 ?z = Some ?z" using st_at [of 0 "[]" ?z "0 # ws" "[]"] len by simp
  ultimately have "string_reset s = Some (s\<lparr>s_value := ?z, value_len := 0, pieces := map_option (\<lambda>_. []) (pieces s)\<rparr>)"
    using rep by (simp add: string_reset_def str_rep_def nat_add_distrib)
  then show ?thesis using rep by (intro exI [of _ "s\<lparr>s_value := ?z, value_len := 0, pieces := map_option (\<lambda>_. []) (pieces s)\<rparr>"] exI [of _ "replicate (length xs + length rest) 0"])
      (auto simp: str_rep_def)
qed

lemma convert_loop_ok:
  "convert_loop f (int (length us + length xs)) (us @ xs @ ws) (int (length us)) = Some (us @ map f xs @ ws)"
proof (induction xs arbitrary: us)
  case Nil
  then show ?case by (subst convert_loop.simps) simp
next
  case (Cons x xs)
  have "convert_loop f (int (length us + length (x # xs))) (us @ (x # xs) @ ws) (int (length us)) =
      convert_loop f (int (length (us @ [f x]) + length xs)) ((us @ [f x]) @ xs @ ws) (int (length (us @ [f x])))"
    using ld1_at [OF refl, of us x "xs @ ws"] st1_at [OF refl, of us x "xs @ ws" "f x"] by (subst convert_loop.simps) (simp add: ac_simps)
  then show ?case using Cons.IH [of "us @ [f x]"] by simp
qed

lemma convert_law:
  assumes "str_rep s xs rest" "\<And>c. c \<noteq> 0 \<Longrightarrow> f c \<noteq> 0"
  shows "\<exists>m. convert_loop f (value_len s) (s_value s) 0 = Some m \<and> str_rep (s\<lparr>s_value := m\<rparr>) (map f xs) rest"
  using convert_loop_ok [of f "[]" xs "0 # rest"] assms by (auto simp: str_rep_def) metis

lemma count_space_ok:
  "0 \<notin> set xs \<Longrightarrow> count_space (int (length us + length xs)) (us @ xs @ ws) (int (length us)) = Some (int (length us + length (takeWhile isspace xs)))"
proof (induction xs arbitrary: us)
  case Nil
  then show ?case by (subst count_space.simps) simp
next
  case (Cons x xs)
  show ?case using ld1_at [OF refl, of us x "xs @ ws"] Cons.IH [of "us @ [x]"] Cons.prems
    by (subst count_space.simps) (simp add: ac_simps)
qed

lemma ltrim_law:
  assumes rep: "str_rep s xs rest"
  shows "\<exists>s' rest'. string_ltrim s = Some s' \<and> str_rep s' (dropWhile isspace xs) rest' \<and> capacity (dropWhile isspace xs) rest' = capacity xs rest"
proof -
  let ?a = "takeWhile isspace xs" and ?b = "dropWhile isspace xs"
  have xs: "xs = ?a @ ?b" by simp
  have cnt: "count_space (value_len s) (s_value s) 0 = Some (int (length ?a))"
    using count_space_ok [of xs "[]" "0 # rest"] rep by (simp add: str_rep_def)
  have n: "length xs = length ?a + length ?b" using xs by (metis length_append)
  show ?thesis
  proof (cases "?a = []")
    case True
    then have "?b = xs" using xs by simp
    then show ?thesis using cnt True rep by (auto simp: string_ltrim_def)
  next
    case False
    let ?m = "xs @ 0 # rest"
    have "length ?b < length ?m" using n by simp
    then have d: "?m = take (length ?b) ?m @ ?m ! length ?b # drop (Suc (length ?b)) ?m" by (rule id_take_nth_drop)
    define v ws where "v = ?m ! length ?b" and "ws = drop (Suc (length ?b)) ?m"
    have m: "?m = [] @ take (length ?b) ?m @ v # ws" "length ws = length ?a + length rest" using d n by (simp_all add: v_def ws_def)
    have sv: "s_value s = ?m" "value_len s = int (length xs)" using rep by (simp_all add: str_rep_def)
    have l: "int (length xs) - int (length ?a) = int (length ?b)" using n by simp
    have "ld ?m (int (length ?a)) (int (length ?b)) = Some ?b" using ld_at [OF refl refl, of ?a ?b "0 # rest"] by (metis append.assoc xs)
    moreover have "st ?m 0 ?b = Some (?b @ v # ws)" by (subst m(1), subst st_at) (use n in auto)
    moreover have "st1 (?b @ v # ws) (int (length ?b)) 0 = Some (?b @ 0 # ws)" by (rule st1_at) simp
    ultimately have "string_ltrim s = Some (s\<lparr>s_value := ?b @ 0 # ws, value_len := int (length ?b)\<rparr>)"
      using cnt False by (simp add: string_ltrim_def sv l)
    moreover have "str_rep (s\<lparr>s_value := ?b @ 0 # ws, value_len := int (length ?b)\<rparr>) ?b ws"
      using rep n m(2) set_dropWhileD [of 0 isspace xs] by (auto simp: str_rep_def)
    ultimately show ?thesis using n m(2) by auto
  qed
qed

text \<open>\<open>rtrim\<close> overwrites the white space at the end with zeros.\<close>

lemma rtrim_loop_ok:
  "0 \<notin> set xs \<Longrightarrow> ys = rev (takeWhile isspace (rev xs)) \<Longrightarrow> zs = rev (dropWhile isspace (rev xs)) \<Longrightarrow>
   rtrim_loop (xs @ ws) (int (length xs) - 1) = Some (zs @ replicate (length ys) 0 @ ws)"
proof (induction xs arbitrary: ys zs ws rule: rev_induct)
  case Nil
  then show ?case by (subst rtrim_loop.simps) simp
next
  case (snoc x xs)
  have ld: "ld1 ((xs @ [x]) @ ws) (int (length (xs @ [x])) - 1) = Some x" using ld1_at [OF refl, of xs x ws] by simp
  show ?case
  proof (cases "isspace x")
    case True
    have "st1 ((xs @ [x]) @ ws) (int (length (xs @ [x])) - 1) 0 = Some (xs @ 0 # ws)" using st1_at [OF refl, of xs x ws 0] by simp
    then have "rtrim_loop ((xs @ [x]) @ ws) (int (length (xs @ [x])) - 1) = rtrim_loop (xs @ 0 # ws) (int (length xs) - 1)"
      using ld True by (subst rtrim_loop.simps) simp
    then show ?thesis using snoc.IH [OF _ refl refl, of "0 # ws"] snoc.prems True by (simp add: replicate_append_same [symmetric])
  next
    case False
    then show ?thesis using ld snoc.prems by (subst rtrim_loop.simps) simp
  qed
qed

abbreviation rstrip :: "bytes \<Rightarrow> bytes" where
  "rstrip xs \<equiv> rev (dropWhile isspace (rev xs))"

lemma rstrip_split: "\<exists>ys. xs = rstrip xs @ ys \<and> length ys = length xs - length (rstrip xs) \<and> (\<forall>c \<in> set ys. isspace c)"
proof (intro exI conjI)
  show "xs = rstrip xs @ rev (takeWhile isspace (rev xs))" by (metis rev_append rev_rev_ident takeWhile_dropWhile_id)
  then show "length (rev (takeWhile isspace (rev xs))) = length xs - length (rstrip xs)" by (metis add_diff_cancel_left' length_append)
qed (auto dest: set_takeWhileD)

lemma rtrim_law:
  assumes rep: "str_rep s xs rest"
  shows "string_rtrim s = Some (s\<lparr>s_value := rstrip xs @ replicate (length xs - length (rstrip xs)) 0 @ 0 # rest\<rparr>)"
proof -
  have "length (rev (takeWhile isspace (rev xs))) = length xs - length (rstrip xs)"
    by (metis add_diff_cancel_left' add.commute length_append length_rev takeWhile_dropWhile_id)
  then show ?thesis using rtrim_loop_ok [OF _ refl refl, of xs "0 # rest"] rep by (simp add: string_rtrim_def str_rep_def)
qed

subsection \<open>Strings as a service\<close>

datatype str_op = Assign bytes | Append bytes | Append_char u8 | Insert nat bytes | To_upper | To_lower | Ltrim | Reset

abbreviation upcase :: "u8 \<Rightarrow> u8" where
  "upcase c \<equiv> if islower c then c + (65 - 97) else c"

abbreviation downcase :: "u8 \<Rightarrow> u8" where
  "downcase c \<equiv> if isupper c then c + (97 - 65) else c"

fun string_step :: "string_s \<Rightarrow> str_op \<Rightarrow> (int \<times> string_s) option" where
  "string_step s (Assign t) = do { s' \<leftarrow> string_assign s t; Some (string_get_len s', s') }"
| "string_step s (Append t) = do { s' \<leftarrow> string_append s (t @ [0]) 0 (-1); Some (string_get_len s', s') }"
| "string_step s (Append_char c) = do { s' \<leftarrow> string_append_char s c; Some (string_get_len s', s') }"
| "string_step s (Insert off t) = do { s' \<leftarrow> string_insert s (int off) t; Some (string_get_len s', s') }"
| "string_step s To_upper = do { s' \<leftarrow> string_to_upper s; Some (string_get_len s', s') }"
| "string_step s To_lower = do { s' \<leftarrow> string_to_lower s; Some (string_get_len s', s') }"
| "string_step s Ltrim = do { s' \<leftarrow> string_ltrim s; Some (string_get_len s', s') }"
| "string_step s Reset = do { s' \<leftarrow> string_reset s; Some (string_get_len s', s') }"

text \<open>The text and the capacity; the result is the new length.\<close>

fun text_after :: "bytes \<Rightarrow> str_op \<Rightarrow> bytes" where
  "text_after xs (Assign t) = t"
| "text_after xs (Append t) = xs @ t"
| "text_after xs (Append_char c) = xs @ [c]"
| "text_after xs (Insert off t) = take off xs @ t @ drop off xs"
| "text_after xs To_upper = map upcase xs"
| "text_after xs To_lower = map downcase xs"
| "text_after xs Ltrim = dropWhile isspace xs"
| "text_after xs Reset = []"

fun request :: "bytes \<Rightarrow> str_op \<Rightarrow> nat" where
  "request xs (Assign t) = length t"
| "request xs (Append t) = length t + length xs"
| "request xs (Append_char c) = 1"
| "request xs (Insert off t) = length xs + length t"
| "request xs q = 0"

definition str_spec :: "bytes \<times> nat \<Rightarrow> str_op \<Rightarrow> int \<times> bytes \<times> nat" where
  "str_spec a q = (int (length (text_after (fst a) q)), text_after (fst a) q, grow (length (fst a)) (snd a) (request (fst a) q))"

fun clean :: "bytes \<Rightarrow> str_op \<Rightarrow> bool" where
  "clean xs (Assign t) \<longleftrightarrow> 0 \<notin> set t"
| "clean xs (Append t) \<longleftrightarrow> 0 \<notin> set t"
| "clean xs (Append_char c) \<longleftrightarrow> c \<noteq> 0"
| "clean xs (Insert off t) \<longleftrightarrow> 0 \<notin> set t \<and> off \<le> length xs"
| "clean xs q \<longleftrightarrow> True"

text \<open>The block is not full, the texts have no zero byte and the capacity that is computed is an \<open>int\<close>.\<close>

definition str_legal :: "bytes \<times> nat \<Rightarrow> str_op \<Rightarrow> bool" where
  "str_legal a q \<longleftrightarrow> length (fst a) + 1 < snd a \<and> clean (fst a) q \<and> fits (length (fst a)) (request (fst a) q)"

definition holds_text :: "string_s \<Rightarrow> bytes \<times> nat \<Rightarrow> bool" where
  "holds_text s a \<longleftrightarrow> (\<exists>rest. str_rep s (fst a) rest \<and> snd a = capacity (fst a) rest)"

lemma upcase_nonzero: "c \<noteq> 0 \<Longrightarrow> upcase c \<noteq> 0" "c \<noteq> 0 \<Longrightarrow> downcase c \<noteq> 0"
proof -
  have "\<not> islower 32" "\<not> isupper (- 32)" by (simp_all add: islower_def isupper_def)
  moreover have "c + (65 - 97) = 0 \<longleftrightarrow> c = 32" "c + (97 - 65) = 0 \<longleftrightarrow> c = - 32" by (simp_all add: eq_neg_iff_add_eq_0)
  ultimately show "c \<noteq> 0 \<Longrightarrow> upcase c \<noteq> 0" "c \<noteq> 0 \<Longrightarrow> downcase c \<noteq> 0" by auto
qed

lemma grow_0 [simp]: "grow n cap 0 = cap" "n + 1 < cap \<Longrightarrow> grow n cap (Suc 0) = cap"
  by (auto simp: grow_def)

lemma rep_len: "str_rep s xs rest \<Longrightarrow> string_get_len s = int (length xs)"
  by (simp add: string_get_len_def str_rep_def)

lemma rep_cstr: "str_rep s xs rest \<Longrightarrow> cstr (s_value s) 0 = Some xs"
  using cstr_at [of 0 "[]" xs rest] by (simp add: str_rep_def)

lemma string_step_law:
  assumes "holds_text s a" "str_legal a q"
  shows "\<exists>s'. string_step s q = Some (fst (str_spec a q), s') \<and> holds_text s' (snd (str_spec a q))"
proof -
  obtain xs cap where a: "a = (xs, cap)" by (cases a)
  obtain rest where r: "str_rep s xs rest" "cap = capacity xs rest" "rest \<noteq> []" using assms by (auto simp: a holds_text_def str_legal_def)
  have c: "clean xs q" "fits (length xs) (request xs q)" using assms(2) by (simp_all add: str_legal_def a)
  have "\<exists>s' rest'. string_step s q = Some (string_get_len s', s') \<and> str_rep s' (text_after xs q) rest' \<and> capacity (text_after xs q) rest' = grow (length xs) cap (request xs q)"
  proof (cases q)
    case (Assign t)
    then show ?thesis using assign_law [OF r(1,3), of t] c r(2) by auto
  next
    case (Append t)
    then show ?thesis using append_law [OF r(1,3), of t "-1" "t @ [0]" "[]" "[]"] c r(2) by auto
  next
    case (Append_char d)
    then show ?thesis using append_char_law [OF r(1), of d] c r(2,3) by (cases rest) auto
  next
    case (Insert off t)
    then show ?thesis using string_insert_law [of s "take off xs" "drop off xs" rest t] r c by (auto simp: min_absorb2)
  next
    case To_upper
    then show ?thesis using convert_law [OF r(1), of upcase] upcase_nonzero(1) r(2) by (auto simp: string_to_upper_def)
  next
    case To_lower
    then show ?thesis using convert_law [OF r(1), of downcase] upcase_nonzero(2) r(2) by (auto simp: string_to_lower_def)
  next
    case Ltrim
    then show ?thesis using ltrim_law [OF r(1)] r(2) by auto
  next
    case Reset
    then show ?thesis using reset_law [OF r(1)] r(2) by auto
  qed
  then obtain s' rest' where s': "string_step s q = Some (string_get_len s', s')" "str_rep s' (text_after xs q) rest'"
      "capacity (text_after xs q) rest' = grow (length xs) cap (request xs q)" by blast
  then show ?thesis using rep_len [OF s'(2)]
    by (intro exI [of _ s'] conjI) (auto simp: a str_spec_def holds_text_def intro!: exI [of _ rest'])
qed

interpretation str: service string_step holds_text str_spec str_legal
  by unfold_locales (rule string_step_law)

lemma holds_cstr: "holds_text s a \<Longrightarrow> cstr (s_value s) 0 = Some (fst a) \<and> string_equal s t = Some (fst a = t)"
  using cstr_at [of 0 "[]" "fst a"] by (auto simp: holds_text_def str_rep_def string_equal_def)

subsection \<open>Search, split and replacement\<close>

text \<open>A matcher finds a nonempty match inside the text.\<close>

definition match_ok :: "matcher \<Rightarrow> bool" where
  "match_ok rx \<longleftrightarrow> (\<forall>t so eo. rx t = Some (so, eo) \<longrightarrow> so < eo \<and> eo \<le> length t)"

lemma match_Nil: "match_ok rx \<Longrightarrow> rx [] = None"
proof (rule ccontr)
  assume m: "match_ok rx" "rx [] \<noteq> None"
  then obtain so eo where "rx [] = Some (so, eo)" by auto
  then have "so < eo \<and> eo \<le> length ([] :: bytes)" using m(1) unfolding match_ok_def by blast
  then show False by auto
qed

lemma match_cut:
  assumes "match_ok rx" "rx t = Some (so, eo)"
  obtains a d x b where "t = a @ (d @ [x]) @ b" "length a = so" "eo = so + length d + 1" "take so t = a" "drop eo t = b"
proof -
  have o: "so < eo" "eo \<le> length t" using assms by (auto simp: match_ok_def)
  let ?d = "take (eo - so) (drop so t)"
  have ne: "?d \<noteq> []" using o by simp
  have t: "t = take so t @ ?d @ drop eo t"
    using o append_take_drop_id [of so t] append_take_drop_id [of "eo - so" "drop so t"] by (simp add: drop_drop)
  show ?thesis
  proof (rule that [of "take so t" "butlast ?d" "last ?d" "drop eo t"])
    show "t = take so t @ (butlast ?d @ [last ?d]) @ drop eo t" by (subst append_butlast_last_id [OF ne]) (rule t)
  qed (use o in auto)
qed

text \<open>The words of a text between the matches; \<open>lim\<close> bounds the number of cuts.\<close>

function split_spec :: "matcher \<Rightarrow> nat option \<Rightarrow> bytes \<Rightarrow> bytes list" where
  "split_spec rx lim t =
     (case (if lim = Some 0 then None else rx t) of
        None \<Rightarrow> (if t = [] then [] else [t])
      | Some (so, eo) \<Rightarrow> (if 0 < eo \<and> eo \<le> length t then (if so = 0 then [] else [take so t]) @ split_spec rx (map_option (\<lambda>n. n - 1) lim) (drop eo t) else []))"
  by auto
termination
  by (relation "measure (\<lambda>(rx, lim, t). length t)") auto

declare split_spec.simps [simp del]

definition limit :: "int \<Rightarrow> int \<Rightarrow> nat option" where
  "limit num count = (if num \<le> 0 then None else Some (nat (num - count)))"

lemma limit_next: "count < num \<or> num \<le> 0 \<Longrightarrow> map_option (\<lambda>n. n - 1) (limit num count) = limit num (count + 1) \<and> limit num count \<noteq> Some 0"
  by (auto simp: limit_def)

lemma limit_stop: "0 \<le> count \<Longrightarrow> \<not> (count < num \<or> num \<le> 0) \<Longrightarrow> limit num count = Some 0"
  by (auto simp: limit_def)

text \<open>The texts that a list of pieces points to.\<close>

definition piece_texts :: "nat \<Rightarrow> bytes \<Rightarrow> piece list \<Rightarrow> bytes list \<Rightarrow> bool" where
  "piece_texts b m ps ws \<longleftrightarrow> list_all2 (\<lambda>p w. fst (fst p) = b \<and> cstr m (snd (fst p)) = Some w \<and> snd p = int (length w)) ps ws"

lemma split_cut:
  assumes "match_ok rx" "rx t = Some (so, eo)" "0 \<notin> set t"
  obtains e where "st1 (pre @ t @ 0 # rest) (int (length pre) + int eo - 1) 0 \<bind> (\<lambda>m. st1 m (int (length pre) + int so) 0) =
      Some (pre @ take so t @ 0 # e @ drop eo t @ 0 # rest)" "length (pre @ take so t @ 0 # e) = length pre + eo" "0 \<notin> set (take so t)" "0 \<notin> set (drop eo t)"
proof -
  obtain a d x b where t: "t = a @ (d @ [x]) @ b" "length a = so" "eo = so + length d + 1" "take so t = a" "drop eo t = b"
    by (rule match_cut [OF assms(1,2)])
  have m1: "st1 (pre @ t @ 0 # rest) (int (length pre) + int eo - 1) 0 = Some (pre @ a @ d @ 0 # b @ 0 # rest)"
    using st1_at [of "int (length pre) + int eo - 1" "pre @ a @ d" x "b @ 0 # rest" 0] t(1,2,3) by simp
  have z: "0 \<notin> set a" "0 \<notin> set b" using assms(3) t(1) by auto
  show ?thesis
  proof (cases d)
    case Nil
    have "st1 (pre @ a @ d @ 0 # b @ 0 # rest) (int (length pre) + int so) 0 = Some (pre @ a @ 0 # b @ 0 # rest)"
      using st1_at [of "int (length pre) + int so" "pre @ a" 0 "b @ 0 # rest" 0] t(2) Nil by simp
    then show ?thesis using that [of "[]"] m1 t(2-5) z Nil by simp
  next
    case (Cons y d')
    have "st1 (pre @ a @ d @ 0 # b @ 0 # rest) (int (length pre) + int so) 0 = Some (pre @ a @ 0 # d' @ 0 # b @ 0 # rest)"
      using st1_at [of "int (length pre) + int so" "pre @ a" y "d' @ 0 # b @ 0 # rest" 0] t(2) Cons by simp
    then show ?thesis using that [of "d' @ [0]"] m1 t(2-5) z Cons by simp
  qed
qed

lemma split_loop_ok:
  assumes rx: "match_ok rx"
  shows "0 \<notin> set t \<Longrightarrow> 0 \<le> count \<Longrightarrow> \<exists>m' pre' t' new ws. split_loop rx (pre @ t @ 0 # rest) b num (int (length pre)) count ps = Some (m', int (length pre'), ps @ new) \<and>
    m' = pre' @ t' @ 0 # rest \<and> 0 \<notin> set t' \<and> take (length pre) m' = pre \<and> piece_texts b m' new ws \<and>
    split_spec rx (limit num count) t = ws @ (if t' = [] then [] else [t'])"
proof (induction "length t" arbitrary: t pre count ps rule: less_induct)
  case less
  have c: "cstr (pre @ t @ 0 # rest) (int (length pre)) = Some t" by (rule cstr_at [OF refl less.prems(1)])
  show ?case
  proof (cases "(count < num \<or> num \<le> 0) \<and> rx t \<noteq> None")
    case False
    then have l: "split_loop rx (pre @ t @ 0 # rest) b num (int (length pre)) count ps = Some (pre @ t @ 0 # rest, int (length pre), ps @ [])"
      using c by (cases "rx t") (subst split_loop.simps, auto)+
    have sp: "split_spec rx (limit num count) t = [] @ (if t = [] then [] else [t])"
      using False less.prems(2) by (cases "rx t") (subst split_spec.simps, auto simp: limit_def)+
    show ?thesis
      by (intro exI conjI, rule l, rule refl, rule less.prems(1)) (use sp in \<open>auto simp: piece_texts_def\<close>)
  next
    case True
    then obtain so eo where r: "rx t = Some (so, eo)" by auto
    have o: "so < eo" "eo \<le> length t" using rx r by (auto simp: match_ok_def)
    obtain e where e: "st1 (pre @ t @ 0 # rest) (int (length pre) + int eo - 1) 0 \<bind> (\<lambda>m. st1 m (int (length pre) + int so) 0) =
        Some (pre @ take so t @ 0 # e @ drop eo t @ 0 # rest)" "length (pre @ take so t @ 0 # e) = length pre + eo" "0 \<notin> set (take so t)" "0 \<notin> set (drop eo t)"
      by (rule split_cut [OF rx r less.prems(1)])
    let ?pre = "pre @ take so t @ 0 # e" and ?ps = "if so \<noteq> 0 then ps @ [((b, int (length pre)), int so)] else ps"
    have len: "int (length pre) + int eo = int (length ?pre)" using e(2) by simp
    have "split_loop rx (pre @ t @ 0 # rest) b num (int (length pre)) count ps =
        split_loop rx (?pre @ drop eo t @ 0 # rest) b num (int (length ?pre)) (count + 1) ?ps"
    proof -
      have "split_loop rx (pre @ t @ 0 # rest) b num (int (length pre)) count ps =
          (st1 (pre @ t @ 0 # rest) (int (length pre) + int eo - 1) 0 \<bind> (\<lambda>m. st1 m (int (length pre) + int so) 0)) \<bind>
            (\<lambda>m2. split_loop rx m2 b num (int (length pre) + int eo) (count + 1) ?ps)"
        using True c r by (subst split_loop.simps) (simp add: Let_def)
      from this [unfolded e(1) bind_Some_eq] show ?thesis by (simp only: len append.assoc append_Cons)
    qed
    moreover obtain m' pre' t' new ws where ih: "split_loop rx (?pre @ drop eo t @ 0 # rest) b num (int (length ?pre)) (count + 1) ?ps = Some (m', int (length pre'), ?ps @ new)"
        "m' = pre' @ t' @ 0 # rest" "0 \<notin> set t'" "take (length ?pre) m' = ?pre" "piece_texts b m' new ws"
        "split_spec rx (limit num (count + 1)) (drop eo t) = ws @ (if t' = [] then [] else [t'])"
    proof -
      have "length (drop eo t) < length t" "0 \<le> count + 1" using o less.prems(2) by simp_all
      from less.hyps [OF this(1) e(4) this(2), of ?pre ?ps] show ?thesis using that by blast
    qed
    ultimately have l: "split_loop rx (pre @ t @ 0 # rest) b num (int (length pre)) count ps =
        Some (m', int (length pre'), ps @ (if so \<noteq> 0 then [((b, int (length pre)), int so)] else []) @ new)" by simp
    have tp: "take (length pre) m' = pre" using ih(4) by (metis append_eq_conv_conj take_take min.absorb1 length_append le_add1)
    have "m' = ?pre @ drop (length ?pre) m'" using ih(4) by (metis append_take_drop_id)
    then have "cstr m' (int (length pre)) = Some (take so t)" using cstr_at [OF refl e(3), of pre] by (metis append.assoc append_Cons)
    then have "piece_texts b m' ((if so \<noteq> 0 then [((b, int (length pre)), int so)] else []) @ new) ((if so = 0 then [] else [take so t]) @ ws)"
      using ih(5) o by (auto simp: piece_texts_def)
    moreover have "split_spec rx (limit num count) t = (if so = 0 then [] else [take so t]) @ split_spec rx (limit num (count + 1)) (drop eo t)"
      using True r o limit_next [of count num] by (subst split_spec.simps) auto
    ultimately show ?thesis using l ih(2,3,6) tp by (intro exI conjI) (rule l, auto)
  qed
qed

lemma split_law:
  assumes rep: "str_rep s xs rest" and rx: "regex delims = Some rx" "match_ok rx"
  shows "\<exists>s' ps. string_split regex s delims num = Some (int (length (split_spec rx (limit num 0) xs)), s') \<and>
    pieces s' = Some ps \<and> piece_texts (block s') (s_value s') ps (split_spec rx (limit num 0) xs)"
proof (cases "xs = []")
  case True
  then have "rx xs = None" using match_Nil [OF rx(2)] by simp
  then have "split_spec rx (limit num 0) xs = []" using True by (subst split_spec.simps) simp
  moreover have "cstr (s_value s) 0 = Some []" using cstr_at [of 0 "[]" "[]"] rep True by (simp add: str_rep_def)
  ultimately show ?thesis using rx(1) by (simp add: string_split_def Let_def piece_texts_def)
next
  case False
  have z: "0 \<notin> set xs" "s_value s = [] @ xs @ 0 # rest" using rep by (simp_all add: str_rep_def)
  obtain m' pre' t' new ws where l: "split_loop rx ([] @ xs @ 0 # rest) (block s) num (int (length [])) 0 [] = Some (m', int (length pre'), [] @ new)"
      "m' = pre' @ t' @ 0 # rest" "0 \<notin> set t'" "piece_texts (block s) m' new ws" "split_spec rx (limit num 0) xs = ws @ (if t' = [] then [] else [t'])"
    using split_loop_ok [OF rx(2) z(1), of 0 "[]" rest "block s" num "[]"] by auto
  have c: "cstr (s_value s) 0 = Some xs" using cstr_at [of 0 "[]" xs] z by simp
  have c': "cstr m' (int (length pre')) = Some t'" unfolding l(2) by (rule cstr_at [OF refl l(3)])
  let ?ps = "if t' \<noteq> [] then new @ [((block s, int (length pre')), int (length t'))] else new"
  have pt: "piece_texts (block s) m' ?ps (split_spec rx (limit num 0) xs)"
    using l(4,5) c' by (auto simp: piece_texts_def list_all2_appendI)
  then have "length ?ps = length (split_spec rx (limit num 0) xs)" unfolding piece_texts_def by (rule list_all2_lengthD)
  moreover have "string_split regex s delims num = Some (int (length ?ps), s\<lparr>s_value := m', pieces := Some ?ps\<rparr>)"
    using l(1) c c' False rx(1) z(2) by (simp add: string_split_def Let_def)
  ultimately show ?thesis using pt by auto
qed

text \<open>Every match is replaced; the search goes on behind the inserted text.\<close>

function replace_spec :: "matcher \<Rightarrow> bytes \<Rightarrow> nat option \<Rightarrow> bytes \<Rightarrow> nat \<times> bytes" where
  "replace_spec rx newstr lim t =
     (case (if lim = Some 0 then None else rx t) of
        None \<Rightarrow> (0, t)
      | Some (so, eo) \<Rightarrow>
          (if 0 < eo \<and> eo \<le> length t then
             (let (n, u) = replace_spec rx newstr (map_option (\<lambda>n. n - 1) lim) (drop eo t) in (Suc n, take so t @ newstr @ u))
           else (0, t)))"
  by auto
termination
  by (relation "measure (\<lambda>(rx, newstr, lim, t). length t)") auto

declare replace_spec.simps [simp del]

lemma find_one:
  assumes rep: "str_rep s (pre @ t) rest" and rx: "regex pattern = Some rx" "match_ok rx"
  shows "string_find regex s pattern (int (length pre)) 1 =
    (case rx t of None \<Rightarrow> Some (0, s\<lparr>pieces := Some []\<rparr>)
     | Some (so, eo) \<Rightarrow> Some (1, s\<lparr>pieces := Some [((block s, int (length pre) + int so), int eo - int so)]\<rparr>))"
proof -
  have "cstr (s_value s) 0 = Some (pre @ t)" using cstr_at [of 0 "[]" "pre @ t"] rep by (simp add: str_rep_def)
  moreover have "cstr (s_value s) (int (length pre)) = Some t" using cstr_at [OF refl, of t pre rest] rep by (simp add: str_rep_def)
  moreover have "rx t = None" if "pre @ t = []" using that match_Nil [OF rx(2)] by simp
  ultimately show ?thesis using rx(1)
    by (auto simp: string_find_def Let_def find_loop.simps split: option.split)
qed

lemma cut3: "n1 + n2 < length (zs :: bytes) \<Longrightarrow> \<exists>p q z ws. zs = p @ q @ z # ws \<and> length p = n1 \<and> length q = n2 \<and> length ws = length zs - n1 - n2 - 1"
proof -
  assume a: "n1 + n2 < length zs"
  have "zs = take n1 zs @ take n2 (drop n1 zs) @ drop (n1 + n2) zs" using append_take_drop_id [of n2 "drop n1 zs"] by (simp add: drop_drop add.commute)
  moreover have "drop (n1 + n2) zs = zs ! (n1 + n2) # drop (Suc (n1 + n2)) zs" using Cons_nth_drop_Suc [OF a] by simp
  ultimately have "zs = take n1 zs @ take n2 (drop n1 zs) @ zs ! (n1 + n2) # drop (Suc (n1 + n2)) zs" by simp
  then show ?thesis using a by (intro exI conjI) (assumption, auto)
qed

text \<open>The three stores of a replacement: the rest of the text, the new text and the zero.\<close>

lemma replace_stores:
  assumes "length newstr + length b < length (zs :: bytes)"
  obtains ws where "st (pre @ zs) (int (length pre) + int (length newstr)) b \<bind> (\<lambda>m1. st m1 (int (length pre)) newstr) \<bind>
      (\<lambda>m2. st1 m2 (int (length pre) + int (length newstr) + int (length b)) 0) = Some (pre @ newstr @ b @ 0 # ws)"
    "length ws = length zs - length newstr - length b - 1"
proof -
  obtain p q z ws where zs: "zs = p @ q @ z # ws" "length p = length newstr" "length q = length b" "length ws = length zs - length newstr - length b - 1"
    using cut3 [OF assms] by blast
  have "st (pre @ zs) (int (length pre) + int (length newstr)) b = Some (pre @ p @ b @ z # ws)"
    using st_at [of "int (length pre) + int (length newstr)" "pre @ p" b q "z # ws"] zs by simp
  moreover have "st (pre @ p @ b @ z # ws) (int (length pre)) newstr = Some (pre @ newstr @ b @ z # ws)"
    using st_at [of "int (length pre)" pre newstr p "b @ z # ws"] zs by simp
  moreover have "st1 (pre @ newstr @ b @ z # ws) (int (length pre) + int (length newstr) + int (length b)) 0 = Some (pre @ newstr @ b @ 0 # ws)"
    using st1_at [of "int (length pre) + int (length newstr) + int (length b)" "pre @ newstr @ b" z ws 0] by simp
  ultimately show ?thesis using that [of ws] zs(4) by simp
qed

text \<open>The room that a replacement of \<open>d\<close> asks for.\<close>

lemma replace_room:
  assumes rep: "str_rep s xs rest" and n0: "0 < n0" and r: "rest \<noteq> []" and f: "fits (length xs) (n0 + length newstr)"
  obtains s2 rest2 where "(if int n0 \<le> int n0 + int (length (newstr :: bytes)) - int d then modulate_capacity s (int n0 + int (length newstr) - int d) else Some s) = Some s2"
    "str_rep s2 xs rest2" "length newstr < d + length rest2"
proof (cases "d \<le> length newstr")
  case True
  let ?w = "n0 + length newstr - d"
  have "fits (length xs) ?w" using f by (simp add: fits_def)
  then obtain s2 rest2 where m: "modulate_capacity s (int ?w) = Some s2" "str_rep s2 xs rest2" "?w \<le> length rest2"
    by (rule modulate_ok [OF rep r])
  have "int n0 + int (length newstr) - int d = int ?w" using True by simp
  then show ?thesis using that [of s2 rest2] m True n0 by simp
next
  case False
  then show ?thesis using that [of s rest] rep by simp
qed

lemma replace_step:
  assumes rep: "str_rep s (pre @ a @ d @ b) rest" and rx: "regex pattern = Some rx" "match_ok rx" "rx (a @ d @ b) = Some (length a, length a + length d)"
    and nw: "0 \<notin> set newstr" and n0: "0 < n0" and r: "rest \<noteq> []" and f: "fits (length (pre @ a @ d @ b)) (n0 + length newstr)"
  obtains s' rest' where "replace_loop regex pattern newstr mx (int n0) s (int (length pre)) count =
      (if count + 1 < mx \<or> mx \<le> 0 then replace_loop regex pattern newstr mx (int n0) s' (int (length (pre @ a @ newstr))) (count + 1)
       else Some (count + 1, s'))"
    "str_rep s' ((pre @ a @ newstr) @ b) rest'" "rest' \<noteq> []"
proof -
  let ?pre = "pre @ a"
  have z: "0 \<notin> set ?pre" "0 \<notin> set b" using rep by (simp_all add: str_rep_def)
  define s1 where "s1 = s\<lparr>pieces := Some [((block s, int (length pre) + int (length a)), int (length d))]\<rparr>"
  have rep1: "str_rep s1 (pre @ a @ d @ b) rest" using rep by (simp add: s1_def str_rep_def)
  obtain s2 rest2 where s2: "(if int n0 \<le> int n0 + int (length newstr) - int (length d) then modulate_capacity s1 (int n0 + int (length newstr) - int (length d)) else Some s1) = Some s2"
      "str_rep s2 (pre @ a @ d @ b) rest2" "length newstr < length d + length rest2"
    by (rule replace_room [OF rep1 n0 r f])
  have v: "s_value s2 = ?pre @ (d @ b @ 0 # rest2)" "value_len s2 = int (length (pre @ a @ d @ b))" using s2(2) by (simp_all add: str_rep_def)
  have fit: "length newstr + length b < length (d @ b @ 0 # rest2)" using s2(3) by simp
  obtain ws where w: "st (?pre @ (d @ b @ 0 # rest2)) (int (length ?pre) + int (length newstr)) b \<bind> (\<lambda>m1. st m1 (int (length ?pre)) newstr) \<bind>
      (\<lambda>m2. st1 m2 (int (length ?pre) + int (length newstr) + int (length b)) 0) = Some (?pre @ newstr @ b @ 0 # ws)"
      "length ws = length (d @ b @ 0 # rest2) - length newstr - length b - 1"
    by (rule replace_stores [OF fit])
  have tail: "cstr (s_value s2) (int (length ?pre) + int (length d)) = Some b"
    using cstr_at [of "int (length ?pre) + int (length d)" "?pre @ d" b rest2] z(2) by (simp add: v(1))
  define s3 where "s3 = s2\<lparr>s_value := ?pre @ newstr @ b @ 0 # ws, value_len := int (length ?pre) + int (length newstr) + int (length b)\<rparr>"
  have find: "string_find regex s pattern (int (length pre)) 1 = Some (1, s1)" using find_one [of s pre "a @ d @ b" rest regex pattern rx] rep rx by (simp add: s1_def)
  have off: "value_len s2 + (int (length newstr) - int (length d)) = int (length ?pre) + int (length newstr) + int (length b)" using v(2) by simp
  have ps: "pieces s1 = Some [((block s1, int (length ?pre)), int (length d))]" by (simp add: s1_def)
  have "replace_loop regex pattern newstr mx (int n0) s (int (length pre)) count =
      (if count + 1 < mx \<or> mx \<le> 0 then replace_loop regex pattern newstr mx (int n0) s3 (int (length ?pre) + int (length newstr)) (count + 1) else Some (count + 1, s3))"
  proof -
    obtain m1 m2 where m: "st (s_value s2) (int (length ?pre) + int (length newstr)) b = Some m1" "st m1 (int (length ?pre)) newstr = Some m2"
        "st1 m2 (int (length ?pre) + int (length newstr) + int (length b)) 0 = Some (?pre @ newstr @ b @ 0 # ws)"
      using w(1) unfolding v(1) [symmetric] bind_eq_Some_iff by blast
    have one: "((1 :: int) \<le> 0 \<or> (1 :: int) > 1) = False" by simp
    show ?thesis unfolding s3_def
      by (subst replace_loop.simps)
        (simp only: find ps s2(1) tail off m Let_def bind_Some_eq one prod.case list.case if_False guard_simps(1) simp_thms)
  qed
  moreover have "str_rep s3 ((pre @ a @ newstr) @ b) ws" using s2(2) w(2) z nw fit by (auto simp: s3_def str_rep_def)
  moreover have "ws \<noteq> []" using w(2) s2(3) by auto
  ultimately show ?thesis using that [of s3 ws] by (simp add: add.assoc)
qed

lemma replace_spec_step:
  assumes "match_ok rx" "rx (a @ d @ b) = Some (length a, length a + length d)" "lim \<noteq> Some 0"
  shows "replace_spec rx newstr lim (a @ d @ b) =
    (Suc (fst (replace_spec rx newstr (map_option (\<lambda>n. n - 1) lim) b)), a @ newstr @ snd (replace_spec rx newstr (map_option (\<lambda>n. n - 1) lim) b))"
proof -
  have "length a < length a + length d" using assms(1,2) unfolding match_ok_def by blast
  then show ?thesis using assms(2,3) by (subst replace_spec.simps) (auto simp: Let_def split_def)
qed

lemma replace_spec_stop: "lim = Some 0 \<or> rx t = None \<Longrightarrow> replace_spec rx newstr lim t = (0, t)"
  by (subst replace_spec.simps) auto

lemma replace_loop_ok:
  assumes rx: "regex pattern = Some rx" "match_ok rx" and nw: "0 \<notin> set newstr" and n0: "0 < n0" and f: "fits bnd (n0 + length newstr)"
  shows "str_rep s (pre @ t) rest \<Longrightarrow> rest \<noteq> [] \<Longrightarrow> length pre + length t * Suc (length newstr) \<le> bnd \<Longrightarrow> 0 \<le> count \<Longrightarrow> count < mx \<or> mx \<le> 0 \<Longrightarrow>
    \<exists>s' rest'. replace_loop regex pattern newstr mx (int n0) s (int (length pre)) count =
      Some (count + int (fst (replace_spec rx newstr (limit mx count) t)), s') \<and> str_rep s' (pre @ snd (replace_spec rx newstr (limit mx count) t)) rest' \<and> rest' \<noteq> []"
proof (induction "length t" arbitrary: t s pre rest count rule: less_induct)
  case less
  show ?case
  proof (cases "rx t")
    case None
    then have "replace_loop regex pattern newstr mx (int n0) s (int (length pre)) count = Some (count, s\<lparr>pieces := Some []\<rparr>)"
      using find_one [of s pre t rest regex pattern rx] less.prems(1) rx by (subst replace_loop.simps) simp
    then show ?thesis using less.prems(1,2) replace_spec_stop [of "limit mx count" rx t newstr] None by (auto simp: str_rep_def)
  next
    case (Some q)
    then obtain so eo where q: "rx t = Some (so, eo)" by (cases q) auto
    obtain a d' x b where c: "t = a @ (d' @ [x]) @ b" "length a = so" "eo = so + length d' + 1" by (rule match_cut [OF rx(2) q])
    define d where "d = d' @ [x]"
    have t: "t = a @ d @ b" "length d = eo - so" "0 < length d" using c by (simp_all add: d_def)
    have q': "rx (a @ d @ b) = Some (length a, length a + length d)" using q c t by simp
    have lt: "length t = length a + length d + length b" using t(1) by simp
    have bl: "length (pre @ a @ newstr) + length b * Suc (length newstr) \<le> bnd"
    proof -
      have "length (pre @ a @ newstr) + length b * Suc (length newstr) \<le> length pre + (length a + length d + length b) * Suc (length newstr)"
        using t(3) by (cases "length d") (simp_all add: algebra_simps)
      then show ?thesis using less.prems(3) lt by simp
    qed
    have "length (pre @ t) \<le> bnd" using less.prems(3) by simp
    then have fb: "fits (length (pre @ a @ d @ b)) (n0 + length newstr)" using f t(1) by (simp add: fits_def)
    obtain s1 rest1 where s1: "replace_loop regex pattern newstr mx (int n0) s (int (length pre)) count =
          (if count + 1 < mx \<or> mx \<le> 0 then replace_loop regex pattern newstr mx (int n0) s1 (int (length (pre @ a @ newstr))) (count + 1) else Some (count + 1, s1))"
        "str_rep s1 ((pre @ a @ newstr) @ b) rest1" "rest1 \<noteq> []"
      by (rule replace_step [where s = s and pre = pre and a = a and d = d and b = b and rest = rest and regex = regex and pattern = pattern and rx = rx
            and newstr = newstr and ?n0.0 = n0 and mx = mx and count = count])
        (use less.prems(1,2) rx q' nw n0 fb in \<open>simp_all add: t(1) del: append_assoc\<close>)
    let ?r = "replace_spec rx newstr (limit mx (count + 1)) b"
    have sp: "replace_spec rx newstr (limit mx count) t = (Suc (fst ?r), a @ newstr @ snd ?r)"
      unfolding t(1) using replace_spec_step [OF rx(2) q', of "limit mx count" newstr] limit_next [OF less.prems(5)] by simp
    have "\<exists>s' rest'. replace_loop regex pattern newstr mx (int n0) s (int (length pre)) count = Some (count + 1 + int (fst ?r), s') \<and>
        str_rep s' ((pre @ a @ newstr) @ snd ?r) rest' \<and> rest' \<noteq> []"
    proof (cases "count + 1 < mx \<or> mx \<le> 0")
      case True
      have "length b < length t" using lt t(3) by simp
      from less.hyps [OF this s1(2,3) bl _ True] show ?thesis using s1(1) True less.prems(4) by simp
    next
      case False
      then have "?r = (0, b)" using replace_spec_stop [of "limit mx (count + 1)"] limit_stop [of "count + 1" mx] less.prems(4) by simp
      then show ?thesis using s1 False by (intro exI [of _ s1] exI [of _ rest1]) simp
    qed
    then show ?thesis using sp by (auto simp: add.assoc)
  qed
qed

lemma replace_law:
  assumes "str_rep s xs rest" "rest \<noteq> []" "regex pattern = Some rx" "match_ok rx" "0 \<notin> set newstr"
    "fits (length xs * Suc (length newstr)) (length xs + length newstr)"
  shows "\<exists>s' rest'. string_replace regex s pattern newstr mx = Some (int (fst (replace_spec rx newstr (limit mx 0) xs)), s') \<and>
    str_rep s' (snd (replace_spec rx newstr (limit mx 0) xs)) rest' \<and> rest' \<noteq> []"
proof (cases "xs = []")
  case True
  then have "string_replace regex s pattern newstr mx = Some (0, s\<lparr>pieces := Some []\<rparr>)"
    using find_one [of s "[]" "[]" rest regex pattern rx] assms match_Nil [OF assms(4)] unfolding string_replace_def
    by (subst replace_loop.simps) simp
  then show ?thesis using assms(1,2) replace_spec_stop [of "limit mx 0" rx "[]" newstr] match_Nil [OF assms(4)] True by (auto simp: str_rep_def)
next
  case False
  have "0 < mx \<or> mx \<le> 0" by linarith
  then show ?thesis using False
    using replace_loop_ok [of regex pattern rx newstr "length xs" "length xs * Suc (length newstr)" s "[]" xs rest 0 mx] assms rep_len [OF assms(1)]
    by (auto simp: string_replace_def)
qed

subsection \<open>Properties\<close>

text \<open>C19.
  Every sequence of assignments, appends, insertions, case conversions, left trims and resets on a string whose block is never
  full when an operation starts: all accesses stay in the block, through its reallocations, the length that is reported is that of
  the text, and the C string is the text that the operations describe.\<close>

theorem string_history:
  assumes "holds_text s a" "service_legal str_spec str_legal a qs"
  shows "\<exists>s'. service_run string_step s qs = Some (fst (service_spec str_spec a qs), s') \<and>
    cstr (s_value s') 0 = Some (fst (snd (service_spec str_spec a qs))) \<and> (\<forall>t. string_equal s' t = Some (fst (snd (service_spec str_spec a qs)) = t))"
  using str.run_law [OF assms] holds_cstr by blast

lemma construct_holds: "holds_text string_construct ([], 256)"
  using construct_rep by (auto simp: holds_text_def intro!: exI [of _ "replicate 255 0"])

theorem string_history_witness:
  "\<exists>s'. service_run string_step string_construct [Assign [104, 105], Append [33], Insert 0 [32], To_upper, Ltrim, Append_char 63] = Some ([2, 3, 4, 4, 3, 4], s') \<and>
     cstr (s_value s') 0 = Some [72, 73, 33, 63]"
proof -
  let ?qs = "[Assign [104, 105], Append [33], Insert 0 [32], To_upper, Ltrim, Append_char 63]"
  have "service_legal str_spec str_legal ([], 256) ?qs"
    by (simp add: str_spec_def str_legal_def fits_def grow_def islower_def isspace_def)
  moreover have "service_spec str_spec ([], 256) ?qs = ([2, 3, 4, 4, 3, 4], [72, 73, 33, 63], 256)"
    by (simp add: str_spec_def grow_def islower_def isspace_def)
  ultimately show ?thesis using string_history [OF construct_holds, of ?qs] by auto
qed

text \<open>Single characters, one after the other.\<close>

fun append_all :: "string_s \<Rightarrow> bytes \<Rightarrow> string_s option" where
  "append_all s [] = Some s"
| "append_all s (c # cs) = do { s1 \<leftarrow> string_append_char s c; append_all s1 cs }"

lemma append_all_ok:
  "str_rep s xs rest \<Longrightarrow> 0 \<notin> set cs \<Longrightarrow> length cs \<le> length rest \<Longrightarrow> fits (length xs + length cs) 1 \<Longrightarrow>
   \<exists>s' rest'. append_all s cs = Some s' \<and> str_rep s' (xs @ cs) rest' \<and> length rest' = length rest - length cs"
proof (induction cs arbitrary: s xs rest)
  case (Cons c cs)
  obtain r rs where r: "rest = r # rs" using Cons.prems(3) by (cases rest) auto
  obtain s1 where s1: "string_append_char s c = Some s1" "str_rep s1 (xs @ [c]) rs"
    using append_char_law [OF Cons.prems(1), of c] Cons.prems(2,4) r by (auto simp: fits_def)
  then show ?case using Cons.IH [OF s1(2)] Cons.prems(2,3,4) r by (auto simp: fits_def)
qed auto

text \<open>
  \<open>append_char\<close> never enlarges the block: on a fresh string it succeeds for exactly 255 characters, and whatever they were, the next
  one writes its terminating zero behind the block.\<close>

theorem append_char_overflow:
  assumes "0 \<notin> set cs" "length cs = 255" "c \<noteq> 0"
  shows "\<exists>s. append_all string_construct cs = Some s \<and> cstr (s_value s) 0 = Some cs \<and> string_append_char s c = None"
proof -
  obtain s rest where s: "append_all string_construct cs = Some s" "str_rep s cs rest" "length rest = 0"
    using append_all_ok [OF construct_rep assms(1)] assms(2) by (auto simp: fits_def)
  moreover have "cstr (s_value s) 0 = Some cs" using cstr_at [of 0 "[]" cs rest] s(2) by (simp add: str_rep_def)
  moreover have "string_append_char s c = None" using append_char_law [OF s(2) _ assms(3)] s(3) assms(2) by (auto simp: fits_def)
  ultimately show ?thesis by blast
qed

theorem append_char_overflow_witness:
  "\<exists>s. append_all string_construct (replicate 255 65) = Some s \<and> cstr (s_value s) 0 = Some (replicate 255 65) \<and> string_append_char s 66 = None"
  by (rule append_char_overflow) simp_all

text \<open>A string whose length still counts \<open>k\<close> bytes behind the end of its text.\<close>

definition stale_rep :: "string_s \<Rightarrow> bytes \<Rightarrow> nat \<Rightarrow> bytes \<Rightarrow> bool" where
  "stale_rep s xs k rest \<longleftrightarrow> s_value s = xs @ replicate k 0 @ 0 # rest \<and> value_max_len s = int (Suc (length xs + k + length rest)) \<and>
     value_len s = int (length xs + k) \<and> 0 \<notin> set xs"

lemma stale_cstr: "stale_rep s xs k rest \<Longrightarrow> cstr (s_value s) 0 = Some xs"
  using cstr_at [of 0 "[]" xs] by (cases k) (simp_all add: stale_rep_def)

lemma modulate_stale:
  assumes rep: "stale_rep s xs k rest" and r: "rest \<noteq> []" and f: "fits (length xs + k) w"
  obtains s1 rest1 where "modulate_capacity s (int w) = Some s1" "stale_rep s1 xs k rest1" "w \<le> length rest1"
proof (cases "length rest < w")
  case False
  then have "modulate_capacity s (int w) = Some s" using rep f by (simp add: modulate_capacity_def stale_rep_def fits_def)
  then show ?thesis using that [of s rest] rep False by simp
next
  case True
  let ?n = "length xs + k"
  let ?mx = "2 * (?n + w + 1)"
  let ?rest = "replicate (?n + 2 * w + 1) 0"
  have sp: "replicate ?mx (0 :: u8) = [] @ replicate ?n 0 @ 0 # ?rest"
    by (simp flip: replicate_Suc replicate_add)
  have "strncpy_src (s_value s) 0 (value_len s) = Some (xs @ replicate k 0)"
    using rep takeWhile_text [of xs "replicate k 0"] by (simp add: stale_rep_def strncpy_src_def nat_add_distrib)
  moreover have "st (replicate ?mx 0) 0 (xs @ replicate k 0) = Some (xs @ replicate k 0 @ 0 # ?rest)"
    unfolding sp by (subst st_at) simp_all
  moreover have "nat (2 * (value_len s + int w + 1)) = ?mx" using rep by (simp add: stale_rep_def)
  ultimately have "modulate_capacity s (int w) =
      Some (s\<lparr>s_value := xs @ replicate k 0 @ 0 # ?rest, block := Suc (block s), value_max_len := 2 * (value_len s + int w + 1)\<rparr>)"
    using rep True f r by (simp add: modulate_capacity_def stale_rep_def fits_def Let_def)
  then show ?thesis
    by (rule that [of _ ?rest]) (use rep True in \<open>auto simp: stale_rep_def\<close>)
qed

lemma append_stale:
  assumes rep: "stale_rep s xs k rest" and k: "0 < k" and r: "rest \<noteq> []" and t: "0 \<notin> set t" and f: "fits (length xs + k) (length t + (length xs + k))"
  shows "\<exists>s'. string_append s (t @ [0]) 0 (-1) = Some s' \<and> cstr (s_value s') 0 = Some xs \<and> string_get_len s' = int (length xs + k + length t)"
proof -
  obtain s1 rest1 where m: "modulate_capacity s (int (length t + (length xs + k))) = Some s1" "stale_rep s1 xs k rest1" "length t + (length xs + k) \<le> length rest1"
    by (rule modulate_stale [OF rep r f])
  have len: "strlen (t @ [0]) 0 = Some (int (length t))" using cstr_at [of 0 "[]" t "[]"] t by (simp add: strlen_def)
  have sc: "strncpy_src (t @ [0]) 0 (int (length t)) = Some t" using strncpy_at [of 0 "[]" "int (length t)" t "[0]"] t by simp
  obtain z ys ws where c: "0 # rest1 = ys @ z # ws" "length ys = length t"
    by (rule spare_cut [of "length t" rest1]) (use m(3) in auto)
  let ?pre = "xs @ replicate k 0"
  have v: "s_value s1 = ?pre @ ys @ z # ws" "value_len s1 = int (length ?pre)" "value_len s = int (length ?pre)"
    using m(2) rep c(1) by (simp_all add: stale_rep_def)
  have "st (s_value s1) (int (length ?pre)) t = Some (?pre @ t @ z # ws)" unfolding v by (rule st_at) (use c in auto)
  moreover have "st1 (?pre @ t @ z # ws) (int (length ?pre) + int (length t)) 0 = Some (?pre @ t @ 0 # ws)"
    using st1_at [of "int (length ?pre) + int (length t)" "?pre @ t" z ws 0] by simp
  ultimately have "string_append s (t @ [0]) 0 (-1) = Some (s1\<lparr>s_value := ?pre @ t @ 0 # ws, value_len := int (length ?pre) + int (length t)\<rparr>)"
    using m(1) len sc v by (simp add: string_append_def)
  moreover have "cstr (?pre @ t @ 0 # ws) 0 = Some xs"
    using cstr_at [of 0 "[]" xs "replicate (k - 1) 0 @ t @ 0 # ws"] k m(2) by (cases k) (simp_all add: stale_rep_def)
  ultimately show ?thesis by (simp add: string_get_len_def)
qed

lemma rstrip_append: "\<forall>c \<in> set ys. isspace c \<Longrightarrow> xs = [] \<or> \<not> isspace (last xs) \<Longrightarrow> rstrip (xs @ ys) = xs"
proof -
  assume a: "\<forall>c \<in> set ys. isspace c" "xs = [] \<or> \<not> isspace (last xs)"
  have "dropWhile isspace (rev ys @ rev xs) = dropWhile isspace (rev xs)" using a(1) by (intro dropWhile_append2) auto
  then show ?thesis using a(2) by (cases xs rule: rev_cases) auto
qed

text \<open>\<open>rtrim\<close> removes the white space at the end of the C string but keeps the old length; a text that is appended after it is stored behind
  the terminating zero, so that the C string does not change although the length grows.\<close>

theorem rtrim_stale_length:
  assumes rep: "str_rep s (xs @ ys) rest" and y: "ys \<noteq> []" "\<forall>c \<in> set ys. isspace c" "xs = [] \<or> \<not> isspace (last xs)"
    and t: "0 \<notin> set t" "rest \<noteq> []" "fits (length (xs @ ys)) (length t + length (xs @ ys))"
  shows "\<exists>s1 s2. string_rtrim s = Some s1 \<and> cstr (s_value s1) 0 = Some xs \<and> string_get_len s1 = int (length (xs @ ys)) \<and>
    string_append s1 (t @ [0]) 0 (-1) = Some s2 \<and> cstr (s_value s2) 0 = Some xs \<and> string_get_len s2 = int (length (xs @ ys @ t))"
proof -
  define s1 where "s1 = s\<lparr>s_value := xs @ replicate (length ys) 0 @ 0 # rest\<rparr>"
  have "string_rtrim s = Some s1" using rtrim_law [OF rep] unfolding rstrip_append [OF y(2,3)] by (simp add: s1_def)
  moreover have st: "stale_rep s1 xs (length ys) rest" using rep by (simp add: stale_rep_def str_rep_def s1_def)
  moreover have "string_get_len s1 = int (length (xs @ ys))" using st by (simp add: stale_rep_def string_get_len_def)
  ultimately show ?thesis using append_stale [OF st _ t(2,1)] stale_cstr [OF st] y(1) t(3) by auto
qed

lemma space_texts: "isspace 32" "\<not> isspace 105"
  by (simp_all add: isspace_def)

theorem rtrim_stale_length_witness:
  "\<exists>s s1 s2. string_assign string_construct [104, 105, 32, 32] = Some s \<and> string_rtrim s = Some s1 \<and> cstr (s_value s1) 0 = Some [104, 105] \<and>
     string_get_len s1 = 4 \<and> string_append s1 ([33] @ [0]) 0 (-1) = Some s2 \<and> cstr (s_value s2) 0 = Some [104, 105] \<and> string_get_len s2 = 5"
proof -
  obtain s rest where s: "string_assign string_construct [104, 105, 32, 32] = Some s" "str_rep s [104, 105, 32, 32] rest" "Suc (4 + length rest) = 256"
    using assign_law [OF construct_rep, of "[104, 105, 32, 32]"] by (auto simp: fits_def grow_def)
  moreover have "rest \<noteq> []" using s(3) by auto
  ultimately show ?thesis using rtrim_stale_length [of s "[104, 105]" "[32, 32]" rest "[33]"] by (auto simp: space_texts fits_def)
qed

text \<open>C20.
  \<open>split\<close> on a string whose length is that of its text, with a pattern that compiles and whose matches are never empty and lie in the
  text (on an empty match the code does not end): it ends, every access stays in the block, the result is the number of nonempty words
  between the matches (at most \<open>num\<close> cuts when \<open>num\<close> is positive), and \<open>get_splited_cstr\<close> returns for each index a pointer into the
  block at which the C string is that word.\<close>

theorem split_words:
  assumes "str_rep s xs rest" "regex delims = Some rx" "match_ok rx"
  shows "\<exists>s'. string_split regex s delims num = Some (int (length (split_spec rx (limit num 0) xs)), s') \<and>
    (\<forall>i. case string_get_splited_cstr s' i of
       None \<Rightarrow> length (split_spec rx (limit num 0) xs) \<le> i
     | Some (b, off) \<Rightarrow> b = block s' \<and> i < length (split_spec rx (limit num 0) xs) \<and> cstr (s_value s') off = Some (split_spec rx (limit num 0) xs ! i))"
proof -
  obtain s' ps where s': "string_split regex s delims num = Some (int (length (split_spec rx (limit num 0) xs)), s')" "pieces s' = Some ps"
      "piece_texts (block s') (s_value s') ps (split_spec rx (limit num 0) xs)"
    using split_law [of s xs rest regex delims rx num] assms by blast
  then show ?thesis
    by (intro exI [of _ s']) (auto simp: string_get_splited_cstr_def piece_texts_def list_all2_conv_all_nth split: prod.split)
qed

text \<open>A matcher for the first occurrence of a byte, as for a pattern that is one ordinary character.\<close>

definition char_matcher :: "u8 \<Rightarrow> matcher" where
  "char_matcher c t = (let n = length (takeWhile (\<lambda>b. b \<noteq> c) t) in if n < length t then Some (n, n + 1) else None)"

lemma char_matcher_ok: "match_ok (char_matcher c)"
  by (auto simp: match_ok_def char_matcher_def Let_def split: if_splits)

theorem split_words_witness:
  "\<exists>s s'. string_assign string_construct [97, 44, 44, 98] = Some s \<and> string_split (\<lambda>_. Some (char_matcher 44)) s [44] 0 = Some (2, s') \<and>
     (\<exists>b off. string_get_splited_cstr s' 1 = Some (b, off) \<and> cstr (s_value s') off = Some [98])"
proof -
  obtain s rest where s: "string_assign string_construct [97, 44, 44, 98] = Some s" "str_rep s [97, 44, 44, 98] rest"
    using assign_law [OF construct_rep, of "[97, 44, 44, 98]"] by (auto simp: fits_def)
  have sp: "split_spec (char_matcher 44) (limit 0 0) [97, 44, 44, 98] = [[97], [98]]"
    by (simp add: split_spec.simps char_matcher_def limit_def)
  obtain s' where s': "string_split (\<lambda>_. Some (char_matcher 44)) s [44] 0 = Some (int (length [[97], [98 :: u8]]), s')"
      "\<forall>i. case string_get_splited_cstr s' i of None \<Rightarrow> length [[97], [98 :: u8]] \<le> i
       | Some (b, off) \<Rightarrow> b = block s' \<and> i < length [[97], [98 :: u8]] \<and> cstr (s_value s') off = Some ([[97], [98]] ! i)"
    using split_words [of s "[97, 44, 44, 98]" rest "\<lambda>_. Some (char_matcher 44)" "[44]" "char_matcher 44" 0, OF s(2) refl char_matcher_ok] unfolding sp by blast
  then show ?thesis using s(1) spec [OF s'(2), of 1] by (cases "string_get_splited_cstr s' 1") auto
qed

text \<open>C21.
  \<open>replace\<close> with a pattern that compiles and whose matches are never empty and lie in the text (on an empty match the code does not end), on
  a string whose block is not full (a full one is overrun), when the longest possible result stays in the range of \<open>int\<close>: it ends, every access stays in the block through its
  reallocations, the result is the number of replacements, the C string is the text with the matches replaced one after the other (all of them, or
  the first \<open>max\<close>), the search going on behind the inserted text, and the length is that of the text.\<close>

theorem replace_text:
  assumes "str_rep s xs rest" "rest \<noteq> []" "regex pattern = Some rx" "match_ok rx" "0 \<notin> set newstr"
    "fits (length xs * Suc (length newstr)) (length xs + length newstr)"
  shows "\<exists>s'. string_replace_ptr regex s (Some pattern) (Some newstr) mx = Some (int (fst (replace_spec rx newstr (limit mx 0) xs)), s') \<and>
    cstr (s_value s') 0 = Some (snd (replace_spec rx newstr (limit mx 0) xs)) \<and>
    string_get_len s' = int (length (snd (replace_spec rx newstr (limit mx 0) xs)))"
proof -
  obtain s' rest' where s': "string_replace regex s pattern newstr mx = Some (int (fst (replace_spec rx newstr (limit mx 0) xs)), s')"
      "str_rep s' (snd (replace_spec rx newstr (limit mx 0) xs)) rest'"
    using replace_law [of s xs rest regex pattern rx newstr mx] assms by blast
  moreover have "cstr (s_value s') 0 = Some (snd (replace_spec rx newstr (limit mx 0) xs))"
    using cstr_at [of 0 "[]"] s'(2) by (simp add: str_rep_def)
  ultimately show ?thesis using rep_len by (auto simp: string_replace_ptr_def)
qed

theorem replace_text_witness:
  "\<exists>s s'. string_assign string_construct [97, 44, 98, 44] = Some s \<and>
     string_replace_ptr (\<lambda>_. Some (char_matcher 44)) s (Some [44]) (Some [44, 32]) 0 = Some (2, s') \<and> cstr (s_value s') 0 = Some [97, 44, 32, 98, 44, 32] \<and> string_get_len s' = 6"
proof -
  obtain s rest where s: "string_assign string_construct [97, 44, 98, 44] = Some s" "str_rep s [97, 44, 98, 44] rest" "Suc (4 + length rest) = 256"
    using assign_law [OF construct_rep, of "[97, 44, 98, 44]"] by (auto simp: fits_def grow_def)
  have sp: "replace_spec (char_matcher 44) [44, 32] (limit 0 0) [97, 44, 98, 44] = (2, [97, 44, 32, 98, 44, 32])"
    by (simp add: replace_spec.simps char_matcher_def limit_def)
  have "rest \<noteq> []" using s(3) by auto
  then show ?thesis
    using replace_text [of s "[97, 44, 98, 44]" rest "\<lambda>_. Some (char_matcher 44)" "[44]" "char_matcher 44" "[44, 32]" 0] s(1,2) char_matcher_ok sp
    by (auto simp: fits_def)
qed

end
