(* ===== verification/StringIO.thy ===== *)
theory StringIO
  imports StringObj RingBuffer
begin

text \<open>
  The operations \<open>read_to_string\<close> of \<open>Buffer\<close> and \<open>Ring_Buffer\<close>: they append bytes of the block to an object of class \<open>String\<close>.
  \<open>String.append\<close> takes a length that is not positive as the request for the whole C string, which both callers may pass by accident.
\<close>

definition buffer_read_to_string :: "buffer \<Rightarrow> string_s \<Rightarrow> int \<Rightarrow> (int \<times> buffer \<times> string_s) option" where
  "buffer_read_to_string b s len =
     (let l = buffer_get_len b in
      if len > l then Some (-1, b, s)
      else do { s' \<leftarrow> string_append_ptr s (Some (b_addr b, b_r_offset b)) len;
                Some (len, b\<lparr>b_r_offset := b_r_offset b + len\<rparr>, s') })"

definition rb_append_to :: "ring_buffer \<Rightarrow> string_s \<Rightarrow> int \<Rightarrow> string_s option" where
  "rb_append_to rb s l =
     (if rb_w_offset rb > rb_r_offset rb then string_append_ptr s (Some (rb_addr rb, rb_r_offset rb)) l
      else if l < rb_size rb - rb_r_offset rb then string_append_ptr s (Some (rb_addr rb, rb_r_offset rb)) l
      else do { s1 \<leftarrow> string_append_ptr s (Some (rb_addr rb, rb_r_offset rb)) (rb_size rb - rb_r_offset rb);
                string_append_ptr s1 (Some (rb_addr rb, 0)) (l - rb_size rb + rb_r_offset rb) })"

definition rb_read_to_string :: "ring_buffer \<Rightarrow> string_s \<Rightarrow> int \<Rightarrow> (int \<times> ring_buffer \<times> string_s) option" where
  "rb_read_to_string rb s len =
     (case rb_readable rb of
        None \<Rightarrow> Some (0, rb, s)
      | Some l0 \<Rightarrow>
          let l = (if l0 > len then len else l0) in
          do { s' \<leftarrow> rb_append_to rb s l;
               Some (l, rb\<lparr>rb_r_offset := (rb_r_offset rb + l) mod rb_size rb, rb_flag := BUFFER_READ_OPERATION\<rparr>, s') })"

subsection \<open>Appending a part of a block\<close>

text \<open>A string with room: its block stays unfilled when \<open>k\<close> bytes are appended, in one or in two parts.\<close>

definition roomy :: "bytes \<Rightarrow> bytes \<Rightarrow> nat \<Rightarrow> bool" where
  "roomy xs rest k \<longleftrightarrow> rest \<noteq> [] \<and> (xs \<noteq> [] \<or> k < length rest) \<and> fits (length xs + k) (length xs + k)"

lemma append_part:
  assumes rep: "str_rep s xs rest" and room: "roomy xs rest k" and t: "0 < l" "l \<le> k" "off + l \<le> length m" "0 \<notin> set (take l (drop off m))"
  shows "\<exists>s' rest'. string_append_ptr s (Some (m, int off)) (int l) = Some s' \<and> str_rep s' (xs @ take l (drop off m)) rest' \<and>
    roomy (xs @ take l (drop off m)) rest' (k - l)"
proof -
  let ?t = "take l (drop off m)"
  have len: "length ?t = l" "length (take off m) = off" using t(3) by simp_all
  have ne: "?t \<noteq> []" using len(1) t(1) by (metis list.size(3) nat_neq_iff)
  have m: "m = take off m @ ?t @ drop (off + l) m" by (metis append_take_drop_id drop_drop add.commute)
  have f: "fits (length xs) (length ?t + length xs)" "fits (length xs + l + (k - l)) (length xs + l + (k - l))"
    using room t(2) len by (simp_all add: roomy_def fits_def)
  obtain s' rest' where s': "string_append s m (int off) (int l) = Some s'" "str_rep s' (xs @ ?t) rest'"
      "capacity (xs @ ?t) rest' = grow (length xs) (capacity xs rest) (length ?t + length xs)"
    using append_law [of s xs rest ?t "int l" m "take off m" "drop (off + l) m"] rep room t(4) f(1) m len ne unfolding roomy_def by auto
  have "length rest' = (if length rest < l + length xs then 2 * (2 * length xs + l) + 1 - length xs - l else length rest - l)"
    using s'(3) len(1) room by (auto simp: grow_def roomy_def split: if_splits)
  moreover have "Suc 0 \<le> length xs \<or> k < length rest" using room by (auto simp: roomy_def Suc_le_eq)
  ultimately have "0 < length rest'" using t(1,2) by (auto simp del: length_greater_0_conv split: if_splits)
  then have "rest' \<noteq> []" by simp
  then show ?thesis using s'(1,2) f(2) ne len(1) by (auto simp: string_append_ptr_def roomy_def)
qed

lemma append_cstr:
  assumes rep: "str_rep s xs rest" and room: "roomy xs rest k" and u: "m = u @ 0 # v" "0 \<notin> set u" "length u \<le> k"
  shows "\<exists>s' rest'. string_append_ptr s (Some (m, 0)) 0 = Some s' \<and> str_rep s' (xs @ u) rest'"
proof -
  have "fits (length xs) (length u + length xs)" using room u(3) by (simp add: roomy_def fits_def)
  then show ?thesis using append_law [of s xs rest u 0 m "[]" v] rep room u by (auto simp: string_append_ptr_def roomy_def)
qed

subsection \<open>Properties\<close>

text \<open>\<open>Buffer.read_to_string\<close> for a positive length: the bytes at the read offset move from the buffer to the end of the string, as \<open>read\<close> would
  return them, and a request for more than the buffer holds is refused with neither object changed.\<close>

theorem buffer_read_to_string_text:
  assumes inv: "buffer_inv b" and rep: "str_rep s xs rest" and k: "0 < k" "0 \<notin> set (take k (buffer_contents b))" and room: "roomy xs rest k"
  shows "if k \<le> length (buffer_contents b)
    then \<exists>b' s'. buffer_read_to_string b s (int k) = Some (int k, b', s') \<and> buffer_inv b' \<and> buffer_contents b' = drop k (buffer_contents b) \<and>
      cstr (s_value s') 0 = Some (xs @ take k (buffer_contents b)) \<and> string_get_len s' = int (length xs + k)
    else buffer_read_to_string b s (int k) = Some (-1, b, s)"
proof (cases "k \<le> length (buffer_contents b)")
  case False
  then show ?thesis using length_buffer_contents [OF inv] by (simp add: buffer_read_to_string_def)
next
  case True
  obtain r w where b: "b_r_offset b = int r" "b_w_offset b = int w" "r \<le> w" "w \<le> length (b_addr b)" by (rule buffer_invE [OF inv])
  have c: "buffer_contents b = drop r (take w (b_addr b))" by (rule buffer_contents_eq [OF b(1-3)])
  have kw: "r + k \<le> w" using True b(3,4) by (simp add: c)
  have tk: "take k (buffer_contents b) = take k (drop r (b_addr b))" using kw by (simp add: c drop_take)
  let ?b = "b\<lparr>b_r_offset := b_r_offset b + int k\<rparr>"
  obtain s' rest' where s': "string_append_ptr s (Some (b_addr b, int r)) (int k) = Some s'" "str_rep s' (xs @ take k (buffer_contents b)) rest'"
    using append_part [OF rep room k(1), of r "b_addr b"] kw b(4) k(2) by (auto simp: tk)
  have "buffer_read_to_string b s (int k) = Some (int k, ?b, s')"
    using s'(1) b kw by (simp add: buffer_read_to_string_def buffer_get_len_def)
  moreover have "buffer_inv ?b" using inv b kw by (auto simp: buffer_inv_def)
  moreover have "buffer_contents ?b = drop k (buffer_contents b)"
    using buffer_contents_eq [of ?b "r + k" w] b kw by (simp add: c add.commute)
  moreover have "cstr (s_value s') 0 = Some (xs @ take k (buffer_contents b))" using rep_cstr [OF s'(2)] by simp
  moreover have "string_get_len s' = int (length xs + k)" using rep_len [OF s'(2)] True by simp
  ultimately show ?thesis using True by auto
qed

lemma roomy_fresh: "roomy [] (replicate 255 0) k \<longleftrightarrow> k < 255"
  by (auto simp: roomy_def fits_def)

theorem buffer_read_to_string_text_witness:
  "\<exists>b' s'. buffer_read_to_string \<lparr>b_addr = [97, 98, 99, 0], b_r_offset = 0, b_w_offset = 3, b_capacity = 4\<rparr> string_construct 2 = Some (2, b', s') \<and>
     buffer_contents b' = [99] \<and> cstr (s_value s') 0 = Some [97, 98]"
  using buffer_read_to_string_text [of "\<lparr>b_addr = [97, 98, 99, 0], b_r_offset = 0, b_w_offset = 3, b_capacity = 4\<rparr>", OF _ construct_rep, of 2]
  by (auto simp: roomy_fresh buffer_inv_def buffer_contents_def buffer_get_len_def)

text \<open>What both cases of the ring have in common: the ring itself changes as under \<open>read\<close>.\<close>

lemma rb_read_to_string_eq:
  assumes at: "rb_at rb r w n" and k: "0 < k" "rb_count rb \<noteq> 0" and s': "rb_append_to rb s (int (min k (rb_count rb))) = Some s'"
  shows "\<exists>rb'. rb_read_to_string rb s (int k) = Some (int (min k (length (rb_contents rb))), rb', s') \<and> rb_inv rb' \<and> rb_contents rb' = drop k (rb_contents rb)"
proof -
  have inv: "rb_inv rb" using at by (auto simp: rb_at_inv)
  have rd: "rb_readable rb = Some (int (rb_count rb))" using rb_readable_at [OF at] k(2) by simp
  have l: "(if int (rb_count rb) > int k then int k else int (rb_count rb)) = int (min k (rb_count rb))" by (simp add: min_def)
  let ?rb = "rb\<lparr>rb_r_offset := (rb_r_offset rb + int (min k (rb_count rb))) mod rb_size rb, rb_flag := BUFFER_READ_OPERATION\<rparr>"
  obtain rb' where rb': "rb_read True rb (int k) = Some (int (min k (length (rb_contents rb))), take k (rb_contents rb), rb')" "rb_inv rb'"
      "rb_contents rb' = drop k (rb_contents rb)" using rb_read_law [OF inv k(1)] by blast
  have "rb' = ?rb" using rb'(1) unfolding rb_read_def rd option.case Let_def l by (auto simp: bind_eq_Some_iff)
  moreover have "rb_read_to_string rb s (int k) = Some (int (min k (length (rb_contents rb))), ?rb, s')"
    unfolding rb_read_to_string_def rd option.case Let_def l s' by (simp add: rb_contents_at [OF at])
  ultimately show ?thesis using rb'(2,3) by blast
qed

text \<open>The two parts that wrap around the end of the block; the second may be empty.\<close>

lemma rb_append_wrap:
  assumes at: "rb_at rb r w n" and rep: "str_rep s xs rest" and room: "roomy xs rest k" and l: "l \<le> rb_count rb" "l \<le> k" "n \<le> r + l"
    and z: "0 \<notin> set (cyc (rb_addr rb) r l)"
  shows "\<exists>s1 rest1. rb_append_to rb s (int l) = string_append_ptr s1 (Some (rb_addr rb, 0)) (int l - int n + int r) \<and>
    str_rep s1 (xs @ drop r (rb_addr rb)) rest1 \<and> roomy (xs @ drop r (rb_addr rb)) rest1 (k - (n - r)) \<and> cyc (rb_addr rb) r l = drop r (rb_addr rb) @ take (r + l - n) (rb_addr rb)"
proof -
  have n: "length (rb_addr rb) = n" "r < n" "rb_r_offset rb = int r" "rb_w_offset rb = int w" "rb_size rb = int n" using at by (simp_all add: rb_at_def)
  have wr: "w \<le> r" using rb_count_at [OF at] at l by (auto simp: rb_at_def split: if_splits)
  have c: "cyc (rb_addr rb) r l = drop r (rb_addr rb) @ take (r + l - n) (rb_addr rb)"
    using cyc_wrap [of r "rb_addr rb" l] n l rb_count_le [OF at] by simp
  obtain s1 rest1 where s1: "string_append_ptr s (Some (rb_addr rb, int r)) (int (n - r)) = Some s1" "str_rep s1 (xs @ drop r (rb_addr rb)) rest1"
      "roomy (xs @ drop r (rb_addr rb)) rest1 (k - (n - r))"
    using append_part [OF rep room, of "n - r" r "rb_addr rb"] n l c z by auto
  have "int n - int r = int (n - r)" using n by simp
  then have "rb_append_to rb s (int l) = string_append_ptr s1 (Some (rb_addr rb, 0)) (int l - int n + int r)"
    using s1(1) n wr l(3) by (simp add: rb_append_to_def)
  then show ?thesis using s1(2,3) c by blast
qed

lemma rb_append_ok:
  assumes at: "rb_at rb r w n" and rep: "str_rep s xs rest" and room: "roomy xs rest k" and l: "0 < l" "l \<le> rb_count rb" "l \<le> k" "r + l \<noteq> n"
    and z: "0 \<notin> set (cyc (rb_addr rb) r l)"
  shows "\<exists>s' rest'. rb_append_to rb s (int l) = Some s' \<and> str_rep s' (xs @ cyc (rb_addr rb) r l) rest'"
proof (cases "r + l < n")
  case True
  have n: "length (rb_addr rb) = n" "rb_r_offset rb = int r" "rb_size rb = int n" using at by (simp_all add: rb_at_def)
  have c: "cyc (rb_addr rb) r l = take l (drop r (rb_addr rb))" using cyc_flat [of r l "rb_addr rb"] True n(1) by simp
  have "rb_append_to rb s (int l) = string_append_ptr s (Some (rb_addr rb, int r)) (int l)" using n True by (simp add: rb_append_to_def)
  then show ?thesis using append_part [OF rep room l(1,3), of r "rb_addr rb"] True n(1) z by (auto simp: c)
next
  case False
  then obtain s1 rest1 where s1: "rb_append_to rb s (int l) = string_append_ptr s1 (Some (rb_addr rb, 0)) (int l - int n + int r)"
      "str_rep s1 (xs @ drop r (rb_addr rb)) rest1" "roomy (xs @ drop r (rb_addr rb)) rest1 (k - (n - r))"
      "cyc (rb_addr rb) r l = drop r (rb_addr rb) @ take (r + l - n) (rb_addr rb)"
    using rb_append_wrap [OF at rep room l(2,3) _ z] by auto
  have n: "length (rb_addr rb) = n" "r < n" using at by (simp_all add: rb_at_def)
  have e: "int l - int n + int r = int (r + l - n)" "0 < r + l - n" "r + l - n \<le> k - (n - r)" "0 + (r + l - n) \<le> length (rb_addr rb)"
    using n False l rb_count_le [OF at] by linarith+
  have "0 \<notin> set (take (r + l - n) (drop 0 (rb_addr rb)))" using z s1(4) by simp
  from append_part [OF s1(2,3) e(2-4) this] show ?thesis unfolding s1(1) e(1) s1(4) by auto
qed

text \<open>
  \<open>Ring_Buffer.read_to_string\<close> when the bytes do not end exactly at the end of the block, wrapped or not: the oldest bytes of the ring move to
  the end of the string, as \<open>read\<close> would return them.\<close>

theorem ring_read_to_string:
  assumes at: "rb_at rb r w n" and rep: "str_rep s xs rest" and room: "roomy xs rest k" and k: "0 < k" "r + min k (rb_count rb) \<noteq> n"
    and z: "0 \<notin> set (take k (rb_contents rb))"
  shows "\<exists>rb' s'. rb_read_to_string rb s (int k) = Some (int (min k (length (rb_contents rb))), rb', s') \<and> rb_inv rb' \<and>
    rb_contents rb' = drop k (rb_contents rb) \<and> cstr (s_value s') 0 = Some (xs @ take k (rb_contents rb))"
proof (cases "rb_count rb = 0")
  case True
  then have "rb_contents rb = []" "rb_read_to_string rb s (int k) = Some (0, rb, s)"
    using rb_contents_at [OF at] rb_readable_at [OF at] by (simp_all add: cyc_def rb_read_to_string_def)
  moreover have "cstr (s_value s) 0 = Some xs" by (rule rep_cstr [OF rep])
  ultimately show ?thesis using at by (auto simp: rb_at_inv)
next
  case False
  let ?l = "min k (rb_count rb)"
  have c: "take k (rb_contents rb) = cyc (rb_addr rb) r ?l" by (simp add: rb_contents_at [OF at] take_cyc)
  obtain s' rest' where s': "rb_append_to rb s (int ?l) = Some s'" "str_rep s' (xs @ cyc (rb_addr rb) r ?l) rest'"
    using rb_append_ok [OF at rep room, of ?l] k False z by (auto simp: c)
  have "cstr (s_value s') 0 = Some (xs @ take k (rb_contents rb))" using rep_cstr [OF s'(2)] by (simp add: c)
  then show ?thesis using rb_read_to_string_eq [OF at k(1) False s'(1)] by blast
qed

text \<open>A ring of five bytes that holds \<open>abcd\<close>, wrapped around the end of its block.\<close>

definition ring_abcd :: ring_buffer where
  "ring_abcd = \<lparr>rb_addr = [99, 100, 0, 97, 98], rb_r_offset = 3, rb_w_offset = 2, rb_size = 5, rb_flag = BUFFER_WRITE_OPERATION\<rparr>"

lemma ring_abcd_at: "rb_at ring_abcd 3 2 5" "rb_count ring_abcd = 4" "rb_contents ring_abcd = [97, 98, 99, 100]" "rb_addr ring_abcd = [99, 100] @ 0 # [97, 98]"
  by (simp_all add: ring_abcd_def rb_at_def rb_count_def rb_contents_def cyc_def upt_rec)

theorem ring_read_to_string_witness:
  "\<exists>rb' s'. rb_read_to_string ring_abcd string_construct 3 = Some (3, rb', s') \<and> rb_contents rb' = [100] \<and> cstr (s_value s') 0 = Some [97, 98, 99]"
  using ring_read_to_string [OF ring_abcd_at(1) construct_rep, of 3] by (auto simp: roomy_fresh ring_abcd_at)

text \<open>C23.
  When the bytes end exactly at the end of the block, \<open>Ring_Buffer.read_to_string\<close> appends, after the right bytes, the C string at the start of the
  block as well, bytes that are not stored in the ring any more or are stored behind those that were asked for; the result does not count them.\<close>

theorem ring_string_block_end:
  assumes at: "rb_at rb r w n" and rep: "str_rep s xs rest" and room: "roomy xs rest (n - r + length u)" and k: "k = n - r" "k \<le> rb_count rb"
    and z: "0 \<notin> set (take k (rb_contents rb))" and u: "rb_addr rb = u @ 0 # v" "0 \<notin> set u"
  shows "\<exists>rb' s'. rb_read_to_string rb s (int k) = Some (int k, rb', s') \<and> rb_contents rb' = drop k (rb_contents rb) \<and>
    cstr (s_value s') 0 = Some (xs @ take k (rb_contents rb) @ u)"
proof -
  have n: "length (rb_addr rb) = n" "r < n" using at by (simp_all add: rb_at_def)
  have k0: "0 < k" "rb_count rb \<noteq> 0" "min k (rb_count rb) = k" "n \<le> r + k" "k \<le> n - r + length u" using k n(2) by auto
  have c: "take k (rb_contents rb) = cyc (rb_addr rb) r k" by (simp add: rb_contents_at [OF at] take_cyc k0(3))
  obtain s1 rest1 where s1: "rb_append_to rb s (int k) = string_append_ptr s1 (Some (rb_addr rb, 0)) (int k - int n + int r)"
      "str_rep s1 (xs @ drop r (rb_addr rb)) rest1" "roomy (xs @ drop r (rb_addr rb)) rest1 (n - r + length u - (n - r))"
      "cyc (rb_addr rb) r k = drop r (rb_addr rb) @ take (r + k - n) (rb_addr rb)"
    using rb_append_wrap [OF at rep room k(2) k0(5,4)] z by (auto simp: c)
  have e: "int k - int n + int r = 0" "r + k - n = 0" using k(1) n(2) by simp_all
  obtain s' rest' where s': "rb_append_to rb s (int k) = Some s'" "str_rep s' ((xs @ drop r (rb_addr rb)) @ u) rest'"
    using append_cstr [OF s1(2,3) u] s1(1) e(1) by auto
  have "cstr (s_value s') 0 = Some (xs @ take k (rb_contents rb) @ u)"
    using rep_cstr [OF s'(2)] by (simp add: c s1(4) e(2))
  moreover have "length (rb_contents rb) = rb_count rb" by (simp add: rb_contents_at [OF at])
  ultimately show ?thesis using rb_read_to_string_eq [OF at k0(1,2), of s s'] s'(1) k0(3) by auto
qed

theorem ring_string_block_end_witness:
  "\<exists>rb' s'. rb_read_to_string ring_abcd string_construct 2 = Some (2, rb', s') \<and> rb_contents rb' = [99, 100] \<and> cstr (s_value s') 0 = Some [97, 98, 99, 100]"
proof -
  have "roomy [] (replicate 255 0) (5 - 3 + length [99 :: u8, 100])" unfolding roomy_fresh by simp
  moreover have "2 = 5 - (3 :: nat)" "2 \<le> rb_count ring_abcd" "0 \<notin> set (take 2 (rb_contents ring_abcd))" "0 \<notin> set [99 :: u8, 100]"
    by (simp_all add: ring_abcd_at(2,3))
  ultimately obtain rb' s' where "rb_read_to_string ring_abcd string_construct (int 2) = Some (int 2, rb', s')"
      "rb_contents rb' = drop 2 (rb_contents ring_abcd)" "cstr (s_value s') 0 = Some ([] @ take 2 (rb_contents ring_abcd) @ [99, 100])"
    using ring_string_block_end [OF ring_abcd_at(1) construct_rep _ _ _ _ ring_abcd_at(4)] by blast
  then show ?thesis by (simp add: ring_abcd_at(3))
qed

end
