(* ===== verification/Blob.thy ===== *)
theory Blob
  imports ArrayStack StringObj
begin

text \<open>
  The binary attributes of \<open>core/utils/blob/blob.c\<close>: a block into which attributes (type, length, length of the name, name, data) are
  written one after the other, with tables that contain attributes, and the functions that read them.  A pointer into a block
  is its offset; the array stack of the open tables is the one of theory \<open>ArrayStack\<close>.  The byte order is that of the branch for
  little-endian machines of \<open>blob/utils.h\<close>, where the conversions are byte swaps.
\<close>

subsection \<open>Byte order\<close>

text \<open>The bytes of a word in memory, the lowest first, and the word of such bytes.\<close>

definition le_bytes :: "nat \<Rightarrow> 'w::len word \<Rightarrow> bytes" where
  "le_bytes n w = map (\<lambda>k. ucast (drop_bit (8 * k) w)) [0..<n]"

definition le_word :: "bytes \<Rightarrow> 'w::len word" where
  "le_word bs = foldr (\<lambda>b acc. push_bit 8 acc OR ucast b) bs 0"

definition u_bswap16 :: "u16 \<Rightarrow> u16" where
  "u_bswap16 w = (drop_bit 8 w AND 0xff) OR push_bit 8 (w AND 0xff)"

definition u_bswap32 :: "u32 \<Rightarrow> u32" where
  "u_bswap32 w = le_word (rev (le_bytes 4 w))"

definition u_bswap64 :: "u64 \<Rightarrow> u64" where
  "u_bswap64 w = le_word (rev (le_bytes 8 w))"

subsection \<open>Writing\<close>

abbreviation BLOB_MAX_SIZE :: nat where
  "BLOB_MAX_SIZE \<equiv> 10240"

record blob =
  bl_head :: bytes
  bl_tail :: int
  bl_len :: nat
  tbl_stack :: array_stack

abbreviation (input) BLOB_TYPE_TABLE :: u8 where "BLOB_TYPE_TABLE \<equiv> 2"
abbreviation (input) BLOB_TYPE_STRING :: u8 where "BLOB_TYPE_STRING \<equiv> 3"
abbreviation (input) BLOB_TYPE_BUFFER :: u8 where "BLOB_TYPE_BUFFER \<equiv> 4"
abbreviation (input) BLOB_TYPE_UINT64 :: u8 where "BLOB_TYPE_UINT64 \<equiv> 5"
abbreviation (input) BLOB_TYPE_UINT32 :: u8 where "BLOB_TYPE_UINT32 \<equiv> 6"
abbreviation (input) BLOB_TYPE_UINT16 :: u8 where "BLOB_TYPE_UINT16 \<equiv> 7"
abbreviation (input) BLOB_TYPE_UINT8 :: u8 where "BLOB_TYPE_UINT8 \<equiv> 8"
abbreviation (input) BLOB_TYPE_INT32 :: u8 where "BLOB_TYPE_INT32 \<equiv> 9"

definition blob_create :: "bool \<Rightarrow> blob option" where
  "blob_create ok =
     (if ok then Some \<lparr>bl_head = [], bl_tail = 0, bl_len = 0, tbl_stack = \<lparr>as_step = 0, as_cur = 0, as_size = 0, as_top = [], as_count = 0\<rparr>\<rparr> else None)"

text \<open>The answers of the allocator: for the block, for the stack and for its entries (with the contents \<open>fill\<close>).\<close>

definition blob_init :: "bool \<Rightarrow> bool \<Rightarrow> bool \<Rightarrow> (nat \<Rightarrow> u8) \<Rightarrow> blob \<Rightarrow> (int \<times> blob) option" where
  "blob_init ok ok_stack ok_top fill b =
     (if bl_len b = 0 \<and> \<not> ok then Some (-1, b\<lparr>bl_len := BLOB_MAX_SIZE, bl_head := []\<rparr>)
      else
        do { let b1 = (if bl_len b = 0 then b\<lparr>bl_len := BLOB_MAX_SIZE, bl_head := replicate BLOB_MAX_SIZE 0, bl_tail := 0\<rparr> else b);
             as \<leftarrow> array_stack_alloc ok_stack;
             let as1 = snd (array_stack_init ok_top fill (as\<lparr>as_step := 8\<rparr>));
             Some (0, b1\<lparr>tbl_stack := as1\<rparr>) })"

definition blob_reset :: "blob \<Rightarrow> (int \<times> blob) option" where
  "blob_reset b = do { m \<leftarrow> st (bl_head b) 0 (replicate (bl_len b) 0); Some (0, b\<lparr>bl_head := m, bl_tail := 0\<rparr>) }"

text \<open>The blocks of the stack and of the attributes are released.\<close>

definition blob_destroy :: "blob \<Rightarrow> int \<times> blob" where
  "blob_destroy b = (let r = array_stack_destroy (tbl_stack b) in (0, b\<lparr>bl_head := []\<rparr>))"

text \<open>The name is a text without its terminating zero; the memory of the value is \<open>None\<close> for \<open>NULL\<close>.\<close>

definition blob_add :: "blob \<Rightarrow> u8 \<Rightarrow> bytes \<Rightarrow> bytes option \<Rightarrow> u16 \<Rightarrow> (u16 \<times> blob) option" where
  "blob_add b type nm val vlen =
     do { let t = bl_tail b;
          m1 \<leftarrow> st1 (bl_head b) t type;
          let name_len = (of_nat (length nm + 1) :: u16);
          m2 \<leftarrow> st m1 (t + 3) (le_bytes 2 (u_bswap16 name_len));
          src \<leftarrow> strncpy_src (nm @ [0]) 0 (uint name_len);
          m3 \<leftarrow> st m2 (t + 5) src;
          m4 \<leftarrow> (case val of
                   None \<Rightarrow> Some m3
                 | Some v \<Rightarrow> do { d \<leftarrow> ld v 0 (uint vlen); st m3 (t + 5 + uint name_len) d });
          let attr_len = 5 + name_len + vlen;
          m5 \<leftarrow> st m4 (t + 1) (le_bytes 2 (u_bswap16 attr_len));
          Some (attr_len, b\<lparr>bl_head := m5, bl_tail := t + uint attr_len\<rparr>) }"

definition blob_add_uint8 :: "blob \<Rightarrow> bytes \<Rightarrow> u8 \<Rightarrow> (u16 \<times> blob) option" where
  "blob_add_uint8 b nm v = blob_add b BLOB_TYPE_UINT8 nm (Some [v]) 1"

definition blob_add_uint16 :: "blob \<Rightarrow> bytes \<Rightarrow> u16 \<Rightarrow> (u16 \<times> blob) option" where
  "blob_add_uint16 b nm v = blob_add b BLOB_TYPE_UINT16 nm (Some (le_bytes 2 (u_bswap16 v))) 2"

definition blob_add_uint32 :: "blob \<Rightarrow> bytes \<Rightarrow> u32 \<Rightarrow> (u16 \<times> blob) option" where
  "blob_add_uint32 b nm v = blob_add b BLOB_TYPE_UINT32 nm (Some (le_bytes 4 (u_bswap32 v))) 4"

definition blob_add_uint64 :: "blob \<Rightarrow> bytes \<Rightarrow> u64 \<Rightarrow> (u16 \<times> blob) option" where
  "blob_add_uint64 b nm v = blob_add b BLOB_TYPE_UINT64 nm (Some (le_bytes 8 (u_bswap64 v))) 8"

text \<open>An \<open>int32_t\<close> is the word of its bits.\<close>

definition blob_add_int32 :: "blob \<Rightarrow> bytes \<Rightarrow> u32 \<Rightarrow> (u16 \<times> blob) option" where
  "blob_add_int32 b nm v = blob_add b BLOB_TYPE_INT32 nm (Some (le_bytes 4 (u_bswap32 v))) 4"

definition blob_add_string :: "blob \<Rightarrow> bytes \<Rightarrow> bytes \<Rightarrow> (u16 \<times> blob) option" where
  "blob_add_string b nm str = blob_add b BLOB_TYPE_STRING nm (Some (str @ [0])) (of_nat (length str + 1))"

definition blob_add_buffer :: "blob \<Rightarrow> bytes \<Rightarrow> bytes \<Rightarrow> int \<Rightarrow> (u16 \<times> blob) option" where
  "blob_add_buffer b nm buf len = blob_add b BLOB_TYPE_BUFFER nm (Some buf) (of_int len)"

text \<open>The result of the push is ignored.\<close>

definition blob_add_table_start :: "blob \<Rightarrow> bytes \<Rightarrow> (u16 \<times> blob) option" where
  "blob_add_table_start b nm =
     do { (_, as) \<leftarrow> array_stack_push (tbl_stack b) (of_int (bl_tail b));
          blob_add (b\<lparr>tbl_stack := as\<rparr>) BLOB_TYPE_TABLE nm None 0 }"

text \<open>Nothing is popped from an empty stack, and the length is written through \<open>NULL\<close>.\<close>

definition blob_add_table_end :: "blob \<Rightarrow> (int \<times> blob) option" where
  "blob_add_table_end b =
     do { (_, p, as) \<leftarrow> array_stack_pop (tbl_stack b);
          table_start \<leftarrow> map_option uint p;
          let table_len = (of_int (bl_tail b - table_start) :: u16);
          m \<leftarrow> st (bl_head b) (table_start + 1) (le_bytes 2 (u_bswap16 table_len));
          Some (0, b\<lparr>bl_head := m, tbl_stack := as\<rparr>) }"

subsection \<open>Reading\<close>

definition be16_at :: "bytes \<Rightarrow> int \<Rightarrow> u16 option" where
  "be16_at m off = do { bs \<leftarrow> ld m off 2; Some (u_bswap16 (le_word bs)) }"

definition blob_get_len :: "bytes \<Rightarrow> int \<Rightarrow> u16 option" where
  "blob_get_len m attr = be16_at m (attr + 1)"

definition blob_next :: "bytes \<Rightarrow> int \<Rightarrow> int option" where
  "blob_next m attr = do { l \<leftarrow> be16_at m (attr + 1); Some (attr + uint l) }"

definition blob_get_name :: "int \<Rightarrow> int" where
  "blob_get_name attr = attr + 5"

definition blob_get_data :: "bytes \<Rightarrow> int \<Rightarrow> int option" where
  "blob_get_data m attr = do { l \<leftarrow> be16_at m (attr + 3); Some (attr + 5 + uint l) }"

text \<open>The distance of the data is cut to a byte.\<close>

definition blob_get_data_len :: "bytes \<Rightarrow> int \<Rightarrow> u32 option" where
  "blob_get_data_len m attr =
     do { data_addr \<leftarrow> blob_get_data m attr;
          l \<leftarrow> be16_at m (attr + 1);
          Some (of_int (uint l - uint (of_int (data_addr - attr) :: u8))) }"

definition blob_get_uint8 :: "bytes \<Rightarrow> int \<Rightarrow> u8 option" where
  "blob_get_uint8 m attr = do { d \<leftarrow> blob_get_data m attr; ld1 m d }"

definition blob_get_uint16 :: "bytes \<Rightarrow> int \<Rightarrow> u16 option" where
  "blob_get_uint16 m attr = do { d \<leftarrow> blob_get_data m attr; be16_at m d }"

definition blob_get_uint32 :: "bytes \<Rightarrow> int \<Rightarrow> u32 option" where
  "blob_get_uint32 m attr = do { d \<leftarrow> blob_get_data m attr; bs \<leftarrow> ld m d 4; Some (u_bswap32 (le_word bs)) }"

definition blob_get_uint64 :: "bytes \<Rightarrow> int \<Rightarrow> u64 option" where
  "blob_get_uint64 m attr = do { d \<leftarrow> blob_get_data m attr; bs \<leftarrow> ld m d 8; Some (u_bswap64 (le_word bs)) }"

definition blob_get_int32 :: "bytes \<Rightarrow> int \<Rightarrow> u32 option" where
  "blob_get_int32 m attr = do { d \<leftarrow> blob_get_data m attr; bs \<leftarrow> ld m d 4; Some (u_bswap32 (le_word bs)) }"

definition blob_get_string :: "bytes \<Rightarrow> int \<Rightarrow> int option" where
  "blob_get_string m attr = blob_get_data m attr"

definition blob_get_buffer :: "bytes \<Rightarrow> int \<Rightarrow> (u32 \<times> int) option" where
  "blob_get_buffer m attr = do { d \<leftarrow> blob_get_data m attr; l \<leftarrow> blob_get_data_len m attr; Some (l, d) }"

definition blob_catenate :: "blob \<Rightarrow> bytes \<Rightarrow> int \<Rightarrow> (int \<times> blob) option" where
  "blob_catenate b m attr =
     do { l \<leftarrow> blob_get_len m attr;
          bs \<leftarrow> ld m attr (uint l);
          h \<leftarrow> st (bl_head b) (bl_tail b) bs;
          Some (0, b\<lparr>bl_head := h, bl_tail := bl_tail b + uint l\<rparr>) }"

text \<open>\<open>strncmp (m + off, t, strlen (t)) == 0\<close> for a text \<open>t\<close>.\<close>

fun prefix_at :: "bytes \<Rightarrow> int \<Rightarrow> bytes \<Rightarrow> bool option" where
  "prefix_at m off [] = Some True"
| "prefix_at m off (c # cs) = do { x \<leftarrow> ld1 m off; if x = c then prefix_at m (off + 1) cs else Some False }"

text \<open>The inner loop: the names of the \<open>n\<close> policies against one attribute.\<close>

fun policy_loop :: "bytes \<Rightarrow> int \<Rightarrow> nat \<Rightarrow> bytes list \<Rightarrow> int option list \<Rightarrow> int option list option" where
  "policy_loop m pos 0 ps xs = Some xs"
| "policy_loop m pos (Suc n) (p # ps) (x # xs) =
     do { hit \<leftarrow> prefix_at m (blob_get_name pos) p; xs' \<leftarrow> policy_loop m pos n ps xs; Some ((if hit then Some pos else x) # xs') }"
| "policy_loop m pos (Suc n) _ _ = None"

partial_function (option) attr_loop :: "bytes \<Rightarrow> nat \<Rightarrow> bytes list \<Rightarrow> int \<Rightarrow> int \<Rightarrow> int option list \<Rightarrow> int option list option" where
  "attr_loop m n ps stop pos tb =
     (if pos < stop then do { tb' \<leftarrow> policy_loop m pos n ps tb; pos' \<leftarrow> blob_next m pos; attr_loop m n ps stop pos' tb' } else Some tb)"

definition blob_parse_to_attr :: "bytes list \<Rightarrow> u8 \<Rightarrow> int option list \<Rightarrow> bytes \<Rightarrow> int \<Rightarrow> nat \<Rightarrow> (int \<times> int option list) option" where
  "blob_parse_to_attr policy policy_count tb m head len = do { tb' \<leftarrow> attr_loop m (unat policy_count) policy (head + int len) head tb; Some (0, tb') }"

subsection \<open>Words and bytes\<close>

lemma length_le_bytes [simp]: "length (le_bytes n w) = n"
  by (simp add: le_bytes_def)

lemma bit_le_word:
  "bit (le_word bs :: 'w::len word) n \<longleftrightarrow> n < LENGTH('w) \<and> n < 8 * length bs \<and> bit (bs ! (n div 8)) (n mod 8)"
proof (induction bs arbitrary: n)
  case Nil
  then show ?case by (simp add: le_word_def)
next
  case (Cons b bs)
  have *: "le_word (b # bs) = (push_bit 8 (le_word bs) OR ucast b :: 'w word)" by (simp add: le_word_def)
  show ?case
  proof (cases "8 \<le> n")
    case True
    then obtain m where m: "n = m + 8" by (metis add.commute le_Suc_ex)
    have "\<not> bit b n" using True by (auto dest: bit_imp_le_length)
    moreover have "(m + 8) div 8 = Suc (m div 8)" by simp
    ultimately show ?thesis using Cons.IH [of m] by (auto simp: * bit_simps m dest: bit_imp_le_length)
  next
    case False
    then show ?thesis by (auto simp: * bit_simps)
  qed
qed

lemma le_bytes_le_word: "8 * length bs \<le> LENGTH('w::len) \<Longrightarrow> le_bytes (length bs) (le_word bs :: 'w word) = bs"
proof (rule nth_equalityI)
  fix i assume a: "8 * length bs \<le> LENGTH('w)" "i < length (le_bytes (length bs) (le_word bs :: 'w word))"
  have "bit (ucast (drop_bit (8 * i) (le_word bs :: 'w word)) :: u8) k = bit (bs ! i) k" if "k < 8" for k
  proof -
    have "8 * i + k < LENGTH('w)" "8 * i + k < 8 * length bs" "(8 * i + k) div 8 = i" "(8 * i + k) mod 8 = k" using a that by auto
    then show ?thesis using that by (simp add: bit_simps bit_le_word)
  qed
  then have "(ucast (drop_bit (8 * i) (le_word bs :: 'w word)) :: u8) = bs ! i" by (intro bit_word_eqI) simp
  then show "le_bytes (length bs) (le_word bs :: 'w word) ! i = bs ! i" using a(2) by (simp add: le_bytes_def)
qed simp

lemma le_word_le_bytes: "LENGTH('w::len) = 8 * n \<Longrightarrow> le_word (le_bytes n w) = (w :: 'w word)"
proof (rule bit_word_eqI)
  fix k assume a: "LENGTH('w) = 8 * n" "k < LENGTH('w)"
  then have "k div 8 < n" "8 * (k div 8) + k mod 8 = k" by auto
  then show "bit (le_word (le_bytes n w) :: 'w word) k = bit w k" using a by (simp add: bit_le_word le_bytes_def bit_simps)
qed

lemma u_bswap16_rev: "u_bswap16 w = le_word (rev (le_bytes 2 w))"
proof (rule bit_word_eqI)
  fix n assume "n < LENGTH(16)"
  then have n: "n < 16" by simp
  have ff: "(0xff :: u16) = mask 8" by (simp add: mask_eq_exp_minus_1)
  have r: "rev (le_bytes 2 w) = [ucast (drop_bit 8 w), ucast w]" by (simp add: le_bytes_def upt_rec)
  show "bit (u_bswap16 w) n = bit (le_word (rev (le_bytes 2 w)) :: u16) n"
  proof (cases "n < 8")
    case True
    then show ?thesis by (simp add: u_bswap16_def bit_le_word r bit_simps ff)
  next
    case False
    then have "n div 8 = 1" "n mod 8 = n - 8" using n by (simp_all add: div_nat_eqI mod_if)
    then show ?thesis using False n by (auto simp: u_bswap16_def bit_le_word r bit_simps ff)
  qed
qed

text \<open>A swapped word in memory is big-endian.\<close>

lemma swap_bytes:
  assumes "LENGTH('w::len) = 8 * n"
  shows "le_bytes n (le_word (rev (le_bytes n w)) :: 'w word) = rev (le_bytes n (w :: 'w word))"
    "le_word (rev (le_bytes n (le_word (rev (le_bytes n w)) :: 'w word))) = w"
proof -
  have *: "le_bytes n (le_word (rev (le_bytes n w)) :: 'w word) = rev (le_bytes n w)"
    using le_bytes_le_word [of "rev (le_bytes n w)", where 'w = 'w] assms by simp
  then show "le_bytes n (le_word (rev (le_bytes n w)) :: 'w word) = rev (le_bytes n w)" .
  show "le_word (rev (le_bytes n (le_word (rev (le_bytes n w)) :: 'w word))) = w" by (simp add: * le_word_le_bytes assms)
qed

lemma swap16: "u_bswap16 (le_word (le_bytes 2 (u_bswap16 w))) = w"
  using swap_bytes(2) [of 2 w] le_word_le_bytes [of 2 "u_bswap16 w"] by (simp add: u_bswap16_rev)

lemma swap32: "u_bswap32 (le_word (le_bytes 4 (u_bswap32 w))) = w"
  using swap_bytes(2) [of 4 w] le_word_le_bytes [of 4 "u_bswap32 w"] by (simp add: u_bswap32_def)

lemma swap64: "u_bswap64 (le_word (le_bytes 8 (u_bswap64 w))) = w"
  using swap_bytes(2) [of 8 w] le_word_le_bytes [of 8 "u_bswap64 w"] by (simp add: u_bswap64_def)

subsection \<open>The layout of attributes\<close>

datatype blob_val = V8 u8 | V16 u16 | V32 u32 | V64 u64 | VI32 u32 | VStr bytes | VBuf bytes

datatype attr = Leaf bytes blob_val | Table bytes "attr list"

fun val_type :: "blob_val \<Rightarrow> u8" where
  "val_type (V8 x) = BLOB_TYPE_UINT8"
| "val_type (V16 x) = BLOB_TYPE_UINT16"
| "val_type (V32 x) = BLOB_TYPE_UINT32"
| "val_type (V64 x) = BLOB_TYPE_UINT64"
| "val_type (VI32 x) = BLOB_TYPE_INT32"
| "val_type (VStr t) = BLOB_TYPE_STRING"
| "val_type (VBuf bs) = BLOB_TYPE_BUFFER"

text \<open>Numbers are big-endian, texts end with a zero.\<close>

fun val_bytes :: "blob_val \<Rightarrow> bytes" where
  "val_bytes (V8 x) = [x]"
| "val_bytes (V16 x) = le_bytes 2 (u_bswap16 x)"
| "val_bytes (V32 x) = le_bytes 4 (u_bswap32 x)"
| "val_bytes (V64 x) = le_bytes 8 (u_bswap64 x)"
| "val_bytes (VI32 x) = le_bytes 4 (u_bswap32 x)"
| "val_bytes (VStr t) = t @ [0]"
| "val_bytes (VBuf bs) = bs"

definition be16 :: "nat \<Rightarrow> bytes" where
  "be16 n = le_bytes 2 (u_bswap16 (of_nat n))"

definition layout :: "u8 \<Rightarrow> nat \<Rightarrow> bytes \<Rightarrow> bytes \<Rightarrow> bytes" where
  "layout ty l nm d = ty # be16 l @ be16 (length nm + 1) @ nm @ 0 # d"

fun attr_bytes :: "attr \<Rightarrow> bytes" where
  "attr_bytes (Leaf nm v) = layout (val_type v) (6 + length nm + length (val_bytes v)) nm (val_bytes v)"
| "attr_bytes (Table nm as) = (let d = concat (map attr_bytes as) in layout BLOB_TYPE_TABLE (6 + length nm + length d) nm d)"

text \<open>The calls that write an attribute.\<close>

datatype blob_op = Add bytes blob_val | Table_start bytes | Table_end

fun attr_ops :: "attr \<Rightarrow> blob_op list" where
  "attr_ops (Leaf nm v) = [Add nm v]"
| "attr_ops (Table nm as) = Table_start nm # concat (map attr_ops as) @ [Table_end]"

fun blob_step :: "blob \<Rightarrow> blob_op \<Rightarrow> blob option" where
  "blob_step b (Add nm (V8 x)) = map_option snd (blob_add_uint8 b nm x)"
| "blob_step b (Add nm (V16 x)) = map_option snd (blob_add_uint16 b nm x)"
| "blob_step b (Add nm (V32 x)) = map_option snd (blob_add_uint32 b nm x)"
| "blob_step b (Add nm (V64 x)) = map_option snd (blob_add_uint64 b nm x)"
| "blob_step b (Add nm (VI32 x)) = map_option snd (blob_add_int32 b nm x)"
| "blob_step b (Add nm (VStr t)) = map_option snd (blob_add_string b nm t)"
| "blob_step b (Add nm (VBuf bs)) = map_option snd (blob_add_buffer b nm bs (int (length bs)))"
| "blob_step b (Table_start nm) = map_option snd (blob_add_table_start b nm)"
| "blob_step b Table_end = map_option snd (blob_add_table_end b)"

fun blob_run :: "blob \<Rightarrow> blob_op list \<Rightarrow> blob option" where
  "blob_run b [] = Some b"
| "blob_run b (q # qs) = do { b' \<leftarrow> blob_step b q; blob_run b' qs }"

text \<open>Names and texts are C strings, the length of an attribute fits its field, and the tables fit the stack, which has \<open>k\<close> free entries.\<close>

fun val_ok :: "blob_val \<Rightarrow> bool" where
  "val_ok (VStr t) \<longleftrightarrow> 0 \<notin> set t"
| "val_ok v \<longleftrightarrow> True"

fun attr_ok :: "nat \<Rightarrow> attr \<Rightarrow> bool" where
  "attr_ok k (Leaf nm v) \<longleftrightarrow> 0 \<notin> set nm \<and> val_ok v \<and> 6 + length nm + length (val_bytes v) < 65536"
| "attr_ok k (Table nm as) \<longleftrightarrow> 0 < k \<and> 0 \<notin> set nm \<and> 6 + length nm + length (concat (map attr_bytes as)) < 65536 \<and> list_all (attr_ok (k - 1)) as"

lemma length_be16 [simp]: "length (be16 n) = 2"
  by (simp add: be16_def)

lemma length_layout [simp]: "length (layout ty l nm d) = 6 + length nm + length d"
  by (simp add: layout_def)

lemma length_attr_bytes: "length (attr_bytes (Leaf nm v)) = 6 + length nm + length (val_bytes v)"
  "length (attr_bytes (Table nm as)) = 6 + length nm + length (concat (map attr_bytes as))"
  by (simp_all add: Let_def)

lemma attr_ops_run: "blob_run b (ps @ qs) = blob_run b ps \<bind> (\<lambda>b'. blob_run b' qs)"
  by (induction ps arbitrary: b) (auto simp: bind_assoc)

subsection \<open>The laws of writing\<close>

definition blob_rep :: "blob \<Rightarrow> bytes \<Rightarrow> bytes \<Rightarrow> u64 list \<Rightarrow> nat \<Rightarrow> bool" where
  "blob_rep b pre rest xs r \<longleftrightarrow> bl_head b = pre @ rest \<and> bl_tail b = int (length pre) \<and> length (pre @ rest) < 65536 \<and>
     as_rep (tbl_stack b) xs \<and> as_room (tbl_stack b) = length xs + r"

lemma unat_small: "n < 65536 \<Longrightarrow> unat (of_nat n :: u16) = n"
  by (simp add: unat_of_nat)

lemma uint_small: "n < 65536 \<Longrightarrow> uint (of_nat n :: u16) = int n"
  using unat_small [of n] by (metis uint_nat)

lemma unat_small32: "n < 131072 \<Longrightarrow> unat (of_nat n :: u32) = n"
  by (simp add: unat_of_nat)

text \<open>The place of an attribute in the block.\<close>

lemma attr_cut:
  assumes "6 + n + k \<le> length (rest :: bytes)"
  obtains a l nl nm d ws where "rest = a # l @ nl @ nm @ d @ ws" "length l = 2" "length nl = 2" "length nm = n + 1" "length d = k" "length ws = length rest - (6 + n + k)"
proof -
  let ?a = "rest ! 0" and ?l = "take 2 (drop 1 rest)" and ?nl = "take 2 (drop 3 rest)" and ?nm = "take (n + 1) (drop 5 rest)" and ?d = "take k (drop (6 + n) rest)"
  have "rest = ?a # drop 1 rest" using assms by (cases rest) auto
  also have "drop 1 rest = ?l @ drop 3 rest" using append_take_drop_id [of 2 "drop 1 rest"] by (simp add: drop_drop)
  also have "drop 3 rest = ?nl @ drop 5 rest" using append_take_drop_id [of 2 "drop 3 rest"] by (simp add: drop_drop)
  also have "drop 5 rest = ?nm @ drop (6 + n) rest" using append_take_drop_id [of "n + 1" "drop 5 rest"] by (simp add: drop_drop add.commute)
  also have "drop (6 + n) rest = ?d @ drop (6 + n + k) rest" using append_take_drop_id [of k "drop (6 + n) rest"] by (simp add: drop_drop add.commute)
  finally have "rest = ?a # ?l @ ?nl @ ?nm @ ?d @ drop (6 + n + k) rest" .
  then show ?thesis by (rule that) (use assms in auto)
qed

lemma blob_add_law:
  assumes rep: "blob_rep b pre rest xs r" and nm: "0 \<notin> set nm" "6 + length nm + length d \<le> length rest" "6 + length nm + length d < 65536"
    and v: "val = None \<and> d = [] \<or> (\<exists>w. val = Some (d @ w))" and vl: "vl = of_nat (length d)"
  shows "\<exists>b' rest'. blob_add b ty nm val vl = Some (of_nat (6 + length nm + length d), b') \<and>
    blob_rep b' (pre @ layout ty (6 + length nm + length d) nm d) rest' xs r \<and> length rest' = length rest - (6 + length nm + length d)"
proof -
  obtain a l nl nm0 d0 ws where c: "rest = a # l @ nl @ nm0 @ d0 @ ws" "length l = 2" "length nl = 2" "length nm0 = length nm + 1" "length d0 = length d"
      "length ws = length rest - (6 + length nm + length d)" by (rule attr_cut [OF nm(2)])
  let ?t = "int (length pre)" and ?n = "of_nat (length nm + 1) :: u16" and ?len = "6 + length nm + length d"
  have h: "bl_head b = pre @ a # l @ nl @ nm0 @ d0 @ ws" "bl_tail b = ?t" using rep c(1) by (simp_all add: blob_rep_def)
  have n: "uint ?n = int (length nm + 1)" "uint (of_nat (length d) :: u16) = int (length d)" "5 + ?n + vl = of_nat ?len" "uint (of_nat ?len :: u16) = int ?len"
    using nm(3) by (simp_all only: uint_small vl) (simp_all add: uint_small)
  let ?L = "be16 ?len" and ?N = "be16 (length nm + 1)"
  have L: "le_bytes 2 (u_bswap16 (of_nat ?len)) = ?L" "le_bytes 2 (u_bswap16 ?n) = ?N" by (simp_all add: be16_def)
  have m1: "st1 (bl_head b) ?t ty = Some (pre @ ty # l @ nl @ nm0 @ d0 @ ws)" unfolding h(1) by (rule st1_at) simp
  have m2: "st (pre @ ty # l @ nl @ nm0 @ d0 @ ws) (?t + 3) ?N = Some (pre @ ty # l @ ?N @ nm0 @ d0 @ ws)"
    using st_at [of "?t + 3" "pre @ ty # l" ?N nl "nm0 @ d0 @ ws"] c by simp
  have src: "strncpy_src (nm @ [0]) 0 (int (length nm + 1)) = Some (nm @ [0])"
    using nm(1) by (simp add: strncpy_src_def takeWhile_text nat_add_distrib)
  have m3: "st (pre @ ty # l @ ?N @ nm0 @ d0 @ ws) (?t + 5) (nm @ [0]) = Some (pre @ ty # l @ ?N @ (nm @ [0]) @ d0 @ ws)"
    using st_at [of "?t + 5" "pre @ ty # l @ ?N" "nm @ [0]" nm0 "d0 @ ws"] c by simp
  have m4: "(case val of None \<Rightarrow> Some (pre @ ty # l @ ?N @ (nm @ [0]) @ d0 @ ws)
      | Some v \<Rightarrow> do { d' \<leftarrow> ld v 0 (int (length d)); st (pre @ ty # l @ ?N @ (nm @ [0]) @ d0 @ ws) (?t + 5 + int (length nm + 1)) d' }) =
      Some (pre @ ty # l @ ?N @ (nm @ [0]) @ d @ ws)"
    using v st_at [of "?t + 5 + int (length nm + 1)" "pre @ ty # l @ ?N @ (nm @ [0])" d d0 ws] c by (auto simp: ld_def)
  have m5: "st (pre @ ty # l @ ?N @ (nm @ [0]) @ d @ ws) (?t + 1) ?L = Some (pre @ ty # ?L @ ?N @ (nm @ [0]) @ d @ ws)"
    using st_at [of "?t + 1" "pre @ [ty]" ?L l "?N @ (nm @ [0]) @ d @ ws"] c by simp
  have "blob_add b ty nm val vl = Some (of_nat ?len, b\<lparr>bl_head := pre @ ty # ?L @ ?N @ (nm @ [0]) @ d @ ws, bl_tail := ?t + int ?len\<rparr>)"
    unfolding blob_add_def Let_def h(2) n(1) vl n(2) n(3) [unfolded vl] n(4) L m1 bind_Some_eq m2 src m3 m4 m5 ..
  moreover have "blob_rep (b\<lparr>bl_head := pre @ ty # ?L @ ?N @ (nm @ [0]) @ d @ ws, bl_tail := ?t + int ?len\<rparr>) (pre @ layout ty ?len nm d) ws xs r"
    using rep nm(2) c(6) by (auto simp: blob_rep_def layout_def)
  ultimately show ?thesis using c(6) by blast
qed

lemma blob_add_step:
  assumes rep: "blob_rep b pre rest xs r" and ok: "attr_ok r (Leaf nm v)" and room: "length (attr_bytes (Leaf nm v)) \<le> length rest"
  shows "\<exists>b' rest'. blob_step b (Add nm v) = Some b' \<and> blob_rep b' (pre @ attr_bytes (Leaf nm v)) rest' xs r \<and>
    length rest' = length rest - length (attr_bytes (Leaf nm v))"
proof -
  have step: "blob_step b (Add nm v) = map_option snd (blob_add b (val_type v) nm (Some (val_bytes v @ [])) (of_nat (length (val_bytes v))))"
    by (cases v) (simp_all add: blob_add_uint8_def blob_add_uint16_def blob_add_uint32_def blob_add_uint64_def blob_add_int32_def blob_add_string_def blob_add_buffer_def)
  obtain b' rest' where "blob_add b (val_type v) nm (Some (val_bytes v @ [])) (of_nat (length (val_bytes v))) = Some (of_nat (6 + length nm + length (val_bytes v)), b')"
      "blob_rep b' (pre @ layout (val_type v) (6 + length nm + length (val_bytes v)) nm (val_bytes v)) rest' xs r"
      "length rest' = length rest - (6 + length nm + length (val_bytes v))"
    using blob_add_law [OF rep _ _ _ disjI2 refl, of nm "val_bytes v" "Some (val_bytes v @ [])" "val_type v"] ok room by auto
  then show ?thesis using step by auto
qed

lemma uint_offset: "n < 65536 \<Longrightarrow> uint (of_int (int n) :: u64) = int n"
  by (simp add: unsigned_of_nat take_bit_nat_eq_self)

lemma blob_start_step:
  assumes rep: "blob_rep b pre rest xs (Suc r)" and ok: "0 \<notin> set nm" "6 + length nm < 65536" "6 + length nm \<le> length rest"
  shows "\<exists>b' rest'. blob_step b (Table_start nm) = Some b' \<and> blob_rep b' (pre @ layout BLOB_TYPE_TABLE (6 + length nm) nm []) rest' (of_nat (length pre) # xs) r \<and>
    length rest' = length rest - (6 + length nm)"
proof -
  have as: "as_rep (tbl_stack b) xs" "length xs < as_room (tbl_stack b)" "bl_tail b = int (length pre)" using rep by (simp_all add: blob_rep_def)
  obtain as' where as': "array_stack_push (tbl_stack b) (of_int (bl_tail b)) = Some (0, as')" "as_rep as' (of_int (bl_tail b) # xs)" "as_room as' = as_room (tbl_stack b)"
    using array_stack_push_ok [OF as(1,2)] by blast
  have "blob_rep (b\<lparr>tbl_stack := as'\<rparr>) pre rest (of_nat (length pre) # xs) r" using rep as' as(3) by (simp add: blob_rep_def)
  then obtain b' rest' where "blob_add (b\<lparr>tbl_stack := as'\<rparr>) BLOB_TYPE_TABLE nm None 0 = Some (of_nat (6 + length nm + length ([] :: bytes)), b')"
      "blob_rep b' (pre @ layout BLOB_TYPE_TABLE (6 + length nm + length ([] :: bytes)) nm []) rest' (of_nat (length pre) # xs) r"
      "length rest' = length rest - (6 + length nm + length ([] :: bytes))"
    using blob_add_law [of "b\<lparr>tbl_stack := as'\<rparr>" pre rest "of_nat (length pre) # xs" r nm "[]" None 0 BLOB_TYPE_TABLE] ok by auto
  then show ?thesis using as'(1) by (auto simp: blob_add_table_start_def)
qed

lemma blob_end_step:
  assumes rep: "blob_rep b (pre @ layout ty l nm d) rest (of_nat (length pre) # xs) r" and len: "6 + length nm + length d < 65536"
  shows "\<exists>b'. blob_step b Table_end = Some b' \<and> blob_rep b' (pre @ layout ty (6 + length nm + length d) nm d) rest xs (Suc r)"
proof -
  let ?len = "6 + length nm + length d" and ?p = "of_nat (length pre) :: u64"
  have p: "uint ?p = int (length pre)" using rep uint_offset [of "length pre"] by (simp add: blob_rep_def)
  obtain as' where as': "array_stack_pop (tbl_stack b) = Some (0, Some ?p, as')" "as_rep as' xs" "as_room as' = as_room (tbl_stack b)"
    using array_stack_pop_ok [of "tbl_stack b" ?p xs] rep by (auto simp: blob_rep_def)
  have h: "bl_head b = (pre @ [ty]) @ be16 l @ (be16 (length nm + 1) @ nm @ 0 # d) @ rest" "bl_tail b - int (length pre) = int ?len"
    using rep by (simp_all add: blob_rep_def layout_def)
  have L: "le_bytes 2 (u_bswap16 (of_int (int ?len))) = be16 ?len" by (simp add: be16_def)
  have s: "st (bl_head b) (int (length pre) + 1) (be16 ?len) = Some ((pre @ [ty]) @ be16 ?len @ (be16 (length nm + 1) @ nm @ 0 # d) @ rest)"
    unfolding h(1) by (rule st_at) simp_all
  have "blob_step b Table_end = Some (b\<lparr>bl_head := (pre @ [ty]) @ be16 ?len @ (be16 (length nm + 1) @ nm @ 0 # d) @ rest, tbl_stack := as'\<rparr>)"
    unfolding blob_step.simps blob_add_table_end_def Let_def as'(1) bind_Some_eq prod.case option.map p h(2) L s by simp
  then show ?thesis using rep as'(2,3) by (auto simp: blob_rep_def layout_def)
qed

abbreviation attrs_bytes :: "attr list \<Rightarrow> bytes" where
  "attrs_bytes as \<equiv> concat (map attr_bytes as)"

text \<open>The calls for a list of attributes, for each of which the calls write its bytes.\<close>

lemma attrs_write:
  assumes "\<And>a b pre rest. a \<in> set as \<Longrightarrow> blob_rep b pre rest xs r \<Longrightarrow> length (attr_bytes a) \<le> length rest \<Longrightarrow>
      \<exists>b' rest'. blob_run b (attr_ops a) = Some b' \<and> blob_rep b' (pre @ attr_bytes a) rest' xs r \<and> length rest' = length rest - length (attr_bytes a)"
  shows "blob_rep b pre rest xs r \<Longrightarrow> length (attrs_bytes as) \<le> length rest \<Longrightarrow>
    \<exists>b' rest'. blob_run b (concat (map attr_ops as)) = Some b' \<and> blob_rep b' (pre @ attrs_bytes as) rest' xs r \<and> length rest' = length rest - length (attrs_bytes as)"
  using assms
proof (induction as arbitrary: b pre rest)
  case (Cons a as)
  obtain b1 rest1 where b1: "blob_run b (attr_ops a) = Some b1" "blob_rep b1 (pre @ attr_bytes a) rest1 xs r" "length rest1 = length rest - length (attr_bytes a)"
    using Cons.prems(3) [of a b pre rest] Cons.prems(1,2) by auto
  moreover obtain b2 rest2 where "blob_run b1 (concat (map attr_ops as)) = Some b2" "blob_rep b2 ((pre @ attr_bytes a) @ attrs_bytes as) rest2 xs r"
      "length rest2 = length rest1 - length (attrs_bytes as)"
  proof -
    have "length (attrs_bytes as) \<le> length rest1" using Cons.prems(2) b1(3) by simp
    from Cons.IH [OF b1(2) this Cons.prems(3)] show ?thesis using that by (meson list.set_intros(2))
  qed
  ultimately show ?case by (auto simp: attr_ops_run)
qed auto

lemma attr_write:
  "attr_ok r a \<Longrightarrow> blob_rep b pre rest xs r \<Longrightarrow> length (attr_bytes a) \<le> length rest \<Longrightarrow>
   \<exists>b' rest'. blob_run b (attr_ops a) = Some b' \<and> blob_rep b' (pre @ attr_bytes a) rest' xs r \<and> length rest' = length rest - length (attr_bytes a)"
proof (induction a arbitrary: b pre rest xs r)
  case (Leaf nm v)
  then show ?case using blob_add_step [OF Leaf.prems(2,1,3)] by auto
next
  case (Table nm as)
  let ?d = "attrs_bytes as"
  obtain r' where r: "r = Suc r'" using Table.prems(1) by (cases r) auto
  have ok: "0 \<notin> set nm" "6 + length nm + length ?d < 65536" "list_all (attr_ok r') as" using Table.prems(1) by (simp_all add: r)
  have room: "6 + length nm + length ?d \<le> length rest" using Table.prems(3) unfolding length_attr_bytes .
  obtain b1 rest1 where b1: "blob_step b (Table_start nm) = Some b1" "blob_rep b1 (pre @ layout BLOB_TYPE_TABLE (6 + length nm) nm []) rest1 (of_nat (length pre) # xs) r'"
      "length rest1 = length rest - (6 + length nm)"
    using blob_start_step [of b pre rest xs r' nm] Table.prems(2) ok room r by auto
  have len: "length ?d \<le> length rest1" using room b1(3) by simp
  have ih: "\<exists>b' rest'. blob_run c (attr_ops a) = Some b' \<and> blob_rep b' (p @ attr_bytes a) rest' ys r' \<and> length rest' = length q - length (attr_bytes a)"
    if "a \<in> set as" "blob_rep c p q ys r'" "length (attr_bytes a) \<le> length q" for a c p q ys
    using Table.IH [OF that(1) _ that(2,3)] ok(3) that(1) by (auto simp: list_all_iff)
  obtain b2 rest2 where b2: "blob_run b1 (concat (map attr_ops as)) = Some b2"
      "blob_rep b2 ((pre @ layout BLOB_TYPE_TABLE (6 + length nm) nm []) @ ?d) rest2 (of_nat (length pre) # xs) r'" "length rest2 = length rest1 - length ?d"
    using attrs_write [OF ih b1(2) len] by blast
  have "(pre @ layout BLOB_TYPE_TABLE (6 + length nm) nm []) @ ?d = pre @ layout BLOB_TYPE_TABLE (6 + length nm) nm ?d" by (simp add: layout_def)
  then obtain b3 where b3: "blob_step b2 Table_end = Some b3" "blob_rep b3 (pre @ layout BLOB_TYPE_TABLE (6 + length nm + length ?d) nm ?d) rest2 xs r"
    using blob_end_step [of b2 pre BLOB_TYPE_TABLE "6 + length nm" nm ?d rest2 xs r'] b2(2) ok(2) r by auto
  have "blob_run b (attr_ops (Table nm as)) = Some b3" using b1(1) b2(1) b3(1)
    by (simp add: attr_ops_run del: blob_step.simps)
  moreover have "length rest2 = length rest - length (attr_bytes (Table nm as))" using b2(3) b1(3) by (simp add: Let_def)
  ultimately show ?case using b3(2) by (auto simp: Let_def)
qed

subsection \<open>The laws of reading\<close>

lemma be16_read: "off = int (length us) \<Longrightarrow> n < 65536 \<Longrightarrow> be16_at (us @ be16 n @ ws) off = Some (of_nat n)"
  using ld_at [of off us 2 "be16 n" ws] swap16 [of "of_nat n"] by (simp add: be16_at_def be16_def)

lemma layout_fields:
  assumes "m = us @ layout ty l nm d @ ws" "q = int (length us)" "l < 65536" "length nm + 1 < 65536"
  shows "be16_at m (q + 1) = Some (of_nat l)" "be16_at m (q + 3) = Some (of_nat (length nm + 1))"
    "ld1 m q = Some ty" "blob_next m q = Some (q + int l)" "blob_get_data m q = Some (q + 6 + int (length nm))"
proof -
  show l: "be16_at m (q + 1) = Some (of_nat l)"
    using be16_read [of "q + 1" "us @ [ty]" l "be16 (length nm + 1) @ nm @ 0 # d @ ws"] assms by (simp add: layout_def)
  show n: "be16_at m (q + 3) = Some (of_nat (length nm + 1))"
    using be16_read [of "q + 3" "us @ ty # be16 l" "length nm + 1" "nm @ 0 # d @ ws"] assms by (simp add: layout_def)
  show "ld1 m q = Some ty" using ld1_at [of q us ty] assms by (simp add: layout_def)
  show "blob_next m q = Some (q + int l)" using l assms(3) by (simp add: blob_next_def uint_small)
  show "blob_get_data m q = Some (q + 6 + int (length nm))"
    using n uint_small [of "length nm + 1"] assms(4) unfolding blob_get_data_def n bind_Some_eq by simp
qed

lemma layout_parts:
  assumes "m = us @ layout ty l nm d @ ws" "q = int (length us)"
  obtains vs where "m = vs @ nm @ 0 # d @ ws" "int (length vs) = blob_get_name q" "m = (vs @ nm @ [0]) @ d @ ws" "int (length (vs @ nm @ [0])) = q + 6 + int (length nm)"
  by (rule that [of "us @ ty # be16 l @ be16 (length nm + 1)"]) (simp_all add: assms layout_def blob_get_name_def)

lemma layout_name: "m = us @ layout ty l nm d @ ws \<Longrightarrow> q = int (length us) \<Longrightarrow> 0 \<notin> set nm \<Longrightarrow> cstr m (blob_get_name q) = Some nm"
  by (rule layout_parts [of m us ty l nm d ws q]) (auto intro: cstr_at)

lemma uint_u8: "uint (of_int k :: u8) = k mod 256"
  by (simp add: unsigned_of_int take_bit_eq_mod)

text \<open>The length of the data is right for names of at most 249 bytes.\<close>

lemma layout_data_len:
  assumes "m = us @ layout ty (6 + length nm + length d) nm d @ ws" "q = int (length us)" "6 + length nm + length d < 65536"
  shows "blob_get_data_len m q = Some (of_int (int (length d) + int ((6 + length nm) div 256 * 256)))"
proof -
  have f: "be16_at m (q + 1) = Some (of_nat (6 + length nm + length d))" "blob_get_data m q = Some (q + 6 + int (length nm))"
    using layout_fields [OF assms(1,2)] assms(3) by auto
  have "uint (of_int (int (6 + length nm)) :: u8) = int ((6 + length nm) mod 256)"
    unfolding uint_u8 by (simp add: zmod_int)
  moreover have "int (6 + length nm) - int ((6 + length nm) mod 256) = int ((6 + length nm) div 256 * 256)"
    using div_mult_mod_eq [of "6 + length nm" 256] by linarith
  moreover have "q + 6 + int (length nm) - q = int (6 + length nm)" by simp
  ultimately show ?thesis unfolding blob_get_data_len_def f bind_Some_eq uint_small [OF assms(3)]
    by (simp only:) (simp add: algebra_simps)
qed

text \<open>The attribute at an offset, with everything below it.\<close>

fun val_at :: "bytes \<Rightarrow> int \<Rightarrow> blob_val \<Rightarrow> bool" where
  "val_at m q (V8 x) \<longleftrightarrow> blob_get_uint8 m q = Some x"
| "val_at m q (V16 x) \<longleftrightarrow> blob_get_uint16 m q = Some x"
| "val_at m q (V32 x) \<longleftrightarrow> blob_get_uint32 m q = Some x"
| "val_at m q (V64 x) \<longleftrightarrow> blob_get_uint64 m q = Some x"
| "val_at m q (VI32 x) \<longleftrightarrow> blob_get_int32 m q = Some x"
| "val_at m q (VStr t) \<longleftrightarrow> blob_get_string m q \<bind> cstr m = Some t"
| "val_at m q (VBuf bs) \<longleftrightarrow> blob_get_data m q \<bind> (\<lambda>d. ld m d (int (length bs))) = Some bs"

definition attr_head_at :: "bytes \<Rightarrow> int \<Rightarrow> u8 \<Rightarrow> bytes \<Rightarrow> nat \<Rightarrow> bool" where
  "attr_head_at m q ty nm n \<longleftrightarrow> ld1 m q = Some ty \<and> cstr m (blob_get_name q) = Some nm \<and> blob_get_len m q = Some (of_nat (6 + length nm + n)) \<and>
     blob_get_data m q = Some (q + 6 + int (length nm)) \<and> (length nm < 250 \<longrightarrow> blob_get_data_len m q = Some (of_nat n))"

fun attr_at :: "bytes \<Rightarrow> int \<Rightarrow> attr \<Rightarrow> bool" and attrs_at :: "bytes \<Rightarrow> int \<Rightarrow> attr list \<Rightarrow> bool" where
  "attr_at m q (Leaf nm v) \<longleftrightarrow> attr_head_at m q (val_type v) nm (length (val_bytes v)) \<and> val_at m q v"
| "attr_at m q (Table nm as) \<longleftrightarrow> attr_head_at m q BLOB_TYPE_TABLE nm (length (attrs_bytes as)) \<and> attrs_at m (q + 6 + int (length nm)) as"
| "attrs_at m q [] \<longleftrightarrow> True"
| "attrs_at m q (a # as) \<longleftrightarrow> attr_at m q a \<and> attrs_at m (q + int (length (attr_bytes a))) as"

lemma layout_head:
  assumes "m = us @ layout ty (6 + length nm + length d) nm d @ ws" "q = int (length us)" "6 + length nm + length d < 65536" "0 \<notin> set nm"
  shows "attr_head_at m q ty nm (length d)"
  using layout_fields [OF assms(1,2)] layout_name [OF assms(1,2,4)] layout_data_len [OF assms(1-3)] assms(3)
  by (simp add: attr_head_at_def blob_get_len_def div_less)

lemma layout_val:
  assumes "m = us @ layout ty l nm (val_bytes v) @ ws" "q = int (length us)" "l < 65536" "length nm + 1 < 65536" "val_ok v"
  shows "val_at m q v"
proof -
  obtain vs where vs: "m = vs @ val_bytes v @ ws" "int (length vs) = q + 6 + int (length nm)"
    by (rule layout_parts [OF assms(1,2)]) blast
  have d: "blob_get_data m q = Some (int (length vs))" using layout_fields(5) [OF assms(1-4)] vs(2) by simp
  have ld: "ld m (int (length vs)) (int (length (val_bytes v))) = Some (val_bytes v)" unfolding vs(1) by (rule ld_at) simp_all
  show ?thesis
  proof (cases v)
    case (VStr t)
    then have "cstr m (int (length vs)) = Some t" using cstr_at [OF refl, of t vs ws] assms(5) vs(1) by simp
    then show ?thesis using VStr d by (simp add: blob_get_string_def)
  next
    case (V8 x)
    then have "ld1 m (int (length vs)) = Some x" using ld1_at [OF refl, of vs x ws] vs(1) by simp
    then show ?thesis using V8 d by (simp add: blob_get_uint8_def)
  qed (use ld d in \<open>simp_all add: blob_get_uint16_def blob_get_uint32_def blob_get_uint64_def blob_get_int32_def be16_at_def swap16 swap32 swap64\<close>)
qed

lemma attr_read:
  "m = us @ attr_bytes a @ ws \<Longrightarrow> q = int (length us) \<Longrightarrow> attr_ok k a \<Longrightarrow> attr_at m q a"
  "m = us @ attrs_bytes as @ ws \<Longrightarrow> q = int (length us) \<Longrightarrow> list_all (attr_ok k) as \<Longrightarrow> attrs_at m q as"
proof (induction m q a and m q as arbitrary: us ws k and us ws k rule: attr_at_attrs_at.induct)
  case (1 m q nm v)
  then show ?case using layout_head [of m us "val_type v" nm "val_bytes v" ws q] layout_val [of m us "val_type v" _ nm v ws q] by simp
next
  case (2 m q nm as)
  let ?d = "attrs_bytes as"
  have m: "m = us @ layout BLOB_TYPE_TABLE (6 + length nm + length ?d) nm ?d @ ws" using "2.prems"(1) by (simp add: Let_def)
  obtain vs where vs: "m = (vs @ nm @ [0]) @ ?d @ ws" "int (length (vs @ nm @ [0])) = q + 6 + int (length nm)"
    by (rule layout_parts [OF m "2.prems"(2)]) blast
  have "list_all (attr_ok (k - 1)) as" using "2.prems"(3) by simp
  then have "attrs_at m (q + 6 + int (length nm)) as" using "2.IH" [OF vs(1) vs(2) [symmetric]] by blast
  then show ?case using layout_head [OF m "2.prems"(2)] "2.prems"(3) by simp
next
  case (4 m q a as)
  have "attr_at m q a" using "4.IH"(1) [of us "attrs_bytes as @ ws" k] "4.prems" by simp
  moreover have "attrs_at m (q + int (length (attr_bytes a))) as" using "4.IH"(2) [of "us @ attr_bytes a" ws k] "4.prems" by simp
  ultimately show ?case by simp
qed simp

text \<open>The attributes of a list with their offsets, and the last one whose name starts with the name of a policy.\<close>

fun place :: "int \<Rightarrow> attr list \<Rightarrow> (int \<times> attr) list" where
  "place q [] = []"
| "place q (a # as) = (q, a) # place (q + int (length (attr_bytes a))) as"

fun attr_name :: "attr \<Rightarrow> bytes" where
  "attr_name (Leaf nm v) = nm"
| "attr_name (Table nm as) = nm"

definition pick :: "(int \<times> attr) list \<Rightarrow> bytes \<Rightarrow> int option \<Rightarrow> int option" where
  "pick pl p x = (case rev (filter (\<lambda>(q, a). take (length p) (attr_name a) = p) pl) of [] \<Rightarrow> x | (q, a) # _ \<Rightarrow> Some q)"

lemma pick_Cons: "pick ((q, a) # pl) p x = pick pl p (if take (length p) (attr_name a) = p then Some q else x)"
  by (auto simp: pick_def split: list.split)

lemma prefix_at_eq:
  "off = int (length us) \<Longrightarrow> 0 \<notin> set p \<Longrightarrow> prefix_at (us @ nm @ 0 # ws) off p = Some (take (length p) nm = p)"
proof (induction p arbitrary: us nm off)
  case (Cons c p)
  show ?case
  proof (cases nm)
    case Nil
    then show ?thesis using ld1_at [of off us 0 ws] Cons.prems by simp
  next
    case (Cons x nm')
    then show ?thesis using ld1_at [of off us x "nm' @ 0 # ws"] Cons.IH [of "off + 1" "us @ [x]" nm'] Cons.prems by auto
  qed
qed simp

lemma attr_layout: "attr_ok k a \<Longrightarrow> \<exists>ty d. attr_bytes a = layout ty (length (attr_bytes a)) (attr_name a) d \<and> length (attr_bytes a) < 65536 \<and> length (attr_name a) + 1 < 65536"
proof (cases a)
  case (Table nm as)
  assume "attr_ok k a"
  then show ?thesis using Table by (auto simp: Let_def intro!: exI [of _ BLOB_TYPE_TABLE] exI [of _ "attrs_bytes as"])
qed (auto intro!: exI)

lemma policy_loop_eq:
  assumes "m = us @ attr_bytes a @ ws" "q = int (length us)" "attr_ok k a"
  shows "list_all (\<lambda>p. 0 \<notin> set p) ps \<Longrightarrow> length tb = length ps \<Longrightarrow>
    policy_loop m q (length ps) ps tb = Some (map2 (\<lambda>p x. if take (length p) (attr_name a) = p then Some q else x) ps tb)"
proof (induction ps arbitrary: tb)
  case (Cons p ps)
  obtain ty d where l: "attr_bytes a = layout ty (length (attr_bytes a)) (attr_name a) d" using attr_layout [OF assms(3)] by blast
  obtain vs where vs: "m = vs @ attr_name a @ 0 # d @ ws" "int (length vs) = blob_get_name q"
    using layout_parts [of m us ty "length (attr_bytes a)" "attr_name a" d ws q] assms(1,2) l by metis
  have "prefix_at m (blob_get_name q) p = Some (take (length p) (attr_name a) = p)"
    unfolding vs(1) by (rule prefix_at_eq) (use vs(2) Cons.prems in auto)
  moreover obtain x tb' where "tb = x # tb'" using Cons.prems(2) by (cases tb) auto
  ultimately show ?case using Cons by simp
qed simp

lemma attr_loop_eq:
  "m = us @ attrs_bytes as @ ws \<Longrightarrow> q = int (length us) \<Longrightarrow> list_all (attr_ok k) as \<Longrightarrow> list_all (\<lambda>p. 0 \<notin> set p) ps \<Longrightarrow> length tb = length ps \<Longrightarrow>
   attr_loop m (length ps) ps (q + int (length (attrs_bytes as))) q tb = Some (map2 (pick (place q as)) ps tb)"
proof (induction as arbitrary: us q tb)
  case Nil
  have "map2 (pick []) ps tb = tb" using Nil.prems(5) by (intro nth_equalityI) (auto simp: pick_def)
  then show ?case using Nil by (subst attr_loop.simps) simp
next
  case (Cons a as)
  let ?n = "length (attr_bytes a)"
  obtain ty d where l: "attr_bytes a = layout ty ?n (attr_name a) d" "?n < 65536" "length (attr_name a) + 1 < 65536"
    using attr_layout [of k a] Cons.prems(3) by auto
  have m: "m = us @ attr_bytes a @ (attrs_bytes as @ ws)" using Cons.prems(1) by simp
  have nx: "blob_next m q = Some (q + int ?n)" using layout_fields(4) [of m us ty ?n "attr_name a" d "attrs_bytes as @ ws" q] m Cons.prems(2) l by simp
  define tb' where "tb' = map2 (\<lambda>p x. if take (length p) (attr_name a) = p then Some q else x) ps tb"
  have pl: "policy_loop m q (length ps) ps tb = Some tb'" "length tb' = length ps"
    using policy_loop_eq [OF m Cons.prems(2), of k ps tb] Cons.prems(3-5) by (simp_all add: tb'_def)
  have ne: "0 < ?n" using l(1) by (metis length_layout add_gr_0 zero_less_numeral)
  then have pos: "0 < int ?n + int (length (attrs_bytes as))" by linarith
  have "attr_loop m (length ps) ps (q + int (length (attrs_bytes (a # as)))) q tb = attr_loop m (length ps) ps (q + int ?n + int (length (attrs_bytes as))) (q + int ?n) tb'"
    using nx pl(1) pos by (subst attr_loop.simps) (simp add: add.assoc)
  also have "\<dots> = Some (map2 (pick (place (q + int ?n) as)) ps tb')"
    using Cons.IH [of "us @ attr_bytes a" "q + int ?n" tb'] Cons.prems pl(2) by simp
  also have "map2 (pick (place (q + int ?n) as)) ps tb' = map2 (pick (place q (a # as))) ps tb"
    using Cons.prems(5) by (intro nth_equalityI) (auto simp: tb'_def pick_Cons)
  finally show ?case .
qed

subsection \<open>Properties\<close>

lemma blob_fresh_rep:
  assumes "blob_create True = Some b0" "blob_init True True True fill b0 = Some (ret, b)"
  shows "blob_rep b [] (replicate 10240 0) [] 12"
proof -
  have "as_rep (tbl_stack b) []" "as_room (tbl_stack b) = 12"
    using assms by (auto simp: blob_create_def blob_init_def array_stack_alloc_def array_stack_init_def as_rep_def as_room_def)
  then show ?thesis using assms by (auto simp: blob_rep_def blob_create_def blob_init_def array_stack_alloc_def)
qed

lemma place_at: "attrs_at m q as \<Longrightarrow> (p, a) \<in> set (place q as) \<Longrightarrow> attr_at m p a"
  by (induction as arbitrary: q) auto

text \<open>C22.
  Any attributes, with tables nested at most twelve deep, that fit the block of a fresh blob: the calls that write them stay in the block, and
  what they wrote can be read back: \<open>blob_parse_to_attr\<close> with fewer than 256 policies (their count is a byte) ends and assigns to each
  the last attribute whose name starts with the name of the policy, and at the offset of every attribute the functions that read return
  its type, name, length and value, for a table with everything in it; the length of the data only when the name has fewer than 250
  bytes, since \<open>blob_get_data_len\<close> cuts the distance of the data to a byte.\<close>

theorem blob_roundtrip:
  assumes fresh: "blob_create True = Some b0" "blob_init True True True fill b0 = Some (ret, b)"
    and ok: "list_all (attr_ok 12) as" "length (attrs_bytes as) \<le> BLOB_MAX_SIZE" and pol: "list_all (\<lambda>p. 0 \<notin> set p) ps" and cnt: "length ps < 256"
  shows "\<exists>b'. blob_run b (concat (map attr_ops as)) = Some b' \<and> bl_tail b' = int (length (attrs_bytes as)) \<and>
    blob_parse_to_attr ps (of_nat (length ps)) (replicate (length ps) None) (bl_head b') 0 (length (attrs_bytes as)) = Some (0, map (\<lambda>p. pick (place 0 as) p None) ps) \<and>
    (\<forall>(q, a) \<in> set (place 0 as). attr_at (bl_head b') q a)"
proof -
  obtain b' rest' where b': "blob_run b (concat (map attr_ops as)) = Some b'" "blob_rep b' ([] @ attrs_bytes as) rest' [] 12"
    using attrs_write [OF attr_write blob_fresh_rep [OF fresh], of as] ok by (auto simp: list_all_iff)
  have h: "bl_head b' = [] @ attrs_bytes as @ rest'" "bl_tail b' = int (length (attrs_bytes as))" using b'(2) by (simp_all add: blob_rep_def)
  have "map2 (pick (place 0 as)) ps (replicate (length ps) None) = map (\<lambda>p. pick (place 0 as) p None) ps"
    by (intro nth_equalityI) auto
  then have "blob_parse_to_attr ps (of_nat (length ps)) (replicate (length ps) None) (bl_head b') 0 (length (attrs_bytes as)) = Some (0, map (\<lambda>p. pick (place 0 as) p None) ps)"
    using attr_loop_eq [OF h(1), of 0 12 ps "replicate (length ps) None"] ok(1) pol cnt by (simp add: blob_parse_to_attr_def unsigned_of_nat take_bit_nat_eq_self)
  moreover have "attrs_at (bl_head b') 0 as" using attr_read(2) [OF h(1), of 0 12] ok(1) by simp
  ultimately show ?thesis using b'(1) h(2) place_at by fastforce
qed

text \<open>A table \<open>t\<close> with a number \<open>a\<close>, and a text \<open>s\<close>.\<close>

definition sample_attrs :: "attr list" where
  "sample_attrs = [Table [116] [Leaf [97] (V16 513)], Leaf [115] (VStr [104, 105])]"

lemma sample_attrs_facts: "list_all (attr_ok 12) sample_attrs" "length (attrs_bytes sample_attrs) = 26"
  "place 0 sample_attrs = [(0, Table [116] [Leaf [97] (V16 513)]), (16, Leaf [115] (VStr [104, 105]))]"
  by (simp_all add: sample_attrs_def Let_def)

theorem blob_roundtrip_witness:
  "\<exists>b0 b b'. blob_create True = Some b0 \<and> blob_init True True True (\<lambda>_. 7) b0 = Some (0, b) \<and> blob_run b (concat (map attr_ops sample_attrs)) = Some b' \<and>
     blob_parse_to_attr [[115], [120]] 2 [None, None] (bl_head b') 0 26 = Some (0, [Some 16, None]) \<and>
     blob_get_string (bl_head b') 16 \<bind> cstr (bl_head b') = Some [104, 105] \<and> blob_get_uint16 (bl_head b') 7 = Some 513"
proof -
  obtain b0 where b0: "blob_create True = Some b0" by (simp add: blob_create_def)
  obtain b where b: "blob_init True True True (\<lambda>_. 7) b0 = Some (0, b)" by (simp add: blob_init_def array_stack_alloc_def Let_def)
  have pol: "list_all (\<lambda>p. 0 \<notin> set p) [[115], [120 :: u8]]" by simp
  have cnt: "length [[115], [120 :: u8]] < 256" by simp
  have fit: "length (attrs_bytes sample_attrs) \<le> BLOB_MAX_SIZE" by (simp add: sample_attrs_facts(2))
  have pk: "map (\<lambda>p. pick (place 0 sample_attrs) p None) [[115], [120]] = [Some 16, None]"
    unfolding sample_attrs_facts(3) by (simp add: pick_def)
  obtain b' where b': "blob_run b (concat (map attr_ops sample_attrs)) = Some b'"
      "blob_parse_to_attr [[115], [120]] (of_nat (length [[115], [120 :: u8]])) (replicate (length [[115], [120 :: u8]]) None) (bl_head b') 0 (length (attrs_bytes sample_attrs)) =
        Some (0, map (\<lambda>p. pick (place 0 sample_attrs) p None) [[115], [120]])"
      "\<forall>(q, a) \<in> set (place 0 sample_attrs). attr_at (bl_head b') q a"
    using blob_roundtrip [OF b0 b sample_attrs_facts(1) fit pol cnt] by blast
  have "attr_at (bl_head b') 0 (Table [116] [Leaf [97] (V16 513)])" "attr_at (bl_head b') 16 (Leaf [115] (VStr [104, 105]))"
    using b'(3) by (simp_all add: sample_attrs_facts(3))
  then show ?thesis using b0 b b'(1,2) unfolding pk sample_attrs_facts(2) by auto
qed

text \<open>An attribute whose name has 250 bytes or more: \<open>blob_get_data_len\<close>, which cuts the distance of the data to a byte, reports too long a length
  for whatever was written, so that a reader of the data leaves the attribute.\<close>

theorem blob_data_len_long_name:
  assumes rep: "blob_rep b pre rest xs r" and nm: "0 \<notin> set nm" "250 \<le> length nm" and d: "6 + length nm + length d \<le> length rest"
  shows "\<exists>l b'. blob_add b ty nm (Some d) (of_nat (length d)) = Some (l, b') \<and> (\<exists>n. blob_get_data_len (bl_head b') (bl_tail b) = Some n \<and>
    unat n = length d + (6 + length nm) div 256 * 256 \<and> length d < unat n)"
proof -
  have len: "6 + length nm + length d < 65536" using rep d by (simp add: blob_rep_def)
  obtain b' rest' where b': "blob_add b ty nm (Some d) (of_nat (length d)) = Some (of_nat (6 + length nm + length d), b')"
      "blob_rep b' (pre @ layout ty (6 + length nm + length d) nm d) rest' xs r"
    using blob_add_law [OF rep nm(1) d len _ refl, of "Some d" ty] by auto
  let ?n = "length d + (6 + length nm) div 256 * 256"
  have "blob_get_data_len (bl_head b') (bl_tail b) = Some (of_int (int (length d) + int ((6 + length nm) div 256 * 256)))"
    by (rule layout_data_len [of _ pre ty nm d rest']) (use b'(2) rep len in \<open>simp_all add: blob_rep_def\<close>)
  moreover have "unat (of_nat ?n :: u32) = ?n"
  proof -
    have "?n < 131072" using len div_mult_mod_eq [of "6 + length nm" 256] by linarith
    then show ?thesis by (rule unat_small32)
  qed
  moreover have "1 \<le> (6 + length nm) div 256" using nm(2) by simp
  ultimately show ?thesis using b'(1) by (intro exI [of _ "of_nat (6 + length nm + length d)"] exI [of _ b'] conjI exI [of _ "of_nat ?n"]) simp_all
qed

theorem blob_data_len_long_name_witness:
  "\<exists>b0 b l b' n. blob_create True = Some b0 \<and> blob_init True True True (\<lambda>_. 7) b0 = Some (0, b) \<and>
     blob_add b BLOB_TYPE_BUFFER (replicate 250 65) (Some [1, 2]) 2 = Some (l, b') \<and> blob_get_data_len (bl_head b') (bl_tail b) = Some n \<and> unat n = 258"
proof -
  obtain b0 where b0: "blob_create True = Some b0" by (simp add: blob_create_def)
  obtain b where b: "blob_init True True True (\<lambda>_. 7) b0 = Some (0, b)" by (simp add: blob_init_def array_stack_alloc_def Let_def)
  have "of_nat (length [1, 2 :: u8]) = (2 :: u16)" by simp
  moreover have "0 \<notin> set (replicate 250 (65 :: u8))" "250 \<le> length (replicate 250 (65 :: u8))"
    "6 + length (replicate 250 (65 :: u8)) + length [1, 2 :: u8] \<le> length (replicate 10240 (0 :: u8))"
    "length [1, 2 :: u8] + (6 + length (replicate 250 (65 :: u8))) div 256 * 256 = 258"
    by (simp_all only: length_replicate set_replicate_conv_if) simp_all
  ultimately show ?thesis using blob_data_len_long_name [OF blob_fresh_rep [OF b0 b], of "replicate 250 65" "[1, 2]" BLOB_TYPE_BUFFER] b0 b by metis
qed

text \<open>When twelve tables are open, the result of the failed push is ignored: the thirteenth table is written, but its end closes the twelfth one, which
  then contains the unfinished table and is no longer open; attributes that follow are written outside of it.\<close>

theorem blob_table_depth:
  assumes rep: "blob_rep b (pre @ layout BLOB_TYPE_TABLE l onm d) rest (of_nat (length pre) # xs) 0" and nm: "0 \<notin> set nm" "6 + length nm \<le> length rest"
  shows "\<exists>b1 b2 rest'. blob_step b (Table_start nm) = Some b1 \<and> tbl_stack b1 = tbl_stack b \<and> blob_step b1 Table_end = Some b2 \<and>
    blob_rep b2 (pre @ layout BLOB_TYPE_TABLE (6 + length onm + length d + (6 + length nm)) onm (d @ layout BLOB_TYPE_TABLE (6 + length nm) nm [])) rest' xs 1"
proof -
  let ?xs = "of_nat (length pre) # xs" and ?pre = "pre @ layout BLOB_TYPE_TABLE l onm d" and ?in = "layout BLOB_TYPE_TABLE (6 + length nm) nm []"
  have len: "6 + length nm < 65536" "6 + length onm + length (d @ ?in) < 65536" using rep nm(2) by (simp_all add: blob_rep_def)
  have "array_stack_push (tbl_stack b) (of_int (bl_tail b)) = Some (-1, tbl_stack b)"
    using as_room_iff [of "tbl_stack b" ?xs] rep by (auto simp: blob_rep_def array_stack_push_def Let_def)
  moreover obtain b1 rest1 where b1: "blob_add b BLOB_TYPE_TABLE nm None 0 = Some (of_nat (6 + length nm + length ([] :: bytes)), b1)"
      "blob_rep b1 (?pre @ ?in) rest1 ?xs 0"
    using blob_add_law [OF rep nm(1), of "[]" None 0 BLOB_TYPE_TABLE] nm(2) len(1) by auto
  ultimately have s1: "blob_step b (Table_start nm) = Some b1" by (simp add: blob_add_table_start_def)
  have st: "tbl_stack b1 = tbl_stack b" using b1(1) by (auto simp: blob_add_def Let_def bind_eq_Some_iff)
  have "?pre @ ?in = pre @ layout BLOB_TYPE_TABLE l onm (d @ ?in)" by (simp add: layout_def)
  then obtain b2 where "blob_step b1 Table_end = Some b2" "blob_rep b2 (pre @ layout BLOB_TYPE_TABLE (6 + length onm + length (d @ ?in)) onm (d @ ?in)) rest1 xs (Suc 0)"
    using blob_end_step [of b1 pre BLOB_TYPE_TABLE l onm "d @ ?in" rest1 xs 0] b1(2) len(2) by auto
  then show ?thesis using s1 st by (auto simp: add.assoc)
qed

end
