(* ===== verification/IntervalTree.thy ===== *)
theory IntervalTree
  imports RBTreeMap
begin

text \<open>
  The class \<open>Interval_Tree\<close> of \<open>core/Interval_Tree.c\<close>: an \<open>RBTree_Map\<close> whose values point to intervals and whose keys are compared as
  unsigned numbers.  The memory of the intervals belongs to the caller and is an argument: the start and the end at an address.
\<close>

definition integer_key_cmp_func :: "ptr \<Rightarrow> ptr \<Rightarrow> int" where
  "integer_key_cmp_func key1 key2 = (if key1 > key2 then 1 else if key1 < key2 then -1 else 0)"

definition Interval_Tree_construct :: "(int \<times> rbtree_map) option" where
  "Interval_Tree_construct = do { (r, m) \<leftarrow> RBTree_Map_set_cmp_func (snd RBTree_Map_construct) (Some integer_key_cmp_func); Some (1, m) }"

definition Interval_Tree_add :: "rbtree_map \<Rightarrow> u64 \<Rightarrow> ptr \<Rightarrow> ptr \<Rightarrow> (int \<times> rbtree_map) option" where
  "Interval_Tree_add m n key val = RBTree_Map_add m n key val"

definition Interval_Tree_remove :: "rbtree_map \<Rightarrow> ptr \<Rightarrow> (int \<times> ptr option \<times> rbtree_map) option" where
  "Interval_Tree_remove m key = RBTree_Map_remove m key"

partial_function (option) interval_search :: "rbtree_map \<Rightarrow> (ptr \<rightharpoonup> ptr \<times> ptr) \<Rightarrow> (ptr \<Rightarrow> ptr \<Rightarrow> int) \<Rightarrow> ptr \<Rightarrow> u64 \<Rightarrow> (int \<times> ptr) option" where
  "interval_search m iv cmp key node =
     (if node = 0 then Some (0, 0)
      else do { v \<leftarrow> rb_value m node;
                (start, stop) \<leftarrow> iv v;
                if cmp key start < 0 then do { l \<leftarrow> rb_left (rb_heap m) node; interval_search m iv cmp key l }
                else if cmp key stop > 0 then do { r \<leftarrow> rb_right (rb_heap m) node; interval_search m iv cmp key r }
                else Some (1, v) })"

text \<open>The return code and what \<open>*element\<close> is set to; nothing when \<open>element\<close> is \<open>NULL\<close>.\<close>

definition Interval_Tree_search :: "rbtree_map \<Rightarrow> (ptr \<rightharpoonup> ptr \<times> ptr) \<Rightarrow> ptr \<Rightarrow> bool \<Rightarrow> (int \<times> ptr option) option" where
  "Interval_Tree_search m iv key element_nonnull =
     (if \<not> element_nonnull then Some (-1, None)
      else do { cmp \<leftarrow> rb_cmp m; (ret, v) \<leftarrow> interval_search m iv cmp key (rb_root (rb_heap m)); Some (ret, Some v) })"

definition Interval_Tree_deconstruct :: "map_config \<Rightarrow> rbtree_map \<Rightarrow> (int \<times> release list \<times> rbtree_map) option" where
  "Interval_Tree_deconstruct cfg m = do { (r, rels, m') \<leftarrow> RBTree_Map_deconstruct cfg m; Some (1, rels, m') }"

subsection \<open>Disjoint intervals\<close>

text \<open>Every binding maps the start of an interval to it, and different bindings have disjoint intervals.\<close>

definition disjoint_intervals :: "(ptr \<rightharpoonup> ptr \<times> ptr) \<Rightarrow> (ptr \<times> ptr) list \<Rightarrow> bool" where
  "disjoint_intervals iv ds \<longleftrightarrow> (\<forall>d \<in> set ds. \<exists>e. iv (snd d) = Some (fst d, e) \<and> fst d \<le> e) \<and>
     sorted_wrt (\<lambda>d d'. \<forall>e e'. iv (snd d) = Some (fst d, e) \<longrightarrow> iv (snd d') = Some (fst d', e') \<longrightarrow> e < fst d' \<or> e' < fst d) ds"

definition covers :: "(ptr \<rightharpoonup> ptr \<times> ptr) \<Rightarrow> ptr \<Rightarrow> ptr \<times> ptr \<Rightarrow> bool" where
  "covers iv key d \<longleftrightarrow> (\<exists>s e. iv (snd d) = Some (s, e) \<and> s \<le> key \<and> key \<le> e)"

lemma covers_iff: "iv (snd d) = Some (s, e) \<Longrightarrow> covers iv key d \<longleftrightarrow> s \<le> key \<and> key \<le> e"
  by (simp add: covers_def)

lemma integer_cmp: "integer_key_cmp_func = rb_default_key_cmp_func"
  by (intro ext) (simp add: integer_key_cmp_func_def rb_default_key_cmp_func_def)

lemma integer_cmp_sign: "integer_key_cmp_func a b < 0 \<longleftrightarrow> a < b" "integer_key_cmp_func a b > 0 \<longleftrightarrow> a > b" "integer_key_cmp_func a b \<le> 0 \<longleftrightarrow> a \<le> b"
  by (auto simp: integer_key_cmp_func_def)

text \<open>In the order of the keys, every interval ends before the next one starts.\<close>

lemma disjoint_sorted:
  assumes "disjoint_intervals iv ds" "ordered integer_key_cmp_func ds"
  shows "sorted_wrt (\<lambda>d d'. \<forall>e. iv (snd d) = Some (fst d, e) \<longrightarrow> e < fst d') ds"
proof -
  have "sorted_wrt (\<lambda>d d'. fst d \<le> fst d') ds" using assms(2) by (simp add: ordered_def integer_cmp_sign)
  with assms(1) show ?thesis
  proof (induction ds)
    case (Cons d ds)
    have dis: "disjoint_intervals iv ds" using Cons.prems(1) by (simp add: disjoint_intervals_def)
    have "e < fst d'" if d': "d' \<in> set ds" "iv (snd d) = Some (fst d, e)" for d' e
    proof -
      obtain e' where e': "iv (snd d') = Some (fst d', e')" "fst d' \<le> e'"
        using Cons.prems(1) d'(1) unfolding disjoint_intervals_def by (meson list.set_intros(2))
      then have "e < fst d' \<or> e' < fst d" using Cons.prems(1) d' by (auto simp: disjoint_intervals_def)
      moreover have "fst d \<le> fst d'" using Cons.prems(2) d'(1) by simp
      ultimately show ?thesis using e'(2) by auto
    qed
    then show ?case using Cons.IH [OF dis] Cons.prems(2) by auto
  qed simp
qed

lemma interval_search_ok:
  "tree_at (rb_heap m) p t \<Longrightarrow> set (inorder t) \<subseteq> dom (rb_value m) \<Longrightarrow> \<forall>a \<in> set (inorder t). \<exists>e. iv (snd (entry_of m a)) = Some (fst (entry_of m a), e) \<and> fst (entry_of m a) \<le> e \<Longrightarrow>
   sorted_wrt (\<lambda>d d'. \<forall>e. iv (snd d) = Some (fst d, e) \<longrightarrow> e < fst d') (map (entry_of m) (inorder t)) \<Longrightarrow>
   (\<exists>a \<in> set (inorder t). covers iv key (entry_of m a) \<and> interval_search m iv integer_key_cmp_func key (addr t) = Some (1, snd (entry_of m a))) \<or>
   (\<forall>a \<in> set (inorder t). \<not> covers iv key (entry_of m a)) \<and> interval_search m iv integer_key_cmp_func key (addr t) = Some (0, 0)"
proof (induction t arbitrary: p)
  case Lf
  then show ?case by (subst (1 2) interval_search.simps) simp
next
  case (Nd c l a r)
  have v: "rb_value m a = Some (snd (entry_of m a))" using Nd.prems(2) value_of by auto
  obtain e where e: "iv (snd (entry_of m a)) = Some (fst (entry_of m a), e)" "fst (entry_of m a) \<le> e" using Nd.prems(3) by auto
  have w: "sorted_wrt (\<lambda>d d'. \<forall>e. iv (snd d) = Some (fst d, e) \<longrightarrow> e < fst d') (map (entry_of m) (inorder l))"
    "sorted_wrt (\<lambda>d d'. \<forall>e. iv (snd d) = Some (fst d, e) \<longrightarrow> e < fst d') (map (entry_of m) (inorder r))"
    using Nd.prems(4) by (simp_all add: sorted_wrt_append)
  have left: "\<not> covers iv key (entry_of m b)" if "b \<in> set (inorder l)" "fst (entry_of m a) \<le> key" for b
  proof -
    have "b \<in> set (inorder (Nd c l a r))" using that(1) by simp
    then obtain e' where "iv (snd (entry_of m b)) = Some (fst (entry_of m b), e')" using Nd.prems(3) by blast
    moreover from this have "e' < fst (entry_of m a)" using Nd.prems(4) that(1) by (auto simp: sorted_wrt_append)
    ultimately show ?thesis using that(2) by (auto simp: covers_def)
  qed
  have right: "\<not> covers iv key (entry_of m b)" if "b \<in> set (inorder r)" "key \<le> e" for b
  proof -
    have "b \<in> set (inorder (Nd c l a r))" using that(1) by simp
    then obtain e' where "iv (snd (entry_of m b)) = Some (fst (entry_of m b), e')" using Nd.prems(3) by blast
    moreover have "e < fst (entry_of m b)" using Nd.prems(4) that(1) e(1) by (auto simp: sorted_wrt_append)
    ultimately show ?thesis using that(2) by (auto simp: covers_def)
  qed
  consider "key < fst (entry_of m a)" | "e < key" | "fst (entry_of m a) \<le> key" "key \<le> e" by fastforce
  then show ?case
  proof cases
    case 1
    have "interval_search m iv integer_key_cmp_func key (addr (Nd c l a r)) = interval_search m iv integer_key_cmp_func key (addr l)"
      using Nd.prems(1) v e(1) 1 by (subst interval_search.simps) (simp add: integer_cmp_sign)
    moreover have "\<not> covers iv key (entry_of m a)" "\<forall>b \<in> set (inorder r). \<not> covers iv key (entry_of m b)" using e 1 right by (auto simp: covers_def)
    ultimately show ?thesis using Nd.IH(1) [of a] Nd.prems w(1) by auto
  next
    case 2
    then have k: "fst (entry_of m a) \<le> key" "\<not> key < fst (entry_of m a)" using e(2) by auto
    have "interval_search m iv integer_key_cmp_func key (addr (Nd c l a r)) = interval_search m iv integer_key_cmp_func key (addr r)"
      using Nd.prems(1) v e(1) 2 k by (subst interval_search.simps) (auto simp: integer_cmp_sign)
    moreover have "\<not> covers iv key (entry_of m a)" "\<forall>b \<in> set (inorder l). \<not> covers iv key (entry_of m b)" using e 2 k left by (auto simp: covers_def)
    ultimately show ?thesis using Nd.IH(2) [of a] Nd.prems w(2) by auto
  next
    case 3
    have "interval_search m iv integer_key_cmp_func key (addr (Nd c l a r)) = Some (1, snd (entry_of m a))"
      using Nd.prems(1) v e(1) 3 by (subst interval_search.simps) (auto simp: integer_cmp_sign)
    moreover have "covers iv key (entry_of m a)" using e(1) 3 by (auto simp: covers_def)
    ultimately show ?thesis by auto
  qed
qed

subsection \<open>Properties\<close>

lemma construct_interval_tree: "Interval_Tree_construct = Some (1, m) \<Longrightarrow> rbm_bindings integer_key_cmp_func m []"
  using set_cmp_func_bindings [OF RBTree_Map_construct_bindings, of integer_key_cmp_func] cmp_default integer_cmp by (auto simp: Interval_Tree_construct_def)

text \<open>C16.
  An interval tree that holds disjoint intervals under their starts, through whatever operations it came to hold them: the search for a number
  ends and delivers the interval that contains it, or reports 0 when none does.\<close>

theorem interval_tree_search:
  assumes "rbm_rep integer_key_cmp_func m ds" "disjoint_intervals iv ds"
  shows "(\<exists>d \<in> set ds. covers iv key d \<and> Interval_Tree_search m iv key True = Some (1, Some (snd d))) \<or>
    (\<forall>d \<in> set ds. \<not> covers iv key d) \<and> Interval_Tree_search m iv key True = Some (0, Some 0)"
proof -
  obtain t where t: "rbm_tree integer_key_cmp_func m t" "ds = map (entry_of m) (inorder t)" using assms(1) by (auto simp: rbm_rep_def)
  note r = t(1) [unfolded rbm_tree_def live_def]
  have o: "sorted_wrt (\<lambda>d d'. \<forall>e. iv (snd d) = Some (fst d, e) \<longrightarrow> e < fst d') (map (entry_of m) (inorder t))"
    using disjoint_sorted [OF assms(2)] r t(2) by simp
  have "\<forall>a \<in> set (inorder t). \<exists>e. iv (snd (entry_of m a)) = Some (fst (entry_of m a), e) \<and> fst (entry_of m a) \<le> e"
    using assms(2) t(2) by (auto simp: disjoint_intervals_def)
  then have "(\<exists>a \<in> set (inorder t). covers iv key (entry_of m a) \<and> interval_search m iv integer_key_cmp_func key (addr t) = Some (1, snd (entry_of m a))) \<or>
      (\<forall>a \<in> set (inorder t). \<not> covers iv key (entry_of m a)) \<and> interval_search m iv integer_key_cmp_func key (addr t) = Some (0, 0)"
    using interval_search_ok [of m 0 t iv key] r o by (auto simp: rb_rep_def)
  then show ?thesis using r t(2) by (auto simp: Interval_Tree_search_def rb_rep_def)
qed

text \<open>Two intervals, from 3 to 5 and from 8 to 9.\<close>

definition two_intervals :: "ptr \<rightharpoonup> ptr \<times> ptr" where
  "two_intervals = [30 \<mapsto> (3, 5), 80 \<mapsto> (8, 9)]"

theorem interval_tree_search_witness:
  "\<exists>m0 m1 m2. Interval_Tree_construct = Some (1, m0) \<and> Interval_Tree_add m0 8 3 30 = Some (1, m1) \<and> Interval_Tree_add m1 16 8 80 = Some (1, m2) \<and>
     Interval_Tree_search m2 two_intervals 4 True = Some (1, Some 30) \<and> Interval_Tree_search m2 two_intervals 7 True = Some (0, Some 0)"
proof -
  obtain m0 where m0: "Interval_Tree_construct = Some (1, m0)"
    using set_cmp_func_bindings [OF RBTree_Map_construct_bindings, of integer_key_cmp_func] cmp_default integer_cmp by (auto simp: Interval_Tree_construct_def)
  have b0: "rbm_bindings integer_key_cmp_func m0 []" by (rule construct_interval_tree [OF m0])
  then obtain t0 where t0: "rbm_tree integer_key_cmp_func m0 t0" "inorder t0 = []" by (auto simp: rbm_bindings_def rbm_rep_def)
  have c: "cmp_ok integer_key_cmp_func" using cmp_default integer_cmp by simp
  have al: "(8 :: u64) \<noteq> 0" "aligned 8" "(16 :: u64) \<noteq> 0" "aligned 16" by (simp_all add: aligned_def)
  obtain m1 t1 where t1: "rbtree_map_insert m0 8 3 30 = Some (1, m1)" "rbm_tree integer_key_cmp_func m1 t1" "set (inorder t1) = {8}"
      "map (entry_of m1) (inorder t1) = [(3, 30)]"
    using insert_law [OF t0(1) c al(1,2), of 3 30] t0(2) by auto
  obtain m2 t2 where t2: "rbtree_map_insert m1 16 8 80 = Some (1, m2)" "rbm_tree integer_key_cmp_func m2 t2"
      "map (entry_of m2) (inorder t2) = [(3, 30), (8, 80)]"
    using insert_law [OF t1(2) c al(3,4), of 8 80] t1(3,4) by (auto simp: integer_key_cmp_func_def)
  have rep: "rbm_rep integer_key_cmp_func m2 [(3, 30), (8, 80)]" using t2(2,3) by (auto simp: rbm_rep_def intro!: exI [of _ t2])
  have dis: "disjoint_intervals two_intervals [(3, 30), (8, 80)]" by (simp add: disjoint_intervals_def two_intervals_def)
  have "covers two_intervals 4 (3, 30)" "\<not> covers two_intervals 4 (8, 80)" "\<not> covers two_intervals 7 (3, 30)" "\<not> covers two_intervals 7 (8, 80)"
    by (simp_all add: covers_iff [where s = 3 and e = 5] covers_iff [where s = 8 and e = 9] two_intervals_def)
  then have "Interval_Tree_search m2 two_intervals 4 True = Some (1, Some 30)" "Interval_Tree_search m2 two_intervals 7 True = Some (0, Some 0)"
    using interval_tree_search [OF rep dis, of 4] interval_tree_search [OF rep dis, of 7] by auto
  then show ?thesis using m0 t1(1) t2(1) by (auto simp: Interval_Tree_add_def RBTree_Map_add_def)
qed

end
