(* ===== verification/Trie.thy ===== *)
theory Trie
  imports StringObj
begin

text \<open>
  The prefix tree of \<open>core/Trie.c\<close>.  A node and its table of children are two blocks, both looked up under the address of the node; a
  block that has been freed is not in its map.  The address 0 is \<open>NULL\<close>.  What the allocator grants for a new node is an
  argument: the address, whether the table is granted as well, and what the field \<open>pass\<close> of the node, which the code does not
  initialise, happens to contain.  The counters are unbounded.
\<close>

type_synonym grant = "u64 \<times> bool \<times> int"

record trie =
  tr_root :: u64
  node_count :: int
  char_set :: "bytes option"
  tr_node :: "u64 \<rightharpoonup> int \<times> int"
  tr_table :: "u64 \<rightharpoonup> u64 list"

subsection \<open>Nodes\<close>

definition child_at :: "trie \<Rightarrow> u64 \<Rightarrow> int \<Rightarrow> u64 option" where
  "child_at tr node i = do { _ \<leftarrow> tr_node tr node; tb \<leftarrow> tr_table tr node; ld1 tb i }"

definition set_child :: "trie \<Rightarrow> u64 \<Rightarrow> int \<Rightarrow> u64 \<Rightarrow> trie option" where
  "set_child tr node i a =
     do { _ \<leftarrow> tr_node tr node; tb \<leftarrow> tr_table tr node; tb' \<leftarrow> st1 tb i a; Some (tr\<lparr>tr_table := (tr_table tr)(node \<mapsto> tb')\<rparr>) }"

definition add_pass :: "trie \<Rightarrow> u64 \<Rightarrow> int \<Rightarrow> trie option" where
  "add_pass tr node d = do { (e, x) \<leftarrow> tr_node tr node; Some (tr\<lparr>tr_node := (tr_node tr)(node \<mapsto> (e, x + d))\<rparr>) }"

definition trie_new_node :: "trie \<Rightarrow> grant \<Rightarrow> u64 \<times> trie" where
  "trie_new_node tr g =
     (case g of (a, ok, x) \<Rightarrow>
        if a = 0 then (0, tr)
        else
          let tr1 = tr\<lparr>tr_node := (tr_node tr)(a \<mapsto> (0, x))\<rparr> in
          if \<not> ok then (0, tr1) else (a, tr1\<lparr>tr_table := (tr_table tr)(a \<mapsto> replicate (nat (node_count tr)) 0)\<rparr>))"

text \<open>The children from index \<open>i\<close> on are deleted and freed, then the table.\<close>

partial_function (option) delete_from :: "trie \<Rightarrow> u64 \<Rightarrow> int \<Rightarrow> int \<Rightarrow> (int \<times> trie) option" where
  "delete_from tr node i cnt =
     (if i < node_count tr then
        do { child \<leftarrow> child_at tr node i;
             if child = 0 then delete_from tr node (i + 1) cnt
             else
               do { (_, tr1) \<leftarrow> delete_from tr child 0 0;
                    delete_from (tr1\<lparr>tr_node := (tr_node tr1)(child := None)\<rparr>) node (i + 1) (cnt + 1) } }
      else do { _ \<leftarrow> tr_node tr node; _ \<leftarrow> tr_table tr node; Some (cnt, tr\<lparr>tr_table := (tr_table tr)(node := None)\<rparr>) })"

definition trie_delete_node :: "trie \<Rightarrow> u64 \<Rightarrow> (int \<times> trie) option" where
  "trie_delete_node tr node = (if node = 0 then Some (0, tr) else delete_from tr node 0 0)"

fun char_index :: "bytes \<Rightarrow> u8 \<Rightarrow> int \<Rightarrow> int" where
  "char_index [] c i = -1"
| "char_index (x # xs) c i = (if x = c then i else char_index xs c (i + 1))"

definition get_char_index :: "trie \<Rightarrow> u8 \<Rightarrow> int option" where
  "get_char_index tr c = do { cs \<leftarrow> char_set tr; t \<leftarrow> cstr cs 0; Some (char_index t c 0) }"

subsection \<open>Operations\<close>

definition alphabet :: bytes where
  "alphabet = map (\<lambda>i. of_nat (97 + i)) [0..<26]"

text \<open>
  \<open>strcpy\<close> stores the text with its zero to a block that was asked for with the length of the text alone; \<open>blk\<close> is the block that
  the allocator grants.  One of just that size is overrun; the slab allocator, which is the default, rounds the size up to its next class,
  32 bytes for the 26 of the alphabet.
\<close>

definition trie_construct :: "trie \<Rightarrow> bytes \<Rightarrow> grant \<Rightarrow> (int \<times> trie) option" where
  "trie_construct tr blk g =
     do { cs \<leftarrow> (case char_set tr of Some cs \<Rightarrow> Some cs | None \<Rightarrow> st blk 0 (alphabet @ [0]));
          n \<leftarrow> (if node_count tr = 0 then strlen cs 0 else Some (node_count tr));
          let (a, tr1) = trie_new_node (tr\<lparr>char_set := Some cs, node_count := n\<rparr>) g;
          Some (1, tr1\<lparr>tr_root := a\<rparr>) }"

definition trie_set_char_set :: "trie \<Rightarrow> bytes \<Rightarrow> bytes \<Rightarrow> (int \<times> trie) option" where
  "trie_set_char_set tr word blk =
     do { cs \<leftarrow> char_set tr;
          len \<leftarrow> strlen cs 0;
          cs' \<leftarrow> st (if int (length word) > len then blk else cs) 0 (word @ [0]);
          Some (1, tr\<lparr>char_set := Some cs'\<rparr>) }"

text \<open>The node at the end of the word, or \<open>None\<close> for the return of -1.\<close>

fun trie_insert_loop :: "trie \<Rightarrow> u64 \<Rightarrow> bytes \<Rightarrow> grant list \<Rightarrow> (u64 option \<times> trie \<times> grant list) option" where
  "trie_insert_loop tr node [] gs = Some (Some node, tr, gs)"
| "trie_insert_loop tr node (c # cs) gs =
     do { index \<leftarrow> get_char_index tr c;
          if index < 0 then Some (None, tr, gs)
          else
            do { child \<leftarrow> child_at tr node index;
                 (a, tr1, gs1) \<leftarrow>
                   (if child = 0 then
                      (case gs of
                         [] \<Rightarrow> None
                       | g # gs' \<Rightarrow> do { let (b, tr') = trie_new_node tr g; tr'' \<leftarrow> set_child tr' node index b; Some (b, tr'', gs') })
                    else Some (child, tr, gs));
                 if a = 0 then Some (None, tr1, gs1)
                 else do { tr2 \<leftarrow> add_pass tr1 a 1; trie_insert_loop tr2 a cs gs1 } } }"

definition trie_insert :: "trie \<Rightarrow> bytes \<Rightarrow> grant list \<Rightarrow> (int \<times> trie \<times> grant list) option" where
  "trie_insert tr word gs =
     do { (r, tr1, gs1) \<leftarrow> trie_insert_loop tr (tr_root tr) word gs;
          (case r of
             None \<Rightarrow> Some (-1, tr1, gs1)
           | Some node \<Rightarrow>
               do { (e, x) \<leftarrow> tr_node tr1 node;
                    Some (e + 1, tr1\<lparr>tr_node := (tr_node tr1)(node \<mapsto> (e + 1, x))\<rparr>, gs1) }) }"

text \<open>The return code of an early return, or the node at the end of the word.\<close>

fun search_loop :: "trie \<Rightarrow> u64 \<Rightarrow> bytes \<Rightarrow> (int + u64) option" where
  "search_loop tr node [] = Some (Inr node)"
| "search_loop tr node (c # cs) =
     do { index \<leftarrow> get_char_index tr c;
          if index < 0 then Some (Inl (-1))
          else do { child \<leftarrow> child_at tr node index; if child = 0 then Some (Inl 0) else search_loop tr child cs } }"

definition trie_search :: "trie \<Rightarrow> bytes \<Rightarrow> int option" where
  "trie_search tr word = do { r \<leftarrow> search_loop tr (tr_root tr) word; (case r of Inl i \<Rightarrow> Some i | Inr n \<Rightarrow> map_option fst (tr_node tr n)) }"

definition trie_search_prefix :: "trie \<Rightarrow> bytes \<Rightarrow> int option" where
  "trie_search_prefix tr word = do { r \<leftarrow> search_loop tr (tr_root tr) word; (case r of Inl i \<Rightarrow> Some i | Inr n \<Rightarrow> map_option snd (tr_node tr n)) }"

fun delete_loop :: "trie \<Rightarrow> u64 \<Rightarrow> bytes \<Rightarrow> ((int + u64) \<times> trie) option" where
  "delete_loop tr node [] = Some (Inr node, tr)"
| "delete_loop tr node (c # cs) =
     do { index \<leftarrow> get_char_index tr c;
          if index < 0 then Some (Inl (-1), tr)
          else
            do { child \<leftarrow> child_at tr node index;
                 if child = 0 then Some (Inl 0, tr)
                 else
                   do { tr1 \<leftarrow> add_pass tr child (-1);
                        (e, x) \<leftarrow> tr_node tr1 child;
                        if x > 0 then delete_loop tr1 child cs
                        else do { (_, tr2) \<leftarrow> trie_delete_node tr1 child; tr3 \<leftarrow> set_child tr2 child index 0; delete_loop tr3 child cs } } } }"

definition trie_delete :: "trie \<Rightarrow> bytes \<Rightarrow> (int \<times> trie) option" where
  "trie_delete tr word =
     do { (r, tr1) \<leftarrow> delete_loop tr (tr_root tr) word;
          (case r of
             Inl i \<Rightarrow> Some (i, tr1)
           | Inr n \<Rightarrow> do { (e, x) \<leftarrow> tr_node tr1 n; Some (e - 1, tr1\<lparr>tr_node := (tr_node tr1)(n \<mapsto> (e - 1, x))\<rparr>) }) }"

definition trie_deconstruct :: "trie \<Rightarrow> (int \<times> trie) option" where
  "trie_deconstruct tr =
     do { (_, tr1) \<leftarrow> trie_delete_node tr (tr_root tr);
          Some (1, tr1\<lparr>tr_node := (tr_node tr1)(tr_root tr := None), char_set := None\<rparr>) }"

subsection \<open>The nodes of the prefixes\<close>

text \<open>The address and the counters of the node of each prefix; \<open>al\<close> is the character set.\<close>

type_synonym prefix_map = "bytes \<rightharpoonup> u64 \<times> int \<times> int"

abbreviation address :: "prefix_map \<Rightarrow> bytes \<Rightarrow> u64" where
  "address M p \<equiv> (case M p of None \<Rightarrow> 0 | Some n \<Rightarrow> fst n)"

definition node_ok :: "bytes \<Rightarrow> trie \<Rightarrow> prefix_map \<Rightarrow> bytes \<Rightarrow> u64 \<times> int \<times> int \<Rightarrow> bool" where
  "node_ok al tr M p n \<longleftrightarrow> fst n \<noteq> 0 \<and> tr_node tr (fst n) = Some (snd n) \<and>
     (\<exists>tb. tr_table tr (fst n) = Some tb \<and> length tb = length al \<and> (\<forall>c \<in> set al. ld1 tb (char_index al c 0) = Some (address M (p @ [c]))))"

definition owned :: "prefix_map \<Rightarrow> u64 set" where
  "owned M = {a. \<exists>p y. M p = Some (a, y)}"

definition trie_rep :: "bytes \<Rightarrow> trie \<Rightarrow> prefix_map \<Rightarrow> bool" where
  "trie_rep al tr M \<longleftrightarrow> (\<exists>cs. char_set tr = Some cs \<and> cstr cs 0 = Some al) \<and> node_count tr = int (length al) \<and>
     (\<exists>n. M [] = Some n \<and> fst n = tr_root tr) \<and> (\<forall>p n. M p = Some n \<longrightarrow> node_ok al tr M p n) \<and>
     (\<forall>p q n n'. M p = Some n \<longrightarrow> M q = Some n' \<longrightarrow> fst n = fst n' \<longrightarrow> p = q) \<and>
     dom (tr_node tr) = owned M \<and> dom (tr_table tr) = owned M"

lemma owned_update: "M q = Some (a, y) \<Longrightarrow> owned (M(q \<mapsto> (a, y'))) = owned M" "M q = Some (a, y) \<Longrightarrow> a \<in> owned M"
proof -
  assume q: "M q = Some (a, y)"
  then show "a \<in> owned M" unfolding owned_def by blast
  have "(\<exists>p z. (M(q \<mapsto> (a, y'))) p = Some (b, z)) \<longleftrightarrow> (\<exists>p z. M p = Some (b, z))" for b using q by (metis fun_upd_apply option.inject prod.inject)
  then show "owned (M(q \<mapsto> (a, y'))) = owned M" by (simp add: owned_def)
qed

lemma owned_new: "M q = None \<Longrightarrow> owned (M(q \<mapsto> (a, y))) = insert a (owned M)"
proof -
  assume q: "M q = None"
  have "(\<exists>p z. (M(q \<mapsto> (a, y))) p = Some (b, z)) \<longleftrightarrow> b = a \<or> (\<exists>p z. M p = Some (b, z))" for b
    using q by (metis fun_upd_apply option.inject option.distinct(1) prod.inject)
  then show ?thesis by (auto simp: owned_def)
qed

lemma char_index_shift: "char_index al c i = (if c \<in> set al then i + char_index al c 0 else -1)"
proof (induction al arbitrary: i)
  case (Cons x al)
  show ?case using Cons.IH [of "i + 1"] Cons.IH [of 1] by auto
qed simp

lemma char_index_nth: "c \<in> set al \<Longrightarrow> \<exists>k. char_index al c 0 = int k \<and> k < length al \<and> al ! k = c"
proof (induction al)
  case (Cons x al)
  show ?case
  proof (cases "x = c")
    case False
    then obtain k where "char_index al c 0 = int k" "k < length al" "al ! k = c" using Cons by auto
    then show ?thesis using False Cons.prems char_index_shift [of al c 1] by (intro exI [of _ "Suc k"]) auto
  qed auto
qed simp

lemma get_char_index_eq: "trie_rep al tr M \<Longrightarrow> get_char_index tr c = Some (char_index al c 0)"
  by (auto simp: trie_rep_def get_char_index_def)

lemma rep_node:
  assumes "trie_rep al tr M" "M p = Some n"
  obtains tb where "fst n \<noteq> 0" "tr_node tr (fst n) = Some (snd n)" "tr_table tr (fst n) = Some tb" "length tb = length al"
    "\<And>c. c \<in> set al \<Longrightarrow> ld1 tb (char_index al c 0) = Some (address M (p @ [c]))"
  using assms unfolding trie_rep_def node_ok_def by blast

lemma rep_facts:
  assumes "trie_rep al tr M"
  shows "\<exists>cs. char_set tr = Some cs \<and> cstr cs 0 = Some al" "node_count tr = int (length al)" "\<exists>n. M [] = Some n \<and> fst n = tr_root tr"
    "M p = Some n \<Longrightarrow> M q = Some n' \<Longrightarrow> fst n = fst n' \<Longrightarrow> p = q"
    "dom (tr_node tr) = owned M" "dom (tr_table tr) = owned M"
  using assms unfolding trie_rep_def by blast+

lemma rep_intro:
  assumes "\<exists>cs. char_set tr = Some cs \<and> cstr cs 0 = Some al" "node_count tr = int (length al)" "\<exists>n. M [] = Some n \<and> fst n = tr_root tr"
    "\<And>p n. M p = Some n \<Longrightarrow> node_ok al tr M p n" "\<And>p q n n'. M p = Some n \<Longrightarrow> M q = Some n' \<Longrightarrow> fst n = fst n' \<Longrightarrow> p = q"
    "dom (tr_node tr) = owned M" "dom (tr_table tr) = owned M"
  shows "trie_rep al tr M"
  using assms unfolding trie_rep_def by blast

lemma child_law:
  assumes "trie_rep al tr M" "M p = Some n" "c \<in> set al"
  shows "child_at tr (fst n) (char_index al c 0) = Some (address M (p @ [c]))"
  by (rule rep_node [OF assms(1,2)]) (simp add: child_at_def assms(3))

lemma address_0: "trie_rep al tr M \<Longrightarrow> address M p = 0 \<longleftrightarrow> M p = None"
  by (cases "M p") (auto elim: rep_node)

text \<open>Every prefix of a prefix has a node.\<close>

definition closed :: "prefix_map \<Rightarrow> bool" where
  "closed M \<longleftrightarrow> (\<forall>q r. M (q @ r) \<noteq> None \<longrightarrow> M q \<noteq> None)"

lemma search_loop_ok:
  assumes rep: "trie_rep al tr M" and cl: "closed M"
  shows "M p = Some n \<Longrightarrow> set w \<subseteq> set al \<Longrightarrow> search_loop tr (fst n) w = Some (case M (p @ w) of None \<Rightarrow> Inl 0 | Some n' \<Rightarrow> Inr (fst n'))"
proof (induction w arbitrary: p n)
  case (Cons c w)
  have c: "c \<in> set al" using Cons.prems(2) by simp
  have i: "\<not> char_index al c 0 < 0" using char_index_nth [OF c] by auto
  note g = get_char_index_eq [OF rep, of c] child_law [OF rep Cons.prems(1) c]
  show ?case
  proof (cases "M (p @ [c])")
    case None
    then have "M (p @ c # w) = None" using cl unfolding closed_def by (metis append.assoc append_Cons append_Nil)
    then show ?thesis using g i None by simp
  next
    case (Some n')
    then have "fst n' \<noteq> 0" using address_0 [OF rep, of "p @ [c]"] by simp
    then show ?thesis using g i Some Cons.IH [OF Some] Cons.prems(2) by simp
  qed
qed simp

subsection \<open>Insertion\<close>

text \<open>The counters along a word, with a new node for each prefix that has none.\<close>

fun extend :: "prefix_map \<Rightarrow> bytes \<Rightarrow> bytes \<Rightarrow> grant list \<Rightarrow> prefix_map \<times> grant list" where
  "extend M p [] gs = (M, gs)"
| "extend M p (c # w) gs =
     (case M (p @ [c]) of
        Some (a, e, x) \<Rightarrow> extend (M(p @ [c] \<mapsto> (a, e, x + 1))) (p @ [c]) w gs
      | None \<Rightarrow> extend (M(p @ [c] \<mapsto> (fst (hd gs), 0, snd (snd (hd gs)) + 1))) (p @ [c]) w (tl gs))"

text \<open>The grants are for different nodes that are not in use, with their tables.\<close>

definition grants_ok :: "prefix_map \<Rightarrow> grant list \<Rightarrow> bool" where
  "grants_ok M gs \<longleftrightarrow> distinct (map fst gs) \<and> (\<forall>g \<in> set gs. fst g \<noteq> 0 \<and> fst (snd g) \<and> (\<forall>p n. M p = Some n \<longrightarrow> fst n \<noteq> fst g))"

lemma grants_update: "grants_ok M gs \<Longrightarrow> M q = Some (a, y) \<Longrightarrow> grants_ok (M(q \<mapsto> (a, y'))) gs"
proof -
  assume g: "grants_ok M gs" and q: "M q = Some (a, y)"
  have "fst n \<noteq> fst h" if "h \<in> set gs" "(M(q \<mapsto> (a, y'))) p = Some n" for h p n
  proof (cases "p = q")
    case True
    then have "fst n = fst (a, y)" using that(2) by auto
    then show ?thesis using g q that(1) unfolding grants_ok_def by metis
  next
    case False
    then show ?thesis using g that unfolding grants_ok_def by (metis fun_upd_other)
  qed
  then show ?thesis using g unfolding grants_ok_def by blast
qed

lemma rep_update:
  assumes rep: "trie_rep al tr M" and q: "M q = Some (a, y)"
  shows "trie_rep al (tr\<lparr>tr_node := (tr_node tr)(a \<mapsto> y')\<rparr>) (M(q \<mapsto> (a, y')))"
proof -
  let ?tr = "tr\<lparr>tr_node := (tr_node tr)(a \<mapsto> y')\<rparr>" and ?M = "M(q \<mapsto> (a, y'))"
  obtain tb where tb: "a \<noteq> 0" "tr_node tr a = Some y" "tr_table tr a = Some tb" "length tb = length al"
      "\<And>c. c \<in> set al \<Longrightarrow> ld1 tb (char_index al c 0) = Some (address M (q @ [c]))" by (rule rep_node [OF rep q]) simp
  have ad: "address ?M p = address M p" for p using q by simp
  have old: "\<exists>n'. M p = Some n' \<and> fst n' = fst n" if "?M p = Some n" for p n using that q by (cases "p = q") auto
  show ?thesis
  proof (rule rep_intro)
    show "\<exists>cs. char_set ?tr = Some cs \<and> cstr cs 0 = Some al" "node_count ?tr = int (length al)" using rep_facts(1,2) [OF rep] by simp_all
    show "\<exists>n. ?M [] = Some n \<and> fst n = tr_root ?tr" using rep_facts(3) [OF rep] q by auto
    show "dom (tr_node ?tr) = owned ?M" "dom (tr_table ?tr) = owned ?M"
      using rep_facts(5,6) [OF rep] owned_update [of M q a y] q by auto
    show "p = p'" if a: "?M p = Some n" "?M p' = Some n'" "fst n = fst n'" for p p' n n'
    proof -
      obtain m m' where "M p = Some m" "fst m = fst n" "M p' = Some m'" "fst m' = fst n'" using old [OF a(1)] old [OF a(2)] by blast
      then show ?thesis using rep_facts(4) [OF rep] a(3) by simp
    qed
    show "node_ok al ?tr ?M p n" if a: "?M p = Some n" for p n
    proof (cases "p = q")
      case True
      then have n: "n = (a, y')" using a by simp
      show ?thesis unfolding node_ok_def ad using tb by (simp add: n True)
    next
      case False
      then have m: "M p = Some n" using a by simp
      then have "fst n \<noteq> a" using rep_facts(4) [OF rep m q] False by auto
      moreover obtain tb' where "fst n \<noteq> 0" "tr_node tr (fst n) = Some (snd n)" "tr_table tr (fst n) = Some tb'" "length tb' = length al"
          "\<And>d. d \<in> set al \<Longrightarrow> ld1 tb' (char_index al d 0) = Some (address M (p @ [d]))" by (rule rep_node [OF rep m]) blast
      ultimately show ?thesis unfolding node_ok_def ad by simp
    qed
  qed
qed

lemma rep_counters: "trie_rep al tr M \<Longrightarrow> M q = Some (a, y) \<Longrightarrow> tr_node tr a = Some y"
  by (auto elim: rep_node)

lemma rep_new:
  assumes rep: "trie_rep al tr M" and p: "M p = Some n" and c: "c \<in> set al" and new: "M (p @ [c]) = None"
    and g: "a \<noteq> 0" "\<And>q n. M q = Some n \<Longrightarrow> fst n \<noteq> a" and leaf: "\<And>d. M ((p @ [c]) @ [d]) = None"
  shows "\<exists>tr' tr''. trie_new_node tr (a, True, x) = (a, tr') \<and> set_child tr' (fst n) (char_index al c 0) a = Some tr'' \<and>
    trie_rep al tr'' (M(p @ [c] \<mapsto> (a, 0, x))) \<and> tr_root tr'' = tr_root tr"
proof -
  let ?tr = "tr\<lparr>tr_node := (tr_node tr)(a \<mapsto> (0, x)), tr_table := (tr_table tr)(a \<mapsto> replicate (nat (node_count tr)) 0)\<rparr>" and ?M = "M(p @ [c] \<mapsto> (a, 0, x))"
  obtain tb where tb: "tr_node tr (fst n) = Some (snd n)" "tr_table tr (fst n) = Some tb" "length tb = length al"
      "\<And>d. d \<in> set al \<Longrightarrow> ld1 tb (char_index al d 0) = Some (address M (p @ [d]))" by (rule rep_node [OF rep p]) blast
  obtain k where k: "char_index al c 0 = int k" "k < length al" "al ! k = c" using char_index_nth [OF c] by blast
  let ?tb = "tb[k := a]"
  let ?tr2 = "?tr\<lparr>tr_table := (tr_table ?tr)(fst n \<mapsto> ?tb)\<rparr>"
  have na: "fst n \<noteq> a" using g(2) p by blast
  have "trie_rep al ?tr2 ?M"
  proof (rule rep_intro)
    show "\<exists>cs. char_set ?tr2 = Some cs \<and> cstr cs 0 = Some al" "node_count ?tr2 = int (length al)" using rep_facts(1,2) [OF rep] by simp_all
    show "\<exists>n. ?M [] = Some n \<and> fst n = tr_root ?tr2" using rep_facts(3) [OF rep] by auto
    have "fst n \<in> owned M" using owned_update(2) [of M p "fst n" "snd n"] p by simp
    then show "dom (tr_node ?tr2) = owned ?M" "dom (tr_table ?tr2) = owned ?M"
      using rep_facts(5,6) [OF rep] owned_new [of M "p @ [c]" a "(0, x)"] new by auto
    show "q = q'" if "?M q = Some n1" "?M q' = Some n2" "fst n1 = fst n2" for q q' n1 n2
      using that rep_facts(4) [OF rep] g(2) by (metis fst_conv fun_upd_apply option.inject)
    show "node_ok al ?tr2 ?M q n'" if nq: "?M q = Some n'" for q n'
    proof (cases "q = p @ [c]")
      case True
      then have n': "n' = (a, 0, x)" using nq by simp
      have "ld1 (replicate (length al) 0) (char_index al d 0) = Some (address ?M (q @ [d]))" if "d \<in> set al" for d
        using char_index_nth [OF that] leaf [of d] by (auto simp: ld1_def True)
      then show ?thesis using g(1) na rep_facts(2) [OF rep] by (simp add: node_ok_def n')
    next
      case False
      then have q: "M q = Some n'" using nq by simp
      obtain tb' where tb': "fst n' \<noteq> 0" "tr_node tr (fst n') = Some (snd n')" "tr_table tr (fst n') = Some tb'" "length tb' = length al"
          "\<And>d. d \<in> set al \<Longrightarrow> ld1 tb' (char_index al d 0) = Some (address M (q @ [d]))" by (rule rep_node [OF rep q]) blast
      have na': "fst n' \<noteq> a" using g(2) q by blast
      show ?thesis
      proof (cases "q = p")
        case True
        then have n': "n' = n" "tb' = tb" using q p tb(2) tb'(3) by auto
        have "ld1 ?tb (char_index al d 0) = Some (address ?M (q @ [d]))" if d: "d \<in> set al" for d
        proof (cases "d = c")
          case False
          then have "char_index al d 0 \<noteq> int k" using char_index_nth [OF d] k by auto
          then show ?thesis using tb(4) [OF d] tb(3) False by (auto simp: ld1_def True split: if_splits)
        qed (use k tb(3) True in \<open>simp add: ld1_def\<close>)
        then show ?thesis using tb tb'(1) na by (simp add: node_ok_def n')
      next
        case False
        then have "fst n' \<noteq> fst n" using rep_facts(4) [OF rep q p] by blast
        moreover have "address ?M (q @ [d]) = address M (q @ [d])" for d using False by simp
        ultimately show ?thesis using tb' na' by (simp add: node_ok_def)
      qed
    qed
  qed
  moreover have "trie_new_node tr (a, True, x) = (a, ?tr)" using g(1) by (simp add: trie_new_node_def)
  moreover have "set_child ?tr (fst n) (char_index al c 0) a = Some ?tr2" using tb(1-3) k na by (simp add: set_child_def st1_def)
  ultimately show ?thesis by (intro exI [of _ ?tr] exI [of _ ?tr2]) simp
qed

lemma closed_update: "closed M \<Longrightarrow> M p = Some n \<Longrightarrow> closed (M(p @ [c] \<mapsto> y))"
  unfolding closed_def
proof (intro allI impI)
  fix q r
  assume cl: "\<forall>q r. M (q @ r) \<noteq> None \<longrightarrow> M q \<noteq> None" and p: "M p = Some n" and qr: "(M(p @ [c] \<mapsto> y)) (q @ r) \<noteq> None"
  show "(M(p @ [c] \<mapsto> y)) q \<noteq> None"
  proof (cases "q @ r = p @ [c]")
    case True
    then show ?thesis
    proof (cases r rule: rev_cases)
      case (snoc r' d)
      then have "p = q @ r'" using True by simp
      then have "M (q @ r') \<noteq> None" using p by simp
      then have "M q \<noteq> None" using cl by blast
      then show ?thesis by (cases y) simp
    qed simp
  next
    case False
    then have "M (q @ r) \<noteq> None" using qr by (cases y) simp
    then have "M q \<noteq> None" using cl by blast
    then show ?thesis by (cases y) simp
  qed
qed

lemma trie_insert_loop_ok:
  "trie_rep al tr M \<Longrightarrow> closed M \<Longrightarrow> M p = Some n \<Longrightarrow> set w \<subseteq> set al \<Longrightarrow> grants_ok M gs \<Longrightarrow> length w \<le> length gs \<Longrightarrow>
   \<exists>tr' n'. trie_insert_loop tr (fst n) w gs = Some (Some (fst n'), tr', snd (extend M p w gs)) \<and> trie_rep al tr' (fst (extend M p w gs)) \<and>
     fst (extend M p w gs) (p @ w) = Some n' \<and> tr_root tr' = tr_root tr \<and> grants_ok (fst (extend M p w gs)) (snd (extend M p w gs))"
proof (induction w arbitrary: tr M p n gs)
  case (Cons c w)
  have c: "c \<in> set al" using Cons.prems(4) by simp
  have i: "\<not> char_index al c 0 < 0" using char_index_nth [OF c] by auto
  note rep = Cons.prems(1)
  note g = get_char_index_eq [OF rep, of c] child_law [OF rep Cons.prems(3) c]
  show ?case
  proof (cases "M (p @ [c])")
    case (Some m)
    then obtain a e x where m: "M (p @ [c]) = Some (a, e, x)" by (cases m) auto
    define M' where "M' = M(p @ [c] \<mapsto> (a, e, x + 1))"
    define tr' where "tr' = tr\<lparr>tr_node := (tr_node tr)(a \<mapsto> (e, x + 1))\<rparr>"
    have a: "a \<noteq> 0" using address_0 [OF rep, of "p @ [c]"] m by simp
    have s: "trie_insert_loop tr (fst n) (c # w) gs = trie_insert_loop tr' (fst (a, e, x + 1)) w gs" "extend M p (c # w) gs = extend M' (p @ [c]) w gs"
      using g i m a rep_counters [OF rep m] by (simp_all add: add_pass_def tr'_def M'_def)
    have k: "trie_rep al tr' M'" "closed M'" "M' (p @ [c]) = Some (a, e, x + 1)" "set w \<subseteq> set al" "length w \<le> length gs" "tr_root tr' = tr_root tr"
      using rep_update [OF rep m, of "(e, x + 1)"] closed_update [OF Cons.prems(2,3)] Cons.prems(3,4,6) by (simp_all add: M'_def tr'_def)
    have "grants_ok M' gs" using grants_update [OF Cons.prems(5), of "p @ [c]" a "(e, x)"] m by (simp add: M'_def)
    from Cons.IH [OF k(1-4) this k(5)] show ?thesis unfolding s k(6) by (simp only: append.assoc append_Cons append_Nil)
  next
    case None
    obtain a b x gs' where gs: "gs = (a, b, x) # gs'" using Cons.prems(6) by (cases gs) auto
    have ga: "a \<noteq> 0" "b" "\<And>q n. M q = Some n \<Longrightarrow> fst n \<noteq> a" "grants_ok M gs'" "a \<notin> fst ` set gs'"
      using Cons.prems(5) unfolding gs grants_ok_def by (simp_all del: split_paired_All split_paired_Ex)
    have leaf: "M ((p @ [c]) @ [d]) = None" for d using Cons.prems(2) None unfolding closed_def by blast
    define M' where "M' = M(p @ [c] \<mapsto> (a, 0, x + 1))"
    obtain tr1 tr2 where t: "trie_new_node tr (a, True, x) = (a, tr1)" "set_child tr1 (fst n) (char_index al c 0) a = Some tr2"
        "trie_rep al tr2 (M(p @ [c] \<mapsto> (a, 0, x)))" "tr_root tr2 = tr_root tr"
      using rep_new [of al tr M p n c a x] rep Cons.prems(3) c None ga(1,3) leaf by blast
    define tr' where "tr' = tr2\<lparr>tr_node := (tr_node tr2)(a \<mapsto> (0, x + 1))\<rparr>"
    have "tr_node tr2 a = Some (0, x)" using rep_counters [OF t(3), of "p @ [c]" a "(0, x)"] by simp
    then have s: "trie_insert_loop tr (fst n) (c # w) gs = trie_insert_loop tr' (fst (a, 0 :: int, x + 1)) w gs'" "extend M p (c # w) gs = extend M' (p @ [c]) w gs'"
      using g i None t(1,2) ga(1,2) by (simp_all add: gs add_pass_def tr'_def M'_def)
    have k: "trie_rep al tr' M'" "closed M'" "M' (p @ [c]) = Some (a, 0, x + 1)" "set w \<subseteq> set al" "length w \<le> length gs'" "tr_root tr' = tr_root tr"
      using rep_update [OF t(3), of "p @ [c]" a "(0, x)" "(0, x + 1)"] closed_update [OF Cons.prems(2,3)] Cons.prems(3,4,6) t(4)
      by (simp_all add: M'_def tr'_def gs)
    have "grants_ok M' gs'" using ga(4,5) unfolding grants_ok_def M'_def by (metis fst_conv fun_upd_apply image_eqI option.inject)
    from Cons.IH [OF k(1-4) this k(5)] show ?thesis unfolding s k(6) by (simp only: append.assoc append_Cons append_Nil)
  qed
qed auto

text \<open>The prefixes that a word passes.\<close>

definition on_way :: "bytes \<Rightarrow> bytes \<Rightarrow> bytes \<Rightarrow> bool" where
  "on_way p w q \<longleftrightarrow> (\<exists>r s. r \<noteq> [] \<and> w = r @ s \<and> q = p @ r)"

lemma on_way_Cons: "on_way p (c # w) q \<longleftrightarrow> q = p @ [c] \<or> on_way (p @ [c]) w q"
proof
  assume "on_way p (c # w) q"
  then obtain r s where r: "r \<noteq> []" "c # w = r @ s" "q = p @ r" by (auto simp: on_way_def)
  then obtain r' where "r = c # r'" "w = r' @ s" by (cases r) auto
  then show "q = p @ [c] \<or> on_way (p @ [c]) w q" using r(3) by (cases r') (auto simp: on_way_def)
next
  assume "q = p @ [c] \<or> on_way (p @ [c]) w q"
  then show "on_way p (c # w) q"
  proof
    assume "on_way (p @ [c]) w q"
    then obtain r s where "r \<noteq> []" "w = r @ s" "q = (p @ [c]) @ r" by (auto simp: on_way_def)
    then show ?thesis unfolding on_way_def by (intro exI [of _ "c # r"] exI [of _ s]) simp
  qed (auto simp: on_way_def intro!: exI [of _ "[c]"])
qed

lemma not_on_way: "\<not> on_way p w p"
  by (auto simp: on_way_def)

lemma extend_at:
  "length w \<le> length gs \<Longrightarrow>
   (\<not> on_way p w q \<longrightarrow> fst (extend M p w gs) q = M q) \<and>
   (on_way p w q \<longrightarrow> (case M q of Some (a, e, x) \<Rightarrow> fst (extend M p w gs) q = Some (a, e, x + 1)
      | None \<Rightarrow> \<exists>g \<in> set gs. fst (extend M p w gs) q = Some (fst g, 0, snd (snd g) + 1)))"
proof (induction w arbitrary: M p gs)
  case (Cons c w)
  obtain g gs' where gs: "gs = g # gs'" using Cons.prems by (cases gs) auto
  show ?case
  proof (cases "M (p @ [c])")
    case None
    define M' where "M' = M(p @ [c] \<mapsto> (fst g, 0, snd (snd g) + 1))"
    have m': "M' q = (if q = p @ [c] then Some (fst g, 0, snd (snd g) + 1) else M q)" by (simp add: M'_def)
    have "extend M p (c # w) gs = extend M' (p @ [c]) w gs'" using None by (simp add: gs M'_def)
    then show ?thesis using Cons.IH [of gs' "p @ [c]" M'] Cons.prems None not_on_way [of "p @ [c]" w] m'
      by (cases "q = p @ [c]") (auto simp: on_way_Cons gs split: option.splits)
  next
    case (Some m)
    then obtain a e x where m: "M (p @ [c]) = Some (a, e, x)" by (cases m) auto
    define M' where "M' = M(p @ [c] \<mapsto> (a, e, x + 1))"
    have m': "M' q = (if q = p @ [c] then Some (a, e, x + 1) else M q)" by (simp add: M'_def)
    have "extend M p (c # w) gs = extend M' (p @ [c]) w gs" using m by (simp add: M'_def)
    then show ?thesis using Cons.IH [of gs "p @ [c]" M'] Cons.prems m not_on_way [of "p @ [c]" w] m'
      by (cases "q = p @ [c]") (auto simp: on_way_Cons split: option.splits)
  qed
qed (simp add: on_way_def)

lemma extend_grants: "length w \<le> length gs \<Longrightarrow> \<exists>k \<le> length w. snd (extend M p w gs) = drop k gs"
proof (induction w arbitrary: M p gs)
  case (Cons c w)
  obtain g gs' where gs: "gs = g # gs'" using Cons.prems by (cases gs) auto
  show ?case
  proof (cases "M (p @ [c])")
    case None
    define M' where "M' = M(p @ [c] \<mapsto> (fst g, 0, snd (snd g) + 1))"
    have "extend M p (c # w) gs = extend M' (p @ [c]) w gs'" using None by (simp add: gs M'_def)
    moreover obtain k where "k \<le> length w" "snd (extend M' (p @ [c]) w gs') = drop k gs'"
      using Cons.IH [of gs' M' "p @ [c]"] Cons.prems by (auto simp: gs)
    ultimately show ?thesis by (intro exI [of _ "Suc k"]) (simp add: gs)
  next
    case (Some m)
    then obtain a e x where m: "M (p @ [c]) = Some (a, e, x)" by (cases m) auto
    define M' where "M' = M(p @ [c] \<mapsto> (a, e, x + 1))"
    have "extend M p (c # w) gs = extend M' (p @ [c]) w gs" using m by (simp add: M'_def)
    then show ?thesis using Cons.IH [of gs M' "p @ [c]"] Cons.prems by (auto intro: le_SucI)
  qed
qed auto

subsection \<open>Counting words\<close>

text \<open>How many words start with a prefix.\<close>

definition prefix_count :: "bytes list \<Rightarrow> bytes \<Rightarrow> nat" where
  "prefix_count ws p = length (filter (\<lambda>w. take (length p) w = p) ws)"

definition counts :: "bytes list \<Rightarrow> prefix_map \<Rightarrow> bool" where
  "counts ws M \<longleftrightarrow> (\<forall>p. M p = None \<longleftrightarrow> p \<noteq> [] \<and> prefix_count ws p = 0) \<and> (\<forall>p a e x. M p = Some (a, e, x) \<longrightarrow> e = int (count_list ws p))"

definition passes :: "bytes list \<Rightarrow> prefix_map \<Rightarrow> bool" where
  "passes ws M \<longleftrightarrow> (\<forall>p a e x. M p = Some (a, e, x) \<longrightarrow> p \<noteq> [] \<longrightarrow> x = int (prefix_count ws p))"

lemma on_way_take: "on_way [] w q \<longleftrightarrow> q \<noteq> [] \<and> take (length q) w = q"
proof
  assume "q \<noteq> [] \<and> take (length q) w = q"
  then have "q \<noteq> []" "w = q @ drop (length q) w" by (auto, metis append_take_drop_id)
  then show "on_way [] w q" unfolding on_way_def by (metis append_Nil)
qed (auto simp: on_way_def)

lemma prefix_count_Cons: "prefix_count (w # ws) q = (if take (length q) w = q then 1 else 0) + prefix_count ws q"
  by (simp add: prefix_count_def)

lemma prefix_count_append: "prefix_count ws (q @ r) \<noteq> 0 \<Longrightarrow> prefix_count ws q \<noteq> 0"
proof -
  assume "prefix_count ws (q @ r) \<noteq> 0"
  then obtain w where w: "w \<in> set ws" "take (length (q @ r)) w = q @ r" by (auto simp: prefix_count_def filter_empty_conv)
  then have "take (length q) w = q" by (metis append_eq_conv_conj length_append le_add1 min.absorb1 take_take)
  then show ?thesis using w(1) by (auto simp: prefix_count_def filter_empty_conv)
qed

lemma counts_closed: "counts ws M \<Longrightarrow> closed M"
  using prefix_count_append unfolding counts_def closed_def by (metis append_is_Nil_conv)

lemma count_prefix: "count_list ws w \<noteq> 0 \<Longrightarrow> prefix_count ws w \<noteq> 0"
  using count_list_0_iff [of ws w] by (auto simp: prefix_count_def filter_empty_conv intro!: bexI [of _ w])

text \<open>The counters after an insertion.\<close>

lemma extend_counts:
  assumes cnt: "counts ws M" and gs: "length w \<le> length gs" and n: "fst (extend M [] w gs) w = Some (a, e, x)"
  shows "e = int (count_list ws w)" "counts (w # ws) ((fst (extend M [] w gs))(w \<mapsto> (a, e + 1, x)))"
    "passes ws M \<Longrightarrow> \<forall>g \<in> set gs. snd (snd g) = 0 \<Longrightarrow> passes (w # ws) ((fst (extend M [] w gs))(w \<mapsto> (a, e + 1, x)))"
proof -
  define M' where "M' = fst (extend M [] w gs)"
  have at: "(\<not> on_way [] w q \<longrightarrow> M' q = M q) \<and> (on_way [] w q \<longrightarrow> (case M q of Some (a, e, x) \<Rightarrow> M' q = Some (a, e, x + 1)
      | None \<Rightarrow> \<exists>g \<in> set gs. M' q = Some (fst g, 0, snd (snd g) + 1)))" for q unfolding M'_def by (rule extend_at [OF gs])
  have none: "M' q = None \<longleftrightarrow> M q = None \<and> \<not> on_way [] w q" for q
  proof (cases "M q")
    case (Some m)
    then obtain b y z where "M q = Some (b, y, z)" by (cases m) auto
    then show ?thesis using at [of q] by auto
  next
    case None
    then show ?thesis using at [of q] by (cases "on_way [] w q") (auto simp del: split_paired_Ex split_paired_All)
  qed
  have c_none: "M q = None \<longleftrightarrow> q \<noteq> [] \<and> prefix_count ws q = 0" for q using cnt unfolding counts_def by simp
  have c_some: "M q = Some (b, y, z) \<Longrightarrow> y = int (count_list ws q)" for q b y z using cnt unfolding counts_def by simp
  have ends: "e' = int (count_list ws q)" if "M' q = Some (a', e', x')" for q a' e' x'
  proof (cases "M q")
    case None
    then have "count_list ws q = 0" using c_none [of q] count_prefix [of ws q] by auto
    moreover have "e' = 0" using at [of q] None that by (cases "on_way [] w q") auto
    ultimately show ?thesis by simp
  next
    case (Some m)
    then obtain b y z where m: "M q = Some (b, y, z)" by (cases m) auto
    then have "e' = y" using at [of q] that by (cases "on_way [] w q") auto
    then show ?thesis using c_some [OF m] by simp
  qed
  then show e: "e = int (count_list ws w)" using ends [of w a e x] n unfolding M'_def by simp
  have dom: "M' q = None \<longleftrightarrow> q \<noteq> [] \<and> prefix_count (w # ws) q = 0" for q
    using none [of q] c_none [of q] unfolding prefix_count_Cons on_way_take by auto
  show "counts (w # ws) ((fst (extend M [] w gs))(w \<mapsto> (a, e + 1, x)))"
    unfolding counts_def M'_def [symmetric]
  proof (intro conjI allI impI)
    show "(M'(w \<mapsto> (a, e + 1, x))) q = None \<longleftrightarrow> q \<noteq> [] \<and> prefix_count (w # ws) q = 0" for q
      using dom [of q] n unfolding M'_def [symmetric] by (cases "q = w") auto
    show "e' = int (count_list (w # ws) q)" if "(M'(w \<mapsto> (a, e + 1, x))) q = Some (a', e', x')" for q a' e' x'
      using that ends [of q a' e' x'] e by (cases "q = w") auto
  qed
  show "passes (w # ws) ((fst (extend M [] w gs))(w \<mapsto> (a, e + 1, x)))" if p: "passes ws M" "\<forall>g \<in> set gs. snd (snd g) = 0"
    unfolding passes_def M'_def [symmetric]
  proof (intro allI impI)
    fix q a' e' x' assume q: "(M'(w \<mapsto> (a, e + 1, x))) q = Some (a', e', x')" "q \<noteq> []"
    then obtain b y where m: "M' q = Some (b, y, x')" using n unfolding M'_def [symmetric] by (cases "q = w") auto
    show "x' = int (prefix_count (w # ws) q)"
    proof (cases "M q")
      case None
      then have "prefix_count ws q = 0" using c_none [of q] by simp
      moreover have "on_way [] w q" using at [of q] None m by auto
      moreover have "x' = 1" using at [of q] None m p(2) calculation(2) by auto
      ultimately show ?thesis by (simp add: prefix_count_Cons on_way_take)
    next
      case (Some m0)
      then obtain b0 y0 z0 where m0: "M q = Some (b0, y0, z0)" by (cases m0) auto
      then have "z0 = int (prefix_count ws q)" using p(1) q(2) unfolding passes_def by blast
      then show ?thesis using at [of q] m0 m q(2) by (cases "on_way [] w q") (auto simp: prefix_count_Cons on_way_take)
    qed
  qed
qed

lemma insert_word:
  assumes rep: "trie_rep al tr M" and cnt: "counts ws M" and w: "set w \<subseteq> set al" and gr: "grants_ok M gs" "length w \<le> length gs"
  shows "\<exists>tr' M' k. trie_insert tr w gs = Some (int (count_list (w # ws) w), tr', drop k gs) \<and> trie_rep al tr' M' \<and> counts (w # ws) M' \<and>
    grants_ok M' (drop k gs) \<and> k \<le> length w \<and> (passes ws M \<longrightarrow> (\<forall>g \<in> set gs. snd (snd g) = 0) \<longrightarrow> passes (w # ws) M')"
proof -
  obtain n where n: "M [] = Some n" "fst n = tr_root tr" using rep_facts(3) [OF rep] by blast
  define M1 where "M1 = fst (extend M [] w gs)"
  obtain tr1 n1 where l: "trie_insert_loop tr (fst n) w gs = Some (Some (fst n1), tr1, snd (extend M [] w gs))" "trie_rep al tr1 M1" "M1 w = Some n1"
      "grants_ok M1 (snd (extend M [] w gs))"
    using trie_insert_loop_ok [OF rep counts_closed [OF cnt] n(1) w gr] unfolding M1_def by auto
  obtain k where k: "k \<le> length w" "snd (extend M [] w gs) = drop k gs" using extend_grants [OF gr(2)] by blast
  obtain a e x where n1: "n1 = (a, e, x)" by (cases n1) auto
  define M' where "M' = M1(w \<mapsto> (a, e + 1, x))"
  note c = extend_counts [OF cnt gr(2), of a e x, folded M1_def, OF l(3) [unfolded n1], folded M'_def]
  have "tr_node tr1 a = Some (e, x)" using rep_counters [OF l(2), of w a] l(3) n1 by simp
  then have "trie_insert tr w gs = Some (int (count_list (w # ws) w), tr1\<lparr>tr_node := (tr_node tr1)(a \<mapsto> (e + 1, x))\<rparr>, drop k gs)"
    using l(1) n(2) c(1) k(2) by (simp add: trie_insert_def n1)
  moreover have "trie_rep al (tr1\<lparr>tr_node := (tr_node tr1)(a \<mapsto> (e + 1, x))\<rparr>) M'" unfolding M'_def using rep_update [OF l(2)] l(3) n1 by blast
  moreover have "grants_ok M' (drop k gs)" using grants_update [of M1 _ w a "(e, x)" "(e + 1, x)"] l(3,4) k(2) n1 by (simp add: M'_def)
  ultimately show ?thesis using c(2,3) k(1) by blast
qed

subsection \<open>Sequences of insertions\<close>

fun insert_all :: "trie \<Rightarrow> bytes list \<Rightarrow> grant list \<Rightarrow> (trie \<times> grant list) option" where
  "insert_all tr [] gs = Some (tr, gs)"
| "insert_all tr (w # ws) gs = do { (_, tr1, gs1) \<leftarrow> trie_insert tr w gs; insert_all tr1 ws gs1 }"

lemma insert_all_ok:
  "trie_rep al tr M \<Longrightarrow> counts vs M \<Longrightarrow> \<forall>w \<in> set ws. set w \<subseteq> set al \<Longrightarrow> grants_ok M gs \<Longrightarrow> length (concat ws) \<le> length gs \<Longrightarrow>
   \<exists>tr' gs' M'. insert_all tr ws gs = Some (tr', gs') \<and> trie_rep al tr' M' \<and> counts (rev ws @ vs) M' \<and>
     (passes vs M \<longrightarrow> (\<forall>g \<in> set gs. snd (snd g) = 0) \<longrightarrow> passes (rev ws @ vs) M')"
proof (induction ws arbitrary: tr M vs gs)
  case (Cons w ws)
  have w: "set w \<subseteq> set al" "length w \<le> length gs" using Cons.prems(3,5) by simp_all
  obtain tr1 M1 k where k: "trie_insert tr w gs = Some (int (count_list (w # vs) w), tr1, drop k gs)" "trie_rep al tr1 M1" "counts (w # vs) M1"
      "grants_ok M1 (drop k gs)" "k \<le> length w" "passes vs M \<longrightarrow> (\<forall>g \<in> set gs. snd (snd g) = 0) \<longrightarrow> passes (w # vs) M1"
    using insert_word [OF Cons.prems(1,2) w(1) Cons.prems(4) w(2)] by blast
  have "\<forall>w \<in> set ws. set w \<subseteq> set al" "length (concat ws) \<le> length (drop k gs)" using Cons.prems(3,5) k(5) by simp_all
  from Cons.IH [OF k(2,3) this(1) k(4) this(2)]
  obtain tr' gs' M' where "insert_all tr1 ws (drop k gs) = Some (tr', gs')" "trie_rep al tr' M'" "counts (rev ws @ w # vs) M'"
      "passes (w # vs) M1 \<longrightarrow> (\<forall>g \<in> set (drop k gs). snd (snd g) = 0) \<longrightarrow> passes (rev ws @ w # vs) M'" by blast
  moreover have "(\<forall>g \<in> set gs. snd (snd g) = 0) \<longrightarrow> (\<forall>g \<in> set (drop k gs). snd (snd g) = 0)" using set_drop_subset [of k gs] by blast
  ultimately show ?case using k(1,6) by (intro exI [of _ tr'] exI [of _ gs'] exI [of _ M']) simp
qed auto

lemma trie_construct_rep:
  assumes "char_set tr = None" "length alphabet < length blk" "node_count tr = 0" "a \<noteq> 0" "tr_node tr = Map.empty" "tr_table tr = Map.empty"
  shows "\<exists>tr0. trie_construct tr blk (a, True, x) = Some (1, tr0) \<and> trie_rep alphabet tr0 [[] \<mapsto> (a, 0, x)]"
proof -
  let ?al = alphabet
  define cs where "cs = ?al @ 0 # drop (Suc (length ?al)) blk"
  have "0 \<notin> set ?al" by (simp add: alphabet_def upt_rec)
  then have cs: "st blk 0 (?al @ [0]) = Some cs" "cstr cs 0 = Some ?al"
    using assms(2) cstr_at [of 0 "[]" ?al "drop (Suc (length ?al)) blk"] by (simp_all add: st_nat0 cs_def)
  let ?M = "[[] \<mapsto> (a, 0, x)] :: prefix_map"
  define tr0 where "tr0 = tr\<lparr>char_set := Some cs, node_count := int (length ?al), tr_node := (tr_node tr)(a \<mapsto> (0, x)),
    tr_table := (tr_table tr)(a \<mapsto> replicate (length ?al) 0), tr_root := a\<rparr>"
  have "trie_construct tr blk (a, True, x) = Some (1, tr0)"
    using assms cs by (simp add: trie_construct_def strlen_def trie_new_node_def tr0_def)
  moreover have "trie_rep ?al tr0 ?M"
  proof (rule rep_intro)
    show "node_ok ?al tr0 ?M p n" if "?M p = Some n" for p n
    proof -
      have n: "p = []" "n = (a, 0, x)" using that by (auto split: if_splits)
      have "ld1 (replicate (length ?al) 0) (char_index ?al d 0) = Some (address ?M (p @ [d]))" if "d \<in> set ?al" for d
        using char_index_nth [OF that] by (auto simp: ld1_def n(1))
      then show ?thesis using assms(4) by (simp add: node_ok_def n(2) tr0_def)
    qed
  qed (use assms cs owned_new [of Map.empty "[]" a "(0, x)"] in \<open>auto simp: tr0_def owned_def split: if_splits\<close>)
  ultimately show ?thesis by blast
qed

lemma search_loop_foreign:
  assumes rep: "trie_rep al tr M"
  shows "M p = Some n \<Longrightarrow> \<not> set w \<subseteq> set al \<Longrightarrow> search_loop tr (fst n) w \<in> {Some (Inl 0), Some (Inl (-1))}"
proof (induction w arbitrary: p n)
  case (Cons c w)
  show ?case
  proof (cases "c \<in> set al")
    case False
    then show ?thesis using get_char_index_eq [OF rep, of c] char_index_shift [of al c 0] by simp
  next
    case True
    have i: "\<not> char_index al c 0 < 0" using char_index_nth [OF True] by auto
    note g = get_char_index_eq [OF rep, of c] child_law [OF rep Cons.prems(1) True]
    show ?thesis
    proof (cases "M (p @ [c])")
      case (Some n')
      then have "fst n' \<noteq> 0" using address_0 [OF rep, of "p @ [c]"] by simp
      then show ?thesis using g i Some Cons.IH [OF Some] Cons.prems(2) True by simp
    qed (use g i in simp)
  qed
qed simp

lemma searches:
  assumes rep: "trie_rep al tr M" and cnt: "counts ws M"
  shows "set w \<subseteq> set al \<Longrightarrow> trie_search tr w = Some (int (count_list ws w))"
    "\<not> set w \<subseteq> set al \<Longrightarrow> trie_search tr w \<in> {Some 0, Some (-1)}"
    "passes ws M \<Longrightarrow> set w \<subseteq> set al \<Longrightarrow> w \<noteq> [] \<Longrightarrow> trie_search_prefix tr w = Some (int (prefix_count ws w))"
proof -
  obtain n where n: "M [] = Some n" "tr_root tr = fst n" using rep_facts(3) [OF rep] by metis
  have c_none: "M q = None \<longleftrightarrow> q \<noteq> [] \<and> prefix_count ws q = 0" for q using cnt unfolding counts_def by simp
  note s = search_loop_ok [OF rep counts_closed [OF cnt] n(1), of w, folded n(2)]
  show "\<not> set w \<subseteq> set al \<Longrightarrow> trie_search tr w \<in> {Some 0, Some (-1)}"
    using search_loop_foreign [OF rep n(1), of w] by (auto simp: trie_search_def n(2))
  show "trie_search tr w = Some (int (count_list ws w))" if "set w \<subseteq> set al"
  proof (cases "M w")
    case None
    then have "count_list ws w = 0" using c_none [of w] count_prefix [of ws w] by auto
    then show ?thesis using s that None by (simp add: trie_search_def)
  next
    case (Some m)
    then obtain a e x where m: "M w = Some (a, e, x)" by (cases m) auto
    then have "e = int (count_list ws w)" using cnt unfolding counts_def by simp
    then show ?thesis using s that m rep_counters [OF rep m] by (simp add: trie_search_def)
  qed
  show "trie_search_prefix tr w = Some (int (prefix_count ws w))" if "passes ws M" "set w \<subseteq> set al" "w \<noteq> []"
  proof (cases "M w")
    case None
    then show ?thesis using s that c_none [of w] by (simp add: trie_search_prefix_def)
  next
    case (Some m)
    then obtain a e x where m: "M w = Some (a, e, x)" by (cases m) auto
    then have "x = int (prefix_count ws w)" using that(1,3) unfolding passes_def by simp
    then show ?thesis using s that m rep_counters [OF rep m] by (simp add: trie_search_prefix_def)
  qed
qed

lemma count_list_rev [simp]: "count_list (rev ws) w = count_list ws w"
  by (induction ws) auto

lemma prefix_count_rev [simp]: "prefix_count (rev ws) w = prefix_count ws w"
  by (simp add: prefix_count_def flip: rev_filter)

subsection \<open>Deletion\<close>

text \<open>The addresses of the nodes that are reached from a prefix through one of the characters.\<close>

definition below :: "prefix_map \<Rightarrow> bytes \<Rightarrow> bytes \<Rightarrow> u64 set" where
  "below M p cs = {a. \<exists>c r y. c \<in> set cs \<and> M (p @ c # r) = Some (a, y)}"

definition release :: "trie \<Rightarrow> u64 set \<Rightarrow> u64 set \<Rightarrow> trie" where
  "release tr A B = tr\<lparr>tr_node := tr_node tr |` (- A), tr_table := tr_table tr |` (- B)\<rparr>"

lemma release_release: "release (release tr A A') C C' = release tr (A \<union> C) (A' \<union> C')"
  by (simp add: release_def Compl_Un)

lemma below_Cons:
  assumes "closed M" "\<forall>q. M q \<noteq> None \<longrightarrow> set q \<subseteq> set al"
  shows "below M p (c # cs) = (case M (p @ [c]) of None \<Rightarrow> {} | Some m \<Rightarrow> insert (fst m) (below M (p @ [c]) al)) \<union> below M p cs"
proof -
  have "(\<exists>r y. M (p @ c # r) = Some (a, y)) \<longleftrightarrow> a \<in> (case M (p @ [c]) of None \<Rightarrow> {} | Some m \<Rightarrow> insert (fst m) (below M (p @ [c]) al))" for a
  proof (cases "M (p @ [c])")
    case None
    then have "M ((p @ [c]) @ r) = None" for r using assms(1) unfolding closed_def by blast
    then show ?thesis using None by simp
  next
    case (Some m)
    have "(\<exists>y. M (p @ [c, d] @ r) = Some (a, y)) \<longrightarrow> d \<in> set al" for d r 
    proof
      assume "\<exists>y. M (p @ [c, d] @ r) = Some (a, y)"
      then have "M (p @ [c, d] @ r) \<noteq> None" by auto
      then show "d \<in> set al" using assms(2) by fastforce
    qed
    then have "(\<exists>r y. M (p @ c # r) = Some (a, y)) \<longleftrightarrow> (\<exists>y. M (p @ [c]) = Some (a, y)) \<or> (\<exists>d r y. d \<in> set al \<and> M (p @ c # d # r) = Some (a, y))"
      by (metis append_Cons append_Nil neq_Nil_conv)
    then show ?thesis using Some by (cases m) (auto simp: below_def)
  qed
  then have "{a. \<exists>r y. M (p @ c # r) = Some (a, y)} = (case M (p @ [c]) of None \<Rightarrow> {} | Some m \<Rightarrow> insert (fst m) (below M (p @ [c]) al))" by blast
  moreover have "below M p (c # cs) = {a. \<exists>r y. M (p @ c # r) = Some (a, y)} \<union> below M p cs" unfolding below_def set_simps by blast
  ultimately show ?thesis by simp
qed

lemma node_ok_cong:
  "node_ok al tr M q n \<Longrightarrow> tr_node tr' (fst n) = tr_node tr (fst n) \<Longrightarrow> tr_table tr' (fst n) = tr_table tr (fst n) \<Longrightarrow> node_ok al tr' M q n"
  by (simp add: node_ok_def)

lemma char_index_distinct: "distinct al \<Longrightarrow> i < length al \<Longrightarrow> char_index al (al ! i) 0 = int i"
  using char_index_nth [of "al ! i" al] nth_eq_iff_index_eq by fastforce

text \<open>The recursion ends, frees the table of the node and every node below it with its table, and touches nothing else.\<close>

lemma delete_from_ok:
  assumes M: "closed M" "\<forall>q. M q \<noteq> None \<longrightarrow> set q \<subseteq> set al" "distinct al" "\<And>q q' n n'. M q = Some n \<Longrightarrow> M q' = Some n' \<Longrightarrow> fst n = fst n' \<Longrightarrow> q = q'"
  shows "(\<And>r. M (p @ r) \<noteq> None \<Longrightarrow> length r \<le> k) \<Longrightarrow> M p = Some n \<Longrightarrow> node_count tr = int (length al) \<Longrightarrow> i \<le> length al \<Longrightarrow>
    node_ok al tr M p n \<Longrightarrow> (\<And>c r m. c \<in> set (drop i al) \<Longrightarrow> M (p @ c # r) = Some m \<Longrightarrow> node_ok al tr M (p @ c # r) m) \<Longrightarrow>
    \<exists>cnt'. delete_from tr (fst n) (int i) cnt = Some (cnt', release tr (below M p (drop i al)) (insert (fst n) (below M p (drop i al))))"
proof (induction k arbitrary: p n tr i cnt rule: less_induct)
  case (less k)
  note here = less.prems(1,2)
  from less.prems(3-6) show ?case
  proof (induction "length al - i" arbitrary: tr i cnt)
    case 0
    then have i: "drop i al = []" "\<not> int i < node_count tr" by simp_all
    obtain tb where "tr_node tr (fst n) = Some (snd n)" "tr_table tr (fst n) = Some tb" using "0.prems"(3) unfolding node_ok_def by blast
    moreover have "tr_node tr |` UNIV = tr_node tr" by (simp add: restrict_map_def)
    ultimately show ?case using i by (subst delete_from.simps) (simp add: release_def below_def restrict_complement_singleton_eq)
  next
    case (Suc j)
    define c cs where "c = al ! i" and "cs = drop (Suc i) al"
    have i: "i < length al" using Suc.hyps(2) by simp
    then have d: "drop i al = c # cs" by (simp add: c_def cs_def Cons_nth_drop_Suc)
    have c: "c \<in> set al" "char_index al c 0 = int i" using i char_index_distinct [OF M(3) i] by (simp_all add: c_def)
    have cs: "c \<notin> set cs" using M(3) d distinct_drop [of al i] by simp
    have child: "child_at tr (fst n) (int i) = Some (address M (p @ [c]))"
      using Suc.prems(3) c unfolding node_ok_def child_at_def by (auto simp: c(2))
    note step = delete_from.simps [of tr "fst n" "int i" cnt]
    have nc: "int i < node_count tr" using i Suc.prems(1) by simp
    have j: "j = length al - Suc i" "Suc i \<le> length al" using Suc.hyps(2) by arith+
    show ?case
    proof (cases "M (p @ [c])")
      case None
      have "below M p (drop i al) = below M p cs" using below_Cons [OF M(1,2), of p c cs] None by (simp add: d)
      moreover obtain cnt' where "delete_from tr (fst n) (int (Suc i)) cnt = Some (cnt', release tr (below M p cs) (insert (fst n) (below M p cs)))"
        using Suc.hyps(1) [OF j(1) Suc.prems(1) j(2) Suc.prems(3), of cnt] Suc.prems(4) d unfolding cs_def by auto
      ultimately show ?thesis using step nc child None by (simp add: add.commute)
    next
      case (Some m)
      define A where "A = insert (fst m) (below M (p @ [c]) al)"
      have under: "\<exists>r. q = p @ c # r" if q: "M q = Some m'" "fst m' \<in> A" for q m'
      proof -
        obtain r y where "M (p @ c # r) = Some (fst m', y)" using q(2) Some unfolding A_def below_def by (cases m) auto
        then show ?thesis using M(4) [OF q(1)] by fastforce
      qed
      have m: "fst m \<noteq> 0" "int i < node_count tr" using Suc.prems(4) [of c "[]" m] Some nc by (simp_all add: d node_ok_def)
      have "0 < k" using here(1) [of "[c]"] Some by auto
      then have "\<exists>cnt1. delete_from tr (fst m) (int 0) 0 = Some (cnt1, release tr (below M (p @ [c]) (drop 0 al)) (insert (fst m) (below M (p @ [c]) (drop 0 al))))"
      proof (intro less.IH [of "k - 1"])
        show "length r \<le> k - 1" if "M ((p @ [c]) @ r) \<noteq> None" for r using here(1) [of "c # r"] that by auto
        show "node_ok al tr M (p @ [c]) m" using Suc.prems(4) [of c "[]" m] Some d by simp
        show "node_ok al tr M ((p @ [c]) @ e # r) m'" if "M ((p @ [c]) @ e # r) = Some m'" for e r m' using Suc.prems(4) [of c "e # r" m'] that d by simp
      qed (use Some Suc.prems(1) in simp_all)
      then obtain cnt1 where r1: "delete_from tr (fst m) 0 0 = Some (cnt1, release tr (below M (p @ [c]) al) A)" by (auto simp: A_def)
      define tr2 where "tr2 = release tr A A"
      have tr2: "(release tr (below M (p @ [c]) al) A)\<lparr>tr_node := (tr_node (release tr (below M (p @ [c]) al) A))(fst m := None)\<rparr> = tr2"
        by (cases tr) (simp add: tr2_def release_def A_def fun_eq_iff restrict_map_def)
      have keep: "node_ok al tr2 M q m'" if "node_ok al tr M q m'" "M q = Some m'" "\<And>r. q \<noteq> p @ c # r" for q m'
      proof -
        have "fst m' \<notin> A" using under [OF that(2)] that(3) by blast
        then show ?thesis by (intro node_ok_cong [OF that(1)]) (simp_all add: tr2_def release_def)
      qed
      have "\<exists>cnt'. delete_from tr2 (fst n) (int (Suc i)) (cnt + 1) =
        Some (cnt', release tr2 (below M p (drop (Suc i) al)) (insert (fst n) (below M p (drop (Suc i) al))))"
      proof (rule Suc.hyps(1))
        show "node_ok al tr2 M p n" using keep [OF Suc.prems(3) here(2)] by simp
        show "node_ok al tr2 M (p @ e # r) m'" if "e \<in> set (drop (Suc i) al)" "M (p @ e # r) = Some m'" for e r m'
          using keep [OF Suc.prems(4) [of e r m'] that(2)] that cs d unfolding cs_def by auto
      qed (use Suc.hyps(2) Suc.prems(1) i in \<open>simp_all add: tr2_def release_def\<close>)
      then obtain cnt' where "delete_from tr2 (fst n) (int (Suc i)) (cnt + 1) = Some (cnt', release tr2 (below M p cs) (insert (fst n) (below M p cs)))"
        unfolding cs_def by blast
      moreover have "release tr2 (below M p cs) (insert (fst n) (below M p cs)) = release tr (below M p (drop i al)) (insert (fst n) (below M p (drop i al)))"
        using below_Cons [OF M(1,2), of p c cs] Some by (simp add: d tr2_def release_release A_def)
      ultimately show ?thesis using step m child Some r1 tr2 by (simp add: add.commute)
    qed
  qed
qed

lemma counts_words: "counts ws M \<Longrightarrow> M q \<noteq> None \<Longrightarrow> q = [] \<or> (\<exists>w \<in> set ws. \<exists>s. w = q @ s)"
proof -
  assume c: "counts ws M" and q: "M q \<noteq> None"
  have "q = [] \<or> prefix_count ws q \<noteq> 0" using c q unfolding counts_def by metis
  then show ?thesis by (auto simp: prefix_count_def filter_empty_conv) (metis append_take_drop_id)
qed

lemma deconstruct_ok:
  assumes rep: "trie_rep al tr M" and cnt: "counts ws M" and ws: "\<forall>w \<in> set ws. set w \<subseteq> set al" and al: "distinct al"
  shows "\<exists>tr'. trie_deconstruct tr = Some (1, tr') \<and> tr_node tr' = Map.empty \<and> tr_table tr' = Map.empty \<and> char_set tr' = None"
proof -
  obtain n where n: "M [] = Some n" "tr_root tr = fst n" using rep_facts(3) [OF rep] by metis
  have words: "set q \<subseteq> set al" "length q \<le> length (concat ws)" if "M q \<noteq> None" for q
  proof -
    show "set q \<subseteq> set al"
    proof (cases "q = []")
      case False
      then obtain w s where "w \<in> set ws" "w = q @ s" using counts_words [OF cnt \<open>M q \<noteq> None\<close>] by blast
      then show ?thesis using ws by fastforce
    qed simp
    show "length q \<le> length (concat ws)"
    proof (cases "q = []")
      case False
      then obtain w s where w: "w \<in> set ws" "w = q @ s" using counts_words [OF cnt \<open>M q \<noteq> None\<close>] by blast
      have "length w \<le> sum_list (map length ws)" using member_le_sum_list [of "length w" "map length ws"] w(1) by simp
      then show ?thesis using w(2) by (simp add: length_concat)
    qed simp
  qed
  define B where "B = below M [] al"
  have "\<exists>cnt'. delete_from tr (fst n) (int 0) 0 = Some (cnt', release tr (below M [] (drop 0 al)) (insert (fst n) (below M [] (drop 0 al))))"
  proof (rule delete_from_ok [OF counts_closed [OF cnt]])
    show "q = q'" if "M q = Some m" "M q' = Some m'" "fst m = fst m'" for q q' m m' using rep_facts(4) [OF rep that] .
    show "length r \<le> length (concat ws)" if "M ([] @ r) \<noteq> None" for r using words(2) that by simp
    show "node_ok al tr M [] n" using rep n(1) unfolding trie_rep_def by blast
    show "node_ok al tr M ([] @ c # r) m" if "M ([] @ c # r) = Some m" for c r m using rep that unfolding trie_rep_def by blast
  qed (use words(1) al n(1) rep_facts(2) [OF rep] in simp_all)
  then obtain cnt' where d: "delete_from tr (fst n) 0 0 = Some (cnt', release tr B (insert (fst n) B))" by (auto simp: B_def)
  have "M (c # r) = Some (a, y) \<Longrightarrow> c \<in> set al" for c r a y using words(1) [of "c # r"] by simp
  then have "owned M \<subseteq> insert (fst n) B" using n(1) unfolding owned_def B_def below_def by (auto simp: neq_Nil_conv) (metis fst_conv neq_Nil_conv option.inject)
  then have o: "tr_table tr |` (- insert (fst n) B) = Map.empty" "(tr_node tr |` (- B))(fst n := None) = Map.empty"
    using rep_facts(5,6) [OF rep] by (auto simp: restrict_map_def fun_eq_iff dom_def)
  have "fst n \<noteq> 0" using rep n(1) unfolding trie_rep_def node_ok_def by blast
  then show ?thesis using d o by (simp add: trie_deconstruct_def trie_delete_node_def n(2) release_def)
qed

text \<open>The node of a prefix that only the deleted word has is deleted, and then written to.\<close>

lemma delete_from_frees: "delete_from tr node i cnt = Some (cnt', tr') \<Longrightarrow> tr_table tr' node = None"
proof -
  have "case z of (cnt', tr') \<Rightarrow> tr_table tr' node = None" if "delete_from tr node i cnt = Some z" for z
    using that
  proof (induction rule: delete_from.raw_induct [rotated, consumes 1, case_names step])
    case (step f tr node i cnt z)
    then show ?case by (auto split: if_splits simp: Option.bind_eq_Some_conv)
  qed
  then show "delete_from tr node i cnt = Some (cnt', tr') \<Longrightarrow> tr_table tr' node = None" by fastforce
qed

definition lower :: "prefix_map \<Rightarrow> bytes \<Rightarrow> bytes \<Rightarrow> prefix_map" where
  "lower M p w = (\<lambda>q. if on_way p w q then (case M q of None \<Rightarrow> None | Some (a, e, x) \<Rightarrow> Some (a, e, x - 1)) else M q)"

lemma lower_Nil [simp]: "lower M p [] = M"
  by (auto simp: lower_def on_way_def)

lemma lower_Cons: "M (p @ [c]) = Some (a, e, x) \<Longrightarrow> lower M p (c # w) = lower (M(p @ [c] \<mapsto> (a, e, x - 1))) (p @ [c]) w"
  using not_on_way [of "p @ [c]" w] by (auto simp: lower_def on_way_Cons fun_eq_iff)

lemma delete_loop_step:
  assumes rep: "trie_rep al tr M" and p: "M p = Some n" and c: "c \<in> set al" and m: "M (p @ [c]) = Some (a, e, x)"
  shows "delete_loop tr (fst n) (c # w) =
    (if x > 1 then delete_loop (tr\<lparr>tr_node := (tr_node tr)(a \<mapsto> (e, x - 1))\<rparr>) a w else None)"
proof -
  let ?tr = "tr\<lparr>tr_node := (tr_node tr)(a \<mapsto> (e, x - 1))\<rparr>"
  have "\<not> char_index al c 0 < 0" using char_index_nth [OF c] by auto
  moreover have a: "a \<noteq> 0" using address_0 [OF rep, of "p @ [c]"] m by simp
  moreover have "do { (_, tr2) \<leftarrow> trie_delete_node ?tr a; tr3 \<leftarrow> set_child tr2 a (char_index al c 0) 0; delete_loop tr3 a w } = None"
    using delete_from_frees [of ?tr a 0 0] a by (cases "delete_from ?tr a 0 0") (auto simp: trie_delete_node_def set_child_def Option.bind_eq_None_conv)
  ultimately show ?thesis
    using get_char_index_eq [OF rep, of c] child_law [OF rep p c] m rep_counters [OF rep m] by (simp add: add_pass_def)
qed

lemma delete_loop_ok:
  "trie_rep al tr M \<Longrightarrow> M p = Some n \<Longrightarrow> set w \<subseteq> set al \<Longrightarrow> (\<And>q. on_way p w q \<Longrightarrow> \<exists>a e x. M q = Some (a, e, x)) \<Longrightarrow>
   if \<exists>q a e x. on_way p w q \<and> M q = Some (a, e, x) \<and> x \<le> 1 then delete_loop tr (fst n) w = None
   else \<exists>tr' n'. delete_loop tr (fst n) w = Some (Inr (fst n'), tr') \<and> trie_rep al tr' (lower M p w) \<and> lower M p w (p @ w) = Some n'"
proof (induction w arbitrary: tr M p n)
  case (Cons c w)
  obtain a e x where m: "M (p @ [c]) = Some (a, e, x)" using Cons.prems(4) [of "p @ [c]"] by (auto simp: on_way_Cons)
  note step = delete_loop_step [OF Cons.prems(1,2) _ m, of w]
  show ?case
  proof (cases "x > 1")
    case False
    then show ?thesis using step Cons.prems(3) m by (auto simp: on_way_Cons)
  next
    case True
    define M' where "M' = M(p @ [c] \<mapsto> (a, e, x - 1))"
    define tr' where "tr' = tr\<lparr>tr_node := (tr_node tr)(a \<mapsto> (e, x - 1))\<rparr>"
    have same: "M' q = M q" if "on_way (p @ [c]) w q" for q using that not_on_way [of "p @ [c]" w] by (auto simp: M'_def)
    have "trie_rep al tr' M'" using rep_update [OF Cons.prems(1) m] by (simp add: M'_def tr'_def)
    moreover have "M' (p @ [c]) = Some (a, e, x - 1)" "set w \<subseteq> set al" using Cons.prems(3) by (simp_all add: M'_def)
    ultimately have ih: "if \<exists>q a e x. on_way (p @ [c]) w q \<and> M' q = Some (a, e, x) \<and> x \<le> 1 then delete_loop tr' (fst (a, e, x - 1)) w = None
       else \<exists>tr'' n'. delete_loop tr' (fst (a, e, x - 1)) w = Some (Inr (fst n'), tr'') \<and> trie_rep al tr'' (lower M' (p @ [c]) w) \<and> lower M' (p @ [c]) w ((p @ [c]) @ w) = Some n'"
      using Cons.prems(4) same by (intro Cons.IH) (auto simp: on_way_Cons)
    have "(\<exists>q a e x. on_way p (c # w) q \<and> M q = Some (a, e, x) \<and> x \<le> 1) \<longleftrightarrow> (\<exists>q a e x. on_way (p @ [c]) w q \<and> M' q = Some (a, e, x) \<and> x \<le> 1)"
      using same True m by (auto simp: on_way_Cons) 
    moreover have "delete_loop tr (fst n) (c # w) = delete_loop tr' (fst (a, e, x - 1)) w" using step True Cons.prems(3) by (simp only: tr'_def) simp
    moreover have "lower M p (c # w) = lower M' (p @ [c]) w" using lower_Cons [of M p c a e x w] m by (simp add: M'_def)
    moreover have "p @ c # w = (p @ [c]) @ w" by simp
    ultimately show ?thesis using ih by (simp only:)
  qed
qed (auto simp: on_way_def)

lemma prefix_count_le: "take (length q) w = q \<Longrightarrow> prefix_count ws w \<le> prefix_count ws q"
proof (induction ws)
  case (Cons v ws)
  have "min (length w) (length q) = length q" using arg_cong [OF Cons.prems, of length] by simp
  then have "take (length q) (take (length w) v) = take (length q) v" by (simp add: min.commute)
  then have "take (length q) v = q" if "take (length w) v = w" using that Cons.prems by simp
  then show ?case using Cons by (simp add: prefix_count_Cons)
qed (simp add: prefix_count_def)

lemma prefix_count_remove1:
  "w \<in> set ws \<Longrightarrow> prefix_count ws q = prefix_count (remove1 w ws) q + (if take (length q) w = q then 1 else 0)"
  by (induction ws) (auto simp: prefix_count_Cons)

text \<open>The counters after the deletion of a word that is not the last one with its prefix.\<close>

lemma lower_counts:
  assumes cnt: "counts ws M" and pas: "passes ws M" and w: "w \<in> set ws" "prefix_count ws w > 1" and l: "lower M [] w w = Some (a, e, x)"
  shows "e = int (count_list ws w)" "counts (remove1 w ws) ((lower M [] w)(w \<mapsto> (a, e - 1, x)))" "passes (remove1 w ws) ((lower M [] w)(w \<mapsto> (a, e - 1, x)))"
proof -
  define M' where "M' = (lower M [] w)(w \<mapsto> (a, e - 1, x))"
  have c_none: "M q = None \<longleftrightarrow> q \<noteq> [] \<and> prefix_count ws q = 0" for q using cnt unfolding counts_def by simp
  have c_some: "e = int (count_list ws q)" "q \<noteq> [] \<Longrightarrow> x = int (prefix_count ws q)" if "M q = Some (a, e, x)" for q a e x
    using cnt pas that unfolding counts_def passes_def by simp_all
  have mono: "prefix_count ws w \<le> prefix_count ws q" if "on_way [] w q" for q using prefix_count_le that by (simp add: on_way_take)
  have "M' q = (case M q of None \<Rightarrow> None | Some (b, f, y) \<Rightarrow> Some (b, if q = w then f - 1 else f, if on_way [] w q then y - 1 else y))" for q
    using l by (auto simp: M'_def lower_def split: option.splits if_splits)
  then have M': "M' q = None \<longleftrightarrow> M q = None" "M' q = Some (b, f, y) \<Longrightarrow>
      \<exists>f' y'. M q = Some (b, f', y') \<and> f = (if q = w then f' - 1 else f') \<and> y = (if on_way [] w q then y' - 1 else y')" for q b f y
    by (auto split: option.splits)
  show "e = int (count_list ws w)" using l c_some(1) [of w] by (auto simp: lower_def split: option.splits if_splits)
  show "counts (remove1 w ws) ((lower M [] w)(w \<mapsto> (a, e - 1, x)))" unfolding counts_def M'_def [symmetric]
  proof (intro conjI allI impI)
    show "M' q = None \<longleftrightarrow> q \<noteq> [] \<and> prefix_count (remove1 w ws) q = 0" for q
      using M'(1) [of q] c_none [of q] prefix_count_remove1 [OF w(1), of q] mono [of q] w(2) by (auto simp: on_way_take)
    show "f = int (count_list (remove1 w ws) q)" if q: "M' q = Some (b, f, y)" for q b f y
    proof -
      obtain f' y' where m: "M q = Some (b, f', y')" "f = (if q = w then f' - 1 else f')" using M'(2) [OF q] by blast
      have "int (count_list ws q) = int (count_list (remove1 w ws) q) + (if q = w then 1 else 0)"
        using w(1) count_list_0_iff [of ws w] by (auto simp: of_nat_diff)
      then show ?thesis unfolding m(2) c_some(1) [OF m(1)] by (auto simp del: count_list_remove1)
    qed
  qed
  show "passes (remove1 w ws) ((lower M [] w)(w \<mapsto> (a, e - 1, x)))" unfolding passes_def M'_def [symmetric]
  proof (intro allI impI)
    show "y = int (prefix_count (remove1 w ws) q)" if q: "M' q = Some (b, f, y)" "q \<noteq> []" for q b f y
    proof -
      obtain f' y' where m: "M q = Some (b, f', y')" "y = (if on_way [] w q then y' - 1 else y')" using M'(2) [OF q(1)] by blast
      have "int (prefix_count ws q) = int (prefix_count (remove1 w ws) q) + (if take (length q) w = q then 1 else 0)"
        unfolding prefix_count_remove1 [OF w(1), of q] by simp
      then show ?thesis unfolding m(2) c_some(2) [OF m(1) q(2)] using q(2) by (simp add: on_way_take)
    qed
  qed
qed

lemma delete_word:
  assumes rep: "trie_rep al tr M" and cnt: "counts ws M" and pas: "passes ws M" and w: "w \<in> set ws" "w \<noteq> []" "set w \<subseteq> set al"
  shows "if prefix_count ws w = 1 then trie_delete tr w = None
    else \<exists>tr' M'. trie_delete tr w = Some (int (count_list ws w) - 1, tr') \<and> trie_rep al tr' M' \<and> counts (remove1 w ws) M' \<and> passes (remove1 w ws) M'"
proof -
  obtain n where n: "M [] = Some n" "tr_root tr = fst n" using rep_facts(3) [OF rep] by metis
  have ge: "prefix_count ws w \<ge> 1" using prefix_count_remove1 [OF w(1), of w] by simp
  have mono: "prefix_count ws w \<le> prefix_count ws q" if "on_way [] w q" for q using prefix_count_le that by (simp add: on_way_take)
  have way: "\<exists>a e. M q = Some (a, e, int (prefix_count ws q))" if q: "on_way [] w q" for q
  proof -
    have k: "q \<noteq> []" "prefix_count ws q \<noteq> 0" using q mono [OF q] ge by (auto simp: on_way_take)
    then obtain a e x where m: "M q = Some (a, e, x)" using cnt unfolding counts_def by (cases "M q") auto
    then show ?thesis using pas k(1) unfolding passes_def by blast
  qed
  have "on_way [] w w" using w(2) by (simp add: on_way_take)
  then have last: "(\<exists>q a e x. on_way [] w q \<and> M q = Some (a, e, x) \<and> x \<le> 1) \<longleftrightarrow> prefix_count ws w = 1"
    using way mono ge by fastforce
  have loop: "if prefix_count ws w = 1 then delete_loop tr (tr_root tr) w = None
     else \<exists>tr' n'. delete_loop tr (tr_root tr) w = Some (Inr (fst n'), tr') \<and> trie_rep al tr' (lower M [] w) \<and> lower M [] w w = Some n'"
    using delete_loop_ok [OF rep n(1) w(3)] way unfolding last n(2) append_Nil by blast
  show ?thesis
  proof (cases "prefix_count ws w = 1")
    case True
    then show ?thesis using loop by (simp add: trie_delete_def)
  next
    case False
    obtain tr1 a e x where l: "delete_loop tr (tr_root tr) w = Some (Inr a, tr1)" "trie_rep al tr1 (lower M [] w)" "lower M [] w w = Some (a, e, x)"
      using loop False by auto
    note c = lower_counts [OF cnt pas w(1) _ l(3)]
    have "tr_node tr1 a = Some (e, x)" using rep_counters [OF l(2), of w a] l(3) by simp
    then have "trie_delete tr w = Some (int (count_list ws w) - 1, tr1\<lparr>tr_node := (tr_node tr1)(a \<mapsto> (e - 1, x))\<rparr>)"
      using l(1) c(1) ge False by (simp add: trie_delete_def)
    moreover have "trie_rep al (tr1\<lparr>tr_node := (tr_node tr1)(a \<mapsto> (e - 1, x))\<rparr>) ((lower M [] w)(w \<mapsto> (a, e - 1, x)))"
      using rep_update [OF l(2)] l(3) by blast
    ultimately show ?thesis using False c(2,3) ge by (metis le_neq_implies_less)
  qed
qed

text \<open>A tree that is constructed and filled.\<close>

definition filled :: "trie \<Rightarrow> bytes \<Rightarrow> grant list \<Rightarrow> bytes list \<Rightarrow> trie option" where
  "filled tr blk gs ws = (case gs of [] \<Rightarrow> None
     | g # gs' \<Rightarrow> do { (_, tr0) \<leftarrow> trie_construct tr blk g; (tr1, _) \<leftarrow> insert_all tr0 ws gs'; Some tr1 })"

text \<open>The zeroed object that \<open>object_new\<close> hands to the constructor.\<close>

definition new_trie :: trie where
  "new_trie = \<lparr>tr_root = 0, node_count = 0, char_set = None, tr_node = Map.empty, tr_table = Map.empty\<rparr>"

definition granted :: "grant list \<Rightarrow> bool" where
  "granted gs \<longleftrightarrow> distinct (map fst gs) \<and> (\<forall>(a, ok, x) \<in> set gs. a \<noteq> 0 \<and> ok)"

lemma filled_ok:
  assumes "length alphabet < length blk" "granted gs" "\<forall>w \<in> set ws. set w \<subseteq> set alphabet" "length (concat ws) < length gs"
  obtains tr' M where "filled new_trie blk gs ws = Some tr'" "trie_rep alphabet tr' M" "counts (rev ws) M" "\<forall>(a, ok, x) \<in> set gs. x = 0 \<Longrightarrow> passes (rev ws) M"
proof -
  have fr: "char_set new_trie = None" "node_count new_trie = 0" "tr_node new_trie = Map.empty" "tr_table new_trie = Map.empty"
    by (simp_all add: new_trie_def)
  obtain a x gs' where g: "gs = (a, True, x) # gs'" "a \<noteq> 0" using assms(2,4) by (cases gs) (auto simp: granted_def)
  let ?M = "[[] \<mapsto> (a, 0, x)] :: prefix_map"
  obtain tr0 where t: "trie_construct new_trie blk (a, True, x) = Some (1, tr0)" "trie_rep alphabet tr0 ?M"
    using trie_construct_rep [OF fr(1) assms(1) fr(2) g(2) fr(3,4)] by blast
  have "counts [] ?M" "passes [] ?M" by (auto simp: counts_def passes_def prefix_count_def split: if_splits)
  moreover have "grants_ok ?M gs'" using assms(2) by (force simp: grants_ok_def granted_def g(1))
  moreover have "length (concat ws) \<le> length gs'" using assms(4) by (simp add: g(1))
  ultimately obtain tr' gs'' M' where i: "insert_all tr0 ws gs' = Some (tr', gs'')" "trie_rep alphabet tr' M'" "counts (rev ws) M'"
      "(\<forall>g \<in> set gs'. snd (snd g) = 0) \<longrightarrow> passes (rev ws) M'"
    using insert_all_ok [OF t(2) _ assms(3), of "[]" gs'] by auto
  have "filled new_trie blk gs ws = Some tr'" using t(1) i(1) by (simp add: filled_def g(1))
  moreover have "\<forall>(a, ok, x) \<in> set gs. x = 0 \<Longrightarrow> passes (rev ws) M'" using i(4) by (auto simp: g(1))
  ultimately show ?thesis using that i(2,3) by blast
qed

subsection \<open>Properties\<close>

text \<open>
  C17. A prefix tree that is constructed from the zeroed object and into which any words over the letters \<open>a\<close> to \<open>z\<close> are inserted
  answers \<open>search\<close> with how often the word was inserted, \<open>search_prefix\<close> of a non-empty word with how many of the inserted words start
  with it, and \<open>search\<close> does not mistake a word with other characters for an inserted one.  This is so when the allocator grants every
  node, at addresses of their own, and for the character set a block with room for its terminating zero, which the constructor does not
  ask for and the slab allocator happens to give; the count of prefixes, and no other clause, rests on the nodes being granted with zeroed
  contents, which the code does not ask for either.
\<close>

theorem trie_counts:
  assumes "length alphabet < length blk" "granted gs" "\<forall>w \<in> set ws. set w \<subseteq> set alphabet" "length (concat ws) < length gs"
  shows "\<exists>tr'. filled new_trie blk gs ws = Some tr' \<and>
    (\<forall>w. if set w \<subseteq> set alphabet then trie_search tr' w = Some (int (count_list ws w)) else trie_search tr' w \<in> {Some 0, Some (-1)}) \<and>
    ((\<forall>(a, ok, x) \<in> set gs. x = 0) \<longrightarrow>
       (\<forall>w. w \<noteq> [] \<and> set w \<subseteq> set alphabet \<longrightarrow> trie_search_prefix tr' w = Some (int (prefix_count ws w))))"
proof -
  obtain tr' M where f: "filled new_trie blk gs ws = Some tr'" "trie_rep alphabet tr' M" "counts (rev ws) M" "\<forall>(a, ok, x) \<in> set gs. x = 0 \<Longrightarrow> passes (rev ws) M"
    by (rule filled_ok [OF assms]) blast
  show ?thesis using f(1,4) searches [OF f(2,3)] by (intro exI [of _ tr']) simp
qed

text \<open>The block of the slab allocator for 26 bytes.\<close>

abbreviation example_block :: bytes where
  "example_block \<equiv> replicate 32 0"

definition example_grants :: "grant list" where
  "example_grants = map (\<lambda>i. (of_nat (Suc i), True, 0)) [0..<8]"

lemma example_hyps: "length alphabet < length example_block" "granted example_grants" "\<forall>(a, ok, x) \<in> set example_grants. x = 0"
  by (simp_all add: alphabet_def granted_def example_grants_def upt_rec)

theorem trie_counts_witness:
  "\<exists>tr'. filled new_trie example_block example_grants [[97, 98], [97], [97, 98, 99]] = Some tr' \<and>
     trie_search tr' [97, 98] = Some 1 \<and> trie_search tr' [98] = Some 0 \<and> trie_search_prefix tr' [97] = Some 3"
proof -
  have "\<forall>w \<in> set [[97, 98], [97], [97, 98, 99]]. set w \<subseteq> set alphabet" "length (concat [[97 :: u8, 98], [97], [97, 98, 99]]) < length example_grants"
    by (simp_all add: alphabet_def example_grants_def upt_rec)
  from trie_counts [OF example_hyps(1,2) this] example_hyps(3)
  obtain tr' where "filled new_trie example_block example_grants [[97, 98], [97], [97, 98, 99]] = Some tr'"
    "\<forall>w. if set w \<subseteq> set alphabet then trie_search tr' w = Some (int (count_list [[97, 98], [97], [97, 98, 99]] w)) else trie_search tr' w \<in> {Some 0, Some (-1)}"
    "\<forall>w. w \<noteq> [] \<and> set w \<subseteq> set alphabet \<longrightarrow> trie_search_prefix tr' w = Some (int (prefix_count [[97, 98], [97], [97, 98, 99]] w))" by blast
  then show ?thesis by (intro exI [of _ tr']) (simp add: alphabet_def upt_rec prefix_count_def)
qed

text \<open>
  C18. In such a tree, whose nodes were granted with zeroed contents, deleting an inserted word takes it out of the counts as long as
  another inserted word (the same one inserted again, or a longer one) has it as a prefix.  If none has, the node of the word is deleted and
  then its freed table is written to: the deletion does not get past a memory error.
\<close>

theorem trie_delete_word:
  assumes "length alphabet < length blk" "granted gs" "\<forall>w \<in> set ws. set w \<subseteq> set alphabet" "length (concat ws) < length gs"
    and "\<forall>(a, ok, x) \<in> set gs. x = 0" "w \<in> set ws" "w \<noteq> []"
  shows "\<exists>tr'. filled new_trie blk gs ws = Some tr' \<and>
    (if prefix_count ws w = 1 then trie_delete tr' w = None
     else \<exists>tr''. trie_delete tr' w = Some (int (count_list ws w) - 1, tr'') \<and>
       (\<forall>v. set v \<subseteq> set alphabet \<longrightarrow> trie_search tr'' v = Some (int (count_list (remove1 w ws) v))))"
proof -
  obtain tr' M where f: "filled new_trie blk gs ws = Some tr'" "trie_rep alphabet tr' M" "counts (rev ws) M" "\<forall>(a, ok, x) \<in> set gs. x = 0 \<Longrightarrow> passes (rev ws) M"
    by (rule filled_ok [OF assms(1-4)]) blast
  have w: "w \<in> set (rev ws)" "set w \<subseteq> set alphabet" using assms(3,6) by auto
  have c: "count_list (remove1 w (rev ws)) v = count_list (remove1 w ws) v" for v by simp
  show ?thesis using f(1) delete_word [OF f(2,3) f(4) [OF assms(5)] w(1) assms(7) w(2)] searches(1) unfolding count_list_rev prefix_count_rev c [symmetric] by metis
qed

theorem trie_delete_word_witness:
  "\<exists>tr' tr''. filled new_trie example_block example_grants [[97, 98], [97], [97, 98, 99]] = Some tr' \<and>
     trie_delete tr' [97, 98] = Some (0, tr'') \<and> trie_search tr'' [97, 98] = Some 0 \<and> trie_search tr'' [97] = Some 1 \<and>
     trie_delete tr' [97, 98, 99] = None"
proof -
  let ?ws = "[[97, 98], [97], [97, 98, 99]] :: bytes list"
  have h: "\<forall>w \<in> set ?ws. set w \<subseteq> set alphabet" "length (concat ?ws) < length example_grants"
    by (simp_all add: alphabet_def example_grants_def upt_rec)
  note d = trie_delete_word [OF example_hyps(1,2) h example_hyps(3)]
  have "prefix_count ?ws [97, 98] = 2" "prefix_count ?ws [97, 98, 99] = 1" by (simp_all add: prefix_count_def)
  then show ?thesis using d [of "[97, 98]"] d [of "[97, 98, 99]"] by (fastforce simp: alphabet_def upt_rec)
qed

text \<open>
  Destroying a filled tree gives every node and every table back, and the character set: the recursion ends and leaves no block.
\<close>

theorem trie_lifetime:
  assumes "length alphabet < length blk" "granted gs" "\<forall>w \<in> set ws. set w \<subseteq> set alphabet" "length (concat ws) < length gs"
  shows "\<exists>tr' tr''. filled new_trie blk gs ws = Some tr' \<and> trie_deconstruct tr' = Some (1, tr'') \<and>
    tr_node tr'' = Map.empty \<and> tr_table tr'' = Map.empty \<and> char_set tr'' = None"
proof -
  obtain tr' M where f: "filled new_trie blk gs ws = Some tr'" "trie_rep alphabet tr' M" "counts (rev ws) M"
    by (rule filled_ok [OF assms(1-4)]) blast
  have "distinct alphabet" by (simp add: alphabet_def upt_rec)
  then show ?thesis using f deconstruct_ok [OF f(2,3)] assms(3) by simp
qed

theorem trie_lifetime_witness:
  "\<exists>tr' tr''. filled new_trie example_block example_grants [[97, 98], [97], [97, 98, 99]] = Some tr' \<and> trie_deconstruct tr' = Some (1, tr'') \<and>
     tr_node tr'' = Map.empty \<and> tr_table tr'' = Map.empty"
proof -
  let ?ws = "[[97, 98], [97], [97, 98, 99]] :: bytes list"
  have h: "\<forall>w \<in> set ?ws. set w \<subseteq> set alphabet" "length (concat ?ws) < length example_grants"
    by (simp_all add: alphabet_def example_grants_def upt_rec)
  show ?thesis using trie_lifetime [OF example_hyps(1,2) h] by blast
qed

text \<open>A block of just the size that the constructor asks for is overrun.\<close>

lemma trie_construct_overflows: "char_set tr = None \<Longrightarrow> length blk = length alphabet \<Longrightarrow> trie_construct tr blk g = None"
  by (simp add: trie_construct_def st_def alphabet_def)

end
