(* ===== verification/ListRings.thy ===== *)
theory ListRings
  imports LinkList
begin

text \<open>
  Several circular lists of \<open>list.h\<close> in one heap.  A family \<open>R\<close> gives the entries of the list of each head; the lists have no
  entry or head in common, so an operation on one leaves the others as they are.
\<close>

definition rings :: "'a llist \<Rightarrow> (nat \<rightharpoonup> nat list) \<Rightarrow> bool" where
  "rings l R \<longleftrightarrow> (\<forall>h xs. R h = Some xs \<longrightarrow> path (l_next l) (l_prev l) h xs h \<and> distinct (h # xs)) \<and>
     (\<forall>h g xs ys. R h = Some xs \<longrightarrow> R g = Some ys \<longrightarrow> h \<noteq> g \<longrightarrow> set (h # xs) \<inter> set (g # ys) = {})"

definition ring_nodes :: "(nat \<rightharpoonup> nat list) \<Rightarrow> nat set" where
  "ring_nodes R = {x. \<exists>h xs. R h = Some xs \<and> x \<in> set (h # xs)}"

lemma ringsD:
  assumes "rings l R" "R h = Some xs"
  shows "path (l_next l) (l_prev l) h xs h" "distinct (h # xs)" "\<And>g ys. R g = Some ys \<Longrightarrow> g \<noteq> h \<Longrightarrow> set (g # ys) \<inter> set (h # xs) = {}"
proof -
  show "path (l_next l) (l_prev l) h xs h" "distinct (h # xs)" using assms unfolding rings_def by blast+
  show "set (g # ys) \<inter> set (h # xs) = {}" if "R g = Some ys" "g \<noteq> h" for g ys
    using assms that unfolding rings_def by blast
qed

lemma ring_nodesI: "R h = Some xs \<Longrightarrow> x \<in> set (h # xs) \<Longrightarrow> x \<in> ring_nodes R"
  unfolding ring_nodes_def by blast

lemma ring_nodes_update: "R h = Some xs \<Longrightarrow> ring_nodes (R(h \<mapsto> ys)) \<subseteq> ring_nodes R \<union> set ys"
  by (auto simp: ring_nodes_def split: if_splits)

lemma ring_nodes_fresh: "ring_nodes (R(h \<mapsto> ys)) \<subseteq> ring_nodes R \<union> insert h (set ys)"
  by (auto simp: ring_nodes_def split: if_splits)

lemma path_cong:
  "(\<And>x. x \<in> set (a # xs) \<Longrightarrow> nx' x = nx x) \<Longrightarrow> (\<And>x. x \<in> set (xs @ [b]) \<Longrightarrow> pv' x = pv x) \<Longrightarrow> path nx' pv' a xs b = path nx pv a xs b"
  by (induction xs arbitrary: a) auto

lemma path_dom: "path nx pv a xs b \<Longrightarrow> set (a # xs) \<subseteq> dom nx \<and> set (xs @ [b]) \<subseteq> dom pv"
  by (induction xs arbitrary: a) auto

lemma rings_dom: "rings l R \<Longrightarrow> ring_nodes R \<subseteq> dom (l_next l) \<and> ring_nodes R \<subseteq> dom (l_prev l)"
proof -
  assume r: "rings l R"
  have "x \<in> dom (l_next l) \<and> x \<in> dom (l_prev l)" if "R h = Some xs" "x \<in> set (h # xs)" for h xs x
    using path_dom [OF ringsD(1) [OF r that(1)]] that(2) by auto
  then show ?thesis unfolding ring_nodes_def by blast
qed

text \<open>What changes other places only keeps the lists.\<close>

lemma rings_frame:
  assumes "rings l R" "\<And>x. x \<in> ring_nodes R \<Longrightarrow> l_next l' x = l_next l x \<and> l_prev l' x = l_prev l x"
  shows "rings l' R"
proof -
  have "path (l_next l') (l_prev l') h xs h" if "R h = Some xs" for h xs
  proof -
    have "path (l_next l') (l_prev l') h xs h = path (l_next l) (l_prev l) h xs h"
    proof (rule path_cong)
      have n: "x \<in> ring_nodes R" if "x \<in> set (h # xs)" for x using ring_nodesI [of R h xs x] \<open>R h = Some xs\<close> that by blast
      show "l_next l' x = l_next l x" if "x \<in> set (h # xs)" for x using assms(2) n that by blast
      show "l_prev l' x = l_prev l x" if "x \<in> set (xs @ [h])" for x using assms(2) n [of x] that by auto
    qed
    then show ?thesis using ringsD(1) [OF assms(1) that] by simp
  qed
  then show ?thesis using assms(1) unfolding rings_def by blast
qed

text \<open>One list changes, and its places and \<open>A\<close> only.\<close>

lemma rings_change:
  assumes "rings l R" "R h = Some xs" "path (l_next l') (l_prev l') h ys h" "distinct (h # ys)"
    and "\<And>x. x \<notin> set (h # xs) \<Longrightarrow> x \<notin> A \<Longrightarrow> l_next l' x = l_next l x \<and> l_prev l' x = l_prev l x"
    and "A \<inter> (ring_nodes R - set (h # xs)) = {}" "set ys \<subseteq> set xs \<union> A"
  shows "rings l' (R(h \<mapsto> ys))"
proof -
  have other: "path (l_next l') (l_prev l') g zs g" "set (g # zs) \<inter> set (h # ys) = {}" if g: "R g = Some zs" "g \<noteq> h" for g zs
  proof -
    have d: "set (g # zs) \<inter> set (h # xs) = {}" by (rule ringsD(3) [OF assms(1,2) g])
    moreover have "set (g # zs) \<subseteq> ring_nodes R" using ring_nodesI [of R g zs, OF g(1)] by blast
    ultimately have a: "set (g # zs) \<inter> A = {}" using assms(6) by blast
    then show "set (g # zs) \<inter> set (h # ys) = {}" using d assms(7) by auto
    have "path (l_next l') (l_prev l') g zs g = path (l_next l) (l_prev l) g zs g"
    proof (rule path_cong)
      show "l_next l' x = l_next l x" if "x \<in> set (g # zs)" for x using assms(5) [of x] d a that by blast
      show "l_prev l' x = l_prev l x" if "x \<in> set (zs @ [g])" for x
      proof -
        have "x \<in> set (g # zs)" using that by auto
        then show ?thesis using assms(5) [of x] d a by blast
      qed
    qed
    then show "path (l_next l') (l_prev l') g zs g" using ringsD(1) [OF assms(1) g(1)] by simp
  qed
  show ?thesis
    unfolding rings_def
  proof (intro conjI allI impI)
    fix g zs assume g: "(R(h \<mapsto> ys)) g = Some zs"
    show "path (l_next l') (l_prev l') g zs g" "distinct (g # zs)"
      using other(1) [of g zs] g assms(3,4) ringsD(2) [OF assms(1), of g zs] by (cases "g = h"; simp)+
  next
    fix g g' zs zs' assume g: "(R(h \<mapsto> ys)) g = Some zs" "(R(h \<mapsto> ys)) g' = Some zs'" "g \<noteq> g'"
    show "set (g # zs) \<inter> set (g' # zs') = {}"
    proof (cases "g = h")
      case True
      then show ?thesis using other(2) [of g' zs'] g by auto
    next
      case False
      show ?thesis
      proof (cases "g' = h")
        case True
        then show ?thesis using other(2) [of g zs] g False by simp
      next
        case False': False
        then have "R g = Some zs" "R g' = Some zs'" using g False by simp_all
        then show ?thesis using ringsD(3) [OF assms(1), of g' zs' g zs] g(3) by blast
      qed
    qed
  qed
qed

lemma ring_add:
  assumes "rings l R" "R h = Some xs" "n \<notin> ring_nodes R" "n \<in> dom (l_next l)" "n \<in> dom (l_prev l)"
  shows "\<exists>l'. list_add_after l n h = Some l' \<and> rings l' (R(h \<mapsto> n # xs)) \<and> dom (l_next l') = dom (l_next l) \<and> dom (l_prev l') = dom (l_prev l)"
proof -
  let ?w = "hd (xs @ [h])"
  let ?l = "l\<lparr>l_next := (l_next l)(n \<mapsto> ?w, h \<mapsto> n), l_prev := (l_prev l)(?w \<mapsto> n, n \<mapsto> h)\<rparr>"
  note r = ringsD [OF assms(1,2)]
  have w: "?w \<in> set (h # xs)" using hd_in_set [of "xs @ [h]"] by auto
  have sub: "set (h # xs) \<subseteq> ring_nodes R" using ring_nodesI [of R h xs, OF assms(2)] by blast
  have nh: "n \<notin> set (h # xs)" using sub assms(3) by blast
  have dm: "set (h # xs) \<subseteq> dom (l_next l)" "set (h # xs) \<subseteq> dom (l_prev l)" using rings_dom [OF assms(1)] sub by blast+
  have "list_add_after l n h = Some ?l"
  proof -
    have "?w \<in> dom (l_prev l)" "h \<in> dom (l_next l)" using w dm by auto
    then show ?thesis using path_first_next [OF r(1)] list_add_eq [of ?w l n h] assms(4,5) by (simp add: list_add_after_def)
  qed
  moreover have "rings ?l (R(h \<mapsto> n # xs))"
  proof (rule rings_change [OF assms(1,2), where A = "{n}"])
    show "path (l_next ?l) (l_prev ?l) h (n # xs) h" using path_insert [of "l_next l" "l_prev l" h "[]" xs n] r(1,2) nh by simp
    show "distinct (h # n # xs)" using r(2) nh by auto
    show "l_next ?l x = l_next l x \<and> l_prev ?l x = l_prev l x" if "x \<notin> set (h # xs)" "x \<notin> {n}" for x using that w by auto
  qed (use assms(3) in auto)
  moreover have "dom (l_next ?l) = dom (l_next l)" "dom (l_prev ?l) = dom (l_prev l)" using assms(4,5) w dm by auto
  ultimately show ?thesis by blast
qed

lemma ring_del:
  assumes "rings l R" "R h = Some (xs @ e # ys)"
  shows "\<exists>l'. list_del l e = Some l' \<and> rings l' (R(h \<mapsto> xs @ ys)) \<and> dom (l_next l') = dom (l_next l) \<and> dom (l_prev l') = dom (l_prev l)"
proof -
  let ?u = "last (h # xs)" and ?w = "hd (ys @ [h])"
  let ?l = "l\<lparr>l_next := (l_next l)(?u \<mapsto> ?w, e \<mapsto> LIST_POISON1), l_prev := (l_prev l)(?w \<mapsto> ?u, e \<mapsto> LIST_POISON2)\<rparr>"
  note r = ringsD [OF assms]
  have u: "?u \<in> set (h # xs)" by (rule last_in_set) simp
  have w: "?w \<in> set (h # ys)" using hd_in_set [of "ys @ [h]"] by auto
  have sub: "set (h # xs @ e # ys) \<subseteq> ring_nodes R" using ring_nodesI [of R h _, OF assms(2)] by blast
  have dm: "set (h # xs @ e # ys) \<subseteq> dom (l_next l)" "set (h # xs @ e # ys) \<subseteq> dom (l_prev l)" using rings_dom [OF assms(1)] sub by blast+
  have seg: "path (l_next l) (l_prev l) h xs e" "path (l_next l) (l_prev l) e ys h" using r(1) by (simp_all add: path_append)
  have e: "e \<notin> set (h # xs @ ys)" "?u \<noteq> e" "?w \<noteq> e" using r(2) u w by auto
  have "list_del l e = Some ?l"
    by (rule list_del_eq [OF path_last_prev [OF seg(1)] path_first_next [OF seg(2)]]) (use u w dm in auto)
  moreover have "rings ?l (R(h \<mapsto> xs @ ys))"
  proof (rule rings_change [OF assms, where A = "{}"])
    have "path ((l_next l)(?u \<mapsto> ?w)) ((l_prev l)(?w \<mapsto> ?u)) h (xs @ ys) h" by (rule path_remove [OF r(1,2)])
    then show "path (l_next ?l) (l_prev ?l) h (xs @ ys) h" using e(1) by (simp add: path_next_other path_prev_other)
    show "distinct (h # xs @ ys)" using r(2) by auto
    show "l_next ?l x = l_next l x \<and> l_prev ?l x = l_prev l x" if "x \<notin> set (h # xs @ e # ys)" "x \<notin> {}" for x using that u w by auto
  qed auto
  moreover have "dom (l_next ?l) = dom (l_next l)" "dom (l_prev ?l) = dom (l_prev l)" using u w dm by auto
  ultimately show ?thesis by blast
qed

lemma ring_del_fresh:
  assumes "rings l R" "R h = Some (xs @ e # ys)"
  shows "e \<notin> ring_nodes (R(h \<mapsto> xs @ ys))"
proof
  assume "e \<in> ring_nodes (R(h \<mapsto> xs @ ys))"
  then obtain g zs where g: "(R(h \<mapsto> xs @ ys)) g = Some zs" "e \<in> set (g # zs)" unfolding ring_nodes_def by blast
  show False
  proof (cases "g = h")
    case True
    then show ?thesis using g ringsD(2) [OF assms] by auto
  next
    case False
    then have "R g = Some zs" using g(1) by simp
    then show ?thesis using ringsD(3) [OF assms, of g zs] False g(2) by auto
  qed
qed

lemma ring_first: "rings l R \<Longrightarrow> R h = Some xs \<Longrightarrow> l_next l h = Some (hd (xs @ [h]))"
  using path_first_next [OF ringsD(1)] by blast

lemma ring_next: "rings l R \<Longrightarrow> R h = Some (xs @ x # ys) \<Longrightarrow> l_next l x = Some (hd (ys @ [h]))"
  using ringsD(1) [of l R h "xs @ x # ys"] by (auto simp: path_append intro: path_first_next)

text \<open>A new place, and a new empty list.\<close>

lemma ring_place: "rings l R \<Longrightarrow> n \<notin> ring_nodes R \<Longrightarrow> rings (new_node l n d) R"
  by (rule rings_frame) (auto simp: new_node_def)

lemma ring_head:
  assumes "rings l R" "h \<notin> ring_nodes R"
  shows "\<exists>l'. INIT_LIST_HEAD (new_node l h d) h = Some l' \<and> rings l' (R(h \<mapsto> []))"
proof -
  let ?l = "l\<lparr>l_next := (l_next l)(h \<mapsto> h), l_prev := (l_prev l)(h \<mapsto> h), l_data := (l_data l)(h \<mapsto> d)\<rparr>"
  have "INIT_LIST_HEAD (new_node l h d) h = Some ?l" by (simp add: INIT_LIST_HEAD_def set_next_def set_prev_def new_node_def)
  moreover have "rings ?l R" by (rule rings_frame [OF assms(1)]) (use assms(2) in auto)
  then have "rings ?l (R(h \<mapsto> []))"
    using assms(2) unfolding rings_def ring_nodes_def by (auto split: if_splits)
  ultimately show ?thesis by blast
qed

lemma ring_drop: "rings l R \<Longrightarrow> rings l (R(h := None))"
  unfolding rings_def by (auto split: if_splits)

end
