(* ===== verification/SlabAlloc.thy ===== *)
theory SlabAlloc
  imports ListRings
begin

text \<open>
  The allocators of \<open>core/utils/alloc\<close>: the slab allocator (\<open>ctr_alloc\<close>), which cuts blocks of size classes \<open>2 ^ i * data_min_size\<close> from
  memory pools and keeps released blocks in lists by class, the allocator that hands requests to \<open>malloc\<close>, and the wrappers of
  \<open>allocator.h\<close> that dispatch on the type.  \<open>malloc\<close> is an argument: its answer may depend on the calls so far, the live blocks and
  the size.  The live blocks are kept as addresses with sizes, the structures in them in one map per structure; freeing a block ends
  the life of every structure in it.  An address names the structure, its \<open>list_head\<close> and its place in the list at once, so
  \<open>container_of\<close> is the identity, but the data of a slab starts behind its header.  Locks and debug output are not modelled.
\<close>

subsection \<open>Structures\<close>

text \<open>Sizes on a 64-bit machine.\<close>

abbreviation SLAB :: nat where "SLAB \<equiv> 80"
abbreviation HEAD :: nat where "HEAD \<equiv> 96"
abbreviation MEMPOOL :: nat where "MEMPOOL \<equiv> 40"
abbreviation ALLOCATOR :: nat where "ALLOCATOR \<equiv> 200"

record ctr_slab =
  sl_tag :: bytes
  sl_size :: u32
  sl_data_size :: u32
  sl_slab_size :: u32
  sl_stat_flag :: u8
  sl_mem_addr :: nat

record ctr_mempool =
  mp_start :: nat
  mp_depth :: int
  mp_min_depth :: int
  mp_size :: int

datatype allocator_type = ALLOCATOR_TYPE_SYS_MALLOC | ALLOCATOR_TYPE_CTR_MALLOC

text \<open>A list head that is not initialised, or \<open>NULL\<close>, is \<open>None\<close>; \<open>ca_count\<close> is the counter of every list head.\<close>

record allocator =
  ca_self :: nat
  ca_type :: allocator_type
  ca_alloc_count :: u32
  slab_array_max_num :: u32
  mempool_capacity :: u32
  data_min_size :: u32
  ca_empty :: "nat option"
  ca_pool :: "nat option"
  ca_huge :: "nat option"
  ca_free_p :: nat
  ca_free :: "nat option list"
  ca_used_p :: nat
  ca_used :: "nat option list"
  ca_links :: "unit llist"
  ca_count :: "nat \<rightharpoonup> u32"
  ca_mempool :: "nat \<rightharpoonup> ctr_mempool"
  ca_slab :: "nat \<rightharpoonup> ctr_slab"
  ca_blocks :: "(nat \<times> nat) list"
  ca_calls :: nat

text \<open>\<open>malloc\<close> and what a slab header in fresh memory contains.\<close>

record libc =
  libc_malloc :: "nat \<Rightarrow> (nat \<times> nat) list \<Rightarrow> nat \<Rightarrow> nat"
  libc_slab :: ctr_slab

definition sys_malloc :: "libc \<Rightarrow> allocator \<Rightarrow> nat \<Rightarrow> nat \<times> allocator" where
  "sys_malloc E al n =
     (let p = libc_malloc E (ca_calls al) (ca_blocks al) n; al1 = al\<lparr>ca_calls := ca_calls al + 1\<rparr> in
      if p = 0 then (0, al1) else (p, al1\<lparr>ca_blocks := (p, n) # ca_blocks al1\<rparr>))"

definition kill :: "(nat \<rightharpoonup> 'a) \<Rightarrow> nat \<Rightarrow> nat \<Rightarrow> nat \<rightharpoonup> 'a" where
  "kill f a n = (\<lambda>x. if a \<le> x \<and> x < a + n then None else f x)"

definition sys_free :: "allocator \<Rightarrow> nat \<Rightarrow> allocator option" where
  "sys_free al a =
     (if a = 0 then Some al
      else case map_of (ca_blocks al) a of
        None \<Rightarrow> None
      | Some n \<Rightarrow> Some (al\<lparr>ca_blocks := remove1 (a, n) (ca_blocks al),
          ca_links := (ca_links al)\<lparr>l_next := kill (l_next (ca_links al)) a n, l_prev := kill (l_prev (ca_links al)) a n\<rparr>,
          ca_count := kill (ca_count al) a n, ca_mempool := kill (ca_mempool al) a n, ca_slab := kill (ca_slab al) a n\<rparr>))"

subsection \<open>Lists with a head\<close>

definition head_init_list :: "libc \<Rightarrow> allocator \<Rightarrow> nat option \<Rightarrow> (nat option \<times> allocator) option" where
  "head_init_list E al hl =
     (let (p, al1) = sys_malloc E al HEAD in
      if p = 0 then Some (hl, al1)
      else do { l \<leftarrow> INIT_LIST_HEAD (new_node (ca_links al1) p ()) p;
                Some (Some p, al1\<lparr>ca_links := l, ca_count := (ca_count al1)(p \<mapsto> 0)\<rparr>) })"

definition slab_init_head_list :: "libc \<Rightarrow> allocator \<Rightarrow> nat option \<Rightarrow> (nat option \<times> allocator) option" where
  "slab_init_head_list E al hl = head_init_list E al hl"

definition slab_release_head_list :: "allocator \<Rightarrow> nat \<Rightarrow> allocator option" where
  "slab_release_head_list al hl = do { _ \<leftarrow> ca_count al hl; sys_free al hl }"

definition slab_attach_list :: "allocator \<Rightarrow> nat \<Rightarrow> nat \<Rightarrow> allocator option" where
  "slab_attach_list al new hl =
     do { c \<leftarrow> ca_count al hl; l \<leftarrow> list_add_after (ca_links al) new hl; Some (al\<lparr>ca_links := l, ca_count := (ca_count al)(hl \<mapsto> c + 1)\<rparr>) }"

definition slab_detach_list :: "allocator \<Rightarrow> nat \<Rightarrow> nat \<Rightarrow> allocator option" where
  "slab_detach_list al del hl =
     do { c \<leftarrow> ca_count al hl; l \<leftarrow> list_del (ca_links al) del; Some (al\<lparr>ca_links := l, ca_count := (ca_count al)(hl \<mapsto> c - 1)\<rparr>) }"

text \<open>The address 0 is the result \<open>NULL\<close>.\<close>

definition slab_detach_front_list :: "allocator \<Rightarrow> nat \<Rightarrow> (nat \<times> allocator) option" where
  "slab_detach_front_list al hl =
     do { c \<leftarrow> ca_count al hl;
          n \<leftarrow> l_next (ca_links al) hl;
          if n \<noteq> hl then
            do { l \<leftarrow> list_del (ca_links al) n;
                 s \<leftarrow> ca_slab al n;
                 Some (n, al\<lparr>ca_links := l, ca_count := (ca_count al)(hl \<mapsto> c - 1), ca_slab := (ca_slab al)(n \<mapsto> s\<lparr>sl_stat_flag := 1\<rparr>)\<rparr>) }
          else Some (0, al) }"

primrec pow32 :: "u32 \<Rightarrow> nat \<Rightarrow> u32" where
  "pow32 x 0 = 1"
| "pow32 x (Suc y) = pow32 x y * x"

text \<open>The loop over the classes from \<open>i\<close> on, of which \<open>k\<close> are left; the quotient and the remainder are unsigned.\<close>

fun slab_index_loop :: "u32 \<Rightarrow> u32 \<Rightarrow> nat \<Rightarrow> nat \<Rightarrow> int option" where
  "slab_index_loop m sz i 0 = Some (-1)"
| "slab_index_loop m sz i (Suc k) =
     (let q = pow32 2 i * m in
      if q = 0 then None
      else if sz div q = 0 \<or> (sz div q = 1 \<and> sz mod q = 0) then Some (int i) else slab_index_loop m sz (Suc i) k)"

definition slab_get_slab_index :: "allocator \<Rightarrow> u32 \<Rightarrow> int option" where
  "slab_get_slab_index al sz = slab_index_loop (data_min_size al) sz 0 (unat (slab_array_max_num al))"

definition slab_head :: "nat option list \<Rightarrow> int \<Rightarrow> nat option" where
  "slab_head hs i = do { h \<leftarrow> ld1 hs i; h }"

definition slab_detach_front_list_from_free_slabs :: "allocator \<Rightarrow> u32 \<Rightarrow> (nat \<times> allocator) option" where
  "slab_detach_front_list_from_free_slabs al sz =
     do { i \<leftarrow> slab_get_slab_index al sz; h \<leftarrow> slab_head (ca_free al) i; slab_detach_front_list al h }"

definition slab_detach_list_from_used_slabs :: "allocator \<Rightarrow> nat \<Rightarrow> u32 \<Rightarrow> allocator option" where
  "slab_detach_list_from_used_slabs al del sz =
     do { i \<leftarrow> slab_get_slab_index al sz; h \<leftarrow> slab_head (ca_used al) i; slab_detach_list al del h }"

definition slab_attach_list_to_used_slabs :: "allocator \<Rightarrow> nat \<Rightarrow> u32 \<Rightarrow> allocator option" where
  "slab_attach_list_to_used_slabs al new sz =
     do { i \<leftarrow> slab_get_slab_index al sz; h \<leftarrow> slab_head (ca_used al) i; slab_attach_list al new h }"

definition slab_attach_list_to_free_slabs :: "allocator \<Rightarrow> nat \<Rightarrow> u32 \<Rightarrow> allocator option" where
  "slab_attach_list_to_free_slabs al new sz =
     do { i \<leftarrow> slab_get_slab_index al sz; h \<leftarrow> slab_head (ca_free al) i; slab_attach_list al new h }"

partial_function (option) destroy_huge_loop :: "allocator \<Rightarrow> nat \<Rightarrow> allocator option" where
  "destroy_huge_loop al hl =
     do { n \<leftarrow> l_next (ca_links al) hl;
          if n \<noteq> hl then
            do { l \<leftarrow> list_del (ca_links al) n; al1 \<leftarrow> sys_free (al\<lparr>ca_links := l\<rparr>) n; destroy_huge_loop al1 hl }
          else Some al }"

declare destroy_huge_loop.simps [code]

definition slab_destroy_used_huge_slabs :: "allocator \<Rightarrow> nat \<Rightarrow> allocator option" where
  "slab_destroy_used_huge_slabs al hl = do { al1 \<leftarrow> destroy_huge_loop al hl; slab_release_head_list al1 hl }"

subsection \<open>Memory pools\<close>

definition mempool_init_head_list :: "libc \<Rightarrow> allocator \<Rightarrow> nat option \<Rightarrow> (nat option \<times> allocator) option" where
  "mempool_init_head_list E al hl = head_init_list E al hl"

definition mempool_attach_list :: "allocator \<Rightarrow> nat \<Rightarrow> nat \<Rightarrow> allocator option" where
  "mempool_attach_list al new hl =
     do { c \<leftarrow> ca_count al hl; l \<leftarrow> list_add_after (ca_links al) new hl; Some (al\<lparr>ca_links := l, ca_count := (ca_count al)(hl \<mapsto> c + 1)\<rparr>) }"

definition mempool_detach_list :: "allocator \<Rightarrow> nat \<Rightarrow> nat \<Rightarrow> allocator option" where
  "mempool_detach_list al del hl =
     do { c \<leftarrow> ca_count al hl; l \<leftarrow> list_del (ca_links al) del; Some (al\<lparr>ca_links := l, ca_count := (ca_count al)(hl \<mapsto> c - 1)\<rparr>) }"

definition mempool_create_list :: "libc \<Rightarrow> allocator \<Rightarrow> (nat \<times> allocator) option" where
  "mempool_create_list E al =
     (let (p, al1) = sys_malloc E al MEMPOOL in
      if p = 0 then Some (0, al1)
      else
        let cap = mempool_capacity al; (q, al2) = sys_malloc E al1 (unat cap) in
        if q = 0 then do { al3 \<leftarrow> sys_free al2 p; Some (0, al3) }
        else Some (p, al2\<lparr>ca_mempool := (ca_mempool al2)(p \<mapsto>
               \<lparr>mp_start = q, mp_depth = sint cap, mp_min_depth = sint (data_min_size al + of_nat SLAB), mp_size = sint cap\<rparr>),
             ca_links := new_node (ca_links al2) p ()\<rparr>))"

definition mempool_release_list :: "allocator \<Rightarrow> nat \<Rightarrow> allocator option" where
  "mempool_release_list al p = do { mp \<leftarrow> ca_mempool al p; al1 \<leftarrow> sys_free al (mp_start mp); sys_free al1 p }"

definition mempool_destroy_list :: "allocator \<Rightarrow> nat \<Rightarrow> nat \<Rightarrow> allocator option" where
  "mempool_destroy_list al del hl = do { al1 \<leftarrow> mempool_detach_list al del hl; mempool_release_list al1 del }"

partial_function (option) destroy_pools_loop :: "allocator \<Rightarrow> nat \<Rightarrow> nat \<Rightarrow> nat \<Rightarrow> allocator option" where
  "destroy_pools_loop al pos n hl =
     (if pos = hl then Some al
      else do { al1 \<leftarrow> mempool_destroy_list al pos hl; n' \<leftarrow> l_next (ca_links al1) n; destroy_pools_loop al1 n n' hl })"

declare destroy_pools_loop.simps [code]

definition mempool_destroy_lists :: "allocator \<Rightarrow> nat \<Rightarrow> allocator option" where
  "mempool_destroy_lists al hl =
     do { pos \<leftarrow> l_next (ca_links al) hl; n \<leftarrow> l_next (ca_links al) pos; al1 \<leftarrow> destroy_pools_loop al pos n hl; sys_free al1 hl }"

definition mempool_get_real_alloc_mem_size :: "allocator \<Rightarrow> u32 \<Rightarrow> u32 option" where
  "mempool_get_real_alloc_mem_size al sz =
     do { i \<leftarrow> slab_get_slab_index al sz; Some (pow32 2 (unat (of_int i :: u32)) * data_min_size al) }"

text \<open>The signed depth is compared with an unsigned 64-bit sum.\<close>

partial_function (option) find_pool_loop :: "allocator \<Rightarrow> u32 \<Rightarrow> nat \<Rightarrow> nat \<Rightarrow> nat \<Rightarrow> (nat \<times> allocator) option" where
  "find_pool_loop al sz pos n hl =
     (if pos = hl then Some (0, al)
      else
        do { mp \<leftarrow> ca_mempool al pos;
             real \<leftarrow> mempool_get_real_alloc_mem_size al sz;
             if (of_int (mp_depth mp) :: u64) \<ge> ucast real + of_nat SLAB then Some (pos, al)
             else
               do { al1 \<leftarrow> (if mp_depth mp < mp_min_depth mp then
                              do { e \<leftarrow> ca_empty al; al' \<leftarrow> mempool_detach_list al pos hl; mempool_attach_list al' pos e }
                            else Some al);
                    n' \<leftarrow> l_next (ca_links al1) n;
                    find_pool_loop al1 sz n n' hl } })"

declare find_pool_loop.simps [code]

definition mempool_find_appropriate_pool :: "allocator \<Rightarrow> u32 \<Rightarrow> (nat \<times> allocator) option" where
  "mempool_find_appropriate_pool al sz =
     do { hl \<leftarrow> ca_pool al; pos \<leftarrow> l_next (ca_links al) hl; n \<leftarrow> l_next (ca_links al) pos; find_pool_loop al sz pos n hl }"

definition pick_pool :: "libc \<Rightarrow> allocator \<Rightarrow> u32 \<Rightarrow> (nat \<times> allocator) option" where
  "pick_pool E al sz =
     do { (p1, al1) \<leftarrow> mempool_find_appropriate_pool al sz;
          if p1 \<noteq> 0 then Some (p1, al1)
          else do { (q, s) \<leftarrow> mempool_create_list E al1;
                    if q \<noteq> 0 then do { hl \<leftarrow> ca_pool s; s' \<leftarrow> mempool_attach_list s q hl; Some (q, s') } else Some (0, s) } }"

text \<open>The header is written at the end of the used part of the pool; the bounds are those of the block of the pool.\<close>

definition mempool_alloc_slab_list :: "libc \<Rightarrow> allocator \<Rightarrow> u32 \<Rightarrow> (nat \<times> allocator) option" where
  "mempool_alloc_slab_list E al sz =
     do { (p, al2) \<leftarrow> pick_pool E al sz;
          if p = 0 then Some (0, al2)
          else
            do { mp \<leftarrow> ca_mempool al2 p;
                 n \<leftarrow> map_of (ca_blocks al2) (mp_start mp);
                 let off = mp_size mp - mp_depth mp;
                 guard (0 \<le> off \<and> off + int SLAB \<le> int n);
                 real \<leftarrow> mempool_get_real_alloc_mem_size al2 sz;
                 guard (sz \<le> real);
                 let a = mp_start mp + nat off;
                 let slab_size = real + of_nat SLAB;
                 Some (a, al2\<lparr>ca_slab := (ca_slab al2)(a \<mapsto> (libc_slab E)\<lparr>sl_size := real, sl_data_size := sz,
                              sl_mem_addr := a + SLAB, sl_stat_flag := 1, sl_slab_size := slab_size\<rparr>),
                            ca_links := new_node (ca_links al2) a (),
                            ca_mempool := (ca_mempool al2)(p \<mapsto> mp\<lparr>mp_depth := sint (of_int (mp_depth mp) - slab_size)\<rparr>)\<rparr>) } }"
subsection \<open>The slab allocator\<close>

fun init_heads :: "libc \<Rightarrow> allocator \<Rightarrow> nat \<Rightarrow> nat \<Rightarrow> allocator option" where
  "init_heads E al i 0 = Some al"
| "init_heads E al i (Suc k) =
     do { u \<leftarrow> ld1 (ca_used al) (int i);
          (h, al1) \<leftarrow> slab_init_head_list E al u;
          us \<leftarrow> st1 (ca_used al1) (int i) h;
          f \<leftarrow> ld1 (ca_free al1) (int i);
          (g, al2) \<leftarrow> slab_init_head_list E (al1\<lparr>ca_used := us\<rparr>) f;
          fs \<leftarrow> st1 (ca_free al2) (int i) g;
          init_heads E (al2\<lparr>ca_free := fs\<rparr>) (Suc i) k }"

definition ctr_config :: "allocator \<Rightarrow> allocator" where
  "ctr_config al =
     (let al1 = (if slab_array_max_num al = 0 then al\<lparr>slab_array_max_num := 12\<rparr> else al);
          al2 = (if data_min_size al1 = 0 then al1\<lparr>data_min_size := 8\<rparr> else al1);
          al3 = (if mempool_capacity al2 = 0
                 then al2\<lparr>mempool_capacity := pow32 2 (unat (slab_array_max_num al2)) * data_min_size al2\<rparr> else al2)
      in al3\<lparr>ca_alloc_count := 0\<rparr>)"

definition ctr_init_lists :: "libc \<Rightarrow> allocator \<Rightarrow> allocator option" where
  "ctr_init_lists E al =
     do { al1 \<leftarrow> init_heads E al 0 (unat (slab_array_max_num al));
          (h, al2) \<leftarrow> slab_init_head_list E al1 (ca_huge al1);
          (hl, al3) \<leftarrow> mempool_init_head_list E (al2\<lparr>ca_huge := h\<rparr>) (ca_pool al2);
          (p, al4) \<leftarrow> mempool_create_list E (al3\<lparr>ca_pool := hl\<rparr>);
          al5 \<leftarrow> (if p = 0 then Some (al4\<lparr>ca_pool := None\<rparr>) else do { h' \<leftarrow> ca_pool al4; mempool_attach_list al4 p h' });
          (e, al6) \<leftarrow> mempool_init_head_list E al5 (ca_empty al5);
          Some (al6\<lparr>ca_empty := e\<rparr>) }"

definition ctr_init :: "libc \<Rightarrow> allocator \<Rightarrow> (int \<times> allocator) option" where
  "ctr_init E al0 =
     (let al = ctr_config al0; n = unat (slab_array_max_num al); (p, al1) = sys_malloc E al (8 * n) in
      if p = 0 then Some (-1, al1)
      else
        let (q, al2) = sys_malloc E (al1\<lparr>ca_free_p := p, ca_free := replicate n None\<rparr>) (8 * n) in
        if q = 0 then Some (-1, al2)
        else do { al3 \<leftarrow> ctr_init_lists E (al2\<lparr>ca_used_p := q, ca_used := replicate n None\<rparr>); Some (1, al3) })"

definition alloc_huge_slab :: "libc \<Rightarrow> allocator \<Rightarrow> u32 \<Rightarrow> (nat \<times> allocator) option" where
  "alloc_huge_slab E al sz =
     (let (a, al1) = sys_malloc E (al\<lparr>ca_alloc_count := ca_alloc_count al + 1\<rparr>) (unat sz + SLAB) in
      if a = 0 then Some (0, al1)
      else
        do { hl \<leftarrow> ca_huge al1;
             let s = (libc_slab E)\<lparr>sl_data_size := sz, sl_size := sz, sl_slab_size := sz + of_nat SLAB, sl_stat_flag := 1\<rparr>;
             al2 \<leftarrow> slab_attach_list (al1\<lparr>ca_slab := (ca_slab al1)(a \<mapsto> s), ca_links := new_node (ca_links al1) a ()\<rparr>) a hl;
             Some (a + SLAB, al2) })"

definition alloc_normal_slab :: "libc \<Rightarrow> allocator \<Rightarrow> u32 \<Rightarrow> (nat \<times> allocator) option" where
  "alloc_normal_slab E al sz =
     do { (a, al1) \<leftarrow> slab_detach_front_list_from_free_slabs al sz;
          (b, al2) \<leftarrow> (if a = 0 then mempool_alloc_slab_list E al1 sz else Some (a, al1));
          if b = 0 then Some (0, al2)
          else do { al3 \<leftarrow> slab_attach_list_to_used_slabs al2 b sz;
                    Some (b + SLAB, al3\<lparr>ca_alloc_count := ca_alloc_count al3 + 1\<rparr>) } }"

definition ctr_alloc :: "libc \<Rightarrow> allocator \<Rightarrow> u32 \<Rightarrow> (nat \<times> allocator) option" where
  "ctr_alloc E al sz =
     do { index \<leftarrow> slab_get_slab_index al sz;
          if sz > mempool_capacity al \<or> index < 0 then alloc_huge_slab E al sz else alloc_normal_slab E al sz }"

definition free_huge_slab :: "allocator \<Rightarrow> nat \<Rightarrow> allocator option" where
  "free_huge_slab al a =
     do { hl \<leftarrow> ca_huge al; al1 \<leftarrow> slab_detach_list al a hl; al2 \<leftarrow> sys_free al1 a;
          Some (al2\<lparr>ca_alloc_count := ca_alloc_count al2 - 1\<rparr>) }"

definition free_normal_slab :: "allocator \<Rightarrow> nat \<Rightarrow> allocator option" where
  "free_normal_slab al a =
     do { s \<leftarrow> ca_slab al a;
          al1 \<leftarrow> slab_detach_list_from_used_slabs al a (sl_size s);
          s1 \<leftarrow> ca_slab al1 a;
          al2 \<leftarrow> slab_attach_list_to_free_slabs (al1\<lparr>ca_slab := (ca_slab al1)(a \<mapsto> s1\<lparr>sl_stat_flag := 0\<rparr>)\<rparr>) a (sl_size s);
          Some (al2\<lparr>ca_alloc_count := ca_alloc_count al2 - 1\<rparr>) }"

definition ctr_free :: "allocator \<Rightarrow> nat \<Rightarrow> allocator option" where
  "ctr_free al addr =
     (if addr = 0 then Some al
      else
        do { guard (SLAB \<le> addr);
             let a = addr - SLAB;
             s \<leftarrow> ca_slab al a;
             if sl_stat_flag s = 0 then Some al
             else
               do { index \<leftarrow> slab_get_slab_index al (sl_size s);
                    if sl_size s \<ge> mempool_capacity al \<or> index < 0 then free_huge_slab al a else free_normal_slab al a } })"

text \<open>\<open>strncpy\<close> of the whole field.\<close>

definition ctr_tag :: "allocator \<Rightarrow> nat \<Rightarrow> bytes \<Rightarrow> allocator option" where
  "ctr_tag al addr str =
     do { guard (SLAB \<le> addr);
          s \<leftarrow> ca_slab al (addr - SLAB);
          Some (al\<lparr>ca_slab := (ca_slab al)(addr - SLAB \<mapsto> s\<lparr>sl_tag := take 40 (str @ replicate 40 0)\<rparr>)\<rparr>) }"

fun release_heads :: "allocator \<Rightarrow> nat \<Rightarrow> nat \<Rightarrow> allocator option" where
  "release_heads al i 0 = Some al"
| "release_heads al i (Suc k) =
     do { f \<leftarrow> slab_head (ca_free al) (int i); al1 \<leftarrow> slab_release_head_list al f;
          u \<leftarrow> slab_head (ca_used al1) (int i); al2 \<leftarrow> slab_release_head_list al1 u;
          release_heads al2 (Suc i) k }"

definition ctr_destroy :: "allocator \<Rightarrow> allocator option" where
  "ctr_destroy al =
     do { hl \<leftarrow> ca_pool al; al1 \<leftarrow> mempool_destroy_lists al hl;
          e \<leftarrow> ca_empty al1; al2 \<leftarrow> mempool_destroy_lists al1 e;
          al3 \<leftarrow> release_heads al2 0 (unat (slab_array_max_num al2));
          al4 \<leftarrow> sys_free al3 (ca_used_p al3); al5 \<leftarrow> sys_free al4 (ca_free_p al4);
          hu \<leftarrow> ca_huge al5; slab_destroy_used_huge_slabs al5 hu }"

subsection \<open>The interface\<close>

definition sys_alloc :: "libc \<Rightarrow> allocator \<Rightarrow> u32 \<Rightarrow> nat \<times> allocator" where
  "sys_alloc E al sz = sys_malloc E al (unat sz)"

definition allocator_create :: "libc \<Rightarrow> allocator \<Rightarrow> allocator_type \<Rightarrow> nat \<times> allocator" where
  "allocator_create E al ty =
     (let (p, al1) = sys_malloc E al ALLOCATOR in
      if p = 0 then (0, al1) else (p, al1\<lparr>ca_self := p, ca_type := ty, ca_alloc_count := 0\<rparr>))"

text \<open>The allocator of \<open>malloc\<close> has no function \<open>init\<close>: the call goes through a null pointer.\<close>

definition allocator_ctr_init :: "libc \<Rightarrow> allocator \<Rightarrow> u32 \<Rightarrow> u32 \<Rightarrow> u32 \<Rightarrow> allocator option" where
  "allocator_ctr_init E al n m cap =
     (case ca_type al of
        ALLOCATOR_TYPE_SYS_MALLOC \<Rightarrow> None
      | ALLOCATOR_TYPE_CTR_MALLOC \<Rightarrow> map_option snd (ctr_init E (al\<lparr>slab_array_max_num := n, data_min_size := m, mempool_capacity := cap\<rparr>)))"

definition allocator_destroy :: "allocator \<Rightarrow> allocator option" where
  "allocator_destroy al =
     do { al1 \<leftarrow> (case ca_type al of ALLOCATOR_TYPE_SYS_MALLOC \<Rightarrow> Some al | ALLOCATOR_TYPE_CTR_MALLOC \<Rightarrow> ctr_destroy al);
          sys_free al1 (ca_self al1) }"

definition allocator_mem_alloc :: "libc \<Rightarrow> allocator \<Rightarrow> u32 \<Rightarrow> bytes \<Rightarrow> (nat \<times> allocator) option" where
  "allocator_mem_alloc E al sz place =
     (if sz = 0 then Some (0, al)
      else
        (case ca_type al of
           ALLOCATOR_TYPE_SYS_MALLOC \<Rightarrow> Some (sys_alloc E al sz)
         | ALLOCATOR_TYPE_CTR_MALLOC \<Rightarrow>
             do { (p, al1) \<leftarrow> ctr_alloc E al sz;
                  if p \<noteq> 0 then do { al2 \<leftarrow> ctr_tag al1 p place; Some (p, al2) } else Some (p, al1) }))"

definition allocator_mem_free :: "allocator \<Rightarrow> nat \<Rightarrow> allocator option" where
  "allocator_mem_free al addr =
     (if addr = 0 then Some al
      else (case ca_type al of ALLOCATOR_TYPE_SYS_MALLOC \<Rightarrow> sys_free al addr | ALLOCATOR_TYPE_CTR_MALLOC \<Rightarrow> ctr_free al addr))"

definition default_allocator_constructor :: "libc \<Rightarrow> allocator \<Rightarrow> allocator option" where
  "default_allocator_constructor E al =
     (let (p, al1) = allocator_create E al ALLOCATOR_TYPE_CTR_MALLOC in if p = 0 then None else allocator_ctr_init E al1 0 8 0)"

text \<open>The warning about blocks still in use is output.\<close>

definition default_allocator_destructor :: "allocator \<Rightarrow> allocator option" where
  "default_allocator_destructor al = allocator_destroy al"

text \<open>A \<open>malloc\<close> that never reuses an address.\<close>

definition bump :: "nat \<Rightarrow> (nat \<times> nat) list \<Rightarrow> nat \<Rightarrow> nat" where
  "bump c bs n = fold max (map (\<lambda>(a, k). a + k) bs) 0 + 16"

end
