(* ===== verification/SlabContent.thy ===== *)
theory SlabContent
  imports SlabAlloc "HOL-Library.Multiset"
begin

text \<open>
  The size classes and the memory of a slab allocator.  The blocks that \<open>malloc\<close> has granted are those of the list heads, the pools and
  the huge slabs, and other ones; the cells that the allocator hands out lie in the used part of the pools and do not overlap.
\<close>

subsection \<open>Size classes\<close>

definition classes :: "allocator \<Rightarrow> nat" where
  "classes al = unat (slab_array_max_num al)"

definition class_size :: "allocator \<Rightarrow> nat \<Rightarrow> nat" where
  "class_size al i = 2 ^ i * unat (data_min_size al)"

definition pool_capacity :: "allocator \<Rightarrow> nat" where
  "pool_capacity al = unat (mempool_capacity al)"

text \<open>A slab of the largest class holds into a pool with its header, and the sizes are positive when they are taken as \<open>int\<close>.\<close>

definition config_ok :: "allocator \<Rightarrow> bool" where
  "config_ok al \<longleftrightarrow> 0 < unat (data_min_size al) \<and> 0 < classes al \<and> class_size al (classes al - 1) + SLAB \<le> pool_capacity al \<and> pool_capacity al < 2 ^ 31"

lemma pow32_2: "pow32 2 i = of_nat (2 ^ i)"
  by (induction i) (simp_all add: mult.commute)

lemma class_size_mono: "i \<le> j \<Longrightarrow> class_size al i \<le> class_size al j"
  by (simp add: class_size_def)

lemma class_size_less: "config_ok al \<Longrightarrow> i < j \<Longrightarrow> class_size al i < class_size al j"
  by (simp add: class_size_def config_ok_def)

lemma class_size_eq: "config_ok al \<Longrightarrow> class_size al i = class_size al j \<longleftrightarrow> i = j"
  by (simp add: class_size_def config_ok_def)

lemma class_size_bound: "config_ok al \<Longrightarrow> i < classes al \<Longrightarrow> class_size al i + SLAB \<le> pool_capacity al \<and> class_size al i < 2 ^ 31"
proof -
  assume c: "config_ok al" "i < classes al"
  then have "class_size al i \<le> class_size al (classes al - 1)" by (intro class_size_mono) simp
  then show ?thesis using c unfolding config_ok_def by linarith
qed

lemma class_word:
  assumes "config_ok al" "i < classes al"
  shows "unat (pow32 2 i * data_min_size al) = class_size al i"
proof -
  have "2 ^ i * unat (data_min_size al) < 2 ^ 32" using class_size_bound [OF assms] by (simp add: class_size_def)
  moreover have "(2 :: nat) ^ i < 2 ^ 32"
  proof -
    have "(2 :: nat) ^ i * 1 \<le> 2 ^ i * unat (data_min_size al)" using assms(1) by (intro mult_left_mono) (auto simp: config_ok_def)
    then show ?thesis using calculation by linarith
  qed
  moreover have "unat (pow32 2 i) = 2 ^ i" unfolding pow32_2 unsigned_of_nat using calculation(2) power_less_imp_less_exp [of "2 :: nat" i 32] by (simp add: take_bit_nat_eq_self)
  ultimately show ?thesis by (simp add: class_size_def unat_word_ariths)
qed

lemma div_le: "0 < q \<Longrightarrow> (n div q = 0 \<or> (n div q = 1 \<and> n mod q = 0)) \<longleftrightarrow> n \<le> (q :: nat)"
proof
  assume "0 < q" "n div q = 0 \<or> (n div q = 1 \<and> n mod q = 0)"
  then show "n \<le> q" using div_mult_mod_eq [of n q] by (auto simp: div_eq_0_iff)
next
  assume "0 < q" "n \<le> q"
  then show "n div q = 0 \<or> (n div q = 1 \<and> n mod q = 0)" by (cases "n = q") auto
qed

lemma slab_index_loop_ok:
  "config_ok al \<Longrightarrow> i + k = classes al \<Longrightarrow> \<forall>j<i. class_size al j < unat sz \<Longrightarrow>
   (slab_index_loop (data_min_size al) sz i k = Some (-1) \<and> (\<forall>j<classes al. class_size al j < unat sz)) \<or>
   (\<exists>c<classes al. slab_index_loop (data_min_size al) sz i k = Some (int c) \<and> unat sz \<le> class_size al c \<and> (\<forall>j<c. class_size al j < unat sz))"
proof (induction k arbitrary: i)
  case (Suc k)
  let ?q = "pow32 2 i * data_min_size al"
  have i: "i < classes al" using Suc.prems(2) by simp
  have q: "unat ?q = class_size al i" by (rule class_word [OF Suc.prems(1) i])
  have pos: "0 < class_size al i" using Suc.prems(1) by (simp add: config_ok_def class_size_def)
  then have nz: "?q \<noteq> 0" using q by (metis less_irrefl unat_eq_zero)
  have c: "(sz div ?q = 0 \<or> (sz div ?q = 1 \<and> sz mod ?q = 0)) \<longleftrightarrow> unat sz \<le> class_size al i"
    unfolding div_le [OF pos, symmetric] by (simp add: q [symmetric] word_unat_eq_iff unat_div unat_mod)
  show ?case
  proof (cases "unat sz \<le> class_size al i")
    case True
    then have "slab_index_loop (data_min_size al) sz i (Suc k) = Some (int i)" using c nz by (simp only: slab_index_loop.simps Let_def) simp
    then show ?thesis using True i Suc.prems(3) by blast
  next
    case False
    then have e: "slab_index_loop (data_min_size al) sz i (Suc k) = slab_index_loop (data_min_size al) sz (Suc i) k"
      using c nz by (simp only: slab_index_loop.simps Let_def) simp
    have "\<forall>j<Suc i. class_size al j < unat sz" using False Suc.prems(3) by (simp add: less_Suc_eq)
    then show ?thesis unfolding e using Suc.IH [of "Suc i"] Suc.prems(1,2) by simp
  qed
qed simp

lemma index_cases:
  assumes "config_ok al"
  shows "class_size al (classes al - 1) < unat sz \<Longrightarrow> slab_get_slab_index al sz = Some (-1)"
    "unat sz \<le> class_size al (classes al - 1) \<Longrightarrow> \<exists>i<classes al. slab_get_slab_index al sz = Some (int i) \<and> unat sz \<le> class_size al i \<and> (\<forall>j<i. class_size al j < unat sz)"
proof -
  have pos: "0 < classes al" using assms by (simp add: config_ok_def)
  note l = slab_index_loop_ok [OF assms, of 0 "classes al" sz]
  have s: "slab_get_slab_index al sz = slab_index_loop (data_min_size al) sz 0 (classes al)" by (simp add: slab_get_slab_index_def classes_def)
  show "slab_get_slab_index al sz = Some (-1)" if "class_size al (classes al - 1) < unat sz"
  proof -
    have "\<not> unat sz \<le> class_size al c" if "c < classes al" for c
    proof -
      have "class_size al c \<le> class_size al (classes al - 1)" by (rule class_size_mono) (use that in simp)
      then show ?thesis using \<open>class_size al (classes al - 1) < unat sz\<close> by simp
    qed
    then show ?thesis using l unfolding s by auto
  qed
  show "\<exists>i<classes al. slab_get_slab_index al sz = Some (int i) \<and> unat sz \<le> class_size al i \<and> (\<forall>j<i. class_size al j < unat sz)"
    if "unat sz \<le> class_size al (classes al - 1)"
    using l pos that unfolding s by (metis add_0 diff_less less_numeral_extra(1) linorder_not_less not_less_zero)
qed

lemma index_class:
  assumes "config_ok al" "i < classes al" "unat sz = class_size al i"
  shows "slab_get_slab_index al sz = Some (int i)"
proof -
  have "unat sz \<le> class_size al (classes al - 1)" using assms(2,3) class_size_mono [of i "classes al - 1" al] by simp
  then obtain c where c: "c < classes al" "slab_get_slab_index al sz = Some (int c)" "unat sz \<le> class_size al c" "\<forall>j<c. class_size al j < unat sz"
    using index_cases(2) [OF assms(1)] by blast
  have "\<not> c < i" using c(3) assms(3) class_size_less [OF assms(1), of c i] by auto
  moreover have "\<not> i < c" using c(4) assms(3) by auto
  ultimately have "c = i" by simp
  then show ?thesis using c(2) by simp
qed

lemma real_size:
  assumes "config_ok al" "i < classes al" "slab_get_slab_index al sz = Some (int i)"
  shows "\<exists>w. mempool_get_real_alloc_mem_size al sz = Some w \<and> unat w = class_size al i"
proof -
  have "unat (slab_array_max_num al) < 2 ^ LENGTH(32)" by (rule unsigned_less)
  then have "i < 2 ^ 32" using assms(2) by (simp add: classes_def)
  then have "unat (of_int (int i) :: u32) = i" by (simp add: unat_of_nat)
  then show ?thesis using assms(3) class_word [OF assms(1,2)] by (simp add: mempool_get_real_alloc_mem_size_def)
qed

subsection \<open>Blocks and cells\<close>

definition apart :: "nat \<times> nat \<Rightarrow> nat \<times> nat \<Rightarrow> bool" where
  "apart x y \<longleftrightarrow> fst x + snd x \<le> fst y \<or> fst y + snd y \<le> fst x"

definition heap_ok :: "(nat \<times> nat) list \<Rightarrow> bool" where
  "heap_ok bs \<longleftrightarrow> distinct (map fst bs) \<and> (\<forall>x \<in> set bs. 0 < fst x) \<and> (\<forall>x \<in> set bs. \<forall>y \<in> set bs. x \<noteq> y \<longrightarrow> apart x y)"

text \<open>What \<open>malloc\<close> promises: a null pointer or a block at an address of its own that overlaps no live block.\<close>

definition malloc_ok :: "libc \<Rightarrow> bool" where
  "malloc_ok E \<longleftrightarrow> (\<forall>c bs n. heap_ok bs \<longrightarrow> libc_malloc E c bs n \<noteq> 0 \<longrightarrow>
     (\<forall>x \<in> set bs. fst x \<noteq> libc_malloc E c bs n \<and> apart (libc_malloc E c bs n, n) x))"

text \<open>The size of a slab with its header, and the block of a pool.\<close>

definition extent :: "allocator \<Rightarrow> nat \<Rightarrow> nat" where
  "extent al a = unat (sl_size (the (ca_slab al a))) + SLAB"

definition pool_start :: "allocator \<Rightarrow> nat \<Rightarrow> nat" where
  "pool_start al p = mp_start (the (ca_mempool al p))"

definition pool_depth :: "allocator \<Rightarrow> nat \<Rightarrow> nat" where
  "pool_depth al p = nat (mp_depth (the (ca_mempool al p)))"

definition pool_ok :: "allocator \<Rightarrow> nat \<Rightarrow> bool" where
  "pool_ok al p \<longleftrightarrow> (\<exists>mp. ca_mempool al p = Some mp \<and> mp_size mp = int (pool_capacity al) \<and> 0 \<le> mp_depth mp \<and> mp_depth mp \<le> int (pool_capacity al))"

definition slab_at :: "allocator \<Rightarrow> nat \<Rightarrow> nat \<Rightarrow> bool \<Rightarrow> bool" where
  "slab_at al i a used \<longleftrightarrow> (\<exists>s. ca_slab al a = Some s \<and> unat (sl_size s) = class_size al i \<and> (sl_stat_flag s \<noteq> 0) = used)"

definition placed :: "allocator \<Rightarrow> nat list \<Rightarrow> nat \<Rightarrow> bool" where
  "placed al P a \<longleftrightarrow> (\<exists>p \<in> set P. pool_start al p \<le> a \<and> a + extent al a + pool_depth al p \<le> pool_start al p + pool_capacity al)"

definition huge_at :: "allocator \<Rightarrow> nat \<Rightarrow> bool" where
  "huge_at al a \<longleftrightarrow> (\<exists>s. ca_slab al a = Some s \<and> class_size al (classes al - 1) < unat (sl_size s) \<and> sl_stat_flag s \<noteq> 0)"

definition pool_blocks :: "allocator \<Rightarrow> nat list \<Rightarrow> (nat \<times> nat) list" where
  "pool_blocks al P = concat (map (\<lambda>p. [(p, MEMPOOL), (pool_start al p, pool_capacity al)]) P)"

definition slab_owned :: "allocator \<Rightarrow> nat list \<Rightarrow> nat list \<Rightarrow> nat list \<Rightarrow> (nat \<times> nat) list" where
  "slab_owned al hs H P = map (\<lambda>h. (h, HEAD)) hs @ pool_blocks al P @ map (\<lambda>a. (a, extent al a)) H"

text \<open>The cells that are free (\<open>F\<close>) and in use (\<open>U\<close>), by class.\<close>

definition cells :: "allocator \<Rightarrow> (nat \<Rightarrow> nat set) \<Rightarrow> (nat \<Rightarrow> nat set) \<Rightarrow> nat set" where
  "cells al F U = {a. \<exists>i<classes al. a \<in> F i \<union> U i}"

definition content :: "allocator \<Rightarrow> nat list \<Rightarrow> (nat \<Rightarrow> nat set) \<Rightarrow> (nat \<Rightarrow> nat set) \<Rightarrow> nat list \<Rightarrow> nat list \<Rightarrow> (nat \<times> nat) list \<Rightarrow> bool" where
  "content al hs F U H P B \<longleftrightarrow>
     mset (ca_blocks al) = mset (slab_owned al hs H P @ B) \<and> heap_ok (ca_blocks al) \<and> (\<forall>h \<in> set hs. ca_count al h \<noteq> None) \<and>
     (\<forall>p \<in> set P. pool_ok al p) \<and>
     (\<forall>i<classes al. (\<forall>a \<in> F i. slab_at al i a False) \<and> (\<forall>a \<in> U i. slab_at al i a True)) \<and>
     (\<forall>a \<in> cells al F U. placed al P a) \<and>
     (\<forall>a \<in> cells al F U. \<forall>b \<in> cells al F U. a \<noteq> b \<longrightarrow> apart (a, extent al a) (b, extent al b)) \<and> (\<forall>a \<in> set H. huge_at al a)"

definition same_limits :: "allocator \<Rightarrow> allocator \<Rightarrow> bool" where
  "same_limits al' al \<longleftrightarrow> slab_array_max_num al' = slab_array_max_num al \<and> data_min_size al' = data_min_size al \<and>
     mempool_capacity al' = mempool_capacity al"

lemma same_limitsD:
  assumes "same_limits al' al"
  shows "classes al' = classes al" "class_size al' i = class_size al i" "pool_capacity al' = pool_capacity al" "config_ok al' = config_ok al"
    "cells al' F U = cells al F U"
  using assms by (simp_all add: same_limits_def classes_def class_size_def pool_capacity_def config_ok_def cells_def fun_eq_iff)

lemma contentD:
  assumes "content al hs F U H P B"
  shows "mset (ca_blocks al) = mset (slab_owned al hs H P @ B)" "heap_ok (ca_blocks al)" "\<And>h. h \<in> set hs \<Longrightarrow> ca_count al h \<noteq> None"
    "\<And>p. p \<in> set P \<Longrightarrow> pool_ok al p" "\<And>i a. i < classes al \<Longrightarrow> a \<in> F i \<Longrightarrow> slab_at al i a False"
    "\<And>i a. i < classes al \<Longrightarrow> a \<in> U i \<Longrightarrow> slab_at al i a True" "\<And>a. a \<in> cells al F U \<Longrightarrow> placed al P a"
    "\<And>a b. a \<in> cells al F U \<Longrightarrow> b \<in> cells al F U \<Longrightarrow> a \<noteq> b \<Longrightarrow> apart (a, extent al a) (b, extent al b)"
    "\<And>a. a \<in> set H \<Longrightarrow> huge_at al a"
  using assms unfolding content_def by blast+

lemma content_frame:
  assumes c: "content al hs F U H P B" and s: "same_limits al' al" and p: "\<And>p. p \<in> set P \<Longrightarrow> ca_mempool al' p = ca_mempool al p"
    and a: "\<And>a. a \<in> set H \<union> cells al F U \<Longrightarrow> ca_slab al' a = ca_slab al a" and h: "\<And>h. h \<in> set hs \<Longrightarrow> ca_count al' h \<noteq> None"
    and b: "mset (ca_blocks al') = mset (slab_owned al hs H P @ B')" "heap_ok (ca_blocks al')"
  shows "content al' hs F U H P B'"
proof -
  note sc = same_limitsD [OF s]
  have ext: "extent al' x = extent al x" if "x \<in> set H \<union> cells al F U" for x using a [OF that] by (simp add: extent_def)
  have ps: "pool_start al' q = pool_start al q" "pool_depth al' q = pool_depth al q" "pool_ok al' q = pool_ok al q" if "q \<in> set P" for q
    using p [OF that] sc(3) by (simp_all add: pool_start_def pool_depth_def pool_ok_def)
  have pb: "pool_blocks al' P = pool_blocks al P" using ps(1) sc(3) unfolding pool_blocks_def by (intro arg_cong [where f = concat] map_cong) simp_all
  have "slab_owned al' hs H P = slab_owned al hs H P" using pb ext by (simp add: slab_owned_def)
  then have "mset (ca_blocks al') = mset (slab_owned al' hs H P @ B')" using b(1) by simp
  moreover have "\<forall>i<classes al'. (\<forall>x \<in> F i. slab_at al' i x False) \<and> (\<forall>x \<in> U i. slab_at al' i x True)"
  proof (intro allI impI conjI ballI)
    fix i x assume i: "i < classes al'"
    have "slab_at al' i x f = slab_at al i x f" if "x \<in> cells al F U" for f using a [of x] that sc(2) by (simp add: slab_at_def)
    moreover have "x \<in> cells al F U" if "x \<in> F i \<or> x \<in> U i" using that i sc(1) unfolding cells_def by auto
    ultimately show "x \<in> F i \<Longrightarrow> slab_at al' i x False" "x \<in> U i \<Longrightarrow> slab_at al' i x True" using contentD(5,6) [OF c, of i x] i sc(1) by simp_all
  qed
  moreover have "placed al' P x" if "x \<in> cells al' F U" for x
    using contentD(7) [OF c, of x] that ext [of x] ps(1,2) sc(3,5) by (auto simp: placed_def)
  moreover have "apart (x, extent al' x) (y, extent al' y)" if "x \<in> cells al' F U" "y \<in> cells al' F U" "x \<noteq> y" for x y
    using contentD(8) [OF c, of x y] that ext sc(5) by simp
  moreover have "huge_at al' x" if "x \<in> set H" for x using contentD(9) [OF c that] a [of x] that sc(1,2) by (simp add: huge_at_def)
  ultimately show ?thesis using h ps(3) contentD(4) [OF c] b(2) unfolding content_def by blast
qed

text \<open>Every structure of the allocator lies in a block of its own.\<close>

lemma content_home:
  assumes c: "content al hs F U H P B" and x: "x \<in> set hs \<union> set P \<union> set H \<union> cells al F U"
  shows "\<exists>b k. (b, k) \<in> set (slab_owned al hs H P) \<and> b \<le> x \<and> x < b + k"
proof -
  consider "x \<in> set hs" | "x \<in> set P" | "x \<in> set H" | "x \<in> cells al F U" using x by blast
  then show ?thesis
  proof cases
    case 1
    then have "(x, HEAD) \<in> set (slab_owned al hs H P)" by (simp add: slab_owned_def)
    then show ?thesis by (intro exI [of _ x] exI [of _ HEAD]) simp
  next
    case 2
    then have "(x, MEMPOOL) \<in> set (slab_owned al hs H P)" by (auto simp: slab_owned_def pool_blocks_def)
    then show ?thesis by (intro exI [of _ x] exI [of _ MEMPOOL]) simp
  next
    case 3
    then have "(x, extent al x) \<in> set (slab_owned al hs H P)" by (auto simp: slab_owned_def)
    then show ?thesis by (intro exI [of _ x] exI [of _ "extent al x"]) (simp add: extent_def)
  next
    case 4
    then obtain p where p: "p \<in> set P" "pool_start al p \<le> x" "x + extent al x + pool_depth al p \<le> pool_start al p + pool_capacity al"
      using contentD(7) [OF c] unfolding placed_def by blast
    then have "(pool_start al p, pool_capacity al) \<in> set (slab_owned al hs H P)" by (auto simp: slab_owned_def pool_blocks_def)
    then show ?thesis using p(2,3) by (intro exI [of _ "pool_start al p"] exI [of _ "pool_capacity al"]) (simp add: extent_def)
  qed
qed

lemma content_blocks:
  assumes c: "content al hs F U H P B"
  shows "distinct (map fst (slab_owned al hs H P @ B))" "set (ca_blocks al) = set (slab_owned al hs H P @ B)"
    "\<And>x y. x \<in> set (slab_owned al hs H P @ B) \<Longrightarrow> y \<in> set (slab_owned al hs H P @ B) \<Longrightarrow> fst x \<noteq> fst y \<Longrightarrow> apart x y"
    "\<And>x. x \<in> set (slab_owned al hs H P @ B) \<Longrightarrow> 0 < fst x"
proof -
  note m = contentD(1) [OF c]
  show s: "set (ca_blocks al) = set (slab_owned al hs H P @ B)" by (rule mset_eq_setD [OF m])
  have "mset (map fst (ca_blocks al)) = mset (map fst (slab_owned al hs H P @ B))" using m by (metis mset_map)
  then show "distinct (map fst (slab_owned al hs H P @ B))" using contentD(2) [OF c] unfolding heap_ok_def by (metis mset_eq_imp_distinct_iff)
  show "apart x y" if "x \<in> set (slab_owned al hs H P @ B)" "y \<in> set (slab_owned al hs H P @ B)" "fst x \<noteq> fst y" for x y
  proof -
    have "x \<noteq> y" using that(3) by blast
    then show ?thesis using that(1,2) contentD(2) [OF c] unfolding heap_ok_def s by blast
  qed
  show "0 < fst x" if "x \<in> set (slab_owned al hs H P @ B)" for x using that contentD(2) [OF c] unfolding heap_ok_def s by blast
qed

text \<open>No structure of the allocator lies in one of the other blocks.\<close>

lemma content_outside:
  assumes c: "content al hs F U H P B" and x: "x \<in> set hs \<union> set P \<union> set H \<union> cells al F U" and a: "(a, n) \<in> set B"
  shows "\<not> (a \<le> x \<and> x < a + n)"
proof -
  obtain b k where b: "(b, k) \<in> set (slab_owned al hs H P)" "b \<le> x" "x < b + k" using content_home [OF c x] by blast
  have "b \<in> fst ` set (slab_owned al hs H P)" "a \<in> fst ` set B" using b(1) a by force+
  then have "b \<noteq> a" using content_blocks(1) [OF c] by auto
  then have "apart (b, k) (a, n)" using content_blocks(3) [OF c, of "(b, k)" "(a, n)"] b(1) a by simp
  then show ?thesis using b(2,3) by (auto simp: apart_def)
qed

subsection \<open>The invariant\<close>

definition lists_ok :: "allocator \<Rightarrow> (nat \<rightharpoonup> nat list) \<Rightarrow> bool" where
  "lists_ok al R \<longleftrightarrow> rings (ca_links al) R \<and> (\<forall>h xs. R h = Some xs \<longrightarrow> ca_count al h = Some (of_nat (length xs)))"

definition inv :: "allocator \<Rightarrow> (nat \<rightharpoonup> nat list) \<Rightarrow> nat list \<Rightarrow> (nat \<Rightarrow> nat set) \<Rightarrow> (nat \<Rightarrow> nat set) \<Rightarrow> nat list \<Rightarrow> nat list \<Rightarrow>
    (nat \<times> nat) list \<Rightarrow> bool" where
  "inv al R hs F U H P B \<longleftrightarrow> config_ok al \<and> lists_ok al R \<and> content al hs F U H P B \<and>
     ring_nodes R \<subseteq> set hs \<union> set P \<union> set H \<union> cells al F U"

lemma invD:
  assumes "inv al R hs F U H P B"
  shows "config_ok al" "lists_ok al R" "content al hs F U H P B" "ring_nodes R \<subseteq> set hs \<union> set P \<union> set H \<union> cells al F U"
  using assms by (simp_all add: inv_def)

lemma malloc_inv:
  assumes m: "malloc_ok E" and i: "inv al R hs F U H P B" and p: "sys_malloc E al n = (p, al1)"
  shows "inv al1 R hs F U H P (if p = 0 then B else (p, n) # B)"
    "\<exists>c. al1 = al\<lparr>ca_calls := c, ca_blocks := (if p = 0 then ca_blocks al else (p, n) # ca_blocks al)\<rparr>"
proof -
  note c = invD(3) [OF i]
  have al1: "al1 = al\<lparr>ca_calls := ca_calls al + 1, ca_blocks := (if p = 0 then ca_blocks al else (p, n) # ca_blocks al)\<rparr>"
    "p = libc_malloc E (ca_calls al) (ca_blocks al) n"
    using p by (auto simp: sys_malloc_def Let_def split: if_splits)
  then show "\<exists>c. al1 = al\<lparr>ca_calls := c, ca_blocks := (if p = 0 then ca_blocks al else (p, n) # ca_blocks al)\<rparr>" by blast
  have s: "same_limits al1 al" by (simp add: same_limits_def al1(1))
  have h: "heap_ok (ca_blocks al1)"
  proof (cases "p = 0")
    case True
    then show ?thesis using contentD(2) [OF c] by (simp add: al1(1))
  next
    case False
    then have f: "\<forall>x \<in> set (ca_blocks al). fst x \<noteq> p \<and> apart (p, n) x"
      using m contentD(2) [OF c] unfolding malloc_ok_def al1(2) by blast
    moreover have "apart x (p, n)" if "x \<in> set (ca_blocks al)" for x using f that by (auto simp: apart_def)
    moreover have "p \<notin> fst ` set (ca_blocks al)" using f by auto
    ultimately show ?thesis using contentD(2) [OF c] False unfolding heap_ok_def by (simp add: al1(1))
  qed
  have "content al1 hs F U H P (if p = 0 then B else (p, n) # B)"
    by (rule content_frame [OF c s _ _ _ _ h]) (use contentD(1,3) [OF c] in \<open>auto simp: al1(1)\<close>)
  then show "inv al1 R hs F U H P (if p = 0 then B else (p, n) # B)"
    using invD(1,2,4) [OF i] same_limitsD(4,5) [OF s] by (simp add: inv_def lists_ok_def al1(1))
qed

lemma inv_outside: "inv al R hs F U H P B \<Longrightarrow> (a, n) \<in> set B \<Longrightarrow> x \<in> ring_nodes R \<Longrightarrow> \<not> (a \<le> x \<and> x < a + n)"
  using content_outside [OF invD(3)] invD(4) by blast

definition released :: "allocator \<Rightarrow> nat \<Rightarrow> nat \<Rightarrow> allocator" where
  "released al a n = al\<lparr>ca_blocks := remove1 (a, n) (ca_blocks al),
     ca_links := (ca_links al)\<lparr>l_next := kill (l_next (ca_links al)) a n, l_prev := kill (l_prev (ca_links al)) a n\<rparr>,
     ca_count := kill (ca_count al) a n, ca_mempool := kill (ca_mempool al) a n, ca_slab := kill (ca_slab al) a n\<rparr>"

lemma heap_ok_remove1: "heap_ok bs \<Longrightarrow> heap_ok (remove1 x bs)"
proof -
  assume h: "heap_ok bs"
  then have d: "distinct bs" unfolding heap_ok_def by (metis distinct_map)
  have "distinct (map fst (remove1 x bs))"
    using h d unfolding heap_ok_def by (metis distinct_map distinct_remove1 inj_on_diff set_remove1_eq)
  then show ?thesis using h set_remove1_subset [of x bs] unfolding heap_ok_def by blast
qed

lemma free_inv:
  assumes i: "inv al R hs F U H P B" and a: "(a, n) \<in> set B"
  shows "sys_free al a = Some (released al a n)" "inv (released al a n) R hs F U H P (remove1 (a, n) B)"
proof -
  note c = invD(3) [OF i]
  let ?al = "released al a n"
  have mem: "(a, n) \<in> set (ca_blocks al)" using a content_blocks(2) [OF c] by simp
  have "0 < a" using content_blocks(4) [OF c, of "(a, n)"] a by simp
  moreover have "map_of (ca_blocks al) a = Some n" using mem contentD(2) [OF c] by (simp add: heap_ok_def)
  ultimately show "sys_free al a = Some ?al" by (simp add: sys_free_def released_def)
  have s: "same_limits ?al al" by (simp add: same_limits_def released_def)
  have "content ?al hs F U H P (remove1 (a, n) B)"
  proof (rule content_frame [OF c s])
    show "ca_mempool ?al p = ca_mempool al p" if "p \<in> set P" for p
      using content_outside [OF c _ a, of p] that by (auto simp: released_def kill_def)
    show "ca_slab ?al x = ca_slab al x" if "x \<in> set H \<union> cells al F U" for x
      using content_outside [OF c _ a, of x] that by (auto simp: released_def kill_def)
    show "ca_count ?al h \<noteq> None" if "h \<in> set hs" for h
      using content_outside [OF c _ a, of h] contentD(3) [OF c that] that by (simp add: released_def kill_def)
    show "mset (ca_blocks ?al) = mset (slab_owned al hs H P @ remove1 (a, n) B)"
      using contentD(1) [OF c] mem a by (simp add: released_def)
    show "heap_ok (ca_blocks ?al)" using heap_ok_remove1 [OF contentD(2) [OF c]] by (simp add: released_def)
  qed
  moreover have "lists_ok ?al R"
    unfolding lists_ok_def
  proof (intro conjI allI impI)
    have "rings (ca_links al) R" using invD(2) [OF i] by (simp add: lists_ok_def)
    then show "rings (ca_links ?al) R"
      by (rule rings_frame) (use inv_outside [OF i a] in \<open>auto simp: released_def kill_def\<close>)
    show "ca_count ?al h = Some (of_nat (length xs))" if "R h = Some xs" for h xs
      using inv_outside [OF i a, of h] ring_nodesI [of R h xs h] that invD(2) [OF i] by (simp add: lists_ok_def released_def kill_def)
  qed
  ultimately show "inv ?al R hs F U H P (remove1 (a, n) B)"
    using invD(1,4) [OF i] same_limitsD(4,5) [OF s] by (simp add: inv_def)
qed

lemma released_fields [simp]:
  "ca_self (released al a n) = ca_self al" "ca_type (released al a n) = ca_type al" "ca_alloc_count (released al a n) = ca_alloc_count al"
  "slab_array_max_num (released al a n) = slab_array_max_num al" "mempool_capacity (released al a n) = mempool_capacity al"
  "data_min_size (released al a n) = data_min_size al" "ca_empty (released al a n) = ca_empty al" "ca_pool (released al a n) = ca_pool al"
  "ca_huge (released al a n) = ca_huge al" "ca_free_p (released al a n) = ca_free_p al" "ca_free (released al a n) = ca_free al"
  "ca_used_p (released al a n) = ca_used_p al" "ca_used (released al a n) = ca_used al"
  by (simp_all add: released_def)

text \<open>Linking in and out.\<close>

lemma attach_ok:
  assumes l: "lists_ok al R" and h: "R h = Some xs" and n: "n \<notin> ring_nodes R" "l_next (ca_links al) n \<noteq> None" "l_prev (ca_links al) n \<noteq> None"
  shows "\<exists>l c. slab_attach_list al n h = Some (al\<lparr>ca_links := l, ca_count := c\<rparr>) \<and> lists_ok (al\<lparr>ca_links := l, ca_count := c\<rparr>) (R(h \<mapsto> n # xs)) \<and>
    (\<forall>x. c x = None \<longleftrightarrow> ca_count al x = None)"
proof -
  have r: "rings (ca_links al) R" "ca_count al h = Some (of_nat (length xs))" using l h by (auto simp: lists_ok_def)
  obtain l' where l': "list_add_after (ca_links al) n h = Some l'" "rings l' (R(h \<mapsto> n # xs))"
    using ring_add [OF r(1) h n(1)] n(2,3) by blast
  let ?c = "(ca_count al)(h \<mapsto> of_nat (length (n # xs)))"
  have "slab_attach_list al n h = Some (al\<lparr>ca_links := l', ca_count := ?c\<rparr>)" using r(2) l'(1) by (simp add: slab_attach_list_def add.commute)
  moreover have "lists_ok (al\<lparr>ca_links := l', ca_count := ?c\<rparr>) (R(h \<mapsto> n # xs))" using l'(2) l by (simp add: lists_ok_def)
  moreover have "\<forall>x. ?c x = None \<longleftrightarrow> ca_count al x = None" using r(2) by simp
  ultimately show ?thesis by blast
qed

lemma detach_ok:
  assumes l: "lists_ok al R" and h: "R h = Some (xs @ e # ys)"
  shows "\<exists>l c. slab_detach_list al e h = Some (al\<lparr>ca_links := l, ca_count := c\<rparr>) \<and> lists_ok (al\<lparr>ca_links := l, ca_count := c\<rparr>) (R(h \<mapsto> xs @ ys)) \<and>
    (\<forall>x. c x = None \<longleftrightarrow> ca_count al x = None) \<and> l_next l e \<noteq> None \<and> l_prev l e \<noteq> None \<and> list_del (ca_links al) e = Some l \<and>
    c = (ca_count al)(h \<mapsto> of_nat (length (xs @ ys)))"
proof -
  have r: "rings (ca_links al) R" "ca_count al h = Some (of_nat (length (xs @ e # ys)))" using l h by (auto simp: lists_ok_def)
  obtain l' where l': "list_del (ca_links al) e = Some l'" "rings l' (R(h \<mapsto> xs @ ys))" "dom (l_next l') = dom (l_next (ca_links al))"
      "dom (l_prev l') = dom (l_prev (ca_links al))"
    using ring_del [OF r(1) h] by blast
  let ?c = "(ca_count al)(h \<mapsto> of_nat (length (xs @ ys)))"
  have "e \<in> ring_nodes R" using ring_nodesI [of R h "xs @ e # ys" e] h by simp
  then have "l_next l' e \<noteq> None" "l_prev l' e \<noteq> None" using rings_dom [OF r(1)] l'(3,4) by blast+
  moreover have "slab_detach_list al e h = Some (al\<lparr>ca_links := l', ca_count := ?c\<rparr>)" using r(2) l'(1) by (simp add: slab_detach_list_def)
  moreover have "lists_ok (al\<lparr>ca_links := l', ca_count := ?c\<rparr>) (R(h \<mapsto> xs @ ys))" using l'(2) l by (simp add: lists_ok_def)
  moreover have "\<forall>x. ?c x = None \<longleftrightarrow> ca_count al x = None" using r(2) by simp
  ultimately show ?thesis using l'(1) by blast
qed

lemma mempool_list_eq: "mempool_attach_list = slab_attach_list" "mempool_detach_list = slab_detach_list"
  by (simp_all add: fun_eq_iff mempool_attach_list_def slab_attach_list_def mempool_detach_list_def slab_detach_list_def)

lemma content_links: "content al hs F U H P B \<Longrightarrow> (\<And>x. c x = None \<longleftrightarrow> ca_count al x = None) \<Longrightarrow> content (al\<lparr>ca_links := l, ca_count := c\<rparr>) hs F U H P B"
  by (rule content_frame, assumption) (auto simp: same_limits_def dest: contentD)

subsection \<open>Changes of the content\<close>

lemma class_unique: "config_ok al \<Longrightarrow> slab_at al i a f \<Longrightarrow> slab_at al j a g \<Longrightarrow> i = j \<and> f = g"
  unfolding slab_at_def using class_size_eq by fastforce

lemma huge_not_cell: "config_ok al \<Longrightarrow> i < classes al \<Longrightarrow> slab_at al i a f \<Longrightarrow> \<not> huge_at al a"
proof
  assume c: "config_ok al" "i < classes al" "slab_at al i a f" "huge_at al a"
  then have "class_size al i \<le> class_size al (classes al - 1)" by (intro class_size_mono) simp
  then show False using c(3,4) by (auto simp: slab_at_def huge_at_def)
qed

text \<open>The flag of a cell is set to \<open>v\<close>.\<close>

lemma content_restat:
  assumes k: "config_ok al" and c: "content al hs F U H P B" and s: "ca_slab al a = Some s" and i: "i < classes al" "a \<in> F i \<union> U i"
  shows "content (al\<lparr>ca_slab := (ca_slab al)(a \<mapsto> s\<lparr>sl_stat_flag := v\<rparr>)\<rparr>) hs
    (F(i := if v = 0 then insert a (F i) else F i - {a})) (U(i := if v = 0 then U i - {a} else insert a (U i))) H P B"
    (is "content ?al hs ?F ?U H P B")
proof -
  have at: "\<exists>f. slab_at al i a f" using i contentD(5,6) [OF c] by blast
  have sc: "same_limits ?al al" by (simp add: same_limits_def)
  note sd = same_limitsD [OF sc]
  have ext: "extent ?al x = extent al x" for x using s by (simp add: extent_def)
  have pools: "pool_start ?al q = pool_start al q" "pool_depth ?al q = pool_depth al q" "pool_ok ?al q = pool_ok al q" for q
    by (simp_all add: pool_start_def pool_depth_def pool_ok_def pool_capacity_def)
  have cells: "cells ?al ?F ?U = cells al F U"
  proof -
    have "(a' \<in> ?F j \<union> ?U j) \<longleftrightarrow> (a' \<in> F j \<union> U j)" for a' j using i(2) by auto
    then show ?thesis by (simp add: cells_def classes_def)
  qed
  have own: "slab_owned ?al hs H P = slab_owned al hs H P" by (simp add: slab_owned_def pool_blocks_def pools ext pool_capacity_def)
  have slab: "slab_at ?al j x f" if j: "j < classes al" "x \<in> (if f then ?U j else ?F j)" for j x f
  proof (cases "x = a")
    case True
    have "j = i"
    proof (rule ccontr)
      assume "j \<noteq> i"
      then have "a \<in> F j \<union> U j" using j True by (auto split: if_splits)
      then show False using at class_unique [OF k] contentD(5,6) [OF c j(1), of a] \<open>j \<noteq> i\<close> by blast
    qed
    moreover from this have "f = (v \<noteq> 0)" using j True by (auto split: if_splits)
    ultimately show ?thesis using at s True by (auto simp: slab_at_def class_size_def)
  next
    case False
    then have "x \<in> (if f then U j else F j)" using j by (auto split: if_splits)
    then have "slab_at al j x f" using contentD(5,6) [OF c j(1), of x] by (cases f) simp_all
    then show ?thesis using False by (simp add: slab_at_def class_size_def)
  qed
  have "slab_at ?al j x False" if "j < classes al" "x \<in> ?F j" for j x using slab [of j x False] that by simp
  moreover have "slab_at ?al j x True" if "j < classes al" "x \<in> ?U j" for j x using slab [of j x True] that by simp
  moreover have "huge_at ?al x" if "x \<in> set H" for x
  proof -
    have "x \<noteq> a" using contentD(9) [OF c that] at huge_not_cell [OF k i(1)] by blast
    then show ?thesis using contentD(9) [OF c that] by (simp add: huge_at_def sd)
  qed
  moreover have "placed ?al P x = placed al P x" for x by (simp add: placed_def pools ext sd(3))
  ultimately show ?thesis using own contentD(1-4,7,8) [OF c] sd(1) unfolding content_def cells ext pools by simp
qed

lemma pool_blocks_addresses: "p \<in> set P \<Longrightarrow> p \<in> fst ` set (pool_blocks al P) \<and> pool_start al p \<in> fst ` set (pool_blocks al P)"
  by (force simp: pool_blocks_def)

lemma pool_blocks_distinct:
  "distinct (map fst (pool_blocks al P)) \<Longrightarrow> p \<in> set P \<Longrightarrow> q \<in> set P \<Longrightarrow> p \<noteq> pool_start al q \<and> (p \<noteq> q \<longrightarrow> pool_start al p \<noteq> pool_start al q)"
proof (induction P)
  case (Cons x P)
  have b: "pool_blocks al (x # P) = [(x, MEMPOOL), (pool_start al x, pool_capacity al)] @ pool_blocks al P" by (simp add: pool_blocks_def)
  have d: "x \<noteq> pool_start al x" "x \<notin> fst ` set (pool_blocks al P)" "pool_start al x \<notin> fst ` set (pool_blocks al P)" "distinct (map fst (pool_blocks al P))"
    using Cons.prems(1) unfolding b by simp_all
  have "y \<noteq> x \<and> y \<noteq> pool_start al x \<and> pool_start al y \<noteq> x \<and> pool_start al y \<noteq> pool_start al x" if "y \<in> set P" for y
    using pool_blocks_addresses [OF that, of al] d(2,3) by metis
  then show ?case using Cons.IH [OF d(4)] Cons.prems(2,3) d(1) by (metis set_ConsD)
qed simp

text \<open>A cell is cut from the unused part of a pool.\<close>

lemma carve_fresh:
  assumes c: "content al hs F U H P B" and p: "p \<in> set P" and n: "SLAB \<le> n" "n \<le> pool_depth al p"
  defines "a \<equiv> pool_start al p + (pool_capacity al - pool_depth al p)"
  shows "a \<notin> set hs \<union> set P \<union> set H \<union> cells al F U" "\<And>x. x \<in> cells al F U \<Longrightarrow> apart (x, extent al x) (a, n)"
    "\<And>x. x \<in> set H \<Longrightarrow> apart (x, extent al x) (a, n)" "pool_start al p \<le> a" "a + pool_depth al p = pool_start al p + pool_capacity al"
proof -
  have "pool_depth al p \<le> pool_capacity al" using contentD(4) [OF c p] by (auto simp: pool_ok_def pool_depth_def)
  then show s: "pool_start al p \<le> a" "a + pool_depth al p = pool_start al p + pool_capacity al" by (simp_all add: a_def)
  have o: "(pool_start al p, pool_capacity al) \<in> set (slab_owned al hs H P)" using p by (auto simp: slab_owned_def pool_blocks_def)
  have d: "distinct (map fst (slab_owned al hs H P))" using content_blocks(1) [OF c] by simp
  have block: "apart (b, k) (pool_start al p, pool_capacity al)" if "(b, k) \<in> set (slab_owned al hs H P)" "b \<noteq> pool_start al p" for b k
    using content_blocks(3) [OF c, of "(b, k)" "(pool_start al p, pool_capacity al)"] that o by simp
  have sep: "apart (x, k) (a, n)" if "apart (b, m) (pool_start al p, pool_capacity al)" "b \<le> x" "x + k \<le> b + m" for b m x k
    using that s n by (auto simp: apart_def)
  have start: "pool_start al p \<in> fst ` set (pool_blocks al P)" using pool_blocks_addresses [OF p] by blast
  have other: "h \<noteq> pool_start al p" if "h \<in> set hs \<union> set H" for h using d that start by (auto simp: slab_owned_def)
  show huge: "apart (x, extent al x) (a, n)" if "x \<in> set H" for x
  proof -
    have "apart (x, extent al x) (pool_start al p, pool_capacity al)" by (rule block) (use that other in \<open>auto simp: slab_owned_def\<close>)
    then show ?thesis by (rule sep) simp_all
  qed
  have dp: "distinct (map fst (pool_blocks al P))" using d by (simp add: slab_owned_def)
  show cell: "apart (x, extent al x) (a, n)" if x: "x \<in> cells al F U" for x
  proof -
    obtain q where q: "q \<in> set P" "pool_start al q \<le> x" "x + extent al x + pool_depth al q \<le> pool_start al q + pool_capacity al"
      using contentD(7) [OF c x] unfolding placed_def by blast
    show ?thesis
    proof (cases "q = p")
      case True
      then show ?thesis using q(3) s(2) by (simp add: apart_def)
    next
      case False
      then have "pool_start al q \<noteq> pool_start al p" using pool_blocks_distinct [OF dp q(1) p] by blast
      then have "apart (pool_start al q, pool_capacity al) (pool_start al p, pool_capacity al)"
        by (intro block) (use q(1) in \<open>auto simp: slab_owned_def pool_blocks_def\<close>)
      then show ?thesis by (rule sep) (use q(2,3) in simp_all)
    qed
  qed
  have ne: "x \<noteq> a" if "apart (x, k) (a, n)" "0 < k" for x k using that n by (auto simp: apart_def)
  have "h \<noteq> a" if "h \<in> set hs" for h
  proof -
    have "apart (h, HEAD) (pool_start al p, pool_capacity al)" by (rule block) (use that other in \<open>auto simp: slab_owned_def\<close>)
    then have "apart (h, HEAD) (a, n)" by (rule sep) simp_all
    then show ?thesis by (rule ne) simp
  qed
  moreover have "q \<noteq> a" if "q \<in> set P" for q
  proof -
    have "apart (q, MEMPOOL) (pool_start al p, pool_capacity al)"
      by (rule block) (use that pool_blocks_distinct [OF dp that p] in \<open>auto simp: slab_owned_def pool_blocks_def\<close>)
    then have "apart (q, MEMPOOL) (a, n)" by (rule sep) simp_all
    then show ?thesis by (rule ne) simp
  qed
  moreover have "x \<noteq> a" if "x \<in> set H \<union> cells al F U" for x using that ne [of x "extent al x"] huge cell by (auto simp: extent_def)
  ultimately show "a \<notin> set hs \<union> set P \<union> set H \<union> cells al F U" by blast
qed

lemma content_carve:
  assumes k: "config_ok al" and c: "content al hs F U H P B" and p: "p \<in> set P" and mp: "ca_mempool al p = Some mp" and i: "i < classes al"
    and n: "class_size al i + SLAB \<le> pool_depth al p" and s: "unat (sl_size s) = class_size al i" "sl_stat_flag s \<noteq> 0"
  defines "a \<equiv> pool_start al p + (pool_capacity al - pool_depth al p)"
  defines "al' \<equiv> al\<lparr>ca_slab := (ca_slab al)(a \<mapsto> s), ca_mempool := (ca_mempool al)(p \<mapsto> mp\<lparr>mp_depth := mp_depth mp - int (class_size al i + SLAB)\<rparr>)\<rparr>"
  shows "content al' hs F (U(i := insert a (U i))) H P B" "a \<notin> set hs \<union> set P \<union> set H \<union> cells al F U" "0 < a"
proof -
  let ?n = "class_size al i + SLAB" and ?U = "U(i := insert a (U i))"
  note f = carve_fresh [OF c p _ n, folded a_def]
  show a: "a \<notin> set hs \<union> set P \<union> set H \<union> cells al F U" using f(1) by simp
  have sc: "same_limits al' al" by (simp add: same_limits_def al'_def)
  note sd = same_limitsD [OF sc]
  have mp': "pool_start al p = mp_start mp" "int (pool_depth al p) = mp_depth mp" "mp_size mp = int (pool_capacity al)" "mp_depth mp \<le> int (pool_capacity al)"
    using contentD(4) [OF c p] mp by (auto simp: pool_ok_def pool_start_def pool_depth_def)
  have ps: "pool_start al' q = pool_start al q" for q using mp by (simp add: pool_start_def al'_def)
  have pd: "pool_depth al' q \<le> pool_depth al q" "pool_depth al' p = pool_depth al p - ?n" for q
    using mp mp'(2) n by (auto simp: pool_depth_def al'_def)
  have pk: "pool_ok al' q" if "q \<in> set P" for q
    using contentD(4) [OF c that] mp mp' n sd(3) by (auto simp: pool_ok_def al'_def)
  have cells: "cells al' F ?U = insert a (cells al F U)" using i by (auto simp: cells_def sd(1))
  have ext: "extent al' x = extent al x" if "x \<noteq> a" for x using that by (simp add: extent_def al'_def)
  have exta: "extent al' a = ?n" using s(1) by (simp add: extent_def al'_def)
  have extH: "extent al' x = extent al x" if "x \<in> set H" for x by (rule ext) (use a that in blast)
  have "slab_owned al' hs H P = slab_owned al hs H P" using extH by (simp add: slab_owned_def pool_blocks_def ps sd(3))
  moreover have "slab_at al' j x g" if "slab_at al j x g" "x \<noteq> a" for j x g using that by (simp add: slab_at_def sd(2)) (simp add: al'_def)
  then have "\<forall>j<classes al'. (\<forall>x \<in> F j. slab_at al' j x False) \<and> (\<forall>x \<in> ?U j. slab_at al' j x True)"
    using contentD(5,6) [OF c] a s by (auto simp: sd(1) cells_def) (auto simp: slab_at_def sd(2) al'_def class_size_def)
  moreover have "placed al' P x" if "x \<in> cells al' F ?U" for x
  proof (cases "x = a")
    case True
    then show ?thesis using p f(4,5) n by (auto simp: placed_def ps pd(2) sd(3) exta intro!: bexI [of _ p])
  next
    case False
    then have "x \<in> cells al F U" using that cells by simp
    then obtain q where "q \<in> set P" "pool_start al q \<le> x" "x + extent al x + pool_depth al q \<le> pool_start al q + pool_capacity al"
      using contentD(7) [OF c] unfolding placed_def by blast
    then show ?thesis using pd(1) [of q] ext [OF False] unfolding placed_def ps sd(3) by (intro bexI [of _ q]) linarith+
  qed
  moreover have "apart (x, extent al' x) (y, extent al' y)" if xy: "x \<in> cells al' F ?U" "y \<in> cells al' F ?U" "x \<noteq> y" for x y
  proof -
    have old: "apart (z, extent al z) (a, ?n)" if "z \<in> cells al F U" for z using f(2) [of z] that by simp
    have sym: "apart u v" if "apart v u" for u v using that by (auto simp: apart_def)
    show ?thesis
      using xy cells ext exta contentD(8) [OF c, of x y] old [of x] sym [OF old [of y]] by (cases "x = a"; cases "y = a") auto
  qed
  moreover have "huge_at al' x" if "x \<in> set H" for x
    using contentD(9) [OF c that] a that by (auto simp: huge_at_def sd(1,2)) (auto simp: al'_def)
  moreover have "ca_blocks al' = ca_blocks al" "ca_count al' = ca_count al" by (simp_all add: al'_def)
  ultimately show "content al' hs F ?U H P B" using contentD(1-3) [OF c] pk unfolding content_def by simp
  have "pool_start al p \<in> fst ` set (slab_owned al hs H P @ B)" using pool_blocks_addresses [OF p, of al] by (auto simp: slab_owned_def)
  then show "0 < a" using content_blocks(4) [OF c] f(4) by fastforce
qed

text \<open>Blocks change their owner.\<close>

lemma content_owner:
  assumes c: "content al hs F U H P B" and o: "mset (slab_owned al hs' H' P' @ B') = mset (slab_owned al hs H P @ B)"
    and h: "\<And>h. h \<in> set hs' \<Longrightarrow> ca_count al h \<noteq> None" and p: "\<And>p. p \<in> set P' \<Longrightarrow> pool_ok al p"
    and a: "\<And>a. a \<in> set H' \<Longrightarrow> huge_at al a" and f: "(set P \<subseteq> set P' \<and> F' = F \<and> U' = U) \<or> cells al F' U' = {}"
  shows "content al hs' F' U' H' P' B'"
proof -
  have pl: "placed al P' x" if "placed al P x" "set P \<subseteq> set P'" for x using that by (auto simp: placed_def)
  show ?thesis
  proof (cases "cells al F' U' = {}")
    case True
    then have "\<forall>i<classes al. F' i = {} \<and> U' i = {}" by (auto simp: cells_def)
    then show ?thesis using contentD(1,2) [OF c] o h p a True unfolding content_def by simp
  next
    case False
    then show ?thesis using c f pl o h p a unfolding content_def by simp
  qed
qed

lemma content_adopt_pool:
  assumes c: "content al hs F U H P ((q, pool_capacity al) # (p, MEMPOOL) # B)" and mp: "mp_start mp = q" "mp_depth mp = int (pool_capacity al)" "mp_size mp = int (pool_capacity al)"
  defines "al' \<equiv> al\<lparr>ca_mempool := (ca_mempool al)(p \<mapsto> mp)\<rparr>"
  shows "content al' hs F U H (p # P) B" "p \<notin> set hs \<union> set P \<union> set H \<union> cells al F U" "pool_depth al' p = pool_capacity al"
proof -
  show pf: "p \<notin> set hs \<union> set P \<union> set H \<union> cells al F U" using content_outside [OF c, of p p MEMPOOL] by auto
  have c1: "content al' hs F U H P ((q, pool_capacity al) # (p, MEMPOOL) # B)"
    by (rule content_frame [OF c]) (use pf contentD(1-3) [OF c] in \<open>auto simp: al'_def same_limits_def\<close>)
  show "content al' hs F U H (p # P) B"
  proof (rule content_owner [OF c1])
    show "pool_ok al' x" if "x \<in> set (p # P)" for x using that contentD(4) [OF c1, of x] mp by (auto simp: pool_ok_def al'_def pool_capacity_def)
    show "mset (slab_owned al' hs H (p # P) @ B) = mset (slab_owned al' hs H P @ (q, pool_capacity al) # (p, MEMPOOL) # B)"
      using mp(1) by (simp add: slab_owned_def pool_blocks_def pool_start_def al'_def pool_capacity_def)
  qed (use contentD(3,9) [OF c1] in auto)
  show "pool_depth al' p = pool_capacity al" using mp(2) by (simp add: pool_depth_def al'_def)
qed

lemma content_adopt_huge:
  assumes c: "content al hs F U H P ((a, unat (sl_size s) + SLAB) # B)"
    and s: "class_size al (classes al - 1) < unat (sl_size s)" "sl_stat_flag s \<noteq> 0"
  defines "al' \<equiv> al\<lparr>ca_slab := (ca_slab al)(a \<mapsto> s)\<rparr>"
  shows "content al' hs F U (a # H) P B" "a \<notin> set hs \<union> set P \<union> set H \<union> cells al F U"
proof -
  show af: "a \<notin> set hs \<union> set P \<union> set H \<union> cells al F U" using content_outside [OF c, of a a "unat (sl_size s) + SLAB"] by auto
  have c1: "content al' hs F U H P ((a, unat (sl_size s) + SLAB) # B)"
    by (rule content_frame [OF c]) (use af contentD(1-3) [OF c] in \<open>auto simp: al'_def same_limits_def\<close>)
  show "content al' hs F U (a # H) P B"
  proof (rule content_owner [OF c1])
    show "huge_at al' x" if "x \<in> set (a # H)" for x
      using that contentD(9) [OF c1, of x] s by (auto simp: huge_at_def al'_def class_size_def classes_def)
    show "mset (slab_owned al' hs (a # H) P @ B) = mset (slab_owned al' hs H P @ (a, unat (sl_size s) + SLAB) # B)"
      by (simp add: slab_owned_def extent_def al'_def)
  qed (use contentD(3,4) [OF c1] in auto)
qed

lemma content_disown_huge: "content al hs F U (xs @ a # ys) P B \<Longrightarrow> content al hs F U (xs @ ys) P ((a, extent al a) # B)"
  by (rule content_owner, assumption) (auto simp: slab_owned_def dest: contentD)

lemma content_adopt_head: "content al hs F U H P ((h, HEAD) # B) \<Longrightarrow> ca_count al h \<noteq> None \<Longrightarrow> content al (h # hs) F U H P B"
  by (rule content_owner, assumption) (auto simp: slab_owned_def dest: contentD)

lemma content_disown_head: "content al (xs @ h # ys) F U H P B \<Longrightarrow> content al (xs @ ys) F U H P ((h, HEAD) # B)"
  by (rule content_owner, assumption) (auto simp: slab_owned_def dest: contentD)

lemma content_disown_pool:
  "content al hs (\<lambda>_. {}) (\<lambda>_. {}) H (xs @ p # ys) B \<Longrightarrow>
   content al hs (\<lambda>_. {}) (\<lambda>_. {}) H (xs @ ys) ((p, MEMPOOL) # (pool_start al p, pool_capacity al) # B)"
  by (rule content_owner, assumption) (auto simp: slab_owned_def pool_blocks_def cells_def dest: contentD)

lemma content_drop_cells: "content al hs F U H P B \<Longrightarrow> content al hs (\<lambda>_. {}) (\<lambda>_. {}) H P B"
  by (rule content_owner, assumption) (auto simp: cells_def dest: contentD)

lemma mset_pool_blocks: "mset (pool_blocks al P) = image_mset (\<lambda>p. (p, MEMPOOL)) (mset P) + image_mset (\<lambda>p. (pool_start al p, pool_capacity al)) (mset P)"
  by (induction P) (simp_all add: pool_blocks_def)

lemma content_perm:
  assumes "content al hs F U H P B" "mset P' = mset P"
  shows "content al hs F U H P' B"
proof (rule content_owner [OF assms(1)])
  show "mset (slab_owned al hs H P' @ B) = mset (slab_owned al hs H P @ B)" by (simp add: slab_owned_def mset_pool_blocks assms(2))
  have "set P' = set P" by (rule mset_eq_setD [OF assms(2)])
  then show "\<And>p. p \<in> set P' \<Longrightarrow> pool_ok al p" "(set P \<subseteq> set P' \<and> F = F \<and> U = U) \<or> cells al F U = {}" using contentD(4) [OF assms(1)] by auto
qed (use contentD(3,9) [OF assms(1)] in auto)

lemma content_cong:
  assumes "content al hs F U H P B" "\<And>i. i < classes al \<Longrightarrow> F' i = F i \<and> U' i = U i"
  shows "content al hs F' U' H P B"
proof -
  have "cells al F' U' = cells al F U" using assms(2) by (auto simp: cells_def)
  then show ?thesis using assms unfolding content_def by simp
qed

end
