(* ===== verification/SlabSafe.thy ===== *)
theory SlabSafe
  imports SlabContent
begin

text \<open>
  The states of a running slab allocator, and that its operations keep them: the search for a pool, the carving of a slab, allocation
  and release.  \<open>slab_wf al R T B\<close> says that \<open>T\<close> names the list heads, \<open>R\<close> gives the entries of each list, and \<open>B\<close> are the live
  blocks of others.
\<close>

subsection \<open>A running allocator\<close>

record slab_heads =
  h_free :: "nat list"
  h_used :: "nat list"
  h_huge :: nat
  h_pool :: nat
  h_empty :: nat

definition all_heads :: "slab_heads \<Rightarrow> nat list" where
  "all_heads T = h_free T @ h_used T @ [h_huge T, h_pool T, h_empty T]"

definition free_cells :: "slab_heads \<Rightarrow> (nat \<rightharpoonup> nat list) \<Rightarrow> nat \<Rightarrow> nat set" where
  "free_cells T R i = set (the (R (h_free T ! i)))"

definition used_cells :: "slab_heads \<Rightarrow> (nat \<rightharpoonup> nat list) \<Rightarrow> nat \<Rightarrow> nat set" where
  "used_cells T R i = set (the (R (h_used T ! i)))"

definition pools :: "slab_heads \<Rightarrow> (nat \<rightharpoonup> nat list) \<Rightarrow> nat list" where
  "pools T R = the (R (h_pool T)) @ the (R (h_empty T))"

definition heads_ok :: "allocator \<Rightarrow> slab_heads \<Rightarrow> (nat \<rightharpoonup> nat list) \<Rightarrow> bool" where
  "heads_ok al T R \<longleftrightarrow> length (h_free T) = classes al \<and> length (h_used T) = classes al \<and> ca_free al = map Some (h_free T) \<and>
     ca_used al = map Some (h_used T) \<and> ca_huge al = Some (h_huge T) \<and> ca_pool al = Some (h_pool T) \<and> ca_empty al = Some (h_empty T) \<and>
     distinct (all_heads T) \<and> dom R = set (all_heads T)"

definition slab_wf :: "allocator \<Rightarrow> (nat \<rightharpoonup> nat list) \<Rightarrow> slab_heads \<Rightarrow> (nat \<times> nat) list \<Rightarrow> bool" where
  "slab_wf al R T B \<longleftrightarrow> heads_ok al T R \<and> inv al R (all_heads T) (free_cells T R) (used_cells T R) (the (R (h_huge T))) (pools T R) B"

lemma slab_wfD:
  assumes "slab_wf al R T B"
  shows "heads_ok al T R" "config_ok al" "lists_ok al R" "content al (all_heads T) (free_cells T R) (used_cells T R) (the (R (h_huge T))) (pools T R) B"
    "ring_nodes R \<subseteq> set (all_heads T) \<union> set (pools T R) \<union> set (the (R (h_huge T))) \<union> cells al (free_cells T R) (used_cells T R)"
    "inv al R (all_heads T) (free_cells T R) (used_cells T R) (the (R (h_huge T))) (pools T R) B"
  using assms by (simp_all add: slab_wf_def inv_def)

lemma heads_ring: "heads_ok al T R \<Longrightarrow> h \<in> set (all_heads T) \<Longrightarrow> R h = Some (the (R h))"
  unfolding heads_ok_def by (metis domIff option.collapse)

lemma heads_distinct:
  assumes "heads_ok al T R"
  shows "i < classes al \<Longrightarrow> j < classes al \<Longrightarrow> h_free T ! i = h_free T ! j \<longleftrightarrow> i = j"
    "i < classes al \<Longrightarrow> j < classes al \<Longrightarrow> h_used T ! i = h_used T ! j \<longleftrightarrow> i = j"
    "i < classes al \<Longrightarrow> j < classes al \<Longrightarrow> h_free T ! i \<noteq> h_used T ! j"
    "i < classes al \<Longrightarrow> h_free T ! i \<notin> {h_huge T, h_pool T, h_empty T}" "i < classes al \<Longrightarrow> h_used T ! i \<notin> {h_huge T, h_pool T, h_empty T}"
    "distinct [h_huge T, h_pool T, h_empty T]"
proof -
  have d: "distinct (h_free T)" "distinct (h_used T)" "set (h_free T) \<inter> set (h_used T) = {}" "h_huge T \<notin> set (h_free T) \<union> set (h_used T)"
    "h_pool T \<notin> set (h_free T) \<union> set (h_used T)" "h_empty T \<notin> set (h_free T) \<union> set (h_used T)" "distinct [h_huge T, h_pool T, h_empty T]"
    and l: "length (h_free T) = classes al" "length (h_used T) = classes al"
    using assms by (auto simp: heads_ok_def all_heads_def)
  have f: "h_free T ! k \<in> set (h_free T)" "h_used T ! k \<in> set (h_used T)" if "k < classes al" for k using that l by simp_all
  show "i < classes al \<Longrightarrow> j < classes al \<Longrightarrow> h_free T ! i = h_free T ! j \<longleftrightarrow> i = j"
    "i < classes al \<Longrightarrow> j < classes al \<Longrightarrow> h_used T ! i = h_used T ! j \<longleftrightarrow> i = j" using d(1,2) l by (simp_all add: nth_eq_iff_index_eq)
  show "i < classes al \<Longrightarrow> j < classes al \<Longrightarrow> h_free T ! i \<noteq> h_used T ! j" using f(1) [of i] f(2) [of j] d(3) by auto
  show "i < classes al \<Longrightarrow> h_free T ! i \<notin> {h_huge T, h_pool T, h_empty T}" using f(1) [of i] d(4-6) by auto
  show "i < classes al \<Longrightarrow> h_used T ! i \<notin> {h_huge T, h_pool T, h_empty T}" using f(2) [of i] d(4-6) by auto
  show "distinct [h_huge T, h_pool T, h_empty T]" by (rule d(7))
qed

lemma heads_mem:
  assumes "heads_ok al T R"
  shows "i < classes al \<Longrightarrow> h_free T ! i \<in> set (all_heads T)" "i < classes al \<Longrightarrow> h_used T ! i \<in> set (all_heads T)"
    "h_huge T \<in> set (all_heads T)" "h_pool T \<in> set (all_heads T)" "h_empty T \<in> set (all_heads T)"
  using assms by (simp_all add: heads_ok_def all_heads_def)

lemma slab_head_nth:
  assumes "heads_ok al T R" "i < classes al"
  shows "slab_head (ca_free al) (int i) = Some (h_free T ! i)" "slab_head (ca_used al) (int i) = Some (h_used T ! i)"
  using assms by (simp_all add: heads_ok_def slab_head_def ld1_nat)

definition same_fields :: "allocator \<Rightarrow> allocator \<Rightarrow> bool" where
  "same_fields al' al \<longleftrightarrow> same_limits al' al \<and> ca_free al' = ca_free al \<and> ca_used al' = ca_used al \<and> ca_huge al' = ca_huge al \<and>
     ca_pool al' = ca_pool al \<and> ca_empty al' = ca_empty al \<and> ca_self al' = ca_self al \<and> ca_type al' = ca_type al \<and>
     ca_alloc_count al' = ca_alloc_count al \<and> ca_free_p al' = ca_free_p al \<and> ca_used_p al' = ca_used_p al"

lemma same_fields_trans: "same_fields a b \<Longrightarrow> same_fields b c \<Longrightarrow> same_fields a c"
  by (simp add: same_fields_def same_limits_def)

lemma heads_same: "heads_ok al T R \<Longrightarrow> same_fields al' al \<Longrightarrow> dom R' = dom R \<Longrightarrow> heads_ok al' T R'"
  using same_limitsD(1) [of al' al] by (simp add: heads_ok_def same_fields_def)

lemma sint_small: "unat w < 2 ^ 31 \<Longrightarrow> sint (w :: u32) = int (unat w)"
proof -
  assume w: "unat w < 2 ^ 31"
  have "int (unat w) < int (2 ^ 31)" using w by (simp only: of_nat_less_iff)
  moreover have "- (2 ^ 31) \<le> int (unat w)" by (rule order_trans [of _ 0]) simp_all
  ultimately show ?thesis unfolding sint_uint by (simp add: signed_take_bit_int_eq_self)
qed

text \<open>\<open>malloc\<close> refuses a new pool: the block of the structure, or the memory of the pool after it.\<close>

definition pool_refused :: "libc \<Rightarrow> allocator \<Rightarrow> bool" where
  "pool_refused E al \<longleftrightarrow>
     (let p = libc_malloc E (ca_calls al) (ca_blocks al) MEMPOOL in
      p = 0 \<or> libc_malloc E (ca_calls al + 1) ((p, MEMPOOL) # ca_blocks al) (pool_capacity al) = 0)"

text \<open>It refuses what a request needs: a block of its own for a size beyond the largest class, else a new pool.\<close>

definition slab_refused :: "libc \<Rightarrow> allocator \<Rightarrow> u32 \<Rightarrow> bool" where
  "slab_refused E al sz \<longleftrightarrow>
     (if class_size al (classes al - 1) < unat sz then libc_malloc E (ca_calls al) (ca_blocks al) (unat sz + SLAB) = 0
      else pool_refused E al)"

text \<open>A pool is created.\<close>

lemma create_ok:
  assumes m: "malloc_ok E" and i: "inv al R hs F U H P B"
  shows "\<exists>p al'. mempool_create_list E al = Some (p, al') \<and> same_fields al' al \<and> (\<forall>x \<in> set H \<union> cells al F U. ca_slab al' x = ca_slab al x) \<and>
    (p = 0 \<longrightarrow> pool_refused E al) \<and>
    (if p = 0 then inv al' R hs F U H P B
     else lists_ok al' R \<and> content al' hs F U H (p # P) B \<and> p \<notin> ring_nodes R \<and> l_next (ca_links al') p \<noteq> None \<and>
       l_prev (ca_links al') p \<noteq> None \<and> pool_depth al' p = pool_capacity al)"
proof -
  obtain p al1 where p: "sys_malloc E al MEMPOOL = (p, al1)" by (cases "sys_malloc E al MEMPOOL")
  obtain q al2 where q: "sys_malloc E al1 (pool_capacity al) = (q, al2)" by (cases "sys_malloc E al1 (pool_capacity al)")
  note p1 = malloc_inv [OF m i p]
  have pz: "p = 0 \<or> q = 0 \<Longrightarrow> pool_refused E al"
    using p q by (auto simp: sys_malloc_def pool_refused_def Let_def split: if_splits)
  show ?thesis
  proof (cases "p = 0")
    case True
    then have "mempool_create_list E al = Some (0, al1)" using p by (simp add: mempool_create_list_def)
    then show ?thesis using True p1 pz by (auto simp: same_fields_def same_limits_def)
  next
    case False
    then have i1: "inv al1 R hs F U H P ((p, MEMPOOL) # B)" using p1(1) by simp
    note q1 = malloc_inv [OF m i1 q]
    obtain c1 c2 where al: "al1 = al\<lparr>ca_calls := c1, ca_blocks := (p, MEMPOOL) # ca_blocks al\<rparr>"
        "al2 = al1\<lparr>ca_calls := c2, ca_blocks := (if q = 0 then ca_blocks al1 else (q, pool_capacity al) # ca_blocks al1)\<rparr>"
      using p1(2) q1(2) False by auto
    have sf: "same_fields al2 al" by (simp add: al same_fields_def same_limits_def)
    show ?thesis
    proof (cases "q = 0")
      case True
      then have i2: "inv al2 R hs F U H P ((p, MEMPOOL) # B)" using q1(1) by simp
      note fr = free_inv [OF i2, of p MEMPOOL]
      have "mempool_create_list E al = Some (0, released al2 p MEMPOOL)"
        using p q False True fr(1) by (simp add: mempool_create_list_def pool_capacity_def)
      moreover have "same_fields (released al2 p MEMPOOL) al" using sf by (simp add: same_fields_def same_limits_def)
      moreover have "ca_slab (released al2 p MEMPOOL) x = ca_slab al x" if "x \<in> set H \<union> cells al F U" for x
        using content_outside [OF invD(3) [OF i2], of x p MEMPOOL] that same_limitsD(5) [of al2 al F U] sf
        by (auto simp: released_def kill_def al same_fields_def)
      ultimately show ?thesis using fr(2) pz True by auto
    next
      case False': False
      define mp where "mp = \<lparr>mp_start = q, mp_depth = sint (mempool_capacity al), mp_min_depth = sint (data_min_size al + of_nat SLAB), mp_size = sint (mempool_capacity al)\<rparr>"
      define al3 where "al3 = al2\<lparr>ca_mempool := (ca_mempool al2)(p \<mapsto> mp)\<rparr>"
      define al4 where "al4 = al3\<lparr>ca_links := new_node (ca_links al2) p ()\<rparr>"
      have cap: "pool_capacity al2 = pool_capacity al" using sf by (simp add: same_fields_def same_limits_def pool_capacity_def)
      have i2: "inv al2 R hs F U H P ((q, pool_capacity al2) # (p, MEMPOOL) # B)" using q1(1) False' by (simp add: cap)
      have "sint (mempool_capacity al) = int (pool_capacity al)"
        using invD(1) [OF i] sint_small [of "mempool_capacity al"] by (simp add: config_ok_def pool_capacity_def)
      then have mp: "mp_start mp = q" "mp_depth mp = int (pool_capacity al2)" "mp_size mp = int (pool_capacity al2)" by (simp_all add: mp_def cap)
      note ad = content_adopt_pool [OF invD(3) [OF i2] mp, folded al3_def]
      have pn: "p \<notin> ring_nodes R" using invD(4) [OF i2] ad(2) by blast
      have "mempool_create_list E al = Some (p, al4)"
        using p q False False' by (simp add: mempool_create_list_def pool_capacity_def al4_def al3_def mp_def Let_def)
      moreover have "same_fields al4 al" "ca_slab al4 = ca_slab al" by (simp_all add: al4_def al3_def al same_fields_def same_limits_def)
      moreover have "lists_ok al4 R"
        using invD(2) [OF i2] ring_place [of "ca_links al2" R p "()"] pn by (simp add: lists_ok_def al4_def al3_def)
      moreover have "content al4 hs F U H (p # P) B"
        using content_links [OF ad(1), of "ca_count al3"] by (simp add: al4_def al3_def)
      moreover have "pool_depth al4 p = pool_capacity al" using ad(3) cap by (simp add: al4_def pool_depth_def)
      ultimately show ?thesis using False pn by (auto simp: al4_def new_node_def)
    qed
  qed
qed

text \<open>The search for a pool.\<close>

lemma depth_word:
  assumes "pool_ok al p" "ca_mempool al p = Some mp" "config_ok al" "unat w < 2 ^ 31"
  shows "(of_int (mp_depth mp) :: u64) \<ge> ucast (w :: u32) + of_nat SLAB \<longleftrightarrow> unat w + SLAB \<le> pool_depth al p"
proof -
  have d: "0 \<le> mp_depth mp" "mp_depth mp = int (pool_depth al p)" "pool_depth al p < 2 ^ 31"
    using assms(1-3) by (auto simp: pool_ok_def pool_depth_def config_ok_def)
  have "unat (of_int (mp_depth mp) :: u64) = pool_depth al p" using d(2,3) by (simp add: unsigned_of_nat take_bit_nat_eq_self)
  moreover have "unat (ucast w + of_nat SLAB :: u64) = unat w + SLAB"
    using assms(4) by (simp add: unat_word_ariths unsigned_ucast_eq take_bit_nat_eq_self)
  ultimately show ?thesis by (simp add: word_le_nat_alt)
qed

lemma index_same: "same_limits al' al \<Longrightarrow> slab_get_slab_index al' sz = slab_get_slab_index al sz"
  by (simp add: same_limits_def slab_get_slab_index_def)

lemma real_same: "same_limits al' al \<Longrightarrow> mempool_get_real_alloc_mem_size al' sz = mempool_get_real_alloc_mem_size al sz"
  using index_same [of al' al sz] by (simp add: same_limits_def mempool_get_real_alloc_mem_size_def)

lemma heads_cover:
  assumes h: "heads_ok al T R"
  shows "ring_nodes R \<subseteq> set (all_heads T) \<union> set (pools T R) \<union> set (the (R (h_huge T))) \<union> cells al (free_cells T R) (used_cells T R)"
proof
  fix x assume "x \<in> ring_nodes R"
  then obtain g xs where g: "R g = Some xs" "x = g \<or> x \<in> set xs" unfolding ring_nodes_def by auto
  then have "g \<in> dom R" by blast
  then have "g \<in> set (all_heads T)" using h unfolding heads_ok_def by simp
  then consider i where "i < classes al" "g = h_free T ! i" | i where "i < classes al" "g = h_used T ! i" | "g = h_huge T" | "g = h_pool T" | "g = h_empty T"
    using h unfolding all_heads_def heads_ok_def by (auto simp: in_set_conv_nth)
  then show "x \<in> set (all_heads T) \<union> set (pools T R) \<union> set (the (R (h_huge T))) \<union> cells al (free_cells T R) (used_cells T R)"
  proof cases
    case 1
    then have "x = g \<or> x \<in> free_cells T R i" using g by (auto simp: free_cells_def)
    then show ?thesis using 1(1) \<open>g \<in> set (all_heads T)\<close> by (auto simp: cells_def)
  next
    case 2
    then have "x = g \<or> x \<in> used_cells T R i" using g by (auto simp: used_cells_def)
    then show ?thesis using 2(1) \<open>g \<in> set (all_heads T)\<close> by (auto simp: cells_def)
  qed (use g \<open>g \<in> set (all_heads T)\<close> in \<open>auto simp: pools_def\<close>)
qed

text \<open>The parts make up the invariant.\<close>

lemma slab_wfI:
  assumes "heads_ok al T R" "config_ok al" "lists_ok al R" "content al (all_heads T) F U (the (R (h_huge T))) P B"
    and "\<And>i. i < classes al \<Longrightarrow> free_cells T R i = F i \<and> used_cells T R i = U i" "mset (pools T R) = mset P"
  shows "slab_wf al R T B"
proof -
  have "content al (all_heads T) (free_cells T R) (used_cells T R) (the (R (h_huge T))) (pools T R) B"
    by (rule content_cong [OF content_perm [OF assms(4,6)]]) (use assms(5) in simp)
  then show ?thesis using heads_cover [OF assms(1)] assms(1-3) by (simp add: slab_wf_def inv_def)
qed

text \<open>An exhausted pool is moved to the other list.\<close>

lemma move_pool_ok:
  assumes w: "slab_wf al R T B" and R: "R (h_pool T) = Some (xs @ p # ys)"
  shows "\<exists>l c. (do { e \<leftarrow> ca_empty al; al' \<leftarrow> mempool_detach_list al p (h_pool T); mempool_attach_list al' p e }) = Some (al\<lparr>ca_links := l, ca_count := c\<rparr>) \<and>
    slab_wf (al\<lparr>ca_links := l, ca_count := c\<rparr>) (R(h_pool T \<mapsto> xs @ ys, h_empty T \<mapsto> p # the (R (h_empty T)))) T B"
proof -
  note h = slab_wfD(1) [OF w]
  note hd = heads_distinct [OF h] and hm = heads_mem [OF h]
  let ?R1 = "R(h_pool T \<mapsto> xs @ ys)" and ?R2 = "R(h_pool T \<mapsto> xs @ ys, h_empty T \<mapsto> p # the (R (h_empty T)))"
  obtain l1 c1 where d: "slab_detach_list al p (h_pool T) = Some (al\<lparr>ca_links := l1, ca_count := c1\<rparr>)" "lists_ok (al\<lparr>ca_links := l1, ca_count := c1\<rparr>) ?R1"
      "\<forall>x. c1 x = None \<longleftrightarrow> ca_count al x = None" "l_next l1 p \<noteq> None" "l_prev l1 p \<noteq> None"
    using detach_ok [OF slab_wfD(3) [OF w] R] by blast
  have "p \<notin> ring_nodes ?R1" using ring_del_fresh [of "ca_links al" R "h_pool T" xs p ys] slab_wfD(3) [OF w] R by (simp add: lists_ok_def)
  then obtain l c where a: "slab_attach_list (al\<lparr>ca_links := l1, ca_count := c1\<rparr>) p (h_empty T) = Some (al\<lparr>ca_links := l, ca_count := c\<rparr>)"
      "lists_ok (al\<lparr>ca_links := l, ca_count := c\<rparr>) ?R2" "\<forall>x. c x = None \<longleftrightarrow> c1 x = None"
    using attach_ok [OF d(2), of "h_empty T" "the (R (h_empty T))" p] heads_ring [OF h hm(5)] hd(6) d(4,5) by auto
  have "ca_empty al = Some (h_empty T)" using h by (simp add: heads_ok_def)
  moreover have "slab_wf (al\<lparr>ca_links := l, ca_count := c\<rparr>) ?R2 T B" (is "slab_wf ?al _ _ _")
  proof -
    have sc: "same_limits ?al al" by (simp add: same_limits_def)
    have same: "free_cells T ?R2 i = free_cells T R i" "used_cells T ?R2 i = used_cells T R i" if "i < classes al" for i
      using hd(4,5) [OF that] by (auto simp: free_cells_def used_cells_def)
    have hg: "the (?R2 (h_huge T)) = the (R (h_huge T))" using hd(6) by simp
    have pl: "mset (pools T ?R2) = mset (pools T R)" using hd(6) R by (simp add: pools_def)
    have "content ?al (all_heads T) (free_cells T R) (used_cells T R) (the (R (h_huge T))) (pools T R) B"
      by (rule content_links [OF slab_wfD(4) [OF w]]) (use a(3) d(3) in blast)
    then have "content ?al (all_heads T) (free_cells T ?R2) (used_cells T ?R2) (the (?R2 (h_huge T))) (pools T ?R2) B"
      unfolding hg by (intro content_cong [OF content_perm [OF _ pl]]) (use same same_limitsD(1) [OF sc] in auto)
    moreover have "heads_ok ?al T ?R2" by (rule heads_same [OF h]) (use hm(4,5) h in \<open>auto simp: same_fields_def same_limits_def heads_ok_def\<close>)
    ultimately show ?thesis using slab_wfD(2) [OF w] a(2) same_limitsD(4) [OF sc] by (intro slab_wfI [of ?al T ?R2]) auto
  qed
  ultimately show ?thesis using d(1) a(1) by (auto simp: mempool_list_eq)
qed

lemma find_pool_ok:
  "slab_wf al R T B \<Longrightarrow> i < classes al \<Longrightarrow> slab_get_slab_index al sz = Some (int i) \<Longrightarrow> R (h_pool T) = Some (xs @ rest) \<Longrightarrow>
   l_next (ca_links al) (hd (rest @ [h_pool T])) = Some n \<Longrightarrow>
   \<exists>p al' R'. find_pool_loop al sz (hd (rest @ [h_pool T])) n (h_pool T) = Some (p, al') \<and> (\<exists>l c. al' = al\<lparr>ca_links := l, ca_count := c\<rparr>) \<and>
     slab_wf al' R' T B \<and> (\<forall>h. h \<noteq> h_pool T \<longrightarrow> h \<noteq> h_empty T \<longrightarrow> R' h = R h) \<and>
     (p \<noteq> 0 \<longrightarrow> p \<in> set (pools T R') \<and> class_size al i + SLAB \<le> pool_depth al p)"
proof (induction rest arbitrary: al R xs n)
  case Nil
  then show ?case
    by (subst find_pool_loop.simps) (auto intro!: exI [of _ R] exI [of _ "ca_links al"] exI [of _ "ca_count al"])
next
  case (Cons p rest)
  note w = Cons.prems(1) and R = Cons.prems(4)
  have rings: "rings (ca_links al) R" using slab_wfD(3) [OF w] by (simp add: lists_ok_def)
  have ne: "p \<noteq> h_pool T" using ringsD(2) [OF rings R] by auto
  have n: "n = hd (rest @ [h_pool T])" using ring_next [OF rings R] Cons.prems(5) by simp
  have pm: "p \<in> set (pools T R)" using R by (simp add: pools_def)
  then obtain mp where mp: "ca_mempool al p = Some mp" using contentD(4) [OF slab_wfD(4) [OF w]] unfolding pool_ok_def by blast
  obtain v where v: "mempool_get_real_alloc_mem_size al sz = Some v" "unat v = class_size al i"
    using real_size [OF slab_wfD(2) [OF w] Cons.prems(2,3)] by blast
  have big: "(of_int (mp_depth mp) :: u64) \<ge> ucast v + of_nat SLAB \<longleftrightarrow> class_size al i + SLAB \<le> pool_depth al p"
    using depth_word [OF contentD(4) [OF slab_wfD(4) [OF w] pm] mp slab_wfD(2) [OF w], of v] class_size_bound [OF slab_wfD(2) [OF w] Cons.prems(2)] v(2) by simp
  note step = find_pool_loop.simps [of al sz p n "h_pool T"]
  show ?case
  proof (cases "class_size al i + SLAB \<le> pool_depth al p")
    case True
    then have "find_pool_loop al sz p n (h_pool T) = Some (p, al)" using step ne mp v(1) big by simp
    then show ?thesis using w pm True by (auto intro!: exI [of _ R] exI [of _ "ca_links al"] exI [of _ "ca_count al"])
  next
    case False
    show ?thesis
    proof (cases "mp_depth mp < mp_min_depth mp")
      case True
      obtain l c where mv: "(do { e \<leftarrow> ca_empty al; al' \<leftarrow> mempool_detach_list al p (h_pool T); mempool_attach_list al' p e }) = Some (al\<lparr>ca_links := l, ca_count := c\<rparr>)"
          "slab_wf (al\<lparr>ca_links := l, ca_count := c\<rparr>) (R(h_pool T \<mapsto> xs @ rest, h_empty T \<mapsto> p # the (R (h_empty T)))) T B"
        using move_pool_ok [OF w R] by blast
      let ?al = "al\<lparr>ca_links := l, ca_count := c\<rparr>" and ?R = "R(h_pool T \<mapsto> xs @ rest, h_empty T \<mapsto> p # the (R (h_empty T)))"
      have sc: "same_limits ?al al" by (simp add: same_limits_def)
      have hp: "?R (h_pool T) = Some (xs @ rest)" using heads_distinct(6) [OF slab_wfD(1) [OF w]] by simp
      have r2: "rings l ?R" using slab_wfD(3) [OF mv(2)] by (simp add: lists_ok_def)
      have "\<exists>n'. l_next l n = Some n'"
      proof (cases rest)
        case Nil
        then show ?thesis using ring_first [OF r2 hp] n by simp
      next
        case (Cons q qs)
        then show ?thesis using ring_next [of l ?R "h_pool T" xs q qs] r2 hp n by simp
      qed
      then obtain n' where n': "l_next l n = Some n'" by blast
      have "find_pool_loop al sz p n (h_pool T) = find_pool_loop ?al sz n n' (h_pool T)"
        using step ne mp v(1) big False True mv(1) n' by simp
      then show ?thesis using Cons.IH [OF mv(2) _ _ hp, of n'] Cons.prems(2,3) n n' same_limitsD(1,2) [OF sc] index_same [OF sc]
        by (auto simp: pool_depth_def)
    next
      case False': False
      have "\<exists>n'. l_next (ca_links al) n = Some n'"
      proof (cases rest)
        case Nil
        then show ?thesis using ring_first [OF rings R] n by simp
      next
        case (Cons q qs)
        then show ?thesis using ring_next [of "ca_links al" R "h_pool T" "xs @ [p]" q qs] rings R n by simp
      qed
      then obtain n' where n': "l_next (ca_links al) n = Some n'" by blast
      have "find_pool_loop al sz p n (h_pool T) = find_pool_loop al sz n n' (h_pool T)"
        using step ne mp v(1) big False False' n' by simp
      then show ?thesis using Cons.IH [OF w Cons.prems(2,3), of "xs @ [p]" n'] R n n' by simp
    qed
  qed
qed

subsection \<open>Allocation\<close>

text \<open>A cell \<open>b\<close> of class \<open>i\<close> that is marked as used and is not yet in a list.\<close>

definition pending :: "allocator \<Rightarrow> (nat \<rightharpoonup> nat list) \<Rightarrow> slab_heads \<Rightarrow> nat \<Rightarrow> nat \<Rightarrow> (nat \<times> nat) list \<Rightarrow> bool" where
  "pending al R T i b B \<longleftrightarrow> heads_ok al T R \<and> config_ok al \<and> lists_ok al R \<and> i < classes al \<and>
     content al (all_heads T) (free_cells T R) ((used_cells T R)(i := insert b (used_cells T R i))) (the (R (h_huge T))) (pools T R) B \<and>
     b \<notin> ring_nodes R \<and> l_next (ca_links al) b \<noteq> None \<and> l_prev (ca_links al) b \<noteq> None \<and> 0 < b"

lemma pendingD:
  assumes "pending al R T i b B"
  shows "heads_ok al T R" "config_ok al" "lists_ok al R" "i < classes al"
    "content al (all_heads T) (free_cells T R) ((used_cells T R)(i := insert b (used_cells T R i))) (the (R (h_huge T))) (pools T R) B"
    "b \<notin> ring_nodes R" "l_next (ca_links al) b \<noteq> None" "l_prev (ca_links al) b \<noteq> None" "0 < b"
  using assms by (simp_all add: pending_def)

lemma pending_attach:
  assumes p: "pending al R T i b B" and x: "slab_get_slab_index al sz = Some (int i)"
  defines "R' \<equiv> R(h_used T ! i \<mapsto> b # the (R (h_used T ! i)))"
  shows "\<exists>l c. slab_attach_list_to_used_slabs al b sz = Some (al\<lparr>ca_links := l, ca_count := c\<rparr>) \<and> slab_wf (al\<lparr>ca_links := l, ca_count := c\<rparr>) R' T B"
proof -
  note h = pendingD(1) [OF p] and i = pendingD(4) [OF p]
  note hd = heads_distinct [OF h] and hm = heads_mem [OF h]
  obtain l c where a: "slab_attach_list al b (h_used T ! i) = Some (al\<lparr>ca_links := l, ca_count := c\<rparr>)"
      "lists_ok (al\<lparr>ca_links := l, ca_count := c\<rparr>) R'" "\<forall>x. c x = None \<longleftrightarrow> ca_count al x = None"
    unfolding R'_def using attach_ok [OF pendingD(3) [OF p] heads_ring [OF h hm(2) [OF i]] pendingD(6-8) [OF p]] by blast
  let ?al = "al\<lparr>ca_links := l, ca_count := c\<rparr>"
  have sc: "same_limits ?al al" by (simp add: same_limits_def)
  have "slab_wf ?al R' T B"
  proof (rule slab_wfI)
    show "heads_ok ?al T R'" by (rule heads_same [OF h]) (use hm(2) [OF i] h in \<open>auto simp: R'_def same_fields_def same_limits_def heads_ok_def\<close>)
    show "config_ok ?al" using pendingD(2) [OF p] same_limitsD(4) [OF sc] by simp
    show "lists_ok ?al R'" by (rule a(2))
    have "the (R' (h_huge T)) = the (R (h_huge T))" using hd(5) [OF i] by (simp add: R'_def)
    then show "content ?al (all_heads T) (free_cells T R) ((used_cells T R)(i := insert b (used_cells T R i))) (the (R' (h_huge T))) (pools T R) B"
      using content_links [OF pendingD(5) [OF p], of c l] a(3) by simp
    show "free_cells T R' j = free_cells T R j \<and> used_cells T R' j = ((used_cells T R)(i := insert b (used_cells T R i))) j" if "j < classes ?al" for j
      using that hd(2,3) [of j i] hd(3) [of j i] i same_limitsD(1) [OF sc] by (auto simp: free_cells_def used_cells_def R'_def)
    show "mset (pools T R') = mset (pools T R)" using hd(5) [OF i] by (simp add: pools_def R'_def)
  qed
  then show ?thesis using a(1) slab_head_nth(2) [OF h i] x by (auto simp: slab_attach_list_to_used_slabs_def)
qed

lemma cell_pos: "content al hs F U H P B \<Longrightarrow> a \<in> cells al F U \<Longrightarrow> 0 < a"
proof -
  assume c: "content al hs F U H P B" and a: "a \<in> cells al F U"
  then obtain p where p: "p \<in> set P" "pool_start al p \<le> a" using contentD(7) [OF c a] unfolding placed_def by blast
  then have "(pool_start al p, pool_capacity al) \<in> set (slab_owned al hs H P @ B)" by (auto simp: slab_owned_def pool_blocks_def)
  then show "0 < a" using content_blocks(4) [OF c] p(2) by fastforce
qed

lemma detach_front_ok:
  assumes w: "slab_wf al R T B" and i: "i < classes al" and x: "slab_get_slab_index al sz = Some (int i)"
  shows "R (h_free T ! i) = Some [] \<Longrightarrow> slab_detach_front_list_from_free_slabs al sz = Some (0, al)"
    "R (h_free T ! i) = Some (a # xs) \<Longrightarrow> \<exists>al' s. slab_detach_front_list_from_free_slabs al sz = Some (a, al') \<and> ca_slab al a = Some s \<and>
       same_fields al' al \<and> ca_slab al' = (ca_slab al)(a \<mapsto> s\<lparr>sl_stat_flag := 1\<rparr>) \<and> pending al' (R(h_free T ! i \<mapsto> xs)) T i a B"
proof -
  note h = slab_wfD(1) [OF w]
  note hd = heads_distinct [OF h] and hm = heads_mem [OF h]
  let ?h = "h_free T ! i"
  have rings: "rings (ca_links al) R" using slab_wfD(3) [OF w] by (simp add: lists_ok_def)
  have cnt: "ca_count al ?h = Some (of_nat (length ys))" if "R ?h = Some ys" for ys using slab_wfD(3) [OF w] that by (simp add: lists_ok_def)
  have dd: "slab_detach_front_list_from_free_slabs al sz = slab_detach_front_list al ?h"
    using x slab_head_nth(1) [OF h i] by (simp add: slab_detach_front_list_from_free_slabs_def)
  show "slab_detach_front_list_from_free_slabs al sz = Some (0, al)" if "R ?h = Some []"
    using ring_first [OF rings that] cnt [OF that] unfolding dd by (simp add: slab_detach_front_list_def)
  show "\<exists>al' s. slab_detach_front_list_from_free_slabs al sz = Some (a, al') \<and> ca_slab al a = Some s \<and>
       same_fields al' al \<and> ca_slab al' = (ca_slab al)(a \<mapsto> s\<lparr>sl_stat_flag := 1\<rparr>) \<and> pending al' (R(?h \<mapsto> xs)) T i a B" if R: "R ?h = Some (a # xs)"
  proof -
    let ?R = "R(?h \<mapsto> xs)"
    obtain l c where d: "lists_ok (al\<lparr>ca_links := l, ca_count := c\<rparr>) ?R" "\<forall>x. c x = None \<longleftrightarrow> ca_count al x = None" "l_next l a \<noteq> None"
        "l_prev l a \<noteq> None" "list_del (ca_links al) a = Some l" "c = (ca_count al)(?h \<mapsto> of_nat (length xs))"
      using detach_ok [OF slab_wfD(3) [OF w], of ?h "[]" a xs] R by auto
    have ac: "a \<in> free_cells T R i" using R by (simp add: free_cells_def)
    then obtain s where s: "ca_slab al a = Some s" using contentD(5) [OF slab_wfD(4) [OF w] i] unfolding slab_at_def by blast
    let ?al = "al\<lparr>ca_slab := (ca_slab al)(a \<mapsto> s\<lparr>sl_stat_flag := 1\<rparr>)\<rparr>" and ?al' = "al\<lparr>ca_links := l, ca_count := c, ca_slab := (ca_slab al)(a \<mapsto> s\<lparr>sl_stat_flag := 1\<rparr>)\<rparr>"
    have sf: "same_fields ?al' al" by (simp add: same_fields_def same_limits_def)
    then have sc: "same_limits ?al' al" by (simp add: same_fields_def)
    have ha: "a \<noteq> ?h" using ringsD(2) [OF rings R] by auto
    have "slab_detach_front_list al ?h = Some (a, ?al')"
      using ring_first [OF rings R] cnt [OF R] ha d(5) s d(6) by (simp add: slab_detach_front_list_def)
    moreover have "pending ?al' ?R T i a B"
      unfolding pending_def
    proof (intro conjI)
      show "heads_ok ?al' T ?R" by (rule heads_same [OF h sf]) (use hm(1) [OF i] h in \<open>auto simp: heads_ok_def\<close>)
      show "config_ok ?al'" using slab_wfD(2) [OF w] same_limitsD(4) [OF sc] by simp
      show "lists_ok ?al' ?R" using d(1) by (simp add: lists_ok_def)
      show "i < classes ?al'" using i same_limitsD(1) [OF sc] by simp
      have "content ?al (all_heads T) ((free_cells T R)(i := free_cells T R i - {a})) ((used_cells T R)(i := insert a (used_cells T R i)))
          (the (R (h_huge T))) (pools T R) B"
        using content_restat [OF slab_wfD(2) [OF w] slab_wfD(4) [OF w] s i, of 1] ac by simp
      then have "content (?al\<lparr>ca_links := l, ca_count := c\<rparr>) (all_heads T) ((free_cells T R)(i := free_cells T R i - {a}))
          ((used_cells T R)(i := insert a (used_cells T R i))) (the (R (h_huge T))) (pools T R) B"
        by (rule content_links) (use d(2) in simp)
      moreover have "?al\<lparr>ca_links := l, ca_count := c\<rparr> = ?al'" by (cases al) simp
      moreover have "free_cells T ?R j = ((free_cells T R)(i := free_cells T R i - {a})) j \<and>
          ((used_cells T ?R)(i := insert a (used_cells T ?R i))) j = ((used_cells T R)(i := insert a (used_cells T R i))) j" if "j < classes ?al'" for j
        using that i hd(1,3) [of j i] hd(3) [of i j] hd(3) [of i i] ringsD(2) [OF rings R] R same_limitsD(1) [OF sc]
        by (auto simp: free_cells_def used_cells_def)
      moreover have "the (?R (h_huge T)) = the (R (h_huge T))" "pools T ?R = pools T R" using hd(4) [OF i] by (auto simp: pools_def)
      ultimately show "content ?al' (all_heads T) (free_cells T ?R) ((used_cells T ?R)(i := insert a (used_cells T ?R i))) (the (?R (h_huge T))) (pools T ?R) B"
        using content_cong [of ?al' "all_heads T" "(free_cells T R)(i := free_cells T R i - {a})"] by simp
      show "a \<notin> ring_nodes ?R" using ring_del_fresh [of "ca_links al" R ?h "[]" a xs] rings R by simp
      show "0 < a" by (rule cell_pos [OF slab_wfD(4) [OF w]]) (use ac i in \<open>auto simp: cells_def\<close>)
    qed (use d(3,4) in simp_all)
    ultimately show ?thesis using s sf unfolding dd by (intro exI [of _ ?al'] exI [of _ s]) simp
  qed
qed

text \<open>A pool with room is found or created.\<close>

lemma pick_pool_ok:
  assumes m: "malloc_ok E" and w: "slab_wf al R T B" and i: "i < classes al" and x: "slab_get_slab_index al sz = Some (int i)"
  shows "\<exists>p al' R'. pick_pool E al sz = Some (p, al') \<and>
     same_fields al' al \<and> slab_wf al' R' T B \<and> (\<forall>h. h \<noteq> h_pool T \<longrightarrow> h \<noteq> h_empty T \<longrightarrow> R' h = R h) \<and>
     (\<forall>y \<in> set (the (R (h_huge T))) \<union> cells al (free_cells T R) (used_cells T R). ca_slab al' y = ca_slab al y) \<and>
     (p = 0 \<longrightarrow> pool_refused E al) \<and> (p \<noteq> 0 \<longrightarrow> p \<in> set (pools T R') \<and> class_size al i + SLAB \<le> pool_depth al' p)"
proof -
  note h = slab_wfD(1) [OF w]
  have rings: "rings (ca_links al) R" using slab_wfD(3) [OF w] by (simp add: lists_ok_def)
  obtain ps where ps: "R (h_pool T) = Some ps" using heads_ring [OF h heads_mem(4) [OF h]] by blast
  have pos: "l_next (ca_links al) (h_pool T) = Some (hd (ps @ [h_pool T]))" by (rule ring_first [OF rings ps])
  have "\<exists>n. l_next (ca_links al) (hd (ps @ [h_pool T])) = Some n"
    using pos ring_next [of "ca_links al" R "h_pool T" "[]"] rings ps by (cases ps) auto
  then obtain n where n: "l_next (ca_links al) (hd (ps @ [h_pool T])) = Some n" by blast
  obtain p1 al1 R1 l c where f: "find_pool_loop al sz (hd (ps @ [h_pool T])) n (h_pool T) = Some (p1, al1)" "al1 = al\<lparr>ca_links := l, ca_count := c\<rparr>"
      "slab_wf al1 R1 T B" "\<forall>h. h \<noteq> h_pool T \<longrightarrow> h \<noteq> h_empty T \<longrightarrow> R1 h = R h"
      "p1 \<noteq> 0 \<longrightarrow> p1 \<in> set (pools T R1) \<and> class_size al i + SLAB \<le> pool_depth al p1"
    using find_pool_ok [OF w i x, of "[]" ps n, unfolded append_Nil, OF ps n] by blast
  have find: "mempool_find_appropriate_pool al sz = Some (p1, al1)"
    using h pos n f(1) by (simp add: mempool_find_appropriate_pool_def heads_ok_def)
  have sf1: "same_fields al1 al" "ca_slab al1 = ca_slab al" "pool_refused E al1 = pool_refused E al" "pool_depth al1 p = pool_depth al p" for p
    by (simp_all add: f(2) same_fields_def same_limits_def pool_depth_def pool_refused_def pool_capacity_def)
  show ?thesis
  proof (cases "p1 = 0")
    case False
    then have "pick_pool E al sz = Some (p1, al1)" using find by (simp add: pick_pool_def)
    then show ?thesis using False f(3-5) sf1 by (intro exI [of _ p1] exI [of _ al1] exI [of _ R1]) simp
  next
    case True
    note h1 = slab_wfD(1) [OF f(3)]
    obtain q al2 where cr: "mempool_create_list E al1 = Some (q, al2)" "same_fields al2 al1" "q = 0 \<longrightarrow> pool_refused E al1"
        "\<forall>y \<in> set (the (R1 (h_huge T))) \<union> cells al1 (free_cells T R1) (used_cells T R1). ca_slab al2 y = ca_slab al1 y"
        "if q = 0 then inv al2 R1 (all_heads T) (free_cells T R1) (used_cells T R1) (the (R1 (h_huge T))) (pools T R1) B
         else lists_ok al2 R1 \<and> content al2 (all_heads T) (free_cells T R1) (used_cells T R1) (the (R1 (h_huge T))) (q # pools T R1) B \<and>
           q \<notin> ring_nodes R1 \<and> l_next (ca_links al2) q \<noteq> None \<and> l_prev (ca_links al2) q \<noteq> None \<and> pool_depth al2 q = pool_capacity al1"
      using create_ok [OF m slab_wfD(6) [OF f(3)]] by blast
    have fs: "free_cells T R1 j = free_cells T R j" "used_cells T R1 j = used_cells T R j" if "j < classes al" for j
      using f(4) heads_distinct(4,5) [OF h that] by (simp_all add: free_cells_def used_cells_def)
    have hg: "R1 (h_huge T) = R (h_huge T)" using f(4) heads_distinct(6) [OF h] by simp
    have sc: "same_limits al1 al" "same_limits al2 al" "same_fields al2 al" using sf1(1) cr(2) by (simp_all add: same_fields_def same_limits_def)
    have "cells al1 (free_cells T R1) (used_cells T R1) = cells al (free_cells T R) (used_cells T R)"
      using fs same_limitsD(1) [OF sc(1)] by (auto simp: cells_def)
    then have slabs: "\<forall>y \<in> set (the (R (h_huge T))) \<union> cells al (free_cells T R) (used_cells T R). ca_slab al2 y = ca_slab al y"
      using cr(4) hg sf1(2) by simp
    show ?thesis
    proof (cases "q = 0")
      case True': True
      then have "slab_wf al2 R1 T B" using cr(2,5) heads_same [OF h1 cr(2)] by (simp add: slab_wf_def)
      moreover have "pick_pool E al sz = Some (0, al2)" using find True True' cr(1) by (simp add: pick_pool_def)
      ultimately show ?thesis using True' cr(3) sf1(3) f(4) sc(3) slabs by (intro exI [of _ 0] exI [of _ al2] exI [of _ R1]) simp
    next
      case False
      let ?R = "R1(h_pool T \<mapsto> q # the (R1 (h_pool T)))"
      note c5 = cr(5) [unfolded if_not_P [OF False]]
      obtain l' c' where a: "slab_attach_list al2 q (h_pool T) = Some (al2\<lparr>ca_links := l', ca_count := c'\<rparr>)"
          "lists_ok (al2\<lparr>ca_links := l', ca_count := c'\<rparr>) ?R" "\<forall>x. c' x = None \<longleftrightarrow> ca_count al2 x = None"
        using attach_ok [of al2 R1 "h_pool T" "the (R1 (h_pool T))" q] c5 heads_ring [OF h1 heads_mem(4) [OF h1]] by blast
      let ?al = "al2\<lparr>ca_links := l', ca_count := c'\<rparr>"
      have sf: "same_fields ?al al1" using cr(2) by (simp add: same_fields_def same_limits_def)
      have hd1: "h_pool T \<noteq> h_huge T" "h_pool T \<noteq> h_empty T" using heads_distinct(6) [OF h1] by auto
      have "slab_wf ?al ?R T B"
      proof (rule slab_wfI)
        show "heads_ok ?al T ?R" by (rule heads_same [OF h1 sf]) (use heads_mem(4) [OF h1] h1 in \<open>auto simp: heads_ok_def\<close>)
        show "config_ok ?al" using slab_wfD(2) [OF f(3)] sf by (simp add: same_fields_def same_limitsD(4) [of ?al al1])
        show "lists_ok ?al ?R" by (rule a(2))
        show "content ?al (all_heads T) (free_cells T R1) (used_cells T R1) (the (?R (h_huge T))) (q # pools T R1) B"
          using content_links [of al2 "all_heads T" _ _ _ _ B c' l'] c5 a(3) hd1 by simp
        show "free_cells T ?R j = free_cells T R1 j \<and> used_cells T ?R j = used_cells T R1 j" if "j < classes ?al" for j
          using heads_distinct(4,5) [OF h1, of j] that sf by (auto simp: free_cells_def used_cells_def same_fields_def same_limitsD(1) [of ?al al1])
        show "mset (pools T ?R) = mset (q # pools T R1)" using hd1 by (simp add: pools_def)
      qed
      moreover have "ca_pool al2 = Some (h_pool T)" using h1 cr(2) by (simp add: heads_ok_def same_fields_def)
      moreover have "class_size al i + SLAB \<le> pool_depth ?al q"
        using c5 class_size_bound [OF slab_wfD(2) [OF w] i] same_limitsD(3) [OF sc(1)] by (simp add: pool_depth_def)
      moreover have "q \<in> set (pools T ?R)" "\<forall>h. h \<noteq> h_pool T \<longrightarrow> h \<noteq> h_empty T \<longrightarrow> ?R h = R h" using hd1 f(4) by (simp_all add: pools_def)
      moreover have "same_fields ?al al" by (rule same_fields_trans [OF sf sf1(1)])
      moreover have "pick_pool E al sz = Some (q, ?al)"
        using find True False cr(1) a(1) \<open>ca_pool al2 = Some (h_pool T)\<close> by (simp add: pick_pool_def mempool_list_eq)
      ultimately show ?thesis using False slabs by (intro exI [of _ q] exI [of _ ?al] exI [of _ ?R]) simp
    qed
  qed
qed

text \<open>A cell is cut from it.\<close>

lemma mempool_alloc_ok:
  assumes m: "malloc_ok E" and w: "slab_wf al R T B" and i: "i < classes al" and x: "slab_get_slab_index al sz = Some (int i)"
    and sz: "unat sz \<le> class_size al i"
  shows "\<exists>b al' R'. mempool_alloc_slab_list E al sz = Some (b, al') \<and> same_fields al' al \<and> (\<forall>h. h \<noteq> h_pool T \<longrightarrow> h \<noteq> h_empty T \<longrightarrow> R' h = R h) \<and>
     (\<forall>y \<in> set (the (R (h_huge T))) \<union> cells al (free_cells T R) (used_cells T R). ca_slab al' y = ca_slab al y) \<and>
     (b = 0 \<longrightarrow> pool_refused E al) \<and> (if b = 0 then slab_wf al' R' T B else pending al' R' T i b B)"
proof -
  obtain p al2 R' where p: "pick_pool E al sz = Some (p, al2)" "same_fields al2 al" "slab_wf al2 R' T B" "\<forall>h. h \<noteq> h_pool T \<longrightarrow> h \<noteq> h_empty T \<longrightarrow> R' h = R h"
      "\<forall>y \<in> set (the (R (h_huge T))) \<union> cells al (free_cells T R) (used_cells T R). ca_slab al2 y = ca_slab al y"
      "p = 0 \<longrightarrow> pool_refused E al" "p \<noteq> 0 \<longrightarrow> p \<in> set (pools T R') \<and> class_size al i + SLAB \<le> pool_depth al2 p"
    using pick_pool_ok [OF m w i x] by blast
  show ?thesis
  proof (cases "p = 0")
    case True
    then have "mempool_alloc_slab_list E al sz = Some (0, al2)" using p(1) by (simp add: mempool_alloc_slab_list_def)
    then show ?thesis using True p(2-6) by (intro exI [of _ 0] exI [of _ al2] exI [of _ R']) simp
  next
    case False
    have sc: "same_limits al2 al" using p(2) by (simp add: same_fields_def)
    note sd = same_limitsD [OF sc]
    note w2 = slab_wfD [OF p(3)]
    have pm: "p \<in> set (pools T R')" "class_size al2 i + SLAB \<le> pool_depth al2 p" using p(7) False sd(2) by simp_all
    obtain mp where mp: "ca_mempool al2 p = Some mp" "mp_size mp = int (pool_capacity al2)" "mp_depth mp = int (pool_depth al2 p)" "mp_start mp = pool_start al2 p"
        "pool_depth al2 p \<le> pool_capacity al2"
      using contentD(4) [OF w2(4) pm(1)] by (auto simp: pool_ok_def pool_depth_def pool_start_def)
    obtain v where v: "mempool_get_real_alloc_mem_size al2 sz = Some v" "unat v = class_size al2 i"
      using real_size [OF w2(2), of i sz] i x sd(1) index_same [OF sc] by auto
    have bound: "class_size al2 i + SLAB \<le> pool_capacity al2" "pool_capacity al2 < 2 ^ 31"
      using class_size_bound [OF w2(2), of i] i sd(1) w2(2) by (auto simp: config_ok_def)
    define a where "a = pool_start al2 p + (pool_capacity al2 - pool_depth al2 p)"
    define s where "s = (libc_slab E)\<lparr>sl_size := v, sl_data_size := sz, sl_mem_addr := a + SLAB, sl_stat_flag := 1, sl_slab_size := v + of_nat SLAB\<rparr>"
    have su: "unat (v + of_nat SLAB) = class_size al2 i + SLAB" using v(2) bound by (simp add: unat_word_ariths)
    have depth: "sint (of_int (mp_depth mp) - (v + of_nat SLAB)) = mp_depth mp - int (class_size al2 i + SLAB)"
    proof -
      have d: "unat (of_int (mp_depth mp) :: u32) = pool_depth al2 p" using mp(3,5) bound(2) by (simp add: unsigned_of_nat take_bit_nat_eq_self)
      have "v + of_nat SLAB \<le> (of_int (mp_depth mp) :: u32)" using d su pm(2) by (simp add: word_le_nat_alt)
      then have "unat ((of_int (mp_depth mp) :: u32) - (v + of_nat SLAB)) = pool_depth al2 p - (class_size al2 i + SLAB)"
        using d su by (simp add: unat_sub)
      then show ?thesis using sint_small [of "(of_int (mp_depth mp) :: u32) - (v + of_nat SLAB)"] mp(3,5) bound(2) pm(2) by simp
    qed
    define al3 where "al3 = al2\<lparr>ca_slab := (ca_slab al2)(a \<mapsto> s), ca_mempool := (ca_mempool al2)(p \<mapsto> mp\<lparr>mp_depth := mp_depth mp - int (class_size al2 i + SLAB)\<rparr>)\<rparr>"
    define al4 where "al4 = al3\<lparr>ca_links := new_node (ca_links al2) a ()\<rparr>"
    have i2: "i < classes al2" using i sd(1) by simp
    have cv: "content al3 (all_heads T) (free_cells T R') ((used_cells T R')(i := insert a (used_cells T R' i))) (the (R' (h_huge T))) (pools T R') B"
        "a \<notin> set (all_heads T) \<union> set (pools T R') \<union> set (the (R' (h_huge T))) \<union> cells al2 (free_cells T R') (used_cells T R')" "0 < a"
      using content_carve [OF w2(2,4) pm(1) mp(1) i2 pm(2), of s] v(2) by (simp_all add: s_def al3_def a_def)
    have an: "a \<notin> ring_nodes R'" using cv(2) w2(5) by blast
    have "mempool_alloc_slab_list E al sz = Some (a, al4)"
    proof -
      have "(pool_start al2 p, pool_capacity al2) \<in> set (ca_blocks al2)"
        using content_blocks(2) [OF w2(4)] pm(1) by (auto simp: slab_owned_def pool_blocks_def)
      then have blk: "map_of (ca_blocks al2) (mp_start mp) = Some (pool_capacity al2)" using contentD(2) [OF w2(4)] by (simp add: heap_ok_def mp(4))
      have off: "0 \<le> mp_size mp - mp_depth mp \<and> mp_size mp - mp_depth mp + int SLAB \<le> int (pool_capacity al2)" using mp(2,3,5) pm(2) by simp
      have "sz \<le> v" using sz v(2) sd(2) by (simp add: word_le_nat_alt)
      moreover have "mp_start mp + nat (mp_size mp - mp_depth mp) = a" using mp by (simp add: a_def nat_diff_distrib)
      ultimately show ?thesis using p(1) False mp(1) blk off v(1) depth by (simp add: mempool_alloc_slab_list_def Let_def al4_def al3_def s_def)
    qed
    moreover have "pending al4 R' T i a B"
      unfolding pending_def
    proof (intro conjI)
      have sf: "same_fields al4 al2" by (simp add: al4_def al3_def same_fields_def same_limits_def)
      show "heads_ok al4 T R'" by (rule heads_same [OF w2(1) sf]) simp
      show "config_ok al4" using w2(2) sf by (simp add: same_fields_def same_limitsD(4) [of al4 al2])
      show "i < classes al4" using i2 sf by (simp add: same_fields_def same_limitsD(1) [of al4 al2])
      show "lists_ok al4 R'" using w2(3) ring_place [of "ca_links al2" R' a "()"] an by (simp add: lists_ok_def al4_def al3_def)
      show "content al4 (all_heads T) (free_cells T R') ((used_cells T R')(i := insert a (used_cells T R' i))) (the (R' (h_huge T))) (pools T R') B"
        using content_links [OF cv(1), of "ca_count al3" "new_node (ca_links al2) a ()"] by (simp add: al4_def)
    qed (use an cv(3) in \<open>simp_all add: al4_def new_node_def\<close>)
    moreover have "same_fields al4 al" using p(2) by (simp add: al4_def al3_def same_fields_def same_limits_def)
    moreover have "ca_slab al4 y = ca_slab al y" if "y \<in> set (the (R (h_huge T))) \<union> cells al (free_cells T R) (used_cells T R)" for y
    proof -
      have "free_cells T R' j = free_cells T R j" "used_cells T R' j = used_cells T R j" if "j < classes al" for j
        using p(4) heads_distinct(4,5) [OF slab_wfD(1) [OF w] that] by (simp_all add: free_cells_def used_cells_def)
      then have "cells al2 (free_cells T R') (used_cells T R') = cells al (free_cells T R) (used_cells T R)" using sd(1) by (auto simp: cells_def)
      moreover have "R' (h_huge T) = R (h_huge T)" using p(4) heads_distinct(6) [OF slab_wfD(1) [OF w]] by simp
      ultimately have "y \<noteq> a" using cv(2) that by auto
      then show ?thesis using p(5) that by (simp add: al4_def al3_def)
    qed
    ultimately show ?thesis using p(4) cv(3) by (intro exI [of _ a] exI [of _ al4] exI [of _ R']) simp
  qed
qed

text \<open>The slabs in use.\<close>

definition in_use :: "allocator \<Rightarrow> slab_heads \<Rightarrow> (nat \<rightharpoonup> nat list) \<Rightarrow> nat set" where
  "in_use al T R = {a. \<exists>i<classes al. a \<in> used_cells T R i} \<union> set (the (R (h_huge T)))"

lemma in_use_sub: "in_use al T R \<subseteq> set (the (R (h_huge T))) \<union> cells al (free_cells T R) (used_cells T R)"
  by (auto simp: in_use_def cells_def)

text \<open>What an allocation does: a slab \<open>a\<close> that was not in use, of at least the size asked for, comes into use.\<close>

definition alloc_effect :: "libc \<Rightarrow> allocator \<Rightarrow> (nat \<rightharpoonup> nat list) \<Rightarrow> slab_heads \<Rightarrow> (nat \<times> nat) list \<Rightarrow> u32 \<Rightarrow> nat \<Rightarrow> allocator \<Rightarrow> (nat \<rightharpoonup> nat list) \<Rightarrow> bool" where
  "alloc_effect E al R T B sz p al' R' \<longleftrightarrow> slab_wf al' R' T B \<and> ca_type al' = ca_type al \<and> ca_self al' = ca_self al \<and> ca_free_p al' = ca_free_p al \<and>
     ca_used_p al' = ca_used_p al \<and> (\<forall>a \<in> in_use al T R. map_option sl_size (ca_slab al' a) = map_option sl_size (ca_slab al a)) \<and>
     (p = 0 \<longrightarrow> slab_refused E al sz) \<and>
     (if p = 0 then in_use al' T R' = in_use al T R \<and> ca_alloc_count al' \<in> {ca_alloc_count al, ca_alloc_count al + 1}
      else \<exists>a. p = a + SLAB \<and> a \<notin> in_use al T R \<and> in_use al' T R' = insert a (in_use al T R) \<and> unat sz + SLAB \<le> extent al' a \<and>
        ca_alloc_count al' = ca_alloc_count al + 1)"

lemma alloc_finish:
  assumes w: "slab_wf al R T B" and p: "pending al2 R2 T i b B" and x: "slab_get_slab_index al sz = Some (int i)" and sz: "unat sz \<le> class_size al i"
    and sf: "same_fields al2 al" and slab: "\<forall>y \<in> in_use al T R. map_option sl_size (ca_slab al2 y) = map_option sl_size (ca_slab al y)"
    and use: "\<And>j. j < classes al \<Longrightarrow> used_cells T R2 j = used_cells T R j" "R2 (h_huge T) = R (h_huge T)" and b: "b \<notin> in_use al T R"
  shows "\<exists>al' R'. (do { al3 \<leftarrow> slab_attach_list_to_used_slabs al2 b sz; Some (b + SLAB, al3\<lparr>ca_alloc_count := ca_alloc_count al3 + 1\<rparr>) }) = Some (b + SLAB, al') \<and>
    alloc_effect E al R T B sz (b + SLAB) al' R'"
proof -
  have sc: "same_limits al2 al" using sf by (simp add: same_fields_def)
  note sd = same_limitsD [OF sc]
  have i: "i < classes al" using pendingD(4) [OF p] sd(1) by simp
  define R' where "R' = R2(h_used T ! i \<mapsto> b # the (R2 (h_used T ! i)))"
  obtain l c where a: "slab_attach_list_to_used_slabs al2 b sz = Some (al2\<lparr>ca_links := l, ca_count := c\<rparr>)" "slab_wf (al2\<lparr>ca_links := l, ca_count := c\<rparr>) R' T B"
    using pending_attach [OF p, of sz] x index_same [OF sc, of sz] unfolding R'_def by metis
  define al' where "al' = al2\<lparr>ca_links := l, ca_count := c, ca_alloc_count := ca_alloc_count al2 + 1\<rparr>"
  have al': "al' = (al2\<lparr>ca_links := l, ca_count := c\<rparr>)\<lparr>ca_alloc_count := ca_alloc_count al2 + 1\<rparr>" by (simp add: al'_def)
  have "slab_wf al' R' T B"
  proof -
    have "content al' hs F U H P B'" if "content (al2\<lparr>ca_links := l, ca_count := c\<rparr>) hs F U H P B'" for hs F U H P B'
      by (rule content_frame [OF that]) (use contentD(1-3) [OF that] in \<open>auto simp: al'_def same_limits_def\<close>)
    moreover have "heads_ok al' T R' = heads_ok (al2\<lparr>ca_links := l, ca_count := c\<rparr>) T R'" "lists_ok al' R' = lists_ok (al2\<lparr>ca_links := l, ca_count := c\<rparr>) R'"
      "config_ok al' = config_ok (al2\<lparr>ca_links := l, ca_count := c\<rparr>)" "cells al' = cells (al2\<lparr>ca_links := l, ca_count := c\<rparr>)"
      by (simp_all add: al'_def heads_ok_def lists_ok_def config_ok_def classes_def pool_capacity_def class_size_def cells_def fun_eq_iff)
    ultimately show ?thesis using a(2) by (simp add: slab_wf_def inv_def)
  qed
  moreover have "in_use al' T R' = insert b (in_use al T R)"
  proof -
    have c: "classes al' = classes al" using sd(1) by (simp add: al'_def classes_def)
    have u: "used_cells T R' j = (if j = i then insert b (used_cells T R j) else used_cells T R j)" if "j < classes al" for j
      using that use(1) [OF that] heads_distinct(2) [OF pendingD(1) [OF p], of j i] i sd(1) by (auto simp: used_cells_def R'_def)
    have "the (R' (h_huge T)) = the (R (h_huge T))" using use(2) heads_distinct(5) [OF pendingD(1) [OF p], of i] i sd(1) by (simp add: R'_def)
    then show ?thesis using u i by (auto simp: in_use_def c split: if_splits)
  qed
  moreover have "unat sz + SLAB \<le> extent al' b"
  proof -
    have "slab_at al2 i b True" using contentD(6) [OF pendingD(5) [OF p] pendingD(4) [OF p], of b] by simp
    then show ?thesis using sz sd(2) by (auto simp: slab_at_def extent_def al'_def)
  qed
  moreover have "(do { al3 \<leftarrow> slab_attach_list_to_used_slabs al2 b sz; Some (b + SLAB, al3\<lparr>ca_alloc_count := ca_alloc_count al3 + 1\<rparr>) }) = Some (b + SLAB, al')"
    using a(1) by (simp add: al'_def)
  moreover have "ca_slab al' = ca_slab al2" "ca_alloc_count al' = ca_alloc_count al + 1" "ca_type al' = ca_type al" "ca_self al' = ca_self al"
    "ca_free_p al' = ca_free_p al" "ca_used_p al' = ca_used_p al" using sf by (simp_all add: al'_def same_fields_def)
  ultimately show ?thesis using slab b unfolding alloc_effect_def by (intro exI [of _ al'] exI [of _ R']) simp
qed

lemma alloc_normal_ok:
  assumes m: "malloc_ok E" and w: "slab_wf al R T B" and i: "i < classes al" and x: "slab_get_slab_index al sz = Some (int i)"
    and sz: "unat sz \<le> class_size al i" and small: "\<not> class_size al (classes al - 1) < unat sz"
  shows "\<exists>p al' R'. alloc_normal_slab E al sz = Some (p, al') \<and> alloc_effect E al R T B sz p al' R'"
proof -
  note h = slab_wfD(1) [OF w]
  have rings: "rings (ca_links al) R" using slab_wfD(3) [OF w] by (simp add: lists_ok_def)
  obtain ws where ws: "R (h_free T ! i) = Some ws" using heads_ring [OF h heads_mem(1) [OF h i]] by blast
  show ?thesis
  proof (cases ws)
    case (Cons a xs)
    define R2 where "R2 = R(h_free T ! i \<mapsto> xs)"
    obtain al2 s where d: "slab_detach_front_list_from_free_slabs al sz = Some (a, al2)" "ca_slab al a = Some s" "same_fields al2 al"
        "ca_slab al2 = (ca_slab al)(a \<mapsto> s\<lparr>sl_stat_flag := 1\<rparr>)" "pending al2 R2 T i a B"
      using detach_front_ok(2) [OF w i x, of a xs] ws Cons unfolding R2_def by blast
    have use: "used_cells T R2 j = used_cells T R j" "R2 (h_huge T) = R (h_huge T)" if "j < classes al" for j
      using heads_distinct(3) [OF h i that] heads_distinct(4) [OF h i] by (auto simp: used_cells_def R2_def)
    have "a \<in> free_cells T R i" using ws Cons by (simp add: free_cells_def)
    then have sa: "slab_at al i a False" using contentD(5) [OF slab_wfD(4) [OF w] i] by blast
    have "a \<notin> in_use al T R"
      using contentD(6) [OF slab_wfD(4) [OF w], of _ a] class_unique [OF slab_wfD(2) [OF w] sa] contentD(9) [OF slab_wfD(4) [OF w], of a]
        huge_not_cell [OF slab_wfD(2) [OF w] i sa] unfolding in_use_def by blast
    moreover have "\<forall>y \<in> in_use al T R. map_option sl_size (ca_slab al2 y) = map_option sl_size (ca_slab al y)" using d(2,4) by simp
    ultimately obtain al' R' where "(do { al3 \<leftarrow> slab_attach_list_to_used_slabs al2 a sz; Some (a + SLAB, al3\<lparr>ca_alloc_count := ca_alloc_count al3 + 1\<rparr>) }) = Some (a + SLAB, al')"
        "alloc_effect E al R T B sz (a + SLAB) al' R'"
      using alloc_finish [OF w d(5) x sz d(3) _ use(1) use(2) [OF i], of E] by blast
    moreover have "a \<noteq> 0" using pendingD(9) [OF d(5)] by simp
    ultimately show ?thesis using d(1) by (auto simp: alloc_normal_slab_def)
  next
    case Nil
    have d: "slab_detach_front_list_from_free_slabs al sz = Some (0, al)" using detach_front_ok(1) [OF w i x] ws Nil by simp
    obtain b al2 R2 where b: "mempool_alloc_slab_list E al sz = Some (b, al2)" "same_fields al2 al" "\<forall>h. h \<noteq> h_pool T \<longrightarrow> h \<noteq> h_empty T \<longrightarrow> R2 h = R h"
        "\<forall>y \<in> set (the (R (h_huge T))) \<union> cells al (free_cells T R) (used_cells T R). ca_slab al2 y = ca_slab al y"
        "b = 0 \<longrightarrow> pool_refused E al" "if b = 0 then slab_wf al2 R2 T B else pending al2 R2 T i b B"
      using mempool_alloc_ok [OF m w i x sz] by blast
    have use: "used_cells T R2 j = used_cells T R j" "free_cells T R2 j = free_cells T R j" if "j < classes al" for j
      using b(3) heads_distinct(4,5) [OF h that] by (simp_all add: used_cells_def free_cells_def)
    have hg: "R2 (h_huge T) = R (h_huge T)" using b(3) heads_distinct(6) [OF h] by simp
    have cl: "classes al2 = classes al" using b(2) by (simp add: same_fields_def same_limitsD)
    have slab: "\<forall>y \<in> in_use al T R. map_option sl_size (ca_slab al2 y) = map_option sl_size (ca_slab al y)" using b(4) in_use_sub [of al T R] by auto
    show ?thesis
    proof (cases "b = 0")
      case True
      have "in_use al2 T R2 = in_use al T R" using use(1) hg cl by (auto simp: in_use_def)
      then have "alloc_effect E al R T B sz 0 al2 R2" using b(2,5,6) True slab small by (simp add: alloc_effect_def same_fields_def slab_refused_def)
      then show ?thesis using d b(1) True by (auto simp: alloc_normal_slab_def)
    next
      case False
      then have p: "pending al2 R2 T i b B" using b(6) by simp
      have "b \<notin> in_use al T R"
      proof
        assume "b \<in> in_use al T R"
        then consider j where "j < classes al" "b \<in> used_cells T R2 j" | "b \<in> set (the (R2 (h_huge T)))"
          using use(1) hg unfolding in_use_def by auto
        then have "b \<in> ring_nodes R2"
        proof cases
          case 1
          then show ?thesis using heads_ring [OF pendingD(1) [OF p] heads_mem(2) [OF pendingD(1) [OF p]], of j] cl
              ring_nodesI [of R2 "h_used T ! j" _ b] by (simp add: used_cells_def)
        next
          case 2
          then show ?thesis using heads_ring [OF pendingD(1) [OF p] heads_mem(3) [OF pendingD(1) [OF p]]] ring_nodesI [of R2 "h_huge T" _ b] by simp
        qed
        then show False using pendingD(6) [OF p] by simp
      qed
      then obtain al' R' where "(do { al3 \<leftarrow> slab_attach_list_to_used_slabs al2 b sz; Some (b + SLAB, al3\<lparr>ca_alloc_count := ca_alloc_count al3 + 1\<rparr>) }) = Some (b + SLAB, al')"
          "alloc_effect E al R T B sz (b + SLAB) al' R'"
        using alloc_finish [OF w p x sz b(2) slab use(1) hg, of E] by blast
      then show ?thesis using d b(1) False by (auto simp: alloc_normal_slab_def)
    qed
  qed
qed

lemma alloc_huge_ok:
  assumes m: "malloc_ok E" and w: "slab_wf al R T B" and sz: "class_size al (classes al - 1) < unat sz"
  shows "\<exists>p al' R'. alloc_huge_slab E al sz = Some (p, al') \<and> alloc_effect E al R T B sz p al' R'"
proof -
  define al0 where "al0 = al\<lparr>ca_alloc_count := ca_alloc_count al + 1\<rparr>"
  obtain a al1 where a: "sys_malloc E al0 (unat sz + SLAB) = (a, al1)" by (cases "sys_malloc E al0 (unat sz + SLAB)")
  note h = slab_wfD(1) [OF w]
  note hd = heads_distinct [OF h] and hm = heads_mem [OF h]
  have "inv al0 R (all_heads T) (free_cells T R) (used_cells T R) (the (R (h_huge T))) (pools T R) B"
  proof -
    have "content al0 (all_heads T) (free_cells T R) (used_cells T R) (the (R (h_huge T))) (pools T R) B"
      by (rule content_frame [OF slab_wfD(4) [OF w]]) (use contentD(1-3) [OF slab_wfD(4) [OF w]] in \<open>auto simp: al0_def same_limits_def\<close>)
    then show ?thesis using slab_wfD(2,3,5) [OF w] by (simp add: inv_def al0_def lists_ok_def config_ok_def classes_def pool_capacity_def class_size_def cells_def)
  qed
  note mi = malloc_inv [OF m this a]
  obtain c where al1: "al1 = al0\<lparr>ca_calls := c, ca_blocks := (if a = 0 then ca_blocks al0 else (a, unat sz + SLAB) # ca_blocks al0)\<rparr>" using mi(2) by blast
  have nz: "a = 0 \<Longrightarrow> slab_refused E al sz" using a sz by (auto simp: sys_malloc_def Let_def slab_refused_def al0_def split: if_splits)
  have cfg: "classes al1 = classes al" "class_size al1 = class_size al" by (simp_all add: al1 al0_def classes_def class_size_def fun_eq_iff)
  show ?thesis
  proof (cases "a = 0")
    case True
    have "heads_ok al1 T R" using h by (simp add: heads_ok_def al1 al0_def classes_def)
    then have "slab_wf al1 R T B" using mi(1) True by (simp add: slab_wf_def)
    moreover have "in_use al1 T R = in_use al T R" by (simp add: in_use_def cfg)
    ultimately have "alloc_effect E al R T B sz 0 al1 R" using True nz by (simp add: alloc_effect_def al1 al0_def)
    moreover have "alloc_huge_slab E al sz = Some (0, al1)" using a True by (simp add: alloc_huge_slab_def al0_def)
    ultimately show ?thesis by blast
  next
    case False
    define s where "s = (libc_slab E)\<lparr>sl_data_size := sz, sl_size := sz, sl_slab_size := sz + of_nat SLAB, sl_stat_flag := 1\<rparr>"
    define al2 where "al2 = al1\<lparr>ca_slab := (ca_slab al1)(a \<mapsto> s)\<rparr>"
    define al3 where "al3 = al1\<lparr>ca_slab := (ca_slab al1)(a \<mapsto> s), ca_links := new_node (ca_links al1) a ()\<rparr>"
    have i1: "inv al1 R (all_heads T) (free_cells T R) (used_cells T R) (the (R (h_huge T))) (pools T R) ((a, unat (sl_size s) + SLAB) # B)"
      using mi(1) False by (simp add: s_def)
    have su: "class_size al1 (classes al1 - 1) < unat (sl_size s)" "sl_stat_flag s \<noteq> 0" using sz cfg by (simp_all add: s_def)
    note ad = content_adopt_huge [OF invD(3) [OF i1] su, folded al2_def]
    have an: "a \<notin> ring_nodes R" using invD(4) [OF i1] ad(2) by blast
    have l3: "lists_ok al3 R" using invD(2) [OF i1] ring_place [of "ca_links al1" R a "()"] an by (simp add: lists_ok_def al3_def)
    let ?R = "R(h_huge T \<mapsto> a # the (R (h_huge T)))"
    obtain l k where at: "slab_attach_list al3 a (h_huge T) = Some (al3\<lparr>ca_links := l, ca_count := k\<rparr>)" "lists_ok (al3\<lparr>ca_links := l, ca_count := k\<rparr>) ?R"
        "\<forall>x. k x = None \<longleftrightarrow> ca_count al3 x = None"
      using attach_ok [OF l3 heads_ring [OF h hm(3)] an] by (auto simp: al3_def new_node_def)
    let ?al = "al3\<lparr>ca_links := l, ca_count := k\<rparr>"
    have ae: "?al = al2\<lparr>ca_links := l, ca_count := k\<rparr>" by (simp add: al3_def al2_def)
    have "slab_wf ?al ?R T B"
    proof (rule slab_wfI)
      show "heads_ok ?al T ?R" using h hm(3) by (auto simp: heads_ok_def al3_def al1 al0_def classes_def)
      show "config_ok ?al" using slab_wfD(2) [OF w] by (simp add: al3_def al1 al0_def config_ok_def classes_def pool_capacity_def class_size_def)
      show "content ?al (all_heads T) (free_cells T R) (used_cells T R) (the (?R (h_huge T))) (pools T R) B"
        unfolding ae using content_links [OF ad(1), of k l] at(3) by (simp add: al3_def al2_def)
      show "free_cells T ?R j = free_cells T R j \<and> used_cells T ?R j = used_cells T R j" if "j < classes ?al" for j
      proof -
        have "j < classes al" using that by (simp add: al3_def al1 al0_def classes_def)
        then show ?thesis using hd(4,5) by (auto simp: free_cells_def used_cells_def)
      qed
      show "mset (pools T ?R) = mset (pools T R)" using hd(6) by (simp add: pools_def)
    qed (rule at(2))
    moreover have "in_use ?al T ?R = insert a (in_use al T R)"
      using hd(5) by (auto simp: in_use_def used_cells_def al3_def al1 al0_def classes_def)
    moreover have au: "a \<notin> in_use al T R"
    proof -
      have "cells al1 (free_cells T R) (used_cells T R) = cells al (free_cells T R) (used_cells T R)" by (simp add: cells_def cfg)
      then show ?thesis using ad(2) in_use_sub [of al T R] by auto
    qed
    moreover have "ca_slab ?al y = ca_slab al y" if "y \<in> in_use al T R" for y using au that by (auto simp: al3_def al1 al0_def)
    moreover have "extent ?al a = unat sz + SLAB" by (simp add: extent_def al3_def s_def)
    ultimately have "alloc_effect E al R T B sz (a + SLAB) ?al ?R" by (simp add: alloc_effect_def al3_def al1 al0_def)
    moreover have "ca_huge al1 = Some (h_huge T)" using h by (simp add: heads_ok_def al1 al0_def)
    then have "alloc_huge_slab E al sz = Some (a + SLAB, ?al)"
      using a False at(1) by (simp add: alloc_huge_slab_def al0_def al3_def s_def Let_def)
    ultimately show ?thesis by blast
  qed
qed

lemma ctr_alloc_ok:
  assumes m: "malloc_ok E" and w: "slab_wf al R T B"
  shows "\<exists>p al' R'. ctr_alloc E al sz = Some (p, al') \<and> alloc_effect E al R T B sz p al' R'"
proof (cases "class_size al (classes al - 1) < unat sz")
  case True
  then show ?thesis using alloc_huge_ok [OF m w True] index_cases(1) [OF slab_wfD(2) [OF w] True] by (simp add: ctr_alloc_def)
next
  case False
  then obtain i where i: "i < classes al" "slab_get_slab_index al sz = Some (int i)" "unat sz \<le> class_size al i"
    using index_cases(2) [OF slab_wfD(2) [OF w], of sz] by auto
  have "unat sz \<le> pool_capacity al" using i(3) class_size_bound [OF slab_wfD(2) [OF w] i(1)] by simp
  then have "\<not> sz > mempool_capacity al" by (simp add: word_less_nat_alt pool_capacity_def)
  then show ?thesis using alloc_normal_ok [OF m w i(1,2,3) False] i(2) by (simp add: ctr_alloc_def)
qed

subsection \<open>Release\<close>

definition free_effect :: "allocator \<Rightarrow> (nat \<rightharpoonup> nat list) \<Rightarrow> slab_heads \<Rightarrow> (nat \<times> nat) list \<Rightarrow> nat \<Rightarrow> allocator \<Rightarrow> (nat \<rightharpoonup> nat list) \<Rightarrow> bool" where
  "free_effect al R T B a al' R' \<longleftrightarrow> slab_wf al' R' T B \<and> ca_type al' = ca_type al \<and> ca_self al' = ca_self al \<and> ca_free_p al' = ca_free_p al \<and>
     ca_used_p al' = ca_used_p al \<and> (\<forall>b \<in> in_use al T R - {a}. map_option sl_size (ca_slab al' b) = map_option sl_size (ca_slab al b)) \<and>
     in_use al' T R' = in_use al T R - {a} \<and> ca_alloc_count al' = ca_alloc_count al - 1"

lemma slab_wf_count: "slab_wf al R T B \<Longrightarrow> slab_wf (al\<lparr>ca_alloc_count := n\<rparr>) R T B"
proof -
  assume w: "slab_wf al R T B"
  let ?al = "al\<lparr>ca_alloc_count := n\<rparr>"
  have "content ?al (all_heads T) (free_cells T R) (used_cells T R) (the (R (h_huge T))) (pools T R) B"
    by (rule content_frame [OF slab_wfD(4) [OF w]]) (use contentD(1-3) [OF slab_wfD(4) [OF w]] in \<open>auto simp: same_limits_def\<close>)
  then show ?thesis using slab_wfD(1-3,5) [OF w]
    by (simp add: slab_wf_def inv_def lists_ok_def heads_ok_def config_ok_def classes_def pool_capacity_def class_size_def cells_def)
qed

lemma used_not_huge:
  assumes w: "slab_wf al R T B" and i: "i < classes al" and a: "a \<in> used_cells T R i"
  shows "a \<notin> set (the (R (h_huge T)))" "j < classes al \<Longrightarrow> j \<noteq> i \<Longrightarrow> a \<notin> used_cells T R j"
proof -
  have s: "slab_at al i a True" using contentD(6) [OF slab_wfD(4) [OF w] i a] .
  show "a \<notin> set (the (R (h_huge T)))" using contentD(9) [OF slab_wfD(4) [OF w], of a] huge_not_cell [OF slab_wfD(2) [OF w] i s] by blast
  show "j < classes al \<Longrightarrow> j \<noteq> i \<Longrightarrow> a \<notin> used_cells T R j"
    using contentD(6) [OF slab_wfD(4) [OF w], of j a] class_unique [OF slab_wfD(2) [OF w] s] by blast
qed

lemma free_normal_ok:
  assumes w: "slab_wf al R T B" and i: "i < classes al" and a: "a \<in> used_cells T R i"
  shows "\<exists>al' R'. free_normal_slab al a = Some al' \<and> free_effect al R T B a al' R'"
proof -
  note h = slab_wfD(1) [OF w]
  note hd = heads_distinct [OF h] and hm = heads_mem [OF h]
  let ?u = "h_used T ! i" and ?f = "h_free T ! i"
  have rings: "rings (ca_links al) R" using slab_wfD(3) [OF w] by (simp add: lists_ok_def)
  obtain s where s: "ca_slab al a = Some s" "unat (sl_size s) = class_size al i"
    using contentD(6) [OF slab_wfD(4) [OF w] i a] unfolding slab_at_def by blast
  have x: "slab_get_slab_index al (sl_size s) = Some (int i)" by (rule index_class [OF slab_wfD(2) [OF w] i s(2)])
  obtain xs ys where R: "R ?u = Some (xs @ a # ys)"
    using a heads_ring [OF h hm(2) [OF i]] split_list [of a "the (R ?u)"] unfolding used_cells_def by metis
  define R1 where "R1 = R(?u \<mapsto> xs @ ys)"
  define R2 where "R2 = R1(?f \<mapsto> a # the (R ?f))"
  obtain l1 c1 where d: "slab_detach_list al a ?u = Some (al\<lparr>ca_links := l1, ca_count := c1\<rparr>)" "lists_ok (al\<lparr>ca_links := l1, ca_count := c1\<rparr>) R1"
      "\<forall>x. c1 x = None \<longleftrightarrow> ca_count al x = None" "l_next l1 a \<noteq> None" "l_prev l1 a \<noteq> None"
    using detach_ok [OF slab_wfD(3) [OF w] R] unfolding R1_def by blast
  let ?s = "s\<lparr>sl_stat_flag := 0\<rparr>"
  let ?al1 = "al\<lparr>ca_links := l1, ca_count := c1, ca_slab := (ca_slab al)(a \<mapsto> ?s)\<rparr>"
  have "a \<notin> ring_nodes R1" unfolding R1_def using ring_del_fresh [of "ca_links al" R ?u xs a ys] rings R by simp
  moreover have R1f: "R1 ?f = Some (the (R ?f))" using heads_ring [OF h hm(1) [OF i]] hd(3) [OF i i] by (simp add: R1_def)
  moreover have "lists_ok ?al1 R1" using d(2) by (simp add: lists_ok_def)
  ultimately obtain l c where at: "slab_attach_list ?al1 a ?f = Some (?al1\<lparr>ca_links := l, ca_count := c\<rparr>)" "lists_ok (?al1\<lparr>ca_links := l, ca_count := c\<rparr>) R2"
      "\<forall>x. c x = None \<longleftrightarrow> c1 x = None"
    using attach_ok [of ?al1 R1 ?f "the (R ?f)" a] d(4,5) unfolding R2_def by auto
  define al2 where "al2 = al\<lparr>ca_slab := (ca_slab al)(a \<mapsto> ?s)\<rparr>"
  define al3 where "al3 = al2\<lparr>ca_links := l, ca_count := c\<rparr>"
  have e: "?al1\<lparr>ca_links := l, ca_count := c\<rparr> = al3" by (simp add: al3_def al2_def)
  have sf: "same_fields al3 al" by (simp add: al3_def al2_def same_fields_def same_limits_def)
  have cl: "classes al3 = classes al" by (simp add: al3_def al2_def classes_def)
  let ?F = "(free_cells T R)(i := insert a (free_cells T R i))" and ?U = "(used_cells T R)(i := used_cells T R i - {a})"
  have same: "used_cells T R2 j = ?U j" "free_cells T R2 j = ?F j" if "j < classes al" for j
    using that hd(1) [OF that i] hd(2) [OF that i] hd(3) [OF i that] hd(3) [OF that i] ringsD(2) [OF rings R] R
    by (auto simp: used_cells_def free_cells_def R2_def R1_def)
  have rest: "R2 (h_huge T) = R (h_huge T)" "pools T R2 = pools T R" using hd(4,5) [OF i] by (auto simp: R2_def R1_def pools_def)
  have wf: "slab_wf al3 R2 T B"
  proof (rule slab_wfI)
    show "heads_ok al3 T R2" by (rule heads_same [OF h sf]) (use hm(1,2) [OF i] h in \<open>auto simp: R2_def R1_def heads_ok_def\<close>)
    show "config_ok al3" using slab_wfD(2) [OF w] sf by (simp add: same_fields_def same_limitsD(4) [of al3 al])
    show "lists_ok al3 R2" using at(2) e by simp
    have "content al2 (all_heads T) ?F ?U (the (R (h_huge T))) (pools T R) B"
      using content_restat [OF slab_wfD(2) [OF w] slab_wfD(4) [OF w] s(1) i, of 0] a by (simp add: al2_def)
    then show "content al3 (all_heads T) ?F ?U (the (R2 (h_huge T))) (pools T R) B"
      unfolding rest(1) al3_def by (rule content_links) (use at(3) d(3) in \<open>simp add: al2_def\<close>)
    show "free_cells T R2 j = ?F j \<and> used_cells T R2 j = ?U j" if "j < classes al3" for j using same that cl by simp
  qed (simp add: rest(2))
  have "free_normal_slab al a = Some (al3\<lparr>ca_alloc_count := ca_alloc_count al3 - 1\<rparr>)"
  proof -
    have "slab_detach_list_from_used_slabs al a (sl_size s) = Some (al\<lparr>ca_links := l1, ca_count := c1\<rparr>)"
      using x slab_head_nth(2) [OF h i] d(1) by (simp add: slab_detach_list_from_used_slabs_def)
    moreover have "slab_attach_list_to_free_slabs ?al1 a (sl_size s) = Some al3"
    proof -
      have "slab_get_slab_index ?al1 (sl_size s) = Some (int i)" using x by (simp add: slab_get_slab_index_def)
      moreover have "slab_head (ca_free ?al1) (int i) = Some ?f" using slab_head_nth(1) [OF h i] by simp
      ultimately show ?thesis using at(1) e by (simp add: slab_attach_list_to_free_slabs_def)
    qed
    ultimately show ?thesis using s(1) by (simp add: free_normal_slab_def)
  qed
  moreover have "free_effect al R T B a (al3\<lparr>ca_alloc_count := ca_alloc_count al3 - 1\<rparr>) R2"
  proof -
    have "in_use (al3\<lparr>ca_alloc_count := ca_alloc_count al3 - 1\<rparr>) T R2 = in_use al T R - {a}"
      using same(1) rest(1) used_not_huge [OF w i a] i cl by (auto simp: in_use_def classes_def split: if_splits)
    then show ?thesis using slab_wf_count [OF wf] sf by (simp add: free_effect_def same_fields_def al3_def al2_def)
  qed
  ultimately show ?thesis by blast
qed

lemma free_huge_ok:
  assumes w: "slab_wf al R T B" and a: "a \<in> set (the (R (h_huge T)))"
  shows "\<exists>al' R'. free_huge_slab al a = Some al' \<and> free_effect al R T B a al' R'"
proof -
  note h = slab_wfD(1) [OF w]
  note hd = heads_distinct [OF h] and hm = heads_mem [OF h]
  let ?h = "h_huge T"
  have rings: "rings (ca_links al) R" using slab_wfD(3) [OF w] by (simp add: lists_ok_def)
  obtain xs ys where xy: "the (R ?h) = xs @ a # ys" using a split_list by metis
  then have R: "R ?h = Some (xs @ a # ys)" using heads_ring [OF h hm(3)] by simp
  define R1 where "R1 = R(?h \<mapsto> xs @ ys)"
  obtain l c where d: "slab_detach_list al a ?h = Some (al\<lparr>ca_links := l, ca_count := c\<rparr>)" "lists_ok (al\<lparr>ca_links := l, ca_count := c\<rparr>) R1"
      "\<forall>x. c x = None \<longleftrightarrow> ca_count al x = None"
    using detach_ok [OF slab_wfD(3) [OF w] R] unfolding R1_def by blast
  let ?al = "al\<lparr>ca_links := l, ca_count := c\<rparr>"
  have same: "used_cells T R1 j = used_cells T R j" "free_cells T R1 j = free_cells T R j" if "j < classes al" for j
    using hd(4,5) [OF that] by (auto simp: used_cells_def free_cells_def R1_def)
  have hg: "the (R1 ?h) = xs @ ys" by (simp add: R1_def)
  have pl: "pools T R1 = pools T R" using hd(6) by (simp add: R1_def pools_def)
  have h1: "heads_ok ?al T R1" by (rule heads_same [OF h]) (use hm(3) h in \<open>auto simp: same_fields_def same_limits_def R1_def heads_ok_def\<close>)
  let ?x = "(a, extent al a)"
  have wf1: "slab_wf ?al R1 T (?x # B)"
  proof (rule slab_wfI [OF h1])
    show "config_ok ?al" using slab_wfD(2) [OF w] by (simp add: config_ok_def classes_def pool_capacity_def class_size_def)
    have "content al (all_heads T) (free_cells T R) (used_cells T R) (xs @ ys) (pools T R) (?x # B)"
      using content_disown_huge [of al "all_heads T" _ _ xs a ys] slab_wfD(4) [OF w] xy by simp
    then show "content ?al (all_heads T) (free_cells T R) (used_cells T R) (the (R1 ?h)) (pools T R) (?x # B)"
      unfolding hg by (rule content_links) (use d(3) in blast)
    show "free_cells T R1 j = free_cells T R j \<and> used_cells T R1 j = used_cells T R j" if "j < classes ?al" for j
      using same that by (simp add: classes_def)
  qed (use d(2) pl in simp_all)
  note f = free_inv [OF slab_wfD(6) [OF wf1], of a "extent al a"]
  let ?al2 = "released ?al a (extent al a)"
  have "heads_ok ?al2 T R1" by (rule heads_same [OF h1]) (simp_all add: same_fields_def same_limits_def)
  then have wf2: "slab_wf ?al2 R1 T B" using f(2) by (simp add: slab_wf_def)
  have cl: "classes ?al2 = classes al" by (simp add: classes_def)
  have "free_huge_slab al a = Some (?al2\<lparr>ca_alloc_count := ca_alloc_count ?al2 - 1\<rparr>)"
    using h d(1) f(1) by (simp add: free_huge_slab_def heads_ok_def)
  moreover have "free_effect al R T B a (?al2\<lparr>ca_alloc_count := ca_alloc_count ?al2 - 1\<rparr>) R1"
  proof -
    have "a \<notin> used_cells T R j" if "j < classes al" for j using used_not_huge(1) [OF w that] a by blast
    then have u: "in_use ?al2 T R1 = in_use al T R - {a}"
      using same(1) hg xy ringsD(2) [OF rings R] by (auto simp: in_use_def cl)
    have "ca_slab ?al2 b = ca_slab al b" if b: "b \<in> in_use al T R - {a}" for b
    proof -
      have "b \<in> set (the (R1 ?h)) \<union> cells ?al (free_cells T R1) (used_cells T R1)"
        using b same hg xy by (auto simp: in_use_def cells_def classes_def)
      then have "\<not> (a \<le> b \<and> b < a + extent al a)" using content_outside [OF slab_wfD(4) [OF wf1], of b a "extent al a"] by auto
      then show ?thesis by (auto simp: released_def kill_def)
    qed
    then show ?thesis using slab_wf_count [OF wf2] u by (simp add: free_effect_def in_use_def classes_def)
  qed
  ultimately show ?thesis by blast
qed

lemma ctr_free_ok:
  assumes w: "slab_wf al R T B" and a: "a \<in> in_use al T R"
  shows "\<exists>al' R'. ctr_free al (a + SLAB) = Some al' \<and> free_effect al R T B a al' R'"
proof (cases "a \<in> set (the (R (h_huge T)))")
  case True
  obtain s where s: "ca_slab al a = Some s" "class_size al (classes al - 1) < unat (sl_size s)" "sl_stat_flag s \<noteq> 0"
    using contentD(9) [OF slab_wfD(4) [OF w] True] unfolding huge_at_def by blast
  show ?thesis using free_huge_ok [OF w True] s index_cases(1) [OF slab_wfD(2) [OF w] s(2)] by (simp add: ctr_free_def)
next
  case False
  then obtain i where i: "i < classes al" "a \<in> used_cells T R i" using a by (auto simp: in_use_def)
  obtain s where s: "ca_slab al a = Some s" "unat (sl_size s) = class_size al i" "sl_stat_flag s \<noteq> 0"
    using contentD(6) [OF slab_wfD(4) [OF w] i] unfolding slab_at_def by blast
  have "unat (sl_size s) < pool_capacity al" using s(2) class_size_bound [OF slab_wfD(2) [OF w] i(1)] by simp
  then have "\<not> sl_size s \<ge> mempool_capacity al" by (simp add: word_le_nat_alt pool_capacity_def)
  then show ?thesis using free_normal_ok [OF w i] s index_class [OF slab_wfD(2) [OF w] i(1) s(2)] by (simp add: ctr_free_def)
qed

text \<open>Releasing a slab that is in a free list has no effect.\<close>

lemma double_free: "slab_wf al R T B \<Longrightarrow> i < classes al \<Longrightarrow> a \<in> free_cells T R i \<Longrightarrow> ctr_free al (a + SLAB) = Some al"
  using contentD(5) [OF slab_wfD(4)] by (fastforce simp: ctr_free_def slab_at_def)

end
