(* ===== verification/SlabUse.thy ===== *)
theory SlabUse
  imports SlabSafe
begin

text \<open>
  Programs that allocate and release memory.  The interface is what a client sees: the live blocks with their sizes.  The slab
  allocator, \<open>malloc\<close> itself and the wrappers of \<open>allocator.h\<close> meet it, so what is proved of every well-behaved sequence of calls in
  the interface holds for each of them: no call fails, live blocks do not overlap, and the counter of a slab allocator is the number
  of live blocks.
\<close>

subsection \<open>Slabs in use are apart\<close>

lemma cell_huge_apart:
  assumes w: "slab_wf al R T B" and a: "a \<in> cells al (free_cells T R) (used_cells T R)" and b: "b \<in> set (the (R (h_huge T)))"
  shows "apart (a, extent al a) (b, extent al b)"
proof -
  note c = slab_wfD(4) [OF w]
  let ?o = "slab_owned al (all_heads T) (the (R (h_huge T))) (pools T R) @ B"
  obtain p where p: "p \<in> set (pools T R)" "pool_start al p \<le> a" "a + extent al a + pool_depth al p \<le> pool_start al p + pool_capacity al"
    using contentD(7) [OF c a] unfolding placed_def by blast
  have m: "(pool_start al p, pool_capacity al) \<in> set ?o" "(b, extent al b) \<in> set ?o" using p(1) b by (auto simp: slab_owned_def pool_blocks_def)
  have d: "distinct (map fst ?o)" by (rule content_blocks(1) [OF c])
  have f: "pool_start al p \<in> fst ` set (pool_blocks al (pools T R))" using p(1) by (force simp: pool_blocks_def)
  have "pool_start al p \<noteq> b" using d f b by (auto simp: slab_owned_def)
  then have "apart (pool_start al p, pool_capacity al) (b, extent al b)" using content_blocks(3) [OF c m] by simp
  then show ?thesis using p(2,3) by (auto simp: apart_def)
qed

lemma apart_sym: "apart x y \<Longrightarrow> apart y x"
  by (auto simp: apart_def)

lemma apart_mono: "apart (a, n) (b, m) \<Longrightarrow> apart (a + k, n - k) (b + k, m - k)"
  by (auto simp: apart_def)

lemma in_use_apart:
  assumes w: "slab_wf al R T B" and a: "a \<in> in_use al T R" and b: "b \<in> in_use al T R" and ne: "a \<noteq> b"
  shows "apart (a, extent al a) (b, extent al b)"
proof -
  note c = slab_wfD(4) [OF w]
  let ?H = "set (the (R (h_huge T)))" and ?C = "cells al (free_cells T R) (used_cells T R)"
  let ?o = "slab_owned al (all_heads T) (the (R (h_huge T))) (pools T R) @ B"
  have m: "(x, extent al x) \<in> set ?o" if "x \<in> ?H" for x using that by (auto simp: slab_owned_def)
  consider "a \<in> ?C" "b \<in> ?C" | "a \<in> ?C" "b \<in> ?H" | "a \<in> ?H" "b \<in> ?C" | "a \<in> ?H" "b \<in> ?H" using a b in_use_sub by blast
  then show ?thesis
  proof cases
    case 1
    then show ?thesis using contentD(8) [OF c _ _ ne] by blast
  next
    case 2
    then show ?thesis by (rule cell_huge_apart [OF w])
  next
    case 3
    then show ?thesis using cell_huge_apart [OF w 3(2,1)] apart_sym by blast
  next
    case 4
    then show ?thesis using content_blocks(3) [OF c m m, of a b] ne by simp
  qed
qed

lemma in_use_finite: "finite (in_use al T R)"
proof -
  have "{a. \<exists>i<classes al. a \<in> used_cells T R i} = (\<Union>i<classes al. used_cells T R i)" by auto
  then show ?thesis by (simp add: in_use_def used_cells_def)
qed

subsection \<open>Requests of a program\<close>

text \<open>
  A program asks for memory or releases the \<open>k\<close>-th of the blocks it holds; it holds addresses with the sizes it asked for.  The log has an entry
  for each request for memory: the state of the allocator before it, the size and the address that it answered.
\<close>

datatype mem_request = Alloc u32 | Release nat

fun serve :: "('s \<Rightarrow> u32 \<Rightarrow> (nat \<times> 's) option) \<Rightarrow> ('s \<Rightarrow> nat \<Rightarrow> 's option) \<Rightarrow> 's \<Rightarrow> (nat \<times> u32) list \<Rightarrow> mem_request list \<Rightarrow>
    ('s \<times> (nat \<times> u32) list \<times> ('s \<times> u32 \<times> nat) list) option" where
  "serve alloc free s G [] = Some (s, G, [])"
| "serve alloc free s G (Alloc n # rs) =
     do { (p, s') \<leftarrow> alloc s n;
          (s'', G', log) \<leftarrow> serve alloc free s' (if p = 0 then G else (p, n) # G) rs;
          Some (s'', G', (s, n, p) # log) }"
| "serve alloc free s G (Release k # rs) =
     (if k < length G then do { s' \<leftarrow> free s (fst (G ! k)); serve alloc free s' (take k G @ drop (Suc k) G) rs }
      else serve alloc free s G rs)"

text \<open>The sizes of the requests for memory, and what is held when each of positive size is granted.\<close>

fun sizes_asked :: "mem_request list \<Rightarrow> u32 list" where
  "sizes_asked [] = []"
| "sizes_asked (Alloc n # rs) = n # sizes_asked rs"
| "sizes_asked (Release k # rs) = sizes_asked rs"

fun sizes_held :: "u32 list \<Rightarrow> mem_request list \<Rightarrow> u32 list" where
  "sizes_held ns [] = ns"
| "sizes_held ns (Alloc n # rs) = sizes_held (if n = 0 then ns else n # ns) rs"
| "sizes_held ns (Release k # rs) = sizes_held (take k ns @ drop (Suc k) ns) rs"

text \<open>A log in which an answer is null only when the size is 0 or there was a reason to refuse.\<close>

definition granted_log :: "('s \<Rightarrow> u32 \<Rightarrow> bool) \<Rightarrow> ('s \<times> u32 \<times> nat) list \<Rightarrow> bool" where
  "granted_log refuses log \<longleftrightarrow> (\<forall>(s, n, p) \<in> set log. p = 0 \<longrightarrow> n = 0 \<or> refuses s n)"

lemma granted_log_simps [simp]:
  "granted_log refuses []"
  "granted_log refuses ((s, n, p) # log) \<longleftrightarrow> (p = 0 \<longrightarrow> n = 0 \<or> refuses s n) \<and> granted_log refuses log"
  by (simp_all add: granted_log_def)

text \<open>What the log says by itself.\<close>

lemma serve_log:
  "serve alloc free s G rs = Some (s', G', log) \<Longrightarrow>
   map (fst \<circ> snd) log = sizes_asked rs \<and> (\<forall>(s, n, p) \<in> set log. \<exists>s'. alloc s n = Some (p, s')) \<and>
   ((\<forall>(s, n, p) \<in> set log. p = 0 \<longleftrightarrow> n = 0) \<longrightarrow> map snd G' = sizes_held (map snd G) rs)"
proof (induction rs arbitrary: s G log)
  case (Cons r rs)
  show ?case
  proof (cases r)
    case (Alloc n)
    obtain p s1 log1 where p: "alloc s n = Some (p, s1)" "serve alloc free s1 (if p = 0 then G else (p, n) # G) rs = Some (s', G', log1)"
        "log = (s, n, p) # log1"
      using Cons.prems Alloc by (auto simp: bind_eq_Some_conv)
    show ?thesis using Cons.IH [OF p(2)] p(1,3) Alloc by (cases "p = 0") auto
  next
    case (Release k)
    show ?thesis
    proof (cases "k < length G")
      case True
      then obtain s1 where "serve alloc free s1 (take k G @ drop (Suc k) G) rs = Some (s', G', log)"
        using Cons.prems Release by (auto simp: bind_eq_Some_conv)
      from Cons.IH [OF this] show ?thesis using Release by (simp add: take_map drop_map)
    next
      case False
      then have e: "serve alloc free s G rs = Some (s', G', log)" "take k (map snd G) @ drop (Suc k) (map snd G) = map snd G"
        using Cons.prems Release by simp_all
      show ?thesis using Cons.IH [OF e(1)] e(2) Release by simp
    qed
  qed
qed simp

definition held_apart :: "(nat \<times> u32) list \<Rightarrow> bool" where
  "held_apart G \<longleftrightarrow> distinct (map fst G) \<and> (\<forall>x \<in> set G. 0 < fst x) \<and>
     (\<forall>x \<in> set G. \<forall>y \<in> set G. x \<noteq> y \<longrightarrow> apart (fst x, unat (snd x)) (fst y, unat (snd y)))"

definition holds :: "(nat \<times> u32) list \<Rightarrow> (nat \<rightharpoonup> nat) \<Rightarrow> bool" where
  "holds G L \<longleftrightarrow> distinct (map fst G) \<and> dom L = fst ` set G \<and> (\<forall>x \<in> set G. \<exists>k. L (fst x) = Some k \<and> unat (snd x) \<le> k)"

lemma holds_Cons: "holds G L \<Longrightarrow> L p = None \<Longrightarrow> unat n \<le> k \<Longrightarrow> holds ((p, n) # G) (L(p \<mapsto> k))"
  by (force simp: holds_def)

lemma holds_drop:
  assumes "holds G L" "k < length G"
  shows "holds (take k G @ drop (Suc k) G) (L(fst (G ! k) := None))"
proof -
  define xs ys where "xs = take k G" and "ys = drop (Suc k) G"
  have G: "G = xs @ G ! k # ys" using assms(2) by (simp add: xs_def ys_def id_take_nth_drop)
  obtain p n where pn: "G ! k = (p, n)" by (cases "G ! k")
  have f: "distinct (map fst (xs @ (p, n) # ys))" "dom L = fst ` set (xs @ (p, n) # ys)"
      "\<forall>x \<in> set (xs @ (p, n) # ys). \<exists>k. L (fst x) = Some k \<and> unat (snd x) \<le> k"
    using assms(1) G unfolding pn holds_def by simp_all
  have ne: "fst x \<noteq> p" if "x \<in> set (xs @ ys)" for x using f(1) that by auto
  have "holds (xs @ ys) (L(p := None))"
    unfolding holds_def
  proof (intro conjI ballI)
    show "distinct (map fst (xs @ ys))" using f(1) by simp
    show "dom (L(p := None)) = fst ` set (xs @ ys)" using f(1,2) by auto
    show "\<exists>k. (L(p := None)) (fst x) = Some k \<and> unat (snd x) \<le> k" if "x \<in> set (xs @ ys)" for x using f(3) ne [OF that] that by auto
  qed
  then show ?thesis by (simp add: xs_def ys_def pn)
qed

subsection \<open>The interface\<close>

locale memory_allocator =
  fixes alloc :: "'s \<Rightarrow> u32 \<Rightarrow> (nat \<times> 's) option" and free :: "'s \<Rightarrow> nat \<Rightarrow> 's option" and rep :: "'s \<Rightarrow> (nat \<rightharpoonup> nat) \<Rightarrow> bool"
    and refuses :: "'s \<Rightarrow> u32 \<Rightarrow> bool"
  assumes alloc_law: "rep s L \<Longrightarrow> \<exists>p s'. alloc s sz = Some (p, s') \<and> (p = 0 \<longrightarrow> sz = 0 \<or> refuses s sz) \<and>
      (if p = 0 then rep s' L else L p = None \<and> (\<exists>k. unat sz \<le> k \<and> rep s' (L(p \<mapsto> k))))"
    and free_law: "rep s L \<Longrightarrow> L p \<noteq> None \<Longrightarrow> \<exists>s'. free s p = Some s' \<and> rep s' (L(p := None))"
    and apart_law: "rep s L \<Longrightarrow> L p = Some n \<Longrightarrow> L q = Some m \<Longrightarrow> p \<noteq> q \<Longrightarrow> apart (p, n) (q, m)"
    and null_law: "rep s L \<Longrightarrow> L 0 = None"
begin

lemma serve_ok:
  "rep s L \<Longrightarrow> holds G L \<Longrightarrow> \<exists>s' G' L' log. serve alloc free s G rs = Some (s', G', log) \<and> rep s' L' \<and> holds G' L' \<and> granted_log refuses log"
proof (induction rs arbitrary: s G L)
  case (Cons r rs)
  show ?case
  proof (cases r)
    case (Alloc n)
    obtain p s' where p: "alloc s n = Some (p, s')" "p = 0 \<longrightarrow> n = 0 \<or> refuses s n"
        "if p = 0 then rep s' L else L p = None \<and> (\<exists>k. unat n \<le> k \<and> rep s' (L(p \<mapsto> k)))"
      using alloc_law [OF Cons.prems(1), of n] by blast
    show ?thesis
    proof (cases "p = 0")
      case True
      then have "rep s' L" using p(3) by simp
      from Cons.IH [OF this Cons.prems(2)] show ?thesis using p(1,2) True Alloc by auto
    next
      case False
      then obtain k where k: "L p = None" "unat n \<le> k" "rep s' (L(p \<mapsto> k))" using p(3) by auto
      from Cons.IH [OF k(3) holds_Cons [OF Cons.prems(2) k(1,2)]] show ?thesis using p(1) False Alloc by auto
    qed
  next
    case (Release k)
    show ?thesis
    proof (cases "k < length G")
      case True
      then have "L (fst (G ! k)) \<noteq> None" using Cons.prems(2) nth_mem [of k G] by (fastforce simp: holds_def)
      then obtain s' where s': "free s (fst (G ! k)) = Some s'" "rep s' (L(fst (G ! k) := None))"
        using free_law [OF Cons.prems(1)] by blast
      show ?thesis using Cons.IH [OF s'(2) holds_drop [OF Cons.prems(2) True]] s'(1) True Release by simp
    next
      case False
      then show ?thesis using Cons.IH [OF Cons.prems] Release by simp
    qed
  qed
qed auto

lemma holds_apart:
  assumes r: "rep s L" and f: "holds G L"
  shows "held_apart G"
  unfolding held_apart_def
proof (intro conjI ballI impI)
  show d: "distinct (map fst G)" using f by (simp add: holds_def)
  show "0 < fst x" if "x \<in> set G" for x
  proof (rule ccontr)
    assume "\<not> 0 < fst x"
    then show False using f that null_law [OF r] by (force simp: holds_def)
  qed
  show "apart (fst x, unat (snd x)) (fst y, unat (snd y))" if x: "x \<in> set G" and y: "y \<in> set G" and ne: "x \<noteq> y" for x y
  proof -
    obtain n where n: "L (fst x) = Some n" "unat (snd x) \<le> n" using f x unfolding holds_def by blast
    obtain m where m: "L (fst y) = Some m" "unat (snd y) \<le> m" using f y unfolding holds_def by blast
    have "fst x \<noteq> fst y" using d x y ne by (auto simp: distinct_map dest: inj_onD)
    from apart_law [OF r n(1) m(1) this] show ?thesis using n(2) m(2) by (auto simp: apart_def)
  qed
qed

lemma serve_safe:
  "rep s Map.empty \<Longrightarrow> \<exists>s' G L log. serve alloc free s [] rs = Some (s', G, log) \<and> held_apart G \<and> rep s' L \<and> holds G L \<and> granted_log refuses log"
  using serve_ok [of s Map.empty "[]" rs] holds_apart by (fastforce simp: holds_def)

end

text \<open>
  An allocator that answers a request of size 0 with null.  When it has no reason to refuse anything, the blocks held are those
  that were asked for and not released.
\<close>

locale guarded_allocator = memory_allocator +
  assumes zero_law: "alloc s 0 = Some (0, s)"
begin

lemma serve_all:
  assumes r: "rep s Map.empty" and g: "\<And>s n. \<not> refuses s n"
  shows "\<exists>s' G L log. serve alloc free s [] rs = Some (s', G, log) \<and> held_apart G \<and> rep s' L \<and> holds G L \<and> map snd G = sizes_held [] rs"
proof -
  obtain s' G L log where s: "serve alloc free s [] rs = Some (s', G, log)" "held_apart G" "rep s' L" "holds G L" "granted_log refuses log"
    using serve_safe [OF r] by blast
  note l = serve_log [OF s(1)]
  have "\<forall>(s, n, p) \<in> set log. p = 0 \<longleftrightarrow> n = 0"
  proof clarify
    fix s n p assume e: "(s, n, p) \<in> set log"
    then obtain s' where "alloc s n = Some (p, s')" using l by blast
    then show "p = 0 \<longleftrightarrow> n = 0" using e s(5) g zero_law [of s] by (auto simp: granted_log_def)
  qed
  then show ?thesis using s(1-4) l by auto
qed

end

text \<open>An allocator that counts its live blocks.\<close>

locale counting_allocator = memory_allocator +
  fixes count :: "'s \<Rightarrow> u32" and exact :: bool
  assumes count_law: "exact \<Longrightarrow> rep s L \<Longrightarrow> count s = of_nat (card (dom L))"
begin

lemma serve_count:
  assumes e: exact and r: "rep s Map.empty"
  shows "\<exists>s' G log. serve alloc free s [] rs = Some (s', G, log) \<and> held_apart G \<and> count s' = of_nat (length G)"
proof -
  obtain s' G L log where s: "serve alloc free s [] rs = Some (s', G, log)" "held_apart G" "rep s' L" "holds G L" using serve_safe [OF r] by blast
  have "card (dom L) = length G" using s(4) unfolding holds_def by (metis distinct_card length_map list.set_map)
  then show ?thesis using s(1,2) count_law [OF e s(3)] by simp
qed

end

subsection \<open>The slab allocator meets the interface\<close>

definition never_null :: "libc \<Rightarrow> bool" where
  "never_null E \<longleftrightarrow> (\<forall>c bs n. libc_malloc E c bs n \<noteq> 0)"

lemma slab_granted: "never_null E \<Longrightarrow> \<not> slab_refused E al sz"
  unfolding never_null_def slab_refused_def pool_refused_def Let_def by presburger

definition live_map :: "allocator \<Rightarrow> slab_heads \<Rightarrow> (nat \<rightharpoonup> nat list) \<Rightarrow> nat \<rightharpoonup> nat" where
  "live_map al T R = (\<lambda>p. if SLAB \<le> p \<and> p - SLAB \<in> in_use al T R then Some (unat (sl_size (the (ca_slab al (p - SLAB))))) else None)"

definition ctr_rep :: "libc \<Rightarrow> slab_heads \<Rightarrow> (nat \<times> nat) list \<Rightarrow> allocator \<Rightarrow> (nat \<rightharpoonup> nat) \<Rightarrow> bool" where
  "ctr_rep E T B al L \<longleftrightarrow> malloc_ok E \<and> (\<exists>R. slab_wf al R T B \<and> L = live_map al T R) \<and>
     (never_null E \<longrightarrow> ca_alloc_count al = of_nat (card (dom L)))"

text \<open>The fields that stay as they were.\<close>

definition anchors :: "allocator \<Rightarrow> allocator_type \<times> nat \<times> nat \<times> nat" where
  "anchors al = (ca_type al, ca_self al, ca_free_p al, ca_used_p al)"

lemma anchors_type: "anchors al' = anchors al \<Longrightarrow> ca_type al' = ca_type al"
  by (simp add: anchors_def)

lemma dom_live_map: "dom (live_map al T R) = (\<lambda>a. a + SLAB) ` in_use al T R"
proof -
  have "p \<in> (\<lambda>a. a + SLAB) ` in_use al T R" if "SLAB \<le> p" "p - SLAB \<in> in_use al T R" for p
    using that by (intro image_eqI [of p _ "p - SLAB"]) simp_all
  then show ?thesis by (auto simp: live_map_def dom_def)
qed

lemma card_live_map: "card (dom (live_map al T R)) = card (in_use al T R)"
  unfolding dom_live_map by (rule card_image) (simp add: inj_on_def)

lemma in_use_slab: "slab_wf al R T B \<Longrightarrow> a \<in> in_use al T R \<Longrightarrow> ca_slab al a \<noteq> None"
  using contentD(6,9) [OF slab_wfD(4), of al R T B] unfolding in_use_def slab_at_def huge_at_def by blast

lemma sizes_eq:
  assumes w: "slab_wf al R T B" and s: "\<forall>a \<in> X. map_option sl_size (ca_slab al' a) = map_option sl_size (ca_slab al a)" and x: "X \<subseteq> in_use al T R" "a \<in> X"
  shows "sl_size (the (ca_slab al' a)) = sl_size (the (ca_slab al a))"
proof -
  have "ca_slab al a \<noteq> None" using in_use_slab [OF w] x by blast
  moreover have "map_option sl_size (ca_slab al' a) = map_option sl_size (ca_slab al a)" using s x(2) by blast
  ultimately show ?thesis by (cases "ca_slab al' a") auto
qed

lemma ctr_alloc_law:
  assumes r: "ctr_rep E T B al L"
  shows "\<exists>p al'. ctr_alloc E al sz = Some (p, al') \<and> anchors al' = anchors al \<and> (p = 0 \<longrightarrow> slab_refused E al sz) \<and>
    (if p = 0 then ctr_rep E T B al' L else L p = None \<and> (\<exists>k. unat sz \<le> k \<and> ctr_rep E T B al' (L(p \<mapsto> k))))"
proof -
  obtain R where R: "slab_wf al R T B" "L = live_map al T R" and m: "malloc_ok E" and n: "never_null E \<Longrightarrow> ca_alloc_count al = of_nat (card (in_use al T R))"
    using r by (auto simp: ctr_rep_def card_live_map)
  obtain p al' R' where f: "ctr_alloc E al sz = Some (p, al')" "alloc_effect E al R T B sz p al' R'" using ctr_alloc_ok [OF m R(1)] by blast
  have w: "slab_wf al' R' T B" and fields: "anchors al' = anchors al"
    and slabs: "\<forall>a \<in> in_use al T R. map_option sl_size (ca_slab al' a) = map_option sl_size (ca_slab al a)"
    and ref: "p = 0 \<longrightarrow> slab_refused E al sz" using f(2) by (auto simp: alloc_effect_def anchors_def)
  have nz: "never_null E \<Longrightarrow> p \<noteq> 0" using ref slab_granted by blast
  have sz: "sl_size (the (ca_slab al' b)) = sl_size (the (ca_slab al b))" if "b \<in> in_use al T R" for b
    using sizes_eq [OF R(1) slabs order_refl that] .
  have "if p = 0 then ctr_rep E T B al' L else L p = None \<and> (\<exists>k. unat sz \<le> k \<and> ctr_rep E T B al' (L(p \<mapsto> k)))"
  proof (cases "p = 0")
    case True
    then have "in_use al' T R' = in_use al T R" using f(2) by (auto simp: alloc_effect_def)
    then have "live_map al' T R' = L" using sz by (auto simp: fun_eq_iff live_map_def R(2))
    then show ?thesis using True w m nz unfolding ctr_rep_def by auto
  next
    case False
    then obtain a where a: "p = a + SLAB" "a \<notin> in_use al T R" "in_use al' T R' = insert a (in_use al T R)" "unat sz + SLAB \<le> extent al' a"
        "ca_alloc_count al' = ca_alloc_count al + 1"
      using f(2) by (auto simp: alloc_effect_def)
    define k where "k = unat (sl_size (the (ca_slab al' a)))"
    have k: "unat sz \<le> k" using a(4) by (simp add: k_def extent_def)
    have L: "live_map al' T R' = L(p \<mapsto> k)" using sz a(2) by (auto simp: fun_eq_iff live_map_def R(2) a(1,3) k_def)
    have "card (in_use al' T R') = Suc (card (in_use al T R))" using a(2,3) in_use_finite by simp
    then have c: "never_null E \<longrightarrow> ca_alloc_count al' = of_nat (card (dom (live_map al' T R')))"
      unfolding card_live_map using n a(5) by (simp add: add.commute)
    have "ctr_rep E T B al' (L(p \<mapsto> k))" unfolding ctr_rep_def L [symmetric] using w m c by blast
    then show ?thesis using False k a(1,2) by (auto simp: R(2) live_map_def)
  qed
  then show ?thesis using f(1) fields ref by blast
qed

lemma ctr_free_law:
  assumes r: "ctr_rep E T B al L" and p: "L p \<noteq> None"
  shows "\<exists>al'. ctr_free al p = Some al' \<and> anchors al' = anchors al \<and> ctr_rep E T B al' (L(p := None))"
proof -
  obtain R where R: "slab_wf al R T B" "L = live_map al T R" and m: "malloc_ok E" and n: "never_null E \<Longrightarrow> ca_alloc_count al = of_nat (card (in_use al T R))"
    using r by (auto simp: ctr_rep_def card_live_map)
  let ?a = "p - SLAB"
  have a: "?a \<in> in_use al T R" "?a + SLAB = p" using p by (auto simp: R(2) live_map_def split: if_splits)
  obtain al' R' where f: "ctr_free al p = Some al'" "free_effect al R T B ?a al' R'" using ctr_free_ok [OF R(1) a(1)] a(2) by auto
  note f2 = f(2) [unfolded free_effect_def]
  have u: "in_use al' T R' = in_use al T R - {?a}" using f2 by blast
  have sz: "sl_size (the (ca_slab al' b)) = sl_size (the (ca_slab al b))" if "b \<in> in_use al T R - {?a}" for b
    using sizes_eq [OF R(1), of "in_use al T R - {?a}" al' b] f2 that by blast
  have L: "live_map al' T R' = L(p := None)"
    using a(2) sz by (auto simp: fun_eq_iff R(2) live_map_def u)
  have "card (in_use al T R) = Suc (card (in_use al T R - {?a}))" by (metis card_Suc_Diff1 in_use_finite a(1))
  then have c: "never_null E \<longrightarrow> ca_alloc_count al' = of_nat (card (dom (live_map al' T R')))"
    unfolding card_live_map u using n f2 by simp
  have "ctr_rep E T B al' (L(p := None))" unfolding ctr_rep_def L [symmetric] using f2 m c by blast
  moreover have "anchors al' = anchors al" using f2 by (simp add: anchors_def)
  ultimately show ?thesis using f(1) by blast
qed

lemma ctr_apart_law:
  assumes r: "ctr_rep E T B al L" and p: "L p = Some n" and q: "L q = Some m" and ne: "p \<noteq> q"
  shows "apart (p, n) (q, m)"
proof -
  obtain R where R: "slab_wf al R T B" "L = live_map al T R" using r by (auto simp: ctr_rep_def)
  have a: "p - SLAB \<in> in_use al T R" "SLAB \<le> p" "n + SLAB = extent al (p - SLAB)"
    using p by (auto simp: R(2) live_map_def extent_def split: if_splits)
  have b: "q - SLAB \<in> in_use al T R" "SLAB \<le> q" "m + SLAB = extent al (q - SLAB)"
    using q by (auto simp: R(2) live_map_def extent_def split: if_splits)
  have "apart (p - SLAB, extent al (p - SLAB)) (q - SLAB, extent al (q - SLAB))"
    by (rule in_use_apart [OF R(1) a(1) b(1)]) (use a(2) b(2) ne in simp)
  then have "p + n \<le> q - SLAB \<or> q + m \<le> p - SLAB \<or> p - SLAB + (n + SLAB) \<le> q - SLAB \<or> q - SLAB + (m + SLAB) \<le> p - SLAB"
    by (simp add: apart_def a(3) [symmetric] b(3) [symmetric])
  then show ?thesis using a(2) b(2) unfolding apart_def by (auto simp del: One_nat_def)
qed

lemma ctr_null_law: "ctr_rep E T B al L \<Longrightarrow> L 0 = None"
  by (auto simp: ctr_rep_def live_map_def)

interpretation slab: counting_allocator "ctr_alloc E" ctr_free "ctr_rep E T B" "slab_refused E" ca_alloc_count "never_null E" for E T B
proof unfold_locales
  show "\<exists>p al'. ctr_alloc E al sz = Some (p, al') \<and> (p = 0 \<longrightarrow> sz = 0 \<or> slab_refused E al sz) \<and>
      (if p = 0 then ctr_rep E T B al' L else L p = None \<and> (\<exists>k. unat sz \<le> k \<and> ctr_rep E T B al' (L(p \<mapsto> k))))"
    if "ctr_rep E T B al L" for al L sz using ctr_alloc_law [OF that, of sz] by blast
  show "\<exists>al'. ctr_free al p = Some al' \<and> ctr_rep E T B al' (L(p := None))" if "ctr_rep E T B al L" "L p \<noteq> None" for al L p
    using ctr_free_law [OF that] by blast
  show "apart (p, n) (q, m)" if "ctr_rep E T B al L" "L p = Some n" "L q = Some m" "p \<noteq> q" for al L p n q m by (rule ctr_apart_law [OF that])
  show "L 0 = None" if "ctr_rep E T B al L" for al L by (rule ctr_null_law [OF that])
  show "ca_alloc_count al = of_nat (card (dom L))" if "never_null E" "ctr_rep E T B al L" for al L using that by (simp add: ctr_rep_def)
qed

subsection \<open>\<open>malloc\<close> meets it\<close>

definition sys_rep :: "libc \<Rightarrow> allocator \<Rightarrow> (nat \<rightharpoonup> nat) \<Rightarrow> bool" where
  "sys_rep E al L \<longleftrightarrow> malloc_ok E \<and> heap_ok (ca_blocks al) \<and> L \<subseteq>\<^sub>m map_of (ca_blocks al)"

lemma malloc_law:
  assumes m: "malloc_ok E" and h: "heap_ok (ca_blocks al)" and p: "sys_malloc E al n = (p, al')"
  shows "anchors al' = anchors al \<and> heap_ok (ca_blocks al') \<and> (if p = 0 then ca_blocks al' = ca_blocks al else
    ca_blocks al' = (p, n) # ca_blocks al \<and> map_of (ca_blocks al) p = None)"
proof (cases "p = 0")
  case True
  then show ?thesis using p h by (auto simp: sys_malloc_def Let_def anchors_def split: if_splits)
next
  case False
  then have al': "al' = al\<lparr>ca_calls := ca_calls al + 1, ca_blocks := (p, n) # ca_blocks al\<rparr>" "p = libc_malloc E (ca_calls al) (ca_blocks al) n"
    using p by (auto simp: sys_malloc_def Let_def split: if_splits)
  have f: "\<forall>x \<in> set (ca_blocks al). fst x \<noteq> p \<and> apart (p, n) x" using m h False unfolding malloc_ok_def al'(2) by blast
  then have "\<forall>x \<in> set (ca_blocks al). apart x (p, n)" using apart_sym by blast
  moreover have "p \<notin> fst ` set (ca_blocks al)" using f by auto
  ultimately show ?thesis using f h False by (auto simp: al'(1) heap_ok_def map_of_eq_None_iff anchors_def)
qed

lemma map_of_remove1: "distinct (map fst bs) \<Longrightarrow> map_of bs a = Some n \<Longrightarrow> map_of (remove1 (a, n) bs) = (map_of bs)(a := None)"
proof (induction bs)
  case (Cons x bs)
  then show ?case by (cases "fst x = a") (auto simp: fun_eq_iff map_of_eq_None_iff)
qed simp

definition sys_refused :: "libc \<Rightarrow> allocator \<Rightarrow> u32 \<Rightarrow> bool" where
  "sys_refused E al sz \<longleftrightarrow> libc_malloc E (ca_calls al) (ca_blocks al) (unat sz) = 0"

lemma sys_alloc_law:
  assumes r: "sys_rep E al L"
  shows "\<exists>p al'. sys_alloc E al sz = (p, al') \<and> anchors al' = anchors al \<and> (p = 0 \<longrightarrow> sys_refused E al sz) \<and>
    (if p = 0 then sys_rep E al' L else L p = None \<and> sys_rep E al' (L(p \<mapsto> unat sz)))"
proof -
  have m: "malloc_ok E" and h: "heap_ok (ca_blocks al)" and l: "L \<subseteq>\<^sub>m map_of (ca_blocks al)" using r by (auto simp: sys_rep_def)
  obtain p al' where p: "sys_malloc E al (unat sz) = (p, al')" by fastforce
  have "p = 0 \<longrightarrow> sys_refused E al sz" using p by (auto simp: sys_malloc_def sys_refused_def Let_def split: if_splits)
  moreover
  note a = malloc_law [OF m h p]
  have "L p = None" if "map_of (ca_blocks al) p = None" using map_le_implies_dom_le [OF l] that by (auto simp: domIff)
  ultimately show ?thesis using a p m l by (auto simp: sys_rep_def sys_alloc_def map_le_def)
qed

lemma sys_free_law:
  assumes r: "sys_rep E al L" and p: "L p \<noteq> None"
  shows "\<exists>al'. sys_free al p = Some al' \<and> anchors al' = anchors al \<and> sys_rep E al' (L(p := None))"
proof -
  have m: "malloc_ok E" and h: "heap_ok (ca_blocks al)" and l: "L \<subseteq>\<^sub>m map_of (ca_blocks al)" using r by (auto simp: sys_rep_def)
  obtain n where n: "map_of (ca_blocks al) p = Some n" using l p by (auto simp: map_le_def dom_def)
  then have "0 < p" using h map_of_SomeD [OF n] by (fastforce simp: heap_ok_def)
  moreover have "map_of (remove1 (p, n) (ca_blocks al)) = (map_of (ca_blocks al))(p := None)"
    using map_of_remove1 [OF _ n] h by (simp add: heap_ok_def)
  ultimately show ?thesis using n m l heap_ok_remove1 [OF h] by (auto simp: sys_free_def sys_rep_def map_le_def anchors_def)
qed

lemma sys_apart_law: "sys_rep E al L \<Longrightarrow> L p = Some n \<Longrightarrow> L q = Some m \<Longrightarrow> p \<noteq> q \<Longrightarrow> apart (p, n) (q, m)"
proof -
  assume a: "sys_rep E al L" "L p = Some n" "L q = Some m" "p \<noteq> q"
  then have "map_of (ca_blocks al) p = Some n" "map_of (ca_blocks al) q = Some m" unfolding sys_rep_def map_le_def by (metis domI)+
  then have "(p, n) \<in> set (ca_blocks al)" "(q, m) \<in> set (ca_blocks al)" by (auto dest: map_of_SomeD)
  then show "apart (p, n) (q, m)" using a(1,4) unfolding sys_rep_def heap_ok_def by blast
qed

lemma sys_null_law: "sys_rep E al L \<Longrightarrow> L 0 = None"
proof (rule ccontr)
  assume a: "sys_rep E al L" "L 0 \<noteq> None"
  then obtain n where "map_of (ca_blocks al) 0 = Some n" by (auto simp: sys_rep_def map_le_def dom_def)
  then have "(0, n) \<in> set (ca_blocks al)" by (rule map_of_SomeD)
  then show False using a(1) by (force simp: sys_rep_def heap_ok_def)
qed

interpretation sys: memory_allocator "\<lambda>al sz. Some (sys_alloc E al sz)" sys_free "sys_rep E" "sys_refused E" for E
proof unfold_locales
  show "\<exists>p al'. Some (sys_alloc E al sz) = Some (p, al') \<and> (p = 0 \<longrightarrow> sz = 0 \<or> sys_refused E al sz) \<and>
      (if p = 0 then sys_rep E al' L else L p = None \<and> (\<exists>k. unat sz \<le> k \<and> sys_rep E al' (L(p \<mapsto> k))))" if "sys_rep E al L" for al L sz
    using sys_alloc_law [OF that, of sz] by fastforce
  show "\<exists>al'. sys_free al p = Some al' \<and> sys_rep E al' (L(p := None))" if "sys_rep E al L" "L p \<noteq> None" for al L p
    using sys_free_law [OF that] by blast
  show "apart (p, n) (q, m)" if "sys_rep E al L" "L p = Some n" "L q = Some m" "p \<noteq> q" for al L p n q m by (rule sys_apart_law [OF that])
  show "L 0 = None" if "sys_rep E al L" for al L by (rule sys_null_law [OF that])
qed

subsection \<open>The wrappers meet it\<close>

lemma slab_wf_tag:
  fixes t :: bytes
  assumes w: "slab_wf al R T B" and s: "ca_slab al a = Some s"
  defines "al' \<equiv> al\<lparr>ca_slab := (ca_slab al)(a \<mapsto> s\<lparr>sl_tag := t\<rparr>)\<rparr>"
  shows "slab_wf al' R T B" "in_use al' T R = in_use al T R" "sl_size (the (ca_slab al' b)) = sl_size (the (ca_slab al b))"
proof -
  have sc: "same_limits al' al" by (simp add: al'_def same_limits_def)
  note c = same_limitsD [OF sc]
  have e: "extent al' x = extent al x" "pool_start al' x = pool_start al x" "pool_depth al' x = pool_depth al x" "pool_ok al' x = pool_ok al x"
      "placed al' P x = placed al P x" "huge_at al' x = huge_at al x" "slab_at al' i x f = slab_at al i x f" "pool_blocks al' P = pool_blocks al P" for x P i f
    using s by (auto simp: al'_def extent_def pool_start_def pool_depth_def pool_ok_def placed_def huge_at_def slab_at_def pool_blocks_def
      pool_capacity_def class_size_def classes_def)
  have "slab_owned al' hs H P = slab_owned al hs H P" for hs H P by (simp add: slab_owned_def e)
  then have "content al' hs F U H P B' = content al hs F U H P B'" for hs F U H P B'
    unfolding content_def e c by (simp add: al'_def)
  moreover have "heads_ok al' T R" by (rule heads_same [OF slab_wfD(1) [OF w]]) (simp_all add: same_fields_def same_limits_def al'_def)
  moreover have "lists_ok al' R" using slab_wfD(3) [OF w] by (simp add: lists_ok_def al'_def)
  ultimately show "slab_wf al' R T B" using slab_wfD(2,4,5) [OF w] unfolding slab_wf_def inv_def c by blast
  show "in_use al' T R = in_use al T R" by (simp add: in_use_def c)
  show "sl_size (the (ca_slab al' b)) = sl_size (the (ca_slab al b))" using s by (simp add: al'_def)
qed

definition mem_rep :: "libc \<Rightarrow> slab_heads \<Rightarrow> (nat \<times> nat) list \<Rightarrow> allocator_type \<times> nat \<times> nat \<times> nat \<Rightarrow> allocator \<Rightarrow> (nat \<rightharpoonup> nat) \<Rightarrow> bool" where
  "mem_rep E T B anc al L \<longleftrightarrow> anchors al = anc \<and>
     (case ca_type al of ALLOCATOR_TYPE_SYS_MALLOC \<Rightarrow> sys_rep E al L | ALLOCATOR_TYPE_CTR_MALLOC \<Rightarrow> ctr_rep E T B al L)"

lemma mem_sys: "ca_type al = ALLOCATOR_TYPE_SYS_MALLOC \<Longrightarrow> mem_rep E T B anc al L \<longleftrightarrow> anchors al = anc \<and> sys_rep E al L"
  by (simp add: mem_rep_def)

lemma mem_ctr: "ca_type al = ALLOCATOR_TYPE_CTR_MALLOC \<Longrightarrow> mem_rep E T B anc al L \<longleftrightarrow> anchors al = anc \<and> ctr_rep E T B al L"
  by (simp add: mem_rep_def)

lemma ctr_tag_rep:
  assumes r: "ctr_rep E T B al L" and p: "L p \<noteq> None"
  shows "\<exists>al'. ctr_tag al p str = Some al' \<and> anchors al' = anchors al \<and> ctr_rep E T B al' L"
proof -
  obtain R where R: "slab_wf al R T B" "L = live_map al T R" and m: "malloc_ok E" and n: "never_null E \<longrightarrow> ca_alloc_count al = of_nat (card (dom L))"
    using r by (auto simp: ctr_rep_def)
  have a: "SLAB \<le> p" "p - SLAB \<in> in_use al T R" using p by (auto simp: R(2) live_map_def split: if_splits)
  obtain s where s: "ca_slab al (p - SLAB) = Some s" using in_use_slab [OF R(1) a(2)] by blast
  let ?al = "al\<lparr>ca_slab := (ca_slab al)(p - SLAB \<mapsto> s\<lparr>sl_tag := take 40 (str @ replicate 40 0)\<rparr>)\<rparr>"
  note t = slab_wf_tag [OF R(1) s, of "take 40 (str @ replicate 40 0)"]
  have L: "live_map ?al T R = L" unfolding R(2) live_map_def t(2,3) ..
  have c: "ca_alloc_count ?al = ca_alloc_count al" by simp
  have "ctr_rep E T B ?al L" unfolding ctr_rep_def c using t(1) m n L by blast
  then show ?thesis using a(1) s by (simp add: ctr_tag_def anchors_def)
qed

text \<open>\<open>malloc\<close> refuses what the allocator needs for a request.\<close>

definition malloc_refuses :: "libc \<Rightarrow> allocator \<Rightarrow> u32 \<Rightarrow> bool" where
  "malloc_refuses E al sz \<longleftrightarrow>
     (case ca_type al of ALLOCATOR_TYPE_SYS_MALLOC \<Rightarrow> sys_refused E al sz | ALLOCATOR_TYPE_CTR_MALLOC \<Rightarrow> slab_refused E al sz)"

lemma malloc_grants: "never_null E \<Longrightarrow> \<not> malloc_refuses E al sz"
  using slab_granted [of E al sz] unfolding malloc_refuses_def sys_refused_def never_null_def by (simp split: allocator_type.split)

lemma mem_alloc_law:
  assumes r: "mem_rep E T B anc al L"
  shows "\<exists>p al'. allocator_mem_alloc E al sz place = Some (p, al') \<and> (p = 0 \<longrightarrow> sz = 0 \<or> malloc_refuses E al sz) \<and>
    (if p = 0 then mem_rep E T B anc al' L else L p = None \<and> (\<exists>k. unat sz \<le> k \<and> mem_rep E T B anc al' (L(p \<mapsto> k))))"
proof (cases "sz = 0")
  case True
  then show ?thesis using r by (simp add: allocator_mem_alloc_def)
next
  case False
  show ?thesis
  proof (cases "ca_type al")
    case ALLOCATOR_TYPE_SYS_MALLOC
    then have m: "anchors al = anc" "sys_rep E al L" using r by (simp_all add: mem_sys)
    obtain p al' where a: "sys_alloc E al sz = (p, al')" "anchors al' = anchors al" "p = 0 \<longrightarrow> sys_refused E al sz"
        "if p = 0 then sys_rep E al' L else L p = None \<and> sys_rep E al' (L(p \<mapsto> unat sz))"
      using sys_alloc_law [OF m(2)] by blast
    have ty: "ca_type al' = ALLOCATOR_TYPE_SYS_MALLOC" using anchors_type [OF a(2)] ALLOCATOR_TYPE_SYS_MALLOC by simp
    have "allocator_mem_alloc E al sz place = Some (p, al')" using a(1) False ALLOCATOR_TYPE_SYS_MALLOC by (simp add: allocator_mem_alloc_def)
    then show ?thesis using a(2-4) m(1) ALLOCATOR_TYPE_SYS_MALLOC by (auto simp: mem_sys [OF ty] malloc_refuses_def split: if_splits)
  next
    case ALLOCATOR_TYPE_CTR_MALLOC
    then have m: "anchors al = anc" "ctr_rep E T B al L" using r by (simp_all add: mem_ctr)
    obtain p al1 where a: "ctr_alloc E al sz = Some (p, al1)" "anchors al1 = anchors al" "p = 0 \<longrightarrow> slab_refused E al sz"
        "if p = 0 then ctr_rep E T B al1 L else L p = None \<and> (\<exists>k. unat sz \<le> k \<and> ctr_rep E T B al1 (L(p \<mapsto> k)))"
      using ctr_alloc_law [OF m(2)] by blast
    have ty: "ca_type al1 = ALLOCATOR_TYPE_CTR_MALLOC" using anchors_type [OF a(2)] ALLOCATOR_TYPE_CTR_MALLOC by simp
    show ?thesis
    proof (cases "p = 0")
      case True
      then have "allocator_mem_alloc E al sz place = Some (p, al1)" using a(1) False ALLOCATOR_TYPE_CTR_MALLOC by (simp add: allocator_mem_alloc_def)
      then show ?thesis using True a(2-4) m(1) ALLOCATOR_TYPE_CTR_MALLOC by (auto simp: mem_ctr [OF ty] malloc_refuses_def)
    next
      case nz: False
      then obtain k where k: "L p = None" "unat sz \<le> k" "ctr_rep E T B al1 (L(p \<mapsto> k))" using a(4) by auto
      obtain al2 where t: "ctr_tag al1 p place = Some al2" "anchors al2 = anchors al1" "ctr_rep E T B al2 (L(p \<mapsto> k))"
        using ctr_tag_rep [OF k(3), of p place] by auto
      have ty2: "ca_type al2 = ALLOCATOR_TYPE_CTR_MALLOC" using anchors_type [OF t(2)] ty by simp
      have "mem_rep E T B anc al2 (L(p \<mapsto> k))" using t(2,3) a(2) m(1) unfolding mem_ctr [OF ty2] by simp
      moreover have "allocator_mem_alloc E al sz place = Some (p, al2)" using a(1) nz t(1) False ALLOCATOR_TYPE_CTR_MALLOC by (simp add: allocator_mem_alloc_def)
      ultimately show ?thesis using nz k(1,2) by auto
    qed
  qed
qed

lemma mem_free_law:
  assumes r: "mem_rep E T B anc al L" and p: "L p \<noteq> None"
  shows "\<exists>al'. allocator_mem_free al p = Some al' \<and> mem_rep E T B anc al' (L(p := None))"
proof (cases "ca_type al")
  case ALLOCATOR_TYPE_SYS_MALLOC
  then have s: "anchors al = anc" "sys_rep E al L" using r by (simp_all add: mem_sys)
  have "p \<noteq> 0" using sys_null_law [OF s(2)] p by (cases "p = 0") simp_all
  moreover obtain al' where "sys_free al p = Some al'" "anchors al' = anchors al" "sys_rep E al' (L(p := None))" using sys_free_law [OF s(2) p] by blast
  ultimately show ?thesis using s(1) ALLOCATOR_TYPE_SYS_MALLOC mem_sys [of al'] anchors_type [of al' al]
    by (simp add: allocator_mem_free_def)
next
  case ALLOCATOR_TYPE_CTR_MALLOC
  then have s: "anchors al = anc" "ctr_rep E T B al L" using r by (simp_all add: mem_ctr)
  have "p \<noteq> 0" using ctr_null_law [OF s(2)] p by (cases "p = 0") simp_all
  moreover obtain al' where "ctr_free al p = Some al'" "anchors al' = anchors al" "ctr_rep E T B al' (L(p := None))" using ctr_free_law [OF s(2) p] by blast
  ultimately show ?thesis using s(1) ALLOCATOR_TYPE_CTR_MALLOC mem_ctr [of al'] anchors_type [of al' al]
    by (simp add: allocator_mem_free_def)
qed

interpretation mem: guarded_allocator "\<lambda>al sz. allocator_mem_alloc E al sz place" allocator_mem_free "mem_rep E T B anc" "malloc_refuses E" for E T B anc place
proof unfold_locales
  show "\<exists>p al'. allocator_mem_alloc E al sz place = Some (p, al') \<and> (p = 0 \<longrightarrow> sz = 0 \<or> malloc_refuses E al sz) \<and>
      (if p = 0 then mem_rep E T B anc al' L else L p = None \<and> (\<exists>k. unat sz \<le> k \<and> mem_rep E T B anc al' (L(p \<mapsto> k))))"
    if "mem_rep E T B anc al L" for al L sz by (rule mem_alloc_law [OF that])
  show "\<exists>al'. allocator_mem_free al p = Some al' \<and> mem_rep E T B anc al' (L(p := None))" if "mem_rep E T B anc al L" "L p \<noteq> None" for al L p
    by (rule mem_free_law [OF that])
  show "apart (p, n) (q, m)" if "mem_rep E T B anc al L" "L p = Some n" "L q = Some m" "p \<noteq> q" for al L p n q m
    using that sys_apart_law ctr_apart_law by (auto simp: mem_rep_def split: allocator_type.splits)
  show "L 0 = None" if "mem_rep E T B anc al L" for al L
    using that sys_null_law ctr_null_law by (auto simp: mem_rep_def split: allocator_type.splits)
  show "allocator_mem_alloc E al 0 place = Some (0, al)" for al by (simp add: allocator_mem_alloc_def)
qed

end
