(* ===== verification/SlabInit.thy ===== *)
theory SlabInit
  imports SlabUse
begin

text \<open>
  The construction of a slab allocator and its end: with a \<open>malloc\<close> that grants every request, the constructor leaves an allocator in
  which the requests of a program are served.
\<close>

subsection \<open>Construction\<close>

lemma pool_granted: "never_null E \<Longrightarrow> \<not> pool_refused E al"
  unfolding never_null_def pool_refused_def Let_def by blast

lemma malloc_granted: "never_null E \<Longrightarrow> sys_malloc E al n = (p, al1) \<Longrightarrow> p \<noteq> 0"
  using spec [of "\<lambda>c. \<forall>bs n. libc_malloc E c bs n \<noteq> 0" "ca_calls al"] by (auto simp: sys_malloc_def never_null_def Let_def split: if_splits)

lemma head_ok:
  assumes m: "malloc_ok E" "never_null E" and i: "inv al R hs F U H P B"
  shows "\<exists>p l c b k. head_init_list E al hl = Some (Some p, al\<lparr>ca_links := l, ca_count := c, ca_blocks := b, ca_calls := k\<rparr>) \<and>
    p \<notin> dom R \<and> inv (al\<lparr>ca_links := l, ca_count := c, ca_blocks := b, ca_calls := k\<rparr>) (R(p \<mapsto> [])) (p # hs) F U H P B"
proof -
  obtain p al1 where p: "sys_malloc E al HEAD = (p, al1)" by fastforce
  have nz: "p \<noteq> 0" by (rule malloc_granted [OF m(2) p])
  obtain k where al1: "al1 = al\<lparr>ca_calls := k, ca_blocks := (p, HEAD) # ca_blocks al\<rparr>" using malloc_inv(2) [OF m(1) i p] nz by auto
  have i1: "inv al1 R hs F U H P ((p, HEAD) # B)" using malloc_inv(1) [OF m(1) i p] nz by simp
  have pn: "p \<notin> ring_nodes R" using inv_outside [OF i1, of p HEAD p] by auto
  have ph: "p \<notin> set hs" using content_outside [OF invD(3) [OF i1], of p p HEAD] by auto
  have rings: "rings (ca_links al1) R" using invD(2) [OF i1] by (simp add: lists_ok_def)
  obtain l where l: "INIT_LIST_HEAD (new_node (ca_links al1) p ()) p = Some l" "rings l (R(p \<mapsto> []))" using ring_head [OF rings pn] by blast
  define c where "c = (ca_count al)(p \<mapsto> 0)"
  define b where "b = (p, HEAD) # ca_blocks al"
  let ?al = "al\<lparr>ca_links := l, ca_count := c, ca_blocks := b, ca_calls := k\<rparr>"
  have al': "?al = al1\<lparr>ca_links := l, ca_count := c\<rparr>" by (simp add: al1 b_def)
  have "head_init_list E al hl = Some (Some p, ?al)" using p nz l(1) by (simp add: head_init_list_def al1 c_def b_def)
  moreover have "p \<notin> dom R" using pn ring_nodesI [of R p _ p] by auto
  moreover have "inv ?al (R(p \<mapsto> [])) (p # hs) F U H P B"
  proof -
    have sc: "same_limits ?al al1" by (simp add: same_limits_def al1)
    have "content ?al hs F U H P ((p, HEAD) # B)"
      by (rule content_frame [OF invD(3) [OF i1] sc]) (use contentD(1-3) [OF invD(3) [OF i1]] in \<open>auto simp: al1 c_def b_def\<close>)
    then have "content ?al (p # hs) F U H P B" by (rule content_adopt_head) (simp add: c_def)
    moreover have "lists_ok ?al (R(p \<mapsto> []))" using invD(2) [OF i1] l(2) by (simp add: lists_ok_def al1 c_def)
    moreover have "ring_nodes (R(p \<mapsto> [])) \<subseteq> set (p # hs) \<union> set P \<union> set H \<union> cells ?al F U"
      using ring_nodes_fresh [of R p "[]"] invD(4) [OF i1] same_limitsD(5) [OF sc] by auto
    ultimately show ?thesis using invD(1) [OF i1] same_limitsD(4) [OF sc] by (simp add: inv_def)
  qed
  ultimately show ?thesis by blast
qed

text \<open>An allocator that has only empty lists.\<close>

definition blank :: "nat list \<Rightarrow> nat \<rightharpoonup> nat list" where
  "blank hs = (\<lambda>h. if h \<in> set hs then Some [] else None)"

lemma blank_Cons: "(blank hs)(p \<mapsto> []) = blank (p # hs)"
  by (auto simp: blank_def fun_eq_iff)

lemma dom_blank [simp]: "dom (blank hs) = set hs"
  by (auto simp: blank_def split: if_splits)

definition starting :: "allocator \<Rightarrow> nat list \<Rightarrow> (nat \<times> nat) list \<Rightarrow> bool" where
  "starting al hs B \<longleftrightarrow> inv al (blank hs) hs (\<lambda>_. {}) (\<lambda>_. {}) [] [] B \<and> distinct hs"

lemma starting_head:
  assumes "malloc_ok E" "never_null E" "starting al hs B"
  shows "\<exists>p l c b k. head_init_list E al hl = Some (Some p, al\<lparr>ca_links := l, ca_count := c, ca_blocks := b, ca_calls := k\<rparr>) \<and>
    starting (al\<lparr>ca_links := l, ca_count := c, ca_blocks := b, ca_calls := k\<rparr>) (p # hs) B"
proof -
  have i: "inv al (blank hs) hs (\<lambda>_. {}) (\<lambda>_. {}) [] [] B" and d: "distinct hs" using assms(3) by (simp_all add: starting_def)
  obtain p l c b k where h: "head_init_list E al hl = Some (Some p, al\<lparr>ca_links := l, ca_count := c, ca_blocks := b, ca_calls := k\<rparr>)" "p \<notin> dom (blank hs)"
      "inv (al\<lparr>ca_links := l, ca_count := c, ca_blocks := b, ca_calls := k\<rparr>) ((blank hs)(p \<mapsto> [])) (p # hs) (\<lambda>_. {}) (\<lambda>_. {}) [] [] B"
    using head_ok [OF assms(1,2) i] by blast
  have "starting (al\<lparr>ca_links := l, ca_count := c, ca_blocks := b, ca_calls := k\<rparr>) (p # hs) B"
    using h(2) h(3) [unfolded blank_Cons] d by (simp add: starting_def)
  then show ?thesis using h(1) by blast
qed

lemma inv_same:
  assumes i: "inv al R hs F U H P B"
    and s: "same_limits al' al" "ca_links al' = ca_links al" "ca_count al' = ca_count al" "ca_mempool al' = ca_mempool al" "ca_slab al' = ca_slab al"
      "ca_blocks al' = ca_blocks al"
  shows "inv al' R hs F U H P B"
proof -
  have "content al' hs F U H P B" by (rule content_frame [OF invD(3) [OF i] s(1)]) (use contentD(1-3) [OF invD(3) [OF i]] s in auto)
  then show ?thesis using invD(1,2,4) [OF i] same_limitsD(4,5) [OF s(1)] s by (simp add: inv_def lists_ok_def)
qed

lemma starting_same:
  "starting al hs B \<Longrightarrow> same_limits al' al \<Longrightarrow> ca_links al' = ca_links al \<Longrightarrow> ca_count al' = ca_count al \<Longrightarrow> ca_mempool al' = ca_mempool al \<Longrightarrow>
   ca_slab al' = ca_slab al \<Longrightarrow> ca_blocks al' = ca_blocks al \<Longrightarrow> starting al' hs B"
  unfolding starting_def using inv_same by blast

lemma init_heads_ok:
  assumes m: "malloc_ok E" "never_null E"
  shows "starting al hs B \<Longrightarrow> ca_used al = map Some us @ replicate k None \<Longrightarrow> ca_free al = map Some fs @ replicate k None \<Longrightarrow>
    length us = i \<Longrightarrow> length fs = i \<Longrightarrow> mset hs = mset (fs @ us) \<Longrightarrow>
    \<exists>us' fs' hs' l c b n. init_heads E al i k = Some (al\<lparr>ca_free := map Some fs', ca_used := map Some us', ca_links := l, ca_count := c, ca_blocks := b, ca_calls := n\<rparr>) \<and>
      length us' = i + k \<and> length fs' = i + k \<and> mset hs' = mset (fs' @ us') \<and>
      starting (al\<lparr>ca_free := map Some fs', ca_used := map Some us', ca_links := l, ca_count := c, ca_blocks := b, ca_calls := n\<rparr>) hs' B"
proof (induction k arbitrary: al hs us fs i)
  case 0
  have eq: "al\<lparr>ca_free := map Some fs, ca_used := map Some us\<rparr> = al" using 0(2,3) by simp
  have st0: "starting (al\<lparr>ca_free := map Some fs, ca_used := map Some us\<rparr>) hs B" by (rule starting_same [OF 0(1)]) (simp_all add: same_limits_def)
  show ?case
    by (rule exI [of _ "us"], rule exI [of _ "fs"], rule exI [of _ "hs"], rule exI [of _ "ca_links al"],
      rule exI [of _ "ca_count al"], rule exI [of _ "ca_blocks al"], rule exI [of _ "ca_calls al"]) (use 0 eq st0 in simp)
next
  case (Suc k)
  have u: "ld1 (ca_used al) (int i) = Some None" "\<And>h. st1 (ca_used al) (int i) h = Some (map Some us @ h # replicate k None)"
    using Suc.prems(2,4) by (simp_all add: ld1_nat st1_nat nth_append list_update_append)
  have f: "ld1 (ca_free al) (int i) = Some None" "\<And>h. st1 (ca_free al) (int i) h = Some (map Some fs @ h # replicate k None)"
    using Suc.prems(3,5) by (simp_all add: ld1_nat st1_nat nth_append list_update_append)
  obtain h l c b n where h: "head_init_list E al None = Some (Some h, al\<lparr>ca_links := l, ca_count := c, ca_blocks := b, ca_calls := n\<rparr>)"
      "starting (al\<lparr>ca_links := l, ca_count := c, ca_blocks := b, ca_calls := n\<rparr>) (h # hs) B"
    using starting_head [OF m Suc.prems(1)] by blast
  define al1 where "al1 = al\<lparr>ca_links := l, ca_count := c, ca_blocks := b, ca_calls := n, ca_used := map Some us @ Some h # replicate k None\<rparr>"
  have s1: "starting al1 (h # hs) B" by (rule starting_same [OF h(2)]) (simp_all add: al1_def same_limits_def)
  obtain g l' c' b' n' where g: "head_init_list E al1 None = Some (Some g, al1\<lparr>ca_links := l', ca_count := c', ca_blocks := b', ca_calls := n'\<rparr>)"
      "starting (al1\<lparr>ca_links := l', ca_count := c', ca_blocks := b', ca_calls := n'\<rparr>) (g # h # hs) B"
    using starting_head [OF m s1] by blast
  define al2 where "al2 = al1\<lparr>ca_links := l', ca_count := c', ca_blocks := b', ca_calls := n', ca_free := map Some fs @ Some g # replicate k None\<rparr>"
  have s2: "starting al2 (g # h # hs) B" by (rule starting_same [OF g(2)]) (simp_all add: al2_def same_limits_def)
  have step: "init_heads E al i (Suc k) = init_heads E al2 (Suc i) k"
    using u(1) f(1) h(1) g(1) u(2) f(2) by (simp add: slab_init_head_list_def al1_def al2_def)
  have "mset (g # h # hs) = mset ((fs @ [g]) @ (us @ [h]))" using Suc.prems(6) by simp
  then obtain us' fs' hs' l2 c2 b2 n2 where r: "init_heads E al2 (Suc i) k = Some (al2\<lparr>ca_free := map Some fs', ca_used := map Some us', ca_links := l2, ca_count := c2, ca_blocks := b2, ca_calls := n2\<rparr>)"
      "length us' = Suc i + k" "length fs' = Suc i + k" "mset hs' = mset (fs' @ us')"
      "starting (al2\<lparr>ca_free := map Some fs', ca_used := map Some us', ca_links := l2, ca_count := c2, ca_blocks := b2, ca_calls := n2\<rparr>) hs' B"
    using Suc.IH [OF s2, of "us @ [h]" "fs @ [g]" "Suc i"] Suc.prems(4,5) by (auto simp: al2_def al1_def)
  then show ?case unfolding step
    by (intro exI [of _ us'] exI [of _ fs'] exI [of _ hs'] exI [of _ l2] exI [of _ c2] exI [of _ b2] exI [of _ n2]) (simp add: al2_def al1_def)
qed

lemma lists_up:
  assumes m: "malloc_ok E" "never_null E" and s: "starting al [] B" and a: "ca_used al = replicate (classes al) None" "ca_free al = replicate (classes al) None"
  shows "\<exists>al' T R. ctr_init_lists E al = Some al' \<and> slab_wf al' R T B \<and> in_use al' T R = {} \<and> same_limits al' al \<and> ca_type al' = ca_type al \<and>
    ca_self al' = ca_self al \<and> ca_free_p al' = ca_free_p al \<and> ca_used_p al' = ca_used_p al \<and> ca_alloc_count al' = ca_alloc_count al"
proof -
  obtain us fs hs l c b n where i: "init_heads E al 0 (classes al) = Some (al\<lparr>ca_free := map Some fs, ca_used := map Some us, ca_links := l, ca_count := c, ca_blocks := b, ca_calls := n\<rparr>)"
      "length us = classes al" "length fs = classes al" "mset hs = mset (fs @ us)"
      "starting (al\<lparr>ca_free := map Some fs, ca_used := map Some us, ca_links := l, ca_count := c, ca_blocks := b, ca_calls := n\<rparr>) hs B"
    using init_heads_ok [OF m s, of "[]" "classes al" "[]" 0] a by auto
  define al1 where "al1 = al\<lparr>ca_free := map Some fs, ca_used := map Some us, ca_links := l, ca_count := c, ca_blocks := b, ca_calls := n\<rparr>"
  obtain h l2 c2 b2 n2 where h: "head_init_list E al1 (ca_huge al1) = Some (Some h, al1\<lparr>ca_links := l2, ca_count := c2, ca_blocks := b2, ca_calls := n2\<rparr>)"
      "starting (al1\<lparr>ca_links := l2, ca_count := c2, ca_blocks := b2, ca_calls := n2\<rparr>) (h # hs) B"
    using starting_head [OF m i(5) [folded al1_def]] by blast
  define al2 where "al2 = al1\<lparr>ca_links := l2, ca_count := c2, ca_blocks := b2, ca_calls := n2, ca_huge := Some h\<rparr>"
  have s2: "starting al2 (h # hs) B" by (rule starting_same [OF h(2)]) (simp_all add: al2_def same_limits_def)
  obtain hp l3 c3 b3 n3 where hp: "head_init_list E al2 (ca_pool al1) = Some (Some hp, al2\<lparr>ca_links := l3, ca_count := c3, ca_blocks := b3, ca_calls := n3\<rparr>)"
      "starting (al2\<lparr>ca_links := l3, ca_count := c3, ca_blocks := b3, ca_calls := n3\<rparr>) (hp # h # hs) B"
    using starting_head [OF m s2] by blast
  define al3 where "al3 = al2\<lparr>ca_links := l3, ca_count := c3, ca_blocks := b3, ca_calls := n3, ca_pool := Some hp\<rparr>"
  let ?hs = "hp # h # hs"
  have s3: "starting al3 ?hs B" by (rule starting_same [OF hp(2)]) (simp_all add: al3_def same_limits_def)
  then have i3: "inv al3 (blank ?hs) ?hs (\<lambda>_. {}) (\<lambda>_. {}) [] [] B" by (simp add: starting_def)
  obtain p al4 where p: "mempool_create_list E al3 = Some (p, al4)" "same_fields al4 al3" "p \<noteq> 0" "lists_ok al4 (blank ?hs)"
      "content al4 ?hs (\<lambda>_. {}) (\<lambda>_. {}) [] [p] B" "p \<notin> ring_nodes (blank ?hs)" "l_next (ca_links al4) p \<noteq> None" "l_prev (ca_links al4) p \<noteq> None"
    using create_ok [OF m(1) i3] pool_granted [OF m(2)] by fastforce
  obtain l5 c5 where a5: "slab_attach_list al4 p hp = Some (al4\<lparr>ca_links := l5, ca_count := c5\<rparr>)"
      "lists_ok (al4\<lparr>ca_links := l5, ca_count := c5\<rparr>) ((blank ?hs)(hp \<mapsto> [p]))" "\<forall>x. c5 x = None \<longleftrightarrow> ca_count al4 x = None"
    using attach_ok [OF p(4) _ p(6-8), of hp "[]"] by (auto simp: blank_def)
  define al5 where "al5 = al4\<lparr>ca_links := l5, ca_count := c5\<rparr>"
  define R5 where "R5 = (blank ?hs)(hp \<mapsto> [p])"
  have sf5: "same_fields al5 al3" using p(2) by (simp add: al5_def same_fields_def same_limits_def)
  have i5: "inv al5 R5 ?hs (\<lambda>_. {}) (\<lambda>_. {}) [] [p] B"
    unfolding inv_def
  proof (intro conjI)
    show "config_ok al5" using invD(1) [OF i3] same_limitsD(4) [of al5 al3] sf5 by (simp add: same_fields_def)
    show "lists_ok al5 R5" using a5(2) by (simp add: al5_def R5_def)
    show "content al5 ?hs (\<lambda>_. {}) (\<lambda>_. {}) [] [p] B" unfolding al5_def by (rule content_links [OF p(5)]) (use a5(3) in blast)
    show "ring_nodes R5 \<subseteq> set ?hs \<union> set [p] \<union> set [] \<union> cells al5 (\<lambda>_. {}) (\<lambda>_. {})"
      by (auto simp: ring_nodes_def R5_def blank_def split: if_splits)
  qed
  obtain he l6 c6 b6 n6 where he: "head_init_list E al5 (ca_empty al5) = Some (Some he, al5\<lparr>ca_links := l6, ca_count := c6, ca_blocks := b6, ca_calls := n6\<rparr>)"
      "he \<notin> dom R5" "inv (al5\<lparr>ca_links := l6, ca_count := c6, ca_blocks := b6, ca_calls := n6\<rparr>) (R5(he \<mapsto> [])) (he # ?hs) (\<lambda>_. {}) (\<lambda>_. {}) [] [p] B"
    using head_ok [OF m i5] by blast
  define al6 where "al6 = al5\<lparr>ca_links := l6, ca_count := c6, ca_blocks := b6, ca_calls := n6, ca_empty := Some he\<rparr>"
  define R where "R = R5(he \<mapsto> [])"
  have i6: "inv al6 R (he # ?hs) (\<lambda>_. {}) (\<lambda>_. {}) [] [p] B"
    unfolding R_def by (rule inv_same [OF he(3)]) (simp_all add: al6_def same_limits_def)
  define T where "T = \<lparr>h_free = fs, h_used = us, h_huge = h, h_pool = hp, h_empty = he\<rparr>"
  have ah: "mset (all_heads T) = mset (he # ?hs)" using i(4) by (simp add: all_heads_def T_def)
  have d: "distinct (he # ?hs)" using s3 he(2) by (simp add: starting_def R5_def)
  have f5: "ca_free al5 = map Some fs" "ca_used al5 = map Some us" "ca_huge al5 = Some h" "ca_pool al5 = Some hp" "classes al5 = classes al"
      "ca_type al5 = ca_type al" "ca_self al5 = ca_self al" "ca_free_p al5 = ca_free_p al" "ca_used_p al5 = ca_used_p al"
      "ca_alloc_count al5 = ca_alloc_count al" "same_limits al5 al"
    using sf5 by (simp_all add: same_fields_def same_limits_def al3_def al2_def al1_def classes_def)
  have h6: "heads_ok al6 T R"
    unfolding heads_ok_def
  proof (intro conjI)
    show "distinct (all_heads T)" using d ah by (metis mset_eq_imp_distinct_iff)
    have "set (all_heads T) = set (he # ?hs)" by (rule mset_eq_setD [OF ah])
    then show "dom R = set (all_heads T)" by (auto simp: R_def R5_def)
  qed (use f5 i(2,3) in \<open>simp_all add: T_def al6_def classes_def\<close>)
  have sub: "set fs \<union> set us = set hs" using mset_eq_setD [OF i(4)] by auto
  have Rn: "R x = Some []" if "x \<in> set hs" for x using that d by (auto simp: R_def R5_def blank_def)
  have cl6: "classes al6 = classes al" using f5(5) by (simp add: al6_def classes_def)
  have none: "free_cells T R j = {} \<and> used_cells T R j = {}" if "j < classes al6" for j
  proof -
    have "fs ! j \<in> set fs" "us ! j \<in> set us" using that i(2,3) by (simp_all add: cl6)
    then have "fs ! j \<in> set hs" "us ! j \<in> set hs" using sub by blast+
    then have "R (fs ! j) = Some []" "R (us ! j) = Some []" using Rn by blast+
    then show ?thesis by (simp add: free_cells_def used_cells_def T_def)
  qed
  have Rh: "R (h_huge T) = Some []" "R (h_pool T) = Some [p]" "R (h_empty T) = Some []" using d by (simp_all add: R_def R5_def T_def blank_def)
  have "content al6 (all_heads T) (\<lambda>_. {}) (\<lambda>_. {}) [] [p] B"
  proof (rule content_owner [OF invD(3) [OF i6]])
    show "mset (slab_owned al6 (all_heads T) [] [p] @ B) = mset (slab_owned al6 (he # ?hs) [] [p] @ B)" using ah by (simp add: slab_owned_def)
    show "ca_count al6 x \<noteq> None" if "x \<in> set (all_heads T)" for x using contentD(3) [OF invD(3) [OF i6], of x] that mset_eq_setD [OF ah] by simp
  qed (use contentD(4) [OF invD(3) [OF i6]] in simp_all)
  then have "content al6 (all_heads T) (\<lambda>_. {}) (\<lambda>_. {}) (the (R (h_huge T))) [p] B" by (simp add: Rh)
  from slab_wfI [OF h6 invD(1,2) [OF i6] this] have w: "slab_wf al6 R T B" using none by (simp add: pools_def Rh)
  have "in_use al6 T R = {}" using none by (auto simp: in_use_def Rh)
  moreover have "ctr_init_lists E al = Some al6"
  proof -
    define x1 x3 x6 where "x1 = al1\<lparr>ca_links := l2, ca_count := c2, ca_blocks := b2, ca_calls := n2\<rparr>"
      and "x3 = al2\<lparr>ca_links := l3, ca_count := c3, ca_blocks := b3, ca_calls := n3\<rparr>"
      and "x6 = al5\<lparr>ca_links := l6, ca_count := c6, ca_blocks := b6, ca_calls := n6\<rparr>"
    have e: "x1\<lparr>ca_huge := Some h\<rparr> = al2" "x3\<lparr>ca_pool := Some hp\<rparr> = al3" "x6\<lparr>ca_empty := Some he\<rparr> = al6" "ca_pool x1 = ca_pool al1"
      by (simp_all add: x1_def x3_def x6_def al2_def al3_def al6_def)
    have "ca_pool al4 = Some hp" using p(2) by (simp add: same_fields_def al3_def)
    then show ?thesis
      using i(1) [folded al1_def] h(1) [folded x1_def] hp(1) [folded x3_def] p(1,3) a5(1) [folded al5_def] he(1) [folded x6_def] e
      by (simp add: ctr_init_lists_def classes_def [symmetric] slab_init_head_list_def mempool_init_head_list_def mempool_list_eq)
  qed
  moreover have "same_limits al6 al" "ca_type al6 = ca_type al" "ca_self al6 = ca_self al" "ca_free_p al6 = ca_free_p al" "ca_used_p al6 = ca_used_p al"
      "ca_alloc_count al6 = ca_alloc_count al" using f5 by (simp_all add: al6_def same_limits_def)
  ultimately show ?thesis using w by blast
qed

lemma starting_blank: "config_ok al \<Longrightarrow> heap_ok (ca_blocks al) \<Longrightarrow> starting al [] (ca_blocks al)"
  by (simp add: starting_def inv_def lists_ok_def rings_def content_def slab_owned_def pool_blocks_def cells_def blank_def ring_nodes_def)

lemma starting_malloc:
  assumes m: "malloc_ok E" "never_null E" and s: "starting al [] B" and p: "sys_malloc E al n = (p, al1)"
  shows "starting al1 [] ((p, n) # B)" "\<exists>c b. al1 = al\<lparr>ca_calls := c, ca_blocks := b\<rparr>" "p \<noteq> 0"
proof -
  have i: "inv al (blank []) [] (\<lambda>_. {}) (\<lambda>_. {}) [] [] B" using s by (simp add: starting_def)
  show nz: "p \<noteq> 0" by (rule malloc_granted [OF m(2) p])
  show "starting al1 [] ((p, n) # B)" using malloc_inv(1) [OF m(1) i p] nz by (simp add: starting_def)
  show "\<exists>c b. al1 = al\<lparr>ca_calls := c, ca_blocks := b\<rparr>" using malloc_inv(2) [OF m(1) i p] nz by auto
qed

lemma ctr_init_ok:
  assumes m: "malloc_ok E" "never_null E" and s: "starting (ctr_config al) [] B"
  shows "\<exists>al' T R. ctr_init E al = Some (1, al') \<and> ca_type al' = ca_type al \<and> ca_self al' = ca_self al \<and> ca_alloc_count al' = 0 \<and>
    same_limits al' (ctr_config al) \<and> in_use al' T R = {} \<and>
    slab_wf al' R T ((ca_used_p al', 8 * classes al') # (ca_free_p al', 8 * classes al') # B)"
proof -
  define al0 where "al0 = ctr_config al"
  let ?n = "classes al0"
  have f0: "ca_type al0 = ca_type al" "ca_self al0 = ca_self al" "ca_alloc_count al0 = 0" by (simp_all add: al0_def ctr_config_def Let_def)
  have s0: "starting al0 [] B" using s by (simp add: al0_def)
  obtain p al1 where p: "sys_malloc E al0 (8 * ?n) = (p, al1)" by fastforce
  note p1 = starting_malloc [OF m s0 p]
  define al1' where "al1' = al1\<lparr>ca_free_p := p, ca_free := replicate ?n None\<rparr>"
  have s1: "starting al1' [] ((p, 8 * ?n) # B)" by (rule starting_same [OF p1(1)]) (simp_all add: al1'_def same_limits_def)
  obtain q al2 where q: "sys_malloc E al1' (8 * ?n) = (q, al2)" by fastforce
  note q1 = starting_malloc [OF m s1 q]
  define al2' where "al2' = al2\<lparr>ca_used_p := q, ca_used := replicate ?n None\<rparr>"
  have s2: "starting al2' [] ((q, 8 * ?n) # (p, 8 * ?n) # B)" by (rule starting_same [OF q1(1)]) (simp_all add: al2'_def same_limits_def)
  have al2': "ca_free al2' = replicate ?n None" "ca_used al2' = replicate ?n None" "ca_free_p al2' = p" "ca_used_p al2' = q" "same_limits al2' al0"
      "ca_type al2' = ca_type al0" "ca_self al2' = ca_self al0" "ca_alloc_count al2' = 0" "classes al2' = ?n"
    using p1(2) q1(2) f0(3) by (auto simp: al2'_def al1'_def same_limits_def classes_def)
  obtain al3 T R where r: "ctr_init_lists E al2' = Some al3" "slab_wf al3 R T ((q, 8 * ?n) # (p, 8 * ?n) # B)" "in_use al3 T R = {}" "same_limits al3 al2'"
      "ca_type al3 = ca_type al2'" "ca_self al3 = ca_self al2'" "ca_free_p al3 = p" "ca_used_p al3 = q" "ca_alloc_count al3 = 0"
    using lists_up [OF m s2] al2' by metis
  have sc: "same_limits al3 al0" using r(4) al2'(5) by (simp add: same_limits_def)
  have cl: "classes al3 = ?n" by (rule same_limitsD(1) [OF sc])
  have "ctr_init E al = Some (1, al3)"
    using p p1(3) q q1(3) r(1)
    by (simp add: ctr_init_def al0_def [symmetric] classes_def [symmetric] al1'_def [symmetric] al2'_def [symmetric])
  then show ?thesis using r sc al2' f0 by (auto simp: cl al0_def)
qed

text \<open>The default allocator.\<close>

lemma ctr_init_rep:
  assumes m: "malloc_ok E" "never_null E" and s: "starting (ctr_config (al\<lparr>slab_array_max_num := n, data_min_size := k, mempool_capacity := c\<rparr>)) [] B"
    and t: "ca_type al = ALLOCATOR_TYPE_CTR_MALLOC"
  shows "\<exists>al' T. allocator_ctr_init E al n k c = Some al' \<and> ca_type al' = ca_type al \<and> ca_self al' = ca_self al \<and> length (h_free T) = classes al' \<and>
    ctr_rep E T ((ca_used_p al', 8 * classes al') # (ca_free_p al', 8 * classes al') # B) al' Map.empty"
proof -
  obtain al' T R where r: "ctr_init E (al\<lparr>slab_array_max_num := n, data_min_size := k, mempool_capacity := c\<rparr>) = Some (1, al')"
      "ca_type al' = ca_type al" "ca_self al' = ca_self al" "ca_alloc_count al' = 0" "in_use al' T R = {}"
      "slab_wf al' R T ((ca_used_p al', 8 * classes al') # (ca_free_p al', 8 * classes al') # B)"
    using ctr_init_ok [OF m s] by auto
  have "live_map al' T R = Map.empty" using r(5) by (auto simp: live_map_def fun_eq_iff)
  then have "ctr_rep E T ((ca_used_p al', 8 * classes al') # (ca_free_p al', 8 * classes al') # B) al' Map.empty"
    unfolding ctr_rep_def using m r(4,6) by (auto intro: exI [of _ R])
  moreover have "length (h_free T) = classes al'" using slab_wfD(1) [OF r(6)] by (simp add: heads_ok_def)
  ultimately show ?thesis using r t by (auto simp: allocator_ctr_init_def)
qed

lemma default_config: "config_ok (ctr_config (al\<lparr>slab_array_max_num := 0, data_min_size := 8, mempool_capacity := 0\<rparr>))"
  by (simp add: config_ok_def ctr_config_def Let_def classes_def class_size_def pool_capacity_def pow32_2)

lemma default_ok:
  assumes m: "malloc_ok E" "never_null E" and h: "heap_ok (ca_blocks al)"
  shows "\<exists>al' T p. default_allocator_constructor E al = Some al' \<and> ca_type al' = ALLOCATOR_TYPE_CTR_MALLOC \<and> ca_self al' = p \<and> length (h_free T) = classes al' \<and>
    ctr_rep E T ((ca_used_p al', 8 * classes al') # (ca_free_p al', 8 * classes al') # (p, ALLOCATOR) # ca_blocks al) al' Map.empty"
proof -
  obtain p al1 where p: "sys_malloc E al ALLOCATOR = (p, al1)" by fastforce
  have nz: "p \<noteq> 0" by (rule malloc_granted [OF m(2) p])
  define al2 where "al2 = al1\<lparr>ca_self := p, ca_type := ALLOCATOR_TYPE_CTR_MALLOC, ca_alloc_count := 0\<rparr>"
  let ?c = "ctr_config (al2\<lparr>slab_array_max_num := 0, data_min_size := 8, mempool_capacity := 0\<rparr>)"
  have hb: "ca_blocks al1 = (p, ALLOCATOR) # ca_blocks al" "heap_ok ((p, ALLOCATOR) # ca_blocks al)" using malloc_law [OF m(1) h p] nz by auto
  have cb: "ca_blocks ?c = (p, ALLOCATOR) # ca_blocks al" by (simp add: ctr_config_def Let_def al2_def hb(1))
  have "starting ?c [] ((p, ALLOCATOR) # ca_blocks al)" using starting_blank [OF default_config, of al2] hb(2) unfolding cb by blast
  note r = ctr_init_rep [OF m this]
  have t: "ca_type al2 = ALLOCATOR_TYPE_CTR_MALLOC" "ca_self al2 = p" by (simp_all add: al2_def)
  have "default_allocator_constructor E al = allocator_ctr_init E al2 0 8 0"
    using p nz by (simp add: default_allocator_constructor_def allocator_create_def al2_def)
  then show ?thesis using r t by metis
qed

end
