(* ===== verification/SlabEnd.thy ===== *)
theory SlabEnd
  imports SlabInit
begin

text \<open>The end of a slab allocator: every block it took from \<open>malloc\<close> is given back, whatever is still in use.\<close>

subsection \<open>Pools and heads\<close>

lemma rings_restrict: "rings l R \<Longrightarrow> rings l (R |` S)"
  unfolding rings_def by (auto simp: restrict_map_def split: if_splits)

lemma ring_nodes_restrict: "ring_nodes (R |` S) \<subseteq> ring_nodes R"
  by (auto simp: ring_nodes_def restrict_map_def split: if_splits)

text \<open>No lists are followed any more but those of \<open>S\<close>, and the slabs in the pools are forgotten.\<close>

abbreviation none :: "nat \<Rightarrow> nat set" where "none \<equiv> (\<lambda>_. {})"

lemma cells_none [simp]: "cells al none none = {}"
  by (simp add: cells_def)

lemma inv_forget:
  assumes "inv al R hs F U H P B" "ring_nodes (R |` S) \<subseteq> set hs \<union> set P \<union> set H"
  shows "inv al (R |` S) hs none none H P B"
proof -
  have "lists_ok al (R |` S)" using invD(2) [OF assms(1)] rings_restrict [of "ca_links al" R S]
    by (auto simp: lists_ok_def restrict_map_def split: if_splits)
  then show ?thesis using invD(1) [OF assms(1)] content_drop_cells [OF invD(3) [OF assms(1)]] assms(2) by (simp add: inv_def)
qed

lemma released_same: "same_fields (released al a n) al"
  by (simp add: same_fields_def same_limits_def)

lemma release_head_ok:
  assumes i: "inv al R hs none none H P B" and h: "h \<in> set hs" "h \<notin> ring_nodes R"
  shows "slab_release_head_list al h = Some (released al h HEAD)" "sys_free al h = Some (released al h HEAD)"
    "inv (released al h HEAD) R (remove1 h hs) none none H P B"
proof -
  note c = invD(3) [OF i]
  obtain xs ys where hs: "hs = xs @ h # ys" using h(1) split_list by metis
  have c1: "content al (xs @ ys) none none H P ((h, HEAD) # B)" using content_disown_head c hs by simp
  have dh: "distinct hs"
  proof -
    have "distinct (map fst (slab_owned al hs H P @ B))" by (rule content_blocks(1) [OF c])
    then show ?thesis by (simp add: slab_owned_def comp_def)
  qed
  have "ring_nodes R \<subseteq> set (xs @ ys) \<union> set P \<union> set H" using invD(4) [OF i] h(2) hs by auto
  then have i1: "inv al R (xs @ ys) none none H P ((h, HEAD) # B)" using invD(1,2) [OF i] c1 by (simp add: inv_def)
  note f = free_inv [OF i1, of h HEAD]
  have "remove1 h hs = xs @ ys" using dh hs by (simp add: remove1_append)
  then show "inv (released al h HEAD) R (remove1 h hs) none none H P B" using f(2) by simp
  show "sys_free al h = Some (released al h HEAD)" using f(1) by simp
  then show "slab_release_head_list al h = Some (released al h HEAD)"
    using contentD(3) [OF c h(1)] by (auto simp: slab_release_head_list_def)
qed

lemma destroy_pool_ok:
  assumes i: "inv al R hs none none H (p # Q) B" and R: "R hp = Some (p # ys)"
  shows "\<exists>al'. mempool_destroy_list al p hp = Some al' \<and> inv al' (R(hp \<mapsto> ys)) hs none none H Q B \<and> same_fields al' al"
proof -
  obtain l c where d: "slab_detach_list al p hp = Some (al\<lparr>ca_links := l, ca_count := c\<rparr>)" "lists_ok (al\<lparr>ca_links := l, ca_count := c\<rparr>) (R(hp \<mapsto> ys))"
      "\<forall>x. c x = None \<longleftrightarrow> ca_count al x = None"
    using detach_ok [of al R hp "[]" p ys] invD(2) [OF i] R by auto
  define al1 where "al1 = al\<lparr>ca_links := l, ca_count := c\<rparr>"
  have rings: "rings (ca_links al) R" using invD(2) [OF i] by (simp add: lists_ok_def)
  have pn: "p \<notin> ring_nodes (R(hp \<mapsto> ys))" using ring_del_fresh [of "ca_links al" R hp "[]" p ys] rings R by simp
  have c1: "content al1 hs none none H (p # Q) B" unfolding al1_def by (rule content_links [OF invD(3) [OF i]]) (use d(3) in blast)
  obtain mp where mp: "ca_mempool al1 p = Some mp" using contentD(4) [OF c1, of p] by (auto simp: pool_ok_def)
  have c2: "content al1 hs none none H Q ((p, MEMPOOL) # (mp_start mp, pool_capacity al1) # B)"
    using content_disown_pool [of al1 hs H "[]" p Q B] c1 mp by (simp add: pool_start_def)
  have sc: "config_ok al1" using invD(1) [OF i] same_limitsD(4) [of al1 al] by (simp add: al1_def same_limits_def)
  have "ring_nodes (R(hp \<mapsto> ys)) \<subseteq> set hs \<union> set Q \<union> set H"
    using ring_nodes_update [of R hp "p # ys" ys] R invD(4) [OF i] pn ring_nodesI [of R hp "p # ys"] by fastforce
  then have i2: "inv al1 (R(hp \<mapsto> ys)) hs none none H Q ((p, MEMPOOL) # (mp_start mp, pool_capacity al1) # B)"
    using c2 d(2) sc by (simp add: inv_def al1_def)
  note f1 = free_inv [OF i2, of "mp_start mp" "pool_capacity al1"]
  let ?al2 = "released al1 (mp_start mp) (pool_capacity al1)"
  have r1: "remove1 (mp_start mp, pool_capacity al1) ((p, MEMPOOL) # (mp_start mp, pool_capacity al1) # B) = (p, MEMPOOL) # B" by auto
  have i3: "inv ?al2 (R(hp \<mapsto> ys)) hs none none H Q ((p, MEMPOOL) # B)" using f1(2) unfolding r1 by simp
  note f2 = free_inv [OF i3, of p MEMPOOL]
  have "mempool_destroy_list al p hp = Some (released ?al2 p MEMPOOL)"
    using d(1) mp f1(1) f2(1) by (simp add: mempool_destroy_list_def mempool_list_eq mempool_release_list_def al1_def [symmetric])
  moreover have "same_fields (released ?al2 p MEMPOOL) al" by (simp add: same_fields_def same_limits_def al1_def)
  ultimately show ?thesis using f2(2) by auto
qed

lemma destroy_pools_ok:
  "inv al R hs none none H (xs @ Q) B \<Longrightarrow> R hp = Some xs \<Longrightarrow> l_next (ca_links al) (hd (xs @ [hp])) = Some n \<Longrightarrow>
   \<exists>al'. destroy_pools_loop al (hd (xs @ [hp])) n hp = Some al' \<and> inv al' (R(hp \<mapsto> [])) hs none none H Q B \<and> same_fields al' al"
proof (induction xs arbitrary: al R n)
  case Nil
  then have "R(hp \<mapsto> []) = R" by auto
  then show ?case using Nil by (subst destroy_pools_loop.simps) (simp add: same_fields_def same_limits_def)
next
  case (Cons p ys)
  have rings: "rings (ca_links al) R" using invD(2) [OF Cons.prems(1)] by (simp add: lists_ok_def)
  have ne: "p \<noteq> hp" using ringsD(2) [OF rings Cons.prems(2)] by auto
  have n: "n = hd (ys @ [hp])" using ring_next [of "ca_links al" R hp "[]" p ys] rings Cons.prems(2,3) by simp
  obtain al1 where d: "mempool_destroy_list al p hp = Some al1" "inv al1 (R(hp \<mapsto> ys)) hs none none H (ys @ Q) B" "same_fields al1 al"
    using destroy_pool_ok [of al R hs H p "ys @ Q" B hp ys] Cons.prems(1,2) by auto
  have rings1: "rings (ca_links al1) (R(hp \<mapsto> ys))" using invD(2) [OF d(2)] by (simp add: lists_ok_def)
  have "n \<in> ring_nodes (R(hp \<mapsto> ys))" using ring_nodesI [of "R(hp \<mapsto> ys)" hp ys n] n by (cases ys) simp_all
  then obtain n' where n': "l_next (ca_links al1) n = Some n'" using rings_dom [OF rings1] by blast
  obtain al' where r: "destroy_pools_loop al1 n n' hp = Some al'" "inv al' ((R(hp \<mapsto> ys))(hp \<mapsto> [])) hs none none H Q B" "same_fields al' al1"
    using Cons.IH [OF d(2) _ n' [unfolded n]] unfolding n by (metis map_upd_Some_unfold)
  have "destroy_pools_loop al p n hp = Some al'" using destroy_pools_loop.simps [of al p n hp] ne d(1) n' r(1) by simp
  moreover have "same_fields al' al" by (rule same_fields_trans [OF r(3) d(3)])
  moreover have "(R(hp \<mapsto> ys))(hp \<mapsto> []) = R(hp \<mapsto> [])" by simp
  ultimately show ?case using r(2) unfolding list.sel append_Cons by metis
qed

lemma destroy_lists_ok:
  assumes i: "inv al R hs none none H (xs @ Q) B" and R: "R hp = Some xs" and h: "hp \<in> set hs"
  shows "\<exists>al'. mempool_destroy_lists al hp = Some al' \<and> inv al' (R(hp := None)) (remove1 hp hs) none none H Q B \<and> same_fields al' al"
proof -
  have rings: "rings (ca_links al) R" using invD(2) [OF i] by (simp add: lists_ok_def)
  have f: "l_next (ca_links al) hp = Some (hd (xs @ [hp]))" by (rule ring_first [OF rings R])
  have "hd (xs @ [hp]) \<in> ring_nodes R" using ring_nodesI [of R hp xs] R by (cases xs) simp_all
  then obtain n where n: "l_next (ca_links al) (hd (xs @ [hp])) = Some n" using rings_dom [OF rings] by blast
  obtain al1 where d: "destroy_pools_loop al (hd (xs @ [hp])) n hp = Some al1" "inv al1 (R(hp \<mapsto> [])) hs none none H Q B" "same_fields al1 al"
    using destroy_pools_ok [OF i R n] by blast
  have r1: "rings (ca_links al1) (R(hp \<mapsto> []))" using invD(2) [OF d(2)] by (simp add: lists_ok_def)
  have "hp \<notin> ring_nodes (R(hp := None))"
  proof
    assume "hp \<in> ring_nodes (R(hp := None))"
    then obtain g zs where g: "g \<noteq> hp" "R g = Some zs" "hp \<in> set (g # zs)" by (auto simp: ring_nodes_def split: if_splits)
    then show False using ringsD(3) [OF rings R g(2,1)] by auto
  qed
  moreover have re: "(R(hp \<mapsto> [])) |` (- {hp}) = R(hp := None)" by (auto simp: restrict_map_def fun_eq_iff)
  have "inv al1 (R(hp := None)) hs none none H Q B"
    using inv_forget [OF d(2), of "- {hp}"] invD(4) [OF d(2)] ring_nodes_restrict [of "R(hp \<mapsto> [])" "- {hp}"]
    unfolding re by simp
  ultimately show ?thesis using release_head_ok [of al1 "R(hp := None)" hs H Q B hp] h f n d(1,3)
      same_fields_trans [OF released_same] by (auto simp: mempool_destroy_lists_def)
qed

lemma release_heads_ok:
  "inv al R hs none none H P B \<Longrightarrow> ca_free al = map Some fs \<Longrightarrow> ca_used al = map Some us \<Longrightarrow> length fs = i + k \<Longrightarrow> length us = i + k \<Longrightarrow>
   mset hs = mset (drop i fs @ drop i us @ rest) \<Longrightarrow> ring_nodes R \<inter> (set fs \<union> set us) = {} \<Longrightarrow>
   \<exists>al' hs'. release_heads al i k = Some al' \<and> inv al' R hs' none none H P B \<and> mset hs' = mset rest \<and> same_fields al' al"
proof (induction k arbitrary: al hs i)
  case 0
  then show ?case by (auto simp: same_fields_def same_limits_def)
next
  case (Suc k)
  have d: "drop i fs = fs ! i # drop (Suc i) fs" "drop i us = us ! i # drop (Suc i) us" using Suc.prems(4,5) by (simp_all add: Cons_nth_drop_Suc)
  have m: "mset hs = {#fs ! i, us ! i#} + mset (drop (Suc i) fs @ drop (Suc i) us @ rest)" using Suc.prems(6) d by simp
  have "fs ! i \<in> set hs" using m by (metis mset_add union_iff insert_iff set_mset_add_mset_insert set_mset_mset)
  moreover have nf: "fs ! i \<notin> ring_nodes R" "us ! i \<notin> ring_nodes R"
    using Suc.prems(4,5,7) nth_mem [of i fs] nth_mem [of i us] by auto
  ultimately have f: "slab_release_head_list al (fs ! i) = Some (released al (fs ! i) HEAD)"
      "inv (released al (fs ! i) HEAD) R (remove1 (fs ! i) hs) none none H P B" using release_head_ok [OF Suc.prems(1)] by blast+
  let ?al1 = "released al (fs ! i) HEAD"
  have m1: "mset (remove1 (fs ! i) hs) = {#us ! i#} + mset (drop (Suc i) fs @ drop (Suc i) us @ rest)" by (simp add: m)
  then have "us ! i \<in> set (remove1 (fs ! i) hs)" by (metis mset_add union_iff insert_iff set_mset_add_mset_insert set_mset_mset)
  then have u: "slab_release_head_list ?al1 (us ! i) = Some (released ?al1 (us ! i) HEAD)"
      "inv (released ?al1 (us ! i) HEAD) R (remove1 (us ! i) (remove1 (fs ! i) hs)) none none H P B" using release_head_ok [OF f(2)] nf(2) by blast+
  let ?al2 = "released ?al1 (us ! i) HEAD"
  have "mset (remove1 (us ! i) (remove1 (fs ! i) hs)) = mset (drop (Suc i) fs @ drop (Suc i) us @ rest)" using m1 by simp
  then obtain al' hs' where r: "release_heads ?al2 (Suc i) k = Some al'" "inv al' R hs' none none H P B" "mset hs' = mset rest" "same_fields al' ?al2"
    using Suc.IH [OF u(2), of "Suc i"] Suc.prems(2-5,7) by auto
  have "slab_head (ca_free al) (int i) = Some (fs ! i)" "slab_head (ca_used ?al1) (int i) = Some (us ! i)"
    using Suc.prems(2-5) by (simp_all add: slab_head_def ld1_nat)
  then have "release_heads al i (Suc k) = Some al'" using f(1) u(1) r(1) by simp
  moreover have "same_fields al' al" using r(4) by (simp add: same_fields_def same_limits_def)
  ultimately show ?case using r(2,3) by blast
qed

text \<open>The loop over the slabs of \<open>malloc\<close> leaves the counter of the list as it is.\<close>

lemma destroy_huge_ok:
  "inv al Map.empty hs none none H P B \<Longrightarrow> rings (ca_links al) [hg \<mapsto> H] \<Longrightarrow> hg \<in> set hs \<Longrightarrow>
   \<exists>al'. destroy_huge_loop al hg = Some al' \<and> inv al' Map.empty hs none none [] P B \<and> same_fields al' al"
proof (induction H arbitrary: al)
  case Nil
  have "l_next (ca_links al) hg = Some hg" using ring_first [OF Nil(2), of hg "[]"] by simp
  then show ?case using Nil(1) by (subst destroy_huge_loop.simps) (simp add: same_fields_def same_limits_def)
next
  case (Cons a ys)
  note i = Cons.prems(1) and r = Cons.prems(2)
  have n: "l_next (ca_links al) hg = Some a" using ring_first [OF r, of hg "a # ys"] by simp
  have ne: "a \<noteq> hg" "a \<notin> set ys" using ringsD(2) [OF r, of hg "a # ys"] by auto
  define R0 where "R0 = [hg \<mapsto> a # ys]"
  have "rings (ca_links al) R0" unfolding R0_def by (rule r)
  moreover have "R0 hg = Some ([] @ a # ys)" by (simp add: R0_def)
  ultimately obtain l where l: "list_del (ca_links al) a = Some l" "rings l (R0(hg \<mapsto> [] @ ys))" using ring_del by blast
  define al1 where "al1 = al\<lparr>ca_links := l\<rparr>"
  have sc: "same_limits al1 al" by (simp add: al1_def same_limits_def)
  have "content al1 hs none none (a # ys) P B"
    by (rule content_frame [OF invD(3) [OF i] sc]) (use contentD(1-3) [OF invD(3) [OF i]] in \<open>auto simp: al1_def\<close>)
  then have c: "content al1 hs none none ys P ((a, extent al1 a) # B)" using content_disown_huge [of al1 hs none none "[]" a ys P B] by simp
  have i1: "inv al1 Map.empty hs none none ys P ((a, extent al1 a) # B)"
    using c invD(1) [OF i] same_limitsD(4) [OF sc] by (simp add: inv_def lists_ok_def rings_def ring_nodes_def)
  note f = free_inv [OF i1, of a "extent al1 a"]
  let ?al2 = "released al1 a (extent al1 a)"
  have r2: "rings (ca_links ?al2) [hg \<mapsto> ys]"
  proof (rule rings_frame)
    show "rings l [hg \<mapsto> ys]" using l(2) unfolding R0_def by simp
    show "l_next (ca_links ?al2) x = l_next l x \<and> l_prev (ca_links ?al2) x = l_prev l x" if "x \<in> ring_nodes [hg \<mapsto> ys]" for x
    proof -
      have "x \<in> set hs \<union> set ys" using that Cons.prems(3) by (auto simp: ring_nodes_def split: if_splits)
      then show ?thesis using content_outside [OF c, of x a "extent al1 a"] by (auto simp: released_def kill_def al1_def)
    qed
  qed
  obtain al' where al': "destroy_huge_loop ?al2 hg = Some al'" "inv al' Map.empty hs none none [] P B" "same_fields al' ?al2"
    using Cons.IH [OF _ r2 Cons.prems(3)] f(2) by auto
  have "destroy_huge_loop al hg = Some al'"
    using destroy_huge_loop.simps [of al hg] n ne(1) l(1) f(1) al'(1) by (simp add: al1_def)
  moreover have "same_fields al' al" using al'(3) by (simp add: same_fields_def same_limits_def al1_def)
  ultimately show ?case using al'(2) by blast
qed

subsection \<open>The whole allocator\<close>

lemma ctr_destroy_ok:
  assumes w: "slab_wf al R T ((ca_used_p al, m) # (ca_free_p al, n) # B)"
  shows "\<exists>al'. ctr_destroy al = Some al' \<and> mset (ca_blocks al') = mset B \<and> heap_ok (ca_blocks al') \<and> ca_self al' = ca_self al"
proof -
  let ?B = "(ca_used_p al, m) # (ca_free_p al, n) # B"
  note h = slab_wfD(1) [OF w] and i = slab_wfD(6) [OF w]
  note hd = heads_distinct [OF h] and hm = heads_mem [OF h]
  define hg hp he where "hg = h_huge T" and "hp = h_pool T" and "he = h_empty T"
  define H xs es where "H = the (R hg)" and "xs = the (R hp)" and "es = the (R he)"
  have Rs: "R hg = Some H" "R hp = Some xs" "R he = Some es" using heads_ring [OF h] hm(3-5) by (simp_all add: hg_def hp_def he_def H_def xs_def es_def)
  have ne: "hg \<noteq> hp" "hg \<noteq> he" "hp \<noteq> he" using hd(6) by (simp_all add: hg_def hp_def he_def)
  have rings: "rings (ca_links al) R" using invD(2) [OF i] by (simp add: lists_ok_def)
  have P: "pools T R = xs @ es" by (simp add: pools_def xs_def es_def hp_def he_def)
  have fields: "ca_pool al = Some hp" "ca_empty al = Some he" "ca_huge al = Some hg" "ca_free al = map Some (h_free T)" "ca_used al = map Some (h_used T)"
      "length (h_free T) = classes al" "length (h_used T) = classes al"
    using h by (simp_all add: heads_ok_def hg_def hp_def he_def)
  let ?S = "{hg, hp, he}"
  have sub: "ring_nodes (R |` ?S) \<subseteq> set (all_heads T) \<union> set (xs @ es) \<union> set H"
    using Rs hm(3-5) by (auto simp: ring_nodes_def restrict_map_def hg_def hp_def he_def split: if_splits)
  have i0: "inv al (R |` ?S) (all_heads T) none none H (xs @ es) ?B"
    using inv_forget [OF i, of ?S] sub by (simp add: P hg_def [symmetric] H_def [symmetric])
  obtain al1 where d1: "mempool_destroy_lists al hp = Some al1" "inv al1 ((R |` ?S)(hp := None)) (remove1 hp (all_heads T)) none none H es ?B" "same_fields al1 al"
    using destroy_lists_ok [OF i0, of hp] Rs(2) hm(4) by (auto simp: hp_def [symmetric])
  have he1: "he \<in> set (remove1 hp (all_heads T))" using hm(5) ne(3) by (simp add: he_def [symmetric])
  obtain al2 where d2: "mempool_destroy_lists al1 he = Some al2" "inv al2 ((R |` ?S)(hp := None, he := None)) (remove1 he (remove1 hp (all_heads T))) none none H [] ?B"
      "same_fields al2 al1"
    using destroy_lists_ok [of al1 "(R |` ?S)(hp := None)" "remove1 hp (all_heads T)" H es "[]" ?B he] d1(2) Rs(3) ne he1 by auto
  define R2 where "R2 = [hg \<mapsto> H]"
  have "(R |` ?S)(hp := None, he := None) = R2" using Rs ne unfolding R2_def by (auto simp: fun_eq_iff restrict_map_def)
  then have i2: "inv al2 R2 (remove1 he (remove1 hp (all_heads T))) none none H [] ?B" using d2(2) by simp
  have s2: "same_fields al2 al" by (rule same_fields_trans [OF d2(3) d1(3)])
  have f2: "ca_free al2 = map Some (h_free T)" "ca_used al2 = map Some (h_used T)" "classes al2 = classes al" "ca_used_p al2 = ca_used_p al" "ca_free_p al2 = ca_free_p al"
    using s2 fields by (simp_all add: same_fields_def same_limits_def classes_def)
  have ms: "mset (remove1 he (remove1 hp (all_heads T))) = mset (drop 0 (h_free T) @ drop 0 (h_used T) @ [hg])"
    by (simp add: all_heads_def hg_def [symmetric] hp_def [symmetric] he_def [symmetric])
  have apart_heads: "ring_nodes R2 \<inter> (set (h_free T) \<union> set (h_used T)) = {}"
  proof -
    have "g \<notin> set (hg # H)" if g: "g \<in> set (h_free T) \<union> set (h_used T)" for g
    proof -
      have g1: "g \<in> set (all_heads T)" using g by (auto simp: all_heads_def)
      have "g \<noteq> hg" using g h by (auto simp: heads_ok_def all_heads_def hg_def)
      then show ?thesis using ringsD(3) [OF rings Rs(1) heads_ring [OF h g1]] by auto
    qed
    then show ?thesis unfolding R2_def ring_nodes_def by (auto split: if_splits)
  qed
  obtain al3 hs3 where d3: "release_heads al2 0 (classes al2) = Some al3" "inv al3 R2 hs3 none none H [] ?B" "mset hs3 = mset [hg]" "same_fields al3 al2"
    using release_heads_ok [OF i2 f2(1,2), of 0 "classes al2" "[hg]"] fields(6,7) f2(3) ms apart_heads by auto
  have hs3: "hs3 = [hg]" using d3(3) by simp
  have f3: "ca_used_p al3 = ca_used_p al" "ca_free_p al3 = ca_free_p al" "ca_huge al3 = Some hg" "ca_self al3 = ca_self al"
    using d3(4) s2 fields by (simp_all add: same_fields_def)
  note f4 = free_inv [OF d3(2), of "ca_used_p al" m]
  let ?al4 = "released al3 (ca_used_p al) m"
  have i4: "inv ?al4 R2 hs3 none none H [] ((ca_free_p al, n) # B)" using f4(2) by simp
  note f5 = free_inv [OF i4, of "ca_free_p al" n]
  let ?al5 = "released ?al4 (ca_free_p al) n"
  have i5: "inv ?al5 R2 hs3 none none H [] B" using f5(2) by simp
  have r5: "rings (ca_links ?al5) [hg \<mapsto> H]" using invD(2) [OF i5] unfolding R2_def by (simp add: lists_ok_def)
  have e: "R2 |` {} = Map.empty" "ring_nodes Map.empty = {}" by (auto simp: ring_nodes_def)
  have i5': "inv ?al5 Map.empty hs3 none none H [] B" using inv_forget [OF i5, of "{}"] by (simp add: e)
  have g3: "hg \<in> set hs3" by (simp add: hs3)
  obtain al6 where d6: "destroy_huge_loop ?al5 hg = Some al6" "inv al6 Map.empty hs3 none none [] [] B" "same_fields al6 ?al5"
    using destroy_huge_ok [OF i5' r5 g3] by blast
  note f7 = release_head_ok [OF d6(2) g3]
  let ?al7 = "released al6 hg HEAD"
  have i7: "inv ?al7 Map.empty [] none none [] [] B" using f7(3) by (simp add: e hs3)
  have "ctr_destroy al = Some ?al7"
    using fields(1,2) d1(1,3) d2(1) d3(1) f3 f4(1) f5(1) d6(1) f7(1)
    by (simp add: ctr_destroy_def same_fields_def classes_def slab_destroy_used_huge_slabs_def e)
  moreover have "mset (ca_blocks ?al7) = mset B" "heap_ok (ca_blocks ?al7)"
    using contentD(1,2) [OF invD(3) [OF i7]] by (simp_all add: slab_owned_def pool_blocks_def)
  moreover have "ca_self ?al7 = ca_self al" using d6(3) f3(4) by (simp add: same_fields_def)
  ultimately show ?thesis by blast
qed

subsection \<open>A session\<close>

text \<open>A \<open>malloc\<close> that keeps its promise, for examples.\<close>

lemma fold_max_ge: "a \<le> fold max xs a \<and> (\<forall>x \<in> set xs. x \<le> fold max xs (a :: nat))"
proof (induction xs arbitrary: a)
  case (Cons y ys)
  show ?case using Cons.IH [of "max y a"] by auto
qed simp

lemma bump_ok: "malloc_ok \<lparr>libc_malloc = bump, libc_slab = s\<rparr>"
proof -
  have e: "fst x + snd x < bump c bs n" if "x \<in> set bs" for x c bs n
  proof -
    have "fst x + snd x \<in> set (map (\<lambda>(a, k). a + k) bs)" using that by force
    then have "fst x + snd x \<le> fold max (map (\<lambda>(a, k). a + k) bs) 0" using fold_max_ge by blast
    then show ?thesis by (simp add: bump_def)
  qed
  have "fst x \<noteq> bump c bs n \<and> apart (bump c bs n, n) x" if "x \<in> set bs" for x c bs n using e [OF that, of c n] by (auto simp: apart_def)
  then show ?thesis by (simp add: malloc_ok_def)
qed

lemma bump_never_null: "never_null \<lparr>libc_malloc = bump, libc_slab = s\<rparr>"
  by (simp add: never_null_def bump_def)

definition slab0 :: ctr_slab where
  "slab0 = \<lparr>sl_tag = replicate 40 0, sl_size = 0, sl_data_size = 0, sl_slab_size = 0, sl_stat_flag = 0, sl_mem_addr = 0\<rparr>"

definition fresh_libc :: libc where
  "fresh_libc = \<lparr>libc_malloc = bump, libc_slab = slab0\<rparr>"

text \<open>A process with one block of its own.\<close>

definition process :: allocator where
  "process = \<lparr>ca_self = 0, ca_type = ALLOCATOR_TYPE_SYS_MALLOC, ca_alloc_count = 0, slab_array_max_num = 0, mempool_capacity = 0, data_min_size = 0,
     ca_empty = None, ca_pool = None, ca_huge = None, ca_free_p = 0, ca_free = [], ca_used_p = 0, ca_used = [],
     ca_links = \<lparr>l_next = Map.empty, l_prev = Map.empty, l_data = Map.empty, l_head = 0, l_begin = 0, l_count = 0\<rparr>,
     ca_count = Map.empty, ca_mempool = Map.empty, ca_slab = Map.empty, ca_blocks = [(16, 100)], ca_calls = 1\<rparr>"

lemma process_ok: "malloc_ok fresh_libc" "never_null fresh_libc" "heap_ok (ca_blocks process)"
  by (simp_all add: fresh_libc_def bump_ok bump_never_null process_def heap_ok_def)

text \<open>
  C14. The default allocator serves every sequence of requests when \<open>malloc\<close> grants its own: its constructor returns, every call of
  \<open>allocator_mem_alloc\<close> and \<open>allocator_mem_free\<close> returns and accesses only live memory, every request of positive size is granted,
  so that the sizes of the blocks held are those asked for and not released, the blocks held at the end have addresses of their own and do
  not overlap, the counter of the allocator is their number, and the destructor gives back every block the allocator took, so that exactly
  the blocks that were there before stay live.
\<close>

theorem slab_session:
  assumes m: "malloc_ok E" "never_null E" and h: "heap_ok (ca_blocks al0)"
  shows "\<exists>al al1 al2 G log. default_allocator_constructor E al0 = Some al \<and>
    serve (\<lambda>al sz. allocator_mem_alloc E al sz place) allocator_mem_free al [] rs = Some (al1, G, log) \<and>
    map snd G = sizes_held [] rs \<and> held_apart G \<and>
    ca_alloc_count al1 = of_nat (length G) \<and> default_allocator_destructor al1 = Some al2 \<and> mset (ca_blocks al2) = mset (ca_blocks al0)"
proof -
  obtain al T p where d: "default_allocator_constructor E al0 = Some al" "ca_type al = ALLOCATOR_TYPE_CTR_MALLOC" "ca_self al = p" "length (h_free T) = classes al"
      "ctr_rep E T ((ca_used_p al, 8 * classes al) # (ca_free_p al, 8 * classes al) # (p, ALLOCATOR) # ca_blocks al0) al Map.empty"
    using default_ok [OF m h] by blast
  let ?B = "(ca_used_p al, 8 * classes al) # (ca_free_p al, 8 * classes al) # (p, ALLOCATOR) # ca_blocks al0"
  have "mem_rep E T ?B (anchors al) al Map.empty" using d(2,5) by (simp add: mem_rep_def)
  then obtain al1 G L log where s: "serve (\<lambda>al sz. allocator_mem_alloc E al sz place) allocator_mem_free al [] rs = Some (al1, G, log)" "held_apart G"
      "mem_rep E T ?B (anchors al) al1 L" "holds G L" "map snd G = sizes_held [] rs"
    using mem.serve_all [OF _ malloc_grants [OF m(2)]] by blast
  have a: "ca_type al1 = ca_type al" "ca_self al1 = p" "ca_used_p al1 = ca_used_p al" "ca_free_p al1 = ca_free_p al"
    using s(3) d(3) by (simp_all add: mem_rep_def anchors_def)
  then have r: "ctr_rep E T ?B al1 L" using s(3) d(2) by (simp add: mem_rep_def)
  then obtain R where w: "slab_wf al1 R T ?B" by (auto simp: ctr_rep_def)
  have w1: "slab_wf al1 R T ((ca_used_p al1, 8 * classes al) # (ca_free_p al1, 8 * classes al) # (p, ALLOCATOR) # ca_blocks al0)"
    using w by (simp add: a)
  obtain al2 where e: "ctr_destroy al1 = Some al2" "mset (ca_blocks al2) = mset ((p, ALLOCATOR) # ca_blocks al0)" "heap_ok (ca_blocks al2)" "ca_self al2 = ca_self al1"
    using ctr_destroy_ok [OF w1] by blast
  have mem: "(p, ALLOCATOR) \<in> set (ca_blocks al2)" using mset_eq_setD [OF e(2)] by simp
  then have "map_of (ca_blocks al2) p = Some ALLOCATOR" "0 < p" using e(3) by (auto simp: heap_ok_def)
  then have "sys_free al2 p = Some (released al2 p ALLOCATOR)" by (simp add: sys_free_def released_def)
  then have "default_allocator_destructor al1 = Some (released al2 p ALLOCATOR)"
    using e(1,4) a(1,2) d(2) by (simp add: allocator_destroy_def default_allocator_destructor_def)
  moreover have "mset (ca_blocks (released al2 p ALLOCATOR)) = mset (ca_blocks al0)" using e(2) by (simp add: released_def)
  moreover have "ca_alloc_count al1 = of_nat (length G)"
  proof -
    have "card (dom L) = length G" using s(4) unfolding holds_def by (metis distinct_card length_map list.set_map)
    then show ?thesis using r m(2) by (simp add: ctr_rep_def)
  qed
  ultimately show ?thesis using d(1) s(1,2,5) by blast
qed

theorem slab_session_witness:
  "\<exists>al al1 al2 G log. default_allocator_constructor fresh_libc process = Some al \<and>
    serve (\<lambda>al sz. allocator_mem_alloc fresh_libc al sz [97, 58, 49]) allocator_mem_free al [] [Alloc 100, Alloc 40000, Release 1, Alloc 90] =
      Some (al1, G, log) \<and> map snd G = [90, 40000] \<and> held_apart G \<and>
    ca_alloc_count al1 = of_nat (length G) \<and> default_allocator_destructor al1 = Some al2 \<and> mset (ca_blocks al2) = {#(16, 100)#}"
  using slab_session [OF process_ok, of "[97, 58, 49]" "[Alloc 100, Alloc 40000, Release 1, Alloc 90]"] by (simp add: process_def)

text \<open>
  An allocator serves a sequence of requests: no call accesses memory that is not live, each request for memory is answered, with null
  only when its size is 0 or \<open>malloc\<close> refuses what the allocator needs for it, and the blocks held do not overlap.
\<close>

definition serves :: "libc \<Rightarrow> bytes \<Rightarrow> allocator \<Rightarrow> mem_request list \<Rightarrow> bool" where
  "serves E place al rs \<longleftrightarrow>
     (\<exists>al' G log. serve (\<lambda>al sz. allocator_mem_alloc E al sz place) allocator_mem_free al [] rs = Some (al', G, log) \<and> held_apart G \<and>
        map (fst \<circ> snd) log = sizes_asked rs \<and> granted_log (malloc_refuses E) log)"

lemma rep_serves:
  assumes "mem_rep E T B anc al Map.empty"
  shows "serves E place al rs"
proof -
  obtain al' G L log where s: "serve (\<lambda>al sz. allocator_mem_alloc E al sz place) allocator_mem_free al [] rs = Some (al', G, log)" "held_apart G"
      "granted_log (malloc_refuses E) log" using mem.serve_safe [OF assms] by blast
  then show ?thesis using serve_log [OF s(1)] unfolding serves_def by blast
qed

lemma ctr_rep_malloc: "ctr_rep E0 T B al L \<Longrightarrow> never_null E0 \<Longrightarrow> malloc_ok E \<Longrightarrow> ctr_rep E T B al L"
  by (simp add: ctr_rep_def)

text \<open>An allocator created and configured by \<open>allocator_create\<close> and \<open>allocator_ctr_init\<close>.\<close>

definition ctr_setup :: "libc \<Rightarrow> allocator \<Rightarrow> u32 \<Rightarrow> u32 \<Rightarrow> u32 \<Rightarrow> allocator option" where
  "ctr_setup E al n k c = allocator_ctr_init E (snd (allocator_create E al ALLOCATOR_TYPE_CTR_MALLOC)) n k c"

lemma ctr_setup_rep:
  assumes m: "malloc_ok E" "never_null E" and h: "heap_ok (ca_blocks al)"
    and c: "config_ok (ctr_config (al\<lparr>slab_array_max_num := n, data_min_size := k, mempool_capacity := c\<rparr>))"
  shows "\<exists>al' T B. ctr_setup E al n k c = Some al' \<and> ca_type al' = ALLOCATOR_TYPE_CTR_MALLOC \<and> ctr_rep E T B al' Map.empty"
proof -
  obtain p al1 where p: "sys_malloc E al ALLOCATOR = (p, al1)" by fastforce
  have nz: "p \<noteq> 0" by (rule malloc_granted [OF m(2) p])
  define al2 where "al2 = al1\<lparr>ca_self := p, ca_type := ALLOCATOR_TYPE_CTR_MALLOC, ca_alloc_count := 0\<rparr>"
  let ?f = "\<lambda>al. ctr_config (al\<lparr>slab_array_max_num := n, data_min_size := k, mempool_capacity := c\<rparr>)"
  have hb: "ca_blocks al1 = (p, ALLOCATOR) # ca_blocks al" "heap_ok ((p, ALLOCATOR) # ca_blocks al)" using malloc_law [OF m(1) h p] nz by auto
  have cb: "ca_blocks (?f al2) = (p, ALLOCATOR) # ca_blocks al" by (simp add: ctr_config_def Let_def al2_def hb(1))
  have "config_ok (?f al2)" using c by (simp add: config_ok_def ctr_config_def Let_def classes_def class_size_def pool_capacity_def split: if_splits)
  then have "starting (?f al2) [] ((p, ALLOCATOR) # ca_blocks al)" using starting_blank [of "?f al2"] hb(2) unfolding cb by blast
  note r = ctr_init_rep [OF m this]
  have t: "ca_type al2 = ALLOCATOR_TYPE_CTR_MALLOC" by (simp add: al2_def)
  have "ctr_setup E al n k c = allocator_ctr_init E al2 n k c" using p nz by (simp add: ctr_setup_def allocator_create_def al2_def)
  then show ?thesis using r t by metis
qed

text \<open>
  C15. An allocator of either type serves every sequence of requests also when \<open>malloc\<close> refuses some of them: no call accesses memory
  that is not live, every request is answered, with the null pointer only when its size is 0 or when \<open>malloc\<close> refuses what the
  allocator would need for it (for \<open>ALLOCATOR_TYPE_SYS_MALLOC\<close> the block itself; for the slab allocator the block of a size beyond the
  largest class, or a new pool), and the blocks held have addresses of their own and do not overlap.  The slab allocator is one
  set up by \<open>allocator_create\<close> and \<open>allocator_ctr_init\<close> while \<open>malloc\<close> still granted everything, with parameters of which the largest class
  with its header fits into a pool and a pool is smaller than 2 GB; a pool of 1024 bytes with the default classes is not such a
  configuration, and with it slabs leave their pool.
\<close>

theorem allocator_requests:
  assumes m: "malloc_ok E" and h: "heap_ok (ca_blocks al)"
  shows "(ca_type al = ALLOCATOR_TYPE_SYS_MALLOC \<longrightarrow> serves E place al rs) \<and>
    (malloc_ok E0 \<and> never_null E0 \<and> config_ok (ctr_config (al\<lparr>slab_array_max_num := n, data_min_size := k, mempool_capacity := c\<rparr>)) \<longrightarrow>
      (\<exists>al'. ctr_setup E0 al n k c = Some al' \<and> serves E place al' rs))"
proof (intro conjI impI)
  assume t: "ca_type al = ALLOCATOR_TYPE_SYS_MALLOC"
  let ?T = "\<lparr>h_free = [], h_used = [], h_huge = 0, h_pool = 0, h_empty = 0\<rparr>"
  have "mem_rep E ?T [] (anchors al) al Map.empty" by (simp add: mem_sys [OF t] sys_rep_def m h map_le_def)
  then show "serves E place al rs" by (rule rep_serves)
next
  assume "malloc_ok E0 \<and> never_null E0 \<and> config_ok (ctr_config (al\<lparr>slab_array_max_num := n, data_min_size := k, mempool_capacity := c\<rparr>))"
  then have e: "malloc_ok E0" "never_null E0" "config_ok (ctr_config (al\<lparr>slab_array_max_num := n, data_min_size := k, mempool_capacity := c\<rparr>))" by simp_all
  obtain al' T B where d: "ctr_setup E0 al n k c = Some al'" "ca_type al' = ALLOCATOR_TYPE_CTR_MALLOC" "ctr_rep E0 T B al' Map.empty"
    using ctr_setup_rep [OF e(1,2) h e(3)] by blast
  have "mem_rep E T B (anchors al') al' Map.empty" using d(2) ctr_rep_malloc [OF d(3) e(2) m] by (simp add: mem_ctr)
  then show "\<exists>al'. ctr_setup E0 al n k c = Some al' \<and> serves E place al' rs" using d(1) rep_serves by blast
qed

text \<open>A \<open>malloc\<close> that grants nothing after its first 20 answers.\<close>

definition scarce_libc :: libc where
  "scarce_libc = \<lparr>libc_malloc = (\<lambda>c bs n. if c < 20 then bump c bs n else 0), libc_slab = slab0\<rparr>"

lemma scarce_ok: "malloc_ok scarce_libc"
  using bump_ok [of slab0] by (simp add: malloc_ok_def scarce_libc_def)

lemma small_config: "config_ok (ctr_config (process\<lparr>slab_array_max_num := 4, data_min_size := 16, mempool_capacity := 1024\<rparr>))"
  by (simp add: config_ok_def ctr_config_def Let_def classes_def class_size_def pool_capacity_def)

theorem allocator_requests_witness:
  "serves scarce_libc [] process (replicate 50 (Alloc 10) @ [Release 3]) \<and>
   (\<exists>al. ctr_setup fresh_libc process 4 16 1024 = Some al \<and>
      serves scarce_libc [] al (replicate 50 (Alloc 10) @ [Alloc 40000, Release 3, Alloc 7]))"
proof
  have t: "ca_type process = ALLOCATOR_TYPE_SYS_MALLOC" by (simp add: process_def)
  show "serves scarce_libc [] process (replicate 50 (Alloc 10) @ [Release 3])"
    using allocator_requests [OF scarce_ok process_ok(3)] t by blast
  show "\<exists>al. ctr_setup fresh_libc process 4 16 1024 = Some al \<and>
      serves scarce_libc [] al (replicate 50 (Alloc 10) @ [Alloc 40000, Release 3, Alloc 7])"
    using allocator_requests [OF scarce_ok process_ok(3), where ?E0.0 = fresh_libc and n = 4 and k = 16 and c = 1024] process_ok(1,2) small_config by blast
qed

end
