(* ===== verification/Spec2Isabelle.thy ===== *)
theory Spec2Isabelle
  imports RingBuffer Crc Md5 Sha1 Base64 Skcipher Bitmap HeapQueue BigNumber Vector ArrayStack LinkList HashList RBTreeMap StringIO Blob IntervalTree Trie SlabEnd
begin

text \<open>
  A verification development for libobject, a C library that puts an object system (classes, virtual methods,
  allocators) under a collection of data structures, buffers, codecs, ciphers and network and media services.
  The development covers the parts that carry algorithms of the library itself; paths below are relative to
  \<open>src/src\<close>.

  \<^bold>\<open>Method.\<close>  A C structure is a \<open>record\<close> with the fields of the source, an enumeration a \<open>datatype\<close>, a function a
  definition that returns the new state, a loop a recursive function.  A buffer of known size is a list, and
  an access goes through \<open>ld\<close>, \<open>st\<close>, \<open>ld1\<close> or \<open>st1\<close> of theory \<open>Prelude\<close>: they are \<open>None\<close> outside the object.  So a value
  \<open>None\<close> of an operation is undefined behaviour of the C program, and every theorem of the form \<open>f s = Some r\<close> includes
  that the call stays in bounds and ends.  The codes that the functions return (1, 0, -1) are results, not \<open>None\<close>.
  The macros \<open>TRY\<close>, \<open>THROW\<close>, \<open>EXEC\<close> of \<open>include/libobject/core/try.h\<close> are their control flow: falling
  through yields 1, \<open>THROW (e)\<close> yields \<open>e\<close>.  Integers are words where the code relies on their width and wrap-around,
  and \<open>int\<close> or \<open>nat\<close>, with the reduction written out, elsewhere.  What an allocation returns (success, an address, the
  contents of a fresh block) is an argument, also in the theories on the allocators, where it is what \<open>malloc\<close> returns.  Locks, debug output and the dispatch through the object system are
  not part of the models.

  \<^bold>\<open>Theories and sources.\<close>
    \<^item> \<open>Prelude\<close>: integer types, checked memory, lemmas on lists, options and words.
    \<^item> \<open>ByteStream\<close>: the interface of a first-in first-out byte stream as the locale \<open>byte_stream\<close> (write and read
      laws, sequences of operations, first occurrence of a needle).
    \<^item> \<open>BufferIO\<close>: \<open>core/io/Buffer.c\<close>, the growing buffer; it interprets \<open>byte_stream\<close>.
    \<^item> \<open>RingBuffer\<close>: \<open>core/io/Ring_Buffer.c\<close>, the ring with its last-operation flag; it interprets \<open>byte_stream\<close> with
      the size as bound and moves bytes to a \<open>Buffer\<close>.
    \<^item> \<open>Crc\<close>: \<open>encoding/crc/crc16.c\<close>, \<open>crc32.c\<close>, \<open>crc64.c\<close> with their tables, against bitwise shift registers.
    \<^item> \<open>MdStream\<close>, \<open>Md5\<close>, \<open>Sha1\<close>: \<open>encoding/digest/md5.c\<close>, \<open>sha1.c\<close>, against RFC 1321 and FIPS 180 written from the standards; the buffering that both share is stated once with the block
      function as an argument, in the locale \<open>md_scheme\<close>, and interpreted for the two digests.
    \<^item> \<open>Base64\<close>: \<open>encoding/base64/base64.c\<close>, against the encoding of RFC 4648.
    \<^item> \<open>Aes\<close>: \<open>crypto/skcipher/Aes.c\<close>, against FIPS-197 (S-box layers, MixColumns over the field, key schedule).
    \<^item> \<open>Skcipher\<close>: \<open>SkcipherAlgo.c\<close>, \<open>SkcipherModeCbc.c\<close>, \<open>SkcipherModeEcb.c\<close>: padding and the modes over any block
      cipher (locale \<open>block_cipher\<close>), interpreted for AES.
    \<^item> \<open>Bitmap\<close>: \<open>core/utils/data_structure/bitmap.c\<close> as a set of positions (locale \<open>bit_set\<close>).
    \<^item> \<open>HeapQueue\<close>: \<open>core/utils/data_structure/heap/heap.c\<close> as a priority queue (locales \<open>heap_order\<close>, \<open>priority_queue\<close>).
    \<^item> \<open>BigNumber\<close>: \<open>core/utils/bn/big_number.c\<close>, little-endian numbers in byte buffers, against arithmetic on \<open>nat\<close>.
    \<^item> \<open>Vector\<close>: \<open>core/utils/data_structure/vector/vector.c\<close> as a list of slots (locale \<open>growing_array\<close>).
    \<^item> \<open>ArrayStack\<close>: \<open>core/utils/data_structure/array_stack/array_stack.c\<close> as a bounded stack (locale \<open>bounded_stack\<close>).
    \<^item> \<open>LinkList\<close>: \<open>core/utils/data_structure/link_list\<close>, the list heads of \<open>list.h\<close> and the class \<open>core/Linked_List.c\<close>,
      over a heap of nodes, as a list with access at both ends (locale \<open>two_ended_list\<close>).
    \<^item> \<open>HashList\<close>: \<open>core/utils/data_structure/hash_map/hash_list.c\<close> with the chains of \<open>list.h\<close>, the classes \<open>core/Hash_Map.c\<close>,
      \<open>core/Hmap_Iterator.c\<close> and the loops of \<open>core/Map.c\<close>, as a list of bindings (locale \<open>map_service\<close>).
    \<^item> \<open>RBTree\<close>, \<open>RBErase\<close>: \<open>core/utils/data_structure/rbtree_map/rbtree.c\<close> with \<open>rbtree.h\<close>, red-black trees in a heap of nodes whose
      parent pointer and colour share a word.  A tree with a hole (a context) states what a loop leaves unchanged; the code has every
      case twice, and the right-hand one follows from the left-hand one on the mirrored heap.
    \<^item> \<open>RBTreeMap\<close>: \<open>rbtree_map.c\<close> over these trees, the classes \<open>core/RBTree_Map.c\<close> and \<open>core/RBTree_Iterator.c\<close> and the loops of \<open>core/Map.c\<close>,
      as a list of bindings sorted by key (locale \<open>ordered_map\<close>); the comparison function is an argument, with the hypothesis \<open>cmp_ok\<close>
      that it is a total preorder.
    \<^item> \<open>IntervalTree\<close>: \<open>core/Interval_Tree.c\<close>, the search for the interval around a number in that ordered map.
    \<^item> \<open>Trie\<close>: \<open>core/Trie.c\<close>, the prefix tree over a heap of nodes and tables, as a multiset of words; an auxiliary map gives the node
      of each prefix.  The block that the allocator grants for the alphabet is an argument, since the constructor asks for one byte too few.
    \<^item> \<open>ListRings\<close>, \<open>SlabAlloc\<close>, \<open>SlabContent\<close>, \<open>SlabSafe\<close>, \<open>SlabUse\<close>, \<open>SlabInit\<close>, \<open>SlabEnd\<close>: \<open>core/utils/alloc\<close>, the slab allocator, the allocator over
      \<open>malloc\<close> and the wrappers; several lists of \<open>list.h\<close> in one heap, the model, the memory it owns, its invariant, the sequences of requests of a
      client with the log of the answers (locales \<open>memory_allocator\<close>, \<open>guarded_allocator\<close> and \<open>counting_allocator\<close>, interpreted for the slab allocator, for \<open>malloc\<close> and for the wrappers), construction
      and destruction.  \<open>malloc\<close> is an argument under the hypothesis \<open>malloc_ok\<close>: a null pointer or a block that overlaps no live one.  The
      slab allocator is correct for the parameters that \<open>config_ok\<close> allows (the largest class with its header fits into a pool).
    \<^item> \<open>Service\<close>, \<open>StringObj\<close>: the class \<open>core/String.c\<close>, a growing block with a length, as a text (locale \<open>service\<close>: an operation that is legal in
      the abstract state answers as specified); search, split and replacement with the matcher of the C library's regular expressions as
      an argument, under the hypothesis \<open>match_ok\<close> that a match is not empty and lies in the text.
    \<^item> \<open>StringIO\<close>: \<open>read_to_string\<close> of \<open>Buffer\<close> and \<open>Ring_Buffer\<close>, which append to a \<open>String\<close>.
    \<^item> \<open>Blob\<close>: \<open>core/utils/blob/blob.c\<close>, attributes with a name and a big-endian value in a block, with nested tables, over the stack of theory
      \<open>ArrayStack\<close>, against the layout of a tree of attributes.

  \<^bold>\<open>What is shown.\<close>  For the containers: any sequence of the operations that each theorem names refines the abstract container, through
  wrap-around, growth and reallocation, with the return codes of every branch.  In the containers of nodes each new node gets an address
  that is not in use in the state of that call (\<open>granted_run\<close> of theory \<open>Service\<close>), so that freed addresses may come back, and the hash
  table and the tree may be refused a node; the allocated nodes are as many as the entries, and destroying the hash table or the tree ends and
  performs exactly the releases that its values call for; the trees stay balanced, their links well formed and their order is that of the keys.  A string stays a C string of its reported length until its block is full, and splitting and replacing end with the specified texts.  For the codecs and ciphers: equality with the standards' definitions, independence of
  the chunking, round trips, bounds of all memory accesses.  For the allocators: each request is granted unless \<open>malloc\<close> refuses what it needs, blocks handed out never overlap, whatever was released in between, nothing is lost at the end.  For the numbers: the exact results with their
  sizes and signs, and where the code departs from them.  The hypotheses of a theorem that exclude inputs on which the code
  does something else than it means to (reads behind an object, full blocks, empty matches) are named in its text; some theorems describe
  what it does there, each for all such inputs and not for one.

  \<^bold>\<open>Loops, fuel and bounds.\<close>  No definition uses fuel.  Loops end by a measure; the traversals of a linked list, a hash table or a tree, the rebalancing, the searches in a string and the two copies
  of \<open>vector_copy\<close>, which need not end on every state, are \<open>partial_function\<close>s in the option type, and the theorems about
  them state that they return.  Numeric bounds in hypotheses are those under which the code's own integers do not
  wrap: lengths below \<open>INT_MAX\<close> for the streams, fewer than $2^{28}$ slots of a vector (the block size in bytes is computed
  in 32 bits), numbers of at most 255 bytes for \<open>bn_add\<close> and \<open>bn_sub\<close> (their counters are bytes), fewer than $2^{32}$
  list entries, fewer than $2^{31}$ entries of a hash table (the count is returned as an \<open>int\<close>).

  \<^bold>\<open>Not modelled.\<close>  The object system itself (\<open>core/object.c\<close>, class registration by constructor attributes, dispatch by
  offsets of members), threads, timers and the event loop; the remaining containers; \<open>bn_div\<close>,
  \<open>bn_rand\<close> and the hexadecimal output; parsers of the archive, media, network and user interface directories, which
  mostly drive files, sockets and devices; tests.  The parsing of the cipher name in \<open>Skcipher.c\<close> uses the C library's
  regular expressions.
\<close>

end
